(* ===== verification/Prelude.thy ===== *)
theory Prelude
  imports Main "HOL-Library.Char_ord" "HOL-Library.List_Lexorder" "HOL-Library.Product_Lexorder"
    "HOL-Library.Word" "HOL-Library.Sublist"
begin

text \<open>
  The vocabulary every component shares.

  A \<^verbatim>\<open>std::string\<close> is a list of bytes, \<^typ>\<open>string\<close>; its order is the
  lexicographic order on unsigned bytes (\<^verbatim>\<open>char_traits<char>::compare\<close>), which is
  the library's order on lists of characters.  An exception is a value of
  \<open>exn\<close>: the standard library's exception classes that the sources throw, and
  \<open>Undefined\<close> for a read that C++ leaves undefined (an index past the end of a
  vector, an empty optional dereferenced).  A function that may throw returns
  \<open>exn + 'a\<close>; \<open>rbind\<close> sequences two such computations.

  The rest is the part of the C and C++ libraries that the sources call:
  character classes in the C locale, \<^verbatim>\<open>std::to_string\<close>, the \<^verbatim>\<open>std::stoull\<close>
  family, \<^verbatim>\<open>std::getline\<close> on a string stream.
\<close>

section \<open>Collections of rewrite rules\<close>

named_theorems omap_simps \<open>laws of the ordered maps\<close>
named_theorems codec_simps \<open>round trips and lengths of the byte codecs\<close>
named_theorems view_simps \<open>how the operations of the store act on its abstract view\<close>

section \<open>Exceptions as values\<close>

datatype exn =
    RuntimeError string
  | InvalidArgument string
  | OutOfRange string
  | Undefined

type_synonym 'a res = "exn + 'a"

fun what :: "exn \<Rightarrow> string" where
  "what (RuntimeError m) = m"
| "what (InvalidArgument m) = m"
| "what (OutOfRange m) = m"
| "what Undefined = ''undefined behaviour''"

definition rbind :: "'e + 'a \<Rightarrow> ('a \<Rightarrow> 'e + 'b) \<Rightarrow> 'e + 'b" where
  "rbind m f = (case m of Inl e \<Rightarrow> Inl e | Inr x \<Rightarrow> f x)"

definition vec_at :: "'a list \<Rightarrow> nat \<Rightarrow> 'a res" where
  "vec_at xs i = (if i < length xs then Inr (xs ! i) else Inl Undefined)"

definition opt_deref :: "'a option \<Rightarrow> 'a res" where
  "opt_deref x = (case x of None \<Rightarrow> Inl Undefined | Some v \<Rightarrow> Inr v)"

text \<open>A computation over a cursor (the rest of a buffer, the tokens not yet consumed) that may
  throw: \<open>sbind\<close> runs one after the other.\<close>

type_synonym ('s, 'a) cursor = "'s \<Rightarrow> exn + ('a \<times> 's)"

definition sret :: "'a \<Rightarrow> ('s, 'a) cursor" where
  "sret x = (\<lambda>s. Inr (x, s))"

definition sthrow :: "exn \<Rightarrow> ('s, 'a) cursor" where
  "sthrow e = (\<lambda>s. Inl e)"

definition sbind :: "('s, 'a) cursor \<Rightarrow> ('a \<Rightarrow> ('s, 'b) cursor) \<Rightarrow> ('s, 'b) cursor" where
  "sbind m f = (\<lambda>s. case m s of Inl e \<Rightarrow> Inl e | Inr (x, s') \<Rightarrow> f x s')"

fun srepeat :: "('s, 'a) cursor \<Rightarrow> nat \<Rightarrow> ('s, 'a list) cursor" where
  "srepeat m 0 = sret []"
| "srepeat m (Suc n) = sbind m (\<lambda>x. sbind (srepeat m n) (\<lambda>xs. sret (x # xs)))"

definition srun :: "('s, 'a) cursor \<Rightarrow> 's \<Rightarrow> 'a res" where
  "srun m s = (case m s of Inl e \<Rightarrow> Inl e | Inr (x, _) \<Rightarrow> Inr x)"

text \<open>A computation that updates a state and may throw: what was done before the exception stays
  done.\<close>

type_synonym ('s, 'a) eff = "'s \<Rightarrow> 'a res \<times> 's"

definition eret :: "'a \<Rightarrow> ('s, 'a) eff" where
  "eret x = (\<lambda>s. (Inr x, s))"

definition ethrow :: "exn \<Rightarrow> ('s, 'a) eff" where
  "ethrow e = (\<lambda>s. (Inl e, s))"

definition ebind :: "('s, 'a) eff \<Rightarrow> ('a \<Rightarrow> ('s, 'b) eff) \<Rightarrow> ('s, 'b) eff" where
  "ebind m f = (\<lambda>s. case m s of (Inl e, s') \<Rightarrow> (Inl e, s') | (Inr x, s') \<Rightarrow> f x s')"

definition eread :: "('s \<Rightarrow> 'a) \<Rightarrow> ('s, 'a) eff" where
  "eread f = (\<lambda>s. (Inr (f s), s))"

definition emodify :: "('s \<Rightarrow> 's) \<Rightarrow> ('s, unit) eff" where
  "emodify f = (\<lambda>s. (Inr (), f s))"

definition elift :: "'a res \<Rightarrow> ('s, 'a) eff" where
  "elift r = (\<lambda>s. (r, s))"

text \<open>\<^verbatim>\<open>for (x : xs) f(x)\<close>.\<close>

fun efor :: "'a list \<Rightarrow> ('a \<Rightarrow> ('s, unit) eff) \<Rightarrow> ('s, unit) eff" where
  "efor [] f = eret ()"
| "efor (x # xs) f = ebind (f x) (\<lambda>_. efor xs f)"

fun rmap :: "('a \<Rightarrow> 'e + 'b) \<Rightarrow> 'a list \<Rightarrow> 'e + 'b list" where
  "rmap f [] = Inr []"
| "rmap f (x # xs) = rbind (f x) (\<lambda>y. rbind (rmap f xs) (\<lambda>ys. Inr (y # ys)))"

section \<open>Characters and numbers\<close>

definition isdigit :: "char \<Rightarrow> bool" where
  "isdigit c \<longleftrightarrow> 48 \<le> (of_char c :: nat) \<and> (of_char c :: nat) \<le> 57"

definition isupper :: "char \<Rightarrow> bool" where
  "isupper c \<longleftrightarrow> 65 \<le> (of_char c :: nat) \<and> (of_char c :: nat) \<le> 90"

definition islower :: "char \<Rightarrow> bool" where
  "islower c \<longleftrightarrow> 97 \<le> (of_char c :: nat) \<and> (of_char c :: nat) \<le> 122"

definition isalpha :: "char \<Rightarrow> bool" where
  "isalpha c \<longleftrightarrow> isupper c \<or> islower c"

definition isalnum :: "char \<Rightarrow> bool" where
  "isalnum c \<longleftrightarrow> isalpha c \<or> isdigit c"

definition isspace :: "char \<Rightarrow> bool" where
  "isspace c \<longleftrightarrow> (of_char c :: nat) = 32 \<or> (9 \<le> (of_char c :: nat) \<and> (of_char c :: nat) \<le> 13)"

definition toupper :: "char \<Rightarrow> char" where
  "toupper c = (if islower c then char_of ((of_char c :: nat) - 32) else c)"

definition digit_char :: "nat \<Rightarrow> char" where
  "digit_char d = char_of (48 + d)"

definition digit_val :: "char \<Rightarrow> nat" where
  "digit_val c = of_char c - 48"

fun to_string :: "nat \<Rightarrow> string" where
  "to_string n =
     (if n < 10 then [digit_char n] else to_string (n div 10) @ [digit_char (n mod 10)])"

declare to_string.simps [simp del]

definition decimal :: "string \<Rightarrow> nat" where
  "decimal ds = foldl (\<lambda>n c. 10 * n + digit_val c) 0 ds"

text \<open>\<open>sto_parse\<close> is the common part of \<^verbatim>\<open>strtoll\<close> and \<^verbatim>\<open>strtoull\<close>: leading white space,
  an optional sign, then digits; \<open>None\<close> when there is no digit.\<close>

definition sto_parse :: "string \<Rightarrow> (bool \<times> nat) option" where
  "sto_parse s =
     (let s1 = dropWhile isspace s;
          neg = (s1 \<noteq> [] \<and> hd s1 = CHR ''-'');
          s2 = (if s1 \<noteq> [] \<and> (hd s1 = CHR ''-'' \<or> hd s1 = CHR ''+'') then tl s1 else s1);
          ds = takeWhile isdigit s2
      in if ds = [] then None else Some (neg, decimal ds))"

definition stoll :: "string \<Rightarrow> int res" where
  "stoll s = (case sto_parse s of
       None \<Rightarrow> Inl (InvalidArgument ''stoll'')
     | Some (neg, n) \<Rightarrow>
         (let i = (if neg then - int n else int n)
          in if i < - (2 ^ 63) \<or> 2 ^ 63 \<le> i then Inl (OutOfRange ''stoll'') else Inr i))"

definition sto_unsigned :: "string \<Rightarrow> string \<Rightarrow> 64 word res" where
  "sto_unsigned name s = (case sto_parse s of
       None \<Rightarrow> Inl (InvalidArgument name)
     | Some (neg, n) \<Rightarrow>
         if 2 ^ 64 \<le> n then Inl (OutOfRange name)
         else Inr (if neg then - of_nat n else of_nat n))"

definition stoull :: "string \<Rightarrow> 64 word res" where
  "stoull s = sto_unsigned ''stoull'' s"

definition stoul :: "string \<Rightarrow> 64 word res" where
  "stoul s = sto_unsigned ''stoul'' s"

section \<open>Strings\<close>

definition StartsWith :: "string \<Rightarrow> string \<Rightarrow> bool" where
  "StartsWith s p \<longleftrightarrow> length p \<le> length s \<and> take (length p) s = p"

text \<open>\<^verbatim>\<open>while (std::getline(stream, line, delim))\<close>: the fields between delimiters; a
  delimiter at the very end does not start another field.\<close>

fun getlines_aux :: "char \<Rightarrow> string \<Rightarrow> string \<Rightarrow> string list" where
  "getlines_aux d acc [] = (if acc = [] then [] else [rev acc])"
| "getlines_aux d acc (c # cs) =
     (if c = d then rev acc # getlines_aux d [] cs else getlines_aux d (c # acc) cs)"

definition getlines :: "char \<Rightarrow> string \<Rightarrow> string list" where
  "getlines d s = getlines_aux d [] s"

section \<open>Lemmas\<close>

lemma rbind_simps [simp]:
  "rbind (Inl e) f = Inl e"
  "rbind (Inr x) f = f x"
  by (simp_all add: rbind_def)

lemma rbind_Inr_iff: "rbind m f = Inr y \<longleftrightarrow> (\<exists>x. m = Inr x \<and> f x = Inr y)"
  by (cases m) auto

lemma rbind_Inl_iff: "rbind m f = Inl e \<longleftrightarrow> m = Inl e \<or> (\<exists>x. m = Inr x \<and> f x = Inl e)"
  by (cases m) auto

lemma sret_apply [simp]: "sret x s = Inr (x, s)"
  by (simp add: sret_def)

lemma sthrow_apply [simp]: "sthrow e s = Inl e"
  by (simp add: sthrow_def)

lemma sbind_Inr [simp]: "m s = Inr (x, s') \<Longrightarrow> sbind m f s = f x s'"
  by (simp add: sbind_def)

lemma sbind_Inl [simp]: "m s = Inl e \<Longrightarrow> sbind m f s = Inl e"
  by (simp add: sbind_def)

lemma sbind_Inr_iff: "sbind m f s = Inr r \<longleftrightarrow> (\<exists>x s'. m s = Inr (x, s') \<and> f x s' = Inr r)"
  by (auto simp: sbind_def split: sum.splits prod.splits)

lemma sbind_Inl_iff:
  "sbind m f s = Inl e \<longleftrightarrow> m s = Inl e \<or> (\<exists>x s'. m s = Inr (x, s') \<and> f x s' = Inl e)"
  by (auto simp: sbind_def split: sum.splits prod.splits)

lemma eret_apply [simp]: "eret x s = (Inr x, s)"
  by (simp add: eret_def)

lemma ethrow_apply [simp]: "ethrow e s = (Inl e, s)"
  by (simp add: ethrow_def)

lemma eread_apply [simp]: "eread f s = (Inr (f s), s)"
  by (simp add: eread_def)

lemma emodify_apply [simp]: "emodify f s = (Inr (), f s)"
  by (simp add: emodify_def)

lemma elift_apply [simp]: "elift r s = (r, s)"
  by (simp add: elift_def)

lemma ebind_Inr [simp]: "m s = (Inr x, s') \<Longrightarrow> ebind m f s = f x s'"
  by (simp add: ebind_def)

lemma ebind_Inl [simp]: "m s = (Inl e, s') \<Longrightarrow> ebind m f s = (Inl e, s')"
  by (simp add: ebind_def)

lemma ebind_Inr_iff:
  "ebind m f s = (Inr y, t) \<longleftrightarrow> (\<exists>x s'. m s = (Inr x, s') \<and> f x s' = (Inr y, t))"
  by (auto simp: ebind_def split: prod.splits sum.splits)

lemma ebind_Inl_iff:
  "ebind m f s = (Inl e, t) \<longleftrightarrow> m s = (Inl e, t) \<or> (\<exists>x s'. m s = (Inr x, s') \<and> f x s' = (Inl e, t))"
  by (auto simp: ebind_def split: prod.splits sum.splits)

text \<open>\<open>keeps I m\<close>: whatever \<open>m\<close> does, an exception included, the property \<open>I\<close> of the state
  survives.\<close>

definition keeps :: "('s \<Rightarrow> bool) \<Rightarrow> ('s, 'a) eff \<Rightarrow> bool" where
  "keeps I m \<longleftrightarrow> (\<forall>s. I s \<longrightarrow> I (snd (m s)))"

named_theorems keeps_intros \<open>computations that keep an invariant\<close>

lemma keepsI: "(\<And>s. I s \<Longrightarrow> I (snd (m s))) \<Longrightarrow> keeps I m"
  by (simp add: keeps_def)

lemma keepsD: "keeps I m \<Longrightarrow> I s \<Longrightarrow> I (snd (m s))"
  by (simp add: keeps_def)

lemma keeps_basic [keeps_intros]: "keeps I (eret x)" "keeps I (ethrow e)" "keeps I (eread f)" "keeps I (elift r)"
  by (simp_all add: keeps_def)

lemma keeps_bind [keeps_intros]: "keeps I m \<Longrightarrow> (\<And>x. keeps I (f x)) \<Longrightarrow> keeps I (ebind m f)"
  by (auto simp: keeps_def ebind_def split: prod.splits sum.splits)

lemma keeps_modify: "(\<And>s. I s \<Longrightarrow> I (f s)) \<Longrightarrow> keeps I (emodify f)"
  by (simp add: keeps_def)

lemma keeps_if [keeps_intros]: "keeps I m \<Longrightarrow> keeps I n \<Longrightarrow> keeps I (if b then m else n)"
  by simp

lemma keeps_for [keeps_intros]: "(\<And>x. keeps I (f x)) \<Longrightarrow> keeps I (efor xs f)"
  by (induction xs) (auto intro: keeps_intros)

text \<open>\<open>total_on I m\<close>: from a state in \<open>I\<close> the computation does not throw.\<close>

definition total_on :: "('s \<Rightarrow> bool) \<Rightarrow> ('s, 'a) eff \<Rightarrow> bool" where
  "total_on I m \<longleftrightarrow> (\<forall>s. I s \<longrightarrow> \<not> isl (fst (m s)))"

named_theorems total_intros \<open>computations that do not throw\<close>

lemma total_onI: "(\<And>s. I s \<Longrightarrow> \<not> isl (fst (m s))) \<Longrightarrow> total_on I m"
  by (simp add: total_on_def)

lemma total_onD: "total_on I m \<Longrightarrow> I s \<Longrightarrow> \<not> isl (fst (m s))"
  by (simp add: total_on_def)

lemma total_basic [total_intros]: "total_on I (eret x)" "total_on I (eread f)" "total_on I (emodify g)"
  by (simp_all add: total_on_def)

lemma total_bind [total_intros]:
  assumes "keeps I m" and "total_on I m" and "\<And>x. total_on I (f x)"
  shows "total_on I (ebind m f)"
proof (rule total_onI)
  fix s assume s: "I s"
  obtain r t where m: "m s = (r, t)" by (cases "m s")
  with s assms(1,2) have "I t" "\<not> isl r" by (auto simp: keeps_def total_on_def)
  with m show "\<not> isl (fst (ebind m f s))" using total_onD [OF assms(3)] by (cases r) auto
qed

lemma total_if [total_intros]: "total_on I m \<Longrightarrow> total_on I n \<Longrightarrow> total_on I (if b then m else n)"
  by simp

lemma total_for: "(\<And>x. keeps I (f x)) \<Longrightarrow> (\<And>x. total_on I (f x)) \<Longrightarrow> total_on I (efor xs f)"
  by (induction xs) (auto intro: total_intros)

lemma vec_at_Inr [simp]: "i < length xs \<Longrightarrow> vec_at xs i = Inr (xs ! i)"
  by (simp add: vec_at_def)

lemma rmap_Inr_length: "rmap f xs = Inr ys \<Longrightarrow> length ys = length xs"
  by (induction xs arbitrary: ys) (auto simp: rbind_Inr_iff)

lemma StartsWith_prefix: "StartsWith s p \<longleftrightarrow> prefix p s"
  by (auto simp: StartsWith_def prefix_def) (metis append_take_drop_id)

lemma StartsWith_Nil [simp]: "StartsWith s []"
  by (simp add: StartsWith_def)

lemma StartsWith_append [simp]: "StartsWith (p @ s) p"
  by (simp add: StartsWith_def)

lemma strict_prefix_take: "n < length xs \<Longrightarrow> strict_prefix (take n xs) xs"
  by (metis append_take_drop_id drop_eq_Nil2 leD prefixI self_append_conv strict_prefixI)

lemma of_char_lt_256 [simp]: "(of_char c :: nat) < 256"
  using of_char_mod_256 [of c, where 'a = nat] by (metis mod_less_divisor zero_less_numeral)

lemma of_char_digit [simp]: "d < 10 \<Longrightarrow> (of_char (digit_char d) :: nat) = 48 + d"
  by (simp add: digit_char_def)

lemma isdigit_digit_char [simp]: "d < 10 \<Longrightarrow> isdigit (digit_char d)"
  by (simp add: isdigit_def)

lemma digit_val_digit_char [simp]: "d < 10 \<Longrightarrow> digit_val (digit_char d) = d"
  by (simp add: digit_val_def)

lemma decimal_snoc [simp]: "decimal (ds @ [c]) = 10 * decimal ds + digit_val c"
  by (simp add: decimal_def)

lemma decimal_Nil [simp]: "decimal [] = 0"
  by (simp add: decimal_def)

lemma to_string_digits: "\<forall>c \<in> set (to_string n). isdigit c"
proof (induction n rule: to_string.induct)
  case (1 n)
  then show ?case by (subst to_string.simps) auto
qed

lemma to_string_nonempty [simp]: "to_string n \<noteq> []"
  by (subst to_string.simps) simp

lemma decimal_to_string [simp]: "decimal (to_string n) = n"
proof (induction n rule: to_string.induct)
  case (1 n)
  show ?case
  proof (cases "n < 10")
    case True
    then show ?thesis by (subst to_string.simps) (simp add: decimal_def)
  next
    case False
    with 1 show ?thesis by (subst to_string.simps) simp
  qed
qed

lemma to_string_inject [simp]: "to_string m = to_string n \<longleftrightarrow> m = n"
  by (metis decimal_to_string)

lemma isdigit_not_special:
  "isdigit c \<Longrightarrow> \<not> isspace c"
  "isdigit c \<Longrightarrow> c \<noteq> CHR ''-''"
  "isdigit c \<Longrightarrow> c \<noteq> CHR ''+''"
  by (auto simp: isdigit_def isspace_def)

lemma sto_parse_digits:
  assumes "ds \<noteq> []" and "\<forall>c \<in> set ds. isdigit c" and "rest = [] \<or> \<not> isdigit (hd rest)"
  shows "sto_parse (ds @ rest) = Some (False, decimal ds)"
proof -
  obtain c cs where ds: "ds = c # cs" using assms(1) by (cases ds) auto
  have c: "isdigit c" using assms(2) ds by simp
  have tw: "takeWhile isdigit (ds @ rest) = ds"
    using assms(2,3) by (cases rest) (auto simp: takeWhile_append2)
  show ?thesis
    using c tw by (simp add: sto_parse_def ds isdigit_not_special Let_def)
qed

lemma sto_parse_to_string [simp]: "sto_parse (to_string n) = Some (False, n)"
  using sto_parse_digits [of "to_string n" "[]"] by (simp add: to_string_digits)

lemma stoull_to_string: "n < 2 ^ 64 \<Longrightarrow> stoull (to_string n) = Inr (of_nat n)"
  by (simp add: stoull_def sto_unsigned_def)

lemma stoul_to_string: "n < 2 ^ 64 \<Longrightarrow> stoul (to_string n) = Inr (of_nat n)"
  by (simp add: stoul_def sto_unsigned_def)

end
