(* ===== verification/Ord_Map.thy ===== *)
theory Ord_Map
  imports Prelude
begin

text \<open>
  \<^verbatim>\<open>std::map\<close> and \<^verbatim>\<open>std::set\<close>.  The sources iterate their maps, and the order of
  the iteration is visible (in the bytes of an SSTable, in the order shards are
  contacted), so a map is a list of key-value pairs in strictly ascending key
  order: \<open>omap_ok\<close> is its invariant.  Each operation is the one of the standard
  library: \<^verbatim>\<open>m[k] = v\<close>, \<^verbatim>\<open>m.find(k)\<close>, \<^verbatim>\<open>m.erase(k)\<close>, \<^verbatim>\<open>m.emplace(k, v)\<close>,
  \<^verbatim>\<open>m.lower_bound(k)\<close>.  The locale \<open>ordered_map\<close> states the laws the clients use;
  its interpretation discharges them, and every theory that uses a map rests on the
  interpretation's facts.
\<close>

type_synonym ('k, 'v) omap = "('k \<times> 'v) list"

definition omap_ok :: "('k::linorder, 'v) omap \<Rightarrow> bool" where
  "omap_ok m \<longleftrightarrow> sorted_wrt (<) (map fst m)"

definition omap_find :: "'k \<Rightarrow> ('k, 'v) omap \<Rightarrow> 'v option" where
  "omap_find k m = map_of m k"

definition omap_count :: "'k \<Rightarrow> ('k, 'v) omap \<Rightarrow> bool" where
  "omap_count k m \<longleftrightarrow> map_of m k \<noteq> None"

definition omap_set :: "'k::linorder \<Rightarrow> 'v \<Rightarrow> ('k, 'v) omap \<Rightarrow> ('k, 'v) omap" where
  "omap_set k v m =
     takeWhile (\<lambda>e. fst e < k) m @ (k, v) # dropWhile (\<lambda>e. fst e \<le> k) m"

definition omap_erase :: "'k \<Rightarrow> ('k, 'v) omap \<Rightarrow> ('k, 'v) omap" where
  "omap_erase k m = filter (\<lambda>e. fst e \<noteq> k) m"

definition omap_emplace :: "'k::linorder \<Rightarrow> 'v \<Rightarrow> ('k, 'v) omap \<Rightarrow> ('k, 'v) omap" where
  "omap_emplace k v m = (if omap_count k m then m else omap_set k v m)"

definition omap_lower_bound :: "'k::linorder \<Rightarrow> ('k, 'v) omap \<Rightarrow> ('k, 'v) omap" where
  "omap_lower_bound k m = dropWhile (\<lambda>e. fst e < k) m"

definition omap_get_default :: "'v \<Rightarrow> 'k \<Rightarrow> ('k, 'v) omap \<Rightarrow> 'v" where
  "omap_get_default d k m = (case map_of m k of None \<Rightarrow> d | Some v \<Rightarrow> v)"

definition omap_of_list :: "('k::linorder \<times> 'v) list \<Rightarrow> ('k, 'v) omap" where
  "omap_of_list es = foldl (\<lambda>m (k, v). omap_set k v m) [] es"

definition omap_emplace_all :: "('k::linorder, 'v) omap \<Rightarrow> ('k \<times> 'v) list \<Rightarrow> ('k, 'v) omap" where
  "omap_emplace_all m es = foldl (\<lambda>m (k, v). omap_emplace k v m) m es"

section \<open>Sorted lists of pairs\<close>

lemma omap_ok_Nil [simp]: "omap_ok []"
  by (simp add: omap_ok_def)

lemma omap_ok_Cons: "omap_ok (e # m) \<longleftrightarrow> (\<forall>x \<in> set m. fst e < fst x) \<and> omap_ok m"
  by (auto simp: omap_ok_def)

lemma omap_ok_append:
  "omap_ok (m @ n) \<longleftrightarrow> omap_ok m \<and> omap_ok n \<and> (\<forall>x \<in> set m. \<forall>y \<in> set n. fst x < fst y)"
  by (auto simp: omap_ok_def sorted_wrt_append)

lemma omap_ok_filter: "omap_ok m \<Longrightarrow> omap_ok (filter P m)"
  by (induction m) (auto simp: omap_ok_Cons)

lemma omap_ok_distinct: "omap_ok m \<Longrightarrow> distinct (map fst m)"
  by (auto simp: omap_ok_def strict_sorted_iff)

lemma omap_takeWhile: "omap_ok m \<Longrightarrow> takeWhile (\<lambda>e. fst e < k) m = filter (\<lambda>e. fst e < k) m"
proof (induction m)
  case (Cons e m)
  then have "\<forall>x \<in> set m. fst e < fst x" and "omap_ok m"
    by (simp_all add: omap_ok_Cons)
  moreover have "\<not> fst x < k" if "x \<in> set m" and "\<not> fst e < k" for x
    using that \<open>\<forall>x \<in> set m. fst e < fst x\<close> by fastforce
  ultimately show ?case
    using Cons.IH by (auto simp: filter_empty_conv)
qed simp

lemma omap_dropWhile_le: "omap_ok m \<Longrightarrow> dropWhile (\<lambda>e. fst e \<le> k) m = filter (\<lambda>e. k < fst e) m"
proof (induction m)
  case (Cons e m)
  then have "\<forall>x \<in> set m. fst e < fst x" and "omap_ok m"
    by (simp_all add: omap_ok_Cons)
  with Cons show ?case
    by (cases "fst e \<le> k") (auto intro!: filter_True [symmetric] intro: order.strict_trans)
qed simp

lemma omap_dropWhile_less: "omap_ok m \<Longrightarrow> dropWhile (\<lambda>e. fst e < k) m = filter (\<lambda>e. k \<le> fst e) m"
proof (induction m)
  case (Cons e m)
  then have "\<forall>x \<in> set m. fst e < fst x" and "omap_ok m"
    by (simp_all add: omap_ok_Cons)
  with Cons show ?case
    by (cases "fst e < k") (auto intro!: filter_True [symmetric] intro: order_trans less_imp_le)
qed simp

lemma omap_set_filter:
  "omap_ok m \<Longrightarrow>
     omap_set k v m = filter (\<lambda>e. fst e < k) m @ (k, v) # filter (\<lambda>e. k < fst e) m"
  by (simp add: omap_set_def omap_takeWhile omap_dropWhile_le)

lemma omap_lower_bound_filter: "omap_ok m \<Longrightarrow> omap_lower_bound k m = filter (\<lambda>e. k \<le> fst e) m"
  by (simp add: omap_lower_bound_def omap_dropWhile_less)

lemma set_omap_set: "omap_ok m \<Longrightarrow> set (omap_set k v m) = insert (k, v) {e \<in> set m. fst e \<noteq> k}"
  by (auto simp: omap_set_filter)

lemma omap_mem_iff: "omap_ok m \<Longrightarrow> (k, v) \<in> set m \<longleftrightarrow> map_of m k = Some v"
  by (simp add: omap_ok_distinct)

lemma map_of_filter_key:
  "map_of (filter (\<lambda>e. P (fst e)) m) k = (if P k then map_of m k else None)"
  by (induction m) auto

lemmas map_of_filter_bounds =
  map_of_filter_key [where P = "\<lambda>x. x < k" for k]
  map_of_filter_key [where P = "\<lambda>x. k < x" for k]
  map_of_filter_key [where P = "\<lambda>x. x \<noteq> k" for k]

lemma omap_ext:
  assumes "omap_ok m" and "omap_ok n" and "map_of m = map_of n"
  shows "m = n"
  using assms
proof (induction m arbitrary: n)
  case Nil
  then show ?case by (cases n) (auto simp: fun_eq_iff split: if_splits)
next
  case (Cons e m)
  note ok = Cons.prems(1) [unfolded omap_ok_Cons]
  obtain f n' where n: "n = f # n'"
    using Cons.prems(3) by (cases n) (auto simp: fun_eq_iff split: if_splits)
  have okn: "\<forall>x \<in> set n'. fst f < fst x" "omap_ok n'"
    using Cons.prems(2) by (auto simp: n omap_ok_Cons)
  have "set (e # m) = set (f # n')"
    using Cons.prems omap_mem_iff n by (metis (no_types, lifting) set_eqI surj_pair)
  then have ef: "e = f"
    using ok okn by (metis insertE list.simps(15) not_less_iff_gr_or_eq list.set_intros(1))
  have "map_of m = map_of n'"
  proof
    fix k
    have "(map_of m) k = None" "(map_of n') k = None" if "k = fst e"
      using that ok okn ef by (auto simp: map_of_eq_None_iff)
    then show "map_of m k = map_of n' k"
      using Cons.prems(3) n ef by (metis map_of.simps(2) fun_upd_apply)
  qed
  with Cons.IH ok okn ef n show ?case by simp
qed

section \<open>The contract of an ordered map\<close>

locale ordered_map =
  fixes invar :: "'m \<Rightarrow> bool"
    and look :: "'m \<Rightarrow> 'k \<Rightarrow> 'v option"
    and empty :: 'm
    and upd :: "'k \<Rightarrow> 'v \<Rightarrow> 'm \<Rightarrow> 'm"
    and del :: "'k \<Rightarrow> 'm \<Rightarrow> 'm"
  assumes look_empty: "look empty = Map.empty"
    and look_upd: "invar m \<Longrightarrow> look (upd k v m) = (look m)(k \<mapsto> v)"
    and look_del: "invar m \<Longrightarrow> look (del k m) = (look m)(k := None)"
    and invar_empty: "invar empty"
    and invar_upd: "invar m \<Longrightarrow> invar (upd k v m)"
    and invar_del: "invar m \<Longrightarrow> invar (del k m)"
begin

lemma fold_upd:
  "invar m \<Longrightarrow>
     invar (foldl (\<lambda>m (k, v). upd k v m) m es) \<and>
     look (foldl (\<lambda>m (k, v). upd k v m) m es) = (look m) ++ map_of (rev es)"
proof (induction es arbitrary: m)
  case (Cons e es)
  then show ?case
    by (cases e) (simp add: invar_upd look_upd map_add_def fun_eq_iff map_of_append split: option.split)
qed simp

lemma fold_del:
  "invar m \<Longrightarrow>
     invar (foldl (\<lambda>m k. del k m) m ks) \<and>
     look (foldl (\<lambda>m k. del k m) m ks) = (look m) |` (- set ks)"
proof (induction ks arbitrary: m)
  case (Cons k ks)
  then have "invar (del k m)" by (simp add: invar_del)
  from Cons.IH [OF this] Cons.prems show ?case
    by (auto simp: look_del fun_eq_iff restrict_map_def)
qed (simp add: restrict_map_def)

end

interpretation om: ordered_map omap_ok "map_of" "[]" omap_set omap_erase
proof
  fix m :: "('k::linorder, 'v) omap" and k v
  assume ok: "omap_ok m"
  show "map_of (omap_set k v m) = (map_of m)(k \<mapsto> v)"
    using ok
    by (auto simp: omap_set_filter map_add_def map_of_filter_bounds fun_eq_iff split: option.split)
  show "map_of (omap_erase k m) = (map_of m)(k := None)"
    by (auto simp: omap_erase_def map_of_filter_bounds fun_eq_iff)
  show "omap_ok (omap_set k v m)"
    using ok by (auto simp: omap_set_filter omap_ok_append omap_ok_Cons omap_ok_filter)
  show "omap_ok (omap_erase k m)"
    using ok by (simp add: omap_erase_def omap_ok_filter)
qed auto

lemmas omap_invar [intro, simp] = om.invar_upd om.invar_del
lemmas omap_look [simp] = om.look_upd om.look_del

section \<open>Emplace: the first value seen for a key wins\<close>

lemma omap_emplace_ok [simp]: "omap_ok m \<Longrightarrow> omap_ok (omap_emplace k v m)"
  by (simp add: omap_emplace_def)

lemma map_of_emplace [simp]:
  "omap_ok m \<Longrightarrow>
     map_of (omap_emplace k v m) = (case map_of m k of None \<Rightarrow> (map_of m)(k \<mapsto> v) | Some _ \<Rightarrow> map_of m)"
  by (simp add: omap_emplace_def omap_count_def split: option.split)

lemma omap_emplace_all_spec:
  "omap_ok m \<Longrightarrow>
     omap_ok (omap_emplace_all m es) \<and> map_of (omap_emplace_all m es) = map_of es ++ map_of m"
proof (induction es arbitrary: m)
  case Nil
  then show ?case by (simp add: omap_emplace_all_def)
next
  case (Cons e es)
  obtain k v where e: "e = (k, v)" by (cases e)
  have ok: "omap_ok (omap_emplace k v m)" using Cons.prems by simp
  have eq: "omap_emplace_all m (e # es) = omap_emplace_all (omap_emplace k v m) es"
    by (simp add: omap_emplace_all_def e)
  have "map_of (omap_emplace_all m (e # es)) = map_of (e # es) ++ map_of m"
    using Cons.IH [OF ok] Cons.prems
    by (simp add: eq) (auto simp: e map_add_def fun_eq_iff split: option.split)
  moreover have "omap_ok (omap_emplace_all m (e # es))"
    using Cons.IH [OF ok] by (simp add: eq)
  ultimately show ?case by blast
qed

lemma omap_emplace_all_ok [simp]: "omap_ok m \<Longrightarrow> omap_ok (omap_emplace_all m es)"
  by (simp add: omap_emplace_all_spec)

lemma map_of_emplace_all [simp]:
  "omap_ok m \<Longrightarrow> map_of (omap_emplace_all m es) = map_of es ++ map_of m"
  by (simp add: omap_emplace_all_spec)

lemma omap_of_list_ok [simp]: "omap_ok (omap_of_list es)"
  using om.fold_upd [of "[]" es] by (simp add: omap_of_list_def)

lemma map_of_omap_of_list [simp]: "map_of (omap_of_list es) = map_of (rev es)"
  using om.fold_upd [of "[]" es] by (simp add: omap_of_list_def)

lemma map_of_rev_omap: "omap_ok m \<Longrightarrow> map_of (rev m) = map_of m"
proof (induction m)
  case (Cons e m)
  then have "map_of m (fst e) = None"
    by (auto simp: omap_ok_Cons map_of_eq_None_iff)
  with Cons show ?case
    by (cases e) (auto simp: omap_ok_Cons map_add_def fun_eq_iff split: option.split)
qed simp

lemma omap_of_list_sorted: "omap_ok m \<Longrightarrow> omap_of_list m = m"
  by (rule omap_ext) (simp_all add: map_of_rev_omap)

lemma omap_set_idem: "omap_ok m \<Longrightarrow> map_of m k = Some v \<Longrightarrow> omap_set k v m = m"
  by (rule omap_ext) (auto simp: fun_upd_idem)

lemma length_omap_set_le: "omap_ok m \<Longrightarrow> length (omap_set k v m) \<le> Suc (length m)"
proof -
  assume ok: "omap_ok m"
  have "length (filter (\<lambda>e. fst e < k) m) + length (filter (\<lambda>e. k < fst e) m) \<le> length m"
    by (induction m) auto
  with ok show ?thesis by (simp add: omap_set_filter)
qed

section \<open>Scanning a prefix\<close>

lemma prefix_le: "prefix p s \<Longrightarrow> p \<le> (s :: string)"
proof (induction p arbitrary: s)
  case (Cons c p)
  then show ?case by (cases s) auto
qed simp

lemma prefix_between:
  assumes "prefix p t" and "p \<le> (s :: string)" and "s \<le> t"
  shows "prefix p s"
  using assms
proof (induction p arbitrary: s t)
  case (Cons c p)
  obtain t' where t: "t = c # t'" "prefix p t'" using Cons.prems(1) by (cases t) auto
  obtain d s' where s: "s = d # s'" using Cons.prems(2) by (cases s) auto
  have "c \<le> d" "d \<le> c" using Cons.prems(2,3) s t by (auto simp: Cons_le_Cons)
  then have "c = d" by simp
  with Cons.prems s t have "p \<le> s'" "s' \<le> t'" by (auto simp: Cons_le_Cons)
  with Cons.IH t s \<open>c = d\<close> show ?case by auto
qed simp

text \<open>Walking from the lower bound of a prefix while keys start with it visits exactly the keys
  that start with it, in order.\<close>

lemma omap_prefix_walk:
  assumes "omap_ok m"
  shows "takeWhile (\<lambda>e. StartsWith (fst e) p) (omap_lower_bound p m)
       = filter (\<lambda>e. StartsWith (fst e) p) m"
  using assms
proof (induction m)
  case (Cons e m)
  then have lt: "\<forall>x \<in> set m. fst e < fst x" and ok: "omap_ok m"
    by (simp_all add: omap_ok_Cons)
  show ?case
  proof (cases "fst e < p")
    case True
    then have "\<not> prefix p (fst e)" using prefix_le [of p "fst e"] by auto
    with True Cons.IH ok show ?thesis
      by (simp add: omap_lower_bound_def StartsWith_prefix)
  next
    case False
    have all: "omap_lower_bound p m = m"
    proof -
      have "\<forall>x \<in> set m. \<not> fst x < p" using lt False by (meson order.strict_trans)
      then show ?thesis by (cases m) (auto simp: omap_lower_bound_def)
    qed
    show ?thesis
    proof (cases "prefix p (fst e)")
      case True
      with False Cons.IH ok all show ?thesis
        by (simp add: omap_lower_bound_def StartsWith_prefix)
    next
      case no: False
      have "\<not> prefix p (fst x)" if "x \<in> set m" for x
        using prefix_between [of p "fst x" "fst e"] no False lt that by (meson leI less_imp_le)
      with no False show ?thesis
        by (simp add: omap_lower_bound_def StartsWith_prefix filter_empty_conv)
    qed
  qed
qed (simp add: omap_lower_bound_def)

end
