(* ===== verification/Memtable.thy ===== *)
theory Memtable
  imports Ord_Map
begin

text \<open>
  \<^verbatim>\<open>src/storage/lookup.h\<close> and \<^verbatim>\<open>src/storage/memtable.cpp\<close>.  A layer of the store
  answers a lookup with one of three statuses; a memtable is the \<^verbatim>\<open>std::map\<close> from keys to
  optional values, \<open>None\<close> being a tombstone.

  The locale \<open>kv_layer\<close> is what the engine relies on in each layer, the memtable and every
  SSTable alike: \<open>view\<close> says what the layer knows about a key, a lookup reports exactly that, and
  a scan lists exactly the keys with the prefix, in ascending order.  Its interpretation for the
  memtable is here, the one for the SSTable reader in \<open>SSTable\<close>.
\<close>

datatype LookupStatus = kNotFound | kFound | kDeleted

record LookupResult =
  lr_status :: LookupStatus
  lr_value :: string

type_synonym entries = "(string, string option) omap"

definition mt_Put :: "string \<Rightarrow> string \<Rightarrow> entries \<Rightarrow> entries" where
  "mt_Put key value entries = omap_set key (Some value) entries"

definition mt_Delete :: "string \<Rightarrow> entries \<Rightarrow> entries" where
  "mt_Delete key entries = omap_set key None entries"

definition mt_Lookup :: "entries \<Rightarrow> string \<Rightarrow> LookupResult" where
  "mt_Lookup entries key = (case omap_find key entries of
       None \<Rightarrow> \<lparr>lr_status = kNotFound, lr_value = []\<rparr>
     | Some None \<Rightarrow> \<lparr>lr_status = kDeleted, lr_value = []\<rparr>
     | Some (Some v) \<Rightarrow> \<lparr>lr_status = kFound, lr_value = v\<rparr>)"

definition mt_Clear :: "entries \<Rightarrow> entries" where
  "mt_Clear entries = []"

definition mt_size :: "entries \<Rightarrow> nat" where
  "mt_size entries = length entries"

definition mt_Scan :: "entries \<Rightarrow> string \<Rightarrow> (string \<times> string option) list" where
  "mt_Scan entries p = takeWhile (\<lambda>e. StartsWith (fst e) p) (omap_lower_bound p entries)"

section \<open>The contract of a layer\<close>

text \<open>What a layer's answer means: nothing known, a tombstone, a live value.\<close>

fun answer :: "LookupResult \<Rightarrow> string option option" where
  "answer r = (case lr_status r of kNotFound \<Rightarrow> None | kDeleted \<Rightarrow> Some None
                                 | kFound \<Rightarrow> Some (Some (lr_value r)))"

locale kv_layer =
  fixes ok :: "'l \<Rightarrow> bool"
    and view :: "'l \<Rightarrow> string \<Rightarrow> string option option"
    and lookup :: "'l \<Rightarrow> string \<Rightarrow> LookupResult"
    and scan :: "'l \<Rightarrow> string \<Rightarrow> (string \<times> string option) list"
  assumes lookup_view: "ok l \<Longrightarrow> answer (lookup l k) = view l k"
    and scan_sorted: "ok l \<Longrightarrow> omap_ok (scan l p)"
    and scan_view: "ok l \<Longrightarrow> map_of (scan l p) k = (if StartsWith k p then view l k else None)"
begin

lemma scan_lookup:
  "ok l \<Longrightarrow> (k, v) \<in> set (scan l p) \<longleftrightarrow> StartsWith k p \<and> answer (lookup l k) = Some v"
  by (simp only: omap_mem_iff [OF scan_sorted] scan_view lookup_view) simp

lemma found_view: "ok l \<Longrightarrow> lr_status (lookup l k) = kFound \<longleftrightarrow> (\<exists>v. view l k = Some (Some v))"
  by (auto simp: lookup_view [symmetric] split: LookupStatus.splits)

end

interpretation mt: kv_layer omap_ok "\<lambda>m. map_of m" mt_Lookup mt_Scan
proof
  fix m :: entries and k p
  show "answer (mt_Lookup m k) = map_of m k"
    by (simp add: mt_Lookup_def omap_find_def split: option.split)
  assume ok: "omap_ok m"
  then show "omap_ok (mt_Scan m p)"
    by (simp add: mt_Scan_def omap_prefix_walk omap_ok_filter)
  from ok show "map_of (mt_Scan m p) k = (if StartsWith k p then map_of m k else None)"
    by (simp add: mt_Scan_def omap_prefix_walk map_of_filter_key [where P = "\<lambda>x. StartsWith x p"])
qed

lemma mt_Put_ok [simp]: "omap_ok m \<Longrightarrow> omap_ok (mt_Put k v m)"
  by (simp add: mt_Put_def om.invar_upd)

lemma mt_Delete_ok [simp]: "omap_ok m \<Longrightarrow> omap_ok (mt_Delete k m)"
  by (simp add: mt_Delete_def om.invar_upd)

lemma map_of_mt_Put [simp]: "omap_ok m \<Longrightarrow> map_of (mt_Put k v m) = (map_of m)(k \<mapsto> Some v)"
  by (simp add: mt_Put_def om.look_upd)

lemma map_of_mt_Delete [simp]: "omap_ok m \<Longrightarrow> map_of (mt_Delete k m) = (map_of m)(k \<mapsto> None)"
  by (simp add: mt_Delete_def om.look_upd)

lemma mt_Clear_eq [simp]: "mt_Clear m = []"
  by (simp add: mt_Clear_def)

end
