(* ===== verification/Bytes.thy ===== *)
theory Bytes
  imports Prelude
begin

text \<open>
  The byte formats.  Every encoder of the program appends the object representation of
  an unsigned integer (\<^verbatim>\<open>out.append(reinterpret_cast<const char*>(&v), sizeof(v))\<close>),
  which on the supported targets is little-endian, and prefixes a string by its length
  as a \<^verbatim>\<open>uint32_t\<close>.  A decoder is a cursor over the bytes not yet read: each read
  first checks that enough bytes are left and otherwise throws.

  The locale \<open>codec\<close> is the contract between the two sides: decoding what was encoded
  gives the value back and leaves the bytes that follow (\<open>dec_enc\<close>), and a decoder that
  succeeds never looked past the bytes it consumed (\<open>dec_extend\<close>).  From these two laws
  alone follow, once for every format of the program, that encoders are injective,
  that every truncated encoding is rejected, and the round trip of counted vectors.
\<close>

fun le_bytes :: "nat \<Rightarrow> nat \<Rightarrow> string" where
  "le_bytes 0 v = []"
| "le_bytes (Suc n) v = char_of v # le_bytes n (v div 256)"

fun le_val :: "string \<Rightarrow> nat" where
  "le_val [] = 0"
| "le_val (c # cs) = of_char c + 256 * le_val cs"

definition put_u8 :: "8 word \<Rightarrow> string" where
  "put_u8 v = le_bytes 1 (unat v)"

definition put_u16 :: "16 word \<Rightarrow> string" where
  "put_u16 v = le_bytes 2 (unat v)"

definition put_u32 :: "32 word \<Rightarrow> string" where
  "put_u32 v = le_bytes 4 (unat v)"

definition put_u64 :: "64 word \<Rightarrow> string" where
  "put_u64 v = le_bytes 8 (unat v)"

text \<open>Terms and log indices are natural numbers in the model; their encoding is modulo
  \<open>2 ^ 64\<close>.\<close>

definition put_index :: "nat \<Rightarrow> string" where
  "put_index n = le_bytes 8 n"

definition put_string :: "string \<Rightarrow> string" where
  "put_string s = put_u32 (of_nat (length s)) @ s"

definition put_strings :: "string list \<Rightarrow> string" where
  "put_strings v = put_u32 (of_nat (length v)) @ concat (map put_string v)"

definition get_raw :: "exn \<Rightarrow> nat \<Rightarrow> (string, string) cursor" where
  "get_raw e n bs = (if length bs < n then Inl e else Inr (take n bs, drop n bs))"

definition get_u8 :: "exn \<Rightarrow> (string, 8 word) cursor" where
  "get_u8 e = sbind (get_raw e 1) (\<lambda>b. sret (of_nat (le_val b)))"

definition get_u16 :: "exn \<Rightarrow> (string, 16 word) cursor" where
  "get_u16 e = sbind (get_raw e 2) (\<lambda>b. sret (of_nat (le_val b)))"

definition get_u32 :: "exn \<Rightarrow> (string, 32 word) cursor" where
  "get_u32 e = sbind (get_raw e 4) (\<lambda>b. sret (of_nat (le_val b)))"

definition get_u64 :: "exn \<Rightarrow> (string, 64 word) cursor" where
  "get_u64 e = sbind (get_raw e 8) (\<lambda>b. sret (of_nat (le_val b)))"

definition get_index :: "exn \<Rightarrow> (string, nat) cursor" where
  "get_index e = sbind (get_raw e 8) (\<lambda>b. sret (le_val b))"

definition get_string :: "exn \<Rightarrow> (string, string) cursor" where
  "get_string e = sbind (get_u32 e) (\<lambda>len. get_raw e (unat len))"

definition get_strings :: "exn \<Rightarrow> (string, string list) cursor" where
  "get_strings e = sbind (get_u32 e) (\<lambda>count. srepeat (get_string e) (unat count))"

definition fits32 :: "'a list \<Rightarrow> bool" where
  "fits32 xs \<longleftrightarrow> length xs < 2 ^ 32"

definition extensible :: "(string, 'a) cursor \<Rightarrow> bool" where
  "extensible d \<longleftrightarrow> (\<forall>bs x r s. d bs = Inr (x, r) \<longrightarrow> d (bs @ s) = Inr (x, r @ s))"

section \<open>Little-endian numbers\<close>

lemma length_le_bytes [simp]: "length (le_bytes n v) = n"
  by (induction n arbitrary: v) auto

lemma le_bytes_4:
  "le_bytes 4 v = [char_of v, char_of (v div 256), char_of (v div 256 div 256),
     char_of (v div 256 div 256 div 256)]"
proof -
  have "(4 :: nat) = Suc (Suc (Suc (Suc 0)))" by simp
  then show ?thesis by (simp only: le_bytes.simps)
qed

lemma le_val_le_bytes: "le_val (le_bytes n v) = v mod 256 ^ n"
proof (induction n arbitrary: v)
  case (Suc n)
  show ?case
    by (simp add: Suc mod_mult2_eq [of v 256 "256 ^ n"])
qed simp

lemma le_val_lt: "le_val bs < 256 ^ length bs"
proof (induction bs)
  case (Cons c cs)
  have "of_char c + 256 * le_val cs < 256 + 256 * le_val cs" by simp
  also have "\<dots> \<le> 256 * 256 ^ length cs" using Cons by simp
  finally show ?case by simp
qed simp

lemma char_of_add_256 [simp]: "char_of (of_char c + 256 * n :: nat) = c"
  using char_of_mod_256 [of "of_char c + 256 * n"] by simp

lemma le_bytes_le_val: "length bs = n \<Longrightarrow> le_bytes n (le_val bs) = bs"
  by (induction bs arbitrary: n) auto

lemma length_put [simp]:
  "length (put_u8 a) = 1" "length (put_u16 b) = 2" "length (put_u32 c) = 4"
  "length (put_u64 d) = 8" "length (put_index i) = 8"
  "length (put_string s) = 4 + length s"
  by (simp_all add: put_u8_def put_u16_def put_u32_def put_u64_def put_index_def put_string_def)

section \<open>Decoders never look ahead\<close>

lemma extensibleD: "extensible d \<Longrightarrow> d bs = Inr (x, r) \<Longrightarrow> d (bs @ s) = Inr (x, r @ s)"
  by (simp add: extensible_def)

lemma extensible_sret [intro, simp]: "extensible (sret x)"
  by (simp add: extensible_def)

lemma extensible_sthrow [intro, simp]: "extensible (sthrow e)"
  by (simp add: extensible_def)

lemma extensible_sbind [intro]:
  assumes "extensible d" and "\<And>x. extensible (f x)"
  shows "extensible (sbind d f)"
  unfolding extensible_def
proof (intro allI impI)
  fix bs y r s
  assume "sbind d f bs = Inr (y, r)"
  then obtain x r1 where "d bs = Inr (x, r1)" and "f x r1 = Inr (y, r)"
    by (auto simp: sbind_Inr_iff)
  with assms show "sbind d f (bs @ s) = Inr (y, r @ s)"
    by (simp add: extensibleD)
qed

lemma extensible_srepeat [intro]: "extensible d \<Longrightarrow> extensible (srepeat d n)"
  by (induction n) auto

lemma extensible_if [intro]: "extensible a \<Longrightarrow> extensible b \<Longrightarrow> extensible (if P then a else b)"
  by simp

lemma extensible_get_raw [intro, simp]: "extensible (get_raw e n)"
  by (auto simp: extensible_def get_raw_def split: if_splits)

lemma extensible_gets [intro, simp]:
  "extensible (get_u8 e)" "extensible (get_u16 e)" "extensible (get_u32 e)"
  "extensible (get_u64 e)" "extensible (get_index e)" "extensible (get_string e)"
  by (auto simp: get_u8_def get_u16_def get_u32_def get_u64_def get_index_def get_string_def)

lemma extensible_get_strings [intro, simp]: "extensible (get_strings e)"
  by (auto simp: get_strings_def)

section \<open>The contract of a codec\<close>

locale codec =
  fixes enc :: "'a \<Rightarrow> string" and dec :: "(string, 'a) cursor" and ok :: "'a \<Rightarrow> bool"
  assumes dec_enc: "ok x \<Longrightarrow> dec (enc x @ rest) = Inr (x, rest)"
    and dec_extend: "extensible dec"
begin

lemma dec_enc_Nil: "ok x \<Longrightarrow> dec (enc x) = Inr (x, [])"
  using dec_enc [of x "[]"] by simp

lemma enc_inject: "ok x \<Longrightarrow> ok y \<Longrightarrow> enc x @ r = enc y @ s \<Longrightarrow> x = y \<and> r = s"
  by (metis dec_enc sum.inject(2) prod.inject)

lemma truncated_rejected:
  assumes "ok x" and "strict_prefix p (enc x)"
  shows "\<exists>e. dec p = Inl e"
proof (rule ccontr)
  assume "\<not> ?thesis"
  then obtain y r where y: "dec p = Inr (y, r)" by (cases "dec p") auto
  obtain q where q: "enc x = p @ q" "q \<noteq> []"
    using assms(2) by (auto simp: strict_prefix_def prefix_def)
  from extensibleD [OF dec_extend y, of q] have "dec (enc x) = Inr (y, r @ q)"
    by (simp add: q)
  with dec_enc_Nil [OF assms(1)] q show False by simp
qed

lemma srepeat_enc:
  "\<forall>x \<in> set xs. ok x \<Longrightarrow> srepeat dec (length xs) (concat (map enc xs) @ rest) = Inr (xs, rest)"
proof (induction xs)
  case (Cons x xs)
  then show ?case by (simp add: dec_enc)
qed simp

end

lemma get_raw_append [simp]: "n = length p \<Longrightarrow> get_raw e n (p @ r) = Inr (p, r)"
  by (simp add: get_raw_def)

lemma of_nat_le_val_le_bytes:
  "of_nat (le_val (le_bytes n (unat w))) = (w :: 'a::len word)" if "256 ^ n = (2::nat) ^ LENGTH('a)"
  using that unsigned_less [of w, where 'a = nat] by (simp add: le_val_le_bytes)

interpretation u8: codec put_u8 "get_u8 e" "\<lambda>_. True" for e
proof
  fix x :: "8 word" and rest
  have "of_nat (le_val (le_bytes 1 (unat x))) = x"
    by (rule of_nat_le_val_le_bytes) simp
  moreover have "get_raw e 1 (le_bytes 1 (unat x) @ rest) = Inr (le_bytes 1 (unat x), rest)"
    by (rule get_raw_append) simp
  ultimately show "get_u8 e (put_u8 x @ rest) = Inr (x, rest)"
    unfolding put_u8_def get_u8_def by (metis sbind_Inr sret_apply)
qed simp

interpretation u16: codec put_u16 "get_u16 e" "\<lambda>_. True" for e
  by unfold_locales (auto simp: put_u16_def get_u16_def of_nat_le_val_le_bytes)

interpretation u32: codec put_u32 "get_u32 e" "\<lambda>_. True" for e
  by unfold_locales (auto simp: put_u32_def get_u32_def of_nat_le_val_le_bytes)

interpretation u64: codec put_u64 "get_u64 e" "\<lambda>_. True" for e
  by unfold_locales (auto simp: put_u64_def get_u64_def of_nat_le_val_le_bytes)

interpretation ix: codec put_index "get_index e" "\<lambda>n. n < 2 ^ 64" for e
  by unfold_locales (auto simp: put_index_def get_index_def le_val_le_bytes)

lemma unat_length32: "fits32 xs \<Longrightarrow> unat (of_nat (length xs) :: 32 word) = length xs"
  by (simp add: fits32_def unat_of_nat)

lemma unat_of_nat64: "n < 2 ^ 64 \<Longrightarrow> unat (of_nat n :: 64 word) = n"
  by (simp add: unat_of_nat)

interpretation str: codec put_string "get_string e" fits32 for e
  by unfold_locales (auto simp: put_string_def get_string_def u32.dec_enc unat_length32)

interpretation strs: codec put_strings "get_strings e" "\<lambda>v. fits32 v \<and> (\<forall>s \<in> set v. fits32 s)" for e
  by unfold_locales
    (auto simp: put_strings_def get_strings_def u32.dec_enc unat_length32 str.srepeat_enc)

lemmas codec_decs [codec_simps] =
  u8.dec_enc u16.dec_enc u32.dec_enc u64.dec_enc ix.dec_enc str.dec_enc strs.dec_enc
lemmas codec_decs_Nil [codec_simps] =
  u8.dec_enc_Nil u16.dec_enc_Nil u32.dec_enc_Nil u64.dec_enc_Nil ix.dec_enc_Nil
  str.dec_enc_Nil strs.dec_enc_Nil

end
