(* ===== verification/Ifstream.thy ===== *)
theory Ifstream
  imports Bytes
begin

text \<open>
  The part of \<^verbatim>\<open>std::ifstream\<close> that the readers of binary files use: a position, the fail bit,
  reads that fill what they can and set the fail bit when the file ends first (the target keeps its zero
  initialisation), seeks that do nothing on a failed stream.  \<open>ReadRaw\<close> is the template both
  \<^verbatim>\<open>src/storage/sstable.cpp\<close> and \<^verbatim>\<open>src/raft/log.cpp\<close> define.  The lemmas read a stream as
  the bytes before and after its position.
\<close>

record ifstream =
  ifs_bytes :: string
  ifs_pos :: nat
  ifs_fail :: bool

definition ifs_open :: "string \<Rightarrow> ifstream" where
  "ifs_open bytes = \<lparr>ifs_bytes = bytes, ifs_pos = 0, ifs_fail = False\<rparr>"

definition ifs_seekg :: "nat \<Rightarrow> ifstream \<Rightarrow> ifstream" where
  "ifs_seekg n s = (if ifs_fail s then s
     else if 2 ^ 63 \<le> n then s\<lparr>ifs_fail := True\<rparr>
     else s\<lparr>ifs_pos := n\<rparr>)"

definition ifs_skip :: "nat \<Rightarrow> ifstream \<Rightarrow> ifstream" where
  "ifs_skip n s = ifs_seekg (ifs_pos s + n) s"

definition ifs_tellg :: "ifstream \<Rightarrow> nat" where
  "ifs_tellg s = (if ifs_fail s then 2 ^ 64 - 1 else ifs_pos s)"

definition ifs_read :: "nat \<Rightarrow> ifstream \<Rightarrow> string \<times> ifstream" where
  "ifs_read n s = (if ifs_fail s then (replicate n (char_of (0 :: nat)), s)
     else let got = take n (drop (ifs_pos s) (ifs_bytes s))
          in (got @ replicate (n - length got) (char_of (0 :: nat)),
              s\<lparr>ifs_pos := ifs_pos s + length got, ifs_fail := length got < n\<rparr>))"

definition ReadRaw_u32 :: "ifstream \<Rightarrow> 32 word \<times> ifstream" where
  "ReadRaw_u32 s = (let (b, s') = ifs_read 4 s in (of_nat (le_val b), s'))"

definition ReadRaw_u64 :: "ifstream \<Rightarrow> 64 word \<times> ifstream" where
  "ReadRaw_u64 s = (let (b, s') = ifs_read 8 s in (of_nat (le_val b), s'))"

definition ReadRaw_index :: "ifstream \<Rightarrow> nat \<times> ifstream" where
  "ReadRaw_index s = (let (b, s') = ifs_read 8 s in (le_val b, s'))"

section \<open>Progress\<close>

lemma ifs_read_progress:
  assumes "ifs_read n s = (b, s')" and "\<not> ifs_fail s'"
  shows "\<not> ifs_fail s \<and> ifs_bytes s' = ifs_bytes s \<and> ifs_pos s' = ifs_pos s + n \<and>
         (0 < n \<longrightarrow> ifs_pos s + n \<le> length (ifs_bytes s))"
  using assms by (auto simp: ifs_read_def Let_def split: if_splits)

lemma ifs_read_failed: "ifs_fail s \<Longrightarrow> snd (ifs_read n s) = s"
  by (simp add: ifs_read_def)

section \<open>A stream as the bytes before and after its position\<close>

definition stream :: "string \<Rightarrow> string \<Rightarrow> ifstream" where
  "stream pre rest = \<lparr>ifs_bytes = pre @ rest, ifs_pos = length pre, ifs_fail = False\<rparr>"

lemma read_stream [simp]: "n = length x \<Longrightarrow> ifs_read n (stream pre (x @ rest)) = (x, stream (pre @ x) rest)"
  by (simp add: ifs_read_def stream_def)

lemma ReadRaw_u32_stream [simp]:
  "ReadRaw_u32 (stream pre (put_u32 w @ rest)) = (w, stream (pre @ put_u32 w) rest)"
proof -
  have "of_nat (le_val (put_u32 w)) = w"
    unfolding put_u32_def by (rule of_nat_le_val_le_bytes) simp
  then show ?thesis by (simp add: ReadRaw_u32_def)
qed

lemma ReadRaw_u32_end [simp]:
  "ReadRaw_u32 (stream pre (put_u32 w)) = (w, stream (pre @ put_u32 w) [])"
  using ReadRaw_u32_stream [of pre w "[]"] by simp

lemma ReadRaw_u64_stream [simp]:
  "ReadRaw_u64 (stream pre (put_u64 w @ rest)) = (w, stream (pre @ put_u64 w) rest)"
proof -
  have "of_nat (le_val (put_u64 w)) = w"
    unfolding put_u64_def by (rule of_nat_le_val_le_bytes) simp
  then show ?thesis by (simp add: ReadRaw_u64_def)
qed

lemma ifs_open_stream: "ifs_open bytes = stream [] bytes"
  by (simp add: ifs_open_def stream_def)

lemma seekg_stream:
  "n = length pre' \<Longrightarrow> length pre' < 2 ^ 63 \<Longrightarrow> pre @ rest = pre' @ rest' \<Longrightarrow>
     ifs_seekg n (stream pre rest) = stream pre' rest'"
  by (simp add: ifs_seekg_def stream_def)

lemma tellg_stream [simp]: "ifs_tellg (stream pre rest) = length pre"
  by (simp add: ifs_tellg_def stream_def)

lemma stream_good [simp]: "\<not> ifs_fail (stream pre rest)"
  by (simp add: stream_def)

lemma ReadRaw_index_stream [simp]:
  "n < 2 ^ 64 \<Longrightarrow> ReadRaw_index (stream pre (put_index n @ rest)) = (n, stream (pre @ put_index n) rest)"
  by (simp add: ReadRaw_index_def put_index_def le_val_le_bytes)

lemma ReadRaw_index_end [simp]:
  "n < 2 ^ 64 \<Longrightarrow> ReadRaw_index (stream pre (put_index n)) = (n, stream (pre @ put_index n) [])"
  using ReadRaw_index_stream [of n pre "[]"] by simp

lemma ReadRaw_at:
  "\<not> ifs_fail s \<Longrightarrow> ifs_pos s + 4 \<le> length (ifs_bytes s) \<Longrightarrow>
     ReadRaw_u32 s = (of_nat (le_val (take 4 (drop (ifs_pos s) (ifs_bytes s)))), s\<lparr>ifs_pos := ifs_pos s + 4\<rparr>)"
  "\<not> ifs_fail s \<Longrightarrow> ifs_pos s + 8 \<le> length (ifs_bytes s) \<Longrightarrow>
     ReadRaw_u64 s = (of_nat (le_val (take 8 (drop (ifs_pos s) (ifs_bytes s)))), s\<lparr>ifs_pos := ifs_pos s + 8\<rparr>)"
  by (auto simp: ReadRaw_u32_def ReadRaw_u64_def ifs_read_def Let_def min_def)

lemma ReadRaw_failed:
  assumes "ifs_fail s"
  shows "ReadRaw_u32 s = (0, s)" "ReadRaw_u64 s = (0, s)"
proof -
  have "le_val (replicate n (char_of (0 :: nat))) = 0" for n by (induction n) auto
  then show "ReadRaw_u32 s = (0, s)" "ReadRaw_u64 s = (0, s)"
    using assms by (simp_all add: ReadRaw_u32_def ReadRaw_u64_def ifs_read_def)
qed

lemma put_u32_unique:
  assumes "length c = 4" and "of_nat (le_val c) = w"
  shows "c = put_u32 w"
proof -
  have "le_val c < 2 ^ 32" using le_val_lt [of c] assms(1) by simp
  then have "unat w = le_val c" unfolding assms(2) [symmetric] by (simp add: unat_of_nat)
  then show ?thesis using le_bytes_le_val [OF assms(1)] by (simp add: put_u32_def)
qed

end
