(* ===== verification/SSTable.thy ===== *)
theory SSTable
  imports Memtable Ifstream
begin

text \<open>
  \<^verbatim>\<open>src/storage/sstable.cpp\<close>.  A finished table is a string of bytes: the data block, the index
  block, the 16-byte footer.  Every public read operation of the source begins with an absolute seek on the stream it owns; it
  is modelled on a stream in good state, and \<open>stream_good\<close> lemmas show that no operation on a
  table built by the writer leaves the fail bit set.

  Shown: opening what the writer finished succeeds, and the reader is a layer in the sense of
  \<open>kv_layer\<close>; a file without its footer is rejected.
\<close>

definition kTombstone :: "32 word" where "kTombstone = 0xFFFFFFFF"

definition kMagic :: "32 word" where "kMagic = 0x53535444"

definition kFooterSize :: nat where "kFooterSize = 16"

section \<open>The writer\<close>

record SSTableWriter =
  w_path :: string
  w_file :: string
  w_index :: "(string \<times> 64 word) list"

definition SSTableWriter_new :: "string \<Rightarrow> SSTableWriter" where
  "SSTableWriter_new path = \<lparr>w_path = path, w_file = [], w_index = []\<rparr>"

definition w_tmp_path :: "SSTableWriter \<Rightarrow> string" where
  "w_tmp_path w = w_path w @ ''.tmp''"

definition value_bytes :: "string option \<Rightarrow> string" where
  "value_bytes value = (case value of
       Some v \<Rightarrow> put_u32 (of_nat (length v)) @ v
     | None \<Rightarrow> put_u32 kTombstone)"

definition w_Add :: "SSTableWriter \<Rightarrow> string \<Rightarrow> string option \<Rightarrow> SSTableWriter" where
  "w_Add w key value =
     (let offset = of_nat (length (w_file w))
      in w\<lparr>w_file := w_file w @ put_u32 (of_nat (length key)) @ key @ value_bytes value,
           w_index := w_index w @ [(key, offset)]\<rparr>)"

text \<open>The contents of the temporary file when \<^verbatim>\<open>Finish\<close> renames it.\<close>

definition w_Finish :: "SSTableWriter \<Rightarrow> string" where
  "w_Finish w =
     (let index_offset = of_nat (length (w_file w)) :: 64 word
      in w_file w
         @ concat (map (\<lambda>(key, offset). put_u32 (of_nat (length key)) @ key @ put_u64 offset) (w_index w))
         @ put_u64 index_offset @ put_u32 (of_nat (length (w_index w))) @ put_u32 kMagic)"

definition w_AddAll :: "SSTableWriter \<Rightarrow> (string \<times> string option) list \<Rightarrow> SSTableWriter" where
  "w_AddAll w es = foldl (\<lambda>w (key, value). w_Add w key value) w es"

section \<open>The reader\<close>

record SSTableReader =
  sst_path :: string
  sst_file :: string
  sst_index :: "(string \<times> 64 word) list"
  sst_data_end :: "64 word"

fun read_index :: "nat \<Rightarrow> ifstream \<Rightarrow> (string \<times> 64 word) list \<times> ifstream" where
  "read_index 0 s = ([], s)"
| "read_index (Suc n) s =
     (let (key_len, s) = ReadRaw_u32 s;
          (key, s) = ifs_read (unat key_len) s;
          (offset, s) = ReadRaw_u64 s;
          (ixs, s) = read_index n s
      in ((key, offset) # ixs, s))"

definition sst_Open :: "string \<Rightarrow> string option \<Rightarrow> SSTableReader res" where
  "sst_Open path file = (case file of
       None \<Rightarrow> Inl (RuntimeError (''failed to open SSTable: '' @ path))
     | Some bytes \<Rightarrow>
         if length bytes < kFooterSize
         then Inl (RuntimeError (''SSTable too small to contain a footer: '' @ path))
         else
           let s = ifs_seekg (length bytes - kFooterSize) (ifs_open bytes);
               (index_offset, s) = ReadRaw_u64 s;
               (entry_count, s) = ReadRaw_u32 s;
               (magic, s) = ReadRaw_u32 s
           in if magic \<noteq> kMagic
              then Inl (RuntimeError
                     (''SSTable footer magic mismatch (truncated/corrupt file): '' @ path))
              else Inr \<lparr>sst_path = path, sst_file = bytes,
                        sst_index = fst (read_index (unat entry_count) (ifs_seekg (unat index_offset) s)),
                        sst_data_end = index_offset\<rparr>)"

text \<open>The value of an entry: the length word is the tombstone mark or the number of bytes.\<close>

definition read_value :: "ifstream \<Rightarrow> string option \<times> ifstream" where
  "read_value s =
     (let (value_len, s) = ReadRaw_u32 s
      in if value_len = kTombstone then (None, s)
         else let (value, s) = ifs_read (unat value_len) s in (Some value, s))"

text \<open>Seek to an entry, skip its key, read its value.\<close>

definition read_at :: "64 word \<Rightarrow> ifstream \<Rightarrow> string option \<times> ifstream" where
  "read_at offset s =
     (let s = ifs_seekg (unat offset) s;
          (key_len, s) = ReadRaw_u32 s;
          s = ifs_skip (unat key_len) s
      in read_value s)"

definition sst_Lookup :: "SSTableReader \<Rightarrow> string \<Rightarrow> LookupResult" where
  "sst_Lookup r key = (case omap_lower_bound key (sst_index r) of
       [] \<Rightarrow> \<lparr>lr_status = kNotFound, lr_value = []\<rparr>
     | (k, offset) # _ \<Rightarrow>
         if k \<noteq> key then \<lparr>lr_status = kNotFound, lr_value = []\<rparr>
         else case fst (read_at offset (ifs_open (sst_file r))) of
             None \<Rightarrow> \<lparr>lr_status = kDeleted, lr_value = []\<rparr>
           | Some v \<Rightarrow> \<lparr>lr_status = kFound, lr_value = v\<rparr>)"

fun scan_entries :: "(string \<times> 64 word) list \<Rightarrow> ifstream \<Rightarrow> (string \<times> string option) list \<times> ifstream" where
  "scan_entries [] s = ([], s)"
| "scan_entries ((key, offset) # ixs) s =
     (let (v, s) = read_at offset s; (es, s) = scan_entries ixs s in ((key, v) # es, s))"

definition sst_Scan :: "SSTableReader \<Rightarrow> string \<Rightarrow> (string \<times> string option) list" where
  "sst_Scan r p =
     fst (scan_entries (takeWhile (\<lambda>e. StartsWith (fst e) p) (omap_lower_bound p (sst_index r)))
                       (ifs_open (sst_file r)))"

definition read_entry :: "ifstream \<Rightarrow> (string \<times> string option) \<times> ifstream" where
  "read_entry s =
     (let (key_len, s) = ReadRaw_u32 s;
          (key, s) = ifs_read (unat key_len) s;
          (value, s) = read_value s
      in ((key, value), s))"

lemma read_entry_progress:
  assumes "read_entry s = (e, s')" and "\<not> ifs_fail s'"
  shows "\<not> ifs_fail s \<and> ifs_bytes s' = ifs_bytes s \<and> ifs_pos s < ifs_pos s' \<and>
         ifs_pos s < length (ifs_bytes s)"
  using assms
  by (auto simp: read_entry_def read_value_def ReadRaw_u32_def Let_def
      dest!: ifs_read_progress split: prod.splits if_splits)

function read_all :: "64 word \<Rightarrow> ifstream \<Rightarrow> (string \<times> string option) list \<times> ifstream" where
  "read_all data_end s =
     (if ifs_tellg s < unat data_end
      then let (e, s) = read_entry s; (es, s) = read_all data_end s in (e # es, s)
      else ([], s))"
  by pat_completeness auto
termination
proof (relation "measure (\<lambda>(_, s). if ifs_fail s then 0 else Suc (length (ifs_bytes s) - ifs_pos s))",
    goal_cases)
  case (2 data_end s x e s')
  have "unat data_end < 2 ^ 64" using unsigned_less [of data_end, where 'a = nat] by simp
  then have "\<not> ifs_fail s" using 2(1) by (auto simp: ifs_tellg_def)
  with 2 read_entry_progress [of s e s'] show ?case
    by (auto simp: not_less)
qed simp

declare read_all.simps [simp del]

definition sst_ReadAll :: "SSTableReader \<Rightarrow> (string \<times> string option) list" where
  "sst_ReadAll r = fst (read_all (sst_data_end r) (ifs_seekg 0 (ifs_open (sst_file r))))"

section \<open>Tables the writer builds\<close>

definition ent_bytes :: "string \<times> string option \<Rightarrow> string" where
  "ent_bytes e = put_u32 (of_nat (length (fst e))) @ fst e @ value_bytes (snd e)"

fun offsets :: "nat \<Rightarrow> (string \<times> string option) list \<Rightarrow> (string \<times> 64 word) list" where
  "offsets n [] = []"
| "offsets n (e # es) = (fst e, of_nat n) # offsets (n + length (ent_bytes e)) es"

definition ix_bytes :: "string \<times> 64 word \<Rightarrow> string" where
  "ix_bytes x = put_u32 (of_nat (length (fst x))) @ fst x @ put_u64 (snd x)"

definition data_bytes :: "(string \<times> string option) list \<Rightarrow> string" where
  "data_bytes es = concat (map ent_bytes es)"

definition sst_bytes :: "(string \<times> string option) list \<Rightarrow> string" where
  "sst_bytes es = w_Finish (w_AddAll (SSTableWriter_new []) es)"

definition ent_ok :: "string \<times> string option \<Rightarrow> bool" where
  "ent_ok e \<longleftrightarrow> fits32 (fst e) \<and> (case snd e of None \<Rightarrow> True | Some v \<Rightarrow> length v < 2 ^ 32 - 1)"

definition table_ok :: "(string \<times> string option) list \<Rightarrow> bool" where
  "table_ok es \<longleftrightarrow> omap_ok es \<and> (\<forall>e \<in> set es. ent_ok e) \<and> fits32 es \<and> length (sst_bytes es) < 2 ^ 63"

definition sst_reader :: "string \<Rightarrow> (string \<times> string option) list \<Rightarrow> SSTableReader" where
  "sst_reader path es = \<lparr>sst_path = path, sst_file = sst_bytes es, sst_index = offsets 0 es,
     sst_data_end = of_nat (length (data_bytes es))\<rparr>"

definition sst_view :: "SSTableReader \<Rightarrow> string \<Rightarrow> string option option" where
  "sst_view r k = map_of (sst_ReadAll r) k"

definition sst_ok :: "SSTableReader \<Rightarrow> bool" where
  "sst_ok r \<longleftrightarrow> table_ok (sst_ReadAll r) \<and> r = sst_reader (sst_path r) (sst_ReadAll r)"

lemma w_AddAll_file:
  "w_file (w_AddAll w es) = w_file w @ data_bytes es"
  "w_index (w_AddAll w es) = w_index w @ offsets (length (w_file w)) es"
  by (induction es arbitrary: w)
    (auto simp: w_AddAll_def w_Add_def data_bytes_def ent_bytes_def Let_def)

lemma w_AddAll_path [simp]: "w_path (w_AddAll w es) = w_path w"
  by (induction es arbitrary: w) (auto simp: w_AddAll_def w_Add_def Let_def)

lemma w_Finish_path:
  "w_Finish (w_AddAll (SSTableWriter_new path) es) = sst_bytes es"
  by (simp add: sst_bytes_def w_Finish_def w_AddAll_file SSTableWriter_new_def)

lemma offsets_keys [simp]: "map fst (offsets n es) = map fst es"
  by (induction es arbitrary: n) auto

lemma length_offsets [simp]: "length (offsets n es) = length es"
  by (induction es arbitrary: n) auto

lemma omap_ok_offsets [simp]: "omap_ok (offsets n es) = omap_ok es"
  by (simp add: omap_ok_def)

lemma sst_bytes_eq:
  "sst_bytes es = data_bytes es @ concat (map ix_bytes (offsets 0 es)) @
     put_u64 (of_nat (length (data_bytes es))) @ put_u32 (of_nat (length es)) @ put_u32 kMagic"
proof -
  have "(\<lambda>(key, offset). put_u32 (of_nat (length key)) @ key @ put_u64 offset) = ix_bytes"
    by (auto simp: ix_bytes_def)
  then show ?thesis
    by (simp add: sst_bytes_def w_Finish_def w_AddAll_file SSTableWriter_new_def Let_def)
qed

section \<open>Reading what was written\<close>

lemma value_len_not_tombstone:
  assumes "length v < 2 ^ 32 - 1"
  shows "(of_nat (length v) :: 32 word) \<noteq> kTombstone"
proof
  assume "(of_nat (length v) :: 32 word) = kTombstone"
  then have "unat (of_nat (length v) :: 32 word) = unat kTombstone" by simp
  with assms show False by (simp add: unat_of_nat kTombstone_def)
qed

lemma read_value_stream:
  assumes "ent_ok (k, v)"
  shows "read_value (stream pre (value_bytes v @ rest)) = (v, stream (pre @ value_bytes v) rest)"
proof (cases v)
  case None
  then show ?thesis by (simp add: read_value_def value_bytes_def)
next
  case (Some x)
  then have len: "length x < 2 ^ 32 - 1" using assms by (simp add: ent_ok_def)
  then have "unat (of_nat (length x) :: 32 word) = length x" by (simp add: unat_of_nat)
  with Some value_len_not_tombstone [OF len] show ?thesis
    by (simp add: read_value_def value_bytes_def)
qed

lemma read_entry_stream:
  assumes "ent_ok e"
  shows "read_entry (stream pre (ent_bytes e @ rest)) = (e, stream (pre @ ent_bytes e) rest)"
proof -
  obtain k v where e: "e = (k, v)" by (cases e)
  have "unat (of_nat (length k) :: 32 word) = length k"
    using assms by (simp add: e ent_ok_def unat_length32)
  with read_value_stream assms show ?thesis
    by (simp add: read_entry_def e ent_bytes_def)
qed

lemma read_at_stream:
  assumes "ent_ok e" and "length pre' + length (ent_bytes e) < 2 ^ 63"
    and "pre @ rest = pre' @ ent_bytes e @ rest'"
  shows "read_at (of_nat (length pre')) (stream pre rest) = (snd e, stream (pre' @ ent_bytes e) rest')"
proof -
  obtain k v where e: "e = (k, v)" by (cases e)
  have kl: "unat (of_nat (length k) :: 32 word) = length k"
    using assms by (simp add: e ent_ok_def unat_length32)
  have off: "unat (of_nat (length pre') :: 64 word) = length pre'"
    using assms(2) by (simp add: unat_of_nat)
  have lens: "length (pre' @ put_u32 (of_nat (length k)) @ k) < 2 ^ 63" "length pre' < 2 ^ 63"
    using assms(2) by (simp_all add: e ent_bytes_def)
  have "ifs_seekg (length pre') (stream pre rest) = stream pre' (ent_bytes e @ rest')"
    by (rule seekg_stream) (use assms(3) lens in auto)
  moreover have "ifs_skip (length k) (stream (pre' @ put_u32 (of_nat (length k))) (k @ value_bytes v @ rest'))
      = stream (pre' @ put_u32 (of_nat (length k)) @ k) (value_bytes v @ rest')"
    unfolding ifs_skip_def by (rule seekg_stream) (use lens in \<open>auto simp: stream_def\<close>)
  moreover have "read_value (stream (pre' @ put_u32 (of_nat (length k)) @ k) (value_bytes v @ rest'))
      = (v, stream ((pre' @ put_u32 (of_nat (length k)) @ k) @ value_bytes v) rest')"
    by (rule read_value_stream) (use assms e in simp)
  ultimately show ?thesis
    by (simp add: read_at_def off e ent_bytes_def kl)
qed

lemma read_index_stream:
  assumes "\<forall>x \<in> set ixs. fits32 (fst x)"
  shows "read_index (length ixs) (stream pre (concat (map ix_bytes ixs) @ rest))
       = (ixs, stream (pre @ concat (map ix_bytes ixs)) rest)"
  using assms
proof (induction ixs arbitrary: pre)
  case (Cons x ixs)
  then show ?case
    by (cases x) (simp add: ix_bytes_def unat_length32)
qed simp

lemma read_all_stream:
  assumes "\<forall>e \<in> set es. ent_ok e" and "length (pre @ data_bytes es) < 2 ^ 64"
  shows "read_all (of_nat (length (pre @ data_bytes es))) (stream pre (data_bytes es @ rest))
       = (es, stream (pre @ data_bytes es) rest)"
  using assms
proof (induction es arbitrary: pre)
  case Nil
  then show ?case by (subst read_all.simps) (simp add: data_bytes_def unat_of_nat64)
next
  case (Cons e es)
  have d: "data_bytes (e # es) = ent_bytes e @ data_bytes es" by (simp add: data_bytes_def)
  have lt: "length pre < unat (of_nat (length (pre @ data_bytes (e # es))) :: 64 word)"
    unfolding unat_of_nat64 [OF Cons.prems(2)] by (simp add: d ent_bytes_def)
  from Cons.IH [of "pre @ ent_bytes e"] Cons.prems
  have "read_all (of_nat (length (pre @ data_bytes (e # es)))) (stream (pre @ ent_bytes e) (data_bytes es @ rest))
      = (es, stream (pre @ data_bytes (e # es)) rest)"
    by (simp add: d add.assoc)
  moreover have "read_entry (stream pre (data_bytes (e # es) @ rest))
      = (e, stream (pre @ ent_bytes e) (data_bytes es @ rest))"
    using Cons.prems by (simp add: d read_entry_stream)
  ultimately show ?case
    using lt by (subst read_all.simps) (simp add: Let_def)
qed

lemma data_bytes_Cons [simp]:
  "data_bytes [] = []" "data_bytes (e # es) = ent_bytes e @ data_bytes es"
  by (simp_all add: data_bytes_def)

lemma length_data_bytes_lt: "length (data_bytes es) < length (sst_bytes es)"
  by (simp add: sst_bytes_eq)

lemma offsets_split:
  assumes "(k, off) \<in> set (offsets n es)"
  shows "\<exists>es1 v es2. es = es1 @ (k, v) # es2 \<and> off = of_nat (n + length (data_bytes es1))"
  using assms
proof (induction es arbitrary: n)
  case (Cons e es)
  show ?case
  proof (cases "(k, off) = (fst e, of_nat n)")
    case True
    then have "e # es = [] @ (k, snd e) # es \<and> off = of_nat (n + length (data_bytes []))" by simp
    then show ?thesis by blast
  next
    case False
    with Cons.prems have "(k, off) \<in> set (offsets (n + length (ent_bytes e)) es)" by auto
    from Cons.IH [OF this] obtain es1 v es2 where
      "es = es1 @ (k, v) # es2" "off = of_nat (n + length (ent_bytes e) + length (data_bytes es1))"
      by blast
    then have "e # es = (e # es1) @ (k, v) # es2 \<and> off = of_nat (n + length (data_bytes (e # es1)))"
      by (simp add: add.assoc)
    then show ?thesis by blast
  qed
qed simp

lemma data_bytes_append [simp]: "data_bytes (es @ fs) = data_bytes es @ data_bytes fs"
  by (simp add: data_bytes_def)

lemma read_at_table:
  assumes "table_ok es" and "(k, off) \<in> set (offsets 0 es)" and "pre @ rest = sst_bytes es"
  shows "\<exists>pre' rest'. read_at off (stream pre rest) = (the (map_of es k), stream pre' rest')
                    \<and> pre' @ rest' = sst_bytes es"
proof -
  obtain es1 v es2 where es: "es = es1 @ (k, v) # es2" and off: "off = of_nat (length (data_bytes es1))"
    using offsets_split [OF assms(2)] by auto
  obtain tail where tail: "sst_bytes es = data_bytes es1 @ ent_bytes (k, v) @ tail"
    by (simp add: sst_bytes_eq es)
  have "ent_ok (k, v)" and len: "length (sst_bytes es) < 2 ^ 63"
    using assms(1) by (auto simp: table_ok_def es)
  moreover have "map_of es k = Some v"
    using assms(1) omap_mem_iff [of es k v] by (auto simp: table_ok_def es)
  moreover have "read_at (of_nat (length (data_bytes es1))) (stream pre rest)
      = (snd (k, v), stream (data_bytes es1 @ ent_bytes (k, v)) tail)"
    by (rule read_at_stream) (use assms(3) \<open>ent_ok (k, v)\<close> len in \<open>auto simp: tail\<close>)
  ultimately show ?thesis
    using off tail
    by (intro exI [of _ "data_bytes es1 @ ent_bytes (k, v)"] exI [of _ tail]) simp
qed

lemma scan_entries_table:
  assumes "table_ok es" and "set ixs \<subseteq> set (offsets 0 es)" and "pre @ rest = sst_bytes es"
  shows "\<exists>pre' rest'. scan_entries ixs (stream pre rest)
           = (map (\<lambda>x. (fst x, the (map_of es (fst x)))) ixs, stream pre' rest')"
  using assms
proof (induction ixs arbitrary: pre rest)
  case (Cons x ixs)
  obtain k off where x: "x = (k, off)" by (cases x)
  obtain pre1 rest1 where r: "read_at off (stream pre rest) = (the (map_of es k), stream pre1 rest1)"
    and "pre1 @ rest1 = sst_bytes es"
    using read_at_table Cons.prems x by (metis insert_subset list.simps(15))
  with Cons.IH [of pre1 rest1] Cons.prems show ?case
    by (auto simp: x) (rule exI, rule exI, rule refl)
qed auto

lemma lower_bound_find:
  assumes "omap_ok m"
  shows "(case omap_lower_bound k m of [] \<Rightarrow> None | (k', v) # _ \<Rightarrow> if k' \<noteq> k then None else Some v)
       = map_of m k"
  using assms
proof (induction m)
  case (Cons e m)
  obtain k1 v1 where e: "e = (k1, v1)" by (cases e)
  have "\<forall>x \<in> set m. k1 < fst x" using Cons.prems by (simp add: omap_ok_Cons e)
  then have "map_of m k = None" if "k \<le> k1"
    using that by (auto simp: map_of_eq_None_iff)
  with Cons show ?case
    by (auto simp: omap_lower_bound_def omap_ok_Cons e)
qed (simp add: omap_lower_bound_def)

section \<open>The reader on a finished table\<close>

lemma sst_Open_bytes:
  assumes "table_ok es"
  shows "sst_Open path (Some (sst_bytes es)) = Inr (sst_reader path es)"
proof -
  let ?d = "data_bytes es" and ?ix = "concat (map ix_bytes (offsets 0 es))"
  let ?f1 = "put_u64 (of_nat (length ?d))" and ?f2 = "put_u32 (of_nat (length es))"
  have len: "length (sst_bytes es) < 2 ^ 63" "fits32 es" using assms by (simp_all add: table_ok_def)
  have b: "sst_bytes es = (?d @ ?ix) @ ?f1 @ ?f2 @ put_u32 kMagic @ []"
    by (simp add: sst_bytes_eq)
  have pos: "length (sst_bytes es) - kFooterSize = length (?d @ ?ix)" "kFooterSize \<le> length (sst_bytes es)"
    by (simp_all add: b kFooterSize_def)
  have s1: "ifs_seekg (length (?d @ ?ix)) (ifs_open (sst_bytes es))
      = stream (?d @ ?ix) (?f1 @ ?f2 @ put_u32 kMagic @ [])"
    unfolding ifs_open_stream by (rule seekg_stream) (use len b in auto)
  have dlen: "unat (of_nat (length ?d) :: 64 word) = length ?d"
    by (rule unat_of_nat64) (use len length_data_bytes_lt [of es] in simp)
  have s2: "ifs_seekg (length ?d) (stream (((?d @ ?ix) @ ?f1) @ ?f2 @ put_u32 kMagic) [])
      = stream ?d (?ix @ ?f1 @ ?f2 @ put_u32 kMagic)"
    by (rule seekg_stream) (use len length_data_bytes_lt [of es] in auto)
  have "\<forall>x \<in> set (offsets 0 es). fits32 (fst x)"
    using assms offsets_keys [of 0 es]
    by (metis (no_types, lifting) ent_ok_def imageE image_eqI list.set_map table_ok_def)
  from read_index_stream [OF this, of ?d]
  have "read_index (length es) (stream ?d (?ix @ ?f1 @ ?f2 @ put_u32 kMagic))
      = (offsets 0 es, stream (?d @ ?ix) (?f1 @ ?f2 @ put_u32 kMagic))"
    by simp
  with s1 s2 pos dlen len show ?thesis
    by (simp add: sst_Open_def sst_reader_def unat_length32)
qed

lemma sst_ReadAll_reader:
  assumes "table_ok es"
  shows "sst_ReadAll (sst_reader path es) = es"
proof -
  have len: "length ([] @ data_bytes es) < 2 ^ 64"
    using assms length_data_bytes_lt [of es] by (simp add: table_ok_def)
  obtain rest where rest: "sst_bytes es = data_bytes es @ rest" by (simp add: sst_bytes_eq)
  have "ifs_seekg 0 (ifs_open (sst_bytes es)) = stream [] (data_bytes es @ rest)"
    unfolding ifs_open_stream by (rule seekg_stream) (simp_all add: rest)
  with read_all_stream [OF _ len, of rest] assms show ?thesis
    by (simp add: sst_ReadAll_def sst_reader_def table_ok_def)
qed

lemma sst_Lookup_reader:
  assumes "table_ok es"
  shows "answer (sst_Lookup (sst_reader path es) k) = map_of es k"
proof -
  have ok: "omap_ok es" using assms by (simp add: table_ok_def)
  show ?thesis
  proof (cases "map_of (offsets 0 es) k")
    case None
    then have "map_of es k = None" by (metis map_of_eq_None_iff list.set_map offsets_keys)
    with None lower_bound_find [of "offsets 0 es" k] ok show ?thesis
      by (auto simp: sst_Lookup_def sst_reader_def split: list.splits if_splits)
  next
    case (Some off)
    then have mem: "(k, off) \<in> set (offsets 0 es)" by (rule map_of_SomeD)
    then have "k \<in> set (map fst (offsets 0 es))"
      by (metis fst_conv image_eqI list.set_map)
    then have "k \<in> set (map fst es)" by (simp only: offsets_keys)
    then obtain v where v: "map_of es k = Some v"
      by (metis map_of_eq_None_iff list.set_map option.exhaust)
    obtain lb where "omap_lower_bound k (offsets 0 es) = (k, off) # lb"
      using Some lower_bound_find [of "offsets 0 es" k] ok
      by (auto split: list.splits if_splits)
    moreover have "fst (read_at off (ifs_open (sst_bytes es))) = v"
      using read_at_table [OF assms mem, of "[]"] v by (auto simp: ifs_open_stream)
    ultimately show ?thesis
      using v by (simp add: sst_Lookup_def sst_reader_def split: option.split)
  qed
qed

lemma filter_offsets_map:
  assumes "omap_ok es"
  shows "map (\<lambda>x. (fst x, the (map_of es (fst x)))) (filter (\<lambda>x. P (fst x)) (offsets n es))
       = filter (\<lambda>e. P (fst e)) es"
proof -
  have "map (\<lambda>k. (k, the (map_of es k))) (filter P (map fst (offsets n es)))
      = map (\<lambda>k. (k, the (map_of es k))) (filter P (map fst es))" by simp
  also have "\<dots> = map (\<lambda>e. (fst e, the (map_of es (fst e)))) (filter (\<lambda>e. P (fst e)) es)"
    by (simp add: filter_map o_def)
  also have "\<dots> = filter (\<lambda>e. P (fst e)) es"
    using assms by (intro map_idI) (auto simp: omap_mem_iff)
  finally have "map (\<lambda>k. (k, the (map_of es k))) (filter P (map fst (offsets n es)))
      = filter (\<lambda>e. P (fst e)) es" .
  then show ?thesis by (simp only: filter_map map_map o_def)
qed

lemma sst_Scan_reader:
  assumes "table_ok es"
  shows "sst_Scan (sst_reader path es) p = filter (\<lambda>e. StartsWith (fst e) p) es"
proof -
  let ?ixs = "filter (\<lambda>e. StartsWith (fst e) p) (offsets 0 es)"
  have ok: "omap_ok es" using assms by (simp add: table_ok_def)
  have "sst_Scan (sst_reader path es) p = fst (scan_entries ?ixs (stream [] (sst_bytes es)))"
    using ok by (simp add: sst_Scan_def sst_reader_def omap_prefix_walk ifs_open_stream)
  also have "\<dots> = map (\<lambda>x. (fst x, the (map_of es (fst x)))) ?ixs"
    using scan_entries_table [OF assms, of ?ixs "[]" "sst_bytes es"] by auto
  also have "\<dots> = filter (\<lambda>e. StartsWith (fst e) p) es"
    using filter_offsets_map [OF ok, of "\<lambda>k. StartsWith k p"] by simp
  finally show ?thesis .
qed

lemma sst_ok_reader [simp]: "table_ok es \<Longrightarrow> sst_ok (sst_reader path es)"
  by (simp add: sst_ok_def sst_ReadAll_reader) (simp add: sst_reader_def)

lemma sst_view_reader: "table_ok es \<Longrightarrow> sst_view (sst_reader path es) = map_of es"
  by (simp add: sst_view_def sst_ReadAll_reader fun_eq_iff)

interpretation sst: kv_layer sst_ok sst_view sst_Lookup sst_Scan
proof
  fix r k p
  assume "sst_ok r"
  then obtain path es where r: "r = sst_reader path es" and ok: "table_ok es"
    unfolding sst_ok_def by blast
  show "answer (sst_Lookup r k) = sst_view r k"
    unfolding r sst_Lookup_reader [OF ok] sst_view_reader [OF ok] ..
  show "omap_ok (sst_Scan r p)"
    unfolding r sst_Scan_reader [OF ok] using ok by (simp add: table_ok_def omap_ok_filter)
  show "map_of (sst_Scan r p) k = (if StartsWith k p then sst_view r k else None)"
    unfolding r sst_Scan_reader [OF ok] sst_view_reader [OF ok]
    by (simp add: map_of_filter_key [where P = "\<lambda>x. StartsWith x p"])
qed

section \<open>Properties\<close>

text \<open>C24. A table written in ascending key order opens without error, and the reader gives back
  what was written: every entry in order by a full read, exactly the entries under a prefix by
  a scan, and for each key its value, its tombstone, or that the table does not know it.\<close>

theorem sstable_roundtrip:
  assumes "table_ok es"
  shows "\<exists>r. sst_Open path (Some (w_Finish (w_AddAll (SSTableWriter_new path) es))) = Inr r \<and>
           sst_ReadAll r = es \<and>
           (\<forall>p. sst_Scan r p = filter (\<lambda>e. StartsWith (fst e) p) es) \<and>
           (\<forall>k. answer (sst_Lookup r k) = map_of es k)"
  using sst_Open_bytes [OF assms, of path] sst_ReadAll_reader [OF assms, of path]
    sst_Scan_reader [OF assms, of path] sst_Lookup_reader [OF assms, of path]
  by (simp add: w_Finish_path)

lemma length_sst_bytes: "length (sst_bytes es) = length (data_bytes es)
    + sum_list (map (\<lambda>e. 12 + length (fst e)) es) + 16"
proof -
  have "length (concat (map ix_bytes (offsets n es))) = sum_list (map (\<lambda>e. 12 + length (fst e)) es)" for n
    by (induction es arbitrary: n) (auto simp: ix_bytes_def)
  then show ?thesis by (simp add: sst_bytes_eq)
qed

theorem sstable_roundtrip_witness:
  "\<exists>r. sst_Open ''000001.sst'' (Some (w_Finish (w_AddAll (SSTableWriter_new ''000001.sst'')
       [(''a'', Some ''1''), (''b'', None)]))) = Inr r \<and>
     sst_ReadAll r = [(''a'', Some ''1''), (''b'', None)] \<and>
     (\<forall>p. sst_Scan r p = filter (\<lambda>e. StartsWith (fst e) p) [(''a'', Some ''1''), (''b'', None)]) \<and>
     (\<forall>k. answer (sst_Lookup r k) = map_of [(''a'', Some ''1''), (''b'', None)] k)"
proof (rule sstable_roundtrip)
  show "table_ok [(''a'', Some ''1''), (''b'', None)]"
    by (simp add: table_ok_def omap_ok_def ent_ok_def fits32_def length_sst_bytes ent_bytes_def
        value_bytes_def)
qed

lemma sst_Open_magic:
  assumes "16 \<le> length bytes" and "sst_Open path (Some bytes) = Inr r"
  shows "drop (length bytes - 4) bytes = put_u32 kMagic"
proof -
  let ?n = "length bytes"
  let ?s = "ifs_seekg (?n - 16) (ifs_open bytes)"
  have magic: "fst (ReadRaw_u32 (snd (ReadRaw_u32 (snd (ReadRaw_u64 ?s))))) = kMagic"
    using assms by (auto simp: sst_Open_def kFooterSize_def split: prod.splits if_splits)
  have "\<not> ifs_fail ?s"
    using magic by (auto simp: ReadRaw_failed kMagic_def)
  then have "?s = \<lparr>ifs_bytes = bytes, ifs_pos = ?n - 16, ifs_fail = False\<rparr>"
    by (auto simp: ifs_seekg_def ifs_open_def split: if_splits)
  with magic assms(1) have "of_nat (le_val (drop (?n - 4) bytes)) = kMagic"
    by (simp add: ReadRaw_at)
  with assms(1) show ?thesis by (intro put_u32_unique) auto
qed

text \<open>A file that does not end in the footer's magic number (every file cut short of its last four
  bytes whose tail does not imitate it, every file shorter than a footer) is refused, with an error that
  names the file.\<close>

theorem sstable_bad_footer_rejected:
  assumes "length bytes < 16 \<or> drop (length bytes - 4) bytes \<noteq> put_u32 kMagic"
  shows "\<exists>msg. sst_Open path (Some bytes) = Inl (RuntimeError (msg @ path))"
proof (cases "length bytes < 16")
  case True
  then show ?thesis by (auto simp: sst_Open_def kFooterSize_def)
next
  case False
  then show ?thesis
    using assms sst_Open_magic [of bytes path]
    by (cases "sst_Open path (Some bytes)")
      (auto simp: sst_Open_def kFooterSize_def split: prod.splits if_splits)
qed

theorem sstable_bad_footer_rejected_witness:
  "\<exists>msg. sst_Open ''x.sst'' (Some ''torn'') = Inl (RuntimeError (msg @ ''x.sst''))"
  by (rule sstable_bad_footer_rejected) simp

end
