(* ===== verification/Crc32.thy ===== *)
theory Crc32
  imports Bytes
begin

unbundle bit_operations_syntax

text \<open>
  \<^verbatim>\<open>src/storage/crc32.cpp\<close>: the table-driven CRC-32 that guards the records of the
  write-ahead log.  The table is the one the constructor of \<^verbatim>\<open>CrcTable\<close> fills;
  \<open>Crc32\<close> is the byte loop.  It is compared with the bit-serial definition of
  the checksum (\<open>crc32_bitwise\<close>), and from the algebra of one step (linear over
  exclusive or, and injective because the polynomial's top bit is set) follows what the
  log relies on: damage confined to four consecutive bytes always changes the checksum.
\<close>

definition crc_step :: "32 word \<Rightarrow> 32 word" where
  "crc_step c = (if c AND 1 \<noteq> 0 then 0xEDB88320 XOR drop_bit 1 c else drop_bit 1 c)"

definition ComputeTableEntry :: "32 word \<Rightarrow> 32 word" where
  "ComputeTableEntry n = (crc_step ^^ 8) n"

definition kCrcTable :: "32 word list" where
  "kCrcTable = map (\<lambda>n. ComputeTableEntry (of_nat n)) [0..<256]"

definition byte_word :: "char \<Rightarrow> 32 word" where
  "byte_word b = of_nat (of_char b)"

definition crc_byte :: "32 word \<Rightarrow> char \<Rightarrow> 32 word" where
  "crc_byte crc b = kCrcTable ! unat ((crc XOR byte_word b) AND 0xFF) XOR drop_bit 8 crc"

definition Crc32 :: "string \<Rightarrow> 32 word" where
  "Crc32 data = foldl crc_byte 0xFFFFFFFF data XOR 0xFFFFFFFF"

text \<open>The reference: shift the message in bit by bit, least significant bit first.\<close>

definition crc_bits :: "32 word \<Rightarrow> char \<Rightarrow> 32 word" where
  "crc_bits crc b = (crc_step ^^ 8) (crc XOR byte_word b)"

definition crc32_bitwise :: "string \<Rightarrow> 32 word" where
  "crc32_bitwise data = foldl crc_bits 0xFFFFFFFF data XOR 0xFFFFFFFF"

section \<open>One step is linear and injective\<close>

lemma xor_cancel:
  "(c :: 32 word) XOR a = c XOR b \<longleftrightarrow> a = b"
  "a XOR (c :: 32 word) = b XOR c \<longleftrightarrow> a = b"
  by (auto simp: bit_eq_iff bit_xor_iff)

lemma crc_step_bit: "crc_step c = (if bit c 0 then 0xEDB88320 XOR drop_bit 1 c else drop_bit 1 c)"
  by (simp add: crc_step_def and_one_eq bit_0 odd_iff_mod_2_eq_one)

lemma crc_step_xor: "crc_step (a XOR b) = crc_step a XOR crc_step b"
  by (auto simp: crc_step_bit bit_xor_iff drop_bit_xor xor.assoc xor.left_commute)

lemma crc_steps_xor: "(crc_step ^^ n) (a XOR b) = (crc_step ^^ n) a XOR (crc_step ^^ n) b"
  by (induction n) (auto simp: crc_step_xor)

lemma crc_step_top: "bit (crc_step c) 31 = bit c 0"
proof -
  have "bit (0xEDB88320 :: 32 word) 31" by (simp add: bit_numeral_rec)
  then show ?thesis
    using bit_imp_le_length [of c 32] by (auto simp: crc_step_bit bit_xor_iff bit_drop_bit_eq)
qed

lemma crc_step_inject: "crc_step a = crc_step b \<longleftrightarrow> a = b"
proof
  assume eq: "crc_step a = crc_step b"
  then have zero: "bit a 0 = bit b 0" by (metis crc_step_top)
  with eq have "drop_bit 1 a = drop_bit 1 b"
    by (auto simp: crc_step_bit xor_cancel split: if_splits)
  then have "bit (drop_bit 1 a) n = bit (drop_bit 1 b) n" for n by simp
  then have "bit a (Suc n) = bit b (Suc n)" for n by (simp add: bit_drop_bit_eq)
  with zero have "bit a n = bit b n" for n by (cases n) auto
  then show "a = b" by (simp add: bit_eq_iff)
qed simp

lemma crc_steps_inject: "(crc_step ^^ n) a = (crc_step ^^ n) b \<longleftrightarrow> a = b"
  by (induction n) (auto simp: crc_step_inject)

text \<open>Where the low bits are zero, a step is a shift.\<close>

lemma crc_steps_shift:
  "(\<forall>i < n. \<not> bit c i) \<Longrightarrow> (crc_step ^^ n) c = drop_bit n c"
proof (induction n arbitrary: c)
  case (Suc n)
  have "crc_step c = drop_bit 1 c" using Suc.prems by (simp add: crc_step_bit)
  moreover have "\<forall>i < n. \<not> bit (drop_bit 1 c) i"
    using Suc.prems by (simp add: bit_drop_bit_eq)
  ultimately show ?case
    using Suc.IH [of "drop_bit 1 c"] by (simp add: funpow_swap1 drop_bit_drop_bit)
qed simp

lemma crc_steps_push_bit:
  "take_bit 24 w = w \<Longrightarrow> (crc_step ^^ 8) (push_bit 8 w) = w"
proof -
  assume w: "take_bit 24 w = w"
  have "(crc_step ^^ 8) (push_bit 8 w) = drop_bit 8 (push_bit 8 w)"
    by (rule crc_steps_shift) (simp add: bit_push_bit_iff)
  also have "\<dots> = w"
  proof (rule bit_eqI)
    fix n
    have "bit w n \<longleftrightarrow> n < 24 \<and> bit w n" by (metis w bit_take_bit_iff)
    then show "bit (drop_bit 8 (push_bit 8 w)) n = bit w n"
      by (auto simp: bit_simps)
  qed
  finally show ?thesis .
qed

section \<open>The table\<close>

lemma kCrcTable_nth: "n < 256 \<Longrightarrow> kCrcTable ! n = ComputeTableEntry (of_nat n)"
  by (simp add: kCrcTable_def)

lemma and_ff: "(c :: 32 word) AND 0xFF = take_bit 8 c"
  by (simp add: take_bit_eq_mask mask_eq_exp_minus_1)

lemma split_byte: "take_bit 8 c XOR push_bit 8 (drop_bit 8 c) = (c :: 32 word)"
  by (rule bit_eqI) (auto simp: bit_simps)

lemma byte_index_lt: "unat (take_bit 8 (c :: 32 word)) < 256"
  using take_bit_nat_less_exp [of 8 "unat c"] by (simp only: unsigned_take_bit_eq) simp

lemma take_bit_byte_word: "take_bit 8 (byte_word b) = byte_word b"
  by (simp add: byte_word_def take_bit_of_nat take_bit_nat_eq_self)

lemma drop_bit_byte_word: "drop_bit 8 (c XOR byte_word b) = drop_bit 8 c"
  by (subst take_bit_byte_word [symmetric]) (rule bit_eqI, simp add: bit_simps)

lemma take_bit_drop_bit_8: "take_bit 24 (drop_bit 8 c) = drop_bit 8 (c :: 32 word)"
  by (rule bit_eqI) (auto simp: bit_simps dest: bit_imp_le_length)

lemma crc_byte_bits: "crc_byte c b = crc_bits c b"
proof -
  define x where "x = c XOR byte_word b"
  have "(crc_step ^^ 8) x = (crc_step ^^ 8) (take_bit 8 x XOR push_bit 8 (drop_bit 8 x))"
    by (simp only: split_byte)
  also have "\<dots> = (crc_step ^^ 8) (take_bit 8 x) XOR drop_bit 8 x"
    by (simp only: crc_steps_xor crc_steps_push_bit take_bit_drop_bit_8)
  also have "(crc_step ^^ 8) (take_bit 8 x) = kCrcTable ! unat (x AND 0xFF)"
    by (simp only: and_ff kCrcTable_nth byte_index_lt ComputeTableEntry_def of_nat_unat ucast_id)
  finally show ?thesis
    by (simp only: crc_byte_def crc_bits_def x_def drop_bit_byte_word)
qed

lemma foldl_crc_byte: "foldl crc_byte = foldl crc_bits"
proof -
  have "crc_byte = crc_bits" by (intro ext) (rule crc_byte_bits)
  then show ?thesis by simp
qed

section \<open>What the checksum detects\<close>

lemma foldl_crc_inject_state: "foldl crc_bits a s = foldl crc_bits b s \<longleftrightarrow> a = b"
  by (induction s arbitrary: a b) (simp_all add: crc_bits_def crc_steps_inject xor_cancel)

lemma le_val_word_step:
  "(of_nat (of_char c + 256 * le_val cs) :: 32 word)
     = byte_word c XOR push_bit 8 (of_nat (le_val cs))"
proof -
  have "byte_word c AND push_bit 8 (of_nat (le_val cs)) = 0"
    by (subst take_bit_byte_word [symmetric]) (rule bit_eqI, simp add: bit_simps)
  then have "byte_word c + push_bit 8 (of_nat (le_val cs) :: 32 word)
      = byte_word c XOR push_bit 8 (of_nat (le_val cs))"
    by (rule disjunctive_add_eq_xor)
  then show ?thesis
    by (simp add: byte_word_def push_bit_eq_mult mult.commute)
qed

lemma foldl_crc_word:
  "length bs \<le> 4 \<Longrightarrow> foldl crc_bits c bs = (crc_step ^^ (8 * length bs)) (c XOR of_nat (le_val bs))"
proof (induction bs arbitrary: c)
  case (Cons b bs)
  have "le_val bs < 2 ^ 24"
    using le_val_lt [of bs] Cons.prems power_increasing [of "length bs" 3 "256::nat"] by simp
  then have small: "take_bit 24 (of_nat (le_val bs) :: 32 word) = of_nat (le_val bs)"
    by (simp add: take_bit_of_nat take_bit_nat_eq_self)
  have "foldl crc_bits c (b # bs) = (crc_step ^^ (8 * length bs)) (crc_bits c b XOR of_nat (le_val bs))"
    using Cons by simp
  also have "crc_bits c b XOR of_nat (le_val bs)
      = (crc_step ^^ 8) ((c XOR byte_word b) XOR push_bit 8 (of_nat (le_val bs)))"
    by (simp only: crc_bits_def crc_steps_xor crc_steps_push_bit [OF small] xor.assoc)
  also have "(c XOR byte_word b) XOR push_bit 8 (of_nat (le_val bs)) = c XOR of_nat (le_val (b # bs))"
    using le_val_word_step [of b bs] by (simp add: xor.assoc)
  also have "(crc_step ^^ (8 * length bs)) ((crc_step ^^ 8) (c XOR of_nat (le_val (b # bs))))
      = (crc_step ^^ (8 * length (b # bs))) (c XOR of_nat (le_val (b # bs)))"
    by (simp only: length_Cons mult_Suc_right add.commute [of 8] funpow_add comp_apply)
  finally show ?case .
qed simp

lemma le_val_inject: "length a = length b \<Longrightarrow> le_val a = le_val b \<longleftrightarrow> a = b"
  by (metis le_bytes_le_val)

lemma burst_states_differ:
  assumes "length xs = length ys" and "length xs \<le> 4" and "xs \<noteq> ys"
  shows "foldl crc_bits c xs \<noteq> foldl crc_bits c ys"
proof -
  have "256 ^ length xs \<le> (256 :: nat) ^ 4" using assms(2) by (rule power_increasing) simp
  then have "le_val xs < 2 ^ 32" "le_val ys < 2 ^ 32"
    using le_val_lt [of xs] le_val_lt [of ys] assms(1) by simp_all
  moreover have "le_val xs \<noteq> le_val ys" using assms by (simp add: le_val_inject)
  ultimately have "(of_nat (le_val xs) :: 32 word) \<noteq> of_nat (le_val ys)"
    by (simp add: word_of_nat_eq_iff take_bit_nat_eq_self)
  with assms show ?thesis
    by (simp add: foldl_crc_word crc_steps_inject xor_cancel)
qed

section \<open>Evaluation on closed messages\<close>

lemma crc_step_8:
  "(crc_step ^^ 8) c = crc_step (crc_step (crc_step (crc_step (crc_step (crc_step (crc_step (crc_step c)))))))"
  by (simp add: numeral_eq_Suc)

lemmas crc_eval = crc32_bitwise_def crc_bits_def byte_word_def crc_step_8
  crc_step_def [of "numeral n" for n] crc_step_def [of 0] crc_step_def [of 1]

section \<open>Properties\<close>

lemma Crc32_bitwise: "Crc32 s = crc32_bitwise s"
  by (simp add: Crc32_def crc32_bitwise_def foldl_crc_byte)

text \<open>C35. The table-driven checksum the log uses equals the bit-serial CRC-32 with the reflected
  IEEE 802.3 polynomial, for every message.\<close>

theorem crc32_table_correct: "Crc32 data = crc32_bitwise data"
  by (rule Crc32_bitwise)

text \<open>The check value of the CRC catalogue.\<close>

lemma Crc32_check_value: "Crc32 ''123456789'' = 0xCBF43926"
  by (simp add: Crc32_bitwise crc_eval)

lemma Crc32_burst:
  assumes "length xs = length ys" and "length xs \<le> 4" and "xs \<noteq> ys"
  shows "Crc32 (pre @ xs @ post) \<noteq> Crc32 (pre @ ys @ post)"
  using burst_states_differ [OF assms]
  by (simp add: Crc32_bitwise crc32_bitwise_def xor_cancel foldl_crc_inject_state)

text \<open>Two messages of equal length that differ only inside a window of at most four consecutive
  bytes never have the same checksum.\<close>

theorem crc32_detects_burst:
  assumes "length xs = length ys" and "length xs \<le> 4" and "xs \<noteq> ys"
  shows "Crc32 (pre @ xs @ post) \<noteq> Crc32 (pre @ ys @ post)"
  using assms by (rule Crc32_burst)

theorem crc32_detects_burst_witness:
  "Crc32 (''key'' @ ''abc'' @ ''v'') \<noteq> Crc32 (''key'' @ ''abd'' @ ''v'')"
  by (rule crc32_detects_burst) simp_all

end
