(* ===== verification/Wal.thy ===== *)
theory Wal
  imports Crc32
begin

text \<open>
  \<^verbatim>\<open>src/storage/wal.cpp\<close>: the write-ahead log, as the bytes of its file (\<open>wal_\<close>), and as the file object with its
  position (\<open>wf_\<close>), whose writes replace what is there and go on behind it.  A record is
  a 16-byte header (checksum, key length, value length, type, three bytes of padding,
  which the value-initialised struct leaves zero) followed by the key and, for a put, the
  value.  \<open>wal_Replay\<close> is the reading loop with each of its exits: a torn header, a
  short key, a short value, a checksum mismatch.

  Shown: replaying what was appended gives the records back in order; a record torn
  anywhere by a crash is dropped and everything before it is delivered; damage to at
  most four consecutive bytes of a payload is rejected by the checksum.  Also shown: replay leaves
  a torn tail in the file, so a record appended after it is not found by the next replay.
\<close>

type_synonym RecordType = "8 word"

definition kPut :: RecordType where "kPut = 0"
definition kDelete :: RecordType where "kDelete = 1"

record RecordHeader =
  hdr_crc :: "32 word"
  hdr_key_len :: "32 word"
  hdr_value_len :: "32 word"
  hdr_type :: RecordType

type_synonym wal_record = "RecordType \<times> string \<times> string"

definition ChecksumRecord :: "RecordType \<Rightarrow> string \<Rightarrow> string \<Rightarrow> 32 word" where
  "ChecksumRecord type key value = Crc32 (put_u8 type @ key @ value)"

definition header_bytes :: "RecordHeader \<Rightarrow> string" where
  "header_bytes h = put_u32 (hdr_crc h) @ put_u32 (hdr_key_len h) @ put_u32 (hdr_value_len h)
     @ put_u8 (hdr_type h) @ replicate 3 (char_of (0 :: nat))"

definition read_header :: "string \<Rightarrow> RecordHeader" where
  "read_header bs = \<lparr>hdr_crc = of_nat (le_val (take 4 bs)),
     hdr_key_len = of_nat (le_val (take 4 (drop 4 bs))),
     hdr_value_len = of_nat (le_val (take 4 (drop 8 bs))),
     hdr_type = of_nat (le_val (take 1 (drop 12 bs)))\<rparr>"

definition record_bytes :: "RecordType \<Rightarrow> string \<Rightarrow> string \<Rightarrow> string" where
  "record_bytes type key value =
     (let header = \<lparr>hdr_crc = ChecksumRecord type key value,
                    hdr_key_len = of_nat (length key),
                    hdr_value_len = of_nat (length value),
                    hdr_type = type\<rparr>
      in header_bytes header @ key @ (if type = kPut then value else []))"

definition wal_Open :: "string option \<Rightarrow> string" where
  "wal_Open existing = (case existing of None \<Rightarrow> [] | Some bytes \<Rightarrow> bytes)"

definition wal_Reset :: "string \<Rightarrow> string" where
  "wal_Reset file = []"

definition wal_AppendRecord :: "string \<Rightarrow> RecordType \<Rightarrow> string \<Rightarrow> string \<Rightarrow> string" where
  "wal_AppendRecord file type key value = file @ record_bytes type key value"

definition wal_AppendPut :: "string \<Rightarrow> string \<Rightarrow> string \<Rightarrow> string" where
  "wal_AppendPut file key value = wal_AppendRecord file kPut key value"

definition wal_AppendDelete :: "string \<Rightarrow> string \<Rightarrow> string" where
  "wal_AppendDelete file key = wal_AppendRecord file kDelete key []"

text \<open>One turn of the loop: \<open>None\<close> is a \<^verbatim>\<open>break\<close>, otherwise the record delivered to
  the callback and the bytes after it.\<close>

definition replay_one :: "string \<Rightarrow> (wal_record \<times> string) option" where
  "replay_one bs =
     (if length bs < 16 then None
      else let header = read_header bs; rest = drop 16 bs; klen = unat (hdr_key_len header) in
        if length rest < klen then None
        else let key = take klen rest; rest = drop klen rest;
                 vlen = (if hdr_type header = kPut then unat (hdr_value_len header) else 0) in
          if length rest < vlen then None
          else let value = take vlen rest in
            if ChecksumRecord (hdr_type header) key value \<noteq> hdr_crc header then None
            else Some ((hdr_type header, key, value), drop vlen rest))"

lemma replay_one_shrinks: "replay_one bs = Some (r, rest) \<Longrightarrow> length rest < length bs"
  by (auto simp: replay_one_def Let_def split: if_splits)

function wal_Replay :: "string \<Rightarrow> wal_record list" where
  "wal_Replay bs = (case replay_one bs of None \<Rightarrow> [] | Some (r, rest) \<Rightarrow> r # wal_Replay rest)"
  by pat_completeness auto
termination
  by (relation "measure length") (auto dest: replay_one_shrinks)

declare wal_Replay.simps [simp del]

text \<open>The object: its stream has one position, for reading and for writing, and writing overwrites from there on.  \<^verbatim>\<open>Replay\<close>
  reads from the start and leaves the stream at the end of the file, whatever it read; it does not change the file.\<close>

record WriteAheadLog =
  wf_bytes :: string
  wf_pos :: nat

definition wf_write :: "string \<Rightarrow> WriteAheadLog \<Rightarrow> WriteAheadLog" where
  "wf_write bs f = f\<lparr>wf_bytes := take (wf_pos f) (wf_bytes f) @ bs @ drop (wf_pos f + length bs) (wf_bytes f),
     wf_pos := wf_pos f + length bs\<rparr>"

definition wf_Open :: "string option \<Rightarrow> WriteAheadLog" where
  "wf_Open existing = (let bytes = wal_Open existing in \<lparr>wf_bytes = bytes, wf_pos = length bytes\<rparr>)"

definition wf_Replay :: "WriteAheadLog \<Rightarrow> wal_record list \<times> WriteAheadLog" where
  "wf_Replay f = (wal_Replay (wf_bytes f), f\<lparr>wf_pos := length (wf_bytes f)\<rparr>)"

definition wf_AppendRecord :: "RecordType \<Rightarrow> string \<Rightarrow> string \<Rightarrow> WriteAheadLog \<Rightarrow> WriteAheadLog" where
  "wf_AppendRecord type key value f =
     (let header = \<lparr>hdr_crc = ChecksumRecord type key value,
                    hdr_key_len = of_nat (length key),
                    hdr_value_len = of_nat (length value),
                    hdr_type = type\<rparr>;
          f = wf_write (header_bytes header) f;
          f = wf_write key f
      in if type = kPut then wf_write value f else f)"

definition wf_Reset :: "WriteAheadLog \<Rightarrow> WriteAheadLog" where
  "wf_Reset f = \<lparr>wf_bytes = wal_Reset (wf_bytes f), wf_pos = length (wal_Reset (wf_bytes f))\<rparr>"

definition rec_bytes :: "wal_record \<Rightarrow> string" where
  "rec_bytes r = (case r of (type, key, value) \<Rightarrow> record_bytes type key value)"

definition rec_ok :: "wal_record \<Rightarrow> bool" where
  "rec_ok r = (case r of (type, key, value) \<Rightarrow>
     fits32 key \<and> fits32 value \<and> (type = kPut \<or> type = kDelete \<and> value = []))"

section \<open>Lemmas\<close>

lemma kDelete_neq_kPut [simp]: "kDelete \<noteq> kPut" "kPut \<noteq> kDelete"
  by (simp_all add: kPut_def kDelete_def)

lemma length_header [simp]: "length (header_bytes h) = 16"
  by (simp add: header_bytes_def)

lemma le_val_put:
  "of_nat (le_val (put_u32 w)) = w" "of_nat (le_val (put_u8 b)) = b"
  unfolding put_u32_def put_u8_def by (rule of_nat_le_val_le_bytes, simp)+

lemma drop_put_u32: "drop n (put_u32 w @ r) = (if n < 4 then drop n (put_u32 w) @ r else drop (n - 4) r)"
  by simp

lemma read_header_bytes [simp]: "read_header (header_bytes h @ rest) = h"
proof -
  have e: "header_bytes h @ rest = put_u32 (hdr_crc h) @ put_u32 (hdr_key_len h) @
      put_u32 (hdr_value_len h) @ put_u8 (hdr_type h) @ replicate 3 (char_of (0::nat)) @ rest"
    by (simp add: header_bytes_def)
  have 1: "take 4 (header_bytes h @ rest) = put_u32 (hdr_crc h)" by (simp add: e)
  have 2: "take 4 (drop 4 (header_bytes h @ rest)) = put_u32 (hdr_key_len h)" by (simp add: e)
  have 3: "take 4 (drop 8 (header_bytes h @ rest)) = put_u32 (hdr_value_len h)" by (simp add: e)
  have 4: "take 1 (drop 12 (header_bytes h @ rest)) = put_u8 (hdr_type h)" by (simp add: e)
  show ?thesis unfolding read_header_def 1 2 3 4 by (simp add: le_val_put)
qed

lemma replay_one_record:
  "rec_ok r \<Longrightarrow> replay_one (rec_bytes r @ rest) = Some (r, rest)"
  by (cases r) (auto simp: replay_one_def rec_bytes_def rec_ok_def record_bytes_def Let_def unat_length32)

lemma wal_Replay_Nil [simp]: "wal_Replay [] = []"
  by (subst wal_Replay.simps) (simp add: replay_one_def)

lemma wal_Replay_record: "rec_ok r \<Longrightarrow> wal_Replay (rec_bytes r @ rest) = r # wal_Replay rest"
  by (subst wal_Replay.simps) (simp add: replay_one_record)

lemma wal_Replay_records:
  "\<forall>r \<in> set rs. rec_ok r \<Longrightarrow> wal_Replay (concat (map rec_bytes rs) @ rest) = rs @ wal_Replay rest"
  by (induction rs) (simp_all add: wal_Replay_record)

lemma length_rec_bytes: "rec_ok (t, k, v) \<Longrightarrow> length (rec_bytes (t, k, v)) = 16 + length k + length v"
  by (auto simp: rec_ok_def rec_bytes_def record_bytes_def Let_def)

lemma replay_one_torn:
  assumes "rec_ok r" and "strict_prefix t (rec_bytes r)"
  shows "replay_one t = None"
proof (cases "length t < 16")
  case True
  then show ?thesis by (simp add: replay_one_def)
next
  case False
  obtain ty k v where r: "r = (ty, k, v)" by (cases r)
  define h where "h = \<lparr>hdr_crc = ChecksumRecord ty k v, hdr_key_len = of_nat (length k),
      hdr_value_len = of_nat (length v), hdr_type = ty\<rparr>"
  have bytes: "rec_bytes r = header_bytes h @ k @ v"
    using assms(1) by (auto simp: r rec_bytes_def record_bytes_def h_def rec_ok_def)
  obtain q where q: "header_bytes h @ k @ v = t @ q" "q \<noteq> []"
    using assms(2) bytes by (auto simp: strict_prefix_def prefix_def)
  obtain p where t: "t = header_bytes h @ p"
    using q False by (metis append_eq_append_conv_if length_header not_less append_take_drop_id)
  have kv: "k @ v = p @ q" using q t by simp
  have len: "length k + length v = length p + length q"
    using arg_cong [OF kv, of length] by simp
  have lq: "0 < length q" using q by simp
  have lens: "unat (of_nat (length k) :: 32 word) = length k" "unat (of_nat (length v) :: 32 word) = length v"
    using assms(1) by (simp_all add: r rec_ok_def unat_length32)
  have "ty = kPut \<or> v = []" using assms(1) by (auto simp: r rec_ok_def)
  moreover have "length p < length k \<or> length k \<le> length p \<and> length p - length k < length v"
    using len lq by linarith
  ultimately show ?thesis
    by (auto simp: t replay_one_def Let_def h_def lens)
qed

lemma replay_one_checksum:
  assumes "rec_ok (kPut, k, v)" and "length k' = length k" and "length v' = length v"
    and "ChecksumRecord kPut k' v' \<noteq> ChecksumRecord kPut k v"
  shows "replay_one (header_bytes \<lparr>hdr_crc = ChecksumRecord kPut k v, hdr_key_len = of_nat (length k),
      hdr_value_len = of_nat (length v), hdr_type = kPut\<rparr> @ k' @ v' @ rest) = None"
  using assms by (simp add: replay_one_def Let_def rec_ok_def unat_length32)

lemma wal_Replay_stop: "replay_one bs = None \<Longrightarrow> wal_Replay bs = []"
  by (subst wal_Replay.simps) simp

lemma concat_append_log:
  "wal_AppendPut f k v = f @ rec_bytes (kPut, k, v)"
  "wal_AppendDelete f k = f @ rec_bytes (kDelete, k, [])"
  by (simp_all add: wal_AppendPut_def wal_AppendDelete_def wal_AppendRecord_def rec_bytes_def)

section \<open>Properties\<close>

text \<open>Replaying a log to which records were appended delivers exactly those records, in the
  order they were written.\<close>

theorem wal_replay_roundtrip:
  assumes "\<forall>r \<in> set rs. rec_ok r"
  shows "wal_Replay (concat (map rec_bytes rs)) = rs"
  using wal_Replay_records [OF assms, of "[]"] by simp

theorem wal_replay_roundtrip_witness:
  "wal_Replay (concat (map rec_bytes [(kPut, ''k'', ''v''), (kDelete, ''k'', [])]))
     = [(kPut, ''k'', ''v''), (kDelete, ''k'', [])]"
  by (rule wal_replay_roundtrip) (simp add: rec_ok_def fits32_def)

text \<open>C33. A crash in the middle of an append leaves a proper prefix of the record; wherever it was
  cut, replay drops it and delivers every record written before it.\<close>

theorem wal_torn_tail_discarded:
  assumes "\<forall>r \<in> set rs. rec_ok r" and "rec_ok r" and "strict_prefix t (rec_bytes r)"
  shows "wal_Replay (concat (map rec_bytes rs) @ t) = rs"
  using wal_Replay_records [OF assms(1), of t] replay_one_torn [OF assms(2,3)]
  by (simp add: wal_Replay_stop)

theorem wal_torn_tail_discarded_witness:
  "wal_Replay (concat (map rec_bytes [(kPut, ''a'', ''1'')]) @ take 17 (rec_bytes (kPut, ''b'', ''2'')))
     = [(kPut, ''a'', ''1'')]"
proof (rule wal_torn_tail_discarded)
  show "strict_prefix (take 17 (rec_bytes (kPut, ''b'', ''2''))) (rec_bytes (kPut, ''b'', ''2''))"
    using length_rec_bytes [of kPut "''b''" "''2''"]
    by (intro strict_prefix_take) (simp add: rec_ok_def fits32_def)
qed (simp_all add: rec_ok_def fits32_def)

text \<open>When at most four consecutive bytes of a put record's key and value were overwritten on
  disk, replay stops at that record instead of delivering it, and what precedes it is
  still delivered.\<close>

theorem wal_payload_damage_rejected:
  assumes "\<forall>r \<in> set rs. rec_ok r" and "rec_ok (kPut, k, v)"
    and "k @ v = pre @ xs @ post" and "k' @ v' = pre @ ys @ post" and "length k' = length k"
    and "length ys = length xs" and "length xs \<le> 4" and "xs \<noteq> ys"
  shows "wal_Replay (concat (map rec_bytes rs) @
           take 16 (rec_bytes (kPut, k, v)) @ k' @ v' @ rest) = rs"
proof -
  have "length k + length v = length k' + length v'"
    using arg_cong [OF assms(3), of length] arg_cong [OF assms(4), of length] assms(6) by simp
  with assms(5) have len: "length v' = length v" by simp
  have "ChecksumRecord kPut k' v' \<noteq> ChecksumRecord kPut k v"
    using Crc32_burst [of ys xs "put_u8 kPut @ pre" post] assms
    by (simp add: ChecksumRecord_def)
  from replay_one_checksum [OF assms(2,5) len this, of rest]
  have "replay_one (take 16 (rec_bytes (kPut, k, v)) @ k' @ v' @ rest) = None"
    by (simp add: rec_bytes_def record_bytes_def)
  then show ?thesis
    using wal_Replay_records [OF assms(1)] by (simp add: wal_Replay_stop)
qed

theorem wal_payload_damage_rejected_witness:
  "wal_Replay (concat (map rec_bytes [(kDelete, ''a'', [])]) @
     take 16 (rec_bytes (kPut, ''k'', ''v'')) @ ''k'' @ ''w'' @ []) = [(kDelete, ''a'', [])]"
  by (rule wal_payload_damage_rejected [where pre = "''k''" and xs = "''v''" and ys = "''w''" and post = "[]"
        and v = "''v''"]) (simp_all add: rec_ok_def fits32_def)

lemma torn_bytes_stop:
  assumes "\<forall>r \<in> set rs. rec_ok r" and "rec_ok (kPut, k, v @ xs)" and "length xs \<le> 4"
    and "length xs \<le> length later" and "take (length xs) later \<noteq> xs"
  shows "wal_Replay (concat (map rec_bytes rs) @
           take (16 + length k + length v) (rec_bytes (kPut, k, v @ xs)) @ later) = rs"
proof -
  let ?ys = "take (length xs) later" and ?rest = "drop (length xs) later"
  have "ChecksumRecord kPut k (v @ ?ys) \<noteq> ChecksumRecord kPut k (v @ xs)"
    using Crc32_burst [of ?ys xs "put_u8 kPut @ k @ v" "[]"] assms(3-5)
    by (simp add: ChecksumRecord_def)
  from replay_one_checksum [OF assms(2) refl _ this, of ?rest] assms(4)
  have "replay_one (take (16 + length k + length v) (rec_bytes (kPut, k, v @ xs)) @ ?ys @ ?rest) = None"
    by (simp add: rec_bytes_def record_bytes_def)
  then show ?thesis
    using wal_Replay_records [OF assms(1)] by (simp add: wal_Replay_stop)
qed

text \<open>A stream that is at its end appends.\<close>

definition wf_append_all :: "wal_record list \<Rightarrow> WriteAheadLog \<Rightarrow> WriteAheadLog" where
  "wf_append_all rs f = foldl (\<lambda>f (type, key, value). wf_AppendRecord type key value f) f rs"

lemma wf_write_end: "wf_pos f = length (wf_bytes f) \<Longrightarrow>
    wf_write bs f = \<lparr>wf_bytes = wf_bytes f @ bs, wf_pos = length (wf_bytes f @ bs)\<rparr>"
  by (simp add: wf_write_def)

lemma wf_AppendRecord_end:
  assumes "wf_pos f = length (wf_bytes f)"
  shows "wf_bytes (wf_AppendRecord type key value f) = wal_AppendRecord (wf_bytes f) type key value"
    "wf_pos (wf_AppendRecord type key value f) = length (wf_bytes (wf_AppendRecord type key value f))"
  using assms by (simp_all add: wf_AppendRecord_def wf_write_end Let_def wal_AppendRecord_def record_bytes_def)

lemma wf_append_all_end:
  "wf_pos f = length (wf_bytes f) \<Longrightarrow> wf_bytes (wf_append_all rs f) = wf_bytes f @ concat (map rec_bytes rs)"
proof (induction rs arbitrary: f)
  case (Cons r rs)
  obtain ty k v where r: "r = (ty, k, v)" by (cases r)
  show ?case
    using Cons.IH [of "wf_AppendRecord ty k v f"] wf_AppendRecord_end [OF Cons.prems, of ty k v]
    by (simp add: r wf_append_all_def wal_AppendRecord_def rec_bytes_def)
qed (simp add: wf_append_all_def)

text \<open>C34. Replay leaves the file as it is, a torn record at its end included, and the stream behind the torn bytes.  When
  a put lost its last one to four bytes to a crash, the replay after the crash delivers the records before it; but every
  record that is appended after that replay is written behind the torn bytes, and (unless the first of them happens to
  begin with exactly the lost bytes) the next replay delivers none of them, only the records before the torn one.\<close>

theorem wal_append_after_torn_tail_is_lost:
  assumes "\<forall>r \<in> set rs. rec_ok r" and "rec_ok (kPut, k, v @ xs)" and "xs \<noteq> []" and "length xs \<le> 4"
    and "torn = concat (map rec_bytes rs) @ take (16 + length k + length v) (rec_bytes (kPut, k, v @ xs))"
    and "wf_Replay (wf_Open (Some torn)) = (delivered, f)"
    and "\<forall>r \<in> set (new # later). rec_ok r" and "take (length xs) (rec_bytes new) \<noteq> xs"
  shows "delivered = rs \<and> wf_bytes (wf_append_all (new # later) f) = torn @ concat (map rec_bytes (new # later)) \<and>
    fst (wf_Replay (wf_Open (Some (wf_bytes (wf_append_all (new # later) f))))) = rs"
proof -
  obtain ty k2 v2 where new: "new = (ty, k2, v2)" by (cases new)
  have f: "wf_bytes f = torn" "wf_pos f = length (wf_bytes f)" "delivered = wal_Replay torn"
    using assms(6) by (auto simp: wf_Replay_def wf_Open_def wal_Open_def)
  have "strict_prefix (take (16 + length k + length v) (rec_bytes (kPut, k, v @ xs))) (rec_bytes (kPut, k, v @ xs))"
    using assms(3) length_rec_bytes [OF assms(2)] by (intro strict_prefix_take) simp
  then have "replay_one (take (16 + length k + length v) (rec_bytes (kPut, k, v @ xs))) = None"
    by (rule replay_one_torn [OF assms(2)])
  then have "delivered = rs" unfolding f(3) assms(5) using wal_Replay_records [OF assms(1)] by (simp add: wal_Replay_stop)
  moreover have bytes: "wf_bytes (wf_append_all (new # later) f) = torn @ concat (map rec_bytes (new # later))"
    using wf_append_all_end [OF f(2)] f(1) by simp
  moreover have "length xs \<le> length (rec_bytes new)"
    using assms(4,7) length_rec_bytes [of ty k2 v2] by (simp add: new)
  then have "wal_Replay (torn @ concat (map rec_bytes (new # later))) = rs"
    using torn_bytes_stop [OF assms(1,2,4), of "concat (map rec_bytes (new # later))"] assms(8) by (simp add: assms(5))
  ultimately show ?thesis by (simp add: wf_Replay_def wf_Open_def wal_Open_def)
qed

lemma record_bytes_head: "take 4 (record_bytes t k v) = put_u32 (ChecksumRecord t k v)"
  by (simp add: record_bytes_def header_bytes_def Let_def)

theorem wal_append_after_torn_tail_is_lost_witness:
  "let torn = take (16 + length ''a'' + length ([] :: string)) (rec_bytes (kPut, ''a'', ([] :: string) @ ''true''));
       f = snd (wf_Replay (wf_Open (Some torn)))
   in fst (wf_Replay (wf_Open (Some (wf_bytes (wf_append_all [(kPut, ''k'', ''v'')] f))))) = []"
proof -
  have "put_u8 0 = [char_of (0 :: nat)]" by (simp add: put_u8_def)
  then have "ChecksumRecord kPut ''k'' ''v'' = 3224289143"
    by (simp add: ChecksumRecord_def kPut_def Crc32_bitwise crc_eval)
  then have "put_u32 (ChecksumRecord kPut ''k'' ''v'') \<noteq> ''true''"
    by (simp add: put_u32_def le_bytes_4 char_of_eq_iff take_bit_eq_mod)
  then have "take 4 (rec_bytes (kPut, ''k'', ''v'')) \<noteq> ''true''"
    by (simp add: rec_bytes_def record_bytes_head)
  then have "take (length ''true'') (rec_bytes (kPut, ''k'', ''v'')) \<noteq> ''true''"
    by (simp add: numeral_eq_Suc)
  moreover have "rec_ok (kPut, ''a'', [] @ ''true'')" "\<forall>r \<in> set [(kPut, ''k'', ''v'')]. rec_ok r" by (simp_all add: rec_ok_def fits32_def)
  moreover have "take (16 + length ''a'' + length ([] :: string)) (rec_bytes (kPut, ''a'', [] @ ''true'')) =
      concat (map rec_bytes []) @ take (16 + length ''a'' + length ([] :: string)) (rec_bytes (kPut, ''a'', [] @ ''true''))" by simp
  ultimately show ?thesis unfolding Let_def
    by (intro conjunct2 [OF conjunct2 [OF wal_append_after_torn_tail_is_lost [OF _ _ _ _ _ surjective_pairing]]])
      (assumption | simp)+
qed

end
