(* ===== verification/Engine.thy ===== *)
theory Engine
  imports SSTable Wal
begin

text \<open>
  \<^verbatim>\<open>src/storage/engine.cpp\<close>.  The engine's state is its directory (file names and their
  bytes, \<^verbatim>\<open>wal.log\<close> among them), the memtable, the open SSTable readers newest first and the
  next sequence number.  Paths are relative to the database directory.  Every change to the
  directory goes through \<open>io\<close>, which also appends it to \<open>eng_io\<close>: that history is the
  sequence of points at which a crash can happen.

  The abstract view of a state is the map a client sees.  Shown: the engine implements that
  map (\<open>kv_store\<close>, the contract the layers above rely on); flushing and compacting do not change
  it; reopening gives it back; and after a crash at any point of a put or delete up to the removal of the
  compacted tables, recovery gives the view before or after that operation.
\<close>

definition kMemtableFlushThreshold :: nat where "kMemtableFlushThreshold = 4"

definition kCompactionTriggerCount :: nat where "kCompactionTriggerCount = 4"

section \<open>The directory\<close>

datatype disk_op =
    WriteFile string string
  | AppendFile string string
  | RenameFile string string
  | RemoveFile string

type_synonym dir = "(string, string) omap"

fun disk_apply :: "disk_op \<Rightarrow> dir \<Rightarrow> dir" where
  "disk_apply (WriteFile n b) d = omap_set n b d"
| "disk_apply (AppendFile n b) d = omap_set n (omap_get_default [] n d @ b) d"
| "disk_apply (RenameFile m n) d =
     (case omap_find m d of None \<Rightarrow> d | Some b \<Rightarrow> omap_set n b (omap_erase m d))"
| "disk_apply (RemoveFile n) d = omap_erase n d"

text \<open>\<^verbatim>\<open>std::filesystem::path::extension\<close> and \<^verbatim>\<open>stem\<close> of a file name: the last dot splits the
  name, unless it is the first character.\<close>

definition path_extension :: "string \<Rightarrow> string" where
  "path_extension name =
     (let rest = dropWhile (\<lambda>c. c \<noteq> CHR ''.'') (rev name)
      in if rest = [] \<or> tl rest = [] then []
         else CHR ''.'' # rev (takeWhile (\<lambda>c. c \<noteq> CHR ''.'') (rev name)))"

definition path_stem :: "string \<Rightarrow> string" where
  "path_stem name =
     (let rest = dropWhile (\<lambda>c. c \<noteq> CHR ''.'') (rev name)
      in if rest = [] \<or> tl rest = [] then name else rev (tl rest))"

definition wal_path :: string where "wal_path = ''wal.log''"

definition SSTablePath :: "nat \<Rightarrow> string" where
  "SSTablePath seq = replicate (6 - length (to_string seq)) CHR ''0'' @ to_string seq @ ''.sst''"

section \<open>The engine\<close>

record StorageEngine =
  eng_disk :: dir
  eng_io :: "disk_op list"
  memtable :: entries
  sstables :: "SSTableReader list"
  next_sstable_seq :: nat

definition io :: "disk_op \<Rightarrow> StorageEngine \<Rightarrow> StorageEngine" where
  "io op e = e\<lparr>eng_disk := disk_apply op (eng_disk e), eng_io := eng_io e @ [op]\<rparr>"

definition wal_file :: "dir \<Rightarrow> string" where
  "wal_file d = wal_Open (omap_find wal_path d)"

fun replay_record :: "entries \<Rightarrow> wal_record \<Rightarrow> entries" where
  "replay_record m (type, key, value) = (if type = kPut then mt_Put key value m else mt_Delete key m)"

definition replay_mem :: "wal_record list \<Rightarrow> entries" where
  "replay_mem rs = foldl replay_record [] rs"

fun open_tables :: "dir \<Rightarrow> (64 word \<times> string) list \<Rightarrow> SSTableReader list res" where
  "open_tables d found = rmap (\<lambda>(seq, path). sst_Open path (omap_find path d)) found"

definition eng_Open :: "dir \<Rightarrow> StorageEngine res" where
  "eng_Open d =
     (let d1 = filter (\<lambda>(n, b). path_extension n \<noteq> ''.tmp'') d
      in rbind (rmap (\<lambda>(n, b). rbind (stoull (path_stem n)) (\<lambda>seq. Inr (seq, n)))
                     (filter (\<lambda>(n, b). path_extension n = ''.sst'') d1)) (\<lambda>found.
         let found = rev (sort_key fst found)
         in rbind (open_tables d1 found) (\<lambda>tables.
            let d2 = omap_set wal_path (wal_file d1) d1
            in Inr \<lparr>eng_disk = d2, eng_io = [],
                    memtable = replay_mem (wal_Replay (wal_file d1)),
                    sstables = tables,
                    next_sstable_seq = foldl (\<lambda>n (seq, path). max n (unat seq + 1)) 1 found\<rparr>)))"

text \<open>The merge of \<^verbatim>\<open>MaybeCompact\<close>: newest table first, the first value seen for a key stays.\<close>

definition merge_tables :: "SSTableReader list \<Rightarrow> entries" where
  "merge_tables ts = foldl (\<lambda>m r. omap_emplace_all m (sst_ReadAll r)) [] ts"

text \<open>\<^verbatim>\<open>SSTableWriter\<close> constructed, filled and finished, then opened for reading.\<close>

definition write_table :: "string \<Rightarrow> (string \<times> string option) list \<Rightarrow> (StorageEngine, SSTableReader) eff" where
  "write_table path es e =
     (let w = w_AddAll (SSTableWriter_new path) es;
          e = io (WriteFile (w_tmp_path w) (w_Finish w)) e;
          e = io (RenameFile (w_tmp_path w) (w_path w)) e
      in (sst_Open path (omap_find path (eng_disk e)), e))"

definition eng_MaybeCompact :: "(StorageEngine, unit) eff" where
  "eng_MaybeCompact e =
     (if length (sstables e) < kCompactionTriggerCount then (Inr (), e)
      else
        let merged = merge_tables (sstables e);
            old_paths = map sst_path (sstables e);
            path = SSTablePath (next_sstable_seq e);
            e = e\<lparr>next_sstable_seq := next_sstable_seq e + 1\<rparr>
        in ebind (write_table path (filter (\<lambda>(key, value). value \<noteq> None) merged))
             (\<lambda>reader e. (Inr (), foldl (\<lambda>e p. io (RemoveFile p) e) (e\<lparr>sstables := [reader]\<rparr>) old_paths)) e)"

definition eng_FlushMemtable :: "(StorageEngine, unit) eff" where
  "eng_FlushMemtable e =
     (if mt_size (memtable e) = 0 then (Inr (), e)
      else
        let path = SSTablePath (next_sstable_seq e);
            e = e\<lparr>next_sstable_seq := next_sstable_seq e + 1\<rparr>
        in ebind (write_table path (memtable e))
             (\<lambda>reader e.
                let e = e\<lparr>sstables := reader # sstables e, memtable := mt_Clear (memtable e)\<rparr>;
                    e = io (WriteFile wal_path (wal_Reset (wal_file (eng_disk e)))) e
                in eng_MaybeCompact e) e)"

definition eng_Put :: "string \<Rightarrow> string \<Rightarrow> (StorageEngine, unit) eff" where
  "eng_Put key value e =
     (let e = io (AppendFile wal_path (record_bytes kPut key value)) e;
          e = e\<lparr>memtable := mt_Put key value (memtable e)\<rparr>
      in if kMemtableFlushThreshold \<le> mt_size (memtable e) then eng_FlushMemtable e else (Inr (), e))"

definition eng_Delete :: "string \<Rightarrow> (StorageEngine, unit) eff" where
  "eng_Delete key e =
     (let e = io (AppendFile wal_path (record_bytes kDelete key [])) e;
          e = e\<lparr>memtable := mt_Delete key (memtable e)\<rparr>
      in if kMemtableFlushThreshold \<le> mt_size (memtable e) then eng_FlushMemtable e else (Inr (), e))"

fun get_tables :: "SSTableReader list \<Rightarrow> string \<Rightarrow> string option" where
  "get_tables [] key = None"
| "get_tables (t # ts) key =
     (let r = sst_Lookup t key
      in if lr_status r = kFound then Some (lr_value r)
         else if lr_status r = kDeleted then None
         else get_tables ts key)"

definition eng_Get :: "StorageEngine \<Rightarrow> string \<Rightarrow> string option" where
  "eng_Get e key =
     (let r = mt_Lookup (memtable e) key
      in if lr_status r = kFound then Some (lr_value r)
         else if lr_status r = kDeleted then None
         else get_tables (sstables e) key)"

definition eng_Scan :: "StorageEngine \<Rightarrow> string \<Rightarrow> (string \<times> string) list" where
  "eng_Scan e p =
     (let merged = omap_emplace_all [] (mt_Scan (memtable e) p);
          merged = foldl (\<lambda>m t. omap_emplace_all m (sst_Scan t p)) merged (sstables e)
      in concat (map (\<lambda>(key, value). case value of None \<Rightarrow> [] | Some v \<Rightarrow> [(key, v)]) merged))"

definition eng_Reset :: "(StorageEngine, unit) eff" where
  "eng_Reset e =
     (let paths = map sst_path (sstables e);
          e = e\<lparr>memtable := mt_Clear (memtable e), sstables := []\<rparr>;
          e = foldl (\<lambda>e p. io (RemoveFile p) e) e paths;
          e = e\<lparr>next_sstable_seq := 1\<rparr>
      in (Inr (), io (WriteFile wal_path (wal_Reset (wal_file (eng_disk e)))) e))"

section \<open>File names\<close>

lemma path_extension_suffix:
  assumes "p \<noteq> []" and "CHR ''.'' \<notin> set x"
  shows "path_extension (p @ CHR ''.'' # x) = CHR ''.'' # x"
    and "path_stem (p @ CHR ''.'' # x) = p"
proof -
  let ?P = "\<lambda>c. c \<noteq> CHR ''.''"
  have "takeWhile ?P (rev x @ CHR ''.'' # rev p) = rev x @ takeWhile ?P (CHR ''.'' # rev p)"
    by (rule takeWhile_append2) (use assms(2) in auto)
  moreover have "dropWhile ?P (rev x @ CHR ''.'' # rev p) = dropWhile ?P (CHR ''.'' # rev p)"
    by (rule dropWhile_append2) (use assms(2) in auto)
  ultimately show "path_extension (p @ CHR ''.'' # x) = CHR ''.'' # x" "path_stem (p @ CHR ''.'' # x) = p"
    using assms(1) by (simp_all add: path_extension_def path_stem_def)
qed

lemma path_extension_SSTablePath [simp]: "path_extension (SSTablePath n) = ''.sst''"
  using path_extension_suffix(1) [of "replicate (6 - length (to_string n)) CHR ''0'' @ to_string n" "''sst''"]
  by (simp add: SSTablePath_def)

lemma path_stem_SSTablePath:
  "path_stem (SSTablePath n) = replicate (6 - length (to_string n)) CHR ''0'' @ to_string n"
  using path_extension_suffix(2) [of "replicate (6 - length (to_string n)) CHR ''0'' @ to_string n" "''sst''"]
  by (simp add: SSTablePath_def)

lemma path_extension_tmp [simp]: "path_extension (SSTablePath n @ ''.tmp'') = ''.tmp''"
  using path_extension_suffix(1) [of "SSTablePath n" "''tmp''"] by (simp add: SSTablePath_def)

lemma path_extension_wal [simp]: "path_extension wal_path = ''.log''"
  using path_extension_suffix(1) [of "''wal''" "''log''"] by (simp add: wal_path_def)

lemma decimal_zeros [simp]: "decimal (replicate k CHR ''0'' @ ds) = decimal ds"
proof -
  have "foldl (\<lambda>n c. 10 * n + digit_val c) 0 (replicate k CHR ''0'') = 0"
    by (induction k) (simp_all add: digit_val_def)
  then show ?thesis by (simp add: decimal_def)
qed

lemma decimal_SSTablePath [simp]: "decimal (path_stem (SSTablePath n)) = n"
  by (simp add: path_stem_SSTablePath)

lemma SSTablePath_inject [simp]: "SSTablePath m = SSTablePath n \<longleftrightarrow> m = n"
  by (metis decimal_SSTablePath)

lemma stoull_SSTablePath:
  assumes "n < 2 ^ 64"
  shows "stoull (path_stem (SSTablePath n)) = Inr (of_nat n)"
proof -
  have "isdigit CHR ''0''" by (simp add: isdigit_def)
  then have "\<forall>c \<in> set (path_stem (SSTablePath n)). isdigit c"
    using to_string_digits [of n] by (auto simp: path_stem_SSTablePath)
  then have "sto_parse (path_stem (SSTablePath n)) = Some (False, n)"
    using sto_parse_digits [of "path_stem (SSTablePath n)" "[]"] by (simp add: path_stem_SSTablePath)
  with assms show ?thesis by (simp add: stoull_def sto_unsigned_def)
qed

lemma tmp_neq [simp]:
  "SSTablePath n @ ''.tmp'' \<noteq> SSTablePath m" "SSTablePath m \<noteq> SSTablePath n @ ''.tmp''"
  "SSTablePath n @ ''.tmp'' \<noteq> wal_path" "wal_path \<noteq> SSTablePath n @ ''.tmp''"
  "SSTablePath n \<noteq> wal_path" "wal_path \<noteq> SSTablePath n"
  using path_extension_SSTablePath [of m] path_extension_SSTablePath [of n] path_extension_tmp [of n]
    path_extension_wal by (auto simp del: path_extension_SSTablePath path_extension_tmp path_extension_wal)

section \<open>Sizes\<close>

definition ent_weight :: "string \<times> string option \<Rightarrow> nat" where
  "ent_weight e = 24 + 2 * length (fst e) + (case snd e of None \<Rightarrow> 0 | Some v \<Rightarrow> length v)"

definition weight :: "(string \<times> string option) list \<Rightarrow> nat" where
  "weight es = sum_list (map ent_weight es)"

lemma weight_simps [simp]:
  "weight [] = 0" "weight (e # es) = ent_weight e + weight es" "weight (es @ fs) = weight es + weight fs"
  by (simp_all add: weight_def)

lemma weight_filter: "weight (filter P es) \<le> weight es"
  by (induction es) auto

lemma weight_mem: "e \<in> set es \<Longrightarrow> ent_weight e \<le> weight es"
  by (induction es) auto

lemma length_le_weight: "24 * length es \<le> weight es"
  by (induction es) (auto simp: ent_weight_def)

lemma weight_omap_set:
  assumes "omap_ok m"
  shows "weight (omap_set k v m) \<le> weight m + ent_weight (k, v)"
proof -
  have "weight (filter (\<lambda>e. fst e < k) m) + weight (filter (\<lambda>e. k < fst e) m) \<le> weight m"
    by (induction m) auto
  with assms show ?thesis by (simp add: omap_set_filter)
qed

lemma weight_emplace_all: "omap_ok m \<Longrightarrow> weight (omap_emplace_all m es) \<le> weight m + weight es"
proof (induction es arbitrary: m)
  case (Cons e es)
  obtain k v where e: "e = (k, v)" by (cases e)
  have eq: "omap_emplace_all m (e # es) = omap_emplace_all (omap_emplace k v m) es"
    by (simp add: omap_emplace_all_def e)
  have "weight (omap_emplace k v m) \<le> weight m + ent_weight (k, v)"
    using weight_omap_set [OF Cons.prems] by (simp add: omap_emplace_def)
  then show ?case
    unfolding eq using Cons.IH [of "omap_emplace k v m"] Cons.prems by (simp add: e)
qed (simp add: omap_emplace_all_def)

lemma length_sst_bytes_weight: "length (sst_bytes es) \<le> weight es + 16"
proof -
  have "length (data_bytes es) + sum_list (map (\<lambda>e. 12 + length (fst e)) es) \<le> weight es"
    by (induction es) (auto simp: ent_bytes_def value_bytes_def ent_weight_def split: option.split)
  then show ?thesis by (simp add: length_sst_bytes)
qed

lemma table_ok_weight:
  assumes "omap_ok es" and "weight es + 16 < 2 ^ 32"
  shows "table_ok es"
proof -
  have "ent_ok e" if "e \<in> set es" for e
    using weight_mem [OF that] assms(2)
    by (auto simp: ent_ok_def ent_weight_def fits32_def split: option.splits)
  moreover have "fits32 es" using length_le_weight [of es] assms(2) by (simp add: fits32_def)
  moreover have "length (sst_bytes es) < 2 ^ 63" using length_sst_bytes_weight [of es] assms(2) by simp
  ultimately show ?thesis using assms(1) by (simp add: table_ok_def)
qed

section \<open>Views\<close>

definition live :: "string option option \<Rightarrow> string option" where
  "live a = (case a of None \<Rightarrow> None | Some v \<Rightarrow> v)"

definition merged_view :: "(string \<Rightarrow> string option option) list \<Rightarrow> string \<Rightarrow> string option option" where
  "merged_view ms = foldr (\<lambda>m acc. acc ++ m) ms Map.empty"

definition eng_view :: "StorageEngine \<Rightarrow> string \<Rightarrow> string option" where
  "eng_view e k = live (merged_view (map_of (memtable e) # map sst_view (sstables e)) k)"

lemma live_simps [simp]: "live None = None" "live (Some v) = v"
  by (simp_all add: live_def)

lemma merged_view_simps [simp]:
  "merged_view [] = Map.empty" "merged_view (m # ms) = merged_view ms ++ m"
  by (simp_all add: merged_view_def)

lemma merge_tables_acc:
  "omap_ok m \<Longrightarrow> omap_ok (foldl (\<lambda>m r. omap_emplace_all m (f r)) m ts) \<and>
     map_of (foldl (\<lambda>m r. omap_emplace_all m (f r)) m ts) = merged_view (map (\<lambda>r. map_of (f r)) ts) ++ map_of m \<and>
     weight (foldl (\<lambda>m r. omap_emplace_all m (f r)) m ts) \<le> weight m + sum_list (map (\<lambda>r. weight (f r)) ts)"
proof (induction ts arbitrary: m)
  case (Cons t ts)
  from Cons.IH [of "omap_emplace_all m (f t)"] Cons.prems weight_emplace_all [of m "f t"]
  show ?case by simp
qed simp

lemma merge_tables_spec:
  "omap_ok (merge_tables ts)"
  "map_of (merge_tables ts) = merged_view (map sst_view ts)"
  "weight (merge_tables ts) \<le> sum_list (map (\<lambda>r. weight (sst_ReadAll r)) ts)"
  using merge_tables_acc [of "[]" sst_ReadAll ts]
  by (simp_all add: merge_tables_def sst_view_def [abs_def])

lemma live_filter:
  assumes "distinct (map fst m)"
  shows "live (map_of (filter (\<lambda>(key, value). value \<noteq> None) m) k) = live (map_of m k)"
  using assms
proof (induction m)
  case (Cons e m)
  have "map_of (filter (\<lambda>(key, value). value \<noteq> None) m) (fst e) = None"
    using Cons.prems by (auto simp: map_of_eq_None_iff)
  with Cons show ?case by (cases e) auto
qed simp

section \<open>What the directory holds\<close>

text \<open>\<open>disk_holds d wal tbls\<close>: the log's bytes are \<open>wal\<close> and the \<^verbatim>\<open>.sst\<close> files are exactly
  the tables \<open>tbls\<close> (sequence number and entries), newest first.\<close>

definition table_file :: "nat \<times> entries \<Rightarrow> string \<times> string" where
  "table_file t = (SSTablePath (fst t), sst_bytes (snd t))"

definition disk_holds :: "dir \<Rightarrow> string \<Rightarrow> (nat \<times> entries) list \<Rightarrow> bool" where
  "disk_holds d wal tbls \<longleftrightarrow> omap_ok d \<and> map_of d wal_path = Some wal \<and>
     (\<forall>n b. path_extension n = ''.sst'' \<longrightarrow> (map_of d n = Some b \<longleftrightarrow> (n, b) \<in> table_file ` set tbls)) \<and>
     sorted_wrt (\<lambda>s t. fst t < fst s) tbls \<and>
     (\<forall>t \<in> set tbls. fst t < 2 ^ 32 \<and> table_ok (snd t))"

definition table_reader :: "nat \<times> entries \<Rightarrow> SSTableReader" where
  "table_reader t = sst_reader (SSTablePath (fst t)) (snd t)"

definition mem_view :: "entries \<Rightarrow> (nat \<times> entries) list \<Rightarrow> string \<Rightarrow> string option" where
  "mem_view m tbls k = live (merged_view (map_of m # map (\<lambda>t. map_of (snd t)) tbls) k)"

lemma rmap_map: "\<forall>x \<in> set xs. f x = Inr (g x) \<Longrightarrow> rmap f xs = Inr (map g xs)"
  by (induction xs) auto

lemma rmap_map_map: "\<forall>x \<in> set xs. f (g x) = Inr (h x) \<Longrightarrow> rmap f (map g xs) = Inr (map h xs)"
  by (induction xs) auto

lemma disk_apply_ok [simp]: "omap_ok d \<Longrightarrow> omap_ok (disk_apply op d)"
  by (cases op) (simp_all add: om.invar_upd om.invar_del split: option.split)

lemma omap_eqI_set:
  assumes "omap_ok m" and "omap_ok n" and "set m = set n"
  shows "m = n"
proof (rule omap_ext [OF assms(1,2)], rule ext)
  fix k
  have eq: "map_of m k = Some v \<longleftrightarrow> map_of n k = Some v" for v
    unfolding omap_mem_iff [OF assms(1), symmetric] omap_mem_iff [OF assms(2), symmetric] assms(3) ..
  show "map_of m k = map_of n k"
  proof (cases "map_of m k")
    case None
    with eq [of "the (map_of n k)"] show ?thesis by (cases "map_of n k") simp_all
  next
    case (Some v)
    with eq [of v] show ?thesis by simp
  qed
qed

lemma replay_record_ok [simp]: "omap_ok m \<Longrightarrow> omap_ok (replay_record m r)"
  by (cases r) simp

lemma replay_mem_ok [simp]: "omap_ok (replay_mem rs)"
proof -
  have "omap_ok m \<Longrightarrow> omap_ok (foldl replay_record m rs)" for m
    by (induction rs arbitrary: m) (simp_all del: replay_record.simps)
  then show ?thesis by (simp add: replay_mem_def)
qed

lemma replay_mem_snoc [simp]:
  "replay_mem (rs @ [(kPut, k, v)]) = mt_Put k v (replay_mem rs)"
  "replay_mem (rs @ [(kDelete, k, x)]) = mt_Delete k (replay_mem rs)"
  by (simp_all add: replay_mem_def)

lemma replay_mem_Nil [simp]: "replay_mem [] = []"
  by (simp add: replay_mem_def)

text \<open>The files found by \<^verbatim>\<open>Open\<close>, sorted by sequence number.\<close>

lemma found_tables:
  assumes "disk_holds d wal tbls"
  defines "sst \<equiv> filter (\<lambda>(n, b). path_extension n = ''.sst'') d"
  shows "rmap (\<lambda>(n, b). rbind (stoull (path_stem n)) (\<lambda>seq. Inr (seq, n))) sst
           = Inr (map (\<lambda>(n, b). (of_nat (decimal (path_stem n)), n)) sst)" (is ?A)
    and "rev (sort_key fst (map (\<lambda>(n, b). (of_nat (decimal (path_stem n)) :: 64 word, n)) sst))
           = map (\<lambda>t. (of_nat (fst t), SSTablePath (fst t))) tbls" (is ?B)
proof -
  let ?g = "\<lambda>(n, b :: string). (of_nat (decimal (path_stem n)) :: 64 word, n)"
  let ?t = "\<lambda>t :: nat \<times> entries. (of_nat (fst t) :: 64 word, SSTablePath (fst t))"
  have ok: "omap_ok d" and bnd: "\<forall>t \<in> set tbls. fst t < 2 ^ 32"
    and srt: "sorted_wrt (\<lambda>s t. fst t < fst s) tbls"
    using assms(1) by (auto simp: disk_holds_def)
  have mem: "set sst = table_file ` set tbls"
  proof (rule set_eqI)
    fix x :: "string \<times> string"
    obtain n b where x: "x = (n, b)" by (cases x)
    have "path_extension n = ''.sst'' \<longrightarrow> (map_of d n = Some b \<longleftrightarrow> (n, b) \<in> table_file ` set tbls)"
      using assms(1) by (simp add: disk_holds_def)
    moreover have "path_extension n = ''.sst''" if "(n, b) \<in> table_file ` set tbls"
      using that by (auto simp: table_file_def)
    ultimately show "x \<in> set sst \<longleftrightarrow> x \<in> table_file ` set tbls"
      using omap_mem_iff [OF ok, of n b] by (auto simp: x sst_def)
  qed
  have "stoull (path_stem n) = Inr (of_nat (decimal (path_stem n)))" if sst: "(n, b) \<in> set sst" for n b
  proof -
    obtain t where t: "t \<in> set tbls" "n = SSTablePath (fst t)"
      using sst unfolding mem by (auto simp: table_file_def)
    have "fst t < 2 ^ 64" using bnd t(1) by fastforce
    with t show ?thesis by (simp add: stoull_SSTablePath)
  qed
  then show ?A by (intro rmap_map) auto
  have inj: "inj_on (\<lambda>n. of_nat n :: 64 word) (fst ` set tbls)"
  proof (rule inj_onI)
    fix x y
    assume "x \<in> fst ` set tbls" "y \<in> fst ` set tbls" "(of_nat x :: 64 word) = of_nat y"
    moreover from this bnd have "x < 2 ^ 64" "y < 2 ^ 64" by fastforce+
    ultimately show "x = y" by (metis unat_of_nat64)
  qed
  have lt: "(of_nat x :: 64 word) < of_nat y" if "x < y" "y < 2 ^ 32" for x y
    using that by (simp add: word_less_nat_alt unat_of_nat64)
  have tgt: "omap_ok (rev (map ?t tbls))"
    using srt bnd lt
    by (induction tbls) (auto simp: omap_ok_append omap_ok_Cons)
  have "distinct (map (\<lambda>n. of_nat (decimal (path_stem n)) :: 64 word) (map fst sst))"
    unfolding distinct_map [where xs = "map fst sst"]
  proof
    show "distinct (map fst sst)"
      unfolding sst_def by (rule omap_ok_distinct) (simp add: ok omap_ok_filter)
    have "set (map fst sst) = (\<lambda>t. SSTablePath (fst t)) ` set tbls"
      by (simp add: mem table_file_def image_image)
    then show "inj_on (\<lambda>n. of_nat (decimal (path_stem n)) :: 64 word) (set (map fst sst))"
      using inj by (auto simp: inj_on_def)
  qed
  moreover have "map (\<lambda>n. of_nat (decimal (path_stem n)) :: 64 word) (map fst sst) = map (fst \<circ> ?g) sst"
    by auto
  ultimately have "distinct (map fst (map ?g sst))" by (simp only: map_map)
  then have "distinct (map fst (sort_key fst (map ?g sst)))"
    unfolding distinct_map [where f = fst] distinct_sort set_sort .
  then have "omap_ok (sort_key fst (map ?g sst))"
    by (simp add: omap_ok_def strict_sorted_iff)
  moreover have "set (sort_key fst (map ?g sst)) = set (rev (map ?t tbls))"
    by (simp add: mem table_file_def image_image)
  ultimately have "sort_key fst (map ?g sst) = rev (map ?t tbls)"
    using tgt omap_eqI_set by blast
  then show ?B by simp
qed

lemma disk_holds_change:
  assumes "disk_holds d wal tbls" and "omap_ok d'" and "map_of d' wal_path = Some wal'"
    and "\<And>n. path_extension n = ''.sst'' \<Longrightarrow> map_of d' n = map_of d n"
  shows "disk_holds d' wal' tbls"
  using assms by (auto simp: disk_holds_def)

lemma disk_holds_reader:
  assumes "disk_holds d wal tbls" and "t \<in> set tbls"
  shows "sst_Open (SSTablePath (fst t)) (omap_find (SSTablePath (fst t)) d) = Inr (table_reader t)"
proof -
  have "map_of d (SSTablePath (fst t)) = Some (sst_bytes (snd t))"
    using assms by (auto simp: disk_holds_def table_file_def)
  moreover have "table_ok (snd t)" using assms by (auto simp: disk_holds_def)
  ultimately show ?thesis by (simp add: omap_find_def sst_Open_bytes table_reader_def)
qed

lemma foldl_max_bounds:
  "n \<le> foldl (\<lambda>n (seq, path). max n (unat seq + 1)) n xs \<and>
   (\<forall>x \<in> set xs. unat (fst x) < foldl (\<lambda>n (seq, path). max n (unat seq + 1)) n xs) \<and>
   ((\<forall>x \<in> set xs. unat (fst x) < N) \<longrightarrow> n \<le> N \<longrightarrow> foldl (\<lambda>n (seq, path). max n (unat seq + 1)) n xs \<le> N)"
proof (induction xs arbitrary: n)
  case (Cons x xs)
  obtain s p where x: "x = (s, p)" by (cases x)
  show ?case using Cons.IH [of "max n (unat s + 1)"] by (auto simp: x)
qed simp

lemma sst_view_table: "table_ok (snd t) \<Longrightarrow> sst_view (table_reader t) = map_of (snd t)"
  by (simp add: table_reader_def sst_view_reader)

lemma eng_view_tables:
  assumes "disk_holds d wal tbls" and "sstables e = map table_reader tbls"
  shows "eng_view e = mem_view (memtable e) tbls"
proof
  fix k
  have "map sst_view (map table_reader tbls) = map (\<lambda>t. map_of (snd t)) tbls"
    using assms(1) by (auto simp: disk_holds_def sst_view_table)
  with assms(2) show "eng_view e k = mem_view (memtable e) tbls k"
    by (simp only: eng_view_def mem_view_def)
qed

text \<open>Opening a directory that holds a log and tables.\<close>

lemma eng_Open_holds:
  assumes "disk_holds d wal tbls"
  shows "\<exists>e. eng_Open d = Inr e \<and> disk_holds (eng_disk e) wal tbls \<and>
     memtable e = replay_mem (wal_Replay wal) \<and> sstables e = map table_reader tbls \<and>
     (\<forall>t \<in> set tbls. fst t < next_sstable_seq e) \<and> 1 \<le> next_sstable_seq e \<and>
     (\<forall>N \<ge> 1. (\<forall>t \<in> set tbls. fst t < N) \<longrightarrow> next_sstable_seq e \<le> N)"
proof -
  let ?d1 = "filter (\<lambda>(n, b). path_extension n \<noteq> ''.tmp'') d"
  let ?found = "map (\<lambda>t. (of_nat (fst t) :: 64 word, SSTablePath (fst t))) tbls"
  let ?seq = "foldl (\<lambda>n (seq, path). max n (unat seq + 1)) 1 ?found"
  have ok: "omap_ok d" and wal: "map_of d wal_path = Some wal" using assms by (auto simp: disk_holds_def)
  have d1: "map_of ?d1 n = (if path_extension n \<noteq> ''.tmp'' then map_of d n else None)" for n
    using map_of_filter_key [of "\<lambda>n. path_extension n \<noteq> ''.tmp''" d n] by (simp add: case_prod_unfold)
  have h1: "disk_holds ?d1 wal tbls"
    by (rule disk_holds_change [OF assms]) (auto simp: d1 wal ok omap_ok_filter)
  have find: "wal_file ?d1 = wal" by (simp add: wal_file_def omap_find_def d1 wal wal_Open_def)
  have h2: "disk_holds (omap_set wal_path wal ?d1) wal tbls"
    by (rule disk_holds_change [OF h1]) (auto simp: om.look_upd ok omap_ok_filter om.invar_upd)
  have "rmap (\<lambda>(seq, path). sst_Open path (omap_find path ?d1)) ?found
      = Inr (map table_reader tbls)"
    by (rule rmap_map_map) (use disk_holds_reader [OF h1] in auto)
  then have "eng_Open d = Inr \<lparr>eng_disk = omap_set wal_path wal ?d1, eng_io = [],
      memtable = replay_mem (wal_Replay wal), sstables = map table_reader tbls, next_sstable_seq = ?seq\<rparr>"
    by (simp add: eng_Open_def found_tables [OF h1] find Let_def del: filter_filter)
  moreover have "unat (of_nat (fst t) :: 64 word) = fst t" if "t \<in> set tbls" for t
  proof (rule unat_of_nat64)
    show "fst t < 2 ^ 64" using assms that by (fastforce simp: disk_holds_def)
  qed
  ultimately show ?thesis
    using h2 foldl_max_bounds [of 1 ?found] by auto
qed

section \<open>The invariant\<close>

definition eng_rel :: "StorageEngine \<Rightarrow> wal_record list \<Rightarrow> (nat \<times> entries) list \<Rightarrow> bool" where
  "eng_rel e rs tbls \<longleftrightarrow>
     disk_holds (eng_disk e) (concat (map rec_bytes rs)) tbls \<and> (\<forall>r \<in> set rs. rec_ok r) \<and>
     memtable e = replay_mem rs \<and> sstables e = map table_reader tbls \<and>
     (\<forall>t \<in> set tbls. fst t < next_sstable_seq e) \<and> 1 \<le> next_sstable_seq e"

definition eng_ok :: "StorageEngine \<Rightarrow> bool" where
  "eng_ok e \<longleftrightarrow> (\<exists>rs tbls. eng_rel e rs tbls)"

text \<open>The space in use: the weight of every stored version of every key, and the sequence numbers
  used up.  A put or delete fits when what it may add keeps the total below \<open>2 ^ 32\<close>; then no
  length field can overflow.\<close>

definition eng_used :: "StorageEngine \<Rightarrow> nat" where
  "eng_used e = weight (memtable e) + sum_list (map (\<lambda>r. weight (sst_ReadAll r)) (sstables e))
     + next_sstable_seq e"

definition eng_fits :: "StorageEngine \<Rightarrow> nat \<Rightarrow> bool" where
  "eng_fits e n \<longleftrightarrow> eng_used e + n + 16 < 2 ^ 32"

definition put_cost :: "string \<Rightarrow> string \<Rightarrow> nat" where
  "put_cost k v = 26 + 2 * length k + length v"

definition delete_cost :: "string \<Rightarrow> nat" where
  "delete_cost k = 26 + 2 * length k"

lemma io_simps [simp]:
  "eng_disk (io op e) = disk_apply op (eng_disk e)" "eng_io (io op e) = eng_io e @ [op]"
  "memtable (io op e) = memtable e" "sstables (io op e) = sstables e"
  "next_sstable_seq (io op e) = next_sstable_seq e"
  by (simp_all add: io_def)

lemma holds_write_tmp:
  assumes "disk_holds d wal tbls"
  shows "disk_holds (disk_apply (WriteFile (SSTablePath n @ ''.tmp'') b) d) wal tbls"
proof -
  have ok: "omap_ok d" and wal: "map_of d wal_path = Some wal" using assms by (auto simp: disk_holds_def)
  show ?thesis
    by (rule disk_holds_change [OF assms]) (auto simp: om.look_upd ok wal om.invar_upd)
qed

lemma holds_write_wal:
  assumes "disk_holds d wal tbls"
  shows "disk_holds (disk_apply (WriteFile wal_path b) d) b tbls"
    and "disk_holds (disk_apply (AppendFile wal_path b) d) (wal @ b) tbls"
proof -
  have ok: "omap_ok d" and wal: "map_of d wal_path = Some wal" using assms by (auto simp: disk_holds_def)
  show "disk_holds (disk_apply (WriteFile wal_path b) d) b tbls"
    by (rule disk_holds_change [OF assms]) (auto simp: om.look_upd ok om.invar_upd)
  show "disk_holds (disk_apply (AppendFile wal_path b) d) (wal @ b) tbls"
    by (rule disk_holds_change [OF assms])
      (auto simp: om.look_upd ok om.invar_upd omap_get_default_def wal)
qed

lemma holds_rename:
  assumes "disk_holds d wal tbls" and "\<forall>t \<in> set tbls. fst t < n" and "n < 2 ^ 32" and "table_ok es"
  shows "disk_holds (disk_apply (RenameFile (SSTablePath n @ ''.tmp'') (SSTablePath n))
      (disk_apply (WriteFile (SSTablePath n @ ''.tmp'') (sst_bytes es)) d)) wal ((n, es) # tbls)"
    (is "disk_holds ?d _ _")
proof -
  have ok: "omap_ok d" and wal: "map_of d wal_path = Some wal" using assms(1) by (auto simp: disk_holds_def)
  have m: "map_of ?d x = (if x = SSTablePath n then Some (sst_bytes es)
      else if x = SSTablePath n @ ''.tmp'' then None else map_of d x)" for x
    by (simp add: om.look_upd om.look_del ok om.invar_upd om.invar_del omap_find_def)
  have "(SSTablePath n, b) \<notin> table_file ` set tbls" for b
    using assms(2) by (auto simp: table_file_def)
  then have "map_of ?d x = Some b \<longleftrightarrow> (x, b) \<in> table_file ` set ((n, es) # tbls)"
    if "path_extension x = ''.sst''" for x b
    using that assms(1) by (auto simp: m disk_holds_def table_file_def simp del: disk_apply.simps)
  with assms show ?thesis
    unfolding disk_holds_def using ok wal m by (simp del: disk_apply.simps)
qed

lemma holds_remove:
  assumes "disk_holds d wal tbls"
  shows "disk_holds (disk_apply (RemoveFile (SSTablePath n)) d) wal (filter (\<lambda>t. fst t \<noteq> n) tbls)"
proof -
  have ok: "omap_ok d" and wal: "map_of d wal_path = Some wal" using assms(1) by (auto simp: disk_holds_def)
  have "map_of (omap_erase (SSTablePath n) d) x = Some b \<longleftrightarrow>
      (x, b) \<in> table_file ` set (filter (\<lambda>t. fst t \<noteq> n) tbls)"
    if "path_extension x = ''.sst''" for x b
    using that assms(1) by (auto simp: om.look_del ok disk_holds_def table_file_def)
  with assms show ?thesis
    unfolding disk_holds_def using ok wal
    by (simp add: om.invar_del om.look_del sorted_wrt_filter)
qed

lemma holds_remove_all:
  "disk_holds (eng_disk e) wal tbls \<Longrightarrow>
     disk_holds (eng_disk (foldl (\<lambda>e p. io (RemoveFile p) e) e (map SSTablePath ns))) wal
       (filter (\<lambda>t. fst t \<notin> set ns) tbls)"
proof (induction ns arbitrary: e tbls)
  case (Cons n ns)
  have "disk_holds (eng_disk (io (RemoveFile (SSTablePath n)) e)) wal (filter (\<lambda>t. fst t \<noteq> n) tbls)"
    using holds_remove [OF Cons.prems] by (simp del: disk_apply.simps)
  from Cons.IH [OF this] show ?case by (simp add: conj_commute)
qed simp

lemma fold_remove_fields [simp]:
  "memtable (foldl (\<lambda>e p. io (RemoveFile p) e) e ps) = memtable e"
  "sstables (foldl (\<lambda>e p. io (RemoveFile p) e) e ps) = sstables e"
  "next_sstable_seq (foldl (\<lambda>e p. io (RemoveFile p) e) e ps) = next_sstable_seq e"
  "eng_io (foldl (\<lambda>e p. io (RemoveFile p) e) e ps) = eng_io e @ map RemoveFile ps"
  by (induction ps arbitrary: e) auto

lemma write_table_holds:
  assumes "disk_holds (eng_disk e) wal tbls" and "\<forall>t \<in> set tbls. fst t < n" and "n < 2 ^ 32"
    and "table_ok es"
  defines "e' \<equiv> io (RenameFile (SSTablePath n @ ''.tmp'') (SSTablePath n))
                  (io (WriteFile (SSTablePath n @ ''.tmp'') (sst_bytes es)) e)"
  shows "write_table (SSTablePath n) es e = (Inr (table_reader (n, es)), e')"
    and "disk_holds (eng_disk e') wal ((n, es) # tbls)"
proof -
  show h: "disk_holds (eng_disk e') wal ((n, es) # tbls)"
    unfolding e'_def io_simps by (rule holds_rename [OF assms(1-4)])
  have "sst_Open (SSTablePath n) (omap_find (SSTablePath n) (eng_disk e')) = Inr (table_reader (n, es))"
    using disk_holds_reader [OF h, of "(n, es)"] by simp
  moreover have "w_path (SSTableWriter_new p) = p" for p by (simp add: SSTableWriter_new_def)
  ultimately show "write_table (SSTablePath n) es e = (Inr (table_reader (n, es)), e')"
    by (simp add: write_table_def w_Finish_path w_tmp_path_def e'_def Let_def del: disk_apply.simps)
qed

lemma eng_rel_used:
  assumes "eng_rel e rs tbls"
  shows "map (\<lambda>r. weight (sst_ReadAll r)) (sstables e) = map (\<lambda>t. weight (snd t)) tbls"
    and "eng_used e = weight (replay_mem rs) + sum_list (map (\<lambda>t. weight (snd t)) tbls) + next_sstable_seq e"
proof -
  have "sst_ReadAll (table_reader t) = snd t" if "t \<in> set tbls" for t
    using assms that by (auto simp: eng_rel_def disk_holds_def table_reader_def sst_ReadAll_reader)
  then show *: "map (\<lambda>r. weight (sst_ReadAll r)) (sstables e) = map (\<lambda>t. weight (snd t)) tbls"
    using assms by (simp add: eng_rel_def)
  show "eng_used e = weight (replay_mem rs) + sum_list (map (\<lambda>t. weight (snd t)) tbls) + next_sstable_seq e"
    unfolding eng_used_def * using assms by (simp add: eng_rel_def)
qed

lemma eng_rel_view: "eng_rel e rs tbls \<Longrightarrow> eng_view e = mem_view (replay_mem rs) tbls"
  using eng_view_tables by (auto simp: eng_rel_def)

lemma merge_tables_rel:
  assumes "eng_rel e rs tbls"
  defines "live_es \<equiv> filter (\<lambda>(key, value). value \<noteq> None) (merge_tables (sstables e))"
  shows "omap_ok live_es" and "weight live_es \<le> sum_list (map (\<lambda>t. weight (snd t)) tbls)"
    and "mem_view m [(n, live_es)] = mem_view m tbls"
    and "mem_view m ((n, live_es) # tbls) = mem_view m tbls"
proof -
  have ok: "omap_ok (merge_tables (sstables e))" by (rule merge_tables_spec)
  then show "omap_ok live_es" by (simp add: live_es_def omap_ok_filter)
  have "weight live_es \<le> weight (merge_tables (sstables e))" by (simp add: live_es_def weight_filter)
  also have "\<dots> \<le> sum_list (map (\<lambda>t. weight (snd t)) tbls)"
    using merge_tables_spec(3) [of "sstables e"] eng_rel_used(1) [OF assms(1)] by simp
  finally show "weight live_es \<le> sum_list (map (\<lambda>t. weight (snd t)) tbls)" .
  have "map sst_view (sstables e) = map (\<lambda>t. map_of (snd t)) tbls"
    using assms(1) by (auto simp: eng_rel_def disk_holds_def sst_view_table)
  then have mv: "map_of (merge_tables (sstables e)) = merged_view (map (\<lambda>t. map_of (snd t)) tbls)"
    by (simp add: merge_tables_spec)
  have live: "live (map_of live_es k) = live (merged_view (map (\<lambda>t. map_of (snd t)) tbls) k)" for k
    using live_filter [OF omap_ok_distinct [OF ok], of k] by (simp add: live_es_def mv)
  have "(merged_view (map (\<lambda>t. map_of (snd t)) tbls) ++ map_of live_es) k
      = merged_view (map (\<lambda>t. map_of (snd t)) tbls) k" for k
  proof (cases "map_of live_es k")
    case (Some x)
    then have "(k, x) \<in> set (merge_tables (sstables e))"
      using map_of_SomeD [OF Some] by (simp add: live_es_def)
    then show ?thesis using Some omap_mem_iff [OF ok] by (simp add: mv map_add_def)
  qed (simp add: map_add_def)
  then have absorb: "merged_view (map (\<lambda>t. map_of (snd t)) tbls) ++ map_of live_es
      = merged_view (map (\<lambda>t. map_of (snd t)) tbls)" by (rule ext)
  show "mem_view m ((n, live_es) # tbls) = mem_view m tbls"
    by (simp add: mem_view_def fun_eq_iff absorb)
  show "mem_view m [(n, live_es)] = mem_view m tbls"
  proof
    fix k
    show "mem_view m [(n, live_es)] k = mem_view m tbls k"
      using live [of k] by (cases "map_of m k") (simp_all add: mem_view_def map_add_def)
  qed
qed

definition compact_ops :: "StorageEngine \<Rightarrow> disk_op list" where
  "compact_ops e =
     (let es = filter (\<lambda>(key, value). value \<noteq> None) (merge_tables (sstables e));
          path = SSTablePath (next_sstable_seq e)
      in if length (sstables e) < kCompactionTriggerCount then []
         else [WriteFile (path @ ''.tmp'') (sst_bytes es), RenameFile (path @ ''.tmp'') path]
              @ map (\<lambda>r. RemoveFile (sst_path r)) (sstables e))"

lemma MaybeCompact_rel:
  assumes "eng_rel e rs tbls" and "eng_fits e 1"
  shows "\<exists>e' tbls'. eng_MaybeCompact e = (Inr (), e') \<and> eng_rel e' rs tbls' \<and>
     mem_view (replay_mem rs) tbls' = mem_view (replay_mem rs) tbls \<and>
     eng_used e' \<le> eng_used e + 1 \<and> eng_io e' = eng_io e @ compact_ops e"
proof (cases "length (sstables e) < kCompactionTriggerCount")
  case True
  then show ?thesis using assms(1) by (auto simp: eng_MaybeCompact_def compact_ops_def)
next
  case False
  define n where "n = next_sstable_seq e"
  define es where "es = filter (\<lambda>(key, value). value \<noteq> None) (merge_tables (sstables e))"
  note mt = merge_tables_rel [OF assms(1), folded es_def]
  note used = eng_rel_used(2) [OF assms(1)]
  have rel: "disk_holds (eng_disk e) (concat (map rec_bytes rs)) tbls" "sstables e = map table_reader tbls"
    "\<forall>t \<in> set tbls. fst t < n"
    using assms(1) by (auto simp: eng_rel_def n_def)
  have tok: "table_ok es" using mt assms(2) used by (intro table_ok_weight) (auto simp: eng_fits_def)
  have n: "n < 2 ^ 32" using assms(2) used by (simp add: eng_fits_def n_def)
  let ?e0 = "e\<lparr>next_sstable_seq := n + 1\<rparr>"
  have h0: "disk_holds (eng_disk ?e0) (concat (map rec_bytes rs)) tbls" using rel(1) by simp
  note wt = write_table_holds [OF h0 rel(3) n tok]
  let ?e1 = "io (RenameFile (SSTablePath n @ ''.tmp'') (SSTablePath n))
                  (io (WriteFile (SSTablePath n @ ''.tmp'') (sst_bytes es)) ?e0)"
  let ?e2 = "?e1\<lparr>sstables := [table_reader (n, es)]\<rparr>"
  let ?e3 = "foldl (\<lambda>e p. io (RemoveFile p) e) ?e2 (map sst_path (sstables e))"
  have paths: "map sst_path (sstables e) = map SSTablePath (map fst tbls)"
    by (simp add: rel table_reader_def sst_reader_def)
  have run: "eng_MaybeCompact e = (Inr (), ?e3)"
    using False wt(1) by (simp add: eng_MaybeCompact_def Let_def n_def es_def)
  have "disk_holds (eng_disk ?e3) (concat (map rec_bytes rs)) (filter (\<lambda>t. fst t \<notin> set (map fst tbls)) ((n, es) # tbls))"
    unfolding paths by (rule holds_remove_all) (use wt(2) in simp)
  moreover have "filter (\<lambda>t. fst t \<notin> set (map fst tbls)) ((n, es) # tbls) = [(n, es)]"
    using rel(3) by (auto simp: filter_empty_conv)
  ultimately have "eng_rel ?e3 rs [(n, es)]"
    using assms(1) by (simp add: eng_rel_def)
  moreover from eng_rel_used(2) [OF this] used mt(2) have "eng_used ?e3 \<le> eng_used e + 1"
    by (simp add: n_def)
  moreover have "eng_io ?e3 = eng_io e @ compact_ops e"
    using False by (simp add: compact_ops_def Let_def n_def es_def o_def)
  ultimately show ?thesis using run mt(3) by blast
qed

definition flush_ops :: "StorageEngine \<Rightarrow> disk_op list" where
  "flush_ops e =
     (let path = SSTablePath (next_sstable_seq e)
      in [WriteFile (path @ ''.tmp'') (sst_bytes (memtable e)), RenameFile (path @ ''.tmp'') path,
          WriteFile wal_path []])"

lemma wal_file_holds: "disk_holds d wal tbls \<Longrightarrow> wal_file d = wal"
  by (simp add: disk_holds_def wal_file_def omap_find_def wal_Open_def)

text \<open>The state of \<^verbatim>\<open>FlushMemtable\<close> just before it calls \<^verbatim>\<open>MaybeCompact\<close>.\<close>

lemma FlushMemtable_rel:
  assumes "eng_rel e rs tbls" and "eng_fits e 2" and "memtable e \<noteq> []"
  defines "n \<equiv> next_sstable_seq e"
  shows "\<exists>e1. eng_FlushMemtable e = eng_MaybeCompact e1 \<and>
     eng_rel e1 [] ((n, memtable e) # tbls) \<and> eng_used e1 = eng_used e + 1 \<and>
     eng_io e1 = eng_io e @ flush_ops e"
proof -
  note used = eng_rel_used(2) [OF assms(1)]
  have rel: "disk_holds (eng_disk e) (concat (map rec_bytes rs)) tbls" "sstables e = map table_reader tbls"
    "\<forall>t \<in> set tbls. fst t < n" "memtable e = replay_mem rs"
    using assms(1) by (auto simp: eng_rel_def n_def)
  have tok: "table_ok (memtable e)"
    using rel(4) assms(2) used by (intro table_ok_weight) (auto simp: eng_fits_def)
  have n: "n < 2 ^ 32" using assms(2) used by (simp add: eng_fits_def n_def)
  let ?e0 = "e\<lparr>next_sstable_seq := n + 1\<rparr>"
  have h0: "disk_holds (eng_disk ?e0) (concat (map rec_bytes rs)) tbls" using rel(1) by simp
  note wt = write_table_holds [OF h0 rel(3) n tok]
  let ?e1 = "io (RenameFile (SSTablePath n @ ''.tmp'') (SSTablePath n))
                  (io (WriteFile (SSTablePath n @ ''.tmp'') (sst_bytes (memtable e))) ?e0)"
  let ?e2 = "?e1\<lparr>sstables := table_reader (n, memtable e) # sstables e, memtable := []\<rparr>"
  let ?e3 = "io (WriteFile wal_path []) ?e2"
  have run: "eng_FlushMemtable e = eng_MaybeCompact ?e3"
    using assms(3) wt(1)
    by (simp add: eng_FlushMemtable_def mt_size_def Let_def n_def wal_Reset_def del: disk_apply.simps)
  have "disk_holds (eng_disk ?e3) [] ((n, memtable e) # tbls)"
    using holds_write_wal(1) [OF wt(2)] by (simp del: disk_apply.simps)
  then have "eng_rel ?e3 [] ((n, memtable e) # tbls)"
    using rel by (auto simp: eng_rel_def)
  moreover from eng_rel_used(2) [OF this] used have "eng_used ?e3 = eng_used e + 1"
    by (simp add: n_def rel(4))
  moreover have "eng_io ?e3 = eng_io e @ flush_ops e"
    by (simp add: flush_ops_def Let_def n_def)
  ultimately show ?thesis using run by blast
qed

lemma mem_view_flush [simp]: "mem_view [] ((n, m) # tbls) = mem_view m tbls"
  by (simp add: mem_view_def fun_eq_iff)

text \<open>A put and a delete share everything but the record: append it, apply it to the memtable,
  flush when the threshold is reached.\<close>

definition mutate :: "wal_record \<Rightarrow> (StorageEngine, unit) eff" where
  "mutate r e =
     (let e = io (AppendFile wal_path (rec_bytes r)) e;
          e = e\<lparr>memtable := replay_record (memtable e) r\<rparr>
      in if kMemtableFlushThreshold \<le> mt_size (memtable e) then eng_FlushMemtable e else (Inr (), e))"

lemma mutate_simps:
  "eng_Put k v = mutate (kPut, k, v)" "eng_Delete k = mutate (kDelete, k, [])"
  by (simp_all add: fun_eq_iff eng_Put_def eng_Delete_def mutate_def rec_bytes_def)

definition rec_entry :: "wal_record \<Rightarrow> string \<times> string option" where
  "rec_entry r = (case r of (type, k, v) \<Rightarrow> (k, if type = kPut then Some v else None))"

lemma replay_record_set: "replay_record m r = omap_set (fst (rec_entry r)) (snd (rec_entry r)) m"
  by (cases r) (simp add: rec_entry_def mt_Put_def mt_Delete_def)

lemma replay_mem_append: "replay_mem (rs @ [r]) = replay_record (replay_mem rs) r"
  by (simp add: replay_mem_def)

lemma mem_view_record:
  "omap_ok m \<Longrightarrow>
     mem_view (replay_record m r) tbls = (mem_view m tbls)(fst (rec_entry r) := snd (rec_entry r))"
  by (auto simp: mem_view_def fun_eq_iff replay_record_set om.look_upd)

lemma append_rel:
  assumes "eng_rel e rs tbls" and "rec_ok r"
  defines "e1 \<equiv> (io (AppendFile wal_path (rec_bytes r)) e)\<lparr>memtable := replay_record (memtable e) r\<rparr>"
  shows "eng_rel e1 (rs @ [r]) tbls" and "eng_used e1 \<le> eng_used e + ent_weight (rec_entry r)"
proof -
  have h: "disk_holds (eng_disk e) (concat (map rec_bytes rs)) tbls" and m: "memtable e = replay_mem rs"
    using assms(1) by (auto simp: eng_rel_def)
  have "disk_holds (eng_disk e1) (concat (map rec_bytes (rs @ [r]))) tbls"
    using holds_write_wal(2) [OF h] by (simp add: e1_def del: disk_apply.simps)
  then show *: "eng_rel e1 (rs @ [r]) tbls"
    using assms(1,2) by (simp add: eng_rel_def e1_def replay_mem_append)
  have "weight (replay_record (memtable e) r) \<le> weight (memtable e) + ent_weight (rec_entry r)"
    using weight_omap_set [of "memtable e" "fst (rec_entry r)" "snd (rec_entry r)"] m by (simp add: replay_record_set)
  then show "eng_used e1 \<le> eng_used e + ent_weight (rec_entry r)"
    using eng_rel_used(2) [OF *] eng_rel_used(2) [OF assms(1)] m
    by (simp add: e1_def replay_mem_append)
qed

lemma mutate_rel:
  assumes "eng_rel e rs tbls" and "rec_ok r" and "eng_fits e (ent_weight (rec_entry r) + 2)"
  shows "\<exists>e' rs' tbls'. mutate r e = (Inr (), e') \<and> eng_rel e' rs' tbls' \<and>
     mem_view (replay_mem rs') tbls' = (mem_view (replay_mem rs) tbls)(fst (rec_entry r) := snd (rec_entry r)) \<and>
     eng_used e' \<le> eng_used e + ent_weight (rec_entry r) + 2"
proof -
  define e1 where "e1 = (io (AppendFile wal_path (rec_bytes r)) e)\<lparr>memtable := replay_record (memtable e) r\<rparr>"
  note a = append_rel [OF assms(1,2), folded e1_def]
  have v: "mem_view (replay_mem (rs @ [r])) tbls
      = (mem_view (replay_mem rs) tbls)(fst (rec_entry r) := snd (rec_entry r))"
    by (simp add: replay_mem_append mem_view_record del: replay_record.simps)
  show ?thesis
  proof (cases "kMemtableFlushThreshold \<le> mt_size (memtable e1)")
    case False
    then have "mutate r e = (Inr (), e1)" by (simp add: mutate_def e1_def Let_def)
    with a v show ?thesis
      by (intro exI [of _ e1] exI [of _ "rs @ [r]"] exI [of _ tbls]) simp
  next
    case True
    then have run: "mutate r e = eng_FlushMemtable e1" by (simp add: mutate_def e1_def Let_def)
    have ne: "memtable e1 \<noteq> []" using True by (auto simp: mt_size_def kMemtableFlushThreshold_def)
    have m1: "memtable e1 = replay_mem (rs @ [r])" using a(1) by (simp add: eng_rel_def)
    have "eng_fits e1 2" using a(2) assms(3) by (simp add: eng_fits_def)
    from FlushMemtable_rel [OF a(1) this ne] obtain e2 n where
      f: "eng_FlushMemtable e1 = eng_MaybeCompact e2" "eng_rel e2 [] ((n, memtable e1) # tbls)"
      "eng_used e2 = eng_used e1 + 1" by blast
    have "eng_fits e2 1" using f(3) a(2) assms(3) by (simp add: eng_fits_def)
    from MaybeCompact_rel [OF f(2) this] obtain e3 tbls3 where
      c: "eng_MaybeCompact e2 = (Inr (), e3)" "eng_rel e3 [] tbls3"
      "mem_view (replay_mem []) tbls3 = mem_view (replay_mem []) ((n, memtable e1) # tbls)"
      "eng_used e3 \<le> eng_used e2 + 1" by blast
    have "eng_used e3 \<le> eng_used e + ent_weight (rec_entry r) + 2" using c(4) f(3) a(2) by simp
    moreover have "mem_view (replay_mem []) tbls3
        = (mem_view (replay_mem rs) tbls)(fst (rec_entry r) := snd (rec_entry r))"
      using c(3) v by (simp add: m1)
    ultimately show ?thesis
      using run f(1) c(1,2) by (intro exI [of _ e3] exI [of _ "[]"] exI [of _ tbls3]) simp
  qed
qed

lemma Reset_rel:
  assumes "eng_rel e rs tbls"
  shows "\<exists>e'. eng_Reset e = (Inr (), e') \<and> eng_rel e' [] [] \<and> next_sstable_seq e' = 1"
proof -
  let ?e1 = "e\<lparr>memtable := [], sstables := []\<rparr>"
  let ?e2 = "foldl (\<lambda>e p. io (RemoveFile p) e) ?e1 (map sst_path (sstables e))"
  let ?e3 = "io (WriteFile wal_path []) (?e2\<lparr>next_sstable_seq := 1\<rparr>)"
  have paths: "map sst_path (sstables e) = map SSTablePath (map fst tbls)"
    using assms by (simp add: eng_rel_def table_reader_def sst_reader_def)
  have "disk_holds (eng_disk ?e2) (concat (map rec_bytes rs)) (filter (\<lambda>t. fst t \<notin> set (map fst tbls)) tbls)"
    unfolding paths by (rule holds_remove_all) (use assms in \<open>simp add: eng_rel_def\<close>)
  moreover have "filter (\<lambda>t. fst t \<notin> set (map fst tbls)) tbls = []" by (auto simp: filter_empty_conv)
  ultimately have "disk_holds (eng_disk ?e3) [] []"
    using holds_write_wal(1) by (simp del: disk_apply.simps)
  then have "eng_rel ?e3 [] []" by (simp add: eng_rel_def)
  moreover have "eng_Reset e = (Inr (), ?e3)" by (simp add: eng_Reset_def Let_def wal_Reset_def)
  ultimately show ?thesis by (intro exI [of _ ?e3]) simp
qed

lemma get_tables_view:
  "\<forall>r \<in> set ts. sst_ok r \<Longrightarrow> get_tables ts k = live (merged_view (map sst_view ts) k)"
proof (induction ts)
  case (Cons t ts)
  have "answer (sst_Lookup t k) = sst_view t k" using Cons.prems by (intro sst.lookup_view) simp
  with Cons show ?case
    by (auto simp: Let_def map_add_def split: LookupStatus.splits option.splits)
qed simp

lemma eng_rel_sst_ok: "eng_rel e rs tbls \<Longrightarrow> \<forall>r \<in> set (sstables e). sst_ok r"
  by (auto simp: eng_rel_def disk_holds_def table_reader_def)

lemma eng_Get_view:
  assumes "eng_rel e rs tbls"
  shows "eng_Get e k = eng_view e k"
proof -
  have "answer (mt_Lookup (memtable e) k) = map_of (memtable e) k"
    using assms by (intro mt.lookup_view) (simp add: eng_rel_def)
  with get_tables_view [OF eng_rel_sst_ok [OF assms], of k] show ?thesis
    by (auto simp: eng_Get_def eng_view_def Let_def map_add_def split: LookupStatus.splits option.splits)
qed

lemma live_list:
  fixes m :: entries
  assumes "omap_ok m"
  shows "omap_ok (concat (map (\<lambda>(key, value). case value of None \<Rightarrow> [] | Some v \<Rightarrow> [(key, v)]) m))"
    and "map_of (concat (map (\<lambda>(key, value). case value of None \<Rightarrow> [] | Some v \<Rightarrow> [(key, v)]) m)) k
       = live (map_of m k)"
proof -
  let ?f = "\<lambda>m :: entries. concat (map (\<lambda>(key, value). case value of None \<Rightarrow> [] | Some v \<Rightarrow> [(key, v)]) m)"
  have "(fst x, Some (snd x)) \<in> set m" if "x \<in> set (?f m)" for x and m :: entries
    using that by (auto split: option.splits)
  then have keys: "fst ` set (?f m) \<subseteq> fst ` set m" for m :: entries
    by (metis (no_types, lifting) fst_conv image_eqI image_subsetI)
  show "omap_ok (?f m)"
    using assms
  proof (induction m)
    case (Cons e m)
    have "fst e < fst x" if "x \<in> set (?f m)" for x
      using that keys [of m] Cons.prems by (auto simp: omap_ok_Cons)
    with Cons show ?case
      by (auto simp: omap_ok_Cons split: option.splits prod.splits)
  qed simp
  show "map_of (?f m) k = live (map_of m k)"
    using assms
  proof (induction m)
    case (Cons e m)
    have "map_of (?f m) (fst e) = None"
      using keys [of m] Cons.prems by (auto simp: omap_ok_Cons map_of_eq_None_iff)
    with Cons show ?case by (cases e) (auto simp: omap_ok_Cons split: option.splits)
  qed simp
qed

lemma merged_scan:
  assumes "\<forall>t \<in> set ts. sst_ok t"
  shows "merged_view (map (\<lambda>t. map_of (sst_Scan t p)) ts) k
       = (if StartsWith k p then merged_view (map sst_view ts) k else None)"
  using assms by (induction ts) (auto simp: map_add_def sst.scan_view split: option.split)

lemma eng_Scan_view:
  assumes "eng_rel e rs tbls"
  shows "omap_ok (eng_Scan e p)"
    and "map_of (eng_Scan e p) k = (if StartsWith k p then eng_view e k else None)"
proof -
  let ?m = "foldl (\<lambda>m t. omap_emplace_all m (sst_Scan t p)) (omap_emplace_all [] (mt_Scan (memtable e) p)) (sstables e)"
  have ok: "omap_ok (memtable e)" using assms by (simp add: eng_rel_def)
  have acc: "omap_ok ?m" "map_of ?m = merged_view (map (\<lambda>t. map_of (sst_Scan t p)) (sstables e))
      ++ map_of (mt_Scan (memtable e) p)"
    using merge_tables_acc [of "omap_emplace_all [] (mt_Scan (memtable e) p)" "\<lambda>t. sst_Scan t p" "sstables e"]
    by (simp_all add: map_add_def)
  show "omap_ok (eng_Scan e p)"
    using live_list(1) [OF acc(1)] by (simp add: eng_Scan_def Let_def)
  have "map_of (eng_Scan e p) k = live (map_of ?m k)"
    using live_list(2) [OF acc(1)] by (simp add: eng_Scan_def Let_def)
  then show "map_of (eng_Scan e p) k = (if StartsWith k p then eng_view e k else None)"
    using mt.scan_view [OF ok, of p k] merged_scan [OF eng_rel_sst_ok [OF assms], of p k]
    by (simp add: acc(2) eng_view_def map_add_def split: option.split)
qed

section \<open>The contract of the store\<close>

datatype store_op = OpPut string string | OpDelete string

fun spec_op :: "(string \<Rightarrow> string option) \<Rightarrow> store_op \<Rightarrow> string \<Rightarrow> string option" where
  "spec_op m (OpPut k v) = m(k \<mapsto> v)"
| "spec_op m (OpDelete k) = m(k := None)"

fun op_cost :: "store_op \<Rightarrow> nat" where
  "op_cost (OpPut k v) = put_cost k v"
| "op_cost (OpDelete k) = delete_cost k"

fun store_do :: "(string \<Rightarrow> string \<Rightarrow> ('s, unit) eff) \<Rightarrow> (string \<Rightarrow> ('s, unit) eff) \<Rightarrow> store_op \<Rightarrow> ('s, unit) eff" where
  "store_do put del (OpPut k v) = put k v"
| "store_do put del (OpDelete k) = del k"

locale kv_store =
  fixes invar :: "'s \<Rightarrow> bool"
    and view :: "'s \<Rightarrow> string \<Rightarrow> string option"
    and used :: "'s \<Rightarrow> nat"
    and cap :: nat
    and get :: "'s \<Rightarrow> string \<Rightarrow> string option"
    and scan :: "'s \<Rightarrow> string \<Rightarrow> (string \<times> string) list"
    and put :: "string \<Rightarrow> string \<Rightarrow> ('s, unit) eff"
    and del :: "string \<Rightarrow> ('s, unit) eff"
    and reset :: "('s, unit) eff"
  assumes get_view: "invar s \<Longrightarrow> get s k = view s k"
    and scan_ok: "invar s \<Longrightarrow> omap_ok (scan s p)"
    and scan_view: "invar s \<Longrightarrow> map_of (scan s p) k = (if StartsWith k p then view s k else None)"
    and put_spec: "invar s \<Longrightarrow> used s + put_cost k v < cap \<Longrightarrow>
      \<exists>s'. put k v s = (Inr (), s') \<and> invar s' \<and> view s' = (view s)(k \<mapsto> v) \<and> used s' \<le> used s + put_cost k v"
    and del_spec: "invar s \<Longrightarrow> used s + delete_cost k < cap \<Longrightarrow>
      \<exists>s'. del k s = (Inr (), s') \<and> invar s' \<and> view s' = (view s)(k := None) \<and> used s' \<le> used s + delete_cost k"
    and reset_spec: "invar s \<Longrightarrow>
      \<exists>s'. reset s = (Inr (), s') \<and> invar s' \<and> view s' = Map.empty \<and> used s' \<le> 1"
begin

definition puts_cost :: "(string \<times> string) list \<Rightarrow> nat" where
  "puts_cost kvs = sum_list (map (\<lambda>(k, v). put_cost k v) kvs)"

lemma scan_mem: "invar s \<Longrightarrow> (k, v) \<in> set (scan s p) \<longleftrightarrow> StartsWith k p \<and> view s k = Some v"
  by (simp only: omap_mem_iff [OF scan_ok] scan_view) simp

lemma puts_spec:
  "invar s \<Longrightarrow> used s + puts_cost kvs < cap \<Longrightarrow>
     \<exists>s'. efor kvs (\<lambda>(k, v). put k v) s = (Inr (), s') \<and> invar s' \<and>
          view s' = view s ++ map_of (rev kvs) \<and> used s' \<le> used s + puts_cost kvs"
proof (induction kvs arbitrary: s)
  case (Cons kv kvs)
  obtain k v where kv: "kv = (k, v)" by (cases kv)
  from Cons.prems have "used s + put_cost k v < cap" by (simp add: puts_cost_def kv)
  from put_spec [OF Cons.prems(1) this] obtain s1 where
    s1: "put k v s = (Inr (), s1)" "invar s1" "view s1 = (view s)(k \<mapsto> v)" "used s1 \<le> used s + put_cost k v"
    by blast
  with Cons.prems have "used s1 + puts_cost kvs < cap" by (simp add: puts_cost_def kv)
  from Cons.IH [OF s1(2) this] obtain s2 where
    s2: "efor kvs (\<lambda>(k, v). put k v) s1 = (Inr (), s2)" "invar s2"
      "view s2 = view s1 ++ map_of (rev kvs)" "used s2 \<le> used s1 + puts_cost kvs" by blast
  have "view s2 = view s ++ map_of (rev (kv # kvs))"
    by (simp add: s2(3) s1(3) kv)
  with s1 s2 show ?case by (intro exI [of _ s2]) (simp add: kv puts_cost_def)
qed (simp add: puts_cost_def)

lemma op_spec:
  "invar s \<Longrightarrow> used s + op_cost x < cap \<Longrightarrow>
     \<exists>s'. store_do put del x s = (Inr (), s') \<and> invar s' \<and> view s' = spec_op (view s) x \<and>
          used s' \<le> used s + op_cost x"
  by (cases x) (simp_all add: put_spec del_spec)

text \<open>Any sequence of puts and deletes acts on the view as it does on a map.\<close>

lemma ops_spec:
  "invar s \<Longrightarrow> used s + sum_list (map op_cost xs) < cap \<Longrightarrow>
     \<exists>s'. efor xs (store_do put del) s = (Inr (), s') \<and> invar s' \<and> view s' = foldl spec_op (view s) xs \<and>
          used s' \<le> used s + sum_list (map op_cost xs)"
proof (induction xs arbitrary: s)
  case (Cons x xs)
  have "used s + op_cost x < cap" using Cons.prems by simp
  from op_spec [OF Cons.prems(1) this] obtain s1 where
    s1: "store_do put del x s = (Inr (), s1)" "invar s1" "view s1 = spec_op (view s) x" "used s1 \<le> used s + op_cost x"
    by blast
  have "used s1 + sum_list (map op_cost xs) < cap" using s1(4) Cons.prems by simp
  from Cons.IH [OF s1(2) this] obtain s2 where
    "efor xs (store_do put del) s1 = (Inr (), s2)" "invar s2" "view s2 = foldl spec_op (view s1) xs"
    "used s2 \<le> used s1 + sum_list (map op_cost xs)" by blast
  with s1 show ?case by (intro exI [of _ s2]) simp
qed simp

text \<open>Wiping a store and writing every pair of another one into it makes the two agree.\<close>

lemma restore_spec:
  assumes "invar s" and "invar t" and "1 + puts_cost (scan t []) < cap"
  shows "\<exists>s'. ebind reset (\<lambda>_. efor (scan t []) (\<lambda>(k, v). put k v)) s = (Inr (), s') \<and> invar s' \<and>
           view s' = view t"
proof -
  obtain s1 where s1: "reset s = (Inr (), s1)" "invar s1" "view s1 = Map.empty" "used s1 \<le> 1"
    using reset_spec [OF assms(1)] by blast
  have "used s1 + puts_cost (scan t []) < cap" using s1(4) assms(3) by simp
  from puts_spec [OF s1(2) this] obtain s2 where
    s2: "efor (scan t []) (\<lambda>(k, v). put k v) s1 = (Inr (), s2)" "invar s2"
      "view s2 = view s1 ++ map_of (rev (scan t []))" by blast
  have "view s2 = view t"
    by (rule ext) (simp add: s2(3) s1(3) map_of_rev_omap scan_ok assms(2) scan_view)
  with s1 s2 show ?thesis by (intro exI [of _ s2]) simp
qed

end

definition eng_cap :: nat where "eng_cap = 2 ^ 32 - 16"

lemma eng_mutate_spec:
  assumes "eng_ok e" and "rec_ok r" and "eng_used e + (ent_weight (rec_entry r) + 2) < eng_cap"
  shows "\<exists>e'. mutate r e = (Inr (), e') \<and> eng_ok e' \<and>
     eng_view e' = (eng_view e)(fst (rec_entry r) := snd (rec_entry r)) \<and>
     eng_used e' \<le> eng_used e + (ent_weight (rec_entry r) + 2)"
proof -
  obtain rs tbls where rel: "eng_rel e rs tbls" using assms(1) by (auto simp: eng_ok_def)
  have "eng_fits e (ent_weight (rec_entry r) + 2)" using assms(3) by (simp add: eng_fits_def eng_cap_def)
  from mutate_rel [OF rel assms(2) this] obtain e' rs' tbls' where
    *: "mutate r e = (Inr (), e')" "eng_rel e' rs' tbls'"
    "mem_view (replay_mem rs') tbls' = (mem_view (replay_mem rs) tbls)(fst (rec_entry r) := snd (rec_entry r))"
    "eng_used e' \<le> eng_used e + ent_weight (rec_entry r) + 2" by blast
  then show ?thesis
    using eng_rel_view [OF rel] eng_rel_view [OF *(2)]
    by (intro exI [of _ e']) (auto simp: eng_ok_def)
qed

lemma rec_entry_simps [simp]:
  "rec_entry (kPut, k, v) = (k, Some v)" "rec_entry (kDelete, k, x) = (k, None)"
  by (simp_all add: rec_entry_def)

lemma rec_ok_fits:
  "eng_used e + put_cost k v < eng_cap \<Longrightarrow> rec_ok (kPut, k, v)"
  "eng_used e + delete_cost k < eng_cap \<Longrightarrow> rec_ok (kDelete, k, [])"
  by (simp_all add: rec_ok_def fits32_def put_cost_def delete_cost_def eng_cap_def)

interpretation eng: kv_store eng_ok eng_view eng_used eng_cap eng_Get eng_Scan eng_Put eng_Delete eng_Reset
proof
  fix e k v p
  assume ok: "eng_ok e"
  then obtain rs tbls where rel: "eng_rel e rs tbls" by (auto simp: eng_ok_def)
  show "eng_Get e k = eng_view e k" by (rule eng_Get_view [OF rel])
  show "omap_ok (eng_Scan e p)" by (rule eng_Scan_view(1) [OF rel])
  show "map_of (eng_Scan e p) k = (if StartsWith k p then eng_view e k else None)"
    by (rule eng_Scan_view(2) [OF rel])
  show "\<exists>s'. eng_Reset e = (Inr (), s') \<and> eng_ok s' \<and> eng_view s' = Map.empty \<and> eng_used s' \<le> 1"
  proof -
    obtain e' where e': "eng_Reset e = (Inr (), e')" "eng_rel e' [] []" "next_sstable_seq e' = 1"
      using Reset_rel [OF rel] by blast
    have "eng_view e' = Map.empty" using eng_rel_view [OF e'(2)] by (simp add: mem_view_def fun_eq_iff)
    with e' eng_rel_used(2) [OF e'(2)] show ?thesis by (auto simp: eng_ok_def)
  qed
  show "\<exists>s'. eng_Put k v e = (Inr (), s') \<and> eng_ok s' \<and> eng_view s' = (eng_view e)(k \<mapsto> v) \<and>
      eng_used s' \<le> eng_used e + put_cost k v" if "eng_used e + put_cost k v < eng_cap"
    using eng_mutate_spec [OF ok rec_ok_fits(1) [OF that]] that
    by (simp add: mutate_simps put_cost_def ent_weight_def ac_simps)
  show "\<exists>s'. eng_Delete k e = (Inr (), s') \<and> eng_ok s' \<and> eng_view s' = (eng_view e)(k := None) \<and>
      eng_used s' \<le> eng_used e + delete_cost k" if "eng_used e + delete_cost k < eng_cap"
    using eng_mutate_spec [OF ok rec_ok_fits(2) [OF that]] that
    by (simp add: mutate_simps delete_cost_def ent_weight_def ac_simps)
qed

section \<open>Crashes\<close>

text \<open>\<open>crash ops d d'\<close>: the process issued the operations \<open>ops\<close> on directory \<open>d\<close> and died; \<open>d'\<close>
  is what the next start finds.  It died between two operations, or during one that writes, which then
  left a prefix of its bytes.\<close>

declare disk_apply.simps [simp del]

inductive crash :: "disk_op list \<Rightarrow> dir \<Rightarrow> dir \<Rightarrow> bool" where
  crash_between: "crash ops d d"
| crash_write: "prefix b' b \<Longrightarrow> crash (WriteFile n b # ops) d (disk_apply (WriteFile n b') d)"
| crash_append: "prefix b' b \<Longrightarrow> crash (AppendFile n b # ops) d (disk_apply (AppendFile n b') d)"
| crash_later: "crash ops (disk_apply op d) d' \<Longrightarrow> crash (op # ops) d d'"

inductive_cases crash_NilE: "crash [] d d'"
inductive_cases crash_WriteE: "crash (WriteFile n b # ops) d d'"
inductive_cases crash_AppendE: "crash (AppendFile n b # ops) d d'"
inductive_cases crash_RenameE: "crash (RenameFile m n # ops) d d'"

definition is_remove :: "disk_op \<Rightarrow> bool" where
  "is_remove op = (case op of RemoveFile _ \<Rightarrow> True | _ \<Rightarrow> False)"

definition recovers :: "dir \<Rightarrow> (string \<Rightarrow> string option) \<Rightarrow> bool" where
  "recovers d V \<longleftrightarrow> (\<exists>e. eng_Open d = Inr e \<and> eng_view e = V)"

lemma holds_recovers:
  assumes "disk_holds d wal tbls" and "V = mem_view (replay_mem (wal_Replay wal)) tbls"
  shows "recovers d V"
  using eng_Open_holds [OF assms(1)] eng_view_tables assms(2) unfolding recovers_def by metis

lemma wal_Replay_concat: "\<forall>r \<in> set rs. rec_ok r \<Longrightarrow> wal_Replay (concat (map rec_bytes rs)) = rs"
  using wal_Replay_records [of rs "[]"] by simp

lemma wal_Replay_torn:
  assumes "\<forall>r \<in> set rs. rec_ok r" and "rec_ok r" and "prefix b (rec_bytes r)"
  shows "wal_Replay (concat (map rec_bytes rs) @ b) = rs \<or>
         wal_Replay (concat (map rec_bytes rs) @ b) = rs @ [r]"
proof (cases "b = rec_bytes r")
  case True
  then show ?thesis
    using wal_Replay_records [OF assms(1), of "rec_bytes r"] wal_Replay_record [OF assms(2), of "[]"] by simp
next
  case False
  then have "strict_prefix b (rec_bytes r)" using assms(3) by (simp add: strict_prefix_def)
  from replay_one_torn [OF assms(2) this] show ?thesis
    using wal_Replay_records [OF assms(1)] by (simp add: wal_Replay_stop)
qed

text \<open>Writing a table and renaming it into place, from any state the directory holds.\<close>

lemma crash_write_table:
  assumes "crash (WriteFile (SSTablePath n @ ''.tmp'') (sst_bytes es)
      # RenameFile (SSTablePath n @ ''.tmp'') (SSTablePath n) # ops) d d'"
    and "disk_holds d wal tbls" and "\<forall>t \<in> set tbls. fst t < n" and "n < 2 ^ 32" and "table_ok es"
  shows "disk_holds d' wal tbls \<or>
    (\<exists>d2. disk_holds d2 wal ((n, es) # tbls) \<and> crash ops d2 d')"
proof (rule crash_WriteE [OF assms(1)], goal_cases)
  case 1
  then show ?case using assms(2) by simp
next
  case (2 b')
  then show ?case using holds_write_tmp [OF assms(2)] by simp
next
  case 3
  show ?case
  proof (rule crash_RenameE [OF 3], goal_cases)
    case 1
    then show ?case using holds_write_tmp [OF assms(2)] by simp
  next
    case 2
    then show ?case using holds_rename [OF assms(2-5)] by blast
  qed
qed

lemma crash_append_only:
  assumes "crash [AppendFile n b] d d'"
  obtains b' where "prefix b' b" and "d' = disk_apply (AppendFile n b') d" | "d' = d"
  using assms by (blast elim: crash_AppendE crash_NilE)

lemma takeWhile_ops [simp]:
  "is_remove (WriteFile n b) = False" "is_remove (AppendFile n b) = False"
  "is_remove (RenameFile m n) = False" "is_remove (RemoveFile n) = True"
  by (simp_all add: is_remove_def)

lemma takeWhile_removes: "takeWhile (\<lambda>op. \<not> is_remove op) (map (\<lambda>r. RemoveFile (f r)) rs) = []"
  by (cases rs) simp_all

lemma crash_compact:
  assumes "eng_rel e rs tbls" and "eng_fits e 1" and "disk_holds d wal tbls"
    and "crash (takeWhile (\<lambda>op. \<not> is_remove op) (compact_ops e)) d d'"
  shows "\<exists>tbls'. disk_holds d' wal tbls' \<and> (\<forall>m. mem_view m tbls' = mem_view m tbls)"
proof (cases "length (sstables e) < kCompactionTriggerCount")
  case True
  with assms(4) have "d' = d" by (auto simp: compact_ops_def elim: crash_NilE)
  with assms(3) show ?thesis by blast
next
  case False
  define n where "n = next_sstable_seq e"
  define es where "es = filter (\<lambda>(key, value). value \<noteq> None) (merge_tables (sstables e))"
  note mt = merge_tables_rel [OF assms(1), folded es_def] and used = eng_rel_used(2) [OF assms(1)]
  have lt: "\<forall>t \<in> set tbls. fst t < n" using assms(1) by (simp add: eng_rel_def n_def)
  have tok: "table_ok es" using mt assms(2) used by (intro table_ok_weight) (auto simp: eng_fits_def)
  have n: "n < 2 ^ 32" using assms(2) used by (simp add: eng_fits_def n_def)
  have "crash (WriteFile (SSTablePath n @ ''.tmp'') (sst_bytes es)
      # RenameFile (SSTablePath n @ ''.tmp'') (SSTablePath n) # []) d d'"
    using assms(4) False by (simp add: compact_ops_def Let_def takeWhile_removes n_def es_def)
  from crash_write_table [OF this assms(3) lt n tok]
  consider "disk_holds d' wal tbls" | "disk_holds d' wal ((n, es) # tbls)"
    by (auto elim: crash_NilE)
  then show ?thesis using mt(4) by cases blast+
qed

text \<open>After the append, the flush and the compaction up to its first removal keep the view at every
  crash point.\<close>

lemma crash_flush_compact:
  assumes "eng_rel e rs tbls" and "eng_fits e 2" and "memtable e \<noteq> []"
    and "eng_FlushMemtable e = (Inr (), e')"
    and "crash (takeWhile (\<lambda>op. \<not> is_remove op) (drop (length (eng_io e)) (eng_io e'))) (eng_disk e) d'"
  shows "recovers d' (mem_view (replay_mem rs) tbls)"
proof -
  let ?V = "mem_view (replay_mem rs) tbls" and ?n = "next_sstable_seq e" and ?w = "concat (map rec_bytes rs)"
  note used = eng_rel_used(2) [OF assms(1)]
  have rel: "disk_holds (eng_disk e) ?w tbls" "\<forall>t \<in> set tbls. fst t < ?n" "memtable e = replay_mem rs"
    "\<forall>r \<in> set rs. rec_ok r"
    using assms(1) by (auto simp: eng_rel_def)
  have tok: "table_ok (memtable e)"
    using rel(3) assms(2) used by (intro table_ok_weight) (auto simp: eng_fits_def)
  have n: "?n < 2 ^ 32" using assms(2) used by (simp add: eng_fits_def)
  note replay = wal_Replay_concat [OF rel(4)]
  have same: "mem_view (replay_mem rs) ((?n, memtable e) # tbls) = ?V"
    by (simp add: rel(3) mem_view_def fun_eq_iff map_add_def split: option.split)
  obtain e1 where f: "eng_FlushMemtable e = eng_MaybeCompact e1"
    "eng_rel e1 [] ((?n, memtable e) # tbls)" "eng_used e1 = eng_used e + 1" "eng_io e1 = eng_io e @ flush_ops e"
    using FlushMemtable_rel [OF assms(1-3)] by blast
  have fits1: "eng_fits e1 1" using f(3) assms(2) by (simp add: eng_fits_def)
  obtain e2 where c: "eng_MaybeCompact e1 = (Inr (), e2)" "eng_io e2 = eng_io e1 @ compact_ops e1"
    using MaybeCompact_rel [OF f(2) fits1] by blast
  have ops: "drop (length (eng_io e)) (eng_io e') = flush_ops e @ compact_ops e1"
    using assms(4) f(1,4) c by simp
  define rest where "rest = takeWhile (\<lambda>op. \<not> is_remove op) (compact_ops e1)"
  have "crash (WriteFile (SSTablePath ?n @ ''.tmp'') (sst_bytes (memtable e))
      # RenameFile (SSTablePath ?n @ ''.tmp'') (SSTablePath ?n) # WriteFile wal_path [] # rest) (eng_disk e) d'"
    using assms(5) by (simp add: ops flush_ops_def Let_def rest_def)
  from crash_write_table [OF this rel(1,2) n tok]
  consider "disk_holds d' ?w tbls"
    | d2 where "disk_holds d2 ?w ((?n, memtable e) # tbls)" "crash (WriteFile wal_path [] # rest) d2 d'"
    by blast
  then show ?thesis
  proof cases
    case 1
    then show ?thesis by (rule holds_recovers) (simp add: replay)
  next
    case (2 d2)
    have h3: "disk_holds (disk_apply (WriteFile wal_path []) d2) [] ((?n, memtable e) # tbls)"
      by (rule holds_write_wal(1) [OF 2(1)])
    show ?thesis
    proof (rule crash_WriteE [OF 2(2)], goal_cases)
      case 1
      show ?case unfolding 1 by (rule holds_recovers [OF 2(1)]) (simp add: replay same)
    next
      case b: (2 b')
      have "d' = disk_apply (WriteFile wal_path []) d2" using b by simp
      then show ?case using holds_recovers [OF h3] by (simp add: rel(3))
    next
      case 3
      from crash_compact [OF f(2) fits1 h3 3 [unfolded rest_def]] obtain tbls' where
        "disk_holds d' [] tbls'" "mem_view [] tbls' = mem_view [] ((?n, memtable e) # tbls)" by blast
      then show ?case using holds_recovers [of d' "[]" tbls', OF _ refl] by (simp add: rel(3))
    qed
  qed
qed

lemma crash_mutate:
  assumes "eng_ok e" and "rec_ok r" and "eng_used e + (ent_weight (rec_entry r) + 2) < eng_cap"
    and "mutate r e = (Inr (), e')"
    and "crash (takeWhile (\<lambda>op. \<not> is_remove op) (drop (length (eng_io e)) (eng_io e'))) (eng_disk e) d'"
  shows "recovers d' (eng_view e) \<or> recovers d' ((eng_view e)(fst (rec_entry r) := snd (rec_entry r)))"
proof -
  obtain rs tbls where rel: "eng_rel e rs tbls" using assms(1) by (auto simp: eng_ok_def)
  have h: "disk_holds (eng_disk e) (concat (map rec_bytes rs)) tbls" and rok: "\<forall>r \<in> set rs. rec_ok r"
    using rel by (auto simp: eng_rel_def)
  define e1 where "e1 = (io (AppendFile wal_path (rec_bytes r)) e)\<lparr>memtable := replay_record (memtable e) r\<rparr>"
  note a = append_rel [OF rel assms(2), folded e1_def]
  note view = eng_rel_view [OF rel]
  have view1: "mem_view (replay_mem (rs @ [r])) tbls = (eng_view e)(fst (rec_entry r) := snd (rec_entry r))"
    by (simp add: view replay_mem_append mem_view_record del: replay_record.simps)
  have torn: "recovers (disk_apply (AppendFile wal_path b) (eng_disk e)) (eng_view e) \<or>
      recovers (disk_apply (AppendFile wal_path b) (eng_disk e)) ((eng_view e)(fst (rec_entry r) := snd (rec_entry r)))"
    if b: "prefix b (rec_bytes r)" for b
    using wal_Replay_torn [OF rok assms(2) b] holds_recovers [OF holds_write_wal(2) [OF h, of b]] view view1
    by metis
  have none: "recovers (eng_disk e) (eng_view e)"
    using holds_recovers [OF h] by (simp add: wal_Replay_concat [OF rok] view)
  show ?thesis
  proof (cases "kMemtableFlushThreshold \<le> mt_size (memtable e1)")
    case False
    then have "e' = e1" using assms(4) by (simp add: mutate_def e1_def Let_def)
    then have "crash [AppendFile wal_path (rec_bytes r)] (eng_disk e) d'"
      using assms(5) by (simp add: e1_def)
    then show ?thesis using torn none by (auto elim!: crash_append_only)
  next
    case True
    then have run: "eng_FlushMemtable e1 = (Inr (), e')"
      using assms(4) by (simp add: mutate_def e1_def Let_def)
    have ne: "memtable e1 \<noteq> []" using True by (auto simp: mt_size_def kMemtableFlushThreshold_def)
    have fits: "eng_fits e1 2" using a(2) assms(3) by (simp add: eng_fits_def eng_cap_def)
    obtain e2 n where f: "eng_FlushMemtable e1 = eng_MaybeCompact e2" "eng_rel e2 [] ((n, memtable e1) # tbls)"
      "eng_used e2 = eng_used e1 + 1" "eng_io e2 = eng_io e1 @ flush_ops e1"
      using FlushMemtable_rel [OF a(1) fits ne] by blast
    have "eng_fits e2 1" using f(3) fits by (simp add: eng_fits_def)
    then obtain ops where ops: "eng_io e' = eng_io e1 @ ops"
      using MaybeCompact_rel [OF f(2)] f(1,4) run by (metis Pair_inject append.assoc)
    have io1: "eng_io e1 = eng_io e @ [AppendFile wal_path (rec_bytes r)]" by (simp add: e1_def)
    have d1: "eng_disk e1 = disk_apply (AppendFile wal_path (rec_bytes r)) (eng_disk e)" by (simp add: e1_def)
    have "crash (AppendFile wal_path (rec_bytes r) # takeWhile (\<lambda>op. \<not> is_remove op) ops) (eng_disk e) d'"
      using assms(5) by (simp add: ops io1)
    then show ?thesis
    proof (rule crash_AppendE, goal_cases)
      case 3
      have "crash (takeWhile (\<lambda>op. \<not> is_remove op) (drop (length (eng_io e1)) (eng_io e'))) (eng_disk e1) d'"
        using 3 by (simp add: ops d1)
      from crash_flush_compact [OF a(1) fits ne run this] show ?case by (simp add: view1)
    qed (use torn none in auto)
  qed
qed

section \<open>Properties\<close>

definition eng_empty :: StorageEngine where
  "eng_empty = \<lparr>eng_disk = [(wal_path, [])], eng_io = [], memtable = [], sstables = [], next_sstable_seq = 1\<rparr>"

lemma eng_Open_Nil: "eng_Open [] = Inr eng_empty"
  by (simp add: eng_Open_def eng_empty_def wal_file_def omap_find_def wal_Open_def omap_set_def)

lemma eng_ok_empty: "eng_ok eng_empty"
proof -
  have "eng_rel eng_empty [] []"
    by (auto simp: eng_rel_def eng_empty_def disk_holds_def omap_ok_def)
  then show ?thesis by (auto simp: eng_ok_def)
qed

lemma eng_view_empty [simp]: "eng_view eng_empty = Map.empty"
  by (simp add: eng_view_def eng_empty_def fun_eq_iff)

lemma eng_used_empty [simp]: "eng_used eng_empty = 1"
  by (simp add: eng_used_def eng_empty_def)

text \<open>C2. The engine refines a map: after any sequence of puts and deletes that fits in the
  store, whatever flushes and compactions it triggered, no operation failed, the
  invariant holds, and \<^verbatim>\<open>Get\<close> answers for every key as the map updated by the same sequence.\<close>

theorem engine_refines_map:
  assumes "eng_ok e" and "eng_used e + sum_list (map op_cost ops) < eng_cap"
  shows "\<exists>e'. efor ops (store_do eng_Put eng_Delete) e = (Inr (), e') \<and> eng_ok e' \<and>
           eng_Get e' = foldl spec_op (eng_Get e) ops"
proof -
  obtain e' where "efor ops (store_do eng_Put eng_Delete) e = (Inr (), e')" "eng_ok e'"
    "eng_view e' = foldl spec_op (eng_view e) ops"
    using eng.ops_spec [OF assms] by blast
  moreover have "eng_Get e = eng_view e" "eng_Get e' = eng_view e'"
    using eng.get_view assms(1) \<open>eng_ok e'\<close> by auto
  ultimately show ?thesis by auto
qed

theorem engine_refines_map_witness:
  "\<exists>e'. efor [OpPut ''a'' ''1'', OpPut ''b'' ''2'', OpDelete ''a''] (store_do eng_Put eng_Delete) eng_empty
       = (Inr (), e') \<and> eng_ok e' \<and>
     eng_Get e' = foldl spec_op (eng_Get eng_empty) [OpPut ''a'' ''1'', OpPut ''b'' ''2'', OpDelete ''a'']"
  by (rule engine_refines_map [OF eng_ok_empty])
    (simp add: put_cost_def delete_cost_def eng_cap_def)

text \<open>A scan returns, in strictly ascending key order, exactly the pairs whose key starts with
  the prefix and whose value a \<^verbatim>\<open>Get\<close> of that key returns.\<close>

theorem engine_scan_exact:
  assumes "eng_ok e"
  shows "omap_ok (eng_Scan e p) \<and>
         (\<forall>k v. (k, v) \<in> set (eng_Scan e p) \<longleftrightarrow> StartsWith k p \<and> eng_Get e k = Some v)"
  using eng.scan_ok [OF assms] eng.scan_mem [OF assms] eng.get_view [OF assms] by simp

theorem engine_scan_exact_witness:
  "omap_ok (eng_Scan eng_empty ''row:'') \<and>
   (\<forall>k v. (k, v) \<in> set (eng_Scan eng_empty ''row:'') \<longleftrightarrow> StartsWith k ''row:'' \<and> eng_Get eng_empty k = Some v)"
  by (rule engine_scan_exact [OF eng_ok_empty])

text \<open>Closing a store and opening its directory again gives back every key: the tables are found and
  ordered by their file names and the log rebuilds the memtable.\<close>

theorem engine_reopen:
  assumes "eng_ok e"
  shows "\<exists>e'. eng_Open (eng_disk e) = Inr e' \<and> eng_ok e' \<and> eng_Get e' = eng_Get e"
proof -
  obtain rs tbls where rel: "eng_rel e rs tbls" using assms by (auto simp: eng_ok_def)
  then have h: "disk_holds (eng_disk e) (concat (map rec_bytes rs)) tbls" and rok: "\<forall>r \<in> set rs. rec_ok r"
    by (auto simp: eng_rel_def)
  from eng_Open_holds [OF h] obtain e' where e': "eng_Open (eng_disk e) = Inr e'" "eng_rel e' rs tbls"
    using rok by (auto simp: eng_rel_def wal_Replay_concat [OF rok])
  have "eng_Get e' = eng_Get e"
    using eng_Get_view [OF rel] eng_Get_view [OF e'(2)] eng_rel_view [OF rel] eng_rel_view [OF e'(2)] by auto
  with e' show ?thesis by (auto simp: eng_ok_def)
qed

theorem engine_reopen_witness:
  "\<exists>e'. eng_Open (eng_disk eng_empty) = Inr e' \<and> eng_ok e' \<and> eng_Get e' = eng_Get eng_empty"
  by (rule engine_reopen [OF eng_ok_empty])

text \<open>C13. A crash at any point of a put or delete, before the first table that a compaction replaced is
  removed, loses nothing: the directory opens, and the view is the one before the operation or the one
  after it.\<close>

theorem engine_crash_safe:
  assumes "eng_ok e" and "eng_used e + op_cost x < eng_cap" and "store_do eng_Put eng_Delete x e = (Inr (), e')"
    and "crash (takeWhile (\<lambda>op. \<not> is_remove op) (drop (length (eng_io e)) (eng_io e'))) (eng_disk e) d"
  shows "recovers d (eng_view e) \<or> recovers d (spec_op (eng_view e) x)"
proof (cases x)
  case (OpPut k v)
  with assms show ?thesis
    using crash_mutate [OF assms(1) rec_ok_fits(1) [of e k v] _ _ assms(4)]
    by (simp add: mutate_simps put_cost_def ent_weight_def ac_simps)
next
  case (OpDelete k)
  with assms show ?thesis
    using crash_mutate [OF assms(1) rec_ok_fits(2) [of e k] _ _ assms(4)]
    by (simp add: mutate_simps delete_cost_def ent_weight_def ac_simps)
qed

theorem engine_crash_safe_witness:
  "recovers (disk_apply (AppendFile wal_path (take 7 (record_bytes kPut ''a'' ''1''))) (eng_disk eng_empty))
     (eng_view eng_empty) \<or>
   recovers (disk_apply (AppendFile wal_path (take 7 (record_bytes kPut ''a'' ''1''))) (eng_disk eng_empty))
     (spec_op (eng_view eng_empty) (OpPut ''a'' ''1''))"
proof (rule engine_crash_safe [OF eng_ok_empty])
  let ?e' = "(io (AppendFile wal_path (record_bytes kPut ''a'' ''1'')) eng_empty)\<lparr>memtable := [(''a'', Some ''1'')]\<rparr>"
  show "store_do eng_Put eng_Delete (OpPut ''a'' ''1'') eng_empty = (Inr (), ?e')"
    by (simp add: eng_Put_def Let_def mt_Put_def eng_empty_def omap_set_def mt_size_def
        kMemtableFlushThreshold_def)
  show "crash (takeWhile (\<lambda>op. \<not> is_remove op) (drop (length (eng_io eng_empty)) (eng_io ?e'))) (eng_disk eng_empty)
     (disk_apply (AppendFile wal_path (take 7 (record_bytes kPut ''a'' ''1''))) (eng_disk eng_empty))"
    by (simp add: crash_append take_is_prefix)
qed (simp add: put_cost_def eng_cap_def)

text \<open>C32. The exception is real.  Compaction drops tombstones and then removes the tables it replaced newest
  first; when the process dies after the first removal and the newest table held the tombstone of a key
  that the next one still has, the next start brings the deleted value back.\<close>

theorem engine_compaction_crash_resurrects:
  assumes "eng_rel e rs ((n1, es1) # (n2, es2) # tbls)" and "eng_fits e 1" and "2 \<le> length tbls"
    and "map_of (memtable e) k = None" and "map_of es1 k = Some None" and "map_of es2 k = Some (Some v)"
  shows "eng_Get e k = None \<and>
    (\<exists>e' d e2. eng_MaybeCompact e = (Inr (), e') \<and>
       crash (drop (length (eng_io e)) (eng_io e')) (eng_disk e) d \<and>
       eng_Open d = Inr e2 \<and> eng_Get e2 k = Some v)"
proof
  let ?tbls = "(n1, es1) # (n2, es2) # tbls" and ?w = "concat (map rec_bytes rs)"
  define n where "n = next_sstable_seq e"
  define es where "es = filter (\<lambda>(key, value). value \<noteq> None) (merge_tables (sstables e))"
  have h: "disk_holds (eng_disk e) ?w ?tbls" and m: "memtable e = replay_mem rs" and rok: "\<forall>r \<in> set rs. rec_ok r"
    and lt: "\<forall>t \<in> set ?tbls. fst t < n" and ssts: "sstables e = map table_reader ?tbls"
    using assms(1) by (auto simp: eng_rel_def n_def)
  have none: "eng_view e k = None"
    using eng_rel_view [OF assms(1)] m assms(4,5) by (simp add: mem_view_def map_add_def)
  then show "eng_Get e k = None" using eng_Get_view [OF assms(1)] by simp
  note mt = merge_tables_rel [OF assms(1), folded es_def] and used = eng_rel_used(2) [OF assms(1)]
  have tok: "table_ok es" using mt assms(2) used by (intro table_ok_weight) (auto simp: eng_fits_def)
  have n32: "n < 2 ^ 32" using assms(2) used by (simp add: eng_fits_def n_def)
  obtain e' where c: "eng_MaybeCompact e = (Inr (), e')" "eng_io e' = eng_io e @ compact_ops e"
    using MaybeCompact_rel [OF assms(1,2)] by blast
  let ?ops = "[WriteFile (SSTablePath n @ ''.tmp'') (sst_bytes es), RenameFile (SSTablePath n @ ''.tmp'') (SSTablePath n)]"
  define d1 where "d1 = disk_apply (?ops ! 1) (disk_apply (?ops ! 0) (eng_disk e))"
  define d where "d = disk_apply (RemoveFile (SSTablePath n1)) d1"
  have "disk_holds d1 ?w ((n, es) # ?tbls)"
    unfolding d1_def using holds_rename [OF h lt n32 tok] by simp
  from holds_remove [OF this, of n1] have "disk_holds d ?w (filter (\<lambda>t. fst t \<noteq> n1) ((n, es) # ?tbls))"
    by (simp add: d_def)
  moreover have "filter (\<lambda>t. fst t \<noteq> n1) ((n, es) # ?tbls) = (n, es) # (n2, es2) # tbls"
    using lt h by (auto simp: disk_holds_def filter_id_conv)
  ultimately have hd: "disk_holds d ?w ((n, es) # (n2, es2) # tbls)" by simp
  have "map_of es k = None"
  proof -
    have "map_of (merge_tables (sstables e)) k = Some None"
      using h assms(5) by (simp add: merge_tables_spec ssts disk_holds_def sst_view_table map_add_def)
    then have "(k, Some x) \<notin> set (merge_tables (sstables e))" for x
      using omap_mem_iff [OF merge_tables_spec(1)] by auto
    then show ?thesis by (auto simp: es_def map_of_eq_None_iff)
  qed
  then have again: "mem_view (replay_mem rs) ((n, es) # (n2, es2) # tbls) k = Some v"
    using assms(4,6) m by (simp add: mem_view_def map_add_def)
  obtain e2 where e2: "eng_Open d = Inr e2" "eng_rel e2 rs ((n, es) # (n2, es2) # tbls)"
    using eng_Open_holds [OF hd] rok by (auto simp: eng_rel_def wal_Replay_concat [OF rok])
  have "eng_Get e2 k = Some v"
    using eng_Get_view [OF e2(2)] eng_rel_view [OF e2(2)] again by simp
  moreover have "crash (drop (length (eng_io e)) (eng_io e')) (eng_disk e) d"
  proof -
    have "sst_path (table_reader (n1, es1)) = SSTablePath n1" by (simp add: table_reader_def sst_reader_def)
    then have "\<exists>more. compact_ops e = ?ops ! 0 # ?ops ! 1 # RemoveFile (SSTablePath n1) # more"
      using assms(3) ssts by (simp add: compact_ops_def kCompactionTriggerCount_def Let_def n_def es_def)
    then show ?thesis
      unfolding c(2) d_def d1_def using crash_later crash_between by force
  qed
  ultimately show "\<exists>e' d e2. eng_MaybeCompact e = (Inr (), e') \<and>
       crash (drop (length (eng_io e)) (eng_io e')) (eng_disk e) d \<and>
       eng_Open d = Inr e2 \<and> eng_Get e2 k = Some v"
    using c(1) e2(1) by blast
qed

lemma eng_rel_add_table:
  assumes "eng_rel e rs tbls" and "next_sstable_seq e < 2 ^ 32" and "table_ok es"
  shows "\<exists>e'. eng_rel e' rs ((next_sstable_seq e, es) # tbls) \<and> next_sstable_seq e' = next_sstable_seq e + 1
           \<and> memtable e' = memtable e"
proof -
  let ?n = "next_sstable_seq e"
  let ?e' = "(io (RenameFile (SSTablePath ?n @ ''.tmp'') (SSTablePath ?n))
      (io (WriteFile (SSTablePath ?n @ ''.tmp'') (sst_bytes es)) e))
        \<lparr>sstables := table_reader (?n, es) # sstables e, next_sstable_seq := ?n + 1\<rparr>"
  have "disk_holds (eng_disk e) (concat (map rec_bytes rs)) tbls" "\<forall>t \<in> set tbls. fst t < ?n"
    using assms(1) by (auto simp: eng_rel_def)
  from write_table_holds(2) [OF this assms(2,3)] have "eng_rel ?e' rs ((?n, es) # tbls)"
    using assms(1) by (auto simp: eng_rel_def)
  then show ?thesis by (intro exI [of _ ?e']) simp
qed

lemma tables_witness:
  "\<exists>e. eng_rel e [] [(4, [(''k'', None)]), (3, [(''k'', Some ''v'')]), (2, []), (1, [])] \<and>
       memtable e = [] \<and> next_sstable_seq e = 5"
proof -
  have small: "table_ok []" "table_ok [(''k'', Some ''v'')]" "table_ok [(''k'', None)]"
    by (rule table_ok_weight; simp add: omap_ok_def ent_weight_def)+
  have "eng_rel eng_empty [] []" "next_sstable_seq eng_empty = 1" "memtable eng_empty = []"
    by (auto simp: eng_rel_def eng_empty_def disk_holds_def omap_ok_def)
  from eng_rel_add_table [OF this(1) _ small(1)] this obtain e1 where
    e1: "eng_rel e1 [] [(1, [])]" "next_sstable_seq e1 = 2" "memtable e1 = []" by auto
  from eng_rel_add_table [OF this(1) _ small(1)] this obtain e2 where
    e2: "eng_rel e2 [] [(2, []), (1, [])]" "next_sstable_seq e2 = 3" "memtable e2 = []" by auto
  from eng_rel_add_table [OF this(1) _ small(2)] this obtain e3 where
    e3: "eng_rel e3 [] [(3, [(''k'', Some ''v'')]), (2, []), (1, [])]" "next_sstable_seq e3 = 4" "memtable e3 = []" by auto
  from eng_rel_add_table [OF this(1) _ small(3)] this show ?thesis by auto
qed

theorem engine_compaction_crash_resurrects_witness:
  "\<exists>e. eng_Get e ''k'' = None \<and>
    (\<exists>e' d e2. eng_MaybeCompact e = (Inr (), e') \<and>
       crash (drop (length (eng_io e)) (eng_io e')) (eng_disk e) d \<and>
       eng_Open d = Inr e2 \<and> eng_Get e2 ''k'' = Some ''v'')"
proof -
  obtain e where e: "eng_rel e [] [(4, [(''k'', None)]), (3, [(''k'', Some ''v'')]), (2, []), (1, [])]"
    "memtable e = []" "next_sstable_seq e = 5" using tables_witness by blast
  have fits: "eng_fits e 1" using eng_rel_used(2) [OF e(1)] e(3) by (simp add: eng_fits_def ent_weight_def)
  show ?thesis
    by (rule exI [of _ e], rule engine_compaction_crash_resurrects [OF e(1) fits]) (simp_all add: e(2))
qed

text \<open>\<^verbatim>\<open>Reset\<close> leaves an empty store, on disk as well: nothing can be read before or after
  reopening it.\<close>

theorem engine_reset_empties:
  assumes "eng_ok e"
  shows "\<exists>e'. eng_Reset e = (Inr (), e') \<and> eng_ok e' \<and> (\<forall>k. eng_Get e' k = None) \<and>
           recovers (eng_disk e') Map.empty"
proof -
  obtain rs tbls where rel: "eng_rel e rs tbls" using assms by (auto simp: eng_ok_def)
  obtain e' where e': "eng_Reset e = (Inr (), e')" "eng_rel e' [] []" using Reset_rel [OF rel] by blast
  have "eng_view e' = Map.empty" using eng_rel_view [OF e'(2)] by (simp add: mem_view_def fun_eq_iff)
  moreover have "recovers (eng_disk e') Map.empty"
    using e'(2) by (intro holds_recovers [of _ "[]" "[]"]) (auto simp: eng_rel_def mem_view_def)
  ultimately show ?thesis
    using e' eng_Get_view [OF e'(2)] by (intro exI [of _ e']) (auto simp: eng_ok_def)
qed

theorem engine_reset_empties_witness:
  "\<exists>e'. eng_Reset eng_empty = (Inr (), e') \<and> eng_ok e' \<and> (\<forall>k. eng_Get e' k = None) \<and>
        recovers (eng_disk e') Map.empty"
  by (rule engine_reset_empties [OF eng_ok_empty])

end
