(* ===== verification/Message.thy ===== *)
theory Message
  imports Ord_Map Bytes
begin

text \<open>
  \<^verbatim>\<open>src/raft/types.h\<close> and \<^verbatim>\<open>src/raft/message.cpp\<close>: the twelve messages nodes and clients
  exchange.  An \<open>Encode\<close> function appends the fields after a tag byte; the \<^verbatim>\<open>Reader\<close> is a cursor
  that throws when fewer bytes are left than the next field needs, and a \<open>Decode\<close> function runs it from
  the start of the body.  Each message is a \<open>codec\<close>, so that its round trip and the rejection of
  every truncated body are instances of the facts proved once in \<open>Bytes\<close>.
\<close>

type_synonym NodeId = "32 word"
type_synonym Term = nat
type_synonym LogIndex = nat

record PeerAddress =
  host :: string
  port :: "16 word"

type_synonym peer_map = "(NodeId, PeerAddress) omap"

record LogEntry =
  le_index :: LogIndex
  le_term :: Term
  le_command :: string

record RequestVoteRequest =
  rvq_term :: Term
  rvq_candidate_id :: NodeId
  rvq_last_log_index :: LogIndex
  rvq_last_log_term :: Term

record RequestVoteResponse =
  rvr_term :: Term
  rvr_vote_granted :: bool

record AppendEntriesRequest =
  aeq_term :: Term
  aeq_leader_id :: NodeId
  aeq_prev_log_index :: LogIndex
  aeq_prev_log_term :: Term
  aeq_entries :: "LogEntry list"
  aeq_leader_commit :: LogIndex

record AppendEntriesResponse =
  aer_term :: Term
  aer_success :: bool
  aer_match_index :: LogIndex

record ClientRequest =
  crq_command :: string

record ClientResponse =
  crr_success :: bool
  crr_index :: LogIndex
  crr_not_leader :: bool
  crr_leader_hint :: NodeId
  crr_error :: string

record InstallSnapshotRequest =
  isq_term :: Term
  isq_leader_id :: NodeId
  isq_last_included_index :: LogIndex
  isq_last_included_term :: Term
  isq_data :: string
  isq_membership :: peer_map

record InstallSnapshotResponse =
  isr_term :: Term

record ReadRequest =
  rdq_query :: string

record ReadResponse =
  rdr_error :: bool
  rdr_result :: string

record DescribeClusterResponse =
  dcr_id :: NodeId
  dcr_own_address :: PeerAddress
  dcr_peers :: peer_map

type_synonym MessageType = "8 word"

abbreviation "kRequestVoteRequest \<equiv> 1 :: MessageType"
abbreviation "kRequestVoteResponse \<equiv> 2 :: MessageType"
abbreviation "kAppendEntriesRequest \<equiv> 3 :: MessageType"
abbreviation "kAppendEntriesResponse \<equiv> 4 :: MessageType"
abbreviation "kClientRequest \<equiv> 5 :: MessageType"
abbreviation "kClientResponse \<equiv> 6 :: MessageType"
abbreviation "kInstallSnapshotRequest \<equiv> 7 :: MessageType"
abbreviation "kInstallSnapshotResponse \<equiv> 8 :: MessageType"
abbreviation "kReadRequest \<equiv> 9 :: MessageType"
abbreviation "kReadResponse \<equiv> 10 :: MessageType"
abbreviation "kDescribeClusterRequest \<equiv> 11 :: MessageType"
abbreviation "kDescribeClusterResponse \<equiv> 12 :: MessageType"

section \<open>The reader\<close>

definition msg_error :: exn where
  "msg_error = RuntimeError ''corrupt or truncated raft message''"

definition ReadU8 :: "(string, 8 word) cursor" where "ReadU8 = get_u8 msg_error"
definition ReadU16 :: "(string, 16 word) cursor" where "ReadU16 = get_u16 msg_error"
definition ReadU32 :: "(string, 32 word) cursor" where "ReadU32 = get_u32 msg_error"
definition ReadU64 :: "(string, nat) cursor" where "ReadU64 = get_index msg_error"
definition ReadString :: "(string, string) cursor" where "ReadString = get_string msg_error"

definition AppendBool :: "bool \<Rightarrow> string" where
  "AppendBool b = put_u8 (if b then 1 else 0)"

definition ReadBool :: "(string, bool) cursor" where
  "ReadBool = sbind ReadU8 (\<lambda>b. sret (b \<noteq> 0))"

definition AppendPeer :: "NodeId \<times> PeerAddress \<Rightarrow> string" where
  "AppendPeer p = put_u32 (fst p) @ put_string (host (snd p)) @ put_u16 (port (snd p))"

definition ReadPeer :: "(string, NodeId \<times> PeerAddress) cursor" where
  "ReadPeer = sbind ReadU32 (\<lambda>id. sbind ReadString (\<lambda>h. sbind ReadU16 (\<lambda>p.
     sret (id, \<lparr>host = h, port = p\<rparr>))))"

definition AppendPeers :: "peer_map \<Rightarrow> string" where
  "AppendPeers ps = put_u32 (of_nat (length ps)) @ concat (map AppendPeer ps)"

definition ReadPeers :: "(string, peer_map) cursor" where
  "ReadPeers = sbind ReadU32 (\<lambda>count. sbind (srepeat ReadPeer (unat count)) (\<lambda>ps. sret (omap_of_list ps)))"

definition AppendEntry :: "LogEntry \<Rightarrow> string" where
  "AppendEntry e = put_index (le_index e) @ put_index (le_term e) @ put_string (le_command e)"

definition ReadEntry :: "(string, LogEntry) cursor" where
  "ReadEntry = sbind ReadU64 (\<lambda>i. sbind ReadU64 (\<lambda>t. sbind ReadString (\<lambda>c.
     sret \<lparr>le_index = i, le_term = t, le_command = c\<rparr>)))"

section \<open>The messages\<close>

definition PeekMessageType :: "string \<Rightarrow> MessageType res" where
  "PeekMessageType body = (case body of
       [] \<Rightarrow> Inl (RuntimeError ''empty raft message'')
     | c # _ \<Rightarrow> Inr (of_nat (of_char c)))"

definition EncodeRequestVoteRequest :: "RequestVoteRequest \<Rightarrow> string" where
  "EncodeRequestVoteRequest req = put_u8 kRequestVoteRequest @ put_index (rvq_term req) @
     put_u32 (rvq_candidate_id req) @ put_index (rvq_last_log_index req) @ put_index (rvq_last_log_term req)"

definition ReadRequestVoteRequest :: "(string, RequestVoteRequest) cursor" where
  "ReadRequestVoteRequest = sbind ReadU8 (\<lambda>_. sbind ReadU64 (\<lambda>t. sbind ReadU32 (\<lambda>c. sbind ReadU64 (\<lambda>i.
     sbind ReadU64 (\<lambda>lt. sret \<lparr>rvq_term = t, rvq_candidate_id = c, rvq_last_log_index = i, rvq_last_log_term = lt\<rparr>)))))"

definition DecodeRequestVoteRequest :: "string \<Rightarrow> RequestVoteRequest res" where
  "DecodeRequestVoteRequest body = srun ReadRequestVoteRequest body"

definition EncodeRequestVoteResponse :: "RequestVoteResponse \<Rightarrow> string" where
  "EncodeRequestVoteResponse resp = put_u8 kRequestVoteResponse @ put_index (rvr_term resp) @
     AppendBool (rvr_vote_granted resp)"

definition ReadRequestVoteResponse :: "(string, RequestVoteResponse) cursor" where
  "ReadRequestVoteResponse = sbind ReadU8 (\<lambda>_. sbind ReadU64 (\<lambda>t. sbind ReadBool (\<lambda>g.
     sret \<lparr>rvr_term = t, rvr_vote_granted = g\<rparr>)))"

definition DecodeRequestVoteResponse :: "string \<Rightarrow> RequestVoteResponse res" where
  "DecodeRequestVoteResponse body = srun ReadRequestVoteResponse body"

definition EncodeAppendEntriesRequest :: "AppendEntriesRequest \<Rightarrow> string" where
  "EncodeAppendEntriesRequest req = put_u8 kAppendEntriesRequest @ put_index (aeq_term req) @
     put_u32 (aeq_leader_id req) @ put_index (aeq_prev_log_index req) @ put_index (aeq_prev_log_term req) @
     put_u32 (of_nat (length (aeq_entries req))) @ concat (map AppendEntry (aeq_entries req)) @
     put_index (aeq_leader_commit req)"

definition ReadAppendEntriesRequest :: "(string, AppendEntriesRequest) cursor" where
  "ReadAppendEntriesRequest = sbind ReadU8 (\<lambda>_. sbind ReadU64 (\<lambda>t. sbind ReadU32 (\<lambda>l. sbind ReadU64 (\<lambda>pi.
     sbind ReadU64 (\<lambda>pt. sbind ReadU32 (\<lambda>count. sbind (srepeat ReadEntry (unat count)) (\<lambda>es.
     sbind ReadU64 (\<lambda>lc. sret \<lparr>aeq_term = t, aeq_leader_id = l, aeq_prev_log_index = pi,
       aeq_prev_log_term = pt, aeq_entries = es, aeq_leader_commit = lc\<rparr>))))))))"

definition DecodeAppendEntriesRequest :: "string \<Rightarrow> AppendEntriesRequest res" where
  "DecodeAppendEntriesRequest body = srun ReadAppendEntriesRequest body"

definition EncodeAppendEntriesResponse :: "AppendEntriesResponse \<Rightarrow> string" where
  "EncodeAppendEntriesResponse resp = put_u8 kAppendEntriesResponse @ put_index (aer_term resp) @
     AppendBool (aer_success resp) @ put_index (aer_match_index resp)"

definition ReadAppendEntriesResponse :: "(string, AppendEntriesResponse) cursor" where
  "ReadAppendEntriesResponse = sbind ReadU8 (\<lambda>_. sbind ReadU64 (\<lambda>t. sbind ReadBool (\<lambda>s. sbind ReadU64 (\<lambda>m.
     sret \<lparr>aer_term = t, aer_success = s, aer_match_index = m\<rparr>))))"

definition DecodeAppendEntriesResponse :: "string \<Rightarrow> AppendEntriesResponse res" where
  "DecodeAppendEntriesResponse body = srun ReadAppendEntriesResponse body"

definition EncodeClientRequest :: "ClientRequest \<Rightarrow> string" where
  "EncodeClientRequest req = put_u8 kClientRequest @ put_string (crq_command req)"

definition ReadClientRequest :: "(string, ClientRequest) cursor" where
  "ReadClientRequest = sbind ReadU8 (\<lambda>_. sbind ReadString (\<lambda>c. sret \<lparr>crq_command = c\<rparr>))"

definition DecodeClientRequest :: "string \<Rightarrow> ClientRequest res" where
  "DecodeClientRequest body = srun ReadClientRequest body"

definition EncodeClientResponse :: "ClientResponse \<Rightarrow> string" where
  "EncodeClientResponse resp = put_u8 kClientResponse @ AppendBool (crr_success resp) @
     put_index (crr_index resp) @ AppendBool (crr_not_leader resp) @ put_u32 (crr_leader_hint resp) @
     put_string (crr_error resp)"

definition ReadClientResponse :: "(string, ClientResponse) cursor" where
  "ReadClientResponse = sbind ReadU8 (\<lambda>_. sbind ReadBool (\<lambda>s. sbind ReadU64 (\<lambda>i. sbind ReadBool (\<lambda>n.
     sbind ReadU32 (\<lambda>h. sbind ReadString (\<lambda>e. sret \<lparr>crr_success = s, crr_index = i, crr_not_leader = n,
       crr_leader_hint = h, crr_error = e\<rparr>))))))"

definition DecodeClientResponse :: "string \<Rightarrow> ClientResponse res" where
  "DecodeClientResponse body = srun ReadClientResponse body"

definition EncodeInstallSnapshotRequest :: "InstallSnapshotRequest \<Rightarrow> string" where
  "EncodeInstallSnapshotRequest req = put_u8 kInstallSnapshotRequest @ put_index (isq_term req) @
     put_u32 (isq_leader_id req) @ put_index (isq_last_included_index req) @
     put_index (isq_last_included_term req) @ put_string (isq_data req) @ AppendPeers (isq_membership req)"

definition ReadInstallSnapshotRequest :: "(string, InstallSnapshotRequest) cursor" where
  "ReadInstallSnapshotRequest = sbind ReadU8 (\<lambda>_. sbind ReadU64 (\<lambda>t. sbind ReadU32 (\<lambda>l. sbind ReadU64 (\<lambda>i.
     sbind ReadU64 (\<lambda>it. sbind ReadString (\<lambda>d. sbind ReadPeers (\<lambda>m.
     sret \<lparr>isq_term = t, isq_leader_id = l, isq_last_included_index = i, isq_last_included_term = it,
       isq_data = d, isq_membership = m\<rparr>)))))))"

definition DecodeInstallSnapshotRequest :: "string \<Rightarrow> InstallSnapshotRequest res" where
  "DecodeInstallSnapshotRequest body = srun ReadInstallSnapshotRequest body"

definition EncodeInstallSnapshotResponse :: "InstallSnapshotResponse \<Rightarrow> string" where
  "EncodeInstallSnapshotResponse resp = put_u8 kInstallSnapshotResponse @ put_index (isr_term resp)"

definition ReadInstallSnapshotResponse :: "(string, InstallSnapshotResponse) cursor" where
  "ReadInstallSnapshotResponse = sbind ReadU8 (\<lambda>_. sbind ReadU64 (\<lambda>t. sret \<lparr>isr_term = t\<rparr>))"

definition DecodeInstallSnapshotResponse :: "string \<Rightarrow> InstallSnapshotResponse res" where
  "DecodeInstallSnapshotResponse body = srun ReadInstallSnapshotResponse body"

definition EncodeReadRequest :: "ReadRequest \<Rightarrow> string" where
  "EncodeReadRequest req = put_u8 kReadRequest @ put_string (rdq_query req)"

definition ReadReadRequest :: "(string, ReadRequest) cursor" where
  "ReadReadRequest = sbind ReadU8 (\<lambda>_. sbind ReadString (\<lambda>q. sret \<lparr>rdq_query = q\<rparr>))"

definition DecodeReadRequest :: "string \<Rightarrow> ReadRequest res" where
  "DecodeReadRequest body = srun ReadReadRequest body"

definition EncodeReadResponse :: "ReadResponse \<Rightarrow> string" where
  "EncodeReadResponse resp = put_u8 kReadResponse @ AppendBool (rdr_error resp) @ put_string (rdr_result resp)"

definition ReadReadResponse :: "(string, ReadResponse) cursor" where
  "ReadReadResponse = sbind ReadU8 (\<lambda>_. sbind ReadBool (\<lambda>e. sbind ReadString (\<lambda>r.
     sret \<lparr>rdr_error = e, rdr_result = r\<rparr>)))"

definition DecodeReadResponse :: "string \<Rightarrow> ReadResponse res" where
  "DecodeReadResponse body = srun ReadReadResponse body"

definition EncodeDescribeClusterRequest :: "unit \<Rightarrow> string" where
  "EncodeDescribeClusterRequest req = put_u8 kDescribeClusterRequest"

definition ReadDescribeClusterRequest :: "(string, unit) cursor" where
  "ReadDescribeClusterRequest = sbind ReadU8 (\<lambda>_. sret ())"

definition DecodeDescribeClusterRequest :: "string \<Rightarrow> unit res" where
  "DecodeDescribeClusterRequest body = srun ReadDescribeClusterRequest body"

definition EncodeDescribeClusterResponse :: "DescribeClusterResponse \<Rightarrow> string" where
  "EncodeDescribeClusterResponse resp = put_u8 kDescribeClusterResponse @ put_u32 (dcr_id resp) @
     put_string (host (dcr_own_address resp)) @ put_u16 (port (dcr_own_address resp)) @
     AppendPeers (dcr_peers resp)"

definition ReadDescribeClusterResponse :: "(string, DescribeClusterResponse) cursor" where
  "ReadDescribeClusterResponse = sbind ReadU8 (\<lambda>_. sbind ReadU32 (\<lambda>id. sbind ReadString (\<lambda>h. sbind ReadU16 (\<lambda>p.
     sbind ReadPeers (\<lambda>ps. sret \<lparr>dcr_id = id, dcr_own_address = \<lparr>host = h, port = p\<rparr>, dcr_peers = ps\<rparr>)))))"

definition DecodeDescribeClusterResponse :: "string \<Rightarrow> DescribeClusterResponse res" where
  "DecodeDescribeClusterResponse body = srun ReadDescribeClusterResponse body"

section \<open>What fits in the format\<close>

definition index_ok :: "nat \<Rightarrow> bool" where
  "index_ok n \<longleftrightarrow> n < 2 ^ 64"

definition entry_ok :: "LogEntry \<Rightarrow> bool" where
  "entry_ok e \<longleftrightarrow> index_ok (le_index e) \<and> index_ok (le_term e) \<and> fits32 (le_command e)"

definition peers_ok :: "peer_map \<Rightarrow> bool" where
  "peers_ok ps \<longleftrightarrow> omap_ok ps \<and> fits32 ps \<and> (\<forall>p \<in> set ps. fits32 (host (snd p)))"

section \<open>Every message is a codec\<close>

lemmas msg_reads = ReadU8_def ReadU16_def ReadU32_def ReadU64_def ReadString_def

lemma index_codec [simp]: "index_ok n \<Longrightarrow> get_index e (put_index n @ r) = Inr (n, r)"
  by (rule ix.dec_enc) (simp add: index_ok_def)

lemma index_codec_end [simp]: "index_ok n \<Longrightarrow> get_index e (put_index n) = Inr (n, [])"
  using index_codec [of n e "[]"] by simp

interpretation bl: codec AppendBool ReadBool "\<lambda>_. True"
  by unfold_locales (auto simp: AppendBool_def ReadBool_def msg_reads codec_simps)

interpretation peer: codec AppendPeer ReadPeer "\<lambda>p. fits32 (host (snd p))"
  by unfold_locales (auto simp: AppendPeer_def ReadPeer_def msg_reads codec_simps)

interpretation ent: codec AppendEntry ReadEntry entry_ok
  by unfold_locales (auto simp: AppendEntry_def ReadEntry_def msg_reads codec_simps entry_ok_def)

interpretation peers: codec AppendPeers ReadPeers peers_ok
  by unfold_locales
    (auto simp: AppendPeers_def ReadPeers_def msg_reads codec_simps peers_ok_def unat_length32
      peer.srepeat_enc omap_of_list_sorted intro!: extensible_sbind peer.dec_extend)

lemmas msg_codecs = codec_simps bl.dec_enc bl.dec_enc_Nil peers.dec_enc peers.dec_enc_Nil unat_length32 ent.srepeat_enc
lemmas msg_extend = extensible_sbind bl.dec_extend peers.dec_extend ent.dec_extend extensible_srepeat

definition rvq_ok :: "RequestVoteRequest \<Rightarrow> bool" where
  "rvq_ok q \<longleftrightarrow> index_ok (rvq_term q) \<and> index_ok (rvq_last_log_index q) \<and> index_ok (rvq_last_log_term q)"

interpretation rvq: codec EncodeRequestVoteRequest ReadRequestVoteRequest rvq_ok
  by unfold_locales
    (auto simp: EncodeRequestVoteRequest_def ReadRequestVoteRequest_def msg_reads msg_codecs rvq_ok_def intro!: msg_extend)

definition rvr_ok :: "RequestVoteResponse \<Rightarrow> bool" where
  "rvr_ok q \<longleftrightarrow> index_ok (rvr_term q)"

interpretation rvr: codec EncodeRequestVoteResponse ReadRequestVoteResponse rvr_ok
  by unfold_locales
    (auto simp: EncodeRequestVoteResponse_def ReadRequestVoteResponse_def msg_reads msg_codecs rvr_ok_def intro!: msg_extend)

definition aeq_ok :: "AppendEntriesRequest \<Rightarrow> bool" where
  "aeq_ok q \<longleftrightarrow> index_ok (aeq_term q) \<and> index_ok (aeq_prev_log_index q) \<and> index_ok (aeq_prev_log_term q) \<and>
     fits32 (aeq_entries q) \<and> (\<forall>e \<in> set (aeq_entries q). entry_ok e) \<and> index_ok (aeq_leader_commit q)"

interpretation aeq: codec EncodeAppendEntriesRequest ReadAppendEntriesRequest aeq_ok
  by unfold_locales
    (auto simp: EncodeAppendEntriesRequest_def ReadAppendEntriesRequest_def msg_reads msg_codecs aeq_ok_def intro!: msg_extend)

definition aer_ok :: "AppendEntriesResponse \<Rightarrow> bool" where
  "aer_ok q \<longleftrightarrow> index_ok (aer_term q) \<and> index_ok (aer_match_index q)"

interpretation aer: codec EncodeAppendEntriesResponse ReadAppendEntriesResponse aer_ok
  by unfold_locales
    (auto simp: EncodeAppendEntriesResponse_def ReadAppendEntriesResponse_def msg_reads msg_codecs aer_ok_def intro!: msg_extend)

definition crq_ok :: "ClientRequest \<Rightarrow> bool" where
  "crq_ok q \<longleftrightarrow> fits32 (crq_command q)"

interpretation crq: codec EncodeClientRequest ReadClientRequest crq_ok
  by unfold_locales
    (auto simp: EncodeClientRequest_def ReadClientRequest_def msg_reads msg_codecs crq_ok_def intro!: msg_extend)

definition crr_ok :: "ClientResponse \<Rightarrow> bool" where
  "crr_ok q \<longleftrightarrow> index_ok (crr_index q) \<and> fits32 (crr_error q)"

interpretation crr: codec EncodeClientResponse ReadClientResponse crr_ok
  by unfold_locales
    (auto simp: EncodeClientResponse_def ReadClientResponse_def msg_reads msg_codecs crr_ok_def intro!: msg_extend)

definition isq_ok :: "InstallSnapshotRequest \<Rightarrow> bool" where
  "isq_ok q \<longleftrightarrow> index_ok (isq_term q) \<and> index_ok (isq_last_included_index q) \<and> index_ok (isq_last_included_term q) \<and>
     fits32 (isq_data q) \<and> peers_ok (isq_membership q)"

interpretation isq: codec EncodeInstallSnapshotRequest ReadInstallSnapshotRequest isq_ok
  by unfold_locales
    (auto simp: EncodeInstallSnapshotRequest_def ReadInstallSnapshotRequest_def msg_reads msg_codecs isq_ok_def intro!: msg_extend)

definition isr_ok :: "InstallSnapshotResponse \<Rightarrow> bool" where
  "isr_ok q \<longleftrightarrow> index_ok (isr_term q)"

interpretation isr: codec EncodeInstallSnapshotResponse ReadInstallSnapshotResponse isr_ok
  by unfold_locales
    (auto simp: EncodeInstallSnapshotResponse_def ReadInstallSnapshotResponse_def msg_reads msg_codecs isr_ok_def intro!: msg_extend)

definition rdq_ok :: "ReadRequest \<Rightarrow> bool" where
  "rdq_ok q \<longleftrightarrow> fits32 (rdq_query q)"

interpretation rdq: codec EncodeReadRequest ReadReadRequest rdq_ok
  by unfold_locales
    (auto simp: EncodeReadRequest_def ReadReadRequest_def msg_reads msg_codecs rdq_ok_def intro!: msg_extend)

definition rdr_ok :: "ReadResponse \<Rightarrow> bool" where
  "rdr_ok q \<longleftrightarrow> fits32 (rdr_result q)"

interpretation rdr: codec EncodeReadResponse ReadReadResponse rdr_ok
  by unfold_locales
    (auto simp: EncodeReadResponse_def ReadReadResponse_def msg_reads msg_codecs rdr_ok_def intro!: msg_extend)

interpretation dcq: codec EncodeDescribeClusterRequest ReadDescribeClusterRequest "\<lambda>_. True"
  by unfold_locales
    (auto simp: EncodeDescribeClusterRequest_def ReadDescribeClusterRequest_def msg_reads msg_codecs intro!: msg_extend)

definition dcr_ok :: "DescribeClusterResponse \<Rightarrow> bool" where
  "dcr_ok q \<longleftrightarrow> fits32 (host (dcr_own_address q)) \<and> peers_ok (dcr_peers q)"

interpretation dcr: codec EncodeDescribeClusterResponse ReadDescribeClusterResponse dcr_ok
  by unfold_locales
    (auto simp: EncodeDescribeClusterResponse_def ReadDescribeClusterResponse_def msg_reads msg_codecs dcr_ok_def intro!: msg_extend)

section \<open>Decoding by tag\<close>

datatype raft_message =
    MRequestVoteRequest RequestVoteRequest
  | MRequestVoteResponse RequestVoteResponse
  | MAppendEntriesRequest AppendEntriesRequest
  | MAppendEntriesResponse AppendEntriesResponse
  | MClientRequest ClientRequest
  | MClientResponse ClientResponse
  | MInstallSnapshotRequest InstallSnapshotRequest
  | MInstallSnapshotResponse InstallSnapshotResponse
  | MReadRequest ReadRequest
  | MReadResponse ReadResponse
  | MDescribeClusterRequest unit
  | MDescribeClusterResponse DescribeClusterResponse

fun encode_message :: "raft_message \<Rightarrow> string" where
  "encode_message (MRequestVoteRequest q) = EncodeRequestVoteRequest q"
| "encode_message (MRequestVoteResponse q) = EncodeRequestVoteResponse q"
| "encode_message (MAppendEntriesRequest q) = EncodeAppendEntriesRequest q"
| "encode_message (MAppendEntriesResponse q) = EncodeAppendEntriesResponse q"
| "encode_message (MClientRequest q) = EncodeClientRequest q"
| "encode_message (MClientResponse q) = EncodeClientResponse q"
| "encode_message (MInstallSnapshotRequest q) = EncodeInstallSnapshotRequest q"
| "encode_message (MInstallSnapshotResponse q) = EncodeInstallSnapshotResponse q"
| "encode_message (MReadRequest q) = EncodeReadRequest q"
| "encode_message (MReadResponse q) = EncodeReadResponse q"
| "encode_message (MDescribeClusterRequest q) = EncodeDescribeClusterRequest q"
| "encode_message (MDescribeClusterResponse q) = EncodeDescribeClusterResponse q"

fun message_ok :: "raft_message \<Rightarrow> bool" where
  "message_ok (MRequestVoteRequest q) = rvq_ok q"
| "message_ok (MRequestVoteResponse q) = rvr_ok q"
| "message_ok (MAppendEntriesRequest q) = aeq_ok q"
| "message_ok (MAppendEntriesResponse q) = aer_ok q"
| "message_ok (MClientRequest q) = crq_ok q"
| "message_ok (MClientResponse q) = crr_ok q"
| "message_ok (MInstallSnapshotRequest q) = isq_ok q"
| "message_ok (MInstallSnapshotResponse q) = isr_ok q"
| "message_ok (MReadRequest q) = rdq_ok q"
| "message_ok (MReadResponse q) = rdr_ok q"
| "message_ok (MDescribeClusterRequest q) = True"
| "message_ok (MDescribeClusterResponse q) = dcr_ok q"

text \<open>The receiver of a body peeks at its tag and calls the decoder of that message.\<close>

definition decode_message :: "string \<Rightarrow> raft_message res" where
  "decode_message body = rbind (PeekMessageType body) (\<lambda>t.
     if t = kRequestVoteRequest then rbind (DecodeRequestVoteRequest body) (\<lambda>q. Inr (MRequestVoteRequest q))
     else if t = kRequestVoteResponse then rbind (DecodeRequestVoteResponse body) (\<lambda>q. Inr (MRequestVoteResponse q))
     else if t = kAppendEntriesRequest then rbind (DecodeAppendEntriesRequest body) (\<lambda>q. Inr (MAppendEntriesRequest q))
     else if t = kAppendEntriesResponse then rbind (DecodeAppendEntriesResponse body) (\<lambda>q. Inr (MAppendEntriesResponse q))
     else if t = kClientRequest then rbind (DecodeClientRequest body) (\<lambda>q. Inr (MClientRequest q))
     else if t = kClientResponse then rbind (DecodeClientResponse body) (\<lambda>q. Inr (MClientResponse q))
     else if t = kInstallSnapshotRequest then rbind (DecodeInstallSnapshotRequest body) (\<lambda>q. Inr (MInstallSnapshotRequest q))
     else if t = kInstallSnapshotResponse then rbind (DecodeInstallSnapshotResponse body) (\<lambda>q. Inr (MInstallSnapshotResponse q))
     else if t = kReadRequest then rbind (DecodeReadRequest body) (\<lambda>q. Inr (MReadRequest q))
     else if t = kReadResponse then rbind (DecodeReadResponse body) (\<lambda>q. Inr (MReadResponse q))
     else if t = kDescribeClusterRequest then rbind (DecodeDescribeClusterRequest body) (\<lambda>q. Inr (MDescribeClusterRequest q))
     else if t = kDescribeClusterResponse then rbind (DecodeDescribeClusterResponse body) (\<lambda>q. Inr (MDescribeClusterResponse q))
     else Inl (RuntimeError ''unknown message type''))"

lemmas encode_defs = EncodeRequestVoteRequest_def EncodeRequestVoteResponse_def EncodeAppendEntriesRequest_def EncodeAppendEntriesResponse_def EncodeClientRequest_def EncodeClientResponse_def EncodeInstallSnapshotRequest_def EncodeInstallSnapshotResponse_def EncodeReadRequest_def EncodeReadResponse_def EncodeDescribeClusterRequest_def EncodeDescribeClusterResponse_def
lemmas decode_defs = DecodeRequestVoteRequest_def DecodeRequestVoteResponse_def DecodeAppendEntriesRequest_def DecodeAppendEntriesResponse_def DecodeClientRequest_def DecodeClientResponse_def DecodeInstallSnapshotRequest_def DecodeInstallSnapshotResponse_def DecodeReadRequest_def DecodeReadResponse_def DecodeDescribeClusterRequest_def DecodeDescribeClusterResponse_def
lemmas decode_encodes = rvq.dec_enc_Nil rvr.dec_enc_Nil aeq.dec_enc_Nil aer.dec_enc_Nil crq.dec_enc_Nil crr.dec_enc_Nil isq.dec_enc_Nil isr.dec_enc_Nil rdq.dec_enc_Nil rdr.dec_enc_Nil dcq.dec_enc_Nil dcr.dec_enc_Nil
lemmas decode_truncated =
    rvq.truncated_rejected
    rvr.truncated_rejected
    aeq.truncated_rejected
    aer.truncated_rejected
    crq.truncated_rejected
    crr.truncated_rejected
    isq.truncated_rejected
    isr.truncated_rejected
    rdq.truncated_rejected
    rdr.truncated_rejected
    dcq.truncated_rejected
    dcr.truncated_rejected

lemma Peek_put_u8 [simp]: "PeekMessageType (put_u8 t @ r) = Inr t" "PeekMessageType (put_u8 t) = Inr t"
proof -
  have b: "put_u8 t = [char_of (unat t)]" by (simp add: put_u8_def)
  have "unat t < 256" using unsigned_less [of t, where 'a = nat] by simp
  then show "PeekMessageType (put_u8 t @ r) = Inr t" "PeekMessageType (put_u8 t) = Inr t"
    by (simp_all add: PeekMessageType_def b)
qed

lemma Peek_prefix:
  assumes "prefix p b" and "p \<noteq> []"
  shows "PeekMessageType p = PeekMessageType b"
  using assms by (cases p) (auto simp: PeekMessageType_def prefix_def)

fun message_tag :: "raft_message \<Rightarrow> MessageType" where
  "message_tag (MRequestVoteRequest q) = kRequestVoteRequest"
| "message_tag (MRequestVoteResponse q) = kRequestVoteResponse"
| "message_tag (MAppendEntriesRequest q) = kAppendEntriesRequest"
| "message_tag (MAppendEntriesResponse q) = kAppendEntriesResponse"
| "message_tag (MClientRequest q) = kClientRequest"
| "message_tag (MClientResponse q) = kClientResponse"
| "message_tag (MInstallSnapshotRequest q) = kInstallSnapshotRequest"
| "message_tag (MInstallSnapshotResponse q) = kInstallSnapshotResponse"
| "message_tag (MReadRequest q) = kReadRequest"
| "message_tag (MReadResponse q) = kReadResponse"
| "message_tag (MDescribeClusterRequest q) = kDescribeClusterRequest"
| "message_tag (MDescribeClusterResponse q) = kDescribeClusterResponse"

lemma Peek_encode: "PeekMessageType (encode_message m) = Inr (message_tag m)"
  by (cases m) (simp_all add: encode_defs)

lemma srun_Inr: "d s = Inr (x, r) \<Longrightarrow> srun d s = Inr x"
  by (simp add: srun_def)

lemma srun_Inl: "d s = Inl e \<Longrightarrow> srun d s = Inl e"
  by (simp add: srun_def)

lemma srun_rejects: "\<exists>e. d p = Inl e \<Longrightarrow> \<exists>e. rbind (srun d p) f = Inl e"
  by (auto simp: srun_def)

section \<open>Properties\<close>

text \<open>C29. Every message that is encoded and received whole is decoded, by its tag, to the message that was
  sent: all twelve kinds, with any number of log entries and any membership map.\<close>

theorem message_roundtrip:
  assumes "message_ok m"
  shows "decode_message (encode_message m) = Inr m"
  using assms Peek_encode [of m]
  by (cases m) (simp_all add: decode_message_def decode_defs srun_def decode_encodes)

theorem message_roundtrip_witness:
  "decode_message (encode_message (MAppendEntriesRequest \<lparr>aeq_term = 3, aeq_leader_id = 1,
     aeq_prev_log_index = 4, aeq_prev_log_term = 2,
     aeq_entries = [\<lparr>le_index = 5, le_term = 3, le_command = ''x''\<rparr>], aeq_leader_commit = 4\<rparr>))
   = Inr (MAppendEntriesRequest \<lparr>aeq_term = 3, aeq_leader_id = 1,
     aeq_prev_log_index = 4, aeq_prev_log_term = 2,
     aeq_entries = [\<lparr>le_index = 5, le_term = 3, le_command = ''x''\<rparr>], aeq_leader_commit = 4\<rparr>)"
  by (rule message_roundtrip) (simp add: aeq_ok_def index_ok_def entry_ok_def fits32_def)

text \<open>A message cut short anywhere is rejected with an exception, never decoded to something else.\<close>

theorem message_truncated_rejected:
  assumes "message_ok m" and "strict_prefix p (encode_message m)"
  shows "\<exists>e. decode_message p = Inl e"
proof (cases "p = []")
  case True
  then show ?thesis by (simp add: decode_message_def PeekMessageType_def)
next
  case False
  have "prefix p (encode_message m)" using assms(2) by (simp add: strict_prefix_def)
  then have "PeekMessageType p = Inr (message_tag m)" using Peek_prefix False Peek_encode by metis
  then show ?thesis
    using assms
    by (cases m)
      (simp_all add: decode_message_def decode_defs srun_rejects decode_truncated)
qed

theorem message_truncated_rejected_witness:
  "\<exists>e. decode_message (take 4 (encode_message (MReadRequest \<lparr>rdq_query = ''SELECT''\<rparr>))) = Inl e"
proof (rule message_truncated_rejected)
  show "strict_prefix (take 4 (encode_message (MReadRequest \<lparr>rdq_query = ''SELECT''\<rparr>)))
      (encode_message (MReadRequest \<lparr>rdq_query = ''SELECT''\<rparr>))"
    by (rule strict_prefix_take) (simp add: EncodeReadRequest_def)
qed (simp add: rdq_ok_def fits32_def)

end
