(* ===== verification/Raft_Log.thy ===== *)
theory Raft_Log
  imports Message Ifstream
begin

text \<open>
  \<^verbatim>\<open>src/raft/log.cpp\<close>: the replicated log.  The record has the class's fields and \<open>lg_file\<close>, the
  bytes of the log file; \<^verbatim>\<open>Save\<close> rewrites it (through a temporary file and a rename, so that a crash
  leaves the old or the new bytes).  Indices and terms are natural numbers, encoded as 64-bit words.

  Shown: entries are contiguous from the snapshot boundary under every operation; accepting an
  \<^verbatim>\<open>AppendEntries\<close> makes the log agree with the leader's entries, never truncates entries that
  already agree, and is idempotent; compaction keeps every entry after the boundary; the file always holds
  the state, and loading it gives it back.
\<close>

record RaftLog =
  snapshot_index :: LogIndex
  snapshot_term :: Term
  lg_entries :: "LogEntry list"
  applied_index :: LogIndex
  lg_file :: "string option"

definition log_new :: RaftLog where
  "log_new = \<lparr>snapshot_index = 0, snapshot_term = 0, lg_entries = [], applied_index = 0, lg_file = None\<rparr>"

definition log_bytes :: "RaftLog \<Rightarrow> string" where
  "log_bytes l = put_index (snapshot_index l) @ put_index (snapshot_term l) @
     put_u32 (of_nat (length (lg_entries l))) @
     concat (map (\<lambda>e. put_index (le_index e) @ put_index (le_term e) @
       put_u32 (of_nat (length (le_command e))) @ le_command e) (lg_entries l)) @
     put_index (applied_index l)"

definition log_Save :: "RaftLog \<Rightarrow> RaftLog" where
  "log_Save l = l\<lparr>lg_file := Some (log_bytes l)\<rparr>"

fun load_entries :: "nat \<Rightarrow> ifstream \<Rightarrow> LogEntry list \<times> ifstream" where
  "load_entries 0 s = ([], s)"
| "load_entries (Suc n) s =
     (let (i, s) = ReadRaw_index s;
          (t, s) = ReadRaw_index s;
          (len, s) = ReadRaw_u32 s;
          (c, s) = ifs_read (unat len) s;
          (es, s) = load_entries n s
      in (\<lparr>le_index = i, le_term = t, le_command = c\<rparr> # es, s))"

definition log_Load :: "string option \<Rightarrow> RaftLog" where
  "log_Load file = (case file of
       None \<Rightarrow> log_new
     | Some bytes \<Rightarrow>
         let s = ifs_open bytes;
             (si, s) = ReadRaw_index s;
             (st, s) = ReadRaw_index s;
             (count, s) = ReadRaw_u32 s;
             (es, s) = load_entries (unat count) s;
             (ai, s) = ReadRaw_index s
         in \<lparr>snapshot_index = si, snapshot_term = st, lg_entries = es,
             applied_index = (if ifs_fail s then si else ai), lg_file = Some bytes\<rparr>)"

definition LastIndex :: "RaftLog \<Rightarrow> LogIndex" where
  "LastIndex l = (if lg_entries l = [] then snapshot_index l else le_index (last (lg_entries l)))"

definition LastTerm :: "RaftLog \<Rightarrow> Term" where
  "LastTerm l = (if lg_entries l = [] then snapshot_term l else le_term (last (lg_entries l)))"

definition TermAt :: "RaftLog \<Rightarrow> LogIndex \<Rightarrow> Term" where
  "TermAt l index =
     (if index = snapshot_index l then snapshot_term l
      else if index < snapshot_index l \<or> LastIndex l < index then 0
      else le_term (lg_entries l ! (index - snapshot_index l - 1)))"

definition At :: "RaftLog \<Rightarrow> LogIndex \<Rightarrow> LogEntry option" where
  "At l index =
     (if index \<le> snapshot_index l \<or> LastIndex l < index then None
      else Some (lg_entries l ! (index - snapshot_index l - 1)))"

definition log_Append :: "Term \<Rightarrow> string \<Rightarrow> RaftLog \<Rightarrow> LogIndex \<times> RaftLog" where
  "log_Append term command l =
     (let e = \<lparr>le_index = LastIndex l + 1, le_term = term, le_command = command\<rparr>;
          l = log_Save (l\<lparr>lg_entries := lg_entries l @ [e]\<rparr>)
      in (le_index (last (lg_entries l)), l))"

fun append_loop :: "LogIndex \<Rightarrow> LogEntry list \<Rightarrow> bool \<Rightarrow> RaftLog \<Rightarrow> bool \<times> RaftLog" where
  "append_loop idx [] changed l = (changed, l)"
| "append_loop idx (e # es) changed l =
     (if idx \<le> snapshot_index l then append_loop (idx + 1) es changed l
      else
        let pos = idx - snapshot_index l - 1
        in if pos < length (lg_entries l) \<and> le_term (lg_entries l ! pos) = le_term e
           then append_loop (idx + 1) es changed l
           else append_loop (idx + 1) es True
                  (l\<lparr>lg_entries := (if pos < length (lg_entries l) then take pos (lg_entries l) else lg_entries l)
                       @ [e\<lparr>le_index := idx\<rparr>]\<rparr>))"

definition AppendEntriesFrom :: "LogIndex \<Rightarrow> Term \<Rightarrow> LogEntry list \<Rightarrow> RaftLog \<Rightarrow> bool \<times> RaftLog" where
  "AppendEntriesFrom prev_log_index prev_log_term es l =
     (if 0 < prev_log_index \<and> TermAt l prev_log_index \<noteq> prev_log_term then (False, l)
      else let (changed, l) = append_loop (prev_log_index + 1) es False l
           in (True, if changed then log_Save l else l))"

definition CompactTo :: "LogIndex \<Rightarrow> Term \<Rightarrow> RaftLog \<Rightarrow> RaftLog" where
  "CompactTo last_included_index last_included_term l =
     (if last_included_index \<le> snapshot_index l then l
      else
        let es = (if last_included_index \<le> LastIndex l \<and> TermAt l last_included_index = last_included_term
                  then drop (last_included_index - snapshot_index l) (lg_entries l) else [])
        in log_Save (l\<lparr>lg_entries := es, snapshot_index := last_included_index,
             snapshot_term := last_included_term\<rparr>))"

definition SetAppliedIndex :: "LogIndex \<Rightarrow> RaftLog \<Rightarrow> RaftLog" where
  "SetAppliedIndex index l = log_Save (l\<lparr>applied_index := index\<rparr>)"

section \<open>The invariant\<close>

definition log_ok :: "RaftLog \<Rightarrow> bool" where
  "log_ok l \<longleftrightarrow> (\<forall>i < length (lg_entries l). le_index (lg_entries l ! i) = snapshot_index l + 1 + i)"

text \<open>The file is in step with the state: it was written by the last change, or there was none.\<close>

definition log_synced :: "RaftLog \<Rightarrow> bool" where
  "log_synced l \<longleftrightarrow> (case lg_file l of None \<Rightarrow> l = log_new | Some b \<Rightarrow> b = log_bytes l)"

lemma log_ok_nth: "log_ok l \<Longrightarrow> i < length (lg_entries l) \<Longrightarrow> le_index (lg_entries l ! i) = snapshot_index l + 1 + i"
  by (simp add: log_ok_def)

lemma LastIndex_eq: "log_ok l \<Longrightarrow> LastIndex l = snapshot_index l + length (lg_entries l)"
  by (auto simp: LastIndex_def last_conv_nth log_ok_nth)

lemma At_eq:
  assumes "log_ok l"
  shows "At l i = (if i \<le> snapshot_index l \<or> snapshot_index l + length (lg_entries l) < i then None
                   else Some (lg_entries l ! (i - snapshot_index l - 1)))"
  by (simp add: At_def LastIndex_eq [OF assms])

lemma At_offset:
  assumes "log_ok l" and "p < length (lg_entries l)"
  shows "At l (snapshot_index l + 1 + p) = Some (lg_entries l ! p)"
    and "TermAt l (snapshot_index l + 1 + p) = le_term (lg_entries l ! p)"
  using assms by (simp_all add: At_def TermAt_def LastIndex_eq)

lemma At_Some:
  "log_ok l \<Longrightarrow> At l i = Some e \<Longrightarrow>
     snapshot_index l < i \<and> i \<le> LastIndex l \<and> le_index e = i \<and> TermAt l i = le_term e"
  by (auto simp: At_def TermAt_def LastIndex_eq log_ok_nth split: if_splits)

lemma log_Save_simps [simp]:
  "snapshot_index (log_Save l) = snapshot_index l" "snapshot_term (log_Save l) = snapshot_term l"
  "lg_entries (log_Save l) = lg_entries l" "applied_index (log_Save l) = applied_index l"
  "LastIndex (log_Save l) = LastIndex l" "TermAt (log_Save l) i = TermAt l i" "At (log_Save l) i = At l i"
  by (simp_all add: log_Save_def LastIndex_def TermAt_def At_def)

lemma log_ok_Save [simp]: "log_ok (log_Save l) = log_ok l"
  by (simp add: log_ok_def)

lemma log_synced_Save [simp]: "log_synced (log_Save l)"
  by (simp add: log_synced_def log_Save_def log_bytes_def)

lemma log_ok_new [simp]: "log_ok log_new" and log_synced_new [simp]: "log_synced log_new"
  by (simp_all add: log_ok_def log_new_def log_synced_def)

lemma log_ok_snoc:
  assumes "log_ok l"
  shows "log_ok (l\<lparr>lg_entries := take n (lg_entries l)\<rparr>)"
    and "n \<le> length (lg_entries l) \<Longrightarrow> le_index e = snapshot_index l + 1 + n \<Longrightarrow>
         log_ok (l\<lparr>lg_entries := take n (lg_entries l) @ [e]\<rparr>)"
  using assms by (auto simp: log_ok_def nth_append less_Suc_eq)

lemma log_Append_spec:
  assumes "log_ok l"
  shows "fst (log_Append t c l) = LastIndex l + 1" and "log_ok (snd (log_Append t c l))"
    and "log_synced (snd (log_Append t c l))"
    and "lg_entries (snd (log_Append t c l)) = lg_entries l @ [\<lparr>le_index = LastIndex l + 1, le_term = t, le_command = c\<rparr>]"
  using log_ok_snoc(2) [OF assms, of "length (lg_entries l)"] LastIndex_eq [OF assms]
  by (simp_all add: log_Append_def Let_def)

section \<open>Accepting entries\<close>

text \<open>A closed form of the loop: the entries of the message whose terms agree with the log are skipped;
  from the first that does not, the log is cut and the rest of the message pushed.\<close>

fun reindex :: "LogIndex \<Rightarrow> LogEntry list \<Rightarrow> LogEntry list" where
  "reindex n [] = []"
| "reindex n (e # es) = e\<lparr>le_index := n\<rparr> # reindex (Suc n) es"

fun matching :: "LogEntry list \<Rightarrow> LogEntry list \<Rightarrow> nat" where
  "matching (x # xs) (e # es) = (if le_term x = le_term e then Suc (matching xs es) else 0)"
| "matching _ _ = 0"

lemma length_reindex [simp]: "length (reindex n es) = length es"
  by (induction es arbitrary: n) auto

lemma nth_reindex [simp]: "i < length es \<Longrightarrow> reindex n es ! i = (es ! i)\<lparr>le_index := n + i\<rparr>"
  by (induction es arbitrary: n i) (auto simp: nth_Cons split: nat.split)

lemma matching_le: "matching xs es \<le> length xs" "matching xs es \<le> length es"
  by (induction xs es rule: matching.induct) auto

lemma matching_terms: "i < matching xs es \<Longrightarrow> le_term (xs ! i) = le_term (es ! i)"
  by (induction xs es arbitrary: i rule: matching.induct) (auto simp: nth_Cons split: if_splits nat.split)

lemma matching_max:
  "matching xs es < length es \<Longrightarrow> matching xs es < length xs \<Longrightarrow>
     le_term (xs ! matching xs es) \<noteq> le_term (es ! matching xs es)"
  by (induction xs es rule: matching.induct) auto

lemma append_loop_step:
  assumes "idx = snapshot_index l + 1 + pos"
  shows "append_loop idx (e # es) ch l =
    (if pos < length (lg_entries l) \<and> le_term (lg_entries l ! pos) = le_term e
     then append_loop (Suc idx) es ch l
     else append_loop (Suc idx) es True (l\<lparr>lg_entries := take pos (lg_entries l) @ [e\<lparr>le_index := idx\<rparr>]\<rparr>))"
  using assms by simp

lemma append_loop_push:
  "idx = snapshot_index l + 1 + length (lg_entries l) \<Longrightarrow>
     append_loop idx es ch l = (ch \<or> es \<noteq> [], l\<lparr>lg_entries := lg_entries l @ reindex idx es\<rparr>)"
proof (induction es arbitrary: idx ch l)
  case (Cons e es)
  show ?case
    unfolding append_loop_step [OF Cons.prems]
    using Cons.IH [of "Suc idx" "l\<lparr>lg_entries := lg_entries l @ [e\<lparr>le_index := idx\<rparr>]\<rparr>" True] Cons.prems
    by simp
qed simp

lemma append_loop_closed:
  assumes "idx = snapshot_index l + 1 + pos" and "pos \<le> length (lg_entries l)"
    and "j = matching (drop pos (lg_entries l)) es"
  shows "append_loop idx es ch l =
    (if j = length es then (ch, l)
     else (True, l\<lparr>lg_entries := take (pos + j) (lg_entries l) @ reindex (idx + j) (drop j es)\<rparr>))"
  using assms
proof (induction es arbitrary: idx pos ch j)
  case (Cons e es)
  show ?case
  proof (cases "pos < length (lg_entries l) \<and> le_term (lg_entries l ! pos) = le_term e")
    case True
    then have d: "drop pos (lg_entries l) = lg_entries l ! pos # drop (Suc pos) (lg_entries l)"
      by (simp add: Cons_nth_drop_Suc)
    show ?thesis
      unfolding append_loop_step [OF Cons.prems(1)]
      using True Cons.IH [of "Suc idx" "Suc pos" "matching (drop (Suc pos) (lg_entries l)) es" ch] Cons.prems(1)
      by (simp add: Cons.prems(3) d)
  next
    case False
    then have j: "j = 0"
      unfolding Cons.prems(3) by (cases "drop pos (lg_entries l)") (auto simp: nth_via_drop)
    have "append_loop (Suc idx) es True (l\<lparr>lg_entries := take pos (lg_entries l) @ [e\<lparr>le_index := idx\<rparr>]\<rparr>)
        = (True, l\<lparr>lg_entries := take pos (lg_entries l) @ [e\<lparr>le_index := idx\<rparr>] @ reindex (Suc idx) es\<rparr>)"
      using Cons.prems by (subst append_loop_push) auto
    then show ?thesis
      unfolding append_loop_step [OF Cons.prems(1)] using False by (auto simp: j)
  qed
qed simp

lemma append_loop_snapshot [simp]:
  "snapshot_index (snd (append_loop idx es ch l)) = snapshot_index l"
  "snapshot_term (snd (append_loop idx es ch l)) = snapshot_term l"
  "applied_index (snd (append_loop idx es ch l)) = applied_index l"
  by (induction es arbitrary: idx ch l) (simp_all add: Let_def)

lemma append_loop_skip:
  "idx \<le> snapshot_index l + 1 \<Longrightarrow>
     append_loop idx es ch l = append_loop (snapshot_index l + 1) (drop (snapshot_index l + 1 - idx) es) ch l"
proof (induction es arbitrary: idx)
  case (Cons e es)
  show ?case
  proof (cases "idx = snapshot_index l + 1")
    case False
    then have idx: "idx \<le> snapshot_index l" using Cons.prems by simp
    then have "drop (snapshot_index l + 1 - idx) (e # es) = drop (snapshot_index l + 1 - Suc idx) es"
      by (simp add: Suc_diff_le)
    with idx Cons.IH [of "Suc idx"] show ?thesis by simp
  qed simp
qed simp

section \<open>What accepting a message does\<close>

text \<open>The part of a message beyond the snapshot boundary, and its position in the log.\<close>

definition msg_tail :: "RaftLog \<Rightarrow> LogIndex \<Rightarrow> LogEntry list \<Rightarrow> LogEntry list" where
  "msg_tail l prev es = drop (snapshot_index l - prev) es"

lemma AppendEntries_closed:
  fixes l :: RaftLog and es :: "LogEntry list"
  assumes "log_ok l" and "prev \<le> LastIndex l" and "prev = 0 \<or> TermAt l prev = pterm"
  defines "pos \<equiv> prev - snapshot_index l" and "t \<equiv> msg_tail l prev es"
  defines "j \<equiv> matching (drop pos (lg_entries l)) t"
  shows "AppendEntriesFrom prev pterm es l =
    (True, if j = length t then l
           else log_Save (l\<lparr>lg_entries := take (pos + j) (lg_entries l) @
                  reindex (snapshot_index l + 1 + pos + j) (drop j t)\<rparr>))"
proof -
  have pos: "pos \<le> length (lg_entries l)" using assms(2) by (simp add: pos_def LastIndex_eq [OF assms(1)])
  have "append_loop (prev + 1) es False l = append_loop (snapshot_index l + 1 + pos) t False l"
  proof (cases "prev \<le> snapshot_index l")
    case True
    then show ?thesis
      using append_loop_skip [of "prev + 1" l es False] by (simp add: pos_def t_def msg_tail_def)
  next
    case False
    then show ?thesis by (simp add: pos_def t_def msg_tail_def)
  qed
  then show ?thesis
    using assms(3) append_loop_closed [OF refl pos j_def [THEN meta_eq_to_obj_eq], of False]
    by (auto simp: AppendEntriesFrom_def)
qed

lemma log_ok_replace:
  assumes "log_ok l" and "n \<le> length (lg_entries l)"
  shows "log_ok (l\<lparr>lg_entries := take n (lg_entries l) @ reindex (snapshot_index l + 1 + n) es\<rparr>)"
  using assms by (auto simp: log_ok_def nth_append)

lemma AppendEntries_ok:
  assumes "log_ok l" and "log_synced l" and "prev \<le> LastIndex l"
  shows "log_ok (snd (AppendEntriesFrom prev pterm es l))" and "log_synced (snd (AppendEntriesFrom prev pterm es l))"
proof -
  let ?pos = "prev - snapshot_index l" and ?t = "msg_tail l prev es"
  let ?j = "matching (drop ?pos (lg_entries l)) ?t"
  have "?pos + ?j \<le> length (lg_entries l)"
    using matching_le(1) [of "drop ?pos (lg_entries l)" ?t] assms(3) LastIndex_eq [OF assms(1)] by simp
  from log_ok_replace [OF assms(1) this, of "drop ?j ?t"]
  have "log_ok (l\<lparr>lg_entries := take (?pos + ?j) (lg_entries l) @
      reindex (snapshot_index l + 1 + ?pos + ?j) (drop ?j ?t)\<rparr>)" by (simp add: add.assoc)
  with AppendEntries_closed [OF assms(1,3), of pterm es] assms
  show "log_ok (snd (AppendEntriesFrom prev pterm es l))" "log_synced (snd (AppendEntriesFrom prev pterm es l))"
    by (auto simp: AppendEntriesFrom_def)
qed

lemma AppendEntries_fields [simp]:
  "snapshot_index (snd (AppendEntriesFrom prev pterm es l)) = snapshot_index l"
  "snapshot_term (snd (AppendEntriesFrom prev pterm es l)) = snapshot_term l"
  "applied_index (snd (AppendEntriesFrom prev pterm es l)) = applied_index l"
  using append_loop_snapshot [of "prev + 1" es False l]
  by (cases "append_loop (prev + 1) es False l"; simp add: AppendEntriesFrom_def)+

lemma CompactTo_ok:
  assumes "log_ok l"
  shows "log_ok (CompactTo i t l)" and "log_synced l \<Longrightarrow> log_synced (CompactTo i t l)"
  using assms by (auto simp: CompactTo_def log_ok_def Let_def LastIndex_eq)

lemma SetAppliedIndex_ok [simp]:
  "log_ok (SetAppliedIndex i l) = log_ok l" "log_synced (SetAppliedIndex i l)"
  by (simp_all add: SetAppliedIndex_def) (simp add: log_ok_def)

text \<open>The entry at a position after accepting a message.\<close>

lemma AppendEntries_entries:
  fixes l :: RaftLog and es :: "LogEntry list"
  assumes "log_ok l" and "prev \<le> LastIndex l" and "prev = 0 \<or> TermAt l prev = pterm"
  defines "pos \<equiv> prev - snapshot_index l" and "t \<equiv> msg_tail l prev es"
    and "l' \<equiv> snd (AppendEntriesFrom prev pterm es l)"
  defines "j \<equiv> matching (drop pos (lg_entries l)) t"
  shows "lg_entries l' = (if j = length t then lg_entries l
     else take (pos + j) (lg_entries l) @ reindex (snapshot_index l + 1 + pos + j) (drop j t))"
  using AppendEntries_closed [OF assms(1-3), of es] by (simp add: j_def l'_def t_def pos_def)

lemma AppendEntries_kept:
  assumes "log_ok l" and "prev \<le> LastIndex l" and "prev = 0 \<or> TermAt l prev = pterm"
    and "i < length (lg_entries l)"
    and "\<forall>k < length (msg_tail l prev es). prev - snapshot_index l + k \<le> i \<longrightarrow>
           le_term (lg_entries l ! (prev - snapshot_index l + k)) = le_term (msg_tail l prev es ! k)"
  defines "l' \<equiv> snd (AppendEntriesFrom prev pterm es l)"
  shows "i < length (lg_entries l') \<and> lg_entries l' ! i = lg_entries l ! i"
proof -
  define pos where "pos = prev - snapshot_index l"
  define t where "t = msg_tail l prev es"
  define j where "j = matching (drop pos (lg_entries l)) t"
  have pos: "pos \<le> length (lg_entries l)" using assms(2) by (simp add: pos_def LastIndex_eq [OF assms(1)])
  have "i < pos + j" if "j \<noteq> length t"
  proof (rule ccontr)
    assume "\<not> i < pos + j"
    moreover have "j < length t" using that matching_le(2) [of "drop pos (lg_entries l)" t] by (simp add: j_def)
    ultimately have "le_term (lg_entries l ! (pos + j)) = le_term (t ! j)" "j < length (drop pos (lg_entries l))"
      using assms(4,5) by (auto simp: pos_def t_def)
    with matching_max [of "drop pos (lg_entries l)" t] \<open>j < length t\<close> pos show False
      by (simp add: j_def)
  qed
  with AppendEntries_entries [OF assms(1-3), of es] assms(4) show ?thesis
    by (auto simp: l'_def pos_def t_def j_def nth_append)
qed

lemma AppendEntries_accepted:
  assumes "log_ok l" and "prev \<le> LastIndex l" and "prev = 0 \<or> TermAt l prev = pterm"
    and "k < length (msg_tail l prev es)"
    and "\<And>k. k < length (msg_tail l prev es) \<Longrightarrow> prev - snapshot_index l + k < length (lg_entries l) \<Longrightarrow>
           le_term (lg_entries l ! (prev - snapshot_index l + k)) = le_term (msg_tail l prev es ! k) \<Longrightarrow>
           le_command (lg_entries l ! (prev - snapshot_index l + k)) = le_command (msg_tail l prev es ! k)"
  defines "l' \<equiv> snd (AppendEntriesFrom prev pterm es l)" and "p \<equiv> prev - snapshot_index l + k"
  shows "p < length (lg_entries l') \<and>
    lg_entries l' ! p = (msg_tail l prev es ! k)\<lparr>le_index := snapshot_index l + 1 + p\<rparr>"
proof -
  define pos where "pos = prev - snapshot_index l"
  define t where "t = msg_tail l prev es"
  define j where "j = matching (drop pos (lg_entries l)) t"
  have pos: "pos \<le> length (lg_entries l)" using assms(2) by (simp add: pos_def LastIndex_eq [OF assms(1)])
  note e = AppendEntries_entries [OF assms(1-3), of es, folded pos_def t_def, folded j_def l'_def]
  have jl: "j \<le> length t" "pos + j \<le> length (lg_entries l)"
    using matching_le [of "drop pos (lg_entries l)" t] pos by (simp_all add: j_def)
  show ?thesis
  proof (cases "k < j")
    case True
    then have len: "p < length (lg_entries l)" using jl by (simp add: p_def pos_def [symmetric])
    have "le_term (lg_entries l ! p) = le_term (t ! k)"
      using matching_terms [of k "drop pos (lg_entries l)" t] True pos
      by (simp add: j_def p_def pos_def [symmetric])
    moreover from this have "le_command (lg_entries l ! p) = le_command (t ! k)"
      using assms(4,5) len by (simp add: p_def t_def)
    moreover have "le_index (lg_entries l ! p) = snapshot_index l + 1 + p" by (rule log_ok_nth [OF assms(1) len])
    moreover have "p < length (lg_entries l') \<and> lg_entries l' ! p = lg_entries l ! p"
      using True len e by (auto simp: p_def pos_def [symmetric] nth_append)
    ultimately show ?thesis by (simp add: t_def [symmetric])
  next
    case False
    then have "j \<noteq> length t" using assms(4) by (simp add: t_def)
    with e have "lg_entries l' = take (pos + j) (lg_entries l) @ reindex (snapshot_index l + 1 + pos + j) (drop j t)"
      by simp
    moreover have "k - j < length (drop j t)" "p = pos + j + (k - j)" "j + (k - j) = k"
      using False assms(4) by (auto simp: t_def p_def pos_def)
    ultimately show ?thesis
      using jl by (simp add: nth_append t_def [symmetric] min_def)
  qed
qed

section \<open>Saving and loading\<close>

definition log_storable :: "RaftLog \<Rightarrow> bool" where
  "log_storable l \<longleftrightarrow> index_ok (snapshot_index l) \<and> index_ok (snapshot_term l) \<and> index_ok (applied_index l) \<and>
     fits32 (lg_entries l) \<and> (\<forall>e \<in> set (lg_entries l). entry_ok e)"

lemma load_entries_stream:
  assumes "\<forall>e \<in> set es. entry_ok e"
  shows "load_entries (length es) (stream pre (concat (map (\<lambda>e. put_index (le_index e) @ put_index (le_term e) @
       put_u32 (of_nat (length (le_command e))) @ le_command e) es) @ rest))
     = (es, stream (pre @ concat (map (\<lambda>e. put_index (le_index e) @ put_index (le_term e) @
       put_u32 (of_nat (length (le_command e))) @ le_command e) es)) rest)"
  using assms
proof (induction es arbitrary: pre)
  case (Cons e es)
  then show ?case
    by (cases e) (simp add: entry_ok_def index_ok_def unat_length32)
qed simp

lemma log_Load_bytes:
  assumes "log_storable l"
  shows "log_Load (Some (log_bytes l)) = l\<lparr>lg_file := Some (log_bytes l)\<rparr>"
proof -
  have ok: "snapshot_index l < 2 ^ 64" "snapshot_term l < 2 ^ 64" "applied_index l < 2 ^ 64"
    "fits32 (lg_entries l)" "\<forall>e \<in> set (lg_entries l). entry_ok e"
    using assms by (auto simp: log_storable_def index_ok_def)
  note e = load_entries_stream [OF ok(5)]
  show ?thesis
    using ok(1-4)
    by (simp add: log_Load_def log_bytes_def [of l] ifs_open_stream unat_length32 e)
qed

section \<open>Properties\<close>

text \<open>The hypothesis of Raft's log matching: where the log and the message hold an entry of the same index and
  term, it is the same command; and the message's entries carry their indices.\<close>

definition log_matches :: "RaftLog \<Rightarrow> LogIndex \<Rightarrow> LogEntry list \<Rightarrow> bool" where
  "log_matches l prev es \<longleftrightarrow> (\<forall>k < length es. le_index (es ! k) = prev + 1 + k \<and>
     (case At l (prev + 1 + k) of None \<Rightarrow> True
      | Some x \<Rightarrow> le_term x = le_term (es ! k) \<longrightarrow> le_command x = le_command (es ! k)))"

lemma AppendEntries_agrees:
  assumes "log_ok l" and "prev \<le> LastIndex l" and "AppendEntriesFrom prev pterm es l = (True, l')"
    and "log_matches l prev es"
  shows "log_ok l' \<and>
    (\<forall>k < length es. snapshot_index l < prev + 1 + k \<longrightarrow> At l' (prev + 1 + k) = Some (es ! k)) \<and>
    (\<forall>i \<le> prev. At l' i = At l i)"
proof (intro conjI allI impI)
  have pt: "prev = 0 \<or> TermAt l prev = pterm" using assms(3) by (auto simp: AppendEntriesFrom_def split: if_splits)
  have l': "l' = snd (AppendEntriesFrom prev pterm es l)" and si: "snapshot_index l' = snapshot_index l"
    using assms(3) AppendEntries_fields(1) [of prev pterm es l] by simp_all
  let ?t = "msg_tail l prev es" and ?pos = "prev - snapshot_index l"
  have ok': "log_ok l'"
  proof -
    have "log_ok (snd (AppendEntriesFrom prev pterm es (log_Save l)))"
      by (rule AppendEntries_ok) (use assms in simp_all)
    moreover have "?pos + matching (drop ?pos (lg_entries l)) ?t \<le> length (lg_entries l)"
      using matching_le(1) [of "drop ?pos (lg_entries l)" ?t] assms(2) LastIndex_eq [OF assms(1)] by simp
    from log_ok_replace [OF assms(1) this] show ?thesis
      using AppendEntries_closed [OF assms(1,2) pt, of es] assms(1) l' by (auto simp: add.assoc)
  qed
  then show "log_ok l'" .
  have matches: "le_command (lg_entries l ! (?pos + k)) = le_command (?t ! k)"
    if k: "k < length ?t" "?pos + k < length (lg_entries l)" "le_term (lg_entries l ! (?pos + k)) = le_term (?t ! k)" for k
  proof -
    define m where "m = (snapshot_index l - prev) + k"
    have m: "m < length es" "?t ! k = es ! m" "prev + 1 + m = snapshot_index l + 1 + (?pos + k)"
      using k(1) by (auto simp: m_def msg_tail_def)
    have "At l (prev + 1 + m) = Some (lg_entries l ! (?pos + k))"
      unfolding m(3) by (rule At_offset(1) [OF assms(1) k(2)])
    moreover have "case At l (prev + 1 + m) of None \<Rightarrow> True
        | Some x \<Rightarrow> le_term x = le_term (es ! m) \<longrightarrow> le_command x = le_command (es ! m)"
      using assms(4) m(1) by (simp add: log_matches_def)
    ultimately show ?thesis using m(2) k(3) by simp
  qed
  show "At l' (prev + 1 + k) = Some (es ! k)" if k: "k < length es" "snapshot_index l < prev + 1 + k" for k
  proof -
    define m where "m = k - (snapshot_index l - prev)"
    have m: "m < length ?t" "?t ! m = es ! k" "snapshot_index l + 1 + (?pos + m) = prev + 1 + k"
      using k by (auto simp: m_def msg_tail_def)
    have "?pos + m < length (lg_entries l') \<and>
        lg_entries l' ! (?pos + m) = (?t ! m)\<lparr>le_index := snapshot_index l + 1 + (?pos + m)\<rparr>"
      unfolding l' by (rule AppendEntries_accepted [OF assms(1,2) pt m(1) matches])
    note acc = this [unfolded m(2,3)]
    moreover have "(es ! k)\<lparr>le_index := prev + 1 + k\<rparr> = es ! k" using assms(4) k(1) by (simp add: log_matches_def)
    ultimately show ?thesis
      unfolding m(3) [symmetric] using At_offset(1) [OF ok'] by (simp add: si)
  qed
  show "At l' i = At l i" if i: "i \<le> prev" for i
  proof (cases "snapshot_index l < i")
    case True
    let ?i = "i - snapshot_index l - 1"
    have len: "?i < length (lg_entries l)" using True i assms(2) LastIndex_eq [OF assms(1)] by simp
    have "?i < length (lg_entries l') \<and> lg_entries l' ! ?i = lg_entries l ! ?i"
      unfolding l' by (rule AppendEntries_kept [OF assms(1,2) pt len]) (use True i in auto)
    moreover have "i = snapshot_index l + 1 + ?i" "i = snapshot_index l' + 1 + ?i" using True si by simp_all
    ultimately show ?thesis using At_offset(1) [OF ok'] At_offset(1) [OF assms(1) len] by metis
  next
    case False
    then show ?thesis by (simp add: At_eq [OF ok'] At_eq [OF assms(1)] si)
  qed
qed

text \<open>A follower that accepts a message holds every entry of it beyond its snapshot, at the leader's
  index with the leader's term and command, and its log stays contiguous; entries up to the
  previous index are as before.\<close>

theorem append_entries_agrees:
  assumes "log_ok l" and "prev \<le> LastIndex l" and "AppendEntriesFrom prev pterm es l = (True, l')"
    and "log_matches l prev es"
  shows "log_ok l' \<and>
    (\<forall>k < length es. snapshot_index l < prev + 1 + k \<longrightarrow> At l' (prev + 1 + k) = Some (es ! k)) \<and>
    (\<forall>i \<le> prev. At l' i = At l i)"
  by (rule AppendEntries_agrees [OF assms])

definition log3 :: RaftLog where
  "log3 = \<lparr>snapshot_index = 0, snapshot_term = 0,
     lg_entries = [\<lparr>le_index = 1, le_term = 1, le_command = ''a''\<rparr>, \<lparr>le_index = 2, le_term = 1, le_command = ''b''\<rparr>,
       \<lparr>le_index = 3, le_term = 1, le_command = ''c''\<rparr>], applied_index = 0, lg_file = None\<rparr>"

lemma log3_ok: "log_ok log3"
  by (auto simp: log_ok_def log3_def less_Suc_eq nth_Cons split: nat.split)

theorem append_entries_agrees_witness:
  "let es = [\<lparr>le_index = 2, le_term = 1, le_command = ''b''\<rparr>, \<lparr>le_index = 3, le_term = 2, le_command = ''x''\<rparr>];
       l' = snd (AppendEntriesFrom 1 1 es log3)
   in log_ok l' \<and> (\<forall>k < length es. snapshot_index log3 < 1 + 1 + k \<longrightarrow> At l' (1 + 1 + k) = Some (es ! k)) \<and>
      (\<forall>i \<le> 1. At l' i = At log3 i)"
  unfolding Let_def
proof (rule append_entries_agrees [OF log3_ok])
  show "AppendEntriesFrom 1 1 [\<lparr>le_index = 2, le_term = 1, le_command = ''b''\<rparr>, \<lparr>le_index = 3, le_term = 2, le_command = ''x''\<rparr>] log3
    = (True, snd (AppendEntriesFrom 1 1 [\<lparr>le_index = 2, le_term = 1, le_command = ''b''\<rparr>, \<lparr>le_index = 3, le_term = 2, le_command = ''x''\<rparr>] log3))"
    by (simp add: AppendEntriesFrom_def log3_def TermAt_def LastIndex_def)
qed (auto simp: log3_def LastIndex_def log_matches_def At_def less_Suc_eq)

text \<open>Accepting a message removes an entry of the log only when that entry, or one before it in the range
  of the message, disagrees in term with the message; a late message that agrees removes nothing.\<close>

theorem append_entries_keeps_agreeing:
  assumes "log_ok l" and "prev \<le> LastIndex l" and "At l i = Some e"
    and "\<forall>k < length es. prev + 1 + k \<le> i \<longrightarrow> snapshot_index l < prev + 1 + k \<longrightarrow>
           TermAt l (prev + 1 + k) = le_term (es ! k)"
  shows "At (snd (AppendEntriesFrom prev pterm es l)) i = Some e"
proof (cases "prev = 0 \<or> TermAt l prev = pterm")
  case False
  then show ?thesis using assms(3) by (simp add: AppendEntriesFrom_def)
next
  case pt: True
  let ?l' = "snd (AppendEntriesFrom prev pterm es l)" and ?t = "msg_tail l prev es" and ?pos = "prev - snapshot_index l"
  have i: "snapshot_index l < i" "i - snapshot_index l - 1 < length (lg_entries l)" "lg_entries l ! (i - snapshot_index l - 1) = e"
    using assms(3) by (auto simp: At_eq [OF assms(1)] split: if_splits)
  have agree: "le_term (lg_entries l ! (?pos + k)) = le_term (?t ! k)"
    if k: "k < length ?t" "?pos + k \<le> i - snapshot_index l - 1" for k
  proof -
    define m where "m = (snapshot_index l - prev) + k"
    have m: "m < length es" "?t ! k = es ! m" "prev + 1 + m = snapshot_index l + 1 + (?pos + k)"
      using k(1) by (auto simp: m_def msg_tail_def)
    have le: "?pos + k < length (lg_entries l)" "prev + 1 + m \<le> i" "snapshot_index l < prev + 1 + m"
      using k(2) i m(3) by simp_all
    then have "TermAt l (prev + 1 + m) = le_term (es ! m)" using assms(4) m(1) by blast
    then show ?thesis
      unfolding m(2,3) At_offset(2) [OF assms(1) le(1)] .
  qed
  have kept: "i - snapshot_index l - 1 < length (lg_entries ?l') \<and>
      lg_entries ?l' ! (i - snapshot_index l - 1) = lg_entries l ! (i - snapshot_index l - 1)"
    by (rule AppendEntries_kept [OF assms(1,2) pt i(2)]) (use agree in blast)
  have "log_ok ?l'"
  proof -
    have "?pos + matching (drop ?pos (lg_entries l)) ?t \<le> length (lg_entries l)"
      using matching_le(1) [of "drop ?pos (lg_entries l)" ?t] assms(2) LastIndex_eq [OF assms(1)] by simp
    from log_ok_replace [OF assms(1) this] show ?thesis
      using AppendEntries_closed [OF assms(1,2) pt, of es] assms(1) by (auto simp: add.assoc)
  qed
  moreover have "i = snapshot_index ?l' + 1 + (i - snapshot_index l - 1)" using i(1) by simp
  ultimately show ?thesis using kept i(3) At_offset(1) by metis
qed

theorem append_entries_keeps_agreeing_witness:
  "At (snd (AppendEntriesFrom 0 0 [\<lparr>le_index = 1, le_term = 1, le_command = ''a''\<rparr>] log3)) 3
     = Some \<lparr>le_index = 3, le_term = 1, le_command = ''c''\<rparr>"
  by (rule append_entries_keeps_agreeing [OF log3_ok]) (auto simp: log3_def LastIndex_def At_def TermAt_def)

lemma CompactTo_spec:
  assumes "log_ok l"
  shows "log_ok (CompactTo i t l) \<and>
    (if i \<le> snapshot_index l then CompactTo i t l = l
     else snapshot_index (CompactTo i t l) = i \<and> snapshot_term (CompactTo i t l) = t \<and>
       (if i \<le> LastIndex l \<and> TermAt l i = t
        then LastIndex (CompactTo i t l) = LastIndex l \<and> (\<forall>n > i. At (CompactTo i t l) n = At l n)
        else lg_entries (CompactTo i t l) = []))"
proof (cases "i \<le> snapshot_index l")
  case True
  then show ?thesis using assms by (simp add: CompactTo_def)
next
  case False
  have ok': "log_ok (CompactTo i t l)" by (rule CompactTo_ok [OF assms])
  show ?thesis
  proof (cases "i \<le> LastIndex l \<and> TermAt l i = t")
    case True
    then have e: "lg_entries (CompactTo i t l) = drop (i - snapshot_index l) (lg_entries l)"
      and s: "snapshot_index (CompactTo i t l) = i" "snapshot_term (CompactTo i t l) = t"
      using False by (simp_all add: CompactTo_def)
    have "At (CompactTo i t l) n = At l n" if "i < n" for n
    proof -
      have "i - snapshot_index l + (n - i - 1) = n - snapshot_index l - 1" using that False by simp
      with that True False show ?thesis
        by (auto simp: At_eq [OF ok'] At_eq [OF assms] e s LastIndex_eq [OF assms])
    qed
    with True False ok' e s show ?thesis by (simp add: LastIndex_eq [OF ok'] LastIndex_eq [OF assms])
  next
    case no: False
    with False ok' show ?thesis by (auto simp: CompactTo_def)
  qed
qed

text \<open>Compacting to an index the log holds with the right term keeps every entry after it; compacting to
  any other index beyond the boundary empties the log; either way the boundary is the
  snapshot's, and compacting to an older index does nothing.\<close>

theorem compact_keeps_suffix:
  assumes "log_ok l"
  shows "log_ok (CompactTo i t l) \<and>
    (if i \<le> snapshot_index l then CompactTo i t l = l
     else snapshot_index (CompactTo i t l) = i \<and> snapshot_term (CompactTo i t l) = t \<and>
       (if i \<le> LastIndex l \<and> TermAt l i = t
        then LastIndex (CompactTo i t l) = LastIndex l \<and> (\<forall>n > i. At (CompactTo i t l) n = At l n)
        else lg_entries (CompactTo i t l) = []))"
  by (rule CompactTo_spec [OF assms])

theorem compact_keeps_suffix_witness:
  "log_ok (CompactTo 2 1 log3) \<and>
    (if 2 \<le> snapshot_index log3 then CompactTo 2 1 log3 = log3
     else snapshot_index (CompactTo 2 1 log3) = 2 \<and> snapshot_term (CompactTo 2 1 log3) = 1 \<and>
       (if 2 \<le> LastIndex log3 \<and> TermAt log3 2 = 1
        then LastIndex (CompactTo 2 1 log3) = LastIndex log3 \<and> (\<forall>n > 2. At (CompactTo 2 1 log3) n = At log3 n)
        else lg_entries (CompactTo 2 1 log3) = []))"
  by (rule compact_keeps_suffix [OF log3_ok])

text \<open>C28. The log file is never behind the log: after any mutation, loading the file that the mutation left gives
  back the same log.\<close>

theorem log_load_roundtrip:
  assumes "log_ok l" and "log_synced l"
    and "l' = snd (log_Append t c l) \<or>
         (\<exists>prev pterm es. prev \<le> LastIndex l \<and> l' = snd (AppendEntriesFrom prev pterm es l)) \<or>
         (\<exists>i t. l' = CompactTo i t l) \<or> (\<exists>i. l' = SetAppliedIndex i l)"
    and "log_storable l'"
  shows "log_Load (lg_file l') = l'"
proof -
  have "log_synced l'"
    using assms log_Append_spec(3) [OF assms(1)] AppendEntries_ok(2) [OF assms(1,2)]
      CompactTo_ok(2) [OF assms(1)]
    by auto
  then show ?thesis
    using log_Load_bytes [OF assms(4)]
    by (cases "lg_file l'") (auto simp: log_synced_def log_Load_def log_new_def)
qed

theorem log_load_roundtrip_witness:
  "log_Load (lg_file (snd (log_Append 3 ''x'' log_new))) = snd (log_Append 3 ''x'' log_new)"
proof (rule log_load_roundtrip [where t = 3 and c = "''x''", OF log_ok_new log_synced_new])
  show "log_storable (snd (log_Append 3 ''x'' log_new))"
    by (simp add: log_Append_def log_new_def LastIndex_def log_storable_def entry_ok_def index_ok_def fits32_def Let_def)
qed simp

end
