(* ===== verification/Node_Files.thy ===== *)
theory Node_Files
  imports Message
begin

text \<open>
  The text files of a node: \<^verbatim>\<open>src/raft/persistent_state.cpp\<close> (current term and vote),
  \<^verbatim>\<open>src/raft/membership_state.cpp\<close> (cluster membership as of the snapshot boundary) and the peer
  lists both it and \<^verbatim>\<open>src/shard/routing.cpp\<close> write as \<^verbatim>\<open>id=host:port,...\<close>.  A class is a record
  of its fields and the contents of its file; \<^verbatim>\<open>Set\<close> replaces the file through a rename.

  \<open>extract_unsigned\<close> and \<open>extract_int\<close> are \<^verbatim>\<open>stream >> n\<close>: they return the value stored and
  the rest of the stream, or no rest when the stream failed.  Shown: loading what was set gives it back.
\<close>

section \<open>Formatted input\<close>

definition sign_digits :: "string \<Rightarrow> bool \<times> string \<times> string" where
  "sign_digits s =
     (let neg = (s \<noteq> [] \<and> hd s = CHR ''-'');
          s1 = (if s \<noteq> [] \<and> (hd s = CHR ''-'' \<or> hd s = CHR ''+'') then tl s else s)
      in (neg, takeWhile isdigit s1, dropWhile isdigit s1))"

definition extract_unsigned :: "nat \<Rightarrow> nat \<Rightarrow> string \<Rightarrow> nat \<times> string option" where
  "extract_unsigned w init s =
     (let s1 = dropWhile isspace s
      in if s1 = [] then (init, None)
         else let (neg, ds, rest) = sign_digits s1
              in if ds = [] then (0, None)
                 else if 2 ^ w \<le> decimal ds then (2 ^ w - 1, None)
                 else (if neg then (2 ^ w - decimal ds) mod 2 ^ w else decimal ds, Some rest))"

definition extract_int :: "int \<Rightarrow> int \<Rightarrow> int \<Rightarrow> string \<Rightarrow> int \<times> string option" where
  "extract_int lo hi init s =
     (let s1 = dropWhile isspace s
      in if s1 = [] then (init, None)
         else let (neg, ds, rest) = sign_digits s1; v = (if neg then - int (decimal ds) else int (decimal ds))
              in if ds = [] then (0, None)
                 else if v < lo then (lo, None) else if hi < v then (hi, None) else (v, Some rest))"

definition getline :: "string \<Rightarrow> string \<times> string" where
  "getline s = (takeWhile (\<lambda>c. c \<noteq> CHR 0x0A) s, drop 1 (dropWhile (\<lambda>c. c \<noteq> CHR 0x0A) s))"

definition find_char :: "char \<Rightarrow> string \<Rightarrow> nat option" where
  "find_char c s = (if c \<in> set s then Some (length (takeWhile (\<lambda>d. d \<noteq> c) s)) else None)"

section \<open>Current term and vote\<close>

record PersistentState =
  current_term :: Term
  voted_for :: "NodeId option"
  ps_file :: "string option"

definition ps_new :: PersistentState where
  "ps_new = \<lparr>current_term = 0, voted_for = None, ps_file = None\<rparr>"

definition ps_text :: "Term \<Rightarrow> NodeId option \<Rightarrow> string" where
  "ps_text term vote = to_string term @ '' '' @
     (case vote of None \<Rightarrow> ''-1'' | Some nid \<Rightarrow> to_string (unat nid))"

definition ps_Load :: "string option \<Rightarrow> PersistentState" where
  "ps_Load file = (case file of
       None \<Rightarrow> ps_new
     | Some s \<Rightarrow>
         let (term, r) = extract_unsigned 64 0 s;
             raw = (case r of None \<Rightarrow> -1 | Some r \<Rightarrow> fst (extract_int (- (2 ^ 63)) (2 ^ 63 - 1) (-1) r))
         in \<lparr>current_term = term,
             voted_for = (if raw < 0 then None else Some (of_int raw)),
             ps_file = Some s\<rparr>)"

definition ps_Set :: "Term \<Rightarrow> NodeId option \<Rightarrow> PersistentState \<Rightarrow> PersistentState" where
  "ps_Set term vote p = \<lparr>current_term = term, voted_for = vote, ps_file = Some (ps_text term vote)\<rparr>"

section \<open>Peer lists\<close>

definition parse_peer :: "string \<Rightarrow> (NodeId \<times> PeerAddress) res" where
  "parse_peer entry = (case find_char CHR ''='' entry of
       None \<Rightarrow> Inl (RuntimeError (''bad peer spec: '' @ entry))
     | Some eq \<Rightarrow> (case find_char CHR '':'' (drop eq entry) of
           None \<Rightarrow> Inl (RuntimeError (''bad peer spec: '' @ entry))
         | Some c \<Rightarrow>
             let colon = eq + c
             in rbind (stoul (take eq entry)) (\<lambda>id. rbind (stoul (drop (colon + 1) entry)) (\<lambda>p.
                  Inr (ucast id, \<lparr>host = take (colon - eq - 1) (drop (eq + 1) entry), port = ucast p\<rparr>)))))"

definition ParsePeerSpec :: "string \<Rightarrow> peer_map res" where
  "ParsePeerSpec spec =
     rbind (rmap parse_peer (filter (\<lambda>e. e \<noteq> []) (getlines CHR '','' spec))) (\<lambda>ps. Inr (omap_of_list ps))"

definition format_peer :: "NodeId \<times> PeerAddress \<Rightarrow> string" where
  "format_peer p = to_string (unat (fst p)) @ ''='' @ host (snd p) @ '':'' @ to_string (unat (port (snd p)))"

fun FormatPeerSpec :: "peer_map \<Rightarrow> string" where
  "FormatPeerSpec [] = []"
| "FormatPeerSpec [p] = format_peer p"
| "FormatPeerSpec (p # ps) = format_peer p @ '','' @ FormatPeerSpec ps"

section \<open>Membership\<close>

record MembershipState =
  ms_has_file :: bool
  base_peers :: peer_map
  ms_self_is_member :: bool
  ms_own_address :: PeerAddress
  ms_file :: "string option"

definition ms_PathFor :: "string \<Rightarrow> NodeId \<Rightarrow> string" where
  "ms_PathFor state_dir nid = state_dir @ ''/raft_membership_'' @ to_string (unat nid) @ ''.txt''"

definition no_address :: PeerAddress where
  "no_address = \<lparr>host = [], port = 0\<rparr>"

definition ms_new :: MembershipState where
  "ms_new = \<lparr>ms_has_file = False, base_peers = [], ms_self_is_member = True,
     ms_own_address = no_address, ms_file = None\<rparr>"

definition ms_text :: "peer_map \<Rightarrow> bool \<Rightarrow> PeerAddress \<Rightarrow> string" where
  "ms_text peers self addr = (if self then ''1'' else ''0'') @ [CHR 0x0A] @
     FormatPeerSpec peers @ [CHR 0x0A] @
     host addr @ '':'' @ to_string (unat (port addr)) @ [CHR 0x0A]"

definition ms_Load :: "string option \<Rightarrow> MembershipState res" where
  "ms_Load file = (case file of
       None \<Rightarrow> Inr ms_new
     | Some s \<Rightarrow>
         let (flag, r) = extract_int (- (2 ^ 31)) (2 ^ 31 - 1) 1 s;
             (spec, r1) = (case r of None \<Rightarrow> ([], []) | Some r \<Rightarrow> getline (drop 1 r));
             own_spec = (case r of None \<Rightarrow> [] | Some _ \<Rightarrow> fst (getline r1))
         in rbind (ParsePeerSpec spec) (\<lambda>peers.
              let state = (\<lambda>addr. \<lparr>ms_has_file = True, base_peers = peers, ms_self_is_member = (flag \<noteq> 0),
                     ms_own_address = addr, ms_file = Some s\<rparr>)
              in case find_char CHR '':'' own_spec of
                   None \<Rightarrow> Inr (state no_address)
                 | Some c \<Rightarrow> rbind (stoul (drop (c + 1) own_spec)) (\<lambda>p.
                     Inr (state \<lparr>host = take c own_spec, port = ucast p\<rparr>))))"

definition ms_Set :: "peer_map \<Rightarrow> bool \<Rightarrow> PeerAddress \<Rightarrow> MembershipState \<Rightarrow> MembershipState" where
  "ms_Set peers self addr m = \<lparr>ms_has_file = True, base_peers = peers, ms_self_is_member = self,
     ms_own_address = addr, ms_file = Some (ms_text peers self addr)\<rparr>"

text \<open>A host name that the text formats can carry.\<close>

definition host_ok :: "string \<Rightarrow> bool" where
  "host_ok h \<longleftrightarrow> set h \<inter> {CHR '','', CHR '':'', CHR ''='', CHR 0x0A} = {}"

section \<open>Lemmas\<close>

lemma ucast_64 [simp]:
  "ucast (ucast i :: 64 word) = (i :: 32 word)" "ucast (ucast q :: 64 word) = (q :: 16 word)"
  by (rule ucast_up_ucast_id; simp add: is_up)+

lemma to_string_Cons:
  obtains c cs where "to_string n = c # cs" and "isdigit c" and "\<not> isspace c" and "c \<noteq> CHR ''-''" and "c \<noteq> CHR ''+''"
proof (cases "to_string n")
  case (Cons c cs)
  then have "isdigit c" using to_string_digits [of n] by simp
  with Cons that show ?thesis using isdigit_not_special by blast
qed simp

lemma digits_split:
  assumes "rest = [] \<or> \<not> isdigit (hd rest)"
  shows "takeWhile isdigit (to_string n @ rest) = to_string n" "dropWhile isdigit (to_string n @ rest) = rest"
  using assms to_string_digits [of n]
  by (cases rest; simp add: takeWhile_append2 dropWhile_append2)+

lemma sign_digits_to_string:
  assumes "rest = [] \<or> \<not> isdigit (hd rest)"
  shows "sign_digits (to_string n @ rest) = (False, to_string n, rest)"
    and "dropWhile isspace (to_string n @ rest) = to_string n @ rest"
proof -
  obtain c cs where c: "to_string n = c # cs" "\<not> isspace c" "c \<noteq> CHR ''-''" "c \<noteq> CHR ''+''"
    by (rule to_string_Cons)
  then have "hd (to_string n @ rest) = c" by simp
  with c(3,4) digits_split [OF assms, of n] show "sign_digits (to_string n @ rest) = (False, to_string n, rest)"
    by (simp add: sign_digits_def Let_def)
  show "dropWhile isspace (to_string n @ rest) = to_string n @ rest" by (simp add: c)
qed

lemma extract_unsigned_to_string:
  "n < 2 ^ w \<Longrightarrow> rest = [] \<or> \<not> isdigit (hd rest) \<Longrightarrow> extract_unsigned w i (to_string n @ rest) = (n, Some rest)"
  by (simp add: extract_unsigned_def sign_digits_to_string)

lemma extract_int_to_string:
  "lo \<le> int n \<Longrightarrow> int n \<le> hi \<Longrightarrow> rest = [] \<or> \<not> isdigit (hd rest) \<Longrightarrow>
     extract_int lo hi i (to_string n @ rest) = (int n, Some rest)"
  by (simp add: extract_int_def sign_digits_to_string)

lemma ps_Load_text:
  assumes "term < 2 ^ 64"
  shows "ps_Load (Some (ps_text term vote)) = \<lparr>current_term = term, voted_for = vote, ps_file = Some (ps_text term vote)\<rparr>"
proof -
  let ?v = "case vote of None \<Rightarrow> ''-1'' | Some nid \<Rightarrow> to_string (unat nid)"
  have sp: "isspace CHR '' ''" "\<not> isdigit CHR '' ''" by (simp_all add: isspace_def isdigit_def)
  then have t: "extract_unsigned 64 0 (ps_text term vote) = (term, Some ('' '' @ ?v))"
    using extract_unsigned_to_string [OF assms, of "'' '' @ ?v"] by (simp add: ps_text_def)
  have "fst (extract_int (- (2 ^ 63)) (2 ^ 63 - 1) (-1) ('' '' @ ?v))
      = (case vote of None \<Rightarrow> -1 | Some nid \<Rightarrow> int (unat nid))"
  proof (cases vote)
    case None
    have "takeWhile isdigit ''1'' = ''1''" "\<not> isspace CHR ''-''" "isdigit CHR ''1''"
      by (simp_all add: isdigit_def isspace_def)
    with None sp show ?thesis
      by (simp add: extract_int_def sign_digits_def decimal_def digit_val_def)
  next
    case (Some nid)
    have "uint nid < 2 ^ 32" "0 \<le> uint nid" using unsigned_less [of nid, where 'a = int] by simp_all
    moreover from this(2) have "- (2 ^ 63) \<le> uint nid" by (rule order_trans [rotated]) simp
    ultimately have "extract_int (- (2 ^ 63)) (2 ^ 63 - 1) (-1) (to_string (unat nid)) = (int (unat nid), Some [])"
      using extract_int_to_string [of "- (2 ^ 63)" "unat nid" "2 ^ 63 - 1" "[]" "-1"] by simp
    with Some sp show ?thesis by (simp add: extract_int_def)
  qed
  with t show ?thesis by (simp add: ps_Load_def split: option.split)
qed

lemma ps_Set_Load: "term < 2 ^ 64 \<Longrightarrow> ps_Load (ps_file (ps_Set term vote p)) = ps_Set term vote p"
  by (simp add: ps_Set_def ps_Load_text)

lemma getlines_aux_field: "d \<notin> set s \<Longrightarrow> getlines_aux d acc (s @ d # rest) = (rev acc @ s) # getlines_aux d [] rest"
  by (induction s arbitrary: acc) auto

lemma getlines_aux_last: "d \<notin> set s \<Longrightarrow> s \<noteq> [] \<Longrightarrow> getlines_aux d acc s = [rev acc @ s]"
proof (induction s arbitrary: acc)
  case (Cons c s)
  then show ?case by (cases "s = []") auto
qed simp

lemma format_peer_no_comma:
  assumes "host_ok (host (snd p))"
  shows "CHR '','' \<notin> set (format_peer p)" "format_peer p \<noteq> []" "CHR 0x0A \<notin> set (format_peer p)"
proof -
  have nd: "\<not> isdigit CHR '',''" "\<not> isdigit CHR 0x0A" by (simp_all add: isdigit_def)
  then have "CHR '','' \<notin> set (to_string n)" "CHR 0x0A \<notin> set (to_string n)" for n
    using to_string_digits [of n] by auto
  with assms show "CHR '','' \<notin> set (format_peer p)" "format_peer p \<noteq> []" "CHR 0x0A \<notin> set (format_peer p)"
    by (auto simp: format_peer_def host_ok_def)
qed

lemma getlines_format:
  assumes "\<forall>p \<in> set ps. host_ok (host (snd p))"
  shows "getlines CHR '','' (FormatPeerSpec ps) = map format_peer ps"
  using assms
proof (induction ps rule: FormatPeerSpec.induct)
  case 1
  then show ?case by (simp add: getlines_def)
next
  case (2 p)
  then show ?case using getlines_aux_last [of "CHR '',''" "format_peer p" "[]"] format_peer_no_comma [of p]
    by (simp add: getlines_def)
next
  case (3 p q ps)
  then show ?case using getlines_aux_field [of "CHR '',''" "format_peer p" "[]" "FormatPeerSpec (q # ps)"]
      format_peer_no_comma [of p]
    by (simp add: getlines_def)
qed

lemma find_char_append: "c \<notin> set s \<Longrightarrow> find_char c (s @ c # rest) = Some (length s)"
proof -
  assume "c \<notin> set s"
  then have "takeWhile (\<lambda>d. d \<noteq> c) (s @ c # rest) = s @ takeWhile (\<lambda>d. d \<noteq> c) (c # rest)"
    by (intro takeWhile_append2) auto
  then show ?thesis by (simp add: find_char_def)
qed

lemma parse_format_peer:
  assumes "host_ok (host (snd p))"
  shows "parse_peer (format_peer p) = Inr p"
proof -
  obtain i h q where p: "p = (i, \<lparr>host = h, port = q\<rparr>)" by (cases p; cases "snd p") auto
  let ?i = "to_string (unat i)" and ?q = "to_string (unat q)"
  have nd: "\<not> isdigit CHR ''=''" by (simp add: isdigit_def)
  then have "CHR ''='' \<notin> set ?i" using to_string_digits [of "unat i"] by auto
  then have eq: "find_char CHR ''='' (?i @ CHR ''='' # h @ CHR '':'' # ?q) = Some (length ?i)"
    by (rule find_char_append)
  have "CHR '':'' \<notin> set (CHR ''='' # h)" using assms by (simp add: p host_ok_def)
  from find_char_append [OF this, of ?q]
  have colon: "find_char CHR '':'' (CHR ''='' # h @ CHR '':'' # ?q) = Some (Suc (length h))" by simp
  have "unat i < 2 ^ 64" "unat q < 2 ^ 64"
    using unsigned_less [of i, where 'a = nat] unsigned_less [of q, where 'a = nat] by simp_all
  then have "stoul ?i = Inr (of_nat (unat i))" "stoul ?q = Inr (of_nat (unat q))" by (simp_all add: stoul_to_string)
  moreover have "ucast (of_nat (unat i) :: 64 word) = i" "ucast (of_nat (unat q) :: 64 word) = q"
    by simp_all
  ultimately show ?thesis
    using \<open>unat i < 2 ^ 64\<close> by (simp add: parse_peer_def p format_peer_def eq colon)
qed

lemma ParsePeerSpec_format:
  assumes "omap_ok ps" and "\<forall>p \<in> set ps. host_ok (host (snd p))"
  shows "ParsePeerSpec (FormatPeerSpec ps) = Inr ps"
proof -
  have "filter (\<lambda>e. e \<noteq> []) (map format_peer ps) = map format_peer ps"
    using format_peer_no_comma(2) assms(2) by (auto simp: filter_id_conv)
  moreover have "rmap parse_peer (map format_peer ps) = Inr ps"
    using assms(2) by (induction ps) (simp_all add: parse_format_peer)
  ultimately show ?thesis
    using assms(1) by (simp add: ParsePeerSpec_def getlines_format [OF assms(2)] omap_of_list_sorted)
qed

lemma getline_append: "CHR 0x0A \<notin> set s \<Longrightarrow> getline (s @ CHR 0x0A # rest) = (s, rest)"
proof -
  assume n: "CHR 0x0A \<notin> set s"
  have "takeWhile (\<lambda>c. c \<noteq> CHR 0x0A) (s @ CHR 0x0A # rest) = s @ takeWhile (\<lambda>c. c \<noteq> CHR 0x0A) (CHR 0x0A # rest)"
    by (rule takeWhile_append2) (use n in auto)
  moreover have "dropWhile (\<lambda>c. c \<noteq> CHR 0x0A) (s @ CHR 0x0A # rest) = dropWhile (\<lambda>c. c \<noteq> CHR 0x0A) (CHR 0x0A # rest)"
    by (rule dropWhile_append2) (use n in auto)
  ultimately show ?thesis by (simp add: getline_def)
qed

lemma FormatPeerSpec_no_newline:
  "\<forall>p \<in> set ps. host_ok (host (snd p)) \<Longrightarrow> CHR 0x0A \<notin> set (FormatPeerSpec ps)"
  by (induction ps rule: FormatPeerSpec.induct) (simp_all add: format_peer_no_comma)

lemma ms_Load_text:
  assumes "omap_ok ps" and "\<forall>p \<in> set ps. host_ok (host (snd p))" and "host_ok (host addr)"
  shows "ms_Load (Some (ms_text ps self addr)) =
    Inr \<lparr>ms_has_file = True, base_peers = ps, ms_self_is_member = self, ms_own_address = addr,
         ms_file = Some (ms_text ps self addr)\<rparr>"
proof -
  obtain h q where addr: "addr = \<lparr>host = h, port = q\<rparr>" by (cases addr)
  let ?q = "to_string (unat q)" and ?own = "h @ CHR '':'' # to_string (unat q)"
  have nl: "\<not> isdigit CHR 0x0A" by (simp add: isdigit_def)
  have flag: "extract_int (- (2 ^ 31)) (2 ^ 31 - 1) 1 ((if self then ''1'' else ''0'') @ CHR 0x0A # rest)
      = ((if self then 1 else 0), Some (CHR 0x0A # rest))" for rest
  proof -
    have "to_string 1 = ''1''" "to_string 0 = ''0''" 
      by (simp_all add: to_string.simps [of "Suc 0"] to_string.simps [of 0] digit_char_def char_of_eq_iff
          take_bit_eq_mod)
    with extract_int_to_string [of "- (2 ^ 31)" 1 "2 ^ 31 - 1" "CHR 0x0A # rest" 1]
      extract_int_to_string [of "- (2 ^ 31)" 0 "2 ^ 31 - 1" "CHR 0x0A # rest" 1] nl
    show ?thesis by simp
  qed
  have "CHR 0x0A \<notin> set ?q" using to_string_digits [of "unat q"] nl by auto
  then have own: "CHR 0x0A \<notin> set ?own" using assms(3) by (simp add: addr host_ok_def)
  have "unat q < 2 ^ 64" using unsigned_less [of q, where 'a = nat] by simp
  then have "stoul ?q = Inr (of_nat (unat q))" by (simp add: stoul_to_string)
  moreover have "ucast (of_nat (unat q) :: 64 word) = q" by simp
  moreover have "find_char CHR '':'' ?own = Some (length h)"
    using assms(3) by (intro find_char_append) (simp add: addr host_ok_def)
  moreover have "getline (FormatPeerSpec ps @ CHR 0x0A # ?own @ [CHR 0x0A]) = (FormatPeerSpec ps, ?own @ [CHR 0x0A])"
    by (rule getline_append [OF FormatPeerSpec_no_newline [OF assms(2)]])
  moreover have "getline (?own @ [CHR 0x0A]) = (?own, [])"
    using getline_append [OF own, of "[]"] by simp
  ultimately show ?thesis
    using flag [of "FormatPeerSpec ps @ CHR 0x0A # ?own @ [CHR 0x0A]"] ParsePeerSpec_format [OF assms(1,2)]
    by (simp add: ms_Load_def ms_text_def addr)
qed

section \<open>Properties\<close>

text \<open>A node that restarts after \<^verbatim>\<open>Set\<close> recovers what it promised: the term and vote it persisted before
  answering, and the membership, membership flag and own address as of its snapshot boundary.\<close>

theorem node_files_roundtrip:
  assumes "term < 2 ^ 64" and "omap_ok ps" and "\<forall>p \<in> set ps. host_ok (host (snd p))" and "host_ok (host addr)"
  shows "ps_Load (ps_file (ps_Set term vote p0)) = ps_Set term vote p0 \<and>
    ms_Load (ms_file (ms_Set ps self addr m0)) = Inr (ms_Set ps self addr m0)"
  using ps_Set_Load [OF assms(1)] ms_Load_text [OF assms(2-4)] by (simp add: ms_Set_def)

theorem node_files_roundtrip_witness:
  "ps_Load (ps_file (ps_Set 7 (Some 2) ps_new)) = ps_Set 7 (Some 2) ps_new \<and>
   ms_Load (ms_file (ms_Set [(2, \<lparr>host = ''10.0.0.2'', port = 5002\<rparr>)] True \<lparr>host = ''10.0.0.1'', port = 5001\<rparr> ms_new))
     = Inr (ms_Set [(2, \<lparr>host = ''10.0.0.2'', port = 5002\<rparr>)] True \<lparr>host = ''10.0.0.1'', port = 5001\<rparr> ms_new)"
  by (rule node_files_roundtrip) (simp_all add: omap_ok_def host_ok_def)

end
