(* ===== verification/Txn.thy ===== *)
theory Txn
  imports Message
begin

text \<open>
  The commands a log entry can carry besides SQL text: \<^verbatim>\<open>src/raft/conf_change.cpp\<close> (membership
  changes, first byte 1) and \<^verbatim>\<open>src/txn/txn.cpp\<close> (two-phase commit control commands, first
  byte 0).  Each file has its own copy of the length-prefix reader, with its own error message.

  Shown: what is encoded is decoded back, and the three classes of commands are told apart by
  their first byte.
\<close>

section \<open>Membership changes\<close>

type_synonym ConfChangeType = "8 word"

abbreviation "kAddServer \<equiv> 1 :: ConfChangeType"
abbreviation "kRemoveServer \<equiv> 2 :: ConfChangeType"

record ConfChangeCommand =
  cc_type :: ConfChangeType
  cc_server_id :: NodeId
  cc_host :: string
  cc_port :: "16 word"

definition cc_error :: exn where
  "cc_error = RuntimeError ''corrupt or truncated conf-change command''"

definition EncodeConfChange :: "ConfChangeCommand \<Rightarrow> string" where
  "EncodeConfChange c = put_u8 1 @ put_u8 (cc_type c) @ put_u32 (cc_server_id c) @
     put_string (cc_host c) @ put_u16 (cc_port c)"

definition ReadConfChange :: "(string, ConfChangeCommand) cursor" where
  "ReadConfChange = sbind (get_u8 cc_error) (\<lambda>_. sbind (get_u8 cc_error) (\<lambda>t.
     sbind (get_u32 cc_error) (\<lambda>id. sbind (get_string cc_error) (\<lambda>h. sbind (get_u16 cc_error) (\<lambda>p.
     sret \<lparr>cc_type = t, cc_server_id = id, cc_host = h, cc_port = p\<rparr>)))))"

definition TryDecodeConfChange :: "string \<Rightarrow> ConfChangeCommand option res" where
  "TryDecodeConfChange command =
     (if command = [] \<or> of_char (hd command) \<noteq> (1 :: nat) then Inr None
      else rbind (srun ReadConfChange command) (\<lambda>c. Inr (Some c)))"

section \<open>Transaction control\<close>

type_synonym TxnId = "64 word"
type_synonym TxnControlType = "8 word"

abbreviation "kPrepare \<equiv> 1 :: TxnControlType"
abbreviation "kCommit \<equiv> 2 :: TxnControlType"
abbreviation "kAbort \<equiv> 3 :: TxnControlType"

record TxnPrepare =
  tp_txn_id :: TxnId
  tp_keys :: "string list"
  tp_commands :: "string list"

record TxnControlCommand =
  tc_type :: TxnControlType
  tc_txn_id :: TxnId
  tc_keys :: "string list"
  tc_commands :: "string list"

definition txn_error :: exn where
  "txn_error = RuntimeError ''corrupt or truncated txn control command''"

definition EncodeTxnPrepare :: "TxnPrepare \<Rightarrow> string" where
  "EncodeTxnPrepare p = put_u8 0 @ put_u8 kPrepare @ put_u64 (tp_txn_id p) @
     put_strings (tp_keys p) @ put_strings (tp_commands p)"

definition EncodeTxnCommit :: "TxnId \<Rightarrow> string" where
  "EncodeTxnCommit txn_id = put_u8 0 @ put_u8 kCommit @ put_u64 txn_id"

definition EncodeTxnAbort :: "TxnId \<Rightarrow> string" where
  "EncodeTxnAbort txn_id = put_u8 0 @ put_u8 kAbort @ put_u64 txn_id"

definition ReadTxnControl :: "(string, TxnControlCommand) cursor" where
  "ReadTxnControl = sbind (get_u8 txn_error) (\<lambda>_. sbind (get_u8 txn_error) (\<lambda>t. sbind (get_u64 txn_error) (\<lambda>id.
     if t = kPrepare
     then sbind (get_strings txn_error) (\<lambda>ks. sbind (get_strings txn_error) (\<lambda>cs.
            sret \<lparr>tc_type = t, tc_txn_id = id, tc_keys = ks, tc_commands = cs\<rparr>))
     else sret \<lparr>tc_type = t, tc_txn_id = id, tc_keys = [], tc_commands = []\<rparr>)))"

definition TryDecodeTxnControl :: "string \<Rightarrow> TxnControlCommand option res" where
  "TryDecodeTxnControl command =
     (if command = [] \<or> of_char (hd command) \<noteq> (0 :: nat) then Inr None
      else rbind (srun ReadTxnControl command) (\<lambda>c. Inr (Some c)))"

definition strings_ok :: "string list \<Rightarrow> bool" where
  "strings_ok v \<longleftrightarrow> fits32 v \<and> (\<forall>s \<in> set v. fits32 s)"

text \<open>The command a control entry stands for, and how the coordinator encodes it.\<close>

definition encode_control :: "TxnControlCommand \<Rightarrow> string" where
  "encode_control c =
     (if tc_type c = kPrepare
      then EncodeTxnPrepare \<lparr>tp_txn_id = tc_txn_id c, tp_keys = tc_keys c, tp_commands = tc_commands c\<rparr>
      else if tc_type c = kCommit then EncodeTxnCommit (tc_txn_id c)
      else EncodeTxnAbort (tc_txn_id c))"

definition control_ok :: "TxnControlCommand \<Rightarrow> bool" where
  "control_ok c \<longleftrightarrow> strings_ok (tc_keys c) \<and> strings_ok (tc_commands c) \<and>
     (tc_type c = kPrepare \<or> tc_type c \<in> {kCommit, kAbort} \<and> tc_keys c = [] \<and> tc_commands c = [])"

section \<open>Lemmas\<close>

lemma put_u8_tags:
  "put_u8 0 = [char_of (0 :: nat)]" "put_u8 1 = [char_of (1 :: nat)]"
  by (simp_all add: put_u8_def)

interpretation cc: codec EncodeConfChange ReadConfChange "\<lambda>c. fits32 (cc_host c)"
  by unfold_locales
    (auto simp: EncodeConfChange_def ReadConfChange_def codec_simps intro!: msg_extend)

interpretation ctl: codec encode_control ReadTxnControl control_ok
proof
  show "extensible ReadTxnControl"
    unfolding ReadTxnControl_def by (auto intro!: msg_extend extensible_if)
  fix c rest
  assume "control_ok c"
  then show "ReadTxnControl (encode_control c @ rest) = Inr (c, rest)"
    by (cases c)
      (auto simp: encode_control_def ReadTxnControl_def EncodeTxnPrepare_def EncodeTxnCommit_def
        EncodeTxnAbort_def codec_simps control_ok_def strings_ok_def)
qed

lemma hd_encode_control: "hd (encode_control c) = char_of (0 :: nat)" "encode_control c \<noteq> []"
  by (auto simp: encode_control_def EncodeTxnPrepare_def EncodeTxnCommit_def EncodeTxnAbort_def put_u8_tags)

lemma hd_encode_conf: "hd (EncodeConfChange c) = char_of (1 :: nat)" "EncodeConfChange c \<noteq> []"
  by (simp_all add: EncodeConfChange_def put_u8_tags)

lemma TryDecodeTxnControl_encode: "control_ok c \<Longrightarrow> TryDecodeTxnControl (encode_control c) = Inr (Some c)"
  by (simp add: TryDecodeTxnControl_def hd_encode_control srun_def ctl.dec_enc_Nil)

lemma TryDecodeConfChange_encode:
  "fits32 (cc_host c) \<Longrightarrow> TryDecodeConfChange (EncodeConfChange c) = Inr (Some c)"
  by (simp add: TryDecodeConfChange_def hd_encode_conf srun_def cc.dec_enc_Nil)

section \<open>Properties\<close>

text \<open>A replica that applies a log entry recovers exactly the command that was proposed, whichever of the
  three classes it is: a transaction control command and a membership change decode to themselves and are
  not taken for one another, and a statement whose first byte is neither 0 nor 1 is taken for neither.\<close>

theorem command_classes:
  assumes "control_ok c" and "fits32 (cc_host m)" and "1 < (of_char ch :: nat)"
  shows "TryDecodeTxnControl (encode_control c) = Inr (Some c) \<and>
    TryDecodeConfChange (encode_control c) = Inr None \<and>
    TryDecodeConfChange (EncodeConfChange m) = Inr (Some m) \<and>
    TryDecodeTxnControl (EncodeConfChange m) = Inr None \<and>
    TryDecodeTxnControl (ch # sql) = Inr None \<and> TryDecodeConfChange (ch # sql) = Inr None"
  using TryDecodeTxnControl_encode [OF assms(1)] TryDecodeConfChange_encode [OF assms(2)] assms(3)
  by (auto simp: TryDecodeTxnControl_def TryDecodeConfChange_def hd_encode_control hd_encode_conf)

theorem command_classes_witness:
  "TryDecodeTxnControl (encode_control \<lparr>tc_type = kPrepare, tc_txn_id = 7, tc_keys = [''k''], tc_commands = [''c'']\<rparr>)
     = Inr (Some \<lparr>tc_type = kPrepare, tc_txn_id = 7, tc_keys = [''k''], tc_commands = [''c'']\<rparr>) \<and>
   TryDecodeTxnControl ''SELECT'' = Inr None"
  using command_classes
    [of "\<lparr>tc_type = kPrepare, tc_txn_id = 7, tc_keys = [''k''], tc_commands = [''c'']\<rparr>"
      "\<lparr>cc_type = kAddServer, cc_server_id = 4, cc_host = ''h'', cc_port = 1\<rparr>" "CHR ''S''" "''ELECT''"]
  by (simp add: control_ok_def strings_ok_def fits32_def)

end
