(* ===== verification/Raft_Node.thy ===== *)
theory Raft_Node
  imports Raft_Log Node_Files Txn
begin

text \<open>
  \<^verbatim>\<open>src/raft/node.cpp\<close>: one Raft node.  The record has the class's fields; \<open>machine\<close> is the
  state machine behind the callbacks, which are parameters (\<open>callbacks\<close>).  Every critical section of the
  source, the code between taking \<^verbatim>\<open>mutex_\<close> and releasing it, is one definition on the record; the
  two halves of an operation that releases the mutex in between (proposing and waiting, installing a
  snapshot, sending an RPC and handling its reply) are separate definitions, so that anything can happen
  in between.  Time is a number of milliseconds: \<open>now\<close> and the randomised election timeout
  \<open>rnd\<close> are arguments.  A decoder that throws ends the operation with what it had done so far (\<open>eff\<close>).
\<close>

datatype Role = Follower | Candidate | Leader

definition kElectionTimeoutMinMs :: nat where "kElectionTimeoutMinMs = 400"
definition kHeartbeatInterval :: nat where "kHeartbeatInterval = 75"
definition kCompactionThreshold :: LogIndex where "kCompactionThreshold = 5"

record 's callbacks =
  apply_cb :: "LogIndex \<Rightarrow> string \<Rightarrow> 's \<Rightarrow> string \<times> 's"
  snapshot_cb :: "'s \<Rightarrow> string"
  restore_cb :: "string \<Rightarrow> 's \<Rightarrow> 's"
  read_cb :: "string \<Rightarrow> 's \<Rightarrow> string res"

record 's RaftNode =
  node_id :: NodeId
  own_address :: PeerAddress
  peers :: peer_map
  hard :: PersistentState
  rlog :: RaftLog
  mship :: MembershipState
  role :: Role
  leader_hint :: NodeId
  commit_index :: LogIndex
  last_applied :: LogIndex
  self_is_member :: bool
  pending_self_removal_index :: LogIndex
  joining :: bool
  apply_errors :: "(LogIndex, string) omap"
  election_deadline :: nat
  next_heartbeat_time :: nat
  votes_received :: nat
  last_leader_contact :: nat
  next_index :: "(NodeId, LogIndex) omap"
  match_index :: "(NodeId, LogIndex) omap"
  replication_in_flight :: "NodeId set"
  machine :: 's

abbreviation term_of :: "'s RaftNode \<Rightarrow> Term" where
  "term_of n \<equiv> current_term (hard n)"

text \<open>The constructor, from the contents of the node's three files.\<close>

definition RaftNode_new ::
  "NodeId \<Rightarrow> PeerAddress \<Rightarrow> peer_map \<Rightarrow> bool \<Rightarrow> string option \<Rightarrow> string option \<Rightarrow> string option \<Rightarrow> 's \<Rightarrow> 's RaftNode res"
where
  "RaftNode_new nid addr ps joins state_file log_file membership_file m =
     rbind (ms_Load membership_file) (\<lambda>ms.
       let l = log_Load log_file;
           n = \<lparr>node_id = nid, own_address = addr, peers = ps, hard = ps_Load state_file, rlog = l,
                mship = ms, role = Follower, leader_hint = 0, commit_index = applied_index l,
                last_applied = applied_index l, self_is_member = True, pending_self_removal_index = 0,
                joining = joins, apply_errors = [], election_deadline = 0, next_heartbeat_time = 0,
                votes_received = 0, last_leader_contact = 0, next_index = [], match_index = [],
                replication_in_flight = {}, machine = m\<rparr>
       in Inr (if ms_has_file ms
               then n\<lparr>peers := base_peers ms, self_is_member := ms_self_is_member ms,
                      own_address := ms_own_address ms, joining := False\<rparr>
               else n\<lparr>self_is_member := \<not> joins, mship := ms_Set ps (\<not> joins) addr ms\<rparr>))"

definition ResetElectionDeadline :: "nat \<Rightarrow> nat \<Rightarrow> 's RaftNode \<Rightarrow> 's RaftNode" where
  "ResetElectionDeadline now rnd n = n\<lparr>election_deadline := now + rnd\<rparr>"

definition BecomeFollower :: "nat \<Rightarrow> nat \<Rightarrow> Term \<Rightarrow> 's RaftNode \<Rightarrow> 's RaftNode" where
  "BecomeFollower now rnd t n =
     (let n = (if term_of n < t then n\<lparr>hard := ps_Set t None (hard n)\<rparr> else n)
      in ResetElectionDeadline now rnd (n\<lparr>role := Follower\<rparr>))"

section \<open>Membership\<close>

definition refresh_entry :: "'s RaftNode \<Rightarrow> LogIndex \<Rightarrow> (peer_map \<times> bool \<times> LogIndex, unit) eff" where
  "refresh_entry n i st = (case At (rlog n) i of
       None \<Rightarrow> (Inr (), st)
     | Some entry \<Rightarrow> (case TryDecodeConfChange (le_command entry) of
           Inl e \<Rightarrow> (Inl e, st)
         | Inr None \<Rightarrow> (Inr (), st)
         | Inr (Some cc) \<Rightarrow>
             let (effective, self, pend) = st
             in (Inr (),
                 if cc_type cc = kAddServer
                 then (if cc_server_id cc = node_id n then (effective, True, 0)
                       else (omap_set (cc_server_id cc) \<lparr>host = cc_host cc, port = cc_port cc\<rparr> effective, self, pend))
                 else if cc_server_id cc = node_id n
                 then (if role n = Leader \<and> commit_index n < i then (effective, self, i)
                       else (effective, False, pend))
                 else (omap_erase (cc_server_id cc) effective, self, pend))))"

definition adopt_peer :: "'s RaftNode \<Rightarrow> NodeId \<times> PeerAddress \<Rightarrow> 's RaftNode" where
  "adopt_peer n p =
     (let is_new = (\<not> omap_count (fst p) (peers n));
          n = n\<lparr>peers := omap_set (fst p) (snd p) (peers n)\<rparr>
      in if is_new \<and> role n = Leader
         then n\<lparr>next_index := omap_set (fst p) 1 (next_index n),
                match_index := omap_set (fst p) 0 (match_index n)\<rparr>
         else n)"

definition drop_peer :: "'s RaftNode \<Rightarrow> NodeId \<Rightarrow> 's RaftNode" where
  "drop_peer n pid = n\<lparr>next_index := omap_erase pid (next_index n), match_index := omap_erase pid (match_index n),
     replication_in_flight := replication_in_flight n - {pid}, peers := omap_erase pid (peers n)\<rparr>"

definition adopt_peers :: "peer_map \<Rightarrow> 's RaftNode \<Rightarrow> 's RaftNode" where
  "adopt_peers effective n =
     (let n = foldl adopt_peer n effective
      in foldl drop_peer n (map fst (filter (\<lambda>p. \<not> omap_count (fst p) effective) (peers n))))"

definition RefreshMembership :: "('s RaftNode, unit) eff" where
  "RefreshMembership n =
     (let (r, effective, self, pend) =
            efor [snapshot_index (rlog n) + 1 ..< LastIndex (rlog n) + 1] (refresh_entry n)
              (base_peers (mship n), ms_self_is_member (mship n), 0)
      in case r of
           Inl e \<Rightarrow> (Inl e, n\<lparr>pending_self_removal_index := pend\<rparr>)
         | Inr _ \<Rightarrow> (Inr (), adopt_peers effective
                       (n\<lparr>pending_self_removal_index := pend, self_is_member := self\<rparr>)))"

definition BecomeLeader :: "nat \<Rightarrow> ('s RaftNode, unit) eff" where
  "BecomeLeader now = ebind RefreshMembership (\<lambda>_. emodify (\<lambda>n.
     n\<lparr>role := Leader, leader_hint := node_id n, next_heartbeat_time := now, replication_in_flight := {},
       next_index := foldl (\<lambda>m p. omap_set (fst p) (LastIndex (rlog n) + 1) m) (next_index n) (peers n),
       match_index := foldl (\<lambda>m p. omap_set (fst p) 0 m) (match_index n) (peers n)\<rparr>))"

section \<open>Applying committed entries\<close>

definition apply_step :: "'s callbacks \<Rightarrow> ('s RaftNode, unit) eff" where
  "apply_step cb n0 =
     (let n = n0\<lparr>last_applied := last_applied n0 + 1\<rparr>;
          finish = (\<lambda>n. (Inr (), n\<lparr>rlog := SetAppliedIndex (last_applied n) (rlog n)\<rparr>))
      in case At (rlog n) (last_applied n) of
           None \<Rightarrow> finish n
         | Some entry \<Rightarrow> (case TryDecodeConfChange (le_command entry) of
               Inl e \<Rightarrow> (Inl e, n)
             | Inr (Some _) \<Rightarrow> finish n
             | Inr None \<Rightarrow>
                 let (err, m) = apply_cb cb (le_index entry) (le_command entry) (machine n)
                 in finish (n\<lparr>machine := m,
                      apply_errors := (if err \<noteq> [] then omap_set (le_index entry) err (apply_errors n)
                                       else apply_errors n)\<rparr>)))"

text \<open>The membership changes about to be compacted away.\<close>

definition fold_entry :: "'s RaftNode \<Rightarrow> LogIndex \<Rightarrow> (peer_map \<times> bool \<times> bool, unit) eff" where
  "fold_entry n i st = (case At (rlog n) i of
       None \<Rightarrow> (Inr (), st)
     | Some entry \<Rightarrow> (case TryDecodeConfChange (le_command entry) of
           Inl e \<Rightarrow> (Inl e, st)
         | Inr None \<Rightarrow> (Inr (), st)
         | Inr (Some cc) \<Rightarrow>
             let (base, self, changed) = st
             in (Inr (),
                 if cc_type cc = kAddServer
                 then (if cc_server_id cc = node_id n then (base, True, True)
                       else (omap_set (cc_server_id cc) \<lparr>host = cc_host cc, port = cc_port cc\<rparr> base, self, True))
                 else if cc_server_id cc = node_id n then (base, False, True)
                 else (omap_erase (cc_server_id cc) base, self, True))))"

definition compact_applied :: "('s RaftNode, unit) eff" where
  "compact_applied n =
     (let old = snapshot_index (rlog n)
      in if last_applied n < old \<or> kCompactionThreshold \<le> last_applied n - old
         then
           let (r, base, self, changed) =
                 efor [old + 1 ..< last_applied n + 1] (fold_entry n)
                   (base_peers (mship n), ms_self_is_member (mship n), False)
           in case r of
                Inl e \<Rightarrow> (Inl e, n)
              | Inr _ \<Rightarrow> (Inr (), n\<lparr>mship := (if changed then ms_Set base self (own_address n) (mship n) else mship n),
                   rlog := CompactTo (last_applied n) (TermAt (rlog n) (last_applied n)) (rlog n),
                   apply_errors := filter (\<lambda>e. old < fst e) (apply_errors n)\<rparr>)
         else (Inr (), n))"

definition ApplyCommitted :: "'s callbacks \<Rightarrow> ('s RaftNode, unit) eff" where
  "ApplyCommitted cb n =
     ebind (efor [last_applied n ..< commit_index n] (\<lambda>_. apply_step cb)) (\<lambda>_. compact_applied) n"

section \<open>Votes\<close>

definition HandleRequestVote :: "nat \<Rightarrow> nat \<Rightarrow> RequestVoteRequest \<Rightarrow> 's RaftNode \<Rightarrow> RequestVoteResponse \<times> 's RaftNode" where
  "HandleRequestVote now rnd req n =
     (if now - last_leader_contact n < kElectionTimeoutMinMs
      then (\<lparr>rvr_term = term_of n, rvr_vote_granted = False\<rparr>, n)
      else if rvq_term req < term_of n
      then (\<lparr>rvr_term = term_of n, rvr_vote_granted = False\<rparr>, n)
      else
        let n = (if term_of n < rvq_term req then BecomeFollower now rnd (rvq_term req) n else n);
            already_voted_elsewhere = (case voted_for (hard n) of None \<Rightarrow> False | Some v \<Rightarrow> v \<noteq> rvq_candidate_id req);
            my_last_term = LastTerm (rlog n);
            my_last_index = LastIndex (rlog n);
            candidate_log_ok = (my_last_term < rvq_last_log_term req \<or>
               rvq_last_log_term req = my_last_term \<and> my_last_index \<le> rvq_last_log_index req)
        in if \<not> already_voted_elsewhere \<and> candidate_log_ok
           then let n = ResetElectionDeadline now rnd
                          (n\<lparr>hard := ps_Set (term_of n) (Some (rvq_candidate_id req)) (hard n)\<rparr>)
                in (\<lparr>rvr_term = term_of n, rvr_vote_granted = True\<rparr>, n)
           else (\<lparr>rvr_term = term_of n, rvr_vote_granted = False\<rparr>, n))"

definition has_majority :: "'s RaftNode \<Rightarrow> bool" where
  "has_majority n \<longleftrightarrow> length (peers n) + 1 < votes_received n * 2"

text \<open>The requests an election sends, one to each peer.\<close>

definition StartElection :: "nat \<Rightarrow> nat \<Rightarrow> ('s RaftNode, (NodeId \<times> RequestVoteRequest) list) eff" where
  "StartElection now rnd = ebind RefreshMembership (\<lambda>_ n.
     if \<not> self_is_member n then (Inr [], ResetElectionDeadline now rnd n)
     else
       let n = ResetElectionDeadline now rnd
                 (n\<lparr>hard := ps_Set (term_of n + 1) (Some (node_id n)) (hard n), role := Candidate,
                    votes_received := 1\<rparr>)
       in if has_majority n then ebind (BecomeLeader now) (\<lambda>_. eret []) n
          else (Inr (map (\<lambda>p. (fst p, \<lparr>rvq_term = term_of n, rvq_candidate_id = node_id n,
                  rvq_last_log_index = LastIndex (rlog n), rvq_last_log_term = LastTerm (rlog n)\<rparr>)) (peers n)), n))"

definition HandleVoteReply :: "nat \<Rightarrow> nat \<Rightarrow> Term \<Rightarrow> RequestVoteResponse \<Rightarrow> ('s RaftNode, unit) eff" where
  "HandleVoteReply now rnd election_term resp n =
     (if term_of n < rvr_term resp then (Inr (), BecomeFollower now rnd (rvr_term resp) n)
      else if role n \<noteq> Candidate \<or> election_term \<noteq> term_of n then (Inr (), n)
      else if rvr_vote_granted resp
      then let n = n\<lparr>votes_received := votes_received n + 1\<rparr>
           in if has_majority n then BecomeLeader now n else (Inr (), n)
      else (Inr (), n))"

section \<open>Entries\<close>

definition follow_leader :: "nat \<Rightarrow> nat \<Rightarrow> Term \<Rightarrow> NodeId \<Rightarrow> 's RaftNode \<Rightarrow> 's RaftNode" where
  "follow_leader now rnd t leader n =
     (let n = (if term_of n < t \<or> role n \<noteq> Follower then BecomeFollower now rnd t n else n)
      in (ResetElectionDeadline now rnd n)\<lparr>last_leader_contact := now, leader_hint := leader\<rparr>)"

definition commit_from_leader :: "'s callbacks \<Rightarrow> AppendEntriesRequest \<Rightarrow> ('s RaftNode, AppendEntriesResponse) eff" where
  "commit_from_leader cb req = ebind RefreshMembership (\<lambda>_.
     ebind (\<lambda>n. if commit_index n < aeq_leader_commit req
                then ApplyCommitted cb (n\<lparr>commit_index := min (aeq_leader_commit req) (LastIndex (rlog n))\<rparr>)
                else (Inr (), n)) (\<lambda>_.
     eread (\<lambda>n. \<lparr>aer_term = term_of n, aer_success = True,
                aer_match_index = aeq_prev_log_index req + length (aeq_entries req)\<rparr>)))"

definition HandleAppendEntries ::
  "'s callbacks \<Rightarrow> nat \<Rightarrow> nat \<Rightarrow> AppendEntriesRequest \<Rightarrow> ('s RaftNode, AppendEntriesResponse) eff" where
  "HandleAppendEntries cb now rnd req n =
     (if aeq_term req < term_of n
      then (Inr \<lparr>aer_term = term_of n, aer_success = False, aer_match_index = 0\<rparr>, n)
      else
        let n = follow_leader now rnd (aeq_term req) (aeq_leader_id req) n;
            (success, l) = AppendEntriesFrom (aeq_prev_log_index req) (aeq_prev_log_term req) (aeq_entries req) (rlog n);
            n = n\<lparr>rlog := l\<rparr>
        in if \<not> success then (Inr \<lparr>aer_term = term_of n, aer_success = False, aer_match_index = 0\<rparr>, n)
           else commit_from_leader cb req n)"

definition majority_index :: "'s RaftNode \<Rightarrow> LogIndex" where
  "majority_index n =
     (let match_indices = rev (sort (LastIndex (rlog n) # map snd (match_index n)))
      in match_indices ! (length match_indices div 2))"

definition step_down_if_removed :: "('s RaftNode, unit) eff" where
  "step_down_if_removed n =
     (if pending_self_removal_index n \<noteq> 0 \<and> pending_self_removal_index n \<le> commit_index n
      then ebind RefreshMembership (\<lambda>_. emodify (\<lambda>n'.
             if role n = Leader \<and> \<not> self_is_member n' then n'\<lparr>role := Follower\<rparr> else n')) n
      else (Inr (), n))"

definition MaybeAdvanceCommitIndex :: "'s callbacks \<Rightarrow> ('s RaftNode, unit) eff" where
  "MaybeAdvanceCommitIndex cb n =
     (if commit_index n < majority_index n \<and> TermAt (rlog n) (majority_index n) = term_of n
      then ebind (ApplyCommitted cb) (\<lambda>_. step_down_if_removed) (n\<lparr>commit_index := majority_index n\<rparr>)
      else (Inr (), n))"

datatype replicate_action = NoSend | SendAppend AppendEntriesRequest | NeedSnapshot Term

definition ReplicateTo :: "NodeId \<Rightarrow> 's RaftNode \<Rightarrow> replicate_action \<times> 's RaftNode" where
  "ReplicateTo peer_id n =
     (if role n \<noteq> Leader \<or> peer_id \<in> replication_in_flight n then (NoSend, n)
      else
        let next_idx = omap_get_default 0 peer_id (next_index n);
            n = n\<lparr>next_index := omap_emplace peer_id 0 (next_index n),
                  replication_in_flight := insert peer_id (replication_in_flight n)\<rparr>
        in if next_idx \<le> snapshot_index (rlog n) then (NeedSnapshot (term_of n), n)
           else (SendAppend \<lparr>aeq_term = term_of n, aeq_leader_id = node_id n,
                   aeq_prev_log_index = next_idx - 1,
                   aeq_prev_log_term = TermAt (rlog n) (next_idx - 1),
                   aeq_entries = concat (map (\<lambda>i. case At (rlog n) i of None \<Rightarrow> [] | Some e \<Rightarrow> [e])
                                   [next_idx ..< LastIndex (rlog n) + 1]),
                   aeq_leader_commit = commit_index n\<rparr>, n))"

text \<open>The peers a round of replication contacts, each with \<open>ReplicateTo\<close>.\<close>

definition ReplicateToAll :: "'s RaftNode \<Rightarrow> peer_map" where
  "ReplicateToAll n = (if role n \<noteq> Leader then [] else peers n)"

definition HandleSendFailure :: "NodeId \<Rightarrow> 's RaftNode \<Rightarrow> 's RaftNode" where
  "HandleSendFailure peer_id n = n\<lparr>replication_in_flight := replication_in_flight n - {peer_id}\<rparr>"

definition HandleAppendReply ::
  "'s callbacks \<Rightarrow> nat \<Rightarrow> nat \<Rightarrow> NodeId \<Rightarrow> Term \<Rightarrow> LogIndex \<Rightarrow> nat \<Rightarrow> AppendEntriesResponse \<Rightarrow> ('s RaftNode, unit) eff" where
  "HandleAppendReply cb now rnd peer_id t prev_log_index sent_count resp n0 =
     (let n = HandleSendFailure peer_id n0
      in if \<not> omap_count peer_id (peers n) then (Inr (), n)
         else if term_of n < aer_term resp then (Inr (), BecomeFollower now rnd (aer_term resp) n)
         else if role n \<noteq> Leader \<or> t \<noteq> term_of n then (Inr (), n)
         else if aer_success resp
         then let new_match = max (omap_get_default 0 peer_id (match_index n)) (prev_log_index + sent_count)
              in MaybeAdvanceCommitIndex cb (n\<lparr>match_index := omap_set peer_id new_match (match_index n),
                                               next_index := omap_set peer_id (new_match + 1) (next_index n)\<rparr>)
         else let next_idx = omap_get_default 0 peer_id (next_index n)
              in (Inr (), n\<lparr>next_index := omap_set peer_id (if 1 < next_idx then next_idx - 1 else next_idx) (next_index n)\<rparr>))"

section \<open>Snapshots\<close>

definition SendInstallSnapshot ::
  "'s callbacks \<Rightarrow> NodeId \<Rightarrow> Term \<Rightarrow> 's RaftNode \<Rightarrow> InstallSnapshotRequest option \<times> 's RaftNode" where
  "SendInstallSnapshot cb peer_id t n =
     (if role n \<noteq> Leader \<or> t \<noteq> term_of n then (None, HandleSendFailure peer_id n)
      else (Some \<lparr>isq_term = t, isq_leader_id = node_id n, isq_last_included_index = last_applied n,
              isq_last_included_term = TermAt (rlog n) (last_applied n), isq_data = snapshot_cb cb (machine n),
              isq_membership = omap_set (node_id n) (own_address n) (peers n)\<rparr>, n))"

definition HandleSnapshotReply ::
  "nat \<Rightarrow> nat \<Rightarrow> NodeId \<Rightarrow> Term \<Rightarrow> LogIndex \<Rightarrow> InstallSnapshotResponse \<Rightarrow> 's RaftNode \<Rightarrow> 's RaftNode" where
  "HandleSnapshotReply now rnd peer_id t snap resp n0 =
     (let n = HandleSendFailure peer_id n0
      in if \<not> omap_count peer_id (peers n) then n
         else if term_of n < isr_term resp then BecomeFollower now rnd (isr_term resp) n
         else if role n \<noteq> Leader \<or> t \<noteq> term_of n then n
         else n\<lparr>next_index := omap_set peer_id (snap + 1) (next_index n),
                match_index := omap_set peer_id snap (match_index n)\<rparr>)"

text \<open>Installing a snapshot: a first critical section, the restore without the mutex, a second critical
  section.\<close>

definition InstallSnapshot_begin ::
  "nat \<Rightarrow> nat \<Rightarrow> InstallSnapshotRequest \<Rightarrow> 's RaftNode \<Rightarrow> InstallSnapshotResponse option \<times> 's RaftNode" where
  "InstallSnapshot_begin now rnd req n =
     (if isq_term req < term_of n then (Some \<lparr>isr_term = term_of n\<rparr>, n)
      else
        let n = follow_leader now rnd (isq_term req) (isq_leader_id req) n
        in if isq_last_included_index req \<le> snapshot_index (rlog n) then (Some \<lparr>isr_term = term_of n\<rparr>, n)
           else (None, n))"

definition InstallSnapshot_restore :: "'s callbacks \<Rightarrow> InstallSnapshotRequest \<Rightarrow> 's RaftNode \<Rightarrow> 's RaftNode" where
  "InstallSnapshot_restore cb req n = n\<lparr>machine := restore_cb cb (isq_data req) (machine n)\<rparr>"

definition adopt_snapshot :: "InstallSnapshotRequest \<Rightarrow> 's RaftNode \<Rightarrow> 's RaftNode" where
  "adopt_snapshot req n =
     (let i = isq_last_included_index req;
          n = n\<lparr>rlog := CompactTo i (isq_last_included_term req) (rlog n),
                commit_index := max (commit_index n) i\<rparr>;
          n = (if last_applied n < i then n\<lparr>last_applied := i, rlog := SetAppliedIndex i (rlog n)\<rparr> else n);
          self_member = omap_count (node_id n) (isq_membership req);
          n = n\<lparr>own_address := omap_get_default (own_address n) (node_id n) (isq_membership req)\<rparr>
      in n\<lparr>mship := ms_Set (omap_erase (node_id n) (isq_membership req)) self_member (own_address n) (mship n)\<rparr>)"

definition InstallSnapshot_end :: "InstallSnapshotRequest \<Rightarrow> ('s RaftNode, InstallSnapshotResponse) eff" where
  "InstallSnapshot_end req n =
     (if snapshot_index (rlog n) < isq_last_included_index req
      then ebind RefreshMembership (\<lambda>_. eread (\<lambda>n. \<lparr>isr_term = term_of n\<rparr>)) (adopt_snapshot req n)
      else (Inr \<lparr>isr_term = term_of n\<rparr>, n))"

definition HandleInstallSnapshot ::
  "'s callbacks \<Rightarrow> nat \<Rightarrow> nat \<Rightarrow> InstallSnapshotRequest \<Rightarrow> ('s RaftNode, InstallSnapshotResponse) eff" where
  "HandleInstallSnapshot cb now rnd req n =
     (case InstallSnapshot_begin now rnd req n of
        (Some resp, n) \<Rightarrow> (Inr resp, n)
      | (None, n) \<Rightarrow> InstallSnapshot_end req (InstallSnapshot_restore cb req n))"

section \<open>Clients\<close>

definition HandleReadRequest :: "'s callbacks \<Rightarrow> ReadRequest \<Rightarrow> 's RaftNode \<Rightarrow> ReadResponse" where
  "HandleReadRequest cb req n = (case read_cb cb (rdq_query req) (machine n) of
       Inr r \<Rightarrow> \<lparr>rdr_error = False, rdr_result = r\<rparr>
     | Inl e \<Rightarrow> \<lparr>rdr_error = True, rdr_result = what e\<rparr>)"

definition HandleDescribeCluster :: "'s RaftNode \<Rightarrow> DescribeClusterResponse" where
  "HandleDescribeCluster n = \<lparr>dcr_id = node_id n, dcr_own_address = own_address n, dcr_peers = peers n\<rparr>"

fun conf_pending :: "RaftLog \<Rightarrow> LogIndex list \<Rightarrow> bool res" where
  "conf_pending l [] = Inr False"
| "conf_pending l (i # is) = (case At l i of
       None \<Rightarrow> conf_pending l is
     | Some entry \<Rightarrow> rbind (TryDecodeConfChange (le_command entry)) (\<lambda>cc.
         if cc \<noteq> None then Inr True else conf_pending l is))"

text \<open>Why \<^verbatim>\<open>Propose\<close> refuses a command, if it does.\<close>

definition propose_check :: "string \<Rightarrow> 's RaftNode \<Rightarrow> string option res" where
  "propose_check command n = rbind (TryDecodeConfChange command) (\<lambda>d. case d of
       None \<Rightarrow> Inr None
     | Some cc \<Rightarrow> rbind (conf_pending (rlog n) [commit_index n + 1 ..< LastIndex (rlog n) + 1]) (\<lambda>pend.
         if pend then Inr (Some ''a membership change is already pending'')
         else if cc_type cc = kAddServer
         then (if cc_server_id cc = node_id n \<or> omap_count (cc_server_id cc) (peers n)
               then Inr (Some (''server '' @ to_string (unat (cc_server_id cc)) @ '' is already a member''))
               else Inr None)
         else (if cc_server_id cc \<noteq> node_id n \<and> \<not> omap_count (cc_server_id cc) (peers n)
               then Inr (Some (''server '' @ to_string (unat (cc_server_id cc)) @ '' is not a member''))
               else Inr None)))"

datatype propose_outcome = ProposeNotLeader | ProposeRejected string | ProposeAppended LogIndex

definition Propose_begin :: "'s callbacks \<Rightarrow> string \<Rightarrow> ('s RaftNode, propose_outcome) eff" where
  "Propose_begin cb command n =
     (if role n \<noteq> Leader then (Inr ProposeNotLeader, n)
      else case propose_check command n of
        Inl e \<Rightarrow> (Inl e, n)
      | Inr (Some err) \<Rightarrow> (Inr (ProposeRejected err), n)
      | Inr None \<Rightarrow>
          let (index, l) = log_Append (term_of n) command (rlog n)
          in ebind RefreshMembership (\<lambda>_. ebind (MaybeAdvanceCommitIndex cb) (\<lambda>_. eret (ProposeAppended index)))
               (n\<lparr>rlog := l\<rparr>))"

text \<open>After the wait: committed or not, and the error the application reported.\<close>

definition Propose_end :: "LogIndex \<Rightarrow> 's RaftNode \<Rightarrow> bool \<times> string" where
  "Propose_end index n =
     (if index \<le> commit_index n then (True, omap_get_default [] index (apply_errors n)) else (False, []))"

definition client_response :: "bool \<Rightarrow> LogIndex \<Rightarrow> string \<Rightarrow> 's RaftNode \<Rightarrow> ClientResponse" where
  "client_response committed index apply_error n =
     (if \<not> committed then
        (if apply_error \<noteq> []
         then \<lparr>crr_success = False, crr_index = 0, crr_not_leader = False, crr_leader_hint = node_id n, crr_error = apply_error\<rparr>
         else \<lparr>crr_success = False, crr_index = 0, crr_not_leader = (role n \<noteq> Leader), crr_leader_hint = leader_hint n,
               crr_error = ''propose failed or timed out''\<rparr>)
      else if apply_error \<noteq> []
      then \<lparr>crr_success = False, crr_index = index, crr_not_leader = False, crr_leader_hint = node_id n, crr_error = apply_error\<rparr>
      else \<lparr>crr_success = True, crr_index = index, crr_not_leader = False, crr_leader_hint = node_id n, crr_error = []\<rparr>)"

definition not_leader_response :: "'s RaftNode \<Rightarrow> ClientResponse" where
  "not_leader_response n = \<lparr>crr_success = False, crr_index = 0, crr_not_leader = True,
     crr_leader_hint = leader_hint n, crr_error = ''not the leader''\<rparr>"

text \<open>The whole of \<^verbatim>\<open>Propose\<close> and \<^verbatim>\<open>HandleClientRequest\<close>: \<open>wait\<close> is what happens to the node
  between the append and the end of the wait, whatever other threads do.\<close>

definition Propose ::
  "'s callbacks \<Rightarrow> (LogIndex \<Rightarrow> 's RaftNode \<Rightarrow> 's RaftNode) \<Rightarrow> string \<Rightarrow> ('s RaftNode, bool \<times> LogIndex \<times> string) eff" where
  "Propose cb wait command = ebind (Propose_begin cb command) (\<lambda>out n. case out of
       ProposeNotLeader \<Rightarrow> (Inr (False, 0, []), n)
     | ProposeRejected err \<Rightarrow> (Inr (False, 0, err), n)
     | ProposeAppended index \<Rightarrow>
         let n = wait index n; (committed, err) = Propose_end index n
         in (Inr (committed, index, err), n))"

definition HandleClientRequest ::
  "'s callbacks \<Rightarrow> (LogIndex \<Rightarrow> 's RaftNode \<Rightarrow> 's RaftNode) \<Rightarrow> string \<Rightarrow> ('s RaftNode, ClientResponse) eff" where
  "HandleClientRequest cb wait command n =
     (if role n \<noteq> Leader then (Inr (not_leader_response n), n)
      else ebind (Propose cb wait command) (\<lambda>(ok, index, err). eread (client_response ok index err)) n)"

definition HandleMessage ::
  "'s callbacks \<Rightarrow> (LogIndex \<Rightarrow> 's RaftNode \<Rightarrow> 's RaftNode) \<Rightarrow> nat \<Rightarrow> nat \<Rightarrow> string \<Rightarrow> ('s RaftNode, string) eff" where
  "HandleMessage cb wait now rnd body =
     ebind (elift (PeekMessageType body)) (\<lambda>t.
       if t = kRequestVoteRequest then
         ebind (elift (DecodeRequestVoteRequest body)) (\<lambda>req n.
           let (resp, n) = HandleRequestVote now rnd req n in (Inr (EncodeRequestVoteResponse resp), n))
       else if t = kAppendEntriesRequest then
         ebind (elift (DecodeAppendEntriesRequest body)) (\<lambda>req.
           ebind (HandleAppendEntries cb now rnd req) (\<lambda>resp. eret (EncodeAppendEntriesResponse resp)))
       else if t = kClientRequest then
         ebind (elift (DecodeClientRequest body)) (\<lambda>req.
           ebind (HandleClientRequest cb wait (crq_command req)) (\<lambda>resp. eret (EncodeClientResponse resp)))
       else if t = kInstallSnapshotRequest then
         ebind (elift (DecodeInstallSnapshotRequest body)) (\<lambda>req.
           ebind (HandleInstallSnapshot cb now rnd req) (\<lambda>resp. eret (EncodeInstallSnapshotResponse resp)))
       else if t = kReadRequest then
         ebind (elift (DecodeReadRequest body)) (\<lambda>req. eread (\<lambda>n. EncodeReadResponse (HandleReadRequest cb req n)))
       else if t = kDescribeClusterRequest then
         ebind (elift (DecodeDescribeClusterRequest body)) (\<lambda>_. eread (\<lambda>n. EncodeDescribeClusterResponse (HandleDescribeCluster n)))
       else ethrow (RuntimeError ''unexpected message type received''))"

section \<open>Forwarding\<close>

text \<open>\<^verbatim>\<open>ProposeOrForward\<close>.  \<open>send\<close> is the transport (\<open>None\<close>: it threw), \<open>obs k\<close>
  is the node as the \<open>k\<close>-th round of the loop sees it (other threads run in between), and
  \<open>LocalProposal\<close> stands for the call of \<^verbatim>\<open>HandleClientRequest\<close> on this node.\<close>

definition kMaxForwardHops :: nat where "kMaxForwardHops = 3"

datatype forward_outcome = LocalProposal | ForwardAnswer ClientResponse

definition forward_failed :: "NodeId \<Rightarrow> string \<Rightarrow> forward_outcome res" where
  "forward_failed hint msg = Inr (ForwardAnswer \<lparr>crr_success = False, crr_index = 0, crr_not_leader = True,
     crr_leader_hint = hint, crr_error = msg\<rparr>)"

fun forward_loop ::
  "(PeerAddress \<Rightarrow> string \<Rightarrow> string option) \<Rightarrow> (nat \<Rightarrow> 's RaftNode) \<Rightarrow> string \<Rightarrow> nat \<Rightarrow> NodeId \<Rightarrow> forward_outcome res"
where
  "forward_loop send obs command 0 target = forward_failed target ''too many redirects while locating the leader''"
| "forward_loop send obs command (Suc hops) target =
     (let n = obs (kMaxForwardHops - hops)
      in if target = 0 then forward_failed 0 ''no known leader to forward to''
         else if target = node_id n
         then (if role n = Leader then Inr LocalProposal
               else forward_failed 0 ''leader hint pointed back to self while not leader'')
         else (case omap_find target (peers n) of
             None \<Rightarrow> forward_failed target (''unknown leader node id '' @ to_string (unat target))
           | Some addr \<Rightarrow> (case send addr (EncodeClientRequest \<lparr>crq_command = command\<rparr>) of
                 None \<Rightarrow> forward_failed target (''could not reach node '' @ to_string (unat target))
               | Some response \<Rightarrow> rbind (DecodeClientResponse response) (\<lambda>resp.
                   if crr_success resp \<or> \<not> crr_not_leader resp then Inr (ForwardAnswer resp)
                   else if crr_leader_hint resp = 0 \<or> crr_leader_hint resp = target then Inr (ForwardAnswer resp)
                   else forward_loop send obs command hops (crr_leader_hint resp)))))"

definition ProposeOrForward ::
  "(PeerAddress \<Rightarrow> string \<Rightarrow> string option) \<Rightarrow> (nat \<Rightarrow> 's RaftNode) \<Rightarrow> string \<Rightarrow> forward_outcome res"
where
  "ProposeOrForward send obs command =
     (if role (obs 0) = Leader then Inr LocalProposal
      else forward_loop send obs command kMaxForwardHops (leader_hint (obs 0)))"

datatype tick_action = TickNothing | TickElection | TickReplicate

definition Tick :: "nat \<Rightarrow> 's RaftNode \<Rightarrow> tick_action \<times> 's RaftNode" where
  "Tick now n =
     (if role n \<noteq> Leader \<and> election_deadline n \<le> now then (TickElection, n)
      else if role n = Leader \<and> next_heartbeat_time n \<le> now
      then (TickReplicate, n\<lparr>next_heartbeat_time := now + kHeartbeatInterval\<rparr>)
      else (TickNothing, n))"

text \<open>Example nodes, for the applications of the properties: three members, a state machine that collects its
  commands, and a leader and a follower whose logs differ by one entry.\<close>

definition cb_list :: "string list callbacks" where
  "cb_list = \<lparr>apply_cb = (\<lambda>i c m. ([], m @ [c])), snapshot_cb = concat, restore_cb = (\<lambda>d m. [d]),
     read_cb = (\<lambda>q m. Inr (concat m))\<rparr>"

definition addr3 :: PeerAddress where "addr3 = \<lparr>host = ''h'', port = 1\<rparr>"

definition entry3 :: "LogIndex \<Rightarrow> LogEntry" where
  "entry3 i = \<lparr>le_index = i, le_term = 1, le_command = ''x''\<rparr>"

definition node3 :: "NodeId \<Rightarrow> peer_map \<Rightarrow> Role \<Rightarrow> LogEntry list \<Rightarrow> LogIndex \<Rightarrow> (NodeId, LogIndex) omap \<Rightarrow> string list RaftNode"
where
  "node3 i ps r es next matches = \<lparr>node_id = i, own_address = addr3, peers = ps, hard = ps_Set 1 (Some 1) ps_new,
     rlog = log_Save (log_new\<lparr>lg_entries := es\<rparr>), mship = ms_Set ps True addr3 ms_new, role = r,
     leader_hint = 1, commit_index = 0, last_applied = 0, self_is_member = True, pending_self_removal_index = 0,
     joining = False, apply_errors = [], election_deadline = 0, next_heartbeat_time = 0, votes_received = 0,
     last_leader_contact = 0, next_index = map (\<lambda>p. (fst p, next)) ps, match_index = matches,
     replication_in_flight = {}, machine = []\<rparr>"

definition leader3 :: "string list RaftNode" where
  "leader3 = node3 1 [(2, addr3), (3, addr3)] Leader [entry3 1, entry3 2] 2 [(2, 2), (3, 0)]"

definition follower3 :: "string list RaftNode" where
  "follower3 = node3 2 [(1, addr3), (3, addr3)] Follower [entry3 1] 0 []"

end
