(* ===== verification/Raft_Step.thy ===== *)
theory Raft_Step
  imports Raft_Node
begin

text \<open>
  The steps of one Raft node and what they preserve.  \<open>node_step\<close> is the relation of all the
  critical sections of \<^verbatim>\<open>src/raft/node.cpp\<close>, in any order, with a crash and restart from the files as
  one more step; \<open>ok\<close> says which \<^verbatim>\<open>AppendEntries\<close> messages may arrive.  Shown: the term never
  decreases and a vote is never changed within a term, through crashes too, as long as the term stays below \<open>2 ^ 64\<close>
  (\<open>term64\<close> is the 64-bit number of the code); and that the next election after the greatest term takes the node to term 0.
\<close>

section \<open>What the operations leave unchanged\<close>

lemma adopt_peer_frame [simp]:
  "hard (adopt_peer n p) = hard n" "rlog (adopt_peer n p) = rlog n" "mship (adopt_peer n p) = mship n"
  "role (adopt_peer n p) = role n" "node_id (adopt_peer n p) = node_id n" "machine (adopt_peer n p) = machine n"
  "commit_index (adopt_peer n p) = commit_index n" "last_applied (adopt_peer n p) = last_applied n"
  "votes_received (adopt_peer n p) = votes_received n" "own_address (adopt_peer n p) = own_address n"
  "apply_errors (adopt_peer n p) = apply_errors n" "self_is_member (adopt_peer n p) = self_is_member n"
  "pending_self_removal_index (adopt_peer n p) = pending_self_removal_index n"
  "leader_hint (adopt_peer n p) = leader_hint n"
  by (simp_all add: adopt_peer_def Let_def)

lemma drop_peer_frame [simp]:
  "hard (drop_peer n p) = hard n" "rlog (drop_peer n p) = rlog n" "mship (drop_peer n p) = mship n"
  "role (drop_peer n p) = role n" "node_id (drop_peer n p) = node_id n" "machine (drop_peer n p) = machine n"
  "commit_index (drop_peer n p) = commit_index n" "last_applied (drop_peer n p) = last_applied n"
  "votes_received (drop_peer n p) = votes_received n" "own_address (drop_peer n p) = own_address n"
  "apply_errors (drop_peer n p) = apply_errors n" "self_is_member (drop_peer n p) = self_is_member n"
  "pending_self_removal_index (drop_peer n p) = pending_self_removal_index n"
  "leader_hint (drop_peer n p) = leader_hint n"
  by (simp_all add: drop_peer_def)

lemma foldl_frame: "(\<And>s x. f (g s x) = f s) \<Longrightarrow> f (foldl g s xs) = f s"
  by (induction xs arbitrary: s) simp_all

lemma adopt_peers_frame [simp]:
  "hard (adopt_peers e n) = hard n" "rlog (adopt_peers e n) = rlog n" "mship (adopt_peers e n) = mship n"
  "role (adopt_peers e n) = role n" "node_id (adopt_peers e n) = node_id n" "machine (adopt_peers e n) = machine n"
  "commit_index (adopt_peers e n) = commit_index n" "last_applied (adopt_peers e n) = last_applied n"
  "votes_received (adopt_peers e n) = votes_received n" "own_address (adopt_peers e n) = own_address n"
  "apply_errors (adopt_peers e n) = apply_errors n" "self_is_member (adopt_peers e n) = self_is_member n"
  "pending_self_removal_index (adopt_peers e n) = pending_self_removal_index n"
  "leader_hint (adopt_peers e n) = leader_hint n"
  by (simp_all add: adopt_peers_def Let_def foldl_frame)

text \<open>Refreshing the membership changes the peer table, the tables kept per peer, and the two membership flags.\<close>

lemma RefreshMembership_cases:
  obtains (throws) e pend where "RefreshMembership n = (Inl e, n\<lparr>pending_self_removal_index := pend\<rparr>)"
  | (returns) effective self pend where "RefreshMembership n = (Inr (), adopt_peers effective
      (n\<lparr>pending_self_removal_index := pend, self_is_member := self\<rparr>))"
proof -
  obtain r effective self pend where l: "efor [snapshot_index (rlog n) + 1 ..< LastIndex (rlog n) + 1] (refresh_entry n)
      (base_peers (mship n), ms_self_is_member (mship n), 0) = (r, effective, self, pend)"
    by (metis prod_cases4)
  show thesis
    by (cases r) (use l throws returns in \<open>simp_all only: RefreshMembership_def Let_def prod.case sum.case\<close>)
qed

lemma RefreshMembership_frame [simp]:
  "hard (snd (RefreshMembership n)) = hard n" "rlog (snd (RefreshMembership n)) = rlog n"
  "mship (snd (RefreshMembership n)) = mship n" "role (snd (RefreshMembership n)) = role n"
  "node_id (snd (RefreshMembership n)) = node_id n" "machine (snd (RefreshMembership n)) = machine n"
  "commit_index (snd (RefreshMembership n)) = commit_index n"
  "last_applied (snd (RefreshMembership n)) = last_applied n"
  "votes_received (snd (RefreshMembership n)) = votes_received n"
  "own_address (snd (RefreshMembership n)) = own_address n" "apply_errors (snd (RefreshMembership n)) = apply_errors n"
  "leader_hint (snd (RefreshMembership n)) = leader_hint n"
  by (rule RefreshMembership_cases [of n]; simp)+

lemma RefreshMembership_pair:
  "RefreshMembership n = (r, n') \<Longrightarrow> hard n' = hard n \<and> rlog n' = rlog n \<and> mship n' = mship n \<and> role n' = role n \<and>
     node_id n' = node_id n \<and> machine n' = machine n \<and> commit_index n' = commit_index n \<and>
     last_applied n' = last_applied n \<and> votes_received n' = votes_received n \<and> own_address n' = own_address n"
  using RefreshMembership_frame [of n] by simp

lemma frame_keeps: "(\<And>c. keeps (\<lambda>s. f s = c) m) \<Longrightarrow> f (snd (m s)) = f s"
  using keepsD [of "\<lambda>t. f t = f s" m s] by simp

lemma apply_step_frame [simp]:
  "hard (snd (apply_step cb n)) = hard n" "role (snd (apply_step cb n)) = role n"
  "node_id (snd (apply_step cb n)) = node_id n" "commit_index (snd (apply_step cb n)) = commit_index n"
  "votes_received (snd (apply_step cb n)) = votes_received n" "peers (snd (apply_step cb n)) = peers n"
  "match_index (snd (apply_step cb n)) = match_index n" "next_index (snd (apply_step cb n)) = next_index n"
  "mship (snd (apply_step cb n)) = mship n" "own_address (snd (apply_step cb n)) = own_address n"
  "last_applied (snd (apply_step cb n)) = Suc (last_applied n)" "leader_hint (snd (apply_step cb n)) = leader_hint n"
  "self_is_member (snd (apply_step cb n)) = self_is_member n"
  "pending_self_removal_index (snd (apply_step cb n)) = pending_self_removal_index n"
  "joining (snd (apply_step cb n)) = joining n" "election_deadline (snd (apply_step cb n)) = election_deadline n"
  "replication_in_flight (snd (apply_step cb n)) = replication_in_flight n"
  by (simp_all add: apply_step_def Let_def split: option.split sum.split prod.split)

lemma compact_applied_frame [simp]:
  "hard (snd (compact_applied n)) = hard n" "role (snd (compact_applied n)) = role n"
  "node_id (snd (compact_applied n)) = node_id n" "commit_index (snd (compact_applied n)) = commit_index n"
  "votes_received (snd (compact_applied n)) = votes_received n" "peers (snd (compact_applied n)) = peers n"
  "match_index (snd (compact_applied n)) = match_index n" "next_index (snd (compact_applied n)) = next_index n"
  "own_address (snd (compact_applied n)) = own_address n" "last_applied (snd (compact_applied n)) = last_applied n"
  "machine (snd (compact_applied n)) = machine n" "leader_hint (snd (compact_applied n)) = leader_hint n"
  "self_is_member (snd (compact_applied n)) = self_is_member n"
  "pending_self_removal_index (snd (compact_applied n)) = pending_self_removal_index n"
  "replication_in_flight (snd (compact_applied n)) = replication_in_flight n"
  by (simp_all add: compact_applied_def Let_def split: prod.split sum.split)

lemma ApplyCommitted_frameI:
  assumes "\<And>n. f (snd (apply_step cb n)) = f n" and "\<And>n. f (snd (compact_applied n)) = f n"
  shows "f (snd (ApplyCommitted cb n)) = f n"
proof -
  have "keeps (\<lambda>s. f s = f n) (ebind (efor [last_applied n ..< commit_index n] (\<lambda>_. apply_step cb)) (\<lambda>_. compact_applied))"
    by (intro keeps_intros keepsI) (simp_all add: assms)
  then show ?thesis unfolding ApplyCommitted_def by (rule keepsD) simp
qed

lemma ApplyCommitted_frame [simp]:
  "hard (snd (ApplyCommitted cb n)) = hard n" "role (snd (ApplyCommitted cb n)) = role n"
  "node_id (snd (ApplyCommitted cb n)) = node_id n" "commit_index (snd (ApplyCommitted cb n)) = commit_index n"
  "votes_received (snd (ApplyCommitted cb n)) = votes_received n" "peers (snd (ApplyCommitted cb n)) = peers n"
  "match_index (snd (ApplyCommitted cb n)) = match_index n" "next_index (snd (ApplyCommitted cb n)) = next_index n"
  "own_address (snd (ApplyCommitted cb n)) = own_address n" "leader_hint (snd (ApplyCommitted cb n)) = leader_hint n"
  "self_is_member (snd (ApplyCommitted cb n)) = self_is_member n"
  "pending_self_removal_index (snd (ApplyCommitted cb n)) = pending_self_removal_index n"
  by (rule ApplyCommitted_frameI; simp)+

lemma keeps_ApplyCommitted:
  assumes "keeps I (apply_step cb)" and "keeps I compact_applied"
  shows "keeps I (ApplyCommitted cb)"
proof (rule keepsI)
  fix n assume "I n"
  moreover have "keeps I (ebind (efor [last_applied n ..< commit_index n] (\<lambda>_. apply_step cb)) (\<lambda>_. compact_applied))"
    using assms by (intro keeps_intros)
  ultimately show "I (snd (ApplyCommitted cb n))" unfolding ApplyCommitted_def by (blast dest: keepsD)
qed

lemma BecomeFollower_frame [simp]:
  "hard (BecomeFollower now rnd t n) = (if term_of n < t then ps_Set t None (hard n) else hard n)"
  "rlog (BecomeFollower now rnd t n) = rlog n" "mship (BecomeFollower now rnd t n) = mship n"
  "role (BecomeFollower now rnd t n) = Follower" "peers (BecomeFollower now rnd t n) = peers n"
  "node_id (BecomeFollower now rnd t n) = node_id n" "machine (BecomeFollower now rnd t n) = machine n"
  "commit_index (BecomeFollower now rnd t n) = commit_index n"
  "last_applied (BecomeFollower now rnd t n) = last_applied n"
  "match_index (BecomeFollower now rnd t n) = match_index n" "next_index (BecomeFollower now rnd t n) = next_index n"
  "own_address (BecomeFollower now rnd t n) = own_address n" "apply_errors (BecomeFollower now rnd t n) = apply_errors n"
  "votes_received (BecomeFollower now rnd t n) = votes_received n"
  by (simp_all add: BecomeFollower_def ResetElectionDeadline_def Let_def)

lemma ResetElectionDeadline_frame [simp]:
  "hard (ResetElectionDeadline now rnd n) = hard n" "rlog (ResetElectionDeadline now rnd n) = rlog n"
  "mship (ResetElectionDeadline now rnd n) = mship n" "role (ResetElectionDeadline now rnd n) = role n"
  "peers (ResetElectionDeadline now rnd n) = peers n" "node_id (ResetElectionDeadline now rnd n) = node_id n"
  "machine (ResetElectionDeadline now rnd n) = machine n"
  "commit_index (ResetElectionDeadline now rnd n) = commit_index n"
  "last_applied (ResetElectionDeadline now rnd n) = last_applied n"
  "match_index (ResetElectionDeadline now rnd n) = match_index n"
  "next_index (ResetElectionDeadline now rnd n) = next_index n"
  "own_address (ResetElectionDeadline now rnd n) = own_address n"
  "apply_errors (ResetElectionDeadline now rnd n) = apply_errors n"
  "votes_received (ResetElectionDeadline now rnd n) = votes_received n"
  "self_is_member (ResetElectionDeadline now rnd n) = self_is_member n"
  by (simp_all add: ResetElectionDeadline_def)

lemma HandleSendFailure_frame [simp]:
  "hard (HandleSendFailure p n) = hard n" "rlog (HandleSendFailure p n) = rlog n"
  "mship (HandleSendFailure p n) = mship n" "role (HandleSendFailure p n) = role n"
  "peers (HandleSendFailure p n) = peers n" "node_id (HandleSendFailure p n) = node_id n"
  "machine (HandleSendFailure p n) = machine n" "commit_index (HandleSendFailure p n) = commit_index n"
  "last_applied (HandleSendFailure p n) = last_applied n" "match_index (HandleSendFailure p n) = match_index n"
  "next_index (HandleSendFailure p n) = next_index n" "own_address (HandleSendFailure p n) = own_address n"
  "apply_errors (HandleSendFailure p n) = apply_errors n" "votes_received (HandleSendFailure p n) = votes_received n"
  by (simp_all add: HandleSendFailure_def)

text \<open>An invariant of the parts is one of the operations built from them.\<close>

lemma keeps_BecomeLeader:
  assumes "keeps I RefreshMembership"
    and "\<And>n. I n \<Longrightarrow> I (n\<lparr>role := Leader, leader_hint := node_id n, next_heartbeat_time := now, replication_in_flight := {},
       next_index := foldl (\<lambda>m p. omap_set (fst p) (LastIndex (rlog n) + 1) m) (next_index n) (peers n),
       match_index := foldl (\<lambda>m p. omap_set (fst p) 0 m) (match_index n) (peers n)\<rparr>)"
  shows "keeps I (BecomeLeader now)"
  unfolding BecomeLeader_def by (intro keeps_intros keeps_modify assms)

lemma keeps_step_down:
  assumes "keeps I RefreshMembership" and "\<And>n. I n \<Longrightarrow> I (n\<lparr>role := Follower\<rparr>)"
  shows "keeps I step_down_if_removed"
proof (rule keepsI)
  fix n assume "I n"
  moreover have "keeps I (ebind RefreshMembership (\<lambda>_. emodify (\<lambda>n'.
      if role n = Leader \<and> \<not> self_is_member n' then n'\<lparr>role := Follower\<rparr> else n')))"
    by (intro keeps_intros keeps_modify) (simp_all add: assms)
  ultimately show "I (snd (step_down_if_removed n))"
    unfolding step_down_if_removed_def by (auto dest: keepsD)
qed

lemma keeps_MaybeAdvance:
  assumes "keeps I RefreshMembership" and "keeps I (ApplyCommitted cb)" and "\<And>n. I n \<Longrightarrow> I (n\<lparr>role := Follower\<rparr>)"
    and "\<And>n i. I n \<Longrightarrow> I (n\<lparr>commit_index := i\<rparr>)"
  shows "keeps I (MaybeAdvanceCommitIndex cb)"
proof (rule keepsI)
  fix n assume "I n"
  moreover have "keeps I (ebind (ApplyCommitted cb) (\<lambda>_. step_down_if_removed))"
    by (intro keeps_intros assms keeps_step_down)
  ultimately show "I (snd (MaybeAdvanceCommitIndex cb n))"
    unfolding MaybeAdvanceCommitIndex_def using assms(4) by (auto dest: keepsD)
qed

text \<open>The tail of an operation keeps the term and vote.\<close>

lemma keeps_hard_parts [keeps_intros]:
  "keeps (\<lambda>n. hard n = h) RefreshMembership" "keeps (\<lambda>n. hard n = h) (ApplyCommitted cb)"
  by (rule keepsI, simp)+

lemma keeps_hard_leader [keeps_intros]: "keeps (\<lambda>n. hard n = h) (BecomeLeader now)"
  by (rule keeps_BecomeLeader) (intro keeps_intros, simp)

lemma keeps_hard_advance [keeps_intros]: "keeps (\<lambda>n. hard n = h) (MaybeAdvanceCommitIndex cb)"
  by (rule keeps_MaybeAdvance) (intro keeps_intros | simp)+

lemmas hard_frame [simp] = keeps_hard_leader [THEN frame_keeps] keeps_hard_advance [THEN frame_keeps]

section \<open>The steps of a node\<close>

text \<open>The bounds within which the three files can hold the state: 64-bit numbers, 32-bit lengths, host names
  without the separators of the text formats.\<close>

definition disk_fits :: "'s RaftNode \<Rightarrow> bool" where
  "disk_fits n \<longleftrightarrow> term_of n < 2 ^ 64 \<and> log_storable (rlog n) \<and> host_ok (host (ms_own_address (mship n))) \<and>
     (\<forall>p \<in> set (base_peers (mship n)). host_ok (host (snd p)))"

text \<open>The steps that are not part of an election, and all steps.\<close>

inductive quiet_step ::
  "'s callbacks \<Rightarrow> (AppendEntriesRequest \<Rightarrow> bool) \<Rightarrow> (InstallSnapshotRequest \<Rightarrow> bool) \<Rightarrow> 's RaftNode \<Rightarrow> 's RaftNode \<Rightarrow> bool"
  for cb aok sok
where
  append_entries: "aok areq \<Longrightarrow> quiet_step cb aok sok n (snd (HandleAppendEntries cb now rnd areq n))"
| replicate: "quiet_step cb aok sok n (snd (ReplicateTo p n))"
| send_failed: "quiet_step cb aok sok n (HandleSendFailure p n)"
| append_reply: "quiet_step cb aok sok n (snd (HandleAppendReply cb now rnd p t prev sent aresp n))"
| send_snapshot: "quiet_step cb aok sok n (snd (SendInstallSnapshot cb p t n))"
| snapshot_reply: "quiet_step cb aok sok n (HandleSnapshotReply now rnd p t snap sresp n)"
| snapshot_begin: "quiet_step cb aok sok n (snd (InstallSnapshot_begin now rnd sreq n))"
| snapshot_restore: "quiet_step cb aok sok n (InstallSnapshot_restore cb sreq n)"
| snapshot_end: "sok sreq \<Longrightarrow> quiet_step cb aok sok n (snd (InstallSnapshot_end sreq n))"
| propose: "quiet_step cb aok sok n (snd (Propose_begin cb command n))"
| tick: "quiet_step cb aok sok n (snd (Tick now n))"
| restart: "disk_fits n \<Longrightarrow>
    RaftNode_new (node_id n) addr ps joins (ps_file (hard n)) (lg_file (rlog n)) (ms_file (mship n)) m = Inr n' \<Longrightarrow>
    quiet_step cb aok sok n n'"

inductive node_step ::
  "'s callbacks \<Rightarrow> (AppendEntriesRequest \<Rightarrow> bool) \<Rightarrow> (InstallSnapshotRequest \<Rightarrow> bool) \<Rightarrow> 's RaftNode \<Rightarrow> 's RaftNode \<Rightarrow> bool"
  for cb aok sok
where
  request_vote: "node_step cb aok sok n (snd (HandleRequestVote now rnd vreq n))"
| election: "node_step cb aok sok n (snd (StartElection now rnd n))"
| vote_reply: "node_step cb aok sok n (snd (HandleVoteReply now rnd t vresp n))"
| quiet: "quiet_step cb aok sok n n' \<Longrightarrow> node_step cb aok sok n n'"

inductive node_steps ::
  "'s callbacks \<Rightarrow> (AppendEntriesRequest \<Rightarrow> bool) \<Rightarrow> (InstallSnapshotRequest \<Rightarrow> bool) \<Rightarrow> 's RaftNode \<Rightarrow> 's RaftNode \<Rightarrow> bool"
  for cb aok sok
where
  none: "node_steps cb aok sok n n"
| more: "node_steps cb aok sok n n' \<Longrightarrow> node_step cb aok sok n' n'' \<Longrightarrow> node_steps cb aok sok n n''"

section \<open>The vote\<close>

text \<open>The order in which a term-and-vote may change, and the term-and-vote file being in step.\<close>

definition vote_le :: "PersistentState \<Rightarrow> PersistentState \<Rightarrow> bool" where
  "vote_le h h' \<longleftrightarrow> current_term h < current_term h' \<or>
     current_term h = current_term h' \<and> (voted_for h = None \<or> voted_for h' = voted_for h)"

definition hard_synced :: "PersistentState \<Rightarrow> bool" where
  "hard_synced h \<longleftrightarrow> (case ps_file h of None \<Rightarrow> h = ps_new | Some s \<Rightarrow> s = ps_text (current_term h) (voted_for h))"

lemma vote_le_refl [simp]: "vote_le h h"
  by (simp add: vote_le_def)

lemma vote_le_trans: "vote_le h h' \<Longrightarrow> vote_le h' h'' \<Longrightarrow> vote_le h h''"
  by (auto simp: vote_le_def)

lemma ps_Set_fields [simp]: "current_term (ps_Set t v h) = t" "voted_for (ps_Set t v h) = v" "hard_synced (ps_Set t v h)"
  by (simp_all add: ps_Set_def hard_synced_def)

lemma vote_le_Set: "current_term h < t \<Longrightarrow> vote_le h (ps_Set t v h)" "voted_for h = None \<Longrightarrow> vote_le h (ps_Set (current_term h) v h)"
  by (simp_all add: vote_le_def)

lemma hard_synced_Load: "hard_synced h \<Longrightarrow> current_term h < 2 ^ 64 \<Longrightarrow> ps_Load (ps_file h) = h"
  using ps_Load_text [of "current_term h" "voted_for h"]
  by (cases "ps_file h") (simp_all add: hard_synced_def ps_Load_def)

text \<open>What any step may do to the term and vote.\<close>

definition hard_evolves :: "PersistentState \<Rightarrow> PersistentState \<Rightarrow> bool" where
  "hard_evolves h h' \<longleftrightarrow> vote_le h h' \<and> (hard_synced h \<longrightarrow> hard_synced h')"

lemma hard_evolves_intros [simp]:
  "hard_evolves h h" "current_term h < t \<Longrightarrow> hard_evolves h (ps_Set t v h)"
  "voted_for h = None \<Longrightarrow> hard_evolves h (ps_Set (current_term h) v h)"
  by (simp_all add: hard_evolves_def vote_le_Set)

lemma hard_evolves_trans: "hard_evolves h h' \<Longrightarrow> hard_evolves h' h'' \<Longrightarrow> hard_evolves h h''"
  by (auto simp: hard_evolves_def intro: vote_le_trans)

lemma HandleRequestVote_hard: "hard_evolves (hard n) (hard (snd (HandleRequestVote now rnd req n)))"
  by (auto simp: HandleRequestVote_def Let_def hard_evolves_def vote_le_def split: option.split)

lemma StartElection_hard:
  "hard (snd (StartElection now rnd n)) = hard n \<or>
   hard (snd (StartElection now rnd n)) = ps_Set (term_of n + 1) (Some (node_id n)) (hard n)"
proof (cases rule: RefreshMembership_cases [of n])
  case (returns e self pend)
  have "hard (snd (ebind (BecomeLeader now) (\<lambda>_. eret ([] :: (NodeId \<times> RequestVoteRequest) list)) m)) = hard m" for m :: "'a RaftNode"
    by (rule frame_keeps) (intro keeps_intros)
  then show ?thesis unfolding StartElection_def ebind_Inr [where m = RefreshMembership, OF returns] by (simp add: Let_def)
qed (simp add: StartElection_def)

lemma HandleVoteReply_hard: "hard_evolves (hard n) (hard (snd (HandleVoteReply now rnd t resp n)))"
  by (simp add: HandleVoteReply_def Let_def)

lemma follow_leader_hard:
  "hard (follow_leader now rnd t leader n) = (if term_of n < t then ps_Set t None (hard n) else hard n)"
  by (simp add: follow_leader_def Let_def)

lemma keeps_hard_commit [keeps_intros]: "keeps (\<lambda>n. hard n = h) (commit_from_leader cb req)"
  unfolding commit_from_leader_def by (intro keeps_intros keepsI) simp

lemma HandleAppendEntries_hard:
  "hard (snd (HandleAppendEntries cb now rnd req n)) =
     (if term_of n < aeq_term req then ps_Set (aeq_term req) None (hard n) else hard n)"
  unfolding HandleAppendEntries_def Let_def
  by (auto simp: follow_leader_hard frame_keeps [OF keeps_hard_commit] split: prod.split)

lemma HandleAppendReply_hard: "hard_evolves (hard n) (hard (snd (HandleAppendReply cb now rnd p t prev sent resp n)))"
  by (simp add: HandleAppendReply_def Let_def)

lemma HandleSnapshotReply_hard: "hard_evolves (hard n) (hard (HandleSnapshotReply now rnd p t snap resp n))"
  by (simp add: HandleSnapshotReply_def Let_def)

lemma InstallSnapshot_begin_hard: "hard_evolves (hard n) (hard (snd (InstallSnapshot_begin now rnd req n)))"
  by (simp add: InstallSnapshot_begin_def Let_def follow_leader_hard)

lemma adopt_snapshot_fields [simp]:
  "hard (adopt_snapshot req n) = hard n" "role (adopt_snapshot req n) = role n" "peers (adopt_snapshot req n) = peers n"
  "node_id (adopt_snapshot req n) = node_id n" "machine (adopt_snapshot req n) = machine n"
  "votes_received (adopt_snapshot req n) = votes_received n"
  "match_index (adopt_snapshot req n) = match_index n" "next_index (adopt_snapshot req n) = next_index n"
  "apply_errors (adopt_snapshot req n) = apply_errors n"
  "commit_index (adopt_snapshot req n) = max (commit_index n) (isq_last_included_index req)"
  "last_applied (adopt_snapshot req n) = max (last_applied n) (isq_last_included_index req)"
  by (simp_all add: adopt_snapshot_def Let_def)

lemma InstallSnapshot_end_hard [simp]: "hard (snd (InstallSnapshot_end req n)) = hard n"
proof -
  have "hard (snd (ebind RefreshMembership (\<lambda>_. eread (\<lambda>n. \<lparr>isr_term = term_of n\<rparr>)) m)) = hard m" for m :: "'a RaftNode"
    by (rule frame_keeps) (intro keeps_intros)
  then show ?thesis unfolding InstallSnapshot_end_def by simp
qed

lemma Propose_begin_hard [simp]: "hard (snd (Propose_begin cb c n)) = hard n"
proof -
  have "hard (snd (ebind RefreshMembership (\<lambda>_. ebind (MaybeAdvanceCommitIndex cb) (\<lambda>_. eret r)) m)) = hard m"
    for m :: "'a RaftNode" and r :: propose_outcome
    by (rule frame_keeps) (intro keeps_intros)
  then show ?thesis unfolding Propose_begin_def Let_def by (simp split: sum.split option.split prod.split)
qed

lemma small_steps_hard [simp]:
  "hard (snd (ReplicateTo p n)) = hard n" "hard (snd (SendInstallSnapshot cb p t n)) = hard n"
  "hard (InstallSnapshot_restore cb req n) = hard n" "hard (snd (Tick now n)) = hard n"
  by (simp_all add: ReplicateTo_def SendInstallSnapshot_def InstallSnapshot_restore_def Tick_def Let_def)

lemma RaftNode_new_hard: "RaftNode_new nid addr ps joins sf lf mf m = Inr n \<Longrightarrow> hard n = ps_Load sf"
  by (auto simp: RaftNode_new_def rbind_Inr_iff Let_def)

lemma quiet_step_hard: "quiet_step cb aok sok n n' \<Longrightarrow> hard_synced (hard n) \<Longrightarrow> hard_evolves (hard n) (hard n')"
proof (induction rule: quiet_step.induct)
  case (restart n addr ps joins m n')
  have "hard n' = ps_Load (ps_file (hard n))" by (rule RaftNode_new_hard [OF restart.hyps(2)])
  also have "\<dots> = hard n" using restart by (intro hard_synced_Load) (simp_all add: disk_fits_def)
  finally show ?case by simp
qed (simp_all add: HandleAppendEntries_hard HandleAppendReply_hard HandleSnapshotReply_hard InstallSnapshot_begin_hard)

lemma node_step_hard: "node_step cb aok sok n n' \<Longrightarrow> hard_synced (hard n) \<Longrightarrow> hard_evolves (hard n) (hard n')"
proof (induction rule: node_step.induct)
  case (election n now rnd)
  show ?case using StartElection_hard [of now rnd n] by auto
qed (simp_all add: HandleRequestVote_hard HandleVoteReply_hard quiet_step_hard)

lemma node_steps_hard:
  assumes "node_steps cb aok sok n n'" and "hard_synced (hard n)"
  shows "hard_evolves (hard n) (hard n') \<and> hard_synced (hard n')"
  using assms
proof (induction rule: node_steps.induct)
  case (more n n' n'')
  then have e: "hard_evolves (hard n) (hard n')" and s: "hard_synced (hard n')" by auto
  from more.hyps(2) s have e': "hard_evolves (hard n') (hard n'')" by (rule node_step_hard)
  from hard_evolves_trans [OF e e'] e' s show ?case by (auto simp: hard_evolves_def)
qed simp

text \<open>The term as the code holds it, in 64 bits.  It is the term of the model as long as that is below \<open>2 ^ 64\<close>; since the
  model's term never decreases, a run that ends below \<open>2 ^ 64\<close> has been below it all along.  An election at the
  largest term wraps to 0.\<close>

definition term64 :: "'s RaftNode \<Rightarrow> 64 word" where
  "term64 n = of_nat (term_of n)"

lemma term64_le:
  assumes "term_of n \<le> term_of n'" and "term_of n' < 2 ^ 64"
  shows "term64 n \<le> term64 n'" "term64 n = term64 n' \<longleftrightarrow> term_of n = term_of n'"
proof -
  have "unat (term64 n) = term_of n" "unat (term64 n') = term_of n'"
    using assms by (simp_all add: term64_def unat_of_nat take_bit_nat_eq_self)
  with assms(1) show "term64 n \<le> term64 n'" "term64 n = term64 n' \<longleftrightarrow> term_of n = term_of n'"
    by (simp_all add: word_le_nat_alt word_unat_eq_iff)
qed

lemma election_wraps:
  assumes "term_of n = 2 ^ 64 - 1" and "hard (snd (StartElection now rnd n)) \<noteq> hard n"
  shows "term64 (snd (StartElection now rnd n)) = 0"
proof -
  have "hard (snd (StartElection now rnd n)) = ps_Set (2 ^ 64) (Some (node_id n)) (hard n)"
    using StartElection_hard [of now rnd n] assms by auto
  then have "term64 (snd (StartElection now rnd n)) = of_nat (2 ^ 64)" by (simp add: term64_def)
  then show ?thesis by simp
qed

text \<open>C17. Whatever happens to a node, in whatever order, crashes and restarts from its files included: in a run whose terms
  stay below \<open>2 ^ 64\<close>, the node's term, as the 64-bit number of the code, never decreases, and once the node has voted in a
  term it never holds another vote in that term.  The bound is needed: at the term \<open>2 ^ 64 - 1\<close>, which a message can
  bring about, the next election (one that is not left because the node is no member) takes the node to term 0.\<close>

theorem raft_vote_stable:
  assumes "node_steps cb aok sok n n'" and "hard_synced (hard n)" and "term_of n' < 2 ^ 64"
  shows "hard_synced (hard n') \<and> term64 n \<le> term64 n' \<and>
    (term64 n' = term64 n \<longrightarrow> voted_for (hard n) \<noteq> None \<longrightarrow> voted_for (hard n') = voted_for (hard n)) \<and>
    (term64 n' = - 1 \<longrightarrow> hard (snd (StartElection now rnd n')) \<noteq> hard n' \<longrightarrow> term64 (snd (StartElection now rnd n')) = 0)"
proof (intro conjI impI)
  note run = node_steps_hard [OF assms(1,2)]
  then have le: "term_of n \<le> term_of n'" by (auto simp: hard_evolves_def vote_le_def)
  show "hard_synced (hard n')" using run by simp
  show "term64 n \<le> term64 n'" by (rule term64_le(1) [OF le assms(3)])
  show "voted_for (hard n') = voted_for (hard n)" if "term64 n' = term64 n" "voted_for (hard n) \<noteq> None"
    using run that term64_le(2) [OF le assms(3)] by (auto simp: hard_evolves_def vote_le_def)
  show "term64 (snd (StartElection now rnd n')) = 0"
    if "term64 n' = - 1" "hard (snd (StartElection now rnd n')) \<noteq> hard n'"
  proof (rule election_wraps [OF _ that(2)])
    have "unat (term64 n') = term_of n'" using assms(3) by (simp add: term64_def unat_of_nat take_bit_nat_eq_self)
    moreover have "unat (- 1 :: 64 word) = 2 ^ 64 - 1" by (simp add: unsigned_minus_1_eq_mask mask_eq_exp_minus_1)
    ultimately show "term_of n' = 2 ^ 64 - 1" using that(1) by (simp only:)
  qed
qed

text \<open>The terms of a follower that votes for two candidates: the second is refused.\<close>

theorem raft_vote_stable_witness:
  "voted_for (hard (snd (HandleRequestVote 1000 0
      \<lparr>rvq_term = 2, rvq_candidate_id = 1, rvq_last_log_index = 9, rvq_last_log_term = 9\<rparr>
      (snd (HandleRequestVote 1000 0
        \<lparr>rvq_term = 2, rvq_candidate_id = 3, rvq_last_log_index = 9, rvq_last_log_term = 9\<rparr> follower3))))) = Some 3"
proof -
  define n1 where "n1 = snd (HandleRequestVote 1000 0
      \<lparr>rvq_term = 2, rvq_candidate_id = 3, rvq_last_log_index = 9, rvq_last_log_term = 9\<rparr> follower3)"
  define n2 where "n2 = snd (HandleRequestVote 1000 0
      \<lparr>rvq_term = 2, rvq_candidate_id = 1, rvq_last_log_index = 9, rvq_last_log_term = 9\<rparr> n1)"
  have n1: "voted_for (hard n1) = Some 3" "term_of n1 = 2" "hard_synced (hard n1)" "last_leader_contact n1 = 0"
    by (simp_all add: n1_def HandleRequestVote_def follower3_def node3_def kElectionTimeoutMinMs_def BecomeFollower_def
        ResetElectionDeadline_def LastTerm_def LastIndex_def log_new_def entry3_def Let_def)
  have "node_steps cb_list (\<lambda>_. True) (\<lambda>_. True) n1 n2"
    unfolding n2_def by (rule more [OF none request_vote])
  moreover have "term_of n2 = 2" using n1 by (simp add: n2_def HandleRequestVote_def Let_def)
  ultimately have "voted_for (hard n2) = Some 3" using raft_vote_stable [of cb_list _ _ n1 n2] n1 by (simp add: term64_def)
  then show ?thesis by (simp add: n1_def n2_def)
qed

section \<open>The role\<close>

text \<open>Outside elections a node does not rise: it becomes a follower or keeps its role, term and count of votes.\<close>

definition role_evolves :: "'s RaftNode \<Rightarrow> 's RaftNode \<Rightarrow> bool" where
  "role_evolves n n' \<longleftrightarrow> role n' = Follower \<or>
     role n' = role n \<and> term_of n' = term_of n \<and> votes_received n' = votes_received n"

lemma keeps_role_parts [keeps_intros]:
  "keeps (role_evolves n) RefreshMembership" "keeps (role_evolves n) (ApplyCommitted cb)"
  by (rule keepsI, simp add: role_evolves_def)+

lemma keeps_role_advance [keeps_intros]: "keeps (role_evolves n) (MaybeAdvanceCommitIndex cb)"
  by (rule keeps_MaybeAdvance) (intro keeps_intros | simp add: role_evolves_def)+

lemma role_evolves_refl [simp]: "role_evolves n n"
  by (simp add: role_evolves_def)

lemma role_evolves_follower: "role n' = Follower \<Longrightarrow> role_evolves n n'"
  by (simp add: role_evolves_def)

lemma keeps_role_commit [keeps_intros]: "keeps (role_evolves n) (commit_from_leader cb req)"
  unfolding commit_from_leader_def by (intro keeps_intros keepsI) (simp add: role_evolves_def)

lemma follow_leader_role [simp]: "role (follow_leader now rnd t leader n) = Follower"
  by (auto simp: follow_leader_def Let_def)

lemma HandleAppendEntries_role: "role_evolves n (snd (HandleAppendEntries cb now rnd req n))"
proof -
  define n1 where "n1 = follow_leader now rnd (aeq_term req) (aeq_leader_id req) n"
  obtain b l where a: "AppendEntriesFrom (aeq_prev_log_index req) (aeq_prev_log_term req) (aeq_entries req) (rlog n1) = (b, l)"
    by (metis surj_pair)
  have "role_evolves n (n1\<lparr>rlog := l\<rparr>)" by (rule role_evolves_follower) (simp add: n1_def)
  then show ?thesis
    unfolding HandleAppendEntries_def Let_def n1_def [symmetric] a prod.case by (simp add: keepsD [OF keeps_role_commit])
qed

lemma HandleAppendReply_role: "role_evolves n (snd (HandleAppendReply cb now rnd p t prev sent resp n))"
proof -
  have "role_evolves n (snd (MaybeAdvanceCommitIndex cb (HandleSendFailure p n\<lparr>match_index := mi, next_index := ni\<rparr>)))" for mi ni
    by (rule keepsD [OF keeps_role_advance]) (simp add: role_evolves_def)
  then show ?thesis
    unfolding HandleAppendReply_def Let_def by (simp add: role_evolves_follower) (simp add: role_evolves_def)
qed

lemma snapshot_role:
  "role_evolves n (HandleSnapshotReply now rnd p t snap resp n)"
  "role_evolves n (snd (InstallSnapshot_begin now rnd req n))"
  by (auto simp: role_evolves_def HandleSnapshotReply_def InstallSnapshot_begin_def follow_leader_def Let_def)

lemma InstallSnapshot_end_role: "role_evolves n (snd (InstallSnapshot_end req n))"
proof -
  have "keeps (role_evolves n) (ebind RefreshMembership (\<lambda>_. eread (\<lambda>n. \<lparr>isr_term = term_of n\<rparr>)))"
    by (intro keeps_intros)
  from keepsD [OF this, of "adopt_snapshot req n"] show ?thesis
    unfolding InstallSnapshot_end_def by (simp add: role_evolves_def)
qed

lemma Propose_begin_role: "role_evolves n (snd (Propose_begin cb c n))"
proof -
  have "keeps (role_evolves n) (ebind RefreshMembership (\<lambda>_. ebind (MaybeAdvanceCommitIndex cb) (\<lambda>_. eret r)))"
    for r :: propose_outcome
    by (intro keeps_intros)
  from keepsD [OF this] show ?thesis
    unfolding Propose_begin_def Let_def
    by (auto simp: role_evolves_def [of n "_\<lparr>rlog := _\<rparr>"] split: sum.split option.split prod.split)
qed

lemma RaftNode_new_role: "RaftNode_new nid addr ps joins sf lf mf m = Inr n \<Longrightarrow> role n = Follower \<and> node_id n = nid"
  by (auto simp: RaftNode_new_def rbind_Inr_iff Let_def)

lemma quiet_step_role: "quiet_step cb aok sok n n' \<Longrightarrow> role_evolves n n'"
proof (induction rule: quiet_step.induct)
  case (restart n addr ps joins m n')
  then show ?case using RaftNode_new_role [OF restart.hyps(2)] by (simp add: role_evolves_follower)
qed (simp_all add: HandleAppendEntries_role HandleAppendReply_role snapshot_role InstallSnapshot_end_role Propose_begin_role,
  simp_all add: role_evolves_def ReplicateTo_def SendInstallSnapshot_def InstallSnapshot_restore_def Tick_def Let_def)

end
