(* ===== verification/Raft_Invariant.thy ===== *)
theory Raft_Invariant
  imports Raft_Step
begin

text \<open>
  The invariant of a Raft node, kept by every step of \<open>node_step\<close>: the log is contiguous and on disk,
  the apply position is durable and not before the snapshot, the tables kept per peer cover exactly the peers of a
  leader, the three files load back to the state.  While it holds no operation throws, and the leader's commit
  rule counts the members of the cluster.
\<close>

section \<open>Well-formed contents\<close>

definition decodable :: "string \<Rightarrow> bool" where
  "decodable c \<longleftrightarrow> (case TryDecodeConfChange c of Inl _ \<Rightarrow> False | Inr _ \<Rightarrow> True)"

definition conf_ok :: "RaftLog \<Rightarrow> bool" where
  "conf_ok l \<longleftrightarrow> (\<forall>e \<in> set (lg_entries l). decodable (le_command e))"

definition aeq_wf :: "AppendEntriesRequest \<Rightarrow> bool" where
  "aeq_wf req \<longleftrightarrow> (aeq_prev_log_term req = 0 \<longrightarrow> aeq_prev_log_index req = 0) \<and>
     (\<forall>e \<in> set (aeq_entries req). decodable (le_command e))"

definition isq_wf :: "InstallSnapshotRequest \<Rightarrow> bool" where
  "isq_wf req \<longleftrightarrow> omap_ok (isq_membership req)"

definition ms_synced :: "MembershipState \<Rightarrow> bool" where
  "ms_synced ms \<longleftrightarrow> ms_has_file ms \<and> omap_ok (base_peers ms) \<and>
     ms_file ms = Some (ms_text (base_peers ms) (ms_self_is_member ms) (ms_own_address ms))"

definition log_part :: "'s RaftNode \<Rightarrow> bool" where
  "log_part n \<longleftrightarrow> log_ok (rlog n) \<and> log_synced (rlog n) \<and> conf_ok (rlog n) \<and>
     applied_index (rlog n) = last_applied n \<and> snapshot_index (rlog n) \<le> last_applied n"

definition peer_part :: "'s RaftNode \<Rightarrow> bool" where
  "peer_part n \<longleftrightarrow> omap_ok (peers n) \<and> omap_ok (next_index n) \<and> omap_ok (match_index n) \<and>
     dom (map_of (match_index n)) \<subseteq> dom (map_of (peers n)) \<and>
     (role n = Leader \<longrightarrow> dom (map_of (match_index n)) = dom (map_of (peers n)))"

definition node_ok :: "'s RaftNode \<Rightarrow> bool" where
  "node_ok n \<longleftrightarrow> hard_synced (hard n) \<and> ms_synced (mship n) \<and> log_part n \<and> peer_part n \<and> omap_ok (apply_errors n) \<and>
     (\<forall>e \<in> set (apply_errors n). fst e \<le> last_applied n)"

lemma node_okD:
  assumes "node_ok n"
  shows "hard_synced (hard n)" "ms_synced (mship n)" "log_part n" "peer_part n" "omap_ok (apply_errors n)"
    "log_ok (rlog n)" "log_synced (rlog n)" "conf_ok (rlog n)" "applied_index (rlog n) = last_applied n"
    "snapshot_index (rlog n) \<le> last_applied n" "omap_ok (peers n)" "omap_ok (base_peers (mship n))"
    "\<forall>e \<in> set (apply_errors n). fst e \<le> last_applied n"
  using assms by (auto simp: node_ok_def log_part_def peer_part_def ms_synced_def)

section \<open>The log\<close>

lemma At_mem: "log_ok l \<Longrightarrow> At l i = Some e \<Longrightarrow> e \<in> set (lg_entries l)"
  by (auto simp: At_eq split: if_splits)

lemma conf_ok_At:
  assumes "log_ok l" and "conf_ok l" and "At l i = Some e"
  obtains r where "TryDecodeConfChange (le_command e) = Inr r"
proof -
  have "decodable (le_command e)" using At_mem [OF assms(1,3)] assms(2) by (auto simp: conf_ok_def)
  with that show thesis by (auto simp: decodable_def split: sum.splits)
qed

lemma conf_ok_ops [simp]:
  "conf_ok (log_Save l) = conf_ok l" "conf_ok (SetAppliedIndex i l) = conf_ok l"
  "conf_ok l \<Longrightarrow> conf_ok (CompactTo i t l)"
  "conf_ok l \<Longrightarrow> decodable c \<Longrightarrow> conf_ok (snd (log_Append t c l))"
  by (auto simp: conf_ok_def SetAppliedIndex_def CompactTo_def log_Append_def Let_def dest: in_set_dropD)

lemma append_loop_decodable:
  "\<forall>e \<in> set (lg_entries l) \<union> set es. decodable (le_command e) \<Longrightarrow>
     \<forall>e \<in> set (lg_entries (snd (append_loop i es ch l))). decodable (le_command e)"
proof (induction es arbitrary: i ch l)
  case (Cons e es)
  let ?pos = "i - snapshot_index l - 1"
  let ?l = "l\<lparr>lg_entries := (if ?pos < length (lg_entries l) then take ?pos (lg_entries l) else lg_entries l)
      @ [e\<lparr>le_index := i\<rparr>]\<rparr>"
  have l: "\<forall>e \<in> set (lg_entries l) \<union> set es. decodable (le_command e)"
    and l': "\<forall>e \<in> set (lg_entries ?l) \<union> set es. decodable (le_command e)"
    using Cons.prems by (auto dest: in_set_takeD)
  note ih = Cons.IH [OF l, of "i + 1" ch] Cons.IH [OF l', of "i + 1" True]
  have "append_loop i (e # es) ch l \<in> {append_loop (i + 1) es ch l, append_loop (i + 1) es True ?l}"
    by (cases "i \<le> snapshot_index l") (simp_all add: Let_def)
  with ih show ?case by (elim insertE emptyE) (simp_all only:)
qed simp

lemma conf_ok_AppendEntries:
  assumes "conf_ok l" and "\<forall>e \<in> set es. decodable (le_command e)"
  shows "conf_ok (snd (AppendEntriesFrom prev pterm es l))"
proof -
  have "conf_ok (snd (append_loop (prev + 1) es False l))"
    unfolding conf_ok_def by (rule append_loop_decodable) (use assms in \<open>auto simp: conf_ok_def\<close>)
  with assms(1) show ?thesis by (auto simp: AppendEntriesFrom_def split: prod.split)
qed

lemma AppendEntries_prev:
  assumes "AppendEntriesFrom prev pterm es l = (True, l')" and "pterm = 0 \<longrightarrow> prev = 0" and "log_ok l"
  shows "prev \<le> LastIndex l"
proof (cases "prev = 0")
  case False
  with assms have "TermAt l prev = pterm" "pterm \<noteq> 0" by (auto simp: AppendEntriesFrom_def split: if_splits)
  then show ?thesis using LastIndex_eq [OF assms(3)] by (auto simp: TermAt_def split: if_splits)
qed simp

lemma AppendEntries_rejected: "AppendEntriesFrom prev pterm es l = (False, l') \<Longrightarrow> l' = l"
  by (auto simp: AppendEntriesFrom_def split: if_splits prod.splits)

lemma SetAppliedIndex_fields [simp]:
  "applied_index (SetAppliedIndex i l) = i" "snapshot_index (SetAppliedIndex i l) = snapshot_index l"
  "lg_entries (SetAppliedIndex i l) = lg_entries l" "LastIndex (SetAppliedIndex i l) = LastIndex l"
  "At (SetAppliedIndex i l) k = At l k" "TermAt (SetAppliedIndex i l) k = TermAt l k"
  by (simp_all add: SetAppliedIndex_def LastIndex_def At_def TermAt_def)

lemma CompactTo_fields [simp]:
  "applied_index (CompactTo i t l) = applied_index l"
  "snapshot_index (CompactTo i t l) = max (snapshot_index l) i"
  by (auto simp: CompactTo_def Let_def)

lemma log_Append_fields [simp]:
  "applied_index (snd (log_Append t c l)) = applied_index l"
  "snapshot_index (snd (log_Append t c l)) = snapshot_index l"
  by (simp_all add: log_Append_def Let_def)

section \<open>The peer table\<close>

lemma efor_returns:
  "(\<And>x s. fst (f x s) = Inr ()) \<Longrightarrow> fst (efor xs f s) = Inr ()"
proof (induction xs arbitrary: s)
  case (Cons x xs)
  obtain s' where "f x s = (Inr (), s')" using Cons.prems [of x s] by (cases "f x s") auto
  then show ?case using Cons.IH [OF Cons.prems] by simp
qed simp

lemma refresh_entry_returns: "log_ok (rlog n) \<Longrightarrow> conf_ok (rlog n) \<Longrightarrow> fst (refresh_entry n i st) = Inr ()"
  by (cases "At (rlog n) i")
    (auto simp: refresh_entry_def elim!: conf_ok_At [of "rlog n" i] split: option.split prod.split)

lemma refresh_entry_keeps: "keeps (\<lambda>st. omap_ok (fst st)) (refresh_entry n i)"
  by (rule keepsI) (auto simp: refresh_entry_def Let_def split: option.split sum.split prod.split)

lemma fold_entry_returns: "log_ok (rlog n) \<Longrightarrow> conf_ok (rlog n) \<Longrightarrow> fst (fold_entry n i st) = Inr ()"
  by (cases "At (rlog n) i")
    (auto simp: fold_entry_def elim!: conf_ok_At [of "rlog n" i] split: option.split prod.split)

lemma fold_entry_keeps: "keeps (\<lambda>st. omap_ok (fst st)) (fold_entry n i)"
  by (rule keepsI) (auto simp: fold_entry_def Let_def split: option.split sum.split prod.split)

text \<open>What refreshing the membership does to a node whose log is well-formed: it takes over a peer table.\<close>

lemma RefreshMembership_ok:
  assumes "log_ok (rlog n)" and "conf_ok (rlog n)" and "omap_ok (base_peers (mship n))"
  obtains effective self pend where "omap_ok effective" and "RefreshMembership n = (Inr (), adopt_peers effective
      (n\<lparr>pending_self_removal_index := pend, self_is_member := self\<rparr>))"
proof -
  let ?f = "efor [snapshot_index (rlog n) + 1 ..< LastIndex (rlog n) + 1] (refresh_entry n)
      (base_peers (mship n), ms_self_is_member (mship n), 0)"
  have ok: "omap_ok (fst (snd ?f))"
    by (rule keepsD [OF keeps_for [OF refresh_entry_keeps]]) (simp add: assms(3))
  have "fst ?f = Inr ()" by (rule efor_returns) (rule refresh_entry_returns [OF assms(1,2)])
  moreover obtain r effective self pend where l: "?f = (r, effective, self, pend)" by (metis prod_cases4)
  ultimately have "RefreshMembership n = (Inr (), adopt_peers effective
      (n\<lparr>pending_self_removal_index := pend, self_is_member := self\<rparr>))"
    by (simp only: RefreshMembership_def Let_def prod.case sum.case fst_conv)
  moreover have "omap_ok effective" using ok l by simp
  ultimately show thesis using that by blast
qed

lemma adopt_peer_part: "peer_part n \<Longrightarrow> peer_part (adopt_peer n p)"
proof -
  assume ok: "peer_part n"
  note ok = ok [unfolded peer_part_def]
  have d: "dom (map_of (omap_set (fst p) (snd p) (peers n))) = insert (fst p) (dom (map_of (peers n)))"
    using ok by simp
  show ?thesis
  proof (cases "\<not> omap_count (fst p) (peers n) \<and> role n = Leader")
    case True
    with ok show ?thesis by (auto simp: peer_part_def adopt_peer_def Let_def)
  next
    case False
    then have "role n = Leader \<Longrightarrow> fst p \<in> dom (map_of (peers n))" by (simp add: omap_count_def domIff)
    with ok False d show ?thesis unfolding peer_part_def adopt_peer_def Let_def by (simp add: insert_absorb) blast
  qed
qed

lemma drop_peer_part:
  assumes "peer_part n"
  shows "peer_part (drop_peer n p)"
proof -
  note ok = assms [unfolded peer_part_def]
  have d: "dom (map_of (omap_erase p (peers n))) = dom (map_of (peers n)) - {p}"
    "dom (map_of (omap_erase p (match_index n))) = dom (map_of (match_index n)) - {p}"
    using ok by simp_all
  have "dom (map_of (match_index n)) - {p} \<subseteq> dom (map_of (peers n)) - {p}" using ok by blast
  moreover have "role n = Leader \<Longrightarrow> dom (map_of (match_index n)) - {p} = dom (map_of (peers n)) - {p}" using ok by metis
  ultimately show ?thesis unfolding peer_part_def drop_peer_def using ok by (simp add: d del: omap_look)
qed

lemma foldl_keeps:
  assumes "\<And>s x. P s \<Longrightarrow> P (f s x)"
  shows "P s \<Longrightarrow> P (foldl f s xs)"
proof (induction xs arbitrary: s)
  case (Cons x xs)
  show ?case unfolding foldl.simps by (rule Cons.IH, rule assms, rule Cons.prems)
qed simp

lemma adopt_peers_part: "peer_part n \<Longrightarrow> peer_part (adopt_peers e n)"
  unfolding adopt_peers_def Let_def
  by (rule foldl_keeps [where P = peer_part, OF drop_peer_part foldl_keeps [where P = peer_part, OF adopt_peer_part]])

lemma adopt_peers_peers:
  assumes "omap_ok (peers n)" and "omap_ok e"
  shows "peers (adopt_peers e n) = e"
proof -
  have a: "peers (foldl adopt_peer n ps) = foldl (\<lambda>m (k, v). omap_set k v m) (peers n) ps" for ps
    by (induction ps arbitrary: n) (simp_all add: adopt_peer_def Let_def case_prod_beta)
  have d: "peers (foldl drop_peer m ks) = foldl (\<lambda>m k. omap_erase k m) (peers m) ks" for ks and m :: "'a RaftNode"
    by (induction ks arbitrary: m) (simp_all add: drop_peer_def)
  let ?p = "foldl (\<lambda>m (k, v). omap_set k v m) (peers n) e"
  have p: "omap_ok ?p" "map_of ?p = map_of (peers n) ++ map_of e"
    using om.fold_upd [OF assms(1), of e] by (simp_all add: map_of_rev_omap [OF assms(2)])
  let ?ks = "map fst (filter (\<lambda>p. \<not> omap_count (fst p) e) ?p)"
  have q: "omap_ok (foldl (\<lambda>m k. omap_erase k m) ?p ?ks)"
    "map_of (foldl (\<lambda>m k. omap_erase k m) ?p ?ks) = map_of ?p |` (- set ?ks)"
    using om.fold_del [OF p(1), of ?ks] by simp_all
  have "map_of ?p k = None" if "k \<notin> set ?ks" "map_of e k = None" for k
    using that by (auto simp: omap_count_def map_of_eq_None_iff)
  moreover have "k \<notin> set ?ks" if "map_of e k = Some v" for k v
    using that by (auto simp: omap_count_def)
  ultimately have "map_of (foldl (\<lambda>m k. omap_erase k m) ?p ?ks) = map_of e"
    unfolding q(2) fun_eq_iff restrict_map_def p(2) by (auto simp: map_add_def split: option.splits)
  with q(1) assms(2) have "foldl (\<lambda>m k. omap_erase k m) ?p ?ks = e" by (rule omap_ext)
  then show ?thesis by (simp add: adopt_peers_def Let_def d a)
qed

section \<open>Every operation keeps the invariant\<close>

lemmas node_ok_defs = node_ok_def log_part_def peer_part_def

lemma node_ok_plain [simp]:
  "node_ok (n\<lparr>commit_index := i\<rparr>) = node_ok n" "node_ok (n\<lparr>votes_received := v\<rparr>) = node_ok n"
  "node_ok (n\<lparr>election_deadline := d\<rparr>) = node_ok n" "node_ok (n\<lparr>machine := m\<rparr>) = node_ok n"
  "node_ok (n\<lparr>replication_in_flight := f\<rparr>) = node_ok n" "node_ok (n\<lparr>next_heartbeat_time := d\<rparr>) = node_ok n"
  "node_ok (n\<lparr>last_leader_contact := d\<rparr>) = node_ok n" "node_ok (n\<lparr>leader_hint := h\<rparr>) = node_ok n"
  "node_ok (n\<lparr>last_leader_contact := d, leader_hint := h\<rparr>) = node_ok n"
  "node_ok (n\<lparr>own_address := a\<rparr>) = node_ok n"
  by (simp_all add: node_ok_defs)

lemma node_ok_role: "node_ok n \<Longrightarrow> r \<noteq> Leader \<Longrightarrow> node_ok (n\<lparr>role := r\<rparr>)"
  by (simp add: node_ok_defs)

lemma node_ok_hard: "node_ok n \<Longrightarrow> hard_synced h \<Longrightarrow> node_ok (n\<lparr>hard := h\<rparr>)"
  by (simp add: node_ok_defs)

lemma node_ok_Reset [simp]: "node_ok (ResetElectionDeadline now rnd n) = node_ok n"
  by (simp add: ResetElectionDeadline_def)

lemma node_ok_BecomeFollower: "node_ok n \<Longrightarrow> node_ok (BecomeFollower now rnd t n)"
  by (simp add: BecomeFollower_def Let_def node_ok_role node_ok_hard)

lemma node_ok_SendFailure [simp]: "node_ok (HandleSendFailure p n) = node_ok n"
  by (simp add: HandleSendFailure_def)

lemma keeps_node_Refresh [keeps_intros]: "keeps node_ok RefreshMembership"
proof (rule keepsI)
  fix n :: "'a RaftNode" assume ok: "node_ok n"
  obtain e self pend where "omap_ok e" and r: "RefreshMembership n = (Inr (), adopt_peers e
      (n\<lparr>pending_self_removal_index := pend, self_is_member := self\<rparr>))"
    by (rule RefreshMembership_ok [OF node_okD(6,8,12) [OF ok]])
  have "peer_part (n\<lparr>pending_self_removal_index := pend, self_is_member := self\<rparr>)"
    using node_okD(4) [OF ok] by (simp add: peer_part_def)
  from adopt_peers_part [OF this, of e] ok show "node_ok (snd (RefreshMembership n))"
    by (simp add: r node_ok_def log_part_def)
qed

lemma apply_step_returns:
  assumes "log_ok (rlog n)" and "conf_ok (rlog n)"
  shows "fst (apply_step cb n) = Inr ()"
proof (cases "At (rlog n) (last_applied n + 1)")
  case (Some e)
  then obtain r where "TryDecodeConfChange (le_command e) = Inr r" by (rule conf_ok_At [OF assms])
  with Some show ?thesis by (simp add: apply_step_def Let_def split: option.split prod.split)
qed (simp add: apply_step_def)

text \<open>A step of the apply loop, on the log's side and the errors' side.\<close>

lemma apply_step_log:
  assumes "log_ok (rlog n)" and "conf_ok (rlog n)"
  shows "rlog (snd (apply_step cb n)) = SetAppliedIndex (last_applied n + 1) (rlog n)"
    and "omap_ok (apply_errors n) \<Longrightarrow> omap_ok (apply_errors (snd (apply_step cb n)))"
    and "omap_ok (apply_errors n) \<Longrightarrow>
      \<forall>e \<in> set (apply_errors (snd (apply_step cb n))). e \<in> set (apply_errors n) \<or> fst e = last_applied n + 1"
proof -
  show "rlog (snd (apply_step cb n)) = SetAppliedIndex (last_applied n + 1) (rlog n)"
    using apply_step_returns [OF assms, of cb]
    by (auto simp: apply_step_def Let_def split: option.splits sum.splits prod.splits)
  show "omap_ok (apply_errors (snd (apply_step cb n)))" if "omap_ok (apply_errors n)"
    using that by (simp add: apply_step_def Let_def split: option.split sum.split prod.split)
  show "\<forall>e \<in> set (apply_errors (snd (apply_step cb n))). e \<in> set (apply_errors n) \<or> fst e = last_applied n + 1"
    if "omap_ok (apply_errors n)"
    using that At_Some [OF assms(1), of "last_applied n + 1"]
    by (auto simp: apply_step_def Let_def set_omap_set split: option.splits sum.splits prod.splits if_splits)
qed

lemma keeps_node_apply [keeps_intros]: "keeps node_ok (apply_step cb)"
proof (rule keepsI)
  fix n :: "'a RaftNode" assume ok: "node_ok n"
  note l = apply_step_log [OF node_okD(6,8) [OF ok], of cb]
  show "node_ok (snd (apply_step cb n))"
    using ok l(2,3) by (fastforce simp: node_ok_defs l(1))
qed

lemma compact_applied_cases:
  assumes "node_ok n"
  obtains "compact_applied n = (Inr (), n)"
  | base self where "omap_ok base" and "compact_applied n = (Inr (), n\<lparr>mship := mship n,
       rlog := CompactTo (last_applied n) (TermAt (rlog n) (last_applied n)) (rlog n),
       apply_errors := filter (\<lambda>e. snapshot_index (rlog n) < fst e) (apply_errors n)\<rparr>) \<or>
     compact_applied n = (Inr (), n\<lparr>mship := ms_Set base self (own_address n) (mship n),
       rlog := CompactTo (last_applied n) (TermAt (rlog n) (last_applied n)) (rlog n),
       apply_errors := filter (\<lambda>e. snapshot_index (rlog n) < fst e) (apply_errors n)\<rparr>)"
proof (cases "last_applied n < snapshot_index (rlog n) \<or> kCompactionThreshold \<le> last_applied n - snapshot_index (rlog n)")
  case True
  let ?f = "efor [snapshot_index (rlog n) + 1 ..< last_applied n + 1] (fold_entry n)
                   (base_peers (mship n), ms_self_is_member (mship n), False)"
  have ok: "omap_ok (fst (snd ?f))"
    by (rule keepsD [OF keeps_for [OF fold_entry_keeps]]) (simp add: node_okD(12) [OF assms])
  have "fst ?f = Inr ()" by (rule efor_returns) (rule fold_entry_returns [OF node_okD(6,8) [OF assms]])
  moreover obtain r base self changed where l: "?f = (r, base, self, changed)" by (metis prod_cases4)
  ultimately have r: "r = Inr ()" by simp
  have "omap_ok base" using ok l by simp
  with that(2) [of base self] show thesis
    by (cases changed) (simp_all only: compact_applied_def Let_def True if_True l r prod.case sum.case if_False simp_thms)
next
  case False
  then have "compact_applied n = (Inr (), n)" unfolding compact_applied_def Let_def by (simp only: if_False)
  with that(1) show thesis .
qed

lemma ms_synced_Set [simp]: "ms_synced (ms_Set p s a m) = omap_ok p"
  by (simp add: ms_synced_def ms_Set_def)

lemma keeps_node_compact [keeps_intros]: "keeps node_ok compact_applied"
proof (rule keepsI)
  fix n :: "'a RaftNode" assume ok: "node_ok n"
  have c: "log_ok (CompactTo i t (rlog n))" "log_synced (CompactTo i t (rlog n))" for i t
    using CompactTo_ok [OF node_okD(6) [OF ok]] node_okD(7) [OF ok] by simp_all
  show "node_ok (snd (compact_applied n))"
    by (rule compact_applied_cases [OF ok]) (use ok in \<open>auto simp: node_ok_defs c omap_ok_filter\<close>)
qed

lemma keeps_node_ApplyCommitted [keeps_intros]: "keeps node_ok (ApplyCommitted cb)"
  by (intro keeps_ApplyCommitted keeps_intros)

lemma keeps_node_Advance [keeps_intros]: "keeps node_ok (MaybeAdvanceCommitIndex cb)"
  by (rule keeps_MaybeAdvance) (simp_all add: keeps_intros node_ok_role)

lemma set_all:
  "omap_ok m \<Longrightarrow> omap_ok (foldl (\<lambda>m p. omap_set (fst p) v m) m ps) \<and>
     dom (map_of (foldl (\<lambda>m p. omap_set (fst p) v m) m ps)) = dom (map_of m) \<union> fst ` set ps"
proof (induction ps arbitrary: m)
  case (Cons p ps)
  have "dom (map_of (omap_set (fst p) v m)) = insert (fst p) (dom (map_of m))"
    unfolding om.look_upd [OF Cons.prems] by (simp only: dom_fun_upd) simp
  with Cons.IH [of "omap_set (fst p) v m"] Cons.prems show ?case by (simp del: omap_look)
qed simp

lemma keeps_node_BecomeLeader [keeps_intros]: "keeps node_ok (BecomeLeader now)"
proof (rule keeps_BecomeLeader [OF keeps_node_Refresh])
  fix n :: "'a RaftNode" assume ok: "node_ok n"
  then have p: "peer_part n" by (rule node_okD)
  then have "dom (map_of (match_index n)) \<union> fst ` set (peers n) = dom (map_of (peers n))"
    by (auto simp: peer_part_def dom_map_of_conv_image_fst)
  with ok p set_all [of "match_index n" 0 "peers n"] set_all [of "next_index n" "LastIndex (rlog n) + 1" "peers n"]
  show "node_ok (n\<lparr>role := Leader, leader_hint := node_id n, next_heartbeat_time := now, replication_in_flight := {},
       next_index := foldl (\<lambda>m p. omap_set (fst p) (LastIndex (rlog n) + 1) m) (next_index n) (peers n),
       match_index := foldl (\<lambda>m p. omap_set (fst p) 0 m) (match_index n) (peers n)\<rparr>)"
    by (simp add: node_ok_def log_part_def peer_part_def)
qed

lemma node_ok_RequestVote: "node_ok n \<Longrightarrow> node_ok (snd (HandleRequestVote now rnd req n))"
  by (simp add: HandleRequestVote_def Let_def node_ok_BecomeFollower node_ok_hard split: option.split)

lemma keeps_node_step_down [keeps_intros]: "keeps node_ok step_down_if_removed"
  by (rule keeps_step_down) (simp_all add: keeps_intros node_ok_role)

lemma keeps_node_election [keeps_intros]: "keeps node_ok (StartElection now rnd)"
  unfolding StartElection_def
proof (intro keeps_bind keeps_node_Refresh keepsI, goal_cases)
  case (1 x n)
  have b: "keeps node_ok (ebind (BecomeLeader now) (\<lambda>_. eret ([] :: (NodeId \<times> RequestVoteRequest) list)))"
    by (intro keeps_intros)
  show ?case using 1 by (simp add: Let_def node_ok_hard node_ok_role [of "_\<lparr>hard := _\<rparr>" Candidate, simplified] keepsD [OF b])
qed

lemma node_ok_VoteReply: "node_ok n \<Longrightarrow> node_ok (snd (HandleVoteReply now rnd t resp n))"
  by (simp add: HandleVoteReply_def Let_def node_ok_BecomeFollower keepsD [OF keeps_node_BecomeLeader])

lemma node_ok_log:
  "node_ok n \<Longrightarrow> log_ok l \<Longrightarrow> log_synced l \<Longrightarrow> conf_ok l \<Longrightarrow> applied_index l = last_applied n \<Longrightarrow>
     snapshot_index l \<le> last_applied n \<Longrightarrow> node_ok (n\<lparr>rlog := l\<rparr>)"
  by (simp add: node_ok_defs)

lemma node_ok_accept:
  assumes "node_ok n" and "aeq_wf req"
    and "AppendEntriesFrom (aeq_prev_log_index req) (aeq_prev_log_term req) (aeq_entries req) (rlog n) = (b, l)"
  shows "node_ok (n\<lparr>rlog := l\<rparr>)"
proof (cases b)
  case False
  with assms(3) have "l = rlog n" by (simp add: AppendEntries_rejected)
  with assms(1) show ?thesis by simp
next
  case True
  note ok = node_okD [OF assms(1)]
  from True assms(3) have "AppendEntriesFrom (aeq_prev_log_index req) (aeq_prev_log_term req) (aeq_entries req) (rlog n) = (True, l)"
    by simp
  then have "aeq_prev_log_index req \<le> LastIndex (rlog n)"
    by (rule AppendEntries_prev) (use assms(2) ok in \<open>auto simp: aeq_wf_def\<close>)
  note a = AppendEntries_ok [OF ok(6,7) this, of "aeq_prev_log_term req" "aeq_entries req"]
    conf_ok_AppendEntries [OF ok(8), of "aeq_entries req" "aeq_prev_log_index req" "aeq_prev_log_term req"]
    AppendEntries_fields [of "aeq_prev_log_index req" "aeq_prev_log_term req" "aeq_entries req" "rlog n"]
  show ?thesis using a assms(2) ok by (intro node_ok_log [OF assms(1)]) (simp_all add: assms(3) aeq_wf_def)
qed

lemma node_ok_follow: "node_ok n \<Longrightarrow> node_ok (follow_leader now rnd t leader n)"
  by (simp add: follow_leader_def Let_def node_ok_BecomeFollower)

lemma keeps_node_commit [keeps_intros]: "keeps node_ok (commit_from_leader cb req)"
  unfolding commit_from_leader_def by (intro keeps_intros keepsI) (simp add: keepsD [OF keeps_node_ApplyCommitted])

lemma node_ok_AppendEntries:
  assumes "node_ok n" and "aeq_wf req"
  shows "node_ok (snd (HandleAppendEntries cb now rnd req n))"
proof -
  define n1 where "n1 = follow_leader now rnd (aeq_term req) (aeq_leader_id req) n"
  have n1: "node_ok n1" using assms(1) by (simp add: n1_def node_ok_follow)
  obtain b l where a: "AppendEntriesFrom (aeq_prev_log_index req) (aeq_prev_log_term req) (aeq_entries req) (rlog n1) = (b, l)"
    by (metis surj_pair)
  have n2: "node_ok (n1\<lparr>rlog := l\<rparr>)" by (rule node_ok_accept [OF n1 assms(2) a])
  with assms(1) show ?thesis
    unfolding HandleAppendEntries_def Let_def n1_def [symmetric] a prod.case
    by (simp add: keepsD [OF keeps_node_commit])
qed

lemma node_ok_replicate: "node_ok n \<Longrightarrow> node_ok (snd (ReplicateTo p n))"
  by (simp add: ReplicateTo_def Let_def node_ok_defs)

lemma peer_part_entry:
  assumes "peer_part n" and "omap_count p (peers n)"
  shows "peer_part (n\<lparr>next_index := omap_set p i (next_index n)\<rparr>)"
    and "peer_part (n\<lparr>match_index := omap_set p j (match_index n), next_index := omap_set p i (next_index n)\<rparr>)"
    and "peer_part (n\<lparr>next_index := omap_set p i (next_index n), match_index := omap_set p j (match_index n)\<rparr>)"
proof -
  note ok = assms(1) [unfolded peer_part_def]
  have m: "dom (map_of (omap_set p j (match_index n))) = insert p (dom (map_of (match_index n)))" for j
    using ok by simp
  have p: "p \<in> dom (map_of (peers n))" using assms(2) by (simp add: omap_count_def domIff)
  show "peer_part (n\<lparr>next_index := omap_set p i (next_index n)\<rparr>)"
    using ok by (simp add: peer_part_def)
  have "insert p (dom (map_of (match_index n))) \<subseteq> dom (map_of (peers n))" using ok p by blast
  moreover have "role n = Leader \<Longrightarrow> insert p (dom (map_of (match_index n))) = dom (map_of (peers n))"
    using ok p by (metis insert_absorb)
  ultimately show "peer_part (n\<lparr>match_index := omap_set p j (match_index n), next_index := omap_set p i (next_index n)\<rparr>)"
    "peer_part (n\<lparr>next_index := omap_set p i (next_index n), match_index := omap_set p j (match_index n)\<rparr>)"
    using ok by (simp_all add: peer_part_def m del: omap_look)
qed

lemma node_ok_entry:
  assumes "node_ok n" and "omap_count p (peers n)"
  shows "node_ok (n\<lparr>next_index := omap_set p i (next_index n)\<rparr>)"
    and "node_ok (n\<lparr>match_index := omap_set p j (match_index n), next_index := omap_set p i (next_index n)\<rparr>)"
    and "node_ok (n\<lparr>next_index := omap_set p i (next_index n), match_index := omap_set p j (match_index n)\<rparr>)"
  using assms(1) peer_part_entry [OF node_okD(4) [OF assms(1)] assms(2)]
  by (simp_all add: node_ok_def log_part_def)

lemma node_ok_AppendReply:
  assumes "node_ok n"
  shows "node_ok (snd (HandleAppendReply cb now rnd p t prev sent resp n))"
proof -
  define n1 where "n1 = HandleSendFailure p n"
  have n1: "node_ok n1" using assms by (simp add: n1_def)
  show ?thesis
    unfolding HandleAppendReply_def Let_def n1_def [symmetric]
    using n1 by (simp add: node_ok_BecomeFollower node_ok_entry keepsD [OF keeps_node_Advance])
qed

lemma node_ok_SnapshotReply:
  assumes "node_ok n"
  shows "node_ok (HandleSnapshotReply now rnd p t snap resp n)"
proof -
  define n1 where "n1 = HandleSendFailure p n"
  have n1: "node_ok n1" using assms by (simp add: n1_def)
  then show ?thesis
    unfolding HandleSnapshotReply_def Let_def n1_def [symmetric] by (simp add: node_ok_BecomeFollower node_ok_entry)
qed

lemma node_ok_install_begin: "node_ok n \<Longrightarrow> node_ok (snd (InstallSnapshot_begin now rnd req n))"
  by (simp add: InstallSnapshot_begin_def Let_def node_ok_follow)

lemma adopt_snapshot_log:
  "rlog (adopt_snapshot req n) =
     (if last_applied n < isq_last_included_index req
      then SetAppliedIndex (isq_last_included_index req)
             (CompactTo (isq_last_included_index req) (isq_last_included_term req) (rlog n))
      else CompactTo (isq_last_included_index req) (isq_last_included_term req) (rlog n))"
  by (simp add: adopt_snapshot_def Let_def)

lemma adopt_snapshot_mship:
  "omap_ok (isq_membership req) \<Longrightarrow> ms_synced (mship (adopt_snapshot req n))"
  by (simp add: adopt_snapshot_def Let_def)

lemma node_ok_adopt_snapshot:
  assumes "node_ok n" and "isq_wf req"
  shows "node_ok (adopt_snapshot req n)"
proof -
  note ok = node_okD [OF assms(1)]
  have "log_ok (rlog (adopt_snapshot req n))" "log_synced (rlog (adopt_snapshot req n))" "conf_ok (rlog (adopt_snapshot req n))"
    using CompactTo_ok [OF ok(6)] ok by (simp_all add: adopt_snapshot_log)
  with ok(1,4,5,9,10,13) assms(2) show ?thesis
    by (simp add: node_ok_defs isq_wf_def adopt_snapshot_mship) (auto simp: adopt_snapshot_log)
qed

lemma node_ok_install_end:
  assumes "node_ok n" and "isq_wf req"
  shows "node_ok (snd (InstallSnapshot_end req n))"
proof -
  have tail: "keeps node_ok (ebind RefreshMembership (\<lambda>_. eread (\<lambda>n. \<lparr>isr_term = term_of n\<rparr>)))"
    by (intro keeps_intros)
  show ?thesis
    unfolding InstallSnapshot_end_def using assms by (simp add: keepsD [OF tail] node_ok_adopt_snapshot)
qed

lemma propose_check_decodable: "propose_check c n = Inr r \<Longrightarrow> decodable c"
  by (auto simp: propose_check_def decodable_def rbind_Inr_iff)

lemma node_ok_append:
  assumes "node_ok n" and "decodable c"
  shows "node_ok (n\<lparr>rlog := snd (log_Append (term_of n) c (rlog n))\<rparr>)"
proof -
  note ok = node_okD [OF assms(1)]
  show ?thesis
    using log_Append_spec [OF ok(6), of "term_of n" c] conf_ok_ops(4) [OF ok(8) assms(2), of "term_of n"]
      log_Append_fields [of "term_of n" c "rlog n"] ok
    by (intro node_ok_log [OF assms(1)]) simp_all
qed

lemma node_ok_propose:
  assumes "node_ok n"
  shows "node_ok (snd (Propose_begin cb c n))"
proof -
  have tail: "keeps node_ok (ebind RefreshMembership (\<lambda>_. ebind (MaybeAdvanceCommitIndex cb) (\<lambda>_. eret r)))"
    for r :: propose_outcome
    by (intro keeps_intros)
  obtain i l where a: "log_Append (term_of n) c (rlog n) = (i, l)" by (metis surj_pair)
  have "node_ok (n\<lparr>rlog := l\<rparr>)" if "decodable c" using node_ok_append [OF assms that] a by simp
  then show ?thesis
    unfolding Propose_begin_def a Let_def prod.case
    using assms keepsD [OF tail] propose_check_decodable [of c n]
    by (cases "propose_check c n") (auto split: option.split)
qed

lemma node_ok_small:
  "node_ok n \<Longrightarrow> node_ok (snd (SendInstallSnapshot cb p t n))" "node_ok n \<Longrightarrow> node_ok (InstallSnapshot_restore cb req n)"
  "node_ok n \<Longrightarrow> node_ok (snd (Tick now n))"
  by (simp_all add: SendInstallSnapshot_def InstallSnapshot_restore_def Tick_def)

lemma log_Load_synced:
  assumes "log_synced l" and "log_storable l"
  shows "log_Load (lg_file l) = l"
  using assms log_Load_bytes [OF assms(2)]
  by (cases "lg_file l") (auto simp: log_synced_def log_Load_def)

lemma ms_Load_synced:
  assumes "ms_synced ms" and "host_ok (host (ms_own_address ms))" and "\<forall>p \<in> set (base_peers ms). host_ok (host (snd p))"
  shows "ms_Load (ms_file ms) = Inr ms"
  using ms_Load_text [of "base_peers ms" "ms_own_address ms" "ms_self_is_member ms"] assms by (simp add: ms_synced_def)

text \<open>A restart from the files gives back the durable part of the node.\<close>

lemma RaftNode_new_restart:
  assumes "node_ok n" and "disk_fits n"
  shows "RaftNode_new (node_id n) addr ps joins (ps_file (hard n)) (lg_file (rlog n)) (ms_file (mship n)) m =
    Inr \<lparr>node_id = node_id n, own_address = ms_own_address (mship n), peers = base_peers (mship n), hard = hard n,
      rlog = rlog n, mship = mship n, role = Follower, leader_hint = 0, commit_index = last_applied n,
      last_applied = last_applied n, self_is_member = ms_self_is_member (mship n), pending_self_removal_index = 0,
      joining = False, apply_errors = [], election_deadline = 0, next_heartbeat_time = 0, votes_received = 0,
      last_leader_contact = 0, next_index = [], match_index = [], replication_in_flight = {}, machine = m\<rparr>"
proof -
  note ok = node_okD [OF assms(1)] and d = assms(2) [unfolded disk_fits_def]
  have "ms_Load (ms_file (mship n)) = Inr (mship n)" by (rule ms_Load_synced [OF ok(2)]) (use d in auto)
  moreover have "log_Load (lg_file (rlog n)) = rlog n" by (rule log_Load_synced [OF ok(7)]) (use d in simp)
  moreover have "ps_Load (ps_file (hard n)) = hard n" by (rule hard_synced_Load [OF ok(1)]) (use d in simp)
  ultimately show ?thesis
    using ok(2,9) by (simp add: RaftNode_new_def Let_def ms_synced_def)
qed

lemma quiet_step_ok:
  assumes "quiet_step cb aeq_wf isq_wf n n'" and "node_ok n"
  shows "node_ok n'"
  using assms(1)
proof cases
  case (restart addr ps joins m)
  from RaftNode_new_restart [OF assms(2) restart(1), of addr ps joins m] restart(2) assms(2) show ?thesis
    by (simp add: node_ok_defs ms_synced_def)
qed (use assms(2) in \<open>simp_all add: node_ok_AppendEntries node_ok_replicate node_ok_AppendReply node_ok_small
    node_ok_SnapshotReply node_ok_install_begin node_ok_install_end node_ok_propose\<close>)

lemma decodable_x: "decodable ''x''"
  by (simp add: decodable_def TryDecodeConfChange_def)

lemma node3_ok: "node_ok leader3" "node_ok follower3"
  by (simp_all add: leader3_def follower3_def node3_def node_ok_defs ms_synced_Set omap_ok_def conf_ok_def entry3_def
      decodable_x log_ok_def log_new_def less_Suc_eq nth_Cons split: nat.split)

text \<open>C16. The invariant of a node is kept by every critical section, whatever well-formed message arrives, and by a
  crash and restart: the log stays contiguous and on disk, the apply position is durable and not before
  the snapshot, a leader tracks exactly its peers, and the three files load back to the state.\<close>

theorem raft_node_invariant:
  assumes "node_steps cb aeq_wf isq_wf n n'" and "node_ok n"
  shows "node_ok n'"
  using assms
proof (induction rule: node_steps.induct)
  case (more n n' n'')
  then have ok: "node_ok n'" by simp
  from more.hyps(2) show ?case
    by cases (use ok in \<open>simp_all add: node_ok_RequestVote keepsD [OF keeps_node_election] node_ok_VoteReply quiet_step_ok\<close>)
qed

theorem raft_node_invariant_witness:
  "node_ok (snd (HandleRequestVote 1000 0
     \<lparr>rvq_term = 2, rvq_candidate_id = 3, rvq_last_log_index = 1, rvq_last_log_term = 1\<rparr> follower3))"
  by (rule raft_node_invariant [where cb = cb_list, OF more [OF none request_vote] node3_ok(2)])

end
