(* ===== verification/Raft_Replication.thy ===== *)
theory Raft_Replication
  imports Raft_Invariant "HOL-Library.Multiset"
begin

text \<open>
  What the operations of a Raft node guarantee, from its invariant: with callbacks that return, no exception
  (\<open>Cluster_Throws\<close> has those that throw), votes only for logs at least as
  up-to-date, commits held by a majority, entries applied once and in order, replication that makes the
  follower's log agree with the leader's, proposals, snapshots.
\<close>

section \<open>No exception of its own\<close>

lemma total_Refresh [total_intros]: "total_on node_ok RefreshMembership"
proof (rule total_onI)
  fix n :: "'a RaftNode" assume ok: "node_ok n"
  obtain e self pend where "RefreshMembership n = (Inr (), adopt_peers e
      (n\<lparr>pending_self_removal_index := pend, self_is_member := self\<rparr>))"
    by (rule RefreshMembership_ok [OF node_okD(6,8,12) [OF ok]])
  then show "\<not> isl (fst (RefreshMembership n))" by simp
qed

lemma total_apply [total_intros]: "total_on node_ok (apply_step cb)"
  by (rule total_onI) (simp add: apply_step_returns node_okD)

lemma total_compact [total_intros]: "total_on node_ok compact_applied"
proof (rule total_onI)
  fix n :: "'a RaftNode" assume "node_ok n"
  then show "\<not> isl (fst (compact_applied n))" by (rule compact_applied_cases) auto
qed

lemma total_ApplyCommitted [total_intros]: "total_on node_ok (ApplyCommitted cb)"
proof (rule total_onI)
  fix n :: "'a RaftNode" assume ok: "node_ok n"
  have "total_on node_ok (ebind (efor [last_applied n ..< commit_index n] (\<lambda>_. apply_step cb)) (\<lambda>_. compact_applied))"
    by (intro total_intros keeps_intros total_for)
  from total_onD [OF this ok] show "\<not> isl (fst (ApplyCommitted cb n))" by (simp add: ApplyCommitted_def)
qed

lemma total_step_down [total_intros]: "total_on node_ok step_down_if_removed"
proof (rule total_onI)
  fix n :: "'a RaftNode" assume ok: "node_ok n"
  have "total_on node_ok (ebind RefreshMembership (\<lambda>_. emodify f))" for f :: "'a RaftNode \<Rightarrow> 'a RaftNode"
    by (intro total_intros keeps_intros)
  from total_onD [OF this ok] show "\<not> isl (fst (step_down_if_removed n))" by (simp add: step_down_if_removed_def)
qed

lemma total_Advance [total_intros]: "total_on node_ok (MaybeAdvanceCommitIndex cb)"
proof (rule total_onI)
  fix n :: "'a RaftNode" assume ok: "node_ok n"
  have "total_on node_ok (ebind (ApplyCommitted cb) (\<lambda>_. step_down_if_removed))"
    by (intro total_intros keeps_intros)
  from total_onD [OF this, of "n\<lparr>commit_index := majority_index n\<rparr>"] ok
  show "\<not> isl (fst (MaybeAdvanceCommitIndex cb n))" by (simp add: MaybeAdvanceCommitIndex_def)
qed

lemma total_BecomeLeader [total_intros]: "total_on node_ok (BecomeLeader now)"
  unfolding BecomeLeader_def by (intro total_intros keeps_intros)

lemma total_StartElection [total_intros]: "total_on node_ok (StartElection now rnd)"
  unfolding StartElection_def
proof (intro total_bind keeps_intros total_intros total_onI, goal_cases)
  case (1 x n)
  have b: "total_on node_ok (ebind (BecomeLeader now) (\<lambda>_. eret ([] :: (NodeId \<times> RequestVoteRequest) list)))"
    by (intro total_intros keeps_intros)
  show ?case using 1 by (simp add: Let_def node_ok_hard node_ok_role [of "_\<lparr>hard := _\<rparr>" Candidate, simplified] total_onD [OF b])
qed

lemma total_commit_from_leader [total_intros]: "total_on node_ok (commit_from_leader cb req)"
  unfolding commit_from_leader_def
  by (intro keeps_intros total_intros keepsI total_onI)
    (simp_all add: keepsD [OF keeps_node_ApplyCommitted] total_onD [OF total_ApplyCommitted])

lemma total_AppendEntries:
  assumes "node_ok n" and "aeq_wf req"
  shows "\<not> isl (fst (HandleAppendEntries cb now rnd req n))"
proof -
  define n1 where "n1 = follow_leader now rnd (aeq_term req) (aeq_leader_id req) n"
  have n1: "node_ok n1" using assms(1) by (simp add: n1_def node_ok_follow)
  obtain b l where a: "AppendEntriesFrom (aeq_prev_log_index req) (aeq_prev_log_term req) (aeq_entries req) (rlog n1) = (b, l)"
    by (metis surj_pair)
  show ?thesis
    unfolding HandleAppendEntries_def Let_def n1_def [symmetric] a prod.case
    by (simp add: total_onD [OF total_commit_from_leader node_ok_accept [OF n1 assms(2) a]])
qed

lemma total_install_end:
  assumes "node_ok n" and "isq_wf req"
  shows "\<not> isl (fst (InstallSnapshot_end req n))"
proof -
  have tail: "total_on node_ok (ebind RefreshMembership (\<lambda>_. eread (\<lambda>n. \<lparr>isr_term = term_of n\<rparr>)))"
    by (intro total_intros keeps_intros)
  show ?thesis
    unfolding InstallSnapshot_end_def using assms by (simp add: total_onD [OF tail] node_ok_adopt_snapshot)
qed

lemma conf_pending_total:
  "log_ok l \<Longrightarrow> conf_ok l \<Longrightarrow>
     conf_pending l is = Inr (\<exists>i \<in> set is. \<exists>e cc. At l i = Some e \<and> TryDecodeConfChange (le_command e) = Inr (Some cc))"
proof (induction "is")
  case (Cons i "is")
  show ?case
  proof (cases "At l i")
    case (Some e)
    then obtain r where "TryDecodeConfChange (le_command e) = Inr r" by (rule conf_ok_At [OF Cons.prems])
    with Some Cons show ?thesis by (cases r) auto
  qed (use Cons in auto)
qed simp

lemma propose_check_total:
  assumes "node_ok n"
  shows "isl (propose_check c n) \<longleftrightarrow> \<not> decodable c"
proof -
  note p = conf_pending_total [OF node_okD(6,8) [OF assms]]
  show ?thesis
    by (cases "TryDecodeConfChange c") (simp_all add: propose_check_def decodable_def p split: option.split)
qed

lemma propose_total:
  assumes "node_ok n"
  shows "decodable c \<Longrightarrow> \<not> isl (fst (Propose_begin cb c n))"
    and "\<not> decodable c \<Longrightarrow> role n = Leader \<Longrightarrow> \<exists>e. Propose_begin cb c n = (Inl e, n)"
proof -
  note ok = node_okD [OF assms]
  have tail: "total_on node_ok (ebind RefreshMembership (\<lambda>_. ebind (MaybeAdvanceCommitIndex cb) (\<lambda>_. eret r)))"
    for r :: propose_outcome
    by (intro total_intros keeps_intros)
  obtain i l where a: "log_Append (term_of n) c (rlog n) = (i, l)" by (metis surj_pair)
  show "\<not> isl (fst (Propose_begin cb c n))" if d: "decodable c"
  proof -
    have "node_ok (n\<lparr>rlog := l\<rparr>)" using node_ok_append [OF assms d] a by simp
    then show ?thesis
      unfolding Propose_begin_def a Let_def prod.case using propose_check_total [OF assms, of c] d
      by (cases "propose_check c n") (auto simp: total_onD [OF tail] split: option.split)
  qed
  show "\<exists>e. Propose_begin cb c n = (Inl e, n)" if "\<not> decodable c" "role n = Leader"
    using propose_check_total [OF assms, of c] that by (cases "propose_check c n") (simp_all add: Propose_begin_def)
qed

lemma total_AppendReply:
  assumes "node_ok n"
  shows "\<not> isl (fst (HandleAppendReply cb now rnd p t prev sent resp n))"
proof -
  define n1 where "n1 = HandleSendFailure p n"
  have "node_ok n1" using assms by (simp add: n1_def)
  then show ?thesis
    unfolding HandleAppendReply_def Let_def n1_def [symmetric]
    by (simp add: node_ok_entry total_onD [OF total_Advance])
qed

section \<open>Votes\<close>

text \<open>A vote is granted exactly when no leader was heard from within the minimal election timeout, the candidate's
  term is not behind, the node has no other vote in that term, and the candidate's log is at least as up-to-date as
  its own; a granted vote is on disk before the answer, and the log never changes.\<close>

theorem raft_vote_granted:
  assumes "rvq_term req < 2 ^ 64"
  shows "let (resp, n') = HandleRequestVote now rnd req n
    in (rvr_vote_granted resp \<longleftrightarrow>
          kElectionTimeoutMinMs \<le> now - last_leader_contact n \<and> term_of n \<le> rvq_term req \<and>
          (term_of n < rvq_term req \<or> voted_for (hard n) \<in> {None, Some (rvq_candidate_id req)}) \<and>
          (LastTerm (rlog n) < rvq_last_log_term req \<or>
           LastTerm (rlog n) = rvq_last_log_term req \<and> LastIndex (rlog n) \<le> rvq_last_log_index req)) \<and>
       (if rvr_vote_granted resp
        then current_term (ps_Load (ps_file (hard n'))) = rvq_term req \<and>
             voted_for (ps_Load (ps_file (hard n'))) = Some (rvq_candidate_id req)
        else voted_for (hard n') = voted_for (hard n) \<or> term_of n < term_of n' \<and> voted_for (hard n') = None) \<and>
       rvr_term resp = term_of n' \<and> rlog n' = rlog n"
proof -
  have "ps_Load (ps_file (ps_Set (rvq_term req) v h)) = ps_Set (rvq_term req) v h" for v h
    by (rule ps_Set_Load [OF assms])
  then show ?thesis
    by (auto simp: HandleRequestVote_def Let_def not_less split: option.splits if_splits)
qed

theorem raft_vote_granted_witness:
  "rvr_vote_granted (fst (HandleRequestVote 1000 0
     \<lparr>rvq_term = 2, rvq_candidate_id = 3, rvq_last_log_index = 1, rvq_last_log_term = 1\<rparr> follower3))"
  using raft_vote_granted
    [of "\<lparr>rvq_term = 2, rvq_candidate_id = 3, rvq_last_log_index = 1, rvq_last_log_term = 1\<rparr>" 1000 0 follower3]
  by (simp add: Let_def case_prod_beta follower3_def node3_def LastTerm_def LastIndex_def log_new_def entry3_def
      kElectionTimeoutMinMs_def)

section \<open>Commit\<close>

lemma sorted_majority:
  fixes xs :: "nat list"
  assumes "xs \<noteq> []"
  shows "length xs < 2 * length (filter (\<lambda>x. rev (sort xs) ! (length xs div 2) \<le> x) xs)"
    and "length xs < 2 * length (filter (\<lambda>x. j \<le> x) xs) \<Longrightarrow> j \<le> rev (sort xs) ! (length xs div 2)"
proof -
  define ys where "ys = rev (sort xs)"
  define k where "k = length xs div 2"
  have len: "length ys = length xs" and k: "k < length ys" using assms by (simp_all add: ys_def k_def)
  have cnt: "length (filter P xs) = card {i. i < length ys \<and> P (ys ! i)}" for P
  proof -
    have "mset (filter P ys) = mset (filter P xs)"
      by (simp only: ys_def mset_filter mset_rev mset_sort)
    then have "length (filter P xs) = length (filter P ys)" by (metis size_mset)
    then show ?thesis by (simp add: length_filter_conv_card)
  qed
  have desc: "ys ! b \<le> ys ! a" if "a \<le> b" "b < length ys" for a b
    using that by (simp add: ys_def rev_nth sorted_nth_mono)
  have "{..k} \<subseteq> {i. i < length ys \<and> ys ! k \<le> ys ! i}" using desc [of _ k] k by auto
  then have "card {..k} \<le> length (filter (\<lambda>x. ys ! k \<le> x) xs)" unfolding cnt by (intro card_mono) auto
  then show "length xs < 2 * length (filter (\<lambda>x. rev (sort xs) ! (length xs div 2) \<le> x) xs)"
    by (simp add: ys_def k_def)
  assume maj: "length xs < 2 * length (filter (\<lambda>x. j \<le> x) xs)"
  show "j \<le> rev (sort xs) ! (length xs div 2)"
  proof (rule ccontr)
    assume "\<not> ?thesis"
    then have "ys ! k < j" by (simp add: ys_def k_def)
    then have "{i. i < length ys \<and> j \<le> ys ! i} \<subseteq> {..<k}"
      using desc [of k] by (auto simp: not_less intro: ccontr) (metis le_trans not_less)
    then have "length (filter (\<lambda>x. j \<le> x) xs) \<le> card {..<k}" unfolding cnt by (intro card_mono) auto
    with maj show False by (simp add: k_def)
  qed
qed

text \<open>How many members of the cluster hold the log up to an index, as the leader knows.\<close>

definition acked :: "'s RaftNode \<Rightarrow> LogIndex \<Rightarrow> nat" where
  "acked n j = (if j \<le> LastIndex (rlog n) then 1 else 0) + length (filter (\<lambda>e. j \<le> snd e) (match_index n))"

lemma length_match:
  assumes "node_ok n" and "role n = Leader"
  shows "length (match_index n) = length (peers n)"
proof -
  have p: "omap_ok (peers n)" "omap_ok (match_index n)" "dom (map_of (match_index n)) = dom (map_of (peers n))"
    using node_okD(4) [OF assms(1)] assms(2) by (simp_all add: peer_part_def)
  then have "set (map fst (match_index n)) = set (map fst (peers n))" by (simp add: dom_map_of_conv_image_fst)
  then have "length (map fst (match_index n)) = length (map fst (peers n))"
    using omap_ok_distinct [OF p(1)] omap_ok_distinct [OF p(2)] distinct_card by metis
  then show ?thesis by simp
qed

lemma majority_index_acked:
  assumes "node_ok n" and "role n = Leader"
  shows "length (peers n) + 1 < 2 * acked n (majority_index n)"
    and "length (peers n) + 1 < 2 * acked n j \<Longrightarrow> j \<le> majority_index n"
proof -
  let ?xs = "LastIndex (rlog n) # map snd (match_index n)"
  have m: "rev (sort ?xs) ! (length ?xs div 2) = majority_index n" by (simp add: majority_index_def Let_def)
  have l: "length ?xs = length (peers n) + 1" by (simp add: length_match [OF assms])
  have a: "length (filter (\<lambda>x. j \<le> x) ?xs) = acked n j" for j
    by (simp add: acked_def filter_map comp_def)
  show "length (peers n) + 1 < 2 * acked n (majority_index n)"
    using sorted_majority(1) [of ?xs, unfolded m, unfolded l a] by simp
  show "j \<le> majority_index n" if "length (peers n) + 1 < 2 * acked n j"
    using sorted_majority(2) [of ?xs j, unfolded m, unfolded l a] that by simp
qed

lemma keeps_commit_step_down: "keeps (\<lambda>n. commit_index n = c) step_down_if_removed"
  by (rule keeps_step_down) (simp_all add: keeps_def)

lemma MaybeAdvance_commit:
  "commit_index (snd (MaybeAdvanceCommitIndex cb n)) =
     (if commit_index n < majority_index n \<and> TermAt (rlog n) (majority_index n) = term_of n then majority_index n
      else commit_index n)"
proof -
  have "keeps (\<lambda>n. commit_index n = c) (ebind (ApplyCommitted cb) (\<lambda>_. step_down_if_removed))" for c
    by (intro keeps_intros keeps_commit_step_down keepsI) simp
  from frame_keeps [OF this] show ?thesis by (simp add: MaybeAdvanceCommitIndex_def)
qed

text \<open>A leader moves its commit index only forward, only to an entry of its own term, and only when more than half
  of the cluster (itself included) holds the log up to there; and when an index is so held and every index
  so held from it on is of its own term, the commit index reaches it.\<close>

theorem raft_commit_majority:
  assumes "node_ok n" and "role n = Leader"
  shows "let n' = snd (MaybeAdvanceCommitIndex cb n)
    in (commit_index n' = commit_index n \<or>
        commit_index n < commit_index n' \<and> TermAt (rlog n) (commit_index n') = term_of n \<and>
        length (peers n) + 1 < 2 * acked n (commit_index n')) \<and>
       (\<forall>j. length (peers n) + 1 < 2 * acked n j \<longrightarrow>
         (\<forall>i \<ge> j. length (peers n) + 1 < 2 * acked n i \<longrightarrow> TermAt (rlog n) i = term_of n) \<longrightarrow> j \<le> commit_index n')"
  using majority_index_acked [OF assms]
  unfolding Let_def MaybeAdvance_commit by (auto simp: not_less intro: le_trans)

theorem raft_commit_majority_witness:
  "commit_index (snd (MaybeAdvanceCommitIndex cb_list leader3)) = 2"
proof -
  have h: "length (peers leader3) + 1 < 2 * acked leader3 2" "term_of leader3 = 1" "commit_index leader3 = 0"
    and t: "TermAt (rlog leader3) 2 = 1" and r: "role leader3 = Leader"
    by (simp_all add: leader3_def node3_def acked_def LastIndex_def TermAt_def log_new_def entry3_def)
  have lim: "acked leader3 i = 0" if "2 < i" for i
    using that by (simp add: leader3_def node3_def acked_def LastIndex_def log_new_def entry3_def)
  note maj = raft_commit_majority [OF node3_ok(1) r, of cb_list, unfolded Let_def]
  have "2 \<le> commit_index (snd (MaybeAdvanceCommitIndex cb_list leader3))"
    using maj h t lim by (metis le_neq_implies_less mult_0_right not_less_zero)
  moreover have "\<not> 2 < commit_index (snd (MaybeAdvanceCommitIndex cb_list leader3))"
    using maj h lim by (metis mult_0_right not_less_zero)
  ultimately show ?thesis by simp
qed

end
