(* ===== verification/Raft_Apply.thy ===== *)
theory Raft_Apply
  imports Raft_Replication
begin

text \<open>
  The state machine behind a Raft node: committed entries reach it once and in order, a follower that accepts the
  leader's message holds the leader's log, a proposal is appended or refused, a snapshot replaces the
  state.
\<close>

section \<open>Applying\<close>

text \<open>The commands among the entries of a log, membership changes left out; and running them.\<close>

definition commands_at :: "RaftLog \<Rightarrow> LogIndex list \<Rightarrow> (LogIndex \<times> string) list" where
  "commands_at l is = concat (map (\<lambda>i. case At l i of
       None \<Rightarrow> []
     | Some e \<Rightarrow> (if TryDecodeConfChange (le_command e) = Inr None then [(i, le_command e)] else [])) is)"

fun run_commands :: "'s callbacks \<Rightarrow> (LogIndex \<times> string) list \<Rightarrow> 's \<Rightarrow> (LogIndex \<times> string) list \<times> 's" where
  "run_commands cb [] m = ([], m)"
| "run_commands cb ((i, c) # cs) m =
     (let (err, m) = apply_cb cb i c m; (errs, m) = run_commands cb cs m
      in (if err = [] then errs else (i, err) # errs, m))"

lemma commands_at_Nil [simp]: "commands_at l [] = []"
  by (simp add: commands_at_def)

lemma commands_at_Cons: "commands_at l (i # is) = commands_at l [i] @ commands_at l is"
  by (simp add: commands_at_def)

lemma run_commands_append:
  "run_commands cb (xs @ ys) m =
     (let (e1, m1) = run_commands cb xs m; (e2, m2) = run_commands cb ys m1 in (e1 @ e2, m2))"
  by (induction cb xs m rule: run_commands.induct) (auto simp: Let_def split: prod.splits)

lemma commands_at_mem: "(i, c) \<in> set (commands_at l is) \<Longrightarrow> i \<in> set is"
  by (auto simp: commands_at_def split: option.splits if_splits)

lemma run_commands_mem: "(i, e) \<in> set (fst (run_commands cb cs m)) \<Longrightarrow> i \<in> fst ` set cs"
  by (induction cb cs m rule: run_commands.induct) (auto simp: Let_def split: prod.splits if_splits)

lemma commands_at_cong: "(\<And>i. At l i = At l' i) \<Longrightarrow> commands_at l is = commands_at l' is"
  by (simp add: commands_at_def)

text \<open>One round of the apply loop runs the commands at its index.\<close>

lemma apply_step_run:
  assumes "node_ok n"
  shows "apply_step cb n = (Inr (), n\<lparr>last_applied := last_applied n + 1,
      machine := snd (run_commands cb (commands_at (rlog n) [last_applied n + 1]) (machine n)),
      apply_errors := foldl (\<lambda>m (i, e). omap_set i e m) (apply_errors n)
        (fst (run_commands cb (commands_at (rlog n) [last_applied n + 1]) (machine n))),
      rlog := SetAppliedIndex (last_applied n + 1) (rlog n)\<rparr>)"
proof (cases "At (rlog n) (last_applied n + 1)")
  case None
  then show ?thesis by (cases n) (simp add: apply_step_def commands_at_def)
next
  case (Some e)
  note ok = node_okD [OF assms]
  obtain r where r: "TryDecodeConfChange (le_command e) = Inr r" by (rule conf_ok_At [OF ok(6,8) Some])
  have i: "le_index e = last_applied n + 1" using At_Some [OF ok(6) Some] by simp
  show ?thesis
    using Some r i by (cases r; cases n) (simp_all add: apply_step_def commands_at_def case_prod_beta)
qed

lemma apply_loop_run:
  assumes "node_ok n"
  shows "\<exists>n'. efor xs (\<lambda>_. apply_step cb) n = (Inr (), n') \<and> node_ok n' \<and>
    last_applied n' = last_applied n + length xs \<and> commit_index n' = commit_index n \<and>
    (\<forall>i. At (rlog n') i = At (rlog n) i) \<and> snapshot_index (rlog n') = snapshot_index (rlog n) \<and>
    (let (errs, m) = run_commands cb (commands_at (rlog n) [last_applied n + 1 ..< last_applied n + 1 + length xs]) (machine n)
     in machine n' = m \<and> apply_errors n' = foldl (\<lambda>m (i, e). omap_set i e m) (apply_errors n) errs)"
  using assms
proof (induction xs arbitrary: n)
  case (Cons x xs)
  let ?cs = "commands_at (rlog n) [last_applied n + 1]"
  obtain errs m where r: "run_commands cb ?cs (machine n) = (errs, m)" by (metis surj_pair)
  define n1 where "n1 = snd (apply_step cb n)"
  have step: "apply_step cb n = (Inr (), n1)" using apply_step_run [OF Cons.prems, of cb] by (simp add: n1_def)
  have n1: "node_ok n1" unfolding n1_def by (rule keepsD [OF keeps_node_apply Cons.prems])
  have f: "last_applied n1 = last_applied n + 1" "machine n1 = m" "commit_index n1 = commit_index n"
    "apply_errors n1 = foldl (\<lambda>m (i, e). omap_set i e m) (apply_errors n) errs"
    "rlog n1 = SetAppliedIndex (last_applied n + 1) (rlog n)"
    using apply_step_run [OF Cons.prems, of cb] r by (simp_all add: n1_def)
  have l: "[last_applied n + 1 ..< last_applied n + 1 + length (x # xs)] =
      (last_applied n + 1) # [last_applied n1 + 1 ..< last_applied n1 + 1 + length xs]"
    using upt_conv_Cons [of "last_applied n + 1" "last_applied n + 1 + length (x # xs)"] by (simp add: f(1))
  have c: "commands_at (rlog n1) is = commands_at (rlog n) is" for "is"
    by (rule commands_at_cong) (simp add: f(5))
  obtain n' where n': "efor xs (\<lambda>_. apply_step cb) n1 = (Inr (), n')" "node_ok n'"
    "last_applied n' = last_applied n1 + length xs" "commit_index n' = commit_index n1"
    "\<forall>i. At (rlog n') i = At (rlog n1) i" "snapshot_index (rlog n') = snapshot_index (rlog n1)"
    and run: "let (errs, m) = run_commands cb (commands_at (rlog n1) [last_applied n1 + 1 ..< last_applied n1 + 1 + length xs]) (machine n1)
     in machine n' = m \<and> apply_errors n' = foldl (\<lambda>m (i, e). omap_set i e m) (apply_errors n1) errs"
    using Cons.IH [OF n1] by blast
  have "efor (x # xs) (\<lambda>_. apply_step cb) n = (Inr (), n')" by (simp add: step n'(1))
  moreover have "let (errs, m) = run_commands cb (commands_at (rlog n) [last_applied n + 1 ..< last_applied n + 1 + length (x # xs)]) (machine n)
     in machine n' = m \<and> apply_errors n' = foldl (\<lambda>m (i, e). omap_set i e m) (apply_errors n) errs"
    using run unfolding l commands_at_Cons [of _ "last_applied n + 1" "upt _ _"] run_commands_append c r f(2,4)
    by (simp add: Let_def case_prod_beta)
  ultimately show ?case using n' f by simp
qed auto

lemma map_of_rev_distinct: "distinct (map fst es) \<Longrightarrow> map_of (rev es) = map_of es"
proof (induction es)
  case (Cons e es)
  then have "map_of es (fst e) = None" by (simp add: map_of_eq_None_iff)
  with Cons show ?case by (cases e) (auto simp: map_add_def fun_eq_iff split: option.split)
qed simp

lemma map_of_set_all:
  "omap_ok m \<Longrightarrow> distinct (map fst es) \<Longrightarrow> map_of (foldl (\<lambda>m (i, e). omap_set i e m) m es) = map_of m ++ map_of es"
  using om.fold_upd [of m es] by (simp add: map_of_rev_distinct)

lemma commands_at_distinct: "sorted_wrt (<) is \<Longrightarrow> distinct (map fst (commands_at l is))"
proof (induction "is")
  case (Cons i "is")
  have "i \<notin> fst ` set (commands_at l is)" using Cons.prems commands_at_mem [of _ _ l "is"] by fastforce
  then have "i \<notin> set (map fst (commands_at l is))" by simp
  moreover have "map fst (commands_at l [i]) \<in> {[], [i]}" by (simp add: commands_at_def split: option.split)
  ultimately show ?case using Cons unfolding commands_at_Cons [of l i "is"] map_append by (auto simp del: set_map)
qed simp

lemma run_commands_distinct: "distinct (map fst cs) \<Longrightarrow> distinct (map fst (fst (run_commands cb cs m)))"
proof (induction cb cs m rule: run_commands.induct)
  case (2 cb i c cs m)
  obtain err m' where a: "apply_cb cb i c m = (err, m')" by (metis surj_pair)
  have "i \<notin> fst ` set (fst (run_commands cb cs m'))"
    using 2(2) run_commands_mem [of i _ cb cs m'] by (fastforce simp: image_iff)
  with 2 a show ?case by (auto simp: case_prod_beta)
qed simp

text \<open>Compaction leaves the entries after the new boundary and, of the recorded errors, those after the old one.\<close>

lemma CompactTo_applied:
  assumes "log_ok l" and "snapshot_index (CompactTo a (TermAt l a) l) < i"
  shows "At (CompactTo a (TermAt l a) l) i = At l i"
proof (cases "a \<le> LastIndex l")
  case True
  then show ?thesis using CompactTo_spec [OF assms(1), of a "TermAt l a"] assms(2) by (auto split: if_splits)
next
  case False
  with assms(2) have "At l i = None" by (simp add: At_def)
  moreover have "log_ok (CompactTo a (TermAt l a) l)" "lg_entries (CompactTo a (TermAt l a) l) = []"
    using False CompactTo_spec [OF assms(1), of a "TermAt l a"] LastIndex_eq [OF assms(1)] by (auto split: if_splits)
  ultimately show ?thesis using assms(2) by (simp add: At_eq)
qed

lemma compact_applied_effect:
  assumes "node_ok n"
  shows "\<exists>n'. compact_applied n = (Inr (), n') \<and> machine n' = machine n \<and>
    (\<forall>i > snapshot_index (rlog n). map_of (apply_errors n') i = map_of (apply_errors n) i) \<and>
    snapshot_index (rlog n') \<le> last_applied n \<and>
    (\<forall>i > snapshot_index (rlog n'). At (rlog n') i = At (rlog n) i)"
proof (rule compact_applied_cases [OF assms], goal_cases)
  case 1
  then show ?case using node_okD(10) [OF assms] by simp
next
  case (2 base self)
  note ok = node_okD [OF assms]
  let ?l = "CompactTo (last_applied n) (TermAt (rlog n) (last_applied n)) (rlog n)"
  have e: "map_of (filter (\<lambda>e. snapshot_index (rlog n) < fst e) (apply_errors n)) i = map_of (apply_errors n) i"
    if "snapshot_index (rlog n) < i" for i
    using that by (simp add: map_of_filter_key [where P = "\<lambda>x. snapshot_index (rlog n) < x"])
  have s: "snapshot_index ?l \<le> last_applied n" using ok(10) by simp
  note a = CompactTo_applied [OF ok(6), of "last_applied n"]
  from 2(2) show ?case
    by (elim disjE) (use e s a in \<open>auto simp del: CompactTo_fields\<close>)
qed

lemma ApplyCommitted_effect:
  assumes "node_ok n" and "last_applied n \<le> commit_index n"
  shows "\<exists>n'. ApplyCommitted cb n = (Inr (), n') \<and>
    (let (errs, m) = run_commands cb (commands_at (rlog n) [last_applied n + 1 ..< commit_index n + 1]) (machine n)
     in machine n' = m \<and> (\<forall>i > last_applied n. map_of (apply_errors n') i = map_of errs i)) \<and>
    last_applied n' = commit_index n \<and> applied_index (rlog n') = commit_index n \<and> log_synced (rlog n') \<and>
    snapshot_index (rlog n') \<le> commit_index n \<and>
    (\<forall>i > snapshot_index (rlog n'). At (rlog n') i = At (rlog n) i)"
proof -
  let ?xs = "[last_applied n ..< commit_index n]"
  have len: "last_applied n + 1 + length ?xs = commit_index n + 1" "last_applied n + length ?xs = commit_index n"
    using assms(2) by simp_all
  obtain errs m where run: "run_commands cb (commands_at (rlog n) [last_applied n + 1 ..< commit_index n + 1]) (machine n) = (errs, m)"
    by (metis surj_pair)
  obtain n1 where n1: "efor ?xs (\<lambda>_. apply_step cb) n = (Inr (), n1)" "node_ok n1" "last_applied n1 = commit_index n"
    "\<forall>i. At (rlog n1) i = At (rlog n) i" "snapshot_index (rlog n1) = snapshot_index (rlog n)"
    and eff: "machine n1 = m" "apply_errors n1 = foldl (\<lambda>m (i, e). omap_set i e m) (apply_errors n) errs"
    using apply_loop_run [OF assms(1), of ?xs cb] run len by auto
  obtain n2 where n2: "compact_applied n1 = (Inr (), n2)" "machine n2 = machine n1" "snapshot_index (rlog n2) \<le> last_applied n1"
    "\<forall>i > snapshot_index (rlog n1). map_of (apply_errors n2) i = map_of (apply_errors n1) i"
    "\<forall>i > snapshot_index (rlog n2). At (rlog n2) i = At (rlog n1) i"
    using compact_applied_effect [OF n1(2)] by blast
  have ok2: "node_ok n2" using keepsD [OF keeps_node_compact n1(2)] n2(1) by simp
  have la: "last_applied n2 = commit_index n" using compact_applied_frame [of n1] n2(1) n1(3) by simp
  have "distinct (map fst errs)"
    using run_commands_distinct [OF commands_at_distinct, of "[last_applied n + 1 ..< commit_index n + 1]" cb "rlog n" "machine n"]
    unfolding run fst_conv by (simp only: sorted_wrt_upt)
  then have me: "map_of (apply_errors n1) = map_of (apply_errors n) ++ map_of errs"
    unfolding eff(2) by (rule map_of_set_all [OF node_okD(5) [OF assms(1)]])
  have err: "map_of (apply_errors n2) i = map_of errs i" if "last_applied n < i" for i
  proof -
    have "map_of (apply_errors n) i = None"
      using node_okD(13) [OF assms(1)] that by (force simp: map_of_eq_None_iff)
    moreover have "snapshot_index (rlog n1) < i" using that node_okD(10) [OF assms(1)] n1(5) by simp
    ultimately show ?thesis using n2(4) me by (simp add: map_add_def split: option.split)
  qed
  have "ApplyCommitted cb n = (Inr (), n2)" by (simp add: ApplyCommitted_def n1(1) n2(1))
  with run err la node_okD(7,9) [OF ok2] n2(2,3,5) n1(3,4) eff(1) show ?thesis by (auto simp del: upt_Suc)
qed

text \<open>C12. When the commit index is ahead, exactly the commands of the entries after the last applied one up to the commit
  index are run, once each and in log order; the node remembers the error of each that reported one;
  the position is on disk with the last of them, and the entries that remain in the log are the ones it had.\<close>

theorem raft_apply_in_order:
  assumes "node_ok n" and "last_applied n \<le> commit_index n"
  shows "\<exists>n'. ApplyCommitted cb n = (Inr (), n') \<and>
    (let (errs, m) = run_commands cb (commands_at (rlog n) [last_applied n + 1 ..< commit_index n + 1]) (machine n)
     in machine n' = m \<and> (\<forall>i > last_applied n. map_of (apply_errors n') i = map_of errs i)) \<and>
    last_applied n' = commit_index n \<and> applied_index (rlog n') = commit_index n \<and> log_synced (rlog n') \<and>
    snapshot_index (rlog n') \<le> commit_index n \<and>
    (\<forall>i > snapshot_index (rlog n'). At (rlog n') i = At (rlog n) i)"
  by (rule ApplyCommitted_effect [OF assms])

theorem raft_apply_in_order_witness:
  "\<exists>n'. ApplyCommitted cb_list (leader3\<lparr>commit_index := 2\<rparr>) = (Inr (), n') \<and> machine n' = [''x'', ''x''] \<and>
     applied_index (rlog n') = 2"
proof -
  have c: "commands_at (rlog leader3) [1, 2] = [(1, ''x''), (2, ''x'')]"
    by (simp add: commands_at_def leader3_def node3_def log_new_def At_def LastIndex_def entry3_def TryDecodeConfChange_def)
  have f: "last_applied leader3 = 0" "machine leader3 = []" "[Suc 0 ..< 3] = [1, 2]"
    by (simp_all add: leader3_def node3_def upt_rec)
  show ?thesis
    using raft_apply_in_order [of "leader3\<lparr>commit_index := 2\<rparr>" cb_list] node3_ok(1) f c
    by (auto simp: cb_list_def)
qed

section \<open>Replication\<close>

text \<open>What a leader sends is the part of its log from the follower's next index.\<close>

lemma entries_from:
  assumes "log_ok l" and "snapshot_index l < next" and "next \<le> LastIndex l + 1"
  shows "concat (map (\<lambda>i. case At l i of None \<Rightarrow> [] | Some e \<Rightarrow> [e]) [next ..< LastIndex l + 1])
    = drop (next - snapshot_index l - 1) (lg_entries l)"
proof -
  let ?d = "next - snapshot_index l - 1"
  have "At l i = Some (lg_entries l ! (i - snapshot_index l - 1))" if "i \<in> set [next ..< LastIndex l + 1]" for i
    using that assms(2) by (auto simp: At_def)
  then have "map (\<lambda>i. case At l i of None \<Rightarrow> [] | Some e \<Rightarrow> [e]) [next ..< LastIndex l + 1]
      = map (\<lambda>i. [lg_entries l ! (i - snapshot_index l - 1)]) [next ..< LastIndex l + 1]"
    by (intro map_cong) auto
  also have "\<dots> = map (\<lambda>e. [e]) (drop ?d (lg_entries l))"
    using assms LastIndex_eq [OF assms(1)] by (intro nth_equalityI) (auto simp del: upt_Suc)
  finally show ?thesis by (simp del: upt_Suc)
qed

text \<open>The hypothesis of Raft's log matching for two logs: an index and a term determine the command.\<close>

definition logs_match :: "RaftLog \<Rightarrow> RaftLog \<Rightarrow> bool" where
  "logs_match l l' \<longleftrightarrow> (\<forall>i x y. At l i = Some x \<longrightarrow> At l' i = Some y \<longrightarrow> le_term x = le_term y \<longrightarrow> le_command x = le_command y)"

lemma ReplicateTo_send:
  assumes "ReplicateTo p ld = (SendAppend req, ld')" and "log_ok (rlog ld)"
    and "aeq_prev_log_index req \<le> LastIndex (rlog ld)"
  shows "aeq_term req = term_of ld" and "aeq_leader_commit req = commit_index ld"
    and "snapshot_index (rlog ld) \<le> aeq_prev_log_index req"
    and "aeq_prev_log_term req = TermAt (rlog ld) (aeq_prev_log_index req)"
    and "aeq_entries req = drop (aeq_prev_log_index req - snapshot_index (rlog ld)) (lg_entries (rlog ld))"
proof -
  let ?next = "omap_get_default 0 p (next_index ld)"
  have n: "snapshot_index (rlog ld) < ?next" and
    r: "req = \<lparr>aeq_term = term_of ld, aeq_leader_id = node_id ld, aeq_prev_log_index = ?next - 1,
         aeq_prev_log_term = TermAt (rlog ld) (?next - 1),
         aeq_entries = concat (map (\<lambda>i. case At (rlog ld) i of None \<Rightarrow> [] | Some e \<Rightarrow> [e]) [?next ..< LastIndex (rlog ld) + 1]),
         aeq_leader_commit = commit_index ld\<rparr>"
    using assms(1) by (auto simp: ReplicateTo_def Let_def not_le split: if_splits)
  show "aeq_term req = term_of ld" "aeq_leader_commit req = commit_index ld"
    "snapshot_index (rlog ld) \<le> aeq_prev_log_index req"
    "aeq_prev_log_term req = TermAt (rlog ld) (aeq_prev_log_index req)"
    unfolding r using n by simp_all
  have "?next \<le> LastIndex (rlog ld) + 1" using assms(3) unfolding r by simp
  from entries_from [OF assms(2) n this] n
  show "aeq_entries req = drop (aeq_prev_log_index req - snapshot_index (rlog ld)) (lg_entries (rlog ld))"
    unfolding r by simp
qed

lemma sent_entry:
  assumes "log_ok l" and "snapshot_index l \<le> prev" and "prev \<le> LastIndex l"
    and "k < length (drop (prev - snapshot_index l) (lg_entries l))"
  shows "At l (prev + 1 + k) = Some (drop (prev - snapshot_index l) (lg_entries l) ! k)"
    and "le_index (drop (prev - snapshot_index l) (lg_entries l) ! k) = prev + 1 + k"
proof -
  define q where "q = prev - snapshot_index l + k"
  have q: "q < length (lg_entries l)" "prev + 1 + k = snapshot_index l + 1 + q"
    "drop (prev - snapshot_index l) (lg_entries l) ! k = lg_entries l ! q"
    using assms by (auto simp: q_def)
  show "At l (prev + 1 + k) = Some (drop (prev - snapshot_index l) (lg_entries l) ! k)"
    "le_index (drop (prev - snapshot_index l) (lg_entries l) ! k) = prev + 1 + k"
    unfolding q(2,3) using At_offset(1) [OF assms(1) q(1)] log_ok_nth [OF assms(1) q(1)] by simp_all
qed

lemma logs_match_message:
  assumes "logs_match lf l" and "log_ok l" and "snapshot_index l \<le> prev" and "prev \<le> LastIndex l"
  shows "log_matches lf prev (drop (prev - snapshot_index l) (lg_entries l))"
  unfolding log_matches_def
proof (intro allI impI conjI)
  fix k assume k: "k < length (drop (prev - snapshot_index l) (lg_entries l))"
  note e = sent_entry [OF assms(2-4) k]
  show "le_index (drop (prev - snapshot_index l) (lg_entries l) ! k) = prev + 1 + k" by (rule e(2))
  show "case At lf (prev + 1 + k) of None \<Rightarrow> True | Some x \<Rightarrow>
      le_term x = le_term (drop (prev - snapshot_index l) (lg_entries l) ! k) \<longrightarrow>
      le_command x = le_command (drop (prev - snapshot_index l) (lg_entries l) ! k)"
    using assms(1) e(1) unfolding logs_match_def by (auto split: option.split)
qed

lemma keeps_snapshot_parts:
  "keeps (\<lambda>n. c \<le> snapshot_index (rlog n)) RefreshMembership" "keeps (\<lambda>n. c \<le> snapshot_index (rlog n)) (apply_step cb)"
  "keeps (\<lambda>n. c \<le> snapshot_index (rlog n)) compact_applied"
  by (rule keepsI, simp add: apply_step_def compact_applied_def Let_def split: option.split sum.split prod.split)+

lemma keeps_snapshot_commit: "snapshot_index (rlog n) \<le> snapshot_index (rlog (snd (commit_from_leader cb req n)))"
proof -
  have a: "keeps (\<lambda>n. c \<le> snapshot_index (rlog n)) (ApplyCommitted cb)" for c
    by (rule keeps_ApplyCommitted) (rule keeps_snapshot_parts)+
  have "keeps (\<lambda>n. c \<le> snapshot_index (rlog n)) (commit_from_leader cb req)" for c
    unfolding commit_from_leader_def
    by (intro keeps_bind keeps_snapshot_parts keeps_basic, rule keepsI) (simp add: keepsD [OF a])
  then show ?thesis by (rule keepsD) simp
qed

text \<open>Taking over the leader's commit index: it moves forward at most to the end of the log, what it covers is applied,
  and the entries that remain are the ones there were.\<close>

lemma commit_from_leader_effect:
  assumes "node_ok n" and "last_applied n \<le> commit_index n" and "commit_index n \<le> LastIndex (rlog n)"
  shows "\<exists>n'. commit_from_leader cb req n = (Inr \<lparr>aer_term = term_of n, aer_success = True,
        aer_match_index = aeq_prev_log_index req + length (aeq_entries req)\<rparr>, n') \<and>
    hard n' = hard n \<and> role n' = role n \<and>
    commit_index n' = max (commit_index n) (min (aeq_leader_commit req) (LastIndex (rlog n))) \<and>
    (\<forall>i > snapshot_index (rlog n'). At (rlog n') i = At (rlog n) i) \<and>
    (commit_index n < commit_index n' \<longrightarrow> last_applied n' = commit_index n')"
proof -
  obtain e self pend where r: "RefreshMembership n = (Inr (), adopt_peers e
      (n\<lparr>pending_self_removal_index := pend, self_is_member := self\<rparr>))"
    by (rule RefreshMembership_ok [OF node_okD(6,8,12) [OF assms(1)]])
  define n1 where "n1 = adopt_peers e (n\<lparr>pending_self_removal_index := pend, self_is_member := self\<rparr>)"
  have n1: "node_ok n1" using keepsD [OF keeps_node_Refresh assms(1)] r by (simp add: n1_def)
  have f: "rlog n1 = rlog n" "commit_index n1 = commit_index n" "last_applied n1 = last_applied n" "hard n1 = hard n" "role n1 = role n"
    by (simp_all add: n1_def)
  show ?thesis
  proof (cases "commit_index n < aeq_leader_commit req")
    case True
    let ?c = "min (aeq_leader_commit req) (LastIndex (rlog n))"
    have le: "last_applied n \<le> ?c" "commit_index n \<le> ?c" using assms(2,3) True by simp_all
    obtain n2 where n2: "ApplyCommitted cb (n1\<lparr>commit_index := ?c\<rparr>) = (Inr (), n2)" "last_applied n2 = ?c"
      "\<forall>i > snapshot_index (rlog n2). At (rlog n2) i = At (rlog n1) i"
      using ApplyCommitted_effect [of "n1\<lparr>commit_index := ?c\<rparr>" cb] n1 le(1) f by (auto simp: Let_def case_prod_beta)
    have g: "hard n2 = hard n" "role n2 = role n" "commit_index n2 = ?c"
      using ApplyCommitted_frame(1,2,4) [of cb "n1\<lparr>commit_index := ?c\<rparr>"] n2(1) f by simp_all
    have "commit_from_leader cb req n = (Inr \<lparr>aer_term = term_of n, aer_success = True,
        aer_match_index = aeq_prev_log_index req + length (aeq_entries req)\<rparr>, n2)"
      using True n2(1) f g by (simp add: commit_from_leader_def ebind_def r n1_def [symmetric])
    with n2 g le f show ?thesis by (simp add: max_def)
  next
    case False
    then have "commit_from_leader cb req n = (Inr \<lparr>aer_term = term_of n, aer_success = True,
        aer_match_index = aeq_prev_log_index req + length (aeq_entries req)\<rparr>, n1)"
      using f by (simp add: commit_from_leader_def ebind_def r n1_def [symmetric])
    with False f show ?thesis by (auto simp: max_def min_def)
  qed
qed

lemma follow_leader_frame [simp]:
  "rlog (follow_leader now rnd t leader n) = rlog n" "commit_index (follow_leader now rnd t leader n) = commit_index n"
  "last_applied (follow_leader now rnd t leader n) = last_applied n"
  "machine (follow_leader now rnd t leader n) = machine n" "node_id (follow_leader now rnd t leader n) = node_id n"
  by (auto simp: follow_leader_def Let_def)

text \<open>A follower that accepts what a leader sends holds, from the previous index of the message on, the
  leader's log, entry by entry (beyond its own snapshot); it answers with the leader's last index, its term is the
  leader's, and its commit index is the leader's, bounded by its own log, or what it was.\<close>

theorem raft_replication_agrees:
  assumes "node_ok ld" and "node_ok fw" and "logs_match (rlog fw) (rlog ld)"
    and "ReplicateTo p ld = (SendAppend req, ld')" and "aeq_prev_log_index req \<le> LastIndex (rlog ld)"
    and "TermAt (rlog ld) (aeq_prev_log_index req) = 0 \<longrightarrow> aeq_prev_log_index req = 0"
    and "HandleAppendEntries cb now rnd req fw = (Inr resp, fw')" and "aer_success resp"
    and "last_applied fw \<le> commit_index fw" and "commit_index fw \<le> aeq_prev_log_index req"
  shows "aer_match_index resp = LastIndex (rlog ld) \<and>
    (\<forall>i. aeq_prev_log_index req < i \<longrightarrow> i \<le> LastIndex (rlog ld) \<longrightarrow> snapshot_index (rlog fw') < i \<longrightarrow>
       At (rlog fw') i = At (rlog ld) i) \<and>
    term_of fw' = term_of ld \<and> role fw' = Follower \<and>
    (commit_index fw' = commit_index fw \<or> commit_index fw < commit_index fw' \<and> commit_index fw' \<le> commit_index ld \<and>
       last_applied fw' = commit_index fw')"
proof -
  let ?prev = "aeq_prev_log_index req" and ?l = "rlog ld" and ?es = "aeq_entries req"
  note okl = node_okD [OF assms(1)]
  note s = ReplicateTo_send [OF assms(4) okl(6) assms(5)]
  have len: "?prev + length ?es = LastIndex ?l" using s(3,5) assms(5) LastIndex_eq [OF okl(6)] by simp
  define n1 where "n1 = follow_leader now rnd (aeq_term req) (aeq_leader_id req) fw"
  have n1: "node_ok n1" "rlog n1 = rlog fw" using assms(2) by (simp_all add: n1_def node_ok_follow)
  obtain b l where a: "AppendEntriesFrom ?prev (aeq_prev_log_term req) ?es (rlog n1) = (b, l)" by (metis surj_pair)
  have t: "\<not> aeq_term req < term_of fw" and b: "b"
    and c: "commit_from_leader cb req (n1\<lparr>rlog := l\<rparr>) = (Inr resp, fw')"
    using assms(7,8) unfolding HandleAppendEntries_def Let_def n1_def [symmetric] a prod.case by (auto split: if_splits)
  have wf: "aeq_wf req"
    using assms(6) s(4,5) okl(8) by (auto simp: aeq_wf_def conf_ok_def dest: in_set_dropD)
  have n2: "node_ok (n1\<lparr>rlog := l\<rparr>)" by (rule node_ok_accept [OF n1(1) wf a])
  have a': "AppendEntriesFrom ?prev (aeq_prev_log_term req) ?es (rlog fw) = (True, l)" using a b n1(2) by simp
  have pl: "?prev \<le> LastIndex (rlog fw)"
    by (rule AppendEntries_prev [OF a']) (use wf node_okD(6) [OF assms(2)] in \<open>auto simp: aeq_wf_def\<close>)
  have m: "log_matches (rlog fw) ?prev ?es"
    unfolding s(5) by (rule logs_match_message [OF assms(3) okl(6) s(3) assms(5)])
  note agree = AppendEntries_agrees [OF node_okD(6) [OF assms(2)] pl a' m]
  have si: "snapshot_index l = snapshot_index (rlog fw)"
    using AppendEntries_fields(1) [of ?prev "aeq_prev_log_term req" ?es "rlog fw"] by (simp add: a')
  have last: "?prev \<le> LastIndex l"
  proof (cases "snapshot_index l < ?prev")
    case True
    then have "At (rlog fw) ?prev \<noteq> None" using pl si by (simp add: At_def)
    then have "At l ?prev \<noteq> None" using agree by simp
    then show ?thesis by (auto simp: At_def split: if_splits)
  next
    case False
    then show ?thesis using LastIndex_eq [OF conjunct1 [OF agree]] by simp
  qed
  have ci: "commit_index n1 = commit_index fw" "last_applied n1 = last_applied fw" by (simp_all add: n1_def)
  have pre: "last_applied (n1\<lparr>rlog := l\<rparr>) \<le> commit_index (n1\<lparr>rlog := l\<rparr>)"
    "commit_index (n1\<lparr>rlog := l\<rparr>) \<le> LastIndex (rlog (n1\<lparr>rlog := l\<rparr>))"
    using assms(9,10) last ci by simp_all
  note e = commit_from_leader_effect [OF n2 pre, of cb req]
  have resp: "resp = \<lparr>aer_term = term_of n1, aer_success = True, aer_match_index = ?prev + length ?es\<rparr>"
    and f: "hard fw' = hard n1" "role fw' = role n1"
      "commit_index fw' = max (commit_index fw) (min (aeq_leader_commit req) (LastIndex l))"
      "\<forall>i > snapshot_index (rlog fw'). At (rlog fw') i = At l i"
      "commit_index fw < commit_index fw' \<longrightarrow> last_applied fw' = commit_index fw'"
    using e c ci by auto
  have "At l i = At ?l i" if "?prev < i" "i \<le> LastIndex ?l" "snapshot_index (rlog fw) < i" for i
  proof -
    define k where "k = i - ?prev - 1"
    have k: "k < length ?es" "i = ?prev + 1 + k" using that len by (auto simp: k_def)
    then have "At l i = Some (?es ! k)" using agree that(3) by simp
    also have "\<dots> = At ?l i" unfolding k(2) s(5) by (rule sent_entry(1) [OF okl(6) s(3) assms(5), symmetric]) (use k(1) s(5) in simp)
    finally show ?thesis .
  qed
  moreover have "snapshot_index (rlog fw) \<le> snapshot_index (rlog fw')"
    using keeps_snapshot_commit [of "n1\<lparr>rlog := l\<rparr>" cb req] c si by simp
  moreover have "term_of fw' = term_of ld" using f(1) t s(1) by (auto simp: n1_def follow_leader_hard)
  moreover have "role fw' = Follower" using f(2) by (simp add: n1_def)
  ultimately show ?thesis using resp len f s(2) by (auto simp: max_def min_def)
qed

text \<open>The message the example leader sends to the example follower.\<close>

definition append3 :: AppendEntriesRequest where
  "append3 = \<lparr>aeq_term = 1, aeq_leader_id = 1, aeq_prev_log_index = 1, aeq_prev_log_term = 1,
     aeq_entries = [entry3 2], aeq_leader_commit = 0\<rparr>"

lemmas example_defs = leader3_def follower3_def node3_def log_new_def entry3_def append3_def

lemma leader3_sends: "\<exists>ld'. ReplicateTo 2 leader3 = (SendAppend append3, ld')"
  by (simp add: ReplicateTo_def Let_def example_defs omap_get_default_def LastIndex_def TermAt_def At_def upt_rec)

lemma follower3_accepts: "\<exists>resp fw'. HandleAppendEntries cb_list 1000 0 append3 follower3 = (Inr resp, fw') \<and> aer_success resp"
proof -
  define n1 where "n1 = follow_leader 1000 0 1 1 follower3"
  have n1: "node_ok n1" "rlog n1 = rlog follower3" using node3_ok(2) by (simp_all add: n1_def node_ok_follow)
  obtain b l where a: "AppendEntriesFrom 1 1 [entry3 2] (rlog n1) = (b, l)" by (metis surj_pair)
  have b: "b" using a unfolding n1(2) by (auto simp: AppendEntriesFrom_def example_defs TermAt_def LastIndex_def)
  have wf: "aeq_wf append3" by (simp add: aeq_wf_def append3_def entry3_def decodable_x)
  have ok: "node_ok (n1\<lparr>rlog := l\<rparr>)"
    by (rule node_ok_accept [OF n1(1) wf, where b = b]) (use a in \<open>simp add: append3_def\<close>)
  from total_onD [OF total_commit_from_leader ok, of cb_list append3]
  obtain resp fw' where r: "commit_from_leader cb_list append3 (n1\<lparr>rlog := l\<rparr>) = (Inr resp, fw')"
    by (cases "commit_from_leader cb_list append3 (n1\<lparr>rlog := l\<rparr>)"; cases "fst (commit_from_leader cb_list append3 (n1\<lparr>rlog := l\<rparr>))") auto
  then have "aer_success resp" by (auto simp: commit_from_leader_def ebind_Inr_iff)
  moreover have "HandleAppendEntries cb_list 1000 0 append3 follower3 = (Inr resp, fw')"
  proof -
    have req: "aeq_term append3 = 1" "aeq_leader_id append3 = 1" "aeq_prev_log_index append3 = 1"
      "aeq_prev_log_term append3 = 1" "aeq_entries append3 = [entry3 2]"
      by (simp_all add: append3_def)
    have t: "\<not> 1 < term_of follower3" by (simp add: example_defs)
    show ?thesis
      unfolding HandleAppendEntries_def Let_def req n1_def [symmetric] a prod.case using r b t by simp
  qed
  ultimately show ?thesis by blast
qed

theorem raft_replication_agrees_witness:
  "\<exists>resp fw'. HandleAppendEntries cb_list 1000 0 append3 follower3 = (Inr resp, fw') \<and> aer_match_index resp = 2 \<and>
     (snapshot_index (rlog fw') < 2 \<longrightarrow> At (rlog fw') 2 = At (rlog leader3) 2)"
proof -
  obtain resp fw' where f: "HandleAppendEntries cb_list 1000 0 append3 follower3 = (Inr resp, fw')" "aer_success resp"
    using follower3_accepts by blast
  obtain ld' where l: "ReplicateTo 2 leader3 = (SendAppend append3, ld')" using leader3_sends by blast
  have h: "logs_match (rlog follower3) (rlog leader3)"
    by (auto simp: logs_match_def example_defs At_def LastIndex_def less_Suc_eq nth_Cons split: if_splits nat.splits)
  have v: "aeq_prev_log_index append3 \<le> LastIndex (rlog leader3)" "TermAt (rlog leader3) (aeq_prev_log_index append3) = 1"
    "last_applied follower3 = 0" "commit_index follower3 = 0" "LastIndex (rlog leader3) = 2" "aeq_prev_log_index append3 = 1"
    by (simp_all add: example_defs LastIndex_def TermAt_def)
  have "aer_match_index resp = LastIndex (rlog leader3) \<and>
    (\<forall>i. aeq_prev_log_index append3 < i \<longrightarrow> i \<le> LastIndex (rlog leader3) \<longrightarrow> snapshot_index (rlog fw') < i \<longrightarrow>
       At (rlog fw') i = At (rlog leader3) i)"
    using raft_replication_agrees [OF node3_ok h l _ _ f] v by simp
  with f v show ?thesis by auto
qed

section \<open>Proposals\<close>

definition conf_at :: "RaftLog \<Rightarrow> LogIndex \<Rightarrow> bool" where
  "conf_at l i \<longleftrightarrow> (case At l i of None \<Rightarrow> False | Some e \<Rightarrow>
     (case TryDecodeConfChange (le_command e) of Inr (Some _) \<Rightarrow> True | _ \<Rightarrow> False))"

lemma conf_at_iff:
  "(\<exists>e cc. At l i = Some e \<and> TryDecodeConfChange (le_command e) = Inr (Some cc)) \<longleftrightarrow> conf_at l i"
  by (auto simp: conf_at_def split: option.splits sum.splits)

text \<open>Is a membership change redundant: adding a member, or removing a server that is not one?\<close>

definition conf_redundant :: "'s RaftNode \<Rightarrow> ConfChangeCommand \<Rightarrow> bool" where
  "conf_redundant n cc \<longleftrightarrow>
     (cc_type cc = kAddServer) = (cc_server_id cc = node_id n \<or> omap_count (cc_server_id cc) (peers n))"

lemma propose_check_spec:
  assumes "node_ok n"
  shows "propose_check c n = Inr None \<longleftrightarrow> TryDecodeConfChange c = Inr None \<or>
      (\<exists>cc. TryDecodeConfChange c = Inr (Some cc) \<and> \<not> conf_redundant n cc \<and>
        (\<forall>i. commit_index n < i \<longrightarrow> i \<le> LastIndex (rlog n) \<longrightarrow> \<not> conf_at (rlog n) i))"
    and "propose_check c n = Inr (Some err) \<Longrightarrow> \<exists>cc. TryDecodeConfChange c = Inr (Some cc) \<and>
      (conf_redundant n cc \<or> (\<exists>i. commit_index n < i \<and> i \<le> LastIndex (rlog n) \<and> conf_at (rlog n) i))"
proof -
  have p: "conf_pending (rlog n) [commit_index n + 1 ..< LastIndex (rlog n) + 1] =
      Inr (\<exists>i. commit_index n < i \<and> i \<le> LastIndex (rlog n) \<and> conf_at (rlog n) i)"
    unfolding conf_pending_total [OF node_okD(6,8) [OF assms]] conf_at_iff by (auto simp: Bex_def Suc_le_eq)
  show "propose_check c n = Inr None \<longleftrightarrow> TryDecodeConfChange c = Inr None \<or>
      (\<exists>cc. TryDecodeConfChange c = Inr (Some cc) \<and> \<not> conf_redundant n cc \<and>
        (\<forall>i. commit_index n < i \<longrightarrow> i \<le> LastIndex (rlog n) \<longrightarrow> \<not> conf_at (rlog n) i))"
    unfolding propose_check_def p
    by (cases "TryDecodeConfChange c") (auto simp: conf_redundant_def split: option.splits if_splits)
  show "\<exists>cc. TryDecodeConfChange c = Inr (Some cc) \<and>
      (conf_redundant n cc \<or> (\<exists>i. commit_index n < i \<and> i \<le> LastIndex (rlog n) \<and> conf_at (rlog n) i))"
    if "propose_check c n = Inr (Some err)"
    using that unfolding propose_check_def p
    by (cases "TryDecodeConfChange c") (auto simp: conf_redundant_def split: option.splits if_splits)
qed

text \<open>Advancing the commit index leaves the entries that remain in the log as they were.\<close>

lemma step_down_rlog [simp]: "rlog (snd (step_down_if_removed n)) = rlog n"
proof -
  have "keeps (\<lambda>n. rlog n = l) (step_down_if_removed :: ('a RaftNode, unit) eff)" for l
    by (rule keeps_step_down) (simp_all add: keeps_def)
  then show ?thesis by (rule frame_keeps)
qed

lemma MaybeAdvance_log:
  assumes "node_ok n" and "last_applied n \<le> commit_index n"
  shows "snapshot_index (rlog (snd (MaybeAdvanceCommitIndex cb n))) < i \<Longrightarrow>
    At (rlog (snd (MaybeAdvanceCommitIndex cb n))) i = At (rlog n) i"
proof (cases "commit_index n < majority_index n \<and> TermAt (rlog n) (majority_index n) = term_of n")
  case True
  let ?n = "n\<lparr>commit_index := majority_index n\<rparr>"
  obtain n1 where n1: "ApplyCommitted cb ?n = (Inr (), n1)" "\<forall>i > snapshot_index (rlog n1). At (rlog n1) i = At (rlog n) i"
    using ApplyCommitted_effect [of ?n cb] assms True by (auto simp: Let_def case_prod_beta)
  have "rlog (snd (MaybeAdvanceCommitIndex cb n)) = rlog n1"
    using True n1(1) by (simp add: MaybeAdvanceCommitIndex_def)
  with n1(2) show "snapshot_index (rlog (snd (MaybeAdvanceCommitIndex cb n))) < i \<Longrightarrow>
    At (rlog (snd (MaybeAdvanceCommitIndex cb n))) i = At (rlog n) i" by simp
next
  case False
  have "snd (MaybeAdvanceCommitIndex cb n) = n" unfolding MaybeAdvanceCommitIndex_def if_not_P [OF False] by simp
  then show "At (rlog (snd (MaybeAdvanceCommitIndex cb n))) i = At (rlog n) i" by simp
qed

lemma log_Append_At:
  assumes "log_ok l"
  shows "At (snd (log_Append t c l)) (LastIndex l + 1) = Some \<lparr>le_index = LastIndex l + 1, le_term = t, le_command = c\<rparr>"
proof -
  note a = log_Append_spec [OF assms, of t c]
  have "LastIndex l + 1 = snapshot_index (snd (log_Append t c l)) + 1 + length (lg_entries l)"
    using LastIndex_eq [OF assms] by simp
  with At_offset(1) [OF a(2), of "length (lg_entries l)"] a(4) show ?thesis by simp
qed

lemma Propose_begin_append:
  assumes "node_ok n" and "last_applied n \<le> commit_index n" and "role n = Leader" and "propose_check c n = Inr None"
  shows "\<exists>n'. Propose_begin cb c n = (Inr (ProposeAppended (LastIndex (rlog n) + 1)), n') \<and> log_synced (rlog n') \<and>
    (snapshot_index (rlog n') \<le> LastIndex (rlog n) \<longrightarrow> At (rlog n') (LastIndex (rlog n) + 1) =
       Some \<lparr>le_index = LastIndex (rlog n) + 1, le_term = term_of n, le_command = c\<rparr>)"
proof -
  note ok = node_okD [OF assms(1)]
  let ?l = "snd (log_Append (term_of n) c (rlog n))"
  have d: "decodable c" by (rule propose_check_decodable [OF assms(4)])
  have n1: "node_ok (n\<lparr>rlog := ?l\<rparr>)" by (rule node_ok_append [OF assms(1) d])
  obtain e self pend where r: "RefreshMembership (n\<lparr>rlog := ?l\<rparr>) = (Inr (), adopt_peers e
      (n\<lparr>rlog := ?l, pending_self_removal_index := pend, self_is_member := self\<rparr>))"
    by (rule RefreshMembership_ok [OF node_okD(6,8,12) [OF n1]])
  define n2 where "n2 = adopt_peers e (n\<lparr>rlog := ?l, pending_self_removal_index := pend, self_is_member := self\<rparr>)"
  have n2: "node_ok n2" "rlog n2 = ?l" "last_applied n2 \<le> commit_index n2"
    using keepsD [OF keeps_node_Refresh n1] r assms(2) by (simp_all add: n2_def)
  define n3 where "n3 = snd (MaybeAdvanceCommitIndex cb n2)"
  have n3: "MaybeAdvanceCommitIndex cb n2 = (Inr (), n3)" "node_ok n3"
    using total_onD [OF total_Advance n2(1), of cb] keepsD [OF keeps_node_Advance n2(1), of cb] unfolding n3_def
    by (cases "MaybeAdvanceCommitIndex cb n2"; cases "fst (MaybeAdvanceCommitIndex cb n2)"; simp)+
  have p: "Propose_begin cb c n = (Inr (ProposeAppended (LastIndex (rlog n) + 1)), n3)"
    using assms(3,4) log_Append_spec(1) [OF ok(6), of "term_of n" c] r n3(1)
    by (simp add: Propose_begin_def Let_def case_prod_beta n2_def ebind_def)
  have "At (rlog n3) (LastIndex (rlog n) + 1) = At ?l (LastIndex (rlog n) + 1)"
    if "snapshot_index (rlog n3) \<le> LastIndex (rlog n)"
    using MaybeAdvance_log [OF n2(1,3), of cb "LastIndex (rlog n) + 1"] that n2(2) by (simp add: n3_def)
  with p log_Append_At [OF ok(6)] node_okD(7) [OF n3(2)] show ?thesis by simp
qed

text \<open>Only a leader takes a proposal.  It refuses a membership change, without any effect, when another one is not
  committed yet or when it would change nothing; any other command it appends, with its own term, at the
  next index, and the log with the new entry is on disk before the entry is sent to anyone.\<close>

theorem raft_propose:
  assumes "node_ok n" and "last_applied n \<le> commit_index n"
  shows "case Propose_begin cb c n of
      (Inl e, n') \<Rightarrow> n' = n \<and> role n = Leader \<and> \<not> decodable c
    | (Inr ProposeNotLeader, n') \<Rightarrow> n' = n \<and> role n \<noteq> Leader
    | (Inr (ProposeRejected err), n') \<Rightarrow> n' = n \<and> role n = Leader \<and>
        (\<exists>cc. TryDecodeConfChange c = Inr (Some cc) \<and>
          (conf_redundant n cc \<or> (\<exists>i. commit_index n < i \<and> i \<le> LastIndex (rlog n) \<and> conf_at (rlog n) i)))
    | (Inr (ProposeAppended index), n') \<Rightarrow> role n = Leader \<and> index = LastIndex (rlog n) + 1 \<and> log_synced (rlog n') \<and>
        (snapshot_index (rlog n') < index \<longrightarrow>
          At (rlog n') index = Some \<lparr>le_index = index, le_term = term_of n, le_command = c\<rparr>) \<and>
        (TryDecodeConfChange c = Inr None \<or>
         (\<exists>cc. TryDecodeConfChange c = Inr (Some cc) \<and> \<not> conf_redundant n cc \<and>
           (\<forall>i. commit_index n < i \<longrightarrow> i \<le> LastIndex (rlog n) \<longrightarrow> \<not> conf_at (rlog n) i)))"
proof (cases "role n = Leader")
  case True
  show ?thesis
  proof (cases "propose_check c n")
    case (Inl e)
    with True propose_check_total [OF assms(1), of c] show ?thesis by (simp add: Propose_begin_def)
  next
    case (Inr r)
    show ?thesis
    proof (cases r)
      case None
      with Inr have p: "propose_check c n = Inr None" by simp
      note spec = propose_check_spec(1) [OF assms(1), of c, THEN iffD1, OF p]
      obtain n' where "Propose_begin cb c n = (Inr (ProposeAppended (LastIndex (rlog n) + 1)), n')" "log_synced (rlog n')"
        "snapshot_index (rlog n') \<le> LastIndex (rlog n) \<longrightarrow> At (rlog n') (LastIndex (rlog n) + 1) =
           Some \<lparr>le_index = LastIndex (rlog n) + 1, le_term = term_of n, le_command = c\<rparr>"
        using Propose_begin_append [OF assms True p] by blast
      with spec True show ?thesis by (simp add: less_Suc_eq_le)
    next
      case (Some err)
      with Inr propose_check_spec(2) [OF assms(1), of c err] True show ?thesis by (simp add: Propose_begin_def)
    qed
  qed
qed (simp add: Propose_begin_def)

theorem raft_propose_witness:
  "\<exists>n'. Propose_begin cb_list ''x'' leader3 = (Inr (ProposeAppended 3), n')"
proof -
  have h: "last_applied leader3 \<le> commit_index leader3" "role leader3 = Leader" "LastIndex (rlog leader3) = 2"
    "TryDecodeConfChange ''x'' = Inr None"
    by (simp_all add: example_defs LastIndex_def TryDecodeConfChange_def)
  show ?thesis
    using raft_propose [OF node3_ok(1) h(1), of "''x''" cb_list] h decodable_x
    by (auto split: prod.splits sum.splits propose_outcome.splits)
qed

section \<open>Snapshots\<close>

text \<open>C26. Installing a snapshot beyond the node's own boundary replaces the state machine by the snapshot's, moves the
  boundary to it, keeps the entries after it exactly when the log agrees with it there, adopts its membership, and
  never moves the commit or apply position back, all of it durable; a snapshot at or before the boundary, or of an
  older term, changes neither state machine nor log.\<close>

theorem raft_install_snapshot:
  assumes "node_ok n" and "isq_wf req" and "HandleInstallSnapshot cb now rnd req n = (Inr resp, n')"
  shows "let i = isq_last_included_index req in
    if term_of n \<le> isq_term req \<and> snapshot_index (rlog n) < i
    then machine n' = restore_cb cb (isq_data req) (machine n) \<and> snapshot_index (rlog n') = i \<and>
      last_applied n' = max (last_applied n) i \<and> commit_index n' = max (commit_index n) i \<and>
      (if i \<le> LastIndex (rlog n) \<and> TermAt (rlog n) i = isq_last_included_term req
       then \<forall>k > i. At (rlog n') k = At (rlog n) k else LastIndex (rlog n') = i) \<and>
      base_peers (mship n') = omap_erase (node_id n) (isq_membership req) \<and> node_ok n'
    else machine n' = machine n \<and> rlog n' = rlog n \<and> last_applied n' = last_applied n"
proof (cases "term_of n \<le> isq_term req \<and> snapshot_index (rlog n) < isq_last_included_index req")
  case False
  then show ?thesis using assms(3) unfolding Let_def if_not_P [OF False]
    by (auto simp: HandleInstallSnapshot_def InstallSnapshot_begin_def Let_def split: if_splits)
next
  case True
  let ?i = "isq_last_included_index req"
  define n1 where "n1 = InstallSnapshot_restore cb req (follow_leader now rnd (isq_term req) (isq_leader_id req) n)"
  have n1: "node_ok n1" "rlog n1 = rlog n" "last_applied n1 = last_applied n" "commit_index n1 = commit_index n"
    "machine n1 = restore_cb cb (isq_data req) (machine n)" "node_id n1 = node_id n"
    using assms(1) by (simp_all add: n1_def InstallSnapshot_restore_def node_ok_follow)
  have e: "InstallSnapshot_end req n1 = (Inr resp, n')"
    using True assms(3) by (simp add: HandleInstallSnapshot_def InstallSnapshot_begin_def Let_def n1_def)
  have "ebind RefreshMembership (\<lambda>_. eread (\<lambda>n. \<lparr>isr_term = term_of n\<rparr>)) (adopt_snapshot req n1) = (Inr resp, n')"
    using e True n1(2) by (simp add: InstallSnapshot_end_def)
  then have "snd (RefreshMembership (adopt_snapshot req n1)) = n'" by (auto simp: ebind_Inr_iff)
  then have f: "rlog n' = rlog (adopt_snapshot req n1)" "mship n' = mship (adopt_snapshot req n1)" "machine n' = machine n1"
    "last_applied n' = max (last_applied n) ?i" "commit_index n' = max (commit_index n) ?i"
    using RefreshMembership_frame [of "adopt_snapshot req n1"] n1 by simp_all
  note ok = node_okD [OF assms(1)]
  have l: "snapshot_index (rlog n') = ?i \<and> (if ?i \<le> LastIndex (rlog n) \<and> TermAt (rlog n) ?i = isq_last_included_term req
      then \<forall>k > ?i. At (rlog n') k = At (rlog n) k else LastIndex (rlog n') = ?i)"
    using CompactTo_spec [OF ok(6), of ?i "isq_last_included_term req"] True
    unfolding f(1) adopt_snapshot_log n1(2) by (auto simp: LastIndex_def split: if_splits)
  have "base_peers (mship n') = omap_erase (node_id n) (isq_membership req)"
    unfolding f(2) by (simp add: adopt_snapshot_def Let_def ms_Set_def n1(6))
  moreover have "node_ok n'" using node_ok_install_end [OF n1(1) assms(2)] e by simp
  ultimately show ?thesis unfolding Let_def if_P [OF True] f(3-5) n1(5) using l by (intro conjI) simp_all
qed

theorem raft_install_snapshot_witness:
  "\<exists>resp n'. HandleInstallSnapshot cb_list 1000 0 \<lparr>isq_term = 2, isq_leader_id = 1, isq_last_included_index = 7,
      isq_last_included_term = 1, isq_data = ''s'', isq_membership = [(1, addr3), (2, addr3)]\<rparr> follower3 = (Inr resp, n') \<and>
     machine n' = [''s''] \<and> last_applied n' = 7 \<and> base_peers (mship n') = [(1, addr3)]"
proof -
  let ?r = "\<lparr>isq_term = 2, isq_leader_id = 1, isq_last_included_index = 7,
      isq_last_included_term = 1, isq_data = ''s'', isq_membership = [(1, addr3), (2, addr3)]\<rparr>"
  have wf: "isq_wf ?r" by (simp add: isq_wf_def omap_ok_def)
  define n1 where "n1 = InstallSnapshot_restore cb_list ?r (follow_leader 1000 0 2 1 follower3)"
  have n1: "node_ok n1" using node3_ok(2) by (simp add: n1_def InstallSnapshot_restore_def node_ok_follow)
  obtain resp n' where e: "InstallSnapshot_end ?r n1 = (Inr resp, n')"
    using total_install_end [OF n1 wf] by (cases "InstallSnapshot_end ?r n1"; cases "fst (InstallSnapshot_end ?r n1)") auto
  have c: "term_of follower3 = 1" "snapshot_index (rlog follower3) = 0" "last_applied follower3 = 0" "machine follower3 = []"
    "node_id follower3 = 2"
    by (simp_all add: example_defs)
  have h: "HandleInstallSnapshot cb_list 1000 0 ?r follower3 = (Inr resp, n')"
    using e c by (simp add: HandleInstallSnapshot_def InstallSnapshot_begin_def n1_def)
  show ?thesis
    using h raft_install_snapshot [OF node3_ok(2) wf h] c by (auto simp: cb_list_def omap_erase_def)
qed

end
