(* ===== verification/Raft_Election.thy ===== *)
theory Raft_Election
  imports Raft_Step
begin

text \<open>
  Election safety: several nodes, each running the code of \<^verbatim>\<open>src/raft/node.cpp\<close>, and the vote RPCs
  between them.  An RPC is a thread of \<^verbatim>\<open>StartElection\<close> that sends one request and handles at most one
  reply, so its progress is kept per candidate, term and voter; requests and replies may be delayed, overtaken
  or lost without limit, and any other critical section of any node, restarts included, may happen in
  between.  The membership is fixed.  The \<open>ballots\<close> are a history variable: who gave a vote to whom in
  which term.
\<close>

section \<open>Quorums\<close>

locale quorum_system =
  fixes quorum :: "'n set \<Rightarrow> bool"
  assumes intersect: "quorum A \<Longrightarrow> quorum B \<Longrightarrow> A \<inter> B \<noteq> {}"
begin

lemma unique_winner:
  assumes "quorum A" and "quorum B" and "\<forall>v \<in> A. R v a" and "\<forall>v \<in> B. R v b"
    and "\<And>v x y. R v x \<Longrightarrow> R v y \<Longrightarrow> x = y"
  shows "a = b"
proof -
  obtain v where "v \<in> A" "v \<in> B" using intersect [OF assms(1,2)] by blast
  with assms(3-5) show ?thesis by blast
qed

end

definition majority_of :: "'n set \<Rightarrow> 'n set \<Rightarrow> bool" where
  "majority_of M Q \<longleftrightarrow> finite M \<and> Q \<subseteq> M \<and> card M < 2 * card Q"

interpretation maj: quorum_system "majority_of M" for M :: "'n set"
proof
  fix A B assume q: "majority_of M A" "majority_of M B"
  then have f: "finite A" "finite B" "A \<union> B \<subseteq> M" "finite M"
    by (auto simp: majority_of_def intro: finite_subset)
  show "A \<inter> B \<noteq> {}"
  proof
    assume "A \<inter> B = {}"
    then have "card A + card B = card (A \<union> B)" using f by (simp add: card_Un_disjoint)
    also have "\<dots> \<le> card M" using f by (intro card_mono)
    finally show False using q by (simp add: majority_of_def)
  qed
qed

section \<open>The cluster\<close>

datatype rpc = NotSent | Asked RequestVoteRequest | Replied RequestVoteResponse | Handled bool

record 's cluster =
  nodes :: "NodeId \<Rightarrow> 's RaftNode"
  rpcs :: "NodeId \<Rightarrow> Term \<Rightarrow> NodeId \<Rightarrow> rpc"
  ballots :: "(NodeId \<times> Term \<times> NodeId) set"

definition set_rpc :: "NodeId \<Rightarrow> Term \<Rightarrow> NodeId \<Rightarrow> rpc \<Rightarrow> (NodeId \<Rightarrow> Term \<Rightarrow> NodeId \<Rightarrow> rpc) \<Rightarrow> NodeId \<Rightarrow> Term \<Rightarrow> NodeId \<Rightarrow> rpc" where
  "set_rpc c t v r f = f(c := (f c)(t := (f c t)(v := r)))"

definition sent_votes :: "(NodeId \<times> RequestVoteRequest) list res \<Rightarrow> (NodeId \<times> RequestVoteRequest) list" where
  "sent_votes r = (case r of Inl _ \<Rightarrow> [] | Inr ps \<Rightarrow> ps)"

text \<open>Is the reply counted: the handler finds the election still open and the vote granted.\<close>

definition counts_vote :: "Term \<Rightarrow> RequestVoteResponse \<Rightarrow> 's RaftNode \<Rightarrow> bool" where
  "counts_vote t resp n \<longleftrightarrow> \<not> term_of n < rvr_term resp \<and> role n = Candidate \<and> t = term_of n \<and> rvr_vote_granted resp"

text \<open>The node's table of peers, and the one its log and files imply, are the others of a fixed set.\<close>

definition membership_fixed :: "NodeId set \<Rightarrow> 's cluster \<Rightarrow> bool" where
  "membership_fixed M s \<longleftrightarrow> finite M \<and> (\<forall>i \<in> M. let n = nodes s i; n' = snd (RefreshMembership n) in
     node_id n = i \<and> omap_ok (peers n) \<and> fst ` set (peers n) = M - {i} \<and>
     omap_ok (peers n') \<and> fst ` set (peers n') = M - {i})"

text \<open>The steps of elections, and all steps.\<close>

inductive election_step :: "NodeId set \<Rightarrow> 's cluster \<Rightarrow> 's cluster \<Rightarrow> bool" for M where
  elect: "c \<in> M \<Longrightarrow> StartElection now rnd (nodes s c) = (r, n) \<Longrightarrow>
    election_step M s (s\<lparr>nodes := (nodes s)(c := n),
      rpcs := foldl (\<lambda>f (v, req). set_rpc c (rvq_term req) v (Asked req) f) (rpcs s) (sent_votes r),
      ballots := (if hard n = hard (nodes s c) then ballots s
                  else insert (c, term_of n, c) (ballots s))\<rparr>)"
| vote: "v \<in> M \<Longrightarrow> rpcs s c t v = Asked req \<Longrightarrow> HandleRequestVote now rnd req (nodes s v) = (resp, n) \<Longrightarrow>
    election_step M s (s\<lparr>nodes := (nodes s)(v := n), rpcs := set_rpc c t v (Replied resp) (rpcs s),
      ballots := (if rvr_vote_granted resp then insert (v, rvq_term req, rvq_candidate_id req) (ballots s)
                  else ballots s)\<rparr>)"
| reply: "c \<in> M \<Longrightarrow> rpcs s c t v = Replied resp \<Longrightarrow>
    election_step M s (s\<lparr>nodes := (nodes s)(c := snd (HandleVoteReply now rnd t resp (nodes s c))),
      rpcs := set_rpc c t v (Handled (counts_vote t resp (nodes s c))) (rpcs s)\<rparr>)"
inductive cluster_step ::
  "'s callbacks \<Rightarrow> (AppendEntriesRequest \<Rightarrow> bool) \<Rightarrow> (InstallSnapshotRequest \<Rightarrow> bool) \<Rightarrow> NodeId set \<Rightarrow> 's cluster \<Rightarrow> 's cluster \<Rightarrow> bool"
  for cb aok sok M
where
  election: "election_step M s s' \<Longrightarrow> cluster_step cb aok sok M s s'"
| other: "i \<in> M \<Longrightarrow> quiet_step cb aok sok (nodes s i) n \<Longrightarrow>
    cluster_step cb aok sok M s (s\<lparr>nodes := (nodes s)(i := n)\<rparr>)"

text \<open>Runs from a start in which the files are in step, nobody leads or stands for election, and no RPC is under
  way.\<close>

definition cluster_start :: "NodeId set \<Rightarrow> 's cluster \<Rightarrow> bool" where
  "cluster_start M s \<longleftrightarrow> membership_fixed M s \<and> ballots s = {} \<and> rpcs s = (\<lambda>_ _ _. NotSent) \<and>
     (\<forall>i \<in> M. role (nodes s i) = Follower \<and> hard_synced (hard (nodes s i)))"

inductive cluster_reach ::
  "'s callbacks \<Rightarrow> (AppendEntriesRequest \<Rightarrow> bool) \<Rightarrow> (InstallSnapshotRequest \<Rightarrow> bool) \<Rightarrow> NodeId set \<Rightarrow> 's cluster \<Rightarrow> bool"
  for cb aok sok M
where
  start: "cluster_start M s \<Longrightarrow> cluster_reach cb aok sok M s"
| step: "cluster_reach cb aok sok M s \<Longrightarrow> cluster_step cb aok sok M s s' \<Longrightarrow> membership_fixed M s' \<Longrightarrow>
    cluster_reach cb aok sok M s'"

section \<open>The election operations\<close>

lemma keeps_votes_leader:
  "keeps (\<lambda>n. votes_received n = v \<and> (role n = r \<or> role n = Leader)) (BecomeLeader now)"
  by (rule keeps_BecomeLeader) (simp_all add: keeps_def)

lemma StartElection_cases:
  assumes "StartElection now rnd n = (r, n')"
  shows "(hard n' = hard n \<and> sent_votes r = [] \<and> role_evolves n n') \<or>
    (hard n' = ps_Set (term_of n + 1) (Some (node_id n)) (hard n) \<and> votes_received n' = 1 \<and>
      (role n' = Candidate \<or> role n' = Leader \<and> length (peers (snd (RefreshMembership n))) + 1 < 2) \<and>
      (\<forall>(v, req) \<in> set (sent_votes r). v \<in> fst ` set (peers (snd (RefreshMembership n))) \<and>
         rvq_term req = term_of n + 1 \<and> rvq_candidate_id req = node_id n))"
proof (cases rule: RefreshMembership_cases [of n])
  case (throws e pend)
  with assms show ?thesis by (auto simp: StartElection_def sent_votes_def role_evolves_def)
next
  case (returns e self pend)
  define m where "m = adopt_peers e (n\<lparr>pending_self_removal_index := pend, self_is_member := self\<rparr>)"
  have f: "hard m = hard n" "node_id m = node_id n" "role m = role n" "votes_received m = votes_received n"
    by (simp_all add: m_def)
  note st = assms [unfolded StartElection_def ebind_Inr [where m = RefreshMembership, OF returns], folded m_def]
  show ?thesis
  proof (cases "self_is_member m")
    case False
    with st f show ?thesis by (auto simp: sent_votes_def role_evolves_def)
  next
    case True
    define m1 where "m1 = ResetElectionDeadline now rnd (m\<lparr>hard := ps_Set (term_of m + 1) (Some (node_id m)) (hard m),
      role := Candidate, votes_received := 1\<rparr>)"
    have g: "hard m1 = ps_Set (term_of n + 1) (Some (node_id n)) (hard n)" "role m1 = Candidate" "votes_received m1 = 1"
      "peers m1 = peers m" "node_id m1 = node_id n"
      using f by (simp_all add: m1_def)
    note st' = st [unfolded Let_def if_not_P [OF iffD2 [OF not_not True]], folded m1_def]
    show ?thesis
    proof (cases "has_majority m1")
      case maj: True
      have b: "hard (snd (BecomeLeader now m1)) = hard m1" "votes_received (snd (BecomeLeader now m1)) = 1"
        "role (snd (BecomeLeader now m1)) = Candidate \<or> role (snd (BecomeLeader now m1)) = Leader"
        using keepsD [OF keeps_votes_leader [of 1 Candidate], of m1 now] g by simp_all
      from st' maj have "r = Inr [] \<or> isl r" "n' = snd (BecomeLeader now m1)"
        by (auto simp: ebind_def split: prod.splits sum.splits)
      with b g maj returns show ?thesis
        by (auto simp: sent_votes_def has_majority_def m_def split: sum.split)
    next
      case False
      with st' g returns show ?thesis by (auto simp: sent_votes_def m_def)
    qed
  qed
qed

lemma HandleVoteReply_cases:
  "(counts_vote t resp n \<and> hard (snd (HandleVoteReply now rnd t resp n)) = hard n \<and>
      votes_received (snd (HandleVoteReply now rnd t resp n)) = votes_received n + 1 \<and>
      (role (snd (HandleVoteReply now rnd t resp n)) = Candidate \<or>
       role (snd (HandleVoteReply now rnd t resp n)) = Leader \<and> length (peers n) + 1 < 2 * (votes_received n + 1))) \<or>
   (\<not> counts_vote t resp n \<and> role_evolves n (snd (HandleVoteReply now rnd t resp n)))"
proof (cases "counts_vote t resp n")
  case True
  define m where "m = n\<lparr>votes_received := votes_received n + 1\<rparr>"
  have m: "role m = Candidate" "votes_received m = votes_received n + 1" "hard m = hard n" "peers m = peers n"
    using True by (simp_all add: m_def counts_vote_def)
  have "HandleVoteReply now rnd t resp n = (if has_majority m then BecomeLeader now m else (Inr (), m))"
    using True by (simp add: HandleVoteReply_def counts_vote_def m_def Let_def)
  moreover have "votes_received (snd (BecomeLeader now m)) = votes_received m"
    "role (snd (BecomeLeader now m)) = Candidate \<or> role (snd (BecomeLeader now m)) = Leader"
    using keepsD [OF keeps_votes_leader [of "votes_received m" Candidate], of m now] m by simp_all
  ultimately show ?thesis using True m by (auto simp: has_majority_def)
next
  case False
  then show ?thesis by (auto simp: HandleVoteReply_def counts_vote_def role_evolves_def Let_def)
qed

lemma HandleRequestVote_cases:
  assumes "HandleRequestVote now rnd req n = (resp, n')"
  shows "role_evolves n n'"
    and "rvr_vote_granted resp \<Longrightarrow> term_of n' = rvq_term req \<and> voted_for (hard n') = Some (rvq_candidate_id req)"
  using assms by (auto simp: HandleRequestVote_def Let_def role_evolves_def not_less split: option.splits if_splits)

section \<open>The invariant of the cluster\<close>

definition ballots_ok :: "NodeId set \<Rightarrow> (NodeId \<Rightarrow> 's RaftNode) \<Rightarrow> (NodeId \<times> Term \<times> NodeId) set \<Rightarrow> bool" where
  "ballots_ok M f B \<longleftrightarrow>
     (\<forall>v t c. (v, t, c) \<in> B \<longrightarrow> v \<in> M \<and> t \<le> term_of (f v) \<and> (t = term_of (f v) \<longrightarrow> voted_for (hard (f v)) = Some c)) \<and>
     (\<forall>v t c c'. (v, t, c) \<in> B \<longrightarrow> (v, t, c') \<in> B \<longrightarrow> c = c')"

definition rpcs_ok :: "NodeId set \<Rightarrow> (NodeId \<Rightarrow> 's RaftNode) \<Rightarrow> (NodeId \<Rightarrow> Term \<Rightarrow> NodeId \<Rightarrow> rpc) \<Rightarrow> (NodeId \<times> Term \<times> NodeId) set \<Rightarrow> bool"
where
  "rpcs_ok M f R B \<longleftrightarrow> (\<forall>c t v. (R c t v \<noteq> NotSent \<longrightarrow> c \<in> M \<and> v \<in> M - {c} \<and> t \<le> term_of (f c)) \<and>
     (\<forall>req. R c t v = Asked req \<longrightarrow> rvq_term req = t \<and> rvq_candidate_id req = c) \<and>
     (\<forall>resp. R c t v = Replied resp \<longrightarrow> rvr_vote_granted resp \<longrightarrow> (v, t, c) \<in> B) \<and>
     (R c t v = Handled True \<longrightarrow> (v, t, c) \<in> B))"

definition standing_ok :: "NodeId set \<Rightarrow> (NodeId \<Rightarrow> Term \<Rightarrow> NodeId \<Rightarrow> rpc) \<Rightarrow> (NodeId \<times> Term \<times> NodeId) set \<Rightarrow> NodeId \<Rightarrow> 's RaftNode \<Rightarrow> bool"
where
  "standing_ok M R B i n \<longleftrightarrow> (role n \<noteq> Follower \<longrightarrow> (i, term_of n, i) \<in> B) \<and>
     (role n = Candidate \<longrightarrow> votes_received n = 1 + card {v. R i (term_of n) v = Handled True}) \<and>
     (role n = Leader \<longrightarrow> (\<exists>Q. majority_of M Q \<and> (\<forall>v \<in> Q. (v, term_of n, i) \<in> B)))"

definition cluster_inv :: "NodeId set \<Rightarrow> 's cluster \<Rightarrow> bool" where
  "cluster_inv M s \<longleftrightarrow> membership_fixed M s \<and> (\<forall>i \<in> M. hard_synced (hard (nodes s i))) \<and>
     ballots_ok M (nodes s) (ballots s) \<and> rpcs_ok M (nodes s) (rpcs s) (ballots s) \<and>
     (\<forall>i \<in> M. standing_ok M (rpcs s) (ballots s) i (nodes s i))"

lemma ballots_okI:
  assumes "\<And>v t c. (v, t, c) \<in> B \<Longrightarrow> v \<in> M \<and> t \<le> term_of (f v) \<and> (t = term_of (f v) \<longrightarrow> voted_for (hard (f v)) = Some c)"
    and "\<And>v t c c'. (v, t, c) \<in> B \<Longrightarrow> (v, t, c') \<in> B \<Longrightarrow> c = c'"
  shows "ballots_ok M f B"
  unfolding ballots_ok_def using assms by blast

lemma ballots_okD:
  assumes "ballots_ok M f B"
  shows "(v, t, c) \<in> B \<Longrightarrow> v \<in> M" and "(v, t, c) \<in> B \<Longrightarrow> t \<le> term_of (f v)"
    and "(v, t, c) \<in> B \<Longrightarrow> t = term_of (f v) \<Longrightarrow> voted_for (hard (f v)) = Some c"
    and "(v, t, c) \<in> B \<Longrightarrow> (v, t, c') \<in> B \<Longrightarrow> c = c'"
  using assms unfolding ballots_ok_def by blast+

lemma ballots_evolve:
  assumes "ballots_ok M f B" and "hard_evolves (hard (f i)) (hard n)" and "(i, t, c) \<in> B"
  shows "t \<le> term_of n" and "t = term_of n \<Longrightarrow> voted_for (hard n) = Some c"
  using ballots_okD(2,3) [OF assms(1,3)] assms(2) by (auto simp: hard_evolves_def vote_le_def)

lemma ballots_keep:
  assumes "ballots_ok M f B" and "hard_evolves (hard (f i)) (hard n)"
  shows "ballots_ok M (f(i := n)) B"
proof (rule ballots_okI)
  fix v t c assume b: "(v, t, c) \<in> B"
  show "v \<in> M \<and> t \<le> term_of ((f(i := n)) v) \<and> (t = term_of ((f(i := n)) v) \<longrightarrow> voted_for (hard ((f(i := n)) v)) = Some c)"
    using ballots_okD(1-3) [OF assms(1) b] ballots_evolve [OF assms, of t c] b by (cases "v = i") auto
qed (rule ballots_okD(4) [OF assms(1)])

lemma ballots_insert:
  assumes "ballots_ok M f B" and "hard_evolves (hard (f i)) (hard n)" and "i \<in> M" and "voted_for (hard n) = Some c"
  shows "ballots_ok M (f(i := n)) (insert (i, term_of n, c) B)"
proof (rule ballots_okI)
  note k = ballots_keep [OF assms(1,2)]
  fix v t d assume b: "(v, t, d) \<in> insert (i, term_of n, c) B"
  show "v \<in> M \<and> t \<le> term_of ((f(i := n)) v) \<and> (t = term_of ((f(i := n)) v) \<longrightarrow> voted_for (hard ((f(i := n)) v)) = Some d)"
  proof (cases "(v, t, d) \<in> B")
    case True
    then show ?thesis using ballots_okD(1-3) [OF k True] by blast
  next
    case False
    with b assms(3,4) show ?thesis by simp
  qed
  fix d' assume b': "(v, t, d') \<in> insert (i, term_of n, c) B"
  have new: "e = c" if "(i, term_of n, e) \<in> B" for e
    using ballots_evolve(2) [OF assms(1,2) that] assms(4) by simp
  show "d = d'"
  proof (cases "(v, t) = (i, term_of n)")
    case True
    then show ?thesis using b b' new [of d] new [of d'] by auto
  next
    case False
    then have "(v, t, d) \<in> B" "(v, t, d') \<in> B" using b b' by auto
    then show ?thesis by (rule ballots_okD(4) [OF assms(1)])
  qed
qed

lemma set_rpc_apply: "set_rpc c t v r R c' t' v' = (if c' = c \<and> t' = t \<and> v' = v then r else R c' t' v')"
  by (simp add: set_rpc_def)

lemma rpcs_okI:
  assumes "\<And>c t v. R c t v \<noteq> NotSent \<Longrightarrow> c \<in> M \<and> v \<in> M - {c} \<and> t \<le> term_of (f c)"
    and "\<And>c t v req. R c t v = Asked req \<Longrightarrow> rvq_term req = t \<and> rvq_candidate_id req = c"
    and "\<And>c t v resp. R c t v = Replied resp \<Longrightarrow> rvr_vote_granted resp \<Longrightarrow> (v, t, c) \<in> B"
    and "\<And>c t v. R c t v = Handled True \<Longrightarrow> (v, t, c) \<in> B"
  shows "rpcs_ok M f R B"
  unfolding rpcs_ok_def using assms by blast

lemma rpcs_okD:
  assumes "rpcs_ok M f R B"
  shows "R c t v \<noteq> NotSent \<Longrightarrow> c \<in> M \<and> v \<in> M - {c} \<and> t \<le> term_of (f c)"
    and "R c t v = Asked req \<Longrightarrow> rvq_term req = t \<and> rvq_candidate_id req = c"
    and "R c t v = Replied resp \<Longrightarrow> rvr_vote_granted resp \<Longrightarrow> (v, t, c) \<in> B"
    and "R c t v = Handled True \<Longrightarrow> (v, t, c) \<in> B"
  using assms unfolding rpcs_ok_def by blast+

lemma rpcs_keep:
  assumes "rpcs_ok M f R B" and "term_of (f i) \<le> term_of n" and "B \<subseteq> B'"
  shows "rpcs_ok M (f(i := n)) R B'"
proof (rule rpcs_okI)
  fix c t v assume "R c t v \<noteq> NotSent"
  then show "c \<in> M \<and> v \<in> M - {c} \<and> t \<le> term_of ((f(i := n)) c)"
    using rpcs_okD(1) [OF assms(1), of c t v] assms(2) by (cases "c = i") auto
qed (use rpcs_okD(2-4) [OF assms(1)] assms(3) in blast)+

lemma rpcs_set:
  assumes "rpcs_ok M f R B" and "c \<in> M" "v \<in> M - {c}" "t \<le> term_of (f c)"
    and "\<And>req. r = Asked req \<Longrightarrow> rvq_term req = t \<and> rvq_candidate_id req = c"
    and "\<And>resp. r = Replied resp \<Longrightarrow> rvr_vote_granted resp \<Longrightarrow> (v, t, c) \<in> B"
    and "r = Handled True \<Longrightarrow> (v, t, c) \<in> B"
  shows "rpcs_ok M f (set_rpc c t v r R) B"
proof (rule rpcs_okI)
  fix d u w
  note old = rpcs_okD [OF assms(1), of d u w]
  show "set_rpc c t v r R d u w \<noteq> NotSent \<Longrightarrow> d \<in> M \<and> w \<in> M - {d} \<and> u \<le> term_of (f d)"
    using assms(2-4) old(1) unfolding set_rpc_apply by (cases "d = c \<and> u = t \<and> w = v") auto
  show "set_rpc c t v r R d u w = Handled True \<Longrightarrow> (w, u, d) \<in> B"
    using assms(7) old(4) unfolding set_rpc_apply by (cases "d = c \<and> u = t \<and> w = v") auto
  fix req show "set_rpc c t v r R d u w = Asked req \<Longrightarrow> rvq_term req = u \<and> rvq_candidate_id req = d"
    using assms(5) old(2) unfolding set_rpc_apply by (cases "d = c \<and> u = t \<and> w = v") auto
next
  fix d u w resp
  show "set_rpc c t v r R d u w = Replied resp \<Longrightarrow> rvr_vote_granted resp \<Longrightarrow> (w, u, d) \<in> B"
    using assms(6) rpcs_okD(3) [OF assms(1), of d u w] unfolding set_rpc_apply by (cases "d = c \<and> u = t \<and> w = v") auto
qed

lemma standing_keep:
  assumes "standing_ok M R B i n" and "role_evolves n n'" and "B \<subseteq> B'"
    and "\<And>v. R' i (term_of n) v = Handled True \<longleftrightarrow> R i (term_of n) v = Handled True"
  shows "standing_ok M R' B' i n'"
  using assms unfolding standing_ok_def role_evolves_def by (cases "role n' = Follower") auto

text \<open>The requests of an election are recorded under fresh keys.\<close>

lemma sent_rpcs_apply:
  "\<forall>(v, req) \<in> set ps. rvq_term req = t \<Longrightarrow> (c', t') \<noteq> (c, t) \<Longrightarrow>
     foldl (\<lambda>f (v, req). set_rpc c (rvq_term req) v (Asked req) f) R ps c' t' v' = R c' t' v'"
  by (induction ps arbitrary: R) (auto simp: set_rpc_apply)

lemma sent_rpcs_handled:
  "(foldl (\<lambda>f (v, req). set_rpc c (rvq_term req) v (Asked req) f) R ps c t w = Handled True) \<Longrightarrow> R c t w = Handled True"
  by (induction ps arbitrary: R) (fastforce simp: set_rpc_apply split: if_splits)+

lemma sent_rpcs_ok:
  assumes "rpcs_ok M f R B" and "c \<in> M" and "t \<le> term_of (f c)"
    and "\<forall>(v, req) \<in> set ps. v \<in> M - {c} \<and> rvq_term req = t \<and> rvq_candidate_id req = c"
  shows "rpcs_ok M f (foldl (\<lambda>f (v, req). set_rpc c (rvq_term req) v (Asked req) f) R ps) B"
  using assms(1,4)
proof (induction ps arbitrary: R)
  case (Cons p ps)
  obtain v req where p: "p = (v, req)" by (cases p)
  have "rpcs_ok M f (set_rpc c t v (Asked req) R) B"
    by (rule rpcs_set [OF Cons.prems(1) assms(2) _ assms(3)]) (use Cons.prems(2) p in auto)
  from Cons.IH [OF this] Cons.prems(2) p show ?case by simp
qed simp

lemma hard_evolves_term: "hard_evolves h h' \<Longrightarrow> current_term h \<le> current_term h'"
  by (auto simp: hard_evolves_def vote_le_def)

text \<open>The size of a node's peer table in a fixed membership.\<close>

lemma fixed_peers:
  assumes "membership_fixed M s" and "i \<in> M"
  shows "node_id (nodes s i) = i" and "length (peers (nodes s i)) + 1 = card M"
    and "fst ` set (peers (snd (RefreshMembership (nodes s i)))) = M - {i}"
    and "length (peers (snd (RefreshMembership (nodes s i)))) + 1 = card M"
proof -
  note f = assms(1) [unfolded membership_fixed_def Let_def]
  have l: "length ps + 1 = card M" if "omap_ok ps" "fst ` set ps = M - {i}" for ps :: peer_map
  proof -
    have "length ps = card (fst ` set ps)" using distinct_card [OF omap_ok_distinct [OF that(1)]] by simp
    then have "length ps = card (M - {i})" by (simp only: that(2))
    moreover have "finite M" using f by blast
    ultimately show ?thesis using card.remove [OF _ assms(2)] by simp
  qed
  have g: "node_id (nodes s i) = i" "omap_ok (peers (nodes s i))" "fst ` set (peers (nodes s i)) = M - {i}"
    "omap_ok (peers (snd (RefreshMembership (nodes s i))))"
    "fst ` set (peers (snd (RefreshMembership (nodes s i)))) = M - {i}"
    using f assms(2) by simp_all
  show "node_id (nodes s i) = i" "fst ` set (peers (snd (RefreshMembership (nodes s i)))) = M - {i}" by (fact g)+
  show "length (peers (nodes s i)) + 1 = card M" by (rule l [OF g(2,3)])
  show "length (peers (snd (RefreshMembership (nodes s i)))) + 1 = card M" by (rule l [OF g(4,5)])
qed

text \<open>A step of one node that takes no part in an election keeps the invariant.\<close>

lemma standing_others:
  assumes "\<forall>j \<in> M. standing_ok M R B j (f j)" and "standing_ok M R' B' i n" and "B \<subseteq> B'"
    and "\<And>j v. j \<noteq> i \<Longrightarrow> R' j (term_of (f j)) v = Handled True \<longleftrightarrow> R j (term_of (f j)) v = Handled True"
  shows "\<forall>j \<in> M. standing_ok M R' B' j ((f(i := n)) j)"
proof
  fix j assume j: "j \<in> M"
  show "standing_ok M R' B' j ((f(i := n)) j)"
  proof (cases "j = i")
    case False
    have "standing_ok M R' B' j (f j)"
      by (rule standing_keep [OF bspec [OF assms(1) j] role_evolves_refl assms(3)]) (rule assms(4) [OF False])
    with False show ?thesis by simp
  qed (simp add: assms(2))
qed

lemma cluster_inv_other:
  assumes "cluster_inv M s" and "i \<in> M" and "quiet_step cb aok sok (nodes s i) n"
    and "membership_fixed M (s\<lparr>nodes := (nodes s)(i := n)\<rparr>)"
  shows "cluster_inv M (s\<lparr>nodes := (nodes s)(i := n)\<rparr>)"
proof -
  note inv = assms(1) [unfolded cluster_inv_def]
  have h: "hard_evolves (hard (nodes s i)) (hard n)" using quiet_step_hard [OF assms(3)] inv assms(2) by blast
  have "ballots_ok M ((nodes s)(i := n)) (ballots s)" using ballots_keep h inv by blast
  moreover have "rpcs_ok M ((nodes s)(i := n)) (rpcs s) (ballots s)"
    using inv hard_evolves_term [OF h] by (intro rpcs_keep) auto
  moreover have "standing_ok M (rpcs s) (ballots s) i n"
    by (rule standing_keep [OF _ quiet_step_role [OF assms(3)]]) (use inv assms(2) in auto)
  then have "\<forall>j \<in> M. standing_ok M (rpcs s) (ballots s) j (((nodes s)(i := n)) j)"
    by (rule standing_others [rotated]) (use inv in auto)
  ultimately show ?thesis
    using assms(4) inv h by (simp add: cluster_inv_def hard_evolves_def)
qed

lemma cluster_inv_vote:
  assumes "cluster_inv M s" and "v \<in> M" and "rpcs s c t v = Asked req"
    and "HandleRequestVote now rnd req (nodes s v) = (resp, n)"
  defines "s' \<equiv> s\<lparr>nodes := (nodes s)(v := n), rpcs := set_rpc c t v (Replied resp) (rpcs s),
      ballots := (if rvr_vote_granted resp then insert (v, rvq_term req, rvq_candidate_id req) (ballots s)
                  else ballots s)\<rparr>"
  assumes "membership_fixed M s'"
  shows "cluster_inv M s'"
proof -
  note inv = assms(1) [unfolded cluster_inv_def]
  have h: "hard_evolves (hard (nodes s v)) (hard n)"
    using HandleRequestVote_hard [of "nodes s v" now rnd req] assms(4) by simp
  note c = HandleRequestVote_cases [OF assms(4)]
  have r: "rpcs_ok M (nodes s) (rpcs s) (ballots s)" using inv by blast
  have k: "rvq_term req = t" "rvq_candidate_id req = c" "c \<in> M" "v \<in> M - {c}" "t \<le> term_of (nodes s c)"
    using rpcs_okD(1,2) [OF r, of c t v] assms(3) by auto
  let ?B = "ballots s'"
  have sub: "ballots s \<subseteq> ?B" by (auto simp: s'_def)
  have b: "ballots_ok M ((nodes s)(v := n)) ?B"
  proof (cases "rvr_vote_granted resp")
    case True
    have "ballots_ok M ((nodes s)(v := n)) (insert (v, term_of n, c) (ballots s))"
      by (rule ballots_insert) (use inv h assms(2) c(2) [OF True] k in auto)
    with True c(2) [OF True] k show ?thesis by (simp add: s'_def)
  next
    case False
    have "ballots_ok M ((nodes s)(v := n)) (ballots s)" using ballots_keep h inv by blast
    with False show ?thesis by (simp add: s'_def)
  qed
  have "rpcs_ok M ((nodes s)(v := n)) (rpcs s) ?B" by (rule rpcs_keep [OF r hard_evolves_term [OF h] sub])
  then have "rpcs_ok M ((nodes s)(v := n)) (set_rpc c t v (Replied resp) (rpcs s)) ?B"
    by (rule rpcs_set) (use k in \<open>auto simp: s'_def\<close>)
  then have rp: "rpcs_ok M ((nodes s)(v := n)) (rpcs s') ?B" by (simp add: s'_def)
  have same: "rpcs s' j u w = Handled True \<longleftrightarrow> rpcs s j u w = Handled True" for j u w
    using assms(3) by (simp add: s'_def set_rpc_apply)
  have "standing_ok M (rpcs s') ?B v n"
    by (rule standing_keep [OF _ c(1) sub same]) (use inv assms(2) in blast)
  then have "\<forall>j \<in> M. standing_ok M (rpcs s') ?B j (((nodes s)(v := n)) j)"
    by (rule standing_others [rotated, OF _ sub same]) (use inv in blast)
  moreover have "nodes s' = (nodes s)(v := n)" by (simp add: s'_def)
  ultimately show ?thesis
    using assms(6) inv h b rp by (simp add: cluster_inv_def hard_evolves_def)
qed

lemma cluster_inv_elect:
  assumes "cluster_inv M s" and "c \<in> M" and "StartElection now rnd (nodes s c) = (r, n)"
  defines "s' \<equiv> s\<lparr>nodes := (nodes s)(c := n),
      rpcs := foldl (\<lambda>f (v, req). set_rpc c (rvq_term req) v (Asked req) f) (rpcs s) (sent_votes r),
      ballots := (if hard n = hard (nodes s c) then ballots s
                  else insert (c, term_of n, c) (ballots s))\<rparr>"
  assumes "membership_fixed M s'"
  shows "cluster_inv M s'"
proof -
  note inv = assms(1) [unfolded cluster_inv_def]
  have fx: "membership_fixed M s" and b: "ballots_ok M (nodes s) (ballots s)"
    and rp: "rpcs_ok M (nodes s) (rpcs s) (ballots s)" and st: "\<forall>i \<in> M. standing_ok M (rpcs s) (ballots s) i (nodes s i)"
    using inv by blast+
  note p = fixed_peers [OF fx assms(2)]
  have h: "hard_evolves (hard (nodes s c)) (hard n)"
    using StartElection_hard [of now rnd "nodes s c"] assms(3) by auto
  have nodes: "nodes s' = (nodes s)(c := n)" by (simp add: s'_def)
  show ?thesis
  proof (rule disjE [OF StartElection_cases [OF assms(3)]])
    assume "hard n = hard (nodes s c) \<and> sent_votes r = [] \<and> role_evolves (nodes s c) n"
    then have same: "hard n = hard (nodes s c)" and sent: "sent_votes r = []" and ro: "role_evolves (nodes s c) n" by blast+
    then have e: "rpcs s' = rpcs s" "ballots s' = ballots s" by (simp_all add: s'_def)
    have "ballots_ok M ((nodes s)(c := n)) (ballots s)" using ballots_keep h b by blast
    moreover have "rpcs_ok M ((nodes s)(c := n)) (rpcs s) (ballots s)"
      using rp hard_evolves_term [OF h] by (intro rpcs_keep) auto
    moreover have "standing_ok M (rpcs s) (ballots s) c n"
      by (rule standing_keep [OF bspec [OF st assms(2)] ro]) auto
    then have "\<forall>j \<in> M. standing_ok M (rpcs s) (ballots s) j (((nodes s)(c := n)) j)"
      by (rule standing_others [OF st]) auto
    ultimately show ?thesis using assms(5) inv h by (simp add: cluster_inv_def nodes e hard_evolves_def)
  next
    let ?t = "term_of (nodes s c) + 1"
    assume "hard n = ps_Set ?t (Some (node_id (nodes s c))) (hard (nodes s c)) \<and> votes_received n = 1 \<and>
      (role n = Candidate \<or> role n = Leader \<and> length (peers (snd (RefreshMembership (nodes s c)))) + 1 < 2) \<and>
      (\<forall>(v, req) \<in> set (sent_votes r). v \<in> fst ` set (peers (snd (RefreshMembership (nodes s c)))) \<and>
         rvq_term req = ?t \<and> rvq_candidate_id req = node_id (nodes s c))"
    then have new: "hard n = ps_Set ?t (Some (node_id (nodes s c))) (hard (nodes s c))" and votes: "votes_received n = 1"
      and role: "role n = Candidate \<or> role n = Leader \<and> length (peers (snd (RefreshMembership (nodes s c)))) + 1 < 2"
      and sent: "\<forall>(v, req) \<in> set (sent_votes r). v \<in> fst ` set (peers (snd (RefreshMembership (nodes s c)))) \<and>
         rvq_term req = ?t \<and> rvq_candidate_id req = node_id (nodes s c)"
      by blast+
    have t: "term_of n = ?t" "voted_for (hard n) = Some c" using new p(1) by simp_all
    have "hard n \<noteq> hard (nodes s c)" using t(1) by auto
    then have B: "ballots s' = insert (c, term_of n, c) (ballots s)" by (simp add: s'_def)
    have "ballots_ok M (nodes s') (ballots s')"
      unfolding nodes B by (rule ballots_insert [OF b h assms(2) t(2)])
    moreover have "rpcs_ok M (nodes s') (rpcs s) (ballots s')"
      unfolding nodes B using rp hard_evolves_term [OF h] by (intro rpcs_keep) auto
    then have "rpcs_ok M (nodes s') (foldl (\<lambda>f (v, req). set_rpc c (rvq_term req) v (Asked req) f) (rpcs s) (sent_votes r)) (ballots s')"
      by (rule sent_rpcs_ok [OF _ assms(2), where t = ?t]) (use sent p t nodes in auto)
    then have "rpcs_ok M (nodes s') (rpcs s') (ballots s')" by (simp add: s'_def)
    moreover have fresh: "rpcs s' c ?t v \<noteq> Handled True" for v
    proof
      assume "rpcs s' c ?t v = Handled True"
      then have "rpcs s c ?t v = Handled True" unfolding s'_def by simp (rule sent_rpcs_handled)
      with rpcs_okD(1) [OF rp, of c ?t v] show False by simp
    qed
    have "standing_ok M (rpcs s') (ballots s') c n"
    proof -
      have "\<exists>Q. majority_of M Q \<and> (\<forall>v \<in> Q. (v, term_of n, c) \<in> ballots s')" if "role n = Leader"
      proof -
        have "card M < 2" using role that p(4) by simp
        then have "majority_of M {c}" using fx assms(2) by (simp add: majority_of_def membership_fixed_def)
        then show ?thesis by (intro exI [of _ "{c}"]) (simp add: B)
      qed
      then show ?thesis using votes fresh t by (simp add: standing_ok_def B)
    qed
    then have "\<forall>j \<in> M. standing_ok M (rpcs s') (ballots s') j (((nodes s)(c := n)) j)"
    proof (rule standing_others [OF st])
      show "ballots s \<subseteq> ballots s'" by (auto simp: B)
      show "(rpcs s' j (term_of (nodes s j)) v = Handled True) = (rpcs s j (term_of (nodes s j)) v = Handled True)"
        if "j \<noteq> c" for j v
        using sent that by (simp add: s'_def) (subst sent_rpcs_apply [where t = ?t], auto)
    qed
    ultimately show ?thesis using assms(5) inv h by (simp add: cluster_inv_def nodes hard_evolves_def)
  qed
qed

lemma cluster_inv_reply:
  fixes now rnd :: nat
  assumes "cluster_inv M s" and "c \<in> M" and "rpcs s c t v = Replied resp"
  defines "n \<equiv> snd (HandleVoteReply now rnd t resp (nodes s c))"
  defines "s' \<equiv> s\<lparr>nodes := (nodes s)(c := n), rpcs := set_rpc c t v (Handled (counts_vote t resp (nodes s c))) (rpcs s)\<rparr>"
  assumes "membership_fixed M s'"
  shows "cluster_inv M s'"
proof -
  note inv = assms(1) [unfolded cluster_inv_def]
  have fx: "membership_fixed M s" and b: "ballots_ok M (nodes s) (ballots s)"
    and rp: "rpcs_ok M (nodes s) (rpcs s) (ballots s)" and st: "\<forall>i \<in> M. standing_ok M (rpcs s) (ballots s) i (nodes s i)"
    using inv by blast+
  have h: "hard_evolves (hard (nodes s c)) (hard n)" unfolding n_def by (rule HandleVoteReply_hard)
  have nodes: "nodes s' = (nodes s)(c := n)" and B: "ballots s' = ballots s"
    and R: "rpcs s' = set_rpc c t v (Handled (counts_vote t resp (nodes s c))) (rpcs s)" by (simp_all add: s'_def)
  have k: "v \<in> M - {c}" "t \<le> term_of (nodes s c)" "rvr_vote_granted resp \<Longrightarrow> (v, t, c) \<in> ballots s"
    using rpcs_okD(1,3) [OF rp, of c t v] assms(3) by auto
  have b': "ballots_ok M (nodes s') (ballots s')" unfolding nodes B using ballots_keep h b by blast
  have "rpcs_ok M (nodes s') (rpcs s) (ballots s')"
    unfolding nodes B using rp hard_evolves_term [OF h] by (intro rpcs_keep) auto
  then have rp': "rpcs_ok M (nodes s') (rpcs s') (ballots s')"
    unfolding R by (rule rpcs_set) (use k assms(2) hard_evolves_term [OF h] in \<open>auto simp: nodes B counts_vote_def\<close>)
  have others: "(rpcs s' j u w = Handled True) = (rpcs s j u w = Handled True)" if "(j, u, w) \<noteq> (c, t, v)" for j u w
    using that by (auto simp: R set_rpc_apply)
  have "standing_ok M (rpcs s') (ballots s') c n"
  proof (cases "counts_vote t resp (nodes s c)")
    case False
    have "role_evolves (nodes s c) n" using HandleVoteReply_cases [of t resp "nodes s c" now rnd] False by (simp add: n_def)
    from bspec [OF st assms(2)] this show ?thesis
    proof (rule standing_keep)
      show "(rpcs s' c (term_of (nodes s c)) w = Handled True) = (rpcs s c (term_of (nodes s c)) w = Handled True)" for w
        using assms(3) False by (auto simp: R set_rpc_apply)
    qed (simp add: B)
  next
    case True
    let ?H = "\<lambda>R. {w. R c t w = Handled True}"
    have t: "t = term_of (nodes s c)" "role (nodes s c) = Candidate" "rvr_vote_granted resp" using True by (simp_all add: counts_vote_def)
    have n: "hard n = hard (nodes s c)" "votes_received n = votes_received (nodes s c) + 1"
      "role n = Candidate \<or> role n = Leader \<and> length (peers (nodes s c)) + 1 < 2 * (votes_received (nodes s c) + 1)"
      using HandleVoteReply_cases [of t resp "nodes s c" now rnd] True by (auto simp: n_def)
    have old: "(c, t, c) \<in> ballots s" "votes_received (nodes s c) = 1 + card (?H (rpcs s))"
      using bspec [OF st assms(2)] t by (simp_all add: standing_ok_def)
    have H: "?H (rpcs s') = insert v (?H (rpcs s))" "v \<notin> ?H (rpcs s)"
      using True assms(3) by (auto simp: R set_rpc_apply)
    have sub: "?H (rpcs s') \<subseteq> M - {c}"
    proof
      fix w assume "w \<in> ?H (rpcs s')"
      then show "w \<in> M - {c}" using rpcs_okD(1) [OF rp', of c t w] by simp
    qed
    have fin: "finite M" using fx by (simp add: membership_fixed_def)
    then have finH: "finite (?H (rpcs s'))" using sub by (meson finite_Diff finite_subset)
    then have card: "card (?H (rpcs s')) = card (?H (rpcs s)) + 1" using H by simp
    have "\<exists>Q. majority_of M Q \<and> (\<forall>w \<in> Q. (w, term_of n, c) \<in> ballots s')" if "role n = Leader"
    proof (intro exI conjI ballI)
      let ?Q = "insert c (?H (rpcs s'))"
      have "card ?Q = 1 + card (?H (rpcs s'))" using sub finH by (subst card_insert_disjoint) auto
      moreover have "card M < 2 * (votes_received (nodes s c) + 1)" using n(3) that fixed_peers(2) [OF fx assms(2)] by simp
      ultimately show "majority_of M ?Q" using sub assms(2) fin card old(2) by (auto simp: majority_of_def)
      fix w assume "w \<in> ?Q"
      then show "(w, term_of n, c) \<in> ballots s'" using old(1) n(1) t(1) rpcs_okD(4) [OF rp', of c t w] by (auto simp: B)
    qed
    then show ?thesis using n old card t by (auto simp: standing_ok_def B)
  qed
  then have "\<forall>j \<in> M. standing_ok M (rpcs s') (ballots s') j (((nodes s)(c := n)) j)"
    by (rule standing_others [OF st]) (auto simp: B others)
  then show ?thesis using assms(6) inv h b' rp' by (simp add: cluster_inv_def nodes hard_evolves_def)
qed

lemma cluster_inv_election:
  assumes "cluster_inv M s" and "election_step M s s'" and "membership_fixed M s'"
  shows "cluster_inv M s'"
  using assms(2)
proof cases
  case elect
  then show ?thesis using cluster_inv_elect [OF assms(1)] assms(3) by simp
next
  case vote
  then show ?thesis using cluster_inv_vote [OF assms(1)] assms(3) by simp
next
  case reply
  then show ?thesis using cluster_inv_reply [OF assms(1)] assms(3) by simp
qed

lemma cluster_reach_inv: "cluster_reach cb aok sok M s \<Longrightarrow> cluster_inv M s"
proof (induction rule: cluster_reach.induct)
  case (start s)
  then show ?case
    by (auto simp: cluster_start_def cluster_inv_def ballots_ok_def rpcs_ok_def standing_ok_def)
next
  case (step s s')
  from step.hyps(2) show ?case
  proof cases
    case election
    then show ?thesis using cluster_inv_election [OF step.IH] step.hyps(3) by simp
  next
    case other
    then show ?thesis using cluster_inv_other [OF step.IH] step.hyps(3) by simp
  qed
qed

text \<open>C9. Election safety: in every run of a cluster of fixed membership, with messages delayed, overtaken or lost and
  nodes crashing and restarting, two nodes that lead in the same term are the same node.\<close>

theorem raft_election_safety:
  assumes "cluster_reach cb aok sok M s" and "a \<in> M" and "b \<in> M"
    and "role (nodes s a) = Leader" and "role (nodes s b) = Leader" and "term_of (nodes s a) = term_of (nodes s b)"
  shows "a = b"
proof -
  have inv: "cluster_inv M s" by (rule cluster_reach_inv [OF assms(1)])
  then have bal: "ballots_ok M (nodes s) (ballots s)" and st: "\<forall>i \<in> M. standing_ok M (rpcs s) (ballots s) i (nodes s i)"
    by (simp_all add: cluster_inv_def)
  let ?t = "term_of (nodes s b)"
  obtain A where A: "majority_of M A" "\<forall>v \<in> A. (v, ?t, a) \<in> ballots s"
    using bspec [OF st assms(2)] assms(4,6) by (auto simp: standing_ok_def)
  obtain B where B: "majority_of M B" "\<forall>v \<in> B. (v, ?t, b) \<in> ballots s"
    using bspec [OF st assms(3)] assms(5) by (auto simp: standing_ok_def)
  show ?thesis
    by (rule maj.unique_winner [OF A(1) B(1), where R = "\<lambda>v x. (v, ?t, x) \<in> ballots s"])
      (use A(2) B(2) ballots_okD(4) [OF bal] in auto)
qed

text \<open>A run in which node 1 of three is elected with the vote of node 2.\<close>

definition others3 :: "NodeId \<Rightarrow> peer_map" where
  "others3 i = filter (\<lambda>p. fst p \<noteq> i) [(1, addr3), (2, addr3), (3, addr3)]"

definition settled3 :: "NodeId \<Rightarrow> 's RaftNode \<Rightarrow> bool" where
  "settled3 i n \<longleftrightarrow> node_id n = i \<and> peers n = others3 i \<and> base_peers (mship n) = others3 i \<and> lg_entries (rlog n) = []"

lemma adopt_known: "omap_ok (peers n) \<Longrightarrow> p \<in> set (peers n) \<Longrightarrow> adopt_peer n p = n"
  by (cases n; cases p) (simp add: adopt_peer_def Let_def omap_set_idem omap_mem_iff omap_count_def)

lemma adopt_all_known: "omap_ok (peers n) \<Longrightarrow> set ps \<subseteq> set (peers n) \<Longrightarrow> foldl adopt_peer n ps = n"
  by (induction ps) (simp_all add: adopt_known)

lemma Refresh_settled:
  assumes "lg_entries (rlog n) = []" and "base_peers (mship n) = peers n" and "omap_ok (peers n)"
  shows "RefreshMembership n = (Inr (), n\<lparr>pending_self_removal_index := 0, self_is_member := ms_self_is_member (mship n)\<rparr>)"
proof -
  let ?n = "n\<lparr>pending_self_removal_index := 0, self_is_member := ms_self_is_member (mship n)\<rparr>"
  have "filter (\<lambda>p. \<not> omap_count (fst p) (peers n)) (peers n) = []"
    by (auto simp: filter_empty_conv omap_count_def map_of_eq_None_iff)
  then have "adopt_peers (peers n) ?n = ?n"
    using adopt_all_known [of ?n "peers n"] assms(3) by (simp add: adopt_peers_def Let_def)
  then show ?thesis using assms by (simp add: RefreshMembership_def LastIndex_def eret_def)
qed

lemma others3_ok: "omap_ok (others3 i)"
  unfolding others3_def by (rule omap_ok_filter) (simp add: omap_ok_def)

lemma membership_fixed3:
  assumes "\<forall>i \<in> {1, 2, 3}. settled3 i (nodes s i)"
  shows "membership_fixed {1, 2, 3} s"
  unfolding membership_fixed_def Let_def
proof (intro conjI ballI)
  fix i :: NodeId assume i: "i \<in> {1, 2, 3}"
  note st = bspec [OF assms i, unfolded settled3_def]
  have r: "RefreshMembership (nodes s i) = (Inr (), nodes s i\<lparr>pending_self_removal_index := 0,
      self_is_member := ms_self_is_member (mship (nodes s i))\<rparr>)"
    by (rule Refresh_settled) (use st others3_ok in simp_all)
  have keys: "fst ` set (others3 i) = {1, 2, 3} - {i}" using i by (auto simp: others3_def)
  show "node_id (nodes s i) = i" "omap_ok (peers (nodes s i))" "fst ` set (peers (nodes s i)) = {1, 2, 3} - {i}"
    "omap_ok (peers (snd (RefreshMembership (nodes s i))))"
    "fst ` set (peers (snd (RefreshMembership (nodes s i)))) = {1, 2, 3} - {i}"
    using st others3_ok [of i] keys by (simp_all add: r)
qed simp

definition fresh3 :: "NodeId \<Rightarrow> string list RaftNode" where
  "fresh3 i = node3 i (others3 i) Follower [] 0 []"

definition ask3 :: RequestVoteRequest where
  "ask3 = \<lparr>rvq_term = 2, rvq_candidate_id = 1, rvq_last_log_index = 0, rvq_last_log_term = 0\<rparr>"

definition candidate3 :: "string list RaftNode" where
  "candidate3 = (fresh3 1)\<lparr>pending_self_removal_index := 0, self_is_member := True,
     hard := ps_Set 2 (Some 1) (hard (fresh3 1)), role := Candidate, votes_received := 1, election_deadline := 1000\<rparr>"

definition voter3 :: "string list RaftNode" where
  "voter3 = (fresh3 2)\<lparr>hard := ps_Set 2 (Some 1) (hard (fresh3 2)), election_deadline := 1000\<rparr>"

lemma fresh3_simps [simp]:
  "settled3 i (fresh3 i)" "role (fresh3 i) = Follower" "hard_synced (hard (fresh3 i))" "term_of (fresh3 i) = 1"
  "last_leader_contact (fresh3 i) = 0" "LastIndex (rlog (fresh3 i)) = 0" "LastTerm (rlog (fresh3 i)) = 0"
  "ms_self_is_member (mship (fresh3 i)) = True" "peers (fresh3 i) = others3 i" "node_id (fresh3 i) = i"
  by (simp_all add: fresh3_def node3_def settled3_def log_new_def LastIndex_def LastTerm_def ms_Set_def)

lemma candidate3_settled [simp]: "settled3 1 candidate3" "settled3 2 voter3"
  using fresh3_simps(1) [of 1] fresh3_simps(1) [of 2] by (simp_all add: candidate3_def voter3_def settled3_def)

lemma fresh3_election: "StartElection 1000 0 (fresh3 1) = (Inr [(2, ask3), (3, ask3)], candidate3)"
proof -
  have "RefreshMembership (fresh3 1) = (Inr (), (fresh3 1)\<lparr>pending_self_removal_index := 0, self_is_member := True\<rparr>)"
    using fresh3_simps(1) [of 1] others3_ok [of 1] by (subst Refresh_settled) (simp_all add: settled3_def)
  then show ?thesis
    by (simp add: StartElection_def Let_def has_majority_def ResetElectionDeadline_def candidate3_def ask3_def)
      (simp add: others3_def numeral_2_eq_2)
qed

lemma fresh3_vote: "HandleRequestVote 1000 0 ask3 (fresh3 2) = (\<lparr>rvr_term = 2, rvr_vote_granted = True\<rparr>, voter3)"
proof -
  have "fresh3 2\<lparr>role := Follower\<rparr> = fresh3 2" by (simp add: fresh3_def node3_def)
  moreover have "ps_Set 2 (Some 1) (ps_Set 2 None (hard (fresh3 2))) = ps_Set 2 (Some 1) (hard (fresh3 2))"
    by (simp add: ps_Set_def)
  ultimately show ?thesis
    by (simp add: HandleRequestVote_def ask3_def kElectionTimeoutMinMs_def BecomeFollower_def ResetElectionDeadline_def
        Let_def voter3_def fresh3_def node3_def LastIndex_def LastTerm_def log_new_def)
qed

theorem raft_election_safety_witness:
  "\<exists>s. cluster_reach cb_list (\<lambda>_. True) (\<lambda>_. True) {1, 2, 3} s \<and> role (nodes s 1) = Leader \<and>
     \<not> (role (nodes s 2) = Leader \<and> term_of (nodes s 2) = term_of (nodes s 1))"
proof -
  let ?reach = "cluster_reach cb_list (\<lambda>_. True) (\<lambda>_. True) {1, 2, 3}"
  let ?step = "cluster_step cb_list (\<lambda>_. True) (\<lambda>_. True) {1, 2, 3}"
  let ?yes = "\<lparr>rvr_term = 2, rvr_vote_granted = True\<rparr>"
  define s0 :: "string list cluster" where "s0 = \<lparr>nodes = fresh3, rpcs = (\<lambda>_ _ _. NotSent), ballots = {}\<rparr>"
  define s1 where "s1 = s0\<lparr>nodes := (nodes s0)(1 := candidate3),
      rpcs := foldl (\<lambda>f (v, req). set_rpc 1 (rvq_term req) v (Asked req) f) (rpcs s0)
        (sent_votes (Inr [(2, ask3), (3, ask3)] :: (NodeId \<times> RequestVoteRequest) list res)),
      ballots := (if hard candidate3 = hard (nodes s0 1) then ballots s0
                  else insert (1, term_of candidate3, 1) (ballots s0))\<rparr>"
  define s2 where "s2 = s1\<lparr>nodes := (nodes s1)(2 := voter3), rpcs := set_rpc 1 2 2 (Replied ?yes) (rpcs s1),
      ballots := (if rvr_vote_granted ?yes then insert (2, rvq_term ask3, rvq_candidate_id ask3) (ballots s1)
                  else ballots s1)\<rparr>"
  define n3 where "n3 = snd (HandleVoteReply 1000 0 2 ?yes candidate3)"
  define s3 where "s3 = s2\<lparr>nodes := (nodes s2)(1 := snd (HandleVoteReply 1000 0 2 ?yes (nodes s2 1))),
      rpcs := set_rpc 1 2 2 (Handled (counts_vote 2 ?yes (nodes s2 1))) (rpcs s2)\<rparr>"
  have c: "role candidate3 = Candidate" "term_of candidate3 = 2" "votes_received candidate3 = 1" "peers candidate3 = others3 1"
    "base_peers (mship candidate3) = others3 1" "lg_entries (rlog candidate3) = []" "node_id candidate3 = 1"
    using candidate3_settled(1) by (simp_all add: candidate3_def settled3_def)
  have maj: "has_majority (candidate3\<lparr>votes_received := 2\<rparr>)" using c by (simp add: has_majority_def others3_def)
  have r: "RefreshMembership (candidate3\<lparr>votes_received := 2\<rparr>) = (Inr (), candidate3\<lparr>votes_received := 2,
      pending_self_removal_index := 0, self_is_member := ms_self_is_member (mship candidate3)\<rparr>)"
    using c others3_ok by (subst Refresh_settled) simp_all
  have n3: "role n3 = Leader" "settled3 1 n3"
    using c maj r by (simp_all add: n3_def HandleVoteReply_def Let_def BecomeLeader_def settled3_def numeral_2_eq_2 [symmetric])
  have "?reach s0"
    by (rule cluster_reach.start) (simp add: cluster_start_def membership_fixed3 s0_def)
  then have "?reach s1"
  proof (rule cluster_reach.step)
    show "?step s0 s1" unfolding s1_def
      by (rule cluster_step.election, rule elect [where now = 1000 and rnd = 0]) (simp_all add: s0_def fresh3_election)
  qed (rule membership_fixed3, simp add: s1_def s0_def)
  then have "?reach s2"
  proof (rule cluster_reach.step)
    have "rpcs s1 1 2 2 = Asked ask3" by (simp add: s1_def sent_votes_def set_rpc_def ask3_def)
    then show "?step s1 s2" unfolding s2_def
      by (rule cluster_step.election [OF vote [where now = 1000 and rnd = 0, rotated]]) (simp_all add: s1_def s0_def fresh3_vote)
  qed (rule membership_fixed3, simp add: s2_def s1_def s0_def)
  then have reach: "?reach s3"
  proof (rule cluster_reach.step)
    show "?step s2 s3" unfolding s3_def
      by (rule cluster_step.election, rule reply) (simp_all add: s2_def set_rpc_def)
  qed (rule membership_fixed3, use n3 in \<open>simp add: s3_def s2_def s1_def s0_def n3_def\<close>)
  moreover have lead: "role (nodes s3 1) = Leader" using n3 by (simp add: s3_def s2_def s1_def n3_def)
  moreover have "\<not> (role (nodes s3 2) = Leader \<and> term_of (nodes s3 2) = term_of (nodes s3 1))"
    using raft_election_safety [OF reach, of 2 1] lead by auto
  ultimately show ?thesis by blast
qed

end
