(* ===== verification/Raft_Protocol.thy ===== *)
theory Raft_Protocol
  imports Raft_Election
begin

text \<open>
  Raft as a protocol, on logs that keep every entry: what \<open>Raft_Safety\<close> shows the nodes of \<^verbatim>\<open>src/raft/node.cpp\<close>
  implement.  A state has each node's term, log and commit index, and as history the log of each term's leader
  (\<open>p_hist\<close>), the log each candidate stood with (\<open>p_cand\<close>), who voted for whom (\<open>p_votes\<close>), who holds a leader's log up
  to where (\<open>p_acks\<close>) and what leaders found committed (\<open>p_chosen\<close>).  The steps are guarded by what the protocol checks
  and by what its messages say.  Shown: logs that share an entry agree up to it, the leader of a later term has
  every entry that was committed, and committed entries are the same on every node.
\<close>

record proto =
  p_term :: "NodeId \<Rightarrow> Term"
  p_log :: "NodeId \<Rightarrow> LogEntry list"
  p_commit :: "NodeId \<Rightarrow> LogIndex"
  p_hist :: "Term \<Rightarrow> LogEntry list option"
  p_lead :: "Term \<Rightarrow> NodeId"
  p_cand :: "Term \<Rightarrow> NodeId \<Rightarrow> LogEntry list"
  p_votes :: "(NodeId \<times> Term \<times> NodeId) set"
  p_acks :: "(NodeId \<times> Term \<times> LogIndex) set"
  p_chosen :: "(Term \<times> LogIndex) set"

definition last_term :: "LogEntry list \<Rightarrow> Term" where
  "last_term L = (if L = [] then 0 else le_term (last L))"

definition up_to_date :: "LogEntry list \<Rightarrow> LogEntry list \<Rightarrow> bool" where
  "up_to_date L C \<longleftrightarrow> last_term L < last_term C \<or> last_term L = last_term C \<and> length L \<le> length C"

text \<open>\<open>L\<close> has the first \<open>k\<close> entries of \<open>H\<close>.\<close>

definition has_prefix :: "LogEntry list \<Rightarrow> LogIndex \<Rightarrow> LogEntry list \<Rightarrow> bool" where
  "has_prefix L k H \<longleftrightarrow> k \<le> length L \<and> k \<le> length H \<and> take k L = take k H"

text \<open>Taking over a leader's entries up to \<open>m\<close>, from \<open>prev\<close> on: a log that has them stays.\<close>

definition take_over :: "LogIndex \<Rightarrow> LogIndex \<Rightarrow> LogEntry list \<Rightarrow> LogEntry list \<Rightarrow> LogEntry list" where
  "take_over prev m H L =
     (if m \<le> length L \<and> (\<forall>k. prev \<le> k \<longrightarrow> k < m \<longrightarrow> le_term (L ! k) = le_term (H ! k)) then L else take m H)"

abbreviation leads :: "proto \<Rightarrow> NodeId \<Rightarrow> bool" where
  "leads s c \<equiv> p_hist s (p_term s c) = Some (p_log s c) \<and> p_lead s (p_term s c) = c"

text \<open>The steps of node \<open>v\<close>.\<close>

inductive proto_step :: "NodeId set \<Rightarrow> NodeId \<Rightarrow> proto \<Rightarrow> proto \<Rightarrow> bool" for M v where
  bump: "v \<in> M \<Longrightarrow> p_term s v \<le> t \<Longrightarrow> proto_step M v s (s\<lparr>p_term := (p_term s)(v := t)\<rparr>)"
| campaign: "v \<in> M \<Longrightarrow> t = p_term s v + 1 \<Longrightarrow> proto_step M v s (s\<lparr>p_term := (p_term s)(v := t),
    p_votes := insert (v, t, v) (p_votes s), p_cand := (p_cand s)(t := (p_cand s t)(v := p_log s v))\<rparr>)"
| vote: "v \<in> M \<Longrightarrow> t = p_term s v \<Longrightarrow> p_hist s t = None \<Longrightarrow> (c, t, c) \<in> p_votes s \<Longrightarrow> \<forall>d. (v, t, d) \<in> p_votes s \<longrightarrow> d = c \<Longrightarrow>
    up_to_date (p_log s v) (p_cand s t c) \<Longrightarrow>
    proto_step M v s (s\<lparr>p_votes := insert (v, t, c) (p_votes s)\<rparr>)"
| win: "v \<in> M \<Longrightarrow> t = p_term s v \<Longrightarrow> p_hist s t = None \<Longrightarrow> (v, t, v) \<in> p_votes s \<Longrightarrow>
    majority_of M Q \<Longrightarrow> \<forall>w \<in> Q. (w, t, v) \<in> p_votes s \<Longrightarrow>
    proto_step M v s (s\<lparr>p_hist := (p_hist s)(t := Some (p_log s v)), p_lead := (p_lead s)(t := v)\<rparr>)"
| propose: "v \<in> M \<Longrightarrow> leads s v \<Longrightarrow> t = p_term s v \<Longrightarrow> le_term e = t \<Longrightarrow>
    proto_step M v s (s\<lparr>p_log := (p_log s)(v := p_log s v @ [e]), p_hist := (p_hist s)(t := Some (p_log s v @ [e])),
      p_acks := insert (v, t, length (p_log s v) + 1) (p_acks s)\<rparr>)"
| accept: "v \<in> M \<Longrightarrow> p_term s v = t \<Longrightarrow> p_hist s t = Some H \<Longrightarrow> v \<noteq> p_lead s t \<Longrightarrow>
    prev \<le> m \<Longrightarrow> m \<le> length H \<Longrightarrow> prev \<le> length (p_log s v) \<Longrightarrow>
    prev = 0 \<or> le_term (p_log s v ! (prev - 1)) = le_term (H ! (prev - 1)) \<Longrightarrow>
    proto_step M v s (s\<lparr>p_log := (p_log s)(v := take_over prev m H (p_log s v)), p_acks := insert (v, t, m) (p_acks s)\<rparr>)"
| commit: "v \<in> M \<Longrightarrow> leads s v \<Longrightarrow> t = p_term s v \<Longrightarrow> 0 < k \<Longrightarrow> k \<le> length (p_log s v) \<Longrightarrow>
    le_term (p_log s v ! (k - 1)) = t \<Longrightarrow> majority_of M Q \<Longrightarrow> \<forall>w \<in> Q. \<exists>k'. k \<le> k' \<and> (w, t, k') \<in> p_acks s \<Longrightarrow>
    proto_step M v s (s\<lparr>p_commit := (p_commit s)(v := k), p_chosen := insert (t, k) (p_chosen s)\<rparr>)"
| learn: "v \<in> M \<Longrightarrow> t = p_term s v \<Longrightarrow> p_hist s t = Some H \<Longrightarrow> has_prefix (p_log s v) k H \<Longrightarrow>
    (t1, k1) \<in> p_chosen s \<Longrightarrow> k \<le> k1 \<Longrightarrow> t1 \<le> t \<Longrightarrow>
    proto_step M v s (s\<lparr>p_commit := (p_commit s)(v := k)\<rparr>)"
| install: "v \<in> M \<Longrightarrow> (t, k) \<in> p_chosen s \<Longrightarrow> 0 < i \<Longrightarrow> i \<le> k \<Longrightarrow> t \<le> p_term s v \<Longrightarrow> p_hist s t = Some H \<Longrightarrow>
    proto_step M v s (s\<lparr>p_log := (p_log s)(v := (if i \<le> length (p_log s v) \<and> le_term (p_log s v ! (i - 1)) = le_term (H ! (i - 1))
        then p_log s v else take i H)),
      p_commit := (p_commit s)(v := max (p_commit s v) i)\<rparr>)"
| forget: "v \<in> M \<Longrightarrow> k \<le> p_commit s v \<Longrightarrow> proto_step M v s (s\<lparr>p_commit := (p_commit s)(v := k)\<rparr>)"

section \<open>Logs\<close>

lemma has_prefix_trans:
  "has_prefix L k H \<Longrightarrow> has_prefix H k G \<Longrightarrow> has_prefix L k G"
  by (auto simp: has_prefix_def)

lemma has_prefix_le: "has_prefix L k H \<Longrightarrow> j \<le> k \<Longrightarrow> has_prefix L j H"
  unfolding has_prefix_def by (metis le_trans min.absorb1 take_take)

lemma has_prefix_sym: "has_prefix L k H \<longleftrightarrow> has_prefix H k L"
  by (auto simp: has_prefix_def)

lemma has_prefix_nth: "has_prefix L k H \<Longrightarrow> i < k \<Longrightarrow> L ! i = H ! i"
  by (metis has_prefix_def nth_take)

lemma has_prefix_take: "has_prefix (take m H) k G \<Longrightarrow> has_prefix H k G"
  by (auto simp: has_prefix_def min_def split: if_splits)

lemma has_prefix_takeI: "k \<le> m \<Longrightarrow> has_prefix H k G \<Longrightarrow> has_prefix (take m H) k G"
  by (auto simp: has_prefix_def min_def)

lemma has_prefix_append: "has_prefix L k G \<Longrightarrow> has_prefix (L @ M) k G"
  by (auto simp: has_prefix_def)

lemma has_prefix_self: "k \<le> length L \<Longrightarrow> has_prefix L k L"
  by (simp add: has_prefix_def)

text \<open>An entry stands in the log of its term's leader, after the same entries.\<close>

definition good :: "(Term \<Rightarrow> LogEntry list option) \<Rightarrow> LogEntry list \<Rightarrow> bool" where
  "good h L \<longleftrightarrow> (\<forall>k < length L. \<exists>H. h (le_term (L ! k)) = Some H \<and> has_prefix L (k + 1) H)"

lemma goodD: "good h L \<Longrightarrow> k < length L \<Longrightarrow> h (le_term (L ! k)) = Some H \<Longrightarrow> has_prefix L (k + 1) H"
  by (auto simp: good_def)

lemma good_take: "good h L \<Longrightarrow> good h (take m L)"
  unfolding good_def by (auto intro!: has_prefix_takeI) (metis Suc_leI has_prefix_takeI)

lemma good_meet:
  assumes "good h L" and "good h G" and "k < length L" and "k < length G" and "le_term (L ! k) = le_term (G ! k)"
  shows "has_prefix L (k + 1) G"
proof -
  obtain H where "h (le_term (L ! k)) = Some H" using assms(1,3) by (auto simp: good_def)
  with goodD [OF assms(1,3)] goodD [OF assms(2,4)] assms(5) show ?thesis
    using has_prefix_trans has_prefix_sym by metis
qed

lemma good_sorted:
  assumes "good h L" and "\<forall>t H. h t = Some H \<longrightarrow> sorted (map le_term H)"
  shows "sorted (map le_term L)"
proof (cases "L = []")
  case False
  then have k: "length L - 1 < length L" by simp
  obtain H where H: "h (le_term (L ! (length L - 1))) = Some H" "has_prefix L (length L - 1 + 1) H"
    using assms(1) k by (auto simp: good_def)
  then have "L = take (length L) H" using False by (simp add: has_prefix_def)
  moreover have "sorted (take (length L) (map le_term H))" using assms(2) H(1) sorted_wrt_take by blast
  ultimately show ?thesis by (metis take_map)
qed simp

lemma sorted_terms_nth: "sorted (map le_term L) \<Longrightarrow> i \<le> j \<Longrightarrow> j < length L \<Longrightarrow> le_term (L ! i) \<le> le_term (L ! j)"
  using sorted_nth_mono [of "map le_term L" i j] by simp

section \<open>The invariant\<close>

text \<open>The log that a term's leader was elected with.\<close>

definition base :: "proto \<Rightarrow> Term \<Rightarrow> LogEntry list" where
  "base s t = p_cand s t (p_lead s t)"

definition history :: "proto \<Rightarrow> Term \<Rightarrow> LogEntry list" where
  "history s t = (case p_hist s t of None \<Rightarrow> [] | Some H \<Rightarrow> H)"

text \<open>Some leader between the terms \<open>t\<close> and \<open>u\<close> was elected without the first \<open>j\<close> entries of term \<open>t\<close>'s leader.\<close>

definition overtaken :: "proto \<Rightarrow> Term \<Rightarrow> LogIndex \<Rightarrow> Term \<Rightarrow> bool" where
  "overtaken s t j u \<longleftrightarrow> (\<exists>t'. t < t' \<and> t' < u \<and> p_hist s t' \<noteq> None \<and> \<not> has_prefix (base s t') j (history s t))"

text \<open>The \<open>j\<close>-th entry of term \<open>t\<close>'s leader is one of its own.\<close>

definition own_entry :: "proto \<Rightarrow> Term \<Rightarrow> LogIndex \<Rightarrow> bool" where
  "own_entry s t j \<longleftrightarrow> 0 < j \<and> j \<le> length (history s t) \<and> le_term (history s t ! (j - 1)) = t"

lemma overtakenI:
  "t < t' \<Longrightarrow> t' < u \<Longrightarrow> p_hist s t' = Some H \<Longrightarrow> \<not> has_prefix (base s t') j (history s t) \<Longrightarrow> overtaken s t j u"
  by (auto simp: overtaken_def)

definition elected :: "NodeId set \<Rightarrow> proto \<Rightarrow> Term \<Rightarrow> NodeId \<Rightarrow> bool" where
  "elected M s t c \<longleftrightarrow> (\<exists>Q. majority_of M Q \<and> (\<forall>v \<in> Q. (v, t, c) \<in> p_votes s))"

definition votes_inv :: "NodeId set \<Rightarrow> proto \<Rightarrow> bool" where
  "votes_inv M s \<longleftrightarrow>
     (\<forall>v t c. (v, t, c) \<in> p_votes s \<longrightarrow> v \<in> M \<and> c \<in> M \<and> t \<le> p_term s v \<and> (c, t, c) \<in> p_votes s) \<and>
     (\<forall>v t c d. (v, t, c) \<in> p_votes s \<longrightarrow> (v, t, d) \<in> p_votes s \<longrightarrow> c = d)"

definition hist_inv :: "NodeId set \<Rightarrow> proto \<Rightarrow> bool" where
  "hist_inv M s \<longleftrightarrow> (\<forall>t H. p_hist s t = Some H \<longrightarrow>
     elected M s t (p_lead s t) \<and> (p_lead s t, t, p_lead s t) \<in> p_votes s \<and>
     has_prefix H (length (base s t)) (base s t) \<and> (\<forall>k < length H. length (base s t) \<le> k \<longrightarrow> le_term (H ! k) = t) \<and>
     sorted (map le_term H) \<and> (\<forall>e \<in> set H. le_term e \<le> t) \<and>
     (p_term s (p_lead s t) = t \<longrightarrow> p_log s (p_lead s t) = H))"

definition logs_inv :: "NodeId set \<Rightarrow> proto \<Rightarrow> bool" where
  "logs_inv M s \<longleftrightarrow> (\<forall>v \<in> M. good (p_hist s) (p_log s v) \<and> (\<forall>e \<in> set (p_log s v). le_term e \<le> p_term s v)) \<and>
     (\<forall>t H. p_hist s t = Some H \<longrightarrow> good (p_hist s) H) \<and>
     (\<forall>t c. (c, t, c) \<in> p_votes s \<longrightarrow> good (p_hist s) (p_cand s t c) \<and> (\<forall>e \<in> set (p_cand s t c). le_term e < t))"

definition ack_ok :: "NodeId set \<Rightarrow> proto \<Rightarrow> NodeId \<Rightarrow> Term \<Rightarrow> LogIndex \<Rightarrow> bool" where
  "ack_ok M s v t k \<longleftrightarrow> v \<in> M \<and> t \<le> p_term s v \<and> p_hist s t \<noteq> None \<and> k \<le> length (history s t) \<and>
     (\<forall>j \<le> k. own_entry s t j \<longrightarrow> has_prefix (p_log s v) j (history s t) \<or> overtaken s t j (p_term s v + 1))"

definition promise_ok :: "proto \<Rightarrow> Term \<Rightarrow> NodeId \<Rightarrow> Term \<Rightarrow> LogIndex \<Rightarrow> bool" where
  "promise_ok s u c t k \<longleftrightarrow> (t < u \<longrightarrow> (\<forall>j \<le> k. own_entry s t j \<longrightarrow>
     has_prefix (p_cand s u c) j (history s t) \<or> overtaken s t j u))"

definition chosen_ok :: "NodeId set \<Rightarrow> proto \<Rightarrow> Term \<Rightarrow> LogIndex \<Rightarrow> bool" where
  "chosen_ok M s t k \<longleftrightarrow> p_hist s t \<noteq> None \<and> own_entry s t k \<and>
     (\<exists>Q. majority_of M Q \<and> (\<forall>v \<in> Q. \<exists>k'. k \<le> k' \<and> (v, t, k') \<in> p_acks s))"

definition commit_ok :: "proto \<Rightarrow> NodeId \<Rightarrow> bool" where
  "commit_ok s v \<longleftrightarrow> p_commit s v = 0 \<or> (\<exists>t k. (t, k) \<in> p_chosen s \<and> p_commit s v \<le> k \<and> t \<le> p_term s v \<and>
     has_prefix (p_log s v) (p_commit s v) (history s t))"

text \<open>A candidate of a term without a leader still has the log it stood with, or cannot win.\<close>

definition cand_ok :: "proto \<Rightarrow> NodeId \<Rightarrow> bool" where
  "cand_ok s c \<longleftrightarrow> ((c, p_term s c, c) \<in> p_votes s \<longrightarrow> p_hist s (p_term s c) = None \<longrightarrow>
     p_log s c = p_cand s (p_term s c) c \<or>
     (\<exists>t k. (t, k) \<in> p_chosen s \<and> t < p_term s c \<and> \<not> has_prefix (p_cand s (p_term s c) c) k (history s t)))"

definition proto_inv :: "NodeId set \<Rightarrow> proto \<Rightarrow> bool" where
  "proto_inv M s \<longleftrightarrow> votes_inv M s \<and> hist_inv M s \<and> logs_inv M s \<and>
     (\<forall>v t k. (v, t, k) \<in> p_acks s \<longrightarrow> ack_ok M s v t k) \<and>
     (\<forall>v u c t k. (v, u, c) \<in> p_votes s \<longrightarrow> (v, t, k) \<in> p_acks s \<longrightarrow> promise_ok s u c t k) \<and>
     (\<forall>t k. (t, k) \<in> p_chosen s \<longrightarrow> chosen_ok M s t k) \<and>
     (\<forall>v \<in> M. commit_ok s v \<and> cand_ok s v)"

lemma proto_invD:
  assumes "proto_inv M s"
  shows "votes_inv M s" "hist_inv M s" "logs_inv M s"
    "(v, t, k) \<in> p_acks s \<Longrightarrow> ack_ok M s v t k"
    "(v, u, c) \<in> p_votes s \<Longrightarrow> (v, t, k) \<in> p_acks s \<Longrightarrow> promise_ok s u c t k"
    "(t, k) \<in> p_chosen s \<Longrightarrow> chosen_ok M s t k" "v \<in> M \<Longrightarrow> commit_ok s v" "v \<in> M \<Longrightarrow> cand_ok s v"
  using assms by (auto simp: proto_inv_def)

lemma history_Some [simp]: "p_hist s t = Some H \<Longrightarrow> history s t = H"
  by (simp add: history_def)

lemma votes_invD:
  assumes "votes_inv M s" and "(v, t, c) \<in> p_votes s"
  shows "v \<in> M" "c \<in> M" "t \<le> p_term s v" "(c, t, c) \<in> p_votes s" "(v, t, d) \<in> p_votes s \<Longrightarrow> c = d"
  using assms by (auto simp: votes_inv_def)

lemma hist_invD:
  assumes "hist_inv M s" and "p_hist s t = Some H"
  shows "elected M s t (p_lead s t)" "(p_lead s t, t, p_lead s t) \<in> p_votes s"
    "has_prefix H (length (base s t)) (base s t)" "k < length H \<Longrightarrow> length (base s t) \<le> k \<Longrightarrow> le_term (H ! k) = t"
    "sorted (map le_term H)" "e \<in> set H \<Longrightarrow> le_term e \<le> t" "p_term s (p_lead s t) = t \<Longrightarrow> p_log s (p_lead s t) = H"
  using assms by (auto simp: hist_inv_def)

lemma logs_invD:
  assumes "logs_inv M s"
  shows "v \<in> M \<Longrightarrow> good (p_hist s) (p_log s v)" "v \<in> M \<Longrightarrow> e \<in> set (p_log s v) \<Longrightarrow> le_term e \<le> p_term s v"
    "p_hist s t = Some H \<Longrightarrow> good (p_hist s) H"
    "(c, t, c) \<in> p_votes s \<Longrightarrow> good (p_hist s) (p_cand s t c)"
    "(c, t, c) \<in> p_votes s \<Longrightarrow> e \<in> set (p_cand s t c) \<Longrightarrow> le_term e < t"
  using assms by (auto simp: logs_inv_def)

text \<open>What is committed in a term stands in the log of every later candidate that a majority votes for.\<close>

lemma elected_has_chosen:
  assumes "proto_inv M s" and "(t, k) \<in> p_chosen s" and "elected M s u c" and "t < u"
  shows "has_prefix (p_cand s u c) k (history s t)"
  using assms(3,4)
proof (induction u arbitrary: c rule: less_induct)
  case (less u)
  note inv = proto_invD [OF assms(1)]
  obtain A where A: "majority_of M A" "\<forall>v \<in> A. (v, u, c) \<in> p_votes s" using less.prems(1) by (auto simp: elected_def)
  obtain B where B: "majority_of M B" "\<forall>v \<in> B. \<exists>k'. k \<le> k' \<and> (v, t, k') \<in> p_acks s" and own: "own_entry s t k"
    using inv(6) [OF assms(2)] by (auto simp: chosen_ok_def)
  obtain v k' where v: "(v, u, c) \<in> p_votes s" "k \<le> k'" "(v, t, k') \<in> p_acks s"
    using maj.intersect [OF A(1) B(1)] A(2) B(2) by blast
  from inv(5) [OF v(1,3)] own v(2) less.prems(2)
  consider "has_prefix (p_cand s u c) k (history s t)" | "overtaken s t k u" by (auto simp: promise_ok_def)
  then show ?case
  proof cases
    case 2
    then obtain t' where t': "t < t'" "t' < u" "p_hist s t' \<noteq> None" "\<not> has_prefix (base s t') k (history s t)"
      by (auto simp: overtaken_def)
    then obtain H where "p_hist s t' = Some H" by auto
    from less.IH [OF t'(2) hist_invD(1) [OF inv(2) this] t'(1)] t'(4) show ?thesis by (simp add: base_def)
  qed
qed

lemma base_prefix: "hist_inv M s \<Longrightarrow> p_hist s t = Some H \<Longrightarrow> has_prefix (base s t) k G \<Longrightarrow> has_prefix H k G"
  using hist_invD(3) has_prefix_trans has_prefix_le has_prefix_def by metis

lemma leader_has_chosen:
  assumes "proto_inv M s" and "(t, k) \<in> p_chosen s" and "p_hist s u = Some H" and "t \<le> u"
  shows "has_prefix H k (history s t)"
proof (cases "t = u")
  case True
  then show ?thesis using proto_invD(6) [OF assms(1,2)] assms(3) by (simp add: chosen_ok_def own_entry_def has_prefix_def)
next
  case False
  note inv = proto_invD [OF assms(1)]
  have "has_prefix (base s u) k (history s t)"
    unfolding base_def by (rule elected_has_chosen [OF assms(1,2) hist_invD(1) [OF inv(2) assms(3)]]) (use False assms(4) in simp)
  then show ?thesis by (rule base_prefix [OF inv(2) assms(3)])
qed

text \<open>Committed entries are the same on every node, and logs that share an entry share what is before it.\<close>

lemma committed_agree:
  assumes "proto_inv M s" and "a \<in> M" and "b \<in> M" and "k \<le> p_commit s a" and "k \<le> p_commit s b"
  shows "has_prefix (p_log s a) k (p_log s b)"
proof (cases "k = 0")
  case False
  note inv = proto_invD [OF assms(1)]
  obtain t i where a: "(t, i) \<in> p_chosen s" "k \<le> i" "has_prefix (p_log s a) k (history s t)"
    using inv(7) [OF assms(2)] False assms(4) has_prefix_le by (fastforce simp: commit_ok_def)
  obtain u j where b: "(u, j) \<in> p_chosen s" "k \<le> j" "has_prefix (p_log s b) k (history s u)"
    using inv(7) [OF assms(3)] False assms(5) has_prefix_le by (fastforce simp: commit_ok_def)
  have meet: "has_prefix (history s t') k (history s u')" if c: "(u', j') \<in> p_chosen s" "(t', i') \<in> p_chosen s" "k \<le> j'" "u' \<le> t'" for t' u' i' j'
  proof -
    obtain H where "p_hist s t' = Some H" using inv(6) [OF c(2)] by (auto simp: chosen_ok_def)
    from leader_has_chosen [OF assms(1) c(1) this c(4)] this c(3) show ?thesis by (simp add: has_prefix_le)
  qed
  have "has_prefix (history s t) k (history s u)"
    using meet [OF a(1) b(1) a(2)] meet [OF b(1) a(1) b(2)] has_prefix_sym by (metis nat_le_linear)
  with a(3) b(3) show ?thesis using has_prefix_trans has_prefix_sym by metis
qed (simp add: has_prefix_def)

lemma logs_agree:
  assumes "proto_inv M s" and "a \<in> M" and "b \<in> M" and "k < length (p_log s a)" and "k < length (p_log s b)"
    and "le_term (p_log s a ! k) = le_term (p_log s b ! k)"
  shows "has_prefix (p_log s a) (k + 1) (p_log s b)"
  using good_meet [OF _ _ assms(4-6)] logs_invD(1) [OF proto_invD(3) [OF assms(1)]] assms(2,3) by blast

end
