(* ===== verification/Raft_Protocol_Inv.thy ===== *)
theory Raft_Protocol_Inv
  imports Raft_Protocol
begin

text \<open>
  Every step of the protocol keeps its invariant \<open>proto_inv\<close>.  Steps only add to the history (\<open>grows\<close>), so that what
  acknowledgements, votes and commits promise stays true; each step is then checked for what it adds.  The last
  section has the runs of the protocol and what one node's steps leave to the others.
\<close>

section \<open>Growing states\<close>

text \<open>History is only added to: leaders append to their logs, votes and acknowledgements stay.\<close>

definition grows :: "proto \<Rightarrow> proto \<Rightarrow> bool" where
  "grows s s' \<longleftrightarrow> (\<forall>v. p_term s v \<le> p_term s' v) \<and>
     (\<forall>t H. p_hist s t = Some H \<longrightarrow> (\<exists>X. p_hist s' t = Some (H @ X)) \<and> p_lead s' t = p_lead s t) \<and>
     p_votes s \<subseteq> p_votes s' \<and> p_acks s \<subseteq> p_acks s' \<and> p_chosen s \<subseteq> p_chosen s' \<and>
     (\<forall>t c. (c, t, c) \<in> p_votes s \<longrightarrow> p_cand s' t c = p_cand s t c)"

lemma growsD:
  assumes "grows s s'"
  shows "p_term s v \<le> p_term s' v" "p_hist s t = Some H \<Longrightarrow> \<exists>X. p_hist s' t = Some (H @ X)"
    "p_hist s t = Some H \<Longrightarrow> p_lead s' t = p_lead s t" "x \<in> p_votes s \<Longrightarrow> x \<in> p_votes s'" "y \<in> p_acks s \<Longrightarrow> y \<in> p_acks s'"
    "z \<in> p_chosen s \<Longrightarrow> z \<in> p_chosen s'" "(c, t, c) \<in> p_votes s \<Longrightarrow> p_cand s' t c = p_cand s t c"
  using assms by (auto simp: grows_def)

lemma has_prefix_longer: "j \<le> length H \<Longrightarrow> has_prefix L j (H @ X) \<longleftrightarrow> has_prefix L j H"
  by (auto simp: has_prefix_def)

lemma good_longer:
  assumes "good h L" and "\<And>t H. h t = Some H \<Longrightarrow> \<exists>X. h' t = Some (H @ X)"
  shows "good h' L"
  unfolding good_def
proof (intro allI impI)
  fix k assume k: "k < length L"
  then obtain H where H: "h (le_term (L ! k)) = Some H" "has_prefix L (k + 1) H" using assms(1) by (auto simp: good_def)
  then obtain X where "h' (le_term (L ! k)) = Some (H @ X)" using assms(2) by blast
  then show "\<exists>H. h' (le_term (L ! k)) = Some H \<and> has_prefix L (k + 1) H"
    using H(2) by (auto simp: has_prefix_def)
qed

lemma grows_None: "grows s s' \<Longrightarrow> p_hist s' t = None \<Longrightarrow> p_hist s t = None"
  using growsD(2) [of s s' t] by (cases "p_hist s t") auto

lemma grows_good: "grows s s' \<Longrightarrow> good (p_hist s) L \<Longrightarrow> good (p_hist s') L"
  by (erule good_longer) (rule growsD(2))

lemma grows_history:
  assumes "grows s s'" and "p_hist s t \<noteq> None"
  obtains X where "history s' t = history s t @ X" and "p_hist s' t \<noteq> None"
  using growsD(2) [OF assms(1)] assms(2) by fastforce

lemma grows_prefix:
  assumes "grows s s'" and "p_hist s t \<noteq> None" and "j \<le> length (history s t)"
  shows "has_prefix L j (history s' t) \<longleftrightarrow> has_prefix L j (history s t)"
  using grows_history [OF assms(1,2)] has_prefix_longer [OF assms(3)] by metis

lemma grows_own:
  assumes "grows s s'" and "p_hist s t \<noteq> None" and "j \<le> length (history s t)"
  shows "own_entry s' t j \<longleftrightarrow> own_entry s t j"
proof -
  obtain X where "history s' t = history s t @ X" using grows_history [OF assms(1,2)] .
  then show ?thesis using assms(3) by (auto simp: own_entry_def nth_append)
qed

lemma grows_base: "grows s s' \<Longrightarrow> hist_inv M s \<Longrightarrow> p_hist s t = Some H \<Longrightarrow> base s' t = base s t"
  unfolding base_def using growsD(3,7) hist_invD(2) by metis

lemma grows_overtaken:
  assumes "grows s s'" and "hist_inv M s" and "overtaken s t j u" and "u \<le> u'" and "p_hist s t \<noteq> None" and "j \<le> length (history s t)"
  shows "overtaken s' t j u'"
proof -
  obtain t' H where t': "t < t'" "t' < u" "p_hist s t' = Some H" "\<not> has_prefix (base s t') j (history s t)"
    using assms(3) by (auto simp: overtaken_def)
  have "p_hist s' t' \<noteq> None" using growsD(2) [OF assms(1) t'(3)] by auto
  moreover have "\<not> has_prefix (base s' t') j (history s' t)"
    using t'(4) grows_base [OF assms(1,2) t'(3)] grows_prefix [OF assms(1,5,6)] by simp
  ultimately show ?thesis using t'(1,2) assms(4) unfolding overtaken_def by fastforce
qed

lemma grows_elected: "grows s s' \<Longrightarrow> elected M s t c \<Longrightarrow> elected M s' t c"
  unfolding elected_def using growsD(4) by blast

lemma grows_ack:
  assumes "grows s s'" and "hist_inv M s" and "ack_ok M s v t k"
    and "\<And>j. j \<le> k \<Longrightarrow> own_entry s t j \<Longrightarrow> has_prefix (p_log s v) j (history s t) \<Longrightarrow>
      has_prefix (p_log s' v) j (history s t) \<or> overtaken s' t j (p_term s' v + 1)"
  shows "ack_ok M s' v t k"
proof -
  have a: "v \<in> M" "t \<le> p_term s v" "p_hist s t \<noteq> None" "k \<le> length (history s t)" using assms(3) by (simp_all add: ack_ok_def)
  obtain X where X: "history s' t = history s t @ X" "p_hist s' t \<noteq> None" using grows_history [OF assms(1) a(3)] .
  have "has_prefix (p_log s' v) j (history s' t) \<or> overtaken s' t j (p_term s' v + 1)" if j: "j \<le> k" "own_entry s' t j" for j
  proof -
    have l: "j \<le> length (history s t)" using j(1) a(4) by simp
    have own: "own_entry s t j" using j(2) grows_own [OF assms(1) a(3) l] by simp
    with j(1) assms(3) consider "has_prefix (p_log s v) j (history s t)" | "overtaken s t j (p_term s v + 1)"
      by (auto simp: ack_ok_def)
    then show ?thesis
    proof cases
      case 1
      from assms(4) [OF j(1) own this] show ?thesis using grows_prefix [OF assms(1) a(3) l] by simp
    next
      case 2
      then show ?thesis using grows_overtaken [OF assms(1,2) 2 _ a(3) l] growsD(1) [OF assms(1), of v] by simp
    qed
  qed
  then show ?thesis using a X growsD(1) [OF assms(1), of v] by (simp add: ack_ok_def)
qed

lemma grows_promise:
  assumes "grows s s'" and "hist_inv M s" and "promise_ok s u c t k" and "(c, u, c) \<in> p_votes s" and "p_hist s t \<noteq> None"
    and "k \<le> length (history s t)"
  shows "promise_ok s' u c t k"
  unfolding promise_ok_def
proof (intro impI allI)
  fix j assume t: "t < u" and j: "j \<le> k" "own_entry s' t j"
  have l: "j \<le> length (history s t)" using j(1) assms(6) by simp
  have "own_entry s t j" using j(2) grows_own [OF assms(1,5) l] by simp
  with assms(3) t j(1) consider "has_prefix (p_cand s u c) j (history s t)" | "overtaken s t j u" by (auto simp: promise_ok_def)
  then show "has_prefix (p_cand s' u c) j (history s' t) \<or> overtaken s' t j u"
  proof cases
    case 1
    then show ?thesis using growsD(7) [OF assms(1,4)] grows_prefix [OF assms(1,5) l] by simp
  next
    case 2
    then show ?thesis using grows_overtaken [OF assms(1,2) 2 _ assms(5) l] by simp
  qed
qed

lemma grows_chosen:
  assumes "grows s s'" and "chosen_ok M s t k"
  shows "chosen_ok M s' t k"
proof -
  have c: "p_hist s t \<noteq> None" "own_entry s t k" using assms(2) by (simp_all add: chosen_ok_def)
  then have "own_entry s' t k" using grows_own [OF assms(1) c(1), of k] own_entry_def [of s t k] by blast
  moreover have "p_hist s' t \<noteq> None" using grows_history [OF assms(1) c(1)] .
  ultimately show ?thesis using assms growsD(5) [OF assms(1)] unfolding chosen_ok_def by blast
qed

lemma grows_commit:
  assumes "grows s s'" and "proto_inv M s" and "commit_ok s v" and "p_commit s' v = p_commit s v"
    and "\<And>t k. (t, k) \<in> p_chosen s \<Longrightarrow> p_commit s v \<le> k \<Longrightarrow> t \<le> p_term s v \<Longrightarrow>
      has_prefix (p_log s v) (p_commit s v) (history s t) \<Longrightarrow> has_prefix (p_log s' v) (p_commit s v) (history s t)"
  shows "commit_ok s' v"
proof (cases "p_commit s v = 0")
  case False
  then obtain t k where c: "(t, k) \<in> p_chosen s" "p_commit s v \<le> k" "t \<le> p_term s v"
    "has_prefix (p_log s v) (p_commit s v) (history s t)" using assms(3) by (auto simp: commit_ok_def)
  have h: "p_hist s t \<noteq> None" using proto_invD(6) [OF assms(2) c(1)] by (simp add: chosen_ok_def)
  have "p_commit s v \<le> length (history s t)" using c(4) by (simp add: has_prefix_def)
  then have "has_prefix (p_log s' v) (p_commit s v) (history s' t)"
    using assms(5) [OF c] grows_prefix [OF assms(1) h] by simp
  moreover have "t \<le> p_term s' v" using c(3) growsD(1) [OF assms(1), of v] by simp
  ultimately show ?thesis using growsD(6) [OF assms(1) c(1)] c(2) assms(4) by (auto simp: commit_ok_def)
qed (simp add: commit_ok_def assms(4))

lemma grows_cand:
  assumes "grows s s'" and "proto_inv M s" and "cand_ok s c" and "p_term s' c = p_term s c" and "p_log s' c = p_log s c"
    and "(c, p_term s c, c) \<in> p_votes s' \<Longrightarrow> (c, p_term s c, c) \<in> p_votes s"
  shows "cand_ok s' c"
  unfolding cand_ok_def assms(4)
proof (intro impI)
  assume v: "(c, p_term s c, c) \<in> p_votes s'" and n: "p_hist s' (p_term s c) = None"
  have v': "(c, p_term s c, c) \<in> p_votes s" by (rule assms(6) [OF v])
  have "p_hist s (p_term s c) = None" by (rule grows_None [OF assms(1) n])
  with v' assms(3) consider "p_log s c = p_cand s (p_term s c) c"
    | t k where "(t, k) \<in> p_chosen s" "t < p_term s c" "\<not> has_prefix (p_cand s (p_term s c) c) k (history s t)"
    by (auto simp: cand_ok_def)
  then show "p_log s' c = p_cand s' (p_term s c) c \<or> (\<exists>t k. (t, k) \<in> p_chosen s' \<and> t < p_term s c \<and>
      \<not> has_prefix (p_cand s' (p_term s c) c) k (history s' t))"
  proof cases
    case 1
    then show ?thesis using growsD(7) [OF assms(1) v'] assms(5) by simp
  next
    case (2 t k)
    have h: "p_hist s t \<noteq> None" "k \<le> length (history s t)" using proto_invD(6) [OF assms(2) 2(1)] by (auto simp: chosen_ok_def own_entry_def)
    then have "\<not> has_prefix (p_cand s' (p_term s c) c) k (history s' t)"
      using 2(3) growsD(7) [OF assms(1) v'] grows_prefix [OF assms(1)] by simp
    then show ?thesis using 2 growsD(6) [OF assms(1)] by blast
  qed
qed

section \<open>Every step keeps the invariant\<close>

text \<open>What is left to show of a step when history only grows.\<close>

lemma proto_inv_step:
  assumes "proto_inv M s" and "grows s s'" and "votes_inv M s'" and "hist_inv M s'" and "logs_inv M s'"
    and "\<And>v t k. (v, t, k) \<in> p_acks s' \<Longrightarrow> (v, t, k) \<notin> p_acks s \<Longrightarrow> ack_ok M s' v t k"
    and "\<And>v t k j. (v, t, k) \<in> p_acks s \<Longrightarrow> j \<le> k \<Longrightarrow> own_entry s t j \<Longrightarrow> has_prefix (p_log s v) j (history s t) \<Longrightarrow>
      has_prefix (p_log s' v) j (history s t) \<or> overtaken s' t j (p_term s' v + 1)"
    and "\<And>v u c t k. (v, u, c) \<in> p_votes s' \<Longrightarrow> (v, t, k) \<in> p_acks s' \<Longrightarrow>
      (v, u, c) \<notin> p_votes s \<or> (v, t, k) \<notin> p_acks s \<Longrightarrow> promise_ok s' u c t k"
    and "\<And>t k. (t, k) \<in> p_chosen s' \<Longrightarrow> (t, k) \<notin> p_chosen s \<Longrightarrow> chosen_ok M s' t k"
    and "\<And>v. v \<in> M \<Longrightarrow> commit_ok s' v" and "\<And>v. v \<in> M \<Longrightarrow> cand_ok s' v"
  shows "proto_inv M s'"
proof -
  note inv = proto_invD [OF assms(1)]
  have "ack_ok M s' v t k" if a: "(v, t, k) \<in> p_acks s'" for v t k
  proof (cases "(v, t, k) \<in> p_acks s")
    case True
    show ?thesis by (rule grows_ack [OF assms(2) inv(2) inv(4) [OF True]]) (rule assms(7) [OF True])
  qed (rule assms(6) [OF a])
  moreover have "promise_ok s' u c t k" if v: "(v, u, c) \<in> p_votes s'" and a: "(v, t, k) \<in> p_acks s'" for v u c t k
  proof (cases "(v, u, c) \<in> p_votes s \<and> (v, t, k) \<in> p_acks s")
    case True
    then have "p_hist s t \<noteq> None" "k \<le> length (history s t)" using inv(4) by (auto simp: ack_ok_def)
    then show ?thesis using grows_promise [OF assms(2) inv(2) inv(5)] True votes_invD(4) [OF inv(1)] by blast
  qed (use assms(8) [OF v a] in blast)
  moreover have "chosen_ok M s' t k" if c: "(t, k) \<in> p_chosen s'" for t k
    by (cases "(t, k) \<in> p_chosen s") (use grows_chosen [OF assms(2) inv(6)] assms(9) [OF c] in blast)+
  ultimately show ?thesis using assms(3-5,10,11) unfolding proto_inv_def by blast
qed

lemma grows_logs_inv:
  assumes "grows s s'" and "logs_inv M s"
    and "\<And>v. v \<in> M \<Longrightarrow> good (p_hist s') (p_log s' v) \<and> (\<forall>e \<in> set (p_log s' v). le_term e \<le> p_term s' v)"
    and "\<And>t H. p_hist s' t = Some H \<Longrightarrow> p_hist s t \<noteq> Some H \<Longrightarrow> good (p_hist s') H"
    and "\<And>t c. (c, t, c) \<in> p_votes s' \<Longrightarrow> (c, t, c) \<notin> p_votes s \<Longrightarrow>
      good (p_hist s') (p_cand s' t c) \<and> (\<forall>e \<in> set (p_cand s' t c). le_term e < t)"
  shows "logs_inv M s'"
  unfolding logs_inv_def
proof (intro conjI allI impI ballI)
  fix t H assume h: "p_hist s' t = Some H"
  show "good (p_hist s') H"
    by (cases "p_hist s t = Some H") (use grows_good [OF assms(1) logs_invD(3) [OF assms(2)]] assms(4) [OF h] in blast)+
next
  fix t c assume v: "(c, t, c) \<in> p_votes s'"
  have "good (p_hist s') (p_cand s' t c) \<and> (\<forall>e \<in> set (p_cand s' t c). le_term e < t)"
  proof (cases "(c, t, c) \<in> p_votes s")
    case True
    then show ?thesis
      using grows_good [OF assms(1) logs_invD(4) [OF assms(2) True]] logs_invD(5) [OF assms(2) True] growsD(7) [OF assms(1) True] by simp
  qed (use assms(5) [OF v] in blast)
  then show "good (p_hist s') (p_cand s' t c)" "\<And>e. e \<in> set (p_cand s' t c) \<Longrightarrow> le_term e < t" by blast+
qed (use assms(3) in blast)+

lemma same_log_ok:
  assumes "grows s s'" and "logs_inv M s" and "v \<in> M" and "p_log s' v = p_log s v"
  shows "good (p_hist s') (p_log s' v) \<and> (\<forall>e \<in> set (p_log s' v). le_term e \<le> p_term s' v)"
  using grows_good [OF assms(1) logs_invD(1) [OF assms(2,3)]] logs_invD(2) [OF assms(2,3)] growsD(1) [OF assms(1), of v] assms(4)
  by fastforce

text \<open>The terms that had a leader before the step.\<close>

lemma grows_hist_inv:
  assumes "grows s s'" and "hist_inv M s"
    and "\<And>t H. p_hist s' t = Some H \<Longrightarrow> p_hist s t \<noteq> Some H \<Longrightarrow>
      elected M s' t (p_lead s' t) \<and> (p_lead s' t, t, p_lead s' t) \<in> p_votes s' \<and>
      has_prefix H (length (base s' t)) (base s' t) \<and> (\<forall>k < length H. length (base s' t) \<le> k \<longrightarrow> le_term (H ! k) = t) \<and>
      sorted (map le_term H) \<and> (\<forall>e \<in> set H. le_term e \<le> t)"
    and "\<And>t H. p_hist s' t = Some H \<Longrightarrow> p_term s' (p_lead s' t) = t \<Longrightarrow> p_log s' (p_lead s' t) = H"
  shows "hist_inv M s'"
  unfolding hist_inv_def
proof (intro allI impI)
  fix t H assume h: "p_hist s' t = Some H"
  have "elected M s' t (p_lead s' t) \<and> (p_lead s' t, t, p_lead s' t) \<in> p_votes s' \<and>
      has_prefix H (length (base s' t)) (base s' t) \<and> (\<forall>k < length H. length (base s' t) \<le> k \<longrightarrow> le_term (H ! k) = t) \<and>
      sorted (map le_term H) \<and> (\<forall>e \<in> set H. le_term e \<le> t)"
  proof (cases "p_hist s t = Some H")
    case True
    note old = hist_invD [OF assms(2) True]
    have b: "base s' t = base s t" and l: "p_lead s' t = p_lead s t"
      using grows_base [OF assms(1,2) True] growsD(3) [OF assms(1) True] by simp_all
    show ?thesis unfolding b l
      by (intro conjI allI ballI impI grows_elected [OF assms(1) old(1)] growsD(4) [OF assms(1) old(2)] old(3,5)) (use old(4,6) in blast)+
  qed (rule assms(3) [OF h])
  then show "elected M s' t (p_lead s' t) \<and> (p_lead s' t, t, p_lead s' t) \<in> p_votes s' \<and>
      has_prefix H (length (base s' t)) (base s' t) \<and> (\<forall>k < length H. length (base s' t) \<le> k \<longrightarrow> le_term (H ! k) = t) \<and>
      sorted (map le_term H) \<and> (\<forall>e \<in> set H. le_term e \<le> t) \<and>
      (p_term s' (p_lead s' t) = t \<longrightarrow> p_log s' (p_lead s' t) = H)"
    using assms(4) [OF h] by blast
qed

lemma commit_same:
  assumes "grows s s'" and "proto_inv M s" and "v \<in> M" and "p_commit s' v = p_commit s v" and "p_log s' v = p_log s v"
  shows "commit_ok s' v"
  by (rule grows_commit [OF assms(1,2) proto_invD(7) [OF assms(2,3)] assms(4)]) (use assms(5) in simp)

lemma cand_same:
  assumes "grows s s'" and "proto_inv M s" and "c \<in> M" and "p_term s' c = p_term s c" and "p_log s' c = p_log s c"
    and "p_votes s' = p_votes s \<or> (c, p_term s c, c) \<in> p_votes s"
  shows "cand_ok s' c"
  by (rule grows_cand [OF assms(1,2) proto_invD(8) [OF assms(2,3)] assms(4,5)]) (use assms(6) in auto)

lemma inv_bump:
  assumes "proto_inv M s" and "v \<in> M" and "p_term s v \<le> t"
  shows "proto_inv M (s\<lparr>p_term := (p_term s)(v := t)\<rparr>)" (is "proto_inv M ?s")
proof (rule proto_inv_step [OF assms(1)])
  note inv = proto_invD [OF assms(1)]
  show g: "grows s ?s" using assms(3) by (auto simp: grows_def)
  show "votes_inv M ?s" using inv(1) assms(3) by (auto simp: votes_inv_def intro: le_trans)
  show "hist_inv M ?s"
  proof (rule grows_hist_inv [OF g inv(2)])
    fix u H assume h: "p_hist ?s u = Some H" and u: "p_term ?s (p_lead ?s u) = u"
    then have h': "p_hist s u = Some H" by simp
    have "u \<le> p_term s (p_lead s u)" using votes_invD(3) [OF inv(1) hist_invD(2) [OF inv(2) h']] .
    then have "p_term s (p_lead s u) = u" using u assms(3) by (auto split: if_splits)
    then show "p_log ?s (p_lead ?s u) = H" using hist_invD(7) [OF inv(2) h'] by simp
  qed simp
  show "logs_inv M ?s" by (rule grows_logs_inv [OF g inv(3) same_log_ok [OF g inv(3)]]) simp_all
  fix w assume w: "w \<in> M"
  show "commit_ok ?s w" by (rule commit_same [OF g assms(1) w]) simp_all
  show "cand_ok ?s w"
  proof (cases "w = v \<and> p_term s v < t")
    case True
    then have "(v, t, v) \<notin> p_votes s" using votes_invD(3) [OF inv(1), of v t v] by auto
    then show ?thesis using True by (simp add: cand_ok_def)
  next
    case False
    then show ?thesis by (intro cand_same [OF g assms(1) w]) (use assms(3) in auto)
  qed
qed simp_all

lemma inv_campaign:
  assumes "proto_inv M s" and "c \<in> M" and "t = p_term s c + 1"
  shows "proto_inv M (s\<lparr>p_term := (p_term s)(c := t), p_votes := insert (c, t, c) (p_votes s),
    p_cand := (p_cand s)(t := (p_cand s t)(c := p_log s c))\<rparr>)" (is "proto_inv M ?s")
proof (rule proto_inv_step [OF assms(1)])
  note inv = proto_invD [OF assms(1)]
  have new: "(c, t, d) \<notin> p_votes s" for d using votes_invD(3) [OF inv(1), of c t d] assms(3) by auto
  show g: "grows s ?s" using assms(3) new by (auto simp: grows_def)
  show "votes_inv M ?s"
    using inv(1) assms(2,3) new unfolding votes_inv_def by (auto intro: le_SucI)
  show "hist_inv M ?s"
  proof (rule grows_hist_inv [OF g inv(2)])
    fix u H assume h: "p_hist ?s u = Some H" and u: "p_term ?s (p_lead ?s u) = u"
    then have h': "p_hist s u = Some H" by simp
    have "p_lead s u \<noteq> c \<or> u \<noteq> t" using hist_invD(2) [OF inv(2) h'] new by auto
    then show "p_log ?s (p_lead ?s u) = H" using hist_invD(7) [OF inv(2) h'] u by (auto split: if_splits)
  qed simp
  show "logs_inv M ?s"
  proof (rule grows_logs_inv [OF g inv(3) same_log_ok [OF g inv(3)]])
    fix u d assume "(d, u, d) \<in> p_votes ?s" "(d, u, d) \<notin> p_votes s"
    then have "u = t" "d = c" by auto
    then show "good (p_hist ?s) (p_cand ?s u d) \<and> (\<forall>e \<in> set (p_cand ?s u d). le_term e < u)"
      using logs_invD(1,2) [OF inv(3) assms(2)] assms(3) by (auto simp: less_Suc_eq_le)
  qed simp_all
  fix v u d t' k assume p: "(v, u, d) \<in> p_votes ?s" "(v, t', k) \<in> p_acks ?s" "(v, u, d) \<notin> p_votes s \<or> (v, t', k) \<notin> p_acks s"
  then have "v = c" "u = t" "d = c" "(c, t', k) \<in> p_acks s" by auto
  moreover have "promise_ok ?s t c t' k"
    unfolding promise_ok_def
  proof (intro impI allI)
    fix j assume "j \<le> k" "own_entry ?s t' j"
    moreover have "own_entry ?s t' j = own_entry s t' j" by (simp add: own_entry_def history_def)
    ultimately consider "has_prefix (p_log s c) j (history s t')" | "overtaken s t' j t"
      using inv(4) [OF \<open>(c, t', k) \<in> p_acks s\<close>] assms(3) by (auto simp: ack_ok_def)
    then show "has_prefix (p_cand ?s t c) j (history ?s t') \<or> overtaken ?s t' j t"
    proof cases
      case 1
      then show ?thesis by (simp add: history_def)
    next
      case 2
      have "p_hist s t' \<noteq> None" "j \<le> length (history s t')"
        using inv(4) [OF \<open>(c, t', k) \<in> p_acks s\<close>] \<open>j \<le> k\<close> by (auto simp: ack_ok_def)
      then show ?thesis using grows_overtaken [OF g inv(2) 2] by simp
    qed
  qed
  ultimately show "promise_ok ?s u d t' k" by simp
next
  note inv = proto_invD [OF assms(1)]
  fix w assume w: "w \<in> M"
  have new: "(c, t, d) \<notin> p_votes s" for d using votes_invD(3) [OF inv(1), of c t d] assms(3) by auto
  have g: "grows s ?s" using assms(3) new by (auto simp: grows_def)
  show "commit_ok ?s w" by (rule commit_same [OF g assms(1) w]) simp_all
  show "cand_ok ?s w"
  proof (cases "w = c")
    case True
    then show ?thesis by (simp add: cand_ok_def)
  next
    case False
    have "cand_ok s w" by (rule inv(8) [OF w])
    then show ?thesis
      by (rule grows_cand [OF g assms(1)]) (use False in auto)
  qed
qed simp_all

lemma inv_vote:
  assumes "proto_inv M s" and "v \<in> M" and "t = p_term s v" and "p_hist s t = None" and "(c, t, c) \<in> p_votes s"
    and "\<forall>d. (v, t, d) \<in> p_votes s \<longrightarrow> d = c" and "up_to_date (p_log s v) (p_cand s t c)"
  shows "proto_inv M (s\<lparr>p_votes := insert (v, t, c) (p_votes s)\<rparr>)" (is "proto_inv M ?s")
proof -
  note inv = proto_invD [OF assms(1)]
  have g: "grows s ?s" by (auto simp: grows_def)
  have c: "c \<in> M" using votes_invD(2) [OF inv(1) assms(5)] .
  show ?thesis
  proof (rule proto_inv_step [OF assms(1) g])
    show "votes_inv M ?s"
      unfolding votes_inv_def using inv(1) assms(2,3,5,6) c by (auto simp: votes_inv_def)
    show "hist_inv M ?s"
      by (rule grows_hist_inv [OF g inv(2)]) (use hist_invD(7) [OF inv(2)] in auto)
    show "logs_inv M ?s"
    proof (rule grows_logs_inv [OF g inv(3) same_log_ok [OF g inv(3)]])
      fix u d assume "(d, u, d) \<in> p_votes ?s" "(d, u, d) \<notin> p_votes s"
      then show "good (p_hist ?s) (p_cand ?s u d) \<and> (\<forall>e \<in> set (p_cand ?s u d). le_term e < u)" using assms(5) by auto
    qed simp_all
    fix w u d t' k assume p: "(w, u, d) \<in> p_votes ?s" "(w, t', k) \<in> p_acks ?s" "(w, u, d) \<notin> p_votes s \<or> (w, t', k) \<notin> p_acks s"
    then have e: "w = v" "u = t" "d = c" and a: "(v, t', k) \<in> p_acks s" by auto
    have h': "p_hist s t' \<noteq> None" "k \<le> length (history s t')" using inv(4) [OF a] by (simp_all add: ack_ok_def)
    have "promise_ok s t c t' k"
      unfolding promise_ok_def
    proof (intro impI allI)
      fix j assume t': "t' < t" and j: "j \<le> k" "own_entry s t' j"
      let ?L = "p_log s v" and ?C = "p_cand s t c" and ?G = "history s t'"
      obtain G where G: "p_hist s t' = Some G" using h'(1) by auto
      from inv(4) [OF a] j consider "has_prefix ?L j ?G" | "overtaken s t' j (t + 1)" by (auto simp: ack_ok_def assms(3))
      then show "has_prefix ?C j ?G \<or> overtaken s t' j t"
      proof cases
        case 2
        then obtain x where "t' < x" "x < t + 1" "p_hist s x \<noteq> None" "\<not> has_prefix (base s x) j ?G" by (auto simp: overtaken_def)
        moreover from this have "x \<noteq> t" using assms(4) by auto
        ultimately show ?thesis by (auto simp: overtaken_def)
      next
        case 1
        have sorted: "sorted (map le_term H)" if "p_hist s x = Some H" for x H using hist_invD(5) [OF inv(2) that] .
        have own: "0 < j" "j \<le> length ?G" "le_term (?G ! (j - 1)) = t'" using j(2) by (simp_all add: own_entry_def)
        have goodL: "good (p_hist s) ?L" "good (p_hist s) ?C" and low: "\<forall>e \<in> set ?C. le_term e < t"
          using logs_invD(1) [OF inv(3) assms(2)] logs_invD(4,5) [OF inv(3) assms(5)] by blast+
        have lenL: "j \<le> length ?L" using 1 by (simp add: has_prefix_def)
        have "?L ! (j - 1) = ?G ! (j - 1)" using has_prefix_nth [OF 1] own(1) by simp
        then have "le_term (?L ! (j - 1)) = t'" using own(3) by simp
        moreover have "sorted (map le_term ?L)" using good_sorted [OF goodL(1)] sorted by blast
        ultimately have lt: "t' \<le> last_term ?L"
          using sorted_terms_nth [of ?L "j - 1" "length ?L - 1"] lenL own(1) by (auto simp: last_term_def last_conv_nth)
        have ne: "?C \<noteq> []"
          using assms(7) lt lenL own(1) by (auto simp: up_to_date_def last_term_def)
        define z where "z = last_term ?C"
        have z: "z = le_term (?C ! (length ?C - 1))" "t' \<le> z" "z < t"
          using ne lt low assms(7) by (auto simp: z_def last_term_def up_to_date_def last_conv_nth)
        obtain H where H: "p_hist s z = Some H" "has_prefix ?C (length ?C) H"
          using goodL(2) ne z(1) by (auto simp: good_def dest: spec [of _ "length ?C - 1"])
        show ?thesis
        proof (cases "z = t'")
          case True
          then have "last_term ?L = t'" "length ?L \<le> length ?C" using lt assms(7) z_def by (auto simp: up_to_date_def)
          then have "has_prefix ?C j H" using H(2) lenL has_prefix_le by auto
          then show ?thesis using H(1) True by simp
        next
          case False
          then have lt': "t' < z" using z(2) by simp
          show ?thesis
          proof (cases "has_prefix (base s z) j ?G")
            case False
            then show ?thesis using lt' z(3) H(1) by (auto simp: overtaken_def)
          next
            case True
            have HG: "has_prefix H j ?G" by (rule base_prefix [OF inv(2) H(1) True])
            have "j \<le> length ?C"
            proof (rule ccontr)
              assume "\<not> j \<le> length ?C"
              then have "le_term (H ! (length ?C - 1)) \<le> le_term (H ! (j - 1))"
                using sorted_terms_nth [OF sorted [OF H(1)], of "length ?C - 1" "j - 1"] HG own(1) by (auto simp: has_prefix_def)
              moreover have "H ! (j - 1) = ?G ! (j - 1)" using has_prefix_nth [OF HG] own(1) by simp
              moreover have "?C ! (length ?C - 1) = H ! (length ?C - 1)" using has_prefix_nth [OF H(2)] ne by simp
              ultimately show False using own(3) z(1) lt' by simp
            qed
            then show ?thesis using has_prefix_trans [OF has_prefix_le [OF H(2)] HG] by blast
          qed
        qed
      qed
    qed
    then show "promise_ok ?s u d t' k"
      unfolding e using grows_promise [OF g inv(2) _ assms(5) h'] by blast
  next
    fix w assume w: "w \<in> M"
    show "commit_ok ?s w" by (rule commit_same [OF g assms(1) w]) simp_all
    show "cand_ok ?s w"
      by (rule grows_cand [OF g assms(1) inv(8) [OF w]]) (use assms(3,5) in auto)
  qed simp_all
qed

lemma inv_win:
  assumes "proto_inv M s" and "c \<in> M" and "t = p_term s c" and "p_hist s t = None" and "(c, t, c) \<in> p_votes s"
    and "majority_of M Q" and "\<forall>v \<in> Q. (v, t, c) \<in> p_votes s"
  shows "proto_inv M (s\<lparr>p_hist := (p_hist s)(t := Some (p_log s c)), p_lead := (p_lead s)(t := c)\<rparr>)" (is "proto_inv M ?s")
proof -
  note inv = proto_invD [OF assms(1)]
  have el: "elected M s t c" using assms(6,7) by (auto simp: elected_def)
  have same: "p_log s c = p_cand s t c"
    using inv(8) [OF assms(2)] assms(3-5) elected_has_chosen [OF assms(1) _ el] by (auto simp: cand_ok_def)
  have g: "grows s ?s" using assms(4) by (auto simp: grows_def)
  have gl: "good (p_hist ?s) (p_log s c)" by (rule grows_good [OF g logs_invD(1) [OF inv(3) assms(2)]])
  have hist: "hist_inv M ?s"
  proof (rule grows_hist_inv [OF g inv(2)])
    fix u H assume "p_hist ?s u = Some H" "p_hist s u \<noteq> Some H"
    then have u: "u = t" "H = p_log s c" by (auto split: if_splits)
    have b: "base ?s t = p_log s c" by (simp add: base_def same)
    have "sorted (map le_term (p_log s c))"
      using good_sorted [OF logs_invD(1) [OF inv(3) assms(2)]] hist_invD(5) [OF inv(2)] by blast
    then show "elected M ?s u (p_lead ?s u) \<and> (p_lead ?s u, u, p_lead ?s u) \<in> p_votes ?s \<and>
        has_prefix H (length (base ?s u)) (base ?s u) \<and> (\<forall>k < length H. length (base ?s u) \<le> k \<longrightarrow> le_term (H ! k) = u) \<and>
        sorted (map le_term H) \<and> (\<forall>e \<in> set H. le_term e \<le> u)"
      unfolding u b using el assms(3,5) logs_invD(2) [OF inv(3) assms(2)] by (simp add: elected_def has_prefix_self)
  next
    fix u H assume "p_hist ?s u = Some H" "p_term ?s (p_lead ?s u) = u"
    then show "p_log ?s (p_lead ?s u) = H" using hist_invD(7) [OF inv(2), of u H] by (cases "u = t") auto
  qed
  show ?thesis
  proof (rule proto_inv_step [OF assms(1) g _ hist])
    show "votes_inv M ?s" using inv(1) by (simp add: votes_inv_def)
    show "logs_inv M ?s"
      by (rule grows_logs_inv [OF g inv(3) same_log_ok [OF g inv(3)]]) (use gl in \<open>auto split: if_splits\<close>)
    fix w assume w: "w \<in> M"
    show "commit_ok ?s w" by (rule commit_same [OF g assms(1) w]) simp_all
    show "cand_ok ?s w" by (rule cand_same [OF g assms(1) w]) simp_all
  qed simp_all
qed

lemma inv_propose:
  assumes "proto_inv M s" and "c \<in> M" and "leads s c" and "t = p_term s c" and "le_term e = t"
  shows "proto_inv M (s\<lparr>p_log := (p_log s)(c := p_log s c @ [e]), p_hist := (p_hist s)(t := Some (p_log s c @ [e])),
      p_acks := insert (c, t, length (p_log s c) + 1) (p_acks s)\<rparr>)" (is "proto_inv M ?s")
proof -
  note inv = proto_invD [OF assms(1)]
  let ?L = "p_log s c"
  have h: "p_hist s t = Some ?L" "p_lead s t = c" using assms(3,4) by simp_all
  have g: "grows s ?s" using h by (auto simp: grows_def)
  have "good (p_hist ?s) (?L @ [e])"
    unfolding good_def
  proof (intro allI impI)
    fix k assume k: "k < length (?L @ [e])"
    show "\<exists>H. p_hist ?s (le_term ((?L @ [e]) ! k)) = Some H \<and> has_prefix (?L @ [e]) (k + 1) H"
    proof (cases "k < length ?L")
      case True
      then obtain H where H: "p_hist ?s (le_term (?L ! k)) = Some H" "has_prefix ?L (k + 1) H"
        using grows_good [OF g logs_invD(1) [OF inv(3) assms(2)]] by (auto simp: good_def)
      with True has_prefix_append [OF H(2)] show ?thesis by (simp add: nth_append)
    next
      case False
      with k have "k = length ?L" by simp
      then show ?thesis using assms(5) by (intro exI [of _ "?L @ [e]"]) (simp add: has_prefix_def)
    qed
  qed
  note gl = this
  show ?thesis
  proof (rule proto_inv_step [OF assms(1) g])
    show "votes_inv M ?s" using inv(1) by (simp add: votes_inv_def)
    show "hist_inv M ?s"
    proof (rule grows_hist_inv [OF g inv(2)])
      fix u H assume "p_hist ?s u = Some H" "p_hist s u \<noteq> Some H"
      then have u: "u = t" "H = ?L @ [e]" by (auto split: if_splits)
      note old = hist_invD [OF inv(2) h(1)]
      have b: "base ?s t = base s t" by (simp add: base_def)
      have len: "length (base s t) \<le> length ?L" using old(3) by (simp add: has_prefix_def)
      have "elected M ?s t c" using grows_elected [OF g old(1)] h(2) by simp
      moreover have "(c, t, c) \<in> p_votes s" using old(2) h(2) by simp
      moreover have "\<forall>k < length (?L @ [e]). length (base s t) \<le> k \<longrightarrow> le_term ((?L @ [e]) ! k) = t"
        using old(4) assms(5) by (auto simp: nth_append less_Suc_eq)
      moreover have "sorted (map le_term (?L @ [e]))" using old(5,6) assms(5) by (auto simp: sorted_append)
      ultimately show "elected M ?s u (p_lead ?s u) \<and> (p_lead ?s u, u, p_lead ?s u) \<in> p_votes ?s \<and>
          has_prefix H (length (base ?s u)) (base ?s u) \<and> (\<forall>k < length H. length (base ?s u) \<le> k \<longrightarrow> le_term (H ! k) = u) \<and>
          sorted (map le_term H) \<and> (\<forall>e \<in> set H. le_term e \<le> u)"
        unfolding u b using has_prefix_append [OF old(3)] h(2) old(6) assms(5) by simp
    next
      fix u H assume a: "p_hist ?s u = Some H" "p_term ?s (p_lead ?s u) = u"
      show "p_log ?s (p_lead ?s u) = H"
      proof (cases "u = t")
        case True
        then show ?thesis using a(1) h(2) by simp
      next
        case False
        then have "p_lead s u \<noteq> c" using a(2) assms(4) by auto
        then show ?thesis using hist_invD(7) [OF inv(2), of u H] a False by simp
      qed
    qed
    show "logs_inv M ?s"
    proof (rule grows_logs_inv [OF g inv(3)])
      fix w assume w: "w \<in> M"
      show "good (p_hist ?s) (p_log ?s w) \<and> (\<forall>x \<in> set (p_log ?s w). le_term x \<le> p_term ?s w)"
      proof (cases "w = c")
        case True
        then show ?thesis using gl logs_invD(2) [OF inv(3) w] assms(4,5) by auto
      next
        case False
        then show ?thesis using same_log_ok [OF g inv(3) w] by simp
      qed
    qed (use gl in \<open>auto split: if_splits\<close>)
    fix v t' k assume "(v, t', k) \<in> p_acks ?s" "(v, t', k) \<notin> p_acks s"
    then have "v = c" "t' = t" "k = length ?L + 1" by auto
    then show "ack_ok M ?s v t' k" using assms(2,4) by (simp add: ack_ok_def has_prefix_def)
  next
    fix v t' k j assume "has_prefix (p_log s v) j (history s t')"
    then show "has_prefix (p_log ?s v) j (history s t') \<or> overtaken ?s t' j (p_term ?s v + 1)"
      by (cases "v = c") (simp_all add: has_prefix_append)
  next
    fix v u d t' k assume p: "(v, u, d) \<in> p_votes ?s" "(v, t', k) \<in> p_acks ?s" "(v, u, d) \<notin> p_votes s \<or> (v, t', k) \<notin> p_acks s"
    then have "v = c" "t' = t" by auto
    then have "\<not> t' < u" using votes_invD(3) [OF inv(1), of v u d] p(1) assms(4) by simp
    then show "promise_ok ?s u d t' k" by (simp add: promise_ok_def)
  next
    fix w assume w: "w \<in> M"
    show "commit_ok ?s w"
      by (rule grows_commit [OF g assms(1) inv(7) [OF w]]) (cases "w = c"; simp add: has_prefix_append)+
    show "cand_ok ?s w"
    proof (cases "w = c")
      case True
      then show ?thesis using assms(4) by (simp add: cand_ok_def)
    next
      case False
      then show ?thesis by (intro cand_same [OF g assms(1) w]) simp_all
    qed
  qed simp_all
qed

lemma take_over_prefix:
  assumes "good h L" and "good h H" and "prev \<le> m" and "m \<le> length H" and "prev \<le> length L"
    and "prev = 0 \<or> le_term (L ! (prev - 1)) = le_term (H ! (prev - 1))"
  shows "has_prefix (take_over prev m H L) m H"
    and "has_prefix L j G \<Longrightarrow> has_prefix H j G \<Longrightarrow> has_prefix (take_over prev m H L) j G"
    and "take_over prev m H L \<in> {L, take m H}"
proof -
  show c: "take_over prev m H L \<in> {L, take m H}" by (simp add: take_over_def)
  show "has_prefix (take_over prev m H L) m H"
  proof (cases "m \<le> length L \<and> (\<forall>k. prev \<le> k \<longrightarrow> k < m \<longrightarrow> le_term (L ! k) = le_term (H ! k))")
    case True
    have "has_prefix L m H"
    proof (cases "m = 0")
      case False
      have "le_term (L ! (m - 1)) = le_term (H ! (m - 1))"
        using True assms(3,6) False by (cases "prev = m") auto
      moreover have "m - 1 < length L" "m - 1 < length H" using True assms(4) False by linarith+
      ultimately show ?thesis using good_meet [OF assms(1,2), of "m - 1"] False by simp
    qed (simp add: has_prefix_def)
    then show ?thesis using True by (simp add: take_over_def)
  next
    case False
    then show ?thesis using assms(4) by (auto simp: take_over_def has_prefix_def)
  qed
  assume p: "has_prefix L j G" "has_prefix H j G"
  show "has_prefix (take_over prev m H L) j G"
  proof (cases "take_over prev m H L = L")
    case False
    then have n: "take_over prev m H L = take m H" "\<not> (m \<le> length L \<and> (\<forall>k. prev \<le> k \<longrightarrow> k < m \<longrightarrow> le_term (L ! k) = le_term (H ! k)))"
      using c by (auto simp: take_over_def split: if_splits)
    have "j \<le> m"
    proof (rule ccontr)
      assume "\<not> j \<le> m"
      then have "m \<le> length L" "\<forall>k < m. L ! k = H ! k"
        using p has_prefix_nth [OF p(1)] has_prefix_nth [OF p(2)] by (auto simp: has_prefix_def)
      then show False using n(2) by simp
    qed
    then show ?thesis using has_prefix_takeI [OF _ p(2)] n(1) by simp
  qed (use p in simp)
qed

lemma inv_accept:
  assumes "proto_inv M s" and "v \<in> M" and "p_term s v = t" and "p_hist s t = Some H" and "v \<noteq> p_lead s t"
    and "prev \<le> m" and "m \<le> length H" and "prev \<le> length (p_log s v)"
    and "prev = 0 \<or> le_term (p_log s v ! (prev - 1)) = le_term (H ! (prev - 1))"
  shows "proto_inv M (s\<lparr>p_log := (p_log s)(v := take_over prev m H (p_log s v)), p_acks := insert (v, t, m) (p_acks s)\<rparr>)"
    (is "proto_inv M ?s")
proof -
  note inv = proto_invD [OF assms(1)]
  let ?L = "p_log s v" let ?L' = "take_over prev m H ?L"
  have g: "grows s ?s" by (auto simp: grows_def)
  have gd: "good (p_hist s) ?L" "good (p_hist s) H" using logs_invD(1) [OF inv(3) assms(2)] logs_invD(3) [OF inv(3) assms(4)] .
  note new = take_over_prefix [OF gd assms(6-9)]
  have hist: "hist_inv M ?s"
  proof (rule grows_hist_inv [OF g inv(2)])
    fix u G assume a: "p_hist ?s u = Some G" "p_term ?s (p_lead ?s u) = u"
    then have "p_lead s u \<noteq> v" using assms(3,5) by auto
    then show "p_log ?s (p_lead ?s u) = G" using hist_invD(7) [OF inv(2), of u G] a by simp
  qed simp
  show ?thesis
  proof (rule proto_inv_step [OF assms(1) g _ hist])
    show "votes_inv M ?s" using inv(1) by (simp add: votes_inv_def)
    show "logs_inv M ?s"
    proof (rule grows_logs_inv [OF g inv(3)])
      fix w assume w: "w \<in> M"
      show "good (p_hist ?s) (p_log ?s w) \<and> (\<forall>x \<in> set (p_log ?s w). le_term x \<le> p_term ?s w)"
      proof (cases "w = v")
        case True
        have "\<forall>x \<in> set (take m H). le_term x \<le> t" using hist_invD(6) [OF inv(2) assms(4)] by (auto dest: in_set_takeD)
        then show ?thesis using True new(3) gd good_take [OF gd(2)] logs_invD(2) [OF inv(3) w] assms(3) by auto
      next
        case False
        then show ?thesis using same_log_ok [OF g inv(3) w] by simp
      qed
    qed simp_all
    fix w t' k assume "(w, t', k) \<in> p_acks ?s" "(w, t', k) \<notin> p_acks s"
    then have "w = v" "t' = t" "k = m" by auto
    then show "ack_ok M ?s w t' k"
      using assms(2-4,7) has_prefix_le [OF new(1)] by (simp add: ack_ok_def history_def)
  next
    fix w t' k j assume a: "(w, t', k) \<in> p_acks s" "j \<le> k" "own_entry s t' j" "has_prefix (p_log s w) j (history s t')"
    have ok: "t' \<le> p_term s w" "p_hist s t' \<noteq> None" using inv(4) [OF a(1)] by (simp_all add: ack_ok_def)
    show "has_prefix (p_log ?s w) j (history s t') \<or> overtaken ?s t' j (p_term ?s w + 1)"
    proof (cases "w = v")
      case True
      show ?thesis
      proof (cases "has_prefix H j (history s t')")
        case True
        then show ?thesis using new(2) a(4) \<open>w = v\<close> by simp
      next
        case False
        then have "t' \<noteq> t" using a(3) assms(4) by (auto simp: own_entry_def has_prefix_def)
        moreover have "\<not> has_prefix (base s t) j (history s t')" using False base_prefix [OF inv(2) assms(4)] by blast
        ultimately have "overtaken s t' j (t + 1)" using ok(1) True assms(3,4) by (intro overtakenI [of _ t]) auto
        then show ?thesis using grows_overtaken [OF g inv(2) _ _ ok(2), of j "t + 1"] a(3) True assms(3) by (simp add: own_entry_def)
      qed
    qed (use a(4) in simp)
  next
    fix w u d t' k assume p: "(w, u, d) \<in> p_votes ?s" "(w, t', k) \<in> p_acks ?s" "(w, u, d) \<notin> p_votes s \<or> (w, t', k) \<notin> p_acks s"
    then have "w = v" "t' = t" by auto
    then have "\<not> t' < u" using votes_invD(3) [OF inv(1), of w u d] p(1) assms(3) by simp
    then show "promise_ok ?s u d t' k" by (simp add: promise_ok_def)
  next
    fix w assume w: "w \<in> M"
    show "commit_ok ?s w"
    proof (rule grows_commit [OF g assms(1) inv(7) [OF w]])
      fix t1 k assume c: "(t1, k) \<in> p_chosen s" "p_commit s w \<le> k" "t1 \<le> p_term s w" "has_prefix (p_log s w) (p_commit s w) (history s t1)"
      show "has_prefix (p_log ?s w) (p_commit s w) (history s t1)"
      proof (cases "w = v")
        case True
        have "has_prefix H k (history s t1)" by (rule leader_has_chosen [OF assms(1) c(1) assms(4)]) (use c(3) True assms(3) in simp)
        then show ?thesis using new(2) has_prefix_le c(2,4) True by simp
      qed (use c(4) in simp)
    qed simp
    show "cand_ok ?s w"
    proof (cases "w = v")
      case True
      then show ?thesis using assms(3,4) by (simp add: cand_ok_def)
    next
      case False
      then show ?thesis by (intro cand_same [OF g assms(1) w]) simp_all
    qed
  qed simp_all
qed

lemma inv_commit:
  assumes "proto_inv M s" and "c \<in> M" and "leads s c" and "t = p_term s c" and "0 < k" and "k \<le> length (p_log s c)"
    and "le_term (p_log s c ! (k - 1)) = t" and "majority_of M Q" and "\<forall>v \<in> Q. \<exists>k'. k \<le> k' \<and> (v, t, k') \<in> p_acks s"
  shows "proto_inv M (s\<lparr>p_commit := (p_commit s)(c := k), p_chosen := insert (t, k) (p_chosen s)\<rparr>)" (is "proto_inv M ?s")
proof -
  note inv = proto_invD [OF assms(1)]
  have g: "grows s ?s" by (auto simp: grows_def)
  have h: "history s t = p_log s c" "p_hist s t = Some (p_log s c)" using assms(3,4) by simp_all
  show ?thesis
  proof (rule proto_inv_step [OF assms(1) g])
    show "votes_inv M ?s" using inv(1) by (simp add: votes_inv_def)
    show "hist_inv M ?s" by (rule grows_hist_inv [OF g inv(2)]) (use hist_invD(7) [OF inv(2)] in simp_all)
    show "logs_inv M ?s" by (rule grows_logs_inv [OF g inv(3) same_log_ok [OF g inv(3)]]) simp_all
    fix u i assume "(u, i) \<in> p_chosen ?s" "(u, i) \<notin> p_chosen s"
    then have "u = t" "i = k" by auto
    then show "chosen_ok M ?s u i"
      using h assms(5-9) by (auto simp: chosen_ok_def own_entry_def history_def)
  next
    fix w assume w: "w \<in> M"
    show "commit_ok ?s w"
    proof (cases "w = c")
      case True
      then show ?thesis using h assms(4,6) unfolding commit_ok_def
        by (intro disjI2 exI [of _ t] exI [of _ k]) (simp add: history_def has_prefix_self)
    next
      case False
      then show ?thesis by (intro commit_same [OF g assms(1) w]) simp_all
    qed
    show "cand_ok ?s w" by (rule cand_same [OF g assms(1) w]) simp_all
  qed simp_all
qed

text \<open>A step that only moves one commit index.\<close>

lemma inv_move:
  assumes "proto_inv M s" and "v \<in> M"
    and "k = 0 \<or> (\<exists>t i. (t, i) \<in> p_chosen s \<and> k \<le> i \<and> t \<le> p_term s v \<and> has_prefix (p_log s v) k (history s t))"
  shows "proto_inv M (s\<lparr>p_commit := (p_commit s)(v := k)\<rparr>)" (is "proto_inv M ?s")
proof -
  note inv = proto_invD [OF assms(1)]
  have g: "grows s ?s" by (auto simp: grows_def)
  show ?thesis
  proof (rule proto_inv_step [OF assms(1) g])
    show "votes_inv M ?s" using inv(1) by (simp add: votes_inv_def)
    show "hist_inv M ?s" by (rule grows_hist_inv [OF g inv(2)]) (use hist_invD(7) [OF inv(2)] in simp_all)
    show "logs_inv M ?s" by (rule grows_logs_inv [OF g inv(3) same_log_ok [OF g inv(3)]]) simp_all
    fix w assume w: "w \<in> M"
    show "commit_ok ?s w"
    proof (cases "w = v")
      case True
      then show ?thesis using assms(3) by (simp add: commit_ok_def history_def)
    next
      case False
      then show ?thesis by (intro commit_same [OF g assms(1) w]) simp_all
    qed
    show "cand_ok ?s w" by (rule cand_same [OF g assms(1) w]) simp_all
  qed simp_all
qed

lemma inv_learn:
  assumes "proto_inv M s" and "v \<in> M" and "t = p_term s v" and "p_hist s t = Some H" and "has_prefix (p_log s v) k H"
    and "(t1, k1) \<in> p_chosen s" and "k \<le> k1" and "t1 \<le> t"
  shows "proto_inv M (s\<lparr>p_commit := (p_commit s)(v := k)\<rparr>)"
proof -
  have "has_prefix H k (history s t1)"
    by (rule has_prefix_le [OF leader_has_chosen [OF assms(1,6,4,8)] assms(7)])
  then have "has_prefix (p_log s v) k (history s t1)" by (rule has_prefix_trans [OF assms(5)])
  with assms(3,6-8) show ?thesis by (intro inv_move [OF assms(1,2)]) auto
qed

lemma inv_forget:
  assumes "proto_inv M s" and "v \<in> M" and "k \<le> p_commit s v"
  shows "proto_inv M (s\<lparr>p_commit := (p_commit s)(v := k)\<rparr>)"
proof (rule inv_move [OF assms(1,2)])
  show "k = 0 \<or> (\<exists>t i. (t, i) \<in> p_chosen s \<and> k \<le> i \<and> t \<le> p_term s v \<and> has_prefix (p_log s v) k (history s t))"
    using proto_invD(7) [OF assms(1,2)] assms(3) has_prefix_le unfolding commit_ok_def by fastforce
qed

lemma inv_install:
  assumes "proto_inv M s" and "v \<in> M" and "(t, i0) \<in> p_chosen s" and "0 < i" and "i \<le> i0" and "t \<le> p_term s v"
    and "p_hist s t = Some H"
  shows "proto_inv M (s\<lparr>p_log := (p_log s)(v := (if i \<le> length (p_log s v) \<and> le_term (p_log s v ! (i - 1)) = le_term (H ! (i - 1))
        then p_log s v else take i H)),
      p_commit := (p_commit s)(v := max (p_commit s v) i)\<rparr>)" (is "proto_inv M ?s")
proof -
  note inv = proto_invD [OF assms(1)]
  let ?L = "p_log s v" let ?L' = "p_log ?s v" let ?u = "p_term s v"
  have own: "0 < i" "i \<le> length H"
    using inv(6) [OF assms(3)] assms(4,5,7) by (simp_all add: chosen_ok_def own_entry_def)
  have gd: "good (p_hist s) ?L" "good (p_hist s) H" using logs_invD(1) [OF inv(3) assms(2)] logs_invD(3) [OF inv(3) assms(7)] .
  have keep: "has_prefix ?L i H \<Longrightarrow> ?L' = ?L"
    using own has_prefix_nth [of ?L i H "i - 1"] by (auto simp: has_prefix_def)
  have match: "?L' = ?L \<Longrightarrow> ?L' = take i H \<or> has_prefix ?L i H"
    using good_meet [OF gd, of "i - 1"] own by (auto split: if_splits)
  have p': "has_prefix ?L' i H"
  proof (cases "has_prefix ?L i H")
    case False
    then have "?L' = take i H" using match by (auto split: if_splits)
    then show ?thesis using own(2) by (simp add: has_prefix_def)
  qed (use keep in simp)
  have cases: "?L' = ?L \<or> ?L' = take i H \<and> \<not> has_prefix ?L i H" using keep by (cases "has_prefix ?L i H") auto
  have later: "has_prefix G i H" if "p_hist s u = Some G" "t \<le> u" for u G
    using has_prefix_le [OF leader_has_chosen [OF assms(1,3) that] assms(5)] assms(7) by simp
  have g: "grows s ?s" by (auto simp: grows_def)
  show ?thesis
  proof (rule proto_inv_step [OF assms(1) g])
    show "votes_inv M ?s" using inv(1) by (simp add: votes_inv_def)
    show "hist_inv M ?s"
    proof (rule grows_hist_inv [OF g inv(2)])
      fix u G assume a: "p_hist ?s u = Some G" "p_term ?s (p_lead ?s u) = u"
      then have G: "p_hist s u = Some G" "p_log s (p_lead s u) = G" using hist_invD(7) [OF inv(2), of u G] by simp_all
      show "p_log ?s (p_lead ?s u) = G"
      proof (cases "p_lead s u = v")
        case True
        then have "t \<le> u" using a(2) assms(6) by simp
        then have "has_prefix ?L i H" using later [OF G(1)] G(2) True by simp
        then show ?thesis using keep G(2) True by simp
      qed (use G in simp)
    qed simp
    show "logs_inv M ?s"
    proof (rule grows_logs_inv [OF g inv(3)])
      fix w assume w: "w \<in> M"
      show "good (p_hist ?s) (p_log ?s w) \<and> (\<forall>x \<in> set (p_log ?s w). le_term x \<le> p_term ?s w)"
      proof (cases "w = v")
        case True
        have "\<forall>x \<in> set (take i H). le_term x \<le> ?u" using hist_invD(6) [OF inv(2) assms(7)] assms(6) by (fastforce dest: in_set_takeD)
        then show ?thesis using True gd(1) good_take [OF gd(2)] logs_invD(2) [OF inv(3) w] by simp
      next
        case False
        then show ?thesis using same_log_ok [OF g inv(3) w] by simp
      qed
    qed simp_all
    fix w t' k j assume a: "(w, t', k) \<in> p_acks s" "j \<le> k" "own_entry s t' j" "has_prefix (p_log s w) j (history s t')"
    have ok: "t' \<le> p_term s w" "p_hist s t' \<noteq> None" using inv(4) [OF a(1)] by (simp_all add: ack_ok_def)
    obtain G where G: "p_hist s t' = Some G" using ok(2) by auto
    have own': "0 < j" "j \<le> length G" "le_term (G ! (j - 1)) = t'" using a(3) G by (simp_all add: own_entry_def)
    show "has_prefix (p_log ?s w) j (history s t') \<or> overtaken ?s t' j (p_term ?s w + 1)"
    proof (cases "w = v \<and> ?L' \<noteq> ?L")
      case True
      then have L': "?L' = take i H" "\<not> has_prefix ?L i H" and w: "w = v" using cases by blast+
      show ?thesis
      proof (cases "t' < t")
        case True
        show ?thesis
        proof (cases "has_prefix (base s t) j (history s t')")
          case False
          have "overtaken s t' j (?u + 1)" by (rule overtakenI [OF True _ assms(7) False]) (use assms(6) in simp)
          then show ?thesis using grows_overtaken [OF g inv(2) _ _ ok(2), of j "?u + 1"] own' G w by simp
        next
          case prefix: True
          have HG: "has_prefix H j G" using base_prefix [OF inv(2) assms(7) prefix] G by simp
          have "j \<le> i"
          proof (rule ccontr)
            assume "\<not> j \<le> i"
            then have "has_prefix ?L i H"
              using has_prefix_le [OF has_prefix_trans [of ?L j G H], of i] a(4) HG G w by (simp add: has_prefix_sym)
            then show False using L'(2) by blast
          qed
          then show ?thesis using has_prefix_takeI [OF _ HG] L'(1) w G by simp
        qed
      next
        case False
        then have GH: "has_prefix G i H" using later [OF G] by simp
        have "\<not> i \<le> j" using has_prefix_trans [OF has_prefix_le [OF a(4)] , of i H] GH G L'(2) w by auto
        then have "has_prefix (take i H) j G"
          using has_prefix_takeI [of j i H G] has_prefix_le [of H i G j] has_prefix_sym [of H i G] GH by simp
        then show ?thesis using L'(1) w G by simp
      qed
    next
      case False
      then show ?thesis using a(4) by (cases "w = v") auto
    qed
  next
    fix w assume w: "w \<in> M"
    show "commit_ok ?s w"
    proof (cases "w = v")
      case False
      then show ?thesis by (intro commit_same [OF g assms(1) w]) simp_all
    next
      case True
      show ?thesis
      proof (cases "p_commit s v \<le> i")
        case le: True
        then have "p_commit ?s v = i" by simp
        then show ?thesis using p' assms(3,5-7) True unfolding commit_ok_def
          by (intro disjI2 exI [of _ t] exI [of _ i0]) (simp add: history_def)
      next
        case False
        then obtain t1 k where c: "(t1, k) \<in> p_chosen s" "p_commit s v \<le> k" "t1 \<le> ?u" "has_prefix ?L (p_commit s v) (history s t1)"
          using inv(7) [OF assms(2)] by (auto simp: commit_ok_def)
        obtain G where G: "p_hist s t1 = Some G" using inv(6) [OF c(1)] by (auto simp: chosen_ok_def)
        have "has_prefix G i H"
        proof (cases "t \<le> t1")
          case True
          then show ?thesis by (rule later [OF G])
        next
          case not_le: False
          have "has_prefix H k G" using leader_has_chosen [OF assms(1) c(1) assms(7)] not_le G by simp
          then have "has_prefix H i G" by (rule has_prefix_le) (use False c(2) in simp)
          then show ?thesis by (simp add: has_prefix_sym)
        qed
        then have "has_prefix ?L i H" using has_prefix_trans [OF has_prefix_le [OF c(4)]] False G by simp
        then have "?L' = ?L" by (rule keep)
        then show ?thesis using c False True unfolding commit_ok_def
          by (intro disjI2 exI [of _ t1] exI [of _ k]) (simp add: history_def max_def)
      qed
    qed
    show "cand_ok ?s w"
    proof (cases "w = v \<and> ?L' \<noteq> ?L")
      case False
      then show ?thesis by (intro cand_same [OF g assms(1) w]) auto
    next
      case True
      then have L': "\<not> has_prefix ?L i H" and w': "w = v" using cases by blast+
      show ?thesis
        unfolding w' cand_ok_def
      proof (intro impI)
        assume v: "(v, p_term ?s v, v) \<in> p_votes ?s" and n: "p_hist ?s (p_term ?s v) = None"
        have "t \<noteq> ?u" using n assms(7) by auto
        then have t: "t < ?u" using assms(6) by simp
        from inv(8) [OF assms(2)] v n consider "?L = p_cand s ?u v"
          | t1 k where "(t1, k) \<in> p_chosen s" "t1 < ?u" "\<not> has_prefix (p_cand s ?u v) k (history s t1)"
          by (auto simp: cand_ok_def)
        then show "p_log ?s v = p_cand ?s (p_term ?s v) v \<or> (\<exists>t k. (t, k) \<in> p_chosen ?s \<and> t < p_term ?s v \<and>
            \<not> has_prefix (p_cand ?s (p_term ?s v) v) k (history ?s t))"
        proof cases
          case 1
          then have "\<not> has_prefix (p_cand s ?u v) i0 (history s t)"
            using L' assms(7) has_prefix_le [OF _ assms(5)] by auto
          then show ?thesis using assms(3) t by (auto simp: history_def)
        next
          case (2 t1 k)
          then show ?thesis by (auto simp: history_def)
        qed
      qed
    qed
  qed simp_all
qed

lemma proto_step_inv:
  assumes "proto_inv M s" and "proto_step M v s s'"
  shows "proto_inv M s'"
  using assms(2)
proof cases
  case bump
  then show ?thesis using inv_bump [OF assms(1)] by blast
next
  case campaign
  then show ?thesis using inv_campaign [OF assms(1)] by blast
next
  case vote
  then show ?thesis using inv_vote [OF assms(1)] by blast
next
  case win
  then show ?thesis using inv_win [OF assms(1)] by blast
next
  case propose
  then show ?thesis using inv_propose [OF assms(1)] by blast
next
  case accept
  then show ?thesis using inv_accept [OF assms(1)] by blast
next
  case commit
  then show ?thesis using inv_commit [OF assms(1)] by blast
next
  case learn
  then show ?thesis using inv_learn [OF assms(1)] by blast
next
  case install
  then show ?thesis using inv_install [OF assms(1)] by blast
next
  case forget
  then show ?thesis using inv_forget [OF assms(1)] by blast
qed

section \<open>Runs\<close>

text \<open>A leader has acknowledged every entry of its own term.\<close>

definition lead_acked :: "proto \<Rightarrow> bool" where
  "lead_acked s \<longleftrightarrow> (\<forall>t k. p_hist s t \<noteq> None \<longrightarrow> own_entry s t k \<longrightarrow> (p_lead s t, t, k) \<in> p_acks s)"

definition proto_ok :: "NodeId set \<Rightarrow> proto \<Rightarrow> bool" where
  "proto_ok M s \<longleftrightarrow> proto_inv M s \<and> lead_acked s"

text \<open>What the steps of \<open>v\<close> leave: the others' terms, logs and commit indices, and who leads the terms that had a leader.\<close>

definition moves :: "NodeId \<Rightarrow> proto \<Rightarrow> proto \<Rightarrow> bool" where
  "moves v s s' \<longleftrightarrow> grows s s' \<and>
     (\<forall>w. w \<noteq> v \<longrightarrow> p_term s' w = p_term s w \<and> p_log s' w = p_log s w \<and> p_commit s' w = p_commit s w) \<and>
     (\<forall>t. p_hist s t = None \<longrightarrow> p_hist s' t \<noteq> None \<longrightarrow> p_lead s' t = v)"

lemma movesD:
  assumes "moves v s s'"
  shows "grows s s'" "w \<noteq> v \<Longrightarrow> p_term s' w = p_term s w" "w \<noteq> v \<Longrightarrow> p_log s' w = p_log s w"
    "w \<noteq> v \<Longrightarrow> p_commit s' w = p_commit s w" "p_hist s t = None \<Longrightarrow> p_hist s' t \<noteq> None \<Longrightarrow> p_lead s' t = v"
  using assms by (auto simp: moves_def)

lemma grows_refl [simp]: "grows s s"
  by (simp add: grows_def)

lemma grows_trans:
  assumes "grows s s'" and "grows s' s''"
  shows "grows s s''"
  unfolding grows_def
proof (intro conjI allI impI)
  fix t H assume h: "p_hist s t = Some H"
  obtain X where X: "p_hist s' t = Some (H @ X)" using growsD(2) [OF assms(1) h] by blast
  then obtain Y where "p_hist s'' t = Some ((H @ X) @ Y)" using growsD(2) [OF assms(2)] by blast
  then show "\<exists>X. p_hist s'' t = Some (H @ X)" by auto
  show "p_lead s'' t = p_lead s t" using growsD(3) [OF assms(1) h] growsD(3) [OF assms(2) X] by simp
next
  fix t c assume "(c, t, c) \<in> p_votes s"
  then show "p_cand s'' t c = p_cand s t c" using growsD(4,7) [OF assms(1)] growsD(7) [OF assms(2)] by simp
qed (use growsD(1,4-6) [OF assms(1)] growsD(1,4-6) [OF assms(2)] in \<open>blast intro: le_trans\<close>)+

lemma moves_refl [simp]: "moves v s s"
  by (simp add: moves_def)

lemma moves_trans:
  assumes "moves v s s'" and "moves v s' s''"
  shows "moves v s s''"
  unfolding moves_def
proof (intro conjI allI impI)
  show "grows s s''" by (rule grows_trans [OF movesD(1) [OF assms(1)] movesD(1) [OF assms(2)]])
  fix t assume n: "p_hist s t = None" "p_hist s'' t \<noteq> None"
  show "p_lead s'' t = v"
  proof (cases "p_hist s' t")
    case None
    then show ?thesis using movesD(5) [OF assms(2)] n by blast
  next
    case (Some H)
    then show ?thesis using movesD(5) [OF assms(1) n(1)] growsD(3) [OF movesD(1) [OF assms(2)] Some] by simp
  qed
qed (use movesD(2-4) [OF assms(1)] movesD(2-4) [OF assms(2)] in simp_all)

lemma proto_step_moves:
  assumes "proto_inv M s" and "proto_step M v s s'"
  shows "moves v s s'"
  using assms(2)
proof cases
  case (campaign t)
  have "(v, t, v) \<notin> p_votes s" using votes_invD(3) [OF proto_invD(1) [OF assms(1)], of v t v] campaign(3) by auto
  then show ?thesis using campaign by (auto simp: moves_def grows_def)
qed (auto simp: moves_def grows_def)

lemma proto_step_acked:
  assumes "proto_inv M s" and "lead_acked s" and "proto_step M v s s'"
  shows "lead_acked s'"
proof -
  note inv = proto_invD [OF assms(1)]
  note g = movesD(1) [OF proto_step_moves [OF assms(1,3)]]
  have old: "(p_lead s' t, t, k) \<in> p_acks s'" if h: "p_hist s t \<noteq> None" "own_entry s t k" for t k
  proof -
    obtain H where H: "p_hist s t = Some H" using h(1) by auto
    have "(p_lead s t, t, k) \<in> p_acks s" using assms(2) h by (simp add: lead_acked_def)
    then show ?thesis using growsD(3) [OF g H] growsD(5) [OF g] by simp
  qed
  have same: ?thesis if "p_hist s' = p_hist s"
    unfolding lead_acked_def using old that by (simp add: own_entry_def history_def)
  from assms(3) show ?thesis
  proof cases
    case (win t Q)
    have "\<not> own_entry s' t k" for k
    proof
      assume "own_entry s' t k"
      then have k: "0 < k" "k \<le> length (p_log s v)" "le_term (p_log s v ! (k - 1)) = t"
        using win(1) by (simp_all add: own_entry_def history_def)
      have "elected M s t v" using win(6,7) by (auto simp: elected_def)
      then have "p_log s v = p_cand s t v"
        using inv(8) [OF win(2)] win(3-5) elected_has_chosen [OF assms(1)] by (auto simp: cand_ok_def)
      then have "\<forall>e \<in> set (p_log s v). le_term e < t" using logs_invD(5) [OF inv(3) win(5)] by simp
      moreover have "p_log s v ! (k - 1) \<in> set (p_log s v)" using k by simp
      ultimately show False using k(3) by auto
    qed
    moreover have "own_entry s' u k = own_entry s u k" if "u \<noteq> t" for u k
      using that win(1) by (simp add: own_entry_def history_def)
    moreover have "p_hist s' u = p_hist s u" if "u \<noteq> t" for u using that win(1) by simp
    ultimately show ?thesis unfolding lead_acked_def using old by metis
  next
    case (propose t e)
    show ?thesis
      unfolding lead_acked_def
    proof (intro allI impI)
      fix u k assume u: "p_hist s' u \<noteq> None" "own_entry s' u k"
      show "(p_lead s' u, u, k) \<in> p_acks s'"
      proof (cases "u = t")
        case False
        then show ?thesis using old [of u k] u propose(1) by (simp add: own_entry_def history_def)
      next
        case True
        show ?thesis
        proof (cases "k = length (p_log s v) + 1")
          case True
          then show ?thesis using propose(1,3,4) \<open>u = t\<close> by simp
        next
          case False
          then have "own_entry s u k" using u(2) propose(1,3,4) True by (auto simp: own_entry_def history_def nth_append split: if_splits)
          then show ?thesis using old [of u k] propose(3,4) True by simp
        qed
      qed
    qed
  qed (rule same, simp)+
qed

text \<open>Several steps of one node.\<close>

abbreviation acts :: "NodeId set \<Rightarrow> NodeId \<Rightarrow> proto \<Rightarrow> proto \<Rightarrow> bool" where
  "acts M v \<equiv> (proto_step M v)\<^sup>*\<^sup>*"

lemma acts_ok:
  assumes "acts M v s s'" and "proto_ok M s"
  shows "proto_ok M s' \<and> moves v s s'"
  using assms
proof (induction rule: rtranclp_induct)
  case (step s' s'')
  then have ok: "proto_ok M s'" "moves v s s'" by blast+
  then show ?case
    using proto_step_inv [OF _ step.hyps(2)] proto_step_acked [OF _ _ step.hyps(2)] proto_step_moves [OF _ step.hyps(2)] moves_trans
    unfolding proto_ok_def by blast
qed simp

text \<open>Runs from empty logs.\<close>

definition proto_start :: "NodeId set \<Rightarrow> proto \<Rightarrow> bool" where
  "proto_start M s \<longleftrightarrow> p_hist s = (\<lambda>_. None) \<and> p_votes s = {} \<and> p_acks s = {} \<and> p_chosen s = {} \<and>
     (\<forall>v \<in> M. p_log s v = [] \<and> p_commit s v = 0)"

inductive proto_reach :: "NodeId set \<Rightarrow> proto \<Rightarrow> bool" for M where
  start: "proto_start M s \<Longrightarrow> proto_reach M s"
| step: "proto_reach M s \<Longrightarrow> proto_step M v s s' \<Longrightarrow> proto_reach M s'"

lemma proto_start_ok: "proto_start M s \<Longrightarrow> proto_ok M s"
  by (simp add: proto_start_def proto_ok_def lead_acked_def proto_inv_def votes_inv_def hist_inv_def logs_inv_def good_def
      commit_ok_def cand_ok_def)

lemma proto_reach_ok: "proto_reach M s \<Longrightarrow> proto_ok M s"
proof (induction rule: proto_reach.induct)
  case (step s v s')
  then show ?case using acts_ok [OF r_into_rtranclp] by blast
qed (rule proto_start_ok)

lemma acts_reach: "acts M v s s' \<Longrightarrow> proto_reach M s \<Longrightarrow> proto_reach M s'"
  by (induction rule: rtranclp_induct) (auto intro: proto_reach.step)

end
