(* ===== verification/Raft_Full_Log.thy ===== *)
theory Raft_Full_Log
  imports Raft_Apply Raft_Protocol_Inv
begin

text \<open>
  A node's log as the end of a log that keeps every entry: \<open>holds_log L l\<close> says that \<open>l\<close> is \<open>L\<close> with the entries up to
  the snapshot boundary compacted away.  Each operation of \<^verbatim>\<open>src/raft/log.cpp\<close> is shown to be, on \<open>L\<close>, the operation of the
  protocol: appending, taking over a leader's entries, compacting (which changes nothing), adopting a snapshot.
  \<open>tracks M i L n\<close> adds what a node of a cluster without membership changes keeps: its invariant, its peers, and
  the order of its positions.
\<close>

section \<open>Logs\<close>

definition holds_log :: "LogEntry list \<Rightarrow> RaftLog \<Rightarrow> bool" where
  "holds_log L l \<longleftrightarrow> snapshot_index l \<le> length L \<and> lg_entries l = drop (snapshot_index l) L \<and>
     snapshot_term l = (if snapshot_index l = 0 then 0 else le_term (L ! (snapshot_index l - 1)))"

text \<open>An ordinary command, not a membership change.\<close>

definition plain :: "string \<Rightarrow> bool" where
  "plain c \<longleftrightarrow> TryDecodeConfChange c = Inr None"

definition entries_ok :: "LogEntry list \<Rightarrow> bool" where
  "entries_ok L \<longleftrightarrow> (\<forall>k < length L. le_index (L ! k) = k + 1 \<and> 0 < le_term (L ! k) \<and> plain (le_command (L ! k)))"

lemma entries_okD: "entries_ok L \<Longrightarrow> k < length L \<Longrightarrow> le_index (L ! k) = k + 1"
  "entries_ok L \<Longrightarrow> k < length L \<Longrightarrow> 0 < le_term (L ! k)" "entries_ok L \<Longrightarrow> k < length L \<Longrightarrow> plain (le_command (L ! k))"
  by (simp_all add: entries_ok_def)

lemma entries_ok_Nil [simp]: "entries_ok []"
  by (simp add: entries_ok_def)

lemma entries_ok_take: "entries_ok L \<Longrightarrow> entries_ok (take m L)"
  by (simp add: entries_ok_def)

lemma entries_ok_snoc:
  "entries_ok L \<Longrightarrow> 0 < t \<Longrightarrow> plain c \<Longrightarrow> entries_ok (L @ [\<lparr>le_index = length L + 1, le_term = t, le_command = c\<rparr>])"
  by (auto simp: entries_ok_def nth_append less_Suc_eq)

lemma holds_ok: "holds_log L l \<Longrightarrow> entries_ok L \<Longrightarrow> log_ok l"
  by (auto simp: holds_log_def log_ok_def entries_okD)

lemma holds_LastIndex: "holds_log L l \<Longrightarrow> entries_ok L \<Longrightarrow> LastIndex l = length L"
  using LastIndex_eq [OF holds_ok] by (simp add: holds_log_def)

lemma holds_LastTerm: "holds_log L l \<Longrightarrow> entries_ok L \<Longrightarrow> LastTerm l = last_term L"
  by (auto simp: holds_log_def LastTerm_def last_term_def last_conv_nth last_drop)

lemma holds_TermAt:
  assumes "holds_log L l" and "entries_ok L" and "snapshot_index l \<le> i" and "0 < i" and "i \<le> length L"
  shows "TermAt l i = le_term (L ! (i - 1))"
  using assms holds_LastIndex [OF assms(1,2)] by (auto simp: holds_log_def TermAt_def)

lemma holds_TermAt_pos:
  assumes "holds_log L l" and "entries_ok L" and "0 < TermAt l i"
  shows "snapshot_index l \<le> i \<and> 0 < i \<and> i \<le> length L"
  using assms holds_LastIndex [OF assms(1,2)] by (auto simp: holds_log_def TermAt_def split: if_splits)

lemma holds_At:
  assumes "holds_log L l" and "entries_ok L"
  shows "At l i = (if snapshot_index l < i \<and> i \<le> length L then Some (L ! (i - 1)) else None)"
  using assms holds_LastIndex [OF assms] by (auto simp: At_def holds_log_def)

lemma holds_log_file [simp]:
  "holds_log L (log_Save l) = holds_log L l" "holds_log L (SetAppliedIndex i l) = holds_log L l"
  by (simp_all add: holds_log_def SetAppliedIndex_def)

lemma holds_Append:
  assumes "holds_log L l" and "entries_ok L"
  shows "holds_log (L @ [\<lparr>le_index = length L + 1, le_term = t, le_command = c\<rparr>]) (snd (log_Append t c l))"
  using assms holds_LastIndex [OF assms] by (auto simp: holds_log_def log_Append_def Let_def nth_append)

text \<open>Compacting to a snapshot of \<open>H\<close>'s first \<open>i\<close> entries.\<close>

lemma holds_Compact:
  assumes "holds_log L l" and "entries_ok L" and "snapshot_index l < i" and "i \<le> length H"
    and "t = le_term (H ! (i - 1))" and "0 < t"
  shows "holds_log (if i \<le> length L \<and> le_term (L ! (i - 1)) = t then L else take i H) (CompactTo i t l)"
proof -
  have "(i \<le> LastIndex l \<and> TermAt l i = t) = (i \<le> length L \<and> le_term (L ! (i - 1)) = t)"
    using holds_LastIndex [OF assms(1,2)] holds_TermAt [OF assms(1,2), of i] assms(3) by auto
  then have "CompactTo i t l = log_Save (l\<lparr>lg_entries := (if i \<le> length L \<and> le_term (L ! (i - 1)) = t
      then drop (i - snapshot_index l) (lg_entries l) else []), snapshot_index := i, snapshot_term := t\<rparr>)"
    using assms(3) by (simp add: CompactTo_def Let_def)
  then show ?thesis using assms by (simp add: holds_log_def)
qed

lemma holds_Compact_own:
  assumes "holds_log L l" and "entries_ok L" and "snapshot_index l \<le> i" and "i \<le> length L"
  shows "holds_log L (CompactTo i (TermAt l i) l)"
proof (cases "snapshot_index l < i")
  case True
  then have t: "TermAt l i = le_term (L ! (i - 1))" using holds_TermAt [OF assms(1-3)] assms(4) by simp
  have "0 < le_term (L ! (i - 1))" using entries_okD(2) [OF assms(2), of "i - 1"] True assms(4) by simp
  from holds_Compact [OF assms(1,2) True assms(4) refl this] t assms(4) show ?thesis by simp
qed (use assms in \<open>simp add: CompactTo_def\<close>)

section \<open>Accepting entries\<close>

lemma reindex_id: "(\<And>k. k < length es \<Longrightarrow> le_index (es ! k) = n + k) \<Longrightarrow> reindex n es = es"
  by (rule nth_equalityI) simp_all

lemma drop_split_take: "si \<le> q \<Longrightarrow> q \<le> m \<Longrightarrow> take (q - si) (drop si H) @ drop q (take m H) = drop si (take m H)"
proof -
  assume le: "si \<le> q" "q \<le> m"
  have "take (q - si) (drop si (take m H)) = take (q - si) (drop si H)" using le by (simp add: drop_take min_absorb1)
  moreover have "drop (q - si) (drop si (take m H)) = drop q (take m H)" using le by simp
  ultimately show ?thesis by (metis append_take_drop_id)
qed

lemma holds_AppendEntries:
  assumes "holds_log L l" and "entries_ok L" and "entries_ok H"
    and "prev \<le> m" and "m \<le> length H" and "es = take (m - prev) (drop prev H)"
    and "0 < prev \<Longrightarrow> pterm = le_term (H ! (prev - 1))"
    and "has_prefix L (snapshot_index l) H"
    and "\<And>k. k < length L \<Longrightarrow> k < length H \<Longrightarrow> le_term (L ! k) = le_term (H ! k) \<Longrightarrow> has_prefix L (k + 1) H"
    and "AppendEntriesFrom prev pterm es l = (True, l')"
  shows "prev \<le> length L \<and> (prev = 0 \<or> le_term (L ! (prev - 1)) = le_term (H ! (prev - 1))) \<and>
    holds_log (take_over prev m H L) l'"
proof -
  let ?si = "snapshot_index l"
  have ok: "log_ok l" by (rule holds_ok [OF assms(1,2)])
  have pt: "prev = 0 \<or> TermAt l prev = pterm" using assms(10) by (auto simp: AppendEntriesFrom_def split: if_splits)
  have p: "?si \<le> prev \<and> prev \<le> length L \<and> le_term (L ! (prev - 1)) = le_term (H ! (prev - 1))" if "0 < prev"
  proof -
    have t: "pterm = le_term (H ! (prev - 1))" by (rule assms(7) [OF that])
    then have "0 < TermAt l prev" using entries_okD(2) [OF assms(3), of "prev - 1"] that pt assms(4,5) by simp
    from holds_TermAt_pos [OF assms(1,2) this] holds_TermAt [OF assms(1,2), of prev] t pt that show ?thesis by simp
  qed
  have prev: "prev \<le> length L" "prev = 0 \<or> le_term (L ! (prev - 1)) = le_term (H ! (prev - 1))" using p by auto
  have last: "prev \<le> LastIndex l" using prev(1) holds_LastIndex [OF assms(1,2)] by simp
  define q where "q = max prev ?si"
  define t where "t = msg_tail l prev es"
  define j where "j = matching (drop (prev - ?si) (lg_entries l)) t"
  have l: "lg_entries l = drop ?si L" "?si \<le> length L" using assms(1) by (simp_all add: holds_log_def)
  have q: "?si \<le> q" "prev \<le> q" "q \<le> length L" "q - ?si = prev - ?si"
    using prev(1) l(2) by (auto simp: q_def)
  have t: "t = drop q (take m H)" "length t = m - q"
  proof -
    show "t = drop q (take m H)" using assms(4) by (auto simp: t_def msg_tail_def assms(6) q_def drop_take max_def)
    then show "length t = m - q" using assms(5) by simp
  qed
  have "prev - ?si + ?si = q" by (simp add: q_def)
  then have d: "drop (prev - ?si) (lg_entries l) = drop q L" by (simp add: l)
  have j: "j \<le> length L - q" "j \<le> m - q" using matching_le [of "drop q L" t] by (simp_all add: j_def d t(2))
  have eq: "le_term (L ! (q + k)) = le_term (H ! (q + k))" if "k < j" for k
    using matching_terms [of k "drop q L" t] that j assms(5) q(3) by (simp add: j_def d t(1))
  have agree: "le_term (L ! k) = le_term (H ! k)" if "prev \<le> k" "k < q" for k
    using that p has_prefix_nth [OF assms(8), of k] by (cases "prev = 0") (auto simp: q_def)
  note closed = AppendEntries_closed [OF ok last pt, of es, folded t_def, folded j_def]
  show ?thesis
  proof (cases "j = length t")
    case True
    then have l': "l' = l" using closed assms(10) by simp
    have "m \<le> length L" using True j q t(2) by (cases "q \<le> m") auto
    moreover have "le_term (L ! k) = le_term (H ! k)" if "prev \<le> k" "k < m" for k
      using agree [OF that(1)] eq [of "k - q"] that True t(2) by (cases "k < q") auto
    ultimately have "take_over prev m H L = L" by (simp add: take_over_def)
    then show ?thesis using prev assms(1) l' by simp
  next
    case False
    then have lt: "j < length t" "q + j < m" using j t(2) by auto
    have l': "lg_entries l' = take (q - ?si + j) (drop ?si L) @ reindex (q + j + 1) (drop j t)" "snapshot_index l' = ?si"
      "snapshot_term l' = snapshot_term l"
    proof -
      have "?si + 1 + (prev - ?si) + j = q + j + 1" using q(1,4) by linarith
      then show "lg_entries l' = take (q - ?si + j) (drop ?si L) @ reindex (q + j + 1) (drop j t)"
        using closed assms(10) False q(4) l(1) by simp
      show "snapshot_index l' = ?si" "snapshot_term l' = snapshot_term l"
        using AppendEntries_fields [of prev pterm es l] assms(10) by simp_all
    qed
    have pre: "has_prefix L (q + j) H"
    proof (cases "j = 0")
      case True
      show ?thesis
      proof (cases "prev \<le> ?si")
        case True
        then show ?thesis using assms(8) \<open>j = 0\<close> by (simp add: q_def max_def)
      next
        case no: False
        then have "prev - 1 < length L" "prev - 1 < length H" "le_term (L ! (prev - 1)) = le_term (H ! (prev - 1))"
          using prev assms(4,5) by auto
        from assms(9) [OF this] no True show ?thesis by (simp add: q_def max_def)
      qed
    next
      case False
      then have "q + j - 1 < length L" "q + j - 1 < length H" "le_term (L ! (q + j - 1)) = le_term (H ! (q + j - 1))"
        using eq [of "j - 1"] j q(3) lt assms(5) by auto
      from assms(9) [OF this] False show ?thesis by simp
    qed
    have over: "take_over prev m H L = take m H"
    proof -
      have "\<not> (m \<le> length L \<and> (\<forall>k. prev \<le> k \<longrightarrow> k < m \<longrightarrow> le_term (L ! k) = le_term (H ! k)))"
      proof
        assume a: "m \<le> length L \<and> (\<forall>k. prev \<le> k \<longrightarrow> k < m \<longrightarrow> le_term (L ! k) = le_term (H ! k))"
        then have "q + j < length L" using lt by linarith
        then have "j < length (drop q L)" by simp
        with matching_max [of "drop q L" t] lt have "le_term (L ! (q + j)) \<noteq> le_term (H ! (q + j))"
          by (simp add: j_def d t(1))
        with a lt q(2) show False by simp
      qed
      then show ?thesis by (auto simp: take_over_def)
    qed
    have "reindex (q + j + 1) (drop j t) = drop j t"
      by (rule reindex_id) (use lt entries_okD(1) [OF assms(3)] assms(5) t(2) in \<open>simp add: t(1)\<close>)
    moreover have "drop j t = drop (q + j) (take m H)" by (simp add: t(1) add.commute)
    moreover have "take (q - ?si + j) (drop ?si L) = take (q + j - ?si) (drop ?si H)"
    proof -
      have "drop ?si (take (q + j) L) = drop ?si (take (q + j) H)" using pre by (simp add: has_prefix_def)
      then show ?thesis using q(1) by (simp add: drop_take)
    qed
    ultimately have e: "lg_entries l' = drop ?si (take m H)"
      unfolding l'(1) using drop_split_take [of ?si "q + j" m H] q(1) lt(2) by simp
    have "snapshot_term l = (if ?si = 0 then 0 else le_term (take m H ! (?si - 1)))"
      using assms(1) has_prefix_nth [OF assms(8), of "?si - 1"] lt(2) q(1) by (simp add: holds_log_def)
    then show ?thesis using prev e l'(2,3) lt(2) q(1) assms(5) by (simp add: over holds_log_def)
  qed
qed

section \<open>Nodes\<close>

text \<open>The node's peers are the other members, in its table and in its membership file.\<close>

definition settled :: "NodeId set \<Rightarrow> NodeId \<Rightarrow> 's RaftNode \<Rightarrow> bool" where
  "settled M i n \<longleftrightarrow> node_id n = i \<and> fst ` set (peers n) = M - {i} \<and> fst ` set (base_peers (mship n)) = M - {i}"

definition tracks :: "NodeId set \<Rightarrow> NodeId \<Rightarrow> LogEntry list \<Rightarrow> 's RaftNode \<Rightarrow> bool" where
  "tracks M i L n \<longleftrightarrow> node_ok n \<and> settled M i n \<and> holds_log L (rlog n) \<and> entries_ok L \<and>
     last_applied n \<le> commit_index n \<and> commit_index n \<le> length L"

lemma tracksD:
  assumes "tracks M i L n"
  shows "node_ok n" "settled M i n" "holds_log L (rlog n)" "entries_ok L" "last_applied n \<le> commit_index n"
    "commit_index n \<le> length L" "node_id n = i" "fst ` set (peers n) = M - {i}"
    "fst ` set (base_peers (mship n)) = M - {i}" "omap_ok (peers n)" "omap_ok (base_peers (mship n))" "LastIndex (rlog n) = length L"
    "LastTerm (rlog n) = last_term L" "snapshot_index (rlog n) \<le> last_applied n" "log_ok (rlog n)"
  using assms node_okD [of n] holds_LastIndex holds_LastTerm by (auto simp: tracks_def settled_def)

lemma tracks_same:
  assumes "tracks M i L n" and "node_ok n'" and "rlog n' = rlog n" and "node_id n' = node_id n" and "peers n' = peers n"
    and "mship n' = mship n" and "last_applied n' = last_applied n" and "commit_index n' = commit_index n"
  shows "tracks M i L n'"
  using assms by (simp add: tracks_def settled_def)

text \<open>Where the log has no membership change, refreshing the membership takes the peers of the membership file.\<close>

lemma efor_same: "(\<And>x. x \<in> set xs \<Longrightarrow> f x s = (Inr (), s)) \<Longrightarrow> efor xs f s = (Inr (), s)"
  by (induction xs) (simp_all add: eret_def)

lemma plain_At:
  assumes "holds_log L (rlog n)" and "entries_ok L" and "At (rlog n) k = Some e"
  shows "TryDecodeConfChange (le_command e) = Inr None"
  using assms holds_At [OF assms(1,2), of k] entries_okD(3) [OF assms(2), of "k - 1"] by (auto simp: plain_def split: if_splits)

lemma plain_entry:
  assumes "holds_log L (rlog n)" and "entries_ok L"
  shows "refresh_entry n k st = (Inr (), st)" and "fold_entry n k st' = (Inr (), st')"
  using plain_At [OF assms, of k] by (simp_all add: refresh_entry_def fold_entry_def split: option.split)

lemma Refresh_plain:
  assumes "holds_log L (rlog n)" and "entries_ok L"
  shows "RefreshMembership n = (Inr (), adopt_peers (base_peers (mship n))
    (n\<lparr>pending_self_removal_index := 0, self_is_member := ms_self_is_member (mship n)\<rparr>))"
  using efor_same [of _ "refresh_entry n", OF plain_entry(1) [OF assms]] by (simp add: RefreshMembership_def del: upt_Suc)

lemma Refresh_tracks:
  assumes "tracks M i L n"
  shows "fst (RefreshMembership n) = Inr ()" and "tracks M i L (snd (RefreshMembership n))"
    and "peers (snd (RefreshMembership n)) = base_peers (mship n)"
proof -
  note t = tracksD [OF assms]
  show "fst (RefreshMembership n) = Inr ()" using Refresh_plain [OF t(3,4)] by simp
  show p: "peers (snd (RefreshMembership n)) = base_peers (mship n)"
    using Refresh_plain [OF t(3,4)] t(10,11) by (simp add: adopt_peers_peers)
  have "node_ok (snd (RefreshMembership n))" by (rule keepsD [OF keeps_node_Refresh t(1)])
  with assms p show "tracks M i L (snd (RefreshMembership n))" by (simp add: tracks_def settled_def)
qed

lemma keeps_tracks_Refresh [keeps_intros]: "keeps (tracks M i L) RefreshMembership"
  by (rule keepsI) (rule Refresh_tracks)

lemma tracks_role: "tracks M i L n \<Longrightarrow> r \<noteq> Leader \<Longrightarrow> tracks M i L (n\<lparr>role := r\<rparr>)"
  by (rule tracks_same) (simp_all add: tracksD(1) node_ok_role)

lemma tracks_Follower: "tracks M i L n \<Longrightarrow> tracks M i L (n\<lparr>role := Follower\<rparr>)"
  by (simp add: tracks_role)

lemma tracks_Reset [simp]: "tracks M i L (ResetElectionDeadline now rnd n) = tracks M i L n"
  by (simp add: tracks_def settled_def ResetElectionDeadline_def)

lemma tracks_BecomeFollower: "tracks M i L n \<Longrightarrow> tracks M i L (BecomeFollower now rnd t n)"
  by (rule tracks_same) (simp_all add: tracksD(1) node_ok_BecomeFollower)

lemma follow_leader_tables [simp]:
  "peers (follow_leader now rnd t leader n) = peers n" "mship (follow_leader now rnd t leader n) = mship n"
  by (simp_all add: follow_leader_def Let_def)

lemma tracks_follow_leader: "tracks M i L n \<Longrightarrow> tracks M i L (follow_leader now rnd t leader n)"
  by (rule tracks_same) (simp_all add: tracksD(1) node_ok_follow)

text \<open>Applying and compacting leave the full log.\<close>

lemma ApplyCommitted_tracks:
  fixes n :: "'s RaftNode"
  assumes "tracks M i L n"
  shows "fst (ApplyCommitted cb n) = Inr ()" and "tracks M i L (snd (ApplyCommitted cb n))"
proof -
  note t = tracksD [OF assms]
  let ?xs = "[last_applied n ..< commit_index n]"
  let ?I = "\<lambda>m :: 's RaftNode. node_ok m \<and> holds_log L (rlog m) \<and> settled M i m \<and> commit_index m = commit_index n"
  have step: "keeps ?I (apply_step cb)"
  proof (rule keepsI)
    fix m assume I: "?I m"
    note ok = node_okD(6,8) [OF conjunct1 [OF I]]
    show "?I (snd (apply_step cb m))"
      using I keepsD [OF keeps_node_apply, of m cb] apply_step_log(1) [OF ok, of cb] by (simp add: settled_def)
  qed
  obtain n1 where n1: "efor ?xs (\<lambda>_. apply_step cb) n = (Inr (), n1)" "last_applied n1 = commit_index n"
    using apply_loop_run [OF t(1), of ?xs cb] t(5) by auto
  have I: "?I n1" using keepsD [OF keeps_for [OF step], of n ?xs] t n1(1) by simp
  have fold: "efor [snapshot_index (rlog n1) + 1 ..< last_applied n1 + 1] (fold_entry n1) st = (Inr (), st)" for st
    using I t(4) by (intro efor_same plain_entry(2)) auto
  have c: "compact_applied n1 = (Inr (), if last_applied n1 < snapshot_index (rlog n1) \<or>
        kCompactionThreshold \<le> last_applied n1 - snapshot_index (rlog n1)
      then n1\<lparr>mship := mship n1, rlog := CompactTo (last_applied n1) (TermAt (rlog n1) (last_applied n1)) (rlog n1),
        apply_errors := filter (\<lambda>e. snapshot_index (rlog n1) < fst e) (apply_errors n1)\<rparr> else n1)"
    using fold by (simp add: compact_applied_def Let_def del: upt_Suc)
  have a: "ApplyCommitted cb n = (Inr (), snd (compact_applied n1))"
    using n1(1) c by (simp add: ApplyCommitted_def ebind_def)
  have "node_ok (snd (compact_applied n1))" using keepsD [OF keeps_node_compact] I by blast
  moreover have "holds_log L (rlog (snd (compact_applied n1)))"
    using c holds_Compact_own [of L "rlog n1" "last_applied n1"] I n1(2) t(4,6) node_okD(10) [of n1] by simp
  moreover have "settled M i (snd (compact_applied n1))" using c I by (simp add: settled_def)
  moreover have "last_applied (snd (compact_applied n1)) = commit_index n" "commit_index (snd (compact_applied n1)) = commit_index n"
    using I n1(2) by simp_all
  ultimately show "fst (ApplyCommitted cb n) = Inr ()" "tracks M i L (snd (ApplyCommitted cb n))"
    using a t(4,6) by (simp_all add: tracks_def)
qed

lemma keeps_tracks_Apply [keeps_intros]: "keeps (tracks M i L) (ApplyCommitted cb)"
  by (rule keepsI) (rule ApplyCommitted_tracks)

lemma keeps_tracks_step_down [keeps_intros]: "keeps (tracks M i L) step_down_if_removed"
  by (rule keeps_step_down) (simp_all add: keeps_intros tracks_Follower)

end
