(* ===== verification/Raft_Handlers.thy ===== *)
theory Raft_Handlers
  imports Raft_Full_Log
begin

text \<open>
  What each critical section of \<^verbatim>\<open>src/raft/node.cpp\<close> does to the full log a node tracks, to its commit index and to
  a leader's tables \<open>next_index\<close> and \<open>match_index\<close>, in a cluster without membership changes: the facts that the
  lemmas of \<open>Raft_Simulation\<close> is made of.
\<close>

section \<open>The leader's tables\<close>

text \<open>No next index is beyond \<open>B\<close>, and every match index has the property \<open>Q\<close>.\<close>

definition tables :: "NodeId set \<Rightarrow> LogIndex \<Rightarrow> (NodeId \<Rightarrow> LogIndex \<Rightarrow> bool) \<Rightarrow> 's RaftNode \<Rightarrow> bool" where
  "tables K B Q n \<longleftrightarrow> (\<forall>p \<in> K. \<forall>x. map_of (next_index n) p = Some x \<longrightarrow> x \<le> B) \<and>
     (\<forall>p x. map_of (match_index n) p = Some x \<longrightarrow> Q p x)"

lemma tables_same: "next_index n' = next_index n \<Longrightarrow> match_index n' = match_index n \<Longrightarrow> tables K B Q n' = tables K B Q n"
  by (simp add: tables_def)

lemma tables_mono: "tables K B Q n \<Longrightarrow> B \<le> B' \<Longrightarrow> (\<And>p x. Q p x \<Longrightarrow> Q' p x) \<Longrightarrow> tables K B' Q' n"
  unfolding tables_def by (meson le_trans)

lemma tables_next: "omap_ok (next_index n) \<Longrightarrow> tables K B Q n \<Longrightarrow> x \<le> B \<Longrightarrow> tables K B Q (n\<lparr>next_index := omap_set p x (next_index n)\<rparr>)"
  by (auto simp: tables_def split: if_splits)

lemma tables_match: "omap_ok (match_index n) \<Longrightarrow> tables K B Q n \<Longrightarrow> Q p x \<Longrightarrow> tables K B Q (n\<lparr>match_index := omap_set p x (match_index n)\<rparr>)"
  by (auto simp: tables_def split: if_splits)

lemma tables_adopt:
  fixes n :: "'a RaftNode"
  assumes "1 \<le> B" and "\<And>p. Q p 0" and "peer_part n \<and> tables K B Q n"
  shows "peer_part (adopt_peers e n) \<and> tables K B Q (adopt_peers e n)"
proof -
  have a: "peer_part (adopt_peer m p) \<and> tables K B Q (adopt_peer m p)" if m: "peer_part m \<and> tables K B Q m" for m :: "'a RaftNode" and p
    using m assms(1,2) adopt_peer_part [of m p] by (auto simp: tables_def adopt_peer_def Let_def peer_part_def split: if_splits)
  have d: "peer_part (drop_peer m p) \<and> tables K B Q (drop_peer m p)" if m: "peer_part m \<and> tables K B Q m" for m :: "'a RaftNode" and p
    using m drop_peer_part [of m p] by (auto simp: tables_def drop_peer_def peer_part_def split: if_splits)
  show ?thesis
    unfolding adopt_peers_def Let_def
    by (rule foldl_keeps [where P = "\<lambda>m. peer_part m \<and> tables K B Q m"], erule d,
        rule foldl_keeps [where P = "\<lambda>m. peer_part m \<and> tables K B Q m"], erule a, rule assms(3))
qed

definition tracks_tables ::
  "NodeId set \<Rightarrow> NodeId \<Rightarrow> LogEntry list \<Rightarrow> LogIndex \<Rightarrow> (NodeId \<Rightarrow> LogIndex \<Rightarrow> bool) \<Rightarrow> 's RaftNode \<Rightarrow> bool" where
  "tracks_tables M i L B Q n \<longleftrightarrow> tracks M i L n \<and> 1 \<le> B \<and> (\<forall>p. Q p 0) \<and> tables (M - {i}) B Q n"

lemma tracks_tablesD:
  assumes "tracks_tables M i L B Q n"
  shows "tracks M i L n" "1 \<le> B" "Q p 0" "tables (M - {i}) B Q n"
  using assms by (simp_all add: tracks_tables_def)

lemma keeps_tables_Refresh [keeps_intros]: "keeps (tracks_tables M i L B Q) RefreshMembership"
proof (rule keepsI)
  fix n :: "'a RaftNode" assume a: "tracks_tables M i L B Q n"
  note t = tracks_tablesD [OF a] note tr = tracksD [OF t(1)]
  let ?n = "n\<lparr>pending_self_removal_index := 0, self_is_member := ms_self_is_member (mship n)\<rparr>"
  have "peer_part ?n \<and> tables (M - {i}) B Q ?n"
    using node_okD(4) [OF tr(1)] t(4) by (simp add: peer_part_def tables_def)
  from tables_adopt [OF t(2,3) this, of "base_peers (mship n)"] Refresh_plain [OF tr(3,4)]
  have "tables (M - {i}) B Q (snd (RefreshMembership n))" by simp
  with t Refresh_tracks(2) [OF t(1)] show "tracks_tables M i L B Q (snd (RefreshMembership n))" by (simp add: tracks_tables_def)
qed

lemma tables_Apply [simp]: "tables K B Q (snd (ApplyCommitted cb n)) = tables K B Q n"
  by (rule tables_same) simp_all

lemma keeps_tables_Apply [keeps_intros]: "keeps (tracks_tables M i L B Q) (ApplyCommitted cb)"
  by (rule keepsI) (simp add: tracks_tables_def ApplyCommitted_tracks)

lemma tables_role [simp]: "tables K B Q (n\<lparr>role := r\<rparr>) = tables K B Q n" "tables K B Q (n\<lparr>commit_index := c\<rparr>) = tables K B Q n"
  by (simp_all add: tables_def)

lemma keeps_tables_step_down [keeps_intros]: "keeps (tracks_tables M i L B Q) step_down_if_removed"
  by (rule keeps_step_down) (simp_all add: keeps_intros tracks_tables_def tracks_Follower)

section \<open>The commit rule\<close>

text \<open>The members whose match index, or the leader's own log, reaches an index.\<close>

lemma majority_set:
  assumes "tracks M i L n" and "role n = Leader" and "finite M" and "i \<in> M" and "tables K B Q n"
    and "length (peers n) + 1 < 2 * acked n k" and "0 < k"
  obtains S where "majority_of M S" and "\<forall>p \<in> S. p = i \<or> (\<exists>x. k \<le> x \<and> Q p x)"
proof -
  note t = tracksD [OF assms(1)]
  have p: "omap_ok (match_index n)" "dom (map_of (match_index n)) = dom (map_of (peers n))"
    using node_okD(4) [OF t(1)] assms(2) by (simp_all add: peer_part_def)
  define A where "A = {p. \<exists>x. map_of (match_index n) p = Some x \<and> k \<le> x}"
  let ?F = "filter (\<lambda>e. k \<le> snd e) (match_index n)"
  have A: "A = fst ` set ?F"
    unfolding A_def by (force simp: omap_mem_iff [OF p(1), symmetric])
  have "distinct (map fst ?F)" using omap_ok_distinct [OF omap_ok_filter [OF p(1)]] .
  then have cA: "card A = length ?F" unfolding A using distinct_card [of "map fst ?F"] by simp
  have "A \<subseteq> M - {i}"
  proof -
    have "A \<subseteq> dom (map_of (peers n))" using p(2) by (auto simp: A_def)
    then show ?thesis using t(8) by (auto simp: dom_map_of_conv_image_fst)
  qed
  have fin: "finite A" unfolding A by simp
  have len: "length (peers n) + 1 = card M"
  proof -
    have "length (peers n) = card (M - {i})" using distinct_card [OF omap_ok_distinct [OF t(10)]] t(8) by simp
    then show ?thesis using card.remove [OF assms(3,4)] by simp
  qed
  have "card M < 2 * card (insert i A)"
    using assms(6) len cA fin \<open>A \<subseteq> M - {i}\<close> by (subst card_insert_disjoint) (auto simp: acked_def split: if_splits)
  then have "majority_of M (insert i A)" using \<open>A \<subseteq> M - {i}\<close> assms(3,4) by (auto simp: majority_of_def)
  moreover have "\<forall>p \<in> insert i A. p = i \<or> (\<exists>x. k \<le> x \<and> Q p x)"
    using assms(5) by (auto simp: A_def tables_def)
  ultimately show thesis by (rule that)
qed

text \<open>The new commit index of a leader, if there is one.\<close>

definition may_commit :: "NodeId set \<Rightarrow> NodeId \<Rightarrow> LogEntry list \<Rightarrow> Term \<Rightarrow> (NodeId \<Rightarrow> LogIndex \<Rightarrow> bool) \<Rightarrow> LogIndex \<Rightarrow> bool" where
  "may_commit M i L t Q k \<longleftrightarrow> 0 < k \<and> k \<le> length L \<and> le_term (L ! (k - 1)) = t \<and>
     (\<exists>S. majority_of M S \<and> (\<forall>p \<in> S. p = i \<or> (\<exists>x. k \<le> x \<and> Q p x)))"

lemma MaybeAdvance_tracks:
  fixes cb :: "'s callbacks" and n :: "'s RaftNode"
  assumes "tracks_tables M i L B Q n" and "role n = Leader" and "finite M" and "i \<in> M" and "0 < term_of n"
  defines "n' \<equiv> snd (MaybeAdvanceCommitIndex cb n)"
  shows "tracks_tables M i L B Q n'" and "hard n' = hard n" and "role n' = Leader \<or> role n' = Follower"
    and "commit_index n' = commit_index n \<or> may_commit M i L (term_of n) Q (commit_index n')"
proof -
  note t = tracks_tablesD [OF assms(1)] note tr = tracksD [OF t(1)]
  show "hard n' = hard n" by (simp add: n'_def)
  show "role n' = Leader \<or> role n' = Follower"
    using keepsD [OF keeps_role_advance, of n n cb] assms(2) by (auto simp: n'_def role_evolves_def)
  let ?m = "majority_index n"
  have "tracks_tables M i L B Q n' \<and> (commit_index n' = commit_index n \<or> may_commit M i L (term_of n) Q (commit_index n'))"
  proof (cases "commit_index n < ?m \<and> TermAt (rlog n) ?m = term_of n")
    case False
    then show ?thesis using assms(1) unfolding n'_def MaybeAdvanceCommitIndex_def if_not_P [OF False] by simp
  next
    case True
    have m: "snapshot_index (rlog n) \<le> ?m" "0 < ?m" "?m \<le> length L"
      using holds_TermAt_pos [OF tr(3,4), of ?m] True assms(5) by simp_all
    have "le_term (L ! (?m - 1)) = term_of n" using holds_TermAt [OF tr(3,4) m(1-3)] True by simp
    moreover obtain S where "majority_of M S" "\<forall>p \<in> S. p = i \<or> (\<exists>x. ?m \<le> x \<and> Q p x)"
      using majority_set [OF t(1) assms(2-4) t(4) majority_index_acked(1) [OF tr(1) assms(2)] m(2)] .
    ultimately have mc: "may_commit M i L (term_of n) Q ?m" using m by (auto simp: may_commit_def)
    have "tracks M i L (n\<lparr>commit_index := ?m\<rparr>)"
      using t(1) True m(3) by (simp add: tracks_def settled_def)
    then have "tracks_tables M i L B Q (n\<lparr>commit_index := ?m\<rparr>)" using t by (simp add: tracks_tables_def)
    moreover have "keeps (tracks_tables M i L B Q) (ebind (ApplyCommitted cb) (\<lambda>_. step_down_if_removed))"
      by (intro keeps_intros)
    ultimately have "tracks_tables M i L B Q n'"
      using True by (simp add: n'_def MaybeAdvanceCommitIndex_def keepsD)
    then show ?thesis using mc True MaybeAdvance_commit [of cb n] by (simp add: n'_def)
  qed
  then show "tracks_tables M i L B Q n'" "commit_index n' = commit_index n \<or> may_commit M i L (term_of n) Q (commit_index n')"
    by blast+
qed

section \<open>Elections\<close>

lemma set_all_look:
  assumes "omap_ok m"
  shows "map_of (foldl (\<lambda>m p. omap_set (fst p) v m) m ps) k = (if k \<in> fst ` set ps then Some v else map_of m k)"
proof -
  have "omap_ok (foldl (\<lambda>m p. omap_set (fst p) v m) m ps) \<and>
      map_of (foldl (\<lambda>m p. omap_set (fst p) v m) m ps) k = (if k \<in> fst ` set ps then Some v else map_of m k)"
    using assms by (induction ps arbitrary: m) auto
  then show ?thesis by blast
qed

lemma BecomeLeader_tracks:
  fixes now :: nat and n :: "'s RaftNode"
  assumes "tracks M i L n"
  defines "n' \<equiv> snd (BecomeLeader now n)"
  shows "fst (BecomeLeader now n) = Inr ()" and "tracks M i L n'" and "role n' = Leader" and "hard n' = hard n"
    and "commit_index n' = commit_index n" and "tables (M - {i}) (length L + 1) (\<lambda>_ x. x = 0) n'"
proof -
  obtain n1 where r: "RefreshMembership n = (Inr (), n1)" using Refresh_tracks(1) [OF assms(1)] by (metis prod.collapse)
  have n1: "tracks M i L n1" "hard n1 = hard n" "commit_index n1 = commit_index n"
    using Refresh_tracks(2) [OF assms(1)] RefreshMembership_pair [OF r] r by simp_all
  note t = tracksD [OF n1(1)]
  define m where "m = n1\<lparr>role := Leader, leader_hint := node_id n1, next_heartbeat_time := now, replication_in_flight := {},
       next_index := foldl (\<lambda>m p. omap_set (fst p) (LastIndex (rlog n1) + 1) m) (next_index n1) (peers n1),
       match_index := foldl (\<lambda>m p. omap_set (fst p) 0 m) (match_index n1) (peers n1)\<rparr>"
  have b: "BecomeLeader now n = (Inr (), m)" using r by (simp add: BecomeLeader_def ebind_def m_def Let_def)
  have n': "n' = m" using b by (simp add: n'_def)
  show "fst (BecomeLeader now n) = Inr ()" "role n' = Leader" "hard n' = hard n" "commit_index n' = commit_index n"
    using b n1 by (simp_all add: n' m_def)
  have "node_ok m" using keepsD [OF keeps_node_BecomeLeader tracksD(1) [OF assms(1)], of now] b by simp
  then show "tracks M i L n'" unfolding n' by (rule tracks_same [OF n1(1)]) (simp_all add: m_def)
  have p: "omap_ok (next_index n1)" "omap_ok (match_index n1)" "dom (map_of (match_index n1)) \<subseteq> dom (map_of (peers n1))"
    using node_okD(4) [OF t(1)] by (simp_all add: peer_part_def)
  have "x = 0" if "map_of (match_index m) p = Some x" for p x
  proof -
    have "fst ` set (match_index n1) \<subseteq> fst ` set (peers n1)" using p(3) by (simp add: dom_map_of_conv_image_fst)
    then have "map_of (match_index n1) p = None" if "p \<notin> fst ` set (peers n1)" using that by (auto simp: map_of_eq_None_iff)
    then show ?thesis using that by (auto simp: m_def set_all_look [OF p(2)] split: if_splits)
  qed
  moreover have "x \<le> length L + 1" if "p \<in> M - {i}" "map_of (next_index m) p = Some x" for p x
    using that t(8,12) by (auto simp: m_def set_all_look [OF p(1)])
  ultimately show "tables (M - {i}) (length L + 1) (\<lambda>_ x. x = 0) n'" unfolding n' tables_def by blast
qed

lemma tracks_stand:
  assumes "tracks M i L n"
  shows "tracks M i L (ResetElectionDeadline now rnd (n\<lparr>hard := ps_Set t v (hard n), role := Candidate, votes_received := k\<rparr>))"
proof -
  have "node_ok (n\<lparr>hard := ps_Set t v (hard n), role := Candidate, votes_received := k\<rparr>)"
    using node_ok_role [OF node_ok_hard [OF tracksD(1) [OF assms], of "ps_Set t v (hard n)"], of Candidate] by simp
  then show ?thesis unfolding tracks_Reset by (rule tracks_same [OF assms]) simp_all
qed

lemma StartElection_tracks:
  assumes "tracks M i L n" and "StartElection now rnd n = (r, n')"
  shows "tracks M i L n'" and "commit_index n' = commit_index n"
    and "hard n' = hard n \<Longrightarrow> role n' = role n \<and> (\<forall>B Q. tracks_tables M i L B Q n \<longrightarrow> tracks_tables M i L B Q n')"
    and "role n' = Leader \<Longrightarrow> hard n' \<noteq> hard n \<Longrightarrow> tables (M - {i}) (length L + 1) (\<lambda>_ x. x = 0) n'"
    and "\<forall>(v, req) \<in> set (sent_votes r). rvq_last_log_index req = length L \<and> rvq_last_log_term req = last_term L"
proof -
  obtain m where r: "RefreshMembership n = (Inr (), m)" using Refresh_tracks(1) [OF assms(1)] by (metis prod.collapse)
  have m: "tracks M i L m" using Refresh_tracks(2) [OF assms(1)] r by simp
  have f: "hard m = hard n" "role m = role n" "commit_index m = commit_index n" using RefreshMembership_pair [OF r] by simp_all
  note st = assms(2) [unfolded StartElection_def ebind_Inr [where m = RefreshMembership, OF r]]
  define m1 where "m1 = ResetElectionDeadline now rnd (m\<lparr>hard := ps_Set (term_of m + 1) (Some (node_id m)) (hard m),
      role := Candidate, votes_received := 1\<rparr>)"
  have m1: "tracks M i L m1" "hard m1 = ps_Set (term_of n + 1) (Some (node_id m)) (hard n)" "role m1 = Candidate" "commit_index m1 = commit_index n"
    using tracks_stand [OF m] f by (simp_all add: m1_def)
  note b = BecomeLeader_tracks [OF m1(1), of now]
  have e: "ebind (BecomeLeader now) (\<lambda>_. eret ([] :: (NodeId \<times> RequestVoteRequest) list)) m1 = (Inr [], snd (BecomeLeader now m1))"
    using b(1) by (cases "BecomeLeader now m1") (simp add: ebind_def eret_def)
  have ne: "hard m1 \<noteq> hard n" using m1(2) ps_Set_fields(1) by (metis Suc_eq_plus1 n_not_Suc_n)
  consider (out) "\<not> self_is_member m" "r = Inr []" "n' = ResetElectionDeadline now rnd m"
    | (leads) "r = Inr []" "n' = snd (BecomeLeader now m1)"
    | (stands) "n' = m1" "r = Inr (map (\<lambda>p. (fst p, \<lparr>rvq_term = term_of m1, rvq_candidate_id = node_id m1,
                  rvq_last_log_index = LastIndex (rlog m1), rvq_last_log_term = LastTerm (rlog m1)\<rparr>)) (peers m1))"
    using st e by (cases "self_is_member m"; cases "has_majority m1") (auto simp: m1_def Let_def)
  note cases = this
  have keep: "tracks_tables M i L B Q n \<longrightarrow> tracks_tables M i L B Q (ResetElectionDeadline now rnd m)" for B Q
  proof
    assume "tracks_tables M i L B Q n"
    then have "tracks_tables M i L B Q m" using keepsD [OF keeps_tables_Refresh] r by fastforce
    then show "tracks_tables M i L B Q (ResetElectionDeadline now rnd m)" by (simp add: tracks_tables_def tables_def)
  qed
  show "tracks M i L n'" "commit_index n' = commit_index n"
    by (cases rule: cases; use m f m1 b in simp)+
  show "role n' = role n \<and> (\<forall>B Q. tracks_tables M i L B Q n \<longrightarrow> tracks_tables M i L B Q n')" if "hard n' = hard n"
    by (cases rule: cases) (use that keep f b(4) ne m1(2) in auto)
  show "tables (M - {i}) (length L + 1) (\<lambda>_ x. x = 0) n'" if "role n' = Leader" "hard n' \<noteq> hard n"
    by (cases rule: cases) (use that f b(6) m1(3) in auto)
  show "\<forall>(v, req) \<in> set (sent_votes r). rvq_last_log_index req = length L \<and> rvq_last_log_term req = last_term L"
    by (cases rule: cases) (use tracksD(12,13) [OF m1(1)] in \<open>auto simp: sent_votes_def\<close>)
qed

lemma HandleVoteReply_tracks:
  fixes now rnd :: nat and t :: Term and resp :: RequestVoteResponse and n :: "'s RaftNode"
  assumes "tracks M i L n"
  defines "n' \<equiv> snd (HandleVoteReply now rnd t resp n)"
  shows "tracks M i L n'" and "commit_index n' = commit_index n" and "role n = Leader \<Longrightarrow> role n' = Leader \<Longrightarrow> n' = n"
    and "role n' = Leader \<Longrightarrow> role n \<noteq> Leader \<Longrightarrow> tables (M - {i}) (length L + 1) (\<lambda>_ x. x = 0) n'"
proof -
  let ?m = "n\<lparr>votes_received := votes_received n + 1\<rparr>"
  have m: "tracks M i L ?m" by (rule tracks_same [OF assms(1)]) (simp_all add: tracksD(1) [OF assms(1)])
  note b = BecomeLeader_tracks [OF m, of now]
  show "tracks M i L n'" "commit_index n' = commit_index n"
    using assms(1) m b by (simp_all add: n'_def HandleVoteReply_def Let_def tracks_BecomeFollower)
  show "role n = Leader \<Longrightarrow> role n' = Leader \<Longrightarrow> n' = n"
    "role n' = Leader \<Longrightarrow> role n \<noteq> Leader \<Longrightarrow> tables (M - {i}) (length L + 1) (\<lambda>_ x. x = 0) n'"
    using b(6) by (auto simp: n'_def HandleVoteReply_def Let_def split: if_splits)
qed

lemma HandleRequestVote_tracks:
  assumes "tracks M i L n" and "HandleRequestVote now rnd req n = (resp, n')"
  shows "tracks M i L n'" and "commit_index n' = commit_index n" and "next_index n' = next_index n" "match_index n' = match_index n"
    and "rvr_vote_granted resp \<Longrightarrow> last_term L < rvq_last_log_term req \<or>
      last_term L = rvq_last_log_term req \<and> length L \<le> rvq_last_log_index req"
proof -
  let ?n1 = "if term_of n < rvq_term req then BecomeFollower now rnd (rvq_term req) n else n"
  have n1: "tracks M i L ?n1" using assms(1) by (simp add: tracks_BecomeFollower)
  have v: "tracks M i L (m\<lparr>hard := ps_Set t v (hard m)\<rparr>)" if m: "tracks M i L m" for m :: "'a RaftNode" and t v
    by (rule tracks_same [OF m]) (simp_all add: tracksD(1) [OF m] node_ok_hard)
  have e: "(resp, n') = HandleRequestVote now rnd req n" using assms(2) by simp
  note l = tracksD(12,13) [OF assms(1)] tracksD(12,13) [OF n1]
  show "tracks M i L n'"
    using e assms(1) n1 v [OF n1] by (auto simp: HandleRequestVote_def Let_def split: option.splits if_splits)
  show "commit_index n' = commit_index n" "next_index n' = next_index n" "match_index n' = match_index n"
    using e by (auto simp: HandleRequestVote_def Let_def ResetElectionDeadline_def split: option.splits if_splits)
  show "rvr_vote_granted resp \<Longrightarrow> last_term L < rvq_last_log_term req \<or>
      last_term L = rvq_last_log_term req \<and> length L \<le> rvq_last_log_index req"
    using e l by (auto simp: HandleRequestVote_def Let_def split: option.splits if_splits)
qed

section \<open>Entries\<close>

text \<open>A message with the entries of \<open>H\<close> from its previous index on.\<close>

definition sends :: "LogEntry list \<Rightarrow> AppendEntriesRequest \<Rightarrow> bool" where
  "sends H req \<longleftrightarrow> aeq_prev_log_index req + length (aeq_entries req) \<le> length H \<and>
     aeq_entries req = take (length (aeq_entries req)) (drop (aeq_prev_log_index req) H) \<and>
     (0 < aeq_prev_log_index req \<longrightarrow> aeq_prev_log_term req = le_term (H ! (aeq_prev_log_index req - 1))) \<and>
     aeq_leader_commit req \<le> aeq_prev_log_index req + length (aeq_entries req)"

lemma sends_longer: "sends H req \<Longrightarrow> sends (H @ X) req"
  by (auto simp: sends_def nth_append)

lemma plain_decodable: "plain c \<Longrightarrow> decodable c"
  by (simp add: plain_def decodable_def)

lemma sends_wf:
  assumes "sends H req" and "entries_ok H"
  shows "aeq_wf req"
proof -
  have "aeq_prev_log_index req = 0" if "aeq_prev_log_term req = 0"
  proof (rule ccontr)
    assume "aeq_prev_log_index req \<noteq> 0"
    then have p: "0 < aeq_prev_log_index req" by simp
    have "aeq_prev_log_index req + length (aeq_entries req) \<le> length H"
      using assms(1) unfolding sends_def by (rule conjunct1)
    with p have "aeq_prev_log_index req - 1 < length H" by linarith
    from entries_okD(2) [OF assms(2) this] p assms(1) that show False by (simp add: sends_def)
  qed
  moreover have "decodable (le_command e)" if "e \<in> set (aeq_entries req)" for e
  proof -
    have "e \<in> set H" using that assms(1) in_set_takeD in_set_dropD unfolding sends_def by metis
    then show ?thesis using entries_okD(3) [OF assms(2)] plain_decodable by (auto simp: in_set_conv_nth)
  qed
  ultimately show ?thesis by (simp add: aeq_wf_def)
qed

lemma ReplicateTo_tracks:
  assumes "tracks_tables M i L B Q n" and "B \<le> length L + 1" and "p \<in> M - {i}" and "ReplicateTo p n = (act, n')"
  shows "tracks_tables M i L B Q n'" and "hard n' = hard n" and "role n' = role n" and "commit_index n' = commit_index n"
    and "act = SendAppend req \<Longrightarrow> role n = Leader \<and> sends L req \<and> aeq_term req = term_of n \<and> aeq_leader_id req = i \<and>
      aeq_leader_commit req = commit_index n"
proof -
  note t = tracks_tablesD [OF assms(1)] note tr = tracksD [OF t(1)]
  have ok: "node_ok n'" using node_ok_replicate [OF tr(1), of p] assms(4) by simp
  have e: "n' = snd (ReplicateTo p n)" using assms(4) by simp
  have f: "hard n' = hard n" "role n' = role n" "commit_index n' = commit_index n" "last_applied n' = last_applied n" "rlog n' = rlog n"
    "node_id n' = node_id n" "peers n' = peers n" "mship n' = mship n" "match_index n' = match_index n"
    "next_index n' = next_index n \<or> next_index n' = omap_emplace p 0 (next_index n)"
    by (auto simp: e ReplicateTo_def Let_def)
  show "hard n' = hard n" "role n' = role n" "commit_index n' = commit_index n" by (fact f)+
  have "omap_ok (next_index n)" using node_okD(4) [OF tr(1)] by (simp add: peer_part_def)
  then have "tables (M - {i}) B Q n'"
    using f(9,10) t(4) by (auto simp: tables_def omap_emplace_def split: if_splits)
  then show "tracks_tables M i L B Q n'" using t tracks_same [OF t(1) ok] f by (simp add: tracks_tables_def)
  assume "act = SendAppend req"
  then have s: "ReplicateTo p n = (SendAppend req, n')" using assms(4) by simp
  then have r: "role n = Leader" "aeq_leader_id req = i" "aeq_prev_log_index req = omap_get_default 0 p (next_index n) - 1"
    using tr(7) by (auto simp: ReplicateTo_def Let_def split: if_splits)
  have "omap_get_default 0 p (next_index n) \<le> length L + 1"
    using t(4) assms(2,3) by (cases "map_of (next_index n) p") (auto simp: tables_def omap_get_default_def dest: order_trans)
  then have prev: "aeq_prev_log_index req \<le> LastIndex (rlog n)" "aeq_prev_log_index req \<le> length L" using r(3) tr(12) by simp_all
  note m = ReplicateTo_send [OF s tr(15) prev(1)]
  have en: "aeq_entries req = drop (aeq_prev_log_index req) L"
    using m(3,5) tr(3) by (simp add: holds_log_def)
  have "0 < aeq_prev_log_index req \<Longrightarrow> aeq_prev_log_term req = le_term (L ! (aeq_prev_log_index req - 1))"
    using holds_TermAt [OF tr(3,4) m(3)] m(4) prev(2) by simp
  then have "sends L req" using en prev(2) m(2) tr(6) by (simp add: sends_def)
  then show "role n = Leader \<and> sends L req \<and> aeq_term req = term_of n \<and> aeq_leader_id req = i \<and>
      aeq_leader_commit req = commit_index n" using r m(1,2) by simp
qed

text \<open>A message to a node that follows: refused, or taken over.\<close>

lemma commit_from_leader_tracks:
  fixes n :: "'s RaftNode"
  assumes "tracks M i L n"
  shows "\<exists>resp n'. commit_from_leader cb req n = (Inr resp, n') \<and> aer_success resp \<and> tracks M i L n' \<and> hard n' = hard n \<and>
    role n' = role n \<and> commit_index n' = max (commit_index n) (min (aeq_leader_commit req) (length L))"
proof -
  note t = tracksD [OF assms]
  obtain n' where c: "commit_from_leader cb req n = (Inr \<lparr>aer_term = term_of n, aer_success = True,
        aer_match_index = aeq_prev_log_index req + length (aeq_entries req)\<rparr>, n')"
    "hard n' = hard n" "role n' = role n" "commit_index n' = max (commit_index n) (min (aeq_leader_commit req) (length L))"
    using commit_from_leader_effect [OF t(1,5), of cb req] t(6,12) by auto
  have "keeps (tracks M i L) (\<lambda>n. if commit_index n < aeq_leader_commit req
      then ApplyCommitted cb (n\<lparr>commit_index := min (aeq_leader_commit req) (LastIndex (rlog n))\<rparr>) else (Inr (), n))"
  proof (rule keepsI)
    fix m :: "'s RaftNode" assume m: "tracks M i L m"
    note tm = tracksD [OF m]
    have "tracks M i L (m\<lparr>commit_index := min (aeq_leader_commit req) (LastIndex (rlog m))\<rparr>)" if "commit_index m < aeq_leader_commit req"
      using m that tm(5,6,12) by (auto simp: tracks_def settled_def min_def)
    then show "tracks M i L (snd (if commit_index m < aeq_leader_commit req
        then ApplyCommitted cb (m\<lparr>commit_index := min (aeq_leader_commit req) (LastIndex (rlog m))\<rparr>) else (Inr (), m)))"
      using m ApplyCommitted_tracks(2) by auto
  qed
  then have "keeps (tracks M i L) (commit_from_leader cb req)" unfolding commit_from_leader_def by (intro keeps_intros)
  from keepsD [OF this assms] c show ?thesis by simp
qed

lemma append_accepted:
  assumes "tracks M i L n" and "sends H req" and "entries_ok H" and "good h L" and "good h H" and "has_prefix L (commit_index n) H"
    and "AppendEntriesFrom (aeq_prev_log_index req) (aeq_prev_log_term req) (aeq_entries req) (rlog n) = (True, l)"
  defines "prev \<equiv> aeq_prev_log_index req"
  defines "L' \<equiv> take_over prev (prev + length (aeq_entries req)) H L"
  shows "prev \<le> length L" and "prev = 0 \<or> le_term (L ! (prev - 1)) = le_term (H ! (prev - 1))"
    and "tracks M i L' (n\<lparr>rlog := l\<rparr>)" and "has_prefix L' (commit_index n) L"
proof -
  let ?m = "prev + length (aeq_entries req)"
  note t = tracksD [OF assms(1)]
  have ok: "node_ok (n\<lparr>rlog := l\<rparr>)" by (rule node_ok_accept [OF t(1) sends_wf [OF assms(2,3)] assms(7)])
  have s: "?m \<le> length H" "aeq_entries req = take (?m - prev) (drop prev H)"
    "0 < prev \<Longrightarrow> aeq_prev_log_term req = le_term (H ! (prev - 1))"
    using assms(2) by (simp_all add: sends_def prev_def)
  have "has_prefix L (snapshot_index (rlog n)) H" using has_prefix_le [OF assms(6)] t(5,14) by simp
  then have acc: "prev \<le> length L" "prev = 0 \<or> le_term (L ! (prev - 1)) = le_term (H ! (prev - 1))" "holds_log L' l"
    using holds_AppendEntries [OF t(3,4) assms(3) _ s, of l] assms(7) good_meet [OF assms(4,5)] by (auto simp: prev_def L'_def)
  note o = take_over_prefix [OF assms(4,5) le_add1 s(1) acc(1,2), folded L'_def]
  have "entries_ok L'" using o(3) t(4) entries_ok_take [OF assms(3)] by auto
  moreover have p: "has_prefix L' (commit_index n) H"
    using o(2) [OF assms(6)] assms(6) by (simp add: has_prefix_def)
  ultimately show "tracks M i L' (n\<lparr>rlog := l\<rparr>)"
    using assms(1) ok acc(3) by (simp add: tracks_def settled_def has_prefix_def)
  show "has_prefix L' (commit_index n) L" using has_prefix_trans [OF p] assms(6) has_prefix_sym by blast
  show "prev \<le> length L" "prev = 0 \<or> le_term (L ! (prev - 1)) = le_term (H ! (prev - 1))" by (rule acc)+
qed

lemma HandleAppendEntries_tracks:
  assumes "tracks M i L n" and "term_of n \<le> aeq_term req" and "sends H req" and "entries_ok H" and "good h L" and "good h H"
    and "has_prefix L (commit_index n) H" and "HandleAppendEntries cb now rnd req n = (r, n')"
  shows "term_of n' = aeq_term req" and "role n' = Follower"
    and "(\<exists>resp. r = Inr resp \<and> \<not> aer_success resp) \<and> tracks M i L n' \<and> commit_index n' = commit_index n \<or>
      (let prev = aeq_prev_log_index req; m = prev + length (aeq_entries req); L' = take_over prev m H L
       in (\<exists>resp. r = Inr resp \<and> aer_success resp) \<and> prev \<le> length L \<and> (prev = 0 \<or> le_term (L ! (prev - 1)) = le_term (H ! (prev - 1))) \<and>
          tracks M i L' n' \<and> commit_index n' = max (commit_index n) (min (aeq_leader_commit req) (length L')))"
proof -
  let ?prev = "aeq_prev_log_index req" let ?m = "?prev + length (aeq_entries req)"
  let ?L' = "take_over ?prev ?m H L"
  define n1 where "n1 = follow_leader now rnd (aeq_term req) (aeq_leader_id req) n"
  have n1: "tracks M i L n1" "term_of n1 = aeq_term req" "role n1 = Follower" "commit_index n1 = commit_index n"
    using tracks_follow_leader [OF assms(1)] assms(2) by (simp_all add: n1_def follow_leader_hard)
  obtain b l where a: "AppendEntriesFrom ?prev (aeq_prev_log_term req) (aeq_entries req) (rlog n1) = (b, l)" by (metis surj_pair)
  have h: "HandleAppendEntries cb now rnd req n = (if b then commit_from_leader cb req (n1\<lparr>rlog := l\<rparr>)
      else (Inr \<lparr>aer_term = term_of n1, aer_success = False, aer_match_index = 0\<rparr>, n1\<lparr>rlog := l\<rparr>))"
    using assms(2) a by (simp add: HandleAppendEntries_def Let_def n1_def [symmetric])
  have "term_of n' = aeq_term req \<and> role n' = Follower \<and>
    ((\<exists>resp. r = Inr resp \<and> \<not> aer_success resp) \<and> tracks M i L n' \<and> commit_index n' = commit_index n \<or>
     (\<exists>resp. r = Inr resp \<and> aer_success resp) \<and> ?prev \<le> length L \<and> (?prev = 0 \<or> le_term (L ! (?prev - 1)) = le_term (H ! (?prev - 1))) \<and>
       tracks M i ?L' n' \<and> commit_index n' = max (commit_index n) (min (aeq_leader_commit req) (length ?L')))"
  proof (cases b)
    case False
    then have "l = rlog n1" using a by (simp add: AppendEntries_rejected)
    then have "n1\<lparr>rlog := l\<rparr> = n1" by simp
    then show ?thesis using h False assms(8) n1 by auto
  next
    case True
    note acc = append_accepted [OF n1(1) assms(3-6) assms(7) [folded n1(4)] a [unfolded eqTrueI [OF True]]]
    from commit_from_leader_tracks [OF acc(3), of cb req] h True assms(8) n1 acc(1,2) show ?thesis by auto
  qed
  then show "term_of n' = aeq_term req" "role n' = Follower"
    "(\<exists>resp. r = Inr resp \<and> \<not> aer_success resp) \<and> tracks M i L n' \<and> commit_index n' = commit_index n \<or>
      (let prev = aeq_prev_log_index req; m = prev + length (aeq_entries req); L' = take_over prev m H L
       in (\<exists>resp. r = Inr resp \<and> aer_success resp) \<and> prev \<le> length L \<and> (prev = 0 \<or> le_term (L ! (prev - 1)) = le_term (H ! (prev - 1))) \<and>
          tracks M i L' n' \<and> commit_index n' = max (commit_index n) (min (aeq_leader_commit req) (length L')))"
    unfolding Let_def by blast+
qed

text \<open>The answer to a message of this term's leader.\<close>

lemma HandleAppendReply_tracks:
  fixes cb :: "'s callbacks" and n :: "'s RaftNode" and now rnd :: nat
  assumes "tracks M i L n" and "finite M" and "i \<in> M" and "role n = Leader \<Longrightarrow> 0 < term_of n"
    and "role n = Leader \<Longrightarrow> tracks_tables M i L B Q n"
    and "\<forall>p x. Q p x \<longrightarrow> x < B"
    and "aer_success resp \<longrightarrow> t = term_of n \<longrightarrow> role n = Leader \<longrightarrow> Q p (prev + sent)"
  defines "n' \<equiv> snd (HandleAppendReply cb now rnd p t prev sent resp n)"
  shows "tracks M i L n'" and "role n' = Leader \<Longrightarrow> tracks_tables M i L B Q n' \<and> role n = Leader \<and> term_of n' = term_of n"
    and "commit_index n' = commit_index n \<or> role n = Leader \<and> term_of n' = term_of n \<and> may_commit M i L (term_of n) Q (commit_index n')"
proof -
  define m where "m = HandleSendFailure p n"
  have m: "tracks M i L m" "hard m = hard n" "role m = role n" "peers m = peers n" "commit_index m = commit_index n"
    using tracks_same [OF assms(1), of m] tracksD(1) [OF assms(1)] by (simp_all add: m_def)
  have tm: "tracks_tables M i L B Q m" if "role n = Leader"
    using assms(5) [OF that] m(1) by (simp add: tracks_tables_def tables_def m_def)
  have po: "peer_part m" by (rule node_okD(4) [OF tracksD(1) [OF m(1)]])
  have "tracks M i L n' \<and> (role n' = Leader \<longrightarrow> tracks_tables M i L B Q n' \<and> role n = Leader \<and> term_of n' = term_of n) \<and>
    (commit_index n' = commit_index n \<or> role n = Leader \<and> term_of n' = term_of n \<and> may_commit M i L (term_of n) Q (commit_index n'))"
  proof -
    consider (out) "n' = m" | (down) "n' = BecomeFollower now rnd (aer_term resp) m"
      | (yes) new where "omap_count p (peers m)" "role n = Leader" "t = term_of n" "aer_success resp"
          "new = max (omap_get_default 0 p (match_index m)) (prev + sent)"
          "n' = snd (MaybeAdvanceCommitIndex cb (m\<lparr>match_index := omap_set p new (match_index m),
             next_index := omap_set p (new + 1) (next_index m)\<rparr>))"
      | (no) x where "omap_count p (peers m)" "role n = Leader" "x \<le> omap_get_default 0 p (next_index m)"
          "n' = m\<lparr>next_index := omap_set p x (next_index m)\<rparr>"
    proof (cases "omap_count p (peers m) \<and> \<not> term_of m < aer_term resp \<and> role m = Leader \<and> t = term_of m")
      case False
      then have "n' = m \<or> n' = BecomeFollower now rnd (aer_term resp) m"
        by (auto simp: n'_def HandleAppendReply_def Let_def m_def [symmetric])
      with out down show thesis by blast
    next
      case c: True
      show thesis
      proof (cases "aer_success resp")
        case True
        then show thesis using c m(2,3)
          by (intro yes) (simp_all add: n'_def HandleAppendReply_def Let_def m_def [symmetric])
      next
        case False
        then show thesis using c m(2,3)
          by (intro no [of "if 1 < omap_get_default 0 p (next_index m) then omap_get_default 0 p (next_index m) - 1
              else omap_get_default 0 p (next_index m)"]) (simp_all add: n'_def HandleAppendReply_def Let_def m_def [symmetric])
      qed
    qed
    then show ?thesis
    proof cases
      case out
      then show ?thesis using m tm by auto
    next
      case down
      then show ?thesis using m tracks_BecomeFollower by auto
    next
      case no
      note T = tracks_tablesD [OF tm [OF no(2)]]
      have K: "p \<in> M - {i}" using no(1) tracksD(8) [OF m(1)]
        by (auto simp: omap_count_def map_of_eq_None_iff)
      have "omap_get_default 0 p (next_index m) \<le> B"
        using T(4) K by (cases "map_of (next_index m) p") (auto simp: tables_def omap_get_default_def)
      then have "tables (M - {i}) B Q n'" unfolding no(4) using T(4) po no(3) by (intro tables_next) (simp_all add: peer_part_def)
      moreover have "tracks M i L n'"
        unfolding no(4) by (rule tracks_same [OF m(1)]) (simp_all add: node_ok_entry [OF tracksD(1) [OF m(1)] no(1)])
      ultimately show ?thesis using T no(2,4) m by (simp add: tracks_tables_def)
    next
      case yes
      note T = tracks_tablesD [OF tm [OF yes(2)]]
      let ?m = "m\<lparr>match_index := omap_set p new (match_index m), next_index := omap_set p (new + 1) (next_index m)\<rparr>"
      have "Q p new"
        using T(3,4) assms(7) [rule_format, OF yes(4,3,2)] unfolding yes(5)
        by (cases "map_of (match_index m) p") (auto simp: tables_def omap_get_default_def max_def)
      then have "tables (M - {i}) B Q ?m"
        using T(4) po assms(6) [rule_format, of p new] by (auto simp: tables_def peer_part_def split: if_splits)
      moreover have "tracks M i L ?m"
        by (rule tracks_same [OF m(1)]) (simp_all add: node_ok_entry [OF tracksD(1) [OF m(1)] yes(1)])
      ultimately have "tracks_tables M i L B Q ?m" using T by (simp add: tracks_tables_def)
      from MaybeAdvance_tracks [OF this, of cb, folded yes(6)] m yes(2) assms(2-4) show ?thesis
        by (auto simp: tracks_tables_def)
    qed
  qed
  then show "tracks M i L n'" "role n' = Leader \<Longrightarrow> tracks_tables M i L B Q n' \<and> role n = Leader \<and> term_of n' = term_of n"
    "commit_index n' = commit_index n \<or> role n = Leader \<and> term_of n' = term_of n \<and> may_commit M i L (term_of n) Q (commit_index n')"
    by blast+
qed

text \<open>A proposal of an ordinary command: the leader appends it.\<close>

lemma Propose_begin_tracks:
  fixes cb :: "'s callbacks" and n :: "'s RaftNode"
  assumes "tracks_tables M i L B Q n" and "plain c" and "role n = Leader" and "finite M" and "i \<in> M" and "0 < term_of n"
  defines "n' \<equiv> snd (Propose_begin cb c n)"
    and "L' \<equiv> L @ [\<lparr>le_index = length L + 1, le_term = term_of n, le_command = c\<rparr>]"
  shows "tracks_tables M i L' B Q n'" and "hard n' = hard n" and "role n' = Leader \<or> role n' = Follower"
    and "commit_index n' = commit_index n \<or> may_commit M i L' (term_of n) Q (commit_index n')"
proof -
  note T = tracks_tablesD [OF assms(1)] note t = tracksD [OF T(1)]
  define m where "m = n\<lparr>rlog := snd (log_Append (term_of n) c (rlog n))\<rparr>"
  have "node_ok m" unfolding m_def by (rule node_ok_append [OF t(1) plain_decodable [OF assms(2)]])
  moreover have "holds_log L' (rlog m)" unfolding m_def L'_def using holds_Append [OF t(3,4)] by simp
  moreover have "entries_ok L'" unfolding L'_def by (rule entries_ok_snoc [OF t(4) assms(6,2)])
  ultimately have "tracks M i L' m" using T(1) by (simp add: tracks_def settled_def m_def L'_def)
  then have m: "tracks_tables M i L' B Q m" using T by (simp add: tracks_tables_def tables_def m_def)
  obtain m1 where r: "RefreshMembership m = (Inr (), m1)" using Refresh_tracks(1) [OF tracks_tablesD(1) [OF m]] by (metis prod.collapse)
  have m1: "tracks_tables M i L' B Q m1" using keepsD [OF keeps_tables_Refresh m] r by simp
  have f: "hard m1 = hard n" "role m1 = role n" "commit_index m1 = commit_index n"
    using RefreshMembership_pair [OF r] by (simp_all add: m_def)
  have "propose_check c n = Inr None" using assms(2) by (simp add: propose_check_def plain_def)
  then have n': "n' = snd (MaybeAdvanceCommitIndex cb m1)"
    using assms(3) r unfolding n'_def Propose_begin_def m_def
    by (simp add: Let_def case_prod_beta ebind_def eret_def split: sum.split)
  from MaybeAdvance_tracks [OF m1, of cb] f assms(3-6)
  show "tracks_tables M i L' B Q n'" "hard n' = hard n" "role n' = Leader \<or> role n' = Follower"
    "commit_index n' = commit_index n \<or> may_commit M i L' (term_of n) Q (commit_index n')"
    by (simp_all add: n')
qed

section \<open>Snapshots and restarts\<close>

text \<open>A snapshot of \<open>H\<close>'s first entries, with all members.\<close>

definition sends_snapshot :: "NodeId set \<Rightarrow> LogEntry list \<Rightarrow> InstallSnapshotRequest \<Rightarrow> bool" where
  "sends_snapshot M H req \<longleftrightarrow> isq_last_included_index req \<le> length H \<and>
     (0 < isq_last_included_index req \<longrightarrow> isq_last_included_term req = le_term (H ! (isq_last_included_index req - 1))) \<and>
     omap_ok (isq_membership req) \<and> fst ` set (isq_membership req) = M"

lemma sends_snapshot_prefix:
  "sends_snapshot M H req \<Longrightarrow> has_prefix G (isq_last_included_index req) H \<Longrightarrow> sends_snapshot M G req"
  using has_prefix_nth [of G "isq_last_included_index req" H "isq_last_included_index req - 1"]
  by (auto simp: sends_snapshot_def has_prefix_def)

lemma tracks_SendFailure: "tracks M i L n \<Longrightarrow> tracks M i L (HandleSendFailure p n)"
  by (rule tracks_same) (simp_all add: tracksD(1))

lemma keys_set: "omap_ok m \<Longrightarrow> fst ` set (omap_set k v m) = insert k (fst ` set m)"
proof -
  assume ok: "omap_ok m"
  have "dom (map_of (omap_set k v m)) = insert k (dom (map_of m))"
    unfolding om.look_upd [OF ok] by (simp only: dom_fun_upd) simp
  then show ?thesis by (simp add: dom_map_of_conv_image_fst)
qed

lemma keys_erase: "fst ` set (omap_erase k m) = fst ` set m - {k}"
  by (auto simp: omap_erase_def)

lemma SendInstallSnapshot_tracks:
  assumes "tracks M i L n" and "i \<in> M" and "SendInstallSnapshot cb p t n = (r, n')"
  shows "n' = n \<or> n' = HandleSendFailure p n"
    and "r = Some req \<Longrightarrow> role n = Leader \<and> isq_term req = term_of n \<and> isq_leader_id req = i \<and>
      isq_last_included_index req \<le> commit_index n \<and> sends_snapshot M L req"
proof -
  note t = tracksD [OF assms(1)]
  show "n' = n \<or> n' = HandleSendFailure p n" using assms(3) by (auto simp: SendInstallSnapshot_def split: if_splits)
  assume "r = Some req"
  then have r: "role n = Leader" "isq_term req = term_of n" "isq_leader_id req = i" "isq_last_included_index req = last_applied n"
    "isq_last_included_term req = TermAt (rlog n) (last_applied n)"
    "isq_membership req = omap_set i (own_address n) (peers n)"
    using assms(3) t(7) by (auto simp: SendInstallSnapshot_def split: if_splits)
  have "last_applied n \<le> length L" using t(5,6) by simp
  then have "0 < last_applied n \<Longrightarrow> TermAt (rlog n) (last_applied n) = le_term (L ! (last_applied n - 1))"
    using holds_TermAt [OF t(3,4,14)] by simp
  then have "sends_snapshot M L req"
    using r t(8,10) keys_set [OF t(10)] assms(2) \<open>last_applied n \<le> length L\<close> by (auto simp: sends_snapshot_def)
  then show "role n = Leader \<and> isq_term req = term_of n \<and> isq_leader_id req = i \<and>
      isq_last_included_index req \<le> commit_index n \<and> sends_snapshot M L req" using r t(5) by simp
qed

lemma InstallSnapshot_begin_tracks:
  assumes "tracks M i L n" and "InstallSnapshot_begin now rnd req n = (r, n')"
  shows "tracks M i L n'" and "commit_index n' = commit_index n" and "n' = n \<and> r \<noteq> None \<or> role n' = Follower \<and> term_of n' = isq_term req"
    and "r = None \<Longrightarrow> isq_term req = term_of n'"
proof -
  show "tracks M i L n'" "commit_index n' = commit_index n"
    using assms tracks_follow_leader [OF assms(1)] by (auto simp: InstallSnapshot_begin_def Let_def split: if_splits)
  show "n' = n \<and> r \<noteq> None \<or> role n' = Follower \<and> term_of n' = isq_term req" "r = None \<Longrightarrow> isq_term req = term_of n'"
    using assms(2) by (auto simp: InstallSnapshot_begin_def Let_def follow_leader_hard split: if_splits)
qed

lemma InstallSnapshot_end_tracks:
  assumes "tracks M i L n" and "sends_snapshot M H req" and "entries_ok H" and "i \<in> M"
  defines "k \<equiv> isq_last_included_index req"
  defines "L' \<equiv> if k \<le> length L \<and> le_term (L ! (k - 1)) = le_term (H ! (k - 1)) then L else take k H"
    and "n' \<equiv> snd (InstallSnapshot_end req n)"
  assumes "0 < k \<Longrightarrow> commit_index n \<le> length L'"
  shows "n' = n \<or> 0 < k \<and> tracks M i L' n' \<and> commit_index n' = max (commit_index n) k \<and> hard n' = hard n \<and> role n' = role n \<and>
    (\<forall>B Q. tracks_tables M i L B Q n \<longrightarrow> tracks_tables M i L' B Q n')"
proof (cases "snapshot_index (rlog n) < k")
  case False
  then show ?thesis by (simp add: n'_def InstallSnapshot_end_def k_def)
next
  case True
  then have k: "0 < k" "k \<le> length H" "isq_last_included_term req = le_term (H ! (k - 1))" "omap_ok (isq_membership req)"
    "fst ` set (isq_membership req) = M"
    using assms(2) by (simp_all add: sends_snapshot_def k_def)
  note t = tracksD [OF assms(1)]
  let ?a = "adopt_snapshot req n"
  have ok: "node_ok ?a" by (rule node_ok_adopt_snapshot [OF t(1)]) (simp add: isq_wf_def k(4))
  have "0 < le_term (H ! (k - 1))" using entries_okD(2) [OF assms(3), of "k - 1"] k(1,2) by simp
  from holds_Compact [OF t(3,4) True k(2) refl this] k(3)
  have "holds_log L' (rlog ?a)" by (simp add: adopt_snapshot_log L'_def k_def)
  moreover have "entries_ok L'" using t(4) entries_ok_take [OF assms(3)] by (simp add: L'_def)
  moreover have "k \<le> length L'" using k(2) by (simp add: L'_def)
  moreover have "settled M i ?a"
    using t(7,8) k(5) by (simp add: settled_def adopt_snapshot_def Let_def ms_Set_def keys_erase)
  ultimately have a: "tracks M i L' ?a"
    using ok assms(8) k(1) t(5) by (simp add: tracks_def k_def [symmetric])
  obtain m where r: "RefreshMembership ?a = (Inr (), m)" using Refresh_tracks(1) [OF a] by (metis prod.collapse)
  have n': "n' = m"
    using True r by (simp add: n'_def InstallSnapshot_end_def k_def ebind_def eread_def)
  have "tracks M i L' m" using Refresh_tracks(2) [OF a] r by simp
  moreover have "hard m = hard n" "role m = role n" "commit_index m = max (commit_index n) k"
    using RefreshMembership_pair [OF r] by (simp_all add: k_def)
  moreover have "tracks_tables M i L' B Q m" if "tracks_tables M i L B Q n" for B Q
  proof -
    have "tracks_tables M i L' B Q ?a" using that a by (simp add: tracks_tables_def tables_def)
    from keepsD [OF keeps_tables_Refresh this] r show ?thesis by simp
  qed
  ultimately show ?thesis using k(1) n' by simp
qed

lemma HandleSnapshotReply_tracks:
  fixes now rnd :: nat and n :: "'s RaftNode" and resp :: InstallSnapshotResponse
  assumes "tracks M i L n" and "role n = Leader \<longrightarrow> tracks_tables M i L B Q n"
    and "role n = Leader \<longrightarrow> t = term_of n \<longrightarrow> Q p snap \<and> snap < B"
  defines "n' \<equiv> HandleSnapshotReply now rnd p t snap resp n"
  shows "tracks M i L n'" and "commit_index n' = commit_index n"
    and "role n' = Leader \<Longrightarrow> tracks_tables M i L B Q n' \<and> role n = Leader \<and> term_of n' = term_of n"
proof -
  define m where "m = HandleSendFailure p n"
  have m: "tracks M i L m" "hard m = hard n" "role m = role n" "peers m = peers n" "commit_index m = commit_index n"
    using tracks_SendFailure [OF assms(1)] by (simp_all add: m_def)
  have tm: "tracks_tables M i L B Q m" if "role n = Leader"
    using assms(2) [rule_format, OF that] m(1) by (simp add: tracks_tables_def tables_def m_def)
  let ?m = "m\<lparr>next_index := omap_set p (snap + 1) (next_index m), match_index := omap_set p snap (match_index m)\<rparr>"
  consider (out) "n' = m" | (down) "n' = BecomeFollower now rnd (isr_term resp) m"
    | (set) "omap_count p (peers m)" "role n = Leader" "t = term_of n" "n' = ?m"
  proof (cases "omap_count p (peers m) \<and> \<not> term_of m < isr_term resp \<and> role m = Leader \<and> t = term_of m")
    case False
    then have "n' = m \<or> n' = BecomeFollower now rnd (isr_term resp) m"
      by (auto simp: n'_def HandleSnapshotReply_def Let_def m_def [symmetric])
    with out down show thesis by blast
  next
    case True
    then show thesis using m(2,3)
      by (intro set) (simp_all add: n'_def HandleSnapshotReply_def Let_def m_def [symmetric])
  qed
  then have "tracks M i L n' \<and> commit_index n' = commit_index n \<and>
      (role n' = Leader \<longrightarrow> tracks_tables M i L B Q n' \<and> role n = Leader \<and> term_of n' = term_of n)"
  proof cases
    case out
    then show ?thesis using m tm by auto
  next
    case down
    then show ?thesis using m tracks_BecomeFollower by auto
  next
    case set
    note T = tracks_tablesD [OF tm [OF set(2)]]
    have po: "peer_part m" by (rule node_okD(4) [OF tracksD(1) [OF m(1)]])
    have "tables (M - {i}) B Q ?m"
      using T(4) po assms(3) [rule_format, OF set(2,3)] by (auto simp: tables_def peer_part_def split: if_splits)
    moreover have "tracks M i L ?m"
      by (rule tracks_same [OF m(1)]) (simp_all add: node_ok_entry [OF tracksD(1) [OF m(1)] set(1)])
    ultimately show ?thesis using T set(2,4) m by (simp add: tracks_tables_def)
  qed
  then show "tracks M i L n'" "commit_index n' = commit_index n"
    "role n' = Leader \<Longrightarrow> tracks_tables M i L B Q n' \<and> role n = Leader \<and> term_of n' = term_of n" by blast+
qed

text \<open>A restart keeps the log and forgets the commit index beyond what was applied.\<close>

lemma restart_tracks:
  fixes n n' :: "'a RaftNode"
  assumes "tracks M i L n" and "disk_fits n"
    and "RaftNode_new (node_id n) addr ps joins (ps_file (hard n)) (lg_file (rlog n)) (ms_file (mship n)) m = Inr n'"
  shows "tracks M i L n'" and "hard n' = hard n" and "role n' = Follower" and "commit_index n' \<le> commit_index n"
proof -
  note t = tracksD [OF assms(1)]
  note e = RaftNode_new_restart [OF t(1) assms(2), of addr ps joins m] assms(3)
  have n': "rlog n' = rlog n" "hard n' = hard n" "mship n' = mship n" "node_id n' = node_id n" "peers n' = base_peers (mship n)"
    "role n' = Follower" "commit_index n' = last_applied n" "last_applied n' = last_applied n"
    using e by auto
  have "quiet_step (undefined :: 'a callbacks) aeq_wf isq_wf n n'" by (rule quiet_step.restart [OF assms(2,3)])
  then have "node_ok n'" by (rule quiet_step_ok [OF _ t(1)])
  then show "tracks M i L n'" using t n' by (simp add: tracks_def settled_def)
  show "hard n' = hard n" "role n' = Follower" "commit_index n' \<le> commit_index n" using n' t(5) by simp_all
qed

end
