(* ===== verification/Raft_World.thy ===== *)
theory Raft_World
  imports Raft_Handlers
begin

text \<open>
  A cluster of nodes that run \<^verbatim>\<open>src/raft/node.cpp\<close> and the messages between them.  A message that was sent may arrive any
  number of times, in any order, or never, and its answer likewise; a node may crash between any two critical sections
  and restart from its files; \<open>kp m m'\<close> says what state machine \<open>m'\<close> a restart may find after \<open>m\<close>.  Elections run
  as in \<open>Raft_Election\<close>.  No membership change is proposed, so the membership stays what it was; that is shown, not
  assumed.  \<open>proposals\<close> collects the entries that leaders make of the commands proposed to them: a record of the run, which
  no node sees.  \<open>sim\<close> relates such a world to a state of the protocol.
\<close>

section \<open>Worlds\<close>

record 's world =
  net :: "'s cluster"
  appends :: "(NodeId \<times> NodeId \<times> AppendEntriesRequest) set"
  answers :: "(NodeId \<times> NodeId \<times> AppendEntriesRequest \<times> AppendEntriesResponse) set"
  snapshots :: "(NodeId \<times> NodeId \<times> InstallSnapshotRequest) set"
  installing :: "(NodeId \<times> InstallSnapshotRequest) set"
  proposals :: "LogEntry set"

abbreviation node :: "'s world \<Rightarrow> NodeId \<Rightarrow> 's RaftNode" where
  "node W i \<equiv> nodes (net W) i"

definition set_node :: "NodeId \<Rightarrow> 's RaftNode \<Rightarrow> 's world \<Rightarrow> 's world" where
  "set_node i n W = W\<lparr>net := (net W)\<lparr>nodes := (nodes (net W))(i := n)\<rparr>\<rparr>"

definition appended :: "NodeId \<Rightarrow> NodeId \<Rightarrow> replicate_action \<Rightarrow> (NodeId \<times> NodeId \<times> AppendEntriesRequest) set" where
  "appended c p act = (case act of SendAppend req \<Rightarrow> {(c, p, req)} | _ \<Rightarrow> {})"

definition answered :: "NodeId \<Rightarrow> NodeId \<Rightarrow> AppendEntriesRequest \<Rightarrow> AppendEntriesResponse res \<Rightarrow>
    (NodeId \<times> NodeId \<times> AppendEntriesRequest \<times> AppendEntriesResponse) set" where
  "answered c p req r = (case r of Inl _ \<Rightarrow> {} | Inr resp \<Rightarrow> {(c, p, req, resp)})"

definition snapped :: "NodeId \<Rightarrow> NodeId \<Rightarrow> InstallSnapshotRequest option \<Rightarrow> (NodeId \<times> NodeId \<times> InstallSnapshotRequest) set" where
  "snapped c p r = (case r of None \<Rightarrow> {} | Some req \<Rightarrow> {(c, p, req)})"

text \<open>The entry that a leader makes of a command.\<close>

definition proposed :: "string \<Rightarrow> 's RaftNode \<Rightarrow> LogEntry set" where
  "proposed command n = (if role n = Leader
     then {\<lparr>le_index = LastIndex (rlog n) + 1, le_term = term_of n, le_command = command\<rparr>} else {})"

inductive world_step :: "'s callbacks \<Rightarrow> ('s \<Rightarrow> 's \<Rightarrow> bool) \<Rightarrow> NodeId set \<Rightarrow> 's world \<Rightarrow> 's world \<Rightarrow> bool" for cb kp M where
  elections: "election_step M (net W) s \<Longrightarrow> world_step cb kp M W (W\<lparr>net := s\<rparr>)"
| replicate_to: "c \<in> M \<Longrightarrow> p \<in> M \<Longrightarrow> p \<noteq> c \<Longrightarrow> ReplicateTo p (node W c) = (act, n) \<Longrightarrow>
    world_step cb kp M W ((set_node c n W)\<lparr>appends := appends W \<union> appended c p act\<rparr>)"
| append_entries: "(c, p, req) \<in> appends W \<Longrightarrow> HandleAppendEntries cb now rnd req (node W p) = (r, n) \<Longrightarrow>
    world_step cb kp M W ((set_node p n W)\<lparr>answers := answers W \<union> answered c p req r\<rparr>)"
| append_reply: "(c, p, req, resp) \<in> answers W \<Longrightarrow>
    world_step cb kp M W (set_node c (snd (HandleAppendReply cb now rnd p (aeq_term req) (aeq_prev_log_index req)
      (length (aeq_entries req)) resp (node W c))) W)"
| send_failed: "c \<in> M \<Longrightarrow> world_step cb kp M W (set_node c (HandleSendFailure p (node W c)) W)"
| proposal: "c \<in> M \<Longrightarrow> plain command \<Longrightarrow> world_step cb kp M W
    ((set_node c (snd (Propose_begin cb command (node W c))) W)\<lparr>proposals := proposals W \<union> proposed command (node W c)\<rparr>)"
| send_snapshot: "c \<in> M \<Longrightarrow> p \<in> M \<Longrightarrow> SendInstallSnapshot cb p t (node W c) = (r, n) \<Longrightarrow>
    world_step cb kp M W ((set_node c n W)\<lparr>snapshots := snapshots W \<union> snapped c p r\<rparr>)"
| snapshot_begin: "(c, p, req) \<in> snapshots W \<Longrightarrow> InstallSnapshot_begin now rnd req (node W p) = (r, n) \<Longrightarrow>
    world_step cb kp M W ((set_node p n W)\<lparr>installing := installing W \<union> (if r = None then {(p, req)} else {})\<rparr>)"
| snapshot_restore: "(p, req) \<in> installing W \<Longrightarrow>
    world_step cb kp M W (set_node p (InstallSnapshot_restore cb req (node W p)) W)"
| snapshot_end: "(p, req) \<in> installing W \<Longrightarrow>
    world_step cb kp M W (set_node p (snd (InstallSnapshot_end req (node W p))) W)"
| snapshot_reply: "(c, p, req) \<in> snapshots W \<Longrightarrow>
    world_step cb kp M W (set_node c (HandleSnapshotReply now rnd p (isq_term req) (isq_last_included_index req) resp (node W c)) W)"
| ticks: "c \<in> M \<Longrightarrow> world_step cb kp M W (set_node c (snd (Tick now (node W c))) W)"
| restarts: "c \<in> M \<Longrightarrow> disk_fits (node W c) \<Longrightarrow>
    RaftNode_new (node_id (node W c)) addr ps joins (ps_file (hard (node W c))) (lg_file (rlog (node W c)))
      (ms_file (mship (node W c))) m = Inr n \<Longrightarrow> kp (machine (node W c)) m \<Longrightarrow>
    world_step cb kp M W (set_node c n W)"

text \<open>A start: the members know each other, follow, and have empty logs.\<close>

definition fresh_node :: "NodeId set \<Rightarrow> NodeId \<Rightarrow> 's RaftNode \<Rightarrow> bool" where
  "fresh_node M i n \<longleftrightarrow> node_ok n \<and> settled M i n \<and> role n = Follower \<and> lg_entries (rlog n) = [] \<and>
     snapshot_index (rlog n) = 0 \<and> snapshot_term (rlog n) = 0 \<and> commit_index n = 0 \<and> last_applied n = 0"

definition world_start :: "NodeId set \<Rightarrow> 's world \<Rightarrow> bool" where
  "world_start M W \<longleftrightarrow> finite M \<and> (\<forall>i \<in> M. fresh_node M i (node W i)) \<and> rpcs (net W) = (\<lambda>_ _ _. NotSent) \<and>
     ballots (net W) = {} \<and> appends W = {} \<and> answers W = {} \<and> snapshots W = {} \<and> installing W = {} \<and>
     proposals W = {}"

inductive world_reach :: "'s callbacks \<Rightarrow> ('s \<Rightarrow> 's \<Rightarrow> bool) \<Rightarrow> NodeId set \<Rightarrow> 's world \<Rightarrow> bool" for cb kp M where
  world_start: "world_start M W \<Longrightarrow> world_reach cb kp M W"
| world_step: "world_reach cb kp M W \<Longrightarrow> world_step cb kp M W W' \<Longrightarrow> world_reach cb kp M W'"

text \<open>Runs in which every machine starts as \<open>m0\<close>, a restart finds the machine it left, and no snapshot is installed.\<close>

inductive replica_reach :: "'s callbacks \<Rightarrow> 's \<Rightarrow> NodeId set \<Rightarrow> 's world \<Rightarrow> bool" for cb m0 M where
  replica_start: "world_start M W \<Longrightarrow> \<forall>i \<in> M. machine (node W i) = m0 \<Longrightarrow> replica_reach cb m0 M W"
| replica_step: "replica_reach cb m0 M W \<Longrightarrow> world_step cb (=) M W W' \<Longrightarrow> installing W' = {} \<Longrightarrow> replica_reach cb m0 M W'"

lemma replica_world: "replica_reach cb m0 M W \<Longrightarrow> world_reach cb (=) M W \<and> installing W = {}"
  by (induction rule: replica_reach.induct) (auto simp: world_start_def intro: world_reach.intros)

lemma set_node_fields [simp]:
  "appends (set_node i n W) = appends W" "answers (set_node i n W) = answers W"
  "snapshots (set_node i n W) = snapshots W" "installing (set_node i n W) = installing W"
  "proposals (set_node i n W) = proposals W"
  "net (set_node i n W) = (net W)\<lparr>nodes := (nodes (net W))(i := n)\<rparr>"
  by (simp_all add: set_node_def)

section \<open>The simulation relation\<close>

text \<open>Committed by a leader of a term up to \<open>t\<close>; known to be held by \<open>p\<close> in term \<open>t\<close>.\<close>

definition reached :: "proto \<Rightarrow> Term \<Rightarrow> LogIndex \<Rightarrow> bool" where
  "reached P t x \<longleftrightarrow> x = 0 \<or> (\<exists>t1 k1. (t1, k1) \<in> p_chosen P \<and> t1 \<le> t \<and> x \<le> k1)"

definition matched :: "proto \<Rightarrow> Term \<Rightarrow> NodeId \<Rightarrow> LogIndex \<Rightarrow> bool" where
  "matched P t p x \<longleftrightarrow> reached P t x \<or> (\<exists>k. x \<le> k \<and> (p, t, k) \<in> p_acks P)"

definition node_sim :: "NodeId set \<Rightarrow> proto \<Rightarrow> NodeId \<Rightarrow> 's RaftNode \<Rightarrow> bool" where
  "node_sim M P i n \<longleftrightarrow> tracks M i (p_log P i) n \<and> p_term P i = term_of n \<and> p_commit P i = commit_index n \<and>
     (role n = Leader \<longrightarrow> leads P i \<and> tables (M - {i}) (length (p_log P i) + 1) (matched P (term_of n)) n) \<and>
     (role n = Candidate \<longrightarrow> p_hist P (term_of n) \<noteq> None \<longrightarrow> p_lead P (term_of n) \<noteq> i)"

definition hist_ok :: "proto \<Rightarrow> bool" where
  "hist_ok P \<longleftrightarrow> (\<forall>t H. p_hist P t = Some H \<longrightarrow> 0 < t \<and> entries_ok H)"

text \<open>The ballots of the terms without a leader are the protocol's votes, and the requests under way ask for them.\<close>

definition vote_sim :: "'s cluster \<Rightarrow> proto \<Rightarrow> bool" where
  "vote_sim s P \<longleftrightarrow> p_votes P \<subseteq> ballots s \<and>
     (\<forall>v t c. (v, t, c) \<in> ballots s \<longrightarrow> 0 < t \<and> (p_hist P t = None \<longrightarrow> (v, t, c) \<in> p_votes P)) \<and>
     (\<forall>c t v req. rpcs s c t v = Asked req \<longrightarrow> (c, t, c) \<in> ballots s \<and>
        rvq_last_log_index req = length (p_cand P t c) \<and> rvq_last_log_term req = last_term (p_cand P t c))"

definition append_sim :: "NodeId set \<Rightarrow> proto \<Rightarrow> NodeId \<Rightarrow> NodeId \<Rightarrow> AppendEntriesRequest \<Rightarrow> bool" where
  "append_sim M P c p req \<longleftrightarrow> c \<in> M \<and> p \<in> M \<and> p \<noteq> c \<and> p_lead P (aeq_term req) = c \<and>
     (\<exists>H. p_hist P (aeq_term req) = Some H \<and> sends H req) \<and> reached P (aeq_term req) (aeq_leader_commit req)"

definition answer_sim :: "NodeId set \<Rightarrow> proto \<Rightarrow> NodeId \<Rightarrow> NodeId \<Rightarrow> AppendEntriesRequest \<Rightarrow> AppendEntriesResponse \<Rightarrow> bool" where
  "answer_sim M P c p req resp \<longleftrightarrow> append_sim M P c p req \<and>
     (aer_success resp \<longrightarrow> (p, aeq_term req, aeq_prev_log_index req + length (aeq_entries req)) \<in> p_acks P)"

definition snapshot_sim :: "NodeId set \<Rightarrow> proto \<Rightarrow> InstallSnapshotRequest \<Rightarrow> bool" where
  "snapshot_sim M P req \<longleftrightarrow> (\<exists>H. p_hist P (isq_term req) = Some H \<and> sends_snapshot M H req) \<and>
     reached P (isq_term req) (isq_last_included_index req)"

definition messages_sim :: "NodeId set \<Rightarrow> 's world \<Rightarrow> proto \<Rightarrow> bool" where
  "messages_sim M W P \<longleftrightarrow> (\<forall>c p req. (c, p, req) \<in> appends W \<longrightarrow> append_sim M P c p req) \<and>
     (\<forall>c p req resp. (c, p, req, resp) \<in> answers W \<longrightarrow> answer_sim M P c p req resp) \<and>
     (\<forall>c p req. (c, p, req) \<in> snapshots W \<longrightarrow> c \<in> M \<and> p \<in> M \<and> snapshot_sim M P req) \<and>
     (\<forall>p req. (p, req) \<in> installing W \<longrightarrow> p \<in> M \<and> isq_term req \<le> p_term P p \<and> snapshot_sim M P req)"

definition sim :: "NodeId set \<Rightarrow> 's world \<Rightarrow> proto \<Rightarrow> bool" where
  "sim M W P \<longleftrightarrow> finite M \<and> cluster_inv M (net W) \<and> proto_ok M P \<and> hist_ok P \<and> vote_sim (net W) P \<and>
     messages_sim M W P \<and> (\<forall>i \<in> M. node_sim M P i (node W i))"

lemma sim_proposals [simp]: "sim M (W\<lparr>proposals := X\<rparr>) P = sim M W P"
  by (simp add: sim_def messages_sim_def)

lemma simD:
  assumes "sim M W P"
  shows "finite M" "cluster_inv M (net W)" "proto_ok M P" "proto_inv M P" "hist_ok P" "vote_sim (net W) P" "messages_sim M W P"
    "i \<in> M \<Longrightarrow> node_sim M P i (node W i)"
  using assms by (simp_all add: sim_def proto_ok_def)

lemma node_simD:
  assumes "node_sim M P i n"
  shows "tracks M i (p_log P i) n" "p_term P i = term_of n" "p_commit P i = commit_index n"
    "role n = Leader \<Longrightarrow> leads P i" "role n = Leader \<Longrightarrow> p_hist P (term_of n) = Some (p_log P i)"
    "role n = Leader \<Longrightarrow> p_lead P (term_of n) = i"
    "role n = Leader \<Longrightarrow> tables (M - {i}) (length (p_log P i) + 1) (matched P (term_of n)) n"
    "role n = Candidate \<Longrightarrow> p_hist P (term_of n) \<noteq> None \<Longrightarrow> p_lead P (term_of n) \<noteq> i"
  using assms by (auto simp: node_sim_def)

lemma hist_okD: "hist_ok P \<Longrightarrow> p_hist P t = Some H \<Longrightarrow> 0 < t" "hist_ok P \<Longrightarrow> p_hist P t = Some H \<Longrightarrow> entries_ok H"
  by (auto simp: hist_ok_def)

lemma matched_0 [simp]: "matched P t p 0" "reached P t 0"
  by (simp_all add: matched_def reached_def)

lemma node_sim_tables:
  assumes "node_sim M P i n" and "role n = Leader"
  shows "tracks_tables M i (p_log P i) (length (p_log P i) + 1) (matched P (term_of n)) n"
  using node_simD(1,7) [OF assms(1)] assms(2) by (simp add: tracks_tables_def)

text \<open>What is reached in a term, its leader has.\<close>

lemma reached_bound:
  assumes "proto_inv M P" and "p_hist P t = Some H" and "reached P t x"
  shows "x \<le> length H"
proof (cases "x = 0")
  case False
  then obtain t1 k1 where c: "(t1, k1) \<in> p_chosen P" "t1 \<le> t" "x \<le> k1" using assms(3) by (auto simp: reached_def)
  from leader_has_chosen [OF assms(1) c(1) assms(2) c(2)] c(3) show ?thesis by (simp add: has_prefix_def)
qed simp

lemma matched_bound:
  assumes "proto_inv M P" and "p_hist P t = Some H" and "matched P t p x"
  shows "x \<le> length H"
proof (cases "reached P t x")
  case False
  then obtain k where k: "x \<le> k" "(p, t, k) \<in> p_acks P" using assms(3) by (auto simp: matched_def)
  have "k \<le> length H" using proto_invD(4) [OF assms(1) k(2)] assms(2) by (simp add: ack_ok_def)
  then show ?thesis using k(1) by simp
qed (rule reached_bound [OF assms(1,2)])

lemma commit_reached:
  assumes "proto_inv M P" and "i \<in> M" and "p_term P i \<le> t"
  shows "reached P t (p_commit P i)" and "p_commit P i \<le> length (p_log P i)"
    and "p_hist P t = Some H \<Longrightarrow> has_prefix (p_log P i) (p_commit P i) H"
proof -
  note c = proto_invD(7) [OF assms(1,2)]
  show "reached P t (p_commit P i)" "p_commit P i \<le> length (p_log P i)"
    using c assms(3) by (auto simp: reached_def commit_ok_def has_prefix_def intro: le_trans)
  assume h: "p_hist P t = Some H"
  show "has_prefix (p_log P i) (p_commit P i) H"
  proof (cases "p_commit P i = 0")
    case False
    then obtain t1 k1 where c1: "(t1, k1) \<in> p_chosen P" "p_commit P i \<le> k1" "t1 \<le> p_term P i"
      "has_prefix (p_log P i) (p_commit P i) (history P t1)" using c by (auto simp: commit_ok_def)
    have "has_prefix H k1 (history P t1)" using leader_has_chosen [OF assms(1) c1(1) h] c1(3) assms(3) by simp
    from has_prefix_le [OF this c1(2)] c1(4) show ?thesis using has_prefix_trans has_prefix_sym by metis
  qed (simp add: has_prefix_def)
qed

text \<open>The protocol's commit rule, from the members the code counts.\<close>

lemma commit_majority:
  assumes "proto_ok M P" and "leads P c" and "t = p_term P c" and "may_commit M c (p_log P c) t (matched P t) k"
  shows "\<exists>Q. majority_of M Q \<and> (\<forall>v \<in> Q. \<exists>k'. k \<le> k' \<and> (v, t, k') \<in> p_acks P)"
proof -
  have inv: "proto_inv M P" and la: "lead_acked P" using assms(1) by (simp_all add: proto_ok_def)
  let ?L = "p_log P c"
  have h: "p_hist P t = Some ?L" "p_lead P t = c" using assms(2,3) by simp_all
  have k: "0 < k" "k \<le> length ?L" "le_term (?L ! (k - 1)) = t" using assms(4) by (simp_all add: may_commit_def)
  obtain S where S: "majority_of M S" "\<forall>p \<in> S. p = c \<or> (\<exists>x. k \<le> x \<and> matched P t p x)"
    using assms(4) by (auto simp: may_commit_def)
  show ?thesis
  proof (cases "\<exists>x. k \<le> x \<and> reached P t x")
    case True
    then obtain t1 k1 where c: "(t1, k1) \<in> p_chosen P" "t1 \<le> t" "k \<le> k1" using k(1) by (auto simp: reached_def intro: le_trans)
    have pre: "has_prefix ?L k1 (history P t1)" by (rule leader_has_chosen [OF inv c(1) h(1) c(2)])
    obtain H1 where H1: "p_hist P t1 = Some H1" using proto_invD(6) [OF inv c(1)] by (auto simp: chosen_ok_def)
    have "k - 1 < k1" "k - 1 < length H1" using k(1) c(3) pre H1 by (auto simp: has_prefix_def)
    then have "le_term (H1 ! (k - 1)) = t" using has_prefix_nth [OF pre] k(3) H1 by simp
    then have "t \<le> t1" using hist_invD(6) [OF proto_invD(2) [OF inv] H1, of "H1 ! (k - 1)"] \<open>k - 1 < length H1\<close> by simp
    then have "t1 = t" using c(2) by simp
    then show ?thesis using proto_invD(6) [OF inv c(1)] c(3) unfolding chosen_ok_def by (meson le_trans)
  next
    case False
    have "\<exists>k'. k \<le> k' \<and> (v, t, k') \<in> p_acks P" if v: "v \<in> S" for v
    proof (cases "v = c")
      case True
      have "own_entry P t k" using k h(1) by (simp add: own_entry_def)
      then have "(c, t, k) \<in> p_acks P" using la h by (auto simp: lead_acked_def)
      then show ?thesis using True by auto
    next
      case no: False
      then obtain x where "k \<le> x" "matched P t v x" using S(2) v by auto
      then show ?thesis using False by (auto simp: matched_def intro: le_trans)
    qed
    then show ?thesis using S(1) by blast
  qed
qed

section \<open>What growing histories keep\<close>

lemma grows_reached: "grows P P' \<Longrightarrow> reached P t x \<Longrightarrow> reached P' t x"
  using growsD(6) unfolding reached_def by blast

lemma grows_matched: "grows P P' \<Longrightarrow> matched P t p x \<Longrightarrow> matched P' t p x"
  using grows_reached growsD(5) unfolding matched_def by blast

lemma grows_append:
  assumes "grows P P'" and "append_sim M P c p req"
  shows "append_sim M P' c p req"
proof -
  obtain H where H: "p_hist P (aeq_term req) = Some H" "sends H req" using assms(2) by (auto simp: append_sim_def)
  obtain X where "p_hist P' (aeq_term req) = Some (H @ X)" using growsD(2) [OF assms(1) H(1)] by blast
  then show ?thesis
    using assms(2) growsD(3) [OF assms(1) H(1)] sends_longer [OF H(2)] grows_reached [OF assms(1)] by (auto simp: append_sim_def)
qed

lemma grows_answer: "grows P P' \<Longrightarrow> answer_sim M P c p req resp \<Longrightarrow> answer_sim M P' c p req resp"
  using grows_append growsD(5) unfolding answer_sim_def by blast

lemma grows_snapshot:
  assumes "grows P P'" and "snapshot_sim M P req"
  shows "snapshot_sim M P' req"
proof -
  obtain H where H: "p_hist P (isq_term req) = Some H" "sends_snapshot M H req" using assms(2) by (auto simp: snapshot_sim_def)
  obtain X where X: "p_hist P' (isq_term req) = Some (H @ X)" using growsD(2) [OF assms(1) H(1)] by blast
  have "has_prefix (H @ X) (isq_last_included_index req) H" using H(2) by (simp add: sends_snapshot_def has_prefix_def)
  then have "sends_snapshot M (H @ X) req" by (rule sends_snapshot_prefix [OF H(2)])
  then show ?thesis using X assms(2) grows_reached [OF assms(1)] by (auto simp: snapshot_sim_def)
qed

lemma grows_messages:
  assumes "messages_sim M W P" and "grows P P'" and "appends W' = appends W" and "answers W' = answers W"
    and "snapshots W' = snapshots W" and "installing W' = installing W"
  shows "messages_sim M W' P'"
  using assms(1) grows_append [OF assms(2)] grows_answer [OF assms(2)] grows_snapshot [OF assms(2)] growsD(1) [OF assms(2)] le_trans
  unfolding messages_sim_def assms(3-6) by meson

text \<open>A leader's log is its term's history, after any step.\<close>

lemma leads_keep:
  assumes "proto_inv M P" and "p_hist P t \<noteq> None" and "p_lead P t = i" and "p_term P i = t"
  shows "leads P i"
proof -
  obtain H where H: "p_hist P t = Some H" using assms(2) by auto
  from hist_invD(7) [OF proto_invD(2) [OF assms(1)] H] assms(3,4) H show ?thesis by simp
qed

lemma node_sim_keep:
  assumes "node_sim M P j n" and "moves i P P'" and "proto_inv M P'" and "j \<noteq> i"
  shows "node_sim M P' j n"
proof -
  note m = movesD(2-4) [OF assms(2,4)] note g = movesD(1) [OF assms(2)] note n = node_simD [OF assms(1)]
  have "leads P' j \<and> tables (M - {j}) (length (p_log P' j) + 1) (matched P' (term_of n)) n" if l: "role n = Leader"
  proof
    obtain X where "p_hist P' (term_of n) = Some (p_log P j @ X)" using growsD(2) [OF g n(5) [OF l]] by blast
    then show "leads P' j"
      by (intro leads_keep [OF assms(3)]) (use growsD(3) [OF g n(5) [OF l]] n(2,6) [OF] l m in simp_all)
    show "tables (M - {j}) (length (p_log P' j) + 1) (matched P' (term_of n)) n"
      by (rule tables_mono [OF n(7) [OF l]]) (use m grows_matched [OF g] in simp_all)
  qed
  moreover have "p_lead P' (term_of n) \<noteq> j" if "role n = Candidate" "p_hist P' (term_of n) \<noteq> None"
  proof (cases "p_hist P (term_of n)")
    case None
    then show ?thesis using movesD(5) [OF assms(2) None that(2)] assms(4) by simp
  next
    case (Some H)
    then show ?thesis using n(8) [OF that(1)] growsD(3) [OF g Some] by simp
  qed
  ultimately show ?thesis using n(1-3) m by (simp add: node_sim_def)
qed

lemma membership_tracks:
  assumes "finite M" and "\<forall>i \<in> M. \<exists>L. tracks M i L (nodes s i)"
  shows "membership_fixed M s"
  unfolding membership_fixed_def Let_def
proof (intro conjI ballI)
  fix i assume "i \<in> M"
  then obtain L where t: "tracks M i L (nodes s i)" using assms(2) by blast
  note d = tracksD [OF t] note r = tracksD [OF Refresh_tracks(2) [OF t]]
  show "node_id (nodes s i) = i" "omap_ok (peers (nodes s i))" "fst ` set (peers (nodes s i)) = M - {i}"
    "omap_ok (peers (snd (RefreshMembership (nodes s i))))" "fst ` set (peers (snd (RefreshMembership (nodes s i)))) = M - {i}"
    using d(7,8,10) r(8,10) by simp_all
qed (rule assms(1))

text \<open>A step of one node outside elections, matched by steps of the protocol that leave the votes.\<close>

lemma sim_local:
  fixes W W' :: "'s world" and cb :: "'s callbacks"
  assumes "sim M W P" and "i \<in> M" and "acts M i P P'" and "node_sim M P' i n" and "hist_ok P'"
    and "p_votes P' = p_votes P" and "p_cand P' = p_cand P" and "\<And>t. p_hist P t = None \<Longrightarrow> p_hist P' t = None"
    and "quiet_step cb (\<lambda>_. True) (\<lambda>_. True) (node W i) n" and "net W' = (net W)\<lparr>nodes := (nodes (net W))(i := n)\<rparr>"
    and "messages_sim M W' P'"
  shows "sim M W' P'"
proof -
  note s = simD [OF assms(1)]
  have ok: "proto_ok M P'" "moves i P P'" using acts_ok [OF assms(3) s(3)] by blast+
  then have inv: "proto_inv M P'" by (simp add: proto_ok_def)
  have n: "\<forall>j \<in> M. node_sim M P' j (node W' j)"
    using node_sim_keep [OF s(8) ok(2) inv] assms(4) by (simp add: assms(10))
  then have "membership_fixed M (net W')" using node_simD(1) by (intro membership_tracks [OF s(1)]) blast
  then have "cluster_inv M (net W')" unfolding assms(10) by (rule cluster_inv_other [OF s(2) assms(2,9)])
  moreover have "vote_sim (net W') P'"
  proof -
    have "p_hist P t = None" if "p_hist P' t = None" for t by (rule grows_None [OF movesD(1) [OF ok(2)] that])
    then show ?thesis using s(6) assms(6,7) unfolding vote_sim_def by (simp add: assms(10))
  qed
  ultimately show ?thesis using s(1) ok(1) assms(5,11) n by (simp add: sim_def)
qed

end
