(* ===== verification/Raft_Replay.thy ===== *)
theory Raft_Replay
  imports Raft_Handlers
begin

text \<open>
  The state machine behind a node, in terms of the full log it tracks: it is what the commands of the entries that were
  applied make of the state machine it started with (\<open>ran_log\<close>).  Every critical section of \<^verbatim>\<open>src/raft/node.cpp\<close> outside
  the installation of snapshots keeps that.
\<close>

section \<open>Running a log\<close>

definition replay :: "'s callbacks \<Rightarrow> LogEntry list \<Rightarrow> 's \<Rightarrow> 's" where
  "replay cb L m = snd (run_commands cb (map (\<lambda>e. (le_index e, le_command e)) L) m)"

definition ran_log :: "'s callbacks \<Rightarrow> 's \<Rightarrow> LogEntry list \<Rightarrow> 's RaftNode \<Rightarrow> bool" where
  "ran_log cb m0 L n \<longleftrightarrow> machine n = replay cb (take (last_applied n) L) m0"

lemma replay_append: "replay cb (L @ G) m = replay cb G (replay cb L m)"
  by (simp add: replay_def run_commands_append case_prod_beta Let_def)

lemma replay_Nil [simp]: "replay cb [] m = m"
  by (simp add: replay_def)

lemma ran_same: "machine n' = machine n \<Longrightarrow> last_applied n' = last_applied n \<Longrightarrow> ran_log cb m0 L n' = ran_log cb m0 L n"
  by (simp add: ran_log_def)

lemma ran_prefix: "take (last_applied n) L' = take (last_applied n) L \<Longrightarrow> ran_log cb m0 L' n = ran_log cb m0 L n"
  by (simp add: ran_log_def)

lemma commands_at_holds:
  assumes "holds_log L l" and "entries_ok L" and "snapshot_index l \<le> a" and "a \<le> c" and "c \<le> length L"
  shows "commands_at l [a + 1 ..< c + 1] = map (\<lambda>e. (le_index e, le_command e)) (drop a (take c L))"
proof -
  have e: "(case At l i of None \<Rightarrow> [] | Some e \<Rightarrow> if TryDecodeConfChange (le_command e) = Inr None then [(i, le_command e)] else [])
      = [(le_index (L ! (i - 1)), le_command (L ! (i - 1)))]" if "i \<in> set [a + 1 ..< c + 1]" for i
  proof -
    have i: "snapshot_index l < i" "i \<le> length L" "i - 1 < length L" "i - 1 + 1 = i" using that assms(3,5) by auto
    then show ?thesis
      using holds_At [OF assms(1,2), of i] entries_okD(1,3) [OF assms(2) i(3)] by (simp add: plain_def)
  qed
  have "commands_at l [a + 1 ..< c + 1] = concat (map (\<lambda>i. [(le_index (L ! (i - 1)), le_command (L ! (i - 1)))]) [a + 1 ..< c + 1])"
    unfolding commands_at_def using e by (intro arg_cong [where f = concat] map_cong refl) blast
  also have "\<dots> = map (\<lambda>i. (le_index (L ! (i - 1)), le_command (L ! (i - 1)))) [a + 1 ..< c + 1]"
    by (simp add: concat_map_singleton del: upt_Suc)
  also have "\<dots> = map (\<lambda>e. (le_index e, le_command e)) (drop a (take c L))"
    using assms(4,5) by (intro nth_equalityI) (simp_all del: upt_Suc)
  finally show ?thesis .
qed

lemma ApplyCommitted_ran:
  assumes "tracks M i L n" and "ran_log cb m0 L n"
  shows "ran_log cb m0 L (snd (ApplyCommitted cb n))"
proof -
  note t = tracksD [OF assms(1)]
  obtain n' where n': "ApplyCommitted cb n = (Inr (), n')" "last_applied n' = commit_index n"
    "machine n' = snd (run_commands cb (commands_at (rlog n) [last_applied n + 1 ..< commit_index n + 1]) (machine n))"
    using ApplyCommitted_effect [OF t(1,5), of cb] by (auto simp: Let_def case_prod_beta)
  have "machine n' = replay cb (drop (last_applied n) (take (commit_index n) L)) (replay cb (take (last_applied n) L) m0)"
    using n'(3) assms(2) unfolding commands_at_holds [OF t(3,4,14,5,6)] ran_log_def by (simp add: replay_def)
  also have "\<dots> = replay cb (take (commit_index n) L) m0"
    using t(5) by (subst replay_append [symmetric]) (metis append_take_drop_id min.absorb1 take_take)
  finally show ?thesis using n'(1,2) by (simp add: ran_log_def)
qed

text \<open>The log a node tracks and that its machine ran it.\<close>

definition runs :: "'s callbacks \<Rightarrow> 's \<Rightarrow> NodeId set \<Rightarrow> NodeId \<Rightarrow> LogEntry list \<Rightarrow> 's RaftNode \<Rightarrow> bool" where
  "runs cb m0 M i L n \<longleftrightarrow> tracks M i L n \<and> ran_log cb m0 L n"

lemma keeps_runs_Refresh [keeps_intros]: "keeps (runs cb m0 M i L) RefreshMembership"
  by (rule keepsI) (simp add: runs_def Refresh_tracks ran_log_def)

lemma keeps_runs_Apply [keeps_intros]: "keeps (runs cb m0 M i L) (ApplyCommitted cb)"
  by (rule keepsI) (use ApplyCommitted_tracks ApplyCommitted_ran in \<open>auto simp: runs_def\<close>)

lemma keeps_runs_step_down [keeps_intros]: "keeps (runs cb m0 M i L) step_down_if_removed"
  by (rule keeps_step_down) (simp_all add: keeps_intros runs_def tracks_Follower ran_log_def)

lemma runs_commit:
  "runs cb m0 M i L n \<Longrightarrow> commit_index n \<le> c \<Longrightarrow> c \<le> length L \<Longrightarrow> runs cb m0 M i L (n\<lparr>commit_index := c\<rparr>)"
  by (auto simp: runs_def ran_log_def tracks_def settled_def)

section \<open>The handlers that apply\<close>

lemma MaybeAdvance_ran:
  assumes "tracks M i L n" and "ran_log cb m0 L n" and "0 < term_of n"
  shows "ran_log cb m0 L (snd (MaybeAdvanceCommitIndex cb n))"
proof (cases "commit_index n < majority_index n \<and> TermAt (rlog n) (majority_index n) = term_of n")
  case True
  note t = tracksD [OF assms(1)]
  have "majority_index n \<le> length L" using holds_TermAt_pos [OF t(3,4)] True assms(3) by simp
  then have r: "runs cb m0 M i L (n\<lparr>commit_index := majority_index n\<rparr>)"
    using assms(1,2) True by (intro runs_commit) (simp_all add: runs_def)
  have "keeps (runs cb m0 M i L) (ebind (ApplyCommitted cb) (\<lambda>_. step_down_if_removed))" by (intro keeps_intros)
  from keepsD [OF this r] True show ?thesis by (simp add: MaybeAdvanceCommitIndex_def runs_def)
qed (use assms(2) in \<open>auto simp: MaybeAdvanceCommitIndex_def\<close>)

lemma Propose_begin_ran:
  fixes cb :: "'s callbacks" and n :: "'s RaftNode"
  assumes "tracks M i L n" and "plain c" and "role n = Leader" and "0 < term_of n" and "ran_log cb m0 L n"
  shows "ran_log cb m0 (L @ [\<lparr>le_index = length L + 1, le_term = term_of n, le_command = c\<rparr>]) (snd (Propose_begin cb c n))"
proof -
  note t = tracksD [OF assms(1)]
  define L' where "L' = L @ [\<lparr>le_index = length L + 1, le_term = term_of n, le_command = c\<rparr>]"
  define m where "m = n\<lparr>rlog := snd (log_Append (term_of n) c (rlog n))\<rparr>"
  have "node_ok m" unfolding m_def by (rule node_ok_append [OF t(1) plain_decodable [OF assms(2)]])
  moreover have "holds_log L' (rlog m)" unfolding m_def L'_def using holds_Append [OF t(3,4)] by simp
  moreover have "entries_ok L'" unfolding L'_def by (rule entries_ok_snoc [OF t(4) assms(4,2)])
  ultimately have "tracks M i L' m" using assms(1) by (simp add: tracks_def settled_def m_def L'_def)
  moreover have "ran_log cb m0 L' m" using assms(5) t(5,6) by (simp add: ran_log_def m_def L'_def)
  ultimately have m: "runs cb m0 M i L' m" by (simp add: runs_def)
  obtain m1 where r: "RefreshMembership m = (Inr (), m1)"
    using Refresh_tracks(1) m by (metis prod.collapse runs_def)
  have m1: "runs cb m0 M i L' m1" using keepsD [OF keeps_runs_Refresh m] r by simp
  have f: "hard m1 = hard n" using RefreshMembership_pair [OF r] by (simp add: m_def)
  have "propose_check c n = Inr None" using assms(2) by (simp add: propose_check_def plain_def)
  then have "snd (Propose_begin cb c n) = snd (MaybeAdvanceCommitIndex cb m1)"
    using assms(3) r unfolding Propose_begin_def m_def
    by (simp add: Let_def case_prod_beta ebind_def eret_def split: sum.split)
  then show ?thesis
    using MaybeAdvance_ran [of M i L' m1 cb m0] m1 f assms(4) unfolding runs_def L'_def [symmetric] by simp
qed

lemma HandleAppendReply_ran:
  fixes cb :: "'s callbacks" and n :: "'s RaftNode" and now rnd :: nat
  assumes "tracks M i L n" and "role n = Leader \<Longrightarrow> 0 < term_of n" and "ran_log cb m0 L n"
  shows "ran_log cb m0 L (snd (HandleAppendReply cb now rnd p t prev sent resp n))"
proof -
  define m where "m = HandleSendFailure p n"
  have m: "tracks M i L m" "ran_log cb m0 L m" "role m = role n" "hard m = hard n"
    using tracks_SendFailure [OF assms(1)] assms(3) by (simp_all add: m_def ran_log_def)
  have "ran_log cb m0 L (snd (MaybeAdvanceCommitIndex cb (m\<lparr>match_index := omap_set p x (match_index m),
      next_index := omap_set p y (next_index m)\<rparr>)))" if "omap_count p (peers m)" "role m = Leader" for x y
  proof (rule MaybeAdvance_ran)
    show "tracks M i L (m\<lparr>match_index := omap_set p x (match_index m), next_index := omap_set p y (next_index m)\<rparr>)"
      by (rule tracks_same [OF m(1)]) (simp_all add: node_ok_entry [OF tracksD(1) [OF m(1)] that(1)])
  qed (use assms(2) m that in \<open>simp_all add: ran_log_def\<close>)
  then show ?thesis
    using m(2) by (auto simp: HandleAppendReply_def Let_def m_def [symmetric] ran_log_def)
qed

lemma commit_from_leader_ran:
  assumes "tracks M i L n" and "ran_log cb m0 L n"
  shows "ran_log cb m0 L (snd (commit_from_leader cb req n))"
proof -
  have "keeps (runs cb m0 M i L) (\<lambda>n. if commit_index n < aeq_leader_commit req
      then ApplyCommitted cb (n\<lparr>commit_index := min (aeq_leader_commit req) (LastIndex (rlog n))\<rparr>) else (Inr (), n))"
  proof (rule keepsI)
    fix m assume m: "runs cb m0 M i L m"
    then have "LastIndex (rlog m) = length L" "commit_index m \<le> length L" using tracksD(6,12) by (auto simp: runs_def)
    then have "runs cb m0 M i L (m\<lparr>commit_index := min (aeq_leader_commit req) (LastIndex (rlog m))\<rparr>)"
      if "commit_index m < aeq_leader_commit req" using m that by (intro runs_commit) simp_all
    then show "runs cb m0 M i L (snd (if commit_index m < aeq_leader_commit req
        then ApplyCommitted cb (m\<lparr>commit_index := min (aeq_leader_commit req) (LastIndex (rlog m))\<rparr>) else (Inr (), m)))"
      using m keepsD [OF keeps_runs_Apply] by auto
  qed
  then have "keeps (runs cb m0 M i L) (commit_from_leader cb req)" unfolding commit_from_leader_def by (intro keeps_intros)
  from keepsD [OF this, of n] assms show ?thesis by (simp add: runs_def)
qed

text \<open>A follower that takes over entries keeps the ones it has applied.\<close>

lemma HandleAppendEntries_ran:
  assumes "tracks M i L n" and "term_of n \<le> aeq_term req" and "sends H req" and "entries_ok H" and "good h L" and "good h H"
    and "has_prefix L (commit_index n) H" and "HandleAppendEntries cb now rnd req n = (Inr resp, n')" and "ran_log cb m0 L n"
  shows "ran_log cb m0 (if aer_success resp
      then take_over (aeq_prev_log_index req) (aeq_prev_log_index req + length (aeq_entries req)) H L else L) n'"
proof -
  let ?prev = "aeq_prev_log_index req" let ?m = "?prev + length (aeq_entries req)"
  let ?L' = "take_over ?prev ?m H L"
  define n1 where "n1 = follow_leader now rnd (aeq_term req) (aeq_leader_id req) n"
  have n1: "tracks M i L n1" "commit_index n1 = commit_index n"
    using tracks_follow_leader [OF assms(1)] by (simp_all add: n1_def)
  have r1: "ran_log cb m0 L n1" using assms(9) by (simp add: ran_log_def n1_def)
  obtain b l where a: "AppendEntriesFrom ?prev (aeq_prev_log_term req) (aeq_entries req) (rlog n1) = (b, l)" by (metis surj_pair)
  have h: "HandleAppendEntries cb now rnd req n = (if b then commit_from_leader cb req (n1\<lparr>rlog := l\<rparr>)
      else (Inr \<lparr>aer_term = term_of n1, aer_success = False, aer_match_index = 0\<rparr>, n1\<lparr>rlog := l\<rparr>))"
    using assms(2) a by (simp add: HandleAppendEntries_def Let_def n1_def [symmetric])
  show ?thesis
  proof (cases b)
    case False
    then have "n' = n1\<lparr>rlog := l\<rparr>" "\<not> aer_success resp" using h assms(8) by auto
    then show ?thesis using r1 by (simp add: ran_log_def)
  next
    case True
    note acc = append_accepted [OF n1(1) assms(3-6) assms(7) [folded n1(2)] a [unfolded eqTrueI [OF True]]]
    have "last_applied n1 \<le> commit_index n1" using tracksD(5) [OF n1(1)] .
    from has_prefix_le [OF acc(4) this] have "take (last_applied n1) ?L' = take (last_applied n1) L"
      by (simp add: has_prefix_def)
    then have r2: "ran_log cb m0 ?L' (n1\<lparr>rlog := l\<rparr>)" using r1 by (simp add: ran_log_def)
    obtain resp' where "commit_from_leader cb req (n1\<lparr>rlog := l\<rparr>) = (Inr resp', n')" "aer_success resp'"
      using commit_from_leader_tracks [OF acc(3), of cb req] h True assms(8) by auto
    then show ?thesis using commit_from_leader_ran [OF acc(3) r2, of req] h True assms(8) by auto
  qed
qed

section \<open>The handlers that do not apply\<close>

definition idle :: "'s RaftNode \<Rightarrow> 's RaftNode \<Rightarrow> bool" where
  "idle n n' \<longleftrightarrow> machine n' = machine n \<and> last_applied n' = last_applied n"

lemma idle_ran: "idle n n' \<Longrightarrow> ran_log cb m0 L n' = ran_log cb m0 L n"
  by (simp add: idle_def ran_log_def)

lemma keeps_idle [keeps_intros]: "keeps (idle n) RefreshMembership" "keeps (idle n) (BecomeLeader now)"
proof -
  show "keeps (idle n) RefreshMembership" by (rule keepsI) (simp add: idle_def)
  then show "keeps (idle n) (BecomeLeader now)" by (rule keeps_BecomeLeader) (simp add: idle_def)
qed

lemma idle_votes:
  fixes n :: "'a RaftNode"
  shows "idle n (snd (StartElection now rnd n))" "idle n (snd (HandleVoteReply now rnd t resp n))"
  "idle n (snd (HandleRequestVote now rnd req n))"
proof -
  have l: "idle n m \<Longrightarrow> idle n (snd (BecomeLeader now m))" for m by (rule keepsD [OF keeps_idle(2)])
  have p: "BecomeLeader now m = (r, m') \<Longrightarrow> machine m' = machine m \<and> last_applied m' = last_applied m" for m m' :: "'a RaftNode" and r
    using keepsD [OF keeps_idle(2) [of m now], of m] by (simp add: idle_def)
  have "keeps (idle n) (StartElection now rnd)"
    unfolding StartElection_def Let_def
    by (intro keeps_intros keepsI) (auto simp: ebind_def eret_def idle_def split: prod.splits sum.splits dest: p)
  then show "idle n (snd (StartElection now rnd n))" by (rule keepsD) (simp add: idle_def)
  show "idle n (snd (HandleVoteReply now rnd t resp n))"
    using l by (auto simp: HandleVoteReply_def Let_def idle_def)
  show "idle n (snd (HandleRequestVote now rnd req n))"
    by (auto simp: HandleRequestVote_def Let_def idle_def)
qed

lemma idle_messages:
  "idle n (snd (ReplicateTo p n))" "idle n (HandleSendFailure p n)" "idle n (snd (SendInstallSnapshot cb p t n))"
  "idle n (snd (InstallSnapshot_begin now rnd req n))" "idle n (HandleSnapshotReply now rnd p t snap resp n)" "idle n (snd (Tick now n))"
  by (auto simp: idle_def ReplicateTo_def SendInstallSnapshot_def InstallSnapshot_begin_def HandleSnapshotReply_def Tick_def Let_def)

end
