(* ===== verification/Raft_Simulation.thy ===== *)
theory Raft_Simulation
  imports Raft_World Raft_Replay
begin

text \<open>
  The nodes of \<^verbatim>\<open>src/raft/node.cpp\<close> implement the protocol: every step of a world is matched by steps of the node's in the
  protocol, after which the two stand in the relation \<open>sim\<close> again.  There is one lemma for each kind of step; each also says what
  becomes of the protocol's logs, or that the machine still is what its log made of it.
\<close>

section \<open>Steps of one node\<close>

definition bumped :: "NodeId \<Rightarrow> 's RaftNode \<Rightarrow> proto \<Rightarrow> proto" where
  "bumped i n P = P\<lparr>p_term := (p_term P)(i := term_of n)\<rparr>"

lemma bumped_fields [simp]:
  "p_log (bumped i n P) = p_log P" "p_commit (bumped i n P) = p_commit P" "p_hist (bumped i n P) = p_hist P"
  "p_lead (bumped i n P) = p_lead P" "p_cand (bumped i n P) = p_cand P" "p_votes (bumped i n P) = p_votes P"
  "p_acks (bumped i n P) = p_acks P" "p_chosen (bumped i n P) = p_chosen P" "p_term (bumped i n P) = (p_term P)(i := term_of n)"
  by (simp_all add: bumped_def)

lemma reached_chosen: "p_chosen P' = p_chosen P \<Longrightarrow> reached P' = reached P"
  by (simp add: reached_def fun_eq_iff)

lemma matched_acks: "p_chosen P' = p_chosen P \<Longrightarrow> p_acks P' = p_acks P \<Longrightarrow> matched P' = matched P"
  using reached_chosen [of P' P] by (simp add: matched_def fun_eq_iff)

lemma bumped_step: "i \<in> M \<Longrightarrow> p_term P i \<le> term_of n \<Longrightarrow> acts M i P (bumped i n P)"
  unfolding bumped_def by (intro r_into_rtranclp bump)

lemma one_act: "proto_step M v P P' \<Longrightarrow> acts M v P P'"
  by (rule r_into_rtranclp)

lemma more_acts: "acts M v P P' \<Longrightarrow> proto_step M v P' P'' \<Longrightarrow> acts M v P P''"
  by (rule rtranclp.rtrancl_into_rtrancl)

lemma quiet_term: "quiet_step cb aok sok n n' \<Longrightarrow> node_ok n \<Longrightarrow> term_of n \<le> term_of n'"
  using quiet_step_hard hard_evolves_term node_okD(1) by blast

lemma grows_bumped: "p_term P i \<le> term_of n \<Longrightarrow> grows P (bumped i n P)"
  by (simp add: grows_def)

lemma sim_node: "sim M W P \<Longrightarrow> i \<in> M \<Longrightarrow> node_sim M P i (node W i)"
  by (rule simD)

text \<open>Where the histories come from: a leader's is the log that it is elected with, and then what is proposed to it.\<close>

definition from_logs :: "NodeId set \<Rightarrow> proto \<Rightarrow> proto \<Rightarrow> bool" where
  "from_logs M P P' \<longleftrightarrow> (\<forall>t H. p_hist P' t = Some H \<longrightarrow> p_hist P t = Some H \<or> (\<exists>i \<in> M. H = p_log P i))"

definition kept :: "NodeId set \<Rightarrow> proto \<Rightarrow> proto \<Rightarrow> bool" where
  "kept M P P' \<longleftrightarrow> p_log P' = p_log P \<and> from_logs M P P'"

lemma from_logs_same [simp]: "p_hist P' = p_hist P \<Longrightarrow> from_logs M P P'"
  by (simp add: from_logs_def)

lemma kept_same [simp]: "p_log P' = p_log P \<Longrightarrow> p_hist P' = p_hist P \<Longrightarrow> kept M P P'"
  by (simp add: kept_def)

lemma keptD: "kept M P P' \<Longrightarrow> p_log P' = p_log P" "kept M P P' \<Longrightarrow> from_logs M P P'"
  by (simp_all add: kept_def)

text \<open>A step that changes neither log nor commit index.\<close>

lemma sim_quiet:
  fixes W W' :: "'s world" and cb :: "'s callbacks"
  assumes "sim M W P" and "i \<in> M" and "quiet_step cb (\<lambda>_. True) (\<lambda>_. True) (node W i) n"
    and "tracks M i (p_log P i) n" and "commit_index n = commit_index (node W i)"
    and "role n = Leader \<Longrightarrow> role (node W i) = Leader \<and> term_of n = term_of (node W i) \<and>
      tables (M - {i}) (length (p_log P i) + 1) (matched P (term_of n)) n"
    and "net W' = (net W)\<lparr>nodes := (nodes (net W))(i := n)\<rparr>"
    and "grows P (bumped i n P) \<Longrightarrow> messages_sim M W' (bumped i n P)"
  shows "\<exists>P'. acts M i P P' \<and> kept M P P' \<and> sim M W' P'"
proof (intro exI conjI)
  note ns = node_simD [OF sim_node [OF assms(1,2)]]
  have t: "p_term P i \<le> term_of n" using quiet_term [OF assms(3) tracksD(1) [OF ns(1)]] ns(2) by simp
  show a: "acts M i P (bumped i n P)" by (rule bumped_step [OF assms(2) t])
  show "kept M P (bumped i n P)" by simp
  have m: "matched (bumped i n P) = matched P" by (rule matched_acks) simp_all
  have "node_sim M (bumped i n P) i n"
    using assms(4-6) ns quiet_step_role [OF assms(3)] unfolding node_sim_def m by (auto simp: role_evolves_def)
  then show "sim M W' (bumped i n P)"
    using simD(5) [OF assms(1)] assms(8) grows_bumped [OF t]
    by (intro sim_local [OF assms(1,2) a _ _ _ _ _ assms(3,7)]) (simp_all add: hist_ok_def)
qed

lemma bumped_messages:
  assumes "sim M W P" and "grows P P'" and "appends W' = appends W" and "answers W' = answers W"
    and "snapshots W' = snapshots W" and "installing W' = installing W"
  shows "messages_sim M W' P'"
  by (rule grows_messages [OF simD(7) [OF assms(1)] assms(2-6)])

text \<open>A step that changes only fields outside the log, the term, the role and the tables.\<close>

lemma sim_same:
  fixes W W' :: "'s world" and cb :: "'s callbacks"
  assumes "sim M W P" and "i \<in> M" and "quiet_step cb (\<lambda>_. True) (\<lambda>_. True) (node W i) n"
    and "tracks M i (p_log P i) n" and "commit_index n = commit_index (node W i)" and "hard n = hard (node W i)"
    and "role n = role (node W i)" and "next_index n = next_index (node W i)" and "match_index n = match_index (node W i)"
    and "net W' = (net W)\<lparr>nodes := (nodes (net W))(i := n)\<rparr>"
    and "grows P (bumped i n P) \<Longrightarrow> messages_sim M W' (bumped i n P)"
  shows "\<exists>P'. acts M i P P' \<and> kept M P P' \<and> sim M W' P'"
proof (rule sim_quiet [OF assms(1-5) _ assms(10,11)])
  assume l: "role n = Leader"
  note ns = node_simD(7) [OF sim_node [OF assms(1,2)]]
  show "role (node W i) = Leader \<and> term_of n = term_of (node W i) \<and>
      tables (M - {i}) (length (p_log P i) + 1) (matched P (term_of n)) n"
    using ns l assms(6,7) tables_same [OF assms(8,9)] by simp
qed

lemma leader_term:
  assumes "sim M W P" and "c \<in> M" and "role (node W c) = Leader"
  shows "0 < term_of (node W c)"
  using hist_okD(1) [OF simD(5) [OF assms(1)] node_simD(5) [OF sim_node [OF assms(1,2)] assms(3)]] .

lemma sim_small:
  fixes W :: "'s world" and cb :: "'s callbacks"
  assumes "sim M W P" and "c \<in> M"
  shows "\<exists>P'. acts M c P P' \<and> kept M P P' \<and> sim M (set_node c (HandleSendFailure p (node W c)) W) P'"
    and "\<exists>P'. acts M c P P' \<and> kept M P P' \<and> sim M (set_node c (snd (Tick now (node W c))) W) P'"
    and "\<exists>P'. acts M c P P' \<and> kept M P P' \<and> sim M (set_node c (InstallSnapshot_restore cb req (node W c)) W) P'"
proof -
  note ns = node_simD [OF sim_node [OF assms]]
  let ?n = "node W c"
  have q: "quiet_step cb (\<lambda>_. True) (\<lambda>_. True) ?n (HandleSendFailure p ?n)"
    "quiet_step cb (\<lambda>_. True) (\<lambda>_. True) ?n (snd (Tick now ?n))"
    "quiet_step cb (\<lambda>_. True) (\<lambda>_. True) ?n (InstallSnapshot_restore cb req ?n)"
    by (rule quiet_step.intros)+
  note ok = tracksD(1) [OF ns(1)]
  have t: "tracks M c (p_log P c) (HandleSendFailure p ?n)" by (rule tracks_SendFailure [OF ns(1)])
  have t': "tracks M c (p_log P c) (snd (Tick now ?n))" "tracks M c (p_log P c) (InstallSnapshot_restore cb req ?n)"
    by (rule tracks_same [OF ns(1) node_ok_small(3) [OF ok]]; simp add: Tick_def)
      (rule tracks_same [OF ns(1) node_ok_small(2) [OF ok]]; simp add: InstallSnapshot_restore_def)
  show "\<exists>P'. acts M c P P' \<and> kept M P P' \<and> sim M (set_node c (HandleSendFailure p ?n) W) P'"
    by (rule sim_same [OF assms q(1) t]) (simp_all add: bumped_messages [OF assms(1)])
  show "\<exists>P'. acts M c P P' \<and> kept M P P' \<and> sim M (set_node c (snd (Tick now ?n)) W) P'"
    by (rule sim_same [OF assms q(2) t'(1)]) (simp_all add: bumped_messages [OF assms(1)] Tick_def)
  show "\<exists>P'. acts M c P P' \<and> kept M P P' \<and> sim M (set_node c (InstallSnapshot_restore cb req ?n) W) P'"
    by (rule sim_same [OF assms q(3) t'(2)]) (simp_all add: bumped_messages [OF assms(1)] InstallSnapshot_restore_def)
qed

section \<open>Replication\<close>

lemma sim_replicate:
  fixes W :: "'s world"
  assumes "sim M W P" and "c \<in> M" and "p \<in> M" and "p \<noteq> c" and "ReplicateTo p (node W c) = (act, n)"
  shows "\<exists>P'. acts M c P P' \<and> kept M P P' \<and> sim M ((set_node c n W)\<lparr>appends := appends W \<union> appended c p act\<rparr>) P'"
proof -
  note ns = node_simD [OF sim_node [OF assms(1,2)]]
  let ?n = "node W c" and ?L = "p_log P c"
  have e: "n = snd (ReplicateTo p ?n)" using assms(5) by simp
  have q: "quiet_step (undefined :: 's callbacks) (\<lambda>_. True) (\<lambda>_. True) ?n n" unfolding e by (rule quiet_step.replicate)
  show ?thesis
  proof (cases "role ?n = Leader")
    case False
    then have "act = NoSend" "n = ?n" using assms(5) by (simp_all add: ReplicateTo_def)
    show ?thesis
    proof (rule sim_same [OF assms(1,2) q])
      assume g: "grows P (bumped c n P)"
      show "messages_sim M ((set_node c n W)\<lparr>appends := appends W \<union> appended c p act\<rparr>) (bumped c n P)"
        by (rule bumped_messages [OF assms(1) g]) (simp_all add: appended_def \<open>act = NoSend\<close>)
    qed (use \<open>n = ?n\<close> ns(1) in simp_all)
  next
    case True
    note r = ReplicateTo_tracks [OF node_sim_tables [OF sim_node [OF assms(1,2)] True] order_refl _ assms(5)]
    have p: "p \<in> M - {c}" using assms(3,4) by simp
    show ?thesis
    proof (rule sim_quiet [OF assms(1,2) q])
      show "tracks M c ?L n" "commit_index n = commit_index ?n" using r(1,4) [OF p] by (simp_all add: tracks_tables_def)
      show "role ?n = Leader \<and> term_of n = term_of ?n \<and> tables (M - {c}) (length ?L + 1) (matched P (term_of n)) n"
        using r(1,2) [OF p] True by (simp add: tracks_tables_def)
      assume g: "grows P (bumped c n P)"
      have "append_sim M P c' p' req" if "(c', p', req) \<in> appended c p act" for c' p' req
      proof -
        have a: "act = SendAppend req" "c' = c" "p' = p" using that by (auto simp: appended_def split: replicate_action.splits)
        note s = r(5) [OF p a(1)]
        have "reached P (term_of ?n) (commit_index ?n)"
          using commit_reached(1) [OF simD(4) [OF assms(1)] assms(2)] ns(2,3) by (metis order_refl)
        then show ?thesis using s a(2,3) assms(2-4) ns(5,6) [OF True] by (simp add: append_sim_def)
      qed
      then have "append_sim M (bumped c n P) c' p' req" if "(c', p', req) \<in> appended c p act" for c' p' req
        using grows_append [OF g] that by blast
      moreover have "messages_sim M (set_node c n W) (bumped c n P)" by (rule bumped_messages [OF assms(1) g]) simp_all
      ultimately show "messages_sim M ((set_node c n W)\<lparr>appends := appends W \<union> appended c p act\<rparr>) (bumped c n P)"
        by (auto simp: messages_sim_def)
    qed simp
  qed
qed

text \<open>Adding an answer to the messages.\<close>

lemma messages_answer:
  assumes "messages_sim M W P" and "\<And>resp. r = Inr resp \<Longrightarrow> answer_sim M P c p req resp"
  shows "messages_sim M (W\<lparr>answers := answers W \<union> answered c p req r\<rparr>) P"
  using assms by (auto simp: messages_sim_def answered_def split: sum.splits)

lemma node_sim_follower:
  assumes "tracks M i (p_log P i) n" and "p_term P i = term_of n" and "p_commit P i = commit_index n" and "role n = Follower"
  shows "node_sim M P i n"
  using assms by (simp add: node_sim_def)

lemma sim_append_entries:
  fixes W :: "'s world" and cb :: "'s callbacks"
  assumes "sim M W P" and "(c, p, req) \<in> appends W" and "HandleAppendEntries cb now rnd req (node W p) = (r, n)"
  shows "\<exists>P'. acts M p P P' \<and> from_logs M P P' \<and>
    (\<forall>m0. ran_log cb m0 (p_log P p) (node W p) \<longrightarrow> ran_log cb m0 (p_log P' p) n) \<and>
    sim M ((set_node p n W)\<lparr>answers := answers W \<union> answered c p req r\<rparr>) P'"
proof -
  note s = simD [OF assms(1)]
  have as: "append_sim M P c p req" using s(7) assms(2) by (simp add: messages_sim_def)
  let ?n = "node W p" and ?t = "aeq_term req" and ?prev = "aeq_prev_log_index req" and ?L = "p_log P p"
  let ?m = "?prev + length (aeq_entries req)"
  let ?W = "(set_node p n W)\<lparr>answers := answers W \<union> answered c p req r\<rparr>"
  obtain H where a: "p \<in> M" "p \<noteq> c" "p_lead P ?t = c" "p_hist P ?t = Some H" "sends H req" "reached P ?t (aeq_leader_commit req)"
    using as by (auto simp: append_sim_def)
  note ns = node_simD [OF sim_node [OF assms(1) a(1)]]
  have e: "n = snd (HandleAppendEntries cb now rnd req ?n)" using assms(3) by simp
  have q: "quiet_step cb (\<lambda>_. True) (\<lambda>_. True) ?n n" unfolding e by (rule quiet_step.append_entries) simp
  show ?thesis
  proof (cases "?t < term_of ?n")
    case True
    then have r: "r = Inr \<lparr>aer_term = term_of ?n, aer_success = False, aer_match_index = 0\<rparr>" "n = ?n"
      using assms(3) by (auto simp: HandleAppendEntries_def)
    have "\<exists>P'. acts M p P P' \<and> kept M P P' \<and> sim M ?W P'"
    proof (rule sim_same [OF assms(1) a(1) q])
      assume g: "grows P (bumped p n P)"
      have m: "messages_sim M (set_node p n W) (bumped p n P)" by (rule bumped_messages [OF assms(1) g]) simp_all
      show "messages_sim M ?W (bumped p n P)"
        using messages_answer [OF m, of r c p req] grows_append [OF g as] r(1) by (simp add: answer_sim_def)
    qed (use r(2) ns(1) in simp_all)
    then show ?thesis using r(2) by (auto simp: kept_def)
  next
    case False
    then have le: "term_of ?n \<le> ?t" "p_term P p \<le> ?t" using ns(2) by simp_all
    have gd: "good (p_hist P) ?L" "good (p_hist P) H"
      using logs_invD(1) [OF proto_invD(3) [OF s(4)] a(1)] logs_invD(3) [OF proto_invD(3) [OF s(4)] a(4)] .
    have pre: "has_prefix ?L (commit_index ?n) H" using commit_reached(3) [OF s(4) a(1) le(2) a(4)] ns(3) by simp
    note h = HandleAppendEntries_tracks [OF ns(1) le(1) a(5) hist_okD(2) [OF s(5) a(4)] gd pre assms(3)]
    have ran: "ran_log cb m0 (if aer_success resp then take_over ?prev ?m H ?L else ?L) n"
      if "r = Inr resp" "ran_log cb m0 ?L ?n" for resp m0
      by (rule HandleAppendEntries_ran [OF ns(1) le(1) a(5) hist_okD(2) [OF s(5) a(4)] gd pre _ that(2)]) (use assms(3) that(1) in simp)
    consider (refused) resp where "r = Inr resp" "\<not> aer_success resp" "tracks M p ?L n" "commit_index n = commit_index ?n"
      | (taken) resp where "?prev \<le> length ?L" "?prev = 0 \<or> le_term (?L ! (?prev - 1)) = le_term (H ! (?prev - 1))"
          "tracks M p (take_over ?prev ?m H ?L) n"
          "commit_index n = max (commit_index ?n) (min (aeq_leader_commit req) (length (take_over ?prev ?m H ?L)))"
          "r = Inr resp" "aer_success resp"
      using h(3) unfolding Let_def by blast
    then show ?thesis
    proof cases
      case refused
      have "\<exists>P'. acts M p P P' \<and> kept M P P' \<and> sim M ?W P'"
      proof (rule sim_quiet [OF assms(1) a(1) q refused(3,4)])
        assume g: "grows P (bumped p n P)"
        have m: "messages_sim M (set_node p n W) (bumped p n P)" by (rule bumped_messages [OF assms(1) g]) simp_all
        show "messages_sim M ?W (bumped p n P)"
          using messages_answer [OF m, of r c p req] grows_append [OF g as] refused(1,2) by (simp add: answer_sim_def)
      qed (use h(2) in simp_all)
      then show ?thesis using ran [OF refused(1)] refused(2) by (auto simp: kept_def)
    next
      case taken
      let ?L' = "take_over ?prev ?m H ?L"
      let ?P1 = "bumped p n P"
      let ?P2 = "?P1\<lparr>p_log := (p_log ?P1)(p := ?L'), p_acks := insert (p, ?t, ?m) (p_acks ?P1)\<rparr>"
      let ?P3 = "?P2\<lparr>p_commit := (p_commit ?P2)(p := commit_index n)\<rparr>"
      have m: "?m \<le> length H" "aeq_leader_commit req \<le> ?m" using a(5) by (simp_all add: sends_def)
      have "acts M p P ?P1" by (rule bumped_step [OF a(1)]) (use le(2) h(1) in simp)
      moreover have "proto_step M p ?P1 ?P2"
        using accept [of p M ?P1 ?t H ?prev ?m] a(1-4) h(1) m(1) taken(1,2) by simp
      ultimately have a2: "acts M p P ?P2" by (rule more_acts)
      have a3: "acts M p P ?P3"
      proof (cases "commit_index n = commit_index ?n")
        case True
        then have "proto_step M p ?P2 ?P3" using ns(3) by (intro forget) (simp_all add: a(1))
        with a2 show ?thesis by (rule more_acts)
      next
        case False
        then have k: "commit_index n \<le> aeq_leader_commit req" "0 < commit_index n" using taken(4) by (auto simp: max_def min_def split: if_splits)
        then obtain t1 k1 where c: "(t1, k1) \<in> p_chosen P" "t1 \<le> ?t" "commit_index n \<le> k1"
          using a(6) by (auto simp: reached_def intro: le_trans)
        have "has_prefix ?L' (commit_index n) H"
          by (rule has_prefix_le [OF take_over_prefix(1) [OF gd le_add1 m(1) taken(1,2)]]) (use k(1) m(2) in simp)
        then have "proto_step M p ?P2 ?P3"
          by (intro learn [where t = ?t and H = H and ?t1.0 = t1 and ?k1.0 = k1]) (use a(1,4) c h(1) in simp_all)
        with a2 show ?thesis by (rule more_acts)
      qed
      have g: "grows P ?P3" using acts_ok [OF a3 s(3)] movesD(1) by blast
      have "sim M ?W ?P3"
      proof (rule sim_local [OF assms(1) a(1) a3 _ _ _ _ _ q])
        show "node_sim M ?P3 p n" by (rule node_sim_follower) (use taken(3) h(2) in simp_all)
        show "hist_ok ?P3" using s(5) by (simp add: hist_ok_def)
        have mm: "messages_sim M (set_node p n W) ?P3" by (rule bumped_messages [OF assms(1) g]) simp_all
        have "answer_sim M ?P3 c p req resp" for resp
          using grows_append [OF g as] by (simp add: answer_sim_def)
        from messages_answer [OF mm this] show "messages_sim M ?W ?P3" by simp
      qed simp_all
      moreover have "\<forall>m0. ran_log cb m0 ?L ?n \<longrightarrow> ran_log cb m0 (p_log ?P3 p) n" using ran [OF taken(5)] taken(6) by simp
      moreover have "from_logs M P ?P3" by simp
      ultimately show ?thesis using a3 by blast
    qed
  qed
qed

section \<open>Commits and proposals\<close>

text \<open>A leader moves its commit index by the protocol's rule.\<close>

definition committed :: "NodeId \<Rightarrow> LogIndex \<Rightarrow> proto \<Rightarrow> proto" where
  "committed c k P = P\<lparr>p_commit := (p_commit P)(c := k), p_chosen := insert (p_term P c, k) (p_chosen P)\<rparr>"

lemma committed_step:
  assumes "proto_ok M P" and "c \<in> M" and "leads P c" and "may_commit M c (p_log P c) (p_term P c) (matched P (p_term P c)) k"
  shows "proto_step M c P (committed c k P)"
proof -
  obtain Q where "majority_of M Q" "\<forall>v \<in> Q. \<exists>k'. k \<le> k' \<and> (v, p_term P c, k') \<in> p_acks P"
    using commit_majority [OF assms(1,3) refl assms(4)] by blast
  then show ?thesis
    unfolding committed_def using assms(4) by (intro commit [OF assms(2,3) refl]) (simp_all add: may_commit_def)
qed

lemma committed_fields [simp]:
  "p_term (committed c k P) = p_term P" "p_log (committed c k P) = p_log P" "p_hist (committed c k P) = p_hist P"
  "p_lead (committed c k P) = p_lead P" "p_cand (committed c k P) = p_cand P" "p_votes (committed c k P) = p_votes P"
  "p_acks (committed c k P) = p_acks P" "p_commit (committed c k P) = (p_commit P)(c := k)"
  by (simp_all add: committed_def)

lemma may_commit_mono:
  "may_commit M c L t Q k \<Longrightarrow> (\<And>p x. Q p x \<Longrightarrow> Q' p x) \<Longrightarrow> may_commit M c L t Q' k"
  unfolding may_commit_def by blast

lemma committed_node:
  assumes "node_sim M P c m" and "role m = Leader" and "grows P (committed c (commit_index n) P)" and "tracks M c (p_log P c) n"
    and "term_of n = term_of m" and "role n = Leader \<or> role n = Follower"
    and "role n = Leader \<Longrightarrow> tables (M - {c}) (length (p_log P c) + 1) (matched P (term_of n)) n"
  shows "node_sim M (committed c (commit_index n) P) c n"
proof -
  note ns = node_simD [OF assms(1)]
  have "tables (M - {c}) (length (p_log P c) + 1) (matched (committed c (commit_index n) P) (term_of n)) n" if "role n = Leader"
    by (rule tables_mono [OF assms(7) [OF that]]) (use grows_matched [OF assms(3)] in simp_all)
  then show ?thesis using assms(4-6) ns(2) ns(4) [OF assms(2)] by (auto simp: node_sim_def)
qed

lemma matched_less:
  assumes "sim M W P" and "c \<in> M" and "role (node W c) = Leader" and "matched P (term_of (node W c)) p x"
  shows "x < length (p_log P c) + 1"
  using matched_bound [OF simD(4) [OF assms(1)] node_simD(5) [OF sim_node [OF assms(1,2)] assms(3)] assms(4)] by simp

lemma sim_append_reply:
  fixes W :: "'s world" and cb :: "'s callbacks" and now rnd :: nat
  assumes "sim M W P" and "(c, p, req, resp) \<in> answers W"
  defines "n \<equiv> snd (HandleAppendReply cb now rnd p (aeq_term req) (aeq_prev_log_index req) (length (aeq_entries req)) resp (node W c))"
  shows "\<exists>P'. acts M c P P' \<and> kept M P P' \<and> sim M (set_node c n W) P'"
proof -
  note s = simD [OF assms(1)]
  have as: "answer_sim M P c p req resp" using s(7) assms(2) by (simp add: messages_sim_def)
  let ?n = "node W c" and ?L = "p_log P c"
  have c: "c \<in> M" using as by (simp add: answer_sim_def append_sim_def)
  note ns = node_simD [OF sim_node [OF assms(1) c]]
  have q: "quiet_step cb (\<lambda>_. True) (\<lambda>_. True) ?n n" unfolding n_def by (rule quiet_step.append_reply)
  let ?Q = "matched P (term_of ?n)" and ?B = "length ?L + 1"
  have acked: "aer_success resp \<longrightarrow> aeq_term req = term_of ?n \<longrightarrow> role ?n = Leader \<longrightarrow>
      ?Q p (aeq_prev_log_index req + length (aeq_entries req))"
    using as by (auto simp: answer_sim_def matched_def)
  show ?thesis
  proof (cases "role ?n = Leader")
    case False
    have nl: "role n \<noteq> Leader" using quiet_step_role [OF q] False by (auto simp: role_evolves_def)
    have e: "n = HandleSendFailure p ?n \<or> n = BecomeFollower now rnd (aer_term resp) (HandleSendFailure p ?n)"
      using False by (auto simp: n_def HandleAppendReply_def Let_def)
    have "tracks M c ?L n" "commit_index n = commit_index ?n"
      using e tracks_SendFailure [OF ns(1), of p] tracks_BecomeFollower by auto
    then show ?thesis
      by (intro sim_quiet [OF assms(1) c q]) (use nl in \<open>simp_all add: bumped_messages [OF assms(1)]\<close>)
  next
    case True
    have less: "\<forall>p x. ?Q p x \<longrightarrow> x < ?B" using matched_less [OF assms(1) c True] by blast
    note h = HandleAppendReply_tracks [where cb = cb and now = now and rnd = rnd and resp = resp and t = "aeq_term req",
        OF ns(1) s(1) c leader_term [OF assms(1) c True] node_sim_tables [OF sim_node [OF assms(1) c] True] less acked, folded n_def]
    have n: "tracks M c ?L n" "role n = Leader \<Longrightarrow> tracks_tables M c ?L ?B ?Q n \<and> term_of n = term_of ?n"
      "commit_index n = commit_index ?n \<or> term_of n = term_of ?n \<and> may_commit M c ?L (term_of ?n) ?Q (commit_index n)"
      using h by auto
    show ?thesis
    proof (cases "commit_index n = commit_index ?n")
      case same: True
      show ?thesis
        by (rule sim_quiet [OF assms(1) c q n(1) same])
          (use n(2) True in \<open>auto simp: tracks_tables_def bumped_messages [OF assms(1)]\<close>)
    next
      case False
      then have k: "term_of n = term_of ?n" "may_commit M c ?L (term_of ?n) ?Q (commit_index n)" using n(3) by blast+
      let ?P = "committed c (commit_index n) P"
      have a: "acts M c P ?P"
        by (rule r_into_rtranclp, rule committed_step [OF s(3) c ns(4) [OF True]]) (use k(2) ns(2) in simp)
      have g: "grows P ?P" using acts_ok [OF a s(3)] movesD(1) by blast
      have "role n = Leader \<or> role n = Follower" using quiet_step_role [OF q] True by (auto simp: role_evolves_def)
      then have "node_sim M ?P c n"
        using n(2) k(1) by (intro committed_node [OF sim_node [OF assms(1) c] True g n(1)]) (auto simp: tracks_tables_def)
      then have "sim M (set_node c n W) ?P"
        using s(5) by (intro sim_local [OF assms(1) c a _ _ _ _ _ q]) (simp_all add: hist_ok_def bumped_messages [OF assms(1) g])
      then show ?thesis using a by (intro exI [of _ ?P] conjI) simp_all
    qed
  qed
qed

text \<open>The proposal ends the history of the leader's term.\<close>

definition takes_proposal :: "NodeId set \<Rightarrow> proto \<Rightarrow> NodeId \<Rightarrow> LogEntry set \<Rightarrow> proto \<Rightarrow> bool" where
  "takes_proposal M P c es P' \<longleftrightarrow> es = {} \<and> from_logs M P P' \<or>
     (\<exists>e. es = {e} \<and> le_index e = length (p_log P c) + 1 \<and> p_hist P' = (p_hist P)(le_term e := Some (p_log P c @ [e])))"

lemma sim_propose:
  fixes W :: "'s world" and cb :: "'s callbacks"
  assumes "sim M W P" and "c \<in> M" and "plain command"
  defines "n \<equiv> snd (Propose_begin cb command (node W c))"
  shows "\<exists>P'. acts M c P P' \<and> takes_proposal M P c (proposed command (node W c)) P' \<and>
    (\<forall>m0. ran_log cb m0 (p_log P c) (node W c) \<longrightarrow> ran_log cb m0 (p_log P' c) n) \<and> sim M (set_node c n W) P'"
proof -
  note s = simD [OF assms(1)]
  let ?n = "node W c" and ?L = "p_log P c"
  note ns = node_simD [OF sim_node [OF assms(1,2)]]
  have q: "quiet_step cb (\<lambda>_. True) (\<lambda>_. True) ?n n" unfolding n_def by (rule quiet_step.propose)
  show ?thesis
  proof (cases "role ?n = Leader")
    case False
    then have e: "n = ?n" by (simp add: n_def Propose_begin_def)
    then have "\<exists>P'. acts M c P P' \<and> kept M P P' \<and> sim M (set_node c n W) P'"
      by (intro sim_same [OF assms(1,2) q]) (use ns(1) in \<open>simp_all add: bumped_messages [OF assms(1)]\<close>)
    moreover have "proposed command ?n = {}" using False by (simp add: proposed_def)
    ultimately show ?thesis using e by (auto simp: kept_def takes_proposal_def)
  next
    case True
    let ?t = "term_of ?n" and ?e = "\<lparr>le_index = length ?L + 1, le_term = term_of ?n, le_command = command\<rparr>"
    let ?L' = "?L @ [?e]"
    let ?P1 = "P\<lparr>p_log := (p_log P)(c := ?L'), p_hist := (p_hist P)(?t := Some ?L'),
      p_acks := insert (c, ?t, length ?L + 1) (p_acks P)\<rparr>"
    note t0 = leader_term [OF assms(1,2) True]
    note h = Propose_begin_tracks [OF node_sim_tables [OF sim_node [OF assms(1,2)] True] assms(3) True s(1) assms(2) t0, of cb, folded n_def]
    have ran: "\<forall>m0. ran_log cb m0 ?L ?n \<longrightarrow> ran_log cb m0 ?L' n"
      using Propose_begin_ran [OF ns(1) assms(3) True t0] unfolding n_def by blast
    have "LastIndex (rlog ?n) = length ?L" using holds_LastIndex tracksD(3,4) [OF ns(1)] by blast
    then have pe: "proposed command ?n = {?e}" using True by (simp add: proposed_def)
    have s1: "proto_step M c P ?P1"
      using propose [OF assms(2) ns(4) [OF True], of ?t ?e] ns(2) by simp
    note a1 = one_act [OF s1]
    note p1 = acts_ok [OF a1 s(3)]
    have g1: "grows P ?P1" by (rule movesD(1) [OF conjunct2 [OF p1]])
    have ok': "entries_ok ?L'" by (rule entries_ok_snoc [OF tracksD(4) [OF ns(1)] t0 assms(3)])
    have hist: "hist_ok ?P1" using s(5) ok' t0 by (auto simp: hist_ok_def)
    have tab: "tracks_tables M c ?L' (length ?L' + 1) (matched ?P1 ?t) n"
      using h(1) tables_mono [of _ "length ?L + 1" "matched P ?t" n "length ?L' + 1" "matched ?P1 ?t"] grows_matched [OF g1]
      by (simp add: tracks_tables_def)
    have ld: "leads ?P1 c" using ns(2,6) True by simp
    have h3: "role n = Leader \<or> role n = Follower" "term_of n = ?t" using h(2,3) by simp_all
    show ?thesis
    proof (cases "commit_index n = commit_index ?n")
      case same: True
      have "node_sim M ?P1 c n"
        using tab h3 ns(2,3) ld same by (auto simp: node_sim_def tracks_tables_def)
      moreover have "messages_sim M (set_node c n W) ?P1" by (rule bumped_messages [OF assms(1) g1]) simp_all
      ultimately have "sim M (set_node c n W) ?P1"
        using hist ns(5) [OF True] by (intro sim_local [OF assms(1,2) a1 _ _ _ _ _ q]) auto
      then show ?thesis using a1 ran pe by (intro exI [of _ ?P1] conjI) (simp_all add: takes_proposal_def)
    next
      case False
      then have "may_commit M c ?L' ?t (matched P ?t) (commit_index n)" using h(4) by blast
      then have "may_commit M c ?L' ?t (matched ?P1 ?t) (commit_index n)"
        by (rule may_commit_mono) (rule grows_matched [OF g1])
      then have k: "may_commit M c (p_log ?P1 c) (p_term ?P1 c) (matched ?P1 (p_term ?P1 c)) (commit_index n)"
        using ns(2) by simp
      let ?P2 = "committed c (commit_index n) ?P1"
      have s2: "proto_step M c ?P1 ?P2" by (rule committed_step [OF conjunct1 [OF p1] assms(2) ld k])
      have a: "acts M c P ?P2" by (rule more_acts [OF a1 s2])
      have g: "grows P ?P2" "grows ?P1 ?P2"
        by (rule movesD(1) [OF conjunct2 [OF acts_ok [OF a s(3)]]])
          (rule movesD(1) [OF conjunct2 [OF acts_ok [OF one_act [OF s2] conjunct1 [OF p1]]]])
      have "tables (M - {c}) (length ?L' + 1) (matched ?P2 ?t) n"
        by (rule tables_mono [of _ "length ?L' + 1" "matched ?P1 ?t"]) (use tab grows_matched [OF g(2)] in \<open>simp_all add: tracks_tables_def\<close>)
      then have "node_sim M ?P2 c n"
        using tab h3 ns(2) ld by (auto simp: node_sim_def tracks_tables_def)
      moreover have "messages_sim M (set_node c n W) ?P2" by (rule bumped_messages [OF assms(1) g(1)]) simp_all
      moreover have "hist_ok ?P2" using hist by (simp add: hist_ok_def)
      ultimately have "sim M (set_node c n W) ?P2"
        using ns(5) [OF True] by (intro sim_local [OF assms(1,2) a _ _ _ _ _ q]) auto
      then show ?thesis using a ran pe by (intro exI [of _ ?P2] conjI) (simp_all add: takes_proposal_def)
    qed
  qed
qed

section \<open>Snapshots and restarts\<close>

lemma messages_snapshot:
  assumes "messages_sim M W P" and "\<And>req. r = Some req \<Longrightarrow> c \<in> M \<and> p \<in> M \<and> snapshot_sim M P req"
  shows "messages_sim M (W\<lparr>snapshots := snapshots W \<union> snapped c p r\<rparr>) P"
  using assms by (auto simp: messages_sim_def snapped_def split: option.splits)

lemma sim_send_snapshot:
  fixes W :: "'s world" and cb :: "'s callbacks"
  assumes "sim M W P" and "c \<in> M" and "p \<in> M" and "SendInstallSnapshot cb p t (node W c) = (r, n)"
  shows "\<exists>P'. acts M c P P' \<and> kept M P P' \<and> sim M ((set_node c n W)\<lparr>snapshots := snapshots W \<union> snapped c p r\<rparr>) P'"
proof -
  note s = simD [OF assms(1)]
  let ?n = "node W c"
  let ?W = "(set_node c n W)\<lparr>snapshots := snapshots W \<union> snapped c p r\<rparr>"
  note ns = node_simD [OF sim_node [OF assms(1,2)]]
  note h = SendInstallSnapshot_tracks [OF ns(1) assms(2,4)]
  have e: "n = snd (SendInstallSnapshot cb p t ?n)" using assms(4) by simp
  have q: "quiet_step cb (\<lambda>_. True) (\<lambda>_. True) ?n n" unfolding e by (rule quiet_step.send_snapshot)
  have n: "n = ?n \<or> n = HandleSendFailure p ?n" by (rule h(1))
  have "tracks M c (p_log P c) n" using n ns(1) tracks_SendFailure by auto
  then show ?thesis
  proof (rule sim_same [OF assms(1,2) q])
    assume g: "grows P (bumped c n P)"
    have m: "messages_sim M (set_node c n W) (bumped c n P)" by (rule bumped_messages [OF assms(1) g]) simp_all
    have "c \<in> M \<and> p \<in> M \<and> snapshot_sim M (bumped c n P) req" if r: "r = Some req" for req
    proof -
      note q = h(2) [OF r]
      have "reached P (term_of ?n) (commit_index ?n)"
        using commit_reached(1) [OF s(4) assms(2) order_refl] ns(2,3) by simp
      then have "reached P (term_of ?n) (isq_last_included_index req)"
        using q by (auto simp: reached_def intro: le_trans)
      then have "snapshot_sim M P req" using q ns(5) by (simp add: snapshot_sim_def)
      then show ?thesis using grows_snapshot [OF g] assms(2,3) by blast
    qed
    from messages_snapshot [OF m this] show "messages_sim M ?W (bumped c n P)" by simp
  qed (use n in auto)
qed

lemma sim_snapshot_begin:
  fixes W :: "'s world" and cb :: "'s callbacks"
  assumes "sim M W P" and "(c, p, req) \<in> snapshots W" and "InstallSnapshot_begin now rnd req (node W p) = (r, n)"
  shows "\<exists>P'. acts M p P P' \<and> kept M P P' \<and> sim M ((set_node p n W)\<lparr>installing := installing W \<union> (if r = None then {(p, req)} else {})\<rparr>) P'"
proof -
  have m: "p \<in> M" "snapshot_sim M P req" using simD(7) [OF assms(1)] assms(2) by (auto simp: messages_sim_def)
  note ns = node_simD [OF sim_node [OF assms(1) m(1)]]
  note h = InstallSnapshot_begin_tracks [OF ns(1) assms(3)]
  let ?n = "node W p"
  have e: "n = snd (InstallSnapshot_begin now rnd req ?n)" using assms(3) by simp
  have q: "quiet_step cb (\<lambda>_. True) (\<lambda>_. True) ?n n" unfolding e by (rule quiet_step.snapshot_begin)
  show ?thesis
  proof (rule sim_quiet [OF assms(1) m(1) q h(1,2)])
    assume "role n = Leader"
    then show "role ?n = Leader \<and> term_of n = term_of ?n \<and> tables (M - {p}) (length (p_log P p) + 1) (matched P (term_of n)) n"
      using h(3) ns(7) by auto
  next
    assume g: "grows P (bumped p n P)"
    have mm: "messages_sim M (set_node p n W) (bumped p n P)" by (rule bumped_messages [OF assms(1) g]) simp_all
    show "messages_sim M ((set_node p n W)\<lparr>installing := installing W \<union> (if r = None then {(p, req)} else {})\<rparr>) (bumped p n P)"
      using mm m(1) grows_snapshot [OF g m(2)] h(4) by (auto simp: messages_sim_def)
  qed simp
qed

lemma sim_snapshot_end:
  fixes W :: "'s world" and cb :: "'s callbacks"
  assumes "sim M W P" and "(p, req) \<in> installing W"
  defines "n \<equiv> snd (InstallSnapshot_end req (node W p))"
  shows "\<exists>P'. acts M p P P' \<and> from_logs M P P' \<and> sim M (set_node p n W) P'"
proof -
  note s = simD [OF assms(1)]
  have m: "p \<in> M" "isq_term req \<le> p_term P p" "snapshot_sim M P req" using s(7) assms(2) by (auto simp: messages_sim_def)
  let ?n = "node W p" and ?L = "p_log P p" and ?k = "isq_last_included_index req"
  note ns = node_simD [OF sim_node [OF assms(1) m(1)]]
  have q: "quiet_step (undefined :: 's callbacks) (\<lambda>_. True) (\<lambda>_. True) ?n n" unfolding n_def by (rule quiet_step.snapshot_end) simp
  show ?thesis
  proof (cases "n = ?n")
    case True
    have "\<exists>P'. acts M p P P' \<and> kept M P P' \<and> sim M (set_node p n W) P'"
      by (rule sim_same [OF assms(1) m(1) q]) (use True ns(1) in \<open>simp_all add: bumped_messages [OF assms(1)]\<close>)
    then show ?thesis by (auto simp: kept_def)
  next
    case False
    then have k: "0 < ?k" by (auto simp: n_def InstallSnapshot_end_def split: if_splits)
    obtain H0 where H0: "p_hist P (isq_term req) = Some H0" "sends_snapshot M H0 req" "reached P (isq_term req) ?k"
      using m(3) by (auto simp: snapshot_sim_def)
    then obtain t1 k1 where c: "(t1, k1) \<in> p_chosen P" "t1 \<le> isq_term req" "?k \<le> k1" using k by (auto simp: reached_def)
    obtain H where H: "p_hist P t1 = Some H" using proto_invD(6) [OF s(4) c(1)] by (auto simp: chosen_ok_def)
    have "has_prefix H0 k1 H" using leader_has_chosen [OF s(4) c(1) H0(1) c(2)] H by simp
    then have "has_prefix H ?k H0" using has_prefix_le [OF _ c(3)] has_prefix_sym by blast
    then have snap: "sends_snapshot M H req" by (rule sends_snapshot_prefix [OF H0(2)])
    have t1: "t1 \<le> p_term P p" using c(2) m(2) by simp
    let ?L' = "if ?k \<le> length ?L \<and> le_term (?L ! (?k - 1)) = le_term (H ! (?k - 1)) then ?L else take ?k H"
    let ?P = "P\<lparr>p_log := (p_log P)(p := ?L'), p_commit := (p_commit P)(p := max (p_commit P p) ?k)\<rparr>"
    have st: "proto_step M p P ?P" by (rule install [OF m(1) c(1) k c(3) t1 H])
    note p1 = acts_ok [OF one_act [OF st] s(3)]
    have inv: "proto_inv M ?P" using p1 by (simp add: proto_ok_def)
    have g: "grows P ?P" by (rule movesD(1) [OF conjunct2 [OF p1]])
    have len: "commit_index ?n \<le> length ?L'"
      using commit_reached(2) [OF inv m(1) order_refl] ns(3) by simp
    have h: "tracks M p ?L' n" "commit_index n = max (commit_index ?n) ?k" "hard n = hard ?n" "role n = role ?n"
      "tracks_tables M p ?L B Q ?n \<longrightarrow> tracks_tables M p ?L' B Q n" for B Q
      using InstallSnapshot_end_tracks [OF ns(1) snap hist_okD(2) [OF s(5) H] m(1) len] False unfolding n_def by blast+
    have mt: "matched ?P = matched P" by (rule matched_acks) simp_all
    have "node_sim M ?P p n"
      unfolding node_sim_def mt
    proof (intro conjI impI)
      assume l: "role n = Leader"
      then have l': "role ?n = Leader" using h(4) by simp
      show ld: "p_hist ?P (p_term ?P p) = Some (p_log ?P p)" "p_lead ?P (p_term ?P p) = p"
        using leads_keep [OF inv, of "term_of ?n" p] ns(2,5,6) l' by simp_all
      have "length ?L' = length ?L" using ld(1) ns(2,5) l' by simp
      then show "tables (M - {p}) (length (p_log ?P p) + 1) (matched P (term_of n)) n"
        using h(5) [of "length ?L + 1" "matched P (term_of ?n)"] node_sim_tables [OF sim_node [OF assms(1) m(1)] l'] h(3)
        by (simp add: tracks_tables_def)
    qed (use h ns in simp_all)
    moreover have "messages_sim M (set_node p n W) ?P" by (rule bumped_messages [OF assms(1) g]) simp_all
    moreover have "hist_ok ?P" using s(5) by (simp add: hist_ok_def)
    ultimately have "sim M (set_node p n W) ?P"
      by (intro sim_local [OF assms(1) m(1) one_act [OF st] _ _ _ _ _ q]) simp_all
    then show ?thesis using one_act [OF st] by (intro exI [of _ ?P] conjI) simp_all
  qed
qed

lemma sim_snapshot_reply:
  fixes W :: "'s world" and cb :: "'s callbacks" and now rnd :: nat and resp :: InstallSnapshotResponse
  assumes "sim M W P" and "(c, p, req) \<in> snapshots W"
  defines "n \<equiv> HandleSnapshotReply now rnd p (isq_term req) (isq_last_included_index req) resp (node W c)"
  shows "\<exists>P'. acts M c P P' \<and> kept M P P' \<and> sim M (set_node c n W) P'"
proof -
  note s = simD [OF assms(1)]
  have m: "c \<in> M" "snapshot_sim M P req" using s(7) assms(2) by (auto simp: messages_sim_def)
  let ?n = "node W c" and ?L = "p_log P c"
  note ns = node_simD [OF sim_node [OF assms(1) m(1)]]
  have q: "quiet_step (undefined :: 's callbacks) (\<lambda>_. True) (\<lambda>_. True) ?n n" unfolding n_def by (rule quiet_step.snapshot_reply)
  have b: "role ?n = Leader \<longrightarrow> isq_term req = term_of ?n \<longrightarrow>
      matched P (term_of ?n) p (isq_last_included_index req) \<and> isq_last_included_index req < length ?L + 1"
    using m(2) matched_less [OF assms(1) m(1)] by (auto simp: snapshot_sim_def matched_def)
  have a: "role ?n = Leader \<longrightarrow> tracks_tables M c ?L (length ?L + 1) (matched P (term_of ?n)) ?n"
    using node_sim_tables [OF sim_node [OF assms(1) m(1)]] by blast
  note h = HandleSnapshotReply_tracks [OF ns(1) a b, of now rnd resp, folded n_def]
  show ?thesis
    by (rule sim_quiet [OF assms(1) m(1) q]) (use h in \<open>simp_all add: tracks_tables_def bumped_messages [OF assms(1)]\<close>)
qed

lemma sim_restart:
  fixes W :: "'s world" and n :: "'s RaftNode"
  assumes "sim M W P" and "c \<in> M" and "disk_fits (node W c)"
    and "RaftNode_new (node_id (node W c)) addr ps joins (ps_file (hard (node W c))) (lg_file (rlog (node W c)))
      (ms_file (mship (node W c))) m = Inr n"
  shows "\<exists>P'. acts M c P P' \<and> kept M P P' \<and> sim M (set_node c n W) P'"
proof -
  note ns = node_simD [OF sim_node [OF assms(1,2)]]
  note h = restart_tracks [OF ns(1) assms(3,4)]
  have q: "quiet_step (undefined :: 's callbacks) (\<lambda>_. True) (\<lambda>_. True) (node W c) n" by (rule quiet_step.restart [OF assms(3,4)])
  let ?P = "P\<lparr>p_commit := (p_commit P)(c := commit_index n)\<rparr>"
  have st: "proto_step M c P ?P" by (rule forget [OF assms(2)]) (use h(4) ns(3) in simp)
  have g: "grows P ?P" by (simp add: grows_def)
  have "node_sim M ?P c n" by (rule node_sim_follower) (use h ns in simp_all)
  moreover have "messages_sim M (set_node c n W) ?P" by (rule bumped_messages [OF assms(1) g]) simp_all
  moreover have "hist_ok ?P" using simD(5) [OF assms(1)] by (simp add: hist_ok_def)
  ultimately have "sim M (set_node c n W) ?P"
    by (intro sim_local [OF assms(1,2) one_act [OF st] _ _ _ _ _ q]) simp_all
  then show ?thesis using one_act [OF st] by (intro exI [of _ ?P] conjI) simp_all
qed

section \<open>Elections\<close>

lemma vote_simD:
  assumes "vote_sim s P"
  shows "x \<in> p_votes P \<Longrightarrow> x \<in> ballots s" "(v, t, c) \<in> ballots s \<Longrightarrow> 0 < t"
    "(v, t, c) \<in> ballots s \<Longrightarrow> p_hist P t = None \<Longrightarrow> (v, t, c) \<in> p_votes P"
    "rpcs s c t v = Asked req \<Longrightarrow> (c, t, c) \<in> ballots s \<and>
       rvq_last_log_index req = length (p_cand P t c) \<and> rvq_last_log_term req = last_term (p_cand P t c)"
  using assms by (auto simp: vote_sim_def)

lemma cluster_invD:
  assumes "cluster_inv M s"
  shows "ballots_ok M (nodes s) (ballots s)" "rpcs_ok M (nodes s) (rpcs s) (ballots s)"
    "i \<in> M \<Longrightarrow> standing_ok M (rpcs s) (ballots s) i (nodes s i)"
  using assms by (simp_all add: cluster_inv_def)

text \<open>A node that the code makes a leader wins the protocol's election.\<close>

lemma sim_win:
  assumes "proto_ok M P" and "vote_sim s P" and "cluster_inv M s" and "hist_ok P" and "c \<in> M" and "role (nodes s c) = Leader"
    and "t = term_of (nodes s c)" and "p_term P c = t" and "tracks M c (p_log P c) (nodes s c)"
    and "p_commit P c = commit_index (nodes s c)" and "p_hist P t \<noteq> None \<Longrightarrow> p_lead P t \<noteq> c"
    and "tables (M - {c}) (length (p_log P c) + 1) (\<lambda>_ x. x = 0) (nodes s c)"
  shows "\<exists>P'. proto_step M c P P' \<and> node_sim M P' c (nodes s c) \<and> hist_ok P' \<and> vote_sim s P' \<and> kept M P P'"
proof -
  note bal = cluster_invD(1) [OF assms(3)] note st = cluster_invD(3) [OF assms(3,5)]
  have inv: "proto_inv M P" using assms(1) by (simp add: proto_ok_def)
  obtain Q where Q: "majority_of M Q" "\<forall>v \<in> Q. (v, t, c) \<in> ballots s"
    using st assms(6,7) by (auto simp: standing_ok_def)
  have own: "(c, t, c) \<in> ballots s" using st assms(6,7) by (simp add: standing_ok_def)
  have n: "p_hist P t = None"
  proof (rule ccontr)
    assume h: "p_hist P t \<noteq> None"
    then obtain H where "p_hist P t = Some H" by auto
    from hist_invD(1) [OF proto_invD(2) [OF inv] this]
    obtain R where R: "majority_of M R" "\<forall>v \<in> R. (v, t, p_lead P t) \<in> ballots s"
      using vote_simD(1) [OF assms(2)] by (auto simp: elected_def)
    have "p_lead P t = c"
      by (rule maj.unique_winner [OF R(1) Q(1), where R = "\<lambda>v x. (v, t, x) \<in> ballots s"])
        (use R(2) Q(2) ballots_okD(4) [OF bal] in auto)
    then show False using assms(11) [OF h] by blast
  qed
  let ?P = "P\<lparr>p_hist := (p_hist P)(t := Some (p_log P c)), p_lead := (p_lead P)(t := c)\<rparr>"
  have v: "(w, t, c) \<in> p_votes P" if "(w, t, c) \<in> ballots s" for w by (rule vote_simD(3) [OF assms(2) that n])
  have "proto_step M c P ?P" using Q v own assms(8) by (intro win [OF assms(5) _ n _ Q(1)]) auto
  moreover have "tables (M - {c}) (length (p_log ?P c) + 1) (matched ?P t) (nodes s c)"
    by (rule tables_mono [OF assms(12)]) simp_all
  then have "node_sim M ?P c (nodes s c)" using assms(6-10) by (simp add: node_sim_def)
  moreover have "hist_ok ?P"
    using assms(4) vote_simD(2) [OF assms(2) own] tracksD(4) [OF assms(9)] by (auto simp: hist_ok_def)
  moreover have "vote_sim s ?P" using assms(2) by (auto simp: vote_sim_def)
  moreover have "kept M P ?P" using assms(5) by (auto simp: kept_def from_logs_def)
  ultimately show ?thesis by (intro exI [of _ ?P] conjI) simp_all
qed

lemma sim_votes:
  assumes "sim M W P" and "i \<in> M" and "acts M i P P'" and "node_sim M P' i n" and "hist_ok P'"
    and "nodes s = (nodes (net W))(i := n)" and "vote_sim s P'" and "cluster_inv M s"
  shows "sim M (W\<lparr>net := s\<rparr>) P'"
proof -
  note S = simD [OF assms(1)]
  have ok: "proto_ok M P'" "moves i P P'" using acts_ok [OF assms(3) S(3)] by blast+
  then have inv: "proto_inv M P'" by (simp add: proto_ok_def)
  have "\<forall>j \<in> M. node_sim M P' j (nodes s j)"
    using node_sim_keep [OF S(8) ok(2) inv] assms(4) by (simp add: assms(6))
  moreover have "messages_sim M (W\<lparr>net := s\<rparr>) P'"
    by (rule grows_messages [OF S(7) movesD(1) [OF ok(2)]]) simp_all
  ultimately show ?thesis using S(1) ok(1) assms(5,7,8) by (simp add: sim_def)
qed

lemma election_membership:
  assumes "sim M W P" and "tracks M i L n" and "nodes s = (nodes (net W))(i := n)"
  shows "membership_fixed M s"
proof (rule membership_tracks [OF simD(1) [OF assms(1)]])
  show "\<forall>j \<in> M. \<exists>L. tracks M j L (nodes s j)"
    using node_simD(1) [OF sim_node [OF assms(1)]] assms(2) by (auto simp: assms(3))
qed

lemma sent_rpcs_asked:
  "foldl (\<lambda>f (v, req). set_rpc c (rvq_term req) v (Asked req) f) R ps c' t' v' = Asked req \<Longrightarrow>
     R c' t' v' = Asked req \<or> c' = c \<and> t' = rvq_term req \<and> (v', req) \<in> set ps"
proof (induction ps arbitrary: R)
  case (Cons x ps)
  obtain w q where x: "x = (w, q)" by (cases x)
  from Cons.IH [of "set_rpc c (rvq_term q) w (Asked q) R"] Cons.prems
  show ?case by (auto simp: x set_rpc_apply split: if_splits)
qed simp

lemma sim_elect:
  fixes W :: "'s world"
  assumes "sim M W P" and "c \<in> M" and "StartElection now rnd (node W c) = (r, n)"
  defines "s' \<equiv> (net W)\<lparr>nodes := (nodes (net W))(c := n),
      rpcs := foldl (\<lambda>f (v, req). set_rpc c (rvq_term req) v (Asked req) f) (rpcs (net W)) (sent_votes r),
      ballots := (if hard n = hard (node W c) then ballots (net W) else insert (c, term_of n, c) (ballots (net W)))\<rparr>"
  shows "\<exists>P'. acts M c P P' \<and> kept M P P' \<and> sim M (W\<lparr>net := s'\<rparr>) P'"
proof -
  note s = simD [OF assms(1)]
  let ?n = "node W c" and ?L = "p_log P c"
  note ns = node_simD [OF sim_node [OF assms(1,2)]]
  note h = StartElection_tracks [OF ns(1) assms(3)]
  have nd: "nodes s' = (nodes (net W))(c := n)" by (simp add: s'_def)
  have fx: "membership_fixed M s'" by (rule election_membership [OF assms(1) h(1) nd])
  have ci: "cluster_inv M s'"
    using cluster_inv_elect [OF s(2) assms(2,3)] fx unfolding s'_def by blast
  show ?thesis
  proof (cases "hard n = hard ?n")
    case True
    have e: "sent_votes r = []"
      using StartElection_cases [OF assms(3)] True ps_Set_fields(1) [of "term_of ?n + 1" "Some (node_id ?n)" "hard ?n"]
      by (metis n_not_Suc_n Suc_eq_plus1)
    then have "rpcs s' = rpcs (net W)" "ballots s' = ballots (net W)" using True by (simp_all add: s'_def)
    then have "vote_sim s' P" using s(6) by (simp add: vote_sim_def)
    moreover have "node_sim M P c n"
      using h(1-3) True ns node_sim_tables [OF sim_node [OF assms(1,2)]] by (auto simp: node_sim_def tracks_tables_def)
    ultimately have "sim M (W\<lparr>net := s'\<rparr>) P"
      by (intro sim_votes [OF assms(1,2) _ _ s(5) nd _ ci]) simp_all
    then show ?thesis by (intro exI [of _ P] conjI) simp_all
  next
    case False
    let ?t = "p_term P c + 1"
    let ?P = "P\<lparr>p_term := (p_term P)(c := ?t), p_votes := insert (c, ?t, c) (p_votes P),
      p_cand := (p_cand P)(?t := (p_cand P ?t)(c := ?L))\<rparr>"
    have new: "term_of n = ?t" "role n = Candidate \<or> role n = Leader" "\<forall>(v, req) \<in> set (sent_votes r). rvq_term req = ?t"
      using StartElection_cases [OF assms(3)] False ns(2) by auto
    have B: "ballots s' = insert (c, ?t, c) (ballots (net W))" using False new(1) by (simp add: s'_def)
    have st: "proto_step M c P ?P" by (rule campaign [OF assms(2) refl])
    note p1 = acts_ok [OF one_act [OF st] s(3)]
    have old: "(v, ?t, d) \<in> p_votes P \<Longrightarrow> v \<noteq> c" for v d
      using votes_invD(3) [OF proto_invD(1) [OF s(4)], of v ?t d] by auto
    have vs: "vote_sim s' ?P"
      unfolding vote_sim_def
    proof (intro conjI allI impI)
      show "p_votes ?P \<subseteq> ballots s'" using vote_simD(1) [OF s(6)] by (auto simp: B)
      fix v t d assume "(v, t, d) \<in> ballots s'"
      then show "0 < t" "p_hist ?P t = None \<Longrightarrow> (v, t, d) \<in> p_votes ?P"
        using vote_simD(2,3) [OF s(6), of v t d] by (auto simp: B)
    next
      fix d t v req assume a: "rpcs s' d t v = Asked req"
      then consider "rpcs (net W) d t v = Asked req" | "d = c" "t = rvq_term req" "(v, req) \<in> set (sent_votes r)"
        using sent_rpcs_asked unfolding s'_def by fastforce
      then have "(d, t, d) \<in> ballots s' \<and> rvq_last_log_index req = length (p_cand ?P t d) \<and>
          rvq_last_log_term req = last_term (p_cand ?P t d)"
      proof cases
        case 1
        have "t \<le> term_of (node W d)" using rpcs_okD(1) [OF cluster_invD(2) [OF s(2)], of d t v] 1 by simp
        then have "\<not> (d = c \<and> t = ?t)" using ns(2) by auto
        then have "p_cand ?P t d = p_cand P t d" by auto
        then show ?thesis using vote_simD(4) [OF s(6) 1] by (simp add: B)
      next
        case 2
        then have "t = ?t" using new(3) by auto
        then show ?thesis using 2 h(5) by (auto simp: B)
      qed
      then show "(d, t, d) \<in> ballots s'" "rvq_last_log_index req = length (p_cand ?P t d)"
        "rvq_last_log_term req = last_term (p_cand ?P t d)" by blast+
    qed
    have hk: "hist_ok ?P" using s(5) by (simp add: hist_ok_def)
    have lead: "p_lead ?P ?t \<noteq> c" if q: "p_hist ?P ?t \<noteq> None"
    proof -
      obtain H where "p_hist P ?t = Some H" using q by auto
      from old [OF hist_invD(2) [OF proto_invD(2) [OF s(4)] this]] show ?thesis by simp
    qed
    show ?thesis
    proof (cases "role n = Leader")
      case True
      have n: "nodes s' c = n" by (simp add: nd)
      have "tables (M - {c}) (length (p_log ?P c) + 1) (\<lambda>_ x. x = 0) n" using h(4) [OF True False] by simp
      then obtain P' where P': "proto_step M c ?P P'" "node_sim M P' c n" "hist_ok P'" "vote_sim s' P'" "kept M ?P P'"
        using sim_win [OF conjunct1 [OF p1] vs ci hk assms(2), of ?t] n True new(1) h(1,2) ns(3) lead by auto
      have a: "acts M c P P'" by (rule more_acts [OF one_act [OF st] P'(1)])
      have "kept M P P'" using P'(5) by (simp add: kept_def from_logs_def)
      then show ?thesis using sim_votes [OF assms(1,2) a P'(2,3) nd P'(4) ci] a by blast
    next
      case nl: False
      then have "node_sim M ?P c n" using h(1,2) ns(3) new(1) lead by (simp add: node_sim_def)
      from sim_votes [OF assms(1,2) one_act [OF st] this hk nd vs ci] show ?thesis
        using one_act [OF st] by (intro exI [of _ ?P] conjI) simp_all
    qed
  qed
qed

lemma sim_vote:
  fixes W :: "'s world"
  assumes "sim M W P" and "v \<in> M" and "rpcs (net W) c t v = Asked req"
    and "HandleRequestVote now rnd req (node W v) = (resp, n)"
  defines "s' \<equiv> (net W)\<lparr>nodes := (nodes (net W))(v := n), rpcs := set_rpc c t v (Replied resp) (rpcs (net W)),
      ballots := (if rvr_vote_granted resp then insert (v, rvq_term req, rvq_candidate_id req) (ballots (net W))
                  else ballots (net W))\<rparr>"
  shows "\<exists>P'. acts M v P P' \<and> kept M P P' \<and> sim M (W\<lparr>net := s'\<rparr>) P'"
proof -
  note s = simD [OF assms(1)]
  let ?n = "node W v" and ?L = "p_log P v"
  note ns = node_simD [OF sim_node [OF assms(1,2)]]
  note h = HandleRequestVote_tracks [OF ns(1) assms(4)] note hc = HandleRequestVote_cases [OF assms(4)]
  have nd: "nodes s' = (nodes (net W))(v := n)" by (simp add: s'_def)
  have fx: "membership_fixed M s'" by (rule election_membership [OF assms(1) h(1) nd])
  have ci: "cluster_inv M s'" using cluster_inv_vote [OF s(2) assms(2-4)] fx unfolding s'_def by blast
  have rq: "rvq_term req = t" "rvq_candidate_id req = c"
    using rpcs_okD(2) [OF cluster_invD(2) [OF s(2)] assms(3)] by simp_all
  note ask = vote_simD(4) [OF s(6) assms(3)]
  have B: "ballots s' = (if rvr_vote_granted resp then insert (v, t, c) (ballots (net W)) else ballots (net W))"
    by (simp add: s'_def rq)
  have "hard_evolves (hard ?n) (hard n)" using HandleRequestVote_hard [of ?n now rnd req] assms(4) by simp
  then have le: "p_term P v \<le> term_of n" using hard_evolves_term ns(2) by fastforce
  let ?P1 = "bumped v n P"
  have a1: "acts M v P ?P1" by (rule bumped_step [OF assms(2) le])
  have hk: "hist_ok ?P1" using s(5) by (simp add: hist_ok_def)
  have m1: "matched ?P1 = matched P" by (rule matched_acks) simp_all
  have n1: "node_sim M ?P1 v n"
    using h(1,2) hc(1) ns tables_same [OF h(3,4)] unfolding node_sim_def m1 by (auto simp: role_evolves_def)
  have asked: "rpcs s' d u w = Asked q \<Longrightarrow> rpcs (net W) d u w = Asked q" for d u w q
    by (auto simp: s'_def set_rpc_apply split: if_splits)
  have rp: "\<forall>d u w q. rpcs s' d u w = Asked q \<longrightarrow> (d, u, d) \<in> ballots s' \<and>
        rvq_last_log_index q = length (p_cand P u d) \<and> rvq_last_log_term q = last_term (p_cand P u d)"
    using vote_simD(4) [OF s(6) asked] by (auto simp: B)
  have pos: "0 < u" if "(w, u, d) \<in> ballots s'" for w u d
    using that vote_simD(2) [OF s(6)] ask by (auto simp: B split: if_splits)
  show ?thesis
  proof (cases "rvr_vote_granted resp \<and> p_hist P t = None")
    case False
    have "vote_sim s' ?P1"
      using vote_simD(1,3) [OF s(6)] pos rp False unfolding vote_sim_def by (auto simp: B)
    from sim_votes [OF assms(1,2) a1 n1 hk nd this ci] show ?thesis
      using a1 by (intro exI [of _ ?P1] conjI) simp_all
  next
    case True
    then have t: "term_of n = t" using hc(2) rq by simp
    let ?P2 = "?P1\<lparr>p_votes := insert (v, t, c) (p_votes ?P1)\<rparr>"
    have "(c, t, c) \<in> p_votes P" using vote_simD(3) [OF s(6)] ask True by blast
    moreover have "\<forall>d. (v, t, d) \<in> p_votes P \<longrightarrow> d = c"
    proof (intro allI impI)
      fix d assume "(v, t, d) \<in> p_votes P"
      then have "(v, t, d) \<in> ballots s'" "(v, t, c) \<in> ballots s'" using vote_simD(1) [OF s(6)] True by (auto simp: B)
      then show "d = c" by (rule ballots_okD(4) [OF cluster_invD(1) [OF ci]])
    qed
    moreover have "up_to_date ?L (p_cand P t c)" using h(5) True ask by (auto simp: up_to_date_def)
    ultimately have "proto_step M v ?P1 ?P2" using True t by (intro vote [OF assms(2)]) simp_all
    then have a2: "acts M v P ?P2" by (rule more_acts [OF a1])
    have m2: "matched ?P2 = matched P" by (rule matched_acks) simp_all
    have "node_sim M ?P2 v n" using n1 unfolding node_sim_def m1 m2 by simp
    moreover have "vote_sim s' ?P2"
      using vote_simD(1,3) [OF s(6)] pos rp True unfolding vote_sim_def by (auto simp: B)
    moreover have "hist_ok ?P2" using hk by (simp add: hist_ok_def)
    ultimately have "sim M (W\<lparr>net := s'\<rparr>) ?P2" by (intro sim_votes [OF assms(1,2) a2 _ _ nd _ ci])
    then show ?thesis using a2 by (intro exI [of _ ?P2] conjI) simp_all
  qed
qed

lemma sim_vote_reply:
  fixes W :: "'s world" and now rnd :: nat
  assumes "sim M W P" and "c \<in> M" and "rpcs (net W) c t v = Replied resp"
  defines "n \<equiv> snd (HandleVoteReply now rnd t resp (node W c))"
  defines "s' \<equiv> (net W)\<lparr>nodes := (nodes (net W))(c := n),
      rpcs := set_rpc c t v (Handled (counts_vote t resp (node W c))) (rpcs (net W))\<rparr>"
  shows "\<exists>P'. acts M c P P' \<and> kept M P P' \<and> sim M (W\<lparr>net := s'\<rparr>) P'"
proof -
  note s = simD [OF assms(1)]
  let ?n = "node W c" and ?L = "p_log P c"
  note ns = node_simD [OF sim_node [OF assms(1,2)]]
  note h = HandleVoteReply_tracks [OF ns(1), of now rnd t resp, folded n_def]
  note hc = HandleVoteReply_cases [of t resp ?n now rnd, folded n_def]
  have nd: "nodes s' = (nodes (net W))(c := n)" by (simp add: s'_def)
  have fx: "membership_fixed M s'" by (rule election_membership [OF assms(1) h(1) nd])
  have ci: "cluster_inv M s'" using cluster_inv_reply [OF s(2) assms(2,3)] fx unfolding s'_def n_def by blast
  have "hard_evolves (hard ?n) (hard n)" unfolding n_def by (rule HandleVoteReply_hard)
  then have le: "p_term P c \<le> term_of n" using hard_evolves_term ns(2) by fastforce
  let ?P1 = "bumped c n P"
  have a1: "acts M c P ?P1" by (rule bumped_step [OF assms(2) le])
  have hk: "hist_ok ?P1" using s(5) by (simp add: hist_ok_def)
  have m1: "matched ?P1 = matched P" by (rule matched_acks) simp_all
  have "rpcs s' d u w = Asked q \<Longrightarrow> rpcs (net W) d u w = Asked q" for d u w q
    by (auto simp: s'_def set_rpc_apply split: if_splits)
  then have vs: "vote_sim s' ?P1"
    using s(6) unfolding vote_sim_def by (simp add: s'_def) blast
  have cand: "role ?n = Candidate \<and> term_of n = term_of ?n" if "role n = Candidate \<or> role n = Leader \<and> role ?n \<noteq> Leader"
    using hc that by (auto simp: counts_vote_def role_evolves_def)
  have lead: "p_lead P (term_of n) \<noteq> c" if "role n = Candidate \<or> role n = Leader \<and> role ?n \<noteq> Leader" "p_hist P (term_of n) \<noteq> None"
    using cand [OF that(1)] ns(8) that(2) by simp
  show ?thesis
  proof (cases "role n = Leader \<and> role ?n \<noteq> Leader")
    case True
    have n: "nodes s' c = n" by (simp add: nd)
    have p1: "proto_ok M ?P1" using acts_ok [OF a1 s(3)] by blast
    have "tables (M - {c}) (length (p_log ?P1 c) + 1) (\<lambda>_ x. x = 0) n" using h(4) True by simp
    then obtain P' where P': "proto_step M c ?P1 P'" "node_sim M P' c n" "hist_ok P'" "vote_sim s' P'" "kept M ?P1 P'"
      using sim_win [OF p1 vs ci hk assms(2), of "term_of n"] n True h(1,2) ns(3) lead by auto
    have a: "acts M c P P'" by (rule more_acts [OF a1 P'(1)])
    have "kept M P P'" using P'(5) by (simp add: kept_def from_logs_def)
    then show ?thesis using sim_votes [OF assms(1,2) a P'(2,3) nd P'(4) ci] a by blast
  next
    case False
    have "node_sim M ?P1 c n"
    proof (cases "role n = Leader")
      case True
      then have "n = ?n" using h(3) False by blast
      then show ?thesis using sim_node [OF assms(1,2)] True unfolding node_sim_def m1 by auto
    next
      case nl: False
      then show ?thesis using h(1,2) ns(3) lead by (simp add: node_sim_def)
    qed
    from sim_votes [OF assms(1,2) a1 this hk nd vs ci] show ?thesis
      using a1 by (intro exI [of _ ?P1] conjI) simp_all
  qed
qed

end
