(* ===== verification/Raft_Run.thy ===== *)
theory Raft_Run
  imports Raft_World
begin

text \<open>
  A run of three nodes, for the applications of the safety properties: node 1 is elected with the vote of node 2, takes
  a command, replicates it to node 2, commits it, and tells node 2, which commits it too.
\<close>

lemma Refresh_known:
  assumes "holds_log L (rlog n)" and "entries_ok L" and "base_peers (mship n) = peers n" and "omap_ok (peers n)"
  shows "RefreshMembership n = (Inr (), n\<lparr>pending_self_removal_index := 0, self_is_member := ms_self_is_member (mship n)\<rparr>)"
proof -
  let ?n = "n\<lparr>pending_self_removal_index := 0, self_is_member := ms_self_is_member (mship n)\<rparr>"
  have "filter (\<lambda>p. \<not> omap_count (fst p) (peers n)) (peers n) = []"
    by (auto simp: filter_empty_conv omap_count_def map_of_eq_None_iff)
  then have "adopt_peers (peers n) ?n = ?n"
    using adopt_all_known [of ?n "peers n"] assms(4) by (simp add: adopt_peers_def Let_def)
  then show ?thesis using Refresh_plain [OF assms(1,2)] assms(3) by simp
qed

definition entry_x :: LogEntry where
  "entry_x = \<lparr>le_index = 1, le_term = 2, le_command = ''x''\<rparr>"

definition req_x :: "LogIndex \<Rightarrow> LogEntry list \<Rightarrow> AppendEntriesRequest" where
  "req_x prev es = \<lparr>aeq_term = 2, aeq_leader_id = 1, aeq_prev_log_index = prev, aeq_prev_log_term = (if prev = 0 then 0 else 2),
     aeq_entries = es, aeq_leader_commit = prev\<rparr>"

definition resp_x :: AppendEntriesResponse where
  "resp_x = \<lparr>aer_term = 2, aer_success = True, aer_match_index = 1\<rparr>"

definition lead1 :: "string list RaftNode" where
  "lead1 = snd (HandleVoteReply 1000 0 2 \<lparr>rvr_term = 2, rvr_vote_granted = True\<rparr> candidate3)"

definition lead2 :: "string list RaftNode" where
  "lead2 = snd (Propose_begin cb_list ''x'' lead1)"

definition lead3 :: "string list RaftNode" where
  "lead3 = snd (ReplicateTo 2 lead2)"

definition lead4 :: "string list RaftNode" where
  "lead4 = snd (HandleAppendReply cb_list 1000 0 2 2 0 1 resp_x lead3)"

definition lead5 :: "string list RaftNode" where
  "lead5 = snd (ReplicateTo 2 lead4)"

definition fol1 :: "string list RaftNode" where
  "fol1 = snd (HandleAppendEntries cb_list 1000 0 (req_x 0 [entry_x]) voter3)"

definition fol2 :: "string list RaftNode" where
  "fol2 = snd (HandleAppendEntries cb_list 1000 0 (req_x 1 []) fol1)"

text \<open>What the steps need of a node: who it is, where it stands, and that it tracks a log.\<close>

definition at3 :: "NodeId \<Rightarrow> LogEntry list \<Rightarrow> string list RaftNode \<Rightarrow> bool" where
  "at3 i L n \<longleftrightarrow> node_id n = i \<and> term_of n = 2 \<and> peers n = others3 i \<and> base_peers (mship n) = others3 i \<and>
     snapshot_index (rlog n) = 0 \<and> snapshot_term (rlog n) = 0 \<and> lg_entries (rlog n) = L \<and> last_applied n = commit_index n"

lemma at3_holds: "at3 i L n \<Longrightarrow> holds_log L (rlog n)"
  by (simp add: at3_def holds_log_def)

lemma entry_x_ok [simp]: "entries_ok []" "entries_ok [entry_x]"
  by (simp_all add: entries_ok_def entry_x_def plain_def TryDecodeConfChange_def)

lemma at3_Refresh:
  assumes "at3 i L n" and "entries_ok L"
  shows "RefreshMembership n = (Inr (), n\<lparr>pending_self_removal_index := 0, self_is_member := ms_self_is_member (mship n)\<rparr>)"
  using assms others3_ok [of i] by (intro Refresh_known [OF at3_holds]) (simp_all add: at3_def)

lemma at3_logs:
  "at3 i [] n \<Longrightarrow> LastIndex (rlog n) = 0" "at3 i [entry_x] n \<Longrightarrow> LastIndex (rlog n) = 1"
  "at3 i [entry_x] n \<Longrightarrow> At (rlog n) 1 = Some entry_x" "at3 i [entry_x] n \<Longrightarrow> TermAt (rlog n) 1 = 2"
  "at3 i L n \<Longrightarrow> TermAt (rlog n) 0 = 0"
  by (simp_all add: at3_def LastIndex_def At_def TermAt_def entry_x_def)

lemma candidate3_at: "at3 1 [] candidate3" "commit_index candidate3 = 0" "role candidate3 = Candidate" "votes_received candidate3 = 1"
  and voter3_at: "at3 2 [] voter3" "commit_index voter3 = 0" "role voter3 = Follower"
  by (simp_all add: at3_def candidate3_def voter3_def fresh3_def node3_def log_new_def ms_Set_def)

lemma lead1_at: "at3 1 [] lead1 \<and> commit_index lead1 = 0 \<and> role lead1 = Leader \<and> replication_in_flight lead1 = {} \<and>
    next_index lead1 = [(2, 1), (3, 1)] \<and> match_index lead1 = [(2, 0), (3, 0)]"
proof -
  have c: "at3 1 [] (candidate3\<lparr>votes_received := 2\<rparr>)" using candidate3_at by (simp add: at3_def)
  have e: "next_index candidate3 = [(2, 0), (3, 0)]" "match_index candidate3 = []"
    by (simp_all add: candidate3_def fresh3_def node3_def others3_def)
  have m: "has_majority (candidate3\<lparr>votes_received := 2\<rparr>)" using c by (simp add: has_majority_def at3_def others3_def)
  have "lead1 = snd (BecomeLeader 1000 (candidate3\<lparr>votes_received := 2\<rparr>))"
    using candidate3_at m by (simp add: lead1_def HandleVoteReply_def at3_def numeral_2_eq_2)
  then have L: "lead1 = candidate3\<lparr>votes_received := 2, pending_self_removal_index := 0,
      self_is_member := ms_self_is_member (mship candidate3), role := Leader, leader_hint := 1, next_heartbeat_time := 1000,
      replication_in_flight := {}, next_index := [(2, 1), (3, 1)], match_index := [(2, 0), (3, 0)]\<rparr>"
    using at3_Refresh [OF c] at3_logs(1) [OF c] c e by (simp add: BecomeLeader_def Let_def at3_def others3_def omap_set_def)
  show ?thesis unfolding L using candidate3_at by (simp add: at3_def)
qed

lemma keys3 [simp]: "omap_count 2 (others3 1) = True" "omap_count 2 (others3 2) = False" "others3 1 \<noteq> []"
  by (simp_all add: others3_def omap_count_def)

lemma lead2_at: "at3 1 [entry_x] lead2 \<and> commit_index lead2 = 0 \<and> role lead2 = Leader \<and> replication_in_flight lead2 = {} \<and>
    next_index lead2 = [(2, 1), (3, 1)] \<and> match_index lead2 = [(2, 0), (3, 0)] \<and> pending_self_removal_index lead2 = 0"
proof -
  note l = lead1_at
  let ?m = "lead1\<lparr>rlog := snd (log_Append 2 ''x'' (rlog lead1))\<rparr>"
  have m: "at3 1 [entry_x] ?m" "fst (log_Append 2 ''x'' (rlog lead1)) = 1"
    using l at3_logs(1) [of 1 lead1] by (simp_all add: at3_def log_Append_def Let_def entry_x_def)
  let ?m' = "?m\<lparr>pending_self_removal_index := 0, self_is_member := ms_self_is_member (mship lead1)\<rparr>"
  have m': "RefreshMembership ?m = (Inr (), ?m')" "at3 1 [entry_x] ?m'"
    using at3_Refresh [OF m(1)] m(1) by (simp_all add: at3_def)
  have "majority_index ?m' = 0"
    using at3_logs(2) [OF m'(2)] l by (simp add: majority_index_def)
  then have "lead2 = ?m'"
    using l m' by (simp add: lead2_def Propose_begin_def propose_check_def TryDecodeConfChange_def case_prod_beta at3_def
        MaybeAdvanceCommitIndex_def)
  then have L: "lead2 = ?m'" .
  show ?thesis unfolding L using m'(2) l by simp
qed

lemma lead3_at: "fst (ReplicateTo 2 lead2) = SendAppend (req_x 0 [entry_x])"
  "at3 1 [entry_x] lead3 \<and> commit_index lead3 = 0 \<and> role lead3 = Leader \<and>
    next_index lead3 = [(2, 1), (3, 1)] \<and> match_index lead3 = [(2, 0), (3, 0)] \<and> pending_self_removal_index lead3 = 0"
proof -
  note l = lead2_at
  have L: "ReplicateTo 2 lead2 = (SendAppend (req_x 0 [entry_x]), lead2\<lparr>next_index := [(2, 1), (3, 1)], replication_in_flight := {2}\<rparr>)"
    using l at3_logs(2,3,5) [of 1] by (simp add: ReplicateTo_def omap_get_default_def omap_emplace_def omap_count_def at3_def
        req_x_def numeral_2_eq_2)
  then show "fst (ReplicateTo 2 lead2) = SendAppend (req_x 0 [entry_x])" by simp
  have E: "lead3 = lead2\<lparr>next_index := [(2, 1), (3, 1)], replication_in_flight := {2}\<rparr>" using L by (simp add: lead3_def)
  show "at3 1 [entry_x] lead3 \<and> commit_index lead3 = 0 \<and> role lead3 = Leader \<and>
      next_index lead3 = [(2, 1), (3, 1)] \<and> match_index lead3 = [(2, 0), (3, 0)] \<and> pending_self_removal_index lead3 = 0"
    unfolding E using l by (simp add: at3_def)
qed

lemma apply3:
  assumes "at3 i [entry_x] n" and "commit_index n = 0"
  shows "ApplyCommitted cb_list (n\<lparr>commit_index := 1\<rparr>) = (Inr (), n\<lparr>commit_index := 1, last_applied := 1,
    machine := machine n @ [''x''], rlog := SetAppliedIndex 1 (rlog n)\<rparr>)"
proof -
  have u: "[0 ..< 1] = [0 :: nat]" by (simp add: upt_rec)
  have e: "TryDecodeConfChange (le_command entry_x) = Inr None" "le_command entry_x = ''x''"
    by (simp_all add: entry_x_def TryDecodeConfChange_def)
  have "apply_step cb_list (n\<lparr>commit_index := 1\<rparr>) = (Inr (), n\<lparr>commit_index := 1, last_applied := 1,
    machine := machine n @ [''x''], rlog := SetAppliedIndex 1 (rlog n)\<rparr>)"
    using assms at3_logs(3) [OF assms(1)] e by (simp add: apply_step_def Let_def at3_def cb_list_def)
  moreover have "compact_applied (n\<lparr>commit_index := 1, last_applied := 1, machine := machine n @ [''x''],
      rlog := SetAppliedIndex 1 (rlog n)\<rparr>) = (Inr (), n\<lparr>commit_index := 1, last_applied := 1,
      machine := machine n @ [''x''], rlog := SetAppliedIndex 1 (rlog n)\<rparr>)"
    using assms by (simp add: compact_applied_def Let_def at3_def kCompactionThreshold_def)
  ultimately show ?thesis using assms u by (simp add: ApplyCommitted_def at3_def ebind_def eret_def)
qed

lemma SetApplied_term [simp]: "snapshot_term (SetAppliedIndex i l) = snapshot_term l"
  by (simp add: SetAppliedIndex_def)

lemma lead4_at: "at3 1 [entry_x] lead4 \<and> commit_index lead4 = 1 \<and> role lead4 = Leader \<and> replication_in_flight lead4 = {} \<and>
    next_index lead4 = [(2, 2), (3, 1)]"
proof -
  note l = lead3_at(2)
  let ?m = "(HandleSendFailure 2 lead3)\<lparr>match_index := [(2, 1), (3, 0)], next_index := [(2, Suc 1), (3, 1)]\<rparr>"
  have m: "at3 1 [entry_x] ?m" "commit_index ?m = 0" using l by (simp_all add: at3_def)
  have f: "replication_in_flight ?m = {}" using lead2_at by (simp add: HandleSendFailure_def lead3_def ReplicateTo_def Let_def)
  have mi: "majority_index ?m = 1"
    using at3_logs(2) [OF m(1)] by (simp add: majority_index_def)
  have s: "omap_set (2 :: NodeId) v [(2, w), (3, x)] = [(2, v), (3, x)]" for v w x :: nat by (simp add: omap_set_def)
  have "lead4 = snd (MaybeAdvanceCommitIndex cb_list ?m)"
    using l by (simp add: lead4_def HandleAppendReply_def resp_x_def at3_def omap_get_default_def s)
  also have "\<dots> = snd (ebind (ApplyCommitted cb_list) (\<lambda>_. step_down_if_removed) (?m\<lparr>commit_index := 1\<rparr>))"
    using at3_logs(4) [OF m(1)] m mi by (simp add: MaybeAdvanceCommitIndex_def at3_def)
  also have "\<dots> = ?m\<lparr>commit_index := 1, last_applied := 1, machine := machine ?m @ [''x''], rlog := SetAppliedIndex 1 (rlog ?m)\<rparr>"
    using l by (simp only: ebind_def apply3 [OF m] prod.case sum.case) (simp add: step_down_if_removed_def HandleSendFailure_def)
  finally have L: "lead4 = ?m\<lparr>commit_index := 1, last_applied := 1, machine := machine ?m @ [''x''], rlog := SetAppliedIndex 1 (rlog ?m)\<rparr>" .
  show ?thesis unfolding L using m(1) l f by (simp add: at3_def)
qed

lemma lead5_at: "fst (ReplicateTo 2 lead4) = SendAppend (req_x 1 [])"
  "at3 1 [entry_x] lead5 \<and> commit_index lead5 = 1 \<and> role lead5 = Leader"
proof -
  note l = lead4_at
  have L: "ReplicateTo 2 lead4 = (SendAppend (req_x 1 []), lead4\<lparr>next_index := [(2, 2), (3, 1)], replication_in_flight := {2}\<rparr>)"
    using l at3_logs(2,4) [of 1] by (simp add: ReplicateTo_def omap_get_default_def omap_emplace_def omap_count_def at3_def
        req_x_def numeral_2_eq_2)
  then show "fst (ReplicateTo 2 lead4) = SendAppend (req_x 1 [])" by simp
  have E: "lead5 = lead4\<lparr>next_index := [(2, 2), (3, 1)], replication_in_flight := {2}\<rparr>" using L by (simp add: lead5_def)
  show "at3 1 [entry_x] lead5 \<and> commit_index lead5 = 1 \<and> role lead5 = Leader" unfolding E using l by (simp add: at3_def)
qed

lemma follow3:
  assumes "at3 2 L n" and "role n = Follower"
  shows "\<exists>d. follow_leader 1000 0 2 1 n = n\<lparr>election_deadline := d, last_leader_contact := 1000, leader_hint := 1\<rparr>"
  using assms by (auto simp: follow_leader_def ResetElectionDeadline_def at3_def)

lemma fol1_at: "fst (HandleAppendEntries cb_list 1000 0 (req_x 0 [entry_x]) voter3) = Inr resp_x"
  "at3 2 [entry_x] fol1 \<and> commit_index fol1 = 0 \<and> role fol1 = Follower"
proof -
  note v = voter3_at
  obtain d where d: "follow_leader 1000 0 2 1 voter3 = voter3\<lparr>election_deadline := d, last_leader_contact := 1000, leader_hint := 1\<rparr>"
    using follow3 [OF v(1,3)] by blast
  let ?n = "voter3\<lparr>election_deadline := d, last_leader_contact := 1000, leader_hint := 1\<rparr>"
  have a: "AppendEntriesFrom 0 0 [entry_x] (rlog ?n) = (True, log_Save ((rlog ?n)\<lparr>lg_entries := [entry_x]\<rparr>))"
    using v(1) by (simp add: AppendEntriesFrom_def at3_def entry_x_def)
  let ?m = "?n\<lparr>rlog := log_Save ((rlog ?n)\<lparr>lg_entries := [entry_x]\<rparr>)\<rparr>"
  have m: "at3 2 [entry_x] ?m" "commit_index ?m = 0" "role ?m = Follower" using v by (simp_all add: at3_def)
  let ?m' = "?m\<lparr>pending_self_removal_index := 0, self_is_member := ms_self_is_member (mship ?m)\<rparr>"
  have "HandleAppendEntries cb_list 1000 0 (req_x 0 [entry_x]) voter3 = (Inr resp_x, ?m')"
    using v m(2) a d at3_Refresh [OF m(1)]
    by (simp add: HandleAppendEntries_def req_x_def at3_def commit_from_leader_def ebind_def eread_def resp_x_def Let_def)
  then have L: "fst (HandleAppendEntries cb_list 1000 0 (req_x 0 [entry_x]) voter3) = Inr resp_x" "fol1 = ?m'"
    by (simp_all add: fol1_def)
  show "fst (HandleAppendEntries cb_list 1000 0 (req_x 0 [entry_x]) voter3) = Inr resp_x" by (rule L)
  show "at3 2 [entry_x] fol1 \<and> commit_index fol1 = 0 \<and> role fol1 = Follower"
    unfolding L(2) using m by (simp add: at3_def)
qed

lemma fol2_at: "at3 2 [entry_x] fol2 \<and> commit_index fol2 = 1"
proof -
  note v = fol1_at(2)
  obtain d where d: "follow_leader 1000 0 2 1 fol1 = fol1\<lparr>election_deadline := d, last_leader_contact := 1000, leader_hint := 1\<rparr>"
    using follow3 [of "[entry_x]" fol1] v by blast
  let ?n = "fol1\<lparr>election_deadline := d, last_leader_contact := 1000, leader_hint := 1\<rparr>"
  have n: "at3 2 [entry_x] ?n" using v by (simp add: at3_def)
  have a: "AppendEntriesFrom 1 2 [] (rlog ?n) = (True, rlog ?n)"
    using at3_logs(4) [OF n] by (simp add: AppendEntriesFrom_def)
  let ?m = "?n\<lparr>pending_self_removal_index := 0, self_is_member := ms_self_is_member (mship ?n)\<rparr>"
  have m: "at3 2 [entry_x] ?m" "commit_index ?m = 0" using v by (simp_all add: at3_def)
  have "commit_from_leader cb_list (req_x 1 []) ?n = ebind (\<lambda>n. ApplyCommitted cb_list (n\<lparr>commit_index := 1\<rparr>))
      (\<lambda>_. eread (\<lambda>n. \<lparr>aer_term = term_of n, aer_success = True, aer_match_index = 1\<rparr>)) ?m"
    using at3_Refresh [OF n] v at3_logs(2) [OF n] by (simp add: commit_from_leader_def ebind_def req_x_def)
  then have c: "snd (commit_from_leader cb_list (req_x 1 []) ?n) = ?m\<lparr>commit_index := 1, last_applied := 1,
      machine := machine ?m @ [''x''], rlog := SetAppliedIndex 1 (rlog ?m)\<rparr>"
    by (simp only: ebind_def apply3 [OF m] prod.case sum.case) (simp add: eread_def)
  have "fol2 = snd (commit_from_leader cb_list (req_x 1 []) (?n\<lparr>rlog := rlog ?n\<rparr>))"
    using v a d by (simp add: fol2_def HandleAppendEntries_def req_x_def at3_def)
  then have L: "fol2 = ?m\<lparr>commit_index := 1, last_applied := 1, machine := machine ?m @ [''x''], rlog := SetAppliedIndex 1 (rlog ?m)\<rparr>"
    using c by simp
  show ?thesis unfolding L using m(1) by (simp add: at3_def)
qed

section \<open>The run\<close>

definition world3 :: "string list world" where
  "world3 = \<lparr>net = \<lparr>nodes = fresh3, rpcs = (\<lambda>_ _ _. NotSent), ballots = {}\<rparr>,
     appends = {}, answers = {}, snapshots = {}, installing = {}, proposals = {}\<rparr>"

lemma fresh3_ok: "node_ok (fresh3 i)"
  by (simp add: fresh3_def node3_def node_ok_defs ms_synced_Set others3_ok conf_ok_def log_ok_def log_new_def) (simp add: others3_def omap_ok_def)

lemma world3_start: "world_start {1, 2, 3} world3"
proof -
  have "fresh_node {1, 2, 3} i (fresh3 i)" if i: "i \<in> {1, 2, 3}" for i
  proof -
    have "fst ` set (others3 i) = {1, 2, 3} - {i}" using i by (auto simp: others3_def)
    then show ?thesis
      using fresh3_ok [of i] by (simp add: fresh_node_def settled_def fresh3_def node3_def log_new_def ms_Set_def)
  qed
  then show ?thesis by (simp add: world_start_def world3_def)
qed

lemma world_at:
  assumes "replica_reach cb m0 M W" and "world_step cb (=) M W W'" and "installing W' = installing W" and "F W'"
  shows "\<exists>W'. replica_reach cb m0 M W' \<and> F W'"
  using replica_step [OF assms(1,2)] replica_world [OF assms(1)] assms(3,4) by auto

lemma run3:
  "\<exists>W. replica_reach cb_list [] {1, 2, 3} W \<and> node W 1 = lead5 \<and> node W 2 = fol2"
proof -
  let ?reach = "replica_reach cb_list [] {1, 2, 3}" and ?yes = "\<lparr>rvr_term = 2, rvr_vote_granted = True\<rparr>"
  have "?reach world3" by (rule replica_start [OF world3_start]) (simp add: world3_def fresh3_def node3_def)
  from world_at [OF this elections [OF election_step.elect [where c = 1 and now = 1000 and rnd = 0]],
      of _ _ "\<lambda>W. node W 1 = candidate3 \<and> node W 2 = fresh3 2 \<and> rpcs (net W) 1 2 2 = Asked ask3"]
  obtain W1 where W1: "?reach W1" "node W1 1 = candidate3" "node W1 2 = fresh3 2" "rpcs (net W1) 1 2 2 = Asked ask3"
    by (auto simp: world3_def fresh3_election sent_votes_def set_rpc_def ask3_def)
  from world_at [OF W1(1) elections [OF election_step.vote [where now = 1000 and rnd = 0, OF _ W1(4)]],
      of _ _ "\<lambda>W. node W 1 = candidate3 \<and> node W 2 = voter3 \<and> rpcs (net W) 1 2 2 = Replied ?yes"]
  obtain W2 where W2: "?reach W2" "node W2 1 = candidate3" "node W2 2 = voter3" "rpcs (net W2) 1 2 2 = Replied ?yes"
    by (auto simp: W1 fresh3_vote set_rpc_def)
  from world_at [OF W2(1) elections [OF election_step.reply [where now = 1000 and rnd = 0, OF _ W2(4)]],
      of "\<lambda>W. node W 1 = lead1 \<and> node W 2 = voter3"]
  obtain W3 where W3: "?reach W3" "node W3 1 = lead1" "node W3 2 = voter3"
    by (auto simp: W2 lead1_def)
  have "plain ''x''" by (simp add: plain_def TryDecodeConfChange_def)
  from world_at [OF W3(1) proposal [where c = 1, OF _ this], of "\<lambda>W. node W 1 = lead2 \<and> node W 2 = voter3"]
  obtain W4 where W4: "?reach W4" "node W4 1 = lead2" "node W4 2 = voter3"
    by (auto simp: W3 lead2_def)
  from world_at [OF W4(1) replicate_to [where c = 1 and p = 2],
      of "SendAppend (req_x 0 [entry_x])" lead3 "\<lambda>W. node W 1 = lead3 \<and> node W 2 = voter3 \<and> (1, 2, req_x 0 [entry_x]) \<in> appends W"]
  obtain W5 where W5: "?reach W5" "node W5 1 = lead3" "node W5 2 = voter3" "(1, 2, req_x 0 [entry_x]) \<in> appends W5"
    using lead3_at(1) by (auto simp: W4 lead3_def appended_def prod_eq_iff)
  from world_at [OF W5(1) append_entries [OF W5(4), where now = 1000 and rnd = 0 and r = "Inr resp_x" and n = fol1],
      of "\<lambda>W. node W 1 = lead3 \<and> node W 2 = fol1 \<and> (1, 2, req_x 0 [entry_x], resp_x) \<in> answers W"]
  obtain W6 where W6: "?reach W6" "node W6 1 = lead3" "node W6 2 = fol1" "(1, 2, req_x 0 [entry_x], resp_x) \<in> answers W6"
    using fol1_at(1) by (auto simp: W5 fol1_def answered_def prod_eq_iff)
  from world_at [OF W6(1) append_reply [OF W6(4), where now = 1000 and rnd = 0], of "\<lambda>W. node W 1 = lead4 \<and> node W 2 = fol1"]
  obtain W7 where W7: "?reach W7" "node W7 1 = lead4" "node W7 2 = fol1"
    by (auto simp: W6 lead4_def req_x_def)
  from world_at [OF W7(1) replicate_to [where c = 1 and p = 2],
      of "SendAppend (req_x 1 [])" lead5 "\<lambda>W. node W 1 = lead5 \<and> node W 2 = fol1 \<and> (1, 2, req_x 1 []) \<in> appends W"]
  obtain W8 where W8: "?reach W8" "node W8 1 = lead5" "node W8 2 = fol1" "(1, 2, req_x 1 []) \<in> appends W8"
    using lead5_at(1) by (auto simp: W7 lead5_def appended_def prod_eq_iff)
  obtain r where r: "HandleAppendEntries cb_list 1000 0 (req_x 1 []) fol1 = (r, fol2)"
    by (simp add: fol2_def prod_eq_iff)
  from world_at [OF W8(1) append_entries [OF W8(4), where now = 1000 and rnd = 0 and r = r and n = fol2], of "\<lambda>W. node W 1 = lead5 \<and> node W 2 = fol2"]
  show ?thesis using r by (auto simp: W8)
qed

lemma run3_world:
  obtains W where "world_reach cb_list (=) {1, 2, 3} W" and "node W 1 = lead5" and "node W 2 = fol2"
proof -
  from run3 obtain W where W: "replica_reach cb_list [] {1, 2, 3} W" "node W 1 = lead5" "node W 2 = fol2" by (elim exE conjE)
  show thesis by (rule that [OF conjunct1 [OF replica_world [OF W(1)]] W(2,3)])
qed

end
