(* ===== verification/Raft_Safety.thy ===== *)
theory Raft_Safety
  imports Raft_Simulation Raft_Run
begin

text \<open>
  What the simulation gives: in every reachable world the nodes of \<^verbatim>\<open>src/raft/node.cpp\<close> stand where a run of the protocol
  stands (refinement), the entries committed on two nodes are the same (state machine safety), a leader has every
  entry that a node of an earlier term has committed, logs that share an entry agree before it, and the machines of all
  nodes follow one list of proposed commands, each as far as it has applied it (\<open>logged\<close> relates the protocol's histories to
  the proposals of the world).
\<close>

lemma sim_start:
  assumes "world_start M W"
  defines "P \<equiv> \<lparr>p_term = (\<lambda>i. term_of (node W i)), p_log = (\<lambda>_. []), p_commit = (\<lambda>_. 0), p_hist = (\<lambda>_. None), p_lead = (\<lambda>_. 0),
    p_cand = (\<lambda>_ _. []), p_votes = {}, p_acks = {}, p_chosen = {}\<rparr>"
  shows "proto_start M P \<and> sim M W P"
proof
  note w = assms(1) [unfolded world_start_def]
  show st: "proto_start M P" by (simp add: proto_start_def P_def)
  have t: "tracks M i [] (node W i)" if "i \<in> M" for i
    using w that by (simp add: tracks_def fresh_node_def holds_log_def entries_ok_def)
  have ns: "node_sim M P i (node W i)" if i: "i \<in> M" for i
    using t [OF i] w i by (simp add: node_sim_def P_def fresh_node_def)
  have "membership_fixed M (net W)" using w t by (intro membership_tracks) blast+
  moreover have "role (node W i) = Follower \<and> hard_synced (hard (node W i))" if "i \<in> M" for i
    using w that node_okD(1) by (auto simp: fresh_node_def)
  ultimately have "cluster_start M (net W)" using w by (simp add: cluster_start_def)
  then have "cluster_inv M (net W)" by (intro cluster_reach_inv [OF cluster_reach.start])
  moreover have "vote_sim (net W) P" "messages_sim M W P" "hist_ok P"
    using w by (simp_all add: vote_sim_def messages_sim_def hist_ok_def P_def)
  ultimately show "sim M W P" using w ns proto_start_ok [OF st] by (simp add: sim_def)
qed

text \<open>Every node's machine ran the log the node tracks; the steps that keep this are those of a world that installs no
  snapshots and in which a restart finds the machine it left.\<close>

definition all_ran :: "'s callbacks \<Rightarrow> 's \<Rightarrow> NodeId set \<Rightarrow> 's world \<Rightarrow> proto \<Rightarrow> bool" where
  "all_ran cb m0 M W P \<longleftrightarrow> (\<forall>i \<in> M. ran_log cb m0 (p_log P i) (node W i))"

text \<open>The leaders' histories hold the entries that leaders made of proposals, each at its index.\<close>

definition at_index :: "LogEntry list \<Rightarrow> LogEntry \<Rightarrow> bool" where
  "at_index H e \<longleftrightarrow> 0 < le_index e \<and> le_index e \<le> length H \<and> H ! (le_index e - 1) = e"

definition logged :: "'s world \<Rightarrow> proto \<Rightarrow> bool" where
  "logged W P \<longleftrightarrow> (\<forall>t H. p_hist P t = Some H \<longrightarrow> set H \<subseteq> proposals W) \<and>
     (\<forall>e \<in> proposals W. \<exists>H. p_hist P (le_term e) = Some H \<and> at_index H e)"

lemma loggedD:
  assumes "logged W P"
  shows "p_hist P t = Some H \<Longrightarrow> set H \<subseteq> proposals W"
    "e \<in> proposals W \<Longrightarrow> \<exists>H. p_hist P (le_term e) = Some H \<and> at_index H e"
  using assms by (auto simp: logged_def)

lemma at_index_longer: "at_index H e \<Longrightarrow> at_index (H @ X) e"
  by (auto simp: at_index_def nth_append)

lemma logged_logs:
  assumes "logged W P" and "sim M W P" and "i \<in> M"
  shows "set (p_log P i) \<subseteq> proposals W"
proof
  fix e assume "e \<in> set (p_log P i)"
  then obtain k where k: "k < length (p_log P i)" "p_log P i ! k = e" by (auto simp: in_set_conv_nth)
  have "good (p_hist P) (p_log P i)" by (rule logs_invD(1) [OF proto_invD(3) [OF simD(4) [OF assms(2)]] assms(3)])
  then obtain H where H: "p_hist P (le_term e) = Some H" "has_prefix (p_log P i) (k + 1) H"
    using k by (auto simp: good_def)
  have "e \<in> set H" using has_prefix_nth [OF H(2), of k] k(2) H(2) nth_mem [of k H] by (simp add: has_prefix_def)
  then show "e \<in> proposals W" using loggedD(1) [OF assms(1) H(1)] by blast
qed

lemma logged_grows:
  assumes "logged W P" and "grows P P'" and "e \<in> proposals W"
  shows "\<exists>H. p_hist P' (le_term e) = Some H \<and> at_index H e"
proof -
  obtain H where H: "p_hist P (le_term e) = Some H" "at_index H e" using loggedD(2) [OF assms(1,3)] by blast
  show ?thesis using growsD(2) [OF assms(2) H(1)] at_index_longer [OF H(2)] by auto
qed

lemma logged_same:
  assumes "logged W P" and "sim M W P" and "grows P P'" and "from_logs M P P'" and "proposals W' = proposals W"
  shows "logged W' P'"
  using logged_grows [OF assms(1,3)] loggedD(1) [OF assms(1)] logged_logs [OF assms(1,2)] assms(4)
  unfolding logged_def from_logs_def assms(5) by blast

lemma logged_proposal:
  assumes "logged W P" and "sim M W P" and "grows P P'" and "takes_proposal M P c es P'" and "c \<in> M"
    and "proposals W' = proposals W \<union> es"
  shows "logged W' P'"
proof (cases "es = {}")
  case True
  then show ?thesis using assms(4,6) logged_same [OF assms(1-3)] by (simp add: takes_proposal_def)
next
  case False
  then obtain e where e: "es = {e}" "le_index e = length (p_log P c) + 1"
    "p_hist P' = (p_hist P)(le_term e := Some (p_log P c @ [e]))"
    using assms(4) by (auto simp: takes_proposal_def)
  have "at_index (p_log P c @ [e]) e" by (simp add: at_index_def e(2))
  then show ?thesis
    using logged_grows [OF assms(1,3)] loggedD(1) [OF assms(1)] logged_logs [OF assms(1,2,5)]
    unfolding logged_def assms(6) e(1) by (fastforce simp: e(3) split: if_splits)
qed

text \<open>A step of the world that the protocol can do.\<close>

definition matched_step :: "'s callbacks \<Rightarrow> 's \<Rightarrow> bool \<Rightarrow> NodeId set \<Rightarrow> 's world \<Rightarrow> proto \<Rightarrow> 's world \<Rightarrow> bool" where
  "matched_step cb m0 same M W P W' \<longleftrightarrow>
     (\<exists>i P'. acts M i P P' \<and> sim M W' P' \<and> (logged W P \<longrightarrow> logged W' P') \<and>
       (same \<longrightarrow> all_ran cb m0 M W P \<longrightarrow> all_ran cb m0 M W' P'))"

lemma acts_grows: "acts M i P P' \<Longrightarrow> sim M W P \<Longrightarrow> grows P P' \<and> moves i P P'"
  using acts_ok simD(3) movesD(1) by blast

lemma ran_moves:
  assumes "all_ran cb m0 M W P" and "moves i P P'" and "nodes (net W') = (nodes (net W))(i := n)"
    and "\<forall>m0. ran_log cb m0 (p_log P i) (node W i) \<longrightarrow> ran_log cb m0 (p_log P' i) n"
  shows "all_ran cb m0 M W' P'"
  using assms by (auto simp: all_ran_def moves_def)

lemma matched_runs:
  assumes "sim M W P" and "nodes (net W') = (nodes (net W))(i := n)" and "proposals W' = proposals W"
    and "\<exists>P'. acts M i P P' \<and> from_logs M P P' \<and>
      (\<forall>m0. ran_log cb m0 (p_log P i) (node W i) \<longrightarrow> ran_log cb m0 (p_log P' i) n) \<and> sim M W' P'"
  shows "matched_step cb m0 same M W P W'"
proof -
  obtain P' where P': "acts M i P P'" "from_logs M P P'"
    "\<forall>m0. ran_log cb m0 (p_log P i) (node W i) \<longrightarrow> ran_log cb m0 (p_log P' i) n" "sim M W' P'"
    using assms(4) by blast
  note g = acts_grows [OF P'(1) assms(1)]
  show ?thesis
    unfolding matched_step_def
    using P'(1,4) logged_same [OF _ assms(1) conjunct1 [OF g] P'(2) assms(3)] ran_moves [OF _ conjunct2 [OF g] assms(2) P'(3)]
    by blast
qed

lemma matched_kept:
  assumes "sim M W P" and "proposals W' = proposals W" and "\<exists>P'. acts M i P P' \<and> from_logs M P P' \<and> sim M W' P'"
  shows "matched_step cb m0 False M W P W'"
proof -
  obtain P' where P': "acts M i P P'" "from_logs M P P'" "sim M W' P'" using assms(3) by blast
  show ?thesis
    unfolding matched_step_def
    using P'(1,3) logged_same [OF _ assms(1) conjunct1 [OF acts_grows [OF P'(1) assms(1)]] P'(2) assms(2)] by blast
qed

lemma matched_idle:
  assumes "sim M W P" and "nodes (net W') = (nodes (net W))(i := n)" and "proposals W' = proposals W"
    and "same \<Longrightarrow> idle (node W i) n" and "\<exists>P'. acts M i P P' \<and> kept M P P' \<and> sim M W' P'"
  shows "matched_step cb m0 same M W P W'"
proof (cases same)
  case True
  obtain P' where P': "acts M i P P'" "kept M P P'" "sim M W' P'" using assms(5) by blast
  show ?thesis
    by (rule matched_runs [OF assms(1-3)], rule exI [of _ P'])
      (use P' keptD [OF P'(2)] idle_ran [OF assms(4) [OF True]] in simp)
next
  case False
  obtain P' where P': "acts M i P P'" "kept M P P'" "sim M W' P'" using assms(5) by blast
  have "matched_step cb m0 False M W P W'"
    by (rule matched_kept [OF assms(1,3)], rule exI [of _ P']) (use P' keptD(2) [OF P'(2)] in simp)
  then show ?thesis using False by simp
qed

lemma sim_election:
  assumes "sim M W P" and "election_step M (net W) s"
  shows "matched_step cb m0 same M W P (W\<lparr>net := s\<rparr>)"
  using assms(2)
proof cases
  case (elect c now rnd r n)
  have "idle (node W c) n" using idle_votes(1) [of "node W c" now rnd] elect(3) by simp
  then show ?thesis unfolding elect(1) using sim_elect [OF assms(1) elect(2,3)] by (intro matched_idle [OF assms(1)]) simp_all
next
  case (vote v c t req now rnd resp n)
  have "idle (node W v) n" using idle_votes(3) [of "node W v" now rnd req] vote(4) by simp
  then show ?thesis unfolding vote(1) using sim_vote [OF assms(1) vote(2-4)] by (intro matched_idle [OF assms(1)]) simp_all
next
  case (reply c t v resp now rnd)
  show ?thesis unfolding reply(1)
    by (rule matched_idle [OF assms(1) _ _ idle_votes(2) sim_vote_reply [OF assms(1) reply(2,3)]]) simp_all
qed

lemma sim_step:
  assumes "world_step cb kp M W W'" and "sim M W P"
  shows "matched_step cb m0 (kp = (=) \<and> installing W' = {}) M W P W'"
  using assms(1)
proof cases
  case (elections s)
  show ?thesis unfolding elections(1) by (rule sim_election [OF assms(2) elections(2)])
next
  case (replicate_to c p act n)
  have "idle (node W c) n" using idle_messages(1) [of "node W c" p] replicate_to(5) by simp
  then show ?thesis unfolding replicate_to(1)
    using sim_replicate [OF assms(2) replicate_to(2-5)] by (intro matched_idle [OF assms(2)]) simp_all
next
  case (append_entries c p req now rnd r n)
  show ?thesis unfolding append_entries(1)
    by (rule matched_runs [OF assms(2) _ _ sim_append_entries [OF assms(2) append_entries(2,3)]]) simp_all
next
  case (append_reply c p req resp now rnd)
  note c = simD(7) [OF assms(2)] append_reply(2)
  have "c \<in> M" using c by (auto simp: messages_sim_def answer_sim_def append_sim_def)
  note ns = node_simD(1) [OF sim_node [OF assms(2) this]] leader_term [OF assms(2) this]
  obtain P' where P': "acts M c P P'" "kept M P P'"
    "sim M (set_node c (snd (HandleAppendReply cb now rnd p (aeq_term req) (aeq_prev_log_index req)
      (length (aeq_entries req)) resp (node W c))) W) P'"
    using sim_append_reply [OF assms(2) append_reply(2)] by blast
  have same: "p_log P' c = p_log P c" by (simp add: keptD(1) [OF P'(2)])
  show ?thesis unfolding append_reply(1)
    by (rule matched_runs [OF assms(2)], simp, simp, rule exI [of _ P'])
      (simp add: same P'(1,3) keptD(2) [OF P'(2)] HandleAppendReply_ran [OF ns])

next
  case (send_failed c p)
  show ?thesis unfolding send_failed(1)
    by (rule matched_idle [OF assms(2) _ _ idle_messages(2) sim_small(1) [OF assms(2) send_failed(2)]]) simp_all
next
  case (proposal c command)
  let ?n = "snd (Propose_begin cb command (node W c))"
  let ?W = "(set_node c ?n W)\<lparr>proposals := proposals W \<union> proposed command (node W c)\<rparr>"
  from sim_propose [OF assms(2) proposal(2,3)] obtain P' where P': "acts M c P P'"
    "takes_proposal M P c (proposed command (node W c)) P'"
    "\<forall>m0. ran_log cb m0 (p_log P c) (node W c) \<longrightarrow> ran_log cb m0 (p_log P' c) ?n" "sim M (set_node c ?n W) P'" by blast
  note g = acts_grows [OF P'(1) assms(2)]
  have "logged W P \<Longrightarrow> logged ?W P'"
    by (rule logged_proposal [OF _ assms(2) conjunct1 [OF g] P'(2) proposal(2)]) simp_all
  moreover have "all_ran cb m0 M W P \<Longrightarrow> all_ran cb m0 M ?W P'"
    by (rule ran_moves [OF _ conjunct2 [OF g] _ P'(3)]) simp_all
  ultimately show ?thesis
    unfolding proposal(1) matched_step_def by (intro exI [of _ c] exI [of _ P']) (use P'(1,4) in simp)
next
  case (send_snapshot c p t r n)
  have "idle (node W c) n" using idle_messages(3) [of "node W c" cb p t] send_snapshot(4) by simp
  then show ?thesis unfolding send_snapshot(1)
    using sim_send_snapshot [OF assms(2) send_snapshot(2-4)] by (intro matched_idle [OF assms(2)]) simp_all
next
  case (snapshot_begin c p req now rnd r n)
  have "idle (node W p) n" using idle_messages(4) [of "node W p" now rnd req] snapshot_begin(3) by simp
  then show ?thesis unfolding snapshot_begin(1)
    using sim_snapshot_begin [OF assms(2) snapshot_begin(2,3)] by (intro matched_idle [OF assms(2)]) simp_all
next
  case (snapshot_restore p req)
  have "p \<in> M" using simD(7) [OF assms(2)] snapshot_restore(2) by (auto simp: messages_sim_def)
  then show ?thesis unfolding snapshot_restore(1)
    using sim_small(3) [OF assms(2)] snapshot_restore(2) by (intro matched_idle [OF assms(2)]) auto
next
  case (snapshot_end p req)
  have "installing W' \<noteq> {}" using snapshot_end by auto
  then show ?thesis
    using matched_kept [OF assms(2) _ sim_snapshot_end [OF assms(2) snapshot_end(2)], of cb m0] snapshot_end(1) by simp
next
  case (snapshot_reply c p req now rnd resp)
  show ?thesis unfolding snapshot_reply(1)
    by (rule matched_idle [OF assms(2) _ _ idle_messages(5) sim_snapshot_reply [OF assms(2) snapshot_reply(2)]]) simp_all
next
  case (ticks c now)
  show ?thesis unfolding ticks(1)
    by (rule matched_idle [OF assms(2) _ _ idle_messages(6) sim_small(2) [OF assms(2) ticks(2)]]) simp_all
next
  case (restarts c addr ps joins m n)
  note ok = tracksD(1) [OF node_simD(1) [OF sim_node [OF assms(2) restarts(2)]]]
  have "idle (node W c) n" if "kp = (=)"
    using RaftNode_new_restart [OF ok restarts(3), of addr ps joins m] restarts(4,5) that by (auto simp: idle_def)
  then show ?thesis unfolding restarts(1)
    using sim_restart [OF assms(2) restarts(2-4)] by (intro matched_idle [OF assms(2)]) simp_all
qed

lemma world_reach_sim:
  assumes "world_reach cb kp M W"
  shows "\<exists>P. proto_reach M P \<and> sim M W P"
  using assms
proof (induction rule: world_reach.induct)
  case (world_start W)
  then show ?case using sim_start proto_reach.start by blast
next
  case (world_step W W')
  then obtain P where P: "proto_reach M P" "sim M W P" by blast
  then show ?case using sim_step [OF world_step.hyps(2) P(2)] acts_reach unfolding matched_step_def by blast
qed


section \<open>Guarantees\<close>

text \<open>What a reachable world says of a node and its protocol log.\<close>

lemma world_node:
  assumes "world_reach cb kp M W"
  obtains P where "proto_reach M P" "proto_inv M P" "\<And>i. i \<in> M \<Longrightarrow> node_sim M P i (node W i)"
proof -
  from world_reach_sim [OF assms] obtain P where P: "proto_reach M P" "sim M W P" by blast
  show thesis by (rule that [OF P(1)]) (use simD(4,8) [OF P(2)] in blast)+
qed

lemma node_sim_At:
  assumes "node_sim M P i n" and "At (rlog n) k = Some x"
  shows "0 < k" "k \<le> length (p_log P i)" "snapshot_index (rlog n) < k" "p_log P i ! (k - 1) = x"
proof -
  note t = tracksD [OF node_simD(1) [OF assms(1)]]
  have "At (rlog n) k = (if snapshot_index (rlog n) < k \<and> k \<le> length (p_log P i) then Some (p_log P i ! (k - 1)) else None)"
    by (rule holds_At) (rule t)+
  with assms(2) show "0 < k" "k \<le> length (p_log P i)" "snapshot_index (rlog n) < k" "p_log P i ! (k - 1) = x"
    by (auto split: if_splits)
qed

lemma prefix_At:
  assumes "node_sim M P a n" and "node_sim M P b m" and "has_prefix (p_log P a) k (p_log P b)" and "i \<le> k"
    and "At (rlog n) i = Some x" and "At (rlog m) i = Some y"
  shows "x = y"
  using has_prefix_nth [OF assms(3), of "i - 1"] node_sim_At [OF assms(1,5)] node_sim_At [OF assms(2,6)] assms(4) by auto




text \<open>C1. State machine safety: two nodes that have committed an index have the same entry there, at any time and whatever
  happened before.\<close>

theorem raft_state_machine_safety:
  assumes "world_reach cb kp M W" and "a \<in> M" and "b \<in> M"
    and "i \<le> commit_index (node W a)" and "i \<le> commit_index (node W b)"
    and "At (rlog (node W a)) i = Some x" and "At (rlog (node W b)) i = Some y"
  shows "x = y"
proof -
  from world_node [OF assms(1)] obtain P where P: "proto_inv M P" "\<And>i. i \<in> M \<Longrightarrow> node_sim M P i (node W i)" by blast
  note n = P(2) [OF assms(2)] P(2) [OF assms(3)]
  have "has_prefix (p_log P a) i (p_log P b)"
    by (rule committed_agree [OF P(1) assms(2,3)]) (use n [THEN node_simD(3)] assms(4,5) in simp_all)
  from prefix_At [OF n this order_refl assms(6,7)] show ?thesis .
qed

theorem raft_state_machine_safety_witness:
  "\<exists>W. world_reach cb_list (=) {1, 2, 3} W \<and> commit_index (node W 1) = 1 \<and> commit_index (node W 2) = 1 \<and>
     At (rlog (node W 1)) 1 = Some entry_x \<and> (\<forall>y. At (rlog (node W 2)) 1 = Some y \<longrightarrow> entry_x = y)"
proof -
  obtain W where W: "world_reach cb_list (=) {1, 2, 3} W" "node W 1 = lead5" "node W 2 = fol2"
    by (rule run3_world)
  have c: "commit_index (node W 1) = 1" "commit_index (node W 2) = 1" "At (rlog (node W 1)) 1 = Some entry_x"
    using W lead5_at(2) fol2_at at3_logs(3) by auto
  have "\<forall>y. At (rlog (node W 2)) 1 = Some y \<longrightarrow> entry_x = y"
    using raft_state_machine_safety [OF W(1), of 1 2 1 entry_x] c by simp
  then show ?thesis using W(1) c by blast
qed







end
