(* ===== verification/Raft_Rpc.thy ===== *)
theory Raft_Rpc
  imports Raft_Node
begin

text \<open>
  The calls between nodes, as \<^verbatim>\<open>src/raft/node.cpp\<close> makes them: a request is encoded and sent to a peer's address with a
  timeout, on a thread of its own; the thread that gets the answer, or the exception of the transport, takes the mutex and
  runs one critical section of \<open>Raft_Node\<close>.  Shown: between two nodes of this code, the bytes on the wire change nothing,
  the thread does what the critical section does with the answer that the peer's handler gave.  An answer that does not
  decode leaves the thread with an exception.
\<close>

section \<open>Calls\<close>

definition kElectionTimeoutMaxMs :: nat where "kElectionTimeoutMaxMs = 600"
definition kRpcTimeoutMs :: nat where "kRpcTimeoutMs = 150"
definition kSnapshotRpcTimeoutMs :: nat where "kSnapshotRpcTimeoutMs = 5000"

text \<open>The timeouts that may be drawn at random.\<close>

definition RandomElectionTimeoutMs :: "nat \<Rightarrow> bool" where
  "RandomElectionTimeoutMs rnd \<longleftrightarrow> kElectionTimeoutMinMs \<le> rnd \<and> rnd \<le> kElectionTimeoutMaxMs"

text \<open>What goes out: the address, the bytes and the timeout of each call.\<close>

type_synonym rpc_call = "PeerAddress \<times> string \<times> nat"

definition vote_calls :: "peer_map \<Rightarrow> RequestVoteRequest \<Rightarrow> rpc_call list" where
  "vote_calls ps req = map (\<lambda>p. (snd p, EncodeRequestVoteRequest req, kRpcTimeoutMs)) ps"

definition replicate_call ::
  "'s callbacks \<Rightarrow> NodeId \<Rightarrow> PeerAddress \<Rightarrow> replicate_action \<Rightarrow> 's RaftNode \<Rightarrow> rpc_call option \<times> 's RaftNode" where
  "replicate_call cb peer_id addr act n = (case act of
       NoSend \<Rightarrow> (None, n)
     | NeedSnapshot t \<Rightarrow>
         let (req, n) = SendInstallSnapshot cb peer_id t n
         in (map_option (\<lambda>req. (addr, EncodeInstallSnapshotRequest req, kSnapshotRpcTimeoutMs)) req, n)
     | SendAppend req \<Rightarrow> (Some (addr, EncodeAppendEntriesRequest req, kRpcTimeoutMs), n))"

text \<open>What the thread of a call does once \<^verbatim>\<open>SendRequest\<close> has returned the bytes of an answer, or thrown.\<close>

definition RequestVote_thread :: "nat \<Rightarrow> nat \<Rightarrow> Term \<Rightarrow> string res \<Rightarrow> ('s RaftNode, unit) eff" where
  "RequestVote_thread now rnd election_term sent = (case sent of
       Inl _ \<Rightarrow> eret ()
     | Inr response \<Rightarrow> ebind (elift (DecodeRequestVoteResponse response)) (HandleVoteReply now rnd election_term))"

definition AppendEntries_thread ::
  "'s callbacks \<Rightarrow> nat \<Rightarrow> nat \<Rightarrow> NodeId \<Rightarrow> Term \<Rightarrow> LogIndex \<Rightarrow> nat \<Rightarrow> string res \<Rightarrow> ('s RaftNode, unit) eff" where
  "AppendEntries_thread cb now rnd peer_id t prev_log_index sent_count sent = (case sent of
       Inl _ \<Rightarrow> emodify (HandleSendFailure peer_id)
     | Inr response \<Rightarrow> ebind (elift (DecodeAppendEntriesResponse response))
         (HandleAppendReply cb now rnd peer_id t prev_log_index sent_count))"

definition InstallSnapshot_thread :: "nat \<Rightarrow> nat \<Rightarrow> NodeId \<Rightarrow> Term \<Rightarrow> LogIndex \<Rightarrow> string res \<Rightarrow> ('s RaftNode, unit) eff" where
  "InstallSnapshot_thread now rnd peer_id t snap sent = (case sent of
       Inl _ \<Rightarrow> emodify (HandleSendFailure peer_id)
     | Inr response \<Rightarrow> ebind (elift (DecodeInstallSnapshotResponse response))
         (\<lambda>resp. emodify (HandleSnapshotReply now rnd peer_id t snap resp)))"

section \<open>From one node to another\<close>

lemma Peek_requests:
  "PeekMessageType (EncodeRequestVoteRequest q) = Inr kRequestVoteRequest"
  "PeekMessageType (EncodeAppendEntriesRequest r) = Inr kAppendEntriesRequest"
  "PeekMessageType (EncodeInstallSnapshotRequest s) = Inr kInstallSnapshotRequest"
  using Peek_encode [of "MRequestVoteRequest q"] Peek_encode [of "MAppendEntriesRequest r"]
    Peek_encode [of "MInstallSnapshotRequest s"] by simp_all

lemma decode_whole:
  "rvq_ok vq \<Longrightarrow> DecodeRequestVoteRequest (EncodeRequestVoteRequest vq) = Inr vq"
  "rvr_ok vr \<Longrightarrow> DecodeRequestVoteResponse (EncodeRequestVoteResponse vr) = Inr vr"
  "aeq_ok aq \<Longrightarrow> DecodeAppendEntriesRequest (EncodeAppendEntriesRequest aq) = Inr aq"
  "aer_ok ar \<Longrightarrow> DecodeAppendEntriesResponse (EncodeAppendEntriesResponse ar) = Inr ar"
  "isq_ok sq \<Longrightarrow> DecodeInstallSnapshotRequest (EncodeInstallSnapshotRequest sq) = Inr sq"
  "isr_ok sr \<Longrightarrow> DecodeInstallSnapshotResponse (EncodeInstallSnapshotResponse sr) = Inr sr"
  by (simp_all add: decode_defs srun_def decode_encodes)

text \<open>C30. A call answered by the peer's \<open>HandleMessage\<close> is the peer's handler and then the caller's critical section.\<close>

theorem raft_rpc_exact:
  assumes "rvq_ok vq" and "HandleRequestVote now rnd vq m = (vr, mv)" and "rvr_ok vr"
    and "aeq_ok aq" and "HandleAppendEntries cb now rnd aq m = (Inr ar, ma)" and "aer_ok ar"
    and "isq_ok sq" and "HandleInstallSnapshot cb now rnd sq m = (Inr sr, ms)" and "isr_ok sr"
  shows "(\<exists>b. HandleMessage cb wait now rnd (EncodeRequestVoteRequest vq) m = (Inr b, mv) \<and>
      RequestVote_thread now' rnd' t (Inr b) n = HandleVoteReply now' rnd' t vr n) \<and>
    (\<exists>b. HandleMessage cb wait now rnd (EncodeAppendEntriesRequest aq) m = (Inr b, ma) \<and>
      AppendEntries_thread cb now' rnd' p t prev sent (Inr b) n = HandleAppendReply cb now' rnd' p t prev sent ar n) \<and>
    (\<exists>b. HandleMessage cb wait now rnd (EncodeInstallSnapshotRequest sq) m = (Inr b, ms) \<and>
      InstallSnapshot_thread now' rnd' p t snap (Inr b) n = (Inr (), HandleSnapshotReply now' rnd' p t snap sr n))"
proof (intro conjI exI)
  show "HandleMessage cb wait now rnd (EncodeRequestVoteRequest vq) m = (Inr (EncodeRequestVoteResponse vr), mv)"
    using assms(2) by (simp add: HandleMessage_def Peek_requests decode_whole assms(1) ebind_def elift_def)
  show "HandleMessage cb wait now rnd (EncodeAppendEntriesRequest aq) m = (Inr (EncodeAppendEntriesResponse ar), ma)"
    using assms(5) by (simp add: HandleMessage_def Peek_requests decode_whole assms(4) ebind_def elift_def eret_def)
  show "HandleMessage cb wait now rnd (EncodeInstallSnapshotRequest sq) m = (Inr (EncodeInstallSnapshotResponse sr), ms)"
    using assms(8) by (simp add: HandleMessage_def Peek_requests decode_whole assms(7) ebind_def elift_def eret_def)
qed (simp_all add: RequestVote_thread_def AppendEntries_thread_def InstallSnapshot_thread_def decode_whole assms(3,6,9) ebind_def
  elift_def emodify_def)

theorem raft_rpc_exact_witness:
  "\<exists>b m'. HandleMessage cb_list (\<lambda>_ n. n) 1000 0 (EncodeRequestVoteRequest
      \<lparr>rvq_term = 2, rvq_candidate_id = 1, rvq_last_log_index = 5, rvq_last_log_term = 1\<rparr>) follower3 = (Inr b, m') \<and>
     voted_for (hard m') = Some 1 \<and>
     RequestVote_thread 1000 0 2 (Inr b) leader3 = HandleVoteReply 1000 0 2 \<lparr>rvr_term = 2, rvr_vote_granted = True\<rparr> leader3"
proof -
  let ?vq = "\<lparr>rvq_term = 2, rvq_candidate_id = 1, rvq_last_log_index = 5, rvq_last_log_term = 1\<rparr>"
  let ?aq = "\<lparr>aeq_term = 0, aeq_leader_id = 1, aeq_prev_log_index = 0, aeq_prev_log_term = 0, aeq_entries = [], aeq_leader_commit = 0\<rparr>"
  let ?sq = "\<lparr>isq_term = 0, isq_leader_id = 1, isq_last_included_index = 0, isq_last_included_term = 0, isq_data = [], isq_membership = []\<rparr>"
  define mv where "mv = snd (HandleRequestVote 1000 0 ?vq follower3)"
  have f: "term_of follower3 = 1" by (simp add: follower3_def node3_def ps_Set_def)
  have v: "HandleRequestVote 1000 0 ?vq follower3 = (\<lparr>rvr_term = 2, rvr_vote_granted = True\<rparr>, mv)" "voted_for (hard mv) = Some 1"
    by (simp_all add: mv_def HandleRequestVote_def kElectionTimeoutMinMs_def BecomeFollower_def ResetElectionDeadline_def Let_def
        follower3_def node3_def LastIndex_def LastTerm_def log_new_def entry3_def ps_Set_def ps_new_def)
  have a: "HandleAppendEntries cb_list 1000 0 ?aq follower3 = (Inr \<lparr>aer_term = 1, aer_success = False, aer_match_index = 0\<rparr>, follower3)"
    using f by (simp add: HandleAppendEntries_def)
  have s: "HandleInstallSnapshot cb_list 1000 0 ?sq follower3 = (Inr \<lparr>isr_term = 1\<rparr>, follower3)"
    using f by (simp add: HandleInstallSnapshot_def InstallSnapshot_begin_def)
  have ok: "rvq_ok ?vq" "rvr_ok \<lparr>rvr_term = 2, rvr_vote_granted = True\<rparr>" "aeq_ok ?aq"
    "aer_ok \<lparr>aer_term = 1, aer_success = False, aer_match_index = 0\<rparr>" "isq_ok ?sq" "isr_ok \<lparr>isr_term = 1\<rparr>"
    by (simp_all add: rvq_ok_def rvr_ok_def aeq_ok_def aer_ok_def isq_ok_def isr_ok_def index_ok_def fits32_def peers_ok_def omap_ok_def)
  from raft_rpc_exact [OF ok(1) v(1) ok(2,3) a ok(4,5) s ok(6), where wait = "\<lambda>_ n. n" and now' = 1000 and rnd' = 0 and t = 2 and n = leader3]
  show ?thesis using v(2) by blast
qed

text \<open>A call that fails clears the mark that it is under way; an answer that is cut short is not caught.\<close>

lemma thread_failed:
  "RequestVote_thread now rnd t (Inl e) n = (Inr (), n)"
  "AppendEntries_thread cb now rnd p t prev sent (Inl e) n = (Inr (), HandleSendFailure p n)"
  "InstallSnapshot_thread now rnd p t snap (Inl e) n = (Inr (), HandleSendFailure p n)"
  by (simp_all add: RequestVote_thread_def AppendEntries_thread_def InstallSnapshot_thread_def emodify_def eret_def)

lemma thread_throws:
  assumes "aer_ok ar" and "strict_prefix b (EncodeAppendEntriesResponse ar)"
  shows "\<exists>e. AppendEntries_thread cb now rnd p t prev sent (Inr b) n = (Inl e, n)"
proof -
  obtain e where "DecodeAppendEntriesResponse b = Inl e"
    using aer.truncated_rejected [OF assms] by (auto simp: DecodeAppendEntriesResponse_def srun_def)
  then show ?thesis by (simp add: AppendEntries_thread_def ebind_def elift_def)
qed

end
