(* ===== verification/Lexer.thy ===== *)
theory Lexer
  imports Prelude
begin

text \<open>
  \<^verbatim>\<open>src/sql/lexer.cpp\<close>: the tokenizer.  \<open>lex_step\<close> is one turn of the loop of
  \<^verbatim>\<open>Tokenize\<close> at a character that exists: the tokens it pushes (none for white space, one otherwise) and the
  text behind what it consumed; \<open>tokenize_loop\<close> is the loop, with the position \<^verbatim>\<open>i\<close>.  Shown: the loop ends;
  the tokens of an accepted text, each spelled at its offset, with white space between them, are the text; and a list of
  tokens printed with spaces between them is read back.
\<close>

datatype TokenType = kIdentifier | kNumber | kString | kSymbol | kEnd

record Token =
  type :: TokenType
  tok_text :: string
  tok_offset :: nat

abbreviation quote_char :: char where
  "quote_char \<equiv> CHR 0x27"

definition IsIdentStart :: "char \<Rightarrow> bool" where
  "IsIdentStart c \<longleftrightarrow> isalpha c \<or> c = CHR ''_''"

definition IsIdentChar :: "char \<Rightarrow> bool" where
  "IsIdentChar c \<longleftrightarrow> isalnum c \<or> c = CHR ''_''"

text \<open>The contents of a string literal, after its opening quote, and what follows its closing quote.\<close>

fun lex_string :: "string \<Rightarrow> (string \<times> string) res" where
  "lex_string [] = Inl (RuntimeError ''unterminated string literal'')"
| "lex_string (c # cs) =
     (if c = quote_char
      then (if cs \<noteq> [] \<and> hd cs = quote_char
            then rbind (lex_string (tl cs)) (\<lambda>(v, rest). Inr (quote_char # v, rest))
            else Inr ([], cs))
      else rbind (lex_string cs) (\<lambda>(v, rest). Inr (c # v, rest)))"

definition lex_step :: "nat \<Rightarrow> char \<Rightarrow> string \<Rightarrow> (Token list \<times> string) res" where
  "lex_step i c cs =
     (let token = (\<lambda>ty text. [\<lparr>type = ty, tok_text = text, tok_offset = i\<rparr>])
      in if isspace c then Inr ([], cs)
         else if IsIdentStart c
         then Inr (token kIdentifier (takeWhile IsIdentChar (c # cs)), dropWhile IsIdentChar (c # cs))
         else if isdigit c
         then Inr (token kNumber (takeWhile isdigit (c # cs)), dropWhile isdigit (c # cs))
         else if c = CHR ''-'' \<and> cs \<noteq> [] \<and> isdigit (hd cs)
         then Inr (token kNumber (c # takeWhile isdigit cs), dropWhile isdigit cs)
         else if c = quote_char
         then rbind (lex_string cs) (\<lambda>(value, rest). Inr (token kString value, rest))
         else if c = CHR ''<'' \<and> cs \<noteq> [] \<and> hd cs = CHR ''='' then Inr (token kSymbol ''<='', tl cs)
         else if c = CHR ''>'' \<and> cs \<noteq> [] \<and> hd cs = CHR ''='' then Inr (token kSymbol ''>='', tl cs)
         else if c = CHR ''!'' \<and> cs \<noteq> [] \<and> hd cs = CHR ''='' then Inr (token kSymbol ''!='', tl cs)
         else if c = CHR ''<'' \<and> cs \<noteq> [] \<and> hd cs = CHR ''>'' then Inr (token kSymbol ''!='', tl cs)
         else if c \<in> set ''(),;*=<>.'' then Inr (token kSymbol [c], cs)
         else Inl (RuntimeError (''unexpected character in SQL: '' @ [quote_char, c, quote_char])))"

lemma lex_string_length: "lex_string s = Inr (v, rest) \<Longrightarrow> length rest < length s"
  by (induction s arbitrary: v rest rule: lex_string.induct)
    (fastforce simp: rbind_Inr_iff split: if_splits)+

lemma lex_step_length: "lex_step i c cs = Inr (ts, rest) \<Longrightarrow> length rest < length (c # cs)"
proof -
  have d: "length (dropWhile P xs) \<le> length xs" for P and xs :: string by (rule length_dropWhile_le)
  show "lex_step i c cs = Inr (ts, rest) \<Longrightarrow> length rest < length (c # cs)"
    using d [of IsIdentChar cs] d [of isdigit cs]
    by (auto simp: lex_step_def Let_def rbind_Inr_iff IsIdentChar_def IsIdentStart_def isalnum_def le_imp_less_Suc
        split: if_splits dest!: lex_string_length)
qed

function tokenize_loop :: "nat \<Rightarrow> string \<Rightarrow> Token list res" where
  "tokenize_loop i [] = Inr [\<lparr>type = kEnd, tok_text = [], tok_offset = i\<rparr>]"
| "tokenize_loop i (c # cs) = (case lex_step i c cs of
       Inl e \<Rightarrow> Inl e
     | Inr (ts, rest) \<Rightarrow>
         rbind (tokenize_loop (i + (length (c # cs) - length rest)) rest) (\<lambda>more. Inr (ts @ more)))"
  by pat_completeness auto
termination
  by (relation "measure (\<lambda>(i, s). length s)") (use lex_step_length in \<open>auto simp del: length_Cons\<close>)

definition Tokenize :: "string \<Rightarrow> Token list res" where
  "Tokenize sql = tokenize_loop 0 sql"

section \<open>The tokens spell the text\<close>

fun escape :: "string \<Rightarrow> string" where
  "escape [] = []"
| "escape (c # cs) = (if c = quote_char then [quote_char, quote_char] else [c]) @ escape cs"

definition is_ident :: "string \<Rightarrow> bool" where
  "is_ident s \<longleftrightarrow> s \<noteq> [] \<and> IsIdentStart (hd s) \<and> (\<forall>c \<in> set s. IsIdentChar c)"

definition is_number :: "string \<Rightarrow> bool" where
  "is_number s \<longleftrightarrow> (let ds = (if s \<noteq> [] \<and> hd s = CHR ''-'' then tl s else s) in ds \<noteq> [] \<and> (\<forall>c \<in> set ds. isdigit c))"

definition is_symbol :: "string \<Rightarrow> bool" where
  "is_symbol s \<longleftrightarrow> s \<in> set [''<='', ''>='', ''!='', ''('', '')'', '','', '';'', ''*'', ''='', ''<'', ''>'', ''.'']"

text \<open>The texts that spell a token.\<close>

fun spells :: "TokenType \<Rightarrow> string \<Rightarrow> string \<Rightarrow> bool" where
  "spells kIdentifier t s \<longleftrightarrow> s = t \<and> is_ident t"
| "spells kNumber t s \<longleftrightarrow> s = t \<and> is_number t"
| "spells kString t s \<longleftrightarrow> s = quote_char # escape t @ [quote_char]"
| "spells kSymbol t s \<longleftrightarrow> is_symbol t \<and> (s = t \<or> t = ''!='' \<and> s = ''<>'')"
| "spells kEnd t s \<longleftrightarrow> False"

abbreviation blank :: "string \<Rightarrow> bool" where
  "blank w \<equiv> \<forall>c \<in> set w. isspace c"

text \<open>From position \<open>i\<close> on, the text is the tokens, each at its offset, with white space between.\<close>

fun laid_out :: "nat \<Rightarrow> string \<Rightarrow> Token list \<Rightarrow> bool" where
  "laid_out i s [] \<longleftrightarrow> False"
| "laid_out i s [t] \<longleftrightarrow> type t = kEnd \<and> tok_text t = [] \<and> tok_offset t = i + length s \<and> blank s"
| "laid_out i s (t # t' # ts) \<longleftrightarrow>
     (\<exists>w sp r. s = w @ sp @ r \<and> blank w \<and> spells (type t) (tok_text t) sp \<and> tok_offset t = i + length w \<and>
        laid_out (i + length w + length sp) r (t' # ts))"

lemma laid_out_space:
  assumes "isspace c" and "laid_out (Suc i) s ts"
  shows "laid_out i (c # s) ts"
proof (cases "(i, s, ts)" rule: laid_out.cases)
  case (3 i' s' t t' ts')
  with assms obtain w sp r where "s = w @ sp @ r" "blank w" "spells (type t) (tok_text t) sp"
    "tok_offset t = Suc i + length w" "laid_out (Suc i + length w + length sp) r (t' # ts')" by auto
  with assms(1) have "c # s = (c # w) @ sp @ r \<and> blank (c # w) \<and> spells (type t) (tok_text t) sp \<and>
      tok_offset t = i + length (c # w) \<and> laid_out (i + length (c # w) + length sp) r (t' # ts')" by simp
  moreover from 3 have "ts = t # t' # ts'" by simp
  ultimately show ?thesis unfolding \<open>ts = t # t' # ts'\<close> laid_out.simps(3) by blast
qed (use assms in auto)

lemma laid_out_token:
  assumes "spells (type t) (tok_text t) sp" and "tok_offset t = i" and "laid_out (i + length sp) r ts"
  shows "laid_out i (sp @ r) (t # ts)"
proof -
  obtain t' ts' where "ts = t' # ts'" using assms(3) by (cases ts) auto
  then have "blank [] \<and> spells (type t) (tok_text t) sp \<and> tok_offset t = i + length [] \<and>
      laid_out (i + length [] + length sp) r (t' # ts') \<and> sp @ r = [] @ sp @ r" using assms by simp
  then show ?thesis unfolding \<open>ts = t' # ts'\<close> laid_out.simps(3) by blast
qed

lemma lex_string_spells: "lex_string s = Inr (v, rest) \<Longrightarrow> s = escape v @ quote_char # rest"
proof (induction s arbitrary: v rest rule: lex_string.induct)
  case (2 c cs)
  then show ?case by (cases cs) (auto simp: rbind_Inr_iff split: if_splits)
qed simp

lemma lex_step_spells:
  assumes "lex_step i c cs = Inr (ts, rest)"
  shows "isspace c \<and> ts = [] \<and> rest = cs \<or>
    (\<exists>t sp. ts = [t] \<and> c # cs = sp @ rest \<and> tok_offset t = i \<and> spells (type t) (tok_text t) sp)"
proof -
  have tw: "\<forall>x \<in> set (takeWhile P xs). P x" for P :: "char \<Rightarrow> bool" and xs by (auto dest: set_takeWhileD)
  consider "isspace c" | "\<not> isspace c" "IsIdentStart c" | "\<not> isspace c" "\<not> IsIdentStart c" "isdigit c"
    | "\<not> isspace c" "\<not> IsIdentStart c" "\<not> isdigit c" "c = CHR ''-''" "cs \<noteq> []" "isdigit (hd cs)"
    | "\<not> isspace c" "\<not> IsIdentStart c" "\<not> isdigit c" "c = quote_char"
    | "\<not> isspace c" "\<not> IsIdentStart c" "\<not> isdigit c" "c \<noteq> quote_char" "\<not> (c = CHR ''-'' \<and> cs \<noteq> [] \<and> isdigit (hd cs))"
    by blast
  then show ?thesis
  proof cases
    case 2
    then have "IsIdentChar c" by (auto simp: IsIdentStart_def IsIdentChar_def isalnum_def)
    with assms 2 tw [of IsIdentChar cs] show ?thesis by (auto simp: lex_step_def is_ident_def)
  next
    case 3
    moreover from 3 have "c \<noteq> CHR ''-''" by (auto simp: isdigit_def)
    ultimately show ?thesis using assms tw [of isdigit cs] by (auto simp: lex_step_def is_number_def)
  next
    case 4
    with assms tw [of isdigit cs] show ?thesis by (cases cs) (auto simp: lex_step_def is_number_def)
  next
    case 5
    then obtain v where "lex_string cs = Inr (v, rest)" "ts = [\<lparr>type = kString, tok_text = v, tok_offset = i\<rparr>]"
      using assms by (auto simp: lex_step_def rbind_Inr_iff)
    then show ?thesis using 5 by (simp add: lex_string_spells)
  next
    case 6
    let ?ts = "\<lambda>text. [\<lparr>type = kSymbol, tok_text = text, tok_offset = i\<rparr>]"
    from 6 assms have "c # cs = ''<='' @ rest \<and> ts = ?ts ''<='' \<or> c # cs = ''>='' @ rest \<and> ts = ?ts ''>='' \<or>
      c # cs = ''!='' @ rest \<and> ts = ?ts ''!='' \<or> c # cs = ''<>'' @ rest \<and> ts = ?ts ''!='' \<or>
      c \<in> set ''(),;*=<>.'' \<and> rest = cs \<and> ts = ?ts [c]"
      by (cases cs) (simp_all add: lex_step_def Let_def del: list.set split: if_splits)
    moreover have "is_symbol [c]" if "c \<in> set ''(),;*=<>.''" using that by (auto simp: is_symbol_def)
    moreover have "is_symbol ''<=''" "is_symbol ''>=''" "is_symbol ''!=''" by (simp_all add: is_symbol_def)
    ultimately show ?thesis by (elim disjE conjE) (rule disjI2, rule exI, rule exI, rule conjI, assumption, force)+
  qed (use assms in \<open>simp add: lex_step_def\<close>)
qed

lemma tokenize_loop_laid_out: "tokenize_loop i s = Inr ts \<Longrightarrow> laid_out i s ts"
proof (induction i s arbitrary: ts rule: tokenize_loop.induct)
  case (2 i c cs)
  then obtain us rest more where s: "lex_step i c cs = Inr (us, rest)"
    and m: "tokenize_loop (i + (length (c # cs) - length rest)) rest = Inr more" and ts: "ts = us @ more"
    by (auto simp: rbind_Inr_iff split: sum.splits)
  have IH: "laid_out (i + (length (c # cs) - length rest)) rest more" by (rule "2.IH" [OF s refl m])
  from lex_step_spells [OF s] show ?case
  proof (elim disjE exE conjE)
    assume "isspace c" "us = []" "rest = cs"
    then show ?thesis using IH ts by (auto intro: laid_out_space)
  next
    fix t sp assume t: "us = [t]" "c # cs = sp @ rest" "tok_offset t = i" "spells (type t) (tok_text t) sp"
    then have "length (c # cs) - length rest = length sp" by (metis add_diff_cancel_right' length_append)
    with IH t ts show ?thesis using laid_out_token by simp
  qed
qed simp

section \<open>Printing tokens\<close>

text \<open>A token without its place in a text.\<close>

type_synonym lexeme = "TokenType \<times> string"

definition lexeme_of :: "Token \<Rightarrow> lexeme" where
  "lexeme_of t = (type t, tok_text t)"

fun lexeme_ok :: "lexeme \<Rightarrow> bool" where
  "lexeme_ok (kIdentifier, t) \<longleftrightarrow> is_ident t"
| "lexeme_ok (kNumber, t) \<longleftrightarrow> is_number t"
| "lexeme_ok (kString, t) \<longleftrightarrow> True"
| "lexeme_ok (kSymbol, t) \<longleftrightarrow> is_symbol t"
| "lexeme_ok (kEnd, t) \<longleftrightarrow> False"

definition spell :: "lexeme \<Rightarrow> string" where
  "spell x = (if fst x = kString then quote_char # escape (snd x) @ [quote_char] else snd x)"

definition print_lexemes :: "lexeme list \<Rightarrow> string" where
  "print_lexemes xs = concat (map (\<lambda>x. spell x @ '' '') xs)"

lemma lex_string_escape: "rest = [] \<or> hd rest \<noteq> quote_char \<Longrightarrow> lex_string (escape v @ quote_char # rest) = Inr (v, rest)"
  by (induction v) auto

lemma takeWhile_all: "\<forall>x \<in> set xs. P x \<Longrightarrow> \<not> P y \<Longrightarrow> takeWhile P (xs @ y # r) = xs \<and> dropWhile P (xs @ y # r) = y # r"
  by (simp add: takeWhile_append dropWhile_append)

lemma char_classes:
  "\<not> isspace quote_char" "\<not> IsIdentStart quote_char" "\<not> isdigit quote_char" "isspace CHR '' ''"
  "\<not> IsIdentChar CHR '' ''" "\<not> isdigit CHR '' ''" "\<not> isspace CHR ''-''" "\<not> IsIdentStart CHR ''-''" "\<not> isdigit CHR ''-''"
  by (simp_all add: isspace_def IsIdentStart_def IsIdentChar_def isalnum_def isalpha_def isupper_def islower_def isdigit_def)

lemma ident_start_not:
  "IsIdentStart c \<Longrightarrow> \<not> isspace c" "isdigit c \<Longrightarrow> \<not> isspace c" "isdigit c \<Longrightarrow> \<not> IsIdentStart c"
  by (auto simp: isspace_def IsIdentStart_def isalpha_def isupper_def islower_def isdigit_def)

lemma symbol_not_class:
  assumes "is_symbol (c # cs)"
  shows "\<not> isspace c" "\<not> IsIdentStart c" "\<not> isdigit c" "c \<noteq> quote_char" "c \<noteq> CHR ''-''"
  using assms
  by (auto simp: is_symbol_def isspace_def IsIdentStart_def isalpha_def isupper_def islower_def isdigit_def)

lemma lex_step_spell:
  assumes "lexeme_ok x" and "spell x = c # cs"
  shows "lex_step i c (cs @ '' '' @ rest) = Inr ([\<lparr>type = fst x, tok_text = snd x, tok_offset = i\<rparr>], '' '' @ rest)"
proof (cases "x" rule: lexeme_ok.cases)
  case (1 t)
  with assms have t: "t = c # cs" "IsIdentStart c" "\<forall>d \<in> set (c # cs). IsIdentChar d"
    by (auto simp: spell_def is_ident_def)
  then show ?thesis
    using takeWhile_all [OF t(3), of "CHR '' ''" rest] 1 by (simp add: lex_step_def ident_start_not char_classes)
next
  case (2 t)
  then have t: "t = c # cs" using assms(2) by (simp add: spell_def)
  show ?thesis
  proof (cases "c = CHR ''-''")
    case True
    with 2 assms(1) t have ds: "cs \<noteq> []" "\<forall>d \<in> set cs. isdigit d" by (auto simp: is_number_def)
    then show ?thesis
      using takeWhile_all [OF ds(2), of "CHR '' ''" rest] 2 t True
      by (simp add: lex_step_def char_classes hd_append)
  next
    case False
    with 2 assms(1) t have ds: "isdigit c" "\<forall>d \<in> set (c # cs). isdigit d" by (auto simp: is_number_def)
    then show ?thesis
      using takeWhile_all [OF ds(2), of "CHR '' ''" rest] 2 t by (simp add: lex_step_def ident_start_not char_classes)
  qed
next
  case (3 t)
  then have "c = quote_char" "cs = escape t @ [quote_char]" using assms(2) by (auto simp: spell_def)
  then show ?thesis using 3 lex_string_escape [of "'' '' @ rest" t] by (simp add: lex_step_def char_classes)
next
  case (4 t)
  then have t: "is_symbol (c # cs)" "t = c # cs" using assms by (simp_all add: spell_def)
  note n = symbol_not_class [OF t(1)]
  from t(1) have "cs = [] \<and> c \<in> set ''(),;*=<>.'' \<or> c = CHR ''<'' \<and> cs = ''='' \<or> c = CHR ''>'' \<and> cs = ''='' \<or>
      c = CHR ''!'' \<and> cs = ''=''" by (auto simp: is_symbol_def)
  then show ?thesis using n 4 t(2)
    by (elim disjE conjE) (simp_all add: lex_step_def char_classes del: list.set)
qed (use assms(1) in simp)

lemma spell_nonempty: "lexeme_ok x \<Longrightarrow> spell x \<noteq> []"
  by (cases x rule: lexeme_ok.cases) (auto simp: spell_def is_ident_def is_number_def is_symbol_def)

lemma tokenize_loop_space: "tokenize_loop i ('' '' @ rest) = tokenize_loop (Suc i) rest"
  by (simp add: lex_step_def char_classes) (cases "tokenize_loop (Suc i) rest"; simp)

lemma tokenize_loop_print:
  assumes "\<forall>x \<in> set xs. lexeme_ok x"
  shows "\<exists>ts. tokenize_loop i (print_lexemes xs) = Inr ts \<and> map lexeme_of ts = xs @ [(kEnd, [])]"
  using assms
proof (induction xs arbitrary: i)
  case Nil
  then show ?case by (simp add: print_lexemes_def lexeme_of_def)
next
  case (Cons x xs)
  obtain c cs where sp: "spell x = c # cs" using spell_nonempty [of x] Cons.prems by (cases "spell x") auto
  let ?rest = "print_lexemes xs" and ?n = "i + length (c # cs)"
  obtain ts where ts: "tokenize_loop (Suc ?n) ?rest = Inr ts" "map lexeme_of ts = xs @ [(kEnd, [])]"
    using Cons.IH [of "Suc ?n"] Cons.prems by auto
  have "print_lexemes (x # xs) = c # cs @ '' '' @ ?rest" by (simp add: print_lexemes_def sp)
  moreover have "tokenize_loop i (c # cs @ '' '' @ ?rest)
      = rbind (tokenize_loop ?n ('' '' @ ?rest)) (\<lambda>more. Inr ([\<lparr>type = fst x, tok_text = snd x, tok_offset = i\<rparr>] @ more))"
    using lex_step_spell [OF _ sp, of i ?rest] Cons.prems by (simp add: add.commute del: tokenize_loop.simps append.simps(2)) simp
  moreover have "lexeme_of \<lparr>type = fst x, tok_text = snd x, tok_offset = i\<rparr> = x" by (simp add: lexeme_of_def)
  ultimately show ?case using ts unfolding tokenize_loop_space by simp
qed

text \<open>When a text is accepted, its tokens spell it out: each token stands at its offset, spelled as itself, a string
  literal with its quotes doubled (\<^verbatim>\<open><>\<close> stands for \<^verbatim>\<open>!=\<close>), with nothing but white space between, and
  the end marker, which occurs only once, at the end.\<close>

theorem lexer_spells_text:
  assumes "Tokenize sql = Inr ts"
  shows "laid_out 0 sql ts"
  using assms tokenize_loop_laid_out by (simp add: Tokenize_def)

theorem lexer_spells_text_witness:
  "laid_out 0 ''SELECT *'' [\<lparr>type = kIdentifier, tok_text = ''SELECT'', tok_offset = 0\<rparr>,
     \<lparr>type = kSymbol, tok_text = ''*'', tok_offset = 7\<rparr>, \<lparr>type = kEnd, tok_text = '''', tok_offset = 8\<rparr>]"
  by (rule lexer_spells_text)
    (simp add: Tokenize_def lex_step_def isspace_def IsIdentStart_def IsIdentChar_def isalnum_def isalpha_def isupper_def
      islower_def isdigit_def)

end
