(* ===== verification/Sql_Schema.thy ===== *)
theory Sql_Schema
  imports Bytes
begin

text \<open>
  \<^verbatim>\<open>src/sql/ast.h\<close> and \<^verbatim>\<open>src/sql/schema.cpp\<close>: the statements of the SQL subset, and the column list
  of a table with its binary form; the binary form of a row is \<^verbatim>\<open>EncodeRow\<close>/\<^verbatim>\<open>DecodeRow\<close> of
  \<^verbatim>\<open>src/sql/executor.cpp\<close>.  Shown: both forms read back to what was written, and a form cut short is
  rejected with an exception.
\<close>

section \<open>Statements\<close>

datatype ColumnType = kText | kInt

record ColumnDef =
  cd_name :: string
  cd_type :: ColumnType
  primary_key :: bool
  default_value :: "string option"

record CreateDatabaseStatement =
  cdb_name :: string

record CreateTableStatement =
  ct_db_name :: string
  ct_table_name :: string
  ct_columns :: "ColumnDef list"

record AlterTableAddColumnStatement =
  at_db_name :: string
  at_table_name :: string
  at_column :: ColumnDef

record InsertStatement =
  ins_db_name :: string
  ins_table_name :: string
  ins_columns :: "string list"
  ins_values :: "string list"

datatype CompareOp = kEq | kNe | kLt | kLe | kGt | kGe

record Condition =
  cond_column :: string
  cond_op :: CompareOp
  cond_literal :: string

record SelectStatement =
  sel_db_name :: string
  sel_table_name :: string
  sel_columns :: "string list"
  sel_where :: "Condition list"

record UpdateStatement =
  upd_db_name :: string
  upd_table_name :: string
  upd_assignments :: "(string \<times> string) list"
  upd_where :: "Condition list"

record DeleteStatement =
  del_db_name :: string
  del_table_name :: string
  del_where :: "Condition list"

record ShowTablesStatement =
  st_db_name :: string

text \<open>\<^verbatim>\<open>Statement\<close>, the variant of the nine; \<^verbatim>\<open>ShowDatabasesStatement\<close> has no member.\<close>

datatype Statement =
    CreateTable CreateTableStatement
  | Insert InsertStatement
  | Select SelectStatement
  | Update UpdateStatement
  | Delete DeleteStatement
  | AlterTableAddColumn AlterTableAddColumnStatement
  | ShowTables ShowTablesStatement
  | CreateDatabase CreateDatabaseStatement
  | ShowDatabases

section \<open>Schemas\<close>

record TableSchema =
  columns :: "ColumnDef list"

fun index_where :: "('a \<Rightarrow> bool) \<Rightarrow> 'a list \<Rightarrow> int \<Rightarrow> int" where
  "index_where P [] i = - 1"
| "index_where P (x # xs) i = (if P x then i else index_where P xs (i + 1))"

definition ColumnIndex :: "TableSchema \<Rightarrow> string \<Rightarrow> int" where
  "ColumnIndex schema name = index_where (\<lambda>col. cd_name col = name) (columns schema) 0"

definition PrimaryKeyIndex :: "TableSchema \<Rightarrow> int" where
  "PrimaryKeyIndex schema = index_where primary_key (columns schema) 0"

definition put_flag :: "bool \<Rightarrow> string" where
  "put_flag b = put_u8 (if b then 1 else 0)"

definition put_column :: "ColumnDef \<Rightarrow> string" where
  "put_column col = put_string (cd_name col) @ put_flag (cd_type col = kInt) @ put_flag (primary_key col) @
     put_flag (default_value col \<noteq> None) @ (case default_value col of None \<Rightarrow> [] | Some d \<Rightarrow> put_string d)"

definition Serialize :: "TableSchema \<Rightarrow> string" where
  "Serialize schema = put_u32 (of_nat (length (columns schema))) @ concat (map put_column (columns schema))"

abbreviation corrupt_schema :: exn where
  "corrupt_schema \<equiv> RuntimeError ''corrupt table schema''"

definition read_column :: "(string, ColumnDef) cursor" where
  "read_column =
     sbind (get_string corrupt_schema) (\<lambda>name.
     sbind (get_u8 corrupt_schema) (\<lambda>type.
     sbind (get_u8 corrupt_schema) (\<lambda>pk.
     sbind (get_u8 corrupt_schema) (\<lambda>has_default.
     sbind (if has_default \<noteq> 0 then sbind (get_string corrupt_schema) (\<lambda>d. sret (Some d)) else sret None) (\<lambda>def.
     sret \<lparr>cd_name = name, cd_type = (if type \<noteq> 0 then kInt else kText), primary_key = (pk \<noteq> 0),
           default_value = def\<rparr>)))))"

definition read_schema :: "(string, TableSchema) cursor" where
  "read_schema =
     sbind (get_u32 corrupt_schema) (\<lambda>count.
     sbind (srepeat read_column (unat count)) (\<lambda>cols.
     if cols = [] then sthrow (RuntimeError ''corrupt table schema: empty column list'')
     else sret \<lparr>columns = cols\<rparr>))"

definition Deserialize :: "string \<Rightarrow> TableSchema res" where
  "Deserialize blob = srun read_schema blob"

section \<open>Rows\<close>

definition EncodeRow :: "string list \<Rightarrow> string" where
  "EncodeRow values = put_u32 (of_nat (length values)) @ concat (map put_string values)"

definition read_row :: "(string, string list) cursor" where
  "read_row =
     sbind (get_u32 (RuntimeError ''corrupt row encoding'')) (\<lambda>count.
     srepeat (get_string (RuntimeError ''corrupt row encoding'')) (unat count))"

definition DecodeRow :: "string \<Rightarrow> string list res" where
  "DecodeRow blob = srun read_row blob"

section \<open>Column positions\<close>

lemma index_where_eq:
  "index_where P xs i = (if \<exists>x \<in> set xs. P x then i + int (length (takeWhile (\<lambda>x. \<not> P x) xs)) else - 1)"
  by (induction xs arbitrary: i) auto

abbreviation names :: "TableSchema \<Rightarrow> string list" where
  "names schema \<equiv> map cd_name (columns schema)"

text \<open>The position of a column, as a natural number.\<close>

definition col_pos :: "TableSchema \<Rightarrow> string \<Rightarrow> nat" where
  "col_pos schema name = length (takeWhile (\<lambda>n. n \<noteq> name) (names schema))"

lemma ColumnIndex_eq:
  "ColumnIndex schema name = (if name \<in> set (names schema) then int (col_pos schema name) else - 1)"
  by (auto simp: ColumnIndex_def index_where_eq col_pos_def takeWhile_map comp_def)

lemma length_takeWhile_lt: "x \<in> set xs \<Longrightarrow> \<not> P x \<Longrightarrow> length (takeWhile P xs) < length xs"
  by (induction xs) auto

lemma col_pos_less: "name \<in> set (names schema) \<Longrightarrow> col_pos schema name < length (columns schema)"
  using length_takeWhile_lt [of name "names schema" "\<lambda>n. n \<noteq> name"] by (simp add: col_pos_def)

lemma names_col_pos: "name \<in> set (names schema) \<Longrightarrow> names schema ! col_pos schema name = name"
  using nth_length_takeWhile [of "\<lambda>n. n \<noteq> name" "names schema"] col_pos_less [of name schema]
  by (auto simp: col_pos_def)

lemma col_pos_nth:
  assumes "distinct (names schema)" and "i < length (columns schema)"
  shows "col_pos schema (cd_name (columns schema ! i)) = i"
proof -
  let ?n = "cd_name (columns schema ! i)"
  have m: "?n \<in> set (names schema)" using assms(2) by simp
  have "names schema ! col_pos schema ?n = names schema ! i" using names_col_pos [OF m] assms(2) by simp
  with assms col_pos_less [OF m] show ?thesis by (simp add: nth_eq_iff_index_eq del: nth_map)
qed

lemma PrimaryKeyIndex_eq:
  "PrimaryKeyIndex schema = (if \<exists>c \<in> set (columns schema). primary_key c
     then int (length (takeWhile (\<lambda>c. \<not> primary_key c) (columns schema))) else - 1)"
  by (simp add: PrimaryKeyIndex_def index_where_eq)

section \<open>Codecs\<close>

definition column_fits :: "ColumnDef \<Rightarrow> bool" where
  "column_fits col \<longleftrightarrow> fits32 (cd_name col) \<and> (\<forall>d. default_value col = Some d \<longrightarrow> fits32 d)"

definition schema_fits :: "TableSchema \<Rightarrow> bool" where
  "schema_fits schema \<longleftrightarrow> columns schema \<noteq> [] \<and> fits32 (columns schema) \<and> (\<forall>col \<in> set (columns schema). column_fits col)"

definition row_fits :: "string list \<Rightarrow> bool" where
  "row_fits row \<longleftrightarrow> fits32 row \<and> (\<forall>v \<in> set row. fits32 v)"

interpretation col: codec put_column read_column column_fits
proof
  fix c :: ColumnDef and rest assume "column_fits c"
  then show "read_column (put_column c @ rest) = Inr (c, rest)"
    by (cases c; cases "cd_type c"; cases "default_value c")
      (simp_all add: put_column_def read_column_def put_flag_def codec_simps column_fits_def)
qed (auto simp: read_column_def intro!: extensible_sbind)

interpretation schema: codec Serialize read_schema schema_fits
  by unfold_locales
    (auto simp: Serialize_def read_schema_def codec_simps unat_length32 schema_fits_def col.srepeat_enc
      intro!: extensible_sbind col.dec_extend)

interpretation row: codec EncodeRow read_row row_fits
  by unfold_locales
    (auto simp: EncodeRow_def read_row_def codec_simps unat_length32 row_fits_def str.srepeat_enc intro!: extensible_sbind)

lemma Deserialize_Serialize: "schema_fits s \<Longrightarrow> Deserialize (Serialize s) = Inr s"
  by (simp add: Deserialize_def srun_def schema.dec_enc_Nil)

lemma DecodeRow_EncodeRow: "row_fits r \<Longrightarrow> DecodeRow (EncodeRow r) = Inr r"
  by (simp add: DecodeRow_def srun_def row.dec_enc_Nil)

text \<open>A table's column list and a row of any bytes read back from their binary form as they were written, and a
  form cut short anywhere is rejected with an exception.\<close>

theorem sql_storage_roundtrip:
  assumes "schema_fits s" and "row_fits r"
  shows "Deserialize (Serialize s) = Inr s \<and> DecodeRow (EncodeRow r) = Inr r \<and>
    (\<forall>p. strict_prefix p (Serialize s) \<longrightarrow> (\<exists>e. Deserialize p = Inl e)) \<and>
    (\<forall>p. strict_prefix p (EncodeRow r) \<longrightarrow> (\<exists>e. DecodeRow p = Inl e))"
proof (intro conjI allI impI)
  fix p assume "strict_prefix p (Serialize s)"
  then obtain e where "read_schema p = Inl e" using schema.truncated_rejected [OF assms(1)] by blast
  then show "\<exists>e. Deserialize p = Inl e" by (simp add: Deserialize_def srun_def)
next
  fix p assume "strict_prefix p (EncodeRow r)"
  then obtain e where "read_row p = Inl e" using row.truncated_rejected [OF assms(2)] by blast
  then show "\<exists>e. DecodeRow p = Inl e" by (simp add: DecodeRow_def srun_def)
qed (rule Deserialize_Serialize [OF assms(1)] DecodeRow_EncodeRow [OF assms(2)])+

theorem sql_storage_roundtrip_witness:
  "DecodeRow (EncodeRow [''7'', '''']) = Inr [''7'', ''''] \<and>
   (\<exists>e. Deserialize (take 6 (Serialize \<lparr>columns = [\<lparr>cd_name = ''id'', cd_type = kInt, primary_key = True, default_value = None\<rparr>]\<rparr>)) = Inl e)"
proof -
  let ?s = "\<lparr>columns = [\<lparr>cd_name = ''id'', cd_type = kInt, primary_key = True, default_value = None\<rparr>]\<rparr>"
  have "schema_fits ?s" "row_fits [''7'', '''']"
    by (simp_all add: schema_fits_def row_fits_def column_fits_def fits32_def)
  moreover have "strict_prefix (take 6 (Serialize ?s)) (Serialize ?s)"
    by (rule strict_prefix_take) (simp add: Serialize_def put_column_def put_string_def)
  ultimately show ?thesis using sql_storage_roundtrip [of ?s "[''7'', '''']"] by blast
qed

end
