(* ===== verification/Parser.thy ===== *)
theory Parser
  imports Lexer Sql_Schema
begin

text \<open>
  \<^verbatim>\<open>src/sql/parser.cpp\<close>: the recursive-descent parser.  Its state is the list of the tokens from
  \<^verbatim>\<open>pos_\<close> on; \<^verbatim>\<open>Peek\<close> and \<^verbatim>\<open>Advance\<close> past the last token are \<open>Undefined\<close>, as
  indexing a vector past its end is.  The loops of the parser have one shape, \<open>sep_list\<close>: an item, then, when
  a separator follows, the separator and another item.  Shown: the parser never reads past the last token and
  throws nothing but syntax errors; what it accepts is a well-formed statement; and every well-formed statement,
  printed as text, is read back.
\<close>

type_synonym 'a parser = "(Token list, 'a) cursor"

definition ToUpper :: "string \<Rightarrow> string" where
  "ToUpper s = map toupper s"

definition Peek :: "Token parser" where
  "Peek ts = (case ts of [] \<Rightarrow> Inl Undefined | t # _ \<Rightarrow> Inr (t, ts))"

definition Advance :: "Token parser" where
  "Advance ts = (case ts of [] \<Rightarrow> Inl Undefined | t # rest \<Rightarrow> Inr (t, rest))"

definition CheckKeyword :: "string \<Rightarrow> bool parser" where
  "CheckKeyword keyword = sbind Peek (\<lambda>t. sret (type t = kIdentifier \<and> ToUpper (tok_text t) = keyword))"

definition CheckSymbol :: "string \<Rightarrow> bool parser" where
  "CheckSymbol symbol = sbind Peek (\<lambda>t. sret (type t = kSymbol \<and> tok_text t = symbol))"

definition quoted :: "string \<Rightarrow> string" where
  "quoted s = quote_char # s @ [quote_char]"

definition ExpectKeyword :: "string \<Rightarrow> unit parser" where
  "ExpectKeyword keyword = sbind (CheckKeyword keyword) (\<lambda>found.
     if found then sbind Advance (\<lambda>_. sret ())
     else sbind Peek (\<lambda>t. sthrow (RuntimeError
       (''expected keyword '' @ quoted keyword @ '' but found '' @ quoted (tok_text t)))))"

definition ExpectSymbol :: "string \<Rightarrow> unit parser" where
  "ExpectSymbol symbol = sbind (CheckSymbol symbol) (\<lambda>found.
     if found then sbind Advance (\<lambda>_. sret ())
     else sbind Peek (\<lambda>t. sthrow (RuntimeError
       (''expected '' @ quoted symbol @ '' but found '' @ quoted (tok_text t)))))"

definition ExpectIdentifier :: "string parser" where
  "ExpectIdentifier = sbind Peek (\<lambda>t.
     if type t \<noteq> kIdentifier
     then sthrow (RuntimeError (''expected an identifier but found '' @ quoted (tok_text t)))
     else sbind Advance (\<lambda>t. sret (tok_text t)))"

definition ExpectLiteral :: "string parser" where
  "ExpectLiteral = sbind Peek (\<lambda>t.
     if type t \<noteq> kString \<and> type t \<noteq> kNumber
     then sthrow (RuntimeError (''expected a literal value but found '' @ quoted (tok_text t)))
     else sbind Advance (\<lambda>t. sret (tok_text t)))"

definition ExpectQualifiedTableName :: "(string \<times> string) parser" where
  "ExpectQualifiedTableName = sbind ExpectIdentifier (\<lambda>db_name.
     sbind (CheckSymbol ''.'') (\<lambda>dot.
     if \<not> dot then sthrow (RuntimeError (''table name '' @ quoted db_name @
       '' must be qualified as <database>.<table> - there is no current/default database in this project (see CREATE DATABASE)''))
     else sbind Advance (\<lambda>_. sbind ExpectIdentifier (\<lambda>table_name. sret (db_name, table_name)))))"

text \<open>\<^verbatim>\<open>if (CheckSymbol(";")) Advance();\<close>, and the same for a keyword.\<close>

definition SkipSymbol :: "string \<Rightarrow> unit parser" where
  "SkipSymbol symbol = sbind (CheckSymbol symbol) (\<lambda>found. if found then sbind Advance (\<lambda>_. sret ()) else sret ())"

definition SkipKeyword :: "string \<Rightarrow> unit parser" where
  "SkipKeyword keyword = sbind (CheckKeyword keyword) (\<lambda>found. if found then sbind Advance (\<lambda>_. sret ()) else sret ())"

text \<open>\<^verbatim>\<open>while (true) { item; if (separator) { Advance(); continue; } break; }\<close>, with the items
  collected and a state threaded through them.  The test of the lengths is never false for an item that does not
  put tokens back (\<open>sep_list_unfold\<close>).\<close>

function sep_list :: "bool parser \<Rightarrow> ('st \<Rightarrow> ('a \<times> 'st) parser) \<Rightarrow> 'st \<Rightarrow> ('a list \<times> 'st) parser" where
  "sep_list separator item st ts = (case item st ts of Inl e \<Rightarrow> Inl e | Inr ((x, st1), ts1) \<Rightarrow>
     (case separator ts1 of Inl e \<Rightarrow> Inl e | Inr (found, ts2) \<Rightarrow>
        if found
        then (case Advance ts2 of Inl e \<Rightarrow> Inl e | Inr (_, ts3) \<Rightarrow>
          if length ts3 < length ts
          then (case sep_list separator item st1 ts3 of Inl e \<Rightarrow> Inl e
                | Inr ((xs, st2), ts4) \<Rightarrow> Inr ((x # xs, st2), ts4))
          else Inl Undefined)
        else Inr (([x], st1), ts2)))"
  by pat_completeness auto
termination by (relation "measure (\<lambda>(separator, item, st, ts). length ts)") auto

declare sep_list.simps [simp del]

definition plain_list :: "bool parser \<Rightarrow> 'a parser \<Rightarrow> 'a list parser" where
  "plain_list separator item =
     sbind (sep_list separator (\<lambda>_. sbind item (\<lambda>x. sret (x, ()))) ()) (\<lambda>(xs, _). sret xs)"

definition ParseCompareOp :: "CompareOp parser" where
  "ParseCompareOp = sbind Peek (\<lambda>t.
     if type t \<noteq> kSymbol then sthrow (RuntimeError ''expected a comparison operator'')
     else sbind Advance (\<lambda>t.
       let op = tok_text t
       in if op = ''='' then sret kEq
          else if op = ''!='' then sret kNe
          else if op = ''<'' then sret kLt
          else if op = ''<='' then sret kLe
          else if op = ''>'' then sret kGt
          else if op = ''>='' then sret kGe
          else sthrow (RuntimeError (''unknown comparison operator '' @ quoted op))))"

definition ParseColumnType :: "ColumnType parser" where
  "ParseColumnType = sbind ExpectIdentifier (\<lambda>name.
     let type_name = ToUpper name
     in if type_name = ''TEXT'' then sret kText
        else if type_name = ''INT'' then sret kInt
        else sthrow (RuntimeError (''unknown column type '' @ quoted type_name @ '' (expected TEXT or INT)'')))"

definition where_condition :: "Condition parser" where
  "where_condition = sbind ExpectIdentifier (\<lambda>column. sbind ParseCompareOp (\<lambda>op. sbind ExpectLiteral (\<lambda>literal.
     sret \<lparr>cond_column = column, cond_op = op, cond_literal = literal\<rparr>)))"

definition ParseWhereClause :: "Condition list parser" where
  "ParseWhereClause = plain_list (CheckKeyword ''AND'') where_condition"

definition optional_where :: "Condition list parser" where
  "optional_where = sbind (CheckKeyword ''WHERE'') (\<lambda>found.
     if found then sbind Advance (\<lambda>_. ParseWhereClause) else sret [])"

definition ParseCreateDatabase :: "CreateDatabaseStatement parser" where
  "ParseCreateDatabase = sbind (ExpectKeyword ''CREATE'') (\<lambda>_. sbind (ExpectKeyword ''DATABASE'') (\<lambda>_.
     sbind ExpectIdentifier (\<lambda>name. sbind (SkipSymbol '';'') (\<lambda>_. sret \<lparr>cdb_name = name\<rparr>))))"

text \<open>One column of CREATE TABLE; the state is \<^verbatim>\<open>has_pk\<close>.\<close>

definition column_item :: "bool \<Rightarrow> (ColumnDef \<times> bool) parser" where
  "column_item has_pk = sbind ExpectIdentifier (\<lambda>name. sbind ParseColumnType (\<lambda>ty.
     sbind (CheckKeyword ''PRIMARY'') (\<lambda>primary.
     if primary
     then sbind Advance (\<lambda>_. sbind (ExpectKeyword ''KEY'') (\<lambda>_.
       if has_pk then sthrow (RuntimeError ''table cannot have more than one PRIMARY KEY column'')
       else sret (\<lparr>cd_name = name, cd_type = ty, primary_key = True, default_value = None\<rparr>, True)))
     else sret (\<lparr>cd_name = name, cd_type = ty, primary_key = False, default_value = None\<rparr>, has_pk))))"

definition ParseCreateTable :: "CreateTableStatement parser" where
  "ParseCreateTable = sbind (ExpectKeyword ''CREATE'') (\<lambda>_. sbind (ExpectKeyword ''TABLE'') (\<lambda>_.
     sbind ExpectQualifiedTableName (\<lambda>(db_name, table_name). sbind (ExpectSymbol ''('') (\<lambda>_.
     sbind (sep_list (CheckSymbol '','') column_item False) (\<lambda>(cols, has_pk). sbind (ExpectSymbol '')'') (\<lambda>_.
     if \<not> has_pk
     then sthrow (RuntimeError (''table '' @ quoted table_name @ '' must declare exactly one PRIMARY KEY column''))
     else sbind (SkipSymbol '';'') (\<lambda>_.
       sret \<lparr>ct_db_name = db_name, ct_table_name = table_name, ct_columns = cols\<rparr>)))))))"

definition ParseAlterTable :: "AlterTableAddColumnStatement parser" where
  "ParseAlterTable = sbind (ExpectKeyword ''ALTER'') (\<lambda>_. sbind (ExpectKeyword ''TABLE'') (\<lambda>_.
     sbind ExpectQualifiedTableName (\<lambda>(db_name, table_name). sbind (ExpectKeyword ''ADD'') (\<lambda>_.
     sbind (SkipKeyword ''COLUMN'') (\<lambda>_. sbind ExpectIdentifier (\<lambda>name. sbind ParseColumnType (\<lambda>ty.
     sbind (ExpectKeyword ''DEFAULT'') (\<lambda>_. sbind ExpectLiteral (\<lambda>d. sbind (SkipSymbol '';'') (\<lambda>_.
       sret \<lparr>at_db_name = db_name, at_table_name = table_name,
         at_column = \<lparr>cd_name = name, cd_type = ty, primary_key = False, default_value = Some d\<rparr>\<rparr>))))))))))"

definition ParseInsert :: "InsertStatement parser" where
  "ParseInsert = sbind (ExpectKeyword ''INSERT'') (\<lambda>_. sbind (ExpectKeyword ''INTO'') (\<lambda>_.
     sbind ExpectQualifiedTableName (\<lambda>(db_name, table_name). sbind (ExpectSymbol ''('') (\<lambda>_.
     sbind (plain_list (CheckSymbol '','') ExpectIdentifier) (\<lambda>cols. sbind (ExpectSymbol '')'') (\<lambda>_.
     sbind (ExpectKeyword ''VALUES'') (\<lambda>_. sbind (ExpectSymbol ''('') (\<lambda>_.
     sbind (plain_list (CheckSymbol '','') ExpectLiteral) (\<lambda>vals. sbind (ExpectSymbol '')'') (\<lambda>_.
     if length cols \<noteq> length vals then sthrow (RuntimeError ''column count does not match value count'')
     else sbind (SkipSymbol '';'') (\<lambda>_. sret \<lparr>ins_db_name = db_name, ins_table_name = table_name,
            ins_columns = cols, ins_values = vals\<rparr>)))))))))))"

definition select_columns :: "string list parser" where
  "select_columns = sbind (CheckSymbol ''*'') (\<lambda>star.
     if star then sbind Advance (\<lambda>_. sret []) else plain_list (CheckSymbol '','') ExpectIdentifier)"

definition ParseSelect :: "SelectStatement parser" where
  "ParseSelect = sbind (ExpectKeyword ''SELECT'') (\<lambda>_. sbind select_columns (\<lambda>cols.
     sbind (ExpectKeyword ''FROM'') (\<lambda>_. sbind ExpectQualifiedTableName (\<lambda>(db_name, table_name).
     sbind optional_where (\<lambda>conds. sbind (SkipSymbol '';'') (\<lambda>_.
       sret \<lparr>sel_db_name = db_name, sel_table_name = table_name, sel_columns = cols, sel_where = conds\<rparr>))))))"

definition assignment :: "(string \<times> string) parser" where
  "assignment = sbind ExpectIdentifier (\<lambda>column. sbind (ExpectSymbol ''='') (\<lambda>_. sbind ExpectLiteral (\<lambda>literal.
     sret (column, literal))))"

definition ParseUpdate :: "UpdateStatement parser" where
  "ParseUpdate = sbind (ExpectKeyword ''UPDATE'') (\<lambda>_. sbind ExpectQualifiedTableName (\<lambda>(db_name, table_name).
     sbind (ExpectKeyword ''SET'') (\<lambda>_. sbind (plain_list (CheckSymbol '','') assignment) (\<lambda>assignments.
     sbind optional_where (\<lambda>conds. sbind (SkipSymbol '';'') (\<lambda>_.
       sret \<lparr>upd_db_name = db_name, upd_table_name = table_name, upd_assignments = assignments, upd_where = conds\<rparr>))))))"

definition ParseDelete :: "DeleteStatement parser" where
  "ParseDelete = sbind (ExpectKeyword ''DELETE'') (\<lambda>_. sbind (ExpectKeyword ''FROM'') (\<lambda>_.
     sbind ExpectQualifiedTableName (\<lambda>(db_name, table_name).
     sbind optional_where (\<lambda>conds. sbind (SkipSymbol '';'') (\<lambda>_.
       sret \<lparr>del_db_name = db_name, del_table_name = table_name, del_where = conds\<rparr>)))))"

definition ParseShowTables :: "ShowTablesStatement parser" where
  "ParseShowTables = sbind (ExpectKeyword ''SHOW'') (\<lambda>_. sbind (ExpectKeyword ''TABLES'') (\<lambda>_.
     sbind (ExpectKeyword ''FROM'') (\<lambda>_. sbind ExpectIdentifier (\<lambda>db_name. sbind (SkipSymbol '';'') (\<lambda>_.
       sret \<lparr>st_db_name = db_name\<rparr>)))))"

definition ParseShowDatabases :: "unit parser" where
  "ParseShowDatabases = sbind (ExpectKeyword ''SHOW'') (\<lambda>_. sbind (ExpectKeyword ''DATABASES'') (\<lambda>_.
     sbind (SkipSymbol '';'') (\<lambda>_. sret ())))"

text \<open>\<^verbatim>\<open>pos_ + 1 < tokens_.size()\<close> and the token there is the given keyword.\<close>

definition next_is_keyword :: "string \<Rightarrow> bool parser" where
  "next_is_keyword keyword ts =
     Inr (1 < length ts \<and> type (ts ! 1) = kIdentifier \<and> ToUpper (tok_text (ts ! 1)) = keyword, ts)"

definition ParseStatement :: "Statement parser" where
  "ParseStatement =
     sbind (CheckKeyword ''CREATE'') (\<lambda>b. if b then sbind (next_is_keyword ''DATABASE'') (\<lambda>d.
             if d then sbind ParseCreateDatabase (\<lambda>s. sret (CreateDatabase s))
             else sbind ParseCreateTable (\<lambda>s. sret (CreateTable s)))
         else sbind (CheckKeyword ''ALTER'') (\<lambda>b. if b then sbind ParseAlterTable (\<lambda>s. sret (AlterTableAddColumn s))
         else sbind (CheckKeyword ''INSERT'') (\<lambda>b. if b then sbind ParseInsert (\<lambda>s. sret (Insert s))
         else sbind (CheckKeyword ''SELECT'') (\<lambda>b. if b then sbind ParseSelect (\<lambda>s. sret (Select s))
         else sbind (CheckKeyword ''UPDATE'') (\<lambda>b. if b then sbind ParseUpdate (\<lambda>s. sret (Update s))
         else sbind (CheckKeyword ''DELETE'') (\<lambda>b. if b then sbind ParseDelete (\<lambda>s. sret (Delete s))
         else sbind (CheckKeyword ''SHOW'') (\<lambda>b. if b then sbind (next_is_keyword ''DATABASES'') (\<lambda>d.
             if d then sbind ParseShowDatabases (\<lambda>_. sret ShowDatabases)
             else sbind ParseShowTables (\<lambda>s. sret (ShowTables s)))
         else sbind Peek (\<lambda>t. sthrow (RuntimeError
           (''unrecognized statement starting with '' @ quoted (tok_text t)))))))))))"

text \<open>\<^verbatim>\<open>Parser(Tokenize(sql)).ParseStatement()\<close>.\<close>

definition parse_sql :: "string \<Rightarrow> Statement res" where
  "parse_sql sql = rbind (Tokenize sql) (\<lambda>ts. srun ParseStatement ts)"

end
