(* ===== verification/Executor.thy ===== *)
theory Executor
  imports Engine Parser
begin

text \<open>
  \<^verbatim>\<open>src/sql/executor.cpp\<close>: databases, tables and rows on the keys of the store, and the execution of each
  statement.  The store is the model of \<^verbatim>\<open>StorageEngine\<close>; a computation over it may throw, and what it wrote
  before stays written.
\<close>

section \<open>Rows and keys\<close>

definition vec_int :: "'a list \<Rightarrow> int \<Rightarrow> 'a res" where
  "vec_int xs i = (if 0 \<le> i then vec_at xs (nat i) else Inl Undefined)"

text \<open>The defaults of the columns from the length of the row on.\<close>

fun pad_with :: "ColumnDef list \<Rightarrow> string list res" where
  "pad_with [] = Inr []"
| "pad_with (c # cs) = rbind (opt_deref (default_value c)) (\<lambda>d. rbind (pad_with cs) (\<lambda>ds. Inr (d # ds)))"

definition PadRow :: "TableSchema \<Rightarrow> string list \<Rightarrow> string list res" where
  "PadRow schema row = rbind (pad_with (drop (length row) (columns schema))) (\<lambda>ds. Inr (row @ ds))"

definition FindPkEquality :: "TableSchema \<Rightarrow> Condition list \<Rightarrow> string option" where
  "FindPkEquality schema conds =
     (let pk_idx = PrimaryKeyIndex schema
      in if pk_idx < 0 then None
         else let pk_name = cd_name (columns schema ! nat pk_idx)
              in map_option cond_literal (find (\<lambda>cond. cond_column cond = pk_name \<and> cond_op cond = kEq) conds))"

definition DatabaseKey :: "string \<Rightarrow> string" where
  "DatabaseKey db_name = ''__database__/'' @ db_name"

definition SchemaKey :: "string \<Rightarrow> string \<Rightarrow> string" where
  "SchemaKey db_name table_name = ''__schema__/'' @ db_name @ ''/'' @ table_name"

definition RowPrefix :: "string \<Rightarrow> string \<Rightarrow> string" where
  "RowPrefix db_name table_name = ''__row__/'' @ db_name @ ''/'' @ table_name @ ''/''"

definition RowKey :: "string \<Rightarrow> string \<Rightarrow> string \<Rightarrow> string" where
  "RowKey db_name table_name pk_value = RowPrefix db_name table_name @ pk_value"

definition RequireDatabaseExists :: "StorageEngine \<Rightarrow> string \<Rightarrow> unit res" where
  "RequireDatabaseExists engine db_name =
     (if eng_Get engine (DatabaseKey db_name) = None then Inl (RuntimeError (''no such database: '' @ db_name)) else Inr ())"

definition LoadSchema :: "StorageEngine \<Rightarrow> string \<Rightarrow> string \<Rightarrow> TableSchema res" where
  "LoadSchema engine db_name table_name = (case eng_Get engine (SchemaKey db_name table_name) of
       None \<Rightarrow> Inl (RuntimeError (''no such table: '' @ db_name @ ''.'' @ table_name))
     | Some blob \<Rightarrow> Deserialize blob)"

section \<open>Literals and conditions\<close>

definition ValidateIntLiteral :: "string \<Rightarrow> string \<Rightarrow> unit res" where
  "ValidateIntLiteral column literal =
     (let msg = ''invalid integer value for column '' @ quoted column
      in if literal = [] then Inl (RuntimeError msg)
         else let start = (if hd literal = CHR ''-'' then 1 else 0)
              in if start = length literal then Inl (RuntimeError msg)
                 else if \<exists>c \<in> set (drop start literal). \<not> isdigit c
                 then Inl (RuntimeError (msg @ '': '' @ quoted literal))
                 else Inr ())"

definition sign :: "'a::linorder \<Rightarrow> 'a \<Rightarrow> int" where
  "sign a b = (if a < b then - 1 else if b < a then 1 else 0)"

definition CompareLiterals :: "ColumnType \<Rightarrow> string \<Rightarrow> CompareOp \<Rightarrow> string \<Rightarrow> bool res" where
  "CompareLiterals ty lhs op rhs =
     rbind (case ty of
         kInt \<Rightarrow> rbind (stoll lhs) (\<lambda>a. rbind (stoll rhs) (\<lambda>b. Inr (sign a b)))
       | kText \<Rightarrow> Inr (sign lhs rhs)) (\<lambda>cmp.
     Inr (case op of kEq \<Rightarrow> cmp = 0 | kNe \<Rightarrow> cmp \<noteq> 0 | kLt \<Rightarrow> cmp < 0 | kLe \<Rightarrow> cmp \<le> 0 | kGt \<Rightarrow> 0 < cmp | kGe \<Rightarrow> 0 \<le> cmp))"

fun MatchesWhere :: "TableSchema \<Rightarrow> string list \<Rightarrow> Condition list \<Rightarrow> bool res" where
  "MatchesWhere schema row [] = Inr True"
| "MatchesWhere schema row (cond # conds) =
     (let idx = ColumnIndex schema (cond_column cond)
      in if idx < 0 then Inl (RuntimeError (''no such column: '' @ cond_column cond))
         else rbind (vec_int row idx) (\<lambda>v.
              rbind (CompareLiterals (cd_type (columns schema ! nat idx)) v (cond_op cond) (cond_literal cond)) (\<lambda>b.
              if \<not> b then Inr False else MatchesWhere schema row conds)))"

section \<open>Statements on the schema\<close>

definition ExecuteCreateDatabase :: "CreateDatabaseStatement \<Rightarrow> (StorageEngine, string) eff" where
  "ExecuteCreateDatabase stmt engine =
     (if eng_Get engine (DatabaseKey (cdb_name stmt)) \<noteq> None
      then (Inl (RuntimeError (''database already exists: '' @ cdb_name stmt)), engine)
      else ebind (eng_Put (DatabaseKey (cdb_name stmt)) []) (\<lambda>_. eret ''OK'') engine)"

definition ExecuteCreateTable :: "CreateTableStatement \<Rightarrow> (StorageEngine, string) eff" where
  "ExecuteCreateTable stmt engine =
     ebind (elift (RequireDatabaseExists engine (ct_db_name stmt))) (\<lambda>_ engine.
       if eng_Get engine (SchemaKey (ct_db_name stmt) (ct_table_name stmt)) \<noteq> None
       then (Inl (RuntimeError (''table already exists: '' @ ct_db_name stmt @ ''.'' @ ct_table_name stmt)), engine)
       else let schema = \<lparr>columns = ct_columns stmt\<rparr>
            in ebind (eng_Put (SchemaKey (ct_db_name stmt) (ct_table_name stmt)) (Serialize schema)) (\<lambda>_. eret ''OK'') engine)
     engine"

definition ExecuteAlterTableAddColumn :: "AlterTableAddColumnStatement \<Rightarrow> (StorageEngine, string) eff" where
  "ExecuteAlterTableAddColumn stmt engine =
     ebind (elift (LoadSchema engine (at_db_name stmt) (at_table_name stmt))) (\<lambda>schema.
       if 0 \<le> ColumnIndex schema (cd_name (at_column stmt))
       then ethrow (RuntimeError (''column already exists: '' @ cd_name (at_column stmt)))
       else case default_value (at_column stmt) of
           None \<Rightarrow> ethrow (RuntimeError ''ALTER TABLE ADD COLUMN requires a DEFAULT value'')
         | Some d \<Rightarrow>
             ebind (elift (if cd_type (at_column stmt) = kInt then ValidateIntLiteral (cd_name (at_column stmt)) d else Inr ()))
               (\<lambda>_. let schema = \<lparr>columns = columns schema @ [at_column stmt]\<rparr>
                    in ebind (eng_Put (SchemaKey (at_db_name stmt) (at_table_name stmt)) (Serialize schema)) (\<lambda>_. eret ''OK'')))
     engine"

section \<open>Statements on rows\<close>

text \<open>The loop of \<^verbatim>\<open>ExecuteInsert\<close> over \<^verbatim>\<open>stmt.columns\<close> and \<^verbatim>\<open>stmt.values\<close>; the state is \<^verbatim>\<open>row\<close> and
  \<^verbatim>\<open>filled\<close>.\<close>

fun fill_row :: "TableSchema \<Rightarrow> string list \<Rightarrow> string list \<Rightarrow> string list \<times> bool list \<Rightarrow> (string list \<times> bool list) res" where
  "fill_row schema [] values st = Inr st"
| "fill_row schema (c # cs) values (row, filled) =
     (let idx = ColumnIndex schema c
      in if idx < 0 then Inl (RuntimeError (''no such column: '' @ c))
         else if filled ! nat idx then Inl (RuntimeError (''column specified twice: '' @ c))
         else rbind (vec_at values 0) (\<lambda>v.
              rbind (if cd_type (columns schema ! nat idx) = kInt then ValidateIntLiteral c v else Inr ()) (\<lambda>_.
              fill_row schema cs (tl values) (row[nat idx := v], filled[nat idx := True]))))"

definition ExecuteInsert :: "InsertStatement \<Rightarrow> (StorageEngine, string) eff" where
  "ExecuteInsert stmt engine =
     ebind (elift (LoadSchema engine (ins_db_name stmt) (ins_table_name stmt))) (\<lambda>schema.
       let n = length (columns schema)
       in if length (ins_columns stmt) \<noteq> n
          then ethrow (RuntimeError (''INSERT must specify all '' @ to_string n @ '' column(s) of table '' @
                 quoted (ins_db_name stmt @ ''.'' @ ins_table_name stmt)))
          else ebind (elift (fill_row schema (ins_columns stmt) (ins_values stmt) (replicate n [], replicate n False)))
                 (\<lambda>(row, _). ebind (elift (vec_int row (PrimaryKeyIndex schema))) (\<lambda>pk engine.
                   let key = RowKey (ins_db_name stmt) (ins_table_name stmt) pk
                   in if eng_Get engine key \<noteq> None
                      then (Inl (RuntimeError (''duplicate primary key: '' @ pk)), engine)
                      else ebind (eng_Put key (EncodeRow row)) (\<lambda>_. eret ''OK'') engine)))
     engine"

text \<open>\<^verbatim>\<open>out << cells[0] << '\t' << cells[1] ...\<close>.\<close>

fun tabbed :: "string list \<Rightarrow> string" where
  "tabbed [] = []"
| "tabbed [x] = x"
| "tabbed (x # y # xs) = x @ CHR 0x09 # tabbed (y # xs)"

definition resolve_columns :: "TableSchema \<Rightarrow> string list \<Rightarrow> (int list \<times> string list) res" where
  "resolve_columns schema cols =
     (if cols = [] then Inr (map int [0..<length (columns schema)], map cd_name (columns schema))
      else rbind (rmap (\<lambda>name. let idx = ColumnIndex schema name
                 in if idx < 0 then Inl (RuntimeError (''no such column: '' @ name)) else Inr idx) cols)
             (\<lambda>projection. Inr (projection, cols)))"

text \<open>A stored row as the current schema sees it.\<close>

definition read_padded :: "TableSchema \<Rightarrow> string \<Rightarrow> string list res" where
  "read_padded schema blob = rbind (DecodeRow blob) (PadRow schema)"

text \<open>The lines of the result: one for each row that matches.\<close>

fun select_rows :: "TableSchema \<Rightarrow> int list \<Rightarrow> Condition list \<Rightarrow> (string \<times> string) list \<Rightarrow> string list res" where
  "select_rows schema projection conds [] = Inr []"
| "select_rows schema projection conds ((key, blob) # kvs) =
     rbind (read_padded schema blob) (\<lambda>row.
     rbind (MatchesWhere schema row conds) (\<lambda>b.
     if \<not> b then select_rows schema projection conds kvs
     else rbind (rmap (vec_int row) projection) (\<lambda>cells.
          rbind (select_rows schema projection conds kvs) (\<lambda>ls. Inr (tabbed cells # ls)))))"

abbreviation newline :: char where
  "newline \<equiv> CHR 0x0A"

definition ExecuteSelect :: "SelectStatement \<Rightarrow> StorageEngine \<Rightarrow> string res" where
  "ExecuteSelect stmt engine =
     rbind (LoadSchema engine (sel_db_name stmt) (sel_table_name stmt)) (\<lambda>schema.
     rbind (resolve_columns schema (sel_columns stmt)) (\<lambda>(projection, headers).
     rbind (select_rows schema projection (sel_where stmt)
              (eng_Scan engine (RowPrefix (sel_db_name stmt) (sel_table_name stmt)))) (\<lambda>ls.
     Inr (tabbed headers @ concat (map (\<lambda>l. newline # l) (if ls = [] then [''(0 rows)''] else ls))))))"

fun resolve_assignments :: "TableSchema \<Rightarrow> int \<Rightarrow> (string \<times> string) list \<Rightarrow> (int \<times> string) list res" where
  "resolve_assignments schema pk_idx [] = Inr []"
| "resolve_assignments schema pk_idx ((column, literal) # as) =
     (let idx = ColumnIndex schema column
      in if idx < 0 then Inl (RuntimeError (''no such column: '' @ column))
         else if idx = pk_idx then Inl (RuntimeError (''cannot update the primary key column: '' @ column))
         else rbind (if cd_type (columns schema ! nat idx) = kInt then ValidateIntLiteral column literal else Inr ()) (\<lambda>_.
              rbind (resolve_assignments schema pk_idx as) (\<lambda>rest. Inr ((idx, literal) # rest))))"

definition assign_row :: "(int \<times> string) list \<Rightarrow> string list \<Rightarrow> string list" where
  "assign_row assignments row = foldl (\<lambda>row (idx, literal). row[nat idx := literal]) row assignments"

fun update_rows ::
  "TableSchema \<Rightarrow> (int \<times> string) list \<Rightarrow> Condition list \<Rightarrow> (string \<times> string) list \<Rightarrow> nat \<Rightarrow> (StorageEngine, nat) eff" where
  "update_rows schema assignments conds [] updated = eret updated"
| "update_rows schema assignments conds ((key, blob) # kvs) updated =
     ebind (elift (read_padded schema blob)) (\<lambda>row.
     ebind (elift (MatchesWhere schema row conds)) (\<lambda>b.
     if \<not> b then update_rows schema assignments conds kvs updated
     else ebind (eng_Put key (EncodeRow (assign_row assignments row))) (\<lambda>_.
          update_rows schema assignments conds kvs (updated + 1))))"

definition ExecuteUpdate :: "UpdateStatement \<Rightarrow> (StorageEngine, string) eff" where
  "ExecuteUpdate stmt engine =
     ebind (elift (LoadSchema engine (upd_db_name stmt) (upd_table_name stmt))) (\<lambda>schema.
     ebind (elift (resolve_assignments schema (PrimaryKeyIndex schema) (upd_assignments stmt))) (\<lambda>assignments engine.
     ebind (update_rows schema assignments (upd_where stmt)
              (eng_Scan engine (RowPrefix (upd_db_name stmt) (upd_table_name stmt))) 0) (\<lambda>updated.
     eret (to_string updated @ '' row(s) updated'')) engine))
     engine"

fun delete_rows ::
  "TableSchema \<Rightarrow> Condition list \<Rightarrow> (string \<times> string) list \<Rightarrow> nat \<Rightarrow> (StorageEngine, nat) eff" where
  "delete_rows schema conds [] deleted = eret deleted"
| "delete_rows schema conds ((key, blob) # kvs) deleted =
     ebind (elift (read_padded schema blob)) (\<lambda>row.
     ebind (elift (MatchesWhere schema row conds)) (\<lambda>b.
     if \<not> b then delete_rows schema conds kvs deleted
     else ebind (eng_Delete key) (\<lambda>_. delete_rows schema conds kvs (deleted + 1))))"

definition ExecuteDelete :: "DeleteStatement \<Rightarrow> (StorageEngine, string) eff" where
  "ExecuteDelete stmt engine =
     ebind (elift (LoadSchema engine (del_db_name stmt) (del_table_name stmt))) (\<lambda>schema engine.
     ebind (delete_rows schema (del_where stmt)
              (eng_Scan engine (RowPrefix (del_db_name stmt) (del_table_name stmt))) 0) (\<lambda>deleted.
     eret (to_string deleted @ '' row(s) deleted'')) engine)
     engine"

definition list_names :: "string \<Rightarrow> string \<Rightarrow> (string \<times> string) list \<Rightarrow> string" where
  "list_names header pre kvs =
     header @ (if kvs = [] then newline # ''(0 rows)''
               else concat (map (\<lambda>(key, blob). newline # drop (length pre) key) kvs))"

definition ExecuteShowTables :: "ShowTablesStatement \<Rightarrow> StorageEngine \<Rightarrow> string res" where
  "ExecuteShowTables stmt engine =
     rbind (RequireDatabaseExists engine (st_db_name stmt)) (\<lambda>_.
       let schema_prefix = ''__schema__/'' @ st_db_name stmt @ ''/''
       in Inr (list_names ''table'' schema_prefix (eng_Scan engine schema_prefix)))"

definition ExecuteShowDatabases :: "StorageEngine \<Rightarrow> string res" where
  "ExecuteShowDatabases engine = Inr (list_names ''database'' ''__database__/'' (eng_Scan engine ''__database__/''))"

section \<open>Execute\<close>

text \<open>A statement that only reads leaves the store as it is.\<close>

definition reading :: "(StorageEngine \<Rightarrow> string res) \<Rightarrow> (StorageEngine, string) eff" where
  "reading f engine = (f engine, engine)"

fun ExecuteStatement :: "Statement \<Rightarrow> (StorageEngine, string) eff" where
  "ExecuteStatement (CreateDatabase s) = ExecuteCreateDatabase s"
| "ExecuteStatement (CreateTable s) = ExecuteCreateTable s"
| "ExecuteStatement (AlterTableAddColumn s) = ExecuteAlterTableAddColumn s"
| "ExecuteStatement (Insert s) = ExecuteInsert s"
| "ExecuteStatement (Select s) = reading (ExecuteSelect s)"
| "ExecuteStatement (Update s) = ExecuteUpdate s"
| "ExecuteStatement (ShowTables s) = reading (ExecuteShowTables s)"
| "ExecuteStatement ShowDatabases = reading ExecuteShowDatabases"
| "ExecuteStatement (Delete s) = ExecuteDelete s"

definition Execute :: "string \<Rightarrow> (StorageEngine, string) eff" where
  "Execute sql = ebind (elift (parse_sql sql)) ExecuteStatement"

text \<open>\<^verbatim>\<open>catch (...) { return std::nullopt; }\<close>.\<close>

definition catch_all :: "'a option res \<Rightarrow> 'a option res" where
  "catch_all r = (case r of Inl Undefined \<Rightarrow> Inl Undefined | Inl _ \<Rightarrow> Inr None | Inr x \<Rightarrow> Inr x)"

definition pinned_row :: "StorageEngine \<Rightarrow> string \<Rightarrow> string \<Rightarrow> Condition list \<Rightarrow> string option res" where
  "pinned_row engine db_name table_name conds = rbind (LoadSchema engine db_name table_name) (\<lambda>schema.
     Inr (map_option (RowKey db_name table_name) (FindPkEquality schema conds)))"

fun TryExtractRowKey :: "StorageEngine \<Rightarrow> Statement \<Rightarrow> string option res" where
  "TryExtractRowKey engine (Insert s) = catch_all
     (rbind (LoadSchema engine (ins_db_name s) (ins_table_name s)) (\<lambda>schema.
      rbind (vec_int (columns schema) (PrimaryKeyIndex schema)) (\<lambda>pk.
        case find (\<lambda>(c, i). c = cd_name pk) (zip (ins_columns s) [0..<length (ins_columns s)]) of
          None \<Rightarrow> Inr None
        | Some (_, i) \<Rightarrow> rbind (vec_at (ins_values s) i) (\<lambda>v. Inr (Some (RowKey (ins_db_name s) (ins_table_name s) v))))))"
| "TryExtractRowKey engine (Select s) = catch_all (pinned_row engine (sel_db_name s) (sel_table_name s) (sel_where s))"
| "TryExtractRowKey engine (Update s) = catch_all (pinned_row engine (upd_db_name s) (upd_table_name s) (upd_where s))"
| "TryExtractRowKey engine (Delete s) = catch_all (pinned_row engine (del_db_name s) (del_table_name s) (del_where s))"
| "TryExtractRowKey engine stmt = Inr None"

end
