(* ===== verification/Sql_Store.thy ===== *)
theory Sql_Store
  imports Executor
begin

text \<open>
  What a statement does, as a function of the contents of the store alone.  \<open>contents e\<close> is the ordered map that a
  scan of everything gives; \<open>stmt_plan\<close> computes, from the contents, the writes of a statement and its answer.
  Executing a statement on the store of tables, log and memtable is performing its plan: the answer and the new
  contents do not depend on how the contents are spread over memtable and tables.  Hence replicas that hold the same
  contents and apply the same commands stay equal.
\<close>

type_synonym kv = "(string, string) omap"

definition contents :: "StorageEngine \<Rightarrow> kv" where
  "contents e = eng_Scan e []"

definition kv_scan :: "kv \<Rightarrow> string \<Rightarrow> (string \<times> string) list" where
  "kv_scan m p = filter (\<lambda>kv. StartsWith (fst kv) p) m"

fun kv_apply :: "kv \<Rightarrow> store_op \<Rightarrow> kv" where
  "kv_apply m (OpPut k v) = omap_set k v m"
| "kv_apply m (OpDelete k) = omap_erase k m"

abbreviation ops_cost :: "store_op list \<Rightarrow> nat" where
  "ops_cost ops \<equiv> sum_list (map op_cost ops)"

section \<open>Plans\<close>

type_synonym 'a plan = "store_op list \<times> 'a res"

definition pbind :: "'a res \<Rightarrow> ('a \<Rightarrow> 'b plan) \<Rightarrow> 'b plan" where
  "pbind r f = (case r of Inl e \<Rightarrow> ([], Inl e) | Inr x \<Rightarrow> f x)"

definition pmap :: "('a \<Rightarrow> 'b) \<Rightarrow> 'a plan \<Rightarrow> 'b plan" where
  "pmap f p = (fst p, rbind (snd p) (\<lambda>x. Inr (f x)))"

definition kv_RequireDatabase :: "kv \<Rightarrow> string \<Rightarrow> unit res" where
  "kv_RequireDatabase m d =
     (if omap_find (DatabaseKey d) m = None then Inl (RuntimeError (''no such database: '' @ d)) else Inr ())"

definition kv_LoadSchema :: "kv \<Rightarrow> string \<Rightarrow> string \<Rightarrow> TableSchema res" where
  "kv_LoadSchema m d t = (case omap_find (SchemaKey d t) m of
       None \<Rightarrow> Inl (RuntimeError (''no such table: '' @ d @ ''.'' @ t))
     | Some blob \<Rightarrow> Deserialize blob)"

text \<open>The loop over rows, with what is done to a row that matches.\<close>

fun rows_plan :: "TableSchema \<Rightarrow> Condition list \<Rightarrow> (string \<Rightarrow> string list \<Rightarrow> store_op) \<Rightarrow> (string \<times> string) list \<Rightarrow> nat \<Rightarrow> nat plan" where
  "rows_plan schema conds act [] n = ([], Inr n)"
| "rows_plan schema conds act ((key, blob) # kvs) n =
     pbind (read_padded schema blob) (\<lambda>row. pbind (MatchesWhere schema row conds) (\<lambda>b.
     if \<not> b then rows_plan schema conds act kvs n
     else let (ops, r) = rows_plan schema conds act kvs (n + 1) in (act key row # ops, r)))"

fun stmt_plan :: "Statement \<Rightarrow> kv \<Rightarrow> string plan" where
  "stmt_plan (CreateDatabase s) m =
     (if omap_find (DatabaseKey (cdb_name s)) m \<noteq> None
      then ([], Inl (RuntimeError (''database already exists: '' @ cdb_name s)))
      else ([OpPut (DatabaseKey (cdb_name s)) []], Inr ''OK''))"
| "stmt_plan (CreateTable s) m =
     pbind (kv_RequireDatabase m (ct_db_name s)) (\<lambda>_.
       if omap_find (SchemaKey (ct_db_name s) (ct_table_name s)) m \<noteq> None
       then ([], Inl (RuntimeError (''table already exists: '' @ ct_db_name s @ ''.'' @ ct_table_name s)))
       else ([OpPut (SchemaKey (ct_db_name s) (ct_table_name s)) (Serialize \<lparr>columns = ct_columns s\<rparr>)], Inr ''OK''))"
| "stmt_plan (AlterTableAddColumn s) m =
     pbind (kv_LoadSchema m (at_db_name s) (at_table_name s)) (\<lambda>schema.
       if 0 \<le> ColumnIndex schema (cd_name (at_column s))
       then ([], Inl (RuntimeError (''column already exists: '' @ cd_name (at_column s))))
       else case default_value (at_column s) of
           None \<Rightarrow> ([], Inl (RuntimeError ''ALTER TABLE ADD COLUMN requires a DEFAULT value''))
         | Some d \<Rightarrow> pbind (if cd_type (at_column s) = kInt then ValidateIntLiteral (cd_name (at_column s)) d else Inr ()) (\<lambda>_.
             ([OpPut (SchemaKey (at_db_name s) (at_table_name s)) (Serialize \<lparr>columns = columns schema @ [at_column s]\<rparr>)], Inr ''OK'')))"
| "stmt_plan (Insert s) m =
     pbind (kv_LoadSchema m (ins_db_name s) (ins_table_name s)) (\<lambda>schema.
       let n = length (columns schema)
       in if length (ins_columns s) \<noteq> n
          then ([], Inl (RuntimeError (''INSERT must specify all '' @ to_string n @ '' column(s) of table '' @
                 quoted (ins_db_name s @ ''.'' @ ins_table_name s))))
          else pbind (fill_row schema (ins_columns s) (ins_values s) (replicate n [], replicate n False)) (\<lambda>(row, _).
            pbind (vec_int row (PrimaryKeyIndex schema)) (\<lambda>pk.
              let key = RowKey (ins_db_name s) (ins_table_name s) pk
              in if omap_find key m \<noteq> None then ([], Inl (RuntimeError (''duplicate primary key: '' @ pk)))
                 else ([OpPut key (EncodeRow row)], Inr ''OK''))))"
| "stmt_plan (Select s) m = ([],
     rbind (kv_LoadSchema m (sel_db_name s) (sel_table_name s)) (\<lambda>schema.
     rbind (resolve_columns schema (sel_columns s)) (\<lambda>(projection, headers).
     rbind (select_rows schema projection (sel_where s) (kv_scan m (RowPrefix (sel_db_name s) (sel_table_name s)))) (\<lambda>ls.
     Inr (tabbed headers @ concat (map (\<lambda>l. newline # l) (if ls = [] then [''(0 rows)''] else ls)))))))"
| "stmt_plan (Update s) m =
     pbind (kv_LoadSchema m (upd_db_name s) (upd_table_name s)) (\<lambda>schema.
     pbind (resolve_assignments schema (PrimaryKeyIndex schema) (upd_assignments s)) (\<lambda>assignments.
       pmap (\<lambda>n. to_string n @ '' row(s) updated'')
         (rows_plan schema (upd_where s) (\<lambda>key row. OpPut key (EncodeRow (assign_row assignments row)))
            (kv_scan m (RowPrefix (upd_db_name s) (upd_table_name s))) 0)))"
| "stmt_plan (Delete s) m =
     pbind (kv_LoadSchema m (del_db_name s) (del_table_name s)) (\<lambda>schema.
       pmap (\<lambda>n. to_string n @ '' row(s) deleted'')
         (rows_plan schema (del_where s) (\<lambda>key row. OpDelete key)
            (kv_scan m (RowPrefix (del_db_name s) (del_table_name s))) 0))"
| "stmt_plan (ShowTables s) m = ([], rbind (kv_RequireDatabase m (st_db_name s)) (\<lambda>_.
     let schema_prefix = ''__schema__/'' @ st_db_name s @ ''/''
     in Inr (list_names ''table'' schema_prefix (kv_scan m schema_prefix))))"
| "stmt_plan ShowDatabases m = ([], Inr (list_names ''database'' ''__database__/'' (kv_scan m ''__database__/'')))"

definition sql_plan :: "string \<Rightarrow> kv \<Rightarrow> string plan" where
  "sql_plan sql m = pbind (parse_sql sql) (\<lambda>stmt. stmt_plan stmt m)"

text \<open>Performing a plan on the store: an exception of the store comes before the answer.\<close>

definition perform :: "'a plan \<Rightarrow> (StorageEngine, 'a) eff" where
  "perform p = ebind (efor (fst p) (store_do eng_Put eng_Delete)) (\<lambda>_. elift (snd p))"

section \<open>Contents\<close>

lemma contents_ok: "eng_ok e \<Longrightarrow> omap_ok (contents e)"
  by (simp add: contents_def eng.scan_ok)

lemma map_of_contents: "eng_ok e \<Longrightarrow> map_of (contents e) = eng_view e"
  by (rule ext) (simp add: contents_def eng.scan_view)

lemma Get_contents: "eng_ok e \<Longrightarrow> eng_Get e k = omap_find k (contents e)"
  by (simp add: omap_find_def map_of_contents eng.get_view)

lemma Scan_contents: "eng_ok e \<Longrightarrow> eng_Scan e p = kv_scan (contents e) p"
proof (rule omap_ext)
  assume ok: "eng_ok e"
  then show "omap_ok (eng_Scan e p)" "omap_ok (kv_scan (contents e) p)"
    by (simp_all add: eng.scan_ok kv_scan_def omap_ok_filter contents_ok)
  show "map_of (eng_Scan e p) = map_of (kv_scan (contents e) p)"
    using ok map_of_filter_key [of "\<lambda>k. StartsWith k p" "contents e"]
    by (auto simp: fun_eq_iff kv_scan_def eng.scan_view map_of_contents contents_ok)
qed

lemma kv_apply_ok: "omap_ok m \<Longrightarrow> omap_ok (kv_apply m x)"
  by (cases x) auto

lemma foldl_kv_apply_ok: "omap_ok m \<Longrightarrow> omap_ok (foldl kv_apply m ops)"
  by (induction ops arbitrary: m) (auto simp: kv_apply_ok)

lemma map_of_kv_apply: "omap_ok m \<Longrightarrow> map_of (kv_apply m x) = spec_op (map_of m) x"
  by (cases x) auto

lemma map_of_foldl_kv_apply: "omap_ok m \<Longrightarrow> map_of (foldl kv_apply m ops) = foldl spec_op (map_of m) ops"
  by (induction ops arbitrary: m) (auto simp: kv_apply_ok map_of_kv_apply)

lemma perform_spec:
  assumes "eng_ok e" and "eng_used e + ops_cost (fst p) < eng_cap"
  shows "\<exists>e'. perform p e = (snd p, e') \<and> eng_ok e' \<and> contents e' = foldl kv_apply (contents e) (fst p) \<and>
    eng_used e' \<le> eng_used e + ops_cost (fst p)"
proof -
  obtain e' where e': "efor (fst p) (store_do eng_Put eng_Delete) e = (Inr (), e')" "eng_ok e'"
    "eng_view e' = foldl spec_op (eng_view e) (fst p)" "eng_used e' \<le> eng_used e + ops_cost (fst p)"
    using eng.ops_spec [OF assms] by blast
  have "contents e' = foldl kv_apply (contents e) (fst p)"
    using assms(1) e'(2,3)
    by (intro omap_ext) (simp_all add: contents_ok foldl_kv_apply_ok map_of_foldl_kv_apply map_of_contents)
  with e' show ?thesis by (simp add: perform_def)
qed

section \<open>Executing is performing the plan\<close>

lemma perform_pbind: "perform (pbind r f) e = (case r of Inl x \<Rightarrow> (Inl x, e) | Inr x \<Rightarrow> perform (f x) e)"
  by (cases r) (simp_all add: pbind_def perform_def)

lemma perform_Nil [simp]: "perform ([], r) e = (r, e)"
  by (simp add: perform_def)

lemma perform_Cons: "perform (x # ops, r) = ebind (store_do eng_Put eng_Delete x) (\<lambda>_. perform (ops, r))"
  by (simp add: perform_def fun_eq_iff ebind_def split: prod.split sum.split)

lemma perform_pmap: "ebind (perform p) (\<lambda>n. eret (f n)) = perform (pmap f p)"
  by (auto simp: perform_def pmap_def fun_eq_iff ebind_def rbind_def elift_def split: prod.split sum.split)

lemma elift_bind: "ebind (elift r) f e = (case r of Inl x \<Rightarrow> (Inl x, e) | Inr x \<Rightarrow> f x e)"
  by (cases r) simp_all

lemma update_rows_plan:
  "update_rows schema as conds kvs n e =
     perform (rows_plan schema conds (\<lambda>key row. OpPut key (EncodeRow (assign_row as row))) kvs n) e"
proof (induction kvs arbitrary: n e)
  case (Cons kv kvs)
  obtain key blob where kv: "kv = (key, blob)" by (cases kv)
  have "update_rows schema as conds kvs n =
     perform (rows_plan schema conds (\<lambda>key row. OpPut key (EncodeRow (assign_row as row))) kvs n)" for n
    by (rule ext) (rule Cons.IH)
  then show ?case
    by (auto simp: kv elift_bind perform_pbind perform_Cons case_prod_beta split: sum.split)
qed simp

lemma delete_rows_plan:
  "delete_rows schema conds kvs n e = perform (rows_plan schema conds (\<lambda>key row. OpDelete key) kvs n) e"
proof (induction kvs arbitrary: n e)
  case (Cons kv kvs)
  obtain key blob where kv: "kv = (key, blob)" by (cases kv)
  have "delete_rows schema conds kvs n = perform (rows_plan schema conds (\<lambda>key row. OpDelete key) kvs n)" for n
    by (rule ext) (rule Cons.IH)
  then show ?case
    by (auto simp: kv elift_bind perform_pbind perform_Cons case_prod_beta split: sum.split)
qed simp

lemma ExecuteStatement_plan:
  assumes "eng_ok e"
  shows "ExecuteStatement stmt e = perform (stmt_plan stmt (contents e)) e"
proof -
  note reads = Get_contents [OF assms] Scan_contents [OF assms]
  have load: "LoadSchema e d t = kv_LoadSchema (contents e) d t" for d t
    by (simp add: LoadSchema_def kv_LoadSchema_def reads)
  have req: "RequireDatabaseExists e d = kv_RequireDatabase (contents e) d" for d
    by (simp add: RequireDatabaseExists_def kv_RequireDatabase_def reads)
  have upd: "update_rows schema as conds kvs n =
     perform (rows_plan schema conds (\<lambda>key row. OpPut key (EncodeRow (assign_row as row))) kvs n)" for schema as conds kvs n
    by (rule ext) (rule update_rows_plan)
  have del: "delete_rows schema conds kvs n = perform (rows_plan schema conds (\<lambda>key row. OpDelete key) kvs n)" for schema conds kvs n
    by (rule ext) (rule delete_rows_plan)
  note defs = ExecuteCreateDatabase_def ExecuteCreateTable_def ExecuteAlterTableAddColumn_def ExecuteInsert_def
    ExecuteSelect_def ExecuteUpdate_def ExecuteDelete_def ExecuteShowTables_def ExecuteShowDatabases_def reading_def
  have put: "perform ([OpPut k v], Inr x) = ebind (eng_Put k v) (\<lambda>_. eret x)" for k v and x :: string
    by (simp add: perform_Cons fun_eq_iff ebind_def split: prod.split sum.split)
  show ?thesis
    by (cases stmt)
      (simp_all add: defs reads load req upd del elift_bind perform_pbind perform_pmap put Let_def
        split: sum.split option.split prod.split, auto)
qed

lemma Execute_plan: "eng_ok e \<Longrightarrow> Execute sql e = perform (sql_plan sql (contents e)) e"
  by (auto simp: Execute_def sql_plan_def elift_bind perform_pbind ExecuteStatement_plan split: sum.split)

section \<open>Refinement and agreement\<close>

text \<open>A list of commands, each answered (with its result or its exception) before the next.\<close>

fun run_sql :: "string list \<Rightarrow> StorageEngine \<Rightarrow> string res list \<times> StorageEngine" where
  "run_sql [] e = ([], e)"
| "run_sql (sql # sqls) e =
     (let (r, e1) = Execute sql e; (rs, e2) = run_sql sqls e1 in (r # rs, e2))"

fun plan_all :: "string list \<Rightarrow> kv \<Rightarrow> string res list \<times> store_op list" where
  "plan_all [] m = ([], [])"
| "plan_all (sql # sqls) m =
     (let (ops, r) = sql_plan sql m; (rs, more) = plan_all sqls (foldl kv_apply m ops) in (r # rs, ops @ more))"

lemma run_sql_plan:
  assumes "eng_ok e" and "eng_used e + ops_cost (snd (plan_all sqls (contents e))) < eng_cap"
  shows "\<exists>e'. run_sql sqls e = (fst (plan_all sqls (contents e)), e') \<and> eng_ok e' \<and>
    contents e' = foldl kv_apply (contents e) (snd (plan_all sqls (contents e)))"
  using assms
proof (induction sqls arbitrary: e)
  case (Cons sql sqls)
  obtain ops r where p: "sql_plan sql (contents e) = (ops, r)" by (cases "sql_plan sql (contents e)")
  obtain rs more where q: "plan_all sqls (foldl kv_apply (contents e) ops) = (rs, more)"
    by (cases "plan_all sqls (foldl kv_apply (contents e) ops)")
  have "eng_used e + ops_cost ops < eng_cap" using Cons.prems(2) by (simp add: p q)
  then obtain e1 where e1: "Execute sql e = (r, e1)" "eng_ok e1" "contents e1 = foldl kv_apply (contents e) ops"
    "eng_used e1 \<le> eng_used e + ops_cost ops"
    using perform_spec [OF Cons.prems(1), of "(ops, r)"] by (auto simp: Execute_plan [OF Cons.prems(1)] p)
  have "eng_used e1 + ops_cost (snd (plan_all sqls (contents e1))) < eng_cap"
    using Cons.prems(2) e1(4) by (simp add: p q e1(3))
  from Cons.IH [OF e1(2) this] obtain e2 where "run_sql sqls e1 = (rs, e2)" "eng_ok e2"
    "contents e2 = foldl kv_apply (contents e1) more" by (auto simp: e1(3) q)
  then show ?case using e1 by (simp add: p q)
qed simp

text \<open>Two replicas whose stores hold the same keys and values, however these are spread over memtable and tables,
  answer every sequence of SQL commands alike, exceptions included, and hold the same keys and values afterwards,
  as long as the store has room for what the commands write.\<close>

theorem sql_replicas_agree:
  assumes "eng_ok e1" and "eng_ok e2" and "eng_Get e1 = eng_Get e2"
    and "eng_used e1 + ops_cost (snd (plan_all sqls (contents e1))) < eng_cap"
    and "eng_used e2 + ops_cost (snd (plan_all sqls (contents e2))) < eng_cap"
  shows "fst (run_sql sqls e1) = fst (run_sql sqls e2) \<and>
    eng_Get (snd (run_sql sqls e1)) = eng_Get (snd (run_sql sqls e2)) \<and>
    eng_Scan (snd (run_sql sqls e1)) = eng_Scan (snd (run_sql sqls e2))"
proof -
  have "eng_view e1 = eng_view e2"
    using assms(1-3) eng.get_view [of e1] eng.get_view [of e2] by (simp add: fun_eq_iff)
  then have c: "contents e1 = contents e2"
    using assms(1,2) by (intro omap_ext) (simp_all add: contents_ok map_of_contents)
  obtain f1 f2 where f: "run_sql sqls e1 = (fst (plan_all sqls (contents e1)), f1)"
    "run_sql sqls e2 = (fst (plan_all sqls (contents e2)), f2)" "eng_ok f1" "eng_ok f2" "contents f1 = contents f2"
    using run_sql_plan [OF assms(1,4)] run_sql_plan [OF assms(2,5)] c by auto
  then show ?thesis using c by (simp add: fun_eq_iff Get_contents Scan_contents)
qed

text \<open>An empty store, and one whose log and memtable hold a tombstone; two commands, the second of which fails.\<close>

lemma contents_empty: "contents eng_empty = []"
  by (rule omap_ext) (simp_all add: contents_ok eng_ok_empty map_of_contents)

lemma plan_all_example:
  "plan_all [''CREATE DATABASE d'', ''SELECT * FROM d.t''] [] =
     ([Inr ''OK'', Inl (RuntimeError ''no such table: d.t'')], [OpPut ''__database__/d'' []])"
  by code_simp

theorem sql_replicas_agree_witness:
  "\<exists>e2. eng_Delete ''k'' eng_empty = (Inr (), e2) \<and>
     fst (run_sql [''CREATE DATABASE d'', ''SELECT * FROM d.t''] eng_empty) =
     fst (run_sql [''CREATE DATABASE d'', ''SELECT * FROM d.t''] e2)"
proof -
  obtain e2 where e2: "eng_Delete ''k'' eng_empty = (Inr (), e2)" "eng_ok e2" "eng_view e2 = (eng_view eng_empty)(''k'' := None)"
    "eng_used e2 \<le> eng_used eng_empty + delete_cost ''k''"
    using eng.del_spec [OF eng_ok_empty, of "''k''"] by (auto simp: delete_cost_def eng_cap_def)
  have v: "eng_view e2 = eng_view eng_empty" using e2(3) by (simp add: fun_eq_iff)
  then have "contents e2 = []"
    using e2(2) by (intro omap_ext) (simp_all add: contents_ok map_of_contents)
  moreover have "eng_Get eng_empty = eng_Get e2"
    using v e2(2) by (simp add: fun_eq_iff eng.get_view eng_ok_empty)
  ultimately show ?thesis
    using e2(1,2,4) sql_replicas_agree [OF eng_ok_empty e2(2), of "[''CREATE DATABASE d'', ''SELECT * FROM d.t'']"]
    by (simp add: contents_empty plan_all_example put_cost_def delete_cost_def eng_cap_def del: plan_all.simps run_sql.simps)
qed

end
