(* ===== verification/Sql_Text.thy ===== *)
theory Sql_Text
  imports Parser
begin

text \<open>
  What the tokenizer and the parser do together.  \<open>yields m Q\<close> says that from a token list as the tokenizer
  makes it, \<open>m\<close> either throws a syntax error or leaves such a list and a result in \<open>Q\<close>: the parser stays
  within the list.  \<open>reads F m xs x\<close> says that \<open>m\<close> turns the lexemes \<open>xs\<close> into \<open>x\<close> when what
  follows is in \<open>F\<close>; the printed form of every well-formed statement is read back.
\<close>

section \<open>The parser stays within the tokens\<close>

fun tokens_ok :: "Token list \<Rightarrow> bool" where
  "tokens_ok [] \<longleftrightarrow> False"
| "tokens_ok (t # ts) \<longleftrightarrow> (type t = kIdentifier \<longrightarrow> is_ident (tok_text t)) \<and> (type t = kEnd \<longleftrightarrow> ts = []) \<and> (ts = [] \<or> tokens_ok ts)"

definition yields :: "'a parser \<Rightarrow> ('a \<Rightarrow> bool) \<Rightarrow> bool" where
  "yields m Q \<longleftrightarrow> (\<forall>ts. tokens_ok ts \<longrightarrow> (case m ts of Inl e \<Rightarrow> \<exists>msg. e = RuntimeError msg
     | Inr (x, ts') \<Rightarrow> tokens_ok ts' \<and> length ts' \<le> length ts \<and> Q x))"

named_theorems yields_intros \<open>parsers that stay within the tokens\<close>

lemma yieldsI:
  assumes "\<And>t ts. tokens_ok (t # ts) \<Longrightarrow> (case m (t # ts) of Inl e \<Rightarrow> \<exists>msg. e = RuntimeError msg
     | Inr (x, ts') \<Rightarrow> tokens_ok ts' \<and> length ts' \<le> length (t # ts) \<and> Q x)"
  shows "yields m Q"
  unfolding yields_def
proof (intro allI impI)
  fix ts assume "tokens_ok ts"
  then obtain t us where "ts = t # us" by (cases ts) auto
  then show "case m ts of Inl e \<Rightarrow> \<exists>msg. e = RuntimeError msg
     | Inr (x, ts') \<Rightarrow> tokens_ok ts' \<and> length ts' \<le> length ts \<and> Q x" using assms \<open>tokens_ok ts\<close> by blast
qed

lemma yieldsD: "yields m Q \<Longrightarrow> tokens_ok ts \<Longrightarrow> m ts = Inr (x, ts') \<Longrightarrow> tokens_ok ts' \<and> length ts' \<le> length ts \<and> Q x"
  by (fastforce simp: yields_def)

lemma yieldsE: "yields m Q \<Longrightarrow> tokens_ok ts \<Longrightarrow> m ts = Inl e \<Longrightarrow> \<exists>msg. e = RuntimeError msg"
  by (fastforce simp: yields_def)

lemma yields_mono: "yields m P \<Longrightarrow> (\<And>x. P x \<Longrightarrow> Q x) \<Longrightarrow> yields m Q"
  by (fastforce simp: yields_def split: sum.splits)

lemma yields_ret: "Q x \<Longrightarrow> yields (sret x) Q"
  by (simp add: yields_def)

lemma yields_throw: "yields (sthrow (RuntimeError msg)) Q"
  by (simp add: yields_def)

lemma yields_bind:
  assumes "yields m P" and "\<And>x. P x \<Longrightarrow> yields (f x) Q"
  shows "yields (sbind m f) Q"
  unfolding yields_def
proof (intro allI impI)
  fix ts assume ok: "tokens_ok ts"
  show "case sbind m f ts of Inl e \<Rightarrow> \<exists>msg. e = RuntimeError msg
     | Inr (x, ts') \<Rightarrow> tokens_ok ts' \<and> length ts' \<le> length ts \<and> Q x"
  proof (cases "m ts")
    case (Inl e)
    then show ?thesis using yieldsE [OF assms(1) ok] by simp
  next
    case (Inr r)
    obtain x ts1 where r: "r = (x, ts1)" by (cases r)
    note m = yieldsD [OF assms(1) ok Inr [unfolded r]]
    from assms(2) [of x] m have "yields (f x) Q" by simp
    with m show ?thesis unfolding yields_def by (fastforce simp: Inr r split: sum.splits)
  qed
qed

lemma yields_check:
  "yields Peek (\<lambda>_. True)" "yields (CheckKeyword k) (\<lambda>_. True)" "yields (CheckSymbol s) (\<lambda>_. True)"
  "yields (next_is_keyword k) (\<lambda>_. True)"
  by (rule yieldsI, simp add: CheckKeyword_def CheckSymbol_def Peek_def sbind_def next_is_keyword_def)+

text \<open>A token that passed a check is not the end marker, so it may be taken.\<close>

lemma check_Advance:
  assumes "tokens_ok (t # ts)" and "type t \<noteq> kEnd"
  shows "Advance (t # ts) = Inr (t, ts)" "tokens_ok ts"
  using assms by (auto simp: Advance_def)

definition looks :: "bool parser \<Rightarrow> (lexeme \<Rightarrow> bool) \<Rightarrow> bool" where
  "looks c p \<longleftrightarrow> (\<forall>t ts. c (t # ts) = Inr (p (lexeme_of t), t # ts))"

abbreviation is_keyword :: "string \<Rightarrow> lexeme \<Rightarrow> bool" where
  "is_keyword k x \<equiv> fst x = kIdentifier \<and> ToUpper (snd x) = k"

lemma looks_check:
  "looks (CheckKeyword k) (is_keyword k)" "looks (CheckSymbol s) (\<lambda>x. x = (kSymbol, s))"
  by (auto simp: looks_def CheckKeyword_def CheckSymbol_def Peek_def lexeme_of_def)

definition no_end :: "(lexeme \<Rightarrow> bool) \<Rightarrow> bool" where
  "no_end p \<longleftrightarrow> (\<forall>x. p x \<longrightarrow> fst x \<noteq> kEnd)"

lemma no_end_check [simp]: "no_end (is_keyword k)" "no_end (\<lambda>x. x = (kSymbol, s))"
  by (auto simp: no_end_def)

lemma yields_take_if:
  assumes c: "looks c p" "no_end p" and m: "yields m Q" and n: "yields n Q"
  shows "yields (sbind c (\<lambda>b. if b then sbind Advance (\<lambda>_. m) else n)) Q"
proof (rule yieldsI)
  fix t ts assume ok: "tokens_ok (t # ts)"
  have c1: "c (t # ts) = Inr (p (lexeme_of t), t # ts)" using c(1) by (simp add: looks_def)
  show "case sbind c (\<lambda>b. if b then sbind Advance (\<lambda>_. m) else n) (t # ts) of Inl e \<Rightarrow> \<exists>msg. e = RuntimeError msg
     | Inr (x, ts') \<Rightarrow> tokens_ok ts' \<and> length ts' \<le> length (t # ts) \<and> Q x"
  proof (cases "p (lexeme_of t)")
    case True
    then have "type t \<noteq> kEnd" using c(2) by (auto simp: no_end_def lexeme_of_def)
    note a = check_Advance [OF ok this]
    from m a(2) have "case m ts of Inl e \<Rightarrow> \<exists>msg. e = RuntimeError msg
     | Inr (x, ts') \<Rightarrow> tokens_ok ts' \<and> length ts' \<le> length ts \<and> Q x" unfolding yields_def by blast
    then show ?thesis using True c1 a(1) by (auto split: sum.splits)
  next
    case False
    with n ok show ?thesis unfolding yields_def by (simp add: c1)
  qed
qed

lemma yields_take:
  assumes "yields m Q" and "yields n Q"
  shows "yields (sbind (CheckKeyword k) (\<lambda>b. if b then sbind Advance (\<lambda>_. m) else n)) Q"
    and "yields (sbind (CheckSymbol s) (\<lambda>b. if b then sbind Advance (\<lambda>_. m) else n)) Q"
    and "yields (sbind (CheckSymbol s) (\<lambda>b. if \<not> b then n else sbind Advance (\<lambda>_. m))) Q"
proof -
  show "yields (sbind (CheckKeyword k) (\<lambda>b. if b then sbind Advance (\<lambda>_. m) else n)) Q"
    and s: "yields (sbind (CheckSymbol s) (\<lambda>b. if b then sbind Advance (\<lambda>_. m) else n)) Q"
    by (rule yields_take_if [OF looks_check(1) no_end_check(1) assms] yields_take_if [OF looks_check(2) no_end_check(2) assms])+
  have "(\<lambda>b. if \<not> b then n else sbind Advance (\<lambda>_. m)) = (\<lambda>b. if b then sbind Advance (\<lambda>_. m) else n)" by auto
  with s show "yields (sbind (CheckSymbol s) (\<lambda>b. if \<not> b then n else sbind Advance (\<lambda>_. m))) Q" by simp
qed

lemma yields_Expect:
  "yields (ExpectKeyword k) (\<lambda>_. True)" "yields (ExpectSymbol s) (\<lambda>_. True)"
  "yields ExpectIdentifier is_ident" "yields ExpectLiteral (\<lambda>_. True)"
  "yields (SkipSymbol s) (\<lambda>_. True)" "yields (SkipKeyword k) (\<lambda>_. True)" "yields ParseCompareOp (\<lambda>_. True)"
  by (rule yieldsI, auto simp: ExpectKeyword_def ExpectSymbol_def ExpectIdentifier_def ExpectLiteral_def SkipSymbol_def
      SkipKeyword_def ParseCompareOp_def CheckKeyword_def CheckSymbol_def Peek_def Advance_def sbind_def Let_def)+

lemma yields_sep_list:
  assumes sep: "separator = CheckKeyword k \<or> separator = CheckSymbol s"
    and item: "\<And>st. yields (item st) (\<lambda>(x, st1). R st x st1)"
    and base: "\<And>st x st1. R st x st1 \<Longrightarrow> J st [x] st1"
    and step: "\<And>st x st1 xs st2. R st x st1 \<Longrightarrow> J st1 xs st2 \<Longrightarrow> J st (x # xs) st2"
  shows "yields (sep_list separator item st) (\<lambda>(xs, st'). J st xs st')"
  unfolding yields_def
proof (intro allI impI)
  fix ts assume "tokens_ok ts"
  then show "case sep_list separator item st ts of Inl e \<Rightarrow> \<exists>msg. e = RuntimeError msg
     | Inr (x, ts') \<Rightarrow> tokens_ok ts' \<and> length ts' \<le> length ts \<and> (case x of (xs, st') \<Rightarrow> J st xs st')"
  proof (induction "length ts" arbitrary: ts st rule: less_induct)
    case less
    show ?case
    proof (cases "item st ts")
      case (Inl e)
      then show ?thesis using yieldsE [OF item less.prems] by (simp add: sep_list.simps)
    next
      case (Inr r)
      obtain x st1 ts1 where r: "r = ((x, st1), ts1)" by (cases r) auto
      have i: "tokens_ok ts1" "length ts1 \<le> length ts" "R st x st1"
        using yieldsD [OF item less.prems Inr [unfolded r]] by auto
      obtain t rest where t: "ts1 = t # rest" using i(1) by (cases ts1) auto
      obtain b where b: "separator ts1 = Inr (b, ts1)" "b \<Longrightarrow> type t \<noteq> kEnd"
        using sep by (auto simp: t CheckKeyword_def CheckSymbol_def Peek_def sbind_def)
      show ?thesis
      proof (cases b)
        case False
        then show ?thesis using Inr r b i base by (subst sep_list.simps) simp
      next
        case True
        then have a: "Advance ts1 = Inr (t, rest)" "tokens_ok rest" "length rest < length ts"
          using check_Advance [of t rest] b(2) i t by auto
        from less.hyps [OF a(3,2), of st1] show ?thesis
          using Inr r b a i(3) True by (subst sep_list.simps) (auto split: sum.splits intro: step)
      qed
    qed
  qed
qed

lemma yields_plain_list:
  assumes "separator = CheckKeyword k \<or> separator = CheckSymbol s" and "yields item P"
  shows "yields (plain_list separator item) (\<lambda>xs. xs \<noteq> [] \<and> (\<forall>x \<in> set xs. P x))"
  unfolding plain_list_def
proof (rule yields_bind)
  show "yields (sep_list separator (\<lambda>_. sbind item (\<lambda>x. sret (x, ()))) ()) (\<lambda>(xs, _). xs \<noteq> [] \<and> (\<forall>x \<in> set xs. P x))"
  proof (rule yields_sep_list [OF assms(1), where R = "\<lambda>_ x _. P x"])
    show "yields (sbind item (\<lambda>x. sret (x, ()))) (\<lambda>(x, _). P x)"
      by (rule yields_bind [OF assms(2)], rule yields_ret) simp
  qed auto
qed (auto split: prod.split intro!: yields_ret)

section \<open>Well-formed statements\<close>

definition column_wf :: "ColumnDef \<Rightarrow> bool" where
  "column_wf c \<longleftrightarrow> is_ident (cd_name c) \<and> default_value c = None"

definition where_wf :: "Condition list \<Rightarrow> bool" where
  "where_wf cs \<longleftrightarrow> (\<forall>c \<in> set cs. is_ident (cond_column c))"

fun stmt_wf :: "Statement \<Rightarrow> bool" where
  "stmt_wf (CreateDatabase s) \<longleftrightarrow> is_ident (cdb_name s)"
| "stmt_wf (CreateTable s) \<longleftrightarrow> is_ident (ct_db_name s) \<and> is_ident (ct_table_name s) \<and> ct_columns s \<noteq> [] \<and>
     (\<forall>c \<in> set (ct_columns s). column_wf c) \<and> length (filter primary_key (ct_columns s)) = 1"
| "stmt_wf (AlterTableAddColumn s) \<longleftrightarrow> is_ident (at_db_name s) \<and> is_ident (at_table_name s) \<and>
     is_ident (cd_name (at_column s)) \<and> \<not> primary_key (at_column s) \<and> default_value (at_column s) \<noteq> None"
| "stmt_wf (Insert s) \<longleftrightarrow> is_ident (ins_db_name s) \<and> is_ident (ins_table_name s) \<and> ins_columns s \<noteq> [] \<and>
     (\<forall>c \<in> set (ins_columns s). is_ident c) \<and> length (ins_columns s) = length (ins_values s)"
| "stmt_wf (Select s) \<longleftrightarrow> is_ident (sel_db_name s) \<and> is_ident (sel_table_name s) \<and>
     (\<forall>c \<in> set (sel_columns s). is_ident c) \<and> where_wf (sel_where s)"
| "stmt_wf (Update s) \<longleftrightarrow> is_ident (upd_db_name s) \<and> is_ident (upd_table_name s) \<and> upd_assignments s \<noteq> [] \<and>
     (\<forall>a \<in> set (upd_assignments s). is_ident (fst a)) \<and> where_wf (upd_where s)"
| "stmt_wf (Delete s) \<longleftrightarrow> is_ident (del_db_name s) \<and> is_ident (del_table_name s) \<and> where_wf (del_where s)"
| "stmt_wf (ShowTables s) \<longleftrightarrow> is_ident (st_db_name s)"
| "stmt_wf ShowDatabases \<longleftrightarrow> True"

lemma yields_names: "yields ExpectQualifiedTableName (\<lambda>(d, t). is_ident d \<and> is_ident t)"
  unfolding ExpectQualifiedTableName_def
  by (intro yields_take yields_bind [OF yields_Expect(3)] yields_throw yields_ret) simp


lemma yields_column_type: "yields ParseColumnType (\<lambda>_. True)"
  unfolding ParseColumnType_def Let_def
  by (rule yields_bind [OF yields_Expect(3)]) (auto intro!: yields_ret yields_throw)

lemma yields_where: "yields ParseWhereClause (\<lambda>cs. cs \<noteq> [] \<and> where_wf cs)"
proof -
  have "yields where_condition (\<lambda>c. is_ident (cond_column c))"
    unfolding where_condition_def
    by (intro yields_bind [OF yields_Expect(3)] yields_bind [OF yields_Expect(7)] yields_bind [OF yields_Expect(4)] yields_ret) simp
  from yields_plain_list [OF disjI1 [OF refl] this, of "''AND''"] show ?thesis
    unfolding ParseWhereClause_def where_wf_def .
qed

lemma yields_optional_where: "yields optional_where where_wf"
  unfolding optional_where_def
  by (intro yields_take yields_ret yields_mono [OF yields_where]) (simp_all add: where_wf_def)

lemma yields_commas:
  "yields (plain_list (CheckSymbol '','') ExpectIdentifier) (\<lambda>xs. xs \<noteq> [] \<and> (\<forall>x \<in> set xs. is_ident x))"
  "yields (plain_list (CheckSymbol '','') ExpectLiteral) (\<lambda>xs. True)"
  "yields (plain_list (CheckSymbol '','') assignment) (\<lambda>xs. xs \<noteq> [] \<and> (\<forall>x \<in> set xs. is_ident (fst x)))"
proof -
  have "yields assignment (\<lambda>x. is_ident (fst x))"
    unfolding assignment_def
    by (intro yields_bind [OF yields_Expect(3)] yields_bind [OF yields_Expect(2)] yields_bind [OF yields_Expect(4)] yields_ret) simp
  note lists = yields_Expect(3) this yields_Expect(4)
  show "yields (plain_list (CheckSymbol '','') ExpectIdentifier) (\<lambda>xs. xs \<noteq> [] \<and> (\<forall>x \<in> set xs. is_ident x))"
    "yields (plain_list (CheckSymbol '','') assignment) (\<lambda>xs. xs \<noteq> [] \<and> (\<forall>x \<in> set xs. is_ident (fst x)))"
    by (rule yields_plain_list [OF disjI2 [OF refl] lists(1)] yields_plain_list [OF disjI2 [OF refl] lists(2)])+
  show "yields (plain_list (CheckSymbol '','') ExpectLiteral) (\<lambda>xs. True)"
    by (rule yields_mono [OF yields_plain_list [OF disjI2 [OF refl] lists(3)]]) simp
qed

text \<open>The number of primary keys seen, with the flag before and after.\<close>

lemma yields_columns:
  "yields (sep_list (CheckSymbol '','') column_item has_pk) (\<lambda>(cols, has_pk'). cols \<noteq> [] \<and> (\<forall>c \<in> set cols. column_wf c) \<and>
     of_bool has_pk + length (filter primary_key cols) = of_bool has_pk')"
proof (rule yields_sep_list [OF disjI2 [OF refl]])
  fix has_pk
  show "yields (column_item has_pk) (\<lambda>(c, has_pk'). column_wf c \<and> of_bool has_pk + of_bool (primary_key c) = (of_bool has_pk' :: nat))"
    unfolding column_item_def
    by (intro yields_bind [OF yields_Expect(3)] yields_bind [OF yields_column_type] yields_take yields_bind [OF yields_Expect(1)]
        yields_ret) (auto intro!: yields_ret yields_throw simp: column_wf_def)
qed (auto simp: of_bool_def split: if_splits)

lemma yields_if: "yields m Q \<Longrightarrow> yields n Q \<Longrightarrow> yields (if b then m else n) Q"
  by simp

lemma yields_variant: "yields m (\<lambda>s. Q (c s)) \<Longrightarrow> yields (sbind m (\<lambda>s. sret (c s))) Q"
  by (rule yields_bind, assumption, rule yields_ret)

lemma yields_statement: "yields ParseStatement stmt_wf"
proof -
  note binds = yields_bind [OF yields_Expect(1)] yields_bind [OF yields_Expect(2)] yields_bind [OF yields_Expect(3)]
    yields_bind [OF yields_Expect(4)] yields_bind [OF yields_Expect(5)] yields_bind [OF yields_Expect(6)]
    yields_bind [OF yields_names] yields_bind [OF yields_column_type] yields_bind [OF yields_optional_where]
    yields_bind [OF yields_commas(1)] yields_bind [OF yields_commas(2)] yields_bind [OF yields_commas(3)]
    yields_bind [OF yields_columns]
  have sel: "yields select_columns (\<lambda>xs. \<forall>x \<in> set xs. is_ident x)"
    unfolding select_columns_def
    by (intro yields_take yields_ret yields_mono [OF yields_commas(1)]) simp_all
  have "yields ParseCreateDatabase (\<lambda>s. stmt_wf (CreateDatabase s))"
    unfolding ParseCreateDatabase_def by (intro binds yields_ret) simp
  moreover have "yields ParseShowTables (\<lambda>s. stmt_wf (ShowTables s))"
    unfolding ParseShowTables_def by (intro binds yields_ret) simp
  moreover have "yields ParseShowDatabases (\<lambda>_. True)"
    unfolding ParseShowDatabases_def by (intro binds yields_ret) simp
  moreover have "yields ParseCreateTable (\<lambda>s. stmt_wf (CreateTable s))"
    unfolding ParseCreateTable_def by (intro binds, clarify, intro binds, clarify, intro binds)
      (auto intro!: binds yields_ret yields_throw)
  moreover have "yields ParseAlterTable (\<lambda>s. stmt_wf (AlterTableAddColumn s))"
    unfolding ParseAlterTable_def by (intro binds, clarify, intro binds yields_ret) simp
  moreover have "yields ParseInsert (\<lambda>s. stmt_wf (Insert s))"
    unfolding ParseInsert_def by (intro binds, clarify, intro binds) (auto intro!: binds yields_ret yields_throw)
  moreover have "yields ParseSelect (\<lambda>s. stmt_wf (Select s))"
    unfolding ParseSelect_def by (intro binds yields_bind [OF sel], clarify, intro binds yields_ret) simp
  moreover have "yields ParseUpdate (\<lambda>s. stmt_wf (Update s))"
    unfolding ParseUpdate_def by (intro binds, clarify, intro binds yields_ret) simp
  moreover have "yields ParseDelete (\<lambda>s. stmt_wf (Delete s))"
    unfolding ParseDelete_def by (intro binds, clarify, intro binds yields_ret) simp
  moreover have "yields (sbind ParseShowDatabases (\<lambda>_. sret ShowDatabases)) stmt_wf"
    by (rule yields_variant) (use \<open>yields ParseShowDatabases (\<lambda>_. True)\<close> in simp)
  ultimately show ?thesis
    unfolding ParseStatement_def
    by (intro yields_bind [OF yields_check(1)] yields_bind [OF yields_check(2)] yields_bind [OF yields_check(4)]
        yields_if yields_throw) (assumption | rule yields_variant)+
qed

lemma laid_out_tokens_ok: "laid_out i s ts \<Longrightarrow> tokens_ok ts"
proof (induction i s ts rule: laid_out.induct)
  case (3 i s t t' ts)
  from "3.prems" obtain w sp r :: string where l: "laid_out (i + length w + length sp) r (t' # ts)" "spells (type t) (tok_text t) sp"
    unfolding laid_out.simps by blast
  from l(2) have "type t \<noteq> kEnd" "type t = kIdentifier \<longrightarrow> is_ident (tok_text t)" by (cases "type t"; simp)+
  with "3.IH" [OF l(1)] show ?case by simp
qed simp_all

lemma Tokenize_cases: "case Tokenize sql of Inl e \<Rightarrow> \<exists>msg. e = RuntimeError msg | Inr ts \<Rightarrow> tokens_ok ts"
proof -
  have str: "\<exists>msg. e = RuntimeError msg" if "lex_string s = Inl e" for s e
    using that by (induction s rule: lex_string.induct) (auto simp: rbind_Inl_iff split: if_splits)
  have step: "\<exists>msg. e = RuntimeError msg" if "lex_step i c cs = Inl e" for i c cs e
    using that by (auto simp: lex_step_def Let_def rbind_Inl_iff split: if_splits dest: str)
  have "\<exists>msg. e = RuntimeError msg" if "tokenize_loop i s = Inl e" for i s e
    using that
  proof (induction i s rule: tokenize_loop.induct)
    case (2 i c cs)
    then show ?case by (auto simp: rbind_Inl_iff split: sum.splits dest: step)
  qed simp
  then show ?thesis
    by (auto simp: Tokenize_def split: sum.split dest!: tokenize_loop_laid_out laid_out_tokens_ok)
qed

text \<open>Parsing any text at all ends in a well-formed statement (names that are identifiers, lists that are not
  empty where they must not be, as many values as columns, exactly one primary key, a default for an added column) or
  in a syntax error; no step reads behind the last token.\<close>

theorem sql_parse_safe:
  "case parse_sql sql of Inl e \<Rightarrow> \<exists>msg. e = RuntimeError msg | Inr stmt \<Rightarrow> stmt_wf stmt"
proof (cases "Tokenize sql")
  case (Inl e)
  then show ?thesis using Tokenize_cases [of sql] by (simp add: parse_sql_def)
next
  case (Inr ts)
  then have ok: "tokens_ok ts" using Tokenize_cases [of sql] by simp
  show ?thesis
    using yields_statement ok Inr by (fastforce simp: parse_sql_def srun_def yields_def split: sum.splits)
qed

section \<open>Printing statements\<close>

text \<open>\<open>reads F m xs x\<close>: the lexemes \<open>xs\<close>, followed by a lexeme in \<open>F\<close>, are taken by \<open>m\<close> and give \<open>x\<close>.\<close>

definition reads :: "(lexeme \<Rightarrow> bool) \<Rightarrow> 'a parser \<Rightarrow> lexeme list \<Rightarrow> 'a \<Rightarrow> bool" where
  "reads F m xs x \<longleftrightarrow> (\<forall>ts t rest. map lexeme_of ts = xs \<longrightarrow> F (lexeme_of t) \<longrightarrow> m (ts @ t # rest) = Inr (x, t # rest))"

abbreviation anything :: "lexeme \<Rightarrow> bool" where
  "anything \<equiv> \<lambda>_. True"

definition first_in :: "(lexeme \<Rightarrow> bool) \<Rightarrow> (lexeme \<Rightarrow> bool) \<Rightarrow> lexeme list \<Rightarrow> bool" where
  "first_in G F xs \<longleftrightarrow> (case xs of [] \<Rightarrow> \<forall>x. F x \<longrightarrow> G x | x # _ \<Rightarrow> G x)"

lemma reads_ret: "reads F (sret x) [] x"
  by (simp add: reads_def)

lemma reads_bind:
  assumes "reads G m xs x" and "reads F (f x) ys y" and "first_in G F ys"
  shows "reads F (sbind m f) (xs @ ys) y"
  unfolding reads_def
proof (intro allI impI)
  fix ts t rest assume ts: "map lexeme_of ts = xs @ ys" and F: "F (lexeme_of t)"
  then obtain us vs where uv: "ts = us @ vs" "map lexeme_of us = xs" "map lexeme_of vs = ys"
    by (auto simp: map_eq_append_conv)
  obtain v rest' where v: "vs @ t # rest = v # rest'" "G (lexeme_of v)"
  proof (cases vs)
    case Nil
    then have "G (lexeme_of t)" using assms(3) uv(3) F by (simp only: first_in_def list.map list.case)
    with that [of t rest] Nil show ?thesis by simp
  next
    case (Cons v vs')
    then have "G (lexeme_of v)" using assms(3) uv(3) by (auto simp: first_in_def)
    with that [of v "vs' @ t # rest"] Cons show ?thesis by simp
  qed
  have "m (us @ vs @ t # rest) = Inr (x, vs @ t # rest)" using assms(1) uv(2) v unfolding reads_def by metis
  moreover have "f x (vs @ t # rest) = Inr (y, t # rest)" using assms(2) uv(3) F unfolding reads_def by blast
  ultimately show "sbind m f (ts @ t # rest) = Inr (y, t # rest)" by (simp add: uv(1))
qed

lemma reads_weaken: "reads G m xs x \<Longrightarrow> (\<And>l. F l \<Longrightarrow> G l) \<Longrightarrow> reads F m xs x"
  by (auto simp: reads_def)

text \<open>A lexeme that any look-ahead accepts: followed by anything.\<close>

lemma reads_then:
  assumes "reads anything m xs x" and "reads F (f x) ys y"
  shows "reads F (sbind m f) (xs @ ys) y"
  using assms by (rule reads_bind) (simp add: first_in_def split: list.split)

lemma reads_single: "reads F m [l] x \<longleftrightarrow> (\<forall>u t rest. lexeme_of u = l \<longrightarrow> F (lexeme_of t) \<longrightarrow> m (u # t # rest) = Inr (x, t # rest))"
  by (fastforce simp: reads_def map_eq_Cons_conv)

lemma reads_none: "reads F m [] x \<longleftrightarrow> (\<forall>t rest. F (lexeme_of t) \<longrightarrow> m (t # rest) = Inr (x, t # rest))"
  by (simp add: reads_def)

lemmas token_defs = ExpectKeyword_def ExpectSymbol_def ExpectIdentifier_def ExpectLiteral_def SkipSymbol_def SkipKeyword_def
  CheckKeyword_def CheckSymbol_def Peek_def Advance_def sbind_def lexeme_of_def

lemma ToUpper_keywords:
  "ToUpper ''CREATE'' = ''CREATE''" "ToUpper ''DATABASE'' = ''DATABASE''" "ToUpper ''TABLE'' = ''TABLE''"
  "ToUpper ''PRIMARY'' = ''PRIMARY''" "ToUpper ''KEY'' = ''KEY''" "ToUpper ''ALTER'' = ''ALTER''" "ToUpper ''ADD'' = ''ADD''"
  "ToUpper ''COLUMN'' = ''COLUMN''" "ToUpper ''DEFAULT'' = ''DEFAULT''" "ToUpper ''INSERT'' = ''INSERT''"
  "ToUpper ''INTO'' = ''INTO''" "ToUpper ''VALUES'' = ''VALUES''" "ToUpper ''SELECT'' = ''SELECT''"
  "ToUpper ''FROM'' = ''FROM''" "ToUpper ''WHERE'' = ''WHERE''" "ToUpper ''UPDATE'' = ''UPDATE''" "ToUpper ''SET'' = ''SET''"
  "ToUpper ''DELETE'' = ''DELETE''" "ToUpper ''SHOW'' = ''SHOW''" "ToUpper ''TABLES'' = ''TABLES''"
  "ToUpper ''DATABASES'' = ''DATABASES''" "ToUpper ''AND'' = ''AND''" "ToUpper ''TEXT'' = ''TEXT''" "ToUpper ''INT'' = ''INT''"
  by (simp_all add: ToUpper_def toupper_def islower_def)

lemma reads_tokens:
  "ToUpper k = k' \<Longrightarrow> reads anything (ExpectKeyword k') [(kIdentifier, k)] ()"
  "reads anything (ExpectSymbol s) [(kSymbol, s)] ()"
  "reads anything ExpectIdentifier [(kIdentifier, n)] n"
  "reads anything ExpectLiteral [(kString, v)] v"
  "ToUpper k = k' \<Longrightarrow> reads anything (SkipKeyword k') [(kIdentifier, k)] ()"
  "reads (\<lambda>l. l \<noteq> (kSymbol, s)) (SkipSymbol s) [] ()"
  by (auto simp: reads_single reads_none token_defs)

lemma reads_check:
  assumes "looks c p"
  shows "reads (\<lambda>l. p l = b) c [] b"
  using assms by (auto simp: reads_none looks_def)

lemma reads_taken:
  assumes "looks c p" and "p l" and "reads F m xs x"
  shows "reads F (sbind c (\<lambda>b. if b then sbind Advance (\<lambda>_. m) else n)) (l # xs) x"
  using assms by (fastforce simp: reads_def looks_def map_eq_Cons_conv Advance_def sbind_def)

lemma reads_not_taken:
  assumes "looks c p" and "reads F n xs x" and "first_in (\<lambda>l. \<not> p l) F xs"
  shows "reads F (sbind c (\<lambda>b. if b then sbind Advance (\<lambda>_. m) else n)) xs x"
  using reads_bind [OF reads_check [OF assms(1), where b = False], where f = "\<lambda>b. if b then sbind Advance (\<lambda>_. m) else n"]
    assms(2,3) by simp

lemma reads_bind2:
  assumes "reads G m xs (a, b)" and "reads F (f a b) ys y" and "first_in G F ys"
  shows "reads F (sbind m (\<lambda>(a, b). f a b)) (xs @ ys) y"
  using reads_bind [OF assms(1) _ assms(3), where f = "\<lambda>(a, b). f a b"] assms(2) by simp

lemma reads_then2:
  assumes "reads anything m xs (a, b)" and "reads F (f a b) ys y"
  shows "reads F (sbind m (\<lambda>(a, b). f a b)) (xs @ ys) y"
  using assms by (rule reads_bind2) (simp add: first_in_def split: list.split)

lemma reads_last: "reads F m xs x \<Longrightarrow> reads F (f x) [] y \<Longrightarrow> reads F (sbind m f) xs y"
  using reads_bind [where ys = "[]" and G = F] by (fastforce simp: first_in_def)

section \<open>Lists\<close>

fun sep_by :: "'a \<Rightarrow> 'a list list \<Rightarrow> 'a list" where
  "sep_by s [] = []"
| "sep_by s [x] = x"
| "sep_by s (x # y # xs) = x @ s # sep_by s (y # xs)"

lemma reads_sep_list:
  assumes sep: "looks separator p" "p l" "G l" "\<And>t. F t \<Longrightarrow> \<not> p t \<and> G t"
    and "xs \<noteq> []"
    and "\<And>ys x zs. xs = ys @ x # zs \<Longrightarrow> reads G (item (foldl adv st ys)) (pr x) (x, adv (foldl adv st ys) x)"
  shows "reads F (sep_list separator item st) (sep_by l (map pr xs)) (xs, foldl adv st xs)"
  using assms(5,6)
proof (induction xs arbitrary: st rule: induct_list012)
  case (2 x)
  have i: "reads G (item st) (pr x) (x, adv st x)" using "2.prems"(2) [of "[]" x "[]"] by simp
  show ?case
    unfolding reads_def
  proof (intro allI impI)
    fix ts t rest assume ts: "map lexeme_of ts = sep_by l (map pr [x])" and F: "F (lexeme_of t)"
    then have "item st (ts @ t # rest) = Inr ((x, adv st x), t # rest)" using i sep(4) by (simp add: reads_def)
    moreover have "separator (t # rest) = Inr (False, t # rest)" using sep(1,4) F by (simp add: looks_def)
    ultimately show "sep_list separator item st (ts @ t # rest) = Inr (([x], foldl adv st [x]), t # rest)"
      by (subst sep_list.simps) simp
  qed
next
  case (3 x y zs)
  have i: "reads G (item st) (pr x) (x, adv st x)" using "3.prems"(2) [of "[]" x "y # zs"] by simp
  have IH: "reads F (sep_list separator item (adv st x)) (sep_by l (map pr (y # zs))) (y # zs, foldl adv (adv st x) (y # zs))"
  proof (rule "3.IH"(2))
    fix ys z ws assume "y # zs = ys @ z # ws"
    then show "reads G (item (foldl adv (adv st x) ys)) (pr z) (z, adv (foldl adv (adv st x) ys) z)"
      using "3.prems"(2) [of "x # ys" z ws] by simp
  qed simp
  show ?case
    unfolding reads_def
  proof (intro allI impI)
    fix ts t rest assume ts: "map lexeme_of ts = sep_by l (map pr (x # y # zs))" and F: "F (lexeme_of t)"
    then obtain us s vs where uv: "ts = us @ s # vs" "map lexeme_of us = pr x" "lexeme_of s = l"
      "map lexeme_of vs = sep_by l (map pr (y # zs))" by (auto simp: map_eq_append_conv map_eq_Cons_conv)
    have "item st (us @ s # vs @ t # rest) = Inr ((x, adv st x), s # vs @ t # rest)"
      using i uv(2,3) sep(3) by (simp add: reads_def)
    moreover have "separator (s # vs @ t # rest) = Inr (True, s # vs @ t # rest)"
      using sep(1,2) uv(3) by (simp add: looks_def)
    moreover have "sep_list separator item (adv st x) (vs @ t # rest) =
        Inr ((y # zs, foldl adv (adv st x) (y # zs)), t # rest)" using IH uv(4) F by (simp add: reads_def)
    ultimately show "sep_list separator item st (ts @ t # rest) =
        Inr ((x # y # zs, foldl adv st (x # y # zs)), t # rest)"
      by (subst sep_list.simps) (simp add: uv(1) Advance_def)
  qed
qed simp

lemma reads_plain_list:
  assumes "looks separator p" "p l" "G l" "\<And>t. F t \<Longrightarrow> \<not> p t \<and> G t" "xs \<noteq> []"
    and "\<And>x. x \<in> set xs \<Longrightarrow> reads G item (pr x) x"
  shows "reads F (plain_list separator item) (sep_by l (map pr xs)) xs"
  unfolding plain_list_def
proof (rule reads_last)
  have "reads G (sbind item (\<lambda>x. sret (x, ()))) (pr x) (x, ())" if "x \<in> set xs" for x
    using assms(6) [OF that] by (rule reads_last) (rule reads_ret)
  then show "reads F (sep_list separator (\<lambda>_. sbind item (\<lambda>x. sret (x, ()))) ()) (sep_by l (map pr xs)) (xs, foldl (\<lambda>_ _. ()) () xs)"
    by (intro reads_sep_list [OF assms(1-5), where adv = "\<lambda>_ _. ()"]) auto
qed (simp add: reads_ret)

section \<open>The printed form\<close>

abbreviation kw :: "string \<Rightarrow> lexeme" where "kw k \<equiv> (kIdentifier, k)"
abbreviation sym :: "string \<Rightarrow> lexeme" where "sym s \<equiv> (kSymbol, s)"
abbreviation lit :: "string \<Rightarrow> lexeme" where "lit v \<equiv> (kString, v)"

definition name_lexemes :: "string \<Rightarrow> string \<Rightarrow> lexeme list" where
  "name_lexemes d t = [kw d] @ [sym ''.''] @ [kw t]"

definition type_lexeme :: "ColumnType \<Rightarrow> lexeme" where
  "type_lexeme ty = kw (case ty of kText \<Rightarrow> ''TEXT'' | kInt \<Rightarrow> ''INT'')"

definition op_lexeme :: "CompareOp \<Rightarrow> lexeme" where
  "op_lexeme op = sym (case op of kEq \<Rightarrow> ''='' | kNe \<Rightarrow> ''!='' | kLt \<Rightarrow> ''<'' | kLe \<Rightarrow> ''<='' | kGt \<Rightarrow> ''>'' | kGe \<Rightarrow> ''>='')"

definition cond_lexemes :: "Condition \<Rightarrow> lexeme list" where
  "cond_lexemes c = [kw (cond_column c)] @ [op_lexeme (cond_op c)] @ [lit (cond_literal c)]"

definition where_lexemes :: "Condition list \<Rightarrow> lexeme list" where
  "where_lexemes cs = (if cs = [] then [] else kw ''WHERE'' # sep_by (kw ''AND'') (map cond_lexemes cs))"

definition column_lexemes :: "ColumnDef \<Rightarrow> lexeme list" where
  "column_lexemes c = [kw (cd_name c)] @ [type_lexeme (cd_type c)] @ (if primary_key c then [kw ''PRIMARY'', kw ''KEY''] else [])"

definition assignment_lexemes :: "string \<times> string \<Rightarrow> lexeme list" where
  "assignment_lexemes a = [kw (fst a)] @ [sym ''=''] @ [lit (snd a)]"

abbreviation comma_list :: "('a \<Rightarrow> lexeme list) \<Rightarrow> 'a list \<Rightarrow> lexeme list" where
  "comma_list pr xs \<equiv> sep_by (sym '','') (map pr xs)"

definition select_lexemes :: "string list \<Rightarrow> lexeme list" where
  "select_lexemes cs = (if cs = [] then [sym ''*''] else comma_list (\<lambda>c. [kw c]) cs)"

fun stmt_lexemes :: "Statement \<Rightarrow> lexeme list" where
  "stmt_lexemes (CreateDatabase s) = [kw ''CREATE''] @ [kw ''DATABASE''] @ [kw (cdb_name s)]"
| "stmt_lexemes (CreateTable s) = [kw ''CREATE''] @ [kw ''TABLE''] @ name_lexemes (ct_db_name s) (ct_table_name s) @
     [sym ''(''] @ comma_list column_lexemes (ct_columns s) @ [sym '')'']"
| "stmt_lexemes (AlterTableAddColumn s) = [kw ''ALTER''] @ [kw ''TABLE''] @ name_lexemes (at_db_name s) (at_table_name s) @
     [kw ''ADD''] @ [kw ''COLUMN''] @ [kw (cd_name (at_column s))] @ [type_lexeme (cd_type (at_column s))] @
     [kw ''DEFAULT''] @ [lit (the (default_value (at_column s)))]"
| "stmt_lexemes (Insert s) = [kw ''INSERT''] @ [kw ''INTO''] @ name_lexemes (ins_db_name s) (ins_table_name s) @
     [sym ''(''] @ comma_list (\<lambda>c. [kw c]) (ins_columns s) @ [sym '')''] @
     [kw ''VALUES''] @ [sym ''(''] @ comma_list (\<lambda>v. [lit v]) (ins_values s) @ [sym '')'']"
| "stmt_lexemes (Select s) = [kw ''SELECT''] @ select_lexemes (sel_columns s) @ [kw ''FROM''] @
     name_lexemes (sel_db_name s) (sel_table_name s) @ where_lexemes (sel_where s)"
| "stmt_lexemes (Update s) = [kw ''UPDATE''] @ name_lexemes (upd_db_name s) (upd_table_name s) @ [kw ''SET''] @
     comma_list assignment_lexemes (upd_assignments s) @ where_lexemes (upd_where s)"
| "stmt_lexemes (Delete s) = [kw ''DELETE''] @ [kw ''FROM''] @ name_lexemes (del_db_name s) (del_table_name s) @
     where_lexemes (del_where s)"
| "stmt_lexemes (ShowTables s) = [kw ''SHOW''] @ [kw ''TABLES''] @ [kw ''FROM''] @ [kw (st_db_name s)]"
| "stmt_lexemes ShowDatabases = [kw ''SHOW''] @ [kw ''DATABASES'']"

definition sql_of :: "Statement \<Rightarrow> string" where
  "sql_of stmt = print_lexemes (stmt_lexemes stmt)"

section \<open>The printed form is read back\<close>

abbreviation at_end :: "lexeme \<Rightarrow> bool" where
  "at_end \<equiv> \<lambda>l. l = (kEnd, [])"

lemma reads_name: "reads anything ExpectQualifiedTableName (name_lexemes d t) (d, t)"
proof -
  have n: "(\<lambda>dot. if \<not> dot then a else sbind Advance b) = (\<lambda>dot. if dot then sbind Advance b else a)"
    for a :: "(string \<times> string) parser" and b by auto
  have "reads anything (sbind ExpectIdentifier (\<lambda>t. sret (d, t))) [kw t] (d, t)"
    by (rule reads_last [OF reads_tokens(3) reads_ret])
  then show ?thesis
    unfolding ExpectQualifiedTableName_def name_lexemes_def n
    by (intro reads_then [OF reads_tokens(3)]) (simp add: reads_taken [OF looks_check(2)])
qed

lemma reads_type: "reads anything ParseColumnType [type_lexeme ty] ty"
  unfolding ParseColumnType_def type_lexeme_def
  by (rule reads_last [OF reads_tokens(3)]) (cases ty; simp add: ToUpper_keywords reads_ret del: sret_apply)

lemma reads_op: "reads anything ParseCompareOp [op_lexeme op] op"
  by (cases op) (auto simp: reads_single ParseCompareOp_def op_lexeme_def token_defs)

lemma reads_condition: "reads anything where_condition (cond_lexemes c) c"
  unfolding where_condition_def cond_lexemes_def
  by (intro reads_then [OF reads_tokens(3)] reads_then [OF reads_op] reads_last [OF reads_tokens(4)])
    (cases c, simp add: reads_ret del: sret_apply)

lemma reads_where: "reads at_end optional_where (where_lexemes cs) cs"
proof (cases "cs = []")
  case True
  have "reads at_end (sret []) [] ([] :: Condition list)" by (rule reads_ret)
  with True show ?thesis
    unfolding optional_where_def where_lexemes_def
    by (simp add: reads_not_taken [OF looks_check(1)] first_in_def del: sret_apply)
next
  case False
  have "reads at_end ParseWhereClause (sep_by (kw ''AND'') (map cond_lexemes cs)) cs"
    unfolding ParseWhereClause_def
    by (rule reads_plain_list [OF looks_check(1), where G = anything])
      (use False reads_condition in \<open>auto simp: ToUpper_keywords\<close>)
  with False show ?thesis
    unfolding optional_where_def where_lexemes_def
    by (simp add: reads_taken [OF looks_check(1)] ToUpper_keywords)
qed

lemma reads_commas:
  "xs \<noteq> [] \<Longrightarrow> reads (\<lambda>l. l \<noteq> sym '','') (plain_list (CheckSymbol '','') ExpectIdentifier) (comma_list (\<lambda>c. [kw c]) xs) xs"
  "vs \<noteq> [] \<Longrightarrow> reads (\<lambda>l. l \<noteq> sym '','') (plain_list (CheckSymbol '','') ExpectLiteral) (comma_list (\<lambda>v. [lit v]) vs) vs"
  "as \<noteq> [] \<Longrightarrow> reads (\<lambda>l. l \<noteq> sym '','') (plain_list (CheckSymbol '','') assignment) (comma_list assignment_lexemes as) as"
proof -
  have "reads anything assignment (assignment_lexemes a) a" for a
    unfolding assignment_def assignment_lexemes_def
    by (intro reads_then [OF reads_tokens(3)] reads_then [OF reads_tokens(2)] reads_last [OF reads_tokens(4)])
      (simp add: reads_ret del: sret_apply)
  note item = reads_tokens(3) reads_tokens(4) this
  show "xs \<noteq> [] \<Longrightarrow> reads (\<lambda>l. l \<noteq> sym '','') (plain_list (CheckSymbol '','') ExpectIdentifier) (comma_list (\<lambda>c. [kw c]) xs) xs"
    "vs \<noteq> [] \<Longrightarrow> reads (\<lambda>l. l \<noteq> sym '','') (plain_list (CheckSymbol '','') ExpectLiteral) (comma_list (\<lambda>v. [lit v]) vs) vs"
    "as \<noteq> [] \<Longrightarrow> reads (\<lambda>l. l \<noteq> sym '','') (plain_list (CheckSymbol '','') assignment) (comma_list assignment_lexemes as) as"
    by (rule reads_plain_list [OF looks_check(2), where G = anything], simp_all add: item)+
qed

lemma reads_column_item:
  assumes "default_value c = None" and "\<not> (has_pk \<and> primary_key c)"
  shows "reads (\<lambda>l. l = sym '','' \<or> l = sym '')'') (column_item has_pk) (column_lexemes c) (c, has_pk \<or> primary_key c)"
  unfolding column_item_def column_lexemes_def
proof (intro reads_then [OF reads_tokens(3)] reads_then [OF reads_type])
  let ?F = "\<lambda>l. l = sym '','' \<or> l = sym '')''"
  let ?col = "\<lambda>pk. \<lparr>cd_name = cd_name c, cd_type = cd_type c, primary_key = pk, default_value = None\<rparr>"
  let ?pk = "sbind (ExpectKeyword ''KEY'') (\<lambda>_. if has_pk
      then sthrow (RuntimeError ''table cannot have more than one PRIMARY KEY column'') else sret (?col True, True))"
  have col: "?col (primary_key c) = c" using assms(1) by (cases c) simp
  show "reads ?F (sbind (CheckKeyword ''PRIMARY'') (\<lambda>primary. if primary then sbind Advance (\<lambda>_. ?pk)
      else sret (?col False, has_pk))) (if primary_key c then [kw ''PRIMARY'', kw ''KEY''] else []) (c, has_pk \<or> primary_key c)"
  proof (cases "primary_key c")
    case True
    have "reads ?F ?pk [kw ''KEY''] (c, True)"
      using True assms(2) col by (intro reads_last [OF reads_weaken [OF reads_tokens(1)]])
        (simp_all add: ToUpper_keywords reads_ret del: sret_apply)
    with True show ?thesis by (simp add: reads_taken [OF looks_check(1)] ToUpper_keywords)
  next
    case False
    have "reads ?F (sret (?col False, has_pk)) [] (c, has_pk)" using False col reads_ret [of ?F "(c, has_pk)"] by simp
    with False show ?thesis by (auto intro!: reads_not_taken [OF looks_check(1)] simp: first_in_def)
  qed
qed

lemma reads_columns:
  assumes "cols \<noteq> []" and "\<forall>c \<in> set cols. default_value c = None" and "length (filter primary_key cols) = 1"
  shows "reads (\<lambda>l. l = sym '')'') (sep_list (CheckSymbol '','') column_item False) (comma_list column_lexemes cols) (cols, True)"
proof -
  have fold: "foldl (\<lambda>s c. s \<or> primary_key c) st cs = (st \<or> (\<exists>c \<in> set cs. primary_key c))" for st cs
    by (induction cs arbitrary: st) auto
  have "reads (\<lambda>l. l = sym '')'') (sep_list (CheckSymbol '','') column_item False) (comma_list column_lexemes cols)
      (cols, foldl (\<lambda>s c. s \<or> primary_key c) False cols)"
  proof (rule reads_sep_list [OF looks_check(2)])
    fix ys c zs assume cols: "cols = ys @ c # zs"
    then have "\<not> ((\<exists>y \<in> set ys. primary_key y) \<and> primary_key c)" using assms(3) by (auto simp: filter_empty_conv)
    then show "reads (\<lambda>l. l = sym '','' \<or> l = sym '')'') (column_item (foldl (\<lambda>s c. s \<or> primary_key c) False ys)) (column_lexemes c)
        (c, foldl (\<lambda>s c. s \<or> primary_key c) False ys \<or> primary_key c)"
      by (rule_tac reads_column_item) (use assms(2) cols fold in auto)
  qed (use assms(1) in auto)
  moreover have "\<exists>c \<in> set cols. primary_key c"
  proof (rule ccontr)
    assume "\<not> ?thesis"
    then have "filter primary_key cols = []" by (simp add: filter_empty_conv)
    with assms(3) show False by simp
  qed
  ultimately show ?thesis by (simp add: fold)
qed

lemma reads_any: "reads anything m xs x \<Longrightarrow> reads F m xs x"
  by (rule reads_weaken) simp_all

lemma reads_finish: "reads at_end (sbind (SkipSymbol '';'') (\<lambda>_. sret y)) [] y"
  by (rule reads_last [OF reads_weaken [OF reads_tokens(6)] reads_ret]) simp

lemmas reads_words = reads_then [OF reads_tokens(1) [OF ToUpper_keywords(1)]] reads_then [OF reads_tokens(1) [OF ToUpper_keywords(2)]]
  reads_then [OF reads_tokens(1) [OF ToUpper_keywords(3)]] reads_then [OF reads_tokens(1) [OF ToUpper_keywords(6)]]
  reads_then [OF reads_tokens(1) [OF ToUpper_keywords(7)]] reads_then [OF reads_tokens(5) [OF ToUpper_keywords(8)]]
  reads_then [OF reads_tokens(1) [OF ToUpper_keywords(9)]] reads_then [OF reads_tokens(1) [OF ToUpper_keywords(10)]]
  reads_then [OF reads_tokens(1) [OF ToUpper_keywords(11)]] reads_then [OF reads_tokens(1) [OF ToUpper_keywords(12)]]
  reads_then [OF reads_tokens(1) [OF ToUpper_keywords(13)]] reads_then [OF reads_tokens(1) [OF ToUpper_keywords(14)]]
  reads_then [OF reads_tokens(1) [OF ToUpper_keywords(16)]] reads_then [OF reads_tokens(1) [OF ToUpper_keywords(17)]]
  reads_then [OF reads_tokens(1) [OF ToUpper_keywords(18)]] reads_then [OF reads_tokens(1) [OF ToUpper_keywords(19)]]
  reads_then [OF reads_tokens(1) [OF ToUpper_keywords(20)]] reads_then [OF reads_tokens(1) [OF ToUpper_keywords(21)]]
  reads_then [OF reads_tokens(2)] reads_then [OF reads_tokens(3)] reads_then [OF reads_type] reads_then2 [OF reads_name]

lemma reads_select_columns:
  "reads (\<lambda>l. l = kw ''FROM'') select_columns (select_lexemes cs) cs"
proof (cases "cs = []")
  case True
  then show ?thesis
    unfolding select_columns_def select_lexemes_def by (simp add: reads_taken [OF looks_check(2)] reads_ret del: sret_apply)
next
  case False
  have "reads (\<lambda>l. l = kw ''FROM'') (plain_list (CheckSymbol '','') ExpectIdentifier) (comma_list (\<lambda>c. [kw c]) cs) cs"
    by (rule reads_weaken [OF reads_commas(1) [OF False]]) simp
  moreover have "first_in (\<lambda>l. l \<noteq> sym ''*'') (\<lambda>l. l = kw ''FROM'') (comma_list (\<lambda>c. [kw c]) cs)"
    using False by (cases "(sym '','', map (\<lambda>c. [kw c]) cs)" rule: sep_by.cases) (auto simp: first_in_def)
  ultimately show ?thesis
    using False unfolding select_columns_def select_lexemes_def by (simp add: reads_not_taken [OF looks_check(2)])
qed

lemma reads_statements:
  "reads at_end ParseCreateDatabase (stmt_lexemes (CreateDatabase s1)) s1"
  "reads at_end ParseShowTables (stmt_lexemes (ShowTables s2)) s2"
  "reads at_end ParseShowDatabases (stmt_lexemes ShowDatabases) ()"
  "reads at_end ParseDelete (stmt_lexemes (Delete s3)) s3"
  "stmt_wf (AlterTableAddColumn s4) \<Longrightarrow> reads at_end ParseAlterTable (stmt_lexemes (AlterTableAddColumn s4)) s4"
  "reads at_end ParseSelect (stmt_lexemes (Select s5)) s5"
  "stmt_wf (Update s6) \<Longrightarrow> reads at_end ParseUpdate (stmt_lexemes (Update s6)) s6"
  "stmt_wf (Insert s7) \<Longrightarrow> reads at_end ParseInsert (stmt_lexemes (Insert s7)) s7"
  "stmt_wf (CreateTable s8) \<Longrightarrow> reads at_end ParseCreateTable (stmt_lexemes (CreateTable s8)) s8"
proof -
  note last = reads_last [OF reads_any [OF reads_tokens(3)]] reads_last [OF reads_any [OF reads_tokens(4)]]
    reads_last [OF reads_where]
  have fin: "reads at_end (sbind (SkipSymbol '';'') (\<lambda>_. sret y')) [] y" if "y = y'" for y y' :: 'z
    using that reads_finish by simp
  show "reads at_end ParseCreateDatabase (stmt_lexemes (CreateDatabase s1)) s1"
    unfolding ParseCreateDatabase_def stmt_lexemes.simps by (intro reads_words last fin) simp
  show "reads at_end ParseShowTables (stmt_lexemes (ShowTables s2)) s2"
    unfolding ParseShowTables_def stmt_lexemes.simps by (intro reads_words last fin) simp
  show "reads at_end ParseShowDatabases (stmt_lexemes ShowDatabases) ()"
    unfolding ParseShowDatabases_def stmt_lexemes.simps
    by (intro reads_words reads_last [OF reads_any [OF reads_tokens(1) [OF ToUpper_keywords(21)]]] fin) simp
  show "reads at_end ParseDelete (stmt_lexemes (Delete s3)) s3"
    unfolding ParseDelete_def stmt_lexemes.simps by (intro reads_words last fin) simp
  show "reads at_end ParseAlterTable (stmt_lexemes (AlterTableAddColumn s4)) s4" if "stmt_wf (AlterTableAddColumn s4)"
    unfolding ParseAlterTable_def stmt_lexemes.simps
    by (intro reads_words last fin) (use that in \<open>cases s4; cases "at_column s4"; auto\<close>)
  show "reads at_end ParseSelect (stmt_lexemes (Select s5)) s5"
    unfolding ParseSelect_def stmt_lexemes.simps
    by (intro reads_words last fin reads_bind [OF reads_select_columns]) (simp_all add: first_in_def)
  have comma: "first_in (\<lambda>l. l \<noteq> sym '','') at_end (where_lexemes cs)" for cs
    by (auto simp: first_in_def where_lexemes_def)
  show "reads at_end ParseUpdate (stmt_lexemes (Update s6)) s6" if "stmt_wf (Update s6)"
    unfolding ParseUpdate_def stmt_lexemes.simps
    by (intro reads_words last fin reads_bind [OF reads_commas(3) _ comma]) (use that in simp_all)
  have close: "first_in G at_end ([l] @ xs)" if "G l" for G l xs using that by (simp add: first_in_def)
  show "reads at_end ParseInsert (stmt_lexemes (Insert s7)) s7" if "stmt_wf (Insert s7)"
  proof -
    have len: "length (ins_columns s7) = length (ins_values s7)" "ins_columns s7 \<noteq> []" "ins_values s7 \<noteq> []"
      using that by auto
    show ?thesis
      unfolding ParseInsert_def stmt_lexemes.simps
      by (intro reads_words reads_bind [OF reads_commas(1) [OF len(2)] _ close] reads_bind [OF reads_commas(2) [OF len(3)]]
          reads_last [OF reads_any [OF reads_tokens(2)]])
        (use len in \<open>simp_all add: fin first_in_def\<close>)
  qed
  show "reads at_end ParseCreateTable (stmt_lexemes (CreateTable s8)) s8" if "stmt_wf (CreateTable s8)"
    unfolding ParseCreateTable_def stmt_lexemes.simps
    by (intro reads_words reads_bind2 [OF reads_columns] reads_last [OF reads_any [OF reads_tokens(2)]])
      (use that in \<open>auto simp: fin first_in_def column_wf_def\<close>)
qed

lemma reads_look:
  "reads F m (kw k # xs) y \<Longrightarrow> ToUpper k = k \<Longrightarrow> reads F (sbind (CheckKeyword k) (\<lambda>b. if b then m else n)) (kw k # xs) y"
  "reads F n (kw k' # xs) y \<Longrightarrow> ToUpper k' \<noteq> k \<Longrightarrow> reads F (sbind (CheckKeyword k) (\<lambda>b. if b then m else n)) (kw k' # xs) y"
  by (fastforce simp: reads_def looks_def map_eq_Cons_conv token_defs)+

lemma reads_look_next:
  "reads F m (l # kw k # xs) y \<Longrightarrow> ToUpper k = k \<Longrightarrow>
     reads F (sbind (next_is_keyword k) (\<lambda>b. if b then m else n)) (l # kw k # xs) y"
  "reads F n (l # kw k' # xs) y \<Longrightarrow> ToUpper k' \<noteq> k \<Longrightarrow>
     reads F (sbind (next_is_keyword k) (\<lambda>b. if b then m else n)) (l # kw k' # xs) y"
  by (fastforce simp: reads_def map_eq_Cons_conv sbind_def next_is_keyword_def lexeme_of_def)+

lemma reads_statement: "stmt_wf stmt \<Longrightarrow> reads at_end ParseStatement (stmt_lexemes stmt) stmt"
proof -
  have variant: "reads at_end (sbind p (\<lambda>s. sret (c s))) xs (c s)" if "reads at_end p xs s"
    for p :: "'z parser" and c :: "'z \<Rightarrow> Statement" and s xs
    by (rule reads_last [OF that reads_ret])
  note parsers = reads_statements [unfolded stmt_lexemes.simps append_Cons append_Nil, THEN variant]
  note dispatch = reads_look(1) reads_look_next(1) reads_look(2) reads_look_next(2)
  assume "stmt_wf stmt"
  then show ?thesis
    by (cases stmt; unfold ParseStatement_def; simp only: stmt_lexemes.simps append_Cons append_Nil)
      ((rule dispatch parsers)+, simp_all add: ToUpper_keywords)+
qed

lemma keyword_idents:
  "is_ident ''CREATE''" "is_ident ''DATABASE''" "is_ident ''TABLE''" "is_ident ''PRIMARY''" "is_ident ''KEY''"
  "is_ident ''ALTER''" "is_ident ''ADD''" "is_ident ''COLUMN''" "is_ident ''DEFAULT''" "is_ident ''INSERT''" "is_ident ''INTO''"
  "is_ident ''VALUES''" "is_ident ''SELECT''" "is_ident ''FROM''" "is_ident ''WHERE''" "is_ident ''UPDATE''" "is_ident ''SET''"
  "is_ident ''DELETE''" "is_ident ''SHOW''" "is_ident ''TABLES''" "is_ident ''DATABASES''" "is_ident ''AND''" "is_ident ''TEXT''"
  "is_ident ''INT''"
proof -
  have ident: "is_ident k" if "k \<noteq> [] \<and> (\<forall>c \<in> set k. isupper c)" for k
    using that by (cases k) (auto simp: is_ident_def IsIdentStart_def IsIdentChar_def isalnum_def isalpha_def)
  show "is_ident ''CREATE''" "is_ident ''DATABASE''" "is_ident ''TABLE''" "is_ident ''PRIMARY''" "is_ident ''KEY''"
  "is_ident ''ALTER''" "is_ident ''ADD''" "is_ident ''COLUMN''" "is_ident ''DEFAULT''" "is_ident ''INSERT''" "is_ident ''INTO''"
  "is_ident ''VALUES''" "is_ident ''SELECT''" "is_ident ''FROM''" "is_ident ''WHERE''" "is_ident ''UPDATE''" "is_ident ''SET''"
  "is_ident ''DELETE''" "is_ident ''SHOW''" "is_ident ''TABLES''" "is_ident ''DATABASES''" "is_ident ''AND''" "is_ident ''TEXT''"
  "is_ident ''INT''"
    by (rule ident, simp add: isupper_def)+
qed

lemma symbol_oks:
  "is_symbol ''.''" "is_symbol ''(''" "is_symbol '')''" "is_symbol '',''" "is_symbol ''*''" "is_symbol ''=''"
  by (simp_all add: is_symbol_def)

lemma set_sep_by: "x \<in> set (sep_by s xs) \<Longrightarrow> x = s \<or> (\<exists>ys \<in> set xs. x \<in> set ys)"
  by (induction s xs rule: sep_by.induct) auto

lemma sep_by_ok:
  assumes "lexeme_ok s" and "\<forall>x \<in> set xs. \<forall>l \<in> set (pr x). lexeme_ok l"
  shows "\<forall>l \<in> set (sep_by s (map pr xs)). lexeme_ok l"
proof
  fix l assume "l \<in> set (sep_by s (map pr xs))"
  from set_sep_by [OF this] assms show "lexeme_ok l" by auto
qed

lemma type_lexeme_ok: "lexeme_ok (type_lexeme ty)"
  by (cases ty) (simp_all add: type_lexeme_def keyword_idents)

lemma op_lexeme_ok: "lexeme_ok (op_lexeme op)"
  by (cases op) (simp_all add: op_lexeme_def is_symbol_def)

lemma name_lexemes_ok: "(\<forall>x \<in> set (name_lexemes d t). lexeme_ok x) \<longleftrightarrow> is_ident d \<and> is_ident t"
  by (simp add: name_lexemes_def symbol_oks)

lemma where_lexemes_ok: "where_wf cs \<Longrightarrow> (\<forall>x \<in> set (where_lexemes cs). lexeme_ok x) = True"
  using sep_by_ok [of "kw ''AND''" cs cond_lexemes]
  by (simp add: where_lexemes_def where_wf_def cond_lexemes_def op_lexeme_ok keyword_idents)

lemma comma_list_ok: "\<forall>x \<in> set xs. \<forall>l \<in> set (pr x). lexeme_ok l \<Longrightarrow> \<forall>l \<in> set (comma_list pr xs). lexeme_ok l"
  by (rule sep_by_ok) (simp_all add: symbol_oks)

lemma stmt_lexemes_ok: "stmt_wf stmt \<Longrightarrow> \<forall>x \<in> set (stmt_lexemes stmt). lexeme_ok x"
proof -
  note ok = ball_Un keyword_idents symbol_oks type_lexeme_ok name_lexemes_ok where_lexemes_ok
  assume wf: "stmt_wf stmt"
  show ?thesis
  proof (cases stmt)
    case (CreateTable s)
    have "\<forall>x \<in> set (comma_list column_lexemes (ct_columns s)). lexeme_ok x"
      by (rule comma_list_ok) (use wf CreateTable in \<open>auto simp: column_lexemes_def column_wf_def ok split: if_splits\<close>)
    then show ?thesis using wf by (simp add: CreateTable ok)
  next
    case (Insert s)
    have "\<forall>x \<in> set (comma_list (\<lambda>c. [kw c]) (ins_columns s)). lexeme_ok x"
      by (rule comma_list_ok) (use wf Insert in simp)
    moreover have "\<forall>x \<in> set (comma_list (\<lambda>v. [lit v]) (ins_values s)). lexeme_ok x"
      by (rule comma_list_ok) simp
    ultimately show ?thesis using wf by (simp add: Insert ok)
  next
    case (Select s)
    have "\<forall>x \<in> set (comma_list (\<lambda>c. [kw c]) (sel_columns s)). lexeme_ok x"
      by (rule comma_list_ok) (use wf Select in simp)
    then have "\<forall>x \<in> set (select_lexemes (sel_columns s)). lexeme_ok x" by (simp add: select_lexemes_def ok)
    then show ?thesis using wf by (simp add: Select ok)
  next
    case (Update s)
    have "\<forall>x \<in> set (comma_list assignment_lexemes (upd_assignments s)). lexeme_ok x"
      by (rule comma_list_ok) (use wf Update in \<open>simp add: assignment_lexemes_def ok\<close>)
    then show ?thesis using wf by (simp add: Update ok)
  qed (use wf in \<open>simp_all add: ok\<close>)
qed

text \<open>C36. Every well-formed statement, printed as SQL text with its literals quoted, is parsed to itself.\<close>

theorem sql_text_roundtrip:
  assumes "stmt_wf stmt"
  shows "parse_sql (sql_of stmt) = Inr stmt"
proof -
  obtain ts where ts: "tokenize_loop 0 (sql_of stmt) = Inr ts" "map lexeme_of ts = stmt_lexemes stmt @ [(kEnd, [])]"
    using tokenize_loop_print [OF stmt_lexemes_ok [OF assms]] by (auto simp: sql_of_def)
  then obtain us t where u: "ts = us @ [t]" "map lexeme_of us = stmt_lexemes stmt" "lexeme_of t = (kEnd, [])"
    by (auto simp: map_eq_append_conv)
  have "ParseStatement (us @ t # []) = Inr (stmt, t # [])"
    using reads_statement [OF assms] u(2,3) unfolding reads_def by blast
  then show ?thesis using ts(1) by (simp add: parse_sql_def Tokenize_def srun_def u(1))
qed

theorem sql_text_roundtrip_witness:
  "parse_sql (sql_of (Delete \<lparr>del_db_name = ''d'', del_table_name = ''t'',
       del_where = [\<lparr>cond_column = ''id'', cond_op = kNe, cond_literal = ''x''\<rparr>]\<rparr>))
   = Inr (Delete \<lparr>del_db_name = ''d'', del_table_name = ''t'',
       del_where = [\<lparr>cond_column = ''id'', cond_op = kNe, cond_literal = ''x''\<rparr>]\<rparr>)"
  by (rule sql_text_roundtrip)
    (simp add: is_ident_def IsIdentStart_def IsIdentChar_def isalnum_def isalpha_def isupper_def islower_def where_wf_def)

end
