(* ===== verification/Sql_Rows.thy ===== *)
theory Sql_Rows
  imports Sql_Store Sql_Text
begin

text \<open>
  Databases, tables and rows in the store.  \<open>db_ok\<close> is the invariant of the contents: every schema key holds a
  sound schema of a table in an existing database, and every row key holds a row of such a table, filed under its
  primary key, whose missing columns all have a default.  \<open>row_at\<close> is a row as a reader sees it, padded to the
  current schema.  Shown: every SQL text, accepted or not, keeps the invariant and never runs into undefined
  behaviour; and what each statement does to the rows.
\<close>

section \<open>Keys\<close>

lemma ident_no_slash: "is_ident d \<Longrightarrow> CHR ''/'' \<notin> set d"
  by (auto simp: is_ident_def IsIdentChar_def isalnum_def isalpha_def isupper_def islower_def isdigit_def)

lemma append_slash_inject:
  "CHR ''/'' \<notin> set a \<Longrightarrow> CHR ''/'' \<notin> set b \<Longrightarrow> a @ CHR ''/'' # x = b @ CHR ''/'' # y \<longleftrightarrow> a = b \<and> x = y"
proof (induction a arbitrary: b)
  case Nil
  then show ?case by (cases b) auto
next
  case (Cons c a)
  then show ?case by (cases b) auto
qed

lemma key_inject:
  assumes "is_ident d" "is_ident d'"
  shows "SchemaKey d t = SchemaKey d' t' \<longleftrightarrow> d = d' \<and> t = t'"
    and "is_ident t \<Longrightarrow> is_ident t' \<Longrightarrow> RowKey d t pk = RowKey d' t' pk' \<longleftrightarrow> d = d' \<and> t = t' \<and> pk = pk'"
    and "is_ident t \<Longrightarrow> is_ident t' \<Longrightarrow> StartsWith (RowKey d' t' pk') (RowPrefix d t) \<longleftrightarrow> d = d' \<and> t = t'"
proof -
  note ns = assms [THEN ident_no_slash]
  show "SchemaKey d t = SchemaKey d' t' \<longleftrightarrow> d = d' \<and> t = t'"
    using append_slash_inject [OF ns, of t t'] by (simp add: SchemaKey_def)
  assume "is_ident t" "is_ident t'"
  note nt = this [THEN ident_no_slash]
  show "RowKey d t pk = RowKey d' t' pk' \<longleftrightarrow> d = d' \<and> t = t' \<and> pk = pk'" for pk pk'
    using append_slash_inject [OF ns, of "t @ CHR ''/'' # pk" "t' @ CHR ''/'' # pk'"] append_slash_inject [OF nt]
    by (simp add: RowKey_def RowPrefix_def)
  show "StartsWith (RowKey d' t' pk') (RowPrefix d t) \<longleftrightarrow> d = d' \<and> t = t'"
  proof
    assume "StartsWith (RowKey d' t' pk') (RowPrefix d t)"
    then obtain r where "RowKey d' t' pk' = RowKey d t r" by (auto simp: StartsWith_prefix prefix_def RowKey_def)
    then show "d = d' \<and> t = t'"
      using append_slash_inject [OF ns(2,1), of "t' @ CHR ''/'' # pk'" "t @ CHR ''/'' # r"] append_slash_inject [OF nt(2,1), of pk' r]
      by (simp add: RowKey_def RowPrefix_def)
  qed (simp add: RowKey_def)
qed

lemma key_kinds [simp]:
  "SchemaKey d t \<noteq> RowKey d' t' pk" "RowKey d' t' pk \<noteq> SchemaKey d t" "DatabaseKey b \<noteq> SchemaKey d t" "DatabaseKey b \<noteq> RowKey d t pk"
  "SchemaKey d t \<noteq> DatabaseKey b" "RowKey d t pk \<noteq> DatabaseKey b"
  "StartsWith (SchemaKey d t) ''__schema__/''" "\<not> StartsWith (SchemaKey d t) ''__row__/''"
  "StartsWith (RowKey d t pk) ''__row__/''" "\<not> StartsWith (RowKey d t pk) ''__schema__/''"
  "\<not> StartsWith (DatabaseKey b) ''__schema__/''" "\<not> StartsWith (DatabaseKey b) ''__row__/''"
  by (auto simp: SchemaKey_def RowKey_def RowPrefix_def DatabaseKey_def StartsWith_prefix)

section \<open>The invariant of the contents\<close>

definition int_lit :: "string \<Rightarrow> bool" where
  "int_lit v \<longleftrightarrow> (let ds = (if v \<noteq> [] \<and> hd v = CHR ''-'' then tl v else v) in ds \<noteq> [] \<and> (\<forall>c \<in> set ds. isdigit c))"

definition pk_pos :: "TableSchema \<Rightarrow> nat" where
  "pk_pos s = nat (PrimaryKeyIndex s)"

definition ints_ok :: "TableSchema \<Rightarrow> string list \<Rightarrow> bool" where
  "ints_ok s row \<longleftrightarrow> (\<forall>i < length row. cd_type (columns s ! i) = kInt \<longrightarrow> int_lit (row ! i))"

definition schema_ok :: "TableSchema \<Rightarrow> bool" where
  "schema_ok s \<longleftrightarrow> schema_fits s \<and> length (filter primary_key (columns s)) = 1 \<and>
     (\<forall>c \<in> set (columns s). cd_type c = kInt \<longrightarrow> (\<forall>d. default_value c = Some d \<longrightarrow> int_lit d))"

definition row_ok :: "TableSchema \<Rightarrow> string \<Rightarrow> string list \<Rightarrow> bool" where
  "row_ok s pk row \<longleftrightarrow> distinct (names s) \<and> row_fits row \<and> length row \<le> length (columns s) \<and>
     pk_pos s < length row \<and> row ! pk_pos s = pk \<and> ints_ok s row \<and>
     (\<forall>c \<in> set (drop (length row) (columns s)). default_value c \<noteq> None)"

definition schema_entry :: "(string \<rightharpoonup> string) \<Rightarrow> string \<Rightarrow> string \<Rightarrow> bool" where
  "schema_entry f k v \<longleftrightarrow> (\<exists>d t s. k = SchemaKey d t \<and> v = Serialize s \<and> is_ident d \<and> is_ident t \<and> schema_ok s \<and>
     f (DatabaseKey d) \<noteq> None)"

definition row_entry :: "(string \<rightharpoonup> string) \<Rightarrow> string \<Rightarrow> string \<Rightarrow> bool" where
  "row_entry f k v \<longleftrightarrow> (\<exists>d t s pk row. k = RowKey d t pk \<and> v = EncodeRow row \<and> is_ident d \<and> is_ident t \<and>
     f (SchemaKey d t) = Some (Serialize s) \<and> schema_ok s \<and> row_ok s pk row)"

definition kv_ok :: "(string \<rightharpoonup> string) \<Rightarrow> bool" where
  "kv_ok f \<longleftrightarrow> (\<forall>k v. f k = Some v \<longrightarrow>
     (StartsWith k ''__schema__/'' \<longrightarrow> schema_entry f k v) \<and> (StartsWith k ''__row__/'' \<longrightarrow> row_entry f k v))"

definition db_ok :: "kv \<Rightarrow> bool" where
  "db_ok m \<longleftrightarrow> omap_ok m \<and> kv_ok (map_of m)"

lemma Validate_simps:
  "int_lit v \<Longrightarrow> ValidateIntLiteral c v = Inr ()"
  "\<not> int_lit v \<Longrightarrow> \<exists>msg. ValidateIntLiteral c v = Inl (RuntimeError msg)"
proof -
  have *: "if int_lit v then ValidateIntLiteral c v = Inr () else \<exists>msg. ValidateIntLiteral c v = Inl (RuntimeError msg)"
  proof (cases v)
    case Nil
    then show ?thesis by (simp add: ValidateIntLiteral_def int_lit_def)
  next
    case (Cons x xs)
    then show ?thesis by (cases "x = CHR ''-''") (auto simp: ValidateIntLiteral_def int_lit_def Let_def)
  qed
  then show "int_lit v \<Longrightarrow> ValidateIntLiteral c v = Inr ()" by simp
  from * show "\<not> int_lit v \<Longrightarrow> \<exists>msg. ValidateIntLiteral c v = Inl (RuntimeError msg)" by simp
qed

lemma schema_ok_pk:
  assumes "schema_ok s"
  shows "PrimaryKeyIndex s = int (pk_pos s)" "pk_pos s < length (columns s)" "primary_key (columns s ! pk_pos s)"
    "i < length (columns s) \<Longrightarrow> primary_key (columns s ! i) \<longleftrightarrow> i = pk_pos s"
proof -
  have "filter primary_key (columns s) \<noteq> []" using assms by (auto simp: schema_ok_def)
  then have ex: "\<exists>c \<in> set (columns s). primary_key c" by (simp add: filter_empty_conv)
  then show pk: "PrimaryKeyIndex s = int (pk_pos s)" by (simp add: PrimaryKeyIndex_eq pk_pos_def)
  have len: "pk_pos s = length (takeWhile (\<lambda>c. \<not> primary_key c) (columns s))"
    using ex by (simp add: PrimaryKeyIndex_eq pk_pos_def)
  obtain c where "c \<in> set (columns s)" "primary_key c" using ex by blast
  then show lt: "pk_pos s < length (columns s)"
    using length_takeWhile_lt [of c "columns s" "\<lambda>c. \<not> primary_key c"] by (simp add: len)
  then show p: "primary_key (columns s ! pk_pos s)"
    using nth_length_takeWhile [of "\<lambda>c. \<not> primary_key c" "columns s"] by (simp add: len)
  have one: "card {i. i < length (columns s) \<and> primary_key (columns s ! i)} = 1"
    using assms by (simp add: schema_ok_def length_filter_conv_card)
  then obtain j where j: "{i. i < length (columns s) \<and> primary_key (columns s ! i)} = {j}"
    by (meson card_1_singletonE)
  have mem: "i < length (columns s) \<and> primary_key (columns s ! i) \<longleftrightarrow> i = j" for i
    using j by (simp only: set_eq_iff mem_Collect_eq singleton_iff)
  from mem [of "pk_pos s"] lt p have "pk_pos s = j" by simp
  with mem [of i] show "i < length (columns s) \<Longrightarrow> primary_key (columns s ! i) \<longleftrightarrow> i = pk_pos s" by simp
qed

lemma schema_ok_fits: "schema_ok s \<Longrightarrow> Deserialize (Serialize s) = Inr s"
  by (simp add: schema_ok_def Deserialize_Serialize)

lemma Serialize_inject: "schema_ok s \<Longrightarrow> schema_ok s' \<Longrightarrow> Serialize s = Serialize s' \<longleftrightarrow> s = s'"
  by (metis schema_ok_fits sum.inject(2))

lemma kv_ok_schema:
  assumes "kv_ok f" and "f (SchemaKey d t) = Some b" and "is_ident d"
  obtains s where "b = Serialize s" "schema_ok s" "is_ident t" "f (DatabaseKey d) \<noteq> None"
proof -
  have "schema_entry f (SchemaKey d t) b" using assms(1,2) by (simp add: kv_ok_def)
  then obtain d' t' s where *: "SchemaKey d t = SchemaKey d' t'" "b = Serialize s" "is_ident d'" "is_ident t'" "schema_ok s"
    "f (DatabaseKey d') \<noteq> None" by (auto simp: schema_entry_def)
  with key_inject(1) [OF assms(3) *(3)] have "d' = d" "t' = t" by auto
  with * that show thesis by blast
qed

lemma kv_ok_row:
  assumes "kv_ok f" and "f (RowKey d t pk) = Some b" and "is_ident d" and "is_ident t"
  obtains s row where "b = EncodeRow row" "f (SchemaKey d t) = Some (Serialize s)" "schema_ok s" "row_ok s pk row"
proof -
  have "row_entry f (RowKey d t pk) b" using assms(1,2) by (simp add: kv_ok_def)
  then obtain d' t' s pk' row where *: "RowKey d t pk = RowKey d' t' pk'" "b = EncodeRow row" "is_ident d'" "is_ident t'"
    "f (SchemaKey d' t') = Some (Serialize s)" "schema_ok s" "row_ok s pk' row" by (auto simp: row_entry_def)
  with key_inject(2) [OF assms(3) *(3) assms(4) *(4)] have "d' = d" "t' = t" "pk' = pk" by auto
  with * that show thesis by blast
qed

lemma LoadSchema_ok:
  assumes "kv_ok (map_of m)" and "is_ident d"
  shows "(case kv_LoadSchema m d t of Inl e \<Rightarrow> (\<exists>msg. e = RuntimeError msg) \<and> map_of m (SchemaKey d t) = None
    | Inr s \<Rightarrow> map_of m (SchemaKey d t) = Some (Serialize s) \<and> schema_ok s)"
proof (cases "map_of m (SchemaKey d t)")
  case (Some b)
  then obtain s where "b = Serialize s" "schema_ok s" using kv_ok_schema [OF assms(1) Some assms(2)] by metis
  with Some show ?thesis by (simp add: kv_LoadSchema_def omap_find_def schema_ok_fits)
qed (simp add: kv_LoadSchema_def omap_find_def)

section \<open>Reading rows\<close>

definition padded :: "TableSchema \<Rightarrow> string list \<Rightarrow> string list" where
  "padded s row = row @ map (\<lambda>c. the (default_value c)) (drop (length row) (columns s))"

text \<open>A row of full length, as a reader sees it.\<close>

definition full_row :: "TableSchema \<Rightarrow> string \<Rightarrow> string list \<Rightarrow> bool" where
  "full_row s pk row \<longleftrightarrow> distinct (names s) \<and> length row = length (columns s) \<and> row ! pk_pos s = pk \<and> ints_ok s row"

lemma pad_with_eq: "\<forall>c \<in> set cs. default_value c \<noteq> None \<Longrightarrow> pad_with cs = Inr (map (\<lambda>c. the (default_value c)) cs)"
  by (induction cs) (auto simp: opt_deref_def)

lemma read_padded_row:
  assumes "row_ok s pk row"
  shows "read_padded s (EncodeRow row) = Inr (padded s row)"
  using assms by (simp add: read_padded_def DecodeRow_EncodeRow row_ok_def PadRow_def pad_with_eq padded_def)

lemma padded_full:
  assumes "schema_ok s" and "row_ok s pk row"
  shows "full_row s pk (padded s row)"
proof -
  have r: "length row \<le> length (columns s)" "pk_pos s < length row" "row ! pk_pos s = pk" "ints_ok s row" "distinct (names s)"
    "\<forall>c \<in> set (drop (length row) (columns s)). default_value c \<noteq> None" using assms(2) by (auto simp: row_ok_def)
  have "int_lit (padded s row ! i)" if i: "i < length (columns s)" "cd_type (columns s ! i) = kInt" for i
  proof (cases "i < length row")
    case True
    then show ?thesis using r(4) i by (simp add: padded_def ints_ok_def nth_append)
  next
    case False
    let ?c = "columns s ! i"
    have "?c \<in> set (drop (length row) (columns s))"
      using False i(1) by (metis in_set_conv_nth length_drop linordered_semidom_class.add_diff_inverse nth_drop diff_less_mono not_less r(1))
    then obtain d where d: "default_value ?c = Some d" using r(6) by blast
    then have "padded s row ! i = d" using False i(1) r(1) by (simp add: padded_def nth_append)
    moreover have "int_lit d" using assms(1) i d by (auto simp: schema_ok_def)
    ultimately show ?thesis by simp
  qed
  moreover have "length (padded s row) = length (columns s)" using r(1) by (simp add: padded_def)
  ultimately show ?thesis
    using r by (simp add: full_row_def ints_ok_def padded_def nth_append)
qed

lemma stoll_defined: "stoll v \<noteq> Inl Undefined"
  by (simp add: stoll_def split: option.split prod.split)

lemma CompareLiterals_defined: "CompareLiterals ty a op b \<noteq> Inl Undefined"
  using stoll_defined [of a] stoll_defined [of b]
  by (cases ty) (auto simp: CompareLiterals_def rbind_Inl_iff)

lemma MatchesWhere_defined:
  assumes "length row = length (columns s)"
  shows "MatchesWhere s row conds \<noteq> Inl Undefined"
proof (induction conds)
  case (Cons c cs)
  show ?case
  proof (cases "cond_column c \<in> set (names s)")
    case True
    then have "vec_int row (int (col_pos s (cond_column c))) = Inr (row ! col_pos s (cond_column c))"
      using col_pos_less [OF True] assms by (simp add: vec_int_def)
    then show ?thesis
      using True Cons CompareLiterals_defined by (auto simp: ColumnIndex_eq Let_def rbind_Inl_iff split: if_splits)
  qed (auto simp: ColumnIndex_eq)
qed simp

text \<open>The rows of a table, in the order of their keys, as readers see them.\<close>

definition row_at :: "kv \<Rightarrow> string \<Rightarrow> string \<Rightarrow> string \<Rightarrow> string list option" where
  "row_at m d t pk = (case kv_LoadSchema m d t of Inl _ \<Rightarrow> None
     | Inr s \<Rightarrow> (case omap_find (RowKey d t pk) m of None \<Rightarrow> None
         | Some blob \<Rightarrow> (case read_padded s blob of Inl _ \<Rightarrow> None | Inr row \<Rightarrow> Some row)))"

lemma row_at_Some:
  assumes "kv_ok (map_of m)" and "is_ident d" and "is_ident t" and "map_of m (RowKey d t pk) = Some blob"
  obtains s row where "kv_LoadSchema m d t = Inr s" "schema_ok s" "row_ok s pk row" "blob = EncodeRow row"
    "row_at m d t pk = Some (padded s row)" "full_row s pk (padded s row)"
proof -
  obtain s row where *: "blob = EncodeRow row" "map_of m (SchemaKey d t) = Some (Serialize s)" "schema_ok s" "row_ok s pk row"
    using kv_ok_row [OF assms(1,4,2,3)] by metis
  then have "kv_LoadSchema m d t = Inr s" by (simp add: kv_LoadSchema_def omap_find_def schema_ok_fits)
  with * assms(4) that [of s row] show thesis
    by (simp add: row_at_def omap_find_def read_padded_row padded_full)
qed

lemma row_at_None:
  assumes "kv_ok (map_of m)" and "is_ident d" and "is_ident t"
  shows "row_at m d t pk = None \<longleftrightarrow> map_of m (RowKey d t pk) = None"
proof (cases "map_of m (RowKey d t pk)")
  case None
  then show ?thesis by (simp add: row_at_def omap_find_def split: sum.split)
next
  case (Some blob)
  then show ?thesis using row_at_Some [OF assms Some] by (metis option.distinct(1))
qed

lemma scan_rows:
  assumes "db_ok m" and "is_ident d" and "is_ident t" and "(k, b) \<in> set (kv_scan m (RowPrefix d t))"
  obtains pk where "k = RowKey d t pk" "map_of m k = Some b"
proof -
  have m: "map_of m k = Some b" and p: "StartsWith k (RowPrefix d t)"
    using assms(1,4) by (auto simp: kv_scan_def db_ok_def omap_mem_iff)
  from p obtain pk where "k = RowKey d t pk" by (auto simp: StartsWith_prefix prefix_def RowKey_def)
  with m that show thesis by blast
qed

section \<open>Sizes\<close>

lemma length_concat_put_string: "length (concat (map put_string vs)) = sum_list (map (\<lambda>v. 4 + length v) vs)"
  by (induction vs) (simp_all add: put_string_def)

lemma EncodeRow_fits:
  assumes "length (EncodeRow row) < 2 ^ 32"
  shows "row_fits row"
proof -
  have l: "length (EncodeRow row) = 4 + sum_list (map (\<lambda>v. 4 + length v) row)"
    by (simp add: EncodeRow_def length_concat_put_string)
  have n: "length row \<le> sum_list (map (\<lambda>v. 4 + length v) row)"
    by (induction row) auto
  have "length v \<le> sum_list (map (\<lambda>v. 4 + length v) row)" if "v \<in> set row" for v
    using member_le_sum_list [of "4 + length v" "map (\<lambda>v. 4 + length v) row"] that by force
  with n assms show ?thesis unfolding row_fits_def fits32_def l by fastforce
qed

lemma Serialize_fits:
  assumes "length (Serialize s) < 2 ^ 32" and "columns s \<noteq> []"
  shows "schema_fits s"
proof -
  have l: "length (Serialize s) = 4 + sum_list (map (\<lambda>c. length (put_column c)) (columns s))"
    by (simp add: Serialize_def length_concat comp_def)
  have c: "length (cd_name c) + 1 \<le> length (put_column c)" "default_value c = Some d \<Longrightarrow> length d \<le> length (put_column c)" for c d
    by (simp_all add: put_column_def put_string_def put_flag_def)
  have n: "length (columns s) \<le> sum_list (map (\<lambda>c. length (put_column c)) (columns s))"
  proof (induction "columns s" arbitrary: s)
    case (Cons x xs)
    have "length xs \<le> sum_list (map (\<lambda>c. length (put_column c)) xs)" using Cons.hyps(1) [of "\<lparr>columns = xs\<rparr>"] by simp
    with c(1) [of x] show ?case by (simp add: Cons.hyps(2) [symmetric])
  qed simp
  have "length (put_column x) \<le> sum_list (map (\<lambda>c. length (put_column c)) (columns s))" if "x \<in> set (columns s)" for x
    using member_le_sum_list [of "length (put_column x)" "map (\<lambda>c. length (put_column c)) (columns s)"] that by force
  then have p: "length (put_column x) < 2 ^ 32" if "x \<in> set (columns s)" for x
    using assms(1) that by (intro le_less_trans [OF _ assms(1)]) (simp add: l trans_le_add2)
  have "column_fits x" if x: "x \<in> set (columns s)" for x
  proof -
    have "length (cd_name x) < 2 ^ 32"
      by (rule le_less_trans [OF _ p [OF x]]) (use c(1) [of x] in simp)
    moreover have "length d < 2 ^ 32" if "default_value x = Some d" for d
      by (rule le_less_trans [OF c(2) [OF that] p [OF x]])
    ultimately show ?thesis by (simp add: column_fits_def fits32_def)
  qed
  moreover have "length (columns s) < 2 ^ 32"
    by (rule le_less_trans [OF _ assms(1)]) (use n in \<open>simp add: l trans_le_add2\<close>)
  ultimately show ?thesis using assms(2) by (simp add: schema_fits_def fits32_def)
qed

section \<open>Filling a row\<close>

text \<open>The row of an INSERT in the order of the schema, and when it is accepted.\<close>

definition insert_row :: "TableSchema \<Rightarrow> string list \<Rightarrow> string list \<Rightarrow> string list" where
  "insert_row s cs vs = map (\<lambda>n. the (map_of (zip cs vs) n)) (names s)"

definition insertable :: "TableSchema \<Rightarrow> string list \<Rightarrow> string list \<Rightarrow> bool" where
  "insertable s cs vs \<longleftrightarrow> distinct cs \<and> set cs = set (names s) \<and> distinct (names s) \<and> ints_ok s (insert_row s cs vs)"

definition fill_ok :: "TableSchema \<Rightarrow> string list \<Rightarrow> string list \<Rightarrow> bool list \<Rightarrow> bool" where
  "fill_ok s cs vs filled \<longleftrightarrow> set cs \<subseteq> set (names s) \<and> distinct cs \<and> (\<forall>c \<in> set cs. \<not> filled ! col_pos s c) \<and>
     (\<forall>(c, v) \<in> set (zip cs vs). cd_type (columns s ! col_pos s c) = kInt \<longrightarrow> int_lit v)"

lemma col_pos_inject: "c \<in> set (names s) \<Longrightarrow> c' \<in> set (names s) \<Longrightarrow> col_pos s c = col_pos s c' \<longleftrightarrow> c = c'"
  by (metis names_col_pos)

lemma fill_ok_Cons:
  "fill_ok s (c # cs) (v # vs) filled \<longleftrightarrow> c \<in> set (names s) \<and> \<not> filled ! col_pos s c \<and>
     (cd_type (columns s ! col_pos s c) = kInt \<longrightarrow> int_lit v) \<and> c \<notin> set cs \<and> fill_ok s cs vs filled"
  unfolding fill_ok_def by (simp only: list.set zip_Cons_Cons distinct.simps insert_subset) blast

lemma fill_ok_filled:
  assumes "c \<in> set (names s)" and "col_pos s c < length filled"
  shows "fill_ok s cs vs (filled[col_pos s c := True]) \<longleftrightarrow> c \<notin> set cs \<and> fill_ok s cs vs filled"
proof (cases "set cs \<subseteq> set (names s)")
  case True
  have "(\<not> filled[col_pos s c := True] ! col_pos s x) \<longleftrightarrow> \<not> filled ! col_pos s x \<and> x \<noteq> c" if "x \<in> set cs" for x
  proof (cases "x = c")
    case False
    then have "col_pos s x \<noteq> col_pos s c" using col_pos_inject [of x s c] assms(1) that True by blast
    with False show ?thesis by simp
  qed (use assms(2) in simp)
  then show ?thesis unfolding fill_ok_def by blast
qed (simp add: fill_ok_def)

lemma fill_row_cases:
  assumes "length vs = length cs" and "length row = length (columns s)" and "length filled = length (columns s)"
  shows "if fill_ok s cs vs filled
    then \<exists>row' filled'. fill_row s cs vs (row, filled) = Inr (row', filled') \<and> length row' = length row \<and>
      (\<forall>(c, v) \<in> set (zip cs vs). row' ! col_pos s c = v) \<and> (\<forall>i. i \<notin> col_pos s ` set cs \<longrightarrow> row' ! i = row ! i)
    else \<exists>msg. fill_row s cs vs (row, filled) = Inl (RuntimeError msg)"
  using assms
proof (induction cs arbitrary: vs row filled)
  case Nil
  then show ?case by (simp add: fill_ok_def)
next
  case (Cons c cs)
  obtain v vs' where vs: "vs = v # vs'" "length vs' = length cs" using Cons.prems(1) by (cases vs) auto
  show ?case
  proof (cases "c \<in> set (names s) \<and> \<not> filled ! col_pos s c \<and> (cd_type (columns s ! col_pos s c) = kInt \<longrightarrow> int_lit v)")
    case False
    then have "\<exists>msg. fill_row s (c # cs) vs (row, filled) = Inl (RuntimeError msg)"
      using Validate_simps(2) [of v c] by (auto simp: vs ColumnIndex_eq Let_def)
    moreover have "\<not> fill_ok s (c # cs) vs filled" using False unfolding vs(1) fill_ok_Cons by blast
    ultimately show ?thesis by simp
  next
    case True
    let ?p = "col_pos s c" let ?row = "row[?p := v]" let ?filled = "filled[?p := True]"
    have p: "?p < length (columns s)" using True col_pos_less by blast
    have step: "fill_row s (c # cs) vs (row, filled) = fill_row s cs vs' (?row, ?filled)"
      using True Validate_simps(1) [of v c] by (simp add: vs ColumnIndex_eq)
    have ok: "fill_ok s (c # cs) vs filled \<longleftrightarrow> fill_ok s cs vs' ?filled"
      using True p Cons.prems(3) unfolding vs(1) fill_ok_Cons by (subst fill_ok_filled) auto
    have len: "length ?row = length (columns s)" "length ?filled = length (columns s)" using Cons.prems by simp_all
    note IH = Cons.IH [OF vs(2) len]
    show ?thesis
    proof (cases "fill_ok s cs vs' ?filled")
      case False
      then show ?thesis using IH ok step by simp
    next
      case okc: True
      then obtain row' filled' where r: "fill_row s cs vs' (?row, ?filled) = Inr (row', filled')" "length row' = length row"
        "\<forall>(c, v) \<in> set (zip cs vs'). row' ! col_pos s c = v" "\<forall>i. i \<notin> col_pos s ` set cs \<longrightarrow> row' ! i = ?row ! i"
        using IH by auto
      have f: "fill_ok s (c # cs) (v # vs') filled" using okc ok by (simp only: vs(1))
      have "c \<notin> set cs" "fill_ok s cs vs' filled" using f unfolding fill_ok_Cons by blast+
      then have "c \<notin> set cs" "set cs \<subseteq> set (names s)" unfolding fill_ok_def by blast+
      then have "col_pos s x \<noteq> ?p" if "x \<in> set cs" for x
        using that True col_pos_inject [of x s c] by (metis subsetD)
      then have "?p \<notin> col_pos s ` set cs" by (metis imageE)
      then have "row' ! ?p = v" using r(4) p Cons.prems(2) by simp
      then have "\<forall>(c, v) \<in> set (zip (c # cs) vs). row' ! col_pos s c = v" using r(3) by (simp add: vs(1))
      moreover have "\<forall>i. i \<notin> col_pos s ` set (c # cs) \<longrightarrow> row' ! i = row ! i" using r(4) by simp
      moreover have "fill_row s (c # cs) vs (row, filled) = Inr (row', filled')" using step r(1) by simp
      moreover have "fill_ok s (c # cs) vs filled" using f by (simp only: vs(1))
      ultimately show ?thesis using r(2) by (simp only: if_True) blast
    qed
  qed
qed

lemma fill_row_insertable:
  assumes "length cs = length (columns s)" and "length vs = length cs"
  shows "if insertable s cs vs
    then \<exists>filled. fill_row s cs vs (replicate (length (columns s)) [], replicate (length (columns s)) False) =
      Inr (insert_row s cs vs, filled)
    else \<exists>msg. fill_row s cs vs (replicate (length (columns s)) [], replicate (length (columns s)) False) = Inl (RuntimeError msg)"
proof -
  let ?n = "length (columns s)"
  let ?fill = "fill_row s cs vs (replicate ?n [], replicate ?n False)"
  have ok: "fill_ok s cs vs (replicate ?n False) \<longleftrightarrow> insertable s cs vs"
  proof
    assume f: "fill_ok s cs vs (replicate ?n False)"
    then have sub: "set cs \<subseteq> set (names s)" and d: "distinct cs" by (auto simp: fill_ok_def)
    have "card (set (names s)) \<le> ?n" by (metis card_length length_map)
    moreover have "card (set cs) = ?n" using d assms(1) by (simp add: distinct_card)
    moreover have "card (set cs) \<le> card (set (names s))" using sub by (simp add: card_mono)
    ultimately have c: "card (set (names s)) = ?n" by simp
    then have dn: "distinct (names s)" by (metis card_distinct length_map)
    have eq: "set cs = set (names s)"
      by (rule card_subset_eq) (use sub c \<open>card (set cs) = ?n\<close> in simp_all)
    have "int_lit (insert_row s cs vs ! i)" if i: "i < ?n" "cd_type (columns s ! i) = kInt" for i
    proof -
      let ?c = "names s ! i"
      have "?c \<in> set cs" using eq i(1) by (metis length_map nth_mem)
      then obtain v where v: "map_of (zip cs vs) ?c = Some v"
        using assms(2) by (metis map_of_zip_is_Some)
      then have "(?c, v) \<in> set (zip cs vs)" by (rule map_of_SomeD)
      moreover have "col_pos s ?c = i" using col_pos_nth [OF dn i(1)] i(1) by simp
      ultimately show ?thesis using f i v by (auto simp: fill_ok_def insert_row_def)
    qed
    then show "insertable s cs vs" using d eq dn by (simp add: insertable_def ints_ok_def insert_row_def)
  next
    assume i: "insertable s cs vs"
    then have d: "distinct cs" "set cs = set (names s)" "distinct (names s)" by (simp_all add: insertable_def)
    have "int_lit v" if cv: "(c, v) \<in> set (zip cs vs)" "cd_type (columns s ! col_pos s c) = kInt" for c v
    proof -
      have m: "map_of (zip cs vs) c = Some v" using cv(1) d(1) assms(2) by (simp add: map_of_zip_map)
      have "c \<in> set (names s)" using cv(1) d(2) by (auto dest: set_zip_leftD)
      note c = this col_pos_less [OF this] names_col_pos [OF this]
      have "int_lit (insert_row s cs vs ! col_pos s c)"
        using i c(2) cv(2) by (simp add: insertable_def ints_ok_def insert_row_def del: map_map)
      then show ?thesis using c(2,3) m by (simp add: insert_row_def)
    qed
    then show "fill_ok s cs vs (replicate ?n False)"
      using d col_pos_less by (auto simp: fill_ok_def)
  qed
  show ?thesis
  proof (cases "insertable s cs vs")
    case True
    then obtain row' filled' where r: "?fill = Inr (row', filled')" "length row' = ?n"
      "\<forall>(c, v) \<in> set (zip cs vs). row' ! col_pos s c = v"
      using fill_row_cases [of vs cs "replicate ?n []" s "replicate ?n False"] assms ok by auto
    have "row' = insert_row s cs vs"
    proof (rule nth_equalityI)
      show "length row' = length (insert_row s cs vs)" by (simp add: r(2) insert_row_def)
      fix i assume i: "i < length row'"
      have "names s ! i \<in> set cs" using True i r(2) by (metis insertable_def length_map nth_mem)
      then obtain v where v: "map_of (zip cs vs) (names s ! i) = Some v" using assms(2) by (metis map_of_zip_is_Some)
      moreover have "col_pos s (names s ! i) = i"
        using True i r(2) col_pos_nth [of s i] by (simp add: insertable_def)
      ultimately show "row' ! i = insert_row s cs vs ! i"
        using r(2,3) i map_of_SomeD [OF v] by (auto simp: insert_row_def)
    qed
    with r True show ?thesis by simp
  next
    case False
    then show ?thesis
      using fill_row_cases [of vs cs "replicate ?n []" s "replicate ?n False"] assms ok by auto
  qed
qed

section \<open>The rows a condition selects\<close>

text \<open>The rows a WHERE selects among scanned pairs, each with its key.\<close>

fun hits :: "TableSchema \<Rightarrow> Condition list \<Rightarrow> (string \<times> string) list \<Rightarrow> (string \<times> string list) list" where
  "hits s conds [] = []"
| "hits s conds ((k, b) # kvs) = (case read_padded s b of Inl _ \<Rightarrow> hits s conds kvs
     | Inr row \<Rightarrow> if MatchesWhere s row conds = Inr True then (k, row) # hits s conds kvs else hits s conds kvs)"

lemma rows_plan_success:
  "rows_plan s conds act kvs n = (ops, Inr n') \<Longrightarrow>
     ops = map (\<lambda>(k, row). act k row) (hits s conds kvs) \<and> n' = n + length (hits s conds kvs)"
proof (induction kvs arbitrary: n ops)
  case (Cons kv kvs)
  obtain k b where kv: "kv = (k, b)" by (cases kv)
  from Cons.prems obtain row m where r: "read_padded s b = Inr row" "MatchesWhere s row conds = Inr m"
    by (auto simp: kv pbind_def split: sum.splits)
  show ?case
  proof (cases m)
    case True
    obtain ops' r' where p: "rows_plan s conds act kvs (n + 1) = (ops', r')" by (cases "rows_plan s conds act kvs (n + 1)")
    with Cons.prems r True have "ops = act k row # ops'" "r' = Inr n'" by (auto simp: kv pbind_def)
    with Cons.IH [of "n + 1" ops'] p r True show ?thesis by (simp add: kv)
  next
    case False
    with Cons r show ?thesis by (simp add: kv pbind_def)
  qed
qed simp

lemma rows_plan_failure:
  "rows_plan s conds act kvs n = (ops, Inl e) \<Longrightarrow>
     prefix ops (map (\<lambda>(k, row). act k row) (hits s conds kvs)) \<and>
     (\<exists>(k, b) \<in> set kvs. read_padded s b = Inl e \<or> (\<exists>row. read_padded s b = Inr row \<and> MatchesWhere s row conds = Inl e))"
proof (induction kvs arbitrary: n ops)
  case (Cons kv kvs)
  obtain k b where kv: "kv = (k, b)" by (cases kv)
  show ?case
  proof (cases "read_padded s b")
    case (Inl x)
    with Cons.prems show ?thesis by (auto simp: kv pbind_def)
  next
    case row: (Inr row)
    show ?thesis
    proof (cases "MatchesWhere s row conds")
      case (Inl x)
      with Cons.prems row show ?thesis by (auto simp: kv pbind_def)
    next
      case (Inr m)
      obtain ops' r' where p: "rows_plan s conds act kvs (n + of_bool m) = (ops', r')"
        by (cases "rows_plan s conds act kvs (n + of_bool m)")
      with Cons.prems row Inr have o: "ops = (if m then [act k row] else []) @ ops'" "r' = Inl e"
        by (auto simp: kv pbind_def split: if_splits)
      from Cons.IH p o(2) have IH: "prefix ops' (map (\<lambda>(k, row). act k row) (hits s conds kvs))"
        "\<exists>(k, b) \<in> set kvs. read_padded s b = Inl e \<or> (\<exists>row. read_padded s b = Inr row \<and> MatchesWhere s row conds = Inl e)"
        by blast+
      then show ?thesis using o(1) row Inr by (auto simp: kv)
    qed
  qed
qed simp

lemma hits_mem:
  "(k, row) \<in> set (hits s conds kvs) \<longleftrightarrow> (\<exists>b. (k, b) \<in> set kvs \<and> read_padded s b = Inr row \<and> MatchesWhere s row conds = Inr True)"
  by (induction s conds kvs rule: hits.induct) (auto split: sum.splits)

lemma rows_plan_ops:
  assumes "rows_plan s conds act kvs n = (ops, r)" and "x \<in> set ops"
  obtains k b row where "x = act k row" "(k, b) \<in> set kvs" "read_padded s b = Inr row" "MatchesWhere s row conds = Inr True"
proof -
  have "set ops \<subseteq> (\<lambda>(k, row). act k row) ` set (hits s conds kvs)"
  proof -
    have "prefix ops (map (\<lambda>(k, row). act k row) (hits s conds kvs))"
    proof (cases r)
      case (Inl e)
      then show ?thesis using rows_plan_failure [of s conds act kvs n ops e] assms(1) by simp
    next
      case (Inr n')
      then show ?thesis using rows_plan_success [of s conds act kvs n ops n'] assms(1) by simp
    qed
    from set_mono_prefix [OF this] show ?thesis by simp
  qed
  with assms(2) obtain k row where x: "x = act k row" "(k, row) \<in> set (hits s conds kvs)" by auto
  then obtain b where "(k, b) \<in> set kvs" "read_padded s b = Inr row" "MatchesWhere s row conds = Inr True"
    unfolding hits_mem by blast
  with x(1) that show thesis by blast
qed

section \<open>Keeping the invariant\<close>

lemma entries_same:
  assumes "\<And>d t. g (SchemaKey d t) = f (SchemaKey d t)" and "\<And>d. g (DatabaseKey d) = f (DatabaseKey d)"
  shows "schema_entry g k v \<longleftrightarrow> schema_entry f k v" "row_entry g k v \<longleftrightarrow> row_entry f k v"
  using assms by (simp_all add: schema_entry_def row_entry_def)

text \<open>A write on a row: removing it, or putting a sound row under its key.\<close>

fun row_write :: "(string \<rightharpoonup> string) \<Rightarrow> store_op \<Rightarrow> bool" where
  "row_write f (OpPut k v) \<longleftrightarrow> row_entry f k v"
| "row_write f (OpDelete k) \<longleftrightarrow> (\<exists>d t pk. k = RowKey d t pk)"

lemma row_write_keys:
  assumes "row_write f x"
  shows "spec_op f x (SchemaKey d t) = f (SchemaKey d t)" "spec_op f x (DatabaseKey d) = f (DatabaseKey d)"
  using assms by (cases x; auto simp: row_entry_def)+

lemma kv_ok_row_write:
  assumes "kv_ok f" and "row_write f x"
  shows "kv_ok (spec_op f x)"
  unfolding kv_ok_def
proof (intro allI impI)
  fix k v assume k: "spec_op f x k = Some v"
  note same = entries_same [of "spec_op f x" f, OF row_write_keys [OF assms(2)]]
  show "(StartsWith k ''__schema__/'' \<longrightarrow> schema_entry (spec_op f x) k v) \<and> (StartsWith k ''__row__/'' \<longrightarrow> row_entry (spec_op f x) k v)"
  proof (cases "f k = Some v")
    case True
    then show ?thesis using assms(1) by (simp add: same kv_ok_def)
  next
    case False
    with k obtain k' where x: "x = OpPut k v" by (cases x) (auto split: if_splits)
    with assms(2) have r: "row_entry f k v" by simp
    then have "\<not> StartsWith k ''__schema__/''" by (auto simp: row_entry_def)
    with r show ?thesis by (simp only: same) blast
  qed
qed

lemma kv_ok_row_writes:
  "kv_ok f \<Longrightarrow> \<forall>x \<in> set ops. row_write f x \<Longrightarrow> kv_ok (foldl spec_op f ops)"
proof (induction ops arbitrary: f)
  case (Cons x ops)
  have x: "row_write f x" using Cons.prems by simp
  have "row_write (spec_op f x) y \<longleftrightarrow> row_write f y" for y
    by (cases y) (simp_all add: entries_same [of "spec_op f x" f, OF row_write_keys [OF x]])
  then show ?case using Cons kv_ok_row_write [OF Cons.prems(1) x] by simp
qed simp

text \<open>A new database or a new table.\<close>

lemma kv_ok_database:
  assumes "kv_ok f"
  shows "kv_ok (f(DatabaseKey d \<mapsto> v))"
  unfolding kv_ok_def
proof (intro allI impI)
  fix k b assume k: "(f(DatabaseKey d \<mapsto> v)) k = Some b"
  show "(StartsWith k ''__schema__/'' \<longrightarrow> schema_entry (f(DatabaseKey d \<mapsto> v)) k b) \<and>
      (StartsWith k ''__row__/'' \<longrightarrow> row_entry (f(DatabaseKey d \<mapsto> v)) k b)"
  proof (cases "k = DatabaseKey d")
    case False
    with k assms have "(StartsWith k ''__schema__/'' \<longrightarrow> schema_entry f k b) \<and> (StartsWith k ''__row__/'' \<longrightarrow> row_entry f k b)"
      by (simp add: kv_ok_def)
    moreover have "schema_entry f k b \<Longrightarrow> schema_entry (f(DatabaseKey d \<mapsto> v)) k b" by (fastforce simp: schema_entry_def)
    moreover have "row_entry f k b \<Longrightarrow> row_entry (f(DatabaseKey d \<mapsto> v)) k b" by (fastforce simp: row_entry_def)
    ultimately show ?thesis by blast
  qed simp
qed

text \<open>Putting a schema, when the rows already there are rows of it.\<close>

lemma kv_ok_schema_put:
  assumes f: "kv_ok f" and s: "schema_ok s" "is_ident d" "is_ident t" "f (DatabaseKey d) \<noteq> None"
    and rows: "\<And>s' pk row. f (SchemaKey d t) = Some (Serialize s') \<Longrightarrow> schema_ok s' \<Longrightarrow> row_ok s' pk row \<Longrightarrow> row_ok s pk row"
  shows "kv_ok (f(SchemaKey d t \<mapsto> Serialize s))" (is "kv_ok ?g")
  unfolding kv_ok_def
proof (intro allI impI)
  fix k b assume k: "?g k = Some b"
  show "(StartsWith k ''__schema__/'' \<longrightarrow> schema_entry ?g k b) \<and> (StartsWith k ''__row__/'' \<longrightarrow> row_entry ?g k b)"
  proof (cases "k = SchemaKey d t")
    case True
    with k s show ?thesis by (auto simp: schema_entry_def)
  next
    case False
    with k f have *: "(StartsWith k ''__schema__/'' \<longrightarrow> schema_entry f k b) \<and> (StartsWith k ''__row__/'' \<longrightarrow> row_entry f k b)"
      by (simp add: kv_ok_def)
    have "row_entry ?g k b" if "row_entry f k b"
    proof -
      from that obtain d' t' s' pk row where r: "k = RowKey d' t' pk" "b = EncodeRow row" "is_ident d'" "is_ident t'"
        "f (SchemaKey d' t') = Some (Serialize s')" "schema_ok s'" "row_ok s' pk row" by (auto simp: row_entry_def)
      show ?thesis
      proof (cases "d' = d \<and> t' = t")
        case True
        then have "row_ok s pk row" using rows r by blast
        with True r s show ?thesis unfolding row_entry_def by (intro exI [of _ d] exI [of _ t] exI [of _ s] exI [of _ pk] exI [of _ row]) simp
      next
        case False
        then have "?g (SchemaKey d' t') = Some (Serialize s')" using r key_inject(1) [OF r(3) s(2)] by auto
        with r show ?thesis unfolding row_entry_def by blast
      qed
    qed
    moreover have "schema_entry f k b \<Longrightarrow> schema_entry ?g k b" by (fastforce simp: schema_entry_def)
    ultimately show ?thesis using * by blast
  qed
qed

end
