(* ===== verification/Sql_Effects.thy ===== *)
theory Sql_Effects
  imports Sql_Rows
begin

text \<open>
  The plan of every statement is safe on contents that satisfy \<open>db_ok\<close>: it does not run into undefined behaviour,
  and what it writes keeps \<open>db_ok\<close>.  On the way, what the plans of INSERT, ALTER TABLE, SELECT and UPDATE are.
\<close>

section \<open>Safe plans\<close>

definition plan_safe :: "kv \<Rightarrow> 'a plan \<Rightarrow> bool" where
  "plan_safe m p \<longleftrightarrow> snd p \<noteq> Inl Undefined \<and> (ops_cost (fst p) < 2 ^ 32 \<longrightarrow> db_ok (foldl kv_apply m (fst p)))"

lemma db_ok_writes: "omap_ok m \<Longrightarrow> db_ok (foldl kv_apply m ops) \<longleftrightarrow> kv_ok (foldl spec_op (map_of m) ops)"
  by (simp add: db_ok_def foldl_kv_apply_ok map_of_foldl_kv_apply)

lemma plan_safe_none: "db_ok m \<Longrightarrow> plan_safe m ([], r) \<longleftrightarrow> r \<noteq> Inl Undefined"
  by (simp add: plan_safe_def)

lemma plan_safe_error: "db_ok m \<Longrightarrow> \<exists>msg. p = ([], Inl (RuntimeError msg)) \<Longrightarrow> plan_safe m p"
  by (auto simp: plan_safe_def)

lemma plan_safe_pbind:
  "r \<noteq> Inl Undefined \<Longrightarrow> db_ok m \<Longrightarrow> (\<And>x. r = Inr x \<Longrightarrow> plan_safe m (f x)) \<Longrightarrow> plan_safe m (pbind r f)"
  by (cases r) (auto simp: pbind_def plan_safe_none)

lemma plan_safe_pmap: "plan_safe m p \<Longrightarrow> plan_safe m (pmap f p)"
  by (auto simp: plan_safe_def pmap_def rbind_Inl_iff)

lemma db_ok_kv: "db_ok m \<Longrightarrow> kv_ok (map_of m)"
  by (simp add: db_ok_def)

lemma plan_safe_rows:
  assumes "db_ok m" and "r \<noteq> Inl Undefined" and "\<And>x. x \<in> set ops \<Longrightarrow> op_cost x < 2 ^ 32 \<Longrightarrow> row_write (map_of m) x"
  shows "plan_safe m (ops, r)"
proof -
  have "op_cost x < 2 ^ 32" if "x \<in> set ops" "ops_cost ops < 2 ^ 32" for x
    using that member_le_sum_list [of "op_cost x" "map op_cost ops"] by auto
  then have "kv_ok (foldl spec_op (map_of m) ops)" if "ops_cost ops < 2 ^ 32"
    using that assms(3) by (intro kv_ok_row_writes [OF db_ok_kv [OF assms(1)]]) blast
  with assms(1,2) show ?thesis by (simp add: plan_safe_def db_ok_writes [of m ops] db_ok_def [of m])
qed

lemma put_fits: "op_cost (OpPut k v) < 2 ^ 32 \<Longrightarrow> length v < 2 ^ 32"
  by (simp add: put_cost_def)

lemma LoadSchema_cases:
  assumes "db_ok m" and "is_ident d"
  shows "kv_LoadSchema m d t \<noteq> Inl Undefined"
    and "kv_LoadSchema m d t = Inr s \<Longrightarrow> map_of m (SchemaKey d t) = Some (Serialize s)"
    and "kv_LoadSchema m d t = Inr s \<Longrightarrow> schema_ok s"
  using LoadSchema_ok [OF db_ok_kv [OF assms(1)] assms(2), of t] by (auto split: sum.splits)

lemma Validate_defined: "ValidateIntLiteral c v \<noteq> Inl Undefined"
  using Validate_simps [of v c] by (cases "int_lit v") auto

lemma Validate_Inr: "ValidateIntLiteral c v = Inr x \<longleftrightarrow> int_lit v"
  using Validate_simps [of v c] by (cases "int_lit v") auto

section \<open>Scanned rows\<close>

text \<open>Each pair that a scan of a table gives is a row of it, as a reader sees it under its primary key.\<close>

lemma scan_row:
  assumes "db_ok m" and "is_ident d" and "is_ident t" and "kv_LoadSchema m d t = Inr s"
    and "(k, b) \<in> set (kv_scan m (RowPrefix d t))"
  obtains pk row where "k = RowKey d t pk" "read_padded s b = Inr row" "row_at m d t pk = Some row" "full_row s pk row"
proof -
  obtain pk where k: "k = RowKey d t pk" "map_of m k = Some b" using scan_rows [OF assms(1-3,5)] .
  obtain s' row where "kv_LoadSchema m d t = Inr s'" "row_ok s' pk row" "b = EncodeRow row"
    "row_at m d t pk = Some (padded s' row)" "full_row s' pk (padded s' row)"
    using row_at_Some [OF db_ok_kv [OF assms(1)] assms(2,3)] k by metis
  with k(1) that [of pk "padded s' row"] assms(4) show thesis by (simp add: read_padded_row)
qed

lemma row_at_scan:
  assumes "db_ok m" and "is_ident d" and "is_ident t" and "kv_LoadSchema m d t = Inr s" and "row_at m d t pk = Some row"
  obtains b where "(RowKey d t pk, b) \<in> set (kv_scan m (RowPrefix d t))" "read_padded s b = Inr row"
proof -
  from assms(4,5) obtain b where b: "omap_find (RowKey d t pk) m = Some b" "read_padded s b = Inr row"
    by (auto simp: row_at_def split: option.splits sum.splits)
  then have "(RowKey d t pk, b) \<in> set m" using assms(1) by (simp add: omap_find_def db_ok_def omap_mem_iff)
  then have "(RowKey d t pk, b) \<in> set (kv_scan m (RowPrefix d t))"
    by (simp add: kv_scan_def RowKey_def)
  with b(2) that show thesis by blast
qed

lemma full_row_length: "full_row s pk row \<Longrightarrow> length row = length (columns s)"
  by (simp add: full_row_def)

lemma rows_plan_defined:
  assumes "db_ok m" and "is_ident d" and "is_ident t" and "kv_LoadSchema m d t = Inr s"
  shows "snd (rows_plan s conds act (kv_scan m (RowPrefix d t)) n) \<noteq> Inl Undefined"
proof
  assume u: "snd (rows_plan s conds act (kv_scan m (RowPrefix d t)) n) = Inl Undefined"
  obtain ops where "rows_plan s conds act (kv_scan m (RowPrefix d t)) n = (ops, Inl Undefined)"
    using u by (cases "rows_plan s conds act (kv_scan m (RowPrefix d t)) n") auto
  from rows_plan_failure [OF this] obtain k b where kb: "(k, b) \<in> set (kv_scan m (RowPrefix d t))"
    "read_padded s b = Inl Undefined \<or> (\<exists>row. read_padded s b = Inr row \<and> MatchesWhere s row conds = Inl Undefined)"
    by blast
  obtain pk row where "read_padded s b = Inr row" "full_row s pk row" using scan_row [OF assms kb(1)] .
  with kb(2) show False using MatchesWhere_defined [OF full_row_length] by auto
qed

section \<open>The invariant is kept\<close>

lemma resolve_assignments_defined: "resolve_assignments s p as \<noteq> Inl Undefined"
  using Validate_defined by (induction s p as rule: resolve_assignments.induct) (auto simp: Let_def rbind_Inl_iff)

lemma resolve_assignments_mem:
  "resolve_assignments s p as = Inr xs \<Longrightarrow> (i, v) \<in> set xs \<Longrightarrow>
     \<exists>c. c \<in> set (names s) \<and> i = int (col_pos s c) \<and> i \<noteq> p \<and> (cd_type (columns s ! nat i) = kInt \<longrightarrow> int_lit v)"
proof (induction as arbitrary: xs)
  case (Cons a as)
  then show ?case
    by (cases a) (auto simp: Let_def ColumnIndex_eq Validate_Inr rbind_Inr_iff split: if_splits)
qed simp

lemma assign_row_Nil [simp]: "assign_row [] row = row"
  and assign_row_Cons [simp]: "assign_row ((i, v) # as) row = assign_row as (row[nat i := v])"
  by (simp_all add: assign_row_def)

lemma assign_row_full:
  assumes "schema_ok s" and "resolve_assignments s (PrimaryKeyIndex s) as = Inr xs" and "full_row s pk row"
  shows "full_row s pk (assign_row xs row)"
proof -
  have "full_row s pk (assign_row ys row)" if "set ys \<subseteq> set xs" "full_row s pk row" for ys row
    using that
  proof (induction ys arbitrary: row)
    case (Cons y ys)
    obtain i v where y: "y = (i, v)" by (cases y)
    with Cons.prems(1) have "(i, v) \<in> set xs" by simp
    from resolve_assignments_mem [OF assms(2) this] have i: "nat i \<noteq> pk_pos s"
      "cd_type (columns s ! nat i) = kInt \<Longrightarrow> int_lit v"
      using schema_ok_pk(1) [OF assms(1)] by auto
    have "int_lit (row[nat i := v] ! j)" if "j < length (columns s)" "cd_type (columns s ! j) = kInt" for j
      using Cons.prems(2) i(2) that by (cases "nat i = j") (auto simp: full_row_def ints_ok_def)
    then have "full_row s pk (row[nat i := v])"
      using Cons.prems(2) i(1) by (simp add: full_row_def ints_ok_def)
    with Cons y show ?case by simp
  qed simp
  with assms(3) show ?thesis by blast
qed

lemma full_row_ok: "schema_ok s \<Longrightarrow> full_row s pk row \<Longrightarrow> row_fits row \<Longrightarrow> row_ok s pk row"
  using schema_ok_pk(2) by (simp add: full_row_def row_ok_def)

lemma row_entryI:
  assumes "db_ok m" and "is_ident d" and "is_ident t" and "kv_LoadSchema m d t = Inr s" and "full_row s pk row"
    and "op_cost (OpPut k (EncodeRow row)) < 2 ^ 32"
  shows "row_entry (map_of m) (RowKey d t pk) (EncodeRow row)"
  unfolding row_entry_def using full_row_ok [OF _ assms(5)] EncodeRow_fits [OF put_fits [OF assms(6)]] LoadSchema_cases [OF assms(1,2)]
    assms(2-4) by blast

lemma update_safe:
  assumes "db_ok m" and "stmt_wf (Update u)"
  shows "plan_safe m (stmt_plan (Update u) m)"
proof -
  let ?d = "upd_db_name u" let ?t = "upd_table_name u"
  have wf: "is_ident ?d" "is_ident ?t" using assms(2) by simp_all
  have "plan_safe m (rows_plan s (upd_where u) (\<lambda>key row. OpPut key (EncodeRow (assign_row xs row))) (kv_scan m (RowPrefix ?d ?t)) 0)"
    if s: "kv_LoadSchema m ?d ?t = Inr s" and xs: "resolve_assignments s (PrimaryKeyIndex s) (upd_assignments u) = Inr xs" for s xs
  proof -
    obtain ops r where p: "rows_plan s (upd_where u) (\<lambda>key row. OpPut key (EncodeRow (assign_row xs row))) (kv_scan m (RowPrefix ?d ?t)) 0 = (ops, r)"
      by fastforce
    have "row_write (map_of m) x" if x: "x \<in> set ops" "op_cost x < 2 ^ 32" for x
    proof -
      obtain k b row where k: "x = OpPut k (EncodeRow (assign_row xs row))" "(k, b) \<in> set (kv_scan m (RowPrefix ?d ?t))"
        "read_padded s b = Inr row" using rows_plan_ops [OF p x(1)] by metis
      obtain pk row' where r: "k = RowKey ?d ?t pk" "read_padded s b = Inr row'" "full_row s pk row'"
        using scan_row [OF assms(1) wf s k(2)] by metis
      have "full_row s pk (assign_row xs row)"
        using assign_row_full [OF _ xs r(3)] LoadSchema_cases(3) [OF assms(1) wf(1) s] r(2) k(3) by simp
      from row_entryI [OF assms(1) wf s this] x(2) show ?thesis by (simp add: k(1) r(1))
    qed
    with p show ?thesis using rows_plan_defined [OF assms(1) wf s]
      by (metis plan_safe_rows [OF assms(1)] snd_conv)
  qed
  then show ?thesis
    by (auto intro!: plan_safe_pbind plan_safe_pmap simp: assms(1) LoadSchema_cases(1) wf resolve_assignments_defined)
qed

lemma delete_safe:
  assumes "db_ok m" and "stmt_wf (Delete u)"
  shows "plan_safe m (stmt_plan (Delete u) m)"
proof -
  let ?d = "del_db_name u" let ?t = "del_table_name u"
  have wf: "is_ident ?d" "is_ident ?t" using assms(2) by simp_all
  have "plan_safe m (rows_plan s (del_where u) (\<lambda>key row. OpDelete key) (kv_scan m (RowPrefix ?d ?t)) 0)"
    if s: "kv_LoadSchema m ?d ?t = Inr s" for s
  proof -
    obtain ops r where p: "rows_plan s (del_where u) (\<lambda>key row. OpDelete key) (kv_scan m (RowPrefix ?d ?t)) 0 = (ops, r)"
      by fastforce
    have "row_write (map_of m) x" if x: "x \<in> set ops" for x
    proof -
      obtain k b where k: "x = OpDelete k" "(k, b) \<in> set (kv_scan m (RowPrefix ?d ?t))"
        using rows_plan_ops [OF p x(1)] by metis
      obtain pk where "k = RowKey ?d ?t pk" using scan_rows [OF assms(1) wf k(2)] .
      with k(1) show ?thesis by auto
    qed
    with p show ?thesis using rows_plan_defined [OF assms(1) wf s]
      by (metis plan_safe_rows [OF assms(1)] snd_conv)
  qed
  then show ?thesis
    by (auto intro!: plan_safe_pbind plan_safe_pmap simp: assms(1) LoadSchema_cases(1) wf)
qed

lemma find_pk_column: "schema_ok s \<Longrightarrow> vec_int row (PrimaryKeyIndex s) = vec_at row (pk_pos s)"
  by (simp add: vec_int_def schema_ok_pk(1))

text \<open>An INSERT writes its row, or nothing.\<close>

lemma insert_plan:
  assumes m: "db_ok m" and wf: "stmt_wf (Insert u)" and s: "kv_LoadSchema m (ins_db_name u) (ins_table_name u) = Inr s"
  defines "row \<equiv> insert_row s (ins_columns u) (ins_values u)"
  defines "pk \<equiv> row ! pk_pos s"
  shows "if insertable s (ins_columns u) (ins_values u) \<and> row_at m (ins_db_name u) (ins_table_name u) pk = None
    then stmt_plan (Insert u) m = ([OpPut (RowKey (ins_db_name u) (ins_table_name u) pk) (EncodeRow row)], Inr ''OK'') \<and>
      full_row s pk row
    else \<exists>msg. stmt_plan (Insert u) m = ([], Inl (RuntimeError msg))"
proof -
  let ?d = "ins_db_name u" let ?t = "ins_table_name u" let ?cs = "ins_columns u" let ?vs = "ins_values u"
  have id: "is_ident ?d" "is_ident ?t" and len: "length ?vs = length ?cs" using wf by simp_all
  have sok: "schema_ok s" using LoadSchema_cases(3) [OF m id(1) s] .
  have lrow: "length row = length (columns s)" by (simp add: row_def insert_row_def)
  show ?thesis
  proof (cases "length ?cs = length (columns s)")
    case False
    have "\<not> insertable s ?cs ?vs"
    proof
      assume "insertable s ?cs ?vs"
      then have "length ?cs = length (names s)" unfolding insertable_def by (metis distinct_card)
      with False show False by simp
    qed
    then show ?thesis using False s by (simp add: pbind_def)
  next
    case True
    note fill = fill_row_insertable [OF True len]
    show ?thesis
    proof (cases "insertable s ?cs ?vs")
      case False
      then show ?thesis using fill s True by (auto simp: pbind_def)
    next
      case ins: True
      then obtain filled where f: "fill_row s ?cs ?vs (replicate (length (columns s)) [], replicate (length (columns s)) False) =
        Inr (row, filled)" using fill by (auto simp: row_def)
      have "vec_int row (PrimaryKeyIndex s) = Inr pk"
        using schema_ok_pk(2) [OF sok] by (simp add: find_pk_column sok lrow pk_def vec_at_def)
      moreover have "full_row s pk row"
        using ins lrow by (simp add: full_row_def insertable_def pk_def row_def)
      moreover have "row_at m ?d ?t pk = None \<longleftrightarrow> omap_find (RowKey ?d ?t pk) m = None"
        using row_at_None [OF db_ok_kv [OF m] id, of pk] by (simp add: omap_find_def)
      ultimately show ?thesis using ins True f s by (auto simp: pbind_def Let_def)
    qed
  qed
qed

lemma insert_safe:
  assumes "db_ok m" and "stmt_wf (Insert u)"
  shows "plan_safe m (stmt_plan (Insert u) m)"
proof (cases "kv_LoadSchema m (ins_db_name u) (ins_table_name u)")
  case (Inl e)
  then show ?thesis using LoadSchema_cases(1) [OF assms(1), of "ins_db_name u"] assms by (auto simp: pbind_def plan_safe_none)
next
  case (Inr s)
  have wf: "is_ident (ins_db_name u)" "is_ident (ins_table_name u)" using assms(2) by simp_all
  let ?row = "insert_row s (ins_columns u) (ins_values u)"
  have "plan_safe m ([OpPut (RowKey (ins_db_name u) (ins_table_name u) pk) (EncodeRow row)], Inr ''OK'')"
    if "full_row s pk row" for pk row
    using row_entryI [OF assms(1) wf Inr that] by (intro plan_safe_rows [OF assms(1)]) auto
  then show ?thesis
    using insert_plan [OF assms Inr] plan_safe_error [OF assms(1), of "stmt_plan (Insert u) m"]
    by (simp only: split: if_splits)
qed

text \<open>New schemas.\<close>

lemma schema_write_safe:
  assumes "db_ok m" and "is_ident d" "is_ident t" "map_of m (DatabaseKey d) \<noteq> None"
    and "schema_fits s \<Longrightarrow> schema_ok s" and "columns s \<noteq> []"
    and "\<And>s' pk row. map_of m (SchemaKey d t) = Some (Serialize s') \<Longrightarrow> schema_ok s' \<Longrightarrow> row_ok s' pk row \<Longrightarrow> row_ok s pk row"
  shows "plan_safe m ([OpPut (SchemaKey d t) (Serialize s)], Inr r)"
proof -
  have "schema_ok s" if "op_cost (OpPut (SchemaKey d t) (Serialize s)) < 2 ^ 32"
    using Serialize_fits [OF put_fits [OF that] assms(6)] assms(5) by blast
  then show ?thesis
    using assms(1-4,7) by (auto simp: plan_safe_def db_ok_def intro!: kv_ok_schema_put)
qed

text \<open>A column at the end of a schema.\<close>

definition add_column :: "TableSchema \<Rightarrow> ColumnDef \<Rightarrow> TableSchema" where
  "add_column s c = \<lparr>columns = columns s @ [c]\<rparr>"

definition column_addable :: "TableSchema \<Rightarrow> ColumnDef \<Rightarrow> bool" where
  "column_addable s c \<longleftrightarrow> cd_name c \<notin> set (names s) \<and> \<not> primary_key c \<and> default_value c \<noteq> None \<and>
     (cd_type c = kInt \<longrightarrow> int_lit (the (default_value c)))"

lemma add_column_ok:
  assumes "schema_ok s" and "column_addable s c"
  shows "schema_fits (add_column s c) \<Longrightarrow> schema_ok (add_column s c)" "pk_pos (add_column s c) = pk_pos s"
    "row_ok s pk row \<Longrightarrow> row_ok (add_column s c) pk row"
    "row_ok s pk row \<Longrightarrow> padded (add_column s c) row = padded s row @ [the (default_value c)]"
proof -
  show "schema_fits (add_column s c) \<Longrightarrow> schema_ok (add_column s c)"
    using assms by (auto simp: schema_ok_def add_column_def column_addable_def)
  have "\<exists>x \<in> set (columns s). primary_key x"
    using schema_ok_pk(2,3) [OF assms(1)] by (meson nth_mem)
  then show pk: "pk_pos (add_column s c) = pk_pos s"
    by (auto simp: pk_pos_def PrimaryKeyIndex_eq add_column_def takeWhile_append)
  assume r: "row_ok s pk row"
  then have "length row \<le> length (columns s)" by (simp add: row_ok_def)
  then show "row_ok (add_column s c) pk row"
    using r assms(2) pk by (auto simp: row_ok_def add_column_def column_addable_def ints_ok_def nth_append)
  show "padded (add_column s c) row = padded s row @ [the (default_value c)]"
    using r by (simp add: padded_def add_column_def row_ok_def)
qed

lemma alter_plan:
  assumes "db_ok m" and "stmt_wf (AlterTableAddColumn u)" and s: "kv_LoadSchema m (at_db_name u) (at_table_name u) = Inr s"
  shows "if column_addable s (at_column u)
    then stmt_plan (AlterTableAddColumn u) m =
      ([OpPut (SchemaKey (at_db_name u) (at_table_name u)) (Serialize (add_column s (at_column u)))], Inr ''OK'')
    else \<exists>msg. stmt_plan (AlterTableAddColumn u) m = ([], Inl (RuntimeError msg))"
  using assms(2) Validate_simps [of "the (default_value (at_column u))" "cd_name (at_column u)"]
  by (cases "int_lit (the (default_value (at_column u)))")
    (auto simp: pbind_def s ColumnIndex_eq column_addable_def add_column_def split: option.split)

lemma alter_safe:
  assumes "db_ok m" and "stmt_wf (AlterTableAddColumn u)"
  shows "plan_safe m (stmt_plan (AlterTableAddColumn u) m)"
proof (cases "kv_LoadSchema m (at_db_name u) (at_table_name u)")
  case (Inl e)
  then show ?thesis using LoadSchema_cases(1) [OF assms(1), of "at_db_name u"] assms by (auto simp: pbind_def plan_safe_none)
next
  case (Inr s)
  have wf: "is_ident (at_db_name u)" "is_ident (at_table_name u)" using assms(2) by simp_all
  note load = LoadSchema_cases(2,3) [OF assms(1) wf(1) Inr]
  have db: "map_of m (DatabaseKey (at_db_name u)) \<noteq> None"
    using kv_ok_schema [OF db_ok_kv [OF assms(1)] load(1) wf(1)] by metis
  show ?thesis
  proof (cases "column_addable s (at_column u)")
    case True
    note add = add_column_ok [OF load(2) True]
    have "row_ok (add_column s (at_column u)) pk row"
      if "map_of m (SchemaKey (at_db_name u) (at_table_name u)) = Some (Serialize s')" "schema_ok s'" "row_ok s' pk row" for s' pk row
      using that load add(3) Serialize_inject [OF load(2) that(2)] by simp
    then have "plan_safe m ([OpPut (SchemaKey (at_db_name u) (at_table_name u)) (Serialize (add_column s (at_column u)))], Inr ''OK'')"
      using add(1) by (intro schema_write_safe [OF assms(1) wf db]) (auto simp: add_column_def)
    with True show ?thesis using alter_plan [OF assms Inr] by simp
  next
    case False
    then show ?thesis using alter_plan [OF assms Inr] plan_safe_error [OF assms(1)] by (simp only: if_False)
  qed
qed

lemma create_table_safe:
  assumes "db_ok m" and "stmt_wf (CreateTable u)"
  shows "plan_safe m (stmt_plan (CreateTable u) m)"
proof -
  have "plan_safe m ([OpPut (SchemaKey (ct_db_name u) (ct_table_name u)) (Serialize \<lparr>columns = ct_columns u\<rparr>)], Inr ''OK'')"
    if "kv_RequireDatabase m (ct_db_name u) = Inr ()" "omap_find (SchemaKey (ct_db_name u) (ct_table_name u)) m = None"
    using assms that
    by (intro schema_write_safe) (auto simp: kv_RequireDatabase_def omap_find_def schema_ok_def column_wf_def split: if_splits)
  then show ?thesis
    using assms(1) by (auto intro!: plan_safe_pbind simp: plan_safe_none kv_RequireDatabase_def)
qed

text \<open>Reading.\<close>

lemma rmap_vec_defined:
  assumes "\<forall>i \<in> set is. 0 \<le> i \<and> i < int (length row)"
  shows "rmap (vec_int row) is = Inr (map (\<lambda>i. row ! nat i) is)"
  using assms by (induction "is") (auto simp: vec_int_def vec_at_def)

lemma resolve_columns_cases:
  "case resolve_columns s cs of Inl e \<Rightarrow> \<exists>c \<in> set cs. c \<notin> set (names s) \<and> e = RuntimeError (''no such column: '' @ c)
   | Inr (projection, headers) \<Rightarrow> headers = (if cs = [] then names s else cs) \<and> set headers \<subseteq> set (names s) \<and>
       length projection = length headers \<and> (\<forall>i \<in> set projection. 0 \<le> i \<and> i < int (length (columns s))) \<and>
       (cs \<noteq> [] \<longrightarrow> projection = map (\<lambda>c. int (col_pos s c)) cs) \<and> (cs = [] \<longrightarrow> projection = map int [0..<length (columns s)])"
proof -
  have *: "case rmap (\<lambda>name. let idx = ColumnIndex s name in if idx < 0 then Inl (RuntimeError (''no such column: '' @ name)) else Inr idx) cs of
    Inl e \<Rightarrow> \<exists>c \<in> set cs. c \<notin> set (names s) \<and> e = RuntimeError (''no such column: '' @ c)
    | Inr projection \<Rightarrow> set cs \<subseteq> set (names s) \<and> projection = map (\<lambda>c. int (col_pos s c)) cs"
  proof (induction cs)
    case (Cons c cs)
    then show ?case by (cases "c \<in> set (names s)") (auto simp: ColumnIndex_eq Let_def split: sum.splits)
  qed simp
  show ?thesis
    using * col_pos_less by (auto simp: resolve_columns_def Let_def split: sum.splits)
qed

text \<open>The lines of a SELECT: the projected rows that its condition selects, in the order of the scan.\<close>

lemma select_rows_cases:
  assumes "\<forall>k b. (k, b) \<in> set kvs \<longrightarrow> (\<exists>pk row. read_padded s b = Inr row \<and> full_row s pk row)"
    and "\<forall>i \<in> set ix. 0 \<le> i \<and> i < int (length (columns s))"
  shows "case select_rows s ix conds kvs of
      Inl e \<Rightarrow> e \<noteq> Undefined \<and> (\<exists>(k, b) \<in> set kvs. \<exists>row. read_padded s b = Inr row \<and> MatchesWhere s row conds = Inl e)
    | Inr ls \<Rightarrow> ls = map (\<lambda>(k, row). tabbed (map (\<lambda>i. row ! nat i) ix)) (hits s conds kvs)"
  using assms(1)
proof (induction kvs)
  case (Cons kv kvs)
  obtain k b where kv: "kv = (k, b)" by (cases kv)
  obtain pk row where row: "read_padded s b = Inr row" "full_row s pk row" using Cons.prems unfolding kv by (metis list.set_intros(1))
  note len = full_row_length [OF row(2)]
  have IH: "case select_rows s ix conds kvs of
      Inl e \<Rightarrow> e \<noteq> Undefined \<and> (\<exists>(k, b) \<in> set kvs. \<exists>row. read_padded s b = Inr row \<and> MatchesWhere s row conds = Inl e)
    | Inr ls \<Rightarrow> ls = map (\<lambda>(k, row). tabbed (map (\<lambda>i. row ! nat i) ix)) (hits s conds kvs)"
    using Cons.IH Cons.prems by simp
  have cells: "rmap (vec_int row) ix = Inr (map (\<lambda>i. row ! nat i) ix)"
    using assms(2) by (intro rmap_vec_defined) (simp add: len)
  show ?case
  proof (cases "MatchesWhere s row conds")
    case (Inl e)
    then show ?thesis using MatchesWhere_defined [OF len, of conds] row by (auto simp: kv)
  next
    case (Inr found)
    then show ?thesis using IH row cells by (cases found) (auto simp: kv split: sum.splits)
  qed
qed simp

lemma select_safe:
  assumes "db_ok m" and "stmt_wf (Select u)"
  shows "plan_safe m (stmt_plan (Select u) m)"
proof -
  let ?d = "sel_db_name u" let ?t = "sel_table_name u"
  have wf: "is_ident ?d" "is_ident ?t" using assms(2) by simp_all
  have "select_rows s projection (sel_where u) (kv_scan m (RowPrefix ?d ?t)) \<noteq> Inl Undefined"
    if s: "kv_LoadSchema m ?d ?t = Inr s" and p: "resolve_columns s (sel_columns u) = Inr (projection, headers)" for s projection headers
  proof -
    have "\<forall>k b. (k, b) \<in> set (kv_scan m (RowPrefix ?d ?t)) \<longrightarrow> (\<exists>pk row. read_padded s b = Inr row \<and> full_row s pk row)"
      using scan_row [OF assms(1) wf s] by metis
    moreover have "\<forall>i \<in> set projection. 0 \<le> i \<and> i < int (length (columns s))"
      using resolve_columns_cases [where s = s and cs = "sel_columns u"] p by simp
    ultimately show ?thesis
      using select_rows_cases [where s = s and ix = projection and conds = "sel_where u"] by fastforce
  qed
  moreover have "resolve_columns s (sel_columns u) \<noteq> Inl Undefined" for s
    using resolve_columns_cases [where s = s and cs = "sel_columns u"] by auto
  ultimately show ?thesis
    using LoadSchema_cases(1) [OF assms(1) wf(1), of ?t]
    by (simp add: plan_safe_none [OF assms(1)] rbind_Inl_iff split: prod.splits) blast
qed

lemma stmt_plan_safe:
  assumes "db_ok m" and "stmt_wf stmt"
  shows "plan_safe m (stmt_plan stmt m)"
proof (cases stmt)
  case (CreateDatabase u)
  then show ?thesis
    using assms(1) kv_ok_database [OF db_ok_kv [OF assms(1)], of "cdb_name u" "[]"]
    by (auto simp: plan_safe_none) (auto simp: plan_safe_def db_ok_def)
next
  case ShowTables
  then show ?thesis using assms(1) by (auto simp: plan_safe_none kv_RequireDatabase_def Let_def)
next
  case ShowDatabases
  then show ?thesis using assms(1) by (simp add: plan_safe_none)
qed (use assms create_table_safe insert_safe select_safe update_safe delete_safe alter_safe in \<open>simp_all only:\<close>)

lemma parse_sql_wf: "case parse_sql sql of Inl e \<Rightarrow> \<exists>msg. e = RuntimeError msg | Inr stmt \<Rightarrow> stmt_wf stmt"
proof (cases "Tokenize sql")
  case (Inl e)
  then show ?thesis using Tokenize_cases [of sql] by (simp add: parse_sql_def)
next
  case (Inr ts)
  then have ok: "tokens_ok ts" using Tokenize_cases [of sql] by simp
  show ?thesis
    using yields_statement ok Inr by (fastforce simp: parse_sql_def srun_def yields_def split: sum.splits)
qed

lemma sql_plan_safe:
  assumes "db_ok m"
  shows "plan_safe m (sql_plan sql m)"
  using parse_sql_wf [of sql] stmt_plan_safe [OF assms] unfolding sql_plan_def
  by (intro plan_safe_pbind [OF _ assms]) (auto split: sum.splits)

text \<open>The store after a text: what the plan writes.\<close>

lemma Execute_spec:
  assumes "eng_ok e" and "eng_used e + ops_cost (fst (sql_plan sql (contents e))) < eng_cap"
  shows "\<exists>e'. Execute sql e = (snd (sql_plan sql (contents e)), e') \<and> eng_ok e' \<and>
    contents e' = foldl kv_apply (contents e) (fst (sql_plan sql (contents e))) \<and>
    eng_used e' \<le> eng_used e + ops_cost (fst (sql_plan sql (contents e)))"
  using perform_spec [OF assms] by (simp add: Execute_plan [OF assms(1)])

end
