(* ===== verification/Sql_Tables.thy ===== *)
theory Sql_Tables
  imports Sql_Effects
begin

text \<open>
  What the statements do to databases and tables.  \<open>abs_state\<close> reads the store as a set of databases and a map from
  tables to schemas and rows; \<open>stmt_spec\<close> is the meaning of a statement on that.  Shown: every SQL text, accepted or
  not, keeps the invariant \<open>db_ok\<close> of the contents and never runs into undefined behaviour; an answered statement does
  what \<open>stmt_spec\<close> says, and one that throws does nothing, or changes the rows before the one it throws at (\<open>stmt_until\<close>); an INSERT adds exactly one row or none; a SELECT lists exactly the rows that its condition
  selects.
\<close>

section \<open>Databases and tables\<close>

text \<open>The store as a set of databases and a map of tables: each table is a schema and a map from primary keys to rows.\<close>

record database_state =
  databases :: "string set"
  tables :: "string \<times> string \<rightharpoonup> TableSchema \<times> (string \<rightharpoonup> string list)"

definition abs_state :: "kv \<Rightarrow> database_state" where
  "abs_state m = \<lparr>databases = {d. omap_find (DatabaseKey d) m \<noteq> None},
     tables = (\<lambda>(d, t). if is_ident d \<and> is_ident t
       then case kv_LoadSchema m d t of Inl _ \<Rightarrow> None | Inr s \<Rightarrow> Some (s, row_at m d t) else None)\<rparr>"

definition with_table :: "(string \<times> string) \<Rightarrow> (TableSchema \<Rightarrow> (string \<rightharpoonup> string list) \<Rightarrow> TableSchema \<times> (string \<rightharpoonup> string list)) \<Rightarrow>
    database_state \<Rightarrow> database_state" where
  "with_table x f st = st\<lparr>tables := (tables st)(x := map_option (\<lambda>(s, rows). f s rows) (tables st x))\<rparr>"

definition assignments_of :: "TableSchema \<Rightarrow> (string \<times> string) list \<Rightarrow> (int \<times> string) list" where
  "assignments_of s as = map (\<lambda>(c, v). (int (col_pos s c), v)) as"

text \<open>What an accepted statement does to the tables.\<close>

fun stmt_spec :: "Statement \<Rightarrow> database_state \<Rightarrow> database_state" where
  "stmt_spec (CreateDatabase u) st = st\<lparr>databases := insert (cdb_name u) (databases st)\<rparr>"
| "stmt_spec (CreateTable u) st =
     st\<lparr>tables := (tables st)((ct_db_name u, ct_table_name u) \<mapsto> (\<lparr>columns = ct_columns u\<rparr>, Map.empty))\<rparr>"
| "stmt_spec (AlterTableAddColumn u) st = with_table (at_db_name u, at_table_name u) (\<lambda>s rows.
     (add_column s (at_column u), \<lambda>pk. map_option (\<lambda>row. row @ [the (default_value (at_column u))]) (rows pk))) st"
| "stmt_spec (Insert u) st = with_table (ins_db_name u, ins_table_name u) (\<lambda>s rows.
     let row = insert_row s (ins_columns u) (ins_values u) in (s, rows(row ! pk_pos s \<mapsto> row))) st"
| "stmt_spec (Update u) st = with_table (upd_db_name u, upd_table_name u) (\<lambda>s rows.
     (s, \<lambda>pk. map_option (\<lambda>row. if MatchesWhere s row (upd_where u) = Inr True
        then assign_row (assignments_of s (upd_assignments u)) row else row) (rows pk))) st"
| "stmt_spec (Delete u) st = with_table (del_db_name u, del_table_name u) (\<lambda>s rows.
     (s, \<lambda>pk. Option.bind (rows pk) (\<lambda>row. if MatchesWhere s row (del_where u) = Inr True then None else Some row))) st"
| "stmt_spec _ st = st"

text \<open>A statement that throws at the row of a key: an UPDATE or a DELETE goes through the rows in the order of their keys and
  writes each as it comes to it, so that the rows before the one whose condition throws are changed and the others are
  not.\<close>

fun row_throws :: "Statement \<Rightarrow> string \<Rightarrow> exn \<Rightarrow> database_state \<Rightarrow> bool" where
  "row_throws (Update u) pk x st = (case tables st (upd_db_name u, upd_table_name u) of None \<Rightarrow> False
     | Some (s, rows) \<Rightarrow> (case rows pk of None \<Rightarrow> False | Some row \<Rightarrow> MatchesWhere s row (upd_where u) = Inl x))"
| "row_throws (Delete u) pk x st = (case tables st (del_db_name u, del_table_name u) of None \<Rightarrow> False
     | Some (s, rows) \<Rightarrow> (case rows pk of None \<Rightarrow> False | Some row \<Rightarrow> MatchesWhere s row (del_where u) = Inl x))"
| "row_throws _ pk x st = False"

fun stmt_until :: "string \<Rightarrow> Statement \<Rightarrow> database_state \<Rightarrow> database_state" where
  "stmt_until at (Update u) st = with_table (upd_db_name u, upd_table_name u) (\<lambda>s rows.
     (s, \<lambda>pk. map_option (\<lambda>row. if pk < at \<and> MatchesWhere s row (upd_where u) = Inr True
        then assign_row (assignments_of s (upd_assignments u)) row else row) (rows pk))) st"
| "stmt_until at (Delete u) st = with_table (del_db_name u, del_table_name u) (\<lambda>s rows.
     (s, \<lambda>pk. Option.bind (rows pk) (\<lambda>row. if pk < at \<and> MatchesWhere s row (del_where u) = Inr True then None else Some row))) st"
| "stmt_until at _ st = st"

lemma abs_table: "is_ident d \<Longrightarrow> is_ident t \<Longrightarrow> kv_LoadSchema m d t = Inr s \<Longrightarrow> tables (abs_state m) (d, t) = Some (s, row_at m d t)"
  by (simp add: abs_state_def)

lemma LoadSchema_same: "omap_find (SchemaKey d t) m' = omap_find (SchemaKey d t) m \<Longrightarrow> kv_LoadSchema m' d t = kv_LoadSchema m d t"
  by (simp add: kv_LoadSchema_def)

lemma row_at_same:
  "omap_find (SchemaKey d t) m' = omap_find (SchemaKey d t) m \<Longrightarrow> omap_find (RowKey d t pk) m' = omap_find (RowKey d t pk) m \<Longrightarrow>
     row_at m' d t pk = row_at m d t pk"
  unfolding row_at_def by (simp only: LoadSchema_same [of d t m' m])

text \<open>A change of one table is a change of that table only.\<close>

lemma abs_table_write:
  assumes id: "is_ident d" "is_ident t" and s: "kv_LoadSchema m' d t = Inr s"
    and same: "\<And>k. k \<noteq> SchemaKey d t \<Longrightarrow> (\<And>pk. k \<noteq> RowKey d t pk) \<Longrightarrow> omap_find k m' = omap_find k m"
  shows "abs_state m' = (abs_state m)\<lparr>tables := (tables (abs_state m))((d, t) \<mapsto> (s, row_at m' d t))\<rparr>"
proof -
  have other: "kv_LoadSchema m' d' t' = kv_LoadSchema m d' t' \<and> row_at m' d' t' = row_at m d' t'"
    if "is_ident d'" "is_ident t'" "(d', t') \<noteq> (d, t)" for d' t'
  proof -
    have a: "omap_find (SchemaKey d' t') m' = omap_find (SchemaKey d' t') m"
      using that key_inject(1) [OF that(1) id(1)] by (intro same) auto
    have "omap_find (RowKey d' t' pk) m' = omap_find (RowKey d' t' pk) m" for pk
      using that key_inject(2) [OF that(1) id(1) that(2) id(2)] by (intro same) auto
    then show ?thesis using LoadSchema_same [OF a] row_at_same [OF a] by (simp add: fun_eq_iff)
  qed
  have "tables (abs_state m') (d', t') = ((tables (abs_state m))((d, t) \<mapsto> (s, row_at m' d t))) (d', t')" for d' t'
  proof (cases "(d', t') = (d, t)")
    case False
    then have "((tables (abs_state m))((d, t) \<mapsto> (s, row_at m' d t))) (d', t') = tables (abs_state m) (d', t')"
      by (rule fun_upd_other)
    moreover have "tables (abs_state m') (d', t') = tables (abs_state m) (d', t')"
    proof (cases "is_ident d' \<and> is_ident t'")
      case True
      then show ?thesis using other [of d' t'] False by (simp only: abs_state_def database_state.simps prod.case simp_thms)
    qed (auto simp: abs_state_def)
    ultimately show ?thesis by (simp only:)
  qed (use id s in \<open>simp add: abs_state_def\<close>)
  then have "tables (abs_state m') = (tables (abs_state m))((d, t) \<mapsto> (s, row_at m' d t))"
    by (intro ext) (metis surj_pair)
  moreover have "databases (abs_state m') = databases (abs_state m)"
    using same by (simp add: abs_state_def)
  ultimately show ?thesis by (simp add: database_state.equality)
qed

text \<open>Writes on the rows of one table.\<close>

lemma abs_row_writes:
  assumes "db_ok m" and id: "is_ident d" "is_ident t" and s: "kv_LoadSchema m d t = Inr s"
    and ops: "\<forall>x \<in> set ops. \<exists>pk v. x = OpPut (RowKey d t pk) v \<or> x = OpDelete (RowKey d t pk)"
  shows "kv_LoadSchema (foldl kv_apply m ops) d t = Inr s"
    "abs_state (foldl kv_apply m ops) =
      (abs_state m)\<lparr>tables := (tables (abs_state m))((d, t) \<mapsto> (s, row_at (foldl kv_apply m ops) d t))\<rparr>"
proof -
  have "foldl spec_op f ops k = f k" if "\<And>pk. k \<noteq> RowKey d t pk" for f k
    using ops
  proof (induction ops arbitrary: f)
    case (Cons x ops)
    then have "spec_op f x k = f k" using that by auto
    with Cons show ?case by simp
  qed simp
  then have same: "omap_find k (foldl kv_apply m ops) = omap_find k m" if "\<And>pk. k \<noteq> RowKey d t pk" for k
    using assms(1) that by (simp add: omap_find_def map_of_foldl_kv_apply db_ok_def)
  then show load: "kv_LoadSchema (foldl kv_apply m ops) d t = Inr s"
    using s LoadSchema_same [of d t "foldl kv_apply m ops" m] by simp
  show "abs_state (foldl kv_apply m ops) =
      (abs_state m)\<lparr>tables := (tables (abs_state m))((d, t) \<mapsto> (s, row_at (foldl kv_apply m ops) d t))\<rparr>"
    by (rule abs_table_write [OF id load]) (rule same)
qed

lemma row_at_eq:
  assumes "kv_LoadSchema m d t = Inr s"
  shows "row_at m d t pk = Option.bind (omap_find (RowKey d t pk) m) (\<lambda>b. case read_padded s b of Inl _ \<Rightarrow> None | Inr row \<Rightarrow> Some row)"
  by (simp add: row_at_def assms split: option.split sum.split)

lemma puts_lookup:
  "distinct (map fst hs) \<Longrightarrow> foldl spec_op f (map (\<lambda>(k, row). OpPut k (g row)) hs) k =
     (case map_of hs k of None \<Rightarrow> f k | Some row \<Rightarrow> Some (g row))"
  by (induction hs arbitrary: f) (auto split: option.split dest: map_of_SomeD simp: rev_image_eqI)

lemma deletes_lookup:
  "foldl spec_op f (map (\<lambda>(k, row). OpDelete k) hs) k = (case map_of hs k of None \<Rightarrow> f k | Some row \<Rightarrow> None)"
  by (induction hs arbitrary: f) (auto split: option.split)

lemma hits_map_of:
  "distinct (map fst kvs) \<Longrightarrow> map_of (hits s conds kvs) k = Option.bind (map_of kvs k) (\<lambda>b. case read_padded s b of Inl _ \<Rightarrow> None
     | Inr row \<Rightarrow> if MatchesWhere s row conds = Inr True then Some row else None)"
proof (induction s conds kvs rule: hits.induct)
  case (2 s conds k' b kvs)
  then have "k = k' \<Longrightarrow> map_of kvs k = None" by (simp add: map_of_eq_None_iff)
  with 2 show ?case by (auto split: sum.split)
qed simp

lemma hits_distinct: "distinct (map fst kvs) \<Longrightarrow> distinct (map fst (hits s conds kvs))"
proof (induction s conds kvs rule: hits.induct)
  case (2 s conds k b kvs)
  have "k \<notin> fst ` set (hits s conds kvs)" using 2(4) hits_mem [of k _ s conds kvs] by force
  with 2 show ?case by (auto split: sum.split)
qed simp

lemma table_lookup:
  assumes "db_ok m"
  shows "map_of (kv_scan m (RowPrefix d t)) (RowKey d t pk) = omap_find (RowKey d t pk) m"
    and "distinct (map fst (kv_scan m p))"
proof -
  have ok: "omap_ok m" using assms by (simp add: db_ok_def)
  then show "map_of (kv_scan m (RowPrefix d t)) (RowKey d t pk) = omap_find (RowKey d t pk) m"
    using map_of_filter_key [of "\<lambda>k. StartsWith k (RowPrefix d t)" m] by (simp add: kv_scan_def omap_find_def RowKey_def)
  have "omap_ok (kv_scan m p)" using ok by (simp add: kv_scan_def omap_ok_filter)
  then show "distinct (map fst (kv_scan m p))" by (simp add: omap_ok_distinct)
qed

text \<open>The part of the rows of a table that a loop has gone through, as a condition on their primary keys.\<close>

definition rows_part :: "kv \<Rightarrow> string \<Rightarrow> string \<Rightarrow> (string \<Rightarrow> bool) \<Rightarrow> (string \<times> string) list \<Rightarrow> bool" where
  "rows_part m d t P kvs \<longleftrightarrow> set kvs \<subseteq> set (kv_scan m (RowPrefix d t)) \<and> distinct (map fst kvs) \<and>
     (\<forall>pk. map_of kvs (RowKey d t pk) = (if P pk then omap_find (RowKey d t pk) m else None))"

lemma rows_part_all: "db_ok m \<Longrightarrow> rows_part m d t (\<lambda>_. True) (kv_scan m (RowPrefix d t))"
  by (simp add: rows_part_def table_lookup)

lemma append_less: "p @ a < p @ b \<longleftrightarrow> a < (b :: string)"
  by (induction p) auto

lemma RowKey_less: "RowKey d t a < RowKey d t b \<longleftrightarrow> a < b"
  by (simp only: RowKey_def append_less)

lemma rows_part_before:
  assumes m: "db_ok m" and kvs: "kv_scan m (RowPrefix d t) = before @ (RowKey d t at, b) # after"
  shows "rows_part m d t (\<lambda>pk. pk < at) before"
proof -
  have "omap_ok (kv_scan m (RowPrefix d t))" using m by (simp add: db_ok_def kv_scan_def omap_ok_filter)
  then have sorted: "\<forall>x \<in> set before. fst x < RowKey d t at" "\<forall>x \<in> set after. RowKey d t at < fst x" "distinct (map fst before)"
    unfolding kvs omap_ok_append omap_ok_Cons by (auto simp: omap_ok_distinct)
  have "map_of before (RowKey d t pk) = (if pk < at then omap_find (RowKey d t pk) m else None)" for pk
  proof (cases "pk < at")
    case True
    then have "map_of ((RowKey d t at, b) # after) (RowKey d t pk) = None"
      using sorted(2) RowKey_less [of d t pk at] by (auto simp: map_of_eq_None_iff simp del: key_inject)
    with True show ?thesis unfolding table_lookup(1) [OF m, symmetric] kvs
      by (simp only: map_of_append map_add_def if_True split: option.split) simp
  next
    case False
    then show ?thesis using sorted(1) RowKey_less [of d t pk at] by (auto simp: map_of_eq_None_iff)
  qed
  with sorted(3) show ?thesis by (auto simp: rows_part_def kvs)
qed

text \<open>The row of a key among those that a condition selects.\<close>

lemma hits_row_at:
  assumes "kv_LoadSchema m d t = Inr s" and "rows_part m d t P kvs"
  shows "map_of (hits s conds kvs) (RowKey d t pk) =
    Option.bind (row_at m d t pk) (\<lambda>row. if P pk \<and> MatchesWhere s row conds = Inr True then Some row else None)"
proof -
  have part: "map_of kvs (RowKey d t pk) = (if P pk then omap_find (RowKey d t pk) m else None)" "distinct (map fst kvs)"
    using assms(2) by (simp_all add: rows_part_def)
  show ?thesis
    unfolding hits_map_of [OF part(2)] part(1) row_at_eq [OF assms(1)]
    by (cases "omap_find (RowKey d t pk) m") (auto split: sum.split)
qed

lemma row_at_write:
  assumes "db_ok m" and "kv_LoadSchema (foldl kv_apply m ops) d t = Inr s"
  shows "row_at (foldl kv_apply m ops) d t pk =
    Option.bind (foldl spec_op (map_of m) ops (RowKey d t pk)) (\<lambda>b. case read_padded s b of Inl _ \<Rightarrow> None | Inr row \<Rightarrow> Some row)"
  using assms(1) by (simp add: row_at_eq [OF assms(2)] omap_find_def map_of_foldl_kv_apply db_ok_def)

lemma read_padded_full:
  assumes "schema_ok s" and "full_row s pk row" and "length (EncodeRow row) < 2 ^ 32"
  shows "read_padded s (EncodeRow row) = Inr row"
proof -
  have "row_ok s pk row" using full_row_ok [OF assms(1,2)] EncodeRow_fits [OF assms(3)] by blast
  from read_padded_row [OF this] show ?thesis using assms(2) by (simp add: padded_def full_row_def)
qed

lemma resolve_assignments_Inr: "resolve_assignments s p as = Inr xs \<Longrightarrow> xs = assignments_of s as"
proof (induction as arbitrary: xs)
  case (Cons a as)
  then show ?case
    by (cases a) (auto simp: assignments_of_def Let_def ColumnIndex_eq rbind_Inr_iff split: if_splits)
qed (simp add: assignments_of_def)

lemma pbind_Inr: "snd (pbind r f) = Inr y \<longleftrightarrow> (\<exists>x. r = Inr x \<and> snd (f x) = Inr y)"
  by (cases r) (simp_all add: pbind_def)

lemma pbind_simps [simp]: "pbind (Inr x) f = f x" "pbind (Inl e) f = ([], Inl e)"
  by (simp_all add: pbind_def)

lemma op_cost_le: "x \<in> set ops \<Longrightarrow> op_cost x \<le> ops_cost ops"
  by (simp add: member_le_sum_list)

text \<open>The refinement, statement by statement.\<close>

definition refines :: "kv \<Rightarrow> Statement \<Rightarrow> bool" where
  "refines m stmt \<longleftrightarrow> (\<forall>txt. snd (stmt_plan stmt m) = Inr txt \<longrightarrow> ops_cost (fst (stmt_plan stmt m)) < 2 ^ 32 \<longrightarrow>
     abs_state (foldl kv_apply m (fst (stmt_plan stmt m))) = stmt_spec stmt (abs_state m))"

lemma DatabaseKey_inject: "DatabaseKey d = DatabaseKey d' \<longleftrightarrow> d = d'"
  by (simp add: DatabaseKey_def)

lemma refines_CreateDatabase:
  assumes "db_ok m"
  shows "refines m (CreateDatabase u)"
proof -
  let ?m = "omap_set (DatabaseKey (cdb_name u)) [] m"
  have find: "omap_find k ?m = (if k = DatabaseKey (cdb_name u) then Some [] else omap_find k m)" for k
    using assms by (simp add: omap_find_def db_ok_def)
  have "kv_LoadSchema ?m = kv_LoadSchema m" "row_at ?m = row_at m"
    by (intro ext LoadSchema_same row_at_same; simp add: find)+
  note same = this
  have "abs_state ?m = stmt_spec (CreateDatabase u) (abs_state m)"
    unfolding abs_state_def same by (auto simp: find DatabaseKey_inject)
  then show ?thesis by (simp add: refines_def)
qed

text \<open>A write of the schema of a table.\<close>

lemma abs_schema_write:
  assumes m: "db_ok m" and id: "is_ident d" "is_ident t" and s: "schema_ok s"
  defines "m' \<equiv> omap_set (SchemaKey d t) (Serialize s) m"
  shows "abs_state m' = (abs_state m)\<lparr>tables := (tables (abs_state m))((d, t) \<mapsto> (s, row_at m' d t))\<rparr>"
    and "row_at m' d t pk = Option.bind (omap_find (RowKey d t pk) m) (\<lambda>b. case read_padded s b of Inl _ \<Rightarrow> None | Inr row \<Rightarrow> Some row)"
proof -
  have find: "omap_find k m' = (if k = SchemaKey d t then Some (Serialize s) else omap_find k m)" for k
    using m by (simp add: omap_find_def db_ok_def m'_def)
  then have load: "kv_LoadSchema m' d t = Inr s" by (simp add: kv_LoadSchema_def schema_ok_fits s)
  show "abs_state m' = (abs_state m)\<lparr>tables := (tables (abs_state m))((d, t) \<mapsto> (s, row_at m' d t))\<rparr>"
    by (rule abs_table_write [OF id load]) (simp add: find)
  show "row_at m' d t pk = Option.bind (omap_find (RowKey d t pk) m) (\<lambda>b. case read_padded s b of Inl _ \<Rightarrow> None | Inr row \<Rightarrow> Some row)"
    by (simp add: row_at_eq [OF load] find)
qed

lemma refines_CreateTable:
  assumes "db_ok m" and "stmt_wf (CreateTable u)"
  shows "refines m (CreateTable u)"
proof -
  let ?d = "ct_db_name u" let ?t = "ct_table_name u" let ?s = "\<lparr>columns = ct_columns u\<rparr>"
  have id: "is_ident ?d" "is_ident ?t" using assms(2) by simp_all
  have "abs_state (omap_set (SchemaKey ?d ?t) (Serialize ?s) m) = stmt_spec (CreateTable u) (abs_state m)"
    if none: "omap_find (SchemaKey ?d ?t) m = None" and fits: "length (Serialize ?s) < 2 ^ 32"
  proof -
    have "schema_fits ?s" using assms(2) by (intro Serialize_fits [OF fits]) simp
    then have s: "schema_ok ?s" using assms(2) by (auto simp: schema_ok_def column_wf_def)
    have "map_of m (RowKey ?d ?t pk) = None" for pk
      using kv_ok_row [OF db_ok_kv [OF assms(1)] _ id] none by (metis not_Some_eq omap_find_def)
    then have "row_at (omap_set (SchemaKey ?d ?t) (Serialize ?s) m) ?d ?t = Map.empty"
      by (intro ext) (simp add: abs_schema_write(2) [OF assms(1) id s] omap_find_def)
    then show ?thesis by (simp add: abs_schema_write(1) [OF assms(1) id s])
  qed
  then show ?thesis
    using put_fits [of "SchemaKey ?d ?t" "Serialize ?s"]
    by (auto simp: refines_def pbind_Inr split: if_splits simp del: stmt_spec.simps)
qed

lemma refines_AlterTable:
  assumes "db_ok m" and wf: "stmt_wf (AlterTableAddColumn u)"
  shows "refines m (AlterTableAddColumn u)"
proof -
  let ?d = "at_db_name u" let ?t = "at_table_name u" let ?c = "at_column u"
  have id: "is_ident ?d" "is_ident ?t" using wf by simp_all
  have "abs_state (omap_set (SchemaKey ?d ?t) (Serialize (add_column s ?c)) m) = stmt_spec (AlterTableAddColumn u) (abs_state m)"
    if s: "kv_LoadSchema m ?d ?t = Inr s" and c: "column_addable s ?c" and fits: "length (Serialize (add_column s ?c)) < 2 ^ 32" for s
  proof -
    have sok: "schema_ok s" using LoadSchema_cases(3) [OF assms(1) id(1) s] .
    note add = add_column_ok [OF sok c]
    have "schema_ok (add_column s ?c)" using add(1) Serialize_fits [OF fits] by (simp add: add_column_def)
    note wr = abs_schema_write [OF assms(1) id this]
    have "row_at (omap_set (SchemaKey ?d ?t) (Serialize (add_column s ?c)) m) ?d ?t pk =
      map_option (\<lambda>row. row @ [the (default_value ?c)]) (row_at m ?d ?t pk)" for pk
    proof (cases "map_of m (RowKey ?d ?t pk)")
      case None
      then show ?thesis by (simp add: wr(2) row_at_eq [OF s] omap_find_def)
    next
      case (Some b)
      obtain s' row where *: "kv_LoadSchema m ?d ?t = Inr s'" "row_ok s' pk row" "b = EncodeRow row"
        "row_at m ?d ?t pk = Some (padded s' row)" using row_at_Some [OF db_ok_kv [OF assms(1)] id Some] by metis
      then have r: "s' = s" "row_ok s pk row" using s by simp_all
      have "row_at (omap_set (SchemaKey ?d ?t) (Serialize (add_column s ?c)) m) ?d ?t pk = Some (padded s row @ [the (default_value ?c)])"
        using Some by (simp add: wr(2) omap_find_def *(3) read_padded_row [OF add(3) [OF r(2)]] add(4) [OF r(2)])
      with *(4) r(1) show ?thesis by simp
    qed
    then show ?thesis
      by (simp add: wr(1) with_table_def abs_table [OF id s] fun_eq_iff)
  qed
  then show ?thesis
    using alter_plan [OF assms] put_fits
    unfolding refines_def by (cases "kv_LoadSchema m ?d ?t") (auto split: if_splits simp del: stmt_spec.simps)
qed

lemma refines_Insert:
  assumes "db_ok m" and wf: "stmt_wf (Insert u)"
  shows "refines m (Insert u)"
proof (cases "kv_LoadSchema m (ins_db_name u) (ins_table_name u)")
  case (Inl e)
  then show ?thesis by (simp add: refines_def)
next
  case s: (Inr s)
  let ?d = "ins_db_name u" let ?t = "ins_table_name u"
  let ?row = "insert_row s (ins_columns u) (ins_values u)" let ?pk = "?row ! pk_pos s"
  let ?ops = "[OpPut (RowKey ?d ?t ?pk) (EncodeRow ?row)]" let ?m = "foldl kv_apply m ?ops"
  have id: "is_ident ?d" "is_ident ?t" using wf by simp_all
  have "abs_state ?m = stmt_spec (Insert u) (abs_state m)" if full: "full_row s ?pk ?row" and fits: "length (EncodeRow ?row) < 2 ^ 32"
  proof -
    have ops: "\<forall>x \<in> set ?ops. \<exists>pk v. x = OpPut (RowKey ?d ?t pk) v \<or> x = OpDelete (RowKey ?d ?t pk)" by auto
    note wr = abs_row_writes [OF assms(1) id s ops]
    have "row_at ?m ?d ?t pk = ((row_at m ?d ?t)(?pk \<mapsto> ?row)) pk" for pk
      unfolding row_at_write [OF assms(1) wr(1)]
      using read_padded_full [OF LoadSchema_cases(3) [OF assms(1) id(1) s] full fits] key_inject(2) [OF id(1,1) id(2,2)]
      by (simp add: row_at_eq [OF s] omap_find_def)
    then have "row_at ?m ?d ?t = (row_at m ?d ?t)(?pk \<mapsto> ?row)" by (intro ext)
    then show ?thesis by (simp only: wr(2)) (simp add: with_table_def abs_table [OF id s] Let_def)
  qed
  then show ?thesis
    using insert_plan [OF assms s] put_fits [of "RowKey ?d ?t ?pk" "EncodeRow ?row"]
    by (auto simp: refines_def split: if_splits simp del: stmt_spec.simps stmt_plan.simps)
qed

text \<open>The writes of an UPDATE or DELETE on the rows that it has gone through.\<close>

lemma rows_write_refines:
  assumes m: "db_ok m" and id: "is_ident d" "is_ident t" and s: "kv_LoadSchema m d t = Inr s"
    and part: "rows_part m d t P kvs" and p: "ops = map (\<lambda>(k, row). act k row) (hits s conds kvs)"
    and act: "\<And>k row. act k row = OpDelete k \<or> (\<exists>v. act k row = OpPut k v)"
    and new: "\<And>pk. Option.bind (foldl spec_op (map_of m) ops (RowKey d t pk)) (\<lambda>b. case read_padded s b of Inl _ \<Rightarrow> None | Inr row \<Rightarrow> Some row) =
      Option.bind (row_at m d t pk) (\<lambda>row. if P pk \<and> MatchesWhere s row conds = Inr True then f row else Some row)"
  shows "abs_state (foldl kv_apply m ops) = with_table (d, t) (\<lambda>s rows. (s, \<lambda>pk. Option.bind (rows pk)
    (\<lambda>row. if P pk \<and> MatchesWhere s row conds = Inr True then f row else Some row))) (abs_state m)"
proof -
  have ops: "\<forall>x \<in> set ops. \<exists>pk v. x = OpPut (RowKey d t pk) v \<or> x = OpDelete (RowKey d t pk)"
  proof
    fix x assume "x \<in> set ops"
    then obtain k row where x: "x = act k row" "(k, row) \<in> set (hits s conds kvs)" unfolding p by auto
    then obtain b where "(k, b) \<in> set (kv_scan m (RowPrefix d t))"
      using part unfolding hits_mem rows_part_def by blast
    moreover then obtain pk where "k = RowKey d t pk" using scan_rows [OF m id] by metis
    ultimately show "\<exists>pk v. x = OpPut (RowKey d t pk) v \<or> x = OpDelete (RowKey d t pk)" using act [of k row] x(1) by auto
  qed
  note wr = abs_row_writes [OF m id s ops]
  have "row_at (foldl kv_apply m ops) d t = (\<lambda>pk. Option.bind (row_at m d t pk)
      (\<lambda>row. if P pk \<and> MatchesWhere s row conds = Inr True then f row else Some row))"
    by (rule ext) (simp only: row_at_write [OF m wr(1)] new)
  then show ?thesis by (simp only: wr(2)) (simp add: with_table_def abs_table [OF id s])
qed

lemma row_at_full:
  assumes "db_ok m" and "is_ident d" "is_ident t" and "kv_LoadSchema m d t = Inr s" and "row_at m d t pk = Some row"
  shows "full_row s pk row"
proof -
  obtain b where b: "map_of m (RowKey d t pk) = Some b" using assms(5) row_at_None [OF db_ok_kv [OF assms(1)] assms(2,3), of pk]
    by (cases "map_of m (RowKey d t pk)") auto
  obtain s' row' where "kv_LoadSchema m d t = Inr s'" "row_at m d t pk = Some (padded s' row')" "full_row s' pk (padded s' row')"
    using row_at_Some [OF db_ok_kv [OF assms(1)] assms(2,3) b] by metis
  with assms(4,5) show ?thesis by simp
qed

lemma bind_if_map: "Option.bind x (\<lambda>y. if P y then Some (f y) else Some y) = map_option (\<lambda>y. if P y then f y else y) x"
  by (cases x) auto

lemma update_writes:
  assumes m: "db_ok m" and id: "is_ident d" "is_ident t" and s: "kv_LoadSchema m d t = Inr s"
    and xs: "resolve_assignments s (PrimaryKeyIndex s) as = Inr xs" and part: "rows_part m d t P kvs"
    and ops: "ops = map (\<lambda>(k, row). OpPut k (EncodeRow (assign_row xs row))) (hits s conds kvs)"
    and cost: "ops_cost ops < 2 ^ 32"
  shows "abs_state (foldl kv_apply m ops) = with_table (d, t) (\<lambda>s rows. (s, \<lambda>pk. map_option
    (\<lambda>row. if P pk \<and> MatchesWhere s row conds = Inr True then assign_row (assignments_of s as) row else row) (rows pk))) (abs_state m)"
proof -
  let ?act = "\<lambda>key row. OpPut key (EncodeRow (assign_row xs row))"
  have sok: "schema_ok s" using LoadSchema_cases(3) [OF m id(1) s] .
  have dist: "distinct (map fst kvs)" using part by (simp add: rows_part_def)
  have written: "read_padded s (EncodeRow (assign_row xs row)) = Inr (assign_row xs row)"
    if row: "row_at m d t pk = Some row" and hit: "P pk" "MatchesWhere s row conds = Inr True" for pk row
  proof -
    have "map_of (hits s conds kvs) (RowKey d t pk) = Some row" by (simp add: hits_row_at [OF s part] row hit)
    then have "?act (RowKey d t pk) row \<in> set ops" unfolding ops by (force dest: map_of_SomeD)
    then have "length (EncodeRow (assign_row xs row)) < 2 ^ 32"
      using op_cost_le cost by (intro put_fits [of "RowKey d t pk"]) (metis le_less_trans)
    then show ?thesis by (rule read_padded_full [OF sok assign_row_full [OF sok xs row_at_full [OF m id s row]]])
  qed
  have "abs_state (foldl kv_apply m ops) = with_table (d, t) (\<lambda>s rows. (s, \<lambda>pk. Option.bind (rows pk)
    (\<lambda>row. if P pk \<and> MatchesWhere s row conds = Inr True then Some (assign_row xs row) else Some row))) (abs_state m)"
  proof (rule rows_write_refines [OF m id s part ops])
    fix pk
    show "Option.bind (foldl spec_op (map_of m) ops (RowKey d t pk)) (\<lambda>b. case read_padded s b of Inl _ \<Rightarrow> None | Inr row \<Rightarrow> Some row) =
      Option.bind (row_at m d t pk) (\<lambda>row. if P pk \<and> MatchesWhere s row conds = Inr True then Some (assign_row xs row) else Some row)"
      unfolding ops puts_lookup [OF hits_distinct [OF dist]] hits_row_at [OF s part]
      using written [of pk] row_at_eq [OF s, of pk, symmetric]
      by (cases "row_at m d t pk") (simp_all add: omap_find_def del: bind_assoc)
  qed simp
  then show ?thesis
    unfolding resolve_assignments_Inr [OF xs] by (simp add: with_table_def abs_table [OF id s] bind_if_map)
qed

lemma delete_writes:
  assumes m: "db_ok m" and id: "is_ident d" "is_ident t" and s: "kv_LoadSchema m d t = Inr s" and part: "rows_part m d t P kvs"
    and ops: "ops = map (\<lambda>(k, row). OpDelete k) (hits s conds kvs)"
  shows "abs_state (foldl kv_apply m ops) = with_table (d, t) (\<lambda>s rows. (s, \<lambda>pk. Option.bind (rows pk)
    (\<lambda>row. if P pk \<and> MatchesWhere s row conds = Inr True then None else Some row))) (abs_state m)"
proof (rule rows_write_refines [OF m id s part ops])
  fix pk
  show "Option.bind (foldl spec_op (map_of m) ops (RowKey d t pk)) (\<lambda>b. case read_padded s b of Inl _ \<Rightarrow> None | Inr row \<Rightarrow> Some row) =
    Option.bind (row_at m d t pk) (\<lambda>row. if P pk \<and> MatchesWhere s row conds = Inr True then None else Some row)"
    unfolding ops deletes_lookup hits_row_at [OF s part]
    using row_at_eq [OF s, of pk, symmetric]
    by (cases "row_at m d t pk") (simp_all add: omap_find_def del: bind_assoc)
qed simp

lemma refines_Update:
  assumes m: "db_ok m" and wf: "stmt_wf (Update u)"
  shows "refines m (Update u)"
  unfolding refines_def
proof (intro allI impI)
  let ?d = "upd_db_name u" let ?t = "upd_table_name u" let ?kvs = "kv_scan m (RowPrefix ?d ?t)"
  fix reply assume ok: "snd (stmt_plan (Update u) m) = Inr reply" and cost: "ops_cost (fst (stmt_plan (Update u) m)) < 2 ^ 32"
  have id: "is_ident ?d" "is_ident ?t" using wf by simp_all
  from ok obtain s xs where s: "kv_LoadSchema m ?d ?t = Inr s"
    and xs: "resolve_assignments s (PrimaryKeyIndex s) (upd_assignments u) = Inr xs"
    by (auto simp: pbind_Inr)
  let ?act = "\<lambda>key row. OpPut key (EncodeRow (assign_row xs row))"
  from ok obtain ops n where p: "rows_plan s (upd_where u) ?act ?kvs 0 = (ops, Inr n)"
    by (cases "rows_plan s (upd_where u) ?act ?kvs 0") (auto simp: s xs pmap_def rbind_Inr_iff)
  have fst: "fst (stmt_plan (Update u) m) = ops" by (simp add: s xs pmap_def p)
  from update_writes [OF m id s xs rows_part_all [OF m]] rows_plan_success [OF p] cost
  show "abs_state (foldl kv_apply m (fst (stmt_plan (Update u) m))) = stmt_spec (Update u) (abs_state m)" unfolding fst by simp
qed

lemma refines_Delete:
  assumes m: "db_ok m" and wf: "stmt_wf (Delete u)"
  shows "refines m (Delete u)"
  unfolding refines_def
proof (intro allI impI)
  let ?d = "del_db_name u" let ?t = "del_table_name u" let ?kvs = "kv_scan m (RowPrefix ?d ?t)"
  fix reply assume ok: "snd (stmt_plan (Delete u) m) = Inr reply"
  have id: "is_ident ?d" "is_ident ?t" using wf by simp_all
  from ok obtain s where s: "kv_LoadSchema m ?d ?t = Inr s" by (auto simp: pbind_Inr)
  from ok obtain ops n where p: "rows_plan s (del_where u) (\<lambda>key row. OpDelete key) ?kvs 0 = (ops, Inr n)"
    by (cases "rows_plan s (del_where u) (\<lambda>key row. OpDelete key) ?kvs 0") (auto simp: s pmap_def rbind_Inr_iff)
  have "fst (stmt_plan (Delete u) m) = ops" by (simp add: s pmap_def p)
  with delete_writes [OF m id s rows_part_all [OF m]] rows_plan_success [OF p]
  show "abs_state (foldl kv_apply m (fst (stmt_plan (Delete u) m))) = stmt_spec (Delete u) (abs_state m)" by simp
qed

text \<open>A loop that throws has gone through the rows before the one that it throws at.\<close>

lemma rows_plan_throw:
  "rows_plan s conds act kvs n = (ops, Inl x) \<Longrightarrow> \<exists>before k b after. kvs = before @ (k, b) # after \<and>
     ops = map (\<lambda>(k, row). act k row) (hits s conds before) \<and>
     (read_padded s b = Inl x \<or> (\<exists>row. read_padded s b = Inr row \<and> MatchesWhere s row conds = Inl x))"
proof (induction kvs arbitrary: n ops)
  case (Cons kv kvs)
  obtain k b where kv: "kv = (k, b)" by (cases kv)
  show ?case
  proof (cases "\<exists>row m. read_padded s b = Inr row \<and> MatchesWhere s row conds = Inr m")
    case False
    with Cons.prems have "ops = []" "read_padded s b = Inl x \<or> (\<exists>row. read_padded s b = Inr row \<and> MatchesWhere s row conds = Inl x)"
      by (auto simp: kv pbind_def split: sum.splits)
    then show ?thesis unfolding kv by (intro exI [of _ "[]"] exI [of _ k] exI [of _ b] exI [of _ kvs]) simp
  next
    case True
    then obtain row m where row: "read_padded s b = Inr row" "MatchesWhere s row conds = Inr m" by blast
    obtain ops' r' where p: "rows_plan s conds act kvs (n + of_bool m) = (ops', r')"
      by (cases "rows_plan s conds act kvs (n + of_bool m)")
    with Cons.prems row have o: "ops = (if m then [act k row] else []) @ ops'" "r' = Inl x"
      by (auto simp: kv pbind_def split: if_splits)
    from Cons.IH p o(2) obtain before k' b' after where IH: "kvs = before @ (k', b') # after"
      "ops' = map (\<lambda>(k, row). act k row) (hits s conds before)"
      "read_padded s b' = Inl x \<or> (\<exists>row. read_padded s b' = Inr row \<and> MatchesWhere s row conds = Inl x)" by blast
    show ?thesis unfolding kv
      by (intro exI [of _ "(k, b) # before"] exI [of _ k'] exI [of _ b'] exI [of _ after]) (simp add: IH o row)
  qed
qed simp

text \<open>A loop over the rows of a table throws only at a row whose condition throws.\<close>

lemma rows_plan_throw_row:
  assumes m: "db_ok m" and id: "is_ident d" "is_ident t" and s: "kv_LoadSchema m d t = Inr s"
    and p: "rows_plan s conds act (kv_scan m (RowPrefix d t)) n = (ops, Inl x)"
  obtains at row before where "row_at m d t at = Some row" "MatchesWhere s row conds = Inl x"
    "rows_part m d t (\<lambda>pk. pk < at) before" "ops = map (\<lambda>(k, row). act k row) (hits s conds before)"
proof -
  obtain before k b after where kvs: "kv_scan m (RowPrefix d t) = before @ (k, b) # after"
    and ops: "ops = map (\<lambda>(k, row). act k row) (hits s conds before)"
    and x: "read_padded s b = Inl x \<or> (\<exists>row. read_padded s b = Inr row \<and> MatchesWhere s row conds = Inl x)"
    using rows_plan_throw [OF p] by blast
  have "(k, b) \<in> set (kv_scan m (RowPrefix d t))" by (simp add: kvs)
  from scan_row [OF m id s this] obtain pk row where row: "k = RowKey d t pk" "read_padded s b = Inr row" "row_at m d t pk = Some row"
    by metis
  show thesis
    using that [OF row(3) _ rows_part_before [OF m kvs [unfolded row(1)]] ops] x row(2) by auto
qed

definition fails_well :: "kv \<Rightarrow> Statement \<Rightarrow> bool" where
  "fails_well m stmt \<longleftrightarrow> (\<forall>x. snd (stmt_plan stmt m) = Inl x \<longrightarrow> ops_cost (fst (stmt_plan stmt m)) < 2 ^ 32 \<longrightarrow>
     fst (stmt_plan stmt m) = [] \<or> (\<exists>pk. row_throws stmt pk x (abs_state m) \<and>
       abs_state (foldl kv_apply m (fst (stmt_plan stmt m))) = stmt_until pk stmt (abs_state m)))"

lemma fails_Update:
  assumes m: "db_ok m" and wf: "stmt_wf (Update u)"
  shows "fails_well m (Update u)"
  unfolding fails_well_def
proof (intro allI impI)
  let ?d = "upd_db_name u" let ?t = "upd_table_name u" let ?kvs = "kv_scan m (RowPrefix ?d ?t)" let ?plan = "stmt_plan (Update u) m"
  fix x assume bad: "snd ?plan = Inl x" and cost: "ops_cost (fst ?plan) < 2 ^ 32"
  have id: "is_ident ?d" "is_ident ?t" using wf by simp_all
  show "fst ?plan = [] \<or> (\<exists>pk. row_throws (Update u) pk x (abs_state m) \<and>
    abs_state (foldl kv_apply m (fst ?plan)) = stmt_until pk (Update u) (abs_state m))"
  proof (cases "\<exists>s xs. kv_LoadSchema m ?d ?t = Inr s \<and> resolve_assignments s (PrimaryKeyIndex s) (upd_assignments u) = Inr xs")
    case False
    then have "fst ?plan = []" by (auto simp: pbind_def split: sum.splits)
    then show ?thesis by (rule disjI1)
  next
    case True
    then obtain s xs where s: "kv_LoadSchema m ?d ?t = Inr s"
      and xs: "resolve_assignments s (PrimaryKeyIndex s) (upd_assignments u) = Inr xs" by blast
    let ?act = "\<lambda>key row. OpPut key (EncodeRow (assign_row xs row))"
    from bad obtain ops where p: "rows_plan s (upd_where u) ?act ?kvs 0 = (ops, Inl x)"
      by (cases "rows_plan s (upd_where u) ?act ?kvs 0") (auto simp: s xs pmap_def rbind_Inl_iff)
    have fst: "fst ?plan = ops" by (simp add: s xs pmap_def p)
    from rows_plan_throw_row [OF m id s p] obtain at row before where *: "row_at m ?d ?t at = Some row"
      "MatchesWhere s row (upd_where u) = Inl x" "rows_part m ?d ?t (\<lambda>pk. pk < at) before"
      "ops = map (\<lambda>(k, row). ?act k row) (hits s (upd_where u) before)" by metis
    have "row_throws (Update u) at x (abs_state m)" by (simp add: abs_table [OF id s] *(1,2))
    moreover have "abs_state (foldl kv_apply m ops) = stmt_until at (Update u) (abs_state m)"
      using update_writes [OF m id s xs *(3,4)] cost fst by simp
    ultimately show ?thesis unfolding fst by blast
  qed
qed

lemma fails_Delete:
  assumes m: "db_ok m" and wf: "stmt_wf (Delete u)"
  shows "fails_well m (Delete u)"
  unfolding fails_well_def
proof (intro allI impI)
  let ?d = "del_db_name u" let ?t = "del_table_name u" let ?kvs = "kv_scan m (RowPrefix ?d ?t)" let ?plan = "stmt_plan (Delete u) m"
  fix x assume bad: "snd ?plan = Inl x"
  have id: "is_ident ?d" "is_ident ?t" using wf by simp_all
  show "fst ?plan = [] \<or> (\<exists>pk. row_throws (Delete u) pk x (abs_state m) \<and>
    abs_state (foldl kv_apply m (fst ?plan)) = stmt_until pk (Delete u) (abs_state m))"
  proof (cases "kv_LoadSchema m ?d ?t")
    case (Inr s)
    from bad obtain ops where p: "rows_plan s (del_where u) (\<lambda>key row. OpDelete key) ?kvs 0 = (ops, Inl x)"
      by (cases "rows_plan s (del_where u) (\<lambda>key row. OpDelete key) ?kvs 0") (auto simp: Inr pmap_def rbind_Inl_iff)
    have fst: "fst ?plan = ops" by (simp add: Inr pmap_def p)
    from rows_plan_throw_row [OF m id Inr p] obtain at row before where *: "row_at m ?d ?t at = Some row"
      "MatchesWhere s row (del_where u) = Inl x" "rows_part m ?d ?t (\<lambda>pk. pk < at) before"
      "ops = map (\<lambda>(k, row). OpDelete k) (hits s (del_where u) before)" by metis
    have "row_throws (Delete u) at x (abs_state m)" by (simp add: abs_table [OF id Inr] *(1,2))
    moreover have "abs_state (foldl kv_apply m ops) = stmt_until at (Delete u) (abs_state m)"
      using delete_writes [OF m id Inr *(3,4)] by simp
    ultimately show ?thesis unfolding fst by blast
  qed (simp add: pbind_def)
qed

lemma stmt_fails:
  assumes "db_ok m" and "stmt_wf stmt"
  shows "fails_well m stmt"
proof (cases stmt)
  case (Update u)
  with fails_Update [OF assms(1)] assms(2) show ?thesis by simp
next
  case (Delete u)
  with fails_Delete [OF assms(1)] assms(2) show ?thesis by simp
qed (auto simp: fails_well_def pbind_def Let_def split: sum.splits if_splits option.splits prod.splits)

lemma stmt_refines:
  assumes "db_ok m" and "stmt_wf stmt"
  shows "refines m stmt"
proof (cases stmt)
  case (CreateDatabase u)
  with refines_CreateDatabase [OF assms(1)] show ?thesis by simp
next
  case (Select u)
  then show ?thesis by (simp add: refines_def)
next
  case (ShowTables u)
  then show ?thesis by (simp add: refines_def)
next
  case ShowDatabases
  then show ?thesis by (simp add: refines_def)
qed (use assms refines_CreateTable refines_AlterTable refines_Insert refines_Update refines_Delete in \<open>simp_all only:\<close>)

section \<open>Reading\<close>

lemma hits_sorted: "sorted_wrt (<) (map fst kvs) \<Longrightarrow> sorted_wrt (<) (map fst (hits s conds kvs))"
proof (induction s conds kvs rule: hits.induct)
  case (2 s conds k b kvs)
  have "fst x \<in> fst ` set kvs" if "x \<in> set (hits s conds kvs)" for x
    using that hits_mem [of "fst x" "snd x" s conds kvs] by force
  moreover have "\<forall>x \<in> set kvs. k < fst x" using "2.prems" by simp
  ultimately have "\<forall>x \<in> set (hits s conds kvs). k < fst x" by (metis imageE)
  with 2 show ?case by (auto split: sum.split)
qed simp

text \<open>The rows that a condition selects are those of an ascending list of primary keys.\<close>

definition selected :: "kv \<Rightarrow> string \<Rightarrow> string \<Rightarrow> TableSchema \<Rightarrow> Condition list \<Rightarrow> string \<Rightarrow> bool" where
  "selected m d t s conds pk \<longleftrightarrow> (\<exists>row. row_at m d t pk = Some row \<and> MatchesWhere s row conds = Inr True)"

lemma hits_keys:
  assumes m: "db_ok m" and id: "is_ident d" "is_ident t" and s: "kv_LoadSchema m d t = Inr s"
  obtains pks where "sorted_wrt (<) pks" "\<And>pk. pk \<in> set pks \<longleftrightarrow> selected m d t s conds pk"
    "hits s conds (kv_scan m (RowPrefix d t)) = map (\<lambda>pk. (RowKey d t pk, the (row_at m d t pk))) pks"
proof -
  let ?hits = "hits s conds (kv_scan m (RowPrefix d t))"
  have "\<exists>pk. k = RowKey d t pk \<and> row_at m d t pk = Some row" if mem: "(k, row) \<in> set ?hits" for k row
  proof -
    obtain b where b: "(k, b) \<in> set (kv_scan m (RowPrefix d t))" "read_padded s b = Inr row"
      using mem by (auto simp: hits_mem)
    from scan_row [OF m id s b(1)] b(2) show ?thesis by (metis sum.inject(2))
  qed
  then have "\<forall>x \<in> set ?hits. \<exists>pk. x = (RowKey d t pk, the (row_at m d t pk))" by force
  then have "?hits \<in> lists ((\<lambda>pk. (RowKey d t pk, the (row_at m d t pk))) ` UNIV)" by blast
  then obtain pks where pks: "?hits = map (\<lambda>pk. (RowKey d t pk, the (row_at m d t pk))) pks"
    by (auto simp: lists_image)
  have ok: "omap_ok m" using m by (simp add: db_ok_def)
  then have "sorted_wrt (<) (map fst ?hits)"
    by (intro hits_sorted) (simp add: kv_scan_def omap_ok_filter flip: omap_ok_def)
  then have sorted: "sorted_wrt (<) pks" unfolding pks by (simp add: sorted_wrt_map RowKey_less)
  have "pk \<in> set pks \<longleftrightarrow> selected m d t s conds pk" for pk
  proof -
    have "distinct (map fst ?hits)" using hits_distinct [OF table_lookup(2) [OF m]] .
    then have "map_of ?hits (RowKey d t pk) \<noteq> None \<longleftrightarrow> RowKey d t pk \<in> fst ` set ?hits" by (simp add: map_of_eq_None_iff)
    also have "\<dots> \<longleftrightarrow> pk \<in> set pks" unfolding pks using key_inject(2) [OF id(1,1) id(2,2)] by (auto simp: image_image)
    finally show ?thesis unfolding hits_row_at [OF s rows_part_all [OF m]] selected_def
      by (cases "row_at m d t pk") (auto split: if_splits)
  qed
  with sorted pks that show thesis by blast
qed

lemma projection_cells:
  assumes "resolve_columns s cs = Inr (projection, headers)" and "distinct (names s)" and "length row = length (columns s)"
  shows "map (\<lambda>i. row ! nat i) projection = map (\<lambda>c. row ! col_pos s c) headers"
proof (cases "cs = []")
  case True
  then have p: "projection = map int [0..<length (columns s)]" "headers = names s"
    using assms(1) by (simp_all add: resolve_columns_def)
  show ?thesis
    by (rule nth_equalityI) (use assms(2) col_pos_nth [of s] in \<open>simp_all add: p del: map_map\<close>)
next
  case False
  then show ?thesis using resolve_columns_cases [where s = s and cs = cs] assms(1) by simp
qed

section \<open>The properties of execution\<close>

lemma run_sql_safe:
  assumes "eng_ok e" and "db_ok (contents e)" and "eng_used e + ops_cost (snd (plan_all sqls (contents e))) < eng_cap"
  shows "\<exists>e'. run_sql sqls e = (fst (plan_all sqls (contents e)), e') \<and> eng_ok e' \<and> db_ok (contents e') \<and>
    contents e' = foldl kv_apply (contents e) (snd (plan_all sqls (contents e))) \<and>
    eng_used e' \<le> eng_used e + ops_cost (snd (plan_all sqls (contents e)))"
  using assms
proof (induction sqls arbitrary: e)
  case (Cons sql sqls)
  let ?p = "sql_plan sql (contents e)"
  let ?q = "plan_all sqls (foldl kv_apply (contents e) (fst ?p))"
  have cons: "plan_all (sql # sqls) (contents e) = (snd ?p # fst ?q, fst ?p @ snd ?q)"
    by (simp add: Let_def split: prod.split)
  have room: "eng_used e + ops_cost (fst ?p) < eng_cap" using Cons.prems(3) by (simp add: cons del: plan_all.simps)
  obtain e1 where e1: "Execute sql e = (snd ?p, e1)" "eng_ok e1" "contents e1 = foldl kv_apply (contents e) (fst ?p)"
    "eng_used e1 \<le> eng_used e + ops_cost (fst ?p)" using Execute_spec [OF Cons.prems(1) room] by blast
  have "db_ok (contents e1)"
    using sql_plan_safe [OF Cons.prems(2), of sql] room by (simp add: plan_safe_def e1(3) eng_cap_def)
  moreover have "eng_used e1 + ops_cost (snd (plan_all sqls (contents e1))) < eng_cap"
    using Cons.prems(3) e1(4) by (simp add: cons e1(3) del: plan_all.simps)
  ultimately obtain e2 where "run_sql sqls e1 = (fst ?q, e2)" "eng_ok e2" "db_ok (contents e2)"
    "contents e2 = foldl kv_apply (contents e1) (snd ?q)" "eng_used e2 \<le> eng_used e1 + ops_cost (snd ?q)"
    using Cons.IH [OF e1(2)] unfolding e1(3) by blast
  then show ?case using e1 by (simp add: cons del: plan_all.simps)
qed simp

lemma db_ok_empty: "db_ok []"
  by (simp add: db_ok_def kv_ok_def)

text \<open>C15. On a store whose contents satisfy \<open>db_ok\<close> and that has room for what the text writes, executing any text at all ends
  in an answer or an exception that the code throws, never in undefined behaviour, and leaves contents that satisfy
  \<open>db_ok\<close>: every row is filed under its primary key in a table with a sound schema in an existing database.\<close>

theorem sql_execute_safe:
  assumes "eng_ok e" and "db_ok (contents e)"
    and "eng_used e + ops_cost (fst (sql_plan sql (contents e))) < eng_cap"
  shows "\<exists>r e'. Execute sql e = (r, e') \<and> r \<noteq> Inl Undefined \<and> eng_ok e' \<and> db_ok (contents e')"
proof -
  have "ops_cost (fst (sql_plan sql (contents e))) < 2 ^ 32"
    using assms(3) by (simp add: eng_cap_def)
  then show ?thesis
    using Execute_spec [OF assms(1,3)] sql_plan_safe [OF assms(2), of sql] by (auto simp: plan_safe_def)
qed

text \<open>C3. A text that parses and is answered does to the databases and tables what its statement means: the set of
  databases and the map from tables to schemas and rows, read from the store afterwards, are those of \<open>stmt_spec\<close>.  In
  particular it changes no other table, an UPDATE changes and a DELETE removes exactly the rows that the condition
  selects, and an added column shows its default in every row.  A text that does not parse throws what the parser throws
  and changes nothing.  A statement that throws changes nothing either, but for an UPDATE or a DELETE whose condition
  throws at a row: the rows whose primary keys are smaller have then been changed as the statement says, and no
  others.\<close>

theorem sql_refines_tables:
  assumes "eng_ok e" and "db_ok (contents e)"
    and "eng_used e + ops_cost (fst (sql_plan sql (contents e))) < eng_cap" and "Execute sql e = (r, e')"
  shows "case parse_sql sql of
      Inl x \<Rightarrow> r = Inl x \<and> contents e' = contents e
    | Inr stmt \<Rightarrow> (case r of
          Inr reply \<Rightarrow> abs_state (contents e') = stmt_spec stmt (abs_state (contents e))
        | Inl x \<Rightarrow> contents e' = contents e \<or> (\<exists>pk. row_throws stmt pk x (abs_state (contents e)) \<and>
            abs_state (contents e') = stmt_until pk stmt (abs_state (contents e))))"
proof -
  have run: "contents e' = foldl kv_apply (contents e) (fst (sql_plan sql (contents e)))" "snd (sql_plan sql (contents e)) = r"
    using Execute_spec [OF assms(1,3)] assms(4) by auto
  show ?thesis
  proof (cases "parse_sql sql")
    case (Inl x)
    with run show ?thesis by (simp add: sql_plan_def)
  next
    case (Inr stmt)
    have plan: "sql_plan sql (contents e) = stmt_plan stmt (contents e)" by (simp add: sql_plan_def Inr)
    have wf: "stmt_wf stmt" using parse_sql_wf [of sql] Inr by simp
    have "ops_cost (fst (stmt_plan stmt (contents e))) < 2 ^ 32" using assms(3) by (simp add: plan eng_cap_def)
    then show ?thesis
      using stmt_refines [OF assms(2) wf] stmt_fails [OF assms(2) wf] run
      unfolding refines_def fails_well_def plan Inr by (cases r) auto
  qed
qed

text \<open>An INSERT is accepted exactly when it names every column of the table once, gives an integer for every INT column
  and no row has its primary key; then it adds that row and nothing else, and otherwise it throws and changes
  nothing.\<close>

theorem sql_insert_exact:
  assumes "eng_ok e" and "db_ok (contents e)" and "parse_sql sql = Inr (Insert u)"
    and "LoadSchema e (ins_db_name u) (ins_table_name u) = Inr s"
    and "eng_used e + ops_cost (fst (sql_plan sql (contents e))) < eng_cap"
  shows "\<exists>r e'. Execute sql e = (r, e') \<and> eng_ok e' \<and>
    (let row = insert_row s (ins_columns u) (ins_values u); pk = row ! pk_pos s; rows = row_at (contents e)
     in if insertable s (ins_columns u) (ins_values u) \<and> rows (ins_db_name u) (ins_table_name u) pk = None
        then r = Inr ''OK'' \<and> eng_Get e' = (eng_Get e)(RowKey (ins_db_name u) (ins_table_name u) pk \<mapsto> EncodeRow row) \<and>
          row_at (contents e') (ins_db_name u) (ins_table_name u) pk = Some row
        else (\<exists>msg. r = Inl (RuntimeError msg)) \<and> eng_Get e' = eng_Get e)"
proof -
  let ?d = "ins_db_name u" let ?t = "ins_table_name u" let ?m = "contents e"
  let ?row = "insert_row s (ins_columns u) (ins_values u)" let ?pk = "?row ! pk_pos s"
  have plan: "sql_plan sql ?m = stmt_plan (Insert u) ?m" by (simp add: sql_plan_def assms(3))
  have wf: "stmt_wf (Insert u)" using parse_sql_wf [of sql] assms(3) by simp
  have s: "kv_LoadSchema ?m ?d ?t = Inr s"
    using assms(4) by (simp add: LoadSchema_def kv_LoadSchema_def Get_contents [OF assms(1)])
  obtain e' where e': "Execute sql e = (snd (stmt_plan (Insert u) ?m), e')" "eng_ok e'"
    "contents e' = foldl kv_apply ?m (fst (stmt_plan (Insert u) ?m))"
    using Execute_spec [OF assms(1,5)] by (auto simp: plan)
  have get: "eng_Get x = map_of (contents x)" if "eng_ok x" for x
    using that by (simp add: fun_eq_iff Get_contents omap_find_def)
  note ins = insert_plan [OF assms(2) wf s]
  show ?thesis
  proof (cases "insertable s (ins_columns u) (ins_values u) \<and> row_at ?m ?d ?t ?pk = None")
    case True
    with ins have p: "stmt_plan (Insert u) ?m = ([OpPut (RowKey ?d ?t ?pk) (EncodeRow ?row)], Inr ''OK'')" by simp
    have "refines ?m (Insert u)" using stmt_refines [OF assms(2) wf] .
    then have "abs_state (contents e') = stmt_spec (Insert u) (abs_state ?m)"
      using assms(5) p e'(3) by (simp add: refines_def plan eng_cap_def del: stmt_spec.simps)
    moreover have "is_ident ?d" "is_ident ?t" using wf by simp_all
    ultimately have "tables (abs_state (contents e')) (?d, ?t) = Some (s, (row_at ?m ?d ?t)(?pk \<mapsto> ?row))"
      using s by (simp add: with_table_def abs_table Let_def)
    then have "row_at (contents e') ?d ?t = (row_at ?m ?d ?t)(?pk \<mapsto> ?row)"
      by (auto simp: abs_state_def split: sum.splits if_splits)
    then show ?thesis
      using True p e' assms(2) by (auto simp: get assms(1) db_ok_def)
  next
    case False
    with ins obtain msg where p: "stmt_plan (Insert u) ?m = ([], Inl (RuntimeError msg))" by (auto simp del: stmt_plan.simps)
    with False show ?thesis using e' by (auto simp: get assms(1) Let_def)
  qed
qed

text \<open>An answered SELECT changes nothing and lists exactly the rows that its condition selects, in ascending order of
  their primary keys as text, each with the cells of the requested columns.\<close>

theorem sql_select_exact:
  assumes "eng_ok e" and "db_ok (contents e)" and "parse_sql sql = Inr (Select u)"
    and "LoadSchema e (sel_db_name u) (sel_table_name u) = Inr s" and "Execute sql e = (Inr reply, e')"
  shows "e' = e \<and> (\<exists>pks. sorted_wrt (<) pks \<and>
    (\<forall>pk. pk \<in> set pks \<longleftrightarrow> selected (contents e) (sel_db_name u) (sel_table_name u) s (sel_where u) pk) \<and>
    (let headers = (if sel_columns u = [] then names s else sel_columns u);
         line = (\<lambda>pk. tabbed (map (\<lambda>c. the (row_at (contents e) (sel_db_name u) (sel_table_name u) pk) ! col_pos s c) headers))
     in reply = tabbed headers @ concat (map (\<lambda>l. newline # l) (if pks = [] then [''(0 rows)''] else map line pks))))"
proof -
  let ?m = "contents e" let ?d = "sel_db_name u" let ?t = "sel_table_name u" let ?conds = "sel_where u"
  have plan: "sql_plan sql ?m = stmt_plan (Select u) ?m" by (simp add: sql_plan_def assms(3))
  have id: "is_ident ?d" "is_ident ?t" using parse_sql_wf [of sql] assms(3) by simp_all
  have s: "kv_LoadSchema ?m ?d ?t = Inr s"
    using assms(4) by (simp add: LoadSchema_def kv_LoadSchema_def Get_contents [OF assms(1)])
  have run: "e' = e" "snd (stmt_plan (Select u) ?m) = Inr reply"
    using assms(5) by (auto simp: Execute_plan [OF assms(1)] plan)
  then obtain projection headers ls where p: "resolve_columns s (sel_columns u) = Inr (projection, headers)"
    and ls: "select_rows s projection ?conds (kv_scan ?m (RowPrefix ?d ?t)) = Inr ls"
    and reply: "reply = tabbed headers @ concat (map (\<lambda>l. newline # l) (if ls = [] then [''(0 rows)''] else ls))"
    by (auto simp: s rbind_Inr_iff)
  have h: "headers = (if sel_columns u = [] then names s else sel_columns u)" "\<forall>i \<in> set projection. 0 \<le> i \<and> i < int (length (columns s))"
    using resolve_columns_cases [where s = s and cs = "sel_columns u"] p by simp_all
  have "\<forall>k b. (k, b) \<in> set (kv_scan ?m (RowPrefix ?d ?t)) \<longrightarrow> (\<exists>pk row. read_padded s b = Inr row \<and> full_row s pk row)"
    using scan_row [OF assms(2) id s] by metis
  from select_rows_cases [OF this h(2), of ?conds] ls
  have lines: "ls = map (\<lambda>(k, row). tabbed (map (\<lambda>i. row ! nat i) projection)) (hits s ?conds (kv_scan ?m (RowPrefix ?d ?t)))"
    by simp
  obtain pks where pks: "sorted_wrt (<) pks" "\<And>pk. pk \<in> set pks \<longleftrightarrow> selected ?m ?d ?t s ?conds pk"
    "hits s ?conds (kv_scan ?m (RowPrefix ?d ?t)) = map (\<lambda>pk. (RowKey ?d ?t pk, the (row_at ?m ?d ?t pk))) pks"
    by (rule hits_keys [OF assms(2) id s, of ?conds], rule that)
  have "ls = map (\<lambda>pk. tabbed (map (\<lambda>c. the (row_at ?m ?d ?t pk) ! col_pos s c) headers)) pks"
    unfolding lines pks(3) map_map
  proof (rule map_cong [OF refl])
    fix pk assume "pk \<in> set pks"
    then obtain row where row: "row_at ?m ?d ?t pk = Some row" using pks(2) by (auto simp: selected_def)
    from row_at_full [OF assms(2) id s this] projection_cells [OF p, of row]
    show "((\<lambda>(k, row). tabbed (map (\<lambda>i. row ! nat i) projection)) \<circ> (\<lambda>pk. (RowKey ?d ?t pk, the (row_at ?m ?d ?t pk)))) pk =
      tabbed (map (\<lambda>c. the (row_at ?m ?d ?t pk) ! col_pos s c) headers)"
      by (simp add: row full_row_def)
  qed
  then have "(if ls = [] then [''(0 rows)''] else ls) = (if pks = [] then [''(0 rows)'']
      else map (\<lambda>pk. tabbed (map (\<lambda>c. the (row_at ?m ?d ?t pk) ! col_pos s c) headers)) pks)" by simp
  note lines = this [unfolded h(1)]
  show ?thesis
    unfolding reply h(1) Let_def lines by (intro conjI exI [of _ pks] run(1) pks(1) allI pks(2) refl)
qed

section \<open>An example\<close>

text \<open>A table with one row, and a store that holds it.\<close>

definition example_schema :: TableSchema where
  "example_schema = \<lparr>columns = [\<lparr>cd_name = ''k'', cd_type = kInt, primary_key = True, default_value = None\<rparr>,
     \<lparr>cd_name = ''n'', cd_type = kText, primary_key = False, default_value = None\<rparr>]\<rparr>"

definition example_kv :: kv where
  "example_kv = [(DatabaseKey ''d'', []), (RowKey ''d'' ''t'' ''1'', EncodeRow [''1'', ''7'']),
     (SchemaKey ''d'' ''t'', Serialize example_schema)]"

lemma example_names [simp]: "columns example_schema = [\<lparr>cd_name = ''k'', cd_type = kInt, primary_key = True, default_value = None\<rparr>,
     \<lparr>cd_name = ''n'', cd_type = kText, primary_key = False, default_value = None\<rparr>]"
  by (simp add: example_schema_def)

lemma example_idents: "is_ident ''d''" "is_ident ''t''"
  by code_simp+

lemma example_schema_ok: "schema_ok example_schema"
  by (simp add: schema_ok_def schema_fits_def column_fits_def fits32_def)

lemma example_pk [simp]: "pk_pos example_schema = 0"
  by (simp add: pk_pos_def PrimaryKeyIndex_eq)

lemma example_row_ok: "row_ok example_schema ''1'' [''1'', ''7'']"
  by (simp add: row_ok_def row_fits_def fits32_def ints_ok_def int_lit_def isdigit_def less_Suc_eq all_conj_distrib nth_Cons')

lemma example_omap_ok: "omap_ok example_kv"
  by (simp add: example_kv_def omap_ok_def DatabaseKey_def RowKey_def RowPrefix_def SchemaKey_def)

lemma example_find:
  "map_of example_kv (DatabaseKey ''d'') = Some []"
  "map_of example_kv (SchemaKey ''d'' ''t'') = Some (Serialize example_schema)"
  "map_of example_kv (RowKey ''d'' ''t'' pk) = (if pk = ''1'' then Some (EncodeRow [''1'', ''7'']) else None)"
  using key_inject(2) [OF example_idents(1,1,2,2), of pk "''1''"]
  by (simp_all add: example_kv_def)

lemma example_db_ok: "db_ok example_kv"
proof -
  have "schema_entry (map_of example_kv) (SchemaKey ''d'' ''t'') (Serialize example_schema)"
    unfolding schema_entry_def using example_idents example_schema_ok example_find(1) by blast
  moreover have "row_entry (map_of example_kv) (RowKey ''d'' ''t'' ''1'') (EncodeRow [''1'', ''7''])"
    unfolding row_entry_def using example_idents example_schema_ok example_row_ok example_find(2) by blast
  moreover have "(k, v) \<in> {(DatabaseKey ''d'', []), (RowKey ''d'' ''t'' ''1'', EncodeRow [''1'', ''7'']),
     (SchemaKey ''d'' ''t'', Serialize example_schema)}" if "map_of example_kv k = Some v" for k v
    using map_of_SomeD [OF that] by (simp add: example_kv_def)
  ultimately show ?thesis using example_omap_ok unfolding db_ok_def kv_ok_def by fastforce
qed

lemma example_load: "kv_LoadSchema example_kv ''d'' ''t'' = Inr example_schema"
  by (simp add: kv_LoadSchema_def omap_find_def example_find schema_ok_fits example_schema_ok)

lemma example_row: "read_padded example_schema (EncodeRow [''1'', ''7'']) = Inr [''1'', ''7'']"
  using read_padded_row [OF example_row_ok] by (simp add: padded_def)

lemma example_row_at: "row_at example_kv ''d'' ''t'' pk = (if pk = ''1'' then Some [''1'', ''7''] else None)"
  by (simp add: row_at_eq [OF example_load] omap_find_def example_find example_row)

lemma example_selected: "selected example_kv ''d'' ''t'' s [] pk \<longleftrightarrow> pk = ''1''"
  by (simp add: selected_def example_row_at)

lemma example_scan: "kv_scan example_kv (RowPrefix ''d'' ''t'') = [(RowKey ''d'' ''t'' ''1'', EncodeRow [''1'', ''7''])]"
  by (simp add: kv_scan_def example_kv_def RowKey_def SchemaKey_def DatabaseKey_def StartsWith_prefix RowPrefix_def)

lemma example_store: "\<exists>e. eng_ok e \<and> contents e = example_kv \<and> eng_used e < 1000"
proof -
  let ?ops = "map (\<lambda>(k, v). OpPut k v) example_kv"
  have str: "length (put_string v) = 4 + length v" for v by (simp add: put_string_def)
  have "length (EncodeRow [''1'', ''7'']) = 14" by (simp add: EncodeRow_def length_concat_put_string)
  moreover have "length (Serialize example_schema) = 20" by (simp add: Serialize_def put_column_def put_flag_def str)
  moreover have "length (DatabaseKey ''d'') = 14" "length (RowKey ''d'' ''t'' ''1'') = 13" "length (SchemaKey ''d'' ''t'') = 14"
    by (simp_all add: DatabaseKey_def RowKey_def RowPrefix_def SchemaKey_def)
  ultimately have cost: "ops_cost ?ops < 900"
    by (simp add: example_kv_def put_cost_def)
  have used: "eng_used eng_empty < 100" by simp
  obtain e where e: "eng_ok e" "contents e = foldl kv_apply [] ?ops" "eng_used e \<le> eng_used eng_empty + ops_cost ?ops"
    using perform_spec [OF eng_ok_empty, of "(?ops, Inr ())"] cost used by (auto simp: contents_empty eng_cap_def)
  have "foldl kv_apply [] ?ops = example_kv"
    using puts_lookup [OF omap_ok_distinct [OF example_omap_ok], of Map.empty "\<lambda>v. v"]
    by (intro omap_ext) (simp_all add: foldl_kv_apply_ok example_omap_ok map_of_foldl_kv_apply fun_eq_iff split: option.split)
  with e cost used show ?thesis by force
qed

lemma example_parse:
  "parse_sql ''DELETE FROM d.t'' = Inr (Delete \<lparr>del_db_name = ''d'', del_table_name = ''t'', del_where = []\<rparr>)"
  "parse_sql ''SELECT * FROM d.t'' = Inr (Select \<lparr>sel_db_name = ''d'', sel_table_name = ''t'', sel_columns = [], sel_where = []\<rparr>)"
  "parse_sql ''INSERT INTO d.t (n, k) VALUES (7, 1)'' =
     Inr (Insert \<lparr>ins_db_name = ''d'', ins_table_name = ''t'', ins_columns = [''n'', ''k''], ins_values = [''7'', ''1'']\<rparr>)"
  by code_simp+

lemma example_delete_plan:
  "stmt_plan (Delete \<lparr>del_db_name = ''d'', del_table_name = ''t'', del_where = []\<rparr>) example_kv =
     ([OpDelete (RowKey ''d'' ''t'' ''1'')], Inr ''1 row(s) deleted'')"
  "ops_cost [OpDelete (RowKey ''d'' ''t'' ''1'')] < 100"
proof -
  have "to_string (1::nat) = ''1''" by code_simp
  then show "stmt_plan (Delete \<lparr>del_db_name = ''d'', del_table_name = ''t'', del_where = []\<rparr>) example_kv =
     ([OpDelete (RowKey ''d'' ''t'' ''1'')], Inr ''1 row(s) deleted'')"
    by (simp add: example_load example_scan example_row pmap_def)
  show "ops_cost [OpDelete (RowKey ''d'' ''t'' ''1'')] < 100"
    by (simp add: delete_cost_def RowKey_def RowPrefix_def)
qed

theorem sql_execute_safe_witness:
  "\<exists>e r e'. contents e = example_kv \<and> Execute ''DELETE FROM d.t'' e = (r, e') \<and> r \<noteq> Inl Undefined \<and> db_ok (contents e')"
proof -
  obtain e where e: "eng_ok e" "contents e = example_kv" "eng_used e < 1000" using example_store by blast
  have "eng_used e + ops_cost (fst (sql_plan ''DELETE FROM d.t'' (contents e))) < eng_cap"
    using e(3) example_delete_plan(2) by (simp add: sql_plan_def example_parse e(2) example_delete_plan(1) eng_cap_def del: stmt_plan.simps)
  from sql_execute_safe [OF e(1) _ this] e(2) example_db_ok show ?thesis by metis
qed

theorem sql_refines_tables_witness:
  "\<exists>e e'. contents e = example_kv \<and> Execute ''DELETE FROM d.t'' e = (Inr ''1 row(s) deleted'', e') \<and>
     tables (abs_state example_kv) (''d'', ''t'') = Some (example_schema, [''1'' \<mapsto> [''1'', ''7'']]) \<and>
     tables (abs_state (contents e')) (''d'', ''t'') = Some (example_schema, Map.empty)"
proof -
  obtain e where e: "eng_ok e" "contents e = example_kv" "eng_used e < 1000" using example_store by blast
  have plan: "sql_plan ''DELETE FROM d.t'' (contents e) = ([OpDelete (RowKey ''d'' ''t'' ''1'')], Inr ''1 row(s) deleted'')"
    by (simp add: sql_plan_def example_parse e(2) example_delete_plan(1) del: stmt_plan.simps)
  have room: "eng_used e + ops_cost (fst (sql_plan ''DELETE FROM d.t'' (contents e))) < eng_cap"
    using e(3) example_delete_plan(2) by (simp add: plan eng_cap_def)
  obtain e' where run: "Execute ''DELETE FROM d.t'' e = (Inr ''1 row(s) deleted'', e')"
    using Execute_spec [OF e(1) room] by (auto simp: plan)
  have before: "tables (abs_state example_kv) (''d'', ''t'') = Some (example_schema, [''1'' \<mapsto> [''1'', ''7'']])"
    by (simp add: abs_table example_idents example_load fun_eq_iff example_row_at)
  have "abs_state (contents e') = stmt_spec (Delete \<lparr>del_db_name = ''d'', del_table_name = ''t'', del_where = []\<rparr>) (abs_state (contents e))"
    using sql_refines_tables [OF e(1) _ room run] e(2) example_db_ok by (simp add: example_parse(1) del: stmt_spec.simps)
  then have "tables (abs_state (contents e')) (''d'', ''t'') = Some (example_schema, Map.empty)"
    by (simp add: with_table_def e(2) before fun_eq_iff)
  with e(2) run before show ?thesis by blast
qed

theorem sql_insert_exact_witness:
  "\<exists>e e' msg. contents e = example_kv \<and> Execute ''INSERT INTO d.t (n, k) VALUES (7, 1)'' e = (Inl (RuntimeError msg), e') \<and>
     eng_Get e' = eng_Get e"
proof -
  obtain e where e: "eng_ok e" "contents e = example_kv" "eng_used e < 1000" using example_store by blast
  let ?sql = "''INSERT INTO d.t (n, k) VALUES (7, 1)''"
  let ?u = "\<lparr>ins_db_name = ''d'', ins_table_name = ''t'', ins_columns = [''n'', ''k''], ins_values = [''7'', ''1'']\<rparr>"
  have wf: "stmt_wf (Insert ?u)" using parse_sql_wf [of ?sql] unfolding example_parse by simp
  have s: "kv_LoadSchema example_kv (ins_db_name ?u) (ins_table_name ?u) = Inr example_schema" by (simp add: example_load)
  have pk: "insert_row example_schema (ins_columns ?u) (ins_values ?u) = [''1'', ''7'']" by (simp add: insert_row_def)
  obtain msg where p: "stmt_plan (Insert ?u) example_kv = ([], Inl (RuntimeError msg))"
    using insert_plan [OF example_db_ok wf s] unfolding pk by (auto simp: example_row_at simp del: stmt_plan.simps)
  have "eng_used e + ops_cost (fst (sql_plan ?sql (contents e))) < eng_cap"
    using e(3) by (simp add: sql_plan_def example_parse e(2) p eng_cap_def del: stmt_plan.simps)
  moreover have "LoadSchema e (ins_db_name ?u) (ins_table_name ?u) = Inr example_schema"
    using s by (simp add: LoadSchema_def kv_LoadSchema_def Get_contents e)
  ultimately show ?thesis
    using sql_insert_exact [OF e(1) _ example_parse(3), of example_schema] pk e(2) example_db_ok
    by (simp add: example_row_at Let_def) metis
qed

theorem sql_select_exact_witness:
  "\<exists>e. contents e = example_kv \<and> fst (Execute ''SELECT * FROM d.t'' e) = Inr (''k'' @ CHR 0x09 # ''n'' @ newline # ''1'' @ CHR 0x09 # ''7'')"
proof -
  obtain e where e: "eng_ok e" "contents e = example_kv" using example_store by blast
  let ?u = "\<lparr>sel_db_name = ''d'', sel_table_name = ''t'', sel_columns = [], sel_where = []\<rparr>"
  obtain reply where run: "Execute ''SELECT * FROM d.t'' e = (Inr reply, e)"
    by (simp add: Execute_plan e sql_plan_def example_parse example_load example_scan example_row resolve_columns_def vec_int_def)
  have "LoadSchema e ''d'' ''t'' = Inr example_schema"
    using example_load by (simp add: LoadSchema_def kv_LoadSchema_def Get_contents e)
  then obtain pks where pks: "sorted_wrt (<) pks" "\<forall>pk. pk \<in> set pks \<longleftrightarrow> pk = ''1''"
    "reply = tabbed [''k'', ''n''] @ concat (map (\<lambda>l. newline # l) (if pks = [] then [''(0 rows)'']
       else map (\<lambda>pk. tabbed (map (\<lambda>c. the (row_at example_kv ''d'' ''t'' pk) ! col_pos example_schema c) [''k'', ''n''])) pks))"
    using sql_select_exact [OF e(1) _ example_parse(2) _ run, of example_schema] e(2) example_db_ok
    by (simp add: example_selected Let_def del: map_map) blast
  have "set pks = {''1''}" using pks(2) by blast
  moreover have "distinct pks" using pks(1) strict_sorted_iff by blast
  ultimately have one: "pks = [''1'']" using distinct_card [of pks] by (cases pks; cases "tl pks") auto
  have "reply = ''k'' @ CHR 0x09 # ''n'' @ newline # ''1'' @ CHR 0x09 # ''7''"
    unfolding pks(3) one by (simp add: example_row_at col_pos_def)
  with run e(2) show ?thesis by (metis fst_conv)
qed

end
