(* ===== verification/Participant.thy ===== *)
theory Participant
  imports Txn
begin

text \<open>
  \<^verbatim>\<open>src/txn/participant.cpp\<close>: a shard's side of two-phase commit, the staged commands and the row
  keys they lock.  \<open>Commit\<close> runs the staged commands through a callback on the state machine; the
  callback may throw, and then the locks are released but the remaining commands are not run.

  Shown: in every reachable state the lock set is exactly the union of the keys of the pending
  transactions, and no key belongs to two of them; a vote of no changes nothing; and between a
  yes vote and its resolution, whatever other transactions do, the staged commands stay, so that
  a commit runs exactly them, once.
\<close>

record Pending =
  pd_keys :: "string list"
  pd_commands :: "string list"

record TxnParticipant =
  pending :: "(TxnId, Pending) omap"
  locked_keys :: "string set"

definition part_empty :: TxnParticipant where
  "part_empty = \<lparr>pending = [], locked_keys = {}\<rparr>"

definition ReleaseLocks :: "Pending \<Rightarrow> TxnParticipant \<Rightarrow> TxnParticipant" where
  "ReleaseLocks pd p = p\<lparr>locked_keys := locked_keys p - set (pd_keys pd)\<rparr>"

definition part_Prepare :: "TxnId \<Rightarrow> string list \<Rightarrow> string list \<Rightarrow> TxnParticipant \<Rightarrow> string \<times> TxnParticipant" where
  "part_Prepare txn_id keys commands p = (case omap_find txn_id (pending p) of
       Some _ \<Rightarrow> ([], p)
     | None \<Rightarrow> (case find (\<lambda>key. key \<in> locked_keys p) keys of
           Some key \<Rightarrow> (''key '' @ [CHR 0x27] @ key @ [CHR 0x27] @ '' is locked by another in-flight transaction'', p)
         | None \<Rightarrow> ([], p\<lparr>locked_keys := locked_keys p \<union> set keys,
             pending := omap_set txn_id \<lparr>pd_keys = keys, pd_commands = commands\<rparr> (pending p)\<rparr>)))"

definition part_Commit ::
  "TxnId \<Rightarrow> (string \<Rightarrow> ('s, unit) eff) \<Rightarrow> TxnParticipant \<Rightarrow> 's \<Rightarrow> string res \<times> TxnParticipant \<times> 's" where
  "part_Commit txn_id run p s = (case omap_find txn_id (pending p) of
       None \<Rightarrow> (Inr (''commit of unknown or already-resolved transaction '' @ to_string (unat txn_id)), p, s)
     | Some pd \<Rightarrow>
         let p' = ReleaseLocks pd (p\<lparr>pending := omap_erase txn_id (pending p)\<rparr>);
             (r, s') = efor (pd_commands pd) run s
         in (rbind r (\<lambda>_. Inr []), p', s'))"

definition part_Abort :: "TxnId \<Rightarrow> TxnParticipant \<Rightarrow> string \<times> TxnParticipant" where
  "part_Abort txn_id p = (case omap_find txn_id (pending p) of
       None \<Rightarrow> ([], p)
     | Some pd \<Rightarrow> ([], (ReleaseLocks pd p)\<lparr>pending := omap_erase txn_id (pending p)\<rparr>))"

section \<open>The invariant\<close>

definition part_ok :: "TxnParticipant \<Rightarrow> bool" where
  "part_ok p \<longleftrightarrow> omap_ok (pending p) \<and>
     locked_keys p = (\<Union>e \<in> set (pending p). set (pd_keys (snd e))) \<and>
     (\<forall>e \<in> set (pending p). \<forall>f \<in> set (pending p). fst e \<noteq> fst f \<longrightarrow>
        set (pd_keys (snd e)) \<inter> set (pd_keys (snd f)) = {})"

text \<open>The effect of a control command on the participant alone.\<close>

definition part_step :: "TxnParticipant \<Rightarrow> TxnControlCommand \<Rightarrow> TxnParticipant" where
  "part_step p c =
     (if tc_type c = kPrepare then snd (part_Prepare (tc_txn_id c) (tc_keys c) (tc_commands c) p)
      else if tc_type c = kCommit then fst (snd (part_Commit (tc_txn_id c) (\<lambda>_. eret ()) p ()))
      else snd (part_Abort (tc_txn_id c) p))"

lemma part_Commit_participant:
  "fst (snd (part_Commit t run p s)) = snd (part_Abort t p)"
  by (simp add: part_Commit_def part_Abort_def ReleaseLocks_def Let_def split: option.split prod.split)

lemma find_None: "find P xs = None \<longleftrightarrow> (\<forall>x \<in> set xs. \<not> P x)"
  by (auto simp: find_None_iff)

lemma Prepare_ok:
  assumes "part_ok p"
  shows "part_ok (snd (part_Prepare t ks cs p))"
proof (cases "omap_find t (pending p) = None \<and> find (\<lambda>key. key \<in> locked_keys p) ks = None")
  case True
  let ?pd = "\<lparr>pd_keys = ks, pd_commands = cs\<rparr>"
  have ok: "omap_ok (pending p)" using assms by (simp add: part_ok_def)
  have t: "\<forall>e \<in> set (pending p). fst e \<noteq> t"
    using True by (auto simp: omap_find_def map_of_eq_None_iff)
  have set: "set (omap_set t ?pd (pending p)) = insert (t, ?pd) (set (pending p))"
    using t by (auto simp: set_omap_set [OF ok])
  have "set ks \<inter> set (pd_keys (snd e)) = {}" if "e \<in> set (pending p)" for e
    using True that assms by (auto simp: part_ok_def find_None)
  with assms True show ?thesis
    by (auto simp: part_Prepare_def part_ok_def set om.invar_upd)
next
  case False
  with assms show ?thesis by (auto simp: part_Prepare_def split: option.split)
qed

lemma Abort_ok:
  assumes "part_ok p"
  shows "part_ok (snd (part_Abort t p))"
proof (cases "omap_find t (pending p)")
  case None
  with assms show ?thesis by (simp add: part_Abort_def)
next
  case (Some pd)
  have ok: "omap_ok (pending p)" using assms by (simp add: part_ok_def)
  have mem: "(t, pd) \<in> set (pending p)" using Some by (simp add: omap_find_def map_of_SomeD)
  have uniq: "e = (t, pd)" if "e \<in> set (pending p)" "fst e = t" for e
    using that Some omap_mem_iff [OF ok, of t "snd e"] by (cases e) (auto simp: omap_find_def)
  have dis: "set (pd_keys (snd e)) \<inter> set (pd_keys pd) = {}" if "e \<in> set (pending p)" "fst e \<noteq> t" for e
    using that mem assms by (force simp: part_ok_def)
  have "locked_keys p - set (pd_keys pd) = (\<Union>e \<in> {e \<in> set (pending p). fst e \<noteq> t}. set (pd_keys (snd e)))"
  proof
    show "locked_keys p - set (pd_keys pd) \<subseteq> (\<Union>e \<in> {e \<in> set (pending p). fst e \<noteq> t}. set (pd_keys (snd e)))"
      using assms uniq by (fastforce simp: part_ok_def)
    show "(\<Union>e \<in> {e \<in> set (pending p). fst e \<noteq> t}. set (pd_keys (snd e))) \<subseteq> locked_keys p - set (pd_keys pd)"
      using assms dis by (fastforce simp: part_ok_def)
  qed
  with assms Some show ?thesis
    by (auto simp: part_Abort_def part_ok_def ReleaseLocks_def omap_ok_filter omap_erase_def)
qed

lemma part_step_ok: "part_ok p \<Longrightarrow> part_ok (part_step p c)"
  by (simp add: part_step_def part_Commit_participant Prepare_ok Abort_ok)

lemma part_steps_ok: "part_ok p \<Longrightarrow> part_ok (foldl part_step p cs)"
  by (induction cs arbitrary: p) (simp_all add: part_step_ok)

lemma part_empty_ok: "part_ok part_empty"
  by (simp add: part_ok_def part_empty_def)

text \<open>What another transaction does leaves a pending one alone.\<close>

lemma part_step_other:
  assumes "part_ok p" and "tc_txn_id c \<noteq> t"
  shows "omap_find t (pending (part_step p c)) = omap_find t (pending p)"
  using assms
  by (auto simp: part_step_def part_Commit_participant part_Prepare_def part_Abort_def ReleaseLocks_def
      omap_find_def part_ok_def om.look_upd om.look_del split: option.split)

lemma part_steps_other:
  assumes "part_ok p" and "\<forall>c \<in> set cs. tc_txn_id c \<noteq> t"
  shows "omap_find t (pending (foldl part_step p cs)) = omap_find t (pending p)"
  using assms
  by (induction cs arbitrary: p) (simp_all add: part_step_ok part_step_other)

lemma Prepare_yes:
  assumes "part_ok p" and "fst (part_Prepare t ks cs p) = []" and "omap_find t (pending p) = None"
  shows "omap_find t (pending (snd (part_Prepare t ks cs p))) = Some \<lparr>pd_keys = ks, pd_commands = cs\<rparr>"
  using assms by (auto simp: part_Prepare_def part_ok_def omap_find_def om.look_upd split: option.splits)

section \<open>Properties\<close>

text \<open>C25. After any sequence of prepares, commits and aborts, the locked keys are exactly the keys of
  the transactions still pending, and no key is held by two of them.\<close>

theorem participant_locks_exact:
  "locked_keys p = (\<Union>e \<in> set (pending p). set (pd_keys (snd e))) \<and>
   (\<forall>e f k. e \<in> set (pending p) \<and> f \<in> set (pending p) \<and> k \<in> set (pd_keys (snd e)) \<and> k \<in> set (pd_keys (snd f))
      \<longrightarrow> fst e = fst f)" if "p = foldl part_step part_empty cs"
proof -
  have "part_ok p" unfolding that by (rule part_steps_ok [OF part_empty_ok])
  then show ?thesis by (fastforce simp: part_ok_def)
qed

theorem participant_locks_exact_witness:
  "let p = foldl part_step part_empty
     [\<lparr>tc_type = kPrepare, tc_txn_id = 7, tc_keys = [''k''], tc_commands = [''c'']\<rparr>]
   in locked_keys p = (\<Union>e \<in> set (pending p). set (pd_keys (snd e))) \<and>
     (\<forall>e f k. e \<in> set (pending p) \<and> f \<in> set (pending p) \<and> k \<in> set (pd_keys (snd e)) \<and> k \<in> set (pd_keys (snd f))
      \<longrightarrow> fst e = fst f)"
  unfolding Let_def by (rule participant_locks_exact [OF refl])

text \<open>A transaction that was voted for keeps its staged commands whatever other transactions prepare, commit or
  abort in between; its commit then runs exactly those commands in order, and a second commit
  runs nothing and reports an error.\<close>

theorem participant_commit_runs_staged:
  assumes "part_ok p" and "omap_find t (pending p) = None" and "part_Prepare t ks cmds p = ([], p1)"
    and "\<forall>c \<in> set others. tc_txn_id c \<noteq> t" and "p2 = foldl part_step p1 others"
    and "efor cmds run s = (Inr (), s')"
  shows "\<exists>p3. part_Commit t run p2 s = (Inr [], p3, s') \<and> part_ok p3 \<and>
     (\<exists>msg. msg \<noteq> [] \<and> part_Commit t run p3 s' = (Inr msg, p3, s'))"
proof -
  have ok1: "part_ok p1" using Prepare_ok [OF assms(1), of t ks cmds] assms(3) by simp
  have "omap_find t (pending p1) = Some \<lparr>pd_keys = ks, pd_commands = cmds\<rparr>"
    using Prepare_yes [OF assms(1) _ assms(2), of ks cmds] assms(3) by simp
  then have f: "omap_find t (pending p2) = Some \<lparr>pd_keys = ks, pd_commands = cmds\<rparr>"
    using part_steps_other [OF ok1 assms(4)] assms(5) by simp
  have ok2: "part_ok p2" using part_steps_ok [OF ok1] assms(5) by simp
  let ?p3 = "snd (part_Abort t p2)"
  have c: "part_Commit t run p2 s = (Inr [], ?p3, s')"
    using f assms(6) by (simp add: part_Commit_def part_Abort_def ReleaseLocks_def Let_def)
  have "omap_find t (pending ?p3) = None"
    using f ok2 by (simp add: part_Abort_def ReleaseLocks_def omap_find_def om.look_del part_ok_def)
  then show ?thesis using c Abort_ok [OF ok2, of t] by (auto simp: part_Commit_def)
qed

theorem participant_commit_runs_staged_witness:
  "\<exists>p3. part_Commit 7 (\<lambda>c s. (Inr (), s @ [c])) (foldl part_step (snd (part_Prepare 7 [''k''] [''c''] part_empty))
       [\<lparr>tc_type = kAbort, tc_txn_id = 8, tc_keys = [], tc_commands = []\<rparr>]) []
     = (Inr [], p3, [''c'']) \<and> part_ok p3 \<and>
     (\<exists>msg. msg \<noteq> [] \<and> part_Commit 7 (\<lambda>c s. (Inr (), s @ [c])) p3 [''c''] = (Inr msg, p3, [''c'']))"
  by (rule participant_commit_runs_staged
        [where cmds = "[''c'']" and ks = "[''k'']", OF part_empty_ok _ _ _ refl])
    (simp_all add: part_Prepare_def part_empty_def omap_find_def)

text \<open>A vote of no names a key that another pending transaction holds, and changes neither the locks nor
  the staged commands.\<close>

theorem participant_vote_no:
  assumes "part_ok p" and "part_Prepare t ks cmds p = (msg, p')" and "msg \<noteq> []"
  shows "p' = p \<and> (\<exists>key \<in> set ks. \<exists>e \<in> set (pending p). fst e \<noteq> t \<and> key \<in> set (pd_keys (snd e)))"
proof -
  have none: "omap_find t (pending p) = None" and p': "p' = p"
    using assms(2,3) by (auto simp: part_Prepare_def split: option.splits)
  obtain key where "find (\<lambda>key. key \<in> locked_keys p) ks = Some key"
    using assms(2,3) none by (auto simp: part_Prepare_def split: option.splits)
  then have "key \<in> set ks" "key \<in> locked_keys p" by (auto simp: find_Some_iff)
  moreover have "fst e \<noteq> t" if "e \<in> set (pending p)" for e
    using none that by (auto simp: omap_find_def map_of_eq_None_iff)
  ultimately show ?thesis using assms(1) p' by (auto simp: part_ok_def)
qed

theorem participant_vote_no_witness:
  "let p = snd (part_Prepare 7 [''k''] [''c''] part_empty) in
   snd (part_Prepare 8 [''k''] [''d''] p) = p \<and>
   (\<exists>key \<in> set [''k'']. \<exists>e \<in> set (pending p). fst e \<noteq> 8 \<and> key \<in> set (pd_keys (snd e)))"
  unfolding Let_def
  by (rule participant_vote_no [OF Prepare_ok [OF part_empty_ok] prod.collapse [symmetric]])
    (simp add: part_Prepare_def part_empty_def omap_find_def omap_set_def)

end
