(* ===== verification/Replica.thy ===== *)
theory Replica
  imports Sql_Tables Participant
begin

text \<open>
  The state machine that Raft replicates, the callbacks of \<^verbatim>\<open>src/raft_main.cpp\<close>: the SQL executor on its store
  and the transaction participant, applied to the commands of the log; the snapshot of the store, the only part of the
  machine that a snapshot holds; and local reads.  Shown: the callback keeps every invariant and never runs into
  undefined behaviour; replicas that hold the same and apply the same commands, transactions included, stay the same;
  a snapshot read back gives the same contents.
\<close>

section \<open>Snapshots\<close>

definition EncodeSnapshot :: "(string \<times> string) list \<Rightarrow> string" where
  "EncodeSnapshot kvs = put_u32 (of_nat (length kvs)) @
     concat (map (\<lambda>(key, value). put_u32 (of_nat (length key)) @ key @ put_u32 (of_nat (length value)) @ value) kvs)"

text \<open>\<^verbatim>\<open>blob.substr(pos, n)\<close>: throws when \<open>pos\<close> is past the end, and gives less when fewer than \<open>n\<close> bytes are
  left.\<close>

definition substr :: "string \<Rightarrow> nat \<Rightarrow> nat \<Rightarrow> string res" where
  "substr blob pos n = (if length blob < pos then Inl (OutOfRange ''basic_string::substr'') else Inr (take n (drop pos blob)))"

definition snapshot_u32 :: "string \<Rightarrow> nat \<Rightarrow> (nat \<times> nat) res" where
  "snapshot_u32 blob pos =
     (if length blob < pos + 4 then Inl (RuntimeError ''corrupt snapshot'') else Inr (le_val (take 4 (drop pos blob)), pos + 4))"

fun snapshot_items :: "string \<Rightarrow> nat \<Rightarrow> nat \<Rightarrow> (string \<times> string) list res" where
  "snapshot_items blob 0 pos = Inr []"
| "snapshot_items blob (Suc n) pos =
     rbind (snapshot_u32 blob pos) (\<lambda>(klen, pos).
     rbind (substr blob pos klen) (\<lambda>key.
     rbind (snapshot_u32 blob (pos + klen)) (\<lambda>(vlen, pos).
     rbind (substr blob pos vlen) (\<lambda>value.
     rbind (snapshot_items blob n (pos + vlen)) (\<lambda>rest. Inr ((key, value) # rest))))))"

definition DecodeSnapshot :: "string \<Rightarrow> (string \<times> string) list res" where
  "DecodeSnapshot blob = rbind (snapshot_u32 blob 0) (\<lambda>(count, pos). snapshot_items blob count pos)"

section \<open>The callbacks\<close>

record StateMachine =
  sm_engine :: StorageEngine
  sm_txns :: TxnParticipant

fun FindStagedDuplicateKey :: "StorageEngine \<Rightarrow> string list \<Rightarrow> string res" where
  "FindStagedDuplicateKey e [] = Inr []"
| "FindStagedDuplicateKey e (cmd # cmds) = (case parse_sql cmd of
       Inl _ \<Rightarrow> FindStagedDuplicateKey e cmds
     | Inr stmt \<Rightarrow> (case stmt of
         Insert s \<Rightarrow> rbind (TryExtractRowKey e (Insert s)) (\<lambda>key.
           if (case key of None \<Rightarrow> False | Some k \<Rightarrow> eng_Get e k \<noteq> None)
           then Inr (''duplicate primary key in staged command '' @ quoted cmd)
           else FindStagedDuplicateKey e cmds)
       | _ \<Rightarrow> FindStagedDuplicateKey e cmds))"

text \<open>\<^verbatim>\<open>catch (const std::exception& e) { return e.what(); }\<close>.\<close>

definition error_text :: "string res \<Rightarrow> string res" where
  "error_text r = (case r of Inl Undefined \<Rightarrow> Inl Undefined | Inl e \<Rightarrow> Inr (what e) | Inr s \<Rightarrow> Inr s)"

definition run_command :: "string \<Rightarrow> (StateMachine, string) eff" where
  "run_command command m = (case Execute command (sm_engine m) of (r, e) \<Rightarrow>
     (error_text (rbind r (\<lambda>_. Inr [])), m\<lparr>sm_engine := e\<rparr>))"

definition apply_control :: "TxnControlCommand \<Rightarrow> string \<Rightarrow> (StateMachine, string) eff" where
  "apply_control control command m =
     (if tc_type control = kPrepare then
        (case FindStagedDuplicateKey (sm_engine m) (tc_commands control) of
           Inl e \<Rightarrow> (Inl e, m)
         | Inr error \<Rightarrow>
             if error \<noteq> [] then (Inr error, m)
             else case part_Prepare (tc_txn_id control) (tc_keys control) (tc_commands control) (sm_txns m) of (error, p) \<Rightarrow>
               (Inr error, m\<lparr>sm_txns := p\<rparr>))
      else if tc_type control = kCommit then
        (case part_Commit (tc_txn_id control) (\<lambda>staged. ebind (Execute staged) (\<lambda>_. eret ())) (sm_txns m) (sm_engine m) of
           (r, p, e) \<Rightarrow> (error_text r, \<lparr>sm_engine = e, sm_txns = p\<rparr>))
      else if tc_type control = kAbort then
        (case part_Abort (tc_txn_id control) (sm_txns m) of (error, p) \<Rightarrow> (Inr error, m\<lparr>sm_txns := p\<rparr>))
      else run_command command m)"

definition apply_callback :: "string \<Rightarrow> (StateMachine, string) eff" where
  "apply_callback command m = (case TryDecodeTxnControl command of
       Inl e \<Rightarrow> (Inl e, m)
     | Inr (Some control) \<Rightarrow> apply_control control command m
     | Inr None \<Rightarrow> run_command command m)"

definition snapshot_callback :: "StateMachine \<Rightarrow> string" where
  "snapshot_callback m = EncodeSnapshot (eng_Scan (sm_engine m) [])"

text \<open>An exception of the decoder leaves the callback; one of the store is dropped.\<close>

definition restore_callback :: "string \<Rightarrow> (StateMachine, unit) eff" where
  "restore_callback data m = (case DecodeSnapshot data of
       Inl e \<Rightarrow> (Inl e, m)
     | Inr kvs \<Rightarrow> (case ebind eng_Reset (\<lambda>_. efor kvs (\<lambda>(key, value). eng_Put key value)) (sm_engine m) of (r, e) \<Rightarrow>
         (if r = Inl Undefined then r else Inr (), m\<lparr>sm_engine := e\<rparr>)))"

definition read_callback :: "string \<Rightarrow> (StateMachine, string) eff" where
  "read_callback query m = (case Execute query (sm_engine m) of (r, e) \<Rightarrow> (r, m\<lparr>sm_engine := e\<rparr>))"

section \<open>Snapshots read back\<close>

definition snapshot_fits :: "(string \<times> string) list \<Rightarrow> bool" where
  "snapshot_fits kvs \<longleftrightarrow> fits32 kvs \<and> (\<forall>(k, v) \<in> set kvs. fits32 k \<and> fits32 v) \<and>
     1 + sum_list (map (\<lambda>(k, v). put_cost k v) kvs) < eng_cap"

lemma snapshot_u32_put:
  "n < 2 ^ 32 \<Longrightarrow> snapshot_u32 (pre @ put_u32 (of_nat n) @ rest) (length pre) = Inr (n, length pre + 4)"
  by (simp add: snapshot_u32_def put_u32_def le_val_le_bytes unat_of_nat)

lemma substr_part: "substr (pre @ s @ rest) (length pre) (length s) = Inr s"
  by (simp add: substr_def)

definition item_bytes :: "string \<times> string \<Rightarrow> string" where
  "item_bytes = (\<lambda>(key, value). put_u32 (of_nat (length key)) @ key @ put_u32 (of_nat (length value)) @ value)"

lemma snapshot_item:
  assumes "fits32 k" and "length v < 2 ^ 32"
  shows "snapshot_items (pre @ item_bytes (k, v) @ rest) (Suc n) (length pre) =
    rbind (snapshot_items (pre @ item_bytes (k, v) @ rest) n (length (pre @ item_bytes (k, v)))) (\<lambda>xs. Inr ((k, v) # xs))"
proof -
  let ?b = "pre @ item_bytes (k, v) @ rest"
  have b: "?b = pre @ put_u32 (of_nat (length k)) @ (k @ put_u32 (of_nat (length v)) @ v @ rest)"
    "?b = (pre @ put_u32 (of_nat (length k))) @ k @ (put_u32 (of_nat (length v)) @ v @ rest)"
    "?b = (pre @ put_u32 (of_nat (length k)) @ k) @ put_u32 (of_nat (length v)) @ (v @ rest)"
    "?b = (pre @ put_u32 (of_nat (length k)) @ k @ put_u32 (of_nat (length v))) @ v @ rest"
    by (simp_all add: item_bytes_def)
  have "snapshot_u32 ?b (length pre) = Inr (length k, length pre + 4)"
    unfolding b(1) using assms(1) by (intro snapshot_u32_put) (simp add: fits32_def)
  moreover have "substr ?b (length pre + 4) (length k) = Inr k"
    unfolding b(2) using substr_part [of "pre @ put_u32 (of_nat (length k))"] by simp
  moreover have "snapshot_u32 ?b (length pre + 4 + length k) = Inr (length v, length pre + 8 + length k)"
    unfolding b(3) using snapshot_u32_put [OF assms(2), of "pre @ put_u32 (of_nat (length k)) @ k" "v @ rest"] by (simp add: ac_simps)
  moreover have "substr ?b (length pre + 8 + length k) (length v) = Inr v"
    unfolding b(4) using substr_part [of "pre @ put_u32 (of_nat (length k)) @ k @ put_u32 (of_nat (length v))" v rest]
    by (simp add: ac_simps)
  moreover have "length (pre @ item_bytes (k, v)) = length pre + 8 + length k + length v" by (simp add: item_bytes_def)
  ultimately show ?thesis by (simp add: add.assoc)
qed

lemma snapshot_items_read:
  assumes "\<forall>(k, v) \<in> set kvs. fits32 k \<and> fits32 v"
  shows "snapshot_items (pre @ concat (map item_bytes kvs) @ rest) (length kvs + n) (length pre) =
    rbind (snapshot_items (pre @ concat (map item_bytes kvs) @ rest) n (length (pre @ concat (map item_bytes kvs)))) (\<lambda>xs. Inr (kvs @ xs))"
  using assms
proof (induction kvs arbitrary: pre)
  case Nil
  then show ?case by (simp add: rbind_def split: sum.split)
next
  case (Cons x kvs)
  obtain k v where x: "x = (k, v)" by (cases x)
  have fit: "fits32 k" "length v < 2 ^ 32" using Cons.prems by (simp_all add: x fits32_def)
  have "snapshot_items (pre @ concat (map item_bytes (x # kvs)) @ rest) (length (x # kvs) + n) (length pre) =
    rbind (snapshot_items ((pre @ item_bytes x) @ concat (map item_bytes kvs) @ rest) (length kvs + n) (length (pre @ item_bytes x)))
      (\<lambda>xs. Inr (x # xs))"
    using snapshot_item [OF fit, of pre "concat (map item_bytes kvs) @ rest" "length kvs + n"] by (simp add: x)
  also have "\<dots> = rbind (rbind (snapshot_items ((pre @ item_bytes x) @ concat (map item_bytes kvs) @ rest) n
      (length ((pre @ item_bytes x) @ concat (map item_bytes kvs)))) (\<lambda>xs. Inr (kvs @ xs))) (\<lambda>xs. Inr (x # xs))"
    using Cons.IH [of "pre @ item_bytes x"] Cons.prems by simp
  finally show ?case by (simp add: rbind_def split: sum.split)
qed

lemma DecodeSnapshot_Encode:
  assumes "snapshot_fits kvs"
  shows "DecodeSnapshot (EncodeSnapshot kvs) = Inr kvs"
proof -
  let ?pre = "put_u32 (of_nat (length kvs))"
  have e: "EncodeSnapshot kvs = ?pre @ concat (map item_bytes kvs)"
    by (simp add: EncodeSnapshot_def item_bytes_def)
  have "snapshot_u32 (?pre @ concat (map item_bytes kvs)) 0 = Inr (length kvs, 4)"
    using snapshot_u32_put [of "length kvs" "[]" "concat (map item_bytes kvs)"] assms by (simp add: snapshot_fits_def fits32_def)
  moreover have "snapshot_items (?pre @ concat (map item_bytes kvs)) (length kvs) 4 = Inr kvs"
    using snapshot_items_read [of kvs ?pre "[]" 0] assms by (simp add: snapshot_fits_def)
  ultimately show ?thesis by (simp add: DecodeSnapshot_def e)
qed

lemma restore_snapshot:
  assumes "eng_ok (sm_engine m)" and "eng_ok (sm_engine m')" and "snapshot_fits (contents (sm_engine m))"
  shows "\<exists>e. restore_callback (snapshot_callback m) m' = (Inr (), m'\<lparr>sm_engine := e\<rparr>) \<and> eng_ok e \<and> contents e = contents (sm_engine m)"
proof -
  have d: "DecodeSnapshot (snapshot_callback m) = Inr (eng_Scan (sm_engine m) [])"
    using DecodeSnapshot_Encode [OF assms(3)] by (simp add: snapshot_callback_def contents_def)
  obtain e where e: "ebind eng_Reset (\<lambda>_. efor (eng_Scan (sm_engine m) []) (\<lambda>(k, v). eng_Put k v)) (sm_engine m') = (Inr (), e)"
    "eng_ok e" "eng_view e = eng_view (sm_engine m)"
    using eng.restore_spec [OF assms(2,1)] assms(3) by (auto simp: contents_def snapshot_fits_def eng.puts_cost_def)
  have "contents e = contents (sm_engine m)"
    using e assms(1) by (intro omap_ext) (simp_all add: contents_ok map_of_contents)
  with d e show ?thesis by (intro exI [of _ e]) (simp add: restore_callback_def)
qed

section \<open>Replicas\<close>

text \<open>What a command writes to the store of a machine.\<close>

fun commit_ops :: "string list \<Rightarrow> kv \<Rightarrow> store_op list \<times> unit res" where
  "commit_ops [] m = ([], Inr ())"
| "commit_ops (c # cs) m = (case sql_plan c m of
       (ops, Inl e) \<Rightarrow> (ops, Inl e)
     | (ops, Inr _) \<Rightarrow> (case commit_ops cs (foldl kv_apply m ops) of (ops', r) \<Rightarrow> (ops @ ops', r)))"

text \<open>The staged commands that a command runs on the store of a machine: those of the transaction that it commits, or
  itself.\<close>

definition command_runs :: "string \<Rightarrow> StateMachine \<Rightarrow> string list" where
  "command_runs command m = (case TryDecodeTxnControl command of
       Inl _ \<Rightarrow> []
     | Inr None \<Rightarrow> [command]
     | Inr (Some c) \<Rightarrow>
         if tc_type c = kPrepare \<or> tc_type c = kAbort then []
         else if tc_type c = kCommit
         then (case omap_find (tc_txn_id c) (pending (sm_txns m)) of None \<Rightarrow> [] | Some pd \<Rightarrow> pd_commands pd)
         else [command])"

definition has_room :: "string \<Rightarrow> StateMachine \<Rightarrow> bool" where
  "has_room command m \<longleftrightarrow>
     eng_used (sm_engine m) + ops_cost (fst (commit_ops (command_runs command m) (contents (sm_engine m)))) < eng_cap"

lemma efor_Execute:
  assumes "eng_ok e" and "eng_used e + ops_cost (fst (commit_ops cs (contents e))) < eng_cap"
  shows "\<exists>e'. efor cs (\<lambda>c. ebind (Execute c) (\<lambda>_. eret ())) e = (snd (commit_ops cs (contents e)), e') \<and> eng_ok e' \<and>
    contents e' = foldl kv_apply (contents e) (fst (commit_ops cs (contents e)))"
  using assms
proof (induction cs arbitrary: e)
  case (Cons c cs)
  obtain ops r where p: "sql_plan c (contents e) = (ops, r)" by (cases "sql_plan c (contents e)")
  have room: "eng_used e + ops_cost (fst (sql_plan c (contents e))) < eng_cap"
    using Cons.prems(2) by (auto simp: p split: sum.splits prod.splits)
  obtain e1 where e1: "Execute c e = (r, e1)" "eng_ok e1" "contents e1 = foldl kv_apply (contents e) ops"
    "eng_used e1 \<le> eng_used e + ops_cost ops"
    using Execute_spec [OF Cons.prems(1) room] by (auto simp: p)
  show ?case
  proof (cases r)
    case (Inl x)
    with e1 show ?thesis by (simp add: p)
  next
    case (Inr y)
    have "eng_used e1 + ops_cost (fst (commit_ops cs (contents e1))) < eng_cap"
      using Cons.prems(2) e1(4) by (simp add: p Inr e1(3) split: prod.splits)
    from Cons.IH [OF e1(2) this] e1 Inr show ?thesis by (auto simp: p split: prod.split)
  qed
qed simp

lemma commit_ops_one: "commit_ops [c] m = (fst (sql_plan c m), rbind (snd (sql_plan c m)) (\<lambda>_. Inr ()))"
  by (auto split: prod.split sum.split)

text \<open>One command, on any machine with room for it: the answer and the writes are functions of the participant and the
  contents.\<close>

lemma part_Commit_eq:
  "part_Commit t run p e = (case omap_find t (pending p) of
     None \<Rightarrow> (Inr (''commit of unknown or already-resolved transaction '' @ to_string (unat t)), p, e)
   | Some pd \<Rightarrow> (rbind (fst (efor (pd_commands pd) run e)) (\<lambda>_. Inr []), snd (part_Abort t p), snd (efor (pd_commands pd) run e)))"
  by (simp add: part_Commit_def part_Abort_def ReleaseLocks_def Let_def split: option.split prod.split)

definition step_result :: "string \<Rightarrow> StateMachine \<Rightarrow> string res \<times> TxnParticipant" where
  "step_result command m =
     (let run = rbind (snd (commit_ops (command_runs command m) (contents (sm_engine m)))) (\<lambda>_. Inr []); p = sm_txns m
      in case TryDecodeTxnControl command of
           Inl e \<Rightarrow> (Inl e, p)
         | Inr None \<Rightarrow> (error_text run, p)
         | Inr (Some c) \<Rightarrow>
             if tc_type c = kPrepare then
               (case FindStagedDuplicateKey (sm_engine m) (tc_commands c) of
                  Inl e \<Rightarrow> (Inl e, p)
                | Inr error \<Rightarrow> if error \<noteq> [] then (Inr error, p)
                    else map_prod Inr id (part_Prepare (tc_txn_id c) (tc_keys c) (tc_commands c) p))
             else if tc_type c = kCommit then
               (if omap_find (tc_txn_id c) (pending p) = None
                then (Inr (''commit of unknown or already-resolved transaction '' @ to_string (unat (tc_txn_id c))), p)
                else (error_text run, snd (part_Abort (tc_txn_id c) p)))
             else if tc_type c = kAbort then map_prod Inr id (part_Abort (tc_txn_id c) p)
             else (error_text run, p))"

lemma apply_callback_spec:
  assumes "eng_ok (sm_engine m)" and "has_room command m"
  shows "\<exists>e. apply_callback command m = (fst (step_result command m), \<lparr>sm_engine = e, sm_txns = snd (step_result command m)\<rparr>) \<and>
    eng_ok e \<and> contents e = foldl kv_apply (contents (sm_engine m)) (fst (commit_ops (command_runs command m) (contents (sm_engine m))))"
proof -
  let ?cs = "command_runs command m" let ?m = "contents (sm_engine m)"
  obtain e where e: "efor ?cs (\<lambda>c. ebind (Execute c) (\<lambda>_. eret ())) (sm_engine m) = (snd (commit_ops ?cs ?m), e)" "eng_ok e"
    "contents e = foldl kv_apply ?m (fst (commit_ops ?cs ?m))"
    using efor_Execute [OF assms(1), of ?cs] assms(2) by (auto simp: has_room_def)
  have same: "m = \<lparr>sm_engine = sm_engine m, sm_txns = sm_txns m\<rparr>" by simp
  have one: "run_command command m = (error_text (rbind (snd (commit_ops [command] ?m)) (\<lambda>_. Inr [])), \<lparr>sm_engine = e, sm_txns = sm_txns m\<rparr>)"
    if "?cs = [command]"
  proof -
    obtain r e1 where x: "Execute command (sm_engine m) = (r, e1)" by (cases "Execute command (sm_engine m)")
    then have "efor [command] (\<lambda>c. ebind (Execute c) (\<lambda>_. eret ())) (sm_engine m) = (rbind r (\<lambda>_. Inr ()), e1)"
      by (cases r) (simp_all add: ebind_def)
    with e(1) that have "snd (commit_ops [command] ?m) = rbind r (\<lambda>_. Inr ())" "e1 = e" by (simp_all del: commit_ops.simps)
    with x show ?thesis by (cases r) (simp_all add: run_command_def del: commit_ops.simps)
  qed
  have none: "e = sm_engine m" if "?cs = []" using e(1) that by simp
  show ?thesis
  proof (cases "TryDecodeTxnControl command")
    case (Inl x)
    then have "?cs = []" by (simp add: command_runs_def)
    with Inl assms(1) show ?thesis
      by (intro exI [of _ "sm_engine m"]) (simp add: apply_callback_def step_result_def)
  next
    case (Inr c)
    show ?thesis
    proof (cases c)
      case None
      then have "?cs = [command]" using Inr by (simp add: command_runs_def)
      with e one Inr None show ?thesis by (intro exI [of _ e]) (simp add: apply_callback_def step_result_def Let_def del: commit_ops.simps)
    next
      case (Some ctl)
      note dec = Inr [unfolded Some]
      consider "tc_type ctl = kPrepare" | "tc_type ctl = kCommit" | "tc_type ctl = kAbort" |
        "tc_type ctl \<noteq> kPrepare" "tc_type ctl \<noteq> kCommit" "tc_type ctl \<noteq> kAbort" by blast
      then show ?thesis
      proof cases
        case 1
        then have "?cs = []" using dec by (simp add: command_runs_def)
        with 1 dec assms(1) show ?thesis
          by (intro exI [of _ "sm_engine m"])
            (auto simp: apply_callback_def apply_control_def step_result_def split: sum.split prod.split)
      next
        case 2
        then have "?cs = (case omap_find (tc_txn_id ctl) (pending (sm_txns m)) of None \<Rightarrow> [] | Some pd \<Rightarrow> pd_commands pd)"
          using dec by (simp add: command_runs_def)
        with 2 dec e none show ?thesis
          by (intro exI [of _ e])
            (auto simp: apply_callback_def apply_control_def step_result_def part_Commit_eq Let_def error_text_def split: option.split)
      next
        case 3
        then have "?cs = []" using dec by (simp add: command_runs_def)
        with 3 dec assms(1) show ?thesis
          by (intro exI [of _ "sm_engine m"])
            (auto simp: apply_callback_def apply_control_def step_result_def split: prod.split)
      next
        case 4
        then have "?cs = [command]" using dec by (simp add: command_runs_def)
        with 4 e one dec show ?thesis
          by (intro exI [of _ e]) (simp add: apply_callback_def apply_control_def step_result_def Let_def del: commit_ops.simps)
      qed
    qed
  qed
qed

text \<open>Commands applied one after another; none after one whose exception leaves the callback.\<close>

fun apply_all :: "string list \<Rightarrow> StateMachine \<Rightarrow> string res list \<times> StateMachine" where
  "apply_all [] m = ([], m)"
| "apply_all (c # cs) m = (case apply_callback c m of
       (Inl e, m1) \<Rightarrow> ([Inl e], m1)
     | (Inr r, m1) \<Rightarrow> (case apply_all cs m1 of (rs, m2) \<Rightarrow> (Inr r # rs, m2)))"

fun room_for :: "string list \<Rightarrow> StateMachine \<Rightarrow> bool" where
  "room_for [] m = True"
| "room_for (c # cs) m = (has_room c m \<and> (case apply_callback c m of (Inl e, m1) \<Rightarrow> True | (Inr r, m1) \<Rightarrow> room_for cs m1))"

text \<open>Machines that hold the same.\<close>

definition same_machine :: "StateMachine \<Rightarrow> StateMachine \<Rightarrow> bool" where
  "same_machine m m' \<longleftrightarrow> eng_ok (sm_engine m) \<and> eng_ok (sm_engine m') \<and> eng_Get (sm_engine m) = eng_Get (sm_engine m') \<and>
     sm_txns m = sm_txns m'"

lemma same_contents: "same_machine m m' \<Longrightarrow> contents (sm_engine m) = contents (sm_engine m')"
proof -
  assume s: "same_machine m m'"
  then have "eng_view (sm_engine m) = eng_view (sm_engine m')"
    using eng.get_view [of "sm_engine m"] eng.get_view [of "sm_engine m'"] by (simp add: same_machine_def fun_eq_iff)
  with s show ?thesis by (intro omap_ext) (simp_all add: same_machine_def contents_ok map_of_contents)
qed

lemma FindStaged_same:
  assumes "eng_Get e = eng_Get e'"
  shows "FindStagedDuplicateKey e cmds = FindStagedDuplicateKey e' cmds"
proof -
  have load: "LoadSchema e d t = LoadSchema e' d t" for d t by (simp add: LoadSchema_def assms)
  have key: "TryExtractRowKey e stmt = TryExtractRowKey e' stmt" for stmt     by (cases stmt) (simp_all only: TryExtractRowKey.simps pinned_row_def load)
  show ?thesis by (induction cmds) (simp_all only: FindStagedDuplicateKey.simps key assms)
qed

lemma step_same:
  assumes "same_machine m m'" and "has_room c m" and "has_room c m'"
  shows "fst (apply_callback c m) = fst (apply_callback c m')" "same_machine (snd (apply_callback c m)) (snd (apply_callback c m'))"
proof -
  note con = same_contents [OF assms(1)]
  have txn: "sm_txns m = sm_txns m'" and ok: "eng_ok (sm_engine m)" "eng_ok (sm_engine m')"
    and get: "eng_Get (sm_engine m) = eng_Get (sm_engine m')" using assms(1) by (simp_all add: same_machine_def)
  have runs: "command_runs c m = command_runs c m'" unfolding command_runs_def txn ..
  have res: "step_result c m = step_result c m'"
    unfolding step_result_def by (simp only: runs con txn FindStaged_same [OF get])
  obtain e where e: "apply_callback c m = (fst (step_result c m), \<lparr>sm_engine = e, sm_txns = snd (step_result c m)\<rparr>)" "eng_ok e"
    "contents e = foldl kv_apply (contents (sm_engine m)) (fst (commit_ops (command_runs c m) (contents (sm_engine m))))"
    using apply_callback_spec [OF ok(1) assms(2)] by blast
  obtain e' where e': "apply_callback c m' = (fst (step_result c m'), \<lparr>sm_engine = e', sm_txns = snd (step_result c m')\<rparr>)" "eng_ok e'"
    "contents e' = foldl kv_apply (contents (sm_engine m')) (fst (commit_ops (command_runs c m') (contents (sm_engine m'))))"
    using apply_callback_spec [OF ok(2) assms(3)] by blast
  have "contents e = contents e'" using e(3) e'(3) by (simp only: runs con)
  then have "eng_Get e = eng_Get e'" using e(2) e'(2) by (simp add: fun_eq_iff Get_contents)
  then show "fst (apply_callback c m) = fst (apply_callback c m')" "same_machine (snd (apply_callback c m)) (snd (apply_callback c m'))"
    using e(1,2) e'(1,2) by (simp_all add: res same_machine_def)
qed

text \<open>C10. Replicas whose state machines hold the same keys and values and the same prepared transactions answer every
  sequence of commands of the log alike, SQL texts and transaction control commands, votes and errors included, and
  hold the same afterwards, however their stores are laid out, as long as these have room for what is written.\<close>

theorem replicas_stay_equal:
  assumes "same_machine m m'" and "room_for cs m" and "room_for cs m'"
  shows "fst (apply_all cs m) = fst (apply_all cs m') \<and> same_machine (snd (apply_all cs m)) (snd (apply_all cs m'))"
  using assms
proof (induction cs arbitrary: m m')
  case (Cons c cs)
  have r: "has_room c m" "has_room c m'" using Cons.prems(2,3) by simp_all
  note step = step_same [OF Cons.prems(1) r]
  obtain x m1 x' m1' where a: "apply_callback c m = (x, m1)" "apply_callback c m' = (x', m1')" by (metis surj_pair)
  then have x: "x' = x" "same_machine m1 m1'" using step by simp_all
  show ?case
  proof (cases x)
    case (Inr y)
    then have "room_for cs m1" "room_for cs m1'" using Cons.prems(2,3) a x by simp_all
    from Cons.IH [OF x(2) this] show ?thesis by (simp add: a x(1) Inr case_prod_beta)
  next
    case (Inl e)
    then show ?thesis using x(2) by (simp add: a x(1))
  qed
qed simp

text \<open>A command of the log that runs in every process: a transaction of one statement.\<close>

definition example_prepare :: string where
  "example_prepare = EncodeTxnPrepare \<lparr>tp_txn_id = 1, tp_keys = [''r''], tp_commands = [''CREATE DATABASE d'']\<rparr>"

definition example_pending :: TxnParticipant where
  "example_pending = snd (part_Prepare 1 [''r''] [''CREATE DATABASE d''] part_empty)"

lemma staged_decode:
  "TryDecodeTxnControl example_prepare =
     Inr (Some \<lparr>tc_type = kPrepare, tc_txn_id = 1, tc_keys = [''r''], tc_commands = [''CREATE DATABASE d'']\<rparr>)"
  "TryDecodeTxnControl (EncodeTxnCommit t) = Inr (Some \<lparr>tc_type = kCommit, tc_txn_id = t, tc_keys = [], tc_commands = []\<rparr>)"
  using TryDecodeTxnControl_encode
    [of "\<lparr>tc_type = kPrepare, tc_txn_id = 1, tc_keys = [''r''], tc_commands = [''CREATE DATABASE d'']\<rparr>"]
    TryDecodeTxnControl_encode [of "\<lparr>tc_type = kCommit, tc_txn_id = t, tc_keys = [], tc_commands = []\<rparr>"]
  by (simp_all add: control_ok_def strings_ok_def fits32_def encode_control_def example_prepare_def)

lemma staged_parse: "parse_sql ''CREATE DATABASE d'' = Inr (CreateDatabase \<lparr>cdb_name = ''d''\<rparr>)"
  by code_simp

lemma example_find_pending: "omap_find 1 (pending example_pending) = Some \<lparr>pd_keys = [''r''], pd_commands = [''CREATE DATABASE d'']\<rparr>"
  by code_simp

lemma example_vote: "part_Prepare 1 [''r''] [''CREATE DATABASE d''] part_empty = ([], example_pending)"
  by (simp add: example_pending_def part_Prepare_def part_empty_def omap_find_def)

lemma example_apply_prepare:
  "apply_callback example_prepare \<lparr>sm_engine = e, sm_txns = part_empty\<rparr> = (Inr [], \<lparr>sm_engine = e, sm_txns = example_pending\<rparr>)"
  by (simp add: apply_callback_def staged_decode apply_control_def staged_parse example_vote)

lemma staged_ops: "commit_ops [''CREATE DATABASE d''] [] = ([OpPut ''__database__/d'' []], Inr ())"
  by (simp add: sql_plan_def staged_parse DatabaseKey_def omap_find_def)

lemma staged_room:
  "contents e = [] \<Longrightarrow> eng_used e < 1000 \<Longrightarrow> has_room (EncodeTxnCommit 1) \<lparr>sm_engine = e, sm_txns = example_pending\<rparr>"
  "contents e = [] \<Longrightarrow> eng_used e < 1000 \<Longrightarrow> has_room example_prepare \<lparr>sm_engine = e, sm_txns = part_empty\<rparr>"
  by (simp_all add: has_room_def command_runs_def staged_decode example_find_pending staged_ops put_cost_def eng_cap_def del: commit_ops.simps(2))

text \<open>An empty store, and one whose log and memtable hold a tombstone.\<close>

lemma example_stores:
  "\<exists>e. eng_Delete ''k'' eng_empty = (Inr (), e) \<and> eng_ok e \<and> contents e = [] \<and> eng_used e < 1000 \<and> eng_Get e = eng_Get eng_empty"
proof -
  obtain e where e: "eng_Delete ''k'' eng_empty = (Inr (), e)" "eng_ok e" "eng_view e = (eng_view eng_empty)(''k'' := None)"
    "eng_used e \<le> eng_used eng_empty + delete_cost ''k''"
    using eng.del_spec [OF eng_ok_empty, of "''k''"] by (auto simp: delete_cost_def eng_cap_def)
  have v: "eng_view e = eng_view eng_empty" using e(3) by (simp add: fun_eq_iff)
  then have "contents e = []"
    using e(2) by (intro omap_ext) (simp_all add: contents_ok map_of_contents)
  moreover have "eng_Get e = eng_Get eng_empty" using v e(2) by (simp add: fun_eq_iff eng.get_view eng_ok_empty)
  ultimately show ?thesis using e(1,2,4) by (simp add: delete_cost_def)
qed

lemma staged_room_all:
  assumes "eng_ok e" and "contents e = []" and "eng_used e < 1000"
  shows "room_for [example_prepare, EncodeTxnCommit 1] \<lparr>sm_engine = e, sm_txns = part_empty\<rparr>"
  using assms by (simp add: example_apply_prepare staged_room split: prod.split sum.split)

theorem replicas_stay_equal_witness:
  "\<exists>e. eng_Delete ''k'' eng_empty = (Inr (), e) \<and>
     fst (apply_all [example_prepare, EncodeTxnCommit 1] \<lparr>sm_engine = eng_empty, sm_txns = part_empty\<rparr>) =
     fst (apply_all [example_prepare, EncodeTxnCommit 1] \<lparr>sm_engine = e, sm_txns = part_empty\<rparr>)"
proof -
  obtain e where e: "eng_Delete ''k'' eng_empty = (Inr (), e)" "eng_ok e" "contents e = []" "eng_used e < 1000"
    "eng_Get e = eng_Get eng_empty" using example_stores by blast
  have "same_machine \<lparr>sm_engine = eng_empty, sm_txns = part_empty\<rparr> \<lparr>sm_engine = e, sm_txns = part_empty\<rparr>"
    by (simp add: same_machine_def eng_ok_empty e)
  moreover have "room_for [example_prepare, EncodeTxnCommit 1] \<lparr>sm_engine = eng_empty, sm_txns = part_empty\<rparr>"
    by (rule staged_room_all) (simp_all add: eng_ok_empty contents_empty)
  ultimately show ?thesis
    using replicas_stay_equal staged_room_all [OF e(2-4)] e(1) by blast
qed

text \<open>The invariant of a machine.\<close>

definition machine_ok :: "StateMachine \<Rightarrow> bool" where
  "machine_ok m \<longleftrightarrow> eng_ok (sm_engine m) \<and> db_ok (contents (sm_engine m)) \<and> part_ok (sm_txns m)"

lemma commit_ops_safe:
  "db_ok m \<Longrightarrow> ops_cost (fst (commit_ops cs m)) < 2 ^ 32 \<Longrightarrow>
     db_ok (foldl kv_apply m (fst (commit_ops cs m))) \<and> snd (commit_ops cs m) \<noteq> Inl Undefined"
proof (induction cs arbitrary: m)
  case (Cons c cs)
  obtain ops r where p: "sql_plan c m = (ops, r)" by (cases "sql_plan c m")
  have "ops_cost ops < 2 ^ 32" using Cons.prems(2) by (auto simp: p split: sum.splits prod.splits)
  then have safe: "r \<noteq> Inl Undefined" "db_ok (foldl kv_apply m ops)"
    using sql_plan_safe [OF Cons.prems(1), of c] by (simp_all add: plan_safe_def p)
  show ?case
  proof (cases r)
    case (Inr y)
    obtain ops' r' where q: "commit_ops cs (foldl kv_apply m ops) = (ops', r')" by (cases "commit_ops cs (foldl kv_apply m ops)")
    have "ops_cost (fst (commit_ops cs (foldl kv_apply m ops))) < 2 ^ 32" using Cons.prems(2) by (simp add: p q Inr)
    from Cons.IH [OF safe(2) this] show ?thesis by (simp add: p q Inr)
  qed (use safe in \<open>simp add: p\<close>)
qed simp

lemma find_zip_bound: "find P (zip cs [0..<length cs]) = Some (c, i) \<Longrightarrow> i < length cs"
  by (auto simp: find_Some_iff)

lemma TryExtractRowKey_defined:
  assumes "eng_ok e" and "db_ok (contents e)" and "stmt_wf (Insert u)"
  shows "\<exists>k. TryExtractRowKey e (Insert u) = Inr k"
proof -
  let ?l = "LoadSchema e (ins_db_name u) (ins_table_name u)"
  have "?l = kv_LoadSchema (contents e) (ins_db_name u) (ins_table_name u)"
    by (simp add: LoadSchema_def kv_LoadSchema_def Get_contents [OF assms(1)])
  then have load: "?l \<noteq> Inl Undefined" "\<And>s. ?l = Inr s \<Longrightarrow> schema_ok s"
    using LoadSchema_cases [OF assms(2), of "ins_db_name u" "ins_table_name u"] assms(3) by auto
  have len: "length (ins_values u) = length (ins_columns u)" using assms(3) by simp
  show ?thesis
  proof (cases ?l)
    case (Inl x)
    with load(1) show ?thesis by (simp add: catch_all_def split: exn.split)
  next
    case (Inr s)
    from load(2) [OF Inr] have "vec_int (columns s) (PrimaryKeyIndex s) = Inr (columns s ! pk_pos s)"
      by (simp add: find_pk_column vec_at_def schema_ok_pk(2))
    with Inr len show ?thesis
      by (auto simp: catch_all_def vec_at_def dest: find_zip_bound split: option.split)
  qed
qed

lemma FindStaged_defined:
  assumes "eng_ok e" and "db_ok (contents e)"
  shows "\<exists>error. FindStagedDuplicateKey e cmds = Inr error"
proof (induction cmds)
  case (Cons cmd cmds)
  have "stmt_wf (Insert u)" if "parse_sql cmd = Inr (Insert u)" for u using parse_sql_wf [of cmd] that by simp
  then have "\<exists>k. TryExtractRowKey e (Insert u) = Inr k" if "parse_sql cmd = Inr (Insert u)" for u
    using TryExtractRowKey_defined [OF assms] that by blast
  with Cons show ?case
    by (fastforce simp del: TryExtractRowKey.simps split: sum.split Statement.split)
qed simp

section \<open>The invariant is kept\<close>

definition throws_only :: "exn \<Rightarrow> (string, 'a) cursor \<Rightarrow> bool" where
  "throws_only e d \<longleftrightarrow> (\<forall>bs x. d bs = Inl x \<longrightarrow> x = e)"

lemma throws_only_sbind: "throws_only e d \<Longrightarrow> (\<And>x. throws_only e (f x)) \<Longrightarrow> throws_only e (sbind d f)"
  by (auto simp: throws_only_def sbind_def split: sum.splits)

lemma throws_only_sret: "throws_only e (sret x)"
  by (simp add: throws_only_def)

lemma throws_only_raw: "throws_only e (get_raw e n)"
  by (simp add: throws_only_def get_raw_def)

lemma throws_only_if: "throws_only e d \<Longrightarrow> throws_only e d' \<Longrightarrow> throws_only e (if b then d else d')"
  by simp

lemmas throws_only_basic = throws_only_sbind throws_only_sret throws_only_raw throws_only_if

lemma throws_only_srepeat: "throws_only e d \<Longrightarrow> throws_only e (srepeat d n)"
  by (induction n) (auto intro: throws_only_basic)

lemma throws_only_ReadTxnControl: "throws_only txn_error ReadTxnControl"
  unfolding ReadTxnControl_def get_u8_def get_u64_def get_strings_def get_string_def get_u32_def
  by (intro throws_only_basic throws_only_srepeat)

lemma TryDecodeTxnControl_error: "TryDecodeTxnControl c = Inl e \<Longrightarrow> e = txn_error"
  using throws_only_ReadTxnControl
  by (auto simp: TryDecodeTxnControl_def srun_def throws_only_def rbind_Inl_iff split: if_splits sum.splits)

lemma error_text_defined: "r \<noteq> Inl Undefined \<Longrightarrow> \<exists>s. error_text r = Inr s"
  by (cases r) (auto simp: error_text_def split: exn.split)

lemma step_result_ok:
  assumes "machine_ok m" and "has_room c m"
  shows "part_ok (snd (step_result c m))" and "fst (step_result c m) = Inl e \<Longrightarrow> TryDecodeTxnControl c = Inl e"
proof -
  let ?ops = "commit_ops (command_runs c m) (contents (sm_engine m))"
  have ok: "eng_ok (sm_engine m)" "db_ok (contents (sm_engine m))" "part_ok (sm_txns m)"
    using assms(1) by (simp_all add: machine_ok_def)
  have "ops_cost (fst ?ops) < 2 ^ 32" using assms(2) by (simp add: has_room_def eng_cap_def)
  then have "snd ?ops \<noteq> Inl Undefined" using commit_ops_safe [OF ok(2)] by blast
  then have "rbind (snd ?ops) (\<lambda>_. Inr []) \<noteq> (Inl Undefined :: string res)" by (simp add: rbind_Inl_iff)
  then obtain s where s: "error_text (rbind (snd ?ops) (\<lambda>_. Inr [])) = Inr s" using error_text_defined by blast
  have part: "part_ok (snd (part_Prepare t ks cs (sm_txns m)))" "part_ok (snd (part_Abort t (sm_txns m)))" for t ks cs
    using Prepare_ok Abort_ok ok(3) by blast+
  show "part_ok (snd (step_result c m))"
    using ok(3) part by (simp add: step_result_def Let_def split: sum.split option.split)
  have "FindStagedDuplicateKey (sm_engine m) cmds \<noteq> Inl e" for cmds
    using FindStaged_defined [OF ok(1,2), of cmds] by auto
  then show "fst (step_result c m) = Inl e \<Longrightarrow> TryDecodeTxnControl c = Inl e"
    using s by (auto simp: step_result_def Let_def split: sum.splits option.splits if_splits)
qed

lemma machine_ok_apply:
  assumes "machine_ok m" and "has_room c m"
  shows "machine_ok (snd (apply_callback c m)) \<and>
    (\<forall>e. fst (apply_callback c m) = Inl e \<longrightarrow> e = txn_error \<and> TryDecodeTxnControl c = Inl e)"
proof -
  let ?ops = "commit_ops (command_runs c m) (contents (sm_engine m))"
  have ok: "eng_ok (sm_engine m)" "db_ok (contents (sm_engine m))" using assms(1) by (simp_all add: machine_ok_def)
  have "ops_cost (fst ?ops) < 2 ^ 32" using assms(2) by (simp add: has_room_def eng_cap_def)
  with commit_ops_safe [OF ok(2)] have "db_ok (foldl kv_apply (contents (sm_engine m)) (fst ?ops))" by blast
  moreover obtain e where "apply_callback c m = (fst (step_result c m), \<lparr>sm_engine = e, sm_txns = snd (step_result c m)\<rparr>)"
    "eng_ok e" "contents e = foldl kv_apply (contents (sm_engine m)) (fst ?ops)"
    using apply_callback_spec [OF ok(1) assms(2)] by blast
  ultimately show ?thesis
    using step_result_ok [OF assms] by (auto simp: machine_ok_def dest: TryDecodeTxnControl_error)
qed

section \<open>Properties\<close>

text \<open>C14. A machine whose contents are well formed and whose locks are those of the pending transactions keeps both
  under every command of the log, a SQL text of any content and a control command alike; nothing that it runs is
  undefined behaviour; and an exception leaves the callback only for a command that starts like a control command
  and does not decode as one.\<close>

theorem replica_machine_invariant:
  assumes "machine_ok m" and "has_room c m"
  shows "machine_ok (snd (apply_callback c m)) \<and>
    (\<forall>e. fst (apply_callback c m) = Inl e \<longrightarrow> e = txn_error \<and> TryDecodeTxnControl c = Inl e)"
  by (rule machine_ok_apply [OF assms])

lemma example_machine_ok: "machine_ok \<lparr>sm_engine = eng_empty, sm_txns = part_empty\<rparr>"
  by (simp add: machine_ok_def eng_ok_empty contents_empty db_ok_def kv_ok_def part_empty_ok omap_ok_def)

theorem replica_machine_invariant_witness:
  "machine_ok (snd (apply_callback example_prepare \<lparr>sm_engine = eng_empty, sm_txns = part_empty\<rparr>))"
  using replica_machine_invariant [OF example_machine_ok, of example_prepare] staged_room(2) [OF contents_empty] by simp

text \<open>C19. The snapshot of a machine, installed by another one whatever it held before, gives that one the same keys and
  values, row for row, but not the prepared transactions, which no snapshot holds: the transaction that the first machine
  commits at the next log entry is unknown to the second, whose store stays as it is, so that the two differ from
  then on by what the transaction writes.\<close>

theorem snapshot_without_prepared:
  assumes "eng_ok (sm_engine m)" and "eng_ok (sm_engine m')" and "snapshot_fits (contents (sm_engine m))"
    and "omap_find t (pending (sm_txns m)) = Some pd" and "has_room (EncodeTxnCommit t) m"
    and "omap_find t (pending (sm_txns m')) = None"
  shows "\<exists>m2. restore_callback (snapshot_callback m) m' = (Inr (), m2) \<and>
    contents (sm_engine m2) = contents (sm_engine m) \<and> sm_txns m2 = sm_txns m' \<and>
    contents (sm_engine (snd (apply_callback (EncodeTxnCommit t) m))) =
      foldl kv_apply (contents (sm_engine m)) (fst (commit_ops (pd_commands pd) (contents (sm_engine m)))) \<and>
    apply_callback (EncodeTxnCommit t) m2 =
      (Inr (''commit of unknown or already-resolved transaction '' @ to_string (unat t)), m2)"
proof -
  obtain e where e: "restore_callback (snapshot_callback m) m' = (Inr (), m'\<lparr>sm_engine := e\<rparr>)"
    "contents e = contents (sm_engine m)"
    using restore_snapshot [OF assms(1-3)] by blast
  have runs: "command_runs (EncodeTxnCommit t) m = pd_commands pd"
    by (simp add: command_runs_def staged_decode assms(4))
  have "contents (sm_engine (snd (apply_callback (EncodeTxnCommit t) m))) =
      foldl kv_apply (contents (sm_engine m)) (fst (commit_ops (pd_commands pd) (contents (sm_engine m))))"
    using apply_callback_spec [OF assms(1,5)] by (auto simp: runs)
  moreover have "apply_callback (EncodeTxnCommit t) m2 =
      (Inr (''commit of unknown or already-resolved transaction '' @ to_string (unat t)), m2)"
    if "m2 = m'\<lparr>sm_engine := e\<rparr>" for m2
    using that assms(6)
    by (simp add: apply_callback_def staged_decode apply_control_def part_Commit_eq error_text_def)
  ultimately show ?thesis using e by (intro exI [of _ "m'\<lparr>sm_engine := e\<rparr>"]) simp
qed

theorem snapshot_without_prepared_witness:
  "\<exists>m2. restore_callback (snapshot_callback \<lparr>sm_engine = eng_empty, sm_txns = example_pending\<rparr>)
       \<lparr>sm_engine = eng_empty, sm_txns = part_empty\<rparr> = (Inr (), m2) \<and>
     map_of (contents (sm_engine (snd (apply_callback (EncodeTxnCommit 1) \<lparr>sm_engine = eng_empty, sm_txns = example_pending\<rparr>))))
       ''__database__/d'' = Some [] \<and>
     map_of (contents (sm_engine (snd (apply_callback (EncodeTxnCommit 1) m2)))) ''__database__/d'' = None"
proof -
  have none: "omap_find 1 (pending part_empty) = None" by (simp add: part_empty_def omap_find_def)
  have room: "has_room (EncodeTxnCommit 1) \<lparr>sm_engine = eng_empty, sm_txns = example_pending\<rparr>"
    by (rule staged_room) (simp_all add: contents_empty)
  show ?thesis
    using snapshot_without_prepared [where m = "\<lparr>sm_engine = eng_empty, sm_txns = example_pending\<rparr>" and t = 1
        and m' = "\<lparr>sm_engine = eng_empty, sm_txns = part_empty\<rparr>", OF _ _ _ _ room]
    by (auto simp: eng_ok_empty contents_empty snapshot_fits_def fits32_def eng_cap_def example_find_pending none staged_ops
      simp del: commit_ops.simps(2))
qed

end
