(* ===== verification/Transport.thy ===== *)
theory Transport
  imports Bytes
begin

text \<open>
  \<^verbatim>\<open>src/raft/transport.cpp\<close>: messages over a TCP connection, each with its length in front.  The system calls are
  parameters: a record of functions on the state of the world.  Shown: the loops that read and write exactly so many
  bytes end whatever the calls return; a message written in any pieces is read back, in any pieces; and a socket
  that was opened is closed once, whatever fails.
\<close>

record 'w sockets =
  s_create :: "'w \<Rightarrow> bool \<times> 'w"
  s_reuse_address :: "'w \<Rightarrow> 'w"
  s_bind :: "16 word \<Rightarrow> 'w \<Rightarrow> int \<times> 'w"
  s_listen :: "int \<Rightarrow> 'w \<Rightarrow> int \<times> 'w"
  s_set_timeout :: "nat \<Rightarrow> 'w \<Rightarrow> 'w"
  s_pton :: "string \<Rightarrow> bool"
  s_set_blocking :: "bool \<Rightarrow> 'w \<Rightarrow> 'w"
  s_connect :: "string \<Rightarrow> 16 word \<Rightarrow> 'w \<Rightarrow> int \<times> 'w"
  s_in_progress :: "'w \<Rightarrow> bool"
  s_select :: "nat \<Rightarrow> 'w \<Rightarrow> int \<times> 'w"
  s_so_error :: "'w \<Rightarrow> int \<times> 'w"
  s_recv :: "int \<Rightarrow> 'w \<Rightarrow> string option \<times> 'w"
  s_send :: "string \<Rightarrow> int \<Rightarrow> 'w \<Rightarrow> int \<times> 'w"
  s_close :: "'w \<Rightarrow> 'w"

text \<open>\<^verbatim>\<open>static_cast<int>(n)\<close>.\<close>

definition as_int :: "nat \<Rightarrow> int" where
  "as_int n = sint (of_nat n :: 32 word)"

text \<open>\<^verbatim>\<open>recv\<close> gives \<open>None\<close> for a result that is not positive, and otherwise the bytes it put into the buffer; more
  than were asked for would be written past the buffer.\<close>

function RecvExact :: "'w sockets \<Rightarrow> nat \<Rightarrow> string \<Rightarrow> ('w, string) eff" where
  "RecvExact io len out w =
     (if length out < len
      then (case s_recv io (as_int (len - length out)) w of
          (None, w') \<Rightarrow> (Inl (RuntimeError ''connection closed or timed out while reading''), w')
        | (Some bytes, w') \<Rightarrow>
            if bytes = [] \<or> len < length out + length bytes then (Inl Undefined, w')
            else RecvExact io len (out @ bytes) w')
      else (Inr out, w))"
  by pat_completeness auto
termination by (relation "measure (\<lambda>(io, len, out, w). len - length out)")
  (auto simp: neq_Nil_conv)

declare RecvExact.simps [simp del]

function SendExact :: "'w sockets \<Rightarrow> string \<Rightarrow> nat \<Rightarrow> ('w, unit) eff" where
  "SendExact io data sent w =
     (if sent < length data
      then (case s_send io (drop sent data) (as_int (length data - sent)) w of (n, w') \<Rightarrow>
          if n \<le> 0 then (Inl (RuntimeError ''connection closed or timed out while writing''), w')
          else SendExact io data (sent + nat n) w')
      else (Inr (), w))"
  by pat_completeness auto
termination by (relation "measure (\<lambda>(io, data, sent, w). length data - sent)") auto

declare SendExact.simps [simp del]

definition ReadFramedMessage :: "'w sockets \<Rightarrow> ('w, string) eff" where
  "ReadFramedMessage io = ebind (RecvExact io 4 []) (\<lambda>l.
     let len = le_val l in if 0 < len then RecvExact io len [] else eret [])"

definition WriteFramedMessage :: "'w sockets \<Rightarrow> string \<Rightarrow> ('w, unit) eff" where
  "WriteFramedMessage io body =
     (let len = of_nat (length body) :: 32 word
      in ebind (SendExact io (put_u32 len) 0) (\<lambda>_. if 0 < len then SendExact io body 0 else eret ()))"

text \<open>The constructor; its value stands for the listening socket.\<close>

definition RaftTransport_new :: "'w sockets \<Rightarrow> 16 word \<Rightarrow> ('w, unit) eff" where
  "RaftTransport_new io listen_port w0 =
     (let (created, w) = s_create io w0
      in if \<not> created then (Inl (RuntimeError ''failed to create listening socket''), w)
         else let (bound, w) = s_bind io listen_port (s_reuse_address io w)
              in if bound \<noteq> 0
                 then (Inl (RuntimeError (''failed to bind to port '' @ to_string (unat listen_port))), s_close io w)
                 else let (listening, w) = s_listen io 16 w
                      in if listening \<noteq> 0
                         then (Inl (RuntimeError (''failed to listen on port '' @ to_string (unat listen_port))), s_close io w)
                         else (Inr (), w))"

definition ConnectWithTimeout :: "'w sockets \<Rightarrow> string \<Rightarrow> 16 word \<Rightarrow> nat \<Rightarrow> 'w \<Rightarrow> bool \<times> 'w" where
  "ConnectWithTimeout io h p timeout_ms w0 =
     (let w = s_set_blocking io False w0; (rc, w) = s_connect io h p w
      in if rc = 0 then (True, s_set_blocking io True w)
         else if \<not> s_in_progress io w then (False, w)
         else let (ready, w) = s_select io timeout_ms w
              in if ready \<le> 0 then (False, w)
                 else let (so_error, w) = s_so_error io w in (so_error = 0, s_set_blocking io True w))"

definition SendRequest :: "'w sockets \<Rightarrow> string \<Rightarrow> 16 word \<Rightarrow> string \<Rightarrow> nat \<Rightarrow> ('w, string) eff" where
  "SendRequest io h p request_body timeout_ms w0 =
     (let (created, w) = s_create io w0
      in if \<not> created then (Inl (RuntimeError ''failed to create client socket''), w)
         else let w = s_set_timeout io timeout_ms w
              in if \<not> s_pton io h then (Inl (RuntimeError (''invalid host address: '' @ h)), s_close io w)
                 else let (connected, w) = ConnectWithTimeout io h p timeout_ms w
                      in if \<not> connected
                         then (Inl (RuntimeError (''failed to connect to '' @ h @ '':'' @ to_string (unat p) @ '' within '' @
                                 to_string timeout_ms @ ''ms'')), s_close io w)
                         else let (r, w) = ebind (WriteFramedMessage io request_body) (\<lambda>_. ReadFramedMessage io) w
                              in (r, s_close io w))"

text \<open>One accepted connection: whatever is thrown is dropped, and the connection is closed.\<close>

definition serve_connection :: "'w sockets \<Rightarrow> (string \<Rightarrow> ('w, string) eff) \<Rightarrow> 'w \<Rightarrow> 'w" where
  "serve_connection io handler w =
     s_close io (snd (ebind (ReadFramedMessage io) (\<lambda>request. ebind (handler request) (WriteFramedMessage io)) w))"

section \<open>Framing\<close>

text \<open>What the system promises of a connection: \<open>bytes w\<close> are in flight; a send accepts a non-empty part of the data and
  a receive gives a non-empty part of what is in flight.\<close>

definition carries :: "'w sockets \<Rightarrow> ('w \<Rightarrow> string) \<Rightarrow> bool" where
  "carries io bytes \<longleftrightarrow>
     (\<forall>w d n. 0 < n \<longrightarrow> n = int (length d) \<longrightarrow> (\<exists>k w'. s_send io d n w = (int k, w') \<and> 0 < k \<and> k \<le> length d \<and> bytes w' = bytes w @ take k d)) \<and>
     (\<forall>w n. 0 < n \<longrightarrow> bytes w \<noteq> [] \<longrightarrow>
        (\<exists>b w'. s_recv io n w = (Some b, w') \<and> b \<noteq> [] \<and> length b \<le> nat n \<and> bytes w = b @ bytes w'))"

lemma as_int_small: "n < 2 ^ 31 \<Longrightarrow> as_int n = int n"
  by (simp add: as_int_def sint_uint unsigned_of_nat signed_take_bit_int_eq_self take_bit_nat_eq_self of_nat_take_bit)

lemma SendExact_carries:
  assumes "carries io bytes" and "length data < 2 ^ 31"
  shows "\<exists>w'. SendExact io data sent w = (Inr (), w') \<and> bytes w' = bytes w @ drop sent data"
proof (induction "length data - sent" arbitrary: sent w rule: less_induct)
  case less
  show ?case
  proof (cases "sent < length data")
    case True
    let ?d = "drop sent data"
    have len: "as_int (length data - sent) = int (length ?d)" "0 < int (length ?d)" using True assms(2) by (simp_all add: as_int_small)
    then obtain k w1 where k: "s_send io ?d (int (length ?d)) w = (int k, w1)" "0 < k" "k \<le> length ?d" "bytes w1 = bytes w @ take k ?d"
      using assms(1) unfolding carries_def by blast
    have "length data - (sent + k) < length data - sent" using True k(2) by simp
    from less [OF this, of w1] obtain w2 where "SendExact io data (sent + k) w1 = (Inr (), w2)"
      "bytes w2 = bytes w1 @ drop (sent + k) data" by blast
    moreover have "take k ?d @ drop (sent + k) data = ?d" by (metis append_take_drop_id drop_drop add.commute)
    ultimately show ?thesis
      using True k by (subst SendExact.simps) (simp add: len(1))
  qed (simp add: SendExact.simps)
qed

lemma RecvExact_carries:
  assumes "carries io bytes" and "len < 2 ^ 31" and "bytes w = m @ rest" and "length out + length m = len"
  shows "\<exists>w'. RecvExact io len out w = (Inr (out @ m), w') \<and> bytes w' = rest"
  using assms(3,4)
proof (induction "length m" arbitrary: m out w rule: less_induct)
  case less
  show ?case
  proof (cases "m = []")
    case True
    with less show ?thesis by (subst RecvExact.simps) simp
  next
    case False
    have n: "as_int (len - length out) = int (length m)" "0 < int (length m)"
      using False less.prems(2) assms(2) by (auto simp: as_int_small)
    moreover have "bytes w \<noteq> []" using False less.prems(1) by simp
    ultimately obtain b w1 where b: "s_recv io (int (length m)) w = (Some b, w1)" "b \<noteq> []" "length b \<le> length m" "bytes w = b @ bytes w1"
      using assms(1) unfolding carries_def by (metis nat_int)
    have mb: "m = b @ drop (length b) m" "bytes w1 = drop (length b) m @ rest"
    proof -
      have eq: "b @ bytes w1 = m @ rest" using b(4) less.prems(1) by simp
      then have "b = take (length b) m" using b(3) by (metis append_eq_conv_conj take_append diff_is_0_eq' take_0 append_Nil2)
      then show m: "m = b @ drop (length b) m" by (metis append_take_drop_id)
      show "bytes w1 = drop (length b) m @ rest" using eq by (subst (asm) m) simp
    qed
    have "length (drop (length b) m) < length m" using b(2) False by (cases b) auto
    moreover have "length (out @ b) + length (drop (length b) m) = len" using b(3) less.prems(2) by simp
    ultimately obtain w2 where "RecvExact io len (out @ b) w1 = (Inr ((out @ b) @ drop (length b) m), w2)" "bytes w2 = rest"
      using less.hyps [of "drop (length b) m" w1 "out @ b"] mb(2) by blast
    moreover have "length out < len" using False less.prems(2) by (cases m) auto
    ultimately show ?thesis
      using b mb(1) less.prems(2) by (subst RecvExact.simps) (simp add: n(1))
  qed
qed

text \<open>C27. On a connection that carries bytes in order, in pieces of any size, writing a message and reading one both end,
  and what is read is what was written.\<close>

theorem transport_roundtrip:
  assumes "carries io bytes" and "bytes w = []" and "length body < 2 ^ 31"
  shows "\<exists>w1 w2. WriteFramedMessage io body w = (Inr (), w1) \<and> ReadFramedMessage io w1 = (Inr body, w2) \<and> bytes w2 = []"
proof -
  let ?len = "of_nat (length body) :: 32 word"
  have u: "unat ?len = length body" using assms(3) by (simp add: unat_of_nat)
  have four: "length (put_u32 ?len) < 2 ^ 31" by simp
  obtain v where v: "SendExact io (put_u32 ?len) 0 w = (Inr (), v)" "bytes v = put_u32 ?len"
    using SendExact_carries [OF assms(1) four, of 0 w] assms(2) by auto
  obtain w1 where w1: "SendExact io body 0 v = (Inr (), w1)" "bytes w1 = put_u32 ?len @ body"
    using SendExact_carries [OF assms(1,3), of 0 v] v(2) by auto
  have pos: "0 < ?len \<longleftrightarrow> body \<noteq> []" using u by (metis length_0_conv unat_eq_zero word_gt_0)
  obtain w1' where w1': "WriteFramedMessage io body w = (Inr (), w1')" "bytes w1' = put_u32 ?len @ body"
    using v w1 pos by (cases "body = []") (auto simp: WriteFramedMessage_def Let_def)
  obtain w2 where w2: "RecvExact io 4 [] w1' = (Inr (put_u32 ?len), w2)" "bytes w2 = body"
    using RecvExact_carries [OF assms(1) _ w1'(2), of 4 "[]"] by auto
  have l: "le_val (put_u32 ?len) = length body" using assms(3) u by (simp add: put_u32_def le_val_le_bytes)
  have "\<exists>w3. RecvExact io (length body) [] w2 = (Inr body, w3) \<and> bytes w3 = []"
    using RecvExact_carries [OF assms(1,3), of w2 body "[]" "[]"] w2(2) by simp
  then show ?thesis using w1'(1) w2 l by (cases "body = []") (auto simp: ReadFramedMessage_def)
qed

text \<open>A connection that moves one byte at a time.\<close>

definition byte_pipe :: "string sockets" where
  "byte_pipe = \<lparr>s_create = (\<lambda>w. (True, w)), s_reuse_address = (\<lambda>w. w), s_bind = (\<lambda>_ w. (0, w)), s_listen = (\<lambda>_ w. (0, w)),
     s_set_timeout = (\<lambda>_ w. w), s_pton = (\<lambda>_. True), s_set_blocking = (\<lambda>_ w. w),
     s_connect = (\<lambda>_ _ w. (0, w)), s_in_progress = (\<lambda>_. False), s_select = (\<lambda>_ w. (1, w)), s_so_error = (\<lambda>w. (0, w)),
     s_recv = (\<lambda>n w. case w of [] \<Rightarrow> (None, w) | c # cs \<Rightarrow> (Some [c], cs)),
     s_send = (\<lambda>d n w. (1, w @ take 1 d)), s_close = (\<lambda>w. w)\<rparr>"

theorem transport_roundtrip_witness:
  "\<exists>w1 w2. WriteFramedMessage byte_pipe ''hello'' [] = (Inr (), w1) \<and> ReadFramedMessage byte_pipe w1 = (Inr ''hello'', w2)"
proof -
  have "carries byte_pipe (\<lambda>w. w)"
    by (auto simp: carries_def byte_pipe_def neq_Nil_conv intro!: exI [of _ "1 :: nat"])
  from transport_roundtrip [OF this, of "[]" "''hello''"] show ?thesis by auto
qed

section \<open>Closing\<close>

text \<open>The system calls with a count of the sockets that are open.\<close>

definition counted :: "'w sockets \<Rightarrow> ('w \<times> int) sockets" where
  "counted io = \<lparr>s_create = (\<lambda>(w, n). case s_create io w of (b, w') \<Rightarrow> (b, (w', if b then n + 1 else n))),
     s_reuse_address = (\<lambda>(w, n). (s_reuse_address io w, n)),
     s_bind = (\<lambda>p (w, n). case s_bind io p w of (r, w') \<Rightarrow> (r, (w', n))),
     s_listen = (\<lambda>k (w, n). case s_listen io k w of (r, w') \<Rightarrow> (r, (w', n))),
     s_set_timeout = (\<lambda>t (w, n). (s_set_timeout io t w, n)), s_pton = s_pton io,
     s_set_blocking = (\<lambda>b (w, n). (s_set_blocking io b w, n)),
     s_connect = (\<lambda>h p (w, n). case s_connect io h p w of (r, w') \<Rightarrow> (r, (w', n))),
     s_in_progress = (\<lambda>(w, n). s_in_progress io w),
     s_select = (\<lambda>t (w, n). case s_select io t w of (r, w') \<Rightarrow> (r, (w', n))),
     s_so_error = (\<lambda>(w, n). case s_so_error io w of (r, w') \<Rightarrow> (r, (w', n))),
     s_recv = (\<lambda>k (w, n). case s_recv io k w of (r, w') \<Rightarrow> (r, (w', n))),
     s_send = (\<lambda>d k (w, n). case s_send io d k w of (r, w') \<Rightarrow> (r, (w', n))),
     s_close = (\<lambda>(w, n). (s_close io w, n - 1))\<rparr>"

abbreviation open_is :: "int \<Rightarrow> 'w \<times> int \<Rightarrow> bool" where
  "open_is n w \<equiv> snd w = n"

lemma RecvExact_count: "snd w = n \<Longrightarrow> snd (snd (RecvExact (counted io) len out w)) = n"
proof (induction "counted io" len out w rule: RecvExact.induct)
  case (1 len out w)
  obtain u where w: "w = (u, n)" using "1.prems" by (cases w) simp
  obtain r u' where "s_recv io (as_int (len - length out)) u = (r, u')" by fastforce
  then have r: "s_recv (counted io) (as_int (len - length out)) w = (r, u', n)" by (simp add: counted_def w)
  show ?case
  proof (cases "length out < len \<and> (\<exists>b. r = Some b \<and> b \<noteq> [] \<and> \<not> len < length out + length b)")
    case True
    then obtain b where b: "r = Some b" "b \<noteq> []" "\<not> len < length out + length b" "length out < len" by blast
    then have "RecvExact (counted io) len out w = RecvExact (counted io) len (out @ b) (u', n)"
      using r by (subst RecvExact.simps) simp
    with "1.hyps" [OF b(4) _ b(1), of "(u', n)"] r b show ?thesis by simp
  next
    case False
    then show ?thesis using r w by (subst RecvExact.simps) (auto split: option.split)
  qed
qed

lemma SendExact_count: "snd w = n \<Longrightarrow> snd (snd (SendExact (counted io) d k w)) = n"
proof (induction "counted io" d k w rule: SendExact.induct)
  case (1 d k w)
  obtain u where w: "w = (u, n)" using "1.prems" by (cases w) simp
  obtain m u' where "s_send io (drop k d) (as_int (length d - k)) u = (m, u')" by fastforce
  then have r: "s_send (counted io) (drop k d) (as_int (length d - k)) w = (m, u', n)" by (simp add: counted_def w)
  show ?case
  proof (cases "k < length d \<and> 0 < m")
    case True
    then have "SendExact (counted io) d k w = SendExact (counted io) d (k + nat m) (u', n)"
      using r by (subst SendExact.simps) simp
    with "1.hyps" [of m "(u', n)"] r True show ?thesis by simp
  next
    case False
    then show ?thesis using r w by (subst SendExact.simps) auto
  qed
qed

lemma framed_count:
  "keeps (open_is n) (ReadFramedMessage (counted io))" "keeps (open_is n) (WriteFramedMessage (counted io) body)"
proof -
  have recv: "keeps (open_is n) (RecvExact (counted io) len out)" for len out
    by (rule keepsI) (rule RecvExact_count)
  have send: "keeps (open_is n) (SendExact (counted io) d k)" for d k
    by (rule keepsI) (rule SendExact_count)
  show "keeps (open_is n) (ReadFramedMessage (counted io))"
    unfolding ReadFramedMessage_def Let_def by (intro keeps_bind recv) (auto intro: recv keeps_intros)
  show "keeps (open_is n) (WriteFramedMessage (counted io) body)"
    unfolding WriteFramedMessage_def Let_def by (intro keeps_bind send) (auto intro: send keeps_intros)
qed

lemma connect_count: "snd (snd (ConnectWithTimeout (counted io) h p t (w, n))) = n"
  by (simp add: ConnectWithTimeout_def counted_def Let_def split: prod.split)

text \<open>C38. Whatever fails, creating, converting the address, connecting, writing or reading, a request leaves as many sockets
  open as it found; a connection that was accepted is closed once it was served, whatever the handler throws; and
  a transport that could not bind or listen leaves none open.\<close>

theorem transport_closes_sockets:
  "snd (snd (RaftTransport_new (counted io) p (w, n))) = (if isl (fst (RaftTransport_new (counted io) p (w, n))) then n else n + 1) \<and>
   snd (snd (SendRequest (counted io) h p body t (w, n))) = n \<and>
   snd (serve_connection (counted io) (\<lambda>req (u, k). case handler req u of (r, u') \<Rightarrow> (r, (u', k))) (w, n)) = n - 1"
proof (intro conjI)
  show "snd (snd (RaftTransport_new (counted io) p (w, n))) = (if isl (fst (RaftTransport_new (counted io) p (w, n))) then n else n + 1)"
    by (simp add: RaftTransport_new_def counted_def Let_def split: prod.split)
  obtain created w1 where "s_create io w = (created, w1)" by fastforce
  then have create: "s_create (counted io) (w, n) = (created, w1, if created then n + 1 else n)" by (simp add: counted_def)
  have timeout: "s_set_timeout (counted io) t (w1, n + 1) = (s_set_timeout io t w1, n + 1)"
    and close: "snd (s_close (counted io) u) = snd u - 1" for u
    by (cases u; simp add: counted_def)+
  obtain connected w2 where conn: "ConnectWithTimeout (counted io) h p t (s_set_timeout io t w1, n + 1) = (connected, w2)"
    by (cases "ConnectWithTimeout (counted io) h p t (s_set_timeout io t w1, n + 1)")
  with connect_count [of io h p t _ "n + 1"] have n2: "snd w2 = n + 1" by (metis snd_conv)
  have exch: "keeps (open_is (n + 1)) (ebind (WriteFramedMessage (counted io) body) (\<lambda>_. ReadFramedMessage (counted io)))"
    by (intro keeps_bind framed_count)
  show "snd (snd (SendRequest (counted io) h p body t (w, n))) = n"
    using keepsD [OF exch n2] by (auto simp: SendRequest_def Let_def create timeout close conn n2 split: prod.split)
  have "keeps (open_is n) (ebind (ReadFramedMessage (counted io)) (\<lambda>req. ebind (\<lambda>(u, k). case handler req u of (r, u') \<Rightarrow> (r, (u', k)))
      (WriteFramedMessage (counted io))))"
    by (intro keeps_bind framed_count) (auto simp: keeps_def split: prod.split)
  from keepsD [OF this, of "(w, n)"]
  show "snd (serve_connection (counted io) (\<lambda>req (u, k). case handler req u of (r, u') \<Rightarrow> (r, (u', k))) (w, n)) = n - 1"
    by (simp add: serve_connection_def close)
qed

end
