(* ===== verification/Client.thy ===== *)
theory Client
  imports Message Transport
begin

text \<open>
  \<^verbatim>\<open>src/raft/client.cpp\<close>: requests to a cluster this process is not a member of, with the circuit
  breaker that skips addresses found unreachable.  The network and the clock are parameters: \<open>net_send\<close> is what a
  call of \<^verbatim>\<open>RaftTransport::SendRequest\<close> gives (the response, or the text of the exception) and
  \<open>net_now\<close> a reading of \<^verbatim>\<open>steady_clock\<close> in milliseconds; both may change the world they run in.
  Shown: the number of requests is bounded and they go to known peers only; with at most one peer down the leader is
  found; a read asks every peer until one answers; the breaker opens after five failures in a row.
\<close>

section \<open>The circuit breaker\<close>

definition kMaxHops :: nat where "kMaxHops = 4"
definition kFailureThreshold :: nat where "kFailureThreshold = 5"
definition kCooldown :: int where "kCooldown = 30000"

record Health =
  consecutive_failures :: nat
  open_until :: int

definition Health_new :: Health where
  "Health_new = \<lparr>consecutive_failures = 0, open_until = 0\<rparr>"

type_synonym CircuitBreaker = "(string \<times> 16 word, Health) omap"

record 'w network =
  net_send :: "string \<Rightarrow> 16 word \<Rightarrow> string \<Rightarrow> nat \<Rightarrow> 'w \<Rightarrow> (string + string) \<times> 'w"
  net_now :: "'w \<Rightarrow> int \<times> 'w"

record 'w client =
  health_map :: CircuitBreaker
  world :: 'w

text \<open>The network that TCP gives, over the system calls of \<open>Transport\<close>.\<close>

definition tcp_network :: "'w sockets \<Rightarrow> ('w \<Rightarrow> int \<times> 'w) \<Rightarrow> 'w network" where
  "tcp_network io clock = \<lparr>net_send = (\<lambda>h p body t w. case SendRequest io h p body t w of
       (Inl e, w') \<Rightarrow> (Inl (what e), w') | (Inr response, w') \<Rightarrow> (Inr response, w')), net_now = clock\<rparr>"

definition read_clock :: "'w network \<Rightarrow> ('w client, int) eff" where
  "read_clock net c = (let (t, w) = net_now net (world c) in (Inr t, c\<lparr>world := w\<rparr>))"

definition IsOpen :: "'w network \<Rightarrow> string \<Rightarrow> 16 word \<Rightarrow> ('w client, bool) eff" where
  "IsOpen net h p c = (case omap_find (h, p) (health_map c) of
       None \<Rightarrow> (Inr False, c)
     | Some health \<Rightarrow> ebind (read_clock net) (\<lambda>t. eret (t < open_until health)) c)"

definition RecordSuccess :: "string \<Rightarrow> 16 word \<Rightarrow> ('w client, unit) eff" where
  "RecordSuccess h p = emodify (\<lambda>c. c\<lparr>health_map := omap_erase (h, p) (health_map c)\<rparr>)"

definition RecordFailure :: "'w network \<Rightarrow> string \<Rightarrow> 16 word \<Rightarrow> ('w client, unit) eff" where
  "RecordFailure net h p c =
     (let health = omap_get_default Health_new (h, p) (health_map c);
          n = consecutive_failures health + 1;
          health = health\<lparr>consecutive_failures := n\<rparr>
      in ebind (if kFailureThreshold \<le> n then ebind (read_clock net) (\<lambda>t. eret (health\<lparr>open_until := t + kCooldown\<rparr>))
                else eret health)
           (\<lambda>health. emodify (\<lambda>c. c\<lparr>health_map := omap_set (h, p) health (health_map c)\<rparr>)) c)"

section \<open>Requests\<close>

definition call_peer :: "'w network \<Rightarrow> PeerAddress \<Rightarrow> string \<Rightarrow> nat \<Rightarrow> ('w client, string + string) eff" where
  "call_peer net addr body timeout_ms c =
     (let (r, w) = net_send net (host addr) (port addr) body timeout_ms (world c) in (Inr r, c\<lparr>world := w\<rparr>))"

text \<open>The first element of a list that a test with effects accepts.\<close>

fun efind :: "('a \<Rightarrow> ('s, bool) eff) \<Rightarrow> 'a list \<Rightarrow> ('s, 'a option) eff" where
  "efind test [] = eret None"
| "efind test (x # xs) = ebind (test x) (\<lambda>b. if b then eret (Some x) else efind test xs)"

definition is_closed :: "'w network \<Rightarrow> PeerAddress \<Rightarrow> ('w client, bool) eff" where
  "is_closed net addr = ebind (IsOpen net (host addr) (port addr)) (\<lambda>b. eret (\<not> b))"

definition client_failed :: "NodeId \<Rightarrow> string \<Rightarrow> ClientResponse" where
  "client_failed target msg = \<lparr>crr_success = False, crr_index = 0, crr_not_leader = True, crr_leader_hint = target,
     crr_error = msg\<rparr>"

text \<open>The loop over hops; \<open>n\<close> hops are left.\<close>

fun client_hops :: "'w network \<Rightarrow> peer_map \<Rightarrow> string \<Rightarrow> nat \<Rightarrow> nat \<Rightarrow> NodeId \<Rightarrow> ('w client, ClientResponse) eff" where
  "client_hops net cluster_peers encoded timeout_ms 0 target =
     eret (client_failed target ''too many redirects while locating the leader'')"
| "client_hops net cluster_peers encoded timeout_ms (Suc n) target = (case omap_find target cluster_peers of
       None \<Rightarrow> eret (client_failed target (''unknown node id '' @ to_string (unat target)))
     | Some addr \<Rightarrow>
         ebind (call_peer net addr encoded timeout_ms) (\<lambda>r. case r of
           Inl _ \<Rightarrow>
             ebind (RecordFailure net (host addr) (port addr)) (\<lambda>_.
             ebind (efind (\<lambda>(i, a). if i \<noteq> target then is_closed net a else eret False) cluster_peers) (\<lambda>retry.
               case retry of
                 None \<Rightarrow> eret (client_failed target (''could not reach node '' @ to_string (unat target)))
               | Some (i, _) \<Rightarrow> client_hops net cluster_peers encoded timeout_ms n i))
         | Inr response \<Rightarrow>
             ebind (RecordSuccess (host addr) (port addr)) (\<lambda>_.
             ebind (elift (DecodeClientResponse response)) (\<lambda>resp.
               if crr_success resp \<or> \<not> crr_not_leader resp then eret resp
               else if crr_leader_hint resp = 0 \<or> crr_leader_hint resp = target then eret resp
               else client_hops net cluster_peers encoded timeout_ms n (crr_leader_hint resp)))))"

definition SendClientRequest :: "'w network \<Rightarrow> peer_map \<Rightarrow> string \<Rightarrow> nat \<Rightarrow> ('w client, ClientResponse) eff" where
  "SendClientRequest net cluster_peers command timeout_ms =
     (case cluster_peers of [] \<Rightarrow> eret (client_failed 0 ''no peers known for this cluster'')
      | (first, _) # _ \<Rightarrow>
          ebind (efind (\<lambda>(i, a). is_closed net a) cluster_peers) (\<lambda>found.
            client_hops net cluster_peers (EncodeClientRequest \<lparr>crq_command = command\<rparr>) timeout_ms kMaxHops
              (case found of None \<Rightarrow> first | Some (i, _) \<Rightarrow> i)))"

section \<open>Reads\<close>

text \<open>One pass over the peers: \<open>Inl\<close> the last error when no peer answered.\<close>

fun read_pass :: "'w network \<Rightarrow> string \<Rightarrow> nat \<Rightarrow> bool \<Rightarrow> peer_map \<Rightarrow> string \<Rightarrow> ('w client, string + string) eff" where
  "read_pass net encoded timeout_ms pass_wants_tripped [] last_error = eret (Inl last_error)"
| "read_pass net encoded timeout_ms pass_wants_tripped ((i, addr) # peers) last_error =
     ebind (IsOpen net (host addr) (port addr)) (\<lambda>tripped.
       if tripped \<noteq> pass_wants_tripped then read_pass net encoded timeout_ms pass_wants_tripped peers last_error
       else ebind (call_peer net addr encoded timeout_ms) (\<lambda>r. case r of
           Inl err \<Rightarrow> ebind (RecordFailure net (host addr) (port addr)) (\<lambda>_.
             read_pass net encoded timeout_ms pass_wants_tripped peers err)
         | Inr response \<Rightarrow> ebind (RecordSuccess (host addr) (port addr)) (\<lambda>_.
             ebind (elift (DecodeReadResponse response)) (\<lambda>resp.
               if rdr_error resp then ethrow (RuntimeError (rdr_result resp)) else eret (Inr (rdr_result resp))))))"

definition SendReadRequest :: "'w network \<Rightarrow> peer_map \<Rightarrow> string \<Rightarrow> nat \<Rightarrow> ('w client, string) eff" where
  "SendReadRequest net cluster_peers query timeout_ms =
     (let encoded = EncodeReadRequest \<lparr>rdq_query = query\<rparr>
      in ebind (read_pass net encoded timeout_ms False cluster_peers ''no peers known for this cluster'') (\<lambda>r. case r of
           Inr result \<Rightarrow> eret result
         | Inl last_error \<Rightarrow> ebind (read_pass net encoded timeout_ms True cluster_peers last_error) (\<lambda>r. case r of
             Inr result \<Rightarrow> eret result
           | Inl last_error \<Rightarrow> ethrow (RuntimeError (''could not reach any node in this cluster: '' @ last_error)))))"

definition DiscoverCluster :: "'w network \<Rightarrow> PeerAddress \<Rightarrow> nat \<Rightarrow> ('w client, peer_map) eff" where
  "DiscoverCluster net addr timeout_ms =
     ebind (call_peer net addr (EncodeDescribeClusterRequest ()) timeout_ms) (\<lambda>r. case r of
         Inl err \<Rightarrow> ethrow (RuntimeError err)
       | Inr response \<Rightarrow> ebind (elift (DecodeDescribeClusterResponse response)) (\<lambda>resp.
           eret (omap_set (dcr_id resp) (dcr_own_address resp) (dcr_peers resp))))"

section \<open>What is sent\<close>

text \<open>A network that also writes down every request and its outcome.\<close>

type_synonym request_log = "(string \<times> 16 word \<times> string \<times> (string + string)) list"

definition logged :: "'w network \<Rightarrow> ('w \<times> request_log) network" where
  "logged net = \<lparr>net_send = (\<lambda>h p body t (w, l). let (r, w') = net_send net h p body t w in (r, w', l @ [(h, p, body, r)])),
     net_now = (\<lambda>(w, l). let (t, w') = net_now net w in (t, w', l))\<rparr>"

abbreviation log_of :: "('w \<times> request_log) client \<Rightarrow> request_log" where
  "log_of c \<equiv> snd (world c)"

text \<open>A computation that returns and sends nothing.\<close>

definition quiet :: "(('w \<times> request_log) client, 'a) eff \<Rightarrow> bool" where
  "quiet m \<longleftrightarrow> (\<forall>c. \<exists>x c'. m c = (Inr x, c') \<and> log_of c' = log_of c)"

lemma quietE: "quiet m \<Longrightarrow> (\<And>x c'. m c = (Inr x, c') \<Longrightarrow> log_of c' = log_of c \<Longrightarrow> thesis) \<Longrightarrow> thesis"
  unfolding quiet_def by blast

lemma quiet_ret: "quiet (eret x)"
  by (simp add: quiet_def)

lemma quiet_bind: "quiet m \<Longrightarrow> (\<And>x. quiet (f x)) \<Longrightarrow> quiet (ebind m f)"
proof (unfold quiet_def, intro allI)
  fix c assume "\<forall>c. \<exists>x c'. m c = (Inr x, c') \<and> log_of c' = log_of c"
    and f: "\<And>x. \<forall>c. \<exists>y c'. f x c = (Inr y, c') \<and> log_of c' = log_of c"
  then obtain x c1 where m: "m c = (Inr x, c1)" "log_of c1 = log_of c" by blast
  obtain y c2 where "f x c1 = (Inr y, c2)" "log_of c2 = log_of c1" using f [of x] by blast
  with m show "\<exists>x c'. ebind m f c = (Inr x, c') \<and> log_of c' = log_of c" by simp
qed

lemma quiet_clock: "quiet (read_clock (logged net))"
  unfolding quiet_def
proof
  fix c :: "('a \<times> request_log) client"
  obtain w l where "world c = (w, l)" by (cases "world c")
  moreover obtain t w' where "net_now net w = (t, w')" by (cases "net_now net w")
  ultimately show "\<exists>x c'. read_clock (logged net) c = (Inr x, c') \<and> log_of c' = log_of c"
    by (simp add: read_clock_def logged_def)
qed

lemma quiet_modify: "(\<And>c. world (f c) = world c) \<Longrightarrow> quiet (emodify f)"
  by (simp add: quiet_def emodify_def)

lemma quiet_IsOpen: "quiet (IsOpen (logged net) h p)"
  unfolding quiet_def
proof
  fix c :: "('a \<times> request_log) client"
  show "\<exists>x c'. IsOpen (logged net) h p c = (Inr x, c') \<and> log_of c' = log_of c"
  proof (cases "omap_find (h, p) (health_map c)")
    case (Some health)
    have "quiet (ebind (read_clock (logged net)) (\<lambda>t. eret (t < open_until health)))"
      by (intro quiet_bind quiet_clock quiet_ret)
    with Some show ?thesis by (simp add: IsOpen_def quiet_def)
  qed (auto simp: IsOpen_def)
qed

lemma quiet_RecordFailure: "quiet (RecordFailure (logged net) h p)"
  unfolding quiet_def
proof
  fix c :: "('a \<times> request_log) client"
  define health where "health = omap_get_default Health_new (h, p) (health_map c)"
  have "quiet (ebind (if kFailureThreshold \<le> consecutive_failures health + 1
      then ebind (read_clock (logged net)) (\<lambda>t. eret (health\<lparr>consecutive_failures := consecutive_failures health + 1, open_until := t + kCooldown\<rparr>))
      else eret (health\<lparr>consecutive_failures := consecutive_failures health + 1\<rparr>))
    (\<lambda>x. emodify (\<lambda>c. c\<lparr>health_map := omap_set (h, p) x (health_map c)\<rparr>)))"
    by (auto intro!: quiet_bind quiet_clock quiet_ret quiet_modify)
  from this [unfolded quiet_def, rule_format, of c]
  show "\<exists>x c'. RecordFailure (logged net) h p c = (Inr x, c') \<and> log_of c' = log_of c"
    by (simp only: RecordFailure_def health_def Let_def)
qed

lemma quiet_RecordSuccess: "quiet (RecordSuccess h p)"
  unfolding RecordSuccess_def by (rule quiet_modify) simp

lemma quiet_closed: "quiet (is_closed (logged net) a)"
  unfolding is_closed_def by (intro quiet_bind quiet_IsOpen quiet_ret)

lemma quiet_find: "(\<And>x. quiet (test x)) \<Longrightarrow> quiet (efind test xs)"
  by (induction xs) (auto intro: quiet_ret intro!: quiet_bind)

text \<open>A request of a client: what it is, and to whom.\<close>

definition sent_ok :: "peer_map \<Rightarrow> string \<Rightarrow> request_log \<Rightarrow> bool" where
  "sent_ok peers body l \<longleftrightarrow> (\<forall>(h, p, b, r) \<in> set l. b = body \<and> (\<exists>(i, a) \<in> set peers. h = host a \<and> p = port a))"

definition answered :: "request_log \<Rightarrow> ClientResponse \<Rightarrow> bool" where
  "answered l resp \<longleftrightarrow> (\<exists>pre h p b response. l = pre @ [(h, p, b, Inr response)] \<and> DecodeClientResponse response = Inr resp)"

lemma answered_Cons: "answered l resp \<Longrightarrow> answered (x # l) resp"
  unfolding answered_def by (metis append_Cons)

lemma call_peer_logged:
  obtains r c' where "call_peer (logged net) a body t c = (Inr r, c')" "log_of c' = log_of c @ [(host a, port a, body, r)]"
proof -
  obtain w l where "world c = (w, l)" by (cases "world c")
  moreover obtain r w' where "net_send net (host a) (port a) body t w = (r, w')"
    by (cases "net_send net (host a) (port a) body t w")
  ultimately show thesis using that by (simp add: call_peer_def logged_def)
qed

lemma client_hops_log:
  assumes "client_hops (logged net) peers body t n target c = (r, c')"
  shows "\<exists>l. log_of c' = log_of c @ l \<and> length l \<le> n \<and> sent_ok peers body l \<and>
    (\<forall>resp. r = Inr resp \<longrightarrow> crr_success resp \<longrightarrow> answered l resp) \<and>
    (\<forall>e. r = Inl e \<longrightarrow> (\<exists>response. DecodeClientResponse response = Inl e))"
  using assms
proof (induction n arbitrary: target c)
  case 0
  then show ?case by (auto simp: client_failed_def sent_ok_def)
next
  case (Suc n)
  show ?case
  proof (cases "omap_find target peers")
    case None
    then show ?thesis using Suc.prems by (auto simp: client_failed_def sent_ok_def)
  next
    case (Some a)
    then have mem: "(target, a) \<in> set peers" by (simp add: omap_find_def map_of_SomeD)
    obtain out c1 where send: "call_peer (logged net) a body t c = (Inr out, c1)"
      "log_of c1 = log_of c @ [(host a, port a, body, out)]" by (rule call_peer_logged)
    have one: "sent_ok peers body [(host a, port a, body, out)]" using mem by (auto simp: sent_ok_def)
    show ?thesis
    proof (cases out)
      case (Inl err)
      obtain u c2 where c2: "RecordFailure (logged net) (host a) (port a) c1 = (Inr u, c2)" "log_of c2 = log_of c1"
        by (rule quietE [OF quiet_RecordFailure])
      have "quiet (efind (\<lambda>(i, a). if i \<noteq> target then is_closed (logged net) a else eret False) peers)"
        by (rule quiet_find) (auto split: prod.split intro: quiet_closed quiet_ret)
      then obtain retry c3 where c3: "efind (\<lambda>(i, a). if i \<noteq> target then is_closed (logged net) a else eret False) peers c2 = (Inr retry, c3)"
        "log_of c3 = log_of c2" by (rule quietE)
      show ?thesis
      proof (cases retry)
        case None
        then show ?thesis using Suc.prems Some send c2 c3 Inl one by (auto simp: client_failed_def)
      next
        case (Some x)
        then have "client_hops (logged net) peers body t n (fst x) c3 = (r, c')"
          using Suc.prems \<open>omap_find target peers = Some a\<close> send c2 c3 Inl by (simp split: prod.splits)
        from Suc.IH [OF this] obtain l where l: "log_of c' = log_of c3 @ l" "length l \<le> n" "sent_ok peers body l"
          "\<forall>resp. r = Inr resp \<longrightarrow> crr_success resp \<longrightarrow> answered l resp"
          "\<forall>e. r = Inl e \<longrightarrow> (\<exists>response. DecodeClientResponse response = Inl e)" by blast
        with send(2) c2(2) c3(2) one show ?thesis
          by (intro exI [of _ "(host a, port a, body, out) # l"]) (auto simp: sent_ok_def answered_Cons)
      qed
    next
      case (Inr response)
      obtain u c2 where c2: "RecordSuccess (host a) (port a) c1 = (Inr u, c2)" "log_of c2 = log_of c1"
        by (rule quietE [OF quiet_RecordSuccess])
      show ?thesis
      proof (cases "DecodeClientResponse response")
        case (Inl e)
        then show ?thesis using Suc.prems Some send c2 Inr one by (auto simp: ebind_def)
      next
        case dec: (Inr resp)
        show ?thesis
        proof (cases "crr_success resp \<or> \<not> crr_not_leader resp \<or> crr_leader_hint resp = 0 \<or> crr_leader_hint resp = target")
          case True
          then have "r = Inr resp" "c' = c2" using Suc.prems Some send c2 Inr dec by (auto split: if_splits)
          moreover have "answered [(host a, port a, body, out)] resp" using Inr dec by (auto simp: answered_def)
          ultimately show ?thesis using send(2) c2(2) one by (intro exI [of _ "[(host a, port a, body, out)]"]) auto
        next
          case False
          then have "client_hops (logged net) peers body t n (crr_leader_hint resp) c2 = (r, c')"
            using Suc.prems Some send c2 Inr dec by (simp split: if_splits)
          from Suc.IH [OF this] obtain l where l: "log_of c' = log_of c2 @ l" "length l \<le> n" "sent_ok peers body l"
            "\<forall>resp. r = Inr resp \<longrightarrow> crr_success resp \<longrightarrow> answered l resp"
            "\<forall>e. r = Inl e \<longrightarrow> (\<exists>response. DecodeClientResponse response = Inl e)" by blast
          with send(2) c2(2) one show ?thesis
            by (intro exI [of _ "(host a, port a, body, out) # l"]) (auto simp: sent_ok_def answered_Cons)
        qed
      qed
    qed
  qed
qed

text \<open>C39. A client request sends at most four messages, all of them the encoded command and all to addresses of the
  cluster, and always returns; a success that it reports is the answer some node gave to the last message; and it
  throws only when an answer does not decode.\<close>

theorem client_send_bounded:
  assumes "world c = (w, [])"
  shows "\<exists>r c'. SendClientRequest (logged net) peers command t c = (r, c') \<and> length (log_of c') \<le> 4 \<and>
    sent_ok peers (EncodeClientRequest \<lparr>crq_command = command\<rparr>) (log_of c') \<and>
    (\<forall>resp. r = Inr resp \<longrightarrow> crr_success resp \<longrightarrow> answered (log_of c') resp) \<and>
    (\<forall>e. r = Inl e \<longrightarrow> (\<exists>response. DecodeClientResponse response = Inl e))"
proof (cases peers)
  case Nil
  then show ?thesis using assms by (simp add: SendClientRequest_def client_failed_def sent_ok_def)
next
  case (Cons x rest)
  have "quiet (efind (\<lambda>(i, a). is_closed (logged net) a) peers)"
    by (rule quiet_find) (auto split: prod.split intro: quiet_closed)
  then obtain found c1 where c1: "efind (\<lambda>(i, a). is_closed (logged net) a) peers c = (Inr found, c1)" "log_of c1 = log_of c"
    by (rule quietE)
  let ?body = "EncodeClientRequest \<lparr>crq_command = command\<rparr>"
  obtain first a where x: "x = (first, a)" by (cases x)
  let ?target = "case found of None \<Rightarrow> first | Some (i, _) \<Rightarrow> i"
  obtain r c' where run: "client_hops (logged net) peers ?body t kMaxHops ?target c1 = (r, c')"
    by (cases "client_hops (logged net) peers ?body t kMaxHops ?target c1")
  have "SendClientRequest (logged net) peers command t c = (r, c')"
    using run c1(1) unfolding Cons x by (simp add: SendClientRequest_def del: efind.simps)
  moreover have "log_of c1 = []" using c1(2) assms by simp
  ultimately show ?thesis using client_hops_log [OF run] by (simp add: kMaxHops_def)
qed

section \<open>Finding the leader\<close>

text \<open>The breaker of an address lets requests through, whatever the time: it has no failures on record or has not tripped,
  or its pause is over.  \<open>one_closed\<close>: that of some peer but \<open>dead\<close> does.\<close>

definition breaker_closed :: "'w network \<Rightarrow> PeerAddress \<Rightarrow> 'w client \<Rightarrow> bool" where
  "breaker_closed net a c \<longleftrightarrow> (case omap_find (host a, port a) (health_map c) of
     None \<Rightarrow> True | Some h \<Rightarrow> (\<forall>w. open_until h \<le> fst (net_now net w)))"

definition one_closed :: "'w network \<Rightarrow> peer_map \<Rightarrow> NodeId \<Rightarrow> 'w client \<Rightarrow> bool" where
  "one_closed net peers dead c \<longleftrightarrow> omap_ok (health_map c) \<and> (\<exists>(i, a) \<in> set peers. i \<noteq> dead \<and> breaker_closed net a c)"

definition replies :: "'w network \<Rightarrow> string \<Rightarrow> nat \<Rightarrow> PeerAddress \<Rightarrow> (ClientResponse \<Rightarrow> bool) \<Rightarrow> bool" where
  "replies net body t a P \<longleftrightarrow> (\<forall>w. \<exists>response resp. fst (net_send net (host a) (port a) body t w) = Inr response \<and>
     DecodeClientResponse response = Inr resp \<and> P resp)"

text \<open>The leader accepts, every other peer but \<open>dead\<close> names it, and \<open>dead\<close> does not answer.\<close>

definition steady :: "'w network \<Rightarrow> peer_map \<Rightarrow> string \<Rightarrow> nat \<Rightarrow> NodeId \<Rightarrow> NodeId \<Rightarrow> bool" where
  "steady net peers body t leader dead \<longleftrightarrow> omap_ok peers \<and> leader \<noteq> dead \<and> leader \<noteq> 0 \<and> leader \<in> fst ` set peers \<and>
     (\<forall>(i, a) \<in> set peers.
        if i = leader then replies net body t a crr_success
        else if i = dead then (\<forall>w. isl (fst (net_send net (host a) (port a) body t w))) \<and>
          (\<forall>(j, b) \<in> set peers. j \<noteq> dead \<longrightarrow> (host b, port b) \<noteq> (host a, port a))
        else replies net body t a (\<lambda>resp. \<not> crr_success resp \<and> crr_not_leader resp \<and> crr_leader_hint resp = leader))"

lemma closed_world [simp]: "breaker_closed net a (c\<lparr>world := w\<rparr>) = breaker_closed net a c"
  by (simp add: breaker_closed_def)

lemma is_closed_run: "\<exists>b w. is_closed net a c = (Inr b, c\<lparr>world := w\<rparr>) \<and> (breaker_closed net a c \<longrightarrow> b)"
proof (cases "omap_find (host a, port a) (health_map c)")
  case None
  then show ?thesis by (intro exI [of _ True] exI [of _ "world c"]) (simp add: is_closed_def IsOpen_def ebind_def)
next
  case (Some h)
  obtain t w where "net_now net (world c) = (t, w)" by (cases "net_now net (world c)")
  moreover from this have "breaker_closed net a c \<longrightarrow> open_until h \<le> t"
    using Some by (auto simp: breaker_closed_def dest: spec [of _ "world c"])
  ultimately show ?thesis using Some by (auto simp: is_closed_def IsOpen_def read_clock_def ebind_def)
qed

text \<open>A search over peers among which one has its breaker closed finds a peer.\<close>

lemma efind_closed:
  assumes "\<exists>(i, a) \<in> set xs. Q i \<and> breaker_closed net a c"
  shows "\<exists>i a w. efind (\<lambda>(i, a). if Q i then is_closed net a else eret False) xs c = (Inr (Some (i, a)), c\<lparr>world := w\<rparr>) \<and>
    (i, a) \<in> set xs \<and> Q i"
  using assms
proof (induction xs arbitrary: c)
  case (Cons x xs)
  obtain i a where x: "x = (i, a)" by (cases x)
  show ?case
  proof (cases "Q i")
    case False
    then have "\<exists>(i, a) \<in> set xs. Q i \<and> breaker_closed net a c" using Cons.prems x by auto
    from Cons.IH [OF this] False show ?thesis by (auto simp: x)
  next
    case True
    obtain b w where b: "is_closed net a c = (Inr b, c\<lparr>world := w\<rparr>)" "breaker_closed net a c \<longrightarrow> b"
      using is_closed_run [of net a c] by blast
    show ?thesis
    proof (cases b)
      case True
      then show ?thesis using b \<open>Q i\<close> by (auto simp: x)
    next
      case False
      then have "\<exists>(i, a) \<in> set xs. Q i \<and> breaker_closed net a (c\<lparr>world := w\<rparr>)" using Cons.prems x b(2) by auto
      from Cons.IH [OF this] b(1) False \<open>Q i\<close> show ?thesis by (auto simp: x)
    qed
  qed
qed simp

lemma replies_hop:
  assumes "replies net body t a P"
  obtains response resp w where "call_peer net a body t c = (Inr (Inr response), c\<lparr>world := w\<rparr>)"
    "DecodeClientResponse response = Inr resp" "P resp"
proof -
  obtain response resp where "fst (net_send net (host a) (port a) body t (world c)) = Inr response"
    "DecodeClientResponse response = Inr resp" "P resp" using assms unfolding replies_def by blast
  moreover obtain x w where "net_send net (host a) (port a) body t (world c) = (x, w)" by fastforce
  ultimately show thesis using that by (simp add: call_peer_def)
qed

lemma RecordSuccess_run: "RecordSuccess h p c = (Inr (), c\<lparr>health_map := omap_erase (h, p) (health_map c)\<rparr>)"
  by (simp add: RecordSuccess_def emodify_def)

lemma RecordFailure_run: "\<exists>h c'. RecordFailure net hst p c = (Inr (), c') \<and> health_map c' = omap_set (hst, p) h (health_map c)"
proof (cases "kFailureThreshold \<le> consecutive_failures (omap_get_default Health_new (hst, p) (health_map c)) + 1")
  case True
  obtain t w where "net_now net (world c) = (t, w)" by (cases "net_now net (world c)")
  with True show ?thesis by (auto simp: RecordFailure_def Let_def read_clock_def ebind_def emodify_def)
next
  case False
  then show ?thesis by (auto simp: RecordFailure_def Let_def emodify_def)
qed

lemma closed_failure:
  assumes "one_closed net peers d c" and "\<forall>(j, b) \<in> set peers. j \<noteq> d \<longrightarrow> (host b, port b) \<noteq> (h, p)"
    and "health_map c' = omap_set (h, p) x (health_map c)"
  shows "one_closed net peers d c'"
proof -
  obtain i a where a: "(i, a) \<in> set peers" "i \<noteq> d" "breaker_closed net a c" and ok: "omap_ok (health_map c)"
    using assms(1) unfolding one_closed_def by blast
  have "(host a, port a) \<noteq> (h, p)" using assms(2) a(1,2) by blast
  then have "breaker_closed net a c'"
    using a(3) ok assms(3) by (auto simp: breaker_closed_def omap_find_def om.look_upd)
  with a(1,2) ok assms(3) show ?thesis by (auto simp: one_closed_def om.invar_upd)
qed

text \<open>From the leader one hop is enough, from a follower two, from the dead peer three.\<close>

lemma hop_leader:
  assumes "steady net peers body t l d"
  shows "\<exists>resp c'. client_hops net peers body t (Suc n) l c = (Inr resp, c') \<and> crr_success resp"
proof -
  obtain a where a: "(l, a) \<in> set peers" using assms by (auto simp: steady_def)
  then have find: "omap_find l peers = Some a" using assms by (simp add: steady_def omap_find_def omap_mem_iff)
  have "replies net body t a crr_success" using assms a by (auto simp: steady_def)
  then obtain response resp w where "call_peer net a body t c = (Inr (Inr response), c\<lparr>world := w\<rparr>)"
    "DecodeClientResponse response = Inr resp" "crr_success resp" by (rule replies_hop)
  with find show ?thesis by (simp add: RecordSuccess_run)
qed

lemma hop_follower:
  assumes "steady net peers body t l d" and "(i, a) \<in> set peers" and "i \<noteq> d"
  shows "\<exists>resp c'. client_hops net peers body t (Suc (Suc n)) i c = (Inr resp, c') \<and> crr_success resp"
proof (cases "i = l")
  case True
  with hop_leader [OF assms(1)] show ?thesis by blast
next
  case False
  have find: "omap_find i peers = Some a" using assms by (simp add: steady_def omap_find_def omap_mem_iff)
  have "replies net body t a (\<lambda>resp. \<not> crr_success resp \<and> crr_not_leader resp \<and> crr_leader_hint resp = l)"
    using assms False by (auto simp: steady_def)
  then obtain response resp w where r: "call_peer net a body t c = (Inr (Inr response), c\<lparr>world := w\<rparr>)"
    "DecodeClientResponse response = Inr resp" "\<not> crr_success resp \<and> crr_not_leader resp \<and> crr_leader_hint resp = l"
    by (rule replies_hop)
  moreover have "l \<noteq> 0" using assms(1) by (simp add: steady_def)
  ultimately show ?thesis
    using find False hop_leader [OF assms(1)] by (simp add: RecordSuccess_run del: client_hops.simps(2)) (simp add: RecordSuccess_run)
qed

lemma hop_dead:
  assumes "steady net peers body t l d" and "one_closed net peers d c" and "(d, a) \<in> set peers"
  shows "\<exists>resp c'. client_hops net peers body t (Suc (Suc (Suc n))) d c = (Inr resp, c') \<and> crr_success resp"
proof -
  have find: "omap_find d peers = Some a" using assms by (simp add: steady_def omap_find_def omap_mem_iff)
  have "isl (fst (net_send net (host a) (port a) body t (world c)))"
    and far: "\<forall>(j, b) \<in> set peers. j \<noteq> d \<longrightarrow> (host b, port b) \<noteq> (host a, port a)"
    using assms(1,3) by (auto simp: steady_def split: if_splits)
  then obtain err w where send: "call_peer net a body t c = (Inr (Inl err), c\<lparr>world := w\<rparr>)"
    by (cases "net_send net (host a) (port a) body t (world c)") (auto simp: call_peer_def isl_def)
  obtain h c2 where fail: "RecordFailure net (host a) (port a) (c\<lparr>world := w\<rparr>) = (Inr (), c2)"
    "health_map c2 = omap_set (host a, port a) h (health_map c)"
    using RecordFailure_run [of net "host a" "port a" "c\<lparr>world := w\<rparr>"] by auto
  have "\<exists>(i, b) \<in> set peers. i \<noteq> d \<and> breaker_closed net b c2"
    using closed_failure [OF assms(2) far fail(2)] by (simp add: one_closed_def)
  from efind_closed [OF this] obtain i b w3 where found:
    "efind (\<lambda>(i, b). if i \<noteq> d then is_closed net b else eret False) peers c2 = (Inr (Some (i, b)), c2\<lparr>world := w3\<rparr>)"
    "(i, b) \<in> set peers" "i \<noteq> d" by blast
  have "client_hops net peers body t (Suc (Suc (Suc n))) d c = client_hops net peers body t (Suc (Suc n)) i (c2\<lparr>world := w3\<rparr>)"
    by (subst client_hops.simps(2)) (simp add: find send fail(1) found(1) del: client_hops.simps)
  with hop_follower [OF assms(1) found(2,3)] show ?thesis by (simp del: client_hops.simps)
qed

text \<open>C20. When at most one peer is down, the leader accepts and every other peer names it, and the circuit breaker lets
  requests through to at least one of the peers that are up, a command reaches the leader and its acceptance is
  returned, whichever peer is asked first.\<close>

theorem client_finds_leader:
  assumes "steady net peers (EncodeClientRequest \<lparr>crq_command = command\<rparr>) t leader dead" and "one_closed net peers dead c"
  shows "\<exists>resp c'. SendClientRequest net peers command t c = (Inr resp, c') \<and> crr_success resp"
proof -
  let ?body = "EncodeClientRequest \<lparr>crq_command = command\<rparr>"
  have "\<exists>(i, a) \<in> set peers. True \<and> breaker_closed net a c" using assms(2) by (auto simp: one_closed_def)
  from efind_closed [OF this] obtain i a w where found:
    "efind (\<lambda>(i, a). is_closed net a) peers c = (Inr (Some (i, a)), c\<lparr>world := w\<rparr>)" "(i, a) \<in> set peers"
    by auto
  have "SendClientRequest net peers command t c = client_hops net peers ?body t (Suc (Suc (Suc 1))) i (c\<lparr>world := w\<rparr>)"
    using found by (cases peers) (auto simp: SendClientRequest_def kMaxHops_def eval_nat_numeral simp del: efind.simps client_hops.simps)
  moreover have "one_closed net peers dead (c\<lparr>world := w\<rparr>)" using assms(2) by (simp add: one_closed_def)
  ultimately show ?thesis
    using hop_follower [OF assms(1) found(2)] hop_dead [OF assms(1), of "c\<lparr>world := w\<rparr>"] found(2)
    by (cases "i = dead") (auto simp del: client_hops.simps)
qed

section \<open>Few failures on record\<close>

text \<open>No address has more failures on record than \<open>b\<close> allows, and none has been tripped.  The clock does not run before
  its epoch.\<close>

definition few :: "(string \<times> 16 word \<Rightarrow> nat) \<Rightarrow> 'w client \<Rightarrow> bool" where
  "few b c \<longleftrightarrow> omap_ok (health_map c) \<and>
     (\<forall>k h. omap_find k (health_map c) = Some h \<longrightarrow> open_until h = 0 \<and> consecutive_failures h \<le> b k)"

definition clock_ok :: "'w network \<Rightarrow> bool" where
  "clock_ok net \<longleftrightarrow> (\<forall>w. 0 \<le> fst (net_now net w))"

lemma few_world [simp]: "few b (c\<lparr>world := w\<rparr>) = few b c"
  by (simp add: few_def)

lemma IsOpen_few:
  assumes "few b c" and "clock_ok net"
  shows "\<exists>w. IsOpen net h p c = (Inr False, c\<lparr>world := w\<rparr>)"
proof (cases "omap_find (h, p) (health_map c)")
  case None
  then show ?thesis by (auto simp: IsOpen_def intro: exI [of _ "world c"])
next
  case (Some health)
  obtain t w where "net_now net (world c) = (t, w)" by (cases "net_now net (world c)")
  moreover then have "0 \<le> t" using assms(2) unfolding clock_ok_def by (metis fst_conv)
  moreover have "open_until health = 0" using assms(1) Some by (simp add: few_def)
  ultimately show ?thesis using Some by (auto simp: IsOpen_def read_clock_def ebind_def)
qed

lemma closed_few: "few b c \<Longrightarrow> clock_ok net \<Longrightarrow> \<exists>w. is_closed net a c = (Inr True, c\<lparr>world := w\<rparr>)"
  using IsOpen_few [of b c net "host a" "port a"] by (auto simp: is_closed_def ebind_def)

lemma failure_few:
  assumes "few b c" and "b (h, p) + 1 < kFailureThreshold"
  shows "\<exists>c'. RecordFailure net h p c = (Inr (), c') \<and> few (b((h, p) := b (h, p) + 1)) c' \<and> world c' = world c"
proof -
  have ok: "omap_ok (health_map c)" using assms(1) by (simp add: few_def)
  let ?health = "omap_get_default Health_new (h, p) (health_map c)"
  have le: "consecutive_failures ?health \<le> b (h, p)" "open_until ?health = 0"
    using assms(1) by (auto simp: few_def omap_get_default_def omap_find_def Health_new_def split: option.split)
  then have "RecordFailure net h p c = (Inr (), c\<lparr>health_map :=
      omap_set (h, p) (?health\<lparr>consecutive_failures := consecutive_failures ?health + 1\<rparr>) (health_map c)\<rparr>)"
    using assms(2) by (simp add: RecordFailure_def Let_def emodify_def)
  moreover have "few (b((h, p) := b (h, p) + 1)) (c\<lparr>health_map :=
      omap_set (h, p) (?health\<lparr>consecutive_failures := consecutive_failures ?health + 1\<rparr>) (health_map c)\<rparr>)"
    using assms(1) le ok by (auto simp: few_def om.invar_upd om.look_upd omap_find_def)
  ultimately show ?thesis by simp
qed

lemma efind_few:
  assumes "few b c" and "clock_ok net"
  shows "\<exists>w. efind (\<lambda>(i, a). if Q i then is_closed net a else eret False) xs c = (Inr (find (\<lambda>(i, a). Q i) xs), c\<lparr>world := w\<rparr>)"
  using assms(1)
proof (induction xs arbitrary: c)
  case Nil
  then show ?case by (auto intro: exI [of _ "world c"])
next
  case (Cons x xs)
  obtain i a where x: "x = (i, a)" by (cases x)
  show ?case
  proof (cases "Q i")
    case True
    obtain w where "is_closed net a c = (Inr True, c\<lparr>world := w\<rparr>)" using closed_few [OF Cons.prems assms(2)] by blast
    with True show ?thesis by (auto simp: x)
  next
    case False
    with Cons show ?thesis by (auto simp: x)
  qed
qed

text \<open>A hop to a peer that does not answer goes on with the first other peer.\<close>

lemma hop_unreachable:
  assumes "few b c" and "clock_ok net" and "omap_find i peers = Some a" and "b (host a, port a) + 1 < kFailureThreshold"
    and "\<forall>w. isl (fst (net_send net (host a) (port a) body t w))" and "find (\<lambda>(j, _). j \<noteq> i) peers = Some (j, a')"
  shows "\<exists>c'. client_hops net peers body t (Suc n) i c = client_hops net peers body t n j c' \<and>
    few (b((host a, port a) := b (host a, port a) + 1)) c'"
proof -
  obtain err w where send: "call_peer net a body t c = (Inr (Inl err), c\<lparr>world := w\<rparr>)"
    using assms(5) by (cases "net_send net (host a) (port a) body t (world c)") (auto simp: call_peer_def isl_def, metis fst_conv sum.sel(1))
  have "few b (c\<lparr>world := w\<rparr>)" using assms(1) by simp
  from failure_few [OF this assms(4)] obtain c2 where c2: "RecordFailure net (host a) (port a) (c\<lparr>world := w\<rparr>) = (Inr (), c2)"
    "few (b((host a, port a) := b (host a, port a) + 1)) c2" by blast
  obtain w3 where "efind (\<lambda>(j, a). if j \<noteq> i then is_closed net a else eret False) peers c2 = (Inr (Some (j, a')), c2\<lparr>world := w3\<rparr>)"
    using efind_few [OF c2(2) assms(2), of "\<lambda>j. j \<noteq> i" peers] assms(6) by auto
  with assms(3) send c2 show ?thesis by (intro exI [of _ "c2\<lparr>world := w3\<rparr>"]) (simp del: efind.simps)
qed

text \<open>When the two peers with the least ids are down and the breaker has no failure on record, a client request bounces
  between these two and gives up, whatever the other peers, a live majority perhaps, would answer.\<close>

theorem client_bounces_between_dead:
  assumes "omap_ok peers" and "peers = (i, a) # (j, b) # rest" and "(host a, port a) \<noteq> (host b, port b)"
    and "health_map c = []" and "clock_ok net"
    and "\<forall>w. isl (fst (net_send net (host a) (port a) (EncodeClientRequest \<lparr>crq_command = command\<rparr>) t w))"
    and "\<forall>w. isl (fst (net_send net (host b) (port b) (EncodeClientRequest \<lparr>crq_command = command\<rparr>) t w))"
  shows "fst (SendClientRequest net peers command t c) =
    Inr (client_failed i ''too many redirects while locating the leader'')"
proof -
  let ?body = "EncodeClientRequest \<lparr>crq_command = command\<rparr>" let ?A = "(host a, port a)" let ?B = "(host b, port b)"
  have ij: "i \<noteq> j" using assms(1,2) by (auto simp: omap_ok_Cons)
  have find: "omap_find i peers = Some a" "omap_find j peers = Some b" using ij by (simp_all add: omap_find_def assms(2))
  have other: "find (\<lambda>(k, _). k \<noteq> i) peers = Some (j, b)" "find (\<lambda>(k, _). k \<noteq> j) peers = Some (i, a)"
    using ij by (simp_all add: assms(2))
  have "few (\<lambda>_. 0) c" by (simp add: few_def assms(4) omap_find_def)
  then obtain w where w: "is_closed net a c = (Inr True, c\<lparr>world := w\<rparr>)" "few (\<lambda>_. 0) (c\<lparr>world := w\<rparr>)"
    using closed_few assms(5) by fastforce
  have th: "n < 4 \<Longrightarrow> n + 1 < kFailureThreshold" for n by (simp add: kFailureThreshold_def)
  obtain c1 where c1: "client_hops net peers ?body t 4 i (c\<lparr>world := w\<rparr>) = client_hops net peers ?body t 3 j c1" "few ((\<lambda>_. 0)(?A := 1)) c1"
    using hop_unreachable [OF w(2) assms(5) find(1) th assms(6) other(1), of 3] by (auto simp: eval_nat_numeral)
  obtain c2 where c2: "client_hops net peers ?body t 3 j c1 = client_hops net peers ?body t 2 i c2" "few ((\<lambda>_. 0)(?A := 1, ?B := 1)) c2"
    using hop_unreachable [OF c1(2) assms(5) find(2) th assms(7) other(2), of 2] assms(3) by (auto simp: eval_nat_numeral)
  obtain c3 where c3: "client_hops net peers ?body t 2 i c2 = client_hops net peers ?body t 1 j c3" "few ((\<lambda>_. 0)(?A := 1, ?B := 1, ?A := 2)) c3"
    using hop_unreachable [OF c2(2) assms(5) find(1) th assms(6) other(1), of 1] assms(3) by (auto simp: eval_nat_numeral)
  obtain c4 where c4: "client_hops net peers ?body t 1 j c3 = client_hops net peers ?body t 0 i c4"
    using hop_unreachable [OF c3(2) assms(5) find(2) th assms(7) other(2), of 0] assms(3) by (auto simp: eval_nat_numeral)
  have "SendClientRequest net peers command t c = client_hops net peers ?body t 4 i (c\<lparr>world := w\<rparr>)"
    using w(1) by (simp add: SendClientRequest_def assms(2) kMaxHops_def del: client_hops.simps)
  then show ?thesis unfolding c1(1) c2(1) c3(1) c4 by simp
qed

section \<open>Reads\<close>

definition address :: "NodeId \<times> PeerAddress \<Rightarrow> string \<times> 16 word" where
  "address x = (host (snd x), port (snd x))"

definition read_answer :: "string \<Rightarrow> string res" where
  "read_answer response = rbind (DecodeReadResponse response) (\<lambda>resp.
     if rdr_error resp then Inl (RuntimeError (rdr_result resp)) else Inr (rdr_result resp))"

text \<open>What is known of the network during a read: each peer answers the same throughout.\<close>

definition steady_answers :: "'w network \<Rightarrow> string \<Rightarrow> nat \<Rightarrow> (PeerAddress \<Rightarrow> string + string) \<Rightarrow> peer_map \<Rightarrow> bool" where
  "steady_answers net body t ans peers \<longleftrightarrow> (\<forall>(i, a) \<in> set peers. \<forall>w. fst (net_send net (host a) (port a) body t w) = ans a)"

lemma steady_send:
  "steady_answers net body t ans peers \<Longrightarrow> (i, a) \<in> set peers \<Longrightarrow> \<exists>w. call_peer net a body t c = (Inr (ans a), c\<lparr>world := w\<rparr>)"
proof -
  assume "steady_answers net body t ans peers" "(i, a) \<in> set peers"
  then have "fst (net_send net (host a) (port a) body t (world c)) = ans a" unfolding steady_answers_def by blast
  then show ?thesis by (cases "net_send net (host a) (port a) body t (world c)") (auto simp: call_peer_def)
qed

lemma read_pass_untripped:
  assumes "few b c" and "clock_ok net" and "steady_answers net body t ans peers" and "distinct (map address peers)"
    and "\<forall>x \<in> set peers. b (address x) = 0" and "\<forall>k. b k \<le> 1"
  shows "case find (\<lambda>(i, a). \<not> isl (ans a)) peers of
      Some (i, a) \<Rightarrow> fst (read_pass net body t False peers e c) = rbind (read_answer (projr (ans a))) (\<lambda>r. Inr (Inr r))
    | None \<Rightarrow> \<exists>c' b'. read_pass net body t False peers e c =
        (Inr (Inl (if peers = [] then e else projl (ans (snd (last peers))))), c') \<and> few b' c'"
  using assms
proof (induction peers arbitrary: b c e)
  case Nil
  then show ?case by auto
next
  case (Cons x peers)
  obtain i a where x: "x = (i, a)" by (cases x)
  obtain w where w: "IsOpen net (host a) (port a) c = (Inr False, c\<lparr>world := w\<rparr>)" using IsOpen_few [OF Cons.prems(1,2)] by blast
  obtain w2 where send: "call_peer net a body t (c\<lparr>world := w\<rparr>) = (Inr (ans a), c\<lparr>world := w\<rparr>\<lparr>world := w2\<rparr>)"
    using steady_send [OF Cons.prems(3), of i a] x by (metis list.set_intros(1))
  show ?case
  proof (cases "ans a")
    case (Inr response)
    then show ?thesis using w send
      by (cases "DecodeReadResponse response") (simp_all add: x RecordSuccess_run read_answer_def rbind_def ebind_def)
  next
    case (Inl err)
    have ax: "address x = (host a, port a)" by (simp add: x address_def)
    have b0: "b (host a, port a) = 0" using Cons.prems(5) by (simp add: ax [symmetric])
    have few: "few b (c\<lparr>world := w\<rparr>\<lparr>world := w2\<rparr>)" using Cons.prems(1) by simp
    have th: "b (host a, port a) + 1 < kFailureThreshold" by (simp add: b0 kFailureThreshold_def)
    obtain c2 where c2: "RecordFailure net (host a) (port a) (c\<lparr>world := w\<rparr>\<lparr>world := w2\<rparr>) = (Inr (), c2)" "few (b((host a, port a) := 1)) c2"
      using failure_few [OF few th] by (auto simp: b0)
    have st: "steady_answers net body t ans peers" using Cons.prems(3) by (simp add: steady_answers_def)
    have d: "distinct (map address peers)" "\<forall>y \<in> set peers. (b((host a, port a) := 1)) (address y) = 0"
      using Cons.prems(4,5) by (auto simp: ax [symmetric]) (metis image_eqI)
    have "\<forall>k. (b((host a, port a) := 1)) k \<le> 1" using Cons.prems(6) by simp
    note IH = Cons.IH [OF c2(2) Cons.prems(2) st d this, of err]
    have "read_pass net body t False (x # peers) e c = read_pass net body t False peers err c2"
      using w send c2(1) Inl by (simp add: x ebind_def [of "IsOpen net (host a) (port a)"])
    with IH Inl show ?thesis by (cases peers) (auto simp: x split: option.splits simp del: read_pass.simps(2))
  qed
qed

lemma read_pass_none_tripped:
  assumes "few b c" and "clock_ok net"
  shows "fst (read_pass net body t True peers e c) = Inr (Inl e)"
  using assms(1)
proof (induction peers arbitrary: c)
  case (Cons x peers)
  obtain i a where x: "x = (i, a)" by (cases x)
  obtain w where "IsOpen net (host a) (port a) c = (Inr False, c\<lparr>world := w\<rparr>)" using IsOpen_few [OF Cons.prems assms(2)] by blast
  then have "read_pass net body t True (x # peers) e c = read_pass net body t True peers e (c\<lparr>world := w\<rparr>)"
    by (simp add: x ebind_def [of "IsOpen net (host a) (port a)"])
  with Cons show ?case by (simp only: few_world)
qed simp

text \<open>With no failure on record and peers at different addresses, a read gives what the first reachable peer, in the
  order of the ids, answers, its error included, and it fails only when no peer is reachable.\<close>

theorem client_read_first_reachable:
  assumes "health_map c = []" and "clock_ok net" and "distinct (map address peers)"
    and "steady_answers net (EncodeReadRequest \<lparr>rdq_query = query\<rparr>) t ans peers"
  shows "fst (SendReadRequest net peers query t c) = (case find (\<lambda>(i, a). \<not> isl (ans a)) peers of
      Some (i, a) \<Rightarrow> read_answer (projr (ans a))
    | None \<Rightarrow> Inl (RuntimeError (''could not reach any node in this cluster: '' @
        (if peers = [] then ''no peers known for this cluster'' else projl (ans (snd (last peers)))))))"
proof -
  have few: "few (\<lambda>_. 0) c" by (simp add: few_def assms(1) omap_find_def)
  note pass = read_pass_untripped [OF few assms(2,4,3), of "''no peers known for this cluster''"]
  show ?thesis
  proof (cases "find (\<lambda>(i, a). \<not> isl (ans a)) peers")
    case None
    let ?body = "EncodeReadRequest \<lparr>rdq_query = query\<rparr>"
    let ?e = "if peers = [] then ''no peers known for this cluster'' else projl (ans (snd (last peers)))"
    from None pass obtain c1 b' where one: "read_pass net ?body t False peers ''no peers known for this cluster'' c = (Inr (Inl ?e), c1)"
      "few b' c1" by auto
    obtain c2 where "read_pass net ?body t True peers ?e c1 = (Inr (Inl ?e), c2)"
      using read_pass_none_tripped [OF one(2) assms(2), of ?body t peers ?e]
      by (cases "read_pass net ?body t True peers ?e c1") simp
    with None one(1) show ?thesis by (simp add: SendReadRequest_def Let_def)
  next
    case (Some x)
    with pass show ?thesis
      by (cases x; cases "read_answer (projr (ans (snd x)))";
          cases "read_pass net (EncodeReadRequest \<lparr>rdq_query = query\<rparr>) t False peers ''no peers known for this cluster'' c")
        (auto simp: SendReadRequest_def Let_def ebind_def rbind_def)
  qed
qed

section \<open>When the breaker opens\<close>

text \<open>The reports on one address, each a success or a failure at a time, and the breaker after them.\<close>

definition wall_clock :: "int network" where
  "wall_clock = \<lparr>net_send = (\<lambda>_ _ _ _ w. (Inl [], w)), net_now = (\<lambda>w. (w, w))\<rparr>"

definition report :: "string \<Rightarrow> 16 word \<Rightarrow> bool \<times> int \<Rightarrow> int client \<Rightarrow> int client" where
  "report h p r c = snd ((if fst r then RecordSuccess h p else RecordFailure wall_clock h p) (c\<lparr>world := snd r\<rparr>))"

definition failing_since :: "(bool \<times> int) list \<Rightarrow> (bool \<times> int) list" where
  "failing_since rs = takeWhile (\<lambda>r. \<not> fst r) (rev rs)"

lemma report_health:
  assumes "c = fold (report h p) rs \<lparr>health_map = [], world = 0\<rparr>"
  shows "omap_ok (health_map c) \<and> omap_find (h, p) (health_map c) = (let fs = failing_since rs in if fs = [] then None
     else Some \<lparr>consecutive_failures = length fs, open_until = (if kFailureThreshold \<le> length fs then snd (hd fs) + kCooldown else 0)\<rparr>)"
  using assms
proof (induction rs arbitrary: c rule: rev_induct)
  case Nil
  then show ?case by (simp add: failing_since_def omap_find_def)
next
  case (snoc r rs)
  define d where "d = fold (report h p) rs \<lparr>health_map = [], world = 0\<rparr>"
  note IH = snoc.IH [OF d_def]
  have c: "c = report h p r d" by (simp add: snoc.prems d_def)
  show ?case
  proof (cases "fst r")
    case True
    then have "health_map c = omap_erase (h, p) (health_map d)" by (simp add: c report_def RecordSuccess_run)
    moreover have "failing_since (rs @ [r]) = []" using True by (simp add: failing_since_def)
    ultimately show ?thesis using IH by (simp add: omap_erase_def omap_ok_filter omap_find_def map_of_filter_key [of "\<lambda>k. k \<noteq> (h, p)"])
  next
    case False
    then have fs: "failing_since (rs @ [r]) = r # failing_since rs" by (simp add: failing_since_def)
    let ?h = "omap_get_default Health_new (h, p) (health_map d)"
    have n: "consecutive_failures ?h = length (failing_since rs)" "kFailureThreshold \<le> Suc (length (failing_since rs)) \<or> open_until ?h = 0"
      using IH by (auto simp: omap_get_default_def omap_find_def Health_new_def Let_def kFailureThreshold_def split: option.split)
    have "health_map c = omap_set (h, p) \<lparr>consecutive_failures = length (r # failing_since rs),
        open_until = (if kFailureThreshold \<le> length (r # failing_since rs) then snd r + kCooldown else 0)\<rparr> (health_map d)"
      using False n by (cases "?h") (auto simp: c report_def RecordFailure_def read_clock_def wall_clock_def ebind_def emodify_def Let_def)
    then show ?thesis using IH by (simp add: fs omap_find_def om.invar_upd om.look_upd)
  qed
qed

text \<open>The breaker skips an address exactly while the last five reports on it or more were failures and less than 30 s
  have passed since the last of them.\<close>

theorem breaker_opens_exactly:
  assumes "0 \<le> t"
  shows "fst (IsOpen wall_clock h p ((fold (report h p) rs \<lparr>health_map = [], world = 0\<rparr>)\<lparr>world := t\<rparr>)) =
    Inr (5 \<le> length (failing_since rs) \<and> t < snd (hd (failing_since rs)) + 30000)"
  using report_health [OF refl, of h p rs] assms
  by (auto simp: IsOpen_def read_clock_def wall_clock_def ebind_def Let_def kFailureThreshold_def kCooldown_def split: if_splits)

section \<open>An example\<close>

text \<open>Three peers; some addresses are down, node 3 accepts, and the other nodes name it.\<close>

definition demo_peers :: peer_map where
  "demo_peers = [(1, \<lparr>host = ''a'', port = 1\<rparr>), (2, \<lparr>host = ''b'', port = 1\<rparr>), (3, \<lparr>host = ''c'', port = 1\<rparr>)]"

definition demo_accept :: ClientResponse where
  "demo_accept = \<lparr>crr_success = True, crr_index = 7, crr_not_leader = False, crr_leader_hint = 3, crr_error = []\<rparr>"

definition demo_net :: "string list \<Rightarrow> unit network" where
  "demo_net down = \<lparr>net_send = (\<lambda>h p body t w. (if h \<in> set down then Inl ''down''
       else if h = ''c'' then Inr (EncodeClientResponse demo_accept)
       else Inr (EncodeClientResponse (client_failed 3 [])), w)),
     net_now = (\<lambda>w. (0, w))\<rparr>"

definition demo_client :: "unit client" where
  "demo_client = \<lparr>health_map = [], world = ()\<rparr>"

lemma DecodeClientResponse_Encode: "crr_ok q \<Longrightarrow> DecodeClientResponse (EncodeClientResponse q) = Inr q"
  using crr.dec_enc_Nil by (simp add: DecodeClientResponse_def srun_def)

lemma DecodeReadResponse_Encode: "rdr_ok q \<Longrightarrow> DecodeReadResponse (EncodeReadResponse q) = Inr q"
  using rdr.dec_enc_Nil by (simp add: DecodeReadResponse_def srun_def)

lemma demo_decode:
  "DecodeClientResponse (EncodeClientResponse demo_accept) = Inr demo_accept"
  "DecodeClientResponse (EncodeClientResponse (client_failed 3 [])) = Inr (client_failed 3 [])"
  by (simp_all add: DecodeClientResponse_Encode crr_ok_def demo_accept_def client_failed_def index_ok_def fits32_def)

lemma demo_fields:
  "crr_success demo_accept" "\<not> crr_success (client_failed i e)" "crr_not_leader (client_failed i e)" "crr_leader_hint (client_failed i e) = i"
  by (simp_all add: demo_accept_def client_failed_def)

lemma demo_clock: "clock_ok (demo_net down)"
  by (simp add: clock_ok_def demo_net_def)

lemma demo_steady: "steady (demo_net [''a'']) demo_peers body t 3 1"
  by (auto simp: steady_def demo_peers_def omap_ok_Cons demo_net_def replies_def demo_decode demo_fields)

theorem client_send_bounded_witness:
  "\<exists>r c'. SendClientRequest (logged (demo_net [''a''])) demo_peers ''x'' 100 \<lparr>health_map = [], world = ((), [])\<rparr> = (r, c') \<and>
     length (log_of c') \<le> 4"
  using client_send_bounded [of "\<lparr>health_map = [], world = ((), [])\<rparr>" "()" "demo_net [''a'']" demo_peers "''x''" 100] by auto

theorem client_finds_leader_witness:
  "\<exists>resp c'. SendClientRequest (demo_net [''a'']) demo_peers ''x'' 100
      (demo_client\<lparr>health_map := [((''a'', 1), \<lparr>consecutive_failures = 5, open_until = 10\<rparr>), ((''b'', 1), \<lparr>consecutive_failures = 5, open_until = 10\<rparr>)]\<rparr>) =
      (Inr resp, c') \<and> crr_success resp"
  by (rule client_finds_leader [OF demo_steady])
    (auto simp: one_closed_def breaker_closed_def demo_client_def demo_peers_def omap_find_def omap_ok_Cons)

theorem client_bounces_between_dead_witness:
  "fst (SendClientRequest (demo_net [''a'', ''b'']) demo_peers ''x'' 100 demo_client) =
     Inr (client_failed 1 ''too many redirects while locating the leader'')"
  by (rule client_bounces_between_dead [OF _ demo_peers_def])
    (simp_all add: demo_peers_def omap_ok_Cons demo_client_def demo_clock, simp_all add: demo_net_def)

definition demo_read_net :: "unit network" where
  "demo_read_net = \<lparr>net_send = (\<lambda>h p body t w. (if h = ''a'' then Inl ''down''
       else Inr (EncodeReadResponse \<lparr>rdr_error = False, rdr_result = h\<rparr>), w)), net_now = (\<lambda>w. (0, w))\<rparr>"

theorem client_read_first_reachable_witness:
  "fst (SendReadRequest demo_read_net demo_peers ''q'' 100 demo_client) = Inr ''b''"
proof -
  let ?ans = "\<lambda>a. if host a = ''a'' then Inl ''down'' else Inr (EncodeReadResponse \<lparr>rdr_error = False, rdr_result = host a\<rparr>)"
  have "fst (SendReadRequest demo_read_net demo_peers ''q'' 100 demo_client) =
    (case find (\<lambda>(i, a). \<not> isl (?ans a)) demo_peers of
      Some (i, a) \<Rightarrow> read_answer (projr (?ans a))
    | None \<Rightarrow> Inl (RuntimeError (''could not reach any node in this cluster: '' @
        (if demo_peers = [] then ''no peers known for this cluster'' else projl (?ans (snd (last demo_peers)))))))"
    by (rule client_read_first_reachable)
      (simp_all add: demo_client_def clock_ok_def demo_read_net_def steady_answers_def demo_peers_def address_def)
  then show ?thesis
    by (simp add: demo_peers_def read_answer_def DecodeReadResponse_Encode rdr_ok_def fits32_def)
qed

theorem breaker_opens_exactly_witness:
  "fst (IsOpen wall_clock ''a'' 1 ((fold (report ''a'' 1) (map (\<lambda>t. (False, t)) [0, 10, 20, 30, 40])
     \<lparr>health_map = [], world = 0\<rparr>)\<lparr>world := 30000\<rparr>)) = Inr True"
  using breaker_opens_exactly [of 30000 "''a''" 1 "map (\<lambda>t. (False, t)) [0, 10, 20, 30, 40]"]
  by (simp add: failing_since_def)

end
