(* ===== verification/Routing.thy ===== *)
theory Routing
  imports Node_Files
begin

text \<open>
  \<^verbatim>\<open>src/shard/routing.cpp\<close>: the routing table, a list of key ranges sorted by start key, loaded from a
  text file.  Shown: loading keeps exactly the parsed lines, sorted; in a well-formed table (contiguous ranges
  from the least key on) every key is routed to the one shard whose range holds it.
\<close>

type_synonym ShardId = "32 word"

record ShardRange =
  shard_id :: ShardId
  start_key :: string
  end_key :: string
  shard_peers :: peer_map

definition read_token :: "string \<Rightarrow> (string \<times> string) option" where
  "read_token s =
     (let s1 = dropWhile isspace s; t = takeWhile (\<lambda>c. \<not> isspace c) s1
      in if t = [] then None else Some (t, dropWhile (\<lambda>c. \<not> isspace c) s1))"

text \<open>One line of the file: \<open>None\<close> for one that is skipped.\<close>

definition parse_shard :: "string \<Rightarrow> ShardRange option res" where
  "parse_shard line =
     (if line = [] \<or> hd line = CHR ''#'' then Inr None
      else case extract_unsigned 32 0 line of
        (_, None) \<Rightarrow> Inr None
      | (id_val, Some r0) \<Rightarrow> (case read_token r0 of None \<Rightarrow> Inr None
      | Some (start_token, r1) \<Rightarrow> (case read_token r1 of None \<Rightarrow> Inr None
      | Some (end_token, r2) \<Rightarrow> (case read_token r2 of None \<Rightarrow> Inr None
      | Some (peers_token, _) \<Rightarrow>
          rbind (ParsePeerSpec peers_token) (\<lambda>ps. Inr (Some \<lparr>shard_id = of_nat id_val,
            start_key = (if start_token = ''*'' then [] else start_token),
            end_key = (if end_token = ''*'' then [] else end_token),
            shard_peers = ps\<rparr>))))))"

definition LoadFromFile :: "string \<Rightarrow> string option \<Rightarrow> ShardRange list res" where
  "LoadFromFile path file = (case file of
       None \<Rightarrow> Inl (RuntimeError (''failed to open routing table: '' @ path))
     | Some content \<Rightarrow>
         rbind (rmap parse_shard (getlines CHR 0x0A content)) (\<lambda>shards.
           let shards = concat (map (\<lambda>s. case s of None \<Rightarrow> [] | Some s \<Rightarrow> [s]) shards)
           in if shards = [] then Inl (RuntimeError (''routing table is empty: '' @ path))
              else Inr (sort_key start_key shards)))"

definition ShardFor :: "ShardRange list \<Rightarrow> string \<Rightarrow> ShardRange res" where
  "ShardFor shards key =
     (let before = takeWhile (\<lambda>shard. \<not> key < start_key shard) shards
      in if before = [] then Inl (RuntimeError (''no shard covers key: '' @ key)) else Inr (last before))"

definition Shard :: "ShardRange list \<Rightarrow> ShardId \<Rightarrow> ShardRange res" where
  "Shard shards i = (case find (\<lambda>s. shard_id s = i) shards of
       Some s \<Rightarrow> Inr s
     | None \<Rightarrow> Inl (RuntimeError (''unknown shard id: '' @ to_string (unat i))))"

definition AllShardIds :: "ShardRange list \<Rightarrow> ShardId list" where
  "AllShardIds shards = map shard_id shards"

section \<open>Well-formed tables\<close>

fun contiguous :: "ShardRange list \<Rightarrow> bool" where
  "contiguous [] = False"
| "contiguous [s] = (end_key s = [])"
| "contiguous (s # t # ss) = (end_key s = start_key t \<and> start_key s < start_key t \<and> contiguous (t # ss))"

definition table_wf :: "ShardRange list \<Rightarrow> bool" where
  "table_wf shards \<longleftrightarrow> contiguous shards \<and> start_key (hd shards) = []"

definition covers :: "ShardRange \<Rightarrow> string \<Rightarrow> bool" where
  "covers s key \<longleftrightarrow> start_key s \<le> key \<and> (end_key s = [] \<or> key < end_key s)"

lemma contiguous_starts: "contiguous (s # ss) \<Longrightarrow> \<forall>t \<in> set ss. start_key s < start_key t"
proof (induction ss arbitrary: s)
  case (Cons t ss)
  then have "\<forall>u \<in> set ss. start_key t < start_key u" "start_key s < start_key t" by simp_all
  then show ?case by (auto intro: order.strict_trans)
qed simp

lemma contiguous_covers_only:
  assumes "contiguous ss" and "a \<in> set ss" and "b \<in> set ss" and "covers a key" and "covers b key"
  shows "a = b"
  using assms
proof (induction ss rule: contiguous.induct)
  case (3 s t ss)
  have first: False if "covers s key" "u \<in> set (t # ss)" "covers u key" for u
  proof -
    have "start_key t \<le> start_key u" using that(2) contiguous_starts [of t ss] "3.prems"(1) by auto
    then have "start_key t \<le> key" using that(3) by (auto simp: covers_def)
    moreover have "key < start_key t" using that(1) "3.prems"(1) by (auto simp: covers_def)
    ultimately show False by simp
  qed
  show ?case
  proof (cases "a = s \<or> b = s")
    case True
    with first "3.prems" show ?thesis by auto
  next
    case False
    with 3 show ?thesis by simp
  qed
qed auto

lemma ShardFor_covers:
  assumes "contiguous ss" and "start_key (hd ss) \<le> key"
  shows "\<exists>s \<in> set ss. ShardFor ss key = Inr s \<and> covers s key"
  using assms
proof (induction ss rule: contiguous.induct)
  case (2 s)
  then show ?case by (auto simp: ShardFor_def covers_def)
next
  case (3 s t ss)
  show ?case
  proof (cases "key < start_key t")
    case True
    with 3 show ?thesis by (auto simp: ShardFor_def covers_def Let_def)
  next
    case False
    then have "start_key (hd (t # ss)) \<le> key" by simp
    moreover have "contiguous (t # ss)" using "3.prems"(1) by simp
    ultimately obtain u where u: "u \<in> set (t # ss)" "ShardFor (t # ss) key = Inr u" "covers u key"
      using "3.IH" by blast
    have "takeWhile (\<lambda>shard. \<not> key < start_key shard) (t # ss) \<noteq> []" using False by simp
    then have "ShardFor (s # t # ss) key = ShardFor (t # ss) key"
      using "3.prems" by (simp add: ShardFor_def Let_def)
    with u show ?thesis by auto
  qed
qed simp

section \<open>Properties\<close>

text \<open>In a table whose ranges start at the least key and join up, every key is routed to the one shard whose
  range contains it.\<close>

theorem routing_finds_range:
  assumes "table_wf shards"
  shows "\<exists>s \<in> set shards. ShardFor shards key = Inr s \<and> (\<forall>t \<in> set shards. covers t key \<longleftrightarrow> t = s)"
proof -
  have c: "contiguous shards" and "start_key (hd shards) \<le> key" using assms by (auto simp: table_wf_def)
  then obtain s where "s \<in> set shards" "ShardFor shards key = Inr s" "covers s key"
    using ShardFor_covers by blast
  with contiguous_covers_only [OF c] show ?thesis by blast
qed

theorem routing_finds_range_witness:
  "let shards = [\<lparr>shard_id = 1, start_key = [], end_key = ''m'', shard_peers = []\<rparr>,
                 \<lparr>shard_id = 2, start_key = ''m'', end_key = [], shard_peers = []\<rparr>]
   in \<exists>s \<in> set shards. ShardFor shards ''user'' = Inr s \<and> (\<forall>t \<in> set shards. covers t ''user'' \<longleftrightarrow> t = s)"
  unfolding Let_def by (rule routing_finds_range) (simp add: table_wf_def)

text \<open>Loading a routing file keeps the shard of every line that parses, loses and invents none, and leaves them
  sorted by start key; a file without any is refused.\<close>

theorem routing_load_sorted:
  assumes "rmap parse_shard (getlines CHR 0x0A content) = Inr parsed"
  shows "if (\<forall>x \<in> set parsed. x = None)
    then LoadFromFile path (Some content) = Inl (RuntimeError (''routing table is empty: '' @ path))
    else \<exists>shards. LoadFromFile path (Some content) = Inr shards \<and> Some ` set shards = set parsed - {None} \<and>
           length shards = length (filter (\<lambda>x. x \<noteq> None) parsed) \<and> sorted (map start_key shards)"
proof -
  let ?f = "concat (map (\<lambda>s. case s of None \<Rightarrow> [] | Some s \<Rightarrow> [s]) parsed)"
  have "?f = [] \<longleftrightarrow> (\<forall>x \<in> set parsed. x = None)" by (auto split: option.splits)
  moreover have "Some ` set ?f = set parsed - {None}" by (induction parsed) (auto split: option.splits)
  moreover have "length ?f = length (filter (\<lambda>x. x \<noteq> None) parsed)"
    by (induction parsed) (auto split: option.splits)
  ultimately show ?thesis
    using assms by (simp add: LoadFromFile_def Let_def)
qed

theorem routing_load_sorted_witness:
  "if (\<forall>x \<in> set [None :: ShardRange option]. x = None)
    then LoadFromFile ''r'' (Some ''#x'') = Inl (RuntimeError (''routing table is empty: '' @ ''r''))
    else \<exists>shards. LoadFromFile ''r'' (Some ''#x'') = Inr shards \<and> Some ` set shards = set [None :: ShardRange option] - {None} \<and>
           length shards = length (filter (\<lambda>x. x \<noteq> None) [None :: ShardRange option]) \<and> sorted (map start_key shards)"
  by (rule routing_load_sorted) (simp add: getlines_def parse_shard_def)

end
