(* ===== verification/Two_Phase.thy ===== *)
theory Two_Phase
  imports Replica Client Routing Raft_Node
begin

text \<open>
  The coordinator of transactions, \<^verbatim>\<open>RunTransaction\<close> of \<^verbatim>\<open>src/raft_main.cpp\<close>: the statements buffered since \<^verbatim>\<open>begin\<close>
  are grouped by shard, every shard is asked to prepare its share, and all of them are told to commit, or those that
  prepared to abort.  \<open>send\<close> is the lambda \<^verbatim>\<open>send_to_shard\<close>, \<open>send_to_shard\<close> what it is in the program.  Shown: which
  messages are sent, in which order, for every behaviour of the network; and, over shards that are the replicated
  machines of \<open>Replica\<close>, that the shards take one decision, what each runs of its share when it is to commit
  (up to the first statement that throws), and that none changes when one refuses.
\<close>

section \<open>Sending\<close>

text \<open>\<^verbatim>\<open>try { m } catch (const std::exception& e) { h(e) }\<close>.\<close>

definition ecatch :: "('s, 'a) eff \<Rightarrow> (exn \<Rightarrow> ('s, 'a) eff) \<Rightarrow> ('s, 'a) eff" where
  "ecatch m h s = (case m s of (Inl e, s') \<Rightarrow> if e = Undefined then (Inl e, s') else h e s' | (Inr x, s') \<Rightarrow> (Inr x, s'))"

record 'w system =
  sys_client :: "'w client"
  sys_engine :: StorageEngine

definition on_client :: "('w client, 'a) eff \<Rightarrow> ('w system, 'a) eff" where
  "on_client m s = (case m (sys_client s) of (r, c) \<Rightarrow> (r, s\<lparr>sys_client := c\<rparr>))"

text \<open>What the coordinator knows: its node and shard, the table of shards, the network, and of the Raft node in the same
  process \<^verbatim>\<open>ProposeOrForward\<close>, which blocks until other threads have applied the command, and its role, term and
  leader.\<close>

record 'w cluster =
  own_node :: NodeId
  own_shard :: ShardId
  routing_table :: "ShardRange list"
  net_of :: "'w network"
  propose :: "string \<Rightarrow> nat \<Rightarrow> ('w system, ClientResponse) eff"
  node_status :: "'w system \<Rightarrow> Role \<times> Term \<times> NodeId"

definition send_to_shard :: "'w cluster \<Rightarrow> nat \<Rightarrow> ShardId \<Rightarrow> string \<Rightarrow> ('w system, ClientResponse) eff" where
  "send_to_shard cl timeout_ms sid command =
     (if sid = own_shard cl then propose cl command timeout_ms
      else ebind (elift (Shard (routing_table cl) sid)) (\<lambda>shard.
             on_client (SendClientRequest (net_of cl) (shard_peers shard) command timeout_ms)))"

section \<open>Two-phase commit\<close>

record BufferedTxnStatement =
  bs_shard :: ShardId
  bs_key :: string
  bs_sql :: string

definition add_statement ::
  "TxnId \<Rightarrow> (ShardId, TxnPrepare) omap \<Rightarrow> BufferedTxnStatement \<Rightarrow> (ShardId, TxnPrepare) omap" where
  "add_statement txn_id by_shard stmt =
     (let prepare = omap_get_default \<lparr>tp_txn_id = 0, tp_keys = [], tp_commands = []\<rparr> (bs_shard stmt) by_shard
      in omap_set (bs_shard stmt) \<lparr>tp_txn_id = txn_id, tp_keys = tp_keys prepare @ [bs_key stmt],
           tp_commands = tp_commands prepare @ [bs_sql stmt]\<rparr> by_shard)"

definition group_by_shard :: "TxnId \<Rightarrow> BufferedTxnStatement list \<Rightarrow> (ShardId, TxnPrepare) omap" where
  "group_by_shard txn_id buffer = foldl (add_statement txn_id) [] buffer"

definition shard_failure :: "ShardId \<Rightarrow> string \<Rightarrow> string" where
  "shard_failure sid msg = ''shard '' @ to_string (unat sid) @ '': '' @ msg"

text \<open>One message: \<open>Some\<close> the reason why it failed.\<close>

definition try_send :: "(ShardId \<Rightarrow> string \<Rightarrow> ('s, ClientResponse) eff) \<Rightarrow> ShardId \<Rightarrow> string \<Rightarrow> ('s, string option) eff" where
  "try_send send sid command = ecatch
     (ebind (send sid command) (\<lambda>resp. eret (if crr_success resp then None else Some (shard_failure sid (crr_error resp)))))
     (\<lambda>e. eret (Some (shard_failure sid (what e))))"

text \<open>The first loop: the shards that prepared, and the reason to abort, empty when there is none.\<close>

fun prepare_all ::
  "(ShardId \<Rightarrow> string \<Rightarrow> ('s, ClientResponse) eff) \<Rightarrow> (ShardId, TxnPrepare) omap \<Rightarrow> ShardId list \<Rightarrow> ('s, ShardId list \<times> string) eff" where
  "prepare_all send [] prepared_shards = eret (prepared_shards, [])"
| "prepare_all send ((sid, prepare) # rest) prepared_shards =
     ebind (try_send send sid (EncodeTxnPrepare prepare)) (\<lambda>r. case r of
       Some abort_reason \<Rightarrow> eret (prepared_shards, abort_reason)
     | None \<Rightarrow> prepare_all send rest (prepared_shards @ [sid]))"

text \<open>The second loop, with the failures it collects.\<close>

fun tell_all :: "(ShardId \<Rightarrow> string \<Rightarrow> ('s, ClientResponse) eff) \<Rightarrow> string \<Rightarrow> ShardId list \<Rightarrow> ('s, string list) eff" where
  "tell_all send command [] = eret []"
| "tell_all send command (sid # sids) =
     ebind (try_send send sid command) (\<lambda>r.
     ebind (tell_all send command sids) (\<lambda>failures. eret (case r of None \<Rightarrow> failures | Some f \<Rightarrow> f # failures)))"

definition aborted_text :: "string \<Rightarrow> string list \<Rightarrow> string" where
  "aborted_text abort_reason failures = ''ABORTED ('' @ abort_reason @ '')'' @
     concat (map (\<lambda>f. '' [rollback also failed on '' @ f @ '']'') failures)"

definition committed_text :: "TxnId \<Rightarrow> nat \<Rightarrow> string list \<Rightarrow> string" where
  "committed_text txn_id n failures =
     (if failures = []
      then ''OK (committed transaction '' @ to_string (unat txn_id) @ '' across '' @ to_string n @ '' shard(s))''
      else ''transaction '' @ to_string (unat txn_id) @ '' was DECIDED TO COMMIT but couldn't notify every shard:'' @
        concat (map (\<lambda>f. '' ['' @ f @ '']'') failures) @
        '' - those shard(s) may still be holding locks; retrying the same COMMIT is safe once they're reachable'')"

definition RunTransaction ::
  "(ShardId \<Rightarrow> string \<Rightarrow> ('s, ClientResponse) eff) \<Rightarrow> TxnId \<Rightarrow> BufferedTxnStatement list \<Rightarrow> ('s, string) eff" where
  "RunTransaction send txn_id buffer =
     (let by_shard = group_by_shard txn_id buffer
      in ebind (prepare_all send by_shard []) (\<lambda>(prepared_shards, abort_reason).
           if abort_reason \<noteq> []
           then ebind (tell_all send (EncodeTxnAbort txn_id) prepared_shards) (\<lambda>failures. eret (aborted_text abort_reason failures))
           else ebind (tell_all send (EncodeTxnCommit txn_id) (map fst by_shard)) (\<lambda>failures.
                  eret (committed_text txn_id (length by_shard) failures))))"

section \<open>The shares\<close>

definition share :: "TxnId \<Rightarrow> BufferedTxnStatement list \<Rightarrow> ShardId \<Rightarrow> TxnPrepare" where
  "share t buffer sid = (let mine = filter (\<lambda>s. bs_shard s = sid) buffer
     in \<lparr>tp_txn_id = t, tp_keys = map bs_key mine, tp_commands = map bs_sql mine\<rparr>)"

definition touched :: "BufferedTxnStatement list \<Rightarrow> ShardId list" where
  "touched buffer = sorted_list_of_set (bs_shard ` set buffer)"

lemma group_snoc: "group_by_shard t (buffer @ [s]) = add_statement t (group_by_shard t buffer) s"
  by (simp add: group_by_shard_def)

lemma group_map:
  "omap_ok (group_by_shard t buffer) \<and>
   map_of (group_by_shard t buffer) = (\<lambda>sid. if sid \<in> bs_shard ` set buffer then Some (share t buffer sid) else None)"
proof (induction buffer rule: rev_induct)
  case (snoc s buffer)
  then show ?case
    by (auto simp: group_snoc add_statement_def om.invar_upd om.look_upd omap_get_default_def share_def Let_def fun_eq_iff
        filter_empty_conv) (metis imageI)
qed (simp add: group_by_shard_def)

lemma group_by_shard_eq: "group_by_shard t buffer = map (\<lambda>sid. (sid, share t buffer sid)) (touched buffer)"
proof (rule omap_ext)
  show "omap_ok (map (\<lambda>sid. (sid, share t buffer sid)) (touched buffer))"
    by (simp add: omap_ok_def touched_def comp_def)
  show "map_of (group_by_shard t buffer) = map_of (map (\<lambda>sid. (sid, share t buffer sid)) (touched buffer))"
    using group_map [of t buffer] by (auto simp: map_of_map_restrict touched_def restrict_map_def fun_eq_iff)
qed (use group_map in blast)

section \<open>The messages\<close>

text \<open>A \<open>send\<close> that also writes down each message and whether it succeeded.\<close>

type_synonym message_log = "(ShardId \<times> string \<times> bool) list"

definition went_well :: "ClientResponse res \<Rightarrow> bool" where
  "went_well r = (case r of Inl _ \<Rightarrow> False | Inr resp \<Rightarrow> crr_success resp)"

definition logged_send ::
  "(ShardId \<Rightarrow> string \<Rightarrow> ('s, ClientResponse) eff) \<Rightarrow> ShardId \<Rightarrow> string \<Rightarrow> ('s \<times> message_log, ClientResponse) eff" where
  "logged_send send sid command sl = (case sl of (s, l) \<Rightarrow> (case send sid command s of (r, s') \<Rightarrow>
     (r, (s', l @ [(sid, command, went_well r)]))))"

definition send_defined :: "(ShardId \<Rightarrow> string \<Rightarrow> ('s, ClientResponse) eff) \<Rightarrow> bool" where
  "send_defined send \<longleftrightarrow> (\<forall>sid command s. fst (send sid command s) \<noteq> Inl Undefined)"

lemma try_send_logged:
  assumes "send_defined send"
  shows "\<exists>r s'. try_send (logged_send send) sid command (s, l) = (Inr r, (s', l @ [(sid, command, r = None)])) \<and>
    (\<forall>reason. r = Some reason \<longrightarrow> reason \<noteq> [])"
proof -
  obtain x s' where x: "send sid command s = (x, s')" by (cases "send sid command s")
  have "x \<noteq> Inl Undefined" using assms x unfolding send_defined_def by (metis fst_conv)
  then show ?thesis
    using x by (cases x) (auto simp: try_send_def ecatch_def logged_send_def went_well_def ebind_def shard_failure_def)
qed

lemma tell_all_logged:
  assumes "send_defined send"
  shows "\<exists>failures s' oks. tell_all (logged_send send) command sids (s, l) =
    (Inr failures, (s', l @ map (\<lambda>(sid, b). (sid, command, b)) (zip sids oks))) \<and> length oks = length sids \<and>
    (failures = [] \<longleftrightarrow> (\<forall>b \<in> set oks. b))"
proof (induction sids arbitrary: s l)
  case Nil
  then show ?case by simp
next
  case (Cons sid sids)
  obtain r s1 where r: "try_send (logged_send send) sid command (s, l) = (Inr r, (s1, l @ [(sid, command, r = None)]))"
    using try_send_logged [OF assms] by metis
  from Cons.IH [of s1 "l @ [(sid, command, r = None)]"] obtain fs s' oks where
    "tell_all (logged_send send) command sids (s1, l @ [(sid, command, r = None)]) =
      (Inr fs, (s', (l @ [(sid, command, r = None)]) @ map (\<lambda>(sid, b). (sid, command, b)) (zip sids oks)))"
    "length oks = length sids" "fs = [] \<longleftrightarrow> (\<forall>b \<in> set oks. b)" by blast
  with r show ?case
    by (intro exI [of _ "case r of None \<Rightarrow> fs | Some f \<Rightarrow> f # fs"] exI [of _ s'] exI [of _ "(r = None) # oks"])
      (auto split: option.split)
qed

definition prepare_messages :: "TxnId \<Rightarrow> BufferedTxnStatement list \<Rightarrow> ShardId list \<Rightarrow> bool \<Rightarrow> message_log" where
  "prepare_messages t buffer sids ok = map (\<lambda>sid. (sid, EncodeTxnPrepare (share t buffer sid), ok)) sids"

lemma prepare_all_logged:
  assumes "send_defined send"
  shows "\<exists>s'. prepare_all (logged_send send) (map (\<lambda>sid. (sid, share t buffer sid)) sids) done_before (s, l) =
      (Inr (done_before @ sids, []), (s', l @ prepare_messages t buffer sids True)) \<or>
    (\<exists>n < length sids. \<exists>reason. reason \<noteq> [] \<and>
      prepare_all (logged_send send) (map (\<lambda>sid. (sid, share t buffer sid)) sids) done_before (s, l) =
      (Inr (done_before @ take n sids, reason),
       (s', l @ prepare_messages t buffer (take n sids) True @ prepare_messages t buffer [sids ! n] False)))"
proof (induction sids arbitrary: done_before s l)
  case Nil
  then show ?case by (simp add: prepare_messages_def)
next
  case (Cons sid sids)
  let ?c = "EncodeTxnPrepare (share t buffer sid)"
  obtain r s1 where r: "try_send (logged_send send) sid ?c (s, l) = (Inr r, (s1, l @ [(sid, ?c, r = None)]))"
    "\<forall>reason. r = Some reason \<longrightarrow> reason \<noteq> []"
    using try_send_logged [OF assms, of sid ?c s l] by blast
  show ?case
  proof (cases r)
    case (Some reason)
    with r show ?thesis by (intro exI [of _ s1] disjI2 exI [of _ 0] conjI exI [of _ reason]) (simp_all add: prepare_messages_def)
  next
    case None
    from Cons.IH [of "done_before @ [sid]" s1 "l @ [(sid, ?c, True)]"] obtain s' where
      s': "prepare_all (logged_send send) (map (\<lambda>sid. (sid, share t buffer sid)) sids) (done_before @ [sid]) (s1, l @ [(sid, ?c, True)]) =
          (Inr ((done_before @ [sid]) @ sids, []), (s', (l @ [(sid, ?c, True)]) @ prepare_messages t buffer sids True)) \<or>
        (\<exists>n < length sids. \<exists>reason. reason \<noteq> [] \<and>
          prepare_all (logged_send send) (map (\<lambda>sid. (sid, share t buffer sid)) sids) (done_before @ [sid]) (s1, l @ [(sid, ?c, True)]) =
          (Inr ((done_before @ [sid]) @ take n sids, reason), (s', (l @ [(sid, ?c, True)]) @
            prepare_messages t buffer (take n sids) True @ prepare_messages t buffer [sids ! n] False)))" by blast
    then show ?thesis
    proof
      assume "prepare_all (logged_send send) (map (\<lambda>sid. (sid, share t buffer sid)) sids) (done_before @ [sid]) (s1, l @ [(sid, ?c, True)]) =
        (Inr ((done_before @ [sid]) @ sids, []), (s', (l @ [(sid, ?c, True)]) @ prepare_messages t buffer sids True))"
      then show ?thesis using r(1) None by (intro exI [of _ s'] disjI1) (simp add: prepare_messages_def)
    next
      assume "\<exists>n < length sids. \<exists>reason. reason \<noteq> [] \<and>
          prepare_all (logged_send send) (map (\<lambda>sid. (sid, share t buffer sid)) sids) (done_before @ [sid]) (s1, l @ [(sid, ?c, True)]) =
          (Inr ((done_before @ [sid]) @ take n sids, reason), (s', (l @ [(sid, ?c, True)]) @
            prepare_messages t buffer (take n sids) True @ prepare_messages t buffer [sids ! n] False))"
      then obtain n reason where n: "n < length sids" "reason \<noteq> []"
        "prepare_all (logged_send send) (map (\<lambda>sid. (sid, share t buffer sid)) sids) (done_before @ [sid]) (s1, l @ [(sid, ?c, True)]) =
          (Inr ((done_before @ [sid]) @ take n sids, reason), (s', (l @ [(sid, ?c, True)]) @
            prepare_messages t buffer (take n sids) True @ prepare_messages t buffer [sids ! n] False))" by blast
      then show ?thesis using r(1) None
        by (intro exI [of _ s'] disjI2 exI [of _ "Suc n"] conjI exI [of _ reason]) (simp_all add: prepare_messages_def)
    qed
  qed
qed

section \<open>Properties\<close>

text \<open>C18. Two-phase commit, whatever the network does: the touched shards are asked to prepare in ascending order, each
  with the keys and commands of its own statements in the order they were buffered, up to the first that fails; if none
  does, every touched shard is told to commit, and if one does, exactly the shards before it are told to abort and no
  shard is told to commit.  The outcome that is reported is the one that was decided.\<close>

theorem two_phase_messages:
  assumes "send_defined send"
  shows "\<exists>msg s' l. RunTransaction (logged_send send) t buffer (s, []) = (Inr msg, (s', l)) \<and>
    ((\<exists>oks failures. l = prepare_messages t buffer (touched buffer) True @
          map (\<lambda>(sid, ok). (sid, EncodeTxnCommit t, ok)) (zip (touched buffer) oks) \<and>
        length oks = length (touched buffer) \<and> (failures = [] \<longleftrightarrow> (\<forall>b \<in> set oks. b)) \<and>
        msg = committed_text t (length (touched buffer)) failures) \<or>
     (\<exists>n < length (touched buffer). \<exists>oks reason failures. l = prepare_messages t buffer (take n (touched buffer)) True @
          prepare_messages t buffer [touched buffer ! n] False @
          map (\<lambda>(sid, ok). (sid, EncodeTxnAbort t, ok)) (zip (take n (touched buffer)) oks) \<and>
        length oks = n \<and> msg = aborted_text reason failures))"
proof -
  let ?run = "prepare_all (logged_send send) (map (\<lambda>sid. (sid, share t buffer sid)) (touched buffer)) [] (s, [])"
  have keys: "map fst (map (\<lambda>sid. (sid, share t buffer sid)) (touched buffer)) = touched buffer" by (simp add: comp_def)
  have def: "RunTransaction (logged_send send) t buffer (s, []) =
    ebind (\<lambda>_. ?run) (\<lambda>(prepared_shards, abort_reason).
      if abort_reason \<noteq> []
      then ebind (tell_all (logged_send send) (EncodeTxnAbort t) prepared_shards) (\<lambda>failures. eret (aborted_text abort_reason failures))
      else ebind (tell_all (logged_send send) (EncodeTxnCommit t) (touched buffer)) (\<lambda>failures.
        eret (committed_text t (length (touched buffer)) failures))) (s, [])"
    by (simp only: RunTransaction_def group_by_shard_eq Let_def keys length_map ebind_def)
  consider (all) s1 where "?run = (Inr (touched buffer, []), (s1, prepare_messages t buffer (touched buffer) True))"
    | (stop) n reason s1 where "n < length (touched buffer)" "reason \<noteq> []"
      "?run = (Inr (take n (touched buffer), reason),
        (s1, prepare_messages t buffer (take n (touched buffer)) True @ prepare_messages t buffer [touched buffer ! n] False))"
    using prepare_all_logged [OF assms, of t buffer "touched buffer" "[]" s "[]"] by auto
  then show ?thesis
  proof cases
    case all
    obtain failures s2 oks where "tell_all (logged_send send) (EncodeTxnCommit t) (touched buffer)
        (s1, prepare_messages t buffer (touched buffer) True) =
      (Inr failures, (s2, prepare_messages t buffer (touched buffer) True @
        map (\<lambda>(sid, b). (sid, EncodeTxnCommit t, b)) (zip (touched buffer) oks)))"
      "length oks = length (touched buffer)" "failures = [] \<longleftrightarrow> (\<forall>b \<in> set oks. b)"
      using tell_all_logged [OF assms, of "EncodeTxnCommit t" "touched buffer" s1 "prepare_messages t buffer (touched buffer) True"]
      by (elim exE conjE) (rule that)
    moreover from this have "RunTransaction (logged_send send) t buffer (s, []) = (Inr (committed_text t (length (touched buffer)) failures),
        (s2, prepare_messages t buffer (touched buffer) True @
          map (\<lambda>(sid, b). (sid, EncodeTxnCommit t, b)) (zip (touched buffer) oks)))"
      unfolding def ebind_def all by simp
    ultimately show ?thesis
      by (intro exI [of _ "committed_text t (length (touched buffer)) failures"] exI [of _ s2] exI conjI disjI1) (rule refl | assumption)+
  next
    case stop
    let ?l = "prepare_messages t buffer (take n (touched buffer)) True @ prepare_messages t buffer [touched buffer ! n] False"
    obtain failures s2 oks where tell: "tell_all (logged_send send) (EncodeTxnAbort t) (take n (touched buffer)) (s1, ?l) =
      (Inr failures, (s2, ?l @ map (\<lambda>(sid, b). (sid, EncodeTxnAbort t, b)) (zip (take n (touched buffer)) oks)))"
      "length oks = length (take n (touched buffer))"
      using tell_all_logged [OF assms, of "EncodeTxnAbort t" "take n (touched buffer)" s1 ?l]
      by (elim exE conjE) (rule that)
    have len: "length oks = n" using tell(2) stop(1) by simp
    have "RunTransaction (logged_send send) t buffer (s, []) = (Inr (aborted_text reason failures),
        (s2, ?l @ map (\<lambda>(sid, b). (sid, EncodeTxnAbort t, b)) (zip (take n (touched buffer)) oks)))"
      unfolding def ebind_def stop(3) using stop(2) tell(1) by simp
    with stop(1) len show ?thesis
      by (intro exI [of _ "aborted_text reason failures"] exI [of _ s2]
          exI [of _ "?l @ map (\<lambda>(sid, b). (sid, EncodeTxnAbort t, b)) (zip (take n (touched buffer)) oks)"] conjI disjI2
          exI [of _ n] exI [of _ oks] exI [of _ reason] exI [of _ failures]) simp_all
  qed
qed

section \<open>Atomicity\<close>

text \<open>Shards that are replicated machines, each with a leader that commits what it is sent: the answer of
  \<^verbatim>\<open>RaftNode::HandleClientRequest\<close> is the text that applying the command gave, empty for success.\<close>

type_synonym shards = "ShardId \<Rightarrow> StateMachine"

definition machine_send :: "ShardId \<Rightarrow> string \<Rightarrow> (shards, ClientResponse) eff" where
  "machine_send sid command M = (case apply_callback command (M sid) of
       (Inl e, m) \<Rightarrow> (Inl e, M(sid := m))
     | (Inr error, m) \<Rightarrow> (Inr \<lparr>crr_success = (error = []), crr_index = 0, crr_not_leader = False, crr_leader_hint = 0,
         crr_error = error\<rparr>, M(sid := m)))"

definition votes_yes :: "TxnPrepare \<Rightarrow> StateMachine \<Rightarrow> bool" where
  "votes_yes p m \<longleftrightarrow> FindStagedDuplicateKey (sm_engine m) (tp_commands p) = Inr [] \<and> set (tp_keys p) \<inter> locked_keys (sm_txns m) = {}"

definition prepared :: "TxnPrepare \<Rightarrow> StateMachine \<Rightarrow> StateMachine" where
  "prepared p m = m\<lparr>sm_txns := \<lparr>pending = omap_set (tp_txn_id p) \<lparr>pd_keys = tp_keys p, pd_commands = tp_commands p\<rparr> (pending (sm_txns m)),
     locked_keys = locked_keys (sm_txns m) \<union> set (tp_keys p)\<rparr>\<rparr>"

definition share_ok :: "TxnPrepare \<Rightarrow> StateMachine \<Rightarrow> bool" where
  "share_ok p m \<longleftrightarrow> machine_ok m \<and> omap_find (tp_txn_id p) (pending (sm_txns m)) = None \<and>
     strings_ok (tp_keys p) \<and> strings_ok (tp_commands p) \<and>
     eng_used (sm_engine m) + ops_cost (fst (commit_ops (tp_commands p) (contents (sm_engine m)))) < eng_cap"

lemma apply_prepare:
  assumes "share_ok p m"
  shows "\<exists>error. apply_callback (EncodeTxnPrepare p) m = (Inr error, if votes_yes p m then prepared p m else m) \<and>
    (error = [] \<longleftrightarrow> votes_yes p m)"
proof -
  let ?c = "\<lparr>tc_type = kPrepare, tc_txn_id = tp_txn_id p, tc_keys = tp_keys p, tc_commands = tp_commands p\<rparr>"
  have dec: "TryDecodeTxnControl (EncodeTxnPrepare p) = Inr (Some ?c)"
    using TryDecodeTxnControl_encode [of ?c] assms by (cases p) (simp add: encode_control_def control_ok_def share_ok_def)
  have none: "omap_find (tp_txn_id p) (pending (sm_txns m)) = None" using assms by (simp add: share_ok_def)
  obtain dup where dup: "FindStagedDuplicateKey (sm_engine m) (tp_commands p) = Inr dup"
    using FindStaged_defined assms by (auto simp: share_ok_def machine_ok_def)
  show ?thesis
  proof (cases "set (tp_keys p) \<inter> locked_keys (sm_txns m) = {}")
    case True
    then have "find (\<lambda>key. key \<in> locked_keys (sm_txns m)) (tp_keys p) = None" by (auto simp: find_None_iff)
    then have "part_Prepare (tp_txn_id p) (tp_keys p) (tp_commands p) (sm_txns m) = ([], sm_txns (prepared p m))"
      by (simp add: part_Prepare_def none prepared_def)
    then show ?thesis using True by (auto simp: apply_callback_def dec apply_control_def dup votes_yes_def prepared_def)
  next
    case False
    then obtain k where "find (\<lambda>key. key \<in> locked_keys (sm_txns m)) (tp_keys p) = Some k"
      by (cases "find (\<lambda>key. key \<in> locked_keys (sm_txns m)) (tp_keys p)") (auto simp: find_None_iff)
    then have "\<exists>e. e \<noteq> [] \<and> part_Prepare (tp_txn_id p) (tp_keys p) (tp_commands p) (sm_txns m) = (e, sm_txns m)"
      by (simp add: part_Prepare_def none)
    then show ?thesis using False by (auto simp: apply_callback_def dec apply_control_def dup votes_yes_def)
  qed
qed

text \<open>Either way the transaction is gone afterwards, with its locks.\<close>

lemma prepared_pending: "omap_find (tp_txn_id p) (pending (sm_txns (prepared p m))) = Some \<lparr>pd_keys = tp_keys p, pd_commands = tp_commands p\<rparr>"
  if "share_ok p m"
  using that by (simp add: prepared_def omap_find_def om.look_upd share_ok_def machine_ok_def part_ok_def)

lemma prepared_released:
  assumes "share_ok p m" and "votes_yes p m"
  shows "part_Abort (tp_txn_id p) (sm_txns (prepared p m)) = ([], sm_txns m)"
proof -
  have ok: "omap_ok (pending (sm_txns m))" "map_of (pending (sm_txns m)) (tp_txn_id p) = None"
    using assms(1) by (simp_all add: share_ok_def machine_ok_def part_ok_def omap_find_def)
  have "omap_erase (tp_txn_id p) (omap_set (tp_txn_id p) v (pending (sm_txns m))) = pending (sm_txns m)" for v
    using ok by (intro omap_ext) (auto simp: om.invar_upd om.invar_del om.look_upd om.look_del fun_eq_iff)
  moreover have "locked_keys (sm_txns m) \<union> set (tp_keys p) - set (tp_keys p) = locked_keys (sm_txns m)"
    using assms(2) by (auto simp: votes_yes_def)
  ultimately show ?thesis
    using prepared_pending [OF assms(1)] by (simp add: part_Abort_def ReleaseLocks_def) (simp add: prepared_def)
qed

lemma apply_abort:
  assumes "share_ok p m" and "votes_yes p m"
  shows "apply_callback (EncodeTxnAbort (tp_txn_id p)) (prepared p m) = (Inr [], m)"
proof -
  let ?c = "\<lparr>tc_type = kAbort, tc_txn_id = tp_txn_id p, tc_keys = [], tc_commands = []\<rparr>"
  have "TryDecodeTxnControl (EncodeTxnAbort (tp_txn_id p)) = Inr (Some ?c)"
    using TryDecodeTxnControl_encode [of ?c] by (simp add: encode_control_def control_ok_def strings_ok_def fits32_def)
  then show ?thesis
    by (simp add: apply_callback_def apply_control_def prepared_released [OF assms]) (simp add: prepared_def)
qed

text \<open>A shard runs the commands of its share one after another, each on what the ones before it left, up to the first that
  throws; its text is the shard's answer, empty when all of them ran.\<close>

definition run_first :: "nat \<Rightarrow> string list \<Rightarrow> kv \<Rightarrow> kv" where
  "run_first n cs m = foldl (\<lambda>m c. foldl kv_apply m (fst (sql_plan c m))) m (take n cs)"

definition share_run :: "string list \<Rightarrow> kv \<Rightarrow> kv \<Rightarrow> string \<Rightarrow> bool" where
  "share_run cs m m' error \<longleftrightarrow>
     (\<forall>i < length cs. \<exists>reply. snd (sql_plan (cs ! i) (run_first i cs m)) = Inr reply) \<and>
       m' = run_first (length cs) cs m \<and> error = [] \<or>
     (\<exists>n < length cs. \<exists>e. (\<forall>i < n. \<exists>reply. snd (sql_plan (cs ! i) (run_first i cs m)) = Inr reply) \<and>
       snd (sql_plan (cs ! n) (run_first n cs m)) = Inl e \<and> m' = run_first (Suc n) cs m \<and> error = what e)"

definition commit_error :: "string list \<Rightarrow> kv \<Rightarrow> string" where
  "commit_error cs m = (case snd (commit_ops cs m) of Inl e \<Rightarrow> what e | Inr _ \<Rightarrow> [])"

lemma run_first_0 [simp]: "run_first 0 cs m = m"
  by (simp add: run_first_def)

lemma run_first_Suc [simp]: "run_first (Suc n) (c # cs) m = run_first n cs (foldl kv_apply m (fst (sql_plan c m)))"
  by (simp add: run_first_def)

lemma share_run_Cons:
  assumes "snd (sql_plan c m) = Inr reply" and "share_run cs (foldl kv_apply m (fst (sql_plan c m))) m' error"
  shows "share_run (c # cs) m m' error"
  using assms(2) unfolding share_run_def
proof (elim disjE exE conjE)
  assume *: "\<forall>i < length cs. \<exists>reply. snd (sql_plan (cs ! i) (run_first i cs (foldl kv_apply m (fst (sql_plan c m))))) = Inr reply"
    "m' = run_first (length cs) cs (foldl kv_apply m (fst (sql_plan c m)))" "error = []"
  have "\<exists>reply. snd (sql_plan ((c # cs) ! i) (run_first i (c # cs) m)) = Inr reply" if "i < length (c # cs)" for i
    using that * assms(1) by (cases i) auto
  with * show "(\<forall>i < length (c # cs). \<exists>reply. snd (sql_plan ((c # cs) ! i) (run_first i (c # cs) m)) = Inr reply) \<and>
       m' = run_first (length (c # cs)) (c # cs) m \<and> error = [] \<or>
     (\<exists>n < length (c # cs). \<exists>e. (\<forall>i < n. \<exists>reply. snd (sql_plan ((c # cs) ! i) (run_first i (c # cs) m)) = Inr reply) \<and>
       snd (sql_plan ((c # cs) ! n) (run_first n (c # cs) m)) = Inl e \<and> m' = run_first (Suc n) (c # cs) m \<and> error = what e)"
    by simp
next
  fix n e
  assume *: "n < length cs" "\<forall>i < n. \<exists>reply. snd (sql_plan (cs ! i) (run_first i cs (foldl kv_apply m (fst (sql_plan c m))))) = Inr reply"
    "snd (sql_plan (cs ! n) (run_first n cs (foldl kv_apply m (fst (sql_plan c m))))) = Inl e"
    "m' = run_first (Suc n) cs (foldl kv_apply m (fst (sql_plan c m)))" "error = what e"
  have "\<exists>reply. snd (sql_plan ((c # cs) ! i) (run_first i (c # cs) m)) = Inr reply" if "i < Suc n" for i
    using that * assms(1) by (cases i) auto
  with * show "(\<forall>i < length (c # cs). \<exists>reply. snd (sql_plan ((c # cs) ! i) (run_first i (c # cs) m)) = Inr reply) \<and>
       m' = run_first (length (c # cs)) (c # cs) m \<and> error = [] \<or>
     (\<exists>n < length (c # cs). \<exists>e. (\<forall>i < n. \<exists>reply. snd (sql_plan ((c # cs) ! i) (run_first i (c # cs) m)) = Inr reply) \<and>
       snd (sql_plan ((c # cs) ! n) (run_first n (c # cs) m)) = Inl e \<and> m' = run_first (Suc n) (c # cs) m \<and> error = what e)"
    by (intro disjI2 exI [of _ "Suc n"] conjI exI [of _ e]) simp_all
qed

lemma commit_share_run: "share_run cs m (foldl kv_apply m (fst (commit_ops cs m))) (commit_error cs m)"
proof (induction cs arbitrary: m)
  case (Cons c cs)
  obtain ops r where p: "sql_plan c m = (ops, r)" by (cases "sql_plan c m")
  show ?case
  proof (cases r)
    case (Inl e)
    then show ?thesis unfolding share_run_def by (intro disjI2 exI [of _ 0] conjI exI [of _ e]) (simp_all add: p commit_error_def)
  next
    case (Inr reply)
    obtain ops' r' where q: "commit_ops cs (foldl kv_apply m ops) = (ops', r')" by (cases "commit_ops cs (foldl kv_apply m ops)")
    have "share_run cs (foldl kv_apply m ops) (foldl kv_apply (foldl kv_apply m ops) ops') (commit_error (c # cs) m)"
      using Cons.IH [of "foldl kv_apply m ops"] by (simp add: q p Inr commit_error_def)
    with Inr show ?thesis by (intro share_run_Cons) (simp_all add: p q)
  qed
qed (simp add: share_run_def commit_error_def)

lemma apply_commit:
  assumes "share_ok p m" and "votes_yes p m"
  shows "\<exists>e. apply_callback (EncodeTxnCommit (tp_txn_id p)) (prepared p m) =
      (Inr (commit_error (tp_commands p) (contents (sm_engine m))), m\<lparr>sm_engine := e\<rparr>) \<and>
    contents e = foldl kv_apply (contents (sm_engine m)) (fst (commit_ops (tp_commands p) (contents (sm_engine m))))"
proof -
  let ?m = "prepared p m" let ?c = "EncodeTxnCommit (tp_txn_id p)"
  have eng: "sm_engine ?m = sm_engine m" by (simp add: prepared_def)
  have runs: "command_runs ?c ?m = tp_commands p"
    by (simp add: command_runs_def staged_decode prepared_pending [OF assms(1)])
  have ok: "eng_ok (sm_engine ?m)" "has_room ?c ?m"
    using assms(1) unfolding has_room_def runs by (simp_all add: eng share_ok_def machine_ok_def)
  let ?r = "snd (commit_ops (tp_commands p) (contents (sm_engine m)))"
  have "ops_cost (fst (commit_ops (tp_commands p) (contents (sm_engine m)))) < 2 ^ 32"
    using assms(1) by (simp add: share_ok_def eng_cap_def)
  then have "rbind ?r (\<lambda>_. Inr []) \<noteq> (Inl Undefined :: string res)"
    using commit_ops_safe assms(1) by (auto simp: share_ok_def machine_ok_def rbind_Inl_iff)
  then have "error_text (rbind ?r (\<lambda>_. Inr [])) = Inr (commit_error (tp_commands p) (contents (sm_engine m)))"
    by (auto simp: error_text_def commit_error_def rbind_def split: sum.split exn.split)
  then have "step_result ?c ?m = (Inr (commit_error (tp_commands p) (contents (sm_engine m))), sm_txns m)"
    by (simp add: step_result_def runs eng staged_decode prepared_pending [OF assms(1)] prepared_released [OF assms])
  with apply_callback_spec [OF ok] obtain e where e: "apply_callback ?c ?m =
      (Inr (commit_error (tp_commands p) (contents (sm_engine m))), \<lparr>sm_engine = e, sm_txns = sm_txns m\<rparr>)"
    "contents e = foldl kv_apply (contents (sm_engine m)) (fst (commit_ops (tp_commands p) (contents (sm_engine m))))"
    by (auto simp: runs eng)
  have "\<lparr>sm_engine = e, sm_txns = sm_txns m\<rparr> = m\<lparr>sm_engine := e\<rparr>" by simp
  with e show ?thesis by metis
qed

definition prepare_on :: "TxnId \<Rightarrow> BufferedTxnStatement list \<Rightarrow> ShardId list \<Rightarrow> shards \<Rightarrow> shards" where
  "prepare_on t buffer sids M = (\<lambda>sid. if sid \<in> set sids then prepared (share t buffer sid) (M sid) else M sid)"

lemma share_txn [simp]: "tp_txn_id (share t buffer sid) = t"
  by (simp add: share_def Let_def)

lemma prepare_on_Nil [simp]: "prepare_on t buffer [] M = M"
  by (simp add: prepare_on_def)

lemma prepare_on_Cons:
  "sid \<notin> set sids \<Longrightarrow>
    prepare_on t buffer sids (M(sid := prepared (share t buffer sid) (M sid))) = prepare_on t buffer (sid # sids) M"
  by (auto simp: prepare_on_def)

lemma try_prepare_machine:
  assumes "share_ok (share t buffer sid) (M sid)"
  shows "if votes_yes (share t buffer sid) (M sid)
    then try_send machine_send sid (EncodeTxnPrepare (share t buffer sid)) M = (Inr None, M(sid := prepared (share t buffer sid) (M sid)))
    else \<exists>reason. reason \<noteq> [] \<and> try_send machine_send sid (EncodeTxnPrepare (share t buffer sid)) M = (Inr (Some reason), M)"
proof -
  obtain error where "apply_callback (EncodeTxnPrepare (share t buffer sid)) (M sid) =
      (Inr error, if votes_yes (share t buffer sid) (M sid) then prepared (share t buffer sid) (M sid) else M sid)"
    "error = [] \<longleftrightarrow> votes_yes (share t buffer sid) (M sid)"
    using apply_prepare [OF assms] by blast
  then show ?thesis
    by (auto simp: try_send_def ecatch_def ebind_def machine_send_def shard_failure_def)
qed

lemma prepare_all_machines:
  assumes "distinct sids" and "\<forall>sid \<in> set sids. share_ok (share t buffer sid) (M sid)"
  shows "(\<forall>sid \<in> set sids. votes_yes (share t buffer sid) (M sid)) \<and>
      prepare_all machine_send (map (\<lambda>sid. (sid, share t buffer sid)) sids) done_before M =
        (Inr (done_before @ sids, []), prepare_on t buffer sids M) \<or>
    (\<exists>n < length sids. \<exists>reason. reason \<noteq> [] \<and> \<not> votes_yes (share t buffer (sids ! n)) (M (sids ! n)) \<and>
      (\<forall>sid \<in> set (take n sids). votes_yes (share t buffer sid) (M sid)) \<and>
      prepare_all machine_send (map (\<lambda>sid. (sid, share t buffer sid)) sids) done_before M =
        (Inr (done_before @ take n sids, reason), prepare_on t buffer (take n sids) M))"
  using assms
proof (induction sids arbitrary: done_before M)
  case (Cons sid sids)
  let ?p = "share t buffer sid" let ?M = "M(sid := prepared ?p (M sid))"
  have ok: "share_ok ?p (M sid)" using Cons.prems(2) by simp
  show ?case
  proof (cases "votes_yes ?p (M sid)")
    case False
    then obtain reason where "reason \<noteq> []" "try_send machine_send sid (EncodeTxnPrepare ?p) M = (Inr (Some reason), M)"
      using try_prepare_machine [where M = M, OF ok] by auto
    then show ?thesis using False by (intro disjI2 exI [of _ 0] conjI exI [of _ reason]) simp_all
  next
    case True
    then have send: "try_send machine_send sid (EncodeTxnPrepare ?p) M = (Inr None, ?M)" using try_prepare_machine [where M = M, OF ok] by simp
    have other: "?M s = M s" if "s \<in> set sids" for s using that Cons.prems(1) by auto
    have "distinct sids" "\<forall>sid \<in> set sids. share_ok (share t buffer sid) (?M sid)"
      using Cons.prems by auto
    from Cons.IH [OF this, of "done_before @ [sid]"] show ?thesis
    proof
      assume "(\<forall>sid \<in> set sids. votes_yes (share t buffer sid) (?M sid)) \<and>
        prepare_all machine_send (map (\<lambda>sid. (sid, share t buffer sid)) sids) (done_before @ [sid]) ?M =
          (Inr ((done_before @ [sid]) @ sids, []), prepare_on t buffer sids ?M)"
      then show ?thesis using send True Cons.prems(1) other by (intro disjI1) (simp add: prepare_on_Cons)
    next
      assume "\<exists>n < length sids. \<exists>reason. reason \<noteq> [] \<and> \<not> votes_yes (share t buffer (sids ! n)) (?M (sids ! n)) \<and>
        (\<forall>sid \<in> set (take n sids). votes_yes (share t buffer sid) (?M sid)) \<and>
        prepare_all machine_send (map (\<lambda>sid. (sid, share t buffer sid)) sids) (done_before @ [sid]) ?M =
          (Inr ((done_before @ [sid]) @ take n sids, reason), prepare_on t buffer (take n sids) ?M)"
      then obtain n reason where n: "n < length sids" "reason \<noteq> []" "\<not> votes_yes (share t buffer (sids ! n)) (?M (sids ! n))"
        "\<forall>sid \<in> set (take n sids). votes_yes (share t buffer sid) (?M sid)"
        "prepare_all machine_send (map (\<lambda>sid. (sid, share t buffer sid)) sids) (done_before @ [sid]) ?M =
          (Inr ((done_before @ [sid]) @ take n sids, reason), prepare_on t buffer (take n sids) ?M)" by blast
      have "sid \<notin> set (take n sids)" using Cons.prems(1) by (auto dest: in_set_takeD)
      moreover have "\<forall>s \<in> set (take n sids). votes_yes (share t buffer s) (M s)" using n(4) other by (metis in_set_takeD)
      moreover have "sids ! n \<in> set sids" using n(1) by simp
      ultimately show ?thesis using n(1-3,5) send True other
        by (intro disjI2 exI [of _ "Suc n"] conjI exI [of _ reason]) (auto simp: prepare_on_Cons dest: in_set_takeD)
    qed
  qed
qed simp

lemma tell_all_machines:
  assumes "distinct sids" and "\<forall>sid \<in> set sids. apply_callback c (M sid) = (Inr (err sid), f sid)"
  shows "tell_all machine_send c sids M = (Inr (map (\<lambda>sid. shard_failure sid (err sid)) (filter (\<lambda>sid. err sid \<noteq> []) sids)),
    \<lambda>sid. if sid \<in> set sids then f sid else M sid)"
  using assms
proof (induction sids arbitrary: M)
  case (Cons sid sids)
  have r: "try_send machine_send sid c M = (Inr (if err sid = [] then None else Some (shard_failure sid (err sid))), M(sid := f sid))"
    using Cons.prems(2) by (simp add: try_send_def ecatch_def ebind_def machine_send_def)
  have "distinct sids" "\<forall>s \<in> set sids. apply_callback c ((M(sid := f sid)) s) = (Inr (err s), f s)"
    using Cons.prems by auto
  note Cons.IH [where M = "M(sid := f sid)", OF this]
  moreover have "(\<lambda>s. if s \<in> set sids then f s else (M(sid := f sid)) s) = (\<lambda>s. if s \<in> set (sid # sids) then f s else M s)"
    by auto
  ultimately show ?case using r by (simp add: fun_upd_def)
qed simp

text \<open>The shards after every one of them has committed, and after those that prepared have aborted.\<close>

definition committed_share :: "TxnId \<Rightarrow> BufferedTxnStatement list \<Rightarrow> ShardId \<Rightarrow> StateMachine \<Rightarrow> StateMachine \<Rightarrow> bool" where
  "committed_share t buffer sid m m' \<longleftrightarrow> sm_txns m' = sm_txns m \<and> contents (sm_engine m') =
     foldl kv_apply (contents (sm_engine m)) (fst (commit_ops (tp_commands (share t buffer sid)) (contents (sm_engine m))))"

definition share_error :: "TxnId \<Rightarrow> BufferedTxnStatement list \<Rightarrow> shards \<Rightarrow> ShardId \<Rightarrow> string" where
  "share_error t buffer M sid = commit_error (tp_commands (share t buffer sid)) (contents (sm_engine (M sid)))"

definition failed_shares :: "(ShardId \<Rightarrow> string) \<Rightarrow> ShardId list \<Rightarrow> string list" where
  "failed_shares err sids = map (\<lambda>sid. shard_failure sid (err sid)) (filter (\<lambda>sid. err sid \<noteq> []) sids)"

lemma commit_shares:
  assumes "distinct sids" and "\<forall>sid \<in> set sids. share_ok (share t buffer sid) (M sid) \<and> votes_yes (share t buffer sid) (M sid)"
  shows "\<exists>M'. tell_all machine_send (EncodeTxnCommit t) sids (prepare_on t buffer sids M) =
      (Inr (failed_shares (share_error t buffer M) sids), M') \<and>
    (\<forall>sid \<in> set sids. committed_share t buffer sid (M sid) (M' sid)) \<and> (\<forall>sid. sid \<notin> set sids \<longrightarrow> M' sid = M sid)"
proof -
  have "\<forall>sid \<in> set sids. \<exists>m. apply_callback (EncodeTxnCommit t) (prepare_on t buffer sids M sid) = (Inr (share_error t buffer M sid), m) \<and>
      committed_share t buffer sid (M sid) m"
  proof
    fix sid assume sid: "sid \<in> set sids"
    then obtain e where "apply_callback (EncodeTxnCommit t) (prepared (share t buffer sid) (M sid)) =
        (Inr (share_error t buffer M sid), (M sid)\<lparr>sm_engine := e\<rparr>)"
      "contents e = foldl kv_apply (contents (sm_engine (M sid)))
        (fst (commit_ops (tp_commands (share t buffer sid)) (contents (sm_engine (M sid)))))"
      using apply_commit [of "share t buffer sid" "M sid"] assms(2) by (auto simp: share_error_def)
    with sid show "\<exists>m. apply_callback (EncodeTxnCommit t) (prepare_on t buffer sids M sid) = (Inr (share_error t buffer M sid), m) \<and>
        committed_share t buffer sid (M sid) m"
      by (intro exI [of _ "(M sid)\<lparr>sm_engine := e\<rparr>"]) (simp add: prepare_on_def committed_share_def)
  qed
  then obtain f where f: "\<forall>sid \<in> set sids. apply_callback (EncodeTxnCommit t) (prepare_on t buffer sids M sid) =
      (Inr (share_error t buffer M sid), f sid) \<and> committed_share t buffer sid (M sid) (f sid)"
    by metis
  then have "tell_all machine_send (EncodeTxnCommit t) sids (prepare_on t buffer sids M) =
      (Inr (failed_shares (share_error t buffer M) sids), \<lambda>sid. if sid \<in> set sids then f sid else prepare_on t buffer sids M sid)"
    unfolding failed_shares_def by (intro tell_all_machines [OF assms(1)]) simp
  with f show ?thesis
    by (intro exI [of _ "\<lambda>sid. if sid \<in> set sids then f sid else prepare_on t buffer sids M sid"] conjI)
      (simp_all add: prepare_on_def)
qed

lemma abort_shares:
  assumes "distinct sids" and "\<forall>sid \<in> set sids. share_ok (share t buffer sid) (M sid) \<and> votes_yes (share t buffer sid) (M sid)"
  shows "tell_all machine_send (EncodeTxnAbort t) sids (prepare_on t buffer sids M) = (Inr [], M)"
proof -
  have "\<forall>sid \<in> set sids. apply_callback (EncodeTxnAbort t) (prepare_on t buffer sids M sid) = (Inr [], M sid)"
    using apply_abort [of "share t buffer sid" "M sid" for sid] assms(2) by (simp add: prepare_on_def)
  then have "tell_all machine_send (EncodeTxnAbort t) sids (prepare_on t buffer sids M) =
      (Inr [], \<lambda>sid. if sid \<in> set sids then M sid else prepare_on t buffer sids M sid)"
    using tell_all_machines [OF assms(1), of "EncodeTxnAbort t" "prepare_on t buffer sids M" "\<lambda>_. []" M] by auto
  moreover have "(\<lambda>sid. if sid \<in> set sids then M sid else prepare_on t buffer sids M sid) = M"
    by (auto simp: prepare_on_def)
  ultimately show ?thesis by auto
qed

text \<open>C4. Over shards that commit what they are sent, on which no transaction of the same number is pending and which have
  room for their shares, the decision is one for all of them.  When every touched shard votes for the transaction (none of
  its keys is locked there and no INSERT of its share finds its key taken), every touched shard is told to commit: it
  runs the statements of its share in the order they were buffered, each on what the ones before it left, up to the
  first that throws, whose text it answers and after which it runs no more of the share; nothing that was run is undone,
  and the answer of the transaction names exactly the shards that stopped so.  No other shard changes.  When any shard
  votes against it, no shard changes at all, and the answer says that the transaction was aborted.  Either way every
  lock that was taken is released and nothing stays staged.\<close>

theorem transaction_atomic:
  assumes "\<forall>sid \<in> set (touched buffer). share_ok (share t buffer sid) (M sid)"
  shows "\<exists>msg M'. RunTransaction machine_send t buffer M = (Inr msg, M') \<and>
    (if \<forall>sid \<in> set (touched buffer). votes_yes (share t buffer sid) (M sid)
     then (\<exists>err. (\<forall>sid \<in> set (touched buffer). sm_txns (M' sid) = sm_txns (M sid) \<and>
           share_run (tp_commands (share t buffer sid)) (contents (sm_engine (M sid))) (contents (sm_engine (M' sid))) (err sid)) \<and>
         msg = committed_text t (length (touched buffer)) (failed_shares err (touched buffer))) \<and>
       (\<forall>sid \<in> set (touched buffer). contents (sm_engine (M' sid)) =
         foldl kv_apply (contents (sm_engine (M sid)))
           (fst (commit_ops (tp_commands (share t buffer sid)) (contents (sm_engine (M sid)))))) \<and>
       (\<forall>sid. sid \<notin> set (touched buffer) \<longrightarrow> M' sid = M sid)
     else M' = M \<and> (\<exists>reason. reason \<noteq> [] \<and> msg = aborted_text reason []))"
proof -
  let ?ts = "touched buffer" let ?yes = "\<lambda>sid. votes_yes (share t buffer sid) (M sid)"
  let ?decide = "\<lambda>(prepared_shards, abort_reason).
      if abort_reason \<noteq> []
      then ebind (tell_all machine_send (EncodeTxnAbort t) prepared_shards) (\<lambda>failures. eret (aborted_text abort_reason failures))
      else ebind (tell_all machine_send (EncodeTxnCommit t) ?ts) (\<lambda>failures. eret (committed_text t (length ?ts) failures))"
  have keys: "map fst (map (\<lambda>sid. (sid, share t buffer sid)) ?ts) = ?ts" by (simp add: comp_def)
  have run: "RunTransaction machine_send t buffer = ebind (prepare_all machine_send (map (\<lambda>sid. (sid, share t buffer sid)) ?ts) []) ?decide"
    by (simp only: RunTransaction_def group_by_shard_eq Let_def keys length_map)
  have dist: "distinct ?ts" by (simp add: touched_def)
  show ?thesis
    using prepare_all_machines [where M = M, OF dist assms, of "[]"]
  proof (elim disjE exE conjE)
    assume yes: "\<forall>sid \<in> set ?ts. ?yes sid"
      and prep: "prepare_all machine_send (map (\<lambda>sid. (sid, share t buffer sid)) ?ts) [] M = (Inr ([] @ ?ts, []), prepare_on t buffer ?ts M)"
    let ?err = "share_error t buffer M"
    obtain M' where M': "tell_all machine_send (EncodeTxnCommit t) ?ts (prepare_on t buffer ?ts M) = (Inr (failed_shares ?err ?ts), M')"
      "\<forall>sid \<in> set ?ts. committed_share t buffer sid (M sid) (M' sid)" "\<forall>sid. sid \<notin> set ?ts \<longrightarrow> M' sid = M sid"
      using commit_shares [OF dist, where M = M] assms yes by blast
    have "RunTransaction machine_send t buffer M = (Inr (committed_text t (length ?ts) (failed_shares ?err ?ts)), M')"
      unfolding run using prep M'(1) by simp
    moreover have "\<forall>sid \<in> set ?ts. sm_txns (M' sid) = sm_txns (M sid) \<and>
        share_run (tp_commands (share t buffer sid)) (contents (sm_engine (M sid))) (contents (sm_engine (M' sid))) (?err sid)"
      using M'(2) commit_share_run by (simp add: committed_share_def share_error_def)
    ultimately show ?thesis using M'(2,3) unfolding committed_share_def if_P [OF yes]
      by (intro exI [of _ "committed_text t (length ?ts) (failed_shares ?err ?ts)"] exI [of _ M'] exI [of _ ?err] conjI) simp_all
  next
    fix n reason
    assume n: "n < length ?ts" "reason \<noteq> []" "\<not> ?yes (?ts ! n)" "\<forall>sid \<in> set (take n ?ts). ?yes sid"
      and prep: "prepare_all machine_send (map (\<lambda>sid. (sid, share t buffer sid)) ?ts) [] M =
        (Inr ([] @ take n ?ts, reason), prepare_on t buffer (take n ?ts) M)"
    have "distinct (take n ?ts)" "\<forall>sid \<in> set (take n ?ts). share_ok (share t buffer sid) (M sid) \<and> ?yes sid"
      using dist assms n(4) by (auto dest: in_set_takeD)
    from abort_shares [where M = M, OF this] have "RunTransaction machine_send t buffer M = (Inr (aborted_text reason []), M)"
      unfolding run using prep n(2) by simp
    moreover have "\<not> (\<forall>sid \<in> set ?ts. ?yes sid)" using n(1,3) nth_mem by blast
    ultimately show ?thesis using n(2) by (simp only: if_False) blast
  qed
qed

section \<open>A vote that is lost\<close>

text \<open>One shard prepares, but its answer does not arrive (a timeout of the coordinator).\<close>

definition lossy_send :: "ShardId \<Rightarrow> ShardId \<Rightarrow> string \<Rightarrow> (shards, ClientResponse) eff" where
  "lossy_send mute sid command M = (case machine_send sid command M of (r, M') \<Rightarrow>
     (if sid = mute then Inr (client_failed 0 ''timed out'') else r, M'))"

lemma try_send_lossy: "sid \<noteq> mute \<Longrightarrow> try_send (lossy_send mute) sid c = try_send machine_send sid c"
proof -
  assume "sid \<noteq> mute"
  then have "lossy_send mute sid c = machine_send sid c" by (rule_tac ext) (simp add: lossy_send_def split: prod.split)
  then show ?thesis by (simp add: try_send_def)
qed

lemma tell_all_lossy: "mute \<notin> set sids \<Longrightarrow> tell_all (lossy_send mute) c sids = tell_all machine_send c sids"
  by (induction sids) (auto simp: try_send_lossy)

lemma prepare_all_lossy:
  assumes "distinct (sids @ [mute])"
    and "\<forall>sid \<in> set (sids @ [mute]). share_ok (share t buffer sid) (M sid) \<and> votes_yes (share t buffer sid) (M sid)"
  shows "prepare_all (lossy_send mute) (map (\<lambda>sid. (sid, share t buffer sid)) (sids @ mute # rest)) done_before M =
      (Inr (done_before @ sids, shard_failure mute ''timed out''), prepare_on t buffer (sids @ [mute]) M)"
  using assms
proof (induction sids arbitrary: done_before M)
  case Nil
  then have "try_send machine_send mute (EncodeTxnPrepare (share t buffer mute)) M =
      (Inr None, M(mute := prepared (share t buffer mute) (M mute)))"
    using try_prepare_machine [where M = M and sid = mute and t = t and buffer = buffer] by simp
  then obtain resp where "machine_send mute (EncodeTxnPrepare (share t buffer mute)) M =
      (Inr resp, M(mute := prepared (share t buffer mute) (M mute)))"
    by (auto simp: try_send_def ecatch_def ebind_def split: prod.splits sum.splits if_splits)
  then have "try_send (lossy_send mute) mute (EncodeTxnPrepare (share t buffer mute)) M =
      (Inr (Some (shard_failure mute ''timed out'')), M(mute := prepared (share t buffer mute) (M mute)))"
    by (simp add: try_send_def ecatch_def lossy_send_def client_failed_def)
  moreover have "prepare_on t buffer [mute] M = M(mute := prepared (share t buffer mute) (M mute))"
    by (auto simp: prepare_on_def)
  ultimately show ?case by (simp add: fun_upd_def)
next
  case (Cons sid sids)
  let ?M = "M(sid := prepared (share t buffer sid) (M sid))"
  have "try_send (lossy_send mute) sid (EncodeTxnPrepare (share t buffer sid)) M = (Inr None, ?M)"
    using Cons.prems try_prepare_machine [where M = M and sid = sid and t = t and buffer = buffer]
    by (simp add: try_send_lossy)
  moreover have dist: "distinct (sids @ [mute])"
    and votes: "\<forall>s \<in> set (sids @ [mute]). share_ok (share t buffer s) (?M s) \<and> votes_yes (share t buffer s) (?M s)"
    using Cons.prems by auto
  note Cons.IH [where M = ?M and done_before = "done_before @ [sid]", OF dist votes]
  moreover have "prepare_on t buffer (sids @ [mute]) ?M = prepare_on t buffer ((sid # sids) @ [mute]) M"
    using prepare_on_Cons [of sid "sids @ [mute]" t buffer M] Cons.prems(1) by simp
  ultimately show ?case by (simp add: fun_upd_def)
qed

text \<open>C40. When a touched shard votes for the transaction but its answer is lost, and the shards that were asked before it
  voted for it, the transaction is reported as aborted, naming that shard; those asked before it are told and released,
  those after it are never asked, and the shard itself is never told: it keeps the locks of its share and the staged
  commands.  This holds wherever the shard comes in the order of the touched shards, whatever those after it hold.\<close>

theorem lost_vote_keeps_locks:
  assumes "touched buffer = sids @ mute # rest"
    and "\<forall>sid \<in> set (sids @ [mute]). share_ok (share t buffer sid) (M sid) \<and> votes_yes (share t buffer sid) (M sid)"
  shows "RunTransaction (lossy_send mute) t buffer M =
    (Inr (aborted_text (shard_failure mute ''timed out'') []), M(mute := prepared (share t buffer mute) (M mute)))"
proof -
  have "distinct (sids @ mute # rest)" using assms(1) unfolding touched_def by (metis distinct_sorted_list_of_set)
  then have dist: "distinct (sids @ [mute])" by auto
  let ?M = "M(mute := prepared (share t buffer mute) (M mute))"
  have M: "prepare_on t buffer (sids @ [mute]) M = prepare_on t buffer sids ?M"
    using dist by (auto simp: prepare_on_def)
  have "\<forall>sid \<in> set sids. share_ok (share t buffer sid) (?M sid) \<and> votes_yes (share t buffer sid) (?M sid)"
    using assms dist by auto
  then have "tell_all (lossy_send mute) (EncodeTxnAbort t) sids (prepare_on t buffer sids ?M) = (Inr [], ?M)"
    using abort_shares [where M = ?M and t = t and buffer = buffer, of sids] dist tell_all_lossy [of mute sids] by auto
  with prepare_all_lossy [where M = M and rest = rest and done_before = "[]", OF dist assms(2)] show ?thesis
    unfolding RunTransaction_def group_by_shard_eq assms(1) Let_def M by (simp add: shard_failure_def)
qed

section \<open>Witnesses\<close>

text \<open>Two shards on empty stores; the first holds a lock in the second transaction.\<close>

definition two_statements :: "BufferedTxnStatement list" where
  "two_statements = [\<lparr>bs_shard = 2, bs_key = ''b'', bs_sql = ''CREATE DATABASE d''\<rparr>,
     \<lparr>bs_shard = 1, bs_key = ''r'', bs_sql = ''CREATE DATABASE d''\<rparr>]"

lemma two_touched: "touched two_statements = [1, 2]"
  by (simp add: touched_def two_statements_def word_le_nat_alt)

definition empty_machine :: StateMachine where
  "empty_machine = \<lparr>sm_engine = eng_empty, sm_txns = part_empty\<rparr>"

lemma two_shares:
  "share 7 two_statements 1 = \<lparr>tp_txn_id = 7, tp_keys = [''r''], tp_commands = [''CREATE DATABASE d'']\<rparr>"
  "share 7 two_statements 2 = \<lparr>tp_txn_id = 7, tp_keys = [''b''], tp_commands = [''CREATE DATABASE d'']\<rparr>"
  by (simp_all add: share_def two_statements_def)

lemma two_shares_ok: "\<forall>sid \<in> set (touched two_statements). share_ok (share 7 two_statements sid) ((\<lambda>_. empty_machine) sid)"
  using example_machine_ok
  by (simp add: two_touched two_shares share_ok_def empty_machine_def contents_empty staged_ops part_empty_def omap_find_def
      strings_ok_def fits32_def eng_cap_def put_cost_def del: commit_ops.simps(2))

lemma two_votes: "\<forall>sid \<in> set (touched two_statements). votes_yes (share 7 two_statements sid) ((\<lambda>_. empty_machine) sid)"
  by (simp add: two_touched two_shares votes_yes_def empty_machine_def staged_parse part_empty_def)

theorem transaction_atomic_witness:
  "\<exists>msg M'. RunTransaction machine_send 7 two_statements (\<lambda>_. empty_machine) = (Inr msg, M') \<and>
     contents (sm_engine (M' 1)) = [(''__database__/d'', [])] \<and> contents (sm_engine (M' 2)) = [(''__database__/d'', [])] \<and>
     contents (sm_engine (M' 3)) = []"
proof -
  have "fst (commit_ops [''CREATE DATABASE d''] (contents (sm_engine empty_machine))) = [OpPut ''__database__/d'' []]"
    by (simp add: empty_machine_def contents_empty staged_ops del: commit_ops.simps(2))
  moreover have "contents (sm_engine empty_machine) = []" by (simp add: empty_machine_def contents_empty)
  ultimately show ?thesis
    using transaction_atomic [OF two_shares_ok] two_votes
    by (auto simp: two_touched two_shares omap_set_def simp del: commit_ops.simps(2))
qed

text \<open>A network on which the second shard refuses.\<close>

definition second_refuses :: "ShardId \<Rightarrow> string \<Rightarrow> (unit, ClientResponse) eff" where
  "second_refuses sid command = eret \<lparr>crr_success = (sid \<noteq> 2), crr_index = 0, crr_not_leader = False, crr_leader_hint = 0,
     crr_error = ''no''\<rparr>"

theorem two_phase_messages_witness:
  "\<exists>msg s' l. RunTransaction (logged_send second_refuses) 7 two_statements ((), []) = (Inr msg, (s', l)) \<and>
     fst (hd l) = 1"
proof -
  have "send_defined second_refuses" by (simp add: send_defined_def second_refuses_def)
  from two_phase_messages [OF this, of 7 two_statements "()"] obtain msg s' l where
    run: "RunTransaction (logged_send second_refuses) 7 two_statements ((), []) = (Inr msg, (s', l))" and
    l: "(\<exists>oks. l = prepare_messages 7 two_statements (touched two_statements) True @ oks) \<or>
      (\<exists>n < length (touched two_statements). \<exists>oks. l = prepare_messages 7 two_statements (take n (touched two_statements)) True @
        prepare_messages 7 two_statements [touched two_statements ! n] False @ oks)"
    by (elim exE conjE disjE) (rule that, assumption, blast)+
  have "fst (hd l) = 1" using l by (auto simp: two_touched prepare_messages_def less_Suc_eq)
  with run show ?thesis by blast
qed


theorem lost_vote_keeps_locks_witness:
  "\<exists>M'. RunTransaction (lossy_send 1) 7 two_statements (\<lambda>_. empty_machine) =
      (Inr (aborted_text (shard_failure 1 ''timed out'') []), M') \<and>
     locked_keys (sm_txns (M' 1)) = {''r''} \<and> locked_keys (sm_txns (M' 2)) = {}"
proof -
  have "touched two_statements = [] @ 1 # [2]" by (simp add: two_touched)
  moreover have "\<forall>sid \<in> set ([] @ [1]). share_ok (share 7 two_statements sid) ((\<lambda>_. empty_machine) sid) \<and>
      votes_yes (share 7 two_statements sid) ((\<lambda>_. empty_machine) sid)"
    using two_shares_ok two_votes by (simp add: two_touched)
  ultimately have "RunTransaction (lossy_send 1) 7 two_statements (\<lambda>_. empty_machine) =
    (Inr (aborted_text (shard_failure 1 ''timed out'') []), (\<lambda>_. empty_machine)(1 := prepared (share 7 two_statements 1) empty_machine))"
    by (rule lost_vote_keeps_locks)
  then show ?thesis
    by (intro exI conjI, assumption) (simp_all add: prepared_def two_shares empty_machine_def part_empty_def)
qed

end
