(* ===== verification/Shell.thy ===== *)
theory Shell
  imports Two_Phase
begin

text \<open>
  The read-eval-print loop of \<^verbatim>\<open>src/raft_main.cpp\<close>: statements that one shard owns are routed to it, the others are
  broadcast to every shard or gathered from every shard, and the writes of a transaction are buffered until \<^verbatim>\<open>commit\<close>.
  The text a line prints is the value of its step; the elapsed time printed after a statement is left out.  Shown:
  inside a transaction nothing is sent or executed, and what is buffered is routed to the shard that owns its row; a
  broadcast reaches every shard once; the merge of what the shards answer is the answer of one table, but for rows
  whose line is empty or \<^verbatim>\<open>(0 rows)\<close>.
\<close>

section \<open>Printing\<close>

definition RoleName :: "Role \<Rightarrow> string" where
  "RoleName r = (case r of Follower \<Rightarrow> ''follower'' | Candidate \<Rightarrow> ''candidate'' | Leader \<Rightarrow> ''leader'')"

definition PrintClientResponse :: "ClientResponse \<Rightarrow> string" where
  "PrintClientResponse resp =
     (if crr_success resp
      then ''OK (committed at index '' @ to_string (crr_index resp) @ '', via leader node '' @
        to_string (unat (crr_leader_hint resp)) @ '')'' @ [newline]
      else ''FAILED'' @
        (if crr_not_leader resp \<and> crr_leader_hint resp \<noteq> 0
         then '' (best known leader is node '' @ to_string (unat (crr_leader_hint resp)) @ '', but still failed'' @
           (if crr_error resp \<noteq> [] then '': '' @ crr_error resp else []) @ '' - retry)''
         else if crr_error resp \<noteq> [] then '' ('' @ crr_error resp @ '')'' else []) @ [newline])"

definition PrintHelp :: string where
  "PrintHelp = concat (map (\<lambda>l. l @ [newline]) [
     ''Enter SQL statements (CREATE DATABASE / CREATE TABLE / ALTER TABLE ADD'',
     ''COLUMN / INSERT / SELECT / UPDATE / DELETE / SHOW TABLES / SHOW DATABASES).'',
     ''Every table reference must be written <database>.<table> - there's no'',
     ''current/default database (see CREATE DATABASE). CREATE/ALTER TABLE and'',
     ''CREATE DATABASE are broadcast to every shard. INSERT, and any'',
     ''SELECT/UPDATE/DELETE whose WHERE pins the primary key with '=', is routed to'',
     ''the one shard that owns it (replicated through Raft the same as a'',
     ''single-shard cluster, forwarding over the network first if that shard isn't'',
     ''this node's). Anything else (no WHERE <pk> = ...) is scattered to every'',
     ''shard and the results/counts gathered back into one answer. SHOW'',
     ''TABLES/DATABASES only ever ask this node's own shard - every shard's schema'',
     ''copy is already identical.'',
     '''',
     ''  begin              start a transaction: buffers writes instead of running'',
     ''                     them, until commit/rollback. Only INSERT/UPDATE/DELETE'',
     ''                     whose WHERE pins the primary key are allowed inside one'',
     ''                     (no CREATE DATABASE/TABLE, no ALTER TABLE, no SELECT, no'',
     ''                     whole-table scatter, no SHOW TABLES/DATABASES).'',
     ''  commit             two-phase commit every buffered statement, atomically'',
     ''                     across however many shards they touch'',
     ''  rollback           discard the buffer - nothing was ever sent anywhere'',
     ''  status             show role / term / current leader hint / shard id'',
     ''  add-server <id> <host> <port>'',
     ''                     add a server to this shard's Raft group (start it first'',
     ''                     with --joining <own-host>)'',
     ''  remove-server <id> remove a server from this shard's Raft group (the leader'',
     ''                     itself may be removed - it steps down once it commits)'',
     ''  help'',
     ''  exit''])"

section \<open>Every shard\<close>

definition kCrossShardTimeoutMs :: nat where "kCrossShardTimeoutMs = 4000"
definition kProposeTimeoutMs :: nat where "kProposeTimeoutMs = 3000"

record BroadcastResult =
  ok_count :: nat
  failures :: "string list"

text \<open>A proposal to the own node waits for the default timeout.\<close>

definition broadcast_send :: "'w cluster \<Rightarrow> nat \<Rightarrow> ShardId \<Rightarrow> string \<Rightarrow> ('w system, ClientResponse) eff" where
  "broadcast_send cl timeout_ms sid command =
     send_to_shard cl (if sid = own_shard cl then kProposeTimeoutMs else timeout_ms) sid command"

fun broadcast_loop ::
  "(ShardId \<Rightarrow> string \<Rightarrow> ('s, ClientResponse) eff) \<Rightarrow> string \<Rightarrow> ShardId list \<Rightarrow> BroadcastResult \<Rightarrow> ('s, BroadcastResult) eff" where
  "broadcast_loop send command [] result = eret result"
| "broadcast_loop send command (sid # sids) result = ebind (send sid command) (\<lambda>resp.
     broadcast_loop send command sids
       (if crr_success resp then result\<lparr>ok_count := ok_count result + 1\<rparr>
        else result\<lparr>failures := failures result @ [shard_failure sid (crr_error resp)]\<rparr>))"

definition BroadcastWrite :: "'w cluster \<Rightarrow> string \<Rightarrow> nat \<Rightarrow> ('w system, BroadcastResult) eff" where
  "BroadcastWrite cl command timeout_ms =
     broadcast_loop (broadcast_send cl timeout_ms) command (AllShardIds (routing_table cl)) \<lparr>ok_count = 0, failures = []\<rparr>"

definition PrintBroadcastResult :: "BroadcastResult \<Rightarrow> string \<Rightarrow> string" where
  "PrintBroadcastResult result verb =
     (if failures result = []
      then ''OK ('' @ verb @ '' on '' @ to_string (ok_count result) @ '' shard(s))'' @ [newline]
      else ''PARTIAL ('' @ to_string (ok_count result) @ '' shard(s) ok):'' @
        concat (map (\<lambda>f. '' ['' @ f @ '']'') (failures result)) @ [newline])"

text \<open>The header and the data lines collected so far; one result more.\<close>

definition merge_one :: "string \<times> string list \<Rightarrow> string \<Rightarrow> string \<times> string list" where
  "merge_one acc result = (case getlines newline result of
       [] \<Rightarrow> acc
     | first_line # ls \<Rightarrow> (first_line, snd acc @ filter (\<lambda>l. l \<noteq> ''(0 rows)'') ls))"

definition MergeSelectResults :: "string list \<Rightarrow> string" where
  "MergeSelectResults shard_results = (case foldl merge_one ([], []) shard_results of (header, data_lines) \<Rightarrow>
     header @ concat (map (\<lambda>l. newline # l) data_lines) @ (if data_lines = [] then newline # ''(0 rows)'' else []))"

text \<open>\<^verbatim>\<open>sql.Execute(line)\<close> on the store of this process.\<close>

definition execute_local :: "string \<Rightarrow> ('w system, string) eff" where
  "execute_local sql s = (case Execute sql (sys_engine s) of (r, e) \<Rightarrow> (r, s\<lparr>sys_engine := e\<rparr>))"

definition read_shard :: "'w cluster \<Rightarrow> ShardId \<Rightarrow> string \<Rightarrow> ('w system, string) eff" where
  "read_shard cl sid line =
     (if sid = own_shard cl then execute_local line
      else ebind (elift (Shard (routing_table cl) sid)) (\<lambda>shard.
             on_client (SendReadRequest (net_of cl) (shard_peers shard) line kCrossShardTimeoutMs)))"

text \<open>The results and the failures of a scattered read.\<close>

fun scatter_read :: "'w cluster \<Rightarrow> string \<Rightarrow> ShardId list \<Rightarrow> string list \<times> string list \<Rightarrow> ('w system, string list \<times> string list) eff" where
  "scatter_read cl line [] acc = eret acc"
| "scatter_read cl line (sid # sids) (results, fails) =
     ebind (ecatch (ebind (read_shard cl sid line) (\<lambda>r. eret (results @ [r], fails)))
        (\<lambda>e. eret (results, fails @ [shard_failure sid (what e)])))
       (scatter_read cl line sids)"

section \<open>The loop\<close>

record 'w Repl =
  in_txn :: bool
  txn_buffer :: "BufferedTxnStatement list"
  txn_counter :: "32 word"
  repl_system :: "'w system"

definition on_system :: "('w system, 'a) eff \<Rightarrow> ('w Repl, 'a) eff" where
  "on_system m s = (case m (repl_system s) of (r, sys) \<Rightarrow> (r, s\<lparr>repl_system := sys\<rparr>))"

text \<open>What a line did: it ended the loop, or printed a text.\<close>

datatype outcome = Exit | Printed string

definition prints :: "('w system, string) eff \<Rightarrow> ('w Repl, outcome) eff" where
  "prints m = ebind (on_system m) (\<lambda>text. eret (Printed text))"

definition print :: "string \<Rightarrow> ('w Repl, outcome) eff" where
  "print text = eret (Printed text)"

text \<open>\<^verbatim>\<open>catch (const std::exception& e) { std::cout << "ERROR: " << e.what() << "\n"; }\<close>.\<close>

definition or_error :: "('w system, string) eff \<Rightarrow> ('w system, string) eff" where
  "or_error m = ecatch m (\<lambda>e. eret (''ERROR: '' @ what e @ [newline]))"

definition with_newline :: "('w system, string) eff \<Rightarrow> ('w system, string) eff" where
  "with_newline m = ebind m (\<lambda>r. eret (r @ [newline]))"

definition respond :: "('w system, ClientResponse) eff \<Rightarrow> ('w system, string) eff" where
  "respond m = ebind m (\<lambda>resp. eret (PrintClientResponse resp))"

definition broadcast :: "'w cluster \<Rightarrow> string \<Rightarrow> string \<Rightarrow> ('w system, string) eff" where
  "broadcast cl line verb = ebind (BroadcastWrite cl line kCrossShardTimeoutMs) (\<lambda>result. eret (PrintBroadcastResult result verb))"

definition strip_bom :: "string \<Rightarrow> string" where
  "strip_bom line = (if 3 \<le> length line \<and> line ! 0 = CHR 0xEF \<and> line ! 1 = CHR 0xBB \<and> line ! 2 = CHR 0xBF then drop 3 line else line)"

definition repl_status :: "'w cluster \<Rightarrow> ('w Repl, outcome) eff" where
  "repl_status cl s = (case node_status cl (repl_system s) of (r, term, hint) \<Rightarrow>
     (Inr (Printed (''shard='' @ to_string (unat (own_shard cl)) @ '' role='' @ RoleName r @ '' term='' @ to_string term @
        '' leader_hint='' @ to_string (unat hint) @ [newline])), s))"

definition repl_begin :: "('w Repl, outcome) eff" where
  "repl_begin s =
     (if in_txn s then print (''ERROR: already in a transaction - commit or rollback it first'' @ [newline]) s
      else (Inr (Printed (''OK (transaction started)'' @ [newline])), s\<lparr>in_txn := True, txn_buffer := []\<rparr>))"

definition repl_rollback :: "('w Repl, outcome) eff" where
  "repl_rollback s =
     (if \<not> in_txn s then print (''ERROR: not in a transaction'' @ [newline]) s
      else (Inr (Printed (''OK (rolled back - nothing was ever sent)'' @ [newline])), s\<lparr>in_txn := False, txn_buffer := []\<rparr>))"

text \<open>\<^verbatim>\<open>(static_cast<TxnId>(node_id) << 32) | (++txn_counter)\<close>.\<close>

definition next_txn_id :: "NodeId \<Rightarrow> 32 word \<Rightarrow> TxnId" where
  "next_txn_id node counter = or (push_bit 32 (ucast node)) (ucast counter)"

definition repl_commit :: "'w cluster \<Rightarrow> ('w Repl, outcome) eff" where
  "repl_commit cl s =
     (if \<not> in_txn s then print (''ERROR: not in a transaction'' @ [newline]) s
      else if txn_buffer s = []
      then (Inr (Printed (''OK (empty transaction, nothing to commit)'' @ [newline])), s\<lparr>in_txn := False\<rparr>)
      else let counter = txn_counter s + 1
           in ebind (prints (with_newline (RunTransaction (send_to_shard cl kCrossShardTimeoutMs)
                  (next_txn_id (own_node cl) counter) (txn_buffer s))))
                (\<lambda>out. ebind (emodify (\<lambda>s. s\<lparr>txn_buffer := []\<rparr>)) (\<lambda>_. eret out))
                (s\<lparr>in_txn := False, txn_counter := counter\<rparr>))"

text \<open>\<^verbatim>\<open>iss >> new_id_raw >> host >> new_port_raw\<close>.\<close>

definition repl_add_server :: "'w cluster \<Rightarrow> string \<Rightarrow> ('w Repl, outcome) eff" where
  "repl_add_server cl args =
     (let usage = print (''ERROR: usage: add-server <id> <host> <port>'' @ [newline])
      in case extract_unsigned 64 0 args of
           (_, None) \<Rightarrow> usage
         | (new_id, Some r1) \<Rightarrow> (case read_token r1 of
               None \<Rightarrow> usage
             | Some (h, r2) \<Rightarrow> (case extract_unsigned 64 0 r2 of
                   (_, None) \<Rightarrow> usage
                 | (new_port, Some _) \<Rightarrow> prints (respond (propose cl (EncodeConfChange
                     \<lparr>cc_type = kAddServer, cc_server_id = of_nat new_id, cc_host = h, cc_port = of_nat new_port\<rparr>) kProposeTimeoutMs)))))"

definition repl_remove_server :: "'w cluster \<Rightarrow> string \<Rightarrow> ('w Repl, outcome) eff" where
  "repl_remove_server cl args = (case extract_unsigned 64 0 args of
       (_, None) \<Rightarrow> print (''ERROR: usage: remove-server <id>'' @ [newline])
     | (target_id, Some _) \<Rightarrow> prints (respond (propose cl (EncodeConfChange
         \<lparr>cc_type = kRemoveServer, cc_server_id = of_nat target_id, cc_host = [], cc_port = 0\<rparr>) kProposeTimeoutMs)))"

text \<open>A statement inside a transaction.\<close>

definition buffer_statement :: "'w cluster \<Rightarrow> string \<Rightarrow> string \<Rightarrow> ('w Repl, outcome) eff" where
  "buffer_statement cl key line s = (case ShardFor (routing_table cl) key of
       Inl e \<Rightarrow> if e = Undefined then (Inl e, s) else print (''ERROR: '' @ what e @ [newline]) s
     | Inr shard \<Rightarrow> (Inr (Printed (''OK (queued on shard '' @ to_string (unat (shard_id shard)) @ '')'' @ [newline])),
         s\<lparr>txn_buffer := txn_buffer s @ [\<lparr>bs_shard = shard_id shard, bs_key = key, bs_sql = line\<rparr>]\<rparr>))"

fun is_ddl :: "Statement \<Rightarrow> bool" where
  "is_ddl (CreateDatabase _) = True"
| "is_ddl (CreateTable _) = True"
| "is_ddl (AlterTableAddColumn _) = True"
| "is_ddl _ = False"

fun is_select :: "Statement \<Rightarrow> bool" where
  "is_select (Select _) = True"
| "is_select _ = False"

fun is_show :: "Statement \<Rightarrow> bool" where
  "is_show (ShowTables _) = True"
| "is_show ShowDatabases = True"
| "is_show _ = False"

definition txn_statement :: "'w cluster \<Rightarrow> string \<Rightarrow> Statement \<Rightarrow> ('w Repl, outcome) eff" where
  "txn_statement cl line parsed s =
     (if is_ddl parsed
      then print (''ERROR: CREATE DATABASE/TABLE and ALTER TABLE are not supported inside a transaction'' @ [newline]) s
      else if is_select parsed \<or> is_show parsed
      then print (''ERROR: SELECT/SHOW TABLES/SHOW DATABASES are not supported inside a transaction '' @
        ''(writes are staged, not applied, until commit - a read here could never see them '' @
        ''anyway); run it before begin or after commit/rollback'' @ [newline]) s
      else case TryExtractRowKey (sys_engine (repl_system s)) parsed of
          Inl e \<Rightarrow> (Inl e, s)
        | Inr None \<Rightarrow> print (''ERROR: this statement's WHERE doesn't pin the primary key, so it has no single '' @
            ''shard to lock - not supported inside a transaction'' @ [newline]) s
        | Inr (Some key) \<Rightarrow> buffer_statement cl key line s)"

text \<open>A statement that is not pinned to one row, and one that is.\<close>

definition gather :: "'w cluster \<Rightarrow> string \<Rightarrow> ('w system, string) eff" where
  "gather cl line = ebind (scatter_read cl line (AllShardIds (routing_table cl)) ([], [])) (\<lambda>(results, fails).
     eret ((if fails \<noteq> [] then ''ERROR: some shards did not respond:'' @ concat (map (\<lambda>f. '' ['' @ f @ '']'') fails)
            else MergeSelectResults results) @ [newline]))"

definition pinned_statement :: "'w cluster \<Rightarrow> string \<Rightarrow> bool \<Rightarrow> ShardRange \<Rightarrow> ('w system, string) eff" where
  "pinned_statement cl line select target =
     (let local = (shard_id target = own_shard cl)
      in if select
         then or_error (with_newline (if local then execute_local line
           else on_client (SendReadRequest (net_of cl) (shard_peers target) line kCrossShardTimeoutMs)))
         else if local then respond (propose cl line kProposeTimeoutMs)
         else or_error (respond (on_client (SendClientRequest (net_of cl) (shard_peers target) line kCrossShardTimeoutMs))))"

definition run_statement :: "'w cluster \<Rightarrow> string \<Rightarrow> Statement \<Rightarrow> ('w system, string) eff" where
  "run_statement cl line parsed s =
     (case parsed of
        CreateDatabase _ \<Rightarrow> broadcast cl line ''created'' s
      | CreateTable _ \<Rightarrow> broadcast cl line ''created'' s
      | AlterTableAddColumn _ \<Rightarrow> broadcast cl line ''altered'' s
      | ShowTables _ \<Rightarrow> or_error (with_newline (execute_local line)) s
      | ShowDatabases \<Rightarrow> or_error (with_newline (execute_local line)) s
      | _ \<Rightarrow> (case TryExtractRowKey (sys_engine s) parsed of
            Inl e \<Rightarrow> (Inl e, s)
          | Inr None \<Rightarrow> if is_select parsed then gather cl line s else broadcast cl line ''applied'' s
          | Inr (Some key) \<Rightarrow> (case ShardFor (routing_table cl) key of
                Inl e \<Rightarrow> or_error (ethrow e) s
              | Inr target \<Rightarrow> pinned_statement cl line (is_select parsed) target s)))"

definition repl_statement :: "'w cluster \<Rightarrow> string \<Rightarrow> ('w Repl, outcome) eff" where
  "repl_statement cl line s = (case parse_sql line of
       Inl e \<Rightarrow> if e = Undefined then (Inl e, s) else print (''ERROR: '' @ what e @ [newline]) s
     | Inr parsed \<Rightarrow> if in_txn s then txn_statement cl line parsed s else prints (run_statement cl line parsed) s)"

definition repl_line :: "'w cluster \<Rightarrow> string \<Rightarrow> ('w Repl, outcome) eff" where
  "repl_line cl input =
     (let line = strip_bom input
      in case read_token line of
           None \<Rightarrow> print []
         | Some (first_word, args) \<Rightarrow>
             if first_word = ''exit'' \<or> first_word = ''quit'' then eret Exit
             else if first_word = ''help'' then print PrintHelp
             else if first_word = ''status'' then repl_status cl
             else if first_word = ''begin'' then repl_begin
             else if first_word = ''rollback'' then repl_rollback
             else if first_word = ''commit'' then repl_commit cl
             else if first_word = ''add-server'' then repl_add_server cl args
             else if first_word = ''remove-server'' then repl_remove_server cl args
             else repl_statement cl line)"

text \<open>The lines of the standard input, one after the other; an exception that leaves the loop ends the process.\<close>

fun repl_loop :: "'w cluster \<Rightarrow> string list \<Rightarrow> ('w Repl, string list) eff" where
  "repl_loop cl [] = eret []"
| "repl_loop cl (line # ls) = ebind (repl_line cl line) (\<lambda>out. case out of
       Exit \<Rightarrow> eret []
     | Printed text \<Rightarrow> ebind (repl_loop cl ls) (\<lambda>texts. eret (text # texts)))"

section \<open>Starting the process\<close>

record NodeArgs =
  arg_node :: NodeId
  arg_shard :: ShardId
  arg_port :: "16 word"
  arg_routing :: string
  arg_state_dir :: string
  arg_joining :: "string option"

text \<open>The arguments after the program's name: \<open>None\<close> for a usage message.\<close>

definition parse_args :: "string list \<Rightarrow> NodeArgs option res" where
  "parse_args argv =
     (if length argv < 4 then Inr None
      else rbind (stoul (argv ! 0)) (\<lambda>node. rbind (stoul (argv ! 1)) (\<lambda>shard. rbind (stoul (argv ! 2)) (\<lambda>p.
        let joins = 5 < length argv \<and> argv ! 5 = ''--joining''
        in if joins \<and> length argv \<le> 6 then Inr None
           else Inr (Some \<lparr>arg_node = ucast node, arg_shard = ucast shard, arg_port = ucast p, arg_routing = argv ! 3,
             arg_state_dir = (if 4 < length argv then argv ! 4 else ''.''),
             arg_joining = (if joins then Some (argv ! 6) else None)\<rparr>)))))"

text \<open>The own address and the peers that the Raft node is given.\<close>

definition startup_membership :: "ShardRange list \<Rightarrow> NodeArgs \<Rightarrow> bool \<Rightarrow> (PeerAddress \<times> peer_map) res" where
  "startup_membership table args has_membership_file = rbind (Shard table (arg_shard args)) (\<lambda>my_shard.
     if has_membership_file then Inr (\<lparr>host = [], port = arg_port args\<rparr>, [])
     else case arg_joining args of
         Some own_host \<Rightarrow> Inr (\<lparr>host = own_host, port = arg_port args\<rparr>, [])
       | None \<Rightarrow> (case omap_find (arg_node args) (shard_peers my_shard) of
             None \<Rightarrow> Inl (RuntimeError (''node '' @ to_string (unat (arg_node args)) @ '' is not listed as a peer of shard '' @
               to_string (unat (arg_shard args)) @ '' in '' @ arg_routing args))
           | Some a \<Rightarrow> Inr (a, omap_erase (arg_node args) (shard_peers my_shard))))"

section \<open>Merging\<close>

text \<open>What a SELECT prints (\<open>ExecuteSelect\<close>), and the rows of it that a merge keeps.\<close>

definition table_text :: "string \<Rightarrow> string list \<Rightarrow> string" where
  "table_text header rows = header @ concat (map (\<lambda>l. newline # l) (if rows = [] then [''(0 rows)''] else rows))"

definition kept :: "string list \<Rightarrow> string list" where
  "kept rows = filter (\<lambda>l. l \<noteq> ''(0 rows)'') (if rows \<noteq> [] \<and> last rows = [] then butlast rows else rows)"

lemma ExecuteSelect_text:
  "ExecuteSelect stmt e =
     rbind (LoadSchema e (sel_db_name stmt) (sel_table_name stmt)) (\<lambda>schema.
     rbind (resolve_columns schema (sel_columns stmt)) (\<lambda>(projection, headers).
     rbind (select_rows schema projection (sel_where stmt) (eng_Scan e (RowPrefix (sel_db_name stmt) (sel_table_name stmt)))) (\<lambda>ls.
     Inr (table_text (tabbed headers) ls))))"
  unfolding ExecuteSelect_def table_text_def ..

lemma getlines_rows:
  assumes "newline \<notin> set header" and "\<forall>r \<in> set rows. newline \<notin> set r" and "rows \<noteq> []"
  shows "getlines newline (header @ concat (map (\<lambda>l. newline # l) rows)) = header # (if last rows = [] then butlast rows else rows)"
  using assms
proof (induction rows arbitrary: header)
  case (Cons r rows)
  have field: "getlines newline (header @ newline # rest) = header # getlines newline rest" for rest
    using getlines_aux_field [OF Cons.prems(1), of "[]" rest] by (simp add: getlines_def)
  show ?case
  proof (cases rows)
    case Nil
    have "r \<noteq> [] \<Longrightarrow> getlines newline r = [r]"
      using getlines_aux_last [of newline r "[]"] Cons.prems(2) by (simp add: getlines_def)
    moreover have "getlines newline [] = []" by (simp add: getlines_def)
    ultimately show ?thesis using field [of r] Nil by simp
  next
    case Cons2: (Cons r2 rows2)
    have "getlines newline (r @ concat (map (\<lambda>l. newline # l) rows)) = r # (if last rows = [] then butlast rows else rows)"
      using Cons.IH [of r] Cons.prems(2) Cons2 by simp
    then show ?thesis using field [of "r @ concat (map (\<lambda>l. newline # l) rows)"] Cons2 by simp
  qed
qed simp

lemma merge_one_table:
  assumes "newline \<notin> set header" and "\<forall>r \<in> set rows. newline \<notin> set r"
  shows "merge_one (h, ls) (table_text header rows) = (header, ls @ kept rows)"
proof (cases "rows = []")
  case True
  have "getlines newline (table_text header rows) = [header, ''(0 rows)'']"
    using getlines_rows [OF assms(1), of "[''(0 rows)'']"] True by (simp add: table_text_def)
  with True show ?thesis by (simp add: merge_one_def kept_def)
next
  case False
  then have "getlines newline (table_text header rows) = header # (if last rows = [] then butlast rows else rows)"
    using getlines_rows [OF assms] by (simp add: table_text_def)
  with False show ?thesis by (simp add: merge_one_def kept_def)
qed

lemma merge_tables:
  assumes "newline \<notin> set header" and "\<forall>rows \<in> set results. \<forall>r \<in> set rows. newline \<notin> set r" and "results \<noteq> []"
  shows "foldl merge_one (h, ls) (map (table_text header) results) = (header, ls @ concat (map kept results))"
  using assms(2,3)
proof (induction results arbitrary: h ls)
  case (Cons rows results)
  have one: "merge_one (h, ls) (table_text header rows) = (header, ls @ kept rows)"
    using merge_one_table [OF assms(1)] Cons.prems(1) by simp
  show ?case
  proof (cases "results = []")
    case True
    with one show ?thesis by simp
  next
    case False
    with Cons.IH [of header "ls @ kept rows"] Cons.prems one show ?thesis by simp
  qed
qed simp

text \<open>C22. The answers of the shards to one SELECT are merged into the answer of one table that holds all their rows, in the
  order of the shards, but for the rows that the merge loses: a row printed as \<^verbatim>\<open>(0 rows)\<close> anywhere, and a row
  printed as the empty line when it is the last one of its shard, as for a table with one row whose selected text is
  empty.\<close>

theorem merge_select_exact:
  assumes "newline \<notin> set header" and "\<forall>rows \<in> set results. \<forall>r \<in> set rows. newline \<notin> set r" and "results \<noteq> []"
  shows "MergeSelectResults (map (table_text header) results) = table_text header (concat (map kept results)) \<and>
    (\<forall>rows. last rows \<noteq> [] \<longrightarrow> ''(0 rows)'' \<notin> set rows \<longrightarrow> kept rows = rows) \<and> kept [[]] = [] \<and> kept [''(0 rows)'', ''x''] = [''x'']"
proof -
  have "kept rows = rows" if "last rows \<noteq> []" "''(0 rows)'' \<notin> set rows" for rows
    using that by (auto simp: kept_def filter_id_conv)
  then show ?thesis
    by (simp add: MergeSelectResults_def merge_tables [OF assms] table_text_def) (simp add: kept_def)
qed

theorem merge_select_exact_witness:
  "MergeSelectResults [table_text ''k'' [''1'', ''2''], table_text ''k'' [], table_text ''k'' [''3'', []]] =
     table_text ''k'' [''1'', ''2'', ''3'']"
  using merge_select_exact [of "''k''" "[[''1'', ''2''], [], [''3'', []]]"] by (simp add: kept_def)

section \<open>Broadcasts\<close>

lemma broadcast_logged:
  assumes "\<forall>sid s. \<exists>resp s'. send sid c s = (Inr resp, s')"
  shows "\<exists>s' oks fails. broadcast_loop (logged_send send) c sids result (s, l) =
      (Inr \<lparr>ok_count = ok_count result + length (filter (\<lambda>b. b) oks), failures = failures result @ fails\<rparr>,
       (s', l @ map (\<lambda>(sid, ok). (sid, c, ok)) (zip sids oks))) \<and>
    length oks = length sids \<and> length fails = length (filter Not oks)"
proof (induction sids arbitrary: result s l)
  case Nil
  then show ?case by simp
next
  case (Cons sid sids)
  obtain resp s1 where send: "send sid c s = (Inr resp, s1)" using assms by blast
  let ?result = "if crr_success resp then result\<lparr>ok_count := ok_count result + 1\<rparr>
        else result\<lparr>failures := failures result @ [shard_failure sid (crr_error resp)]\<rparr>"
  obtain s' oks fails where rest: "broadcast_loop (logged_send send) c sids ?result (s1, l @ [(sid, c, crr_success resp)]) =
      (Inr \<lparr>ok_count = ok_count ?result + length (filter (\<lambda>b. b) oks), failures = failures ?result @ fails\<rparr>,
       (s', (l @ [(sid, c, crr_success resp)]) @ map (\<lambda>(sid, ok). (sid, c, ok)) (zip sids oks)))"
    "length oks = length sids" "length fails = length (filter Not oks)"
    using Cons.IH [of ?result s1 "l @ [(sid, c, crr_success resp)]"] by blast
  have "broadcast_loop (logged_send send) c (sid # sids) result (s, l) =
    broadcast_loop (logged_send send) c sids ?result (s1, l @ [(sid, c, crr_success resp)])"
    using send by (simp add: logged_send_def went_well_def)
  with rest show ?case
    by (intro exI [of _ s'] exI [of _ "crr_success resp # oks"]
        exI [of _ "if crr_success resp then fails else shard_failure sid (crr_error resp) # fails"]) simp
qed

text \<open>A broadcast sends its command to every shard of the table exactly once, in the order of the table, whatever the
  others said, and reports how many shards took it and one failure for every other; it reports success only when
  all did.\<close>

theorem broadcast_reaches_all:
  assumes "\<forall>sid s. \<exists>resp s'. send sid c s = (Inr resp, s')"
  shows "\<exists>s' oks result. broadcast_loop (logged_send send) c sids \<lparr>ok_count = 0, failures = []\<rparr> (s, []) =
      (Inr result, (s', map (\<lambda>(sid, ok). (sid, c, ok)) (zip sids oks))) \<and> length oks = length sids \<and>
    ok_count result = length (filter (\<lambda>b. b) oks) \<and> length (failures result) = length (filter Not oks) \<and>
    (failures result = [] \<longleftrightarrow> (\<forall>ok \<in> set oks. ok))"
proof -
  obtain s' oks fails where run: "broadcast_loop (logged_send send) c sids \<lparr>ok_count = 0, failures = []\<rparr> (s, []) =
      (Inr \<lparr>ok_count = length (filter (\<lambda>b. b) oks), failures = fails\<rparr>, (s', map (\<lambda>(sid, ok). (sid, c, ok)) (zip sids oks)))"
    "length oks = length sids" "length fails = length (filter Not oks)"
    using broadcast_logged [where send = send and c = c and sids = sids and result = "\<lparr>ok_count = 0, failures = []\<rparr>" and s = s
        and l = "[]", OF assms] by auto
  moreover have "fails = [] \<longleftrightarrow> (\<forall>ok \<in> set oks. ok)"
    using run(3) by (metis (mono_tags, lifting) filter_empty_conv length_0_conv)
  ultimately show ?thesis
    by (intro exI [of _ s'] exI [of _ oks] exI [of _ "\<lparr>ok_count = length (filter (\<lambda>b. b) oks), failures = fails\<rparr>"]) simp
qed

theorem broadcast_reaches_all_witness:
  "\<exists>s' oks result. broadcast_loop (logged_send second_refuses) ''x'' [1, 2, 3] \<lparr>ok_count = 0, failures = []\<rparr> ((), []) =
      (Inr result, (s', map (\<lambda>(sid, ok). (sid, ''x'', ok)) (zip [1, 2, 3] oks))) \<and> length oks = 3"
proof -
  have "\<forall>sid s. \<exists>resp s'. second_refuses sid ''x'' s = (Inr resp, s')" by (simp add: second_refuses_def)
  from broadcast_reaches_all [where send = second_refuses and c = "''x''" and sids = "[1, 2, 3]" and s = "()", OF this]
  show ?thesis by (elim exE conjE) (intro exI conjI, assumption, simp)
qed

section \<open>Transactions\<close>

text \<open>A buffered statement: it is pinned to one row, and goes to the only shard whose range holds that row's key.\<close>

definition staged_ok :: "'w cluster \<Rightarrow> StorageEngine \<Rightarrow> BufferedTxnStatement \<Rightarrow> bool" where
  "staged_ok cl e st \<longleftrightarrow> (\<exists>stmt. parse_sql (bs_sql st) = Inr stmt \<and> \<not> is_ddl stmt \<and> \<not> is_select stmt \<and> \<not> is_show stmt \<and>
     TryExtractRowKey e stmt = Inr (Some (bs_key st))) \<and>
     (\<exists>shard \<in> set (routing_table cl). shard_id shard = bs_shard st \<and>
        (\<forall>other \<in> set (routing_table cl). covers other (bs_key st) \<longleftrightarrow> other = shard))"

definition buffered_only :: "'w cluster \<Rightarrow> 'w Repl \<Rightarrow> outcome res \<times> 'w Repl \<Rightarrow> bool" where
  "buffered_only cl s out \<longleftrightarrow> repl_system (snd out) = repl_system s \<and>
     (\<forall>st \<in> set (txn_buffer (snd out)). staged_ok cl (sys_engine (repl_system s)) st)"

lemma txn_statement_buffers:
  assumes "table_wf (routing_table cl)" and "\<forall>st \<in> set (txn_buffer s). staged_ok cl (sys_engine (repl_system s)) st"
    and "parse_sql line = Inr parsed"
  shows "buffered_only cl s (txn_statement cl line parsed s)"
proof (cases "is_ddl parsed \<or> is_select parsed \<or> is_show parsed")
  case True
  with assms(2) show ?thesis by (auto simp: txn_statement_def print_def buffered_only_def)
next
  case False
  then have def: "txn_statement cl line parsed s = (case TryExtractRowKey (sys_engine (repl_system s)) parsed of
          Inl e \<Rightarrow> (Inl e, s)
        | Inr None \<Rightarrow> print (''ERROR: this statement's WHERE doesn't pin the primary key, so it has no single '' @
            ''shard to lock - not supported inside a transaction'' @ [newline]) s
        | Inr (Some key) \<Rightarrow> buffer_statement cl key line s)"
    by (simp add: txn_statement_def)
  show ?thesis
  proof (cases "\<exists>key. TryExtractRowKey (sys_engine (repl_system s)) parsed = Inr (Some key)")
    case True
    then obtain key where key: "TryExtractRowKey (sys_engine (repl_system s)) parsed = Inr (Some key)" by blast
    have c: "contiguous (routing_table cl)" "start_key (hd (routing_table cl)) \<le> key" using assms(1) by (auto simp: table_wf_def)
    obtain shard where shard: "shard \<in> set (routing_table cl)" "ShardFor (routing_table cl) key = Inr shard" "covers shard key"
      using ShardFor_covers [OF c] by blast
    have "staged_ok cl (sys_engine (repl_system s)) \<lparr>bs_shard = shard_id shard, bs_key = key, bs_sql = line\<rparr>"
      using assms(3) False key shard contiguous_covers_only [OF c(1)] unfolding staged_ok_def by auto
    with assms(2) show ?thesis by (simp add: def key buffer_statement_def shard(2) buffered_only_def)
  next
    case False
    with assms(2) show ?thesis by (auto simp: def print_def buffered_only_def split: sum.split option.split)
  qed
qed

lemma repl_statement_buffers:
  assumes "table_wf (routing_table cl)" and "\<forall>st \<in> set (txn_buffer s). staged_ok cl (sys_engine (repl_system s)) st" and "in_txn s"
  shows "buffered_only cl s (repl_statement cl line s)"
  using txn_statement_buffers [OF assms(1,2)] assms(2,3)
  by (cases "parse_sql line") (auto simp: repl_statement_def buffered_only_def print_def)

text \<open>C21. Inside a transaction, a line that is none of \<^verbatim>\<open>commit\<close>, \<^verbatim>\<open>add-server\<close> and \<^verbatim>\<open>remove-server\<close> neither sends
  anything nor touches the store of this process, whatever it says; and every statement in the buffer is a write that is
  pinned to one row, held for the shard whose range contains that row's key.\<close>

theorem transaction_sends_nothing:
  assumes "in_txn s" and "table_wf (routing_table cl)"
    and "\<forall>word args. read_token (strip_bom line) = Some (word, args) \<longrightarrow> word \<notin> {''commit'', ''add-server'', ''remove-server''}"
    and "\<forall>st \<in> set (txn_buffer s). staged_ok cl (sys_engine (repl_system s)) st"
  shows "repl_system (snd (repl_line cl line s)) = repl_system s \<and>
    (\<forall>st \<in> set (txn_buffer (snd (repl_line cl line s))). staged_ok cl (sys_engine (repl_system s)) st)"
proof (cases "read_token (strip_bom line)")
  case None
  with assms(4) show ?thesis by (simp add: repl_line_def print_def)
next
  case (Some x)
  obtain word args where x: "x = (word, args)" by (cases x)
  with Some assms(3) have word: "word \<noteq> ''commit''" "word \<noteq> ''add-server''" "word \<noteq> ''remove-server''" by simp_all
  have "buffered_only cl s (repl_status cl s)" "buffered_only cl s (repl_begin s)" "buffered_only cl s (repl_rollback s)"
    using assms(1,4) by (auto simp: buffered_only_def repl_status_def repl_begin_def repl_rollback_def print_def split: prod.split)
  moreover have "buffered_only cl s (print msg s)" "buffered_only cl s (eret Exit s)" for msg
    using assms(4) by (simp_all add: buffered_only_def print_def)
  moreover have "buffered_only cl s (repl_statement cl (strip_bom line) s)"
    using repl_statement_buffers [OF assms(2,4,1)] .
  ultimately have "buffered_only cl s (repl_line cl line s)"
    unfolding repl_line_def Let_def Some x option.simps prod.simps using word
    by (simp only: if_False if_True split: if_split) blast
  then show ?thesis by (simp add: buffered_only_def)
qed

text \<open>A cluster of two shards, in the middle of a transaction.\<close>

definition two_shards :: "ShardRange list" where
  "two_shards = [\<lparr>shard_id = 1, start_key = [], end_key = ''m'', shard_peers = []\<rparr>,
     \<lparr>shard_id = 2, start_key = ''m'', end_key = [], shard_peers = []\<rparr>]"

definition example_cluster :: "unit cluster" where
  "example_cluster = \<lparr>own_node = 1, own_shard = 1, routing_table = two_shards,
     net_of = \<lparr>net_send = (\<lambda>h p body timeout w. (Inl ''down'', w)), net_now = (\<lambda>w. (0, w))\<rparr>,
     propose = (\<lambda>command timeout. eret (client_failed 0 ''down'')), node_status = (\<lambda>s. (Follower, 1, 0))\<rparr>"

definition example_repl :: "unit Repl" where
  "example_repl = \<lparr>in_txn = True, txn_buffer = [], txn_counter = 0,
     repl_system = \<lparr>sys_client = \<lparr>health_map = [], world = ()\<rparr>, sys_engine = eng_empty\<rparr>\<rparr>"

lemma example_word: "read_token (strip_bom ''CREATE DATABASE d'') = Some (''CREATE'', '' DATABASE d'')"
  by code_simp

theorem transaction_sends_nothing_witness:
  "repl_system (snd (repl_line example_cluster ''CREATE DATABASE d'' example_repl)) = repl_system example_repl"
proof -
  have "table_wf (routing_table example_cluster)" by (simp add: table_wf_def example_cluster_def two_shards_def)
  then show ?thesis
    using transaction_sends_nothing [of example_repl example_cluster "''CREATE DATABASE d''"]
    by (simp add: example_repl_def example_word)
qed

section \<open>Ids\<close>

text \<open>The ids of the transactions of one run of a process are distinct from each other, for the first \<open>2 ^ 32\<close> of them, and
  from those of every other node.\<close>

theorem txn_ids_distinct:
  "next_txn_id node counter = next_txn_id node' counter' \<longleftrightarrow> node = node' \<and> counter = counter'"
proof
  assume eq: "next_txn_id node counter = next_txn_id node' counter'"
  have "bit counter i = bit counter' i" if "i < 32" for i
    using arg_cong [OF eq, of "\<lambda>w. bit w i"] that by (simp add: next_txn_id_def bit_simps)
  moreover have "bit node i = bit node' i" if "i < 32" for i
    using arg_cong [OF eq, of "\<lambda>w. bit w (i + 32)"] that bit_imp_le_length [of counter "i + 32"] bit_imp_le_length [of counter' "i + 32"]
    by (auto simp: next_txn_id_def bit_simps)
  ultimately show "node = node' \<and> counter = counter'"
    by (auto intro!: bit_word_eqI)
qed simp

end
