(* ===== verification/Kv_Shell.thy ===== *)
theory Kv_Shell
  imports Sql_Tables Routing
begin

text \<open>
  \<^verbatim>\<open>src/main.cpp\<close>: the read-eval-print loop of the single-node program, SQL statements and raw keys on one store.
  Shown: what \<^verbatim>\<open>put\<close> stores \<^verbatim>\<open>get\<close> prints, until the key is put or deleted again; and every statement that the
  program's help gives as an example is refused by its own parser.
\<close>

datatype shell_outcome = ShellExit | ShellPrinted string

definition say :: "string \<Rightarrow> (StorageEngine, shell_outcome) eff" where
  "say text = eret (ShellPrinted (text @ [newline]))"

definition sql_command :: "string \<Rightarrow> (StorageEngine, shell_outcome) eff" where
  "sql_command line engine = (case Execute line engine of
       (Inl e, engine') \<Rightarrow> if e = Undefined then (Inl e, engine') else say (''ERROR: '' @ what e) engine'
     | (Inr r, engine') \<Rightarrow> say r engine')"

text \<open>\<^verbatim>\<open>iss >> key\<close>, and then \<^verbatim>\<open>std::getline(iss, value)\<close> without the space that separates them.\<close>

definition put_args :: "string \<Rightarrow> string \<times> string" where
  "put_args args = (case read_token args of
       None \<Rightarrow> ([], [])
     | Some (key, rest) \<Rightarrow> (key, if rest \<noteq> [] \<and> hd rest = CHR '' '' then tl rest else rest))"

definition key_arg :: "string \<Rightarrow> string" where
  "key_arg args = (case read_token args of None \<Rightarrow> [] | Some (key, _) \<Rightarrow> key)"

definition put_command :: "string \<Rightarrow> (StorageEngine, shell_outcome) eff" where
  "put_command args = (case put_args args of (key, value) \<Rightarrow>
     if key = [] \<or> value = [] then say ''usage: put <key> <value>''
     else ebind (eng_Put key value) (\<lambda>_. say ''OK''))"

definition get_command :: "string \<Rightarrow> (StorageEngine, shell_outcome) eff" where
  "get_command args engine =
     (let key = key_arg args
      in if key = [] then say ''usage: get <key>'' engine
         else say (case eng_Get engine key of Some value \<Rightarrow> value | None \<Rightarrow> ''(not found)'') engine)"

definition del_command :: "string \<Rightarrow> (StorageEngine, shell_outcome) eff" where
  "del_command args =
     (let key = key_arg args
      in if key = [] then say ''usage: del <key>'' else ebind (eng_Delete key) (\<lambda>_. say ''OK''))"

definition kv_help :: string where
  "kv_help = concat (map (\<lambda>l. l @ [newline]) [
     ''Raw KV commands:'',
     ''  put <key> <value>'',
     ''  get <key>'',
     ''  del <key>'',
     [],
     ''SQL statements (single line each):'',
     ''  CREATE TABLE t (id TEXT PRIMARY KEY, name TEXT, age INT)'',
     ''  INSERT INTO t (id, name, age) VALUES ('u1', 'Alice', 30)'',
     ''  SELECT * FROM t WHERE age > 20'',
     ''  UPDATE t SET age = 31 WHERE id = '' @ quoted ''u1'',
     ''  DELETE FROM t WHERE id = '' @ quoted ''u1'',
     [],
     ''  help'',
     ''  exit''])"

definition kv_line :: "string \<Rightarrow> (StorageEngine, shell_outcome) eff" where
  "kv_line line = (case read_token line of
       None \<Rightarrow> eret (ShellPrinted [])
     | Some (cmd, args) \<Rightarrow>
         let upper_cmd = ToUpper cmd
         in if upper_cmd = ''EXIT'' \<or> upper_cmd = ''QUIT'' then eret ShellExit
            else if upper_cmd = ''HELP'' then eret (ShellPrinted kv_help)
            else if upper_cmd \<in> {''CREATE'', ''INSERT'', ''SELECT'', ''UPDATE'', ''DELETE''} then sql_command line
            else if cmd = ''put'' then put_command args
            else if cmd = ''get'' then get_command args
            else if cmd = ''del'' then del_command args
            else say (''unknown command: '' @ cmd @ '' (type 'help')''))"

text \<open>The lines of the standard input; every prompt is printed before its line is read, and an exception of the store ends
  the process.\<close>

fun kv_loop :: "string list \<Rightarrow> (StorageEngine, string) eff" where
  "kv_loop [] = eret ''> ''"
| "kv_loop (line # ls) = ebind (kv_line line) (\<lambda>out. case out of
       ShellExit \<Rightarrow> eret ''> ''
     | ShellPrinted text \<Rightarrow> ebind (kv_loop ls) (\<lambda>texts. eret (''> '' @ text @ texts)))"

section \<open>Properties\<close>

text \<open>A word of the input, and what follows it.\<close>

definition is_word :: "string \<Rightarrow> bool" where
  "is_word w \<longleftrightarrow> w \<noteq> [] \<and> (\<forall>c \<in> set w. \<not> isspace c)"

lemma read_token_word: "is_word w \<Longrightarrow> rest = [] \<or> isspace (hd rest) \<Longrightarrow> read_token (w @ rest) = Some (w, rest)"
  by (cases w; cases rest) (auto simp: is_word_def read_token_def Let_def takeWhile_append dropWhile_append)

lemma read_token_space: "is_word w \<Longrightarrow> rest = [] \<or> isspace (hd rest) \<Longrightarrow> read_token (CHR '' '' # w @ rest) = Some (w, rest)"
  using read_token_word [of w rest] by (simp add: read_token_def isspace_def)

lemma upper_words: "ToUpper ''put'' = ''PUT''" "ToUpper ''get'' = ''GET''"
  by code_simp+

lemma command_words: "is_word ''put''" "is_word ''get''" "isspace CHR '' ''" "ToUpper ''put'' = ''PUT''" "ToUpper ''get'' = ''GET''"
  by (simp_all add: is_word_def isspace_def upper_words)

lemma put_line:
  assumes "is_word key" and "value \<noteq> []"
  shows "kv_line (''put '' @ key @ '' '' @ value) = ebind (eng_Put key value) (\<lambda>_. say ''OK'')"
proof -
  have "read_token (''put '' @ key @ '' '' @ value) = Some (''put'', '' '' @ key @ '' '' @ value)"
    using read_token_word [of "''put''" "'' '' @ key @ '' '' @ value"] command_words by simp
  moreover have "put_args ('' '' @ key @ '' '' @ value) = (key, value)"
    using read_token_space [OF assms(1), of "'' '' @ value"] command_words by (simp add: put_args_def)
  ultimately show ?thesis using assms by (auto simp: kv_line_def command_words put_command_def is_word_def)
qed

lemma get_line:
  assumes "is_word key"
  shows "kv_line (''get '' @ key) e = say (case eng_Get e key of Some value \<Rightarrow> value | None \<Rightarrow> ''(not found)'') e"
proof -
  have "read_token (''get '' @ key) = Some (''get'', '' '' @ key)"
    using read_token_word [of "''get''" "'' '' @ key"] command_words by simp
  moreover have "key_arg ('' '' @ key) = key"
    using read_token_space [OF assms(1), of "[]"] by (simp add: key_arg_def)
  ultimately show ?thesis using assms by (auto simp: kv_line_def command_words get_command_def is_word_def)
qed

text \<open>A value that \<^verbatim>\<open>put\<close> has stored is what \<^verbatim>\<open>get\<close> prints for its key, whatever bytes it has, and for every other key
  \<^verbatim>\<open>get\<close> prints what it printed before.\<close>

theorem kv_put_get:
  assumes "eng_ok e" and "eng_used e + put_cost key value < eng_cap" and "is_word key" and "value \<noteq> []" and "is_word other"
  shows "\<exists>e'. kv_line (''put '' @ key @ '' '' @ value) e = (Inr (ShellPrinted (''OK'' @ [newline])), e') \<and> eng_ok e' \<and>
    fst (kv_line (''get '' @ other) e') =
      (if other = key then Inr (ShellPrinted (value @ [newline])) else fst (kv_line (''get '' @ other) e))"
proof -
  obtain e' where e': "eng_Put key value e = (Inr (), e')" "eng_ok e'" "eng_view e' = (eng_view e)(key := Some value)"
    using eng.put_spec [OF assms(1,2)] by blast
  have "eng_Get e' other = (if other = key then Some value else eng_Get e other)"
    using e' assms(1) by (simp add: eng.get_view)
  then show ?thesis using e'(1,2) unfolding put_line [OF assms(3,4)] get_line [OF assms(5)] by (simp add: say_def)
qed

theorem kv_put_get_witness:
  "\<exists>e'. kv_line ''put a b c'' eng_empty = (Inr (ShellPrinted (''OK'' @ [newline])), e') \<and>
     fst (kv_line ''get a'' e') = Inr (ShellPrinted (''b c'' @ [newline]))"
proof -
  have "is_word ''a''" by (simp add: is_word_def isspace_def)
  from kv_put_get [OF eng_ok_empty, of "''a''" "''b c''" "''a''"] this show ?thesis
    by (auto simp: put_cost_def eng_cap_def)
qed

definition refused :: "string \<Rightarrow> bool" where
  "refused sql \<longleftrightarrow> (case parse_sql sql of Inl (RuntimeError _) \<Rightarrow> True | _ \<Rightarrow> False) \<and>
     (case read_token sql of Some (w, _) \<Rightarrow> ToUpper w \<in> {''CREATE'', ''INSERT'', ''SELECT'', ''UPDATE'', ''DELETE''} | None \<Rightarrow> False)"

lemma refused_line:
  assumes "refused sql"
  shows "\<exists>msg. kv_line sql e = (Inr (ShellPrinted (''ERROR: '' @ msg @ [newline])), e)"
proof -
  obtain msg where msg: "parse_sql sql = Inl (RuntimeError msg)" using assms by (auto simp: refused_def split: sum.splits exn.splits)
  have "kv_line sql e = sql_command sql e" using assms by (auto simp: kv_line_def refused_def split: option.splits)
  then show ?thesis by (auto simp: sql_command_def Execute_def ebind_def elift_def msg say_def)
qed

definition help_examples :: "string list" where
  "help_examples = [''CREATE TABLE t (id TEXT PRIMARY KEY, name TEXT, age INT)'',
     ''INSERT INTO t (id, name, age) VALUES ('' @ quoted ''u1'' @ '', '' @ quoted ''Alice'' @ '', 30)'',
     ''SELECT * FROM t WHERE age > 20'', ''UPDATE t SET age = 31 WHERE id = '' @ quoted ''u1'',
     ''DELETE FROM t WHERE id = '' @ quoted ''u1'']"

lemma help_examples_refused: "list_all refused help_examples"
  by code_simp

text \<open>None of the SQL statements that the program gives as examples in its help is accepted by it: the parser wants the
  name of a database in front of every table; each of them prints an error and leaves the store as it is.\<close>

theorem kv_help_examples_refused:
  "list_all (\<lambda>sql. \<exists>msg. kv_line sql e = (Inr (ShellPrinted (''ERROR: '' @ msg @ [newline])), e)) help_examples"
  using help_examples_refused by (rule list.pred_mono_strong) (rule refused_line)

end
