(* ===== verification/Desktop.thy ===== *)
theory Desktop
  imports Shell Lexer
begin

text \<open>
  The logic of the desktop client, \<^verbatim>\<open>src/ui/main.cpp\<close>: what it reads from its text fields, how it completes a statement
  with the name of the selected database, what it sends, and how it takes a result apart into a table.  The widgets and
  the window, and the elapsed time shown with a result, are left out: an operation here is what a button does.  Shown: a
  completed statement is the statement with the two tokens of the qualification in front of the table's name, and
  sometimes in front of something else; a table that is printed is read back but for what the format cannot carry.
\<close>

section \<open>Fields\<close>

text \<open>\<^verbatim>\<open>std::stoul\<close> on the platform of this program, whose \<^verbatim>\<open>unsigned long\<close> has 32 bits.\<close>

definition ui_stoul :: "string \<Rightarrow> 32 word res" where
  "ui_stoul s = (case sto_parse s of
       None \<Rightarrow> Inl (InvalidArgument ''stoul'')
     | Some (neg, n) \<Rightarrow>
         if 2 ^ 32 \<le> n then Inl (OutOfRange ''stoul'') else Inr (if neg then - of_nat n else of_nat n))"

text \<open>An entry that does not read as a peer is skipped.\<close>

definition ui_peer :: "string \<Rightarrow> (NodeId \<times> PeerAddress) option" where
  "ui_peer entry = (case find_char CHR ''='' entry of
       None \<Rightarrow> None
     | Some eq \<Rightarrow> (case find_char CHR '':'' (drop eq entry) of
           None \<Rightarrow> None
         | Some c \<Rightarrow>
             let colon = eq + c
             in case rbind (ui_stoul (take eq entry)) (\<lambda>id. rbind (ui_stoul (drop (colon + 1) entry)) (\<lambda>p.
                  Inr (id, \<lparr>host = take (colon - eq - 1) (drop (eq + 1) entry), port = ucast p\<rparr>))) of
                  Inl _ \<Rightarrow> None
                | Inr p \<Rightarrow> Some p))"

definition ui_ParsePeerSpec :: "string \<Rightarrow> peer_map" where
  "ui_ParsePeerSpec spec =
     omap_of_list (map the (filter (\<lambda>p. p \<noteq> None) (map ui_peer (filter (\<lambda>e. e \<noteq> []) (getlines CHR '','' spec)))))"

definition ui_FormatPeerSpec :: "peer_map \<Rightarrow> string" where
  "ui_FormatPeerSpec ps = (case map format_peer ps of [] \<Rightarrow> [] | e # es \<Rightarrow> e @ concat (map (\<lambda>q. CHR '','' # q) es))"

definition ParseHostPort :: "string \<Rightarrow> (string \<times> 16 word) option" where
  "ParseHostPort s = (case find_char CHR '':'' s of
       None \<Rightarrow> None
     | Some colon \<Rightarrow> (case ui_stoul (drop (colon + 1) s) of
           Inl _ \<Rightarrow> None
         | Inr p \<Rightarrow> if take colon s = [] then None else Some (take colon s, ucast p)))"

section \<open>Statements\<close>

definition keyword_is :: "Token \<Rightarrow> string set \<Rightarrow> bool" where
  "keyword_is t words \<longleftrightarrow> type t = kIdentifier \<and> ToUpper (tok_text t) \<in> words"

text \<open>The index of the token behind the first one that introduces a table.\<close>

fun table_index :: "nat \<Rightarrow> Token list \<Rightarrow> nat option" where
  "table_index i (t # t' # ts) =
     (if keyword_is t {''TABLE'', ''INTO'', ''FROM''} then Some (i + 1) else table_index (i + 1) (t' # ts))"
| "table_index i ts = None"

definition table_token :: "Token list \<Rightarrow> nat option" where
  "table_token ts =
     (if ts \<noteq> [] \<and> keyword_is (hd ts) {''SHOW''} then None
      else if ts \<noteq> [] \<and> keyword_is (hd ts) {''UPDATE''} then Some 1
      else table_index 0 ts)"

definition qualified_at :: "Token list \<Rightarrow> nat \<Rightarrow> bool" where
  "qualified_at ts n \<longleftrightarrow> n + 1 < length ts \<and> type (ts ! (n + 1)) = kSymbol \<and> tok_text (ts ! (n + 1)) = ''.''"

definition QualifyIfBare :: "string \<Rightarrow> string \<Rightarrow> string" where
  "QualifyIfBare line db =
     (if db = [] then line
      else case Tokenize line of
          Inl _ \<Rightarrow> line
        | Inr tokens \<Rightarrow> (case table_token tokens of
              None \<Rightarrow> line
            | Some n \<Rightarrow>
                if length tokens \<le> n \<or> type (tokens ! n) \<noteq> kIdentifier \<or> qualified_at tokens n then line
                else take (tok_offset (tokens ! n)) line @ db @ ''.'' @ drop (tok_offset (tokens ! n)) line))"

definition FormatClientResponse :: "ClientResponse \<Rightarrow> string" where
  "FormatClientResponse resp =
     (if crr_success resp
      then ''OK (committed at index '' @ to_string (crr_index resp) @ '', via leader node '' @
        to_string (unat (crr_leader_hint resp)) @ '')''
      else ''FAILED'' @
        (if crr_not_leader resp \<and> crr_leader_hint resp \<noteq> 0
         then '' (best known leader is node '' @ to_string (unat (crr_leader_hint resp)) @ '', but still failed'' @
           (if crr_error resp \<noteq> [] then '': '' @ crr_error resp else []) @ '' - retry)''
         else if crr_error resp \<noteq> [] then '' ('' @ crr_error resp @ '')'' else []))"

datatype ResultKind = kTextResult | kTableResult | kErrorResult

record StatementResult =
  sr_kind :: ResultKind
  sr_text :: string

definition error_result :: "string \<Rightarrow> StatementResult" where
  "error_result msg = \<lparr>sr_kind = kErrorResult, sr_text = ''ERROR: '' @ msg\<rparr>"

definition SendStatement :: "'w network \<Rightarrow> peer_map \<Rightarrow> string \<Rightarrow> ('w client, StatementResult) eff" where
  "SendStatement net ps line =
     (if ps = [] then eret (error_result ''no peers configured - enter a peer list first'')
      else case parse_sql line of
          Inl e \<Rightarrow> if e = Undefined then ethrow e else eret (error_result (what e))
        | Inr parsed \<Rightarrow> ecatch
            (if is_select parsed \<or> is_show parsed
             then ebind (SendReadRequest net ps line 3000) (\<lambda>text. eret \<lparr>sr_kind = kTableResult, sr_text = text\<rparr>)
             else ebind (SendClientRequest net ps line 3000) (\<lambda>resp.
                    eret \<lparr>sr_kind = (if crr_success resp then kTextResult else kErrorResult), sr_text = FormatClientResponse resp\<rparr>))
            (\<lambda>e. eret (error_result (what e))))"

section \<open>Tables\<close>

definition TryParseSelectTable :: "string \<Rightarrow> (string list \<times> string list list) option" where
  "TryParseSelectTable text = (case getlines newline text of
       [] \<Rightarrow> None
     | header_line # ls \<Rightarrow>
         if header_line = [] then None
         else let headers = getlines CHR 0x09 header_line
              in if headers = [] then None
                 else Some (headers, map (getlines CHR 0x09) (filter (\<lambda>l. l \<noteq> ''(0 rows)'') ls)))"

record HistoryEntry =
  he_kind :: ResultKind
  he_text :: string
  he_headers :: "string list"
  he_rows :: "string list list"
  he_timed :: bool

definition MakeHistoryEntry :: "ResultKind \<Rightarrow> string \<Rightarrow> HistoryEntry" where
  "MakeHistoryEntry kind text =
     (case (if kind = kTableResult then TryParseSelectTable text else None) of
        Some (headers, rows) \<Rightarrow> \<lparr>he_kind = kTableResult, he_text = text, he_headers = headers, he_rows = rows, he_timed = False\<rparr>
      | None \<Rightarrow> \<lparr>he_kind = (if kind = kTableResult then kTextResult else kind), he_text = text, he_headers = [], he_rows = [],
          he_timed = False\<rparr>)"

section \<open>Buttons\<close>

record 'w Ui =
  seed_field :: string
  peers_field :: string
  database_field :: string
  command_field :: string
  known_databases :: "string list"
  history :: "HistoryEntry list"
  ui_client :: "'w client"

definition push_history :: "HistoryEntry \<Rightarrow> ('w Ui, unit) eff" where
  "push_history entry = emodify (\<lambda>ui. ui\<lparr>history := history ui @ [entry]\<rparr>)"

definition ui_send :: "'w network \<Rightarrow> peer_map \<Rightarrow> string \<Rightarrow> ('w Ui, StatementResult) eff" where
  "ui_send net ps line ui = (case SendStatement net ps line (ui_client ui) of (r, c) \<Rightarrow> (r, ui\<lparr>ui_client := c\<rparr>))"

definition refresh_known_databases :: "StatementResult \<Rightarrow> ('w Ui, unit) eff" where
  "refresh_known_databases result = emodify (\<lambda>ui.
     case (if sr_kind result = kTableResult then TryParseSelectTable (sr_text result) else None) of
       None \<Rightarrow> ui
     | Some (headers, rows) \<Rightarrow> ui\<lparr>known_databases := map hd (filter (\<lambda>row. row \<noteq> []) rows)\<rparr>)"

text \<open>A copy into a buffer of \<open>n\<close> characters, read back as the string that its first zero ends.\<close>

definition into_buffer :: "nat \<Rightarrow> string \<Rightarrow> string" where
  "into_buffer n s = takeWhile (\<lambda>c. c \<noteq> CHR 0x00) (take (n - 1) s)"

definition discover_pressed :: "'w network \<Rightarrow> ('w Ui, unit) eff" where
  "discover_pressed net ui = (case ParseHostPort (seed_field ui) of
       None \<Rightarrow> push_history (MakeHistoryEntry kErrorResult ''ERROR: seed must be host:port'') ui
     | Some (h, p) \<Rightarrow> ecatch
         (\<lambda>ui. case DiscoverCluster net \<lparr>host = h, port = p\<rparr> 3000 (ui_client ui) of
            (Inl e, c) \<Rightarrow> (Inl e, ui\<lparr>ui_client := c\<rparr>)
          | (Inr discovered, c) \<Rightarrow>
              let formatted = ui_FormatPeerSpec discovered
              in ebind (push_history (MakeHistoryEntry kTextResult
                     (''Discovered '' @ to_string (length discovered) @ '' peer(s) from '' @ seed_field ui @ '': '' @ formatted)))
                   (\<lambda>_. ebind (ui_send net discovered ''SHOW DATABASES'') refresh_known_databases)
                   (ui\<lparr>ui_client := c, peers_field := into_buffer 256 formatted\<rparr>))
         (\<lambda>e. push_history (MakeHistoryEntry kErrorResult (''ERROR: '' @ what e))) ui)"

text \<open>A statement with its echo; the peers are read from their field in every frame.\<close>

definition ui_run_statement :: "'w network \<Rightarrow> string \<Rightarrow> ('w Ui, StatementResult) eff" where
  "ui_run_statement net line =
     ebind (push_history (MakeHistoryEntry kTextResult (''> '' @ line))) (\<lambda>_.
     ebind (\<lambda>ui. ui_send net (ui_ParsePeerSpec (peers_field ui)) line ui) (\<lambda>result.
     ebind (push_history ((MakeHistoryEntry (sr_kind result) (sr_text result))\<lparr>he_timed := True\<rparr>)) (\<lambda>_. eret result)))"

definition databases_pressed :: "'w network \<Rightarrow> ('w Ui, unit) eff" where
  "databases_pressed net = ebind (ui_run_statement net ''SHOW DATABASES'') refresh_known_databases"

definition tables_pressed :: "'w network \<Rightarrow> ('w Ui, unit) eff" where
  "tables_pressed net ui =
     (if database_field ui = [] then push_history (MakeHistoryEntry kErrorResult ''ERROR: enter a database name above first'') ui
      else ebind (ui_run_statement net (''SHOW TABLES FROM '' @ database_field ui)) (\<lambda>_. eret ()) ui)"

definition select_database :: "string \<Rightarrow> ('w Ui, unit) eff" where
  "select_database db = emodify (\<lambda>ui. ui\<lparr>database_field := into_buffer 128 db\<rparr>)"

definition send_pressed :: "'w network \<Rightarrow> ('w Ui, unit) eff" where
  "send_pressed net ui =
     (if command_field ui = [] then (Inr (), ui)
      else let line = QualifyIfBare (command_field ui) (database_field ui);
               was_create_database = (case parse_sql line of Inr (CreateDatabase _) \<Rightarrow> True | _ \<Rightarrow> False)
           in ebind (ui_run_statement net line) (\<lambda>result.
              ebind (if was_create_database \<and> sr_kind result \<noteq> kErrorResult
                     then ebind (\<lambda>ui. ui_send net (ui_ParsePeerSpec (peers_field ui)) ''SHOW DATABASES'' ui) refresh_known_databases
                     else eret ())
                (\<lambda>_. emodify (\<lambda>ui. ui\<lparr>command_field := []\<rparr>))) ui)"

section \<open>A qualified statement\<close>

text \<open>A run of the tokenizer can be taken up at any of its tokens, and moved.\<close>

definition shift_token :: "nat \<Rightarrow> Token \<Rightarrow> Token" where
  "shift_token k t = t\<lparr>tok_offset := k + tok_offset t\<rparr>"

lemma lexeme_shift [simp]: "lexeme_of (shift_token k t) = lexeme_of t"
  by (simp add: lexeme_of_def shift_token_def)

lemma lex_step_shift: "lex_step (k + i) c cs = rbind (lex_step i c cs) (\<lambda>(ts, rest). Inr (map (shift_token k) ts, rest))"
proof -
  let ?f = "\<lambda>(ts :: Token list, rest :: string). Inr (map (shift_token k) ts, rest)"
  have d: "rbind (if b then x else y) ?f = (if b then rbind x ?f else rbind y ?f)" for b and x y :: "(Token list \<times> string) res"
    by simp
  have s: "rbind (lex_string cs) (\<lambda>(v, rest). Inr ([\<lparr>type = kString, tok_text = v, tok_offset = k + i\<rparr>], rest)) =
      rbind (rbind (lex_string cs) (\<lambda>(v, rest). Inr ([\<lparr>type = kString, tok_text = v, tok_offset = i\<rparr>], rest))) ?f"
    by (cases "lex_string cs") (auto simp: shift_token_def)
  show ?thesis
    unfolding lex_step_def Let_def d s by (simp only: rbind_simps list.map prod.case) (simp only: shift_token_def Token.simps)
qed

lemma tokenize_loop_shift: "tokenize_loop (k + i) s = rbind (tokenize_loop i s) (\<lambda>ts. Inr (map (shift_token k) ts))"
proof (induction i s rule: tokenize_loop.induct)
  case (2 i c cs)
  show ?case
  proof (cases "lex_step i c cs")
    case (Inr r)
    obtain ts rest where r: "r = (ts, rest)" by (cases r)
    let ?n = "length (c # cs) - length rest"
    have "tokenize_loop (k + i + ?n) rest = rbind (tokenize_loop (i + ?n) rest) (\<lambda>ts. Inr (map (shift_token k) ts))"
      using "2.IH" [OF Inr r [symmetric]] by (simp only: add.assoc)
    then show ?thesis using Inr r
      by (cases "tokenize_loop (i + ?n) rest") (simp_all add: lex_step_shift del: length_Cons)
  qed (simp add: lex_step_shift)
qed (simp add: shift_token_def)

lemma lex_step_consumes:
  assumes "lex_step i c cs = Inr (us, rest)"
  shows "us = [] \<and> rest = cs \<or> (\<exists>t sp. us = [t] \<and> sp \<noteq> [] \<and> c # cs = sp @ rest \<and> tok_offset t = i)"
proof -
  have "sp \<noteq> []" if "c # cs = sp @ rest" for sp using lex_step_length [OF assms] that by (cases sp) auto
  with lex_step_spells [OF assms] show ?thesis by blast
qed

lemma tokenize_loop_offsets: "tokenize_loop i s = Inr ts \<Longrightarrow> t \<in> set ts \<Longrightarrow> i \<le> tok_offset t \<and> tok_offset t \<le> i + length s"
proof (induction i s arbitrary: ts rule: tokenize_loop.induct)
  case (2 i c cs)
  then obtain us rest more where s: "lex_step i c cs = Inr (us, rest)"
    and m: "tokenize_loop (i + (length (c # cs) - length rest)) rest = Inr more" and ts: "ts = us @ more"
    by (auto simp: rbind_Inr_iff split: sum.splits)
  have "length rest < length (c # cs)" by (rule lex_step_length [OF s])
  with "2.IH" [OF s refl m] lex_step_consumes [OF s] ts "2.prems"(2) show ?case by fastforce
qed simp

text \<open>What the tokenizer does before the start of an identifier does not depend on which identifier starts there.\<close>

lemma ident_start_classes:
  assumes "IsIdentStart x"
  shows "\<not> isspace x" "\<not> isdigit x" "IsIdentChar x" "x \<noteq> quote_char" "x \<noteq> CHR ''=''" "x \<noteq> CHR ''>''" "x \<noteq> CHR ''.''"
  using assms
  by (auto simp: isspace_def IsIdentStart_def IsIdentChar_def isalnum_def isalpha_def isupper_def islower_def isdigit_def)

lemma while_before:
  assumes "\<not> P x"
  shows "takeWhile P (p @ x # r) = takeWhile P p" "dropWhile P (p @ x # r) = dropWhile P p @ x # r"
  using assms by (induction p) auto

lemma while_within:
  assumes "P x" and "length r < length (dropWhile P (p @ x # r))"
  shows "takeWhile P (p @ r') = takeWhile P p" "dropWhile P (p @ r') = dropWhile P p @ r'"
proof -
  have "\<exists>c \<in> set p. \<not> P c"
  proof (rule ccontr)
    assume "\<not> (\<exists>c \<in> set p. \<not> P c)"
    then have "dropWhile P (p @ x # r) = dropWhile P r" using assms(1) by (simp add: dropWhile_append)
    then show False using assms(2) length_dropWhile_le [of P r] by simp
  qed
  then show "takeWhile P (p @ r') = takeWhile P p" "dropWhile P (p @ r') = dropWhile P p @ r'"
    by (auto simp: takeWhile_append dropWhile_append)
qed

lemma lex_string_local:
  assumes "lex_string (p @ x # r) = Inr (v, rest)" and "length r < length rest" and "x \<noteq> quote_char" and "y \<noteq> quote_char"
  shows "\<exists>q. rest = q @ x # r \<and> lex_string (p @ y # r') = Inr (v, q @ y # r') \<and> length q < length p"
  using assms(1,2)
proof (induction "length p" arbitrary: p v rule: less_induct)
  case less
  show ?case
  proof (cases p)
    case Nil
    then show ?thesis using less.prems assms(3) lex_string_length by (fastforce simp: rbind_Inr_iff)
  next
    case (Cons c cs)
    show ?thesis
    proof (cases "c = quote_char")
      case quoted: True
      show ?thesis
      proof (cases "cs \<noteq> [] \<and> hd cs = quote_char")
        case True
        then obtain cs' where cs: "cs = quote_char # cs'" by (cases cs) auto
        obtain v' where v': "lex_string (cs' @ x # r) = Inr (v', rest)" "v = quote_char # v'"
          using less.prems(1) Cons quoted cs by (auto simp: rbind_Inr_iff)
        from less.hyps [OF _ v'(1) less.prems(2)] Cons cs obtain q where
          "rest = q @ x # r" "lex_string (cs' @ y # r') = Inr (v', q @ y # r')" "length q < length cs'" by auto
        then show ?thesis using Cons quoted cs v'(2) by simp
      next
        case False
        then show ?thesis using less.prems Cons quoted assms(3,4) by (cases cs) auto
      qed
    next
      case False
      then obtain v' where v': "lex_string (cs @ x # r) = Inr (v', rest)" "v = c # v'"
        using less.prems(1) Cons by (auto simp: rbind_Inr_iff)
      from less.hyps [OF _ v'(1) less.prems(2)] Cons obtain q where
        "rest = q @ x # r" "lex_string (cs @ y # r') = Inr (v', q @ y # r')" "length q < length cs" by auto
      then show ?thesis using Cons False v'(2) by simp
    qed
  qed
qed

lemma lex_step_local:
  assumes "lex_step i c (p @ x # r) = Inr (us, rest)" and "length r < length rest" and "IsIdentStart x" and "IsIdentStart y"
  shows "\<exists>q. rest = q @ x # r \<and> lex_step i c (p @ y # r') = Inr (us, q @ y # r') \<and> length q \<le> length p"
proof -
  note x = ident_start_classes [OF assms(3)] and y = ident_start_classes [OF assms(4)]
  have len: "length (dropWhile P p) \<le> length p" for P by (rule length_dropWhile_le)
  consider "isspace c" | "\<not> isspace c" "IsIdentStart c" | "\<not> isspace c" "\<not> IsIdentStart c" "isdigit c"
    | "\<not> isspace c" "\<not> IsIdentStart c" "\<not> isdigit c" "c = CHR ''-''" "p \<noteq> []" "isdigit (hd p)"
    | "\<not> isspace c" "\<not> IsIdentStart c" "\<not> isdigit c" "c = quote_char"
    | "\<not> isspace c" "\<not> IsIdentStart c" "\<not> isdigit c" "c \<noteq> quote_char" "\<not> (c = CHR ''-'' \<and> p \<noteq> [] \<and> isdigit (hd p))"
    by blast
  then show ?thesis
  proof cases
    case 2
    then have c: "IsIdentChar c" by (simp add: ident_start_classes)
    with 2 assms(1) have rest: "rest = dropWhile IsIdentChar (p @ x # r)" by (simp add: lex_step_def)
    note w = while_within [of IsIdentChar x r p, OF x(3) assms(2) [unfolded rest]]
    show ?thesis using assms(1) 2 c w len [of IsIdentChar] by (auto simp: lex_step_def)
  next
    case 3
    then show ?thesis using assms(1) while_before [of isdigit, OF x(2)] while_before [of isdigit, OF y(2)] len [of isdigit]
      by (auto simp: lex_step_def)
  next
    case 4
    then show ?thesis using assms(1) while_before [of isdigit, OF x(2)] while_before [of isdigit, OF y(2)] len [of isdigit]
      by (auto simp: lex_step_def)
  next
    case 5
    then obtain v where "lex_string (p @ x # r) = Inr (v, rest)" "us = [\<lparr>type = kString, tok_text = v, tok_offset = i\<rparr>]"
      using assms(1) by (auto simp: lex_step_def rbind_Inr_iff)
    from lex_string_local [OF this(1) assms(2) x(4) y(4), of r'] obtain q where q: "rest = q @ x # r"
      "lex_string (p @ y # r') = Inr (v, q @ y # r')" "length q < length p" by (elim exE conjE) (rule that)
    then have "lex_step i c (p @ y # r') = Inr (us, q @ y # r')"
      using 5 \<open>us = _\<close> by (simp add: lex_step_def char_classes)
    with q show ?thesis by auto
  next
    case 6
    show ?thesis
    proof (cases p)
      case Nil
      have alone: "lex_step i c (z # zs) = (if c \<in> set ''(),;*=<>.''
          then Inr ([\<lparr>type = kSymbol, tok_text = [c], tok_offset = i\<rparr>], z # zs)
          else Inl (RuntimeError (''unexpected character in SQL: '' @ [quote_char, c, quote_char])))"
        if "z \<noteq> CHR ''=''" "z \<noteq> CHR ''>''" "\<not> isdigit z" for z zs
        using 6(1-4) that by (simp add: lex_step_def Let_def del: list.set)
      show ?thesis using assms(1) Nil x y alone [of x r] alone [of y r']
        by (simp del: list.set split: if_split_asm)
    next
      case (Cons d p')
      with 6 assms(1) have "(\<forall>zs. lex_step i c (d # zs) = Inr (us, zs)) \<and> rest = p' @ x # r \<or>
          (\<forall>zs. lex_step i c (d # zs) = Inr (us, d # zs)) \<and> rest = d # p' @ x # r"
        by (auto simp: lex_step_def Let_def simp del: list.set split: if_split_asm)
      then show ?thesis using Cons by auto
    qed
  qed (use assms(1) in \<open>auto simp: lex_step_def\<close>)
qed

lemma tokenize_loop_step:
  assumes "tokenize_loop i (c # cs) = Inr ts"
  obtains us rest more where "lex_step i c cs = Inr (us, rest)"
    and "tokenize_loop (i + (length (c # cs) - length rest)) rest = Inr more" and "ts = us @ more"
  using assms by (auto simp: rbind_Inr_iff split: sum.splits)

lemma tokenize_splice:
  assumes "tokenize_loop i (p @ x # r) = Inr ts" and "n < length ts" and "tok_offset (ts ! n) = i + length p"
    and "IsIdentStart x" and "IsIdentStart y"
  shows "tokenize_loop (i + length p) (x # r) = Inr (drop n ts) \<and>
    tokenize_loop i (p @ y # r') = rbind (tokenize_loop (i + length p) (y # r')) (\<lambda>m. Inr (take n ts @ m))"
  using assms(1-3)
proof (induction "length p" arbitrary: i p n ts rule: less_induct)
  case less
  have "p @ x # r \<noteq> []" by simp
  then obtain c cs where s: "p @ x # r = c # cs" by (cases "p @ x # r") auto
  obtain us rest more where step: "lex_step i c cs = Inr (us, rest)"
    and more: "tokenize_loop (i + (length (c # cs) - length rest)) rest = Inr more" and ts: "ts = us @ more"
    using tokenize_loop_step [OF less.prems(1) [unfolded s]] .
  let ?i = "i + (length (c # cs) - length rest)"
  have short: "length rest < length (c # cs)" by (rule lex_step_length [OF step])
  have later: "i < ?i" "m \<in> set more \<Longrightarrow> ?i \<le> tok_offset m" for m using short tokenize_loop_offsets [OF more] by auto
  have first: "us = [] \<and> rest = cs \<or> (\<exists>t. us = [t] \<and> tok_offset t = i)" using lex_step_consumes [OF step] by blast
  show ?case
  proof (cases p)
    case Nil
    then have "c = x" "cs = r" using s by simp_all
    then have "us \<noteq> []" using lex_step_spells [OF step] ident_start_classes(1) [OF assms(4)] by auto
    with first obtain t where t: "us = [t]" by auto
    have "n = 0"
    proof (rule ccontr)
      assume "n \<noteq> 0"
      then have "ts ! n \<in> set more" using less.prems(2) t ts by (cases n) auto
      then show False using later less.prems(3) Nil by fastforce
    qed
    then show ?thesis using Nil less.prems(1) by (cases "tokenize_loop i (y # r')") (simp_all del: tokenize_loop.simps)
  next
    case (Cons d p')
    then have c: "c = d" "cs = p' @ x # r" using s by simp_all
    have n: "length us \<le> n"
    proof (rule ccontr)
      assume "\<not> length us \<le> n"
      then have "us = [ts ! n]" "tok_offset (ts ! n) = i" using first ts by (cases n; auto)+
      then show False using less.prems(3) Cons by simp
    qed
    then have at: "ts ! n = more ! (n - length us)" "n - length us < length more"
      using ts less.prems(2) by (auto simp: nth_append)
    then have "?i \<le> i + length p" using later(2) less.prems(3) by (metis nth_mem)
    then have "length r < length rest" using short c Cons by auto
    from lex_step_local [OF step [unfolded c] this assms(4,5), of r'] obtain q where q: "rest = q @ x # r"
      "lex_step i d (p' @ y # r') = Inr (us, q @ y # r')" "length q \<le> length p'" by (elim exE conjE) (rule that)
    have i: "?i = i + (length p - length q)" "?i + length q = i + length p" using c q Cons by auto
    have "tokenize_loop (?i + length q) (x # r) = Inr (drop (n - length us) more) \<and>
        tokenize_loop ?i (q @ y # r') = rbind (tokenize_loop (?i + length q) (y # r')) (\<lambda>m. Inr (take (n - length us) more @ m))"
    proof (rule less.hyps)
      show "tokenize_loop ?i (q @ x # r) = Inr more" using more by (simp only: q(1))
      show "tok_offset (more ! (n - length us)) = ?i + length q" using less.prems(3) at(1) i(2) by (simp only:)
    qed (use q(3) Cons at(2) in simp_all)
    note IH = this [unfolded i(2)]
    have "tokenize_loop i (p @ y # r') = rbind (tokenize_loop ?i (q @ y # r')) (\<lambda>m. Inr (us @ m))"
      using q(2) Cons i(1) by simp
    also have "\<dots> = rbind (tokenize_loop (i + length p) (y # r')) (\<lambda>m. Inr (take n ts @ m))"
      using IH ts n by (cases "tokenize_loop (i + length p) (y # r')") (simp_all del: tokenize_loop.simps)
    finally show ?thesis using IH ts n by (simp del: tokenize_loop.simps)
  qed
qed

lemma identifier_at:
  assumes "tokenize_loop i s = Inr ts" and "n < length ts" and "type (ts ! n) = kIdentifier"
  obtains p x r where "s = p @ x # r" and "IsIdentStart x" and "tok_offset (ts ! n) = i + length p"
proof -
  have "\<exists>p x r. s = p @ x # r \<and> IsIdentStart x \<and> tok_offset (ts ! n) = i + length p"
    using assms
  proof (induction i s arbitrary: ts n rule: tokenize_loop.induct)
    case (2 i c cs)
    obtain us rest more where step: "lex_step i c cs = Inr (us, rest)"
      and more: "tokenize_loop (i + (length (c # cs) - length rest)) rest = Inr more" and ts: "ts = us @ more"
      using tokenize_loop_step [OF "2.prems"(1)] .
    have short: "length rest < length (c # cs)" by (rule lex_step_length [OF step])
    from lex_step_spells [OF step] obtain sp where sp: "c # cs = sp @ rest"
      "us = [] \<or> (\<exists>t. us = [t] \<and> tok_offset t = i \<and> spells (type t) (tok_text t) sp)"
      by (metis append_Cons append_Nil)
    show ?case
    proof (cases "n < length us")
      case True
      with sp(2) ts obtain t where t: "ts ! n = t" "tok_offset t = i" "spells (type t) (tok_text t) sp"
        by (cases n) auto
      then have "is_ident sp" using "2.prems"(3) by simp
      then have "IsIdentStart c" using sp(1) by (cases sp) (auto simp: is_ident_def)
      then have "c # cs = [] @ c # cs \<and> IsIdentStart c \<and> tok_offset (ts ! n) = i + length []" using t by simp
      then show ?thesis by blast
    next
      case False
      with ts "2.prems" have "n - length us < length more" "type (more ! (n - length us)) = kIdentifier"
        by (auto simp: nth_append)
      from "2.IH" [OF step refl more this] obtain p x r where
        "rest = p @ x # r" "IsIdentStart x" "tok_offset (more ! (n - length us)) = i + (length (c # cs) - length rest) + length p"
        by (elim exE conjE) (rule that)
      moreover have "length (c # cs) - length rest = length sp" using sp(1) by (metis add_diff_cancel_right' length_append)
      ultimately have "c # cs = (sp @ p) @ x # r \<and> IsIdentStart x \<and> tok_offset (ts ! n) = i + length (sp @ p)"
        using sp(1) False ts by (simp add: nth_append)
      then show ?thesis by blast
    qed
  qed auto
  then show ?thesis using that by blast
qed

lemma tokenize_qualifier:
  assumes "is_ident db" and "tokenize_loop i s = Inr ts"
  shows "\<exists>us. tokenize_loop i (db @ ''.'' @ s) = Inr us \<and> map lexeme_of us = [(kIdentifier, db), (kSymbol, ''.'')] @ map lexeme_of ts"
proof -
  obtain y db' where db: "db = y # db'" and y: "IsIdentStart y" and ident: "\<forall>c \<in> set db. IsIdentChar c"
    using assms(1) by (cases db) (auto simp: is_ident_def)
  have dot: "\<not> IsIdentChar CHR ''.''" "\<not> isspace CHR ''.''" "\<not> IsIdentStart CHR ''.''" "\<not> isdigit CHR ''.''"
    by (simp_all add: isspace_def IsIdentStart_def IsIdentChar_def isalnum_def isalpha_def isupper_def islower_def isdigit_def)
  have "lex_step i y (db' @ ''.'' @ s) = Inr ([\<lparr>type = kIdentifier, tok_text = db, tok_offset = i\<rparr>], ''.'' @ s)"
    using takeWhile_all [OF ident dot(1), of s] y db ident_start_classes(1) [OF y] by (simp add: lex_step_def)
  moreover have "lex_step j CHR ''.'' s = Inr ([\<lparr>type = kSymbol, tok_text = ''.'', tok_offset = j\<rparr>], s)" for j
    by (simp add: lex_step_def dot)
  moreover have "tokenize_loop (length db + 1 + i) s = Inr (map (shift_token (length db + 1)) ts)"
    by (simp only: tokenize_loop_shift assms(2) rbind_simps)
  moreover have "map lexeme_of (map (shift_token k) ts) = map lexeme_of ts" for k by simp
  ultimately show ?thesis using db by (simp add: add.commute lexeme_of_def)
qed

text \<open>The place of a statement's tokens where the name of the database goes.\<close>

definition bare_name :: "Token list \<Rightarrow> nat option" where
  "bare_name ts = (case table_token ts of
       None \<Rightarrow> None
     | Some n \<Rightarrow> if length ts \<le> n \<or> type (ts ! n) \<noteq> kIdentifier \<or> qualified_at ts n then None else Some n)"

text \<open>The statement that the client sends for a typed one, with a database selected: its tokens are the typed ones with the
  database's name and a period in front of the identifier that stands where a table's name is expected, when it is not
  qualified already; the spelling of the rest is kept.  Without such an identifier the statement is sent as it is.\<close>

theorem qualify_exact:
  assumes "Tokenize line = Inr ts" and "is_ident db"
  shows "case bare_name ts of
      None \<Rightarrow> QualifyIfBare line db = line
    | Some n \<Rightarrow> \<exists>us. Tokenize (QualifyIfBare line db) = Inr us \<and>
        map lexeme_of us = take n (map lexeme_of ts) @ [(kIdentifier, db), (kSymbol, ''.'')] @ drop n (map lexeme_of ts)"
proof (cases "bare_name ts")
  case None
  then show ?thesis using assms(1) by (auto simp: QualifyIfBare_def bare_name_def split: option.splits if_splits)
next
  case (Some n)
  then have n: "table_token ts = Some n" "n < length ts" "type (ts ! n) = kIdentifier" "\<not> qualified_at ts n"
    by (auto simp: bare_name_def split: option.splits if_splits)
  note loop = assms(1) [unfolded Tokenize_def]
  obtain p x r where line: "line = p @ x # r" "IsIdentStart x" "tok_offset (ts ! n) = 0 + length p"
    using identifier_at [OF loop n(2,3)] .
  obtain y db' where db: "db = y # db'" "IsIdentStart y" using assms(2) by (cases db) (auto simp: is_ident_def)
  note cut = tokenize_splice [OF loop [unfolded line(1)] n(2) line(3,2) db(2), of "db' @ ''.'' @ x # r"]
  obtain us where us: "tokenize_loop (length p) (db @ ''.'' @ x # r) = Inr us"
    "map lexeme_of us = [(kIdentifier, db), (kSymbol, ''.'')] @ map lexeme_of (drop n ts)"
    using tokenize_qualifier [OF assms(2), of "length p" "x # r" "drop n ts"] cut by (auto simp del: tokenize_loop.simps)
  have "QualifyIfBare line db = p @ db @ ''.'' @ x # r"
    using n assms line db by (simp add: QualifyIfBare_def)
  then have "Tokenize (QualifyIfBare line db) = Inr (take n ts @ us)"
    using cut us(1) db(1) by (simp add: Tokenize_def del: tokenize_loop.simps)
  then show ?thesis using Some us(2) by (simp add: take_map drop_map)
qed

theorem qualify_exact_witness:
  "\<exists>us. Tokenize (QualifyIfBare ''DELETE FROM t'' ''d'') = Inr us \<and>
     map lexeme_of us = [(kIdentifier, ''DELETE''), (kIdentifier, ''FROM''), (kIdentifier, ''d''), (kSymbol, ''.''), (kIdentifier, ''t''), (kEnd, [])]"
proof -
  let ?ts = "[\<lparr>type = kIdentifier, tok_text = ''DELETE'', tok_offset = 0\<rparr>,
    \<lparr>type = kIdentifier, tok_text = ''FROM'', tok_offset = 7\<rparr>, \<lparr>type = kIdentifier, tok_text = ''t'', tok_offset = 12\<rparr>,
    \<lparr>type = kEnd, tok_text = [], tok_offset = 13\<rparr>]"
  have "Tokenize ''DELETE FROM t'' = Inr ?ts" by code_simp
  moreover have "is_ident ''d''" by code_simp
  moreover have "bare_name ?ts = Some 2" by code_simp
  ultimately show ?thesis using qualify_exact [of "''DELETE FROM t''" ?ts "''d''"] by (simp add: lexeme_of_def)
qed

text \<open>The word that introduces a table is sought among all tokens, so a column may be taken for it: a statement that the
  parser accepts, and whose table is qualified, is sent as one that it rejects.\<close>

theorem qualify_breaks_statement:
  "(case parse_sql ''SELECT into FROM d.t'' of Inr s \<Rightarrow> is_select s | Inl _ \<Rightarrow> False) \<and>
   QualifyIfBare ''SELECT into FROM d.t'' ''x'' = ''SELECT into x.FROM d.t'' \<and>
   (case parse_sql (QualifyIfBare ''SELECT into FROM d.t'' ''x'') of Inr _ \<Rightarrow> False | Inl e \<Rightarrow> e \<noteq> Undefined)"
  by code_simp

section \<open>A table read back\<close>

text \<open>A line's cells as they are read: an empty one at the end is lost.\<close>

definition shown :: "string list \<Rightarrow> string list" where
  "shown cells = (if cells \<noteq> [] \<and> last cells = [] then butlast cells else cells)"

lemma getlines_tabbed:
  assumes "\<forall>c \<in> set cells. CHR 0x09 \<notin> set c"
  shows "getlines CHR 0x09 (tabbed cells) = shown cells"
  using assms
proof (induction cells rule: tabbed.induct)
  case 1
  then show ?case by (simp add: getlines_def shown_def)
next
  case (2 x)
  then show ?case using getlines_aux_last [of "CHR 0x09" x "[]"] by (cases "x = []") (simp_all add: getlines_def shown_def)
next
  case (3 x y xs)
  have "getlines CHR 0x09 (tabbed (x # y # xs)) = x # getlines CHR 0x09 (tabbed (y # xs))"
    using getlines_aux_field [of "CHR 0x09" x "[]" "tabbed (y # xs)"] 3 by (simp add: getlines_def)
  with 3 show ?case by (auto simp: shown_def)
qed

lemma tabbed_newline: "newline \<in> set (tabbed cells) \<longleftrightarrow> (\<exists>c \<in> set cells. newline \<in> set c)"
  by (induction cells rule: tabbed.induct) auto

text \<open>The cells of a SELECT's answer, cut at its tabs and line ends.\<close>

abbreviation plain_cells :: "string list \<Rightarrow> bool" where
  "plain_cells cells \<equiv> \<forall>c \<in> set cells. CHR 0x09 \<notin> set c \<and> newline \<notin> set c"

text \<open>The rows that are read: without a last one that is printed as the empty line, and without those that are printed as
  the mark of an empty answer.\<close>

definition read_rows :: "string list list \<Rightarrow> string list list" where
  "read_rows rows = filter (\<lambda>r. tabbed r \<noteq> ''(0 rows)'') (if rows \<noteq> [] \<and> tabbed (last rows) = [] then butlast rows else rows)"

lemma kept_read_rows: "kept (map tabbed rows) = map tabbed (read_rows rows)"
  by (cases "rows = []") (simp_all add: kept_def read_rows_def filter_map o_def last_map map_butlast [symmetric])

text \<open>C23. For a table none of whose cells and headers holds a tab or a line end, what a SELECT prints is read back as the table
  it printed when moreover no row ends in an empty cell and none is the one cell \<^verbatim>\<open>(0 rows)\<close>; in general such a
  table is read back with every row short of an empty last cell, and without the rows that look like the mark and a last
  one that is printed as an empty line.\<close>

theorem select_table_read:
  assumes "plain_cells headers" and "tabbed headers \<noteq> []" and "\<forall>r \<in> set rows. plain_cells r"
  shows "TryParseSelectTable (table_text (tabbed headers) (map tabbed rows)) = Some (shown headers, map shown (read_rows rows)) \<and>
    ((\<forall>r \<in> set rows. r \<noteq> [] \<and> last r \<noteq> [] \<and> r \<noteq> [''(0 rows)'']) \<longrightarrow> map shown (read_rows rows) = rows)"
proof
  let ?ls = "if rows = [] then [''(0 rows)''] else map tabbed rows"
  have nl: "newline \<notin> set (tabbed headers)" "\<forall>l \<in> set ?ls. newline \<notin> set l"
    using assms by (auto simp: tabbed_newline)
  have "getlines newline (table_text (tabbed headers) (map tabbed rows)) =
      tabbed headers # (if last ?ls = [] then butlast ?ls else ?ls)"
    using getlines_rows [OF nl] by (simp add: table_text_def)
  moreover have "filter (\<lambda>l. l \<noteq> ''(0 rows)'') (if last ?ls = [] then butlast ?ls else ?ls) = kept (map tabbed rows)"
    by (simp add: kept_def)
  moreover have "map (getlines CHR 0x09) (kept (map tabbed rows)) = map shown (read_rows rows)"
    using assms(3) getlines_tabbed unfolding kept_read_rows by (auto simp: read_rows_def dest: in_set_butlastD split: if_splits)
  moreover have "getlines CHR 0x09 (tabbed headers) = shown headers" using assms(1) getlines_tabbed by simp
  moreover have "shown headers \<noteq> []" using assms(2) by (cases headers rule: tabbed.cases) (auto simp: shown_def)
  ultimately show "TryParseSelectTable (table_text (tabbed headers) (map tabbed rows)) =
      Some (shown headers, map shown (read_rows rows))"
    using assms(2) by (simp add: TryParseSelectTable_def Let_def)
  show "(\<forall>r \<in> set rows. r \<noteq> [] \<and> last r \<noteq> [] \<and> r \<noteq> [''(0 rows)'']) \<longrightarrow> map shown (read_rows rows) = rows"
  proof
    assume good: "\<forall>r \<in> set rows. r \<noteq> [] \<and> last r \<noteq> [] \<and> r \<noteq> [''(0 rows)'']"
    have cut: "tabbed r = x \<Longrightarrow> CHR 0x09 \<notin> set x \<Longrightarrow> r = [] \<or> r = [x]" for r x
      by (cases r rule: tabbed.cases) auto
    have "tabbed r \<noteq> ''(0 rows)'' \<and> tabbed r \<noteq> []" if "r \<in> set rows" for r
    proof -
      from good that have r: "r \<noteq> []" "last r \<noteq> []" "r \<noteq> [''(0 rows)'']" by blast+
      have "tabbed r \<noteq> ''(0 rows)''" using cut [of r "''(0 rows)''"] r(1,3) by force
      moreover have "tabbed r \<noteq> []" using cut [of r "[]"] r(1,2) by force
      ultimately show ?thesis by blast
    qed
    then have "read_rows rows = rows" by (auto simp: read_rows_def filter_id_conv)
    with good show "map shown (read_rows rows) = rows" by (simp add: shown_def map_idI)
  qed
qed

theorem select_table_read_witness:
  "TryParseSelectTable (table_text (tabbed [''id'', ''v'']) (map tabbed [[''1'', ''a''], [''2'', []]])) =
     Some ([''id'', ''v''], [[''1'', ''a''], [''2'']])"
  using select_table_read [of "[''id'', ''v'']" "[[''1'', ''a''], [''2'', []]]"] by (simp add: shown_def read_rows_def)

end
