(* ===== verification/Cluster.thy ===== *)
theory Cluster
  imports Replica Raft_Apply
begin

text \<open>
  The Raft node on top of the replicated machine, as \<^verbatim>\<open>src/raft_main.cpp\<close> puts them together: \<open>node_callbacks\<close> hands
  the callbacks of \<open>Replica\<close> to the node of \<open>Raft_Node\<close>.  Shown: two nodes whose machines hold the same and whose
  logs agree on what is committed apply it alike, SQL statements and transactions, errors included, and both machines
  stay well formed.
\<close>

text \<open>The node's model takes callbacks that return.  \<open>apply_callback\<close> throws for a command that starts like a control
  command and does not decode; such commands are kept out by \<open>decodes\<close> below, and \<open>Cluster_Throws\<close> has the node that runs them.\<close>

definition node_callbacks :: "StateMachine callbacks" where
  "node_callbacks =
     \<lparr>apply_cb = (\<lambda>index command m. case apply_callback command m of (r, m') \<Rightarrow> (case r of Inl e \<Rightarrow> what e | Inr error \<Rightarrow> error, m')),
      snapshot_cb = snapshot_callback,
      restore_cb = (\<lambda>data m. snd (restore_callback data m)),
      read_cb = (\<lambda>query m. fst (read_callback query m))\<rparr>"

definition decodes :: "string \<Rightarrow> bool" where
  "decodes command \<longleftrightarrow> (case TryDecodeTxnControl command of Inl _ \<Rightarrow> False | Inr _ \<Rightarrow> True)"

text \<open>The commands decode, and the store has room for what each of them writes.\<close>

fun runs_ok :: "(LogIndex \<times> string) list \<Rightarrow> StateMachine \<Rightarrow> bool" where
  "runs_ok [] m \<longleftrightarrow> True"
| "runs_ok ((i, c) # cs) m \<longleftrightarrow> decodes c \<and> has_room c m \<and> runs_ok cs (snd (apply_callback c m))"

lemma run_commands_same:
  assumes "same_machine m m'" and "runs_ok cs m" and "runs_ok cs m'"
  shows "fst (run_commands node_callbacks cs m) = fst (run_commands node_callbacks cs m') \<and>
    same_machine (snd (run_commands node_callbacks cs m)) (snd (run_commands node_callbacks cs m'))"
  using assms
proof (induction cs arbitrary: m m')
  case (Cons p cs)
  obtain i c where p: "p = (i, c)" by (cases p)
  have room: "has_room c m" "has_room c m'" using Cons.prems p by simp_all
  note step = step_same [OF Cons.prems(1) room]
  have "runs_ok cs (snd (apply_callback c m))" "runs_ok cs (snd (apply_callback c m'))" using Cons.prems p by simp_all
  from Cons.IH [OF step(2) this] step(1) show ?case
    by (simp add: p node_callbacks_def case_prod_beta Let_def)
qed simp

lemma run_commands_ok:
  assumes "machine_ok m" and "runs_ok cs m"
  shows "machine_ok (snd (run_commands node_callbacks cs m))"
  using assms
proof (induction cs arbitrary: m)
  case (Cons p cs)
  obtain i c where p: "p = (i, c)" by (cases p)
  have "machine_ok (snd (apply_callback c m))" using machine_ok_apply [THEN conjunct1, of m c] Cons.prems p by simp
  from Cons.IH [OF this] Cons.prems p show ?case by (simp add: node_callbacks_def case_prod_beta Let_def)
qed simp

text \<open>What is committed and not yet applied.\<close>

definition due :: "'s RaftNode \<Rightarrow> (LogIndex \<times> string) list" where
  "due n = commands_at (rlog n) [last_applied n + 1 ..< commit_index n + 1]"

lemma due_same:
  assumes "last_applied n' = last_applied n" and "commit_index n' = commit_index n"
    and "\<forall>i. last_applied n < i \<longrightarrow> i \<le> commit_index n \<longrightarrow> At (rlog n') i = At (rlog n) i"
  shows "due n' = due n"
proof -
  have "commands_at (rlog n') is = commands_at (rlog n) is" if "\<forall>i \<in> set is. At (rlog n') i = At (rlog n) i" for "is"
    using that by (auto simp: commands_at_def intro!: arg_cong [of _ _ concat] map_cong)
  then show ?thesis using assms by (simp add: due_def)
qed

lemma ApplyCommitted_due:
  assumes "node_ok n" and "last_applied n \<le> commit_index n"
  shows "\<exists>k. ApplyCommitted cb n = (Inr (), k) \<and> machine k = snd (run_commands cb (due n) (machine n)) \<and>
    (\<forall>i > last_applied n. map_of (apply_errors k) i = map_of (fst (run_commands cb (due n) (machine n))) i) \<and>
    last_applied k = commit_index n"
  using ApplyCommitted_effect [OF assms, of cb, folded due_def] by (auto simp: case_prod_beta Let_def)

text \<open>C11. Two nodes of a cluster, whose machines hold the same and whose logs agree on the entries that are committed and not
  yet applied, apply them: both get through, their machines hold the same keys, values and prepared transactions
  afterwards, and both remember the same error for the same entries; a machine that was well formed stays so.\<close>

theorem nodes_apply_alike:
  assumes "node_ok n" and "node_ok n'" and "same_machine (machine n) (machine n')"
    and "last_applied n' = last_applied n" and "commit_index n' = commit_index n" and "last_applied n \<le> commit_index n"
    and "\<forall>i. last_applied n < i \<longrightarrow> i \<le> commit_index n \<longrightarrow> At (rlog n') i = At (rlog n) i"
    and "runs_ok (due n) (machine n)" and "runs_ok (due n) (machine n')"
  shows "\<exists>k k'. ApplyCommitted node_callbacks n = (Inr (), k) \<and> ApplyCommitted node_callbacks n' = (Inr (), k') \<and>
    same_machine (machine k) (machine k') \<and> last_applied k = commit_index n \<and> last_applied k' = commit_index n \<and>
    (\<forall>i > last_applied n. map_of (apply_errors k) i = map_of (apply_errors k') i) \<and>
    (machine_ok (machine n) \<longrightarrow> machine_ok (machine k))"
proof -
  have due: "due n' = due n" by (rule due_same [OF assms(4,5,7)])
  let ?r = "run_commands node_callbacks (due n)"
  have la': "last_applied n' \<le> commit_index n'" using assms(4-6) by simp
  obtain k where k: "ApplyCommitted node_callbacks n = (Inr (), k)" "machine k = snd (?r (machine n))"
    "\<forall>i > last_applied n. map_of (apply_errors k) i = map_of (fst (?r (machine n))) i" "last_applied k = commit_index n"
    using ApplyCommitted_due [OF assms(1,6), of node_callbacks] by blast
  obtain k' where k': "ApplyCommitted node_callbacks n' = (Inr (), k')" "machine k' = snd (?r (machine n'))"
    "\<forall>i > last_applied n'. map_of (apply_errors k') i = map_of (fst (?r (machine n'))) i" "last_applied k' = commit_index n'"
    using ApplyCommitted_due [OF assms(2) la', of node_callbacks] unfolding due by blast
  note same = run_commands_same [OF assms(3,8,9)]
  have "machine_ok (machine n) \<longrightarrow> machine_ok (machine k)" using run_commands_ok [OF _ assms(8)] k(2) by simp
  with k k' same assms(4,5) show ?thesis by (intro exI [of _ k] exI [of _ k']) simp
qed

text \<open>Two nodes with a transaction in their logs, committed and not applied, on stores that are laid out differently.\<close>

definition example_log :: RaftLog where
  "example_log = log_Save (log_new\<lparr>lg_entries := [\<lparr>le_index = 1, le_term = 1, le_command = example_prepare\<rparr>,
     \<lparr>le_index = 2, le_term = 1, le_command = EncodeTxnCommit 1\<rparr>]\<rparr>)"

definition example_node :: "StorageEngine \<Rightarrow> StateMachine RaftNode" where
  "example_node e = \<lparr>node_id = 1, own_address = addr3, peers = [(2, addr3)], hard = ps_Set 1 (Some 1) ps_new,
     rlog = example_log, mship = ms_Set [(2, addr3)] True addr3 ms_new, role = Follower,
     leader_hint = 1, commit_index = 2, last_applied = 0, self_is_member = True, pending_self_removal_index = 0,
     joining = False, apply_errors = [], election_deadline = 0, next_heartbeat_time = 0, votes_received = 0,
     last_leader_contact = 0, next_index = [], match_index = [],
     replication_in_flight = {}, machine = \<lparr>sm_engine = e, sm_txns = part_empty\<rparr>\<rparr>"

lemma example_conf: "TryDecodeConfChange example_prepare = Inr None" "TryDecodeConfChange (EncodeTxnCommit t) = Inr None"
  by (simp_all add: TryDecodeConfChange_def example_prepare_def EncodeTxnPrepare_def EncodeTxnCommit_def put_u8_tags)

lemma example_node_ok: "node_ok (example_node e)"
  by (simp add: example_node_def example_log_def node_ok_defs ms_synced_Set omap_ok_def conf_ok_def example_conf decodable_def
      log_ok_def log_new_def less_Suc_eq nth_Cons split: nat.split)

lemma example_due: "due (example_node e) = [(1, example_prepare), (2, EncodeTxnCommit 1)]"
proof -
  have "[Suc 0 ..< 3] = [1, 2]" by (simp add: upt_rec)
  then show ?thesis
    by (simp add: due_def commands_at_def example_node_def example_log_def log_new_def At_def LastIndex_def example_conf)
qed

lemma example_runs_ok:
  assumes "eng_ok e" and "contents e = []" and "eng_used e < 1000"
  shows "runs_ok (due (example_node e')) (machine (example_node e))"
proof -
  have "machine (example_node e) = \<lparr>sm_engine = e, sm_txns = part_empty\<rparr>" by (simp add: example_node_def)
  then show ?thesis using staged_room_all [OF assms] by (simp add: example_due example_apply_prepare decodes_def staged_decode)
qed

theorem nodes_apply_alike_witness:
  "\<exists>e k k'. eng_Delete ''k'' eng_empty = (Inr (), e) \<and>
     ApplyCommitted node_callbacks (example_node eng_empty) = (Inr (), k) \<and>
     ApplyCommitted node_callbacks (example_node e) = (Inr (), k') \<and> same_machine (machine k) (machine k')"
proof -
  obtain e where e: "eng_Delete ''k'' eng_empty = (Inr (), e)" "eng_ok e" "contents e = []" "eng_used e < 1000"
    "eng_Get e = eng_Get eng_empty" using example_stores by blast
  have f: "machine (example_node x) = \<lparr>sm_engine = x, sm_txns = part_empty\<rparr>" "last_applied (example_node x) = 0"
    "commit_index (example_node x) = 2" "rlog (example_node x) = example_log" for x
    by (simp_all add: example_node_def)
  have same: "same_machine (machine (example_node eng_empty)) (machine (example_node e))"
    by (simp add: f same_machine_def eng_ok_empty e)
  have "runs_ok (due (example_node eng_empty)) (machine (example_node eng_empty))"
    by (rule example_runs_ok) (simp_all add: eng_ok_empty contents_empty)
  moreover have "runs_ok (due (example_node eng_empty)) (machine (example_node e))" by (rule example_runs_ok [OF e(2-4)])
  ultimately show ?thesis
    using nodes_apply_alike [OF example_node_ok example_node_ok same] e(1) by (auto simp: f)
qed

end
