(* ===== verification/Cluster_Throws.thy ===== *)
theory Cluster_Throws
  imports Cluster Raft_Replication
begin

text \<open>
  The node of \<^verbatim>\<open>src/raft/node.cpp\<close> with callbacks that may throw, as those of \<^verbatim>\<open>src/raft_main.cpp\<close> do.  The model
  of \<open>Raft_Node\<close> takes callbacks that return; here the critical sections that apply committed entries are written
  out again with an apply callback of type \<open>applier\<close>, whose exception leaves the section in the middle: the entry
  is counted as applied in memory, and neither its effect nor its position is on disk.  In a thread that answers a
  connection, \<^verbatim>\<open>AcceptLoop\<close> (\<^verbatim>\<open>transport.cpp\<close>) swallows the exception and the node goes on with the entry skipped;
  in a thread that waits for a peer's answer nothing catches it and the process ends.

  Shown: the sections either do what the sections of \<open>Raft_Node\<close> do or throw what the callback threw at an entry, and with
  the callback of \<^verbatim>\<open>raft_main.cpp\<close> such an entry is a malformed control command.
\<close>

section \<open>The sections\<close>

type_synonym 's applier = "LogIndex \<Rightarrow> string \<Rightarrow> ('s, string) eff"

definition apply_step_x :: "'s applier \<Rightarrow> ('s RaftNode, unit) eff" where
  "apply_step_x ap n0 =
     (let n = n0\<lparr>last_applied := last_applied n0 + 1\<rparr>;
          finish = (\<lambda>n. (Inr (), n\<lparr>rlog := SetAppliedIndex (last_applied n) (rlog n)\<rparr>))
      in case At (rlog n) (last_applied n) of
           None \<Rightarrow> finish n
         | Some entry \<Rightarrow> (case TryDecodeConfChange (le_command entry) of
               Inl e \<Rightarrow> (Inl e, n)
             | Inr (Some _) \<Rightarrow> finish n
             | Inr None \<Rightarrow> (case ap (le_index entry) (le_command entry) (machine n) of
                   (Inl e, m) \<Rightarrow> (Inl e, n\<lparr>machine := m\<rparr>)
                 | (Inr err, m) \<Rightarrow> finish (n\<lparr>machine := m,
                      apply_errors := (if err \<noteq> [] then omap_set (le_index entry) err (apply_errors n)
                                       else apply_errors n)\<rparr>))))"

definition ApplyCommitted_x :: "'s applier \<Rightarrow> ('s RaftNode, unit) eff" where
  "ApplyCommitted_x ap n =
     ebind (efor [last_applied n ..< commit_index n] (\<lambda>_. apply_step_x ap)) (\<lambda>_. compact_applied) n"

definition commit_from_leader_x :: "'s applier \<Rightarrow> AppendEntriesRequest \<Rightarrow> ('s RaftNode, AppendEntriesResponse) eff" where
  "commit_from_leader_x ap req = ebind RefreshMembership (\<lambda>_.
     ebind (\<lambda>n. if commit_index n < aeq_leader_commit req
                then ApplyCommitted_x ap (n\<lparr>commit_index := min (aeq_leader_commit req) (LastIndex (rlog n))\<rparr>)
                else (Inr (), n)) (\<lambda>_.
     eread (\<lambda>n. \<lparr>aer_term = term_of n, aer_success = True,
                aer_match_index = aeq_prev_log_index req + length (aeq_entries req)\<rparr>)))"

definition HandleAppendEntries_x ::
  "'s applier \<Rightarrow> nat \<Rightarrow> nat \<Rightarrow> AppendEntriesRequest \<Rightarrow> ('s RaftNode, AppendEntriesResponse) eff" where
  "HandleAppendEntries_x ap now rnd req n =
     (if aeq_term req < term_of n
      then (Inr \<lparr>aer_term = term_of n, aer_success = False, aer_match_index = 0\<rparr>, n)
      else
        let n = follow_leader now rnd (aeq_term req) (aeq_leader_id req) n;
            (success, l) = AppendEntriesFrom (aeq_prev_log_index req) (aeq_prev_log_term req) (aeq_entries req) (rlog n);
            n = n\<lparr>rlog := l\<rparr>
        in if \<not> success then (Inr \<lparr>aer_term = term_of n, aer_success = False, aer_match_index = 0\<rparr>, n)
           else commit_from_leader_x ap req n)"

definition MaybeAdvanceCommitIndex_x :: "'s applier \<Rightarrow> ('s RaftNode, unit) eff" where
  "MaybeAdvanceCommitIndex_x ap n =
     (if commit_index n < majority_index n \<and> TermAt (rlog n) (majority_index n) = term_of n
      then ebind (ApplyCommitted_x ap) (\<lambda>_. step_down_if_removed) (n\<lparr>commit_index := majority_index n\<rparr>)
      else (Inr (), n))"

definition HandleAppendReply_x ::
  "'s applier \<Rightarrow> nat \<Rightarrow> nat \<Rightarrow> NodeId \<Rightarrow> Term \<Rightarrow> LogIndex \<Rightarrow> nat \<Rightarrow> AppendEntriesResponse \<Rightarrow> ('s RaftNode, unit) eff" where
  "HandleAppendReply_x ap now rnd peer_id t prev_log_index sent_count resp n0 =
     (let n = HandleSendFailure peer_id n0
      in if \<not> omap_count peer_id (peers n) then (Inr (), n)
         else if term_of n < aer_term resp then (Inr (), BecomeFollower now rnd (aer_term resp) n)
         else if role n \<noteq> Leader \<or> t \<noteq> term_of n then (Inr (), n)
         else if aer_success resp
         then let new_match = max (omap_get_default 0 peer_id (match_index n)) (prev_log_index + sent_count)
              in MaybeAdvanceCommitIndex_x ap (n\<lparr>match_index := omap_set peer_id new_match (match_index n),
                                                 next_index := omap_set peer_id (new_match + 1) (next_index n)\<rparr>)
         else let next_idx = omap_get_default 0 peer_id (next_index n)
              in (Inr (), n\<lparr>next_index := omap_set peer_id (if 1 < next_idx then next_idx - 1 else next_idx) (next_index n)\<rparr>))"

definition Propose_begin_x :: "'s applier \<Rightarrow> string \<Rightarrow> ('s RaftNode, propose_outcome) eff" where
  "Propose_begin_x ap command n =
     (if role n \<noteq> Leader then (Inr ProposeNotLeader, n)
      else case propose_check command n of
        Inl e \<Rightarrow> (Inl e, n)
      | Inr (Some err) \<Rightarrow> (Inr (ProposeRejected err), n)
      | Inr None \<Rightarrow>
          let (index, l) = log_Append (term_of n) command (rlog n)
          in ebind RefreshMembership (\<lambda>_. ebind (MaybeAdvanceCommitIndex_x ap) (\<lambda>_. eret (ProposeAppended index)))
               (n\<lparr>rlog := l\<rparr>))"

definition InstallSnapshot_restore_x :: "(string \<Rightarrow> ('s, unit) eff) \<Rightarrow> InstallSnapshotRequest \<Rightarrow> ('s RaftNode, unit) eff" where
  "InstallSnapshot_restore_x restore req n = (case restore (isq_data req) (machine n) of (r, m) \<Rightarrow> (r, n\<lparr>machine := m\<rparr>))"

text \<open>The callback that a cluster's node applies with.\<close>

definition cluster_apply :: "StateMachine applier" where
  "cluster_apply index command = apply_callback command"

section \<open>Running or throwing\<close>

text \<open>Where an exception of the callback leaves a node: the entry is committed and counted as applied in memory; on disk
  the position is still the one before it, and the log is all there.\<close>

definition throws_in_apply :: "'s applier \<Rightarrow> exn \<Rightarrow> 's RaftNode \<Rightarrow> bool" where
  "throws_in_apply ap e k \<longleftrightarrow> (\<exists>entry m. At (rlog k) (last_applied k) = Some entry \<and>
     TryDecodeConfChange (le_command entry) = Inr None \<and> ap (last_applied k) (le_command entry) m = (Inl e, machine k) \<and>
     last_applied k \<le> commit_index k \<and> applied_index (rlog k) + 1 = last_applied k \<and> log_synced (rlog k))"

definition agrees :: "'s applier \<Rightarrow> ('s RaftNode, 'x) eff \<Rightarrow> ('s RaftNode, 'x) eff \<Rightarrow> 's RaftNode \<Rightarrow> bool" where
  "agrees ap x f n \<longleftrightarrow> x n = f n \<or> (\<exists>e k. x n = (Inl e, k) \<and> throws_in_apply ap e k)"

definition runs_or_throws :: "'s applier \<Rightarrow> ('s RaftNode, 'x) eff \<Rightarrow> ('s RaftNode, 'x) eff \<Rightarrow> 's RaftNode \<Rightarrow> bool" where
  "runs_or_throws ap x f n \<longleftrightarrow> (\<exists>r n'. x n = (Inr r, n') \<and> f n = (Inr r, n')) \<or>
     (\<exists>e k. x n = (Inl e, k) \<and> throws_in_apply ap e k)"

text \<open>The callbacks that return what the applier throws as a text.\<close>

definition returning :: "'s applier \<Rightarrow> 's callbacks \<Rightarrow> bool" where
  "returning ap cb \<longleftrightarrow> (\<forall>i c m. apply_cb cb i c m = (case ap i c m of (r, m') \<Rightarrow> (case r of Inl e \<Rightarrow> what e | Inr error \<Rightarrow> error, m')))"

lemma node_callbacks_returning: "returning cluster_apply node_callbacks"
  by (simp add: returning_def node_callbacks_def cluster_apply_def)

lemma agrees_refl [simp]: "agrees ap x x n"
  by (simp add: agrees_def)

lemma agrees_bind: "agrees ap x f n \<Longrightarrow> agrees ap (ebind x g) (ebind f g) n"
  by (auto simp: agrees_def ebind_def)

lemma agrees_after:
  "(\<And>v m. a n = (Inr v, m) \<Longrightarrow> agrees ap (x v) (f v) m) \<Longrightarrow> agrees ap (ebind a x) (ebind a f) n"
  by (cases "a n"; cases "fst (a n)") (auto simp: agrees_def ebind_def)

lemma agrees_runs: "agrees ap x f n \<Longrightarrow> \<not> isl (fst (f n)) \<Longrightarrow> runs_or_throws ap x f n"
  by (cases "f n"; cases "fst (f n)") (auto simp: agrees_def runs_or_throws_def)

lemma apply_step_commits: "commit_index (snd (apply_step cb n)) = commit_index n"
  by (simp add: apply_step_def Let_def split: option.split sum.split prod.split)

text \<open>One step, and the loop.\<close>

lemma apply_step_agrees_or:
  assumes "returning ap cb" and "node_ok n"
  shows "apply_step_x ap n = apply_step cb n \<or> isl (fst (apply_step_x ap n))"
proof (cases "At (rlog n) (last_applied n + 1)")
  case (Some entry)
  have i: "le_index entry = last_applied n + 1" using At_Some [OF node_okD(6) [OF assms(2)] Some] by simp
  obtain r m where r: "ap (last_applied n + 1) (le_command entry) (machine n) = (r, m)" by fastforce
  show ?thesis
    using Some r i assms(1)
    by (cases r) (auto simp: apply_step_x_def apply_step_def returning_def Let_def split: sum.split option.split)
qed (simp add: apply_step_x_def apply_step_def)

lemma apply_step_agrees:
  assumes "returning ap cb" and "node_ok n" and "last_applied n < commit_index n"
  shows "agrees ap (apply_step_x ap) (apply_step cb) n"
proof (cases "At (rlog n) (last_applied n + 1)")
  case (Some entry)
  note ok = node_okD [OF assms(2)]
  have i: "le_index entry = last_applied n + 1" using At_Some [OF ok(6) Some] by simp
  obtain r m where r: "ap (last_applied n + 1) (le_command entry) (machine n) = (r, m)" by fastforce
  show ?thesis
  proof (cases "TryDecodeConfChange (le_command entry) = Inr None \<and> isl r")
    case True
    then obtain e where e: "r = Inl e" by (cases r) auto
    have "throws_in_apply ap e (n\<lparr>last_applied := last_applied n + 1, machine := m\<rparr>)"
      unfolding throws_in_apply_def
      by (intro exI [of _ entry] exI [of _ "machine n"]) (use Some True r e assms(3) ok(7,9) in simp)
    moreover have "apply_step_x ap n = (Inl e, n\<lparr>last_applied := last_applied n + 1, machine := m\<rparr>)"
      using Some True r e i by (simp add: apply_step_x_def)
    ultimately show ?thesis unfolding agrees_def by blast
  next
    case False
    then have "apply_step_x ap n = apply_step cb n"
      using Some r i assms(1)
      by (cases r) (auto simp: apply_step_x_def apply_step_def returning_def Let_def split: sum.split option.split)
    then show ?thesis by (simp add: agrees_def)
  qed
qed (simp add: agrees_def apply_step_x_def apply_step_def)

lemma apply_loop_agrees:
  assumes "returning ap cb" and "node_ok n" and "last_applied n + length xs \<le> commit_index n"
  shows "agrees ap (efor xs (\<lambda>_. apply_step_x ap)) (efor xs (\<lambda>_. apply_step cb)) n"
  using assms(2,3)
proof (induction xs arbitrary: n)
  case (Cons x xs)
  have step: "agrees ap (apply_step_x ap) (apply_step cb) n"
    by (rule apply_step_agrees [OF assms(1)]) (use Cons.prems in simp_all)
  define n1 where "n1 = snd (apply_step cb n)"
  have run: "apply_step cb n = (Inr (), n1)" using apply_step_run [OF Cons.prems(1), of cb] by (simp add: n1_def)
  have n1: "node_ok n1" unfolding n1_def by (rule keepsD [OF keeps_node_apply Cons.prems(1)])
  have "last_applied n1 + length xs \<le> commit_index n1"
    using Cons.prems(2) apply_step_run [OF Cons.prems(1), of cb] by (simp add: n1_def apply_step_commits)
  from Cons.IH [OF n1 this] step show ?case by (auto simp: agrees_def run)
qed simp

lemma ApplyCommitted_agrees:
  assumes "returning ap cb" and "node_ok n"
  shows "agrees ap (ApplyCommitted_x ap) (ApplyCommitted cb) n"
proof (cases "last_applied n \<le> commit_index n")
  case True
  then have "agrees ap (efor [last_applied n ..< commit_index n] (\<lambda>_. apply_step_x ap))
      (efor [last_applied n ..< commit_index n] (\<lambda>_. apply_step cb)) n"
    by (intro apply_loop_agrees assms) simp
  from agrees_bind [OF this, of "\<lambda>_. compact_applied"] show ?thesis
    by (simp add: agrees_def ApplyCommitted_x_def ApplyCommitted_def)
qed (simp add: agrees_def ApplyCommitted_x_def ApplyCommitted_def)

lemma commit_agrees:
  assumes "returning ap cb" and "node_ok n"
  shows "agrees ap (commit_from_leader_x ap req) (commit_from_leader cb req) n"
  unfolding commit_from_leader_x_def commit_from_leader_def
proof (rule agrees_after)
  fix v m assume "RefreshMembership n = (Inr v, m)"
  then have m: "node_ok m" using keepsD [OF keeps_node_Refresh assms(2)] by simp
  have "agrees ap
     (\<lambda>n. if commit_index n < aeq_leader_commit req
          then ApplyCommitted_x ap (n\<lparr>commit_index := min (aeq_leader_commit req) (LastIndex (rlog n))\<rparr>) else (Inr (), n))
     (\<lambda>n. if commit_index n < aeq_leader_commit req
          then ApplyCommitted cb (n\<lparr>commit_index := min (aeq_leader_commit req) (LastIndex (rlog n))\<rparr>) else (Inr (), n)) m"
    using ApplyCommitted_agrees [OF assms(1), of "m\<lparr>commit_index := min (aeq_leader_commit req) (LastIndex (rlog m))\<rparr>"] m
    by (simp add: agrees_def)
  then show "agrees ap
     (ebind (\<lambda>n. if commit_index n < aeq_leader_commit req
          then ApplyCommitted_x ap (n\<lparr>commit_index := min (aeq_leader_commit req) (LastIndex (rlog n))\<rparr>) else (Inr (), n))
        (\<lambda>_. eread (\<lambda>n. \<lparr>aer_term = term_of n, aer_success = True, aer_match_index = aeq_prev_log_index req + length (aeq_entries req)\<rparr>)))
     (ebind (\<lambda>n. if commit_index n < aeq_leader_commit req
          then ApplyCommitted cb (n\<lparr>commit_index := min (aeq_leader_commit req) (LastIndex (rlog n))\<rparr>) else (Inr (), n))
        (\<lambda>_. eread (\<lambda>n. \<lparr>aer_term = term_of n, aer_success = True, aer_match_index = aeq_prev_log_index req + length (aeq_entries req)\<rparr>))) m"
    by (rule agrees_bind)
qed

lemma AppendEntries_agrees_x:
  assumes "returning ap cb" and "node_ok n" and "aeq_wf req"
  shows "agrees ap (HandleAppendEntries_x ap now rnd req) (HandleAppendEntries cb now rnd req) n"
proof -
  define n1 where "n1 = follow_leader now rnd (aeq_term req) (aeq_leader_id req) n"
  have n1: "node_ok n1" using assms(2) by (simp add: n1_def node_ok_follow)
  obtain b l where a: "AppendEntriesFrom (aeq_prev_log_index req) (aeq_prev_log_term req) (aeq_entries req) (rlog n1) = (b, l)"
    by (metis surj_pair)
  show ?thesis
    using commit_agrees [OF assms(1) node_ok_accept [OF n1 assms(3) a], of req]
    unfolding agrees_def HandleAppendEntries_x_def HandleAppendEntries_def Let_def n1_def [symmetric] a prod.case by simp
qed

lemma Advance_agrees:
  assumes "returning ap cb" and "node_ok n"
  shows "agrees ap (MaybeAdvanceCommitIndex_x ap) (MaybeAdvanceCommitIndex cb) n"
proof -
  have "agrees ap (ebind (ApplyCommitted_x ap) (\<lambda>_. step_down_if_removed)) (ebind (ApplyCommitted cb) (\<lambda>_. step_down_if_removed))
      (n\<lparr>commit_index := majority_index n\<rparr>)"
    using assms by (intro agrees_bind ApplyCommitted_agrees) simp_all
  then show ?thesis by (simp add: agrees_def MaybeAdvanceCommitIndex_x_def MaybeAdvanceCommitIndex_def)
qed

lemma AppendReply_agrees:
  assumes "returning ap cb" and "node_ok n"
  shows "agrees ap (HandleAppendReply_x ap now rnd p t prev sent resp) (HandleAppendReply cb now rnd p t prev sent resp) n"
proof -
  define n1 where "n1 = HandleSendFailure p n"
  have n1: "node_ok n1" using assms(2) by (simp add: n1_def)
  define n2 where "n2 = n1\<lparr>match_index := omap_set p (max (omap_get_default 0 p (match_index n1)) (prev + sent)) (match_index n1),
      next_index := omap_set p (max (omap_get_default 0 p (match_index n1)) (prev + sent) + 1) (next_index n1)\<rparr>"
  have "omap_count p (peers n1) \<Longrightarrow> node_ok n2" unfolding n2_def by (rule node_ok_entry [OF n1])
  with Advance_agrees [OF assms(1), of n2] show ?thesis
    unfolding agrees_def HandleAppendReply_x_def HandleAppendReply_def Let_def n1_def [symmetric] n2_def [symmetric] by simp
qed

lemma Propose_agrees:
  assumes "returning ap cb" and "node_ok n" and "decodable c"
  shows "agrees ap (Propose_begin_x ap c) (Propose_begin cb c) n"
proof -
  obtain i l where a: "log_Append (term_of n) c (rlog n) = (i, l)" by (metis surj_pair)
  have n1: "node_ok (n\<lparr>rlog := l\<rparr>)" using node_ok_append [OF assms(2,3)] a by simp
  have "agrees ap (ebind RefreshMembership (\<lambda>_. ebind (MaybeAdvanceCommitIndex_x ap) (\<lambda>_. eret (ProposeAppended i))))
      (ebind RefreshMembership (\<lambda>_. ebind (MaybeAdvanceCommitIndex cb) (\<lambda>_. eret (ProposeAppended i)))) (n\<lparr>rlog := l\<rparr>)"
  proof (rule agrees_after)
    fix v m assume "RefreshMembership (n\<lparr>rlog := l\<rparr>) = (Inr v, m)"
    then have "node_ok m" using keepsD [OF keeps_node_Refresh n1] by simp
    then show "agrees ap (ebind (MaybeAdvanceCommitIndex_x ap) (\<lambda>_. eret (ProposeAppended i)))
        (ebind (MaybeAdvanceCommitIndex cb) (\<lambda>_. eret (ProposeAppended i))) m"
      by (intro agrees_bind Advance_agrees [OF assms(1)])
  qed
  then show ?thesis
    unfolding agrees_def Propose_begin_x_def Propose_begin_def Let_def a prod.case by (simp split: sum.split option.split)
qed

section \<open>When applying throws\<close>

fun run_returns :: "'s applier \<Rightarrow> (LogIndex \<times> string) list \<Rightarrow> 's \<Rightarrow> bool" where
  "run_returns ap [] m \<longleftrightarrow> True"
| "run_returns ap ((i, c) # cs) m \<longleftrightarrow> (case ap i c m of (Inl _, _) \<Rightarrow> False | (Inr _, m') \<Rightarrow> run_returns ap cs m')"

lemma apply_step_x_returns:
  assumes "node_ok n"
  shows "\<not> isl (fst (apply_step_x ap n)) \<longleftrightarrow> run_returns ap (commands_at (rlog n) [last_applied n + 1]) (machine n)"
proof (cases "At (rlog n) (last_applied n + 1)")
  case (Some e)
  note ok = node_okD [OF assms]
  obtain r where r: "TryDecodeConfChange (le_command e) = Inr r" by (rule conf_ok_At [OF ok(6,8) Some])
  have i: "le_index e = last_applied n + 1" using At_Some [OF ok(6) Some] by simp
  show ?thesis
    using Some r i by (cases r) (auto simp: apply_step_x_def commands_at_def Let_def split: prod.split sum.split)
qed (simp add: apply_step_x_def commands_at_def)

lemma run_returns_append:
  assumes "returning ap cb"
  shows "run_returns ap (cs @ ds) m \<longleftrightarrow> run_returns ap cs m \<and> run_returns ap ds (snd (run_commands cb cs m))"
proof (induction cs arbitrary: m)
  case (Cons p cs)
  obtain i c where p: "p = (i, c)" by (cases p)
  obtain r m' where r: "ap i c m = (r, m')" by fastforce
  with assms Cons show ?case by (cases r) (simp_all add: p returning_def case_prod_beta)
qed simp

lemma apply_loop_returns:
  assumes "returning ap cb" and "node_ok n"
  shows "\<not> isl (fst (efor xs (\<lambda>_. apply_step_x ap) n)) \<longleftrightarrow>
    run_returns ap (commands_at (rlog n) [last_applied n + 1 ..< last_applied n + 1 + length xs]) (machine n)"
  using assms(2)
proof (induction xs arbitrary: n)
  case Nil
  then show ?case by (simp add: commands_at_def)
next
  case (Cons x xs)
  define n1 where "n1 = snd (apply_step cb n)"
  have n1: "node_ok n1" unfolding n1_def by (rule keepsD [OF keeps_node_apply Cons.prems])
  note run = apply_step_run [OF Cons.prems, of cb]
  have f: "last_applied n1 = last_applied n + 1" "rlog n1 = SetAppliedIndex (last_applied n + 1) (rlog n)"
    "machine n1 = snd (run_commands cb (commands_at (rlog n) [last_applied n + 1]) (machine n))"
    using run by (auto simp: n1_def case_prod_beta Let_def)
  have l: "[last_applied n + 1 ..< last_applied n + 1 + length (x # xs)] =
      (last_applied n + 1) # [last_applied n1 + 1 ..< last_applied n1 + 1 + length xs]"
    using upt_conv_Cons [of "last_applied n + 1" "last_applied n + 1 + length (x # xs)"] by (simp add: f(1))
  have c: "commands_at (rlog n1) is = commands_at (rlog n) is" for "is"
    by (rule commands_at_cong) (simp add: f(2))
  have step: "apply_step_x ap n = (Inr (), n1)" if "\<not> isl (fst (apply_step_x ap n))"
    using that apply_step_agrees_or [OF assms(1) Cons.prems] run by (auto simp: n1_def)
  show ?case
  proof (cases "isl (fst (apply_step_x ap n))")
    case True
    then show ?thesis
      using apply_step_x_returns [OF Cons.prems, of ap]
      unfolding l commands_at_Cons [of _ "last_applied n + 1" "upt _ _"] run_returns_append [OF assms(1)]
      by (cases "apply_step_x ap n"; cases "fst (apply_step_x ap n)") auto
  next
    case False
    then show ?thesis
      using apply_step_x_returns [OF Cons.prems, of ap] Cons.IH [OF n1] step f(3)
      unfolding l commands_at_Cons [of _ "last_applied n + 1" "upt _ _"] run_returns_append [OF assms(1)] c by simp
  qed
qed

lemma ApplyCommitted_x_returns:
  assumes "node_ok n" and "last_applied n \<le> commit_index n" and "returning ap cb"
  shows "isl (fst (ApplyCommitted_x ap n)) \<longleftrightarrow> \<not> run_returns ap (due n) (machine n)"
proof -
  let ?xs = "[last_applied n ..< commit_index n]"
  have len: "last_applied n + 1 + length ?xs = commit_index n + 1" using assms(2) by simp
  have loop: "isl (fst (efor ?xs (\<lambda>_. apply_step_x ap) n)) \<longleftrightarrow> \<not> run_returns ap (due n) (machine n)"
    using apply_loop_returns [OF assms(3,1), of ?xs] unfolding len due_def by blast
  have "isl (fst (ApplyCommitted_x ap n)) \<longleftrightarrow> isl (fst (efor ?xs (\<lambda>_. apply_step_x ap) n))"
  proof (cases "isl (fst (efor ?xs (\<lambda>_. apply_step_x ap) n))")
    case True
    then show ?thesis
      by (cases "efor ?xs (\<lambda>_. apply_step_x ap) n"; cases "fst (efor ?xs (\<lambda>_. apply_step_x ap) n)") (auto simp: ApplyCommitted_x_def)
  next
    case False
    have "last_applied n + length ?xs \<le> commit_index n" using assms(2) by simp
    from apply_loop_agrees [OF assms(3,1) this] False
    have same: "efor ?xs (\<lambda>_. apply_step_x ap) n = efor ?xs (\<lambda>_. apply_step cb) n" by (auto simp: agrees_def)
    obtain n1 where n1: "efor ?xs (\<lambda>_. apply_step cb) n = (Inr (), n1)" "node_ok n1"
      using apply_loop_run [OF assms(1), of ?xs cb] by blast
    obtain n2 where "compact_applied n1 = (Inr (), n2)" using compact_applied_effect [OF n1(2)] by blast
    then show ?thesis by (simp add: ApplyCommitted_x_def same n1(1))
  qed
  with loop show ?thesis by simp
qed

text \<open>On a well-formed machine with room the callback throws exactly for a malformed control command.\<close>

lemma cluster_apply_throws:
  assumes "machine_ok m" and "has_room c m"
  shows "isl (fst (cluster_apply i c m)) \<longleftrightarrow> \<not> decodes c"
proof -
  have "\<not> decodes c" if "fst (apply_callback c m) = Inl e" for e
    using machine_ok_apply [OF assms] that by (auto simp: decodes_def)
  moreover have "isl (fst (apply_callback c m))" if "\<not> decodes c"
    using that by (auto simp: decodes_def apply_callback_def split: sum.splits)
  ultimately show ?thesis unfolding cluster_apply_def by (cases "fst (apply_callback c m)") auto
qed

text \<open>C31. In a node that satisfies the invariant, whatever well-formed message arrives, the sections of an election, of its
  answers and of the end of a snapshot do not throw.  A section that applies committed entries (an append, the answer to
  one, a proposal) does what the model with returning callbacks does, or throws what the apply callback threw at an
  entry: that entry is committed, the position in memory is at it and the position on disk before it, so that the
  running node goes on after it and a restarted one comes to it again.  Applying throws exactly when the callback does
  on the way; and the callback of a cluster's node, on a well-formed machine with room, throws exactly for a command that
  starts like a control command and does not decode.  Besides, a proposal throws, and changes nothing, when it is a
  membership change that does not decode, and the restore of a snapshot, and changes nothing, when its data do not
  decode.\<close>

theorem raft_throws_from_apply:
  assumes "node_ok n" and "aeq_wf areq" and "isq_wf sreq"
  shows "(\<exists>r n'. StartElection now rnd n = (Inr r, n')) \<and> (\<exists>n'. HandleVoteReply now rnd t vresp n = (Inr (), n')) \<and>
    (\<exists>r n'. InstallSnapshot_end sreq n = (Inr r, n')) \<and>
    runs_or_throws cluster_apply (HandleAppendEntries_x cluster_apply now rnd areq) (HandleAppendEntries node_callbacks now rnd areq) n \<and>
    runs_or_throws cluster_apply (HandleAppendReply_x cluster_apply now rnd p t prev sent aresp)
      (HandleAppendReply node_callbacks now rnd p t prev sent aresp) n \<and>
    (if decodable c then runs_or_throws cluster_apply (Propose_begin_x cluster_apply c) (Propose_begin node_callbacks c) n
     else role n = Leader \<longrightarrow> (\<exists>e. Propose_begin_x cluster_apply c n = (Inl e, n))) \<and>
    (last_applied n \<le> commit_index n \<longrightarrow>
      (isl (fst (ApplyCommitted_x cluster_apply n)) \<longleftrightarrow> \<not> run_returns cluster_apply (due n) (machine n))) \<and>
    (machine_ok (machine n) \<longrightarrow> has_room c (machine n) \<longrightarrow> (isl (fst (cluster_apply i c (machine n))) \<longleftrightarrow> \<not> decodes c)) \<and>
    (\<forall>e. DecodeSnapshot (isq_data sreq) = Inl e \<longrightarrow> InstallSnapshot_restore_x restore_callback sreq n = (Inl e, n))"
proof (intro conjI)
  note ret = node_callbacks_returning
  have r: "\<exists>x n'. y = (Inr x, n')" if "\<not> isl (fst y)" for y :: "'x res \<times> 'y"
    using that by (cases y; cases "fst y") auto
  show "\<exists>r n'. StartElection now rnd n = (Inr r, n')" "\<exists>r n'. InstallSnapshot_end sreq n = (Inr r, n')"
    using total_onD [OF total_StartElection assms(1)] total_install_end [OF assms(1,3)] r by blast+
  show "\<exists>n'. HandleVoteReply now rnd t vresp n = (Inr (), n')"
    using r [of "HandleVoteReply now rnd t vresp n"] assms(1)
    by (simp add: HandleVoteReply_def Let_def total_onD [OF total_BecomeLeader])
  show "runs_or_throws cluster_apply (HandleAppendEntries_x cluster_apply now rnd areq) (HandleAppendEntries node_callbacks now rnd areq) n"
    by (rule agrees_runs [OF AppendEntries_agrees_x [OF ret assms(1,2)] total_AppendEntries [OF assms(1,2)]])
  show "runs_or_throws cluster_apply (HandleAppendReply_x cluster_apply now rnd p t prev sent aresp)
      (HandleAppendReply node_callbacks now rnd p t prev sent aresp) n"
    by (rule agrees_runs [OF AppendReply_agrees [OF ret assms(1)] total_AppendReply [OF assms(1)]])
  show "if decodable c then runs_or_throws cluster_apply (Propose_begin_x cluster_apply c) (Propose_begin node_callbacks c) n
     else role n = Leader \<longrightarrow> (\<exists>e. Propose_begin_x cluster_apply c n = (Inl e, n))"
  proof (cases "decodable c")
    case True
    with agrees_runs [OF Propose_agrees [OF ret assms(1) True] propose_total(1) [OF assms(1) True]] show ?thesis by simp
  next
    case False
    then have "isl (propose_check c n)" using propose_check_total [OF assms(1)] by blast
    with False show ?thesis by (cases "propose_check c n") (simp_all add: Propose_begin_x_def)
  qed
  show "last_applied n \<le> commit_index n \<longrightarrow>
      (isl (fst (ApplyCommitted_x cluster_apply n)) \<longleftrightarrow> \<not> run_returns cluster_apply (due n) (machine n))"
    using ApplyCommitted_x_returns [OF assms(1) _ ret] by blast
  show "machine_ok (machine n) \<longrightarrow> has_room c (machine n) \<longrightarrow> (isl (fst (cluster_apply i c (machine n))) \<longleftrightarrow> \<not> decodes c)"
    using cluster_apply_throws by blast
  show "\<forall>e. DecodeSnapshot (isq_data sreq) = Inl e \<longrightarrow> InstallSnapshot_restore_x restore_callback sreq n = (Inl e, n)"
    by (simp add: InstallSnapshot_restore_x_def restore_callback_def)
qed

text \<open>A node whose log holds a byte that starts a control command and nothing more.\<close>

definition poisoned_node :: "StateMachine RaftNode" where
  "poisoned_node = \<lparr>node_id = 1, own_address = addr3, peers = [(2, addr3)], hard = ps_Set 1 (Some 1) ps_new,
     rlog = log_Save (log_new\<lparr>lg_entries := [\<lparr>le_index = 1, le_term = 1, le_command = [CHR 0x00]\<rparr>]\<rparr>),
     mship = ms_Set [(2, addr3)] True addr3 ms_new, role = Follower,
     leader_hint = 1, commit_index = 1, last_applied = 0, self_is_member = True, pending_self_removal_index = 0,
     joining = False, apply_errors = [], election_deadline = 0, next_heartbeat_time = 0, votes_received = 0,
     last_leader_contact = 0, next_index = [], match_index = [],
     replication_in_flight = {}, machine = \<lparr>sm_engine = eng_empty, sm_txns = part_empty\<rparr>\<rparr>"

theorem raft_throws_from_apply_witness:
  "isl (fst (ApplyCommitted_x cluster_apply poisoned_node))"
proof -
  have conf: "TryDecodeConfChange [CHR 0x00] = Inr None" by (simp add: TryDecodeConfChange_def)
  have ok: "node_ok poisoned_node"
    by (simp add: poisoned_node_def node_ok_defs ms_synced_Set omap_ok_def conf_ok_def conf decodable_def
        log_ok_def log_new_def less_Suc_eq nth_Cons split: nat.split)
  have a: "aeq_wf \<lparr>aeq_term = 1, aeq_leader_id = 1, aeq_prev_log_index = 1, aeq_prev_log_term = 1, aeq_entries = [], aeq_leader_commit = 1\<rparr>"
    by (simp add: aeq_wf_def)
  have s: "isq_wf \<lparr>isq_term = 1, isq_leader_id = 1, isq_last_included_index = 4, isq_last_included_term = 1,
      isq_data = [], isq_membership = []\<rparr>"
    by (simp add: isq_wf_def)
  have due: "due poisoned_node = [(1, [CHR 0x00])]"
    by (simp add: due_def commands_at_def poisoned_node_def log_new_def At_def LastIndex_def conf)
  have "fst (cluster_apply 1 [CHR 0x00] m) = Inl txn_error" for m
    by (simp add: cluster_apply_def apply_callback_def TryDecodeTxnControl_def ReadTxnControl_def srun_def sbind_def get_u8_def
        get_raw_def sret_def rbind_def)
  then have "\<not> run_returns cluster_apply (due poisoned_node) (machine poisoned_node)"
    by (simp add: due split: prod.split sum.split) (metis Inr_Inl_False fst_conv)
  moreover have "last_applied poisoned_node \<le> commit_index poisoned_node" by (simp add: poisoned_node_def)
  ultimately show ?thesis using raft_throws_from_apply [OF ok a s] by blast
qed

end
