(* ===== verification/Server.thy ===== *)
theory Server
  imports Transport
begin

text \<open>
  The accepting side of \<^verbatim>\<open>src/raft/transport.cpp\<close>: \<^verbatim>\<open>Serve\<close>, \<^verbatim>\<open>AcceptLoop\<close> and the destructor, with one thread
  for each connection.  A step belongs to the loop, to the thread of one connection, or to the thread that destroys the
  transport; the steps of all of them interleave in any order on one state of the world.  Reading a message, running
  the handler, writing the response and closing are one step each.  Shown: every accepted connection has its handler run
  at most once and is closed at most once; nothing is accepted once the loop has ended, and it ends only when it was
  told to; and a connection never waits for another: its own steps alone take it to the end, doing what
  \<open>serve_connection\<close> does.
\<close>

datatype loop_pc = LoopTest | LoopAccept | LoopDone

datatype conn_stage = Reading | Handling string | Writing string | Closing | Closed

datatype actor = AcceptThread | ConnThread nat | Destroyer

text \<open>Connections are numbered as they are accepted; \<open>srv_ran\<close> and \<open>srv_closed\<close> record, in order, the connections whose
  handler was run and those that were closed.\<close>

record 'w server =
  srv_stop :: bool
  srv_pc :: loop_pc
  srv_accepted :: nat
  srv_conns :: "nat \<Rightarrow> conn_stage option"
  srv_world :: 'w
  srv_ran :: "nat list"
  srv_closed :: "nat list"

definition Serve :: "'w \<Rightarrow> 'w server" where
  "Serve w = \<lparr>srv_stop = False, srv_pc = LoopTest, srv_accepted = 0, srv_conns = (\<lambda>_. None), srv_world = w,
     srv_ran = [], srv_closed = []\<rparr>"

definition accept_conn :: "'w server \<Rightarrow> 'w server" where
  "accept_conn s = s\<lparr>srv_pc := LoopTest, srv_accepted := srv_accepted s + 1,
     srv_conns := (srv_conns s)(srv_accepted s \<mapsto> Reading)\<rparr>"

text \<open>One step of a connection's thread; an exception goes on to the closing.\<close>

definition conn_step :: "'w sockets \<Rightarrow> (string \<Rightarrow> ('w, string) eff) \<Rightarrow> nat \<Rightarrow> 'w server \<Rightarrow> 'w server option" where
  "conn_step io handler c s =
     (let become = (\<lambda>stage w s. s\<lparr>srv_conns := (srv_conns s)(c \<mapsto> stage), srv_world := w\<rparr>)
      in case srv_conns s c of
           Some Reading \<Rightarrow> (case ReadFramedMessage io (srv_world s) of
               (r, w) \<Rightarrow> Some (become (case r of Inl _ \<Rightarrow> Closing | Inr request \<Rightarrow> Handling request) w s))
         | Some (Handling request) \<Rightarrow> (case handler request (srv_world s) of
               (r, w) \<Rightarrow> Some (become (case r of Inl _ \<Rightarrow> Closing | Inr response \<Rightarrow> Writing response) w
                 (s\<lparr>srv_ran := srv_ran s @ [c]\<rparr>)))
         | Some (Writing response) \<Rightarrow> (case WriteFramedMessage io response (srv_world s) of
               (r, w) \<Rightarrow> Some (become Closing w s))
         | Some Closing \<Rightarrow> Some (become Closed (s_close io (srv_world s)) (s\<lparr>srv_closed := srv_closed s @ [c]\<rparr>))
         | _ \<Rightarrow> None)"

text \<open>\<open>socks c\<close> are the system calls on the socket of connection \<open>c\<close>.\<close>

inductive server_step ::
  "(nat \<Rightarrow> 'w sockets) \<Rightarrow> (string \<Rightarrow> ('w, string) eff) \<Rightarrow> actor \<Rightarrow> 'w server \<Rightarrow> 'w server \<Rightarrow> bool"
  for socks handler
where
  test: "srv_pc s = LoopTest \<Longrightarrow>
    server_step socks handler AcceptThread s (s\<lparr>srv_pc := (if srv_stop s then LoopDone else LoopAccept)\<rparr>)"
| accepted: "srv_pc s = LoopAccept \<Longrightarrow> server_step socks handler AcceptThread s (accept_conn s)"
| refused: "srv_pc s = LoopAccept \<Longrightarrow>
    server_step socks handler AcceptThread s (s\<lparr>srv_pc := (if srv_stop s then LoopDone else LoopTest)\<rparr>)"
| thread: "conn_step (socks c) handler c s = Some s' \<Longrightarrow> server_step socks handler (ConnThread c) s s'"
| destroy: "server_step socks handler Destroyer s (s\<lparr>srv_stop := True\<rparr>)"

inductive_cases server_stepE: "server_step socks handler a s s'"

inductive server_reach :: "(nat \<Rightarrow> 'w sockets) \<Rightarrow> (string \<Rightarrow> ('w, string) eff) \<Rightarrow> 'w server \<Rightarrow> bool"
  for socks handler
where
  serve: "server_reach socks handler (Serve w)"
| run: "server_reach socks handler s \<Longrightarrow> server_step socks handler a s s' \<Longrightarrow> server_reach socks handler s'"

section \<open>The invariant\<close>

definition server_ok :: "'w server \<Rightarrow> bool" where
  "server_ok s \<longleftrightarrow> (\<forall>c. srv_conns s c \<noteq> None \<longleftrightarrow> c < srv_accepted s) \<and>
     distinct (srv_ran s) \<and> (\<forall>c \<in> set (srv_ran s). srv_conns s c \<noteq> None \<and> srv_conns s c \<noteq> Some Reading \<and>
        (\<forall>r. srv_conns s c \<noteq> Some (Handling r))) \<and>
     distinct (srv_closed s) \<and> (\<forall>c. c \<in> set (srv_closed s) \<longleftrightarrow> srv_conns s c = Some Closed) \<and>
     (srv_pc s = LoopDone \<longrightarrow> srv_stop s)"

lemma conn_step_cases:
  assumes "conn_step io handler c s = Some s'"
  obtains (read) r w where "srv_conns s c = Some Reading" "ReadFramedMessage io (srv_world s) = (r, w)"
      "s' = s\<lparr>srv_conns := (srv_conns s)(c \<mapsto> (case r of Inl _ \<Rightarrow> Closing | Inr request \<Rightarrow> Handling request)), srv_world := w\<rparr>"
  | (handle) request r w where "srv_conns s c = Some (Handling request)" "handler request (srv_world s) = (r, w)"
      "s' = s\<lparr>srv_conns := (srv_conns s)(c \<mapsto> (case r of Inl _ \<Rightarrow> Closing | Inr response \<Rightarrow> Writing response)), srv_world := w,
         srv_ran := srv_ran s @ [c]\<rparr>"
  | (wrote) response r w where "srv_conns s c = Some (Writing response)" "WriteFramedMessage io response (srv_world s) = (r, w)"
      "s' = s\<lparr>srv_conns := (srv_conns s)(c \<mapsto> Closing), srv_world := w\<rparr>"
  | (finish) "srv_conns s c = Some Closing"
      "s' = s\<lparr>srv_conns := (srv_conns s)(c \<mapsto> Closed), srv_world := s_close io (srv_world s), srv_closed := srv_closed s @ [c]\<rparr>"
  using assms by (auto simp: conn_step_def Let_def split: option.splits conn_stage.splits prod.splits)

lemma server_ok_conn:
  assumes "server_ok s" and "conn_step io handler c s = Some s'"
  shows "server_ok s'"
  using assms(2)
proof (cases rule: conn_step_cases)
  case (read r w)
  then show ?thesis using read assms(1) by (cases r) (auto simp: server_ok_def)
next
  case (handle request r w)
  have "c \<notin> set (srv_ran s)" using handle(1) assms(1) by (auto simp: server_ok_def)
  then show ?thesis using handle assms(1) by (cases r) (auto simp: server_ok_def)
next
  case (wrote response r w)
  then show ?thesis using wrote assms(1) by (auto simp: server_ok_def)
next
  case finish
  have "c \<notin> set (srv_closed s)" using finish(1) assms(1) by (auto simp: server_ok_def)
  then show ?thesis using finish assms(1) by (auto simp: server_ok_def)
qed

lemma server_ok_step: "server_step socks handler a s s' \<Longrightarrow> server_ok s \<Longrightarrow> server_ok s'"
proof (induction rule: server_step.induct)
  case (accepted s)
  then show ?case by (auto simp: server_ok_def accept_conn_def less_Suc_eq)
next
  case (thread c s s')
  then show ?case by (rule server_ok_conn [rotated])
qed (auto simp: server_ok_def)

lemma server_reach_ok: "server_reach socks handler s \<Longrightarrow> server_ok s"
proof (induction rule: server_reach.induct)
  case (run s a s')
  then show ?case by (blast intro: server_ok_step)
qed (simp add: server_ok_def Serve_def)

section \<open>A connection on its own\<close>

inductive thread_run :: "'w sockets \<Rightarrow> (string \<Rightarrow> ('w, string) eff) \<Rightarrow> nat \<Rightarrow> nat \<Rightarrow> 'w server \<Rightarrow> 'w server \<Rightarrow> bool"
  for io handler c
where
  done_run: "thread_run io handler c 0 s s"
| step_run: "conn_step io handler c s = Some s' \<Longrightarrow> thread_run io handler c k s' s'' \<Longrightarrow> thread_run io handler c (Suc k) s s''"

lemma thread_run_close:
  assumes "srv_conns s c = Some Closing"
  shows "\<exists>s'. thread_run io handler c 1 s s' \<and> srv_conns s' = (srv_conns s)(c \<mapsto> Closed) \<and> srv_world s' = s_close io (srv_world s) \<and>
    srv_pc s' = srv_pc s"
proof -
  have "conn_step io handler c s = Some (s\<lparr>srv_conns := (srv_conns s)(c \<mapsto> Closed), srv_world := s_close io (srv_world s),
      srv_closed := srv_closed s @ [c]\<rparr>)"
    by (simp add: conn_step_def assms)
  from step_run [OF this done_run] show ?thesis by (intro exI) (rule conjI, simp, simp)
qed

lemma thread_run_write:
  assumes "srv_conns s c = Some (Writing response)"
  shows "\<exists>s'. thread_run io handler c 2 s s' \<and> srv_conns s' = (srv_conns s)(c \<mapsto> Closed) \<and>
    srv_world s' = s_close io (snd (WriteFramedMessage io response (srv_world s))) \<and> srv_pc s' = srv_pc s"
proof -
  let ?s = "s\<lparr>srv_conns := (srv_conns s)(c \<mapsto> Closing), srv_world := snd (WriteFramedMessage io response (srv_world s))\<rparr>"
  have step: "conn_step io handler c s = Some ?s" by (simp add: conn_step_def assms case_prod_beta)
  obtain s' where "thread_run io handler c 1 ?s s'" "srv_conns s' = (srv_conns ?s)(c \<mapsto> Closed)"
    "srv_world s' = s_close io (srv_world ?s)" "srv_pc s' = srv_pc ?s" using thread_run_close [of ?s c io handler] by auto
  with step_run [OF step, of 1 s'] show ?thesis by (intro exI [of _ s']) (simp add: numeral_2_eq_2)
qed

lemma thread_run_handle:
  assumes "srv_conns s c = Some (Handling request)"
  shows "\<exists>s' k. thread_run io handler c k s s' \<and> k \<le> 3 \<and> srv_conns s' = (srv_conns s)(c \<mapsto> Closed) \<and>
    srv_world s' = s_close io (snd (ebind (handler request) (WriteFramedMessage io) (srv_world s))) \<and> srv_pc s' = srv_pc s"
proof -
  obtain r w where h: "handler request (srv_world s) = (r, w)" by fastforce
  let ?s = "\<lambda>stage. s\<lparr>srv_conns := (srv_conns s)(c \<mapsto> stage), srv_world := w, srv_ran := srv_ran s @ [c]\<rparr>"
  show ?thesis
  proof (cases r)
    case (Inl e)
    have step: "conn_step io handler c s = Some (?s Closing)" by (simp add: conn_step_def assms h Inl)
    obtain s' where "thread_run io handler c 1 (?s Closing) s'" "srv_conns s' = (srv_conns (?s Closing))(c \<mapsto> Closed)"
      "srv_world s' = s_close io (srv_world (?s Closing))" "srv_pc s' = srv_pc (?s Closing)"
      using thread_run_close [of "?s Closing" c io handler] by auto
    with step_run [OF step, of 1 s'] show ?thesis
      by (intro exI [of _ s'] exI [of _ 2]) (simp add: h Inl ebind_def numeral_2_eq_2)
  next
    case (Inr response)
    have step: "conn_step io handler c s = Some (?s (Writing response))" by (simp add: conn_step_def assms h Inr)
    obtain s' where "thread_run io handler c 2 (?s (Writing response)) s'"
      "srv_conns s' = (srv_conns (?s (Writing response)))(c \<mapsto> Closed)"
      "srv_world s' = s_close io (snd (WriteFramedMessage io response (srv_world (?s (Writing response)))))"
      "srv_pc s' = srv_pc (?s (Writing response))"
      using thread_run_write [of "?s (Writing response)" c response io handler] by auto
    with step_run [OF step, of 2 s'] show ?thesis
      by (intro exI [of _ s'] exI [of _ 3]) (simp add: h Inr ebind_def numeral_3_eq_3 numeral_2_eq_2)
  qed
qed

lemma thread_run_read:
  assumes "srv_conns s c = Some Reading"
  shows "\<exists>s' k. thread_run io handler c k s s' \<and> k \<le> 4 \<and> srv_conns s' = (srv_conns s)(c \<mapsto> Closed) \<and>
    srv_world s' = serve_connection io handler (srv_world s) \<and> srv_pc s' = srv_pc s"
proof -
  obtain r w where h: "ReadFramedMessage io (srv_world s) = (r, w)" by fastforce
  let ?s = "\<lambda>stage. s\<lparr>srv_conns := (srv_conns s)(c \<mapsto> stage), srv_world := w\<rparr>"
  show ?thesis
  proof (cases r)
    case (Inl e)
    have step: "conn_step io handler c s = Some (?s Closing)" by (simp add: conn_step_def assms h Inl)
    obtain s' where "thread_run io handler c 1 (?s Closing) s'" "srv_conns s' = (srv_conns (?s Closing))(c \<mapsto> Closed)"
      "srv_world s' = s_close io (srv_world (?s Closing))" "srv_pc s' = srv_pc (?s Closing)"
      using thread_run_close [of "?s Closing" c io handler] by auto
    with step_run [OF step, of 1 s'] show ?thesis
      by (intro exI [of _ s'] exI [of _ 2]) (simp add: h Inl ebind_def serve_connection_def numeral_2_eq_2)
  next
    case (Inr request)
    have step: "conn_step io handler c s = Some (?s (Handling request))" by (simp add: conn_step_def assms h Inr)
    obtain s' k where "thread_run io handler c k (?s (Handling request)) s'" "k \<le> 3"
      "srv_conns s' = (srv_conns (?s (Handling request)))(c \<mapsto> Closed)"
      "srv_world s' = s_close io (snd (ebind (handler request) (WriteFramedMessage io) (srv_world (?s (Handling request)))))"
      "srv_pc s' = srv_pc (?s (Handling request))"
      using thread_run_handle [of "?s (Handling request)" c request io handler] by auto
    with step_run [OF step, of k s'] show ?thesis
      by (intro exI [of _ s'] exI [of _ "Suc k"]) (simp add: h Inr ebind_def serve_connection_def)
  qed
qed

section \<open>Properties\<close>

text \<open>C37. However the accept loop, the threads of the connections and the destructor interleave: a handler runs at most once
  for a connection, a connection is closed at most once, and exactly those are that ended; the loop has ended only
  if the transport was stopped, and then nothing is accepted; a connection that was just accepted needs at most four
  steps of its own thread, whatever the others do, to be closed, and these do what \<open>serve_connection\<close> does and touch no
  other connection.\<close>

theorem server_serves_once:
  assumes "server_reach socks handler s"
  shows "distinct (srv_ran s) \<and> distinct (srv_closed s) \<and> (\<forall>c. c \<in> set (srv_closed s) \<longleftrightarrow> srv_conns s c = Some Closed) \<and>
    (srv_pc s = LoopDone \<longrightarrow> srv_stop s \<and> (\<forall>a s'. server_step socks handler a s s' \<longrightarrow> srv_accepted s' = srv_accepted s)) \<and>
    (\<forall>c. srv_conns s c = Some Reading \<longrightarrow> (\<exists>s' k. thread_run (socks c) handler c k s s' \<and> k \<le> 4 \<and>
       srv_conns s' = (srv_conns s)(c \<mapsto> Closed) \<and> srv_world s' = serve_connection (socks c) handler (srv_world s) \<and>
       srv_pc s' = srv_pc s))"
proof -
  have ok: "server_ok s" by (rule server_reach_ok [OF assms])
  have "srv_accepted s' = srv_accepted s" if "srv_pc s = LoopDone" "server_step socks handler a s s'" for a s'
    using that(2,1) by cases (auto elim: conn_step_cases)
  moreover have "\<forall>c. srv_conns s c = Some Reading \<longrightarrow> (\<exists>s' k. thread_run (socks c) handler c k s s' \<and> k \<le> 4 \<and>
       srv_conns s' = (srv_conns s)(c \<mapsto> Closed) \<and> srv_world s' = serve_connection (socks c) handler (srv_world s) \<and>
       srv_pc s' = srv_pc s)"
    by (intro allI impI) (rule thread_run_read)
  ultimately show ?thesis using ok by (simp add: server_ok_def)
qed

theorem server_serves_once_witness:
  "\<exists>s s' k. server_reach (\<lambda>_. byte_pipe) (\<lambda>req. eret req) s \<and> srv_conns s 0 = Some Reading \<and>
     thread_run byte_pipe (\<lambda>req. eret req) 0 k s s' \<and> srv_conns s' 0 = Some Closed"
proof -
  let ?reach = "server_reach (\<lambda>_. byte_pipe) (\<lambda>req. eret req)"
  define s :: "string server" where "s = accept_conn ((Serve [])\<lparr>srv_pc := (if srv_stop (Serve []) then LoopDone else LoopAccept)\<rparr>)"
  have "server_step (\<lambda>_. byte_pipe) (\<lambda>req. eret req) AcceptThread (Serve [])
      ((Serve [])\<lparr>srv_pc := (if srv_stop (Serve []) then LoopDone else LoopAccept)\<rparr>)"
    using server_step.test [of "Serve []" "\<lambda>_. byte_pipe" "\<lambda>req. eret req"] by (simp add: Serve_def)
  then have "?reach ((Serve [])\<lparr>srv_pc := (if srv_stop (Serve []) then LoopDone else LoopAccept)\<rparr>)"
    by (rule server_reach.run [OF server_reach.serve])
  then have "?reach s"
    unfolding s_def by (rule server_reach.run) (rule server_step.accepted, simp add: Serve_def)
  moreover have "srv_conns s 0 = Some Reading" by (simp add: s_def accept_conn_def Serve_def)
  ultimately show ?thesis
    using server_serves_once [of "\<lambda>_. byte_pipe" "\<lambda>req. eret req" s] by fastforce
qed

end
