(* ===== verification/Spec2Isabelle.thy ===== *)
theory Spec2Isabelle
  imports Engine Raft_Safety Raft_Rpc Shell Kv_Shell Desktop Cluster_Throws Server
begin

text \<open>
  \<^bold>\<open>A sharded SQL database on Raft.\<close>  This development models the C++ program under \<^verbatim>\<open>src/src\<close>.  The program is a
  storage engine (\<^verbatim>\<open>storage/\<close>), an SQL layer on its keys (\<^verbatim>\<open>sql/\<close>), a Raft node that replicates commands
  (\<^verbatim>\<open>raft/\<close>), two-phase commit between shards (\<^verbatim>\<open>txn/\<close>, \<^verbatim>\<open>shard/\<close>) and three
  processes: a single-node shell (\<^verbatim>\<open>main.cpp\<close>), a node of a cluster with its shell (\<^verbatim>\<open>raft_main.cpp\<close>) and a
  desktop client (\<^verbatim>\<open>ui/main.cpp\<close>).  A statement typed at a node's shell is parsed, routed to the shard that owns
  its row, proposed to the Raft group of that shard, replicated as a log entry, and applied on each node of the group by
  the SQL executor, which reads and writes the keys of the node's storage engine.

  \<^bold>\<open>Conventions.\<close>  A class is a record of its fields, an operation a function on the record.  A \<^verbatim>\<open>std::string\<close> is
  a list of characters, one for each byte; a \<^verbatim>\<open>std::map\<close> is a list sorted by its keys (\<open>Ord_Map\<close>).  An exception is a
  value of \<open>exn\<close>, and a function that may throw returns \<open>exn + 'a\<close>; \<open>Undefined\<close> marks what C++ leaves undefined, and the
  theorems show that it is not reached.  \<open>('s, 'a) eff\<close> is a computation on a state that may throw and keeps what it had
  done.  Files are the strings of their bytes.  Identifiers and ports are words of their width; lengths in encodings are
  words of 32 bits, so that they wrap where the code's do; terms, indices and sequence numbers are natural numbers,
  bounded by \<open>2 ^ 64\<close> where they are encoded.  Indices and sequence numbers grow by one for each entry or operation
  and do not get there; a term can, since a message may bring any term: \<open>raft_vote_stable\<close> is therefore over terms as 64-bit
  words (\<open>term64\<close>), says what the bound is needed for, and the other theorems on terms hold for runs below it.  \<^verbatim>\<open>unsigned long\<close> has 64 bits, as on Linux and macOS, except in the
  desktop client, which is built for Windows only, where it has 32.

  \<^bold>\<open>Storage.\<close>  \<open>Crc32\<close> is \<^verbatim>\<open>storage/crc32.cpp\<close>: the table is the bit-serial checksum's, and damage to four
  consecutive bytes is always noticed.  \<open>Wal\<close> is \<^verbatim>\<open>storage/wal.cpp\<close>: replay gives back what was appended; a record
  torn by a crash is dropped, and what was appended after a torn record is lost, since the file object (\<open>wf_\<close>) is positioned
  behind the torn bytes.  \<open>Memtable\<close> is
  \<^verbatim>\<open>storage/memtable.cpp\<close> and \<^verbatim>\<open>storage/lookup.h\<close>, \<open>SSTable\<close> is \<^verbatim>\<open>storage/sstable.cpp\<close> (over
  \<open>Ifstream\<close>): both are layers in the sense of the locale \<open>kv_layer\<close>.  \<open>Engine\<close> is \<^verbatim>\<open>storage/engine.cpp\<close>: its
  operations refine a map from keys to values, flushes, compactions and reopening included; the history of its file
  operations gives the points at which it may crash, and recovery from each of them is shown, but for one window of the
  compaction in which deleted keys come back.  The locale \<open>kv_store\<close> is what the layers above use of the engine.

  \<^bold>\<open>SQL.\<close>  \<open>Lexer\<close> and \<open>Parser\<close> are \<^verbatim>\<open>sql/lexer.cpp\<close> and \<^verbatim>\<open>sql/parser.cpp\<close>; \<open>Sql_Text\<close> shows that the parser
  stays within its tokens, throws only syntax errors, and reads back every well-formed statement from its printed form.
  \<open>Sql_Schema\<close> is \<^verbatim>\<open>sql/ast.h\<close> and \<^verbatim>\<open>sql/schema.cpp\<close>; \<open>Executor\<close> is \<^verbatim>\<open>sql/executor.cpp\<close>.  \<open>Sql_Store\<close>
  shows that a statement's effect depends on the contents of the store only; \<open>Sql_Effects\<close> and \<open>Sql_Rows\<close> give the effect
  of each statement on rows and the invariant of the contents; \<open>Sql_Tables\<close> states the meaning of the statements on
  tables, \<open>stmt_spec\<close>, and shows that the executor refines it, and what a statement that throws midway has changed.

  \<^bold>\<open>Raft.\<close>  \<open>Message\<close> is \<^verbatim>\<open>raft/message.cpp\<close>: the twelve messages, read back, and rejected when they are cut
  short, by the locale \<open>codec\<close> of \<open>Bytes\<close>.  \<open>Raft_Log\<close> is \<^verbatim>\<open>raft/log.cpp\<close>; \<open>Node_Files\<close> is
  \<^verbatim>\<open>raft/persistent_state.cpp\<close> and \<^verbatim>\<open>raft/membership_state.cpp\<close>.  \<open>Raft_Node\<close> is \<^verbatim>\<open>raft/node.cpp\<close>, one
  definition for each critical section.  \<open>Raft_Step\<close> is the relation of all of them in any order, with crashes, and shows
  that terms only grow and votes stand, below the greatest term; \<open>Raft_Invariant\<close> gives the invariant of a node; \<open>Raft_Replication\<close> and
  \<open>Raft_Apply\<close> the effects of voting, committing, replicating, applying and installing snapshots.  \<open>Raft_Election\<close> runs several
  nodes with their vote requests in flight and shows election safety, from the locale \<open>quorum_system\<close>.

  \<^bold>\<open>Raft as a protocol.\<close>  \<open>Raft_Protocol\<close> is Raft on logs that keep every entry, with the history of votes, leaders and
  acknowledgements in the state; its invariant gives that committed entries agree, and \<open>Raft_Protocol_Inv\<close> shows that every step
  keeps it.  \<open>Raft_World\<close> puts nodes running \<^verbatim>\<open>raft/node.cpp\<close> together with their messages in flight, which may be lost,
  repeated and reordered, elections, proposals, snapshots, ticks and restarts from the files included, and relates such a
  world to a state of the protocol.  \<open>Raft_Full_Log\<close> says when a node's log, cut at its snapshot, holds the protocol's;
  \<open>Raft_Handlers\<close> gives what each handler does to it; \<open>Raft_Simulation\<close> matches every step of a world by steps of the protocol.
  \<open>Raft_Safety\<close> concludes, for the code's own nodes: state machine safety, leader completeness and log matching; with
  \<open>Raft_Replay\<close>, which says that a node's machine is what its applied entries make of the machine it started with, also that
  the machines of all nodes follow one list of proposed commands, as long as restarts find the machine they left and no snapshot is installed (the findings say what
  goes wrong otherwise).  \<open>Raft_Run\<close> is a run of three nodes on which the theorems are applied; \<open>Raft_Rpc\<close> is a call from one
  node to another with its bytes and its thread, and shows that the records of \<open>Raft_World\<close> say the same.  A world starts from empty logs and snapshots, nodes know each
  other, and the commands proposed are not membership changes: this is a restriction of the theorems, not of the model of
  the node.  An installation of a snapshot is three critical sections, as in the code, between which others may come.

  \<^bold>\<open>Network.\<close>  \<open>Transport\<close> and \<open>Server\<close> are \<^verbatim>\<open>raft/transport.cpp\<close>, over the system calls as a record of functions on
  the state of the world: framing, requests, closing, and the accept loop with its threads, interleaved.  \<open>Client\<close> is
  \<^verbatim>\<open>raft/client.cpp\<close>: the search for the leader, reads, discovery and the circuit breaker, over the network and the
  clock as parameters.

  \<^bold>\<open>Transactions and processes.\<close>  \<open>Txn\<close> is \<^verbatim>\<open>txn/txn.cpp\<close> and \<^verbatim>\<open>raft/conf_change.cpp\<close>, the commands of the log
  that are not SQL; \<open>Participant\<close> is \<^verbatim>\<open>txn/participant.cpp\<close>, a shard's side of two-phase commit; \<open>Routing\<close> is
  \<^verbatim>\<open>shard/routing.cpp\<close>.  \<open>Replica\<close> models the callbacks that \<^verbatim>\<open>raft_main.cpp\<close> gives to Raft, the replicated
  machine, and shows its invariant and that machines which hold the same stay the same; \<open>Cluster\<close> puts it under the Raft node.
  \<open>Cluster_Throws\<close> writes the sections of the node that apply entries with callbacks that throw, as the program's do on a
  malformed control command or snapshot: they do what the node of \<open>Raft_Node\<close> does or throw at that entry, with the position in
  memory at it and the one on disk before it.
  \<open>Two_Phase\<close> is the coordinator, \<open>Shell\<close> the rest of \<^verbatim>\<open>raft_main.cpp\<close>, \<open>Kv_Shell\<close> is \<^verbatim>\<open>main.cpp\<close> and
  \<open>Desktop\<close> is \<^verbatim>\<open>ui/main.cpp\<close>.

  \<^bold>\<open>The library.\<close>  \<open>Prelude\<close> holds the exceptions, the computations with their rules (\<open>keeps\<close>: an invariant is kept;
  \<open>total\<close>: nothing is thrown), the character classes and number formats of the C library, and the collections of hints.
  The locales state the interfaces: \<open>ordered_map\<close> (\<open>Ord_Map\<close>), \<open>codec\<close> (\<open>Bytes\<close>, twenty-eight interpretations),
  \<open>kv_layer\<close> (\<open>Memtable\<close>, \<open>SSTable\<close>), \<open>kv_store\<close> (\<open>Engine\<close>) and \<open>quorum_system\<close> (\<open>Raft_Election\<close>), each interpreted on the
  model's own definitions.

  \<^bold>\<open>Bounds.\<close>  Every loop of the model ends by structure or by a measure that is proved to decrease; there is no fuel.
  \<open>eng_cap\<close> bounds the bytes that were written to the engine, so that no length or offset of 32 bits overflows; the
  theorems over the engine carry it as a condition on the room left.  The number of hops of a client's request is the
  code's own bound.

  \<^bold>\<open>What is not modelled.\<close>  Threads appear as the interleaving of critical sections, not as memory accesses: the data
  race of \<^verbatim>\<open>StartElection\<close> and \<^verbatim>\<open>ProposeOrForward\<close> on the table of peers is reported as a finding and excluded.  The
  loops that wait for time to pass (\<^verbatim>\<open>TickerLoop\<close>, the waiting of a proposal) are the steps they take; which
  timeout is drawn at random is a parameter.  Sockets, files and the clock are the functions and strings named above; a
  file operation either happens or, in a crash, does not.  Writes to the console are the values of the steps that make
  them, and measured times are left out.  Of the desktop client, the window, its messages and the drawing
  (\<^verbatim>\<open>ui/main.cpp\<close> up to line 138 and most of \<^verbatim>\<open>WinMain\<close>) are left out: they are calls of Windows, Direct3D and
  Dear ImGui, which lie outside this repository's own code.
\<close>

end
